(* ===== verification/Prelude.thy ===== *)
theory Prelude
  imports Main "HOL-Library.Word"
begin

text \<open>
  Shared vocabulary of the development: the machine integer types of
  \<^verbatim>\<open>include/types.h\<close>, 64-bit and 32-bit arithmetic on \<open>nat\<close> with the wrap-around
  written out, a byte-addressed memory with little-endian loads and stores (x86), the
  error numbers of \<^verbatim>\<open>include/errno.h\<close>, and the generic lemmas on lists, words and
  memory that the component theories use.
\<close>

unbundle bit_operations_syntax

section \<open>Machine integers\<close>

type_synonym u8 = "8 word"
type_synonym u16 = "16 word"
type_synonym u32 = "32 word"
type_synonym u64 = "64 word"

text \<open>Unsigned arithmetic on \<open>nat\<close>: the value of a \<open>uint64_t\<close> or \<open>uint32_t\<close> expression.\<close>

definition add64 :: "nat \<Rightarrow> nat \<Rightarrow> nat" where
  "add64 a b = (a + b) mod 2 ^ 64"

definition sub64 :: "nat \<Rightarrow> nat \<Rightarrow> nat" where
  "sub64 a b = (a + (2 ^ 64 - b mod 2 ^ 64)) mod 2 ^ 64"

definition mul64 :: "nat \<Rightarrow> nat \<Rightarrow> nat" where
  "mul64 a b = (a * b) mod 2 ^ 64"

definition add32 :: "nat \<Rightarrow> nat \<Rightarrow> nat" where
  "add32 a b = (a + b) mod 2 ^ 32"

definition sub32 :: "nat \<Rightarrow> nat \<Rightarrow> nat" where
  "sub32 a b = (a + (2 ^ 32 - b mod 2 ^ 32)) mod 2 ^ 32"

definition mul32 :: "nat \<Rightarrow> nat \<Rightarrow> nat" where
  "mul32 a b = (a * b) mod 2 ^ 32"

text \<open>\<open>UINT64_MAX\<close>, which is also \<open>SIZE_MAX\<close> on x86-64.\<close>

definition UINT64_MAX :: nat where
  "UINT64_MAX = 2 ^ 64 - 1"

text \<open>A 32-bit value as an \<open>int\<close> of C.\<close>

definition to_int32 :: "nat \<Rightarrow> int" where
  "to_int32 n = (if n < 2 ^ 31 then int n else int n - 2 ^ 32)"

named_theorems wrap_simps \<open>unsigned arithmetic that does not wrap\<close>

lemma add64_exact [wrap_simps]: "a + b < 2 ^ 64 \<Longrightarrow> add64 a b = a + b"
  by (simp add: add64_def)

lemma sub64_exact [wrap_simps]: "b \<le> a \<Longrightarrow> a < 2 ^ 64 \<Longrightarrow> sub64 a b = a - b"
proof -
  assume "b \<le> a" and "a < 2 ^ 64"
  then have "a + (2 ^ 64 - b mod 2 ^ 64) = (a - b) + 2 ^ 64" by simp
  then have "sub64 a b = ((a - b) + 2 ^ 64) mod 2 ^ 64" by (simp only: sub64_def)
  also have "\<dots> = (a - b) mod 2 ^ 64" by (rule mod_add_self2)
  finally show ?thesis using \<open>a < 2 ^ 64\<close> by simp
qed

lemma mul64_exact [wrap_simps]: "a * b < 2 ^ 64 \<Longrightarrow> mul64 a b = a * b"
  by (simp add: mul64_def)

lemma add32_exact [wrap_simps]: "a + b < 2 ^ 32 \<Longrightarrow> add32 a b = a + b"
  by (simp add: add32_def)

lemma sub32_exact [wrap_simps]: "b \<le> a \<Longrightarrow> a < 2 ^ 32 \<Longrightarrow> sub32 a b = a - b"
proof -
  assume "b \<le> a" and "a < 2 ^ 32"
  then have "a + (2 ^ 32 - b mod 2 ^ 32) = (a - b) + 2 ^ 32" by simp
  then have "sub32 a b = ((a - b) + 2 ^ 32) mod 2 ^ 32" by (simp only: sub32_def)
  also have "\<dots> = (a - b) mod 2 ^ 32" by (rule mod_add_self2)
  finally show ?thesis using \<open>a < 2 ^ 32\<close> by simp
qed

lemma mul32_exact [wrap_simps]: "a * b < 2 ^ 32 \<Longrightarrow> mul32 a b = a * b"
  by (simp add: mul32_def)

lemma add64_bound [simp]: "add64 a b < 2 ^ 64"
  by (simp add: add64_def)

lemma sub64_bound [simp]: "sub64 a b < 2 ^ 64"
  by (simp add: sub64_def)

lemma add32_bound [simp]: "add32 a b < 2 ^ 32"
  by (simp add: add32_def)

lemma sub32_bound [simp]: "sub32 a b < 2 ^ 32"
  by (simp add: sub32_def)

text \<open>Testing one bit with a mask (\<open>push_bit k 1\<close> is simplified to \<open>2 ^ k\<close>).\<close>

lemma bit_exp_word [simp]: "bit ((2 :: 'w::len word) ^ k) j \<longleftrightarrow> k < LENGTH('w) \<and> j = k"
  by (auto simp: bit_exp_iff possible_bit_def)

lemma and_exp_eq_0_iff: "(w :: 'w::len word) AND 2 ^ k = 0 \<longleftrightarrow> \<not> (k < LENGTH('w) \<and> bit w k)"
  by (subst bit_eq_iff) (auto simp: bit_and_iff)

section \<open>Byte-addressed memory\<close>

type_synonym memory = "nat \<Rightarrow> u8"

text \<open>A little-endian load of \<open>n\<close> bytes at \<open>a\<close>, as the x86 word loads of the code.\<close>

fun load_le :: "memory \<Rightarrow> nat \<Rightarrow> nat \<Rightarrow> 'w::len word" where
  "load_le m a 0 = 0"
| "load_le m a (Suc n) = ucast (m a) OR push_bit 8 (load_le m (Suc a) n)"

text \<open>A little-endian store of the low \<open>n\<close> bytes of a word.\<close>

definition store_le :: "memory \<Rightarrow> nat \<Rightarrow> nat \<Rightarrow> 'w::len word \<Rightarrow> memory" where
  "store_le m a n w = (\<lambda>x. if a \<le> x \<and> x < a + n then ucast (drop_bit (8 * (x - a)) w) else m x)"

lemma bit_load_le:
  "bit (load_le m a n :: 'w::len word) k \<longleftrightarrow>
     k < LENGTH('w) \<and> k < 8 * n \<and> bit (m (a + k div 8)) (k mod 8)"
proof (induction n arbitrary: a k)
  case 0
  then show ?case by simp
next
  case (Suc n)
  show ?case
  proof (cases "k < 8")
    case True
    then show ?thesis by (auto simp: bit_or_iff bit_push_bit_iff bit_ucast_iff)
  next
    case False
    then obtain j where k: "k = j + 8" by (metis add.commute le_Suc_ex not_less)
    have "\<not> bit (m a) k" using False bit_imp_le_length by fastforce
    moreover have "(j + 8) div 8 = Suc (j div 8)" and "(j + 8) mod 8 = j mod 8" by simp_all
    ultimately show ?thesis
      using Suc.IH [of "Suc a" j] k
      by (auto simp: bit_or_iff bit_push_bit_iff bit_ucast_iff simp del: div_add_self2)
  qed
qed

lemma load_le_numeral:
  "load_le m a 2 = (ucast (m a) OR push_bit 8 (ucast (m (Suc a))) :: 'w::len word)"
  "load_le m a 4 = (ucast (m a) OR push_bit 8 (ucast (m (Suc a)) OR push_bit 8 (ucast (m (Suc (Suc a))) OR
     push_bit 8 (ucast (m (Suc (Suc (Suc a))))))) :: 'w::len word)"
  by (simp_all add: numeral_2_eq_2 numeral_eq_Suc)

lemma load_le_cong:
  "(\<And>i. i < n \<Longrightarrow> m (a + i) = m' (b + i)) \<Longrightarrow> load_le m a n = (load_le m' b n :: 'w::len word)"
proof (induction n arbitrary: a b)
  case 0
  then show ?case by simp
next
  case (Suc n)
  have "load_le m (Suc a) n = (load_le m' (Suc b) n :: 'w word)"
    by (rule Suc.IH) (use Suc.prems [of "Suc _"] in simp)
  then show ?case using Suc.prems [of 0] by simp
qed

lemma store_load_le:
  assumes "8 * n \<le> LENGTH('w::len)"
  shows "store_le m d n (load_le m s n :: 'w word) =
    (\<lambda>x. if d \<le> x \<and> x < d + n then m (s + (x - d)) else m x)"
proof
  fix x
  show "store_le m d n (load_le m s n :: 'w word) x =
    (if d \<le> x \<and> x < d + n then m (s + (x - d)) else m x)"
  proof (cases "d \<le> x \<and> x < d + n")
    case True
    have "ucast (drop_bit (8 * (x - d)) (load_le m s n :: 'w word)) = m (s + (x - d))"
    proof (rule bit_eqI)
      fix k assume "possible_bit TYPE(8 word) k"
      then have k: "k < 8" by (simp add: possible_bit_def)
      have "8 * (x - d) + k < 8 * n" using True k by linarith
      moreover have "(8 * (x - d) + k) div 8 = x - d" and "(8 * (x - d) + k) mod 8 = k"
        using k by simp_all
      ultimately show "bit (ucast (drop_bit (8 * (x - d)) (load_le m s n :: 'w word)) :: u8) k =
          bit (m (s + (x - d))) k"
        using k assms
        by (simp add: bit_ucast_iff bit_drop_bit_eq bit_load_le)
    qed
    with True show ?thesis by (simp add: store_le_def)
  next
    case False
    then show ?thesis by (auto simp: store_le_def)
  qed
qed

section \<open>Error numbers (include/errno.h)\<close>

abbreviation (input) "EPERM \<equiv> (1::int)"
abbreviation (input) "ENOENT \<equiv> (2::int)"
abbreviation (input) "EINTR \<equiv> (4::int)"
abbreviation (input) "EIO \<equiv> (5::int)"
abbreviation (input) "EAGAIN \<equiv> (11::int)"
abbreviation (input) "ENOMEM \<equiv> (12::int)"
abbreviation (input) "EFAULT \<equiv> (14::int)"
abbreviation (input) "EEXIST \<equiv> (17::int)"
abbreviation (input) "ENOTDIR \<equiv> (20::int)"
abbreviation (input) "EINVAL \<equiv> (22::int)"
abbreviation (input) "ENOTTY \<equiv> (25::int)"
abbreviation (input) "ENOSPC \<equiv> (28::int)"
abbreviation (input) "ENAMETOOLONG \<equiv> (36::int)"
abbreviation (input) "ETIMEDOUT \<equiv> (110::int)"

text \<open>What a failed \<open>ASSERT\<close> does (include/assert.h): interrupts off and halt.\<close>

datatype panic = Panic string

section \<open>Lists\<close>

lemma find_append:
  "find P (xs @ ys) = (case find P xs of None \<Rightarrow> find P ys | Some x \<Rightarrow> Some x)"
  by (induction xs) auto

lemma find_SomeD: "find P xs = Some x \<Longrightarrow> x \<in> set xs \<and> P x"
  by (induction xs) (auto split: if_splits)

lemma find_unique:
  assumes "x \<in> set xs" "P x" "\<And>y. y \<in> set xs \<Longrightarrow> P y \<Longrightarrow> y = x"
  shows "find P xs = Some x"
proof (cases "find P xs")
  case None
  then show ?thesis using assms(1,2) by (auto simp: find_None_iff)
next
  case (Some y)
  then show ?thesis using find_SomeD [OF Some] assms(3) by simp
qed

lemma option_eqI: "(\<And>a. f = Some a \<longleftrightarrow> g = Some a) \<Longrightarrow> f = g"
  by (metis option.exhaust)

lemma find_upt_None: "find P [a..<b] = None \<longleftrightarrow> (\<forall>i. a \<le> i \<and> i < b \<longrightarrow> \<not> P i)"
  by (auto simp: find_None_iff)

lemma find_upt_SomeI:
  assumes "a \<le> i" "i < b" "P i" "\<And>j. a \<le> j \<Longrightarrow> j < i \<Longrightarrow> \<not> P j"
  shows "find P [a..<b] = Some i"
proof -
  have "[a..<b] = [a..<i] @ i # [Suc i..<b]"
    using assms(1,2) upt_add_eq_append [of a i "b - i"] by (simp add: upt_conv_Cons)
  moreover have "find P [a..<i] = None" using assms(4) by (auto simp: find_upt_None)
  ultimately show ?thesis using assms(3) by (simp add: find_append)
qed

lemma find_upt_Some:
  assumes "find P [a..<b] = Some i"
  shows "a \<le> i" "i < b" "P i" "\<And>j. a \<le> j \<Longrightarrow> j < i \<Longrightarrow> \<not> P j"
proof -
  obtain k where k: "k < b - a" "P (a + k)" "i = a + k" "\<forall>j<k. \<not> P (a + j)"
    using assms by (auto simp: find_Some_iff)
  show "a \<le> i" "i < b" "P i" using k by auto
  fix j assume "a \<le> j" "j < i"
  then have "j - a < k" and "a + (j - a) = j" using k(3) by auto
  with k(4) show "\<not> P j" by metis
qed

text \<open>A search over an interval skips a part with no hit, and stops at the first hit.\<close>

lemma find_upt_skip:
  assumes "a \<le> c" "\<And>i. a \<le> i \<Longrightarrow> i < c \<Longrightarrow> \<not> P i"
  shows "find P [a..<b] = find P [c..<b]"
proof (cases "c \<le> b")
  case True
  then have "[a..<b] = [a..<c] @ [c..<b]" using upt_add_eq_append [OF assms(1), of "b - c"] by simp
  moreover have "find P [a..<c] = None" using assms(2) by (auto simp: find_upt_None)
  ultimately show ?thesis by (simp add: find_append)
next
  case False
  with assms(2) have "find P [a..<b] = None" by (auto simp: find_upt_None)
  with False show ?thesis by simp
qed

lemma find_upt_first:
  assumes "a \<le> i" "P i" "\<And>j. a \<le> j \<Longrightarrow> j < i \<Longrightarrow> \<not> P j"
  shows "find P [a..<b] = (if b \<le> i then None else Some i)"
  using assms by (auto simp: find_upt_None intro: find_upt_SomeI)

text \<open>Sectors and pages laid end to end.\<close>

definition blocks_of :: "nat \<Rightarrow> 'a list list \<Rightarrow> bool" where
  "blocks_of n xs \<longleftrightarrow> (\<forall>x \<in> set xs. length x = n)"

lemma blocks_of_simps [simp]: "blocks_of n []" "blocks_of n (x # xs) \<longleftrightarrow> length x = n \<and> blocks_of n xs"
  by (auto simp: blocks_of_def)

lemma length_concat_blocks: "blocks_of n xs \<Longrightarrow> length (concat xs) = length xs * n"
  by (induction xs) auto

lemma take_drop_concat_blocks:
  "blocks_of n xs \<Longrightarrow> j < length xs \<Longrightarrow> take n (drop (j * n) (concat xs)) = xs ! j"
proof (induction xs arbitrary: j)
  case (Cons x xs)
  then show ?case by (cases j) auto
qed simp

lemma concat_blocks_update:
  "blocks_of n xs \<Longrightarrow> j < length xs \<Longrightarrow> length v = n \<Longrightarrow>
     concat (xs[j := v]) = take (j * n) (concat xs) @ v @ drop (j * n + n) (concat xs)"
proof (induction xs arbitrary: j)
  case (Cons x xs)
  then show ?case by (cases j) (auto simp: algebra_simps)
qed simp

text \<open>Overwriting part of a list.\<close>

definition overwrite :: "nat \<Rightarrow> 'a list \<Rightarrow> 'a list \<Rightarrow> 'a list" where
  "overwrite p new xs = take p xs @ new @ drop (p + length new) xs"

lemma overwrite_Nil [simp]: "overwrite p [] xs = xs"
  by (simp add: overwrite_def)

lemma length_overwrite: "p + length new \<le> length xs \<Longrightarrow> length (overwrite p new xs) = length xs"
  by (simp add: overwrite_def)

lemma take_drop_overwrite:
  "p + length new \<le> length xs \<Longrightarrow> take (length new) (drop p (overwrite p new xs)) = new"
  by (simp add: overwrite_def)

lemma overwrite_append:
  "p + length a + length b \<le> length xs \<Longrightarrow>
     overwrite (p + length a) b (overwrite p a xs) = overwrite p (a @ b) xs"
  by (simp add: overwrite_def ac_simps)

text \<open>Overwriting inside one block overwrites the whole.\<close>

lemma overwrite_middle:
  "p + length new \<le> length x \<Longrightarrow> overwrite (length a + p) new (a @ x @ b) = a @ overwrite p new x @ b"
  by (simp add: overwrite_def add.assoc)

lemma concat_blocks_overwrite:
  assumes "blocks_of n xs" "j < length xs" "p + length new \<le> n"
  shows "concat (xs[j := overwrite p new (xs ! j)]) = overwrite (j * n + p) new (concat xs)"
proof -
  have len: "length (xs ! j) = n" using assms(1,2) by (simp add: blocks_of_def)
  have "blocks_of n (take j xs)" using assms(1) by (auto simp: blocks_of_def dest: in_set_takeD)
  then have a: "length (concat (take j xs)) = j * n" using length_concat_blocks assms(2) by fastforce
  have c: "concat (xs[j := v]) = concat (take j xs) @ v @ concat (drop (Suc j) xs)" for v
    using assms(2) by (simp add: upd_conv_take_nth_drop)
  have "concat xs = concat (take j xs) @ xs ! j @ concat (drop (Suc j) xs)"
    using c [of "xs ! j"] by simp
  then show ?thesis
    using overwrite_middle [of p new "xs ! j" "concat (take j xs)"] c a len assms(3) by simp
qed

end
