(* ===== verification/Bcache.thy ===== *)
theory Bcache
  imports Prelude
begin

text \<open>
  The sector cache of \<^verbatim>\<open>kernel/fs/bcache.c\<close>: 128 slots of 512 bytes with LRU
  replacement. The slot array is a list (\<open>None\<close> is the NULL pointer before
  \<open>bcache_init\<close> or after a failed allocation), a loop over the slots is a search over
  their indices, and every operation is the critical section it runs under
  \<open>bcache_lock\<close>. The locale \<open>sector_cache\<close> is what the file systems and the
  page allocator rely on; it is interpreted on these operations.
\<close>

section \<open>State (bcache.c, lines 9-19)\<close>

record bcache_entry =
  be_volume_id :: u32
  be_sector :: u32
  be_data :: "u8 list"
  be_valid :: bool
  be_last_access :: nat

record bcache_state =
  bcache :: "bcache_entry list option"
  bcache_lock :: bool
  access_counter :: nat

definition BCACHE_SIZE :: nat where
  "BCACHE_SIZE = 128"

definition zero_entry :: bcache_entry where
  "zero_entry = \<lparr>be_volume_id = 0, be_sector = 0, be_data = replicate 512 0,
     be_valid = False, be_last_access = 0\<rparr>"

section \<open>Operations\<close>

text \<open>The argument says whether \<open>kmalloc\<close> returned a block.\<close>

definition bcache_init :: "bool \<Rightarrow> bcache_state \<Rightarrow> bcache_state" where
  "bcache_init kmalloc_ok s =
     \<lparr>bcache = (if kmalloc_ok then Some (replicate BCACHE_SIZE zero_entry) else None),
      bcache_lock = False, access_counter = 0\<rparr>"

definition be_match :: "u32 \<Rightarrow> u32 \<Rightarrow> bcache_entry \<Rightarrow> bool" where
  "be_match vol sec e \<longleftrightarrow> be_valid e \<and> be_volume_id e = vol \<and> be_sector e = sec"

text \<open>The first slot that matches, as each \<open>for (i = 0; i < BCACHE_SIZE; i++)\<close> finds it.\<close>

definition slot_of :: "u32 \<Rightarrow> u32 \<Rightarrow> bcache_entry list \<Rightarrow> nat option" where
  "slot_of vol sec c = find (\<lambda>i. be_match vol sec (c ! i)) [0..<length c]"

text \<open>Result: the return value, the caller's buffer and the new state.\<close>

definition bcache_read ::
  "bcache_state \<Rightarrow> u32 \<Rightarrow> u32 \<Rightarrow> u8 list \<Rightarrow> int \<times> u8 list \<times> bcache_state" where
  "bcache_read s vol sec buffer =
     (case bcache s of
        None \<Rightarrow> (- EINVAL, buffer, s)
      | Some c \<Rightarrow>
          (case slot_of vol sec c of
             Some i \<Rightarrow>
               let cnt = add64 (access_counter s) 1 in
               (0, be_data (c ! i),
                s\<lparr>bcache := Some (c[i := (c ! i)\<lparr>be_last_access := cnt\<rparr>]), access_counter := cnt\<rparr>)
           | None \<Rightarrow> (- EINVAL, buffer, s)))"

text \<open>The victim loop: an empty slot ends it, otherwise the smallest \<open>last_access\<close> wins.\<close>

fun bcache_victim :: "bcache_entry list \<Rightarrow> nat \<Rightarrow> nat \<Rightarrow> nat option \<Rightarrow> nat option" where
  "bcache_victim [] i min_access victim_idx = victim_idx"
| "bcache_victim (e # es) i min_access victim_idx =
     (if \<not> be_valid e then Some i
      else if be_last_access e < min_access
        then bcache_victim es (Suc i) (be_last_access e) (Some i)
      else bcache_victim es (Suc i) min_access victim_idx)"

definition bcache_write :: "bcache_state \<Rightarrow> u32 \<Rightarrow> u32 \<Rightarrow> u8 list \<Rightarrow> bcache_state" where
  "bcache_write s vol sec buffer =
     (case bcache s of
        None \<Rightarrow> s
      | Some c \<Rightarrow>
          let cnt = add64 (access_counter s) 1 in
          (case slot_of vol sec c of
             Some i \<Rightarrow>
               s\<lparr>bcache := Some (c[i := (c ! i)\<lparr>be_data := take 512 buffer, be_last_access := cnt\<rparr>]),
                 access_counter := cnt\<rparr>
           | None \<Rightarrow>
               (case bcache_victim c 0 UINT64_MAX None of
                  Some v \<Rightarrow>
                    s\<lparr>bcache := Some (c[v := \<lparr>be_volume_id = vol, be_sector = sec,
                         be_data = take 512 buffer, be_valid = True, be_last_access = cnt\<rparr>]),
                      access_counter := cnt\<rparr>
                | None \<Rightarrow> s)))"

definition bcache_invalidate :: "bcache_state \<Rightarrow> u32 \<Rightarrow> u32 \<Rightarrow> bcache_state" where
  "bcache_invalidate s vol sec =
     (case bcache s of
        None \<Rightarrow> s
      | Some c \<Rightarrow>
          (case slot_of vol sec c of
             Some i \<Rightarrow> s\<lparr>bcache := Some (c[i := (c ! i)\<lparr>be_valid := False\<rparr>])\<rparr>
           | None \<Rightarrow> s))"

text \<open>The only operation that gives up when the lock is taken (\<open>spin_trylock\<close>).\<close>

definition bcache_invalidate_all :: "bcache_state \<Rightarrow> bcache_state" where
  "bcache_invalidate_all s =
     (case bcache s of
        None \<Rightarrow> s
      | Some c \<Rightarrow>
          if bcache_lock s then s
          else s\<lparr>bcache := Some (map (\<lambda>e. e\<lparr>be_valid := False\<rparr>) c)\<rparr>)"

text \<open>What a read returns, as a partial function of the key.\<close>

definition cached :: "bcache_state \<Rightarrow> u32 \<times> u32 \<Rightarrow> u8 list option" where
  "cached s k =
     (case bcache_read s (fst k) (snd k) [] of (r, d, _) \<Rightarrow> if r = 0 then Some d else None)"

text \<open>At most one valid slot per sector, and full sectors in the valid slots.\<close>

definition bcache_inv :: "bcache_state \<Rightarrow> bool" where
  "bcache_inv s \<longleftrightarrow>
     (case bcache s of
        None \<Rightarrow> True
      | Some c \<Rightarrow>
          length c = BCACHE_SIZE \<and>
          (\<forall>i < length c. \<forall>j < length c. be_valid (c ! i) \<and> be_valid (c ! j) \<and>
             be_volume_id (c ! i) = be_volume_id (c ! j) \<and> be_sector (c ! i) = be_sector (c ! j)
             \<longrightarrow> i = j) \<and>
          (\<forall>i < length c. length (be_data (c ! i)) = 512))"

text \<open>The access counter has not run to the end of its 64 bits.\<close>

definition bcache_fresh :: "bcache_state \<Rightarrow> bool" where
  "bcache_fresh s \<longleftrightarrow>
     access_counter s < UINT64_MAX \<and>
     (case bcache s of None \<Rightarrow> False | Some c \<Rightarrow> \<forall>e \<in> set c. be_last_access e \<le> access_counter s)"

section \<open>The interface of a sector cache\<close>

locale sector_cache =
  fixes lookup :: "'s \<Rightarrow> 'k \<Rightarrow> 'v option"
    and store :: "'s \<Rightarrow> 'k \<Rightarrow> 'v \<Rightarrow> 's"
    and drop_key :: "'s \<Rightarrow> 'k \<Rightarrow> 's"
    and invar :: "'s \<Rightarrow> bool"
    and full :: "'v \<Rightarrow> bool"
  assumes lookup_store: "invar s \<Longrightarrow> full v \<Longrightarrow> lookup (store s k v) k \<in> {Some v, None}"
    and lookup_store_other:
      "invar s \<Longrightarrow> full v \<Longrightarrow> k' \<noteq> k \<Longrightarrow> lookup (store s k v) k' \<in> {lookup s k', None}"
    and lookup_drop: "invar s \<Longrightarrow> lookup (drop_key s k) k = None"
    and lookup_drop_other: "invar s \<Longrightarrow> k' \<noteq> k \<Longrightarrow> lookup (drop_key s k) k' = lookup s k'"
    and invar_store: "invar s \<Longrightarrow> full v \<Longrightarrow> invar (store s k v)"
    and invar_drop: "invar s \<Longrightarrow> invar (drop_key s k)"
begin

text \<open>The cache never disagrees with the disk behind it.\<close>

definition coherent :: "('k \<Rightarrow> 'v) \<Rightarrow> 's \<Rightarrow> bool" where
  "coherent disk s \<longleftrightarrow> (\<forall>k v. lookup s k = Some v \<longrightarrow> disk k = v)"

lemma coherent_write_through:
  assumes "invar s" "full v" "coherent disk s"
  shows "coherent (disk(k := v)) (store s k v)"
  unfolding coherent_def
proof (intro allI impI)
  fix k' v' assume l: "lookup (store s k v) k' = Some v'"
  show "(disk(k := v)) k' = v'"
  proof (cases "k' = k")
    case True
    with l lookup_store [OF assms(1,2), of k] show ?thesis by auto
  next
    case False
    with l lookup_store_other [OF assms(1,2) False] assms(3) show ?thesis
      by (auto simp: coherent_def)
  qed
qed

lemma coherent_fill:
  assumes "invar s" "full (disk k)" "coherent disk s"
  shows "coherent disk (store s k (disk k))"
  using coherent_write_through [OF assms(1,2,3), of k] by simp

lemma coherent_drop:
  assumes "invar s" "coherent disk s"
  shows "coherent (disk(k := v)) (drop_key s k)"
  unfolding coherent_def
proof (intro allI impI)
  fix k' v' assume l: "lookup (drop_key s k) k' = Some v'"
  then have "k' \<noteq> k" using lookup_drop [OF assms(1), of k] by auto
  with l show "(disk(k := v)) k' = v'"
    using lookup_drop_other [OF assms(1)] assms(2) by (auto simp: coherent_def)
qed

end

section \<open>Lemmas on slots\<close>

lemma slot_of_Some:
  assumes "slot_of vol sec c = Some i"
  shows "i < length c" "be_match vol sec (c ! i)"
  using assms find_upt_Some [of _ 0 "length c" i] by (auto simp: slot_of_def)

lemma slot_of_None: "slot_of vol sec c = None \<longleftrightarrow> (\<forall>e \<in> set c. \<not> be_match vol sec e)"
  by (simp add: slot_of_def find_upt_None all_set_conv_all_nth)

definition one_slot :: "bcache_entry list \<Rightarrow> bool" where
  "one_slot c \<longleftrightarrow>
     (\<forall>i < length c. \<forall>j < length c. be_valid (c ! i) \<and> be_valid (c ! j) \<and>
        be_volume_id (c ! i) = be_volume_id (c ! j) \<and> be_sector (c ! i) = be_sector (c ! j)
        \<longrightarrow> i = j)"

lemma bcache_inv_alt:
  "bcache_inv s \<longleftrightarrow> (case bcache s of None \<Rightarrow> True | Some c \<Rightarrow>
     length c = BCACHE_SIZE \<and> one_slot c \<and> (\<forall>e \<in> set c. length (be_data e) = 512))"
  by (auto simp: bcache_inv_def one_slot_def all_set_conv_all_nth split: option.splits)

lemma slot_of_eqI:
  "one_slot c \<Longrightarrow> i < length c \<Longrightarrow> be_match vol sec (c ! i) \<Longrightarrow> slot_of vol sec c = Some i"
proof -
  assume c: "one_slot c" "i < length c" "be_match vol sec (c ! i)"
  then obtain j where j: "slot_of vol sec c = Some j"
    using slot_of_None [of vol sec c] nth_mem by (cases "slot_of vol sec c") fastforce+
  from slot_of_Some [OF j] c have "j = i"
    by (auto simp: one_slot_def be_match_def)
  with j show ?thesis by simp
qed

lemma one_slot_update:
  assumes "one_slot c" "v < length c"
    and "be_valid e \<Longrightarrow>
      (\<forall>j < length c. j \<noteq> v \<longrightarrow> \<not> be_match (be_volume_id e) (be_sector e) (c ! j))"
  shows "one_slot (c[v := e])"
  using assms by (auto simp: one_slot_def nth_list_update be_match_def)

lemma bcache_victim_bound:
  "bcache_victim es i m w = Some v \<Longrightarrow> (v < i + length es \<and> i \<le> v) \<or> w = Some v"
proof (induction es i m w rule: bcache_victim.induct)
  case (1 i m w)
  then show ?case by simp
next
  case (2 e es i m w)
  then show ?case by (fastforce split: if_splits)
qed

lemma bcache_victim_0: "bcache_victim c 0 m None = Some v \<Longrightarrow> v < length c"
  using bcache_victim_bound [of c 0 m None v] by simp

lemma cached_def2:
  "cached s k = (case bcache s of None \<Rightarrow> None | Some c \<Rightarrow>
     map_option (\<lambda>i. be_data (c ! i)) (slot_of (fst k) (snd k) c))"
  by (auto simp: cached_def bcache_read_def Let_def split: option.splits)

lemma cached_SomeI:
  assumes "bcache s = Some c" "one_slot c" "i < length c" "be_match (fst k) (snd k) (c ! i)"
  shows "cached s k = Some (be_data (c ! i))"
  using assms slot_of_eqI by (simp add: cached_def2)

lemma cached_NoneI:
  assumes "bcache s = Some c" "\<And>i. i < length c \<Longrightarrow> \<not> be_match (fst k) (snd k) (c ! i)"
  shows "cached s k = None"
  using assms by (auto simp: cached_def2 slot_of_None in_set_conv_nth)

lemma cached_cong_other:
  assumes "bcache s = Some c" "bcache s' = Some (c[v := e])" "v < length c"
    and "one_slot c" "one_slot (c[v := e])" "\<not> be_match (fst k) (snd k) e"
  shows "cached s' k \<in> {cached s k, None}"
    and "\<not> be_match (fst k) (snd k) (c ! v) \<Longrightarrow> cached s' k = cached s k"
proof -
  have *: "cached s' k = cached s k"
    if "i < length c" "i \<noteq> v" "be_match (fst k) (snd k) (c ! i)" for i
    using that assms cached_SomeI [of s c i k] cached_SomeI [of s' "c[v := e]" i k] by simp
  have no: "cached s' k = None"
    if "\<And>i. i < length c \<Longrightarrow> i \<noteq> v \<Longrightarrow> \<not> be_match (fst k) (snd k) (c ! i)"
    by (rule cached_NoneI [OF assms(2)]) (metis that assms(3,6) length_list_update nth_list_update)
  show "cached s' k \<in> {cached s k, None}" using * no by blast
  assume v: "\<not> be_match (fst k) (snd k) (c ! v)"
  show "cached s' k = cached s k"
  proof (cases "\<exists>i < length c. i \<noteq> v \<and> be_match (fst k) (snd k) (c ! i)")
    case True
    with * show ?thesis by blast
  next
    case False
    with v have "cached s k = None" by (intro cached_NoneI [OF assms(1)]) blast
    moreover from False have "cached s' k = None" by (intro no) blast
    ultimately show ?thesis by simp
  qed
qed

lemma one_slot_write_hit:
  "one_slot c \<Longrightarrow> i < length c \<Longrightarrow>
   be_volume_id e = be_volume_id (c ! i) \<Longrightarrow> be_sector e = be_sector (c ! i) \<Longrightarrow>
   (be_valid e \<Longrightarrow> be_valid (c ! i)) \<Longrightarrow> one_slot (c[i := e])"
  by (rule one_slot_update) (auto simp: one_slot_def be_match_def)

lemma one_slot_write_miss:
  "one_slot c \<Longrightarrow> v < length c \<Longrightarrow> slot_of vol sec c = None \<Longrightarrow>
   be_volume_id e = vol \<Longrightarrow> be_sector e = sec \<Longrightarrow> one_slot (c[v := e])"
  by (rule one_slot_update) (auto simp: slot_of_None)

text \<open>Every write either leaves the cache alone or puts the entry in exactly one slot.\<close>

lemma bcache_write_cases:
  assumes inv: "bcache_inv s" and c: "bcache s = Some c"
  obtains (unchanged) "bcache_write s vol sec b = s" "slot_of vol sec c = None"
      "bcache_victim c 0 UINT64_MAX None = None"
  | (slot) v e where "bcache (bcache_write s vol sec b) = Some (c[v := e])" "v < length c"
      "one_slot (c[v := e])" "be_match vol sec e" "be_data e = take 512 b"
proof (cases "slot_of vol sec c")
  case (Some i)
  let ?e = "(c ! i)\<lparr>be_data := take 512 b, be_last_access := add64 (access_counter s) 1\<rparr>"
  have i: "i < length c" "be_match vol sec (c ! i)" using slot_of_Some [OF Some] .
  moreover have "one_slot (c[i := ?e])"
    using inv c i by (intro one_slot_write_hit) (auto simp: bcache_inv_alt)
  ultimately show thesis
    by (intro slot [of i ?e]) (auto simp: bcache_write_def c Some Let_def be_match_def)
next
  case None
  show thesis
  proof (cases "bcache_victim c 0 UINT64_MAX None")
    case v: None
    then show thesis using None c by (intro unchanged) (simp_all add: bcache_write_def Let_def)
  next
    case (Some v)
    let ?e = "\<lparr>be_volume_id = vol, be_sector = sec, be_data = take 512 b, be_valid = True,
       be_last_access = add64 (access_counter s) 1\<rparr>"
    have v: "v < length c" by (rule bcache_victim_0 [OF Some])
    moreover have "one_slot (c[v := ?e])"
      using inv c v None by (intro one_slot_write_miss [of c v vol sec]) (auto simp: bcache_inv_alt)
    ultimately show thesis
      by (intro slot [of v ?e]) (auto simp: bcache_write_def c None Some Let_def be_match_def)
  qed
qed

lemma bcache_write_None: "bcache s = None \<Longrightarrow> bcache_write s vol sec b = s"
  by (simp add: bcache_write_def)

lemma bcache_inv_write:
  assumes "bcache_inv s" "length b = 512"
  shows "bcache_inv (bcache_write s vol sec b)"
proof (cases "bcache s")
  case None
  then show ?thesis using assms by (simp add: bcache_write_None)
next
  case (Some c)
  from assms(1) Some show ?thesis
  proof (cases rule: bcache_write_cases [where vol = vol and sec = sec and b = b])
    case unchanged
    then show ?thesis using assms by simp
  next
    case (slot v e)
    then show ?thesis using assms Some
      by (auto simp: bcache_inv_alt dest: set_update_subset_insert [THEN subsetD])
  qed
qed

lemma bcache_inv_invalidate: "bcache_inv s \<Longrightarrow> bcache_inv (bcache_invalidate s vol sec)"
proof -
  assume inv: "bcache_inv s"
  show ?thesis
  proof (cases "bcache s")
    case (Some c)
    then show ?thesis
      using inv
      by (auto simp: bcache_invalidate_def bcache_inv_alt split: option.splits
          intro!: one_slot_write_hit dest!: slot_of_Some(1) set_update_subset_insert [THEN subsetD])
  qed (use inv in \<open>simp add: bcache_invalidate_def\<close>)
qed

lemma cached_write: "bcache_inv s \<Longrightarrow> length b = 512 \<Longrightarrow>
   cached (bcache_write s vol sec b) (vol, sec) \<in> {Some b, None}"
proof (cases "bcache s")
  case None
  then show ?thesis by (simp add: bcache_write_None cached_def2)
next
  case (Some c)
  assume *: "bcache_inv s" "length b = 512"
  from *(1) Some show ?thesis
  proof (cases rule: bcache_write_cases [where vol = vol and sec = sec and b = b])
    case unchanged
    then show ?thesis using Some by (simp add: cached_def2)
  next
    case (slot v e)
    then show ?thesis using *(2) cached_SomeI [of _ "c[v := e]" v "(vol, sec)"] by simp
  qed
qed

lemma cached_write_other:
  assumes "bcache_inv s" "k \<noteq> (vol, sec)"
  shows "cached (bcache_write s vol sec b) k \<in> {cached s k, None}"
proof (cases "bcache s")
  case None
  then show ?thesis by (simp add: bcache_write_None)
next
  case (Some c)
  from assms(1) Some show ?thesis
  proof (cases rule: bcache_write_cases [where vol = vol and sec = sec and b = b])
    case unchanged
    then show ?thesis by simp
  next
    case (slot v e)
    then have "\<not> be_match (fst k) (snd k) e" using assms(2)
      by (cases k) (auto simp: be_match_def)
    then show ?thesis using slot Some assms(1) cached_cong_other(1) [of s c _ v e k]
      by (simp add: bcache_inv_alt)
  qed
qed

lemma bcache_victim_ex:
  "(\<exists>e \<in> set es. be_last_access e < m) \<or> w \<noteq> None \<Longrightarrow> bcache_victim es i m w \<noteq> None"
  by (induction es i m w rule: bcache_victim.induct) auto

lemma cached_write_fresh:
  assumes "bcache_inv s" "bcache_fresh s" "length b = 512"
  shows "cached (bcache_write s vol sec b) (vol, sec) = Some b"
proof -
  obtain c where c: "bcache s = Some c" and le: "\<And>e. e \<in> set c \<Longrightarrow> be_last_access e \<le> access_counter s"
    and cnt: "access_counter s < UINT64_MAX"
    using assms(2) by (auto simp: bcache_fresh_def split: option.splits)
  have "c \<noteq> []" using assms(1) c by (auto simp: bcache_inv_alt BCACHE_SIZE_def)
  then have "hd c \<in> set c" by simp
  with le cnt have "be_last_access (hd c) < UINT64_MAX" by (meson le_less_trans)
  with \<open>hd c \<in> set c\<close> have vic: "bcache_victim c 0 UINT64_MAX None \<noteq> None"
    by (intro bcache_victim_ex) blast
  from assms(1) c show ?thesis
  proof (cases rule: bcache_write_cases [where vol = vol and sec = sec and b = b])
    case unchanged
    with vic show ?thesis by simp
  next
    case (slot v e)
    then show ?thesis using assms(3) cached_SomeI [of _ "c[v := e]" v "(vol, sec)"] by simp
  qed
qed

lemma cached_invalidate:
  assumes "bcache_inv s"
  shows "cached (bcache_invalidate s vol sec) (vol, sec) = None"
    and "k \<noteq> (vol, sec) \<Longrightarrow> cached (bcache_invalidate s vol sec) k = cached s k"
proof -
  show "cached (bcache_invalidate s vol sec) (vol, sec) = None"
  proof (cases "bcache s")
    case (Some c)
    show ?thesis
    proof (cases "slot_of vol sec c")
      case None
      then show ?thesis using Some by (simp add: bcache_invalidate_def cached_def2)
    next
      case i: (Some i)
      have "\<not> be_match vol sec (c[i := (c ! i)\<lparr>be_valid := False\<rparr>] ! j)" if "j < length c" for j
        using that slot_of_Some [OF i] assms Some
        by (cases "j = i") (auto simp: be_match_def bcache_inv_alt one_slot_def)
      then show ?thesis using Some i
        by (intro cached_NoneI) (auto simp: bcache_invalidate_def)
    qed
  qed (simp add: bcache_invalidate_def cached_def2)
next
  assume k: "k \<noteq> (vol, sec)"
  show "cached (bcache_invalidate s vol sec) k = cached s k"
  proof (cases "bcache s")
    case (Some c)
    show ?thesis
    proof (cases "slot_of vol sec c")
      case i: (Some i)
      let ?e = "(c ! i)\<lparr>be_valid := False\<rparr>"
      have m: "i < length c" "be_match vol sec (c ! i)" using slot_of_Some [OF i] .
      have "one_slot (c[i := ?e])"
        using assms Some m by (intro one_slot_write_hit) (auto simp: bcache_inv_alt)
      moreover have "\<not> be_match (fst k) (snd k) (c ! i)" "\<not> be_match (fst k) (snd k) ?e"
        using m(2) k by (cases k, auto simp: be_match_def)
      ultimately show ?thesis
        using Some i m assms cached_cong_other(2) [of s c _ i ?e k]
        by (simp add: bcache_invalidate_def bcache_inv_alt)
    qed (use Some in \<open>simp add: bcache_invalidate_def\<close>)
  qed (simp add: bcache_invalidate_def)
qed

interpretation bc: sector_cache cached
  "\<lambda>s k v. bcache_write s (fst k) (snd k) v" "\<lambda>s k. bcache_invalidate s (fst k) (snd k)"
  bcache_inv "\<lambda>v. length v = 512"
proof unfold_locales
  fix s :: bcache_state and v :: "u8 list" and k k' :: "u32 \<times> u32"
  assume inv: "bcache_inv s"
  show "cached (bcache_invalidate s (fst k) (snd k)) k = None"
    using cached_invalidate(1) [OF inv, of "fst k" "snd k"] by simp
  show "bcache_inv (bcache_invalidate s (fst k) (snd k))" by (rule bcache_inv_invalidate [OF inv])
  show "k' \<noteq> k \<Longrightarrow> cached (bcache_invalidate s (fst k) (snd k)) k' = cached s k'"
    using cached_invalidate(2) [OF inv, of k' "fst k" "snd k"] by simp
  assume v: "length v = 512"
  show "cached (bcache_write s (fst k) (snd k) v) k \<in> {Some v, None}"
    using cached_write [OF inv v, of "fst k" "snd k"] by simp
  show "bcache_inv (bcache_write s (fst k) (snd k) v)" by (rule bcache_inv_write [OF inv v])
  show "k' \<noteq> k \<Longrightarrow> cached (bcache_write s (fst k) (snd k) v) k' \<in> {cached s k', None}"
    using cached_write_other [OF inv, of k' "fst k" "snd k" v] by simp
qed

section \<open>The victim of a replacement\<close>

lemma bcache_victim_free:
  assumes "\<exists>e \<in> set es. \<not> be_valid e"
  shows "\<exists>v. bcache_victim es i m w = Some (i + v) \<and> v < length es \<and> \<not> be_valid (es ! v)"
  using assms
proof (induction es i m w rule: bcache_victim.induct)
  case (1 i m w)
  then show ?case by simp
next
  case (2 e es i m w)
  show ?case
  proof (cases "be_valid e")
    case False
    then show ?thesis by (intro exI [of _ 0]) simp
  next
    case True
    have "\<exists>v. bcache_victim (e # es) i m w = Some (Suc i + v) \<and> v < length es \<and> \<not> be_valid (es ! v)"
      using 2 True by (cases "be_last_access e < m") auto
    then obtain v where "bcache_victim (e # es) i m w = Some (Suc i + v)" "v < length es"
      "\<not> be_valid (es ! v)" by blast
    then show ?thesis by (intro exI [of _ "Suc v"]) simp
  qed
qed

lemma bcache_victim_min:
  assumes "\<forall>e \<in> set es. be_valid e" "\<exists>e \<in> set es. be_last_access e < m"
  shows "\<exists>v. bcache_victim es i m w = Some (i + v) \<and> v < length es \<and>
     (\<forall>e \<in> set es. be_last_access (es ! v) \<le> be_last_access e) \<and> be_last_access (es ! v) < m"
  using assms
proof (induction es i m w rule: bcache_victim.induct)
  case (1 i m w)
  then show ?case by simp
next
  case (2 e es i m w)
  have keep: "bcache_victim es j n z = z" if "\<forall>x \<in> set es. \<not> be_last_access x < n" for j n z
    using that 2(3) by (induction es j n z rule: bcache_victim.induct) auto
  let ?n = "if be_last_access e < m then be_last_access e else m"
  let ?z = "if be_last_access e < m then Some i else w"
  have step: "bcache_victim (e # es) i m w = bcache_victim es (Suc i) ?n ?z" using 2(3) by simp
  show ?case
  proof (cases "\<exists>x \<in> set es. be_last_access x < ?n")
    case True
    have "\<exists>v. bcache_victim es (Suc i) ?n ?z = Some (Suc i + v) \<and> v < length es \<and>
       (\<forall>x \<in> set es. be_last_access (es ! v) \<le> be_last_access x) \<and> be_last_access (es ! v) < ?n"
      using 2 True by (cases "be_last_access e < m") auto
    then obtain v where "bcache_victim es (Suc i) ?n ?z = Some (Suc i + v)" "v < length es"
      "\<forall>x \<in> set es. be_last_access (es ! v) \<le> be_last_access x" "be_last_access (es ! v) < ?n"
      by blast
    then show ?thesis using step
      by (intro exI [of _ "Suc v"]) (auto split: if_splits)
  next
    case False
    then have "be_last_access e < m" using 2(4) by (auto split: if_splits)
    then show ?thesis using False step keep [of ?n "Suc i" ?z]
      by (intro exI [of _ 0]) (auto simp: not_less)
  qed
qed

section \<open>Properties\<close>

text \<open>A hit of the cache leaves its contents alone.\<close>

lemma cached_read:
  assumes "bcache_inv s" "bcache_read s v k buf = (r, d, s')"
  shows "bcache_inv s' \<and> (\<forall>key. cached s' key = cached s key) \<and> (r = 0 \<longrightarrow> cached s (v, k) = Some d)"
proof (cases "bcache s")
  case None
  then show ?thesis using assms by (auto simp: bcache_read_def)
next
  case (Some c)
  show ?thesis
  proof (cases "slot_of v k c")
    case None
    then show ?thesis using assms Some by (auto simp: bcache_read_def)
  next
    case i: (Some i)
    define e where "e = (c ! i)\<lparr>be_last_access := add64 (access_counter s) 1\<rparr>"
    have s': "s' = s\<lparr>bcache := Some (c[i := e]), access_counter := add64 (access_counter s) 1\<rparr>"
      and d: "d = be_data (c ! i)"
      using assms(2) Some i by (auto simp: bcache_read_def Let_def e_def)
    have il: "i < length c" using slot_of_Some(1) [OF i] .
    have m: "be_match a b (c[i := e] ! j) = be_match a b (c ! j)" if "j < length c" for a b j
      using that by (cases "j = i") (auto simp: be_match_def e_def)
    have sl: "slot_of a b (c[i := e]) = slot_of a b c" for a b
      unfolding slot_of_def using m by (auto intro!: find_cong)
    have da: "be_data (c[i := e] ! j) = be_data (c ! j)" if "j < length c" for j
      using that by (cases "j = i") (auto simp: e_def)
    have "cached s' key = cached s key" for key
      using da slot_of_Some(1) [of "fst key" "snd key" c] Some s' sl
      by (cases "slot_of (fst key) (snd key) c") (auto simp: cached_def2)
    moreover have "bcache_inv s'"
    proof -
      have "one_slot (c[i := e])"
        using assms(1) Some il by (intro one_slot_write_hit) (auto simp: bcache_inv_alt e_def)
      moreover have "length (be_data e) = 512" using assms(1) Some il by (simp add: bcache_inv_alt e_def)
      ultimately show ?thesis
        using assms(1) Some s' set_update_subset_insert [of c i e] by (auto simp: bcache_inv_alt)
    qed
    moreover have "cached s (v, k) = Some d" using Some i d by (auto simp: cached_def2)
    ultimately show ?thesis by simp
  qed
qed

text \<open>C24: a sector written to the cache is read back from it, byte for byte, until the access
  counter reaches its last value; a read of any other sector after the write returns the
  bytes it returned before or misses, never something else.\<close>

theorem bcache_read_after_write:
  assumes "bcache_inv s" and "bcache_fresh s" and "length b = 512"
  shows "(\<exists>s''. bcache_read (bcache_write s vol sec b) vol sec buf = (0, b, s'')) \<and>
    (\<forall>k. k \<noteq> (vol, sec) \<longrightarrow> cached (bcache_write s vol sec b) k \<in> {cached s k, None})"
proof
  have "cached (bcache_write s vol sec b) (vol, sec) = Some b"
    by (rule cached_write_fresh [OF assms])
  then obtain c i where "bcache (bcache_write s vol sec b) = Some c" "slot_of vol sec c = Some i"
    "be_data (c ! i) = b" by (auto simp: cached_def2 split: option.splits)
  then show "\<exists>s''. bcache_read (bcache_write s vol sec b) vol sec buf = (0, b, s'')"
    by (simp add: bcache_read_def Let_def)
  show "\<forall>k. k \<noteq> (vol, sec) \<longrightarrow> cached (bcache_write s vol sec b) k \<in> {cached s k, None}"
    using bc.lookup_store_other [OF assms(1,3), of _ "(vol, sec)"] by simp
qed

lemma bcache_inv_init: "bcache_inv (bcache_init ok s)"
  by (auto simp: bcache_inv_def bcache_init_def zero_entry_def)

lemma bcache_fresh_init: "bcache_fresh (bcache_init True s)"
  by (auto simp: bcache_fresh_def bcache_init_def zero_entry_def UINT64_MAX_def)

abbreviation boot_cache :: bcache_state where
  "boot_cache \<equiv> bcache_init True \<lparr>bcache = None, bcache_lock = False, access_counter = 0\<rparr>"

theorem bcache_read_after_write_witness:
  "bcache_inv boot_cache \<and> bcache_fresh boot_cache \<and>
   (\<exists>s''. bcache_read (bcache_write boot_cache 1 7 (replicate 512 5)) 1 7 [] =
     (0, replicate 512 5, s''))"
  using bcache_read_after_write [OF bcache_inv_init bcache_fresh_init,
      of "replicate 512 5" _ 1 7 "[]"]
  by (simp add: bcache_inv_init bcache_fresh_init)

text \<open>replacement is least recently used. A write of a sector that is not cached, into a
  cache that has no free slot, overwrites a slot whose last access is the oldest of all; if
  there is a free slot, no cached sector is lost.\<close>

lemma bcache_write_evicts_lru:
  assumes "bcache_inv s" "bcache_fresh s" "bcache s = Some c" "slot_of vol sec c = None"
    and "length b = 512"
  shows "\<exists>v e. bcache (bcache_write s vol sec b) = Some (c[v := e]) \<and> v < length c \<and>
      ((\<forall>x \<in> set c. be_valid x) \<longrightarrow> (\<forall>x \<in> set c. be_last_access (c ! v) \<le> be_last_access x)) \<and>
      ((\<exists>x \<in> set c. \<not> be_valid x) \<longrightarrow> (\<forall>k. k \<noteq> (vol, sec) \<longrightarrow>
          cached (bcache_write s vol sec b) k = cached s k))"
proof -
  let ?e = "\<lparr>be_volume_id = vol, be_sector = sec, be_data = take 512 b, be_valid = True,
     be_last_access = add64 (access_counter s) 1\<rparr>"
  have le: "\<exists>x \<in> set c. be_last_access x < UINT64_MAX"
  proof -
    have "c \<noteq> []" using assms(1,3) by (auto simp: bcache_inv_alt BCACHE_SIZE_def)
    then have "hd c \<in> set c" by simp
    then show ?thesis using assms(2,3) by (auto simp: bcache_fresh_def intro: le_less_trans)
  qed
  have w: "bcache (bcache_write s vol sec b) = Some (c[v := ?e])"
    if "bcache_victim c 0 UINT64_MAX None = Some v" for v
    using that assms by (simp add: bcache_write_def Let_def)
  show ?thesis
  proof (cases "\<forall>x \<in> set c. be_valid x")
    case True
    then show ?thesis using bcache_victim_min [OF True le, of 0 None] w by fastforce
  next
    case False
    then obtain v where v: "bcache_victim c 0 UINT64_MAX None = Some v" "v < length c"
      "\<not> be_valid (c ! v)" using bcache_victim_free [of c 0] by fastforce
    have one: "one_slot c" using assms(1,3) by (simp add: bcache_inv_alt)
    then have one': "one_slot (c[v := ?e])"
      using v(2) assms(4) by (intro one_slot_write_miss [of c v vol sec]) auto
    have "cached (bcache_write s vol sec b) k = cached s k" if "k \<noteq> (vol, sec)" for k
      using that v by (intro cached_cong_other(2) [OF assms(3) w [OF v(1)] v(2) one one'])
        (auto simp: be_match_def prod_eq_iff)
    then show ?thesis using v w False by blast
  qed
qed

lemma bcache_write_evicts_lru_witness:
  "\<exists>c. bcache boot_cache = Some c \<and> slot_of 1 7 c = None \<and>
   (\<exists>v e. bcache (bcache_write boot_cache 1 7 (replicate 512 5)) = Some (c[v := e]) \<and> v < length c)"
proof -
  define c where "c = replicate BCACHE_SIZE zero_entry"
  have c: "bcache boot_cache = Some c" by (simp add: bcache_init_def c_def)
  moreover have n: "slot_of 1 7 c = None"
    by (simp add: slot_of_None c_def zero_entry_def be_match_def)
  ultimately show ?thesis
    using bcache_write_evicts_lru [OF bcache_inv_init bcache_fresh_init c n, of "replicate 512 5"]
    by auto
qed

end
