(* ===== verification/Pmm.thy ===== *)
theory Pmm
  imports Prelude Bcache
begin

text \<open>
  The physical page allocator of \<^verbatim>\<open>kernel/mm/pmm.c\<close>. The globals of the file are one
  record; the bitmap and the reference counts are the memory they point to (\<open>bitmap_mem\<close>
  from \<open>pmm_bitmap\<close> on, bytes; \<open>refs_mem\<close> from \<open>pmm_ref_counts\<close> on, 16-bit
  counters), so that a 64-bit load of the bitmap reads the bytes it reads on the machine.
  Every public operation runs between \<open>spin_lock\<close> and \<open>spin_unlock\<close> of
  \<open>pmm_lock\<close> and is one atomic step here. Messages on the console are left out.
\<close>

section \<open>Memory map and state (include/pmm.h, pmm.c)\<close>

record e820_entry =
  base_addr :: nat
  e_length :: nat
  e_type :: nat

record memory_map =
  entry_count :: nat
  entries :: "nat \<Rightarrow> e820_entry"

definition E820_USABLE :: nat where
  "E820_USABLE = 1"

definition PAGE_SIZE :: nat where
  "PAGE_SIZE = 4096"

definition PAGE_ALIGN_UP :: "nat \<Rightarrow> nat" where
  "PAGE_ALIGN_UP addr = (add64 addr (PAGE_SIZE - 1) div PAGE_SIZE) * PAGE_SIZE"

record pmm =
  pmm_bitmap :: nat
  pmm_bitmap_size :: nat
  pmm_ref_counts :: nat
  pmm_initialized_flag :: bool
  total_ram :: nat
  used_ram :: nat
  total_pages :: nat
  free_mem_start :: nat
  last_free_idx :: nat
  bitmap_mem :: memory
  refs_mem :: "nat \<Rightarrow> u16"

section \<open>Bitmap helpers (lines 51-61)\<close>

definition bitmap_set :: "nat \<Rightarrow> pmm \<Rightarrow> pmm" where
  "bitmap_set b s = s\<lparr>bitmap_mem := (bitmap_mem s)(b div 8 :=
     bitmap_mem s (b div 8) OR push_bit (b mod 8) 1)\<rparr>"

definition bitmap_unset :: "nat \<Rightarrow> pmm \<Rightarrow> pmm" where
  "bitmap_unset b s = s\<lparr>bitmap_mem := (bitmap_mem s)(b div 8 :=
     bitmap_mem s (b div 8) AND NOT (push_bit (b mod 8) 1))\<rparr>"

definition bitmap_test :: "pmm \<Rightarrow> nat \<Rightarrow> bool" where
  "bitmap_test s b \<longleftrightarrow> bitmap_mem s (b div 8) AND push_bit (b mod 8) 1 \<noteq> 0"

section \<open>Marking regions (lines 64-118)\<close>

text \<open>The loops: \<open>n\<close> pages still to do, \<open>p\<close> the next one; they stop at \<open>total_pages\<close>.\<close>

fun mark_used_loop :: "nat \<Rightarrow> nat \<Rightarrow> pmm \<Rightarrow> pmm" where
  "mark_used_loop 0 p s = s"
| "mark_used_loop (Suc n) p s =
     (if p < total_pages s then
        mark_used_loop n (Suc p)
          (if \<not> bitmap_test s p
           then (bitmap_set p s)\<lparr>used_ram := add64 (used_ram s) PAGE_SIZE\<rparr> else s)
      else s)"

fun mark_free_loop :: "nat \<Rightarrow> nat \<Rightarrow> pmm \<Rightarrow> pmm" where
  "mark_free_loop 0 p s = s"
| "mark_free_loop (Suc n) p s =
     (if p < total_pages s then
        mark_free_loop n (Suc p)
          (if bitmap_test s p
           then (bitmap_unset p s)\<lparr>used_ram := sub64 (used_ram s) PAGE_SIZE\<rparr> else s)
      else s)"

definition pmm_mark_region_used :: "nat \<Rightarrow> nat \<Rightarrow> pmm \<Rightarrow> pmm" where
  "pmm_mark_region_used base sz s =
     (if sz = 0 then s
      else let start_page = base div PAGE_SIZE;
               num_pages = sub64 (add64 sz PAGE_SIZE) 1 div PAGE_SIZE
           in if start_page \<ge> total_pages s then s else mark_used_loop num_pages start_page s)"

definition pmm_mark_region_free :: "nat \<Rightarrow> nat \<Rightarrow> pmm \<Rightarrow> pmm" where
  "pmm_mark_region_free base sz s =
     (if sz = 0 then s
      else let start_page = base div PAGE_SIZE; num_pages = sz div PAGE_SIZE
           in if start_page \<ge> total_pages s then s else mark_free_loop num_pages start_page s)"

section \<open>Initialisation (lines 124-285)\<close>

text \<open>The highest end of a usable region, starting from the value \<open>total_ram\<close> has.\<close>

fun max_region_end :: "e820_entry list \<Rightarrow> nat \<Rightarrow> nat" where
  "max_region_end [] ram = ram"
| "max_region_end (e # es) ram =
     max_region_end es
       (if e_type e = E820_USABLE \<and> add64 (base_addr e) (e_length e) > ram
        then add64 (base_addr e) (e_length e) else ram)"

definition map_entries :: "memory_map \<Rightarrow> e820_entry list" where
  "map_entries m = map (entries m) [0..<entry_count m]"

definition detect_ram :: "memory_map \<Rightarrow> nat \<Rightarrow> nat" where
  "detect_ram m ram0 =
     (let ram = (if entry_count m = 0 \<or> entry_count m > 128 then 128 * 1024 * 1024
                 else max_region_end (map_entries m) ram0)
      in if ram = 0 then 32 * 1024 * 1024 else ram)"

text \<open>Where the tables go: the bitmap at \<open>0x1A000\<close>, the counters after it (lines 202-211).\<close>

definition pmm_place :: "nat \<Rightarrow> pmm \<Rightarrow> pmm" where
  "pmm_place ram s =
     (let pages = ram div PAGE_SIZE;
          bytes = pages div 8 + (if pages mod 8 \<noteq> 0 then 1 else 0)
      in s\<lparr>total_ram := ram, total_pages := pages, pmm_bitmap := 0x1A000, pmm_bitmap_size := bytes,
           pmm_ref_counts := PAGE_ALIGN_UP (add64 0x1A000 bytes)\<rparr>)"

text \<open>All pages used, all counters 1 (lines 222-229).\<close>

definition pmm_fill :: "pmm \<Rightarrow> pmm" where
  "pmm_fill s = s\<lparr>bitmap_mem := (\<lambda>i. if i < pmm_bitmap_size s then 0xFF else bitmap_mem s i),
     refs_mem := (\<lambda>i. if i < total_pages s then 1 else refs_mem s i), used_ram := total_ram s\<rparr>"

definition free_usable :: "e820_entry list \<Rightarrow> pmm \<Rightarrow> pmm" where
  "free_usable es s = fold (\<lambda>e s. if e_type e = E820_USABLE
      then pmm_mark_region_free (base_addr e) (e_length e) s else s) es s"

text \<open>
  The whole of \<open>pmm_init\<close>, with the addresses of the linker symbols as arguments. A failed
  \<open>ASSERT\<close> halts the machine.
\<close>

definition pmm_init :: "memory_map \<Rightarrow> nat \<Rightarrow> nat \<Rightarrow> pmm \<Rightarrow> panic + pmm" where
  "pmm_init m kernel_start kernel_end s0 =
     (let s1 = pmm_place (detect_ram m (total_ram s0)) s0 in
      if \<not> kernel_start \<ge> 0x100000 then Inl (Panic ''Kernel no esta cargado en 1MB!'')
      else if pmm_bitmap s1 \<noteq> 0x1A000
        then Inl (Panic ''PMM Bitmap no esta en la region correcta!'')
      else if \<not> pmm_ref_counts s1 \<ge> add64 (pmm_bitmap s1) (pmm_bitmap_size s1)
        then Inl (Panic ''PMM RefCounts colisionan con el Bitmap'')
      else
        let s2 = free_usable (map_entries m) (pmm_fill s1);
            s3 = pmm_mark_region_used 0 0x100000 s2;
            s4 = pmm_mark_region_used 0xB8000 32000 s3;
            s5 = pmm_mark_region_used kernel_start (sub64 kernel_end kernel_start) s4;
            ref_counts_size = mul64 (total_pages s5) 2;
            s6 = pmm_mark_region_used (pmm_bitmap s5) (pmm_bitmap_size s5) s5;
            s7 = pmm_mark_region_used (pmm_ref_counts s6) ref_counts_size s6;
            fms = PAGE_ALIGN_UP (add64 (pmm_ref_counts s7) ref_counts_size);
            idx = fms div PAGE_SIZE
        in Inr (s7\<lparr>free_mem_start := fms,
                  last_free_idx := (if idx \<ge> total_pages s7 then 0 else idx),
                  pmm_initialized_flag := True\<rparr>))"

section \<open>Allocation (lines 287-428)\<close>

text \<open>\<open>__builtin_ctzll\<close>: the number of trailing zero bits of a nonzero word.\<close>

definition ctzll :: "u64 \<Rightarrow> nat" where
  "ctzll w = length (takeWhile (\<lambda>i. \<not> bit w i) [0..<64])"

definition bitmap_word :: "pmm \<Rightarrow> nat \<Rightarrow> u64" where
  "bitmap_word s i = load_le (bitmap_mem s) (8 * i) 8"

text \<open>
  Pass 1, from word \<open>i\<close>. \<open>None\<close> is the jump to \<open>check_wrap\<close>, taken from inside the
  loop or at its end.
\<close>

function pmm_pass1 :: "pmm \<Rightarrow> nat \<Rightarrow> nat \<Rightarrow> nat \<Rightarrow> nat \<Rightarrow> nat option" where
  "pmm_pass1 s word_idx bit_idx total_words i =
     (if i < total_words then
        let word = bitmap_word s i in
        if word \<noteq> NOT 0 then
          let start_bit = (if i = word_idx then bit_idx else 0) in
          if i = word_idx \<and> start_bit > 0 then
            let mask = NOT (push_bit start_bit 1 - 1); inv_word = NOT word AND mask in
            if inv_word \<noteq> 0 then
              let page = i * 64 + ctzll inv_word in
              if page \<ge> total_pages s then None else Some page
            else pmm_pass1 s word_idx bit_idx total_words (Suc i)
          else
            let page = i * 64 + ctzll (NOT word) in
            if page \<ge> total_pages s then None else Some page
        else pmm_pass1 s word_idx bit_idx total_words (Suc i)
      else None)"
  by pat_completeness auto
termination
  by (relation "measure (\<lambda>(s, w, b, t, i). t - i)") auto

text \<open>The bit-by-bit scan of pass 2's last word.\<close>

definition scan_bits :: "u64 \<Rightarrow> nat \<Rightarrow> nat option" where
  "scan_bits word end_bit = find (\<lambda>b. word AND push_bit b 1 = 0) [0..<end_bit]"

text \<open>Pass 2, from word \<open>i\<close> up to the rover's word. \<open>None\<close> is \<open>return NULL\<close>.\<close>

function pmm_pass2 :: "pmm \<Rightarrow> nat \<Rightarrow> nat \<Rightarrow> nat \<Rightarrow> nat option" where
  "pmm_pass2 s word_idx bit_idx i =
     (if i \<le> word_idx then
        let word = bitmap_word s i in
        if word \<noteq> NOT 0 then
          let end_bit = (if i = word_idx then bit_idx else 64) in
          if end_bit = 64 then
            let page = i * 64 + ctzll (NOT word) in
            if page \<ge> total_pages s then None else Some page
          else
            (case scan_bits word end_bit of
               Some b \<Rightarrow> (let page = i * 64 + b in if page \<ge> total_pages s then None else Some page)
             | None \<Rightarrow> pmm_pass2 s word_idx bit_idx (Suc i))
        else pmm_pass2 s word_idx bit_idx (Suc i)
      else None)"
  by pat_completeness auto
termination
  by (relation "measure (\<lambda>(s, w, b, i). Suc w - i)") auto

declare pmm_pass1.simps [simp del] pmm_pass2.simps [simp del]

text \<open>What every successful branch does with the page it found.\<close>

definition take_page :: "nat \<Rightarrow> pmm \<Rightarrow> pmm" where
  "take_page page s =
     (let s1 = bitmap_set page s;
          s2 = (if pmm_ref_counts s1 \<noteq> 0 then s1\<lparr>refs_mem := (refs_mem s1)(page := 1)\<rparr> else s1)
      in s2\<lparr>used_ram := add64 (used_ram s2) PAGE_SIZE,
            last_free_idx := (if page + 1 \<ge> total_pages s2 then 0 else page + 1)\<rparr>)"

text \<open>Result: the physical address (0 is NULL) and the new state.\<close>

definition pmm_alloc_page_impl :: "pmm \<Rightarrow> nat \<times> pmm" where
  "pmm_alloc_page_impl s0 =
     (let s = (if last_free_idx s0 \<ge> total_pages s0 then s0\<lparr>last_free_idx := 0\<rparr> else s0);
          word_idx = last_free_idx s div 64;
          bit_idx = last_free_idx s mod 64;
          total_words = (total_pages s + 63) div 64
      in case pmm_pass1 s word_idx bit_idx total_words word_idx of
           Some page \<Rightarrow> (page * PAGE_SIZE, take_page page s)
         | None \<Rightarrow>
             (case pmm_pass2 s word_idx bit_idx 0 of
                Some page \<Rightarrow> (page * PAGE_SIZE, take_page page s)
              | None \<Rightarrow> (0, s)))"

text \<open>The first failure invalidates the sector cache and tries once more.\<close>

definition pmm_alloc_page :: "pmm \<times> bcache_state \<Rightarrow> panic + nat \<times> pmm \<times> bcache_state" where
  "pmm_alloc_page = (\<lambda>(s, bc).
     if pmm_bitmap s = 0 then Inl (Panic ''pmm_alloc_page called before pmm_init!'')
     else case pmm_alloc_page_impl s of (ptr, s1) \<Rightarrow>
       if ptr \<noteq> 0 then Inr (ptr, s1, bc)
       else
         let bc1 = bcache_invalidate_all bc in
         case pmm_alloc_page_impl s1 of (ptr2, s2) \<Rightarrow> Inr (ptr2, s2, bc1))"

section \<open>Freeing and reference counts (lines 430-519)\<close>

text \<open>Lines 469-474, after the checks.\<close>

definition release_page :: "nat \<Rightarrow> pmm \<Rightarrow> pmm" where
  "release_page p s =
     (if bitmap_test s p
      then (bitmap_unset p s)\<lparr>used_ram := sub64 (used_ram s) PAGE_SIZE\<rparr> else s)"

definition pmm_free_page :: "nat \<Rightarrow> pmm \<Rightarrow> panic + pmm" where
  "pmm_free_page addr s =
     (let p = addr div PAGE_SIZE in
      if p \<ge> total_pages s then Inr s
      else if pmm_ref_counts s \<noteq> 0 then
        (if \<not> refs_mem s p > 0 then Inl (Panic ''PMM Double free or invalid unref detected!'')
         else
           let s1 = s\<lparr>refs_mem := (refs_mem s)(p := refs_mem s p - 1)\<rparr> in
           if refs_mem s1 p > 0 then Inr s1
           else if \<not> bitmap_test s1 p then Inl (Panic ''PMM Double free detected!'')
           else Inr (release_page p s1))
      else if \<not> bitmap_test s p then Inl (Panic ''PMM Double free detected!'')
      else Inr (release_page p s))"

definition pmm_ref_page :: "nat \<Rightarrow> pmm \<Rightarrow> panic + pmm" where
  "pmm_ref_page addr s =
     (let p = addr div PAGE_SIZE in
      if p \<ge> total_pages s then Inr s
      else if pmm_ref_counts s \<noteq> 0 then
        (if refs_mem s p < 65535 then Inr (s\<lparr>refs_mem := (refs_mem s)(p := refs_mem s p + 1)\<rparr>)
         else Inl (Panic ''PMM Refcount overflow!''))
      else Inr s)"

definition pmm_unref_page :: "nat \<Rightarrow> pmm \<Rightarrow> panic + pmm" where
  "pmm_unref_page addr s = pmm_free_page addr s"

definition pmm_get_ref_count :: "nat \<Rightarrow> pmm \<Rightarrow> u16" where
  "pmm_get_ref_count addr s =
     (let p = addr div PAGE_SIZE in
      if p \<ge> total_pages s then 0 else if pmm_ref_counts s \<noteq> 0 then refs_mem s p else 0)"

definition pmm_get_total_ram :: "pmm \<Rightarrow> nat" where
  "pmm_get_total_ram s = total_ram s"

definition pmm_get_free_ram :: "pmm \<Rightarrow> nat" where
  "pmm_get_free_ram s = sub64 (total_ram s) (used_ram s)"

definition pmm_get_used_ram :: "pmm \<Rightarrow> nat" where
  "pmm_get_used_ram s = used_ram s"

section \<open>Specification: the set of used pages\<close>

definition used_pages :: "pmm \<Rightarrow> nat set" where
  "used_pages s = {p. p < total_pages s \<and> bitmap_test s p}"

text \<open>The accounting invariant, with page 0 never free (its address is the NULL of \<open>alloc\<close>).\<close>

definition pmm_inv :: "pmm \<Rightarrow> bool" where
  "pmm_inv s \<longleftrightarrow>
     pmm_bitmap s \<noteq> 0 \<and> pmm_ref_counts s \<noteq> 0 \<and> total_ram s < 2 ^ 64 \<and>
     total_pages s = total_ram s div PAGE_SIZE \<and>
     used_ram s = total_ram s mod PAGE_SIZE + PAGE_SIZE * card (used_pages s)"

definition page0_used :: "pmm \<Rightarrow> bool" where
  "page0_used s \<longleftrightarrow> total_pages s > 0 \<longrightarrow> bitmap_test s 0"

text \<open>A used page has a reference.\<close>

definition refs_inv :: "pmm \<Rightarrow> bool" where
  "refs_inv s \<longleftrightarrow> (\<forall>p < total_pages s. bitmap_test s p \<longrightarrow> refs_mem s p > 0)"

text \<open>Next fit: the first free page from the rover on, then from 0 up to the rover.\<close>

definition next_fit :: "pmm \<Rightarrow> nat option" where
  "next_fit s =
     (let r = (if last_free_idx s \<ge> total_pages s then 0 else last_free_idx s)
      in find (\<lambda>p. \<not> bitmap_test s p) ([r..<total_pages s] @ [0..<r]))"

definition reset_rover :: "pmm \<Rightarrow> pmm" where
  "reset_rover s = (if last_free_idx s \<ge> total_pages s then s\<lparr>last_free_idx := 0\<rparr> else s)"

section \<open>Bits\<close>

named_theorems pmm_simps \<open>effect of the small steps on the fields of the state\<close>

lemma bitmap_test_bit: "bitmap_test s b \<longleftrightarrow> bit (bitmap_mem s (b div 8)) (b mod 8)"
  by (simp add: bitmap_test_def and_exp_eq_0_iff)

lemma div_mod_eq_iff: "(a::nat) div 8 = b div 8 \<Longrightarrow> a mod 8 = b mod 8 \<longleftrightarrow> a = b"
  by (metis div_mult_mod_eq)

lemma bitmap_test_set [pmm_simps]: "bitmap_test (bitmap_set a s) b \<longleftrightarrow> a = b \<or> bitmap_test s b"
  by (auto simp: bitmap_test_bit bitmap_set_def bit_or_iff dest: div_mod_eq_iff)

lemma bitmap_test_unset [pmm_simps]:
  "bitmap_test (bitmap_unset a s) b \<longleftrightarrow> a \<noteq> b \<and> bitmap_test s b"
proof (cases "a div 8 = b div 8")
  case True
  then have "a mod 8 = b mod 8 \<longleftrightarrow> a = b" by (rule div_mod_eq_iff)
  with True show ?thesis
    by (auto simp: bitmap_test_bit bitmap_unset_def bit_and_iff bit_not_iff possible_bit_def)
next
  case False
  then show ?thesis by (auto simp: bitmap_test_bit bitmap_unset_def)
qed

lemma bitmap_test_upd [pmm_simps]:
  "bitmap_test (s\<lparr>used_ram := u\<rparr>) = bitmap_test s"
  "bitmap_test (s\<lparr>refs_mem := r\<rparr>) = bitmap_test s"
  "bitmap_test (s\<lparr>last_free_idx := l\<rparr>) = bitmap_test s"
  by (simp_all add: bitmap_test_def fun_eq_iff)

lemma bitmap_set_fields [pmm_simps]:
  "total_pages (bitmap_set b s) = total_pages s" "total_ram (bitmap_set b s) = total_ram s"
  "used_ram (bitmap_set b s) = used_ram s" "refs_mem (bitmap_set b s) = refs_mem s"
  "pmm_bitmap (bitmap_set b s) = pmm_bitmap s" "pmm_ref_counts (bitmap_set b s) = pmm_ref_counts s"
  "last_free_idx (bitmap_set b s) = last_free_idx s"
  "pmm_bitmap_size (bitmap_set b s) = pmm_bitmap_size s"
  by (simp_all add: bitmap_set_def)

lemma bitmap_unset_fields [pmm_simps]:
  "total_pages (bitmap_unset b s) = total_pages s" "total_ram (bitmap_unset b s) = total_ram s"
  "used_ram (bitmap_unset b s) = used_ram s" "refs_mem (bitmap_unset b s) = refs_mem s"
  "pmm_bitmap (bitmap_unset b s) = pmm_bitmap s"
  "pmm_ref_counts (bitmap_unset b s) = pmm_ref_counts s"
  "last_free_idx (bitmap_unset b s) = last_free_idx s"
  "pmm_bitmap_size (bitmap_unset b s) = pmm_bitmap_size s"
  by (simp_all add: bitmap_unset_def)

lemma bit_bitmap_word: "bit (bitmap_word s i) k \<longleftrightarrow> k < 64 \<and> bitmap_test s (i * 64 + k)"
proof -
  have e: "i * 64 + k = 8 * i * 8 + k" by simp
  have "(i * 64 + k) div 8 = 8 * i + k div 8" and "(i * 64 + k) mod 8 = k mod 8"
    unfolding e by (simp_all only: div_mult_self3 mod_mult_self3)
  then show ?thesis by (simp add: bitmap_word_def bit_load_le bitmap_test_bit)
qed

lemma ctzll_least:
  assumes "w \<noteq> 0"
  shows "ctzll w < 64" "bit w (ctzll w)" "\<And>j. j < ctzll w \<Longrightarrow> \<not> bit w j"
proof -
  let ?n = "ctzll w"
  obtain k where k: "bit w k" using assms by (auto simp: bit_eq_iff)
  then have "k < 64" using bit_imp_le_length [OF k] by simp
  show n: "?n < 64"
  proof (rule ccontr)
    assume "\<not> ?n < 64"
    moreover have "?n \<le> 64" using length_takeWhile_le [of "\<lambda>i. \<not> bit w i" "[0..<64]"] by (simp add: ctzll_def)
    ultimately have "length (takeWhile (\<lambda>i. \<not> bit w i) [0..<64]) = length [0..<64]"
      by (simp add: ctzll_def)
    then have "takeWhile (\<lambda>i. \<not> bit w i) [0..<64] = [0..<64]"
      by (metis takeWhile_eq_take take_all_iff order_refl)
    then have "\<forall>i \<in> set [0..<64]. \<not> bit w i" by (simp add: takeWhile_eq_all_conv)
    with k \<open>k < 64\<close> show False by simp
  qed
  show "bit w ?n" using nth_length_takeWhile [of "\<lambda>i. \<not> bit w i" "[0..<64]"] n
    by (simp add: ctzll_def)
  show "\<not> bit w j" if "j < ?n" for j
  proof -
    have "takeWhile (\<lambda>i. \<not> bit w i) [0..<64] ! j = [0..<64] ! j"
      using that by (simp add: ctzll_def takeWhile_nth)
    moreover have "takeWhile (\<lambda>i. \<not> bit w i) [0..<64] ! j \<in> set (takeWhile (\<lambda>i. \<not> bit w i) [0..<64])"
      using that by (simp add: ctzll_def)
    ultimately show ?thesis using that n by (auto dest: set_takeWhileD)
  qed
qed

section \<open>The two passes are a search in page order\<close>

lemma full_word: "bitmap_word s i = NOT 0 \<longleftrightarrow> (\<forall>k < 64. bitmap_test s (i * 64 + k))"
  by (subst bit_eq_iff) (auto simp: bit_bitmap_word bit_not_iff possible_bit_def)

lemma ctzll_word:
  assumes "bitmap_word s i \<noteq> NOT 0"
  defines "p \<equiv> i * 64 + ctzll (NOT (bitmap_word s i))"
  shows "i * 64 \<le> p" "p < i * 64 + 64" "\<not> bitmap_test s p"
    and "\<And>j. i * 64 \<le> j \<Longrightarrow> j < p \<Longrightarrow> bitmap_test s j"
proof -
  let ?w = "NOT (bitmap_word s i)"
  have "?w \<noteq> 0" using assms(1) by (metis bit.double_compl)
  note c = ctzll_least [OF this]
  show "i * 64 \<le> p" "p < i * 64 + 64" using c(1) by (simp_all add: p_def)
  show "\<not> bitmap_test s p" using c(1,2) by (simp add: p_def bit_not_iff bit_bitmap_word)
  fix j assume j: "i * 64 \<le> j" "j < p"
  then have "j - i * 64 < ctzll ?w" by (simp add: p_def)
  from c(3) [OF this] c(1) this j show "bitmap_test s j"
    by (simp add: bit_not_iff possible_bit_def bit_bitmap_word)
qed

lemma ctzll_masked:
  assumes "b < 64" and "iw = NOT (bitmap_word s i) AND NOT (push_bit b 1 - 1)"
  shows "iw = 0 \<Longrightarrow> i * 64 + b \<le> j \<Longrightarrow> j < i * 64 + 64 \<Longrightarrow> bitmap_test s j"
    and "iw \<noteq> 0 \<Longrightarrow> i * 64 + b \<le> i * 64 + ctzll iw \<and> \<not> bitmap_test s (i * 64 + ctzll iw) \<and>
      (\<forall>j. i * 64 + b \<le> j \<and> j < i * 64 + ctzll iw \<longrightarrow> bitmap_test s j)"
proof -
  have bit: "bit iw k \<longleftrightarrow> k < 64 \<and> b \<le> k \<and> \<not> bitmap_test s (i * 64 + k)" for k
    unfolding assms(2)
    by (auto simp: bit_and_iff bit_not_iff bit_bitmap_word bit_mask_iff possible_bit_def
        simp flip: mask_eq_exp_minus_1)
  show "bitmap_test s j" if "iw = 0" "i * 64 + b \<le> j" "j < i * 64 + 64"
  proof -
    have "\<not> bit iw (j - i * 64)" using that(1) by simp
    with that(2,3) show ?thesis by (simp add: bit)
  qed
  assume "iw \<noteq> 0"
  note c = ctzll_least [OF this]
  have "bitmap_test s j" if "i * 64 + b \<le> j" "j < i * 64 + ctzll iw" for j
  proof -
    have "j - i * 64 < ctzll iw" using that by simp
    from c(3) [OF this] this c(1) that show ?thesis by (simp add: bit)
  qed
  with c(2) show "i * 64 + b \<le> i * 64 + ctzll iw \<and> \<not> bitmap_test s (i * 64 + ctzll iw) \<and>
      (\<forall>j. i * 64 + b \<le> j \<and> j < i * 64 + ctzll iw \<longrightarrow> bitmap_test s j)"
    by (auto simp: bit)
qed

lemma pmm_pass1_find:
  assumes "b < 64" "w \<le> i"
  shows "pmm_pass1 s w b ((total_pages s + 63) div 64) i =
    find (\<lambda>p. \<not> bitmap_test s p) [(if i = w then w * 64 + b else i * 64)..<total_pages s]"
  using assms(2)
proof (induction "(total_pages s + 63) div 64 - i" arbitrary: i)
  case 0
  then have "total_pages s \<le> i * 64" by linarith
  with 0 show ?case by (auto simp: pmm_pass1.simps)
next
  case (Suc n)
  let ?tw = "(total_pages s + 63) div 64" and ?P = "\<lambda>p. \<not> bitmap_test s p"
  let ?st = "if i = w then w * 64 + b else i * 64"
  have lt: "i < ?tw" using Suc.hyps(2) by linarith
  have IH: "pmm_pass1 s w b ?tw (Suc i) = find ?P [i * 64 + 64..<total_pages s]"
    using Suc.hyps(1) [of "Suc i"] Suc.hyps(2) Suc.prems by (simp add: add.commute)
  have st: "i * 64 \<le> ?st" "?st \<le> i * 64 + 64" using assms(1) by auto
  show ?case
  proof (cases "bitmap_word s i = NOT 0")
    case True
    have "bitmap_test s j" if "?st \<le> j" "j < i * 64 + 64" for j
      using full_word [THEN iffD1, OF True, rule_format, of "j - i * 64"] that st by simp
    then have "find ?P [?st..<total_pages s] = find ?P [i * 64 + 64..<total_pages s]"
      using st by (intro find_upt_skip) auto
    with True lt IH show ?thesis by (subst pmm_pass1.simps) simp
  next
    case full: False
    show ?thesis
    proof (cases "i = w \<and> b > 0")
      case True
      define iw where "iw = NOT (bitmap_word s i) AND NOT (push_bit b 1 - 1)"
      note m = ctzll_masked [OF assms(1) iw_def]
      have u: "pmm_pass1 s w b ?tw i = (if iw \<noteq> 0 then
          (if i * 64 + ctzll iw \<ge> total_pages s then None else Some (i * 64 + ctzll iw))
          else pmm_pass1 s w b ?tw (Suc i))"
        using lt full True by (subst pmm_pass1.simps) (simp add: Let_def iw_def)
      show ?thesis
      proof (cases "iw = 0")
        case True
        then have "find ?P [?st..<total_pages s] = find ?P [i * 64 + 64..<total_pages s]"
          using m(1) st \<open>i = w \<and> b > 0\<close> by (intro find_upt_skip) auto
        with True u IH show ?thesis by simp
      next
        case False
        then have "find ?P [?st..<total_pages s] =
            (if total_pages s \<le> i * 64 + ctzll iw then None else Some (i * 64 + ctzll iw))"
          using m(2) \<open>i = w \<and> b > 0\<close> by (intro find_upt_first) auto
        with False u show ?thesis by simp
      qed
    next
      case False
      then have st0: "?st = i * 64" by auto
      let ?p = "i * 64 + ctzll (NOT (bitmap_word s i))"
      have "find ?P [?st..<total_pages s] = (if total_pages s \<le> ?p then None else Some ?p)"
        unfolding st0 using ctzll_word [OF full] by (intro find_upt_first) auto
      then show ?thesis using lt full False by (subst pmm_pass1.simps) (auto simp: Let_def)
    qed
  qed
qed

lemma scan_bits_find:
  assumes "e \<le> 64"
  shows "map_option (\<lambda>b. i * 64 + b) (scan_bits (bitmap_word s i) e) =
    find (\<lambda>p. \<not> bitmap_test s p) [i * 64..<i * 64 + e]"
proof -
  have eq: "(bitmap_word s i AND push_bit b 1 = 0) = (\<not> bitmap_test s (i * 64 + b))" if "b < e" for b
    using that assms by (simp add: and_exp_eq_0_iff bit_bitmap_word)
  show ?thesis
  proof (cases "scan_bits (bitmap_word s i) e")
    case None
    then have "\<forall>b < e. bitmap_test s (i * 64 + b)"
      using eq by (auto simp: scan_bits_def find_upt_None)
    then have "bitmap_test s j" if "i * 64 \<le> j" "j < i * 64 + e" for j
      using that by (metis add_less_cancel_left le_iff_add)
    then have "find (\<lambda>p. \<not> bitmap_test s p) [i * 64..<i * 64 + e] = None"
      by (auto simp: find_upt_None)
    with None show ?thesis by simp
  next
    case (Some b)
    note f = find_upt_Some [OF Some [unfolded scan_bits_def]]
    have "bitmap_test s j" if "i * 64 \<le> j" "j < i * 64 + b" for j
      using f(2) f(4) [of "j - i * 64"] eq [of "j - i * 64"] that by simp
    moreover have "\<not> bitmap_test s (i * 64 + b)" using f(2,3) eq [of b] by simp
    ultimately have "find (\<lambda>p. \<not> bitmap_test s p) [i * 64..<i * 64 + e] = Some (i * 64 + b)"
      using f(2) by (intro find_upt_SomeI) auto
    with Some show ?thesis by simp
  qed
qed

lemma pmm_pass2_find:
  assumes "b < 64" "w * 64 + b \<le> total_pages s" "i \<le> Suc w"
  shows "pmm_pass2 s w b i = find (\<lambda>p. \<not> bitmap_test s p) [i * 64..<w * 64 + b]"
  using assms(3)
proof (induction "Suc w - i" arbitrary: i)
  case 0
  then have "i = Suc w" by simp
  with assms(1) show ?case by (simp add: pmm_pass2.simps)
next
  case (Suc n)
  let ?P = "\<lambda>p. \<not> bitmap_test s p" and ?r = "w * 64 + b"
  have le: "i \<le> w" using Suc.hyps(2) by simp
  have IH: "pmm_pass2 s w b (Suc i) = find ?P [i * 64 + 64..<?r]"
    using Suc.hyps(1) [of "Suc i"] Suc.hyps(2) le by (simp add: add.commute)
  show ?case
  proof (cases "bitmap_word s i = NOT 0")
    case True
    have "bitmap_test s j" if "i * 64 \<le> j" "j < i * 64 + 64" for j
      using full_word [THEN iffD1, OF True, rule_format, of "j - i * 64"] that by simp
    then have "find ?P [i * 64..<?r] = find ?P [i * 64 + 64..<?r]" by (intro find_upt_skip) auto
    with True le IH show ?thesis by (subst pmm_pass2.simps) simp
  next
    case full: False
    show ?thesis
    proof (cases "i = w")
      case True
      have u: "pmm_pass2 s w b i = (case scan_bits (bitmap_word s i) b of
          Some c \<Rightarrow> if i * 64 + c \<ge> total_pages s then None else Some (i * 64 + c)
        | None \<Rightarrow> pmm_pass2 s w b (Suc i))"
        using full True assms(1) by (subst pmm_pass2.simps) (auto simp: Let_def split: option.split)
      have sc: "map_option (\<lambda>b. i * 64 + b) (scan_bits (bitmap_word s i) b) = find ?P [i * 64..<?r]"
        using scan_bits_find [of b i s] assms(1) True by simp
      show ?thesis
      proof (cases "scan_bits (bitmap_word s i) b")
        case None
        with u sc IH True assms(1) show ?thesis by simp
      next
        case (Some c)
        have "c < b" using find_upt_Some(2) [OF Some [unfolded scan_bits_def]] .
        with Some u sc True assms(2) show ?thesis by simp
      qed
    next
      case False
      with le have lt: "i * 64 + 64 \<le> w * 64" by simp
      let ?p = "i * 64 + ctzll (NOT (bitmap_word s i))"
      note c = ctzll_word [OF full]
      have "find ?P [i * 64..<?r] = (if ?r \<le> ?p then None else Some ?p)"
        using c by (intro find_upt_first) auto
      moreover have "?p < ?r" using c(2) lt by linarith
      ultimately show ?thesis using le full False assms(2)
        by (subst pmm_pass2.simps) (simp add: Let_def)
    qed
  qed
qed

lemma pmm_alloc_page_impl_next_fit:
  "pmm_alloc_page_impl s =
     (case next_fit s of
        Some p \<Rightarrow> (p * PAGE_SIZE, take_page p (reset_rover s))
      | None \<Rightarrow> (0, reset_rover s))"
proof -
  let ?s = "reset_rover s"
  let ?r = "last_free_idx ?s"
  have r: "?r \<le> total_pages ?s" "?r = (if last_free_idx s \<ge> total_pages s then 0 else last_free_idx s)"
    and tp: "total_pages ?s = total_pages s" "bitmap_test ?s = bitmap_test s"
    by (auto simp: reset_rover_def pmm_simps)
  have rr: "?r div 64 * 64 + ?r mod 64 = ?r" by (rule div_mult_mod_eq)
  have p1: "pmm_pass1 ?s (?r div 64) (?r mod 64) ((total_pages ?s + 63) div 64) (?r div 64) =
      find (\<lambda>p. \<not> bitmap_test s p) [?r..<total_pages s]"
    using pmm_pass1_find [of "?r mod 64" "?r div 64" "?r div 64" ?s] rr tp by simp
  have p2: "pmm_pass2 ?s (?r div 64) (?r mod 64) 0 = find (\<lambda>p. \<not> bitmap_test s p) [0..<?r]"
    using pmm_pass2_find [of "?r mod 64" "?r div 64" ?s 0] rr tp r(1) by simp
  have nf: "next_fit s = find (\<lambda>p. \<not> bitmap_test s p) ([?r..<total_pages s] @ [0..<?r])"
    using r(2) by (simp add: next_fit_def Let_def)
  have "pmm_alloc_page_impl s =
     (case pmm_pass1 ?s (?r div 64) (?r mod 64) ((total_pages ?s + 63) div 64) (?r div 64) of
           Some page \<Rightarrow> (page * PAGE_SIZE, take_page page ?s)
         | None \<Rightarrow>
             (case pmm_pass2 ?s (?r div 64) (?r mod 64) 0 of
                Some page \<Rightarrow> (page * PAGE_SIZE, take_page page ?s)
              | None \<Rightarrow> (0, ?s)))"
    by (simp only: pmm_alloc_page_impl_def Let_def reset_rover_def)
  then show ?thesis unfolding p1 p2 nf find_append by (simp split: option.split)
qed


section \<open>Marking a region\<close>

text \<open>
  What the two loops and the allocator leave alone. \<open>same_tables\<close> relates states that have
  the same tables, memory size and rover.
\<close>

definition same_tables :: "pmm \<Rightarrow> pmm \<Rightarrow> bool" where
  "same_tables s t \<longleftrightarrow> total_pages t = total_pages s \<and> total_ram t = total_ram s \<and>
     pmm_bitmap t = pmm_bitmap s \<and> pmm_ref_counts t = pmm_ref_counts s \<and>
     pmm_bitmap_size t = pmm_bitmap_size s"

lemma same_tables_refl [simp]: "same_tables s s"
  by (simp add: same_tables_def)

lemma same_tables_trans: "same_tables s t \<Longrightarrow> same_tables t u \<Longrightarrow> same_tables s u"
  by (simp add: same_tables_def)

lemma card_used_insert:
  assumes "p < total_pages s" "\<not> bitmap_test s p" "same_tables s t"
    and "\<And>q. bitmap_test t q \<longleftrightarrow> q = p \<or> bitmap_test s q"
  shows "card (used_pages t) = Suc (card (used_pages s))"
proof -
  have "used_pages t = insert p (used_pages s)"
    using assms by (auto simp: used_pages_def same_tables_def)
  moreover have "p \<notin> used_pages s" and "finite (used_pages s)"
    using assms(2) by (auto simp: used_pages_def)
  ultimately show ?thesis by simp
qed

lemma card_used_remove:
  assumes "p < total_pages s" "bitmap_test s p" "same_tables s t"
    and "\<And>q. bitmap_test t q \<longleftrightarrow> q \<noteq> p \<and> bitmap_test s q"
  shows "card (used_pages s) = Suc (card (used_pages t))"
proof -
  have "used_pages s = insert p (used_pages t)"
    using assms by (auto simp: used_pages_def same_tables_def)
  moreover have "p \<notin> used_pages t" and "finite (used_pages t)"
    using assms(4) by (auto simp: used_pages_def)
  ultimately show ?thesis by simp
qed

lemma card_used_le: "card (used_pages s) \<le> total_pages s"
  using card_mono [of "{..<total_pages s}" "used_pages s"] by (auto simp: used_pages_def)

lemma used_ram_le: "pmm_inv s \<Longrightarrow> used_ram s \<le> total_ram s"
proof -
  assume i: "pmm_inv s"
  have "PAGE_SIZE * card (used_pages s) \<le> PAGE_SIZE * total_pages s"
    using card_used_le by simp
  also have "\<dots> = total_ram s - total_ram s mod PAGE_SIZE"
    using i by (simp add: pmm_inv_def minus_mod_eq_mult_div)
  finally show ?thesis using i mod_less_eq_dividend [of "total_ram s" PAGE_SIZE]
    unfolding pmm_inv_def by linarith
qed

text \<open>One page more or less: the accounting follows, and it never wraps.\<close>

lemma pmm_inv_use_page:
  assumes "pmm_inv s" "p < total_pages s" "\<not> bitmap_test s p" "same_tables s t"
    and "\<And>q. bitmap_test t q \<longleftrightarrow> q = p \<or> bitmap_test s q"
    and "used_ram t = add64 (used_ram s) PAGE_SIZE"
  shows "pmm_inv t"
proof -
  have c: "card (used_pages t) = Suc (card (used_pages s))"
    by (rule card_used_insert [OF assms(2-5)])
  have "PAGE_SIZE * card (used_pages t) \<le> PAGE_SIZE * total_pages s"
    using card_used_le [of t] assms(4) by (simp add: same_tables_def)
  also have "\<dots> = total_ram s - total_ram s mod PAGE_SIZE"
    using assms(1) by (simp add: pmm_inv_def minus_mod_eq_mult_div)
  finally have "PAGE_SIZE * Suc (card (used_pages s)) \<le> total_ram s - total_ram s mod PAGE_SIZE"
    unfolding c .
  then have "used_ram s + PAGE_SIZE \<le> total_ram s"
    using assms(1) mod_less_eq_dividend [of "total_ram s" PAGE_SIZE]
    unfolding pmm_inv_def mult_Suc_right by linarith
  moreover have "total_ram s < 2 ^ 64" using assms(1) by (simp add: pmm_inv_def)
  ultimately have "used_ram t = used_ram s + PAGE_SIZE"
    using assms(6) by (simp add: add64_exact)
  with assms(1,4) c show ?thesis by (simp add: pmm_inv_def same_tables_def)
qed

lemma pmm_inv_drop_page:
  assumes "pmm_inv s" "p < total_pages s" "bitmap_test s p" "same_tables s t"
    and "\<And>q. bitmap_test t q \<longleftrightarrow> q \<noteq> p \<and> bitmap_test s q"
    and "used_ram t = sub64 (used_ram s) PAGE_SIZE"
  shows "pmm_inv t"
proof -
  have c: "card (used_pages s) = Suc (card (used_pages t))"
    by (rule card_used_remove [OF assms(2-5)])
  then have "PAGE_SIZE \<le> used_ram s" using assms(1) by (simp add: pmm_inv_def)
  moreover have "used_ram s < 2 ^ 64"
    using used_ram_le [OF assms(1)] assms(1) by (simp add: pmm_inv_def)
  ultimately have "used_ram t = used_ram s - PAGE_SIZE"
    using assms(6) by (simp add: sub64_exact)
  with assms(1,4) c show ?thesis by (simp add: pmm_inv_def same_tables_def)
qed

lemma mark_used_loop_spec:
  "same_tables s (mark_used_loop n p s) \<and> refs_mem (mark_used_loop n p s) = refs_mem s \<and>
   (\<forall>q. bitmap_test (mark_used_loop n p s) q \<longleftrightarrow>
      bitmap_test s q \<or> (p \<le> q \<and> q < p + n \<and> q < total_pages s)) \<and>
   (pmm_inv s \<longrightarrow> pmm_inv (mark_used_loop n p s))"
proof (induction n arbitrary: p s)
  case 0
  then show ?case by auto
next
  case (Suc n)
  show ?case
  proof (cases "p < total_pages s")
    case True
    let ?t = "if \<not> bitmap_test s p
       then (bitmap_set p s)\<lparr>used_ram := add64 (used_ram s) PAGE_SIZE\<rparr> else s"
    have t: "same_tables s ?t" "refs_mem ?t = refs_mem s"
      "\<And>q. bitmap_test ?t q \<longleftrightarrow> q = p \<or> bitmap_test s q"
      by (auto simp: same_tables_def pmm_simps)
    have inv: "pmm_inv ?t" if "pmm_inv s"
    proof (cases "bitmap_test s p")
      case False
      then show ?thesis using that t True
        by (intro pmm_inv_use_page [OF that True False t(1)]) (auto simp: pmm_simps)
    qed (use that in simp)
    have step: "mark_used_loop (Suc n) p s = mark_used_loop n (Suc p) ?t" using True by simp
    note IH = Suc.IH [of ?t "Suc p"]
    have "bitmap_test (mark_used_loop (Suc n) p s) q \<longleftrightarrow>
      bitmap_test s q \<or> (p \<le> q \<and> q < p + Suc n \<and> q < total_pages s)" for q
    proof -
      have "bitmap_test (mark_used_loop (Suc n) p s) q \<longleftrightarrow>
        (q = p \<or> bitmap_test s q) \<or> (Suc p \<le> q \<and> q < Suc p + n \<and> q < total_pages s)"
        using IH t unfolding step by (simp add: same_tables_def)
      then show ?thesis using True by auto
    qed
    then show ?thesis using IH t inv same_tables_trans [OF t(1)] unfolding step by simp
  next
    case False
    then show ?thesis by auto
  qed
qed

lemma mark_free_loop_spec:
  "same_tables s (mark_free_loop n p s) \<and> refs_mem (mark_free_loop n p s) = refs_mem s \<and>
   (\<forall>q. bitmap_test (mark_free_loop n p s) q \<longleftrightarrow>
      bitmap_test s q \<and> \<not> (p \<le> q \<and> q < p + n \<and> q < total_pages s)) \<and>
   (pmm_inv s \<longrightarrow> pmm_inv (mark_free_loop n p s))"
proof (induction n arbitrary: p s)
  case 0
  then show ?case by auto
next
  case (Suc n)
  show ?case
  proof (cases "p < total_pages s")
    case True
    let ?t = "if bitmap_test s p
       then (bitmap_unset p s)\<lparr>used_ram := sub64 (used_ram s) PAGE_SIZE\<rparr> else s"
    have t: "same_tables s ?t" "refs_mem ?t = refs_mem s"
      "\<And>q. bitmap_test ?t q \<longleftrightarrow> q \<noteq> p \<and> bitmap_test s q"
      by (auto simp: same_tables_def pmm_simps)
    have inv: "pmm_inv ?t" if "pmm_inv s"
    proof (cases "bitmap_test s p")
      case used: True
      then show ?thesis using that t True
        by (intro pmm_inv_drop_page [OF that True used t(1)]) (auto simp: pmm_simps)
    qed (use that in simp)
    have step: "mark_free_loop (Suc n) p s = mark_free_loop n (Suc p) ?t" using True by simp
    note IH = Suc.IH [of ?t "Suc p"]
    have "bitmap_test (mark_free_loop (Suc n) p s) q \<longleftrightarrow>
      bitmap_test s q \<and> \<not> (p \<le> q \<and> q < p + Suc n \<and> q < total_pages s)" for q
    proof -
      have "bitmap_test (mark_free_loop (Suc n) p s) q \<longleftrightarrow>
        (q \<noteq> p \<and> bitmap_test s q) \<and> \<not> (Suc p \<le> q \<and> q < Suc p + n \<and> q < total_pages s)"
        using IH t unfolding step by (simp add: same_tables_def)
      then show ?thesis using True by auto
    qed
    then show ?thesis using IH t inv same_tables_trans [OF t(1)] unfolding step by simp
  next
    case False
    then show ?thesis by auto
  qed
qed


text \<open>
  What a step of the initialisation keeps (\<open>keeps s t\<close>), and the pages a region covers.
\<close>

definition keeps :: "pmm \<Rightarrow> pmm \<Rightarrow> bool" where
  "keeps s t \<longleftrightarrow> same_tables s t \<and> refs_mem t = refs_mem s \<and> (pmm_inv s \<longrightarrow> pmm_inv t)"

lemma keeps_trans: "keeps s t \<Longrightarrow> keeps t u \<Longrightarrow> keeps s u"
  using same_tables_trans by (auto simp: keeps_def)

lemma keeps_refl [simp]: "keeps s s"
  by (simp add: keeps_def)

lemma pmm_mark_region_used_spec:
  assumes "sz + PAGE_SIZE < 2 ^ 64"
  shows "keeps s (pmm_mark_region_used base sz s)"
    and "bitmap_test (pmm_mark_region_used base sz s) q \<longleftrightarrow>
      bitmap_test s q \<or> (base div PAGE_SIZE \<le> q \<and> q < total_pages s \<and>
        q < base div PAGE_SIZE + (sz + PAGE_SIZE - 1) div PAGE_SIZE)"
proof -
  have "sub64 (add64 sz PAGE_SIZE) 1 = sz + PAGE_SIZE - 1"
    using assms by (simp add: add64_exact sub64_exact PAGE_SIZE_def)
  moreover have "sz = 0 \<Longrightarrow> (sz + PAGE_SIZE - 1) div PAGE_SIZE = 0" by (simp add: PAGE_SIZE_def)
  ultimately show "keeps s (pmm_mark_region_used base sz s)"
    "bitmap_test (pmm_mark_region_used base sz s) q \<longleftrightarrow>
      bitmap_test s q \<or> (base div PAGE_SIZE \<le> q \<and> q < total_pages s \<and>
        q < base div PAGE_SIZE + (sz + PAGE_SIZE - 1) div PAGE_SIZE)"
    using mark_used_loop_spec [of s "(sz + PAGE_SIZE - 1) div PAGE_SIZE" "base div PAGE_SIZE"]
    by (auto simp: pmm_mark_region_used_def keeps_def Let_def)
qed

lemma keeps_mark_region_used: "keeps s (pmm_mark_region_used base sz s)"
  using mark_used_loop_spec by (auto simp: pmm_mark_region_used_def keeps_def Let_def)

lemma mark_region_used_mono:
  "bitmap_test s q \<Longrightarrow> bitmap_test (pmm_mark_region_used base sz s) q"
  using mark_used_loop_spec by (auto simp: pmm_mark_region_used_def Let_def)

lemma keeps_mark_region_free: "keeps s (pmm_mark_region_free base sz s)"
  using mark_free_loop_spec by (auto simp: pmm_mark_region_free_def keeps_def Let_def)

lemma keeps_free_usable: "keeps s (free_usable es s)"
proof (induction es arbitrary: s)
  case Nil
  then show ?case by (simp add: free_usable_def)
next
  case (Cons e es)
  let ?t = "if e_type e = E820_USABLE then pmm_mark_region_free (base_addr e) (e_length e) s else s"
  have "free_usable (e # es) s = free_usable es ?t" by (simp add: free_usable_def)
  moreover have "keeps s ?t" by (simp add: keeps_mark_region_free)
  ultimately show ?case using keeps_trans Cons.IH by metis
qed

section \<open>Allocation and release\<close>

lemma take_page_fields [pmm_simps]:
  "same_tables s (take_page p s)"
  "bitmap_test (take_page p s) q \<longleftrightarrow> q = p \<or> bitmap_test s q"
  "used_ram (take_page p s) = add64 (used_ram s) PAGE_SIZE"
  "refs_mem (take_page p s) = (if pmm_ref_counts s \<noteq> 0 then (refs_mem s)(p := 1) else refs_mem s)"
  by (auto simp: take_page_def Let_def same_tables_def pmm_simps)

lemma reset_rover_fields [pmm_simps]:
  "same_tables s (reset_rover s)" "bitmap_test (reset_rover s) = bitmap_test s"
  "used_ram (reset_rover s) = used_ram s" "refs_mem (reset_rover s) = refs_mem s"
  by (simp_all add: reset_rover_def same_tables_def pmm_simps)

lemma same_used_pages:
  "same_tables s t \<Longrightarrow> bitmap_test t = bitmap_test s \<Longrightarrow> used_pages t = used_pages s"
  by (simp add: used_pages_def same_tables_def)

lemma pmm_inv_cong:
  assumes "same_tables s t" "bitmap_test t = bitmap_test s" "used_ram t = used_ram s"
  shows "pmm_inv t = pmm_inv s"
  using assms same_used_pages [OF assms(1,2)] by (simp add: pmm_inv_def same_tables_def)

text \<open>The invariant of the running allocator.\<close>

definition pmm_ok :: "pmm \<Rightarrow> bool" where
  "pmm_ok s \<longleftrightarrow> pmm_inv s \<and> page0_used s \<and> refs_inv s"

lemma pmm_ok_cong:
  assumes "same_tables s t" "bitmap_test t = bitmap_test s" "used_ram t = used_ram s"
    "refs_mem t = refs_mem s"
  shows "pmm_ok t = pmm_ok s"
  using assms pmm_inv_cong [OF assms(1-3)]
  by (simp add: pmm_ok_def page0_used_def refs_inv_def same_tables_def)

lemma pmm_ok_reset [simp]: "pmm_ok (reset_rover s) = pmm_ok s"
  by (rule pmm_ok_cong) (simp_all add: pmm_simps)

lemma pmm_ok_take:
  assumes "pmm_ok s" "p < total_pages s" "\<not> bitmap_test s p"
  shows "pmm_ok (take_page p s)"
proof -
  have "pmm_inv (take_page p s)"
    by (rule pmm_inv_use_page [of s p]) (use assms in \<open>simp_all add: pmm_simps pmm_ok_def\<close>)
  moreover have "page0_used (take_page p s)" "refs_inv (take_page p s)"
    using assms take_page_fields(1) [of s p]
    by (auto simp: pmm_simps pmm_ok_def page0_used_def refs_inv_def same_tables_def pmm_inv_def)
  ultimately show ?thesis by (simp add: pmm_ok_def)
qed

lemma next_fit_Some:
  assumes "next_fit s = Some p"
  shows "p < total_pages s" "\<not> bitmap_test s p"
proof -
  let ?r = "if last_free_idx s \<ge> total_pages s then 0 else last_free_idx s"
  have "?r \<le> total_pages s" by simp
  moreover have "find (\<lambda>p. \<not> bitmap_test s p) ([?r..<total_pages s] @ [0..<?r]) = Some p"
    using assms by (simp add: next_fit_def Let_def)
  then have "p \<in> set ([?r..<total_pages s] @ [0..<?r]) \<and> \<not> bitmap_test s p"
    by (rule find_SomeD)
  ultimately show "p < total_pages s" "\<not> bitmap_test s p" by (auto split: if_splits)
qed

lemma next_fit_None: "next_fit s = None \<longleftrightarrow> (\<forall>p < total_pages s. bitmap_test s p)"
proof -
  let ?r = "if last_free_idx s \<ge> total_pages s then 0 else last_free_idx s"
  have "next_fit s = None \<longleftrightarrow>
      \<not> (\<exists>p. p \<in> set ([?r..<total_pages s] @ [0..<?r]) \<and> \<not> bitmap_test s p)"
    by (simp add: next_fit_def Let_def find_None_iff)
  also have "set ([?r..<total_pages s] @ [0..<?r]) = {..<total_pages s}" by auto
  finally show ?thesis by auto
qed

lemma next_fit_not_0: "page0_used s \<Longrightarrow> next_fit s = Some p \<Longrightarrow> p \<noteq> 0"
  using next_fit_Some [of s p] by (cases "p = 0") (auto simp: page0_used_def)

text \<open>The whole allocator on a good state: a page from \<open>next_fit\<close>, or NULL and an empty cache.\<close>

lemma pmm_alloc_page_eq:
  assumes "pmm_ok s"
  shows "pmm_alloc_page (s, bc) =
    (case next_fit s of
       Some p \<Rightarrow> Inr (p * PAGE_SIZE, take_page p (reset_rover s), bc)
     | None \<Rightarrow> Inr (0, reset_rover s, bcache_invalidate_all bc))"
proof -
  have b: "pmm_bitmap s \<noteq> 0" and p0: "page0_used s" using assms by (auto simp: pmm_ok_def pmm_inv_def)
  show ?thesis
  proof (cases "next_fit s")
    case None
    then have "next_fit (reset_rover s) = None"
      using reset_rover_fields(1) [of s] by (simp add: next_fit_None pmm_simps same_tables_def)
    moreover have "reset_rover (reset_rover s) = reset_rover s" by (simp add: reset_rover_def)
    ultimately show ?thesis using None b
      by (simp add: pmm_alloc_page_def pmm_alloc_page_impl_next_fit Let_def)
  next
    case (Some p)
    then show ?thesis using b next_fit_not_0 [OF p0 Some]
      by (simp add: pmm_alloc_page_def pmm_alloc_page_impl_next_fit PAGE_SIZE_def)
  qed
qed

lemma release_page_fields [pmm_simps]:
  "same_tables s (release_page p s)" "refs_mem (release_page p s) = refs_mem s"
  "bitmap_test (release_page p s) q \<longleftrightarrow> q \<noteq> p \<and> bitmap_test s q"
  "bitmap_test s p \<Longrightarrow> used_ram (release_page p s) = sub64 (used_ram s) PAGE_SIZE"
  by (auto simp: release_page_def same_tables_def pmm_simps)

text \<open>Releasing one reference of a used page: the counter goes down, the page goes at zero.\<close>

lemma pmm_free_page_eq:
  assumes "pmm_ok s" "p < total_pages s" "bitmap_test s p"
  shows "pmm_free_page (p * PAGE_SIZE) s =
     (let s1 = s\<lparr>refs_mem := (refs_mem s)(p := refs_mem s p - 1)\<rparr>
      in Inr (if refs_mem s p = 1 then release_page p s1 else s1))"
proof -
  have "refs_mem s p > 0" and "pmm_ref_counts s \<noteq> 0"
    using assms by (auto simp: pmm_ok_def refs_inv_def pmm_inv_def)
  moreover have "p * PAGE_SIZE div PAGE_SIZE = p" by (simp add: PAGE_SIZE_def)
  moreover have "(0 < refs_mem s p - 1) = (refs_mem s p \<noteq> 1)"
    by (simp add: word_gt_0)
  ultimately show ?thesis using assms(2,3)
    by (simp add: pmm_free_page_def Let_def pmm_simps)
qed


lemma pmm_ok_free:
  assumes "pmm_ok s" "p < total_pages s" "bitmap_test s p" "p \<noteq> 0"
    and "pmm_free_page (p * PAGE_SIZE) s = Inr t"
  shows "pmm_ok t" "same_tables s t" "refs_mem t = (refs_mem s)(p := refs_mem s p - 1)"
    and "used_pages t = (if refs_mem s p = 1 then used_pages s - {p} else used_pages s)"
proof -
  let ?s1 = "s\<lparr>refs_mem := (refs_mem s)(p := refs_mem s p - 1)\<rparr>"
  have t: "t = (if refs_mem s p = 1 then release_page p ?s1 else ?s1)"
    using pmm_free_page_eq [OF assms(1-3)] assms(5) by (simp add: Let_def)
  have st1: "same_tables s ?s1" by (simp add: same_tables_def)
  then show st: "same_tables s t"
    unfolding t using same_tables_trans [OF st1 release_page_fields(1), of p]
    by (cases "refs_mem s p = 1") simp_all
  show refs: "refs_mem t = (refs_mem s)(p := refs_mem s p - 1)"
    unfolding t by (simp add: pmm_simps)
  have test: "bitmap_test t q \<longleftrightarrow> (refs_mem s p = 1 \<longrightarrow> q \<noteq> p) \<and> bitmap_test s q" for q
    unfolding t by (auto simp: pmm_simps)
  then show "used_pages t = (if refs_mem s p = 1 then used_pages s - {p} else used_pages s)"
    using st by (auto simp: used_pages_def same_tables_def)
  have "pmm_inv s" using assms(1) by (simp add: pmm_ok_def)
  then have "pmm_inv ?s1" using st1 pmm_inv_cong [of s ?s1] by (simp add: pmm_simps)
  moreover from this have "pmm_inv (release_page p ?s1)"
    by (rule pmm_inv_drop_page [of ?s1 p]) (use assms in \<open>simp_all add: pmm_simps\<close>)
  ultimately have "pmm_inv t" unfolding t by (cases "refs_mem s p = 1") simp_all
  moreover have "page0_used t" "refs_inv t"
    using assms(1,4) st test refs
    by (auto simp: page0_used_def refs_inv_def pmm_ok_def same_tables_def word_gt_0)
  ultimately show "pmm_ok t" by (simp add: pmm_ok_def)
qed

section \<open>The interface of a page allocator\<close>

text \<open>
  What the users of physical pages rely on: \<open>alloc\<close> returns 0 or a page that nobody owns,
  \<open>free_page\<close> drops one reference and gives the page back with the last one.
\<close>

locale page_allocator =
  fixes alloc :: "'s \<Rightarrow> 'e + nat \<times> 's"
    and free_page :: "nat \<Rightarrow> 's \<Rightarrow> 'e + 's"
    and owned :: "'s \<Rightarrow> nat set"
    and refs :: "'s \<Rightarrow> nat \<Rightarrow> nat"
    and invar :: "'s \<Rightarrow> bool"
  assumes alloc_total: "invar s \<Longrightarrow> \<exists>a t. alloc s = Inr (a, t)"
    and alloc_fail: "invar s \<Longrightarrow> alloc s = Inr (0, t) \<Longrightarrow>
      invar t \<and> owned t = owned s \<and> (\<forall>b. refs t b = refs s b)"
    and alloc_page: "invar s \<Longrightarrow> alloc s = Inr (a, t) \<Longrightarrow> a \<noteq> 0 \<Longrightarrow>
      invar t \<and> a \<notin> owned s \<and> owned t = insert a (owned s) \<and> refs t a = 1 \<and>
      (\<forall>b \<in> owned s. refs t b = refs s b)"
    and free_ok: "invar s \<Longrightarrow> a \<in> owned s \<Longrightarrow> a \<noteq> 0 \<Longrightarrow>
      \<exists>t. free_page a s = Inr t \<and> invar t \<and> refs t a = refs s a - 1 \<and>
        owned t = (if refs s a = 1 then owned s - {a} else owned s) \<and>
        (\<forall>b \<in> owned s. b \<noteq> a \<longrightarrow> refs t b = refs s b)"
begin

text \<open>Up to \<open>n\<close> allocations, stopping at the first failure.\<close>

fun alloc_many :: "nat \<Rightarrow> 's \<Rightarrow> nat list \<times> 's" where
  "alloc_many 0 s = ([], s)"
| "alloc_many (Suc n) s =
     (case alloc s of
        Inl e \<Rightarrow> ([], s)
      | Inr (a, t) \<Rightarrow> if a = 0 then ([], t)
          else (case alloc_many n t of (as, u) \<Rightarrow> (a # as, u)))"

fun free_many :: "nat list \<Rightarrow> 's \<Rightarrow> 's" where
  "free_many [] s = s"
| "free_many (a # as) s = (case free_page a s of Inl e \<Rightarrow> s | Inr t \<Rightarrow> free_many as t)"

lemma alloc_many_distinct:
  assumes "invar s" "alloc_many n s = (as, t)"
  shows "invar t \<and> distinct as \<and> 0 \<notin> set as \<and> set as \<inter> owned s = {} \<and>
    owned t = set as \<union> owned s \<and> (\<forall>a \<in> set as. refs t a = 1) \<and>
    (\<forall>b \<in> owned s. refs t b = refs s b)"
  using assms
proof (induction n arbitrary: s as)
  case 0
  then show ?case by simp
next
  case (Suc n)
  obtain a u where a: "alloc s = Inr (a, u)" using alloc_total [OF Suc.prems(1)] by blast
  show ?case
  proof (cases "a = 0")
    case True
    then show ?thesis using Suc.prems a alloc_fail [OF Suc.prems(1), of u] by auto
  next
    case False
    note p = alloc_page [OF Suc.prems(1) a False]
    obtain bs where b: "alloc_many n u = (bs, t)" "as = a # bs"
      using Suc.prems(2) a False by (auto split: prod.splits)
    have "invar u" using p by simp
    from Suc.IH [OF this b(1)] p b(2) False show ?thesis by auto
  qed
qed

lemma free_many_owned:
  assumes "invar s" "distinct as" "0 \<notin> set as" "set as \<subseteq> owned s" "\<forall>a \<in> set as. refs s a = 1"
  shows "invar (free_many as s) \<and> owned (free_many as s) = owned s - set as"
  using assms
proof (induction as arbitrary: s)
  case Nil
  then show ?case by simp
next
  case (Cons a as)
  then have "a \<in> owned s" "a \<noteq> 0" by auto
  from free_ok [OF Cons.prems(1) this] obtain t where
    t: "free_page a s = Inr t" "invar t" "owned t = owned s - {a}"
      "\<forall>b \<in> owned s. b \<noteq> a \<longrightarrow> refs t b = refs s b"
    using Cons.prems(5) by auto
  have "invar (free_many as t) \<and> owned (free_many as t) = owned t - set as"
    using Cons.prems t by (intro Cons.IH) auto
  with t show ?case by auto
qed

text \<open>Allocating and giving everything back changes nothing in the set of pages in use.\<close>

lemma alloc_free_many:
  assumes "invar s" "alloc_many n s = (as, t)"
  shows "owned (free_many as t) = owned s"
  using free_many_owned [of t as] alloc_many_distinct [OF assms] by auto

end

section \<open>The allocator implements the interface\<close>

definition owned_addrs :: "pmm \<Rightarrow> nat set" where
  "owned_addrs s = (\<lambda>p. p * PAGE_SIZE) ` used_pages s"

definition addr_refs :: "pmm \<Rightarrow> nat \<Rightarrow> nat" where
  "addr_refs s a = unat (pmm_get_ref_count a s)"

lemma addr_mem_iff: "p * PAGE_SIZE \<in> owned_addrs s \<longleftrightarrow> p \<in> used_pages s"
  by (auto simp: owned_addrs_def PAGE_SIZE_def)

lemma owned_addrs_cong: "used_pages t = used_pages s \<Longrightarrow> owned_addrs t = owned_addrs s"
  by (simp add: owned_addrs_def)

lemma addr_refs_page:
  "pmm_ok s \<Longrightarrow> p < total_pages s \<Longrightarrow> addr_refs s (p * PAGE_SIZE) = unat (refs_mem s p)"
  by (simp add: addr_refs_def pmm_get_ref_count_def PAGE_SIZE_def Let_def pmm_ok_def pmm_inv_def)

lemma pmm_alloc_cases:
  assumes "pmm_ok s" "pmm_alloc_page (s, bc) = Inr (a, t, bc')"
  obtains (full) "a = 0" "next_fit s = None" "t = reset_rover s" "bc' = bcache_invalidate_all bc"
  | (page) p where "a = p * PAGE_SIZE" "next_fit s = Some p" "p \<noteq> 0" "t = take_page p (reset_rover s)"
      "bc' = bc"
proof (cases "next_fit s")
  case None
  with pmm_alloc_page_eq [OF assms(1), of bc] assms(2) full show thesis by simp
next
  case (Some p)
  moreover have "p \<noteq> 0" using assms(1) next_fit_not_0 [OF _ Some] by (simp add: pmm_ok_def)
  ultimately show thesis using pmm_alloc_page_eq [OF assms(1), of bc] assms(2)
    by (intro page [of p]) auto
qed

lemma pmm_alloc_laws:
  assumes "pmm_ok s" "pmm_alloc_page (s, bc) = Inr (a, t, bc')"
  shows "a = 0 \<Longrightarrow> pmm_ok t \<and> owned_addrs t = owned_addrs s \<and> addr_refs t = addr_refs s"
    and "a \<noteq> 0 \<Longrightarrow> pmm_ok t \<and> a \<notin> owned_addrs s \<and> owned_addrs t = insert a (owned_addrs s) \<and>
      addr_refs t a = 1 \<and> (\<forall>b \<in> owned_addrs s. addr_refs t b = addr_refs s b)"
proof -
  show "pmm_ok t \<and> owned_addrs t = owned_addrs s \<and> addr_refs t = addr_refs s" if "a = 0"
    using assms
  proof (cases rule: pmm_alloc_cases)
    case full
    have "owned_addrs t = owned_addrs s" unfolding full
      by (intro owned_addrs_cong same_used_pages) (simp_all add: pmm_simps)
    moreover have "addr_refs t = addr_refs s" unfolding full
      by (simp add: addr_refs_def pmm_get_ref_count_def reset_rover_def fun_eq_iff Let_def)
    ultimately show ?thesis using assms(1) full by simp
  qed (use that in \<open>simp add: PAGE_SIZE_def\<close>)
  assume "a \<noteq> 0"
  from assms show "pmm_ok t \<and> a \<notin> owned_addrs s \<and> owned_addrs t = insert a (owned_addrs s) \<and>
      addr_refs t a = 1 \<and> (\<forall>b \<in> owned_addrs s. addr_refs t b = addr_refs s b)"
  proof (cases rule: pmm_alloc_cases)
    case (page p)
    note nf = next_fit_Some [OF page(2)]
    have st: "same_tables s t"
      unfolding page using reset_rover_fields(1) take_page_fields(1) same_tables_trans by blast
    then have "used_pages t = insert p (used_pages s)"
      using nf by (auto simp: used_pages_def page same_tables_def pmm_simps)
    then have o: "owned_addrs t = insert a (owned_addrs s)" by (simp add: owned_addrs_def page)
    have ok: "pmm_ok t" unfolding page using assms(1) nf reset_rover_fields(1) [of s]
      by (intro pmm_ok_take) (simp_all add: pmm_simps same_tables_def)
    have r: "refs_mem t = (refs_mem s)(p := 1)" unfolding page
      using assms(1) reset_rover_fields(1) [of s]
      by (simp add: pmm_simps same_tables_def pmm_ok_def pmm_inv_def)
    have "addr_refs t b = addr_refs s b" if b: "b \<in> owned_addrs s" for b
    proof -
      obtain q where q: "b = q * PAGE_SIZE" "q \<in> used_pages s" using b by (auto simp: owned_addrs_def)
      then have "q \<noteq> p" "q < total_pages s" using nf by (auto simp: used_pages_def)
      then show ?thesis using r ok assms(1) st q
        by (simp add: addr_refs_page same_tables_def)
    qed
    moreover have "addr_refs t a = 1" using r ok st nf page
      by (simp add: addr_refs_page same_tables_def)
    moreover have "a \<notin> owned_addrs s" using nf by (simp add: page(1) addr_mem_iff used_pages_def)
    ultimately show ?thesis using o ok by blast
  qed (use \<open>a \<noteq> 0\<close> in simp)
qed

lemma unat_dec: "(w :: u16) \<noteq> 0 \<Longrightarrow> unat (w - 1) = unat w - 1"
  by (simp add: unat_minus_one)

lemma inc_pos: "(w :: u16) < 65535 \<Longrightarrow> 0 < w + 1"
proof -
  assume lt: "w < 65535"
  have "w \<noteq> - 1" using lt by auto
  then show ?thesis by (metis add.inverse_unique add.commute word_gt_0)
qed

lemma pmm_free_laws:
  assumes "pmm_ok s" "a \<in> owned_addrs s" "a \<noteq> 0"
  shows "\<exists>t. pmm_free_page a s = Inr t \<and> pmm_ok t \<and> addr_refs t a = addr_refs s a - 1 \<and>
      owned_addrs t = (if addr_refs s a = 1 then owned_addrs s - {a} else owned_addrs s) \<and>
      (\<forall>b \<in> owned_addrs s. b \<noteq> a \<longrightarrow> addr_refs t b = addr_refs s b)"
proof -
  obtain p where p: "a = p * PAGE_SIZE" "p < total_pages s" "bitmap_test s p"
    using assms(2) by (auto simp: owned_addrs_def used_pages_def)
  have "p \<noteq> 0" using p(1) assms(3) by auto
  obtain t where t: "pmm_free_page a s = Inr t"
    using pmm_free_page_eq [OF assms(1) p(2,3)] p(1) by (simp add: Let_def)
  note f = pmm_ok_free [OF assms(1) p(2,3) \<open>p \<noteq> 0\<close> t [unfolded p(1)]]
  have tp: "total_pages t = total_pages s" using f(2) by (simp add: same_tables_def)
  have "refs_mem s p \<noteq> 0" using assms(1) p by (simp add: pmm_ok_def refs_inv_def word_gt_0)
  then have "addr_refs t a = addr_refs s a - 1"
    using f(1,3) assms(1) p tp by (simp add: addr_refs_page unat_dec)
  moreover have "addr_refs s a = 1 \<longleftrightarrow> refs_mem s p = 1"
    using assms(1) p word_unat_eq_iff [of "refs_mem s p" 1] by (simp add: addr_refs_page)
  then have "owned_addrs t = (if addr_refs s a = 1 then owned_addrs s - {a} else owned_addrs s)"
    using f(4) p(1) by (auto simp: owned_addrs_def PAGE_SIZE_def)
  moreover have "addr_refs t b = addr_refs s b" if b: "b \<in> owned_addrs s" "b \<noteq> a" for b
  proof -
    obtain q where q: "b = q * PAGE_SIZE" "q \<in> used_pages s" using b by (auto simp: owned_addrs_def)
    then have "q \<noteq> p" "q < total_pages s" using b p(1) by (auto simp: used_pages_def)
    then show ?thesis using f(1,3) assms(1) q tp by (simp add: addr_refs_page)
  qed
  ultimately show ?thesis using t f(1) by blast
qed

interpretation pa: page_allocator pmm_alloc_page
  "\<lambda>a (s, bc). map_sum id (\<lambda>t. (t, bc)) (pmm_free_page a s)"
  "\<lambda>(s, bc). owned_addrs s" "\<lambda>(s, bc). addr_refs s" "\<lambda>(s, bc). pmm_ok s"
proof unfold_locales
  fix s t :: "pmm \<times> bcache_state" and a :: nat
  assume ok: "case s of (s, bc) \<Rightarrow> pmm_ok s"
  obtain p bc where s: "s = (p, bc)" by (cases s)
  obtain q bd where t: "t = (q, bd)" by (cases t)
  have p: "pmm_ok p" using ok s by simp
  show "\<exists>a t. pmm_alloc_page s = Inr (a, t)"
    using pmm_alloc_page_eq [OF p, of bc] s by (auto split: option.splits)
  show "(case t of (s, bc) \<Rightarrow> pmm_ok s) \<and>
      (case t of (s, bc) \<Rightarrow> owned_addrs s) = (case s of (s, bc) \<Rightarrow> owned_addrs s) \<and>
      (\<forall>b. (case t of (s, bc) \<Rightarrow> addr_refs s) b = (case s of (s, bc) \<Rightarrow> addr_refs s) b)"
    if "pmm_alloc_page s = Inr (0, t)"
    using pmm_alloc_laws(1) [OF p, of bc 0 q bd] that s t by simp
  show "(case t of (s, bc) \<Rightarrow> pmm_ok s) \<and> a \<notin> (case s of (s, bc) \<Rightarrow> owned_addrs s) \<and>
      (case t of (s, bc) \<Rightarrow> owned_addrs s) = insert a (case s of (s, bc) \<Rightarrow> owned_addrs s) \<and>
      (case t of (s, bc) \<Rightarrow> addr_refs s) a = 1 \<and>
      (\<forall>b \<in> case s of (s, bc) \<Rightarrow> owned_addrs s.
         (case t of (s, bc) \<Rightarrow> addr_refs s) b = (case s of (s, bc) \<Rightarrow> addr_refs s) b)"
    if "pmm_alloc_page s = Inr (a, t)" "a \<noteq> 0"
    using pmm_alloc_laws(2) [OF p, of bc a q bd] that s t by simp
  show "\<exists>t. (case s of (s, bc) \<Rightarrow> map_sum id (\<lambda>t. (t, bc)) (pmm_free_page a s)) = Inr t \<and>
      (case t of (s, bc) \<Rightarrow> pmm_ok s) \<and>
      (case t of (s, bc) \<Rightarrow> addr_refs s) a = (case s of (s, bc) \<Rightarrow> addr_refs s) a - 1 \<and>
      (case t of (s, bc) \<Rightarrow> owned_addrs s) =
        (if (case s of (s, bc) \<Rightarrow> addr_refs s) a = 1
         then (case s of (s, bc) \<Rightarrow> owned_addrs s) - {a} else case s of (s, bc) \<Rightarrow> owned_addrs s) \<and>
      (\<forall>b \<in> case s of (s, bc) \<Rightarrow> owned_addrs s. b \<noteq> a \<longrightarrow>
         (case t of (s, bc) \<Rightarrow> addr_refs s) b = (case s of (s, bc) \<Rightarrow> addr_refs s) b)"
    if "a \<in> (case s of (s, bc) \<Rightarrow> owned_addrs s)" "a \<noteq> 0"
    using pmm_free_laws [OF p, of a] that s by fastforce
qed


section \<open>The state after initialisation\<close>

definition region_has :: "e820_entry \<Rightarrow> nat \<Rightarrow> bool" where
  "region_has e q \<longleftrightarrow> e_type e = E820_USABLE \<and> base_addr e div PAGE_SIZE \<le> q \<and>
     q < base_addr e div PAGE_SIZE + e_length e div PAGE_SIZE"

lemma bitmap_test_free_usable:
  "q < total_pages s \<Longrightarrow>
   bitmap_test (free_usable es s) q \<longleftrightarrow> bitmap_test s q \<and> \<not> (\<exists>e \<in> set es. region_has e q)"
proof (induction es arbitrary: s)
  case Nil
  then show ?case by (simp add: free_usable_def)
next
  case (Cons e es)
  let ?t = "if e_type e = E820_USABLE then pmm_mark_region_free (base_addr e) (e_length e) s else s"
  have "free_usable (e # es) s = free_usable es ?t" by (simp add: free_usable_def)
  moreover have "q < total_pages ?t"
    using Cons.prems keeps_mark_region_free by (simp add: keeps_def same_tables_def)
  moreover have "bitmap_test ?t q \<longleftrightarrow> bitmap_test s q \<and> \<not> region_has e q"
    using mark_free_loop_spec [of s "e_length e div PAGE_SIZE" "base_addr e div PAGE_SIZE"] Cons.prems
    by (auto simp: pmm_mark_region_free_def region_has_def Let_def)
  ultimately show ?case using Cons.IH [of ?t] by auto
qed

lemma detect_ram_bound: "ram < 2 ^ 64 \<Longrightarrow> detect_ram m ram < 2 ^ 64"
proof -
  have "max_region_end es r < 2 ^ 64" if "r < 2 ^ 64" for es r
    using that by (induction es r rule: max_region_end.induct) (auto simp: add64_def)
  then show "ram < 2 ^ 64 \<Longrightarrow> detect_ram m ram < 2 ^ 64" by (simp add: detect_ram_def Let_def)
qed

lemma byte_index_bound:
  fixes n :: nat
  assumes "q < n"
  shows "q div 8 < n div 8 + (if n mod 8 \<noteq> 0 then 1 else 0)"
proof (cases "n mod 8 = 0")
  case True
  then have "q < n div 8 * 8" using assms by (metis div_mult_mod_eq add_0_right)
  then have "q div 8 < n div 8" by (rule less_mult_imp_div_less)
  with True show ?thesis by simp
next
  case False
  have "q div 8 \<le> n div 8" using assms by (simp add: div_le_mono)
  with False show ?thesis by simp
qed

lemma pmm_bitmap_size_place:
  assumes "ram < 2 ^ 64"
  shows "pmm_bitmap_size (pmm_place ram s) \<le> 2 ^ 49"
    and "total_pages (pmm_place ram s) < 2 ^ 52"
proof -
  have "ram div PAGE_SIZE < 2 ^ 52"
    using assms by (intro less_mult_imp_div_less) (simp add: PAGE_SIZE_def)
  moreover have "n < 2 ^ 52 \<Longrightarrow> n div 8 + (if n mod 8 \<noteq> 0 then 1 else 0) \<le> 2 ^ 49" for n :: nat
    by (simp; linarith)
  ultimately show "total_pages (pmm_place ram s) < 2 ^ 52" "pmm_bitmap_size (pmm_place ram s) \<le> 2 ^ 49"
    by (simp_all add: pmm_place_def Let_def)
qed

text \<open>Everything is used and counted right after the tables are filled.\<close>

lemma pmm_fill_test:
  assumes "s = pmm_fill (pmm_place ram s0)" "q < total_pages s"
  shows "bitmap_test s q" "refs_mem s q = 1"
proof -
  let ?n = "ram div PAGE_SIZE"
  have "q < ?n" using assms by (simp add: pmm_fill_def pmm_place_def Let_def)
  then have "q div 8 < ?n div 8 + (if ?n mod 8 \<noteq> 0 then 1 else 0)" by (rule byte_index_bound)
  moreover have "bit (0xFF :: u8) (q mod 8)"
  proof -
    have "bit (mask 8 :: u8) (q mod 8)" by (simp add: bit_mask_iff)
    then show ?thesis by (simp add: mask_eq_exp_minus_1)
  qed
  ultimately show "bitmap_test s q" "refs_mem s q = 1"
    using assms \<open>q < ?n\<close>
    by (simp_all add: bitmap_test_bit pmm_fill_def pmm_place_def Let_def)
qed

lemma pmm_fill_inv:
  assumes "s = pmm_fill (pmm_place ram s0)" "ram < 2 ^ 64" "pmm_ref_counts s \<noteq> 0"
  shows "pmm_inv s"
proof -
  have f: "total_ram s = ram" "total_pages s = ram div PAGE_SIZE" "used_ram s = ram" "pmm_bitmap s \<noteq> 0"
    using assms(1) by (simp_all add: pmm_fill_def pmm_place_def Let_def)
  have "used_pages s = {..<total_pages s}"
    using pmm_fill_test [OF assms(1)] by (auto simp: used_pages_def)
  then have "card (used_pages s) = ram div PAGE_SIZE" using f by simp
  then show ?thesis using f assms by (simp add: pmm_inv_def)
qed

text \<open>The page range of the bitmap and of the counters.\<close>

definition covers :: "nat \<Rightarrow> nat \<Rightarrow> nat \<Rightarrow> bool" where
  "covers base sz q \<longleftrightarrow> base div PAGE_SIZE \<le> q \<and>
     q < base div PAGE_SIZE + (sz + PAGE_SIZE - 1) div PAGE_SIZE"

lemma bitmap_test_mark_used:
  assumes "sz + PAGE_SIZE < 2 ^ 64" "q < total_pages s"
  shows "bitmap_test (pmm_mark_region_used base sz s) q \<longleftrightarrow> bitmap_test s q \<or> covers base sz q"
  using pmm_mark_region_used_spec(2) [OF assms(1)] assms(2) by (auto simp: covers_def)

lemma pmm_init_unfold:
  assumes "pmm_init m ks ke s0 = Inr s" "total_ram s0 < 2 ^ 64"
  defines "s2 \<equiv> pmm_fill (pmm_place (detect_ram m (total_ram s0)) s0)"
  defines "s4 \<equiv> pmm_mark_region_used 0xB8000 32000
      (pmm_mark_region_used 0 0x100000 (free_usable (map_entries m) s2))"
  defines "s5 \<equiv> pmm_mark_region_used ks (sub64 ke ks) s4"
  defines "s6 \<equiv> pmm_mark_region_used (pmm_bitmap s2) (pmm_bitmap_size s2) s5"
  defines "s7 \<equiv> pmm_mark_region_used (pmm_ref_counts s2) (mul64 (total_pages s2) 2) s6"
  shows "keeps s2 s4" "keeps s2 s5" "keeps s2 s6" "keeps s2 s7" "pmm_ref_counts s2 \<noteq> 0"
    and "same_tables s7 s" "bitmap_test s = bitmap_test s7" "used_ram s = used_ram s7"
      "refs_mem s = refs_mem s7"
proof -
  have k: "keeps s2 s4" unfolding s4_def
    using keeps_free_usable keeps_mark_region_used keeps_trans by blast
  then show "keeps s2 s4" .
  then have k5: "keeps s2 s5" unfolding s5_def using keeps_mark_region_used keeps_trans by blast
  then show "keeps s2 s5" .
  then have k6: "keeps s2 s6" unfolding s6_def using keeps_mark_region_used keeps_trans by blast
  then show "keeps s2 s6" .
  then have k7: "keeps s2 s7" unfolding s7_def using keeps_mark_region_used keeps_trans by blast
  then show "keeps s2 s7" .
  have e: "pmm_bitmap s5 = pmm_bitmap s2" "pmm_bitmap_size s5 = pmm_bitmap_size s2"
    "total_pages s5 = total_pages s2" "pmm_ref_counts s6 = pmm_ref_counts s2"
    using k5 k6 by (simp_all add: keeps_def same_tables_def)
  let ?s1 = "pmm_place (detect_ram m (total_ram s0)) s0"
  have a: "\<not> \<not> ks \<ge> 0x100000" "\<not> \<not> pmm_ref_counts ?s1 \<ge> add64 (pmm_bitmap ?s1) (pmm_bitmap_size ?s1)"
    "pmm_bitmap ?s1 = 0x1A000"
    using assms(1) by (auto simp: pmm_init_def Let_def split: if_splits)
  have "\<exists>fms idx. s = s7\<lparr>free_mem_start := fms, last_free_idx := idx, pmm_initialized_flag := True\<rparr>"
    using assms(1) a unfolding pmm_init_def Let_def
    by (auto simp flip: s2_def simp flip: s4_def simp flip: s5_def simp: e
        simp flip: s6_def simp: e simp flip: s7_def)
  then show "same_tables s7 s" "bitmap_test s = bitmap_test s7" "used_ram s = used_ram s7"
      "refs_mem s = refs_mem s7"
    by (auto simp: same_tables_def bitmap_test_def fun_eq_iff)
  show "pmm_ref_counts s2 \<noteq> 0"
  proof -
    have "pmm_ref_counts s2 = pmm_ref_counts ?s1" by (simp add: s2_def pmm_fill_def)
    moreover have "pmm_bitmap_size ?s1 \<le> 2 ^ 49"
      by (rule pmm_bitmap_size_place(1) [OF detect_ram_bound [OF assms(2)]])
    ultimately show ?thesis using a by (simp add: add64_exact)
  qed
qed


lemma pmm_init_tables:
  assumes "pmm_init m ks ke s0 = Inr s" "total_ram s0 < 2 ^ 64"
  shows "same_tables (pmm_place (detect_ram m (total_ram s0)) s0) s"
proof -
  let ?p = "pmm_place (detect_ram m (total_ram s0)) s0"
  have "same_tables ?p (pmm_fill ?p)" by (simp add: same_tables_def pmm_fill_def)
  moreover have "same_tables (pmm_fill ?p) s"
    using pmm_init_unfold(4,6) [OF assms] same_tables_trans by (auto simp: keeps_def)
  ultimately show ?thesis by (rule same_tables_trans)
qed

lemma pmm_init_state:
  assumes "pmm_init m ks ke s0 = Inr s" "total_ram s0 < 2 ^ 64" "ks \<le> ke" "ke + PAGE_SIZE < 2 ^ 64"
  shows "pmm_inv s" "\<forall>p < total_pages s. refs_mem s p = 1"
    and "\<And>q. q < total_pages s \<Longrightarrow> bitmap_test s q \<longleftrightarrow>
      covers 0 0x100000 q \<or> covers 0xB8000 32000 q \<or> covers ks (ke - ks) q \<or>
      covers (pmm_bitmap s) (pmm_bitmap_size s) q \<or>
      covers (pmm_ref_counts s) (2 * total_pages s) q \<or>
      \<not> (\<exists>e \<in> set (map_entries m). region_has e q)"
proof -
  define s2 where "s2 = pmm_fill (pmm_place (detect_ram m (total_ram s0)) s0)"
  note u = pmm_init_unfold [OF assms(1,2), folded s2_def]
  note ram = detect_ram_bound [OF assms(2), of m]
  have "pmm_inv s2" by (rule pmm_fill_inv [OF s2_def ram u(5)])
  then have "pmm_inv (pmm_mark_region_used (pmm_ref_counts s2) (mul64 (total_pages s2) 2)
     (pmm_mark_region_used (pmm_bitmap s2) (pmm_bitmap_size s2)
       (pmm_mark_region_used ks (sub64 ke ks) (pmm_mark_region_used 0xB8000 32000
         (pmm_mark_region_used 0 0x100000 (free_usable (map_entries m) s2))))))"
    using u(4) by (simp add: keeps_def)
  with pmm_inv_cong [OF u(6-8)] show "pmm_inv s" by simp
  have tab: "same_tables s2 s" using u(4,6) same_tables_trans by (auto simp: keeps_def)
  then have tp: "total_pages s = total_pages s2" "pmm_bitmap s2 = pmm_bitmap s"
    "pmm_bitmap_size s2 = pmm_bitmap_size s" "pmm_ref_counts s2 = pmm_ref_counts s"
    by (simp_all add: same_tables_def)
  show "\<forall>p < total_pages s. refs_mem s p = 1"
    using u(4,9) tp pmm_fill_test(2) [OF s2_def] by (simp add: keeps_def)
  fix q assume "q < total_pages s"
  then have q2: "q < total_pages s2" using tp by simp
  have sz: "pmm_bitmap_size s2 \<le> 2 ^ 49" "total_pages s2 < 2 ^ 52"
    using pmm_bitmap_size_place [OF ram, of s0] by (simp_all add: s2_def pmm_fill_def)
  have m: "mul64 (total_pages s2) 2 = 2 * total_pages s2" and k: "sub64 ke ks = ke - ks"
    using sz assms(3,4) by (simp_all add: mul64_exact sub64_exact)
  have tps: "q < total_pages (free_usable (map_entries m) s2)"
    using keeps_free_usable q2 by (simp add: keeps_def same_tables_def)
  have st: "total_pages (pmm_mark_region_used b z t) = total_pages t" for b z t
    using keeps_mark_region_used by (simp add: keeps_def same_tables_def)
  have "bitmap_test s q \<longleftrightarrow> bitmap_test (free_usable (map_entries m) s2) q \<or>
      covers 0 0x100000 q \<or> covers 0xB8000 32000 q \<or> covers ks (ke - ks) q \<or>
      covers (pmm_bitmap s) (pmm_bitmap_size s) q \<or> covers (pmm_ref_counts s) (2 * total_pages s) q"
    using tps sz assms(3,4) tp
    by (simp add: u(7) m k bitmap_test_mark_used st PAGE_SIZE_def)
  also have "bitmap_test (free_usable (map_entries m) s2) q \<longleftrightarrow>
      \<not> (\<exists>e \<in> set (map_entries m). region_has e q)"
    using bitmap_test_free_usable [OF q2] pmm_fill_test(1) [OF s2_def q2] by simp
  finally show "bitmap_test s q \<longleftrightarrow>
      covers 0 0x100000 q \<or> covers 0xB8000 32000 q \<or> covers ks (ke - ks) q \<or>
      covers (pmm_bitmap s) (pmm_bitmap_size s) q \<or>
      covers (pmm_ref_counts s) (2 * total_pages s) q \<or>
      \<not> (\<exists>e \<in> set (map_entries m). region_has e q)" by blast
qed

lemma pmm_init_ok:
  assumes "pmm_init m ks ke s0 = Inr s" "total_ram s0 < 2 ^ 64" "ks \<le> ke" "ke + PAGE_SIZE < 2 ^ 64"
  shows "pmm_ok s"
proof -
  note i = pmm_init_state [OF assms]
  have "covers 0 0x100000 0" by (simp add: covers_def PAGE_SIZE_def)
  then have "page0_used s" using i(3) [of 0] by (simp add: page0_used_def)
  moreover have "refs_inv s" using i(2) by (simp add: refs_inv_def)
  ultimately show ?thesis using i(1) by (simp add: pmm_ok_def)
qed

section \<open>Properties\<close>

text \<open>A page lies wholly in a range of addresses, or shares an address with it.\<close>

definition page_within :: "nat \<Rightarrow> nat \<Rightarrow> nat \<Rightarrow> bool" where
  "page_within base sz q \<longleftrightarrow> base \<le> q * PAGE_SIZE \<and> (q + 1) * PAGE_SIZE \<le> base + sz"

definition page_touches :: "nat \<Rightarrow> nat \<Rightarrow> nat \<Rightarrow> bool" where
  "page_touches base sz q \<longleftrightarrow> q * PAGE_SIZE < base + sz \<and> base < (q + 1) * PAGE_SIZE"

text \<open>The low megabyte, the VGA buffer, the kernel image, the bitmap and the reference counters.\<close>

definition reserved_page :: "pmm \<Rightarrow> nat \<Rightarrow> nat \<Rightarrow> nat \<Rightarrow> bool" where
  "reserved_page s ks ke q \<longleftrightarrow> page_touches 0 0x100000 q \<or> page_touches 0xB8000 32000 q \<or> page_touches ks (ke - ks) q \<or>
     page_touches (pmm_bitmap s) (pmm_bitmap_size s) q \<or> page_touches (pmm_ref_counts s) (2 * total_pages s) q"

lemma region_has_within:
  "region_has e q \<longleftrightarrow> e_type e = E820_USABLE \<and> page_within (base_addr e - base_addr e mod PAGE_SIZE) (e_length e) q"
proof -
  let ?b = "base_addr e div 4096"
  have "base_addr e - base_addr e mod 4096 = ?b * 4096" by (simp add: minus_mod_eq_div_mult)
  moreover have "q < ?b + e_length e div 4096 \<longleftrightarrow> (q + 1) * 4096 \<le> ?b * 4096 + e_length e" if le: "?b \<le> q"
  proof -
    obtain k where k: "q = ?b + k" using le le_iff_add by blast
    have "k < e_length e div 4096 \<longleftrightarrow> (k + 1) * 4096 \<le> e_length e"
      using less_eq_div_iff_mult_less_eq [of 4096 "k + 1" "e_length e"] by (simp add: less_eq_Suc_le)
    then show ?thesis unfolding k by (simp add: algebra_simps)
  qed
  ultimately show ?thesis by (auto simp: region_has_def page_within_def PAGE_SIZE_def)
qed

lemma covers_touches: "PAGE_SIZE dvd base \<Longrightarrow> covers base sz q \<longleftrightarrow> page_touches base sz q"
  unfolding covers_def page_touches_def PAGE_SIZE_def by (elim dvdE) (simp, linarith)

lemma reserved_covers:
  assumes "pmm_init m ks ke s0 = Inr s" "total_ram s0 < 2 ^ 64" "PAGE_SIZE dvd ks"
  shows "reserved_page s ks ke q \<longleftrightarrow> covers 0 0x100000 q \<or> covers 0xB8000 32000 q \<or> covers ks (ke - ks) q \<or>
      covers (pmm_bitmap s) (pmm_bitmap_size s) q \<or> covers (pmm_ref_counts s) (2 * total_pages s) q"
proof -
  have "PAGE_SIZE dvd pmm_bitmap s" "PAGE_SIZE dvd pmm_ref_counts s"
    using pmm_init_tables [OF assms(1,2)]
    by (simp_all add: same_tables_def pmm_place_def Let_def PAGE_ALIGN_UP_def) (simp add: PAGE_SIZE_def)
  moreover have "PAGE_SIZE dvd (0 :: nat)" "PAGE_SIZE dvd (0xB8000 :: nat)" by (simp_all add: PAGE_SIZE_def)
  ultimately show ?thesis using assms(3) by (simp only: reserved_page_def covers_touches)
qed

text \<open>C11: a successful \<open>pmm_init\<close>, with the kernel image at a page boundary, establishes the allocator's invariant, with one reference on every
  page. A page is free if and only if it shares no address with the low megabyte, the VGA buffer, the kernel image, the bitmap or the
  reference counters, and lies wholly in a usable E820 region moved down to the page boundary at or below its base. So if the bases of the usable
  regions are page aligned, the free pages are exactly the unreserved ones that lie wholly in a usable region; but the first page of
  an unaligned region is free although it begins below the region.\<close>

theorem pmm_init_establishes:
  assumes "pmm_init m ks ke s0 = Inr s" and "total_ram s0 < 2 ^ 64" and "ks \<le> ke" and "ke + PAGE_SIZE < 2 ^ 64" and "PAGE_SIZE dvd ks"
  shows "pmm_ok s \<and> (\<forall>q < total_pages s. refs_mem s q = 1 \<and>
      (\<not> bitmap_test s q \<longleftrightarrow> \<not> reserved_page s ks ke q \<and>
         (\<exists>e \<in> set (map_entries m). e_type e = E820_USABLE \<and> page_within (base_addr e - base_addr e mod PAGE_SIZE) (e_length e) q)) \<and>
      ((\<forall>e \<in> set (map_entries m). e_type e = E820_USABLE \<longrightarrow> PAGE_SIZE dvd base_addr e) \<longrightarrow>
         (\<not> bitmap_test s q \<longleftrightarrow> \<not> reserved_page s ks ke q \<and>
            (\<exists>e \<in> set (map_entries m). e_type e = E820_USABLE \<and> page_within (base_addr e) (e_length e) q))) \<and>
      (\<forall>e \<in> set (map_entries m). e_type e = E820_USABLE \<and> \<not> PAGE_SIZE dvd base_addr e \<and> PAGE_SIZE \<le> e_length e \<and>
         q = base_addr e div PAGE_SIZE \<and> \<not> reserved_page s ks ke q \<longrightarrow>
         \<not> bitmap_test s q \<and> q * PAGE_SIZE < base_addr e))"
proof -
  have P: "PAGE_SIZE = 4096" by (simp add: PAGE_SIZE_def)
  have free: "\<not> bitmap_test s q \<longleftrightarrow> \<not> reserved_page s ks ke q \<and>
      (\<exists>e \<in> set (map_entries m). e_type e = E820_USABLE \<and> page_within (base_addr e - base_addr e mod PAGE_SIZE) (e_length e) q)"
    if "q < total_pages s" for q
    using pmm_init_state(3) [OF assms(1-4) that] reserved_covers [OF assms(1,2,5), of q] by (auto simp: region_has_within)
  have low: "base_addr e div PAGE_SIZE * PAGE_SIZE < base_addr e" if "\<not> PAGE_SIZE dvd base_addr e" for e
    using that div_mult_mod_eq [of "base_addr e" PAGE_SIZE] by (metis add.right_neutral dvd_triv_right le_neq_implies_less div_times_less_eq_dividend)
  have first: "page_within (base_addr e - base_addr e mod PAGE_SIZE) (e_length e) (base_addr e div PAGE_SIZE)" if "PAGE_SIZE \<le> e_length e" for e
    using that by (simp add: page_within_def minus_mod_eq_div_mult P)
  have aligned: "(\<exists>e \<in> A. e_type e = E820_USABLE \<and> page_within (base_addr e - base_addr e mod PAGE_SIZE) (e_length e) q) \<longleftrightarrow>
      (\<exists>e \<in> A. e_type e = E820_USABLE \<and> page_within (base_addr e) (e_length e) q)"
    if "\<forall>e \<in> A. e_type e = E820_USABLE \<longrightarrow> PAGE_SIZE dvd base_addr e" for A q
    using that by (metis dvd_imp_mod_0 minus_nat.diff_0)
  have unaligned: "\<forall>e \<in> set (map_entries m). e_type e = E820_USABLE \<and> \<not> PAGE_SIZE dvd base_addr e \<and> PAGE_SIZE \<le> e_length e \<and>
         q = base_addr e div PAGE_SIZE \<and> \<not> reserved_page s ks ke q \<longrightarrow> \<not> bitmap_test s q \<and> q * PAGE_SIZE < base_addr e"
    if "q < total_pages s" for q
    using free [OF that] first low by blast
  show ?thesis
  proof (rule conjI [OF pmm_init_ok [OF assms(1-4)]], intro allI impI, rule conjI, goal_cases)
    case (1 q)
    then show ?case using pmm_init_state(2) [OF assms(1-4)] by blast
  next
    case (2 q)
    show ?case
      by (rule conjI [OF free [OF 2] conjI [OF impI unaligned [OF 2]]], simp only: free [OF 2] aligned)
  qed
qed

abbreviation blank_pmm :: pmm where
  "blank_pmm \<equiv> \<lparr>pmm_bitmap = 0, pmm_bitmap_size = 0, pmm_ref_counts = 0,
     pmm_initialized_flag = False, total_ram = 0, used_ram = 0, total_pages = 0,
     free_mem_start = 0, last_free_idx = 0, bitmap_mem = (\<lambda>_. 0), refs_mem = (\<lambda>_. 0)\<rparr>"

abbreviation small_map :: memory_map where
  "small_map \<equiv> \<lparr>entry_count = 1,
     entries = (\<lambda>_. \<lparr>base_addr = 0, e_length = 0x400000, e_type = 1\<rparr>)\<rparr>"

theorem pmm_init_establishes_witness:
  "\<exists>s. pmm_init small_map 0x100000 0x110000 blank_pmm = Inr s \<and> pmm_ok s \<and>
     total_pages s = 1024 \<and> \<not> bitmap_test s 512"
proof -
  have "\<exists>s. pmm_init small_map 0x100000 0x110000 blank_pmm = Inr s"
    by (simp add: pmm_init_def Let_def detect_ram_def map_entries_def pmm_place_def E820_USABLE_def
        add64_def PAGE_ALIGN_UP_def PAGE_SIZE_def)
  then obtain s where s: "pmm_init small_map 0x100000 0x110000 blank_pmm = Inr s" ..
  note p = pmm_init_establishes [OF s]
  have t: "total_pages s = 1024 \<and> pmm_bitmap s = 0x1A000 \<and> pmm_bitmap_size s = 128 \<and>
      pmm_ref_counts s = 0x1B000"
    using pmm_init_tables [OF s]
    by (simp add: same_tables_def detect_ram_def map_entries_def pmm_place_def E820_USABLE_def
        add64_def PAGE_ALIGN_UP_def PAGE_SIZE_def Let_def)
  have "\<not> bitmap_test s 512"
    using p t by (simp add: reserved_page_def page_touches_def page_within_def PAGE_SIZE_def map_entries_def E820_USABLE_def)
  with s p t show ?thesis by (simp add: PAGE_SIZE_def)
qed


text \<open>C10: the word-at-a-time search of \<open>pmm_alloc_page_impl\<close> (64 bits at once, masked first
  word, \<open>ctzll\<close>, second pass up to the rover) takes exactly the page that a page-by-page
  next-fit search from the rover takes, on every state, and nothing if that search finds
  nothing.\<close>

theorem pmm_alloc_page_impl_is_next_fit:
  "pmm_alloc_page_impl s =
     (case next_fit s of
        Some p \<Rightarrow> (p * PAGE_SIZE, take_page p (reset_rover s))
      | None \<Rightarrow> (0, reset_rover s))"
  by (rule pmm_alloc_page_impl_next_fit)

text \<open>C6: on every good state \<open>pmm_alloc_page\<close> returns. It returns NULL if and only if every
  page is in use, and the second attempt after emptying the sector cache never finds more.
  Otherwise it returns the address of a page inside the memory that was free, is used now
  with one reference, and no other page or counter changes; the used-memory count goes up by
  one page and the invariant is kept.\<close>

theorem pmm_alloc_page_correct:
  assumes "pmm_ok s"
  shows "\<exists>a t bc'. pmm_alloc_page (s, bc) = Inr (a, t, bc') \<and> pmm_ok t \<and>
     (a = 0 \<longleftrightarrow> (\<forall>p < total_pages s. bitmap_test s p)) \<and>
     (a = 0 \<longrightarrow> used_pages t = used_pages s \<and> bc' = bcache_invalidate_all bc) \<and>
     (a \<noteq> 0 \<longrightarrow> (\<exists>p. a = p * PAGE_SIZE \<and> 0 < p \<and> p < total_pages s \<and> p \<notin> used_pages s \<and>
        used_pages t = insert p (used_pages s) \<and> refs_mem t = (refs_mem s)(p := 1) \<and>
        pmm_get_used_ram t = pmm_get_used_ram s + PAGE_SIZE \<and> bc' = bc))"
proof -
  obtain a t bc' where r: "pmm_alloc_page (s, bc) = Inr (a, t, bc')"
    using pmm_alloc_page_eq [OF assms, of bc] by (auto split: option.splits)
  from assms r show ?thesis
  proof (cases rule: pmm_alloc_cases)
    case full
    then have "used_pages t = used_pages s"
      by (intro same_used_pages) (simp_all add: pmm_simps)
    with full r assms show ?thesis by (simp add: next_fit_None)
  next
    case (page p)
    note nf = next_fit_Some [OF page(2)]
    have st: "same_tables s t"
      unfolding page using reset_rover_fields(1) take_page_fields(1) same_tables_trans by blast
    have u: "used_pages t = insert p (used_pages s)"
      using nf st by (auto simp: used_pages_def page same_tables_def pmm_simps)
    have "refs_mem t = (refs_mem s)(p := 1)" unfolding page
      using assms reset_rover_fields(1) [of s]
      by (simp add: pmm_simps same_tables_def pmm_ok_def pmm_inv_def)
    moreover have ok: "pmm_ok t" using pmm_alloc_laws(2) [OF assms r] page by (simp add: PAGE_SIZE_def)
    moreover have "pmm_get_used_ram t = pmm_get_used_ram s + PAGE_SIZE"
      using ok assms u nf st
      by (simp add: pmm_ok_def pmm_inv_def pmm_get_used_ram_def same_tables_def used_pages_def)
    ultimately show ?thesis using r page u nf
      by (auto simp: PAGE_SIZE_def used_pages_def)
  qed
qed

text \<open>A machine with two pages, the first one in use.\<close>

abbreviation two_pages :: pmm where
  "two_pages \<equiv> \<lparr>pmm_bitmap = 0x1A000, pmm_bitmap_size = 1, pmm_ref_counts = 0x1B000,
     pmm_initialized_flag = True, total_ram = 8192, used_ram = 4096, total_pages = 2,
     free_mem_start = 0, last_free_idx = 0, bitmap_mem = (\<lambda>_. 1), refs_mem = (\<lambda>_. 1)\<rparr>"

lemma two_pages_used: "used_pages two_pages = {0}"
proof -
  have "bitmap_test two_pages 0" "\<not> bitmap_test two_pages 1"
    by (simp_all add: bitmap_test_bit bit_1_iff)
  moreover have "p < 2 \<longleftrightarrow> p = 0 \<or> p = 1" for p :: nat by auto
  ultimately show ?thesis by (auto simp: used_pages_def)
qed

lemma two_pages_ok: "pmm_ok two_pages"
proof -
  have "pmm_inv two_pages" using two_pages_used by (simp add: pmm_inv_def PAGE_SIZE_def)
  then show ?thesis by (simp add: pmm_ok_def page0_used_def refs_inv_def bitmap_test_bit)
qed

theorem pmm_alloc_page_correct_witness:
  "\<exists>t. pmm_alloc_page (two_pages, boot_cache) = Inr (4096, t, boot_cache) \<and> used_pages t = {0, 1}"
proof -
  have n: "\<not> (\<forall>p < total_pages two_pages. bitmap_test two_pages p)"
    by (auto simp: bitmap_test_bit bit_1_iff intro!: exI [of _ 1])
  obtain a t bc' where t: "pmm_alloc_page (two_pages, boot_cache) = Inr (a, t, bc')" "a \<noteq> 0"
    "\<exists>p. a = p * PAGE_SIZE \<and> 0 < p \<and> p < total_pages two_pages \<and>
       used_pages t = insert p (used_pages two_pages) \<and> bc' = boot_cache"
    using pmm_alloc_page_correct [OF two_pages_ok, of boot_cache] n by blast
  then obtain p where "a = p * PAGE_SIZE" "0 < p" "p < 2" "used_pages t = insert p {0}" "bc' = boot_cache"
    using two_pages_used by auto
  moreover from this have "p = 1" by simp
  ultimately show ?thesis using t(1) by (auto simp: PAGE_SIZE_def)
qed

text \<open>C12: reference counting. Freeing an allocated page never panics; with more than one
  reference only the counter changes, and with the last reference the page, and only that
  page, goes back to the free pages. Taking a reference and dropping it again gives back the
  same state.\<close>

theorem pmm_free_page_refcount:
  assumes "pmm_ok s" "p \<in> used_pages s" "0 < p"
  shows "(\<exists>t. pmm_free_page (p * PAGE_SIZE) s = Inr t \<and> pmm_ok t \<and>
       refs_mem t = (refs_mem s)(p := refs_mem s p - 1) \<and>
       used_pages t = (if refs_mem s p = 1 then used_pages s - {p} else used_pages s)) \<and>
     (refs_mem s p < 65535 \<longrightarrow> (\<exists>u. pmm_ref_page (p * PAGE_SIZE) s = Inr u \<and>
        used_pages u = used_pages s \<and> pmm_get_ref_count (p * PAGE_SIZE) u = refs_mem s p + 1 \<and>
        pmm_unref_page (p * PAGE_SIZE) u = Inr s))"
proof
  have p: "p < total_pages s" "bitmap_test s p" "p \<noteq> 0" using assms by (auto simp: used_pages_def)
  obtain t where t: "pmm_free_page (p * PAGE_SIZE) s = Inr t"
    using pmm_free_page_eq [OF assms(1) p(1,2)] by (simp add: Let_def)
  with pmm_ok_free [OF assms(1) p t] show "\<exists>t. pmm_free_page (p * PAGE_SIZE) s = Inr t \<and> pmm_ok t \<and>
       refs_mem t = (refs_mem s)(p := refs_mem s p - 1) \<and>
       used_pages t = (if refs_mem s p = 1 then used_pages s - {p} else used_pages s)" by blast
  show "refs_mem s p < 65535 \<longrightarrow> (\<exists>u. pmm_ref_page (p * PAGE_SIZE) s = Inr u \<and>
        used_pages u = used_pages s \<and> pmm_get_ref_count (p * PAGE_SIZE) u = refs_mem s p + 1 \<and>
        pmm_unref_page (p * PAGE_SIZE) u = Inr s)"
  proof
    assume lt: "refs_mem s p < 65535"
    let ?u = "s\<lparr>refs_mem := (refs_mem s)(p := refs_mem s p + 1)\<rparr>"
    have dv: "p * PAGE_SIZE div PAGE_SIZE = p" by (simp add: PAGE_SIZE_def)
    have rc: "pmm_ref_counts s \<noteq> 0" "refs_mem s p > 0"
      using assms(1) p by (auto simp: pmm_ok_def pmm_inv_def refs_inv_def)
    have u: "pmm_ref_page (p * PAGE_SIZE) s = Inr ?u"
      using p(1) rc lt by (simp add: pmm_ref_page_def dv Let_def)
    have used: "used_pages ?u = used_pages s" by (simp add: used_pages_def pmm_simps)
    have gt: "0 < refs_mem s p + 1"
      using lt by (rule inc_pos)
    have "pmm_unref_page (p * PAGE_SIZE) ?u = Inr s"
      using p(1) rc gt by (simp add: pmm_unref_page_def pmm_free_page_def dv Let_def)
    moreover have "pmm_get_ref_count (p * PAGE_SIZE) ?u = refs_mem s p + 1"
      using p(1) rc by (simp add: pmm_get_ref_count_def dv Let_def)
    ultimately show "\<exists>u. pmm_ref_page (p * PAGE_SIZE) s = Inr u \<and>
        used_pages u = used_pages s \<and> pmm_get_ref_count (p * PAGE_SIZE) u = refs_mem s p + 1 \<and>
        pmm_unref_page (p * PAGE_SIZE) u = Inr s" using u used by blast
  qed
qed

theorem pmm_free_page_refcount_witness:
  "\<exists>s u. pmm_ok s \<and> pmm_ref_page 4096 s = Inr u \<and> pmm_unref_page 4096 u = Inr s"
proof -
  obtain a t bc where t: "pmm_alloc_page (two_pages, boot_cache) = Inr (a, t, bc)"
    using pmm_alloc_page_eq [OF two_pages_ok, of boot_cache] by (auto split: option.splits)
  have nf: "next_fit two_pages = Some 1"
    by (simp add: next_fit_def Let_def numeral_2_eq_2 bitmap_test_bit bit_1_iff)
  from two_pages_ok t have ok: "pmm_ok t \<and> 1 \<in> used_pages t \<and> refs_mem t 1 = 1"
  proof (cases rule: pmm_alloc_cases)
    case (page p)
    with nf have "p = 1" "a = 4096" by (simp_all add: PAGE_SIZE_def)
    with page pmm_alloc_laws(2) [OF two_pages_ok t] show ?thesis
      by (simp add: pmm_simps used_pages_def reset_rover_def take_page_def Let_def)
  qed (use nf in simp)
  then show ?thesis
    using pmm_free_page_refcount [of t 1] by (auto simp: PAGE_SIZE_def)
qed

text \<open>pages handed out one after the other are distinct, were not in use before and have
  one reference each; giving them all back restores the set of pages in use. (The client
  lemma of the page allocator interface, at the kernel's allocator.)\<close>

lemma pmm_alloc_many_distinct:
  assumes "pmm_ok s" "pa.alloc_many n (s, bc) = (as, (t, bc'))"
  shows "pmm_ok t \<and> distinct as \<and> 0 \<notin> set as \<and> set as \<inter> owned_addrs s = {} \<and>
    owned_addrs t = set as \<union> owned_addrs s \<and> (\<forall>a \<in> set as. addr_refs t a = 1) \<and>
    owned_addrs (fst (pa.free_many as (t, bc'))) = owned_addrs s"
  using pa.alloc_many_distinct [of "(s, bc)" n as "(t, bc')"]
    pa.alloc_free_many [of "(s, bc)" n as "(t, bc')"] assms
  by (simp add: split_def)

lemma pmm_alloc_many_distinct_witness:
  "\<exists>as. distinct as \<and> (\<exists>t bc'. pa.alloc_many 5 (two_pages, boot_cache) = (as, (t, bc')) \<and> pmm_ok t)"
proof -
  obtain as t bc' where "pa.alloc_many 5 (two_pages, boot_cache) = (as, (t, bc'))"
    by (metis surj_pair)
  then show ?thesis using pmm_alloc_many_distinct [OF two_pages_ok] by blast
qed

end
