(* ===== verification/KString.thy ===== *)
theory KString
  imports Prelude
begin

text \<open>
  The freestanding C library of the kernel (\<^verbatim>\<open>kernel/string.c\<close>), in its x86-64 build: memory blocks,
  C strings in memory, and the conversions between numbers and strings. Memory is a function from
  addresses to bytes and a pointer is an address; every function that writes returns the new memory.
  The string instructions \<^verbatim>\<open>rep movs\<close> and \<^verbatim>\<open>rep stos\<close> are loops over words of a given width.
  A scan that only ends at a terminating zero is a partial function: \<open>None\<close> is a scan that never ends.
\<close>

section \<open>Memory blocks\<close>

text \<open>\<open>rep movs\<close> with the direction flag clear and set, \<open>rep stos\<close>; \<open>w\<close> is the operand size in bytes.\<close>

fun rep_movs :: "nat \<Rightarrow> nat \<Rightarrow> nat \<Rightarrow> nat \<Rightarrow> memory \<Rightarrow> memory" where
  "rep_movs w 0 d s m = m"
| "rep_movs w (Suc k) d s m = rep_movs w k (d + w) (s + w) (store_le m d w (load_le m s w :: u64))"

fun rep_movs_down :: "nat \<Rightarrow> nat \<Rightarrow> nat \<Rightarrow> nat \<Rightarrow> memory \<Rightarrow> memory" where
  "rep_movs_down w 0 d s m = m"
| "rep_movs_down w (Suc k) d s m = rep_movs_down w k (d - w) (s - w) (store_le m d w (load_le m s w :: u64))"

fun rep_stos :: "nat \<Rightarrow> nat \<Rightarrow> nat \<Rightarrow> u64 \<Rightarrow> memory \<Rightarrow> memory" where
  "rep_stos w 0 d v m = m"
| "rep_stos w (Suc k) d v m = rep_stos w k (d + w) v (store_le m d w v)"

text \<open>The small block paths: eight bytes at a time, then four, two and one.\<close>

fun memcpy_small :: "nat \<Rightarrow> nat \<Rightarrow> nat \<Rightarrow> memory \<Rightarrow> memory" where
  "memcpy_small d s n m =
     (if n \<ge> 8 then memcpy_small (d + 8) (s + 8) (n - 8) (store_le m d 8 (load_le m s 8 :: u64))
      else
        let (d, s, n, m) = (if n \<ge> 4 then (d + 4, s + 4, n - 4, store_le m d 4 (load_le m s 4 :: u32)) else (d, s, n, m));
            (d, s, n, m) = (if n \<ge> 2 then (d + 2, s + 2, n - 2, store_le m d 2 (load_le m s 2 :: u16)) else (d, s, n, m))
        in if n \<noteq> 0 then m(d := m s) else m)"

declare memcpy_small.simps [simp del]

definition memcpy :: "nat \<Rightarrow> nat \<Rightarrow> nat \<Rightarrow> memory \<Rightarrow> memory" where
  "memcpy dest src n m =
     (if n < 64 then memcpy_small dest src n m
      else
        let qwords = n div 8; remainder = n mod 8 in
        rep_movs 1 remainder (dest + 8 * qwords) (src + 8 * qwords) (rep_movs 8 qwords dest src m))"

fun memset_small :: "u64 \<Rightarrow> nat \<Rightarrow> nat \<Rightarrow> memory \<Rightarrow> memory" where
  "memset_small pattern d n m =
     (if n \<ge> 8 then memset_small pattern (d + 8) (n - 8) (store_le m d 8 pattern)
      else
        let (d, n, m) = (if n \<ge> 4 then (d + 4, n - 4, store_le m d 4 (ucast pattern :: u32)) else (d, n, m));
            (d, n, m) = (if n \<ge> 2 then (d + 2, n - 2, store_le m d 2 (ucast pattern :: u16)) else (d, n, m))
        in if n \<noteq> 0 then m(d := ucast pattern) else m)"

declare memset_small.simps [simp del]

definition memset :: "nat \<Rightarrow> u32 \<Rightarrow> nat \<Rightarrow> memory \<Rightarrow> memory" where
  "memset dest c n m =
     (let val = ucast (ucast c :: u8) :: u64;
          pattern = val * 0x0101010101010101;
          qwords = n div 8; remainder = n mod 8
      in if n < 64 then memset_small pattern dest n m
         else rep_stos 1 remainder (dest + 8 * qwords) val (rep_stos 8 qwords dest pattern m))"

definition memset16 :: "nat \<Rightarrow> u16 \<Rightarrow> nat \<Rightarrow> memory \<Rightarrow> memory" where
  "memset16 dest c n m =
     (let p = ucast c OR push_bit 16 (ucast c) :: u64;
          pattern = p OR push_bit 32 p;
          qwords = n div 4; remainder = n mod 4;
          m1 = rep_stos 8 qwords dest pattern m
      in if remainder \<noteq> 0 then rep_stos 2 remainder (dest + 8 * qwords) (ucast c) m1 else m1)"

definition memset32 :: "nat \<Rightarrow> u32 \<Rightarrow> nat \<Rightarrow> memory \<Rightarrow> memory" where
  "memset32 dest c n m =
     (let pattern = ucast c OR push_bit 32 (ucast c) :: u64;
          qwords = n div 2;
          m1 = rep_stos 8 qwords dest pattern m
      in if n mod 2 = 1 then store_le m1 (dest + 8 * qwords) 4 c else m1)"

definition explicit_bzero :: "nat \<Rightarrow> nat \<Rightarrow> memory \<Rightarrow> memory" where
  "explicit_bzero s n m = memset s 0 n m"

definition memmove :: "nat \<Rightarrow> nat \<Rightarrow> nat \<Rightarrow> memory \<Rightarrow> memory" where
  "memmove d s n m =
     (if d = s \<or> n = 0 then m
      else
        let qwords = n div 8; remainder = n mod 8 in
        if d < s then
          rep_movs 1 remainder (d + 8 * qwords) (s + 8 * qwords) (rep_movs 8 qwords d s m)
        else
          let s1 = s + (n - 1); d1 = d + (n - 1) in
          rep_movs_down 8 qwords (d1 - remainder - 7) (s1 - remainder - 7) (rep_movs_down 1 remainder d1 s1 m))"

text \<open>The comparison by words stops at the first word that differs.\<close>

fun memcmp_words :: "memory \<Rightarrow> nat \<Rightarrow> nat \<Rightarrow> nat \<Rightarrow> nat \<times> nat \<times> nat" where
  "memcmp_words m a b n =
     (if n \<ge> 8 then
        if (load_le m a 8 :: u64) \<noteq> load_le m b 8 then (a, b, n)
        else memcmp_words m (a + 8) (b + 8) (n - 8)
      else (a, b, n))"

declare memcmp_words.simps [simp del]

fun memcmp_bytes :: "memory \<Rightarrow> nat \<Rightarrow> nat \<Rightarrow> nat \<Rightarrow> int" where
  "memcmp_bytes m a b 0 = 0"
| "memcmp_bytes m a b (Suc n) =
     (if m a \<noteq> m b then uint (m a) - uint (m b) else memcmp_bytes m (a + 1) (b + 1) n)"

definition memcmp :: "memory \<Rightarrow> nat \<Rightarrow> nat \<Rightarrow> nat \<Rightarrow> int" where
  "memcmp m s1 s2 n = (case memcmp_words m s1 s2 n of (a, b, n') \<Rightarrow> memcmp_bytes m a b n')"

section \<open>C strings in memory\<close>

text \<open>The zero byte test on a word: \<^verbatim>\<open>(v - 0x01...) & ~v & 0x80...\<close>.\<close>

definition himagic :: u64 where
  "himagic = 0x8080808080808080"

definition lomagic :: u64 where
  "lomagic = 0x0101010101010101"

definition zero_mask :: "u64 \<Rightarrow> u64" where
  "zero_mask v = (v - lomagic) AND NOT v AND himagic"

text \<open>The unrolled look at the eight bytes of a word: the offset of the first zero byte.\<close>

definition first_zero :: "memory \<Rightarrow> nat \<Rightarrow> nat option" where
  "first_zero m cp = find (\<lambda>j. m (cp + j) = 0) [0, 1, 2, 3, 4, 5, 6, 7]"

text \<open>The bytes before the first aligned word: \<open>Inl\<close> is the result when the string ends there.\<close>

function strlen_align :: "memory \<Rightarrow> nat \<Rightarrow> nat \<Rightarrow> nat + nat" where
  "strlen_align m str p =
     (if p mod 8 \<noteq> 0 then
        if m p = 0 then Inl (p - str) else strlen_align m str (p + 1)
      else Inr p)"
  by pat_completeness auto
termination by (relation "measure (\<lambda>(m, str, p). (8 - p mod 8) mod 8)") (auto simp: mod_Suc)

declare strlen_align.simps [simp del]

partial_function (option) strlen_words :: "memory \<Rightarrow> nat \<Rightarrow> nat \<Rightarrow> nat option" where
  "strlen_words m str p =
     (if zero_mask (load_le m p 8) \<noteq> 0 then
        (case first_zero m p of
           Some j \<Rightarrow> Some (p - str + j)
         | None \<Rightarrow> strlen_words m str (p + 8))
      else strlen_words m str (p + 8))"

definition strlen :: "memory \<Rightarrow> nat \<Rightarrow> nat option" where
  "strlen m str =
     (case strlen_align m str str of
        Inl r \<Rightarrow> Some r
      | Inr p \<Rightarrow> strlen_words m str p)"

function strnlen_align :: "memory \<Rightarrow> nat \<Rightarrow> nat \<Rightarrow> nat \<Rightarrow> nat + nat \<times> nat" where
  "strnlen_align m s p maxlen =
     (if maxlen > 0 \<and> p mod 8 \<noteq> 0 then
        if m p = 0 then Inl (p - s) else strnlen_align m s (p + 1) (maxlen - 1)
      else Inr (p, maxlen))"
  by pat_completeness auto
termination by (relation "measure (\<lambda>(m, s, p, maxlen). maxlen)") auto

declare strnlen_align.simps [simp del]

function strnlen_words :: "memory \<Rightarrow> nat \<Rightarrow> nat \<Rightarrow> nat \<Rightarrow> nat + nat \<times> nat" where
  "strnlen_words m s p maxlen =
     (if maxlen \<ge> 8 then
        (case (if zero_mask (load_le m p 8) \<noteq> 0 then first_zero m p else None) of
           Some j \<Rightarrow> Inl (p - s + j)
         | None \<Rightarrow> strnlen_words m s (p + 8) (maxlen - 8))
      else Inr (p, maxlen))"
  by pat_completeness auto
termination by (relation "measure (\<lambda>(m, s, p, maxlen). maxlen)") auto

declare strnlen_words.simps [simp del]

fun strnlen_bytes :: "memory \<Rightarrow> nat \<Rightarrow> nat \<Rightarrow> nat \<Rightarrow> nat" where
  "strnlen_bytes m s p 0 = p - s"
| "strnlen_bytes m s p (Suc maxlen) = (if m p = 0 then p - s else strnlen_bytes m s (p + 1) maxlen)"

definition strnlen :: "memory \<Rightarrow> nat \<Rightarrow> nat \<Rightarrow> nat" where
  "strnlen m s maxlen =
     (case strnlen_align m s s maxlen of
        Inl r \<Rightarrow> r
      | Inr (p, n) \<Rightarrow>
          (case strnlen_words m s p n of
             Inl r \<Rightarrow> r
           | Inr (p', n') \<Rightarrow> strnlen_bytes m s p' n'))"

definition strncpy :: "nat \<Rightarrow> nat \<Rightarrow> nat \<Rightarrow> memory \<Rightarrow> memory" where
  "strncpy dest src n m =
     (let len = strnlen m src n;
          m1 = memcpy dest src len m
      in if len < n then memset (dest + len) 0 (n - len) m1 else m1)"

definition strlcpy :: "nat \<Rightarrow> nat \<Rightarrow> nat \<Rightarrow> memory \<Rightarrow> (nat \<times> memory) option" where
  "strlcpy dest src sz m =
     (case strlen m src of
        None \<Rightarrow> None
      | Some len \<Rightarrow>
          if sz > 0 then
            let to_copy = (if len \<ge> sz then sz - 1 else len)
            in Some (len, (memcpy dest src to_copy m)(dest + to_copy := 0))
          else Some (len, m))"

definition strlcat :: "nat \<Rightarrow> nat \<Rightarrow> nat \<Rightarrow> memory \<Rightarrow> (nat \<times> memory) option" where
  "strlcat dest src sz m =
     (case strlen m dest of
        None \<Rightarrow> None
      | Some dlen \<Rightarrow>
          if dlen \<ge> sz then
            (case strlen m src of None \<Rightarrow> None | Some len \<Rightarrow> Some (sz + len, m))
          else
            (case strlcpy (dest + dlen) src (sz - dlen) m of
               None \<Rightarrow> None
             | Some (len, m') \<Rightarrow> Some (dlen + len, m')))"

text \<open>Comparison: \<open>Inl\<close> is a result, \<open>Inr\<close> the pointers with which the next loop starts.\<close>

definition byte_diff :: "memory \<Rightarrow> nat \<Rightarrow> nat \<Rightarrow> int" where
  "byte_diff m s1 s2 = uint (m s1) - uint (m s2)"

function strcmp_align :: "memory \<Rightarrow> nat \<Rightarrow> nat \<Rightarrow> int + nat \<times> nat" where
  "strcmp_align m s1 s2 =
     (if s1 mod 8 \<noteq> 0 then
        if m s1 \<noteq> m s2 then Inl (byte_diff m s1 s2)
        else if m s1 = 0 then Inl 0
        else strcmp_align m (s1 + 1) (s2 + 1)
      else Inr (s1, s2))"
  by pat_completeness auto
termination by (relation "measure (\<lambda>(m, p, q). (8 - p mod 8) mod 8)") (auto simp: mod_Suc)

declare strcmp_align.simps [simp del]

partial_function (option) strcmp_words :: "memory \<Rightarrow> nat \<Rightarrow> nat \<Rightarrow> (nat \<times> nat) option" where
  "strcmp_words m s1 s2 =
     (if zero_mask (load_le m s1 8) \<noteq> 0 \<or> (load_le m s1 8 :: u64) \<noteq> load_le m s2 8 then Some (s1, s2)
      else strcmp_words m (s1 + 8) (s2 + 8))"

partial_function (option) strcmp_bytes :: "memory \<Rightarrow> nat \<Rightarrow> nat \<Rightarrow> int option" where
  "strcmp_bytes m s1 s2 =
     (if m s1 \<noteq> 0 \<and> m s1 = m s2 then strcmp_bytes m (s1 + 1) (s2 + 1)
      else Some (byte_diff m s1 s2))"

definition strcmp :: "memory \<Rightarrow> nat \<Rightarrow> nat \<Rightarrow> int option" where
  "strcmp m s1 s2 =
     (case strcmp_align m s1 s2 of
        Inl r \<Rightarrow> Some r
      | Inr (p, q) \<Rightarrow>
          (case (if q mod 8 = 0 then strcmp_words m p q else Some (p, q)) of
             None \<Rightarrow> None
           | Some (p', q') \<Rightarrow> strcmp_bytes m p' q'))"

text \<open>The unrolled look of \<open>strchr\<close> at the eight bytes of a word.\<close>

fun strchr_look :: "memory \<Rightarrow> u8 \<Rightarrow> nat \<Rightarrow> nat list \<Rightarrow> nat option" where
  "strchr_look m ch s [] = None"
| "strchr_look m ch s (j # js) =
     (if m (s + j) = ch then Some (s + j) else if m (s + j) = 0 then None else strchr_look m ch s js)"

function strchr_align :: "memory \<Rightarrow> u8 \<Rightarrow> nat \<Rightarrow> nat option + nat" where
  "strchr_align m ch s =
     (if s mod 8 \<noteq> 0 then
        if m s = ch then Inl (Some s) else if m s = 0 then Inl None else strchr_align m ch (s + 1)
      else Inr s)"
  by pat_completeness auto
termination by (relation "measure (\<lambda>(m, ch, p). (8 - p mod 8) mod 8)") (auto simp: mod_Suc)

declare strchr_align.simps [simp del]

partial_function (option) strchr_words :: "memory \<Rightarrow> u8 \<Rightarrow> nat \<Rightarrow> nat option option" where
  "strchr_words m ch s =
     (let v = load_le m s 8 :: u64;
          xor_v = v XOR (ucast ch * 0x0101010101010101)
      in if zero_mask v OR zero_mask xor_v \<noteq> 0 then Some (strchr_look m ch s [0, 1, 2, 3, 4, 5, 6, 7])
         else strchr_words m ch (s + 8))"

text \<open>The result is \<open>Some None\<close> when the character does not occur.\<close>

definition strchr :: "memory \<Rightarrow> nat \<Rightarrow> u32 \<Rightarrow> nat option option" where
  "strchr m s c =
     (let ch = ucast c :: u8 in
      if ch = 0 then (case strlen m s of None \<Rightarrow> None | Some n \<Rightarrow> Some (Some (s + n)))
      else case strchr_align m ch s of
        Inl r \<Rightarrow> Some r
      | Inr p \<Rightarrow> strchr_words m ch p)"

function strncmp_align :: "memory \<Rightarrow> nat \<Rightarrow> nat \<Rightarrow> nat \<Rightarrow> int + nat \<times> nat \<times> nat" where
  "strncmp_align m s1 s2 n =
     (if n > 0 \<and> s1 mod 8 \<noteq> 0 then
        if m s1 \<noteq> m s2 then Inl (byte_diff m s1 s2)
        else if m s1 = 0 then Inl 0
        else strncmp_align m (s1 + 1) (s2 + 1) (n - 1)
      else Inr (s1, s2, n))"
  by pat_completeness auto
termination by (relation "measure (\<lambda>(m, p, q, n). n)") auto

declare strncmp_align.simps [simp del]

function strncmp_words :: "memory \<Rightarrow> nat \<Rightarrow> nat \<Rightarrow> nat \<Rightarrow> nat \<times> nat \<times> nat" where
  "strncmp_words m s1 s2 n =
     (if n \<ge> 8 then
        if zero_mask (load_le m s1 8) \<noteq> 0 \<or> (load_le m s1 8 :: u64) \<noteq> load_le m s2 8 then (s1, s2, n)
        else strncmp_words m (s1 + 8) (s2 + 8) (n - 8)
      else (s1, s2, n))"
  by pat_completeness auto
termination by (relation "measure (\<lambda>(m, p, q, n). n)") auto

declare strncmp_words.simps [simp del]

fun strncmp_bytes :: "memory \<Rightarrow> nat \<Rightarrow> nat \<Rightarrow> nat \<Rightarrow> int" where
  "strncmp_bytes m s1 s2 0 = 0"
| "strncmp_bytes m s1 s2 (Suc n) =
     (if m s1 \<noteq> 0 \<and> m s1 = m s2 then strncmp_bytes m (s1 + 1) (s2 + 1) n else byte_diff m s1 s2)"

definition strncmp :: "memory \<Rightarrow> nat \<Rightarrow> nat \<Rightarrow> nat \<Rightarrow> int" where
  "strncmp m s1 s2 n =
     (if n = 0 then 0
      else case strncmp_align m s1 s2 n of
        Inl r \<Rightarrow> r
      | Inr (p, q, k) \<Rightarrow>
          (case (if k \<ge> 8 \<and> q mod 8 = 0 then strncmp_words m p q k else (p, q, k)) of
             (p', q', k') \<Rightarrow> strncmp_bytes m p' q' k'))"

section \<open>What the block operations do\<close>

text \<open>The specifications: a copy as if the whole source were read first, and a fill with a repeated unit
  of \<open>w\<close> bytes.\<close>

definition mem_copy :: "nat \<Rightarrow> nat \<Rightarrow> nat \<Rightarrow> memory \<Rightarrow> memory" where
  "mem_copy d s n m = (\<lambda>x. if d \<le> x \<and> x < d + n then m (s + (x - d)) else m x)"

definition mem_fill :: "nat \<Rightarrow> nat \<Rightarrow> (nat \<Rightarrow> u8) \<Rightarrow> memory \<Rightarrow> memory" where
  "mem_fill d n f m = (\<lambda>x. if d \<le> x \<and> x < d + n then f (x - d) else m x)"

abbreviation byte_of :: "'w::len word \<Rightarrow> nat \<Rightarrow> u8" where
  "byte_of w j \<equiv> ucast (drop_bit (8 * j) w)"

lemma mem_copy_0 [simp]: "mem_copy d s 0 m = m"
  by (rule ext) (auto simp: mem_copy_def)

lemma mem_copy_same [simp]: "mem_copy d d n m = m"
  by (auto simp: mem_copy_def)

lemma mem_copy_1: "m(d := m s) = mem_copy d s 1 m"
  by (auto simp: mem_copy_def)

lemma store_load_mem_copy:
  "8 * n \<le> LENGTH('w::len) \<Longrightarrow> store_le m d n (load_le m s n :: 'w word) = mem_copy d s n m"
  by (simp add: store_load_le mem_copy_def)

text \<open>Two adjacent copies make one, upwards when no source byte has been overwritten, downwards alike.\<close>

lemma mem_copy_up:
  "d \<le> s \<or> s + (a + b) \<le> d \<Longrightarrow> mem_copy (d + a) (s + a) b (mem_copy d s a m) = mem_copy d s (a + b) m"
  by (rule ext) (auto simp: mem_copy_def)

lemma mem_copy_down:
  assumes "s \<le> d"
  shows "mem_copy d s a (mem_copy (d + a) (s + a) b m) = mem_copy d s (a + b) m"
proof
  fix x
  consider "x < d" | "d \<le> x" "x < d + a" | "d + a \<le> x" "x < d + (a + b)" | "d + (a + b) \<le> x" by linarith
  then show "mem_copy d s a (mem_copy (d + a) (s + a) b m) x = mem_copy d s (a + b) m x"
    using assms by cases (auto simp: mem_copy_def intro!: arg_cong [where f = m])
qed

lemma rep_movs_copy:
  "8 * w \<le> 64 \<Longrightarrow> d \<le> s \<or> s + k * w \<le> d \<Longrightarrow> rep_movs w k d s m = mem_copy d s (k * w) m"
proof (induction k arbitrary: d s m)
  case (Suc k)
  have "store_le m d w (load_le m s w :: u64) = mem_copy d s w m"
    using Suc.prems(1) by (intro store_load_mem_copy) simp
  then show ?case using Suc.IH [of "d + w" "s + w"] Suc.prems mem_copy_up [of d s w "k * w"] by auto
qed simp

lemma rep_movs_down_copy:
  "8 * w \<le> 64 \<Longrightarrow> s \<le> d \<Longrightarrow> k > 0 \<Longrightarrow>
     rep_movs_down w k (d + (k - 1) * w) (s + (k - 1) * w) m = mem_copy d s (k * w) m"
proof (induction k arbitrary: m)
  case (Suc k)
  have s: "store_le m (d + k * w) w (load_le m (s + k * w) w :: u64) = mem_copy (d + k * w) (s + k * w) w m"
    using Suc.prems(1) by (intro store_load_mem_copy) simp
  show ?case
  proof (cases k)
    case 0
    then show ?thesis using s by simp
  next
    case (Suc j)
    then show ?thesis
      using Suc.IH Suc.prems s mem_copy_down [of s d "k * w" w m]
      by (simp add: add.commute [of _ w] diff_add_assoc)
  qed
qed simp

lemma memcpy_small_copy:
  "d \<le> s \<or> s + n \<le> d \<Longrightarrow> memcpy_small d s n m = mem_copy d s n m"
proof (induction n arbitrary: d s m rule: less_induct)
  case (less n)
  have st: "store_le m' d' 8 (load_le m' s' 8 :: u64) = mem_copy d' s' 8 m'"
    "store_le m' d' 4 (load_le m' s' 4 :: u32) = mem_copy d' s' 4 m'"
    "store_le m' d' 2 (load_le m' s' 2 :: u16) = mem_copy d' s' 2 m'" for m' d' s'
    by (intro store_load_mem_copy; simp)+
  have up: "mem_copy (d + a) (s + a) b (mem_copy d s a m') = mem_copy d s n m'" if "a + b = n" for a b m'
    using mem_copy_up [of d s a b m'] less.prems that by simp
  show ?case
  proof (cases "n \<ge> 8")
    case True
    then show ?thesis
      using less.IH [of "n - 8" "d + 8" "s + 8" "mem_copy d s 8 m"] less.prems up [of 8 "n - 8" m]
      by (auto simp: memcpy_small.simps [of d s n] st)
  next
    case False
    have up': "mem_copy (d + a) (s + a) b (mem_copy d s a m') = mem_copy d s (a + b) m'" if "a + b \<le> n" for a b m'
      using mem_copy_up [of d s a b m'] less.prems that by auto
    consider "n = 0" | "n = 1" | "n = 2" | "n = 3" | "n = 4" | "n = 5" | "n = 6" | "n = 7" using False by linarith
    then show ?thesis
      using up' [of 2 1] up' [of 4 1] up' [of 4 2] up' [of 6 1]
      by cases (simp_all add: memcpy_small.simps [of d s _ m] st mem_copy_1 add.commute [of 6])
  qed
qed

lemma movs_block:
  assumes "d \<le> s \<or> s + n \<le> d"
  shows "rep_movs 1 (n mod 8) (d + 8 * (n div 8)) (s + 8 * (n div 8)) (rep_movs 8 (n div 8) d s m) =
    mem_copy d s n m"
proof -
  have n: "8 * (n div 8) + n mod 8 = n" by simp
  have "rep_movs 8 (n div 8) d s m = mem_copy d s (8 * (n div 8)) m"
    using rep_movs_copy [of 8 d s "n div 8" m] assms n by (simp add: mult.commute) linarith
  moreover have "rep_movs 1 (n mod 8) (d + 8 * (n div 8)) (s + 8 * (n div 8)) m' =
      mem_copy (d + 8 * (n div 8)) (s + 8 * (n div 8)) (n mod 8) m'" for m'
    using rep_movs_copy [of 1 "d + 8 * (n div 8)" "s + 8 * (n div 8)" "n mod 8" m'] assms n by auto
  ultimately show ?thesis
    using mem_copy_up [of d s "8 * (n div 8)" "n mod 8" m] assms unfolding n by metis
qed

lemma memcpy_copy:
  "dest \<le> src \<or> src + n \<le> dest \<Longrightarrow> memcpy dest src n m = mem_copy dest src n m"
  unfolding memcpy_def Let_def using memcpy_small_copy [of dest src n m] movs_block [of dest src n m] by argo

lemma memmove_copy: "memmove d s n m = mem_copy d s n m"
proof -
  define q r where "q = 8 * (n div 8)" and "r = n mod 8"
  have n: "q + r = n" by (simp add: q_def r_def)
  consider "d = s \<or> n = 0" | "d < s" "n > 0" | "s < d" "n > 0" by linarith
  then show ?thesis
  proof cases
    case 1
    then show ?thesis by (auto simp: memmove_def)
  next
    case 2
    then show ?thesis using movs_block [of d s n m] unfolding memmove_def Let_def by simp
  next
    case 3
    have a: "rep_movs_down 1 r (d + (n - 1)) (s + (n - 1)) m = mem_copy (d + q) (s + q) r m"
    proof (cases "r = 0")
      case False
      then have "d + (n - 1) = (d + q) + (r - 1) * 1" "s + (n - 1) = (s + q) + (r - 1) * 1" using n by simp_all
      then show ?thesis using rep_movs_down_copy [of 1 "s + q" "d + q" r m] 3 False by simp
    qed simp
    have b: "rep_movs_down 8 (n div 8) (d + (n - 1) - r - 7) (s + (n - 1) - r - 7) m' = mem_copy d s q m'" for m'
    proof (cases "n div 8 = 0")
      case True
      then show ?thesis by (simp add: q_def)
    next
      case False
      have "x + (n - 1) - r - 7 = x + (n div 8 - 1) * 8" for x using False n q_def by linarith
      then show ?thesis
        using rep_movs_down_copy [of 8 s d "n div 8" m'] 3 False by (simp add: q_def mult.commute)
    qed
    show ?thesis
      using 3 a b mem_copy_down [of s d q r m] n
      unfolding memmove_def r_def [symmetric] by (simp add: Let_def)
  qed
qed

lemma mem_fill_0 [simp]: "mem_fill d 0 f m = m"
  by (rule ext) (auto simp: mem_fill_def)

lemma store_mem_fill: "store_le m d n v = mem_fill d n (byte_of v) m"
  by (rule ext) (simp add: store_le_def mem_fill_def)

lemma mem_fill_cong: "(\<And>i. i < n \<Longrightarrow> f i = g i) \<Longrightarrow> mem_fill d n f m = mem_fill d n g m"
  by (rule ext) (auto simp: mem_fill_def)

lemma mem_fill_append:
  assumes "\<And>i. i < b \<Longrightarrow> g i = f (a + i)"
  shows "mem_fill (d + a) b g (mem_fill d a f m) = mem_fill d (a + b) f m"
  by (rule ext) (auto simp: mem_fill_def assms)

lemma rep_stos_fill:
  "(\<And>i. i < k * w \<Longrightarrow> f i = byte_of v (i mod w)) \<Longrightarrow> rep_stos w k d v m = mem_fill d (k * w) f m"
proof (induction k arbitrary: d m f)
  case (Suc k)
  have f: "f i = byte_of v i" if "i < w" for i using Suc.prems [of i] that by simp
  have "rep_stos w k (d + w) v m' = mem_fill (d + w) (k * w) (\<lambda>i. f (w + i)) m'" for m'
    by (rule Suc.IH) (use Suc.prems [of "w + _"] in simp)
  moreover have "store_le m d w v = mem_fill d w f m"
    using f by (simp add: store_mem_fill cong: mem_fill_cong)
  ultimately show ?case using mem_fill_append [of "k * w" "\<lambda>i. f (w + i)" f w d m] by simp
qed simp

text \<open>The bytes of the patterns.\<close>

lemma byte_of_ucast:
  "8 * j + 8 \<le> LENGTH('b::len) \<Longrightarrow> byte_of (ucast (p :: 'a::len word) :: 'b word) j = byte_of p j"
  by (rule bit_eqI) (auto simp: bit_ucast_iff bit_drop_bit_eq possible_bit_def dest: bit_imp_le_length)

lemma byte_of_ucast8 [simp]: "byte_of (ucast (p :: 'a::len word) :: u8) 0 = (ucast p :: u8)"
  by simp

lemma repeat_digit:
  fixes v low b high :: nat
  assumes "v < 256" "v * low < b"
  shows "v * (low + b + b * 256 * high) div b mod 256 = v"
proof -
  have "v * (low + b + b * 256 * high) = v * low + b * (v + 256 * (v * high))" by (simp add: algebra_simps)
  moreover have "(v * low + b * (v + 256 * (v * high))) div b = v + 256 * (v * high)" using assms(2) by simp
  ultimately show ?thesis using assms(1) by simp
qed

lemma repeat_byte_div:
  fixes v :: nat
  assumes "v < 256" "j < 8"
  shows "v * 0x0101010101010101 div 256 ^ j mod 256 = v"
proof -
  consider "j = 0" | "j = 1" | "j = 2" | "j = 3" | "j = 4" | "j = 5" | "j = 6" | "j = 7" using assms(2) by linarith
  then show ?thesis
    apply cases
    subgoal using repeat_digit [OF assms(1), of 0 "1" 282578800148737] assms(1) by simp
    subgoal using repeat_digit [OF assms(1), of 1 "256" 1103823438081] assms(1) by simp
    subgoal using repeat_digit [OF assms(1), of 257 "65536" 4311810305] assms(1) by simp
    subgoal using repeat_digit [OF assms(1), of 65793 "16777216" 16843009] assms(1) by simp
    subgoal using repeat_digit [OF assms(1), of 16843009 "4294967296" 65793] assms(1) by simp
    subgoal using repeat_digit [OF assms(1), of 4311810305 "1099511627776" 257] assms(1) by simp
    subgoal using repeat_digit [OF assms(1), of 1103823438081 "281474976710656" 1] assms(1) by simp
    subgoal using repeat_digit [OF assms(1), of 282578800148737 "72057594037927936" 0] assms(1) by simp
    done
qed

lemma repeat_byte:
  assumes "j < 8"
  shows "byte_of (ucast c * 0x0101010101010101 :: u64) j = (c :: u8)"
proof -
  have c: "unat c < 256" using unsigned_less [of c, where 'a = nat] by simp
  have e: "unat (ucast c * 0x0101010101010101 :: u64) = unat c * 0x0101010101010101"
    using c by (simp add: unat_word_ariths unsigned_ucast_eq take_bit_nat_eq_self)
  have "unat (byte_of (ucast c * 0x0101010101010101 :: u64) j) = unat c"
    using repeat_byte_div [OF c assms]
    by (simp add: unsigned_ucast_eq unat_drop_bit_eq e take_bit_eq_mod) (simp add: drop_bit_eq_div power_mult)
  then show ?thesis by (rule unsigned_word_eqI)
qed

lemma memset_small_fill:
  "(\<And>j. j < 8 \<Longrightarrow> byte_of pattern j = c) \<Longrightarrow> memset_small pattern d n m = mem_fill d n (\<lambda>_. c) m"
proof (induction n arbitrary: d m rule: less_induct)
  case (less n)
  have st: "store_le m' d' 8 pattern = mem_fill d' 8 (\<lambda>_. c) m'"
    "store_le m' d' 4 (ucast pattern :: u32) = mem_fill d' 4 (\<lambda>_. c) m'"
    "store_le m' d' 2 (ucast pattern :: u16) = mem_fill d' 2 (\<lambda>_. c) m'"
    "m'(d' := ucast pattern) = mem_fill d' 1 (\<lambda>_. c) m'" for m' d'
    using less.prems less.prems [of 0]
    by (auto simp: store_mem_fill byte_of_ucast mem_fill_def cong: mem_fill_cong)
  note app = mem_fill_append [of _ "\<lambda>_. c" "\<lambda>_. c"]
  show ?case
  proof (cases "n \<ge> 8")
    case True
    then show ?thesis
      using less.IH [of "n - 8" "d + 8" "mem_fill d 8 (\<lambda>_. c) m", OF _ less.prems] app [of "n - 8" d 8 m]
      by (simp add: memset_small.simps [of _ d] st)
  next
    case False
    consider "n = 0" | "n = 1" | "n = 2" | "n = 3" | "n = 4" | "n = 5" | "n = 6" | "n = 7" using False by linarith
    then show ?thesis
      using app [of 1 d 2 m] app [of 1 d 4 m] app [of 2 d 4 m] app [of 1 d 6 m]
      by cases (simp_all add: memset_small.simps [of _ d] st add.commute [of 6])
  qed
qed

text \<open>A block of \<open>q\<close> eight-byte words followed by \<open>r\<close> units of \<open>w\<close> bytes.\<close>

lemma stos_block:
  assumes "\<And>i. i < 8 \<Longrightarrow> byte_of pattern i = byte_of u (i mod w)" and "w dvd 8"
  shows "rep_stos w r (d + 8 * q) u (rep_stos 8 q d pattern m) = mem_fill d (8 * q + r * w) (\<lambda>i. byte_of u (i mod w)) m"
proof -
  have "i mod 8 mod w = i mod w" for i using assms(2) by (simp add: mod_mod_cancel)
  then have "rep_stos 8 q d pattern m = mem_fill d (8 * q) (\<lambda>i. byte_of u (i mod w)) m"
    using rep_stos_fill [of q 8 "\<lambda>i. byte_of u (i mod w)" pattern d m] assms(1) [of "_ mod 8"]
    by (simp add: mult.commute)
  moreover have "rep_stos w r (d + 8 * q) u m' = mem_fill (d + 8 * q) (r * w) (\<lambda>i. byte_of u (i mod w)) m'" for m'
    by (rule rep_stos_fill) simp
  moreover obtain k where "8 = w * k" using assms(2) by (elim dvdE)
  then have "(8 * q + i) mod w = i mod w" for i by (metis mod_mult_self4 mult.assoc)
  ultimately show ?thesis using mem_fill_append [of "r * w" "\<lambda>i. byte_of u (i mod w)" "\<lambda>i. byte_of u (i mod w)" "8 * q" d m] by simp
qed

lemma memset_fill: "memset dest c n m = mem_fill dest n (\<lambda>_. ucast c) m"
proof -
  define b where "b = (ucast c :: u8)"
  define pattern where "pattern = (ucast b * 0x0101010101010101 :: u64)"
  have p: "byte_of pattern j = b" if "j < 8" for j using that unfolding pattern_def by (rule repeat_byte)
  have u: "ucast (ucast b :: u64) = b"
    by (rule bit_eqI) (auto simp: bit_ucast_iff possible_bit_def dest: bit_imp_le_length)
  have "rep_stos 1 (n mod 8) (dest + 8 * (n div 8)) (ucast b) (rep_stos 8 (n div 8) dest pattern m) =
      mem_fill dest n (\<lambda>_. b) m"
    using stos_block [of pattern 1 "ucast b" "n mod 8" dest "n div 8" m] p u by (simp del: rep_stos.simps)
  moreover have "memset_small pattern dest n m = mem_fill dest n (\<lambda>_. b) m" by (rule memset_small_fill [OF p])
  ultimately show ?thesis by (simp add: memset_def Let_def b_def [symmetric] pattern_def [symmetric])
qed

lemma bit_byte_of: "bit (byte_of v j) k \<longleftrightarrow> k < 8 \<and> bit v (8 * j + k)"
  by (auto simp: bit_ucast_iff bit_drop_bit_eq)

lemma memset16_fill: "memset16 dest c n m = mem_fill dest (2 * n) (\<lambda>i. byte_of c (i mod 2)) m"
proof -
  define p where "p = (ucast c OR push_bit 16 (ucast c) :: u64)"
  have "byte_of (p OR push_bit 32 p) i = byte_of (ucast c :: u64) (i mod 2)" if "i < 8" for i
  proof -
    consider "i = 0" | "i = 1" | "i = 2" | "i = 3" | "i = 4" | "i = 5" | "i = 6" | "i = 7" using \<open>i < 8\<close> by linarith
    then show ?thesis
      by cases (rule bit_eqI; auto simp: bit_byte_of bit_drop_bit_eq p_def bit_or_iff bit_push_bit_iff bit_ucast_iff possible_bit_def
          dest: bit_imp_le_length)+
  qed
  then have b: "rep_stos 2 r (dest + 8 * q) (ucast c) (rep_stos 8 q dest (p OR push_bit 32 p) m) =
      mem_fill dest (8 * q + r * 2) (\<lambda>i. byte_of c (i mod 2)) m" for q r
    using stos_block [of "p OR push_bit 32 p" 2 "ucast c" r dest q m] by (simp add: byte_of_ucast cong: mem_fill_cong)
  have "8 * (n div 4) + n mod 4 * 2 = 2 * n" by presburger
  then show ?thesis using b [of "n mod 4" "n div 4"] unfolding memset16_def Let_def p_def [symmetric] by (cases "n mod 4") auto
qed

lemma memset32_fill: "memset32 dest c n m = mem_fill dest (4 * n) (\<lambda>i. byte_of c (i mod 4)) m"
proof -
  define p where "p = (ucast c OR push_bit 32 (ucast c) :: u64)"
  have "byte_of p i = byte_of (ucast c :: u64) (i mod 4)" if "i < 8" for i
  proof -
    consider "i = 0" | "i = 1" | "i = 2" | "i = 3" | "i = 4" | "i = 5" | "i = 6" | "i = 7" using \<open>i < 8\<close> by linarith
    then show ?thesis
      by cases (rule bit_eqI; auto simp: bit_byte_of bit_drop_bit_eq p_def bit_or_iff bit_push_bit_iff bit_ucast_iff possible_bit_def
          dest: bit_imp_le_length)+
  qed
  then have "rep_stos 4 r (dest + 8 * q) (ucast c) (rep_stos 8 q dest p m) =
      mem_fill dest (8 * q + r * 4) (\<lambda>i. byte_of c (i mod 4)) m" for q r
    using stos_block [of p 4 "ucast c" r dest q m] by (simp add: byte_of_ucast cong: mem_fill_cong)
  moreover have "8 * (n div 2) + n mod 2 * 4 = 4 * n" by presburger
  ultimately have b: "rep_stos 4 (n mod 2) (dest + 8 * (n div 2)) (ucast c) (rep_stos 8 (n div 2) dest p m) =
      mem_fill dest (4 * n) (\<lambda>i. byte_of c (i mod 4)) m" by metis
  have "store_le m' d 4 (ucast c :: u64) = store_le m' d 4 c" for m' d
    by (simp add: store_mem_fill byte_of_ucast cong: mem_fill_cong)
  then show ?thesis using b unfolding memset32_def Let_def p_def [symmetric] by (cases "n mod 2 = 1") auto
qed

section \<open>Scans by words\<close>

text \<open>Words that are equal have equal bytes.\<close>

lemma byte_of_load: "j < 8 \<Longrightarrow> byte_of (load_le m a 8 :: u64) j = m (a + j)"
  by (rule bit_eqI) (auto simp: bit_byte_of bit_load_le possible_bit_def)

lemma load_eq_bytes: "(load_le m a 8 :: u64) = load_le m b 8 \<Longrightarrow> j < 8 \<Longrightarrow> m (a + j) = m (b + j)"
  by (metis byte_of_load)

text \<open>The zero byte test is exact: the lowest zero byte is the first to borrow.\<close>

fun lo_ones :: "nat \<Rightarrow> int" where
  "lo_ones 0 = 0"
| "lo_ones (Suc n) = 1 + 256 * lo_ones n"

lemma bit_split_byte:
  fixes y a :: int
  assumes "0 \<le> a" "a < 256"
  shows "bit (a + 256 * y) 7 \<longleftrightarrow> bit a 7" "bit (a + 256 * y) (8 * Suc k + 7) \<longleftrightarrow> bit y (8 * k + 7)"
proof -
  have e: "a + 256 * y = concat_bit 8 a y" using assms
    by (simp add: concat_bit_eq take_bit_int_eq_self push_bit_eq_mult)
  show "bit (a + 256 * y) 7 \<longleftrightarrow> bit a 7" unfolding e by (simp add: bit_concat_bit_iff)
  show "bit (a + 256 * y) (8 * Suc k + 7) \<longleftrightarrow> bit y (8 * k + 7)" unfolding e by (simp add: bit_concat_bit_iff add.commute)
qed

lemma bit_7_iff: "0 \<le> a \<Longrightarrow> a < 256 \<Longrightarrow> bit a 7 \<longleftrightarrow> 128 \<le> (a :: int)"
proof -
  assume "0 \<le> a" "a < 256"
  then have "a div 128 = (if 128 \<le> a then 1 else 0)" by (auto simp: div_pos_geq)
  then show ?thesis by (simp add: bit_iff_odd)
qed

lemma borrow_iff_zero_byte:
  "(\<exists>k<n. bit (v - lo_ones n) (8 * k + 7) \<and> \<not> bit v (8 * k + 7)) \<longleftrightarrow> (\<exists>k<n. v div 256 ^ k mod 256 = (0::int))"
proof (induction n arbitrary: v)
  case (Suc n)
  define b w where "b = v mod 256" and "w = v div 256"
  have v: "v = b + 256 * w" and b: "0 \<le> b" "b < 256" by (simp_all add: b_def w_def)
  have ex: "(\<exists>k<Suc n. P k) \<longleftrightarrow> P 0 \<or> (\<exists>k<n. P (Suc k))" for P by (metis Ex_less_Suc2)
  have z: "v div 256 ^ Suc k mod 256 = w div 256 ^ k mod 256" for k by (simp add: w_def zdiv_zmult2_eq)
  show ?case
  proof (cases "b = 0")
    case True
    then have e: "v - lo_ones (Suc n) = 255 + 256 * (w - lo_ones n - 1)" using v by simp
    have "bit (v - lo_ones (Suc n)) (8 * 0 + 7)"
      unfolding e using bit_split_byte(1) [of 255 "w - lo_ones n - 1"] bit_7_iff [of 255] by (simp only:) simp
    moreover have "\<not> bit v (8 * 0 + 7)" using bit_split_byte(1) [of 0 w] bit_7_iff [of 0] v True by auto
    moreover have "v div 256 ^ 0 mod 256 = 0" using True by (simp add: b_def)
    ultimately show ?thesis unfolding ex by (simp only: simp_thms)
  next
    case False
    then have e: "v - lo_ones (Suc n) = (b - 1) + 256 * (w - lo_ones n)" and b1: "0 \<le> b - 1" "b - 1 < 256"
      using v b by simp_all
    have "\<not> (bit (b - 1) 7 \<and> \<not> bit b 7)"
      using b1 b by (simp add: bit_7_iff)
    then have "\<not> (bit (v - lo_ones (Suc n)) (8 * 0 + 7) \<and> \<not> bit v (8 * 0 + 7))"
      using bit_split_byte(1) [OF b1, of "w - lo_ones n"] bit_split_byte(1) [OF b, of w] v unfolding e by simp
    moreover have "bit (v - lo_ones (Suc n)) (8 * Suc k + 7) \<longleftrightarrow> bit (w - lo_ones n) (8 * k + 7)"
      "bit v (8 * Suc k + 7) \<longleftrightarrow> bit w (8 * k + 7)" for k
      using bit_split_byte(2) [OF b1, of "w - lo_ones n" k] bit_split_byte(2) [OF b, of w k] v unfolding e by simp_all
    moreover have "v div 256 ^ 0 mod 256 \<noteq> 0" using False by (simp add: b_def)
    ultimately show ?thesis unfolding ex z using Suc.IH [of w] by auto
  qed
qed simp

lemma bit_himagic: "bit himagic i \<longleftrightarrow> i < 64 \<and> i mod 8 = 7"
proof -
  have e: "Suc (Suc (Suc (Suc (Suc (Suc (Suc (Suc 0))))))) = 8" by simp
  have "load_le (\<lambda>_. 2 ^ 7) 0 (Suc (Suc (Suc (Suc (Suc (Suc (Suc (Suc 0)))))))) = himagic" by (simp add: himagic_def)
  then have h: "himagic = load_le (\<lambda>_. 2 ^ 7) 0 8" unfolding e by (rule sym)
  show ?thesis unfolding h bit_load_le using bit_exp_word [of 7 "i mod 8", where 'w = 8] by auto
qed

lemma lomagic_ones: "lomagic = word_of_int (lo_ones 8)"
  by (simp add: lomagic_def eval_nat_numeral)

lemma zero_mask_iff: "zero_mask v \<noteq> 0 \<longleftrightarrow> (\<exists>j<8. byte_of v j = 0)"
proof -
  have "v - lomagic = word_of_int (uint v - lo_ones 8)" by (simp add: lomagic_ones)
  then have sub: "bit (v - lomagic) i \<longleftrightarrow> i < 64 \<and> bit (uint v - lo_ones 8) i" for i
    by (simp only: bit_word_of_int_iff) simp
  have "zero_mask v \<noteq> 0 \<longleftrightarrow> (\<exists>i. bit (zero_mask v) i)" by (metis bit_0_eq bit_eq_iff bot_apply bot_bool_def)
  also have "\<dots> \<longleftrightarrow> (\<exists>k<8. bit (uint v - lo_ones 8) (8 * k + 7) \<and> \<not> bit (uint v) (8 * k + 7))"
  proof -
    have b: "bit (zero_mask v) i \<longleftrightarrow> (\<exists>k<8. i = 8 * k + 7 \<and> bit (uint v - lo_ones 8) i \<and> \<not> bit (uint v) i)" for i
    proof -
      have "i < 64 \<and> i mod 8 = 7 \<longleftrightarrow> (\<exists>k<8. i = 8 * k + 7)" by presburger
      then show ?thesis
        by (auto simp: zero_mask_def bit_and_iff bit_not_iff bit_himagic sub bit_uint_iff)
    qed
    show ?thesis unfolding b by blast
  qed
  also have "\<dots> \<longleftrightarrow> (\<exists>k<8. uint v div 256 ^ k mod 256 = 0)" by (rule borrow_iff_zero_byte)
  also have "\<dots> \<longleftrightarrow> (\<exists>k<8. byte_of v k = 0)"
  proof -
    have "uint (byte_of v k) = uint v div 256 ^ k mod 256" for k
      using unsigned_less [of v, where 'a = int]
      by (simp add: unsigned_ucast_eq unsigned_drop_bit_eq take_bit_eq_mod) (simp add: drop_bit_eq_div power_mult)
    then have "byte_of v k = 0 \<longleftrightarrow> uint v div 256 ^ k mod 256 = 0" for k by (metis uint_0_iff)
    then show ?thesis by simp
  qed
  finally show ?thesis .
qed

lemma zero_mask_load: "zero_mask (load_le m p 8) \<noteq> 0 \<longleftrightarrow> (\<exists>j<8. m (p + j) = 0)"
  using byte_of_load [of _ m p] by (auto simp: zero_mask_iff)

text \<open>Where a string ends: no zero byte before position \<open>n\<close>.\<close>

definition no_zero :: "memory \<Rightarrow> nat \<Rightarrow> nat \<Rightarrow> bool" where
  "no_zero m s n \<longleftrightarrow> (\<forall>i<n. m (s + i) \<noteq> 0)"

definition str_at :: "memory \<Rightarrow> nat \<Rightarrow> nat \<Rightarrow> bool" where
  "str_at m s n \<longleftrightarrow> no_zero m s n \<and> m (s + n) = 0"

lemma less_8_list: "[0, 1, 2, 3, 4, 5, 6, 7] = [0..<8::nat]"
  by (simp add: upt_rec)

lemma first_zero_None: "first_zero m p = None \<longleftrightarrow> no_zero m p 8"
  unfolding first_zero_def less_8_list by (auto simp: find_None_iff no_zero_def)

lemma first_zero_Some: "first_zero m p = Some j \<longleftrightarrow> j < 8 \<and> str_at m p j"
proof
  assume "first_zero m p = Some j"
  then show "j < 8 \<and> str_at m p j" unfolding first_zero_def less_8_list
    using find_upt_Some [of "\<lambda>j. m (p + j) = 0" 0 8 j] by (auto simp: str_at_def no_zero_def)
next
  assume "j < 8 \<and> str_at m p j"
  then show "first_zero m p = Some j" unfolding first_zero_def less_8_list
    by (intro find_upt_SomeI) (auto simp: str_at_def no_zero_def)
qed

lemma masked_first_zero:
  "(if zero_mask (load_le m p 8) \<noteq> 0 then first_zero m p else None) = first_zero m p"
  using first_zero_None [of m p] by (auto simp: zero_mask_load no_zero_def)

lemma str_at_shift: "no_zero m s k \<Longrightarrow> str_at m (s + k) n \<longleftrightarrow> str_at m s (k + n)"
  by (auto simp: str_at_def no_zero_def add.assoc) (metis add_diff_inverse_nat add_less_cancel_left)

lemma strlen_words_correct: "str_at m p n \<Longrightarrow> str \<le> p \<Longrightarrow> strlen_words m str p = Some (p - str + n)"
proof (induction n arbitrary: p rule: less_induct)
  case (less n)
  have e: "strlen_words m str p = (case first_zero m p of
      Some j \<Rightarrow> Some (p - str + j) | None \<Rightarrow> strlen_words m str (p + 8))"
    unfolding strlen_words.simps [of m str p] using masked_first_zero [of m p] by (auto split: option.splits)
  show ?case
  proof (cases "n < 8")
    case True
    then show ?thesis using less.prems(1) first_zero_Some [of m p n] e by simp
  next
    case False
    then have "no_zero m p 8" using less.prems(1) by (simp add: str_at_def no_zero_def)
    moreover from this have "str_at m (p + 8) (n - 8)" using str_at_shift [of m p 8 "n - 8"] less.prems(1) False by simp
    ultimately show ?thesis
      using less.IH [of "n - 8" "p + 8"] first_zero_None [of m p] less.prems(2) False e by simp
  qed
qed

lemma strlen_align_correct:
  "str_at m p n \<Longrightarrow> str \<le> p \<Longrightarrow>
     strlen_align m str p = Inl (p - str + n) \<or>
     (\<exists>k\<le>n. strlen_align m str p = Inr (p + k) \<and> str_at m (p + k) (n - k))"
proof (induction n arbitrary: p)
  case 0
  then show ?case using strlen_align.simps [of m str p] by (auto simp: str_at_def)
next
  case (Suc n)
  then have nz: "m p \<noteq> 0" and sh: "str_at m (Suc p) n"
    using str_at_shift [of m p 1 n] by (auto simp: str_at_def no_zero_def)
  show ?case
  proof (cases "p mod 8 = 0")
    case True
    then show ?thesis using Suc.prems strlen_align.simps [of m str p] by (intro disjI2 exI [of _ 0]) simp
  next
    case False
    then have e: "strlen_align m str p = strlen_align m str (Suc p)" using nz strlen_align.simps [of m str p] by simp
    from Suc.IH [OF sh] Suc.prems(2) consider "strlen_align m str (Suc p) = Inl (Suc p - str + n)"
      | k where "k \<le> n" "strlen_align m str (Suc p) = Inr (Suc p + k)" "str_at m (Suc p + k) (n - k)" by auto
    then show ?thesis
    proof cases
      case 1
      then show ?thesis using e Suc.prems(2) by simp
    next
      case 2
      then show ?thesis using e by (intro disjI2 exI [of _ "Suc k"]) simp
    qed
  qed
qed

lemma strlen_correct: "str_at m s n \<Longrightarrow> strlen m s = Some n"
  using strlen_align_correct [of m s n s] strlen_words_correct by (fastforce simp: strlen_def)

text \<open>The bounded scan: \<open>k\<close> is the length of the string, cut off at \<open>n\<close>.\<close>

definition bounded_len :: "memory \<Rightarrow> nat \<Rightarrow> nat \<Rightarrow> nat \<Rightarrow> bool" where
  "bounded_len m s n k \<longleftrightarrow> k \<le> n \<and> no_zero m s k \<and> (k < n \<longrightarrow> m (s + k) = 0)"

lemma bounded_len_advance:
  "bounded_len m s n k \<Longrightarrow> j \<le> k \<Longrightarrow> bounded_len m (s + j) (n - j) (k - j)"
  by (auto simp: bounded_len_def no_zero_def add.assoc)

lemma bounded_len_exists: "\<exists>k. bounded_len m s n k"
proof (cases "find (\<lambda>i. m (s + i) = 0) [0..<n]")
  case None
  then show ?thesis by (intro exI [of _ n]) (auto simp: bounded_len_def no_zero_def find_upt_None)
next
  case (Some i)
  then show ?thesis using find_upt_Some [OF Some] by (intro exI [of _ i]) (auto simp: bounded_len_def no_zero_def)
qed

lemma strnlen_align_correct:
  "bounded_len m p n k \<Longrightarrow> s \<le> p \<Longrightarrow>
     strnlen_align m s p n = Inl (p - s + k) \<or> (\<exists>j\<le>k. strnlen_align m s p n = Inr (p + j, n - j))"
proof (induction k arbitrary: p n)
  case 0
  then show ?case using strnlen_align.simps [of m s p n] by (auto simp: bounded_len_def)
next
  case (Suc k)
  have nz: "m p \<noteq> 0" and sh: "bounded_len m (Suc p) (n - 1) k"
    using Suc.prems(1) bounded_len_advance [of m p n "Suc k" 1] by (auto simp: bounded_len_def no_zero_def)
  show ?case
  proof (cases "n > 0 \<and> p mod 8 \<noteq> 0")
    case True
    then have e: "strnlen_align m s p n = strnlen_align m s (Suc p) (n - 1)" using nz strnlen_align.simps [of m s p n] by simp
    from Suc.IH [OF sh] Suc.prems(2) consider "strnlen_align m s (Suc p) (n - 1) = Inl (Suc p - s + k)"
      | j where "j \<le> k" "strnlen_align m s (Suc p) (n - 1) = Inr (Suc p + j, n - 1 - j)" by auto
    then show ?thesis
    proof cases
      case 1
      then show ?thesis using e Suc.prems(2) by simp
    next
      case 2
      then show ?thesis using e by (intro disjI2 exI [of _ "Suc j"]) simp
    qed
  next
    case False
    then show ?thesis using strnlen_align.simps [of m s p n] by (intro disjI2 exI [of _ 0]) auto
  qed
qed

lemma strnlen_words_correct:
  "bounded_len m p n k \<Longrightarrow> s \<le> p \<Longrightarrow>
     strnlen_words m s p n = Inl (p - s + k) \<or> (\<exists>j\<le>k. strnlen_words m s p n = Inr (p + j, n - j))"
proof (induction n arbitrary: p k rule: less_induct)
  case (less n)
  have e: "strnlen_words m s p n = (if n \<ge> 8 then
      (case first_zero m p of Some j \<Rightarrow> Inl (p - s + j) | None \<Rightarrow> strnlen_words m s (p + 8) (n - 8)) else Inr (p, n))"
    unfolding strnlen_words.simps [of m s p n] masked_first_zero by simp
  consider "n < 8" | "n \<ge> 8" "k < 8" | "n \<ge> 8" "k \<ge> 8" by linarith
  then show ?case
  proof cases
    case 1
    then show ?thesis using e by (intro disjI2 exI [of _ 0]) simp
  next
    case 2
    then have "first_zero m p = Some k" using less.prems(1) by (simp add: first_zero_Some bounded_len_def str_at_def)
    then show ?thesis using e 2 by simp
  next
    case 3
    then have "first_zero m p = None" using less.prems(1) by (simp add: first_zero_None bounded_len_def no_zero_def)
    then have e': "strnlen_words m s p n = strnlen_words m s (p + 8) (n - 8)" using e 3 by simp
    have "bounded_len m (p + 8) (n - 8) (k - 8)" using bounded_len_advance [OF less.prems(1), of 8] 3 by simp
    from less.IH [OF _ this] less.prems(2) 3 consider "strnlen_words m s (p + 8) (n - 8) = Inl (p + 8 - s + (k - 8))"
      | j where "j \<le> k - 8" "strnlen_words m s (p + 8) (n - 8) = Inr (p + 8 + j, n - 8 - j)" by auto
    then show ?thesis
    proof cases
      case 1
      then show ?thesis using e' less.prems(2) 3 by simp
    next
      case 2
      then show ?thesis using e' 3 by (intro disjI2 exI [of _ "8 + j"]) simp
    qed
  qed
qed

lemma strnlen_bytes_correct: "bounded_len m p n k \<Longrightarrow> s \<le> p \<Longrightarrow> strnlen_bytes m s p n = p - s + k"
proof (induction n arbitrary: p k)
  case 0
  then show ?case by (simp add: bounded_len_def)
next
  case (Suc n)
  show ?case
  proof (cases k)
    case 0
    then show ?thesis using Suc.prems by (simp add: bounded_len_def)
  next
    case (Suc k')
    then have "bounded_len m (Suc p) n k'" "m p \<noteq> 0"
      using Suc.prems(1) bounded_len_advance [of m p "Suc n" k 1] by (auto simp: bounded_len_def no_zero_def)
    then show ?thesis using Suc.IH [of "Suc p" k'] \<open>s \<le> p\<close> Suc by simp
  qed
qed

lemma strnlen_correct:
  assumes "bounded_len m s n k"
  shows "strnlen m s n = k"
proof -
  consider "strnlen_align m s s n = Inl k" | j where "j \<le> k" "strnlen_align m s s n = Inr (s + j, n - j)"
    using strnlen_align_correct [OF assms, of s] by auto
  then show ?thesis
  proof cases
    case 1
    then show ?thesis by (simp add: strnlen_def)
  next
    case 2
    note b = bounded_len_advance [OF assms 2(1)]
    consider "strnlen_words m s (s + j) (n - j) = Inl k"
      | i where "i \<le> k - j" "strnlen_words m s (s + j) (n - j) = Inr (s + j + i, n - j - i)"
      using strnlen_words_correct [OF b, of s] 2(1) by auto
    then show ?thesis
    proof cases
      case 1
      then show ?thesis using 2 by (simp add: strnlen_def)
    next
      case i: 2
      then show ?thesis
        using strnlen_bytes_correct [OF bounded_len_advance [OF b i(1)], of s] 2 i by (simp add: strnlen_def)
    qed
  qed
qed

text \<open>Comparison of strings: the first \<open>k\<close> characters agree and are not the end.\<close>

definition same_prefix :: "memory \<Rightarrow> nat \<Rightarrow> nat \<Rightarrow> nat \<Rightarrow> bool" where
  "same_prefix m a b k \<longleftrightarrow> (\<forall>i<k. m (a + i) = m (b + i) \<and> m (a + i) \<noteq> 0)"

definition cmp_stop :: "memory \<Rightarrow> nat \<Rightarrow> nat \<Rightarrow> nat \<Rightarrow> bool" where
  "cmp_stop m a b k \<longleftrightarrow> same_prefix m a b k \<and> (m (a + k) \<noteq> m (b + k) \<or> m (a + k) = 0)"

definition ncmp_stop :: "memory \<Rightarrow> nat \<Rightarrow> nat \<Rightarrow> nat \<Rightarrow> nat \<Rightarrow> bool" where
  "ncmp_stop m a b n k \<longleftrightarrow> k \<le> n \<and> same_prefix m a b k \<and> (k < n \<longrightarrow> cmp_stop m a b k)"

lemma same_prefix_advance: "same_prefix m a b k \<Longrightarrow> j \<le> k \<Longrightarrow> same_prefix m (a + j) (b + j) (k - j)"
proof -
  assume k: "same_prefix m a b k" "j \<le> k"
  have "m (a + j + i) = m (b + j + i) \<and> m (a + j + i) \<noteq> 0" if "i < k - j" for i
    using spec [OF k(1) [unfolded same_prefix_def], of "j + i"] that k(2) by (auto simp: add.assoc)
  then show ?thesis unfolding same_prefix_def by blast
qed

lemma same_prefix_Suc: "same_prefix m a b (Suc k) \<Longrightarrow> m a = m b \<and> m a \<noteq> 0"
  unfolding same_prefix_def by (metis add_0_right zero_less_Suc)

lemma cmp_stop_advance: "cmp_stop m a b k \<Longrightarrow> j \<le> k \<Longrightarrow> cmp_stop m (a + j) (b + j) (k - j)"
  using same_prefix_advance [of m a b k j] by (simp add: cmp_stop_def add.assoc)

lemma ncmp_stop_advance: "ncmp_stop m a b n k \<Longrightarrow> j \<le> k \<Longrightarrow> ncmp_stop m (a + j) (b + j) (n - j) (k - j)"
  using cmp_stop_advance [of m a b k j] same_prefix_advance [of m a b k j] by (auto simp: ncmp_stop_def)

lemma words_agree:
  assumes "\<not> (zero_mask (load_le m a 8) \<noteq> 0 \<or> (load_le m a 8 :: u64) \<noteq> load_le m b 8)"
  shows "same_prefix m a b 8"
  using assms load_eq_bytes [of m a b] zero_mask_load [of m a] by (auto simp: same_prefix_def)

lemma words_agree_stop: "same_prefix m a b 8 \<Longrightarrow> cmp_stop m a b k \<Longrightarrow> 8 \<le> k"
  by (force simp: same_prefix_def cmp_stop_def not_less [symmetric])

lemma strncmp_align_correct:
  "ncmp_stop m a b n k \<Longrightarrow>
     strncmp_align m a b n = Inl (byte_diff m (a + k) (b + k)) \<and> k < n \<or>
     (\<exists>j\<le>k. strncmp_align m a b n = Inr (a + j, b + j, n - j))"
proof (induction k arbitrary: a b n)
  case 0
  then show ?case
    using strncmp_align.simps [of m a b n] by (auto simp: ncmp_stop_def cmp_stop_def same_prefix_def byte_diff_def)
next
  case (Suc k)
  have nz: "m a = m b" "m a \<noteq> 0" and sh: "ncmp_stop m (Suc a) (Suc b) (n - 1) k"
    using Suc.prems ncmp_stop_advance [of m a b n "Suc k" 1] same_prefix_Suc [of m a b k] by (auto simp: ncmp_stop_def)
  show ?case
  proof (cases "n > 0 \<and> a mod 8 \<noteq> 0")
    case True
    then have e: "strncmp_align m a b n = strncmp_align m (Suc a) (Suc b) (n - 1)"
      using nz strncmp_align.simps [of m a b n] by simp
    from Suc.IH [OF sh] consider "strncmp_align m (Suc a) (Suc b) (n - 1) = Inl (byte_diff m (Suc a + k) (Suc b + k))" "k < n - 1"
      | j where "j \<le> k" "strncmp_align m (Suc a) (Suc b) (n - 1) = Inr (Suc a + j, Suc b + j, n - 1 - j)" by auto
    then show ?thesis
    proof cases
      case 1
      then show ?thesis using e by simp
    next
      case 2
      then show ?thesis using e by (intro disjI2 exI [of _ "Suc j"]) simp
    qed
  next
    case False
    then show ?thesis using strncmp_align.simps [of m a b n] by (intro disjI2 exI [of _ 0]) auto
  qed
qed

lemma strncmp_words_correct:
  "ncmp_stop m a b n k \<Longrightarrow> \<exists>j\<le>k. strncmp_words m a b n = (a + j, b + j, n - j)"
proof (induction n arbitrary: a b k rule: less_induct)
  case (less n)
  show ?case
  proof (cases "n \<ge> 8 \<and> \<not> (zero_mask (load_le m a 8) \<noteq> 0 \<or> (load_le m a 8 :: u64) \<noteq> load_le m b 8)")
    case True
    then have "strncmp_words m a b n = strncmp_words m (a + 8) (b + 8) (n - 8)" by (auto simp: strncmp_words.simps [of m a b n])
    moreover have k: "8 \<le> k"
      using words_agree [of m a b] words_agree_stop [of m a b k] less.prems True by (auto simp: ncmp_stop_def)
    then obtain j where "j \<le> k - 8" "strncmp_words m (a + 8) (b + 8) (n - 8) = (a + 8 + j, b + 8 + j, n - 8 - j)"
      using less.IH [OF _ ncmp_stop_advance [OF less.prems k]] True by auto
    ultimately show ?thesis using k by (intro exI [of _ "8 + j"]) simp
  next
    case False
    then show ?thesis using strncmp_words.simps [of m a b n] by (intro exI [of _ 0]) auto
  qed
qed

lemma strncmp_bytes_correct:
  "ncmp_stop m a b n k \<Longrightarrow> strncmp_bytes m a b n = (if k < n then byte_diff m (a + k) (b + k) else 0)"
proof (induction n arbitrary: a b k)
  case 0
  then show ?case by (simp add: ncmp_stop_def)
next
  case (Suc n)
  show ?case
  proof (cases k)
    case 0
    then show ?thesis using Suc.prems by (auto simp: ncmp_stop_def cmp_stop_def)
  next
    case (Suc k')
    then have "ncmp_stop m (Suc a) (Suc b) n k'" "m a = m b" "m a \<noteq> 0"
      using Suc.prems ncmp_stop_advance [of m a b "Suc n" k 1] same_prefix_Suc [of m a b k'] by (auto simp: ncmp_stop_def)
    then show ?thesis using Suc.IH [of "Suc a" "Suc b" k'] Suc by simp
  qed
qed

lemma strncmp_correct:
  assumes "ncmp_stop m a b n k"
  shows "strncmp m a b n = (if k < n then byte_diff m (a + k) (b + k) else 0)"
proof (cases "n = 0")
  case True
  then show ?thesis by (simp add: strncmp_def)
next
  case False
  consider "strncmp_align m a b n = Inl (byte_diff m (a + k) (b + k))" "k < n"
    | j where "j \<le> k" "strncmp_align m a b n = Inr (a + j, b + j, n - j)"
    using strncmp_align_correct [OF assms] by auto
  then show ?thesis
  proof cases
    case 1
    then show ?thesis using False by (simp add: strncmp_def)
  next
    case 2
    note s = ncmp_stop_advance [OF assms 2(1)]
    obtain i where i: "i \<le> k - j" and
      w: "(if n - j \<ge> 8 \<and> (b + j) mod 8 = 0 then strncmp_words m (a + j) (b + j) (n - j) else (a + j, b + j, n - j)) =
        (a + j + i, b + j + i, n - j - i)"
      using strncmp_words_correct [OF s] by (metis add_0_right diff_zero le0)
    have "strncmp m a b n = strncmp_bytes m (a + j + i) (b + j + i) (n - j - i)"
      using False 2 w by (simp add: strncmp_def del: mod_add_left_eq)
    then show ?thesis using strncmp_bytes_correct [OF ncmp_stop_advance [OF s i]] 2(1) i assms
      by (auto simp: ncmp_stop_def)
  qed
qed

lemma strcmp_align_correct:
  "cmp_stop m a b k \<Longrightarrow>
     strcmp_align m a b = Inl (byte_diff m (a + k) (b + k)) \<or> (\<exists>j\<le>k. strcmp_align m a b = Inr (a + j, b + j))"
proof (induction k arbitrary: a b)
  case 0
  then show ?case using strcmp_align.simps [of m a b] by (auto simp: cmp_stop_def byte_diff_def)
next
  case (Suc k)
  have nz: "m a = m b" "m a \<noteq> 0" and sh: "cmp_stop m (Suc a) (Suc b) k"
    using Suc.prems cmp_stop_advance [of m a b "Suc k" 1] same_prefix_Suc [of m a b k] by (auto simp: cmp_stop_def)
  show ?case
  proof (cases "a mod 8 = 0")
    case True
    then show ?thesis using strcmp_align.simps [of m a b] by (intro disjI2 exI [of _ 0]) simp
  next
    case False
    then have e: "strcmp_align m a b = strcmp_align m (Suc a) (Suc b)"
      using nz by (simp add: strcmp_align.simps [of m a b])
    from Suc.IH [OF sh] consider "strcmp_align m (Suc a) (Suc b) = Inl (byte_diff m (Suc a + k) (Suc b + k))"
      | j where "j \<le> k" "strcmp_align m (Suc a) (Suc b) = Inr (Suc a + j, Suc b + j)" by auto
    then show ?thesis
    proof cases
      case 1
      then show ?thesis using e by simp
    next
      case 2
      then show ?thesis using e by (intro disjI2 exI [of _ "Suc j"]) simp
    qed
  qed
qed

lemma strcmp_words_correct: "cmp_stop m a b k \<Longrightarrow> \<exists>j\<le>k. strcmp_words m a b = Some (a + j, b + j)"
proof (induction k arbitrary: a b rule: less_induct)
  case (less k)
  show ?case
  proof (cases "zero_mask (load_le m a 8) \<noteq> 0 \<or> (load_le m a 8 :: u64) \<noteq> load_le m b 8")
    case True
    then show ?thesis by (intro exI [of _ 0]) (auto simp: strcmp_words.simps [of m a b])
  next
    case False
    then have k: "8 \<le> k" using words_agree [of m a b] words_agree_stop [OF _ less.prems] by auto
    then obtain j where "j \<le> k - 8" "strcmp_words m (a + 8) (b + 8) = Some (a + 8 + j, b + 8 + j)"
      using less.IH [OF _ cmp_stop_advance [OF less.prems k]] by auto
    moreover have "strcmp_words m a b = strcmp_words m (a + 8) (b + 8)"
      using False by (auto simp: strcmp_words.simps [of m a b])
    ultimately show ?thesis using k by (intro exI [of _ "8 + j"]) simp
  qed
qed

lemma strcmp_bytes_correct: "cmp_stop m a b k \<Longrightarrow> strcmp_bytes m a b = Some (byte_diff m (a + k) (b + k))"
proof (induction k arbitrary: a b)
  case 0
  then show ?case by (auto simp: strcmp_bytes.simps [of m a b] cmp_stop_def)
next
  case (Suc k)
  have "cmp_stop m (Suc a) (Suc b) k" "m a = m b" "m a \<noteq> 0"
    using Suc.prems cmp_stop_advance [of m a b "Suc k" 1] same_prefix_Suc [of m a b k] by (auto simp: cmp_stop_def)
  then show ?case using Suc.IH [of "Suc a" "Suc b"] by (simp add: strcmp_bytes.simps [of m a b])
qed

lemma strcmp_correct:
  assumes "cmp_stop m a b k"
  shows "strcmp m a b = Some (byte_diff m (a + k) (b + k))"
proof -
  consider "strcmp_align m a b = Inl (byte_diff m (a + k) (b + k))" | j where "j \<le> k" "strcmp_align m a b = Inr (a + j, b + j)"
    using strcmp_align_correct [OF assms] by auto
  then show ?thesis
  proof cases
    case 1
    then show ?thesis by (simp add: strcmp_def)
  next
    case 2
    note s = cmp_stop_advance [OF assms 2(1)]
    obtain i where i: "i \<le> k - j" and
      w: "(if (b + j) mod 8 = 0 then strcmp_words m (a + j) (b + j) else Some (a + j, b + j)) = Some (a + j + i, b + j + i)"
      using strcmp_words_correct [OF s] by (metis add_0_right le0)
    then have "strcmp m a b = strcmp_bytes m (a + j + i) (b + j + i)" using 2 by (simp add: strcmp_def)
    then show ?thesis using strcmp_bytes_correct [OF cmp_stop_advance [OF s i]] 2(1) i by simp
  qed
qed

text \<open>Searching a character other than zero.\<close>

definition chr_stop :: "memory \<Rightarrow> u8 \<Rightarrow> nat \<Rightarrow> nat \<Rightarrow> bool" where
  "chr_stop m ch s k \<longleftrightarrow> (\<forall>i<k. m (s + i) \<noteq> ch \<and> m (s + i) \<noteq> 0) \<and> (m (s + k) = ch \<or> m (s + k) = 0)"

definition chr_result :: "memory \<Rightarrow> u8 \<Rightarrow> nat \<Rightarrow> nat option" where
  "chr_result m ch p = (if m p = ch then Some p else None)"

lemma chr_stop_advance:
  assumes "chr_stop m ch s k" "j \<le> k"
  shows "chr_stop m ch (s + j) (k - j)"
proof -
  have "m (s + j + i) \<noteq> ch \<and> m (s + j + i) \<noteq> 0" if "i < k - j" for i
    using assms that unfolding chr_stop_def add.assoc by auto
  moreover have "s + j + (k - j) = s + k" using assms(2) by simp
  ultimately show ?thesis using assms(1) by (simp add: chr_stop_def)
qed

lemma chr_stop_Suc: "chr_stop m ch s (Suc k) \<Longrightarrow> m s \<noteq> ch \<and> m s \<noteq> 0"
  unfolding chr_stop_def by (metis add_0_right zero_less_Suc)

lemma strchr_align_correct:
  "chr_stop m ch s k \<Longrightarrow>
     strchr_align m ch s = Inl (chr_result m ch (s + k)) \<or> (\<exists>j\<le>k. strchr_align m ch s = Inr (s + j))"
proof (induction k arbitrary: s)
  case 0
  then show ?case using strchr_align.simps [of m ch s] by (auto simp: chr_stop_def chr_result_def)
next
  case (Suc k)
  have nz: "m s \<noteq> ch" "m s \<noteq> 0" and sh: "chr_stop m ch (Suc s) k"
    using Suc.prems chr_stop_advance [of m ch s "Suc k" 1] chr_stop_Suc [of m ch s k] by auto
  show ?case
  proof (cases "s mod 8 = 0")
    case True
    then show ?thesis using strchr_align.simps [of m ch s] by (intro disjI2 exI [of _ 0]) simp
  next
    case False
    then have e: "strchr_align m ch s = strchr_align m ch (Suc s)" using nz by (simp add: strchr_align.simps [of m ch s])
    from Suc.IH [OF sh] consider "strchr_align m ch (Suc s) = Inl (chr_result m ch (Suc s + k))"
      | j where "j \<le> k" "strchr_align m ch (Suc s) = Inr (Suc s + j)" by auto
    then show ?thesis
    proof cases
      case 1
      then show ?thesis using e by simp
    next
      case 2
      then show ?thesis using e by (intro disjI2 exI [of _ "Suc j"]) simp
    qed
  qed
qed

lemma strchr_look_correct:
  "chr_stop m ch (s + a) k \<Longrightarrow> a + k < b \<Longrightarrow> strchr_look m ch s [a..<b] = chr_result m ch (s + a + k)"
proof (induction k arbitrary: a)
  case 0
  then show ?case by (auto simp: upt_conv_Cons chr_stop_def chr_result_def)
next
  case (Suc k)
  have nz: "m (s + a) \<noteq> ch" "m (s + a) \<noteq> 0" and sh: "chr_stop m ch (s + Suc a) k"
    using Suc.prems chr_stop_advance [of m ch "s + a" "Suc k" 1] chr_stop_Suc [of m ch "s + a" k] by auto
  then show ?case using Suc.IH [OF sh] Suc.prems(2) by (simp add: upt_conv_Cons)
qed

lemma byte_of_xor: "byte_of (v XOR w) j = byte_of v j XOR byte_of w j"
  by (rule bit_eqI) (auto simp: bit_ucast_iff bit_drop_bit_eq bit_xor_iff)

lemma strchr_mask:
  "zero_mask (load_le m s 8) OR zero_mask (load_le m s 8 XOR (ucast ch * 0x0101010101010101)) \<noteq> 0 \<longleftrightarrow>
     (\<exists>j<8. m (s + j) = 0 \<or> m (s + j) = ch)"
proof -
  have x: "a XOR b = 0 \<longleftrightarrow> a = b" for a b :: u8
    by (metis xor.assoc xor.left_neutral xor.right_neutral xor_self_eq)
  have "byte_of (load_le m s 8 XOR (ucast ch * 0x0101010101010101) :: u64) j = 0 \<longleftrightarrow> m (s + j) = ch" if "j < 8" for j
    using byte_of_load [OF that, of m s] repeat_byte [OF that, of ch] by (simp only: byte_of_xor x)
  then have "zero_mask (load_le m s 8 XOR (ucast ch * 0x0101010101010101)) \<noteq> 0 \<longleftrightarrow> (\<exists>j<8. m (s + j) = ch)"
    unfolding zero_mask_iff by blast
  moreover have "a OR b \<noteq> 0 \<longleftrightarrow> a \<noteq> 0 \<or> b \<noteq> 0" for a b :: u64 by (simp add: or_eq_0_iff)
  ultimately show ?thesis using zero_mask_load [of m s] by blast
qed

lemma strchr_words_correct: "chr_stop m ch s k \<Longrightarrow> strchr_words m ch s = Some (chr_result m ch (s + k))"
proof (induction k arbitrary: s rule: less_induct)
  case (less k)
  have e: "strchr_words m ch s = (if \<exists>j<8. m (s + j) = 0 \<or> m (s + j) = ch
      then Some (strchr_look m ch s [0..<8]) else strchr_words m ch (s + 8))"
    unfolding strchr_words.simps [of m ch s] Let_def strchr_mask less_8_list by simp
  show ?case
  proof (cases "k < 8")
    case True
    then show ?thesis using e strchr_look_correct [of m ch s 0 k 8] less.prems by (auto simp: chr_stop_def)
  next
    case False
    then have "\<not> (\<exists>j<8. m (s + j) = 0 \<or> m (s + j) = ch)" using less.prems by (auto simp: chr_stop_def)
    then show ?thesis using less.IH [OF _ chr_stop_advance [OF less.prems, of 8]] False e by auto
  qed
qed

lemma strchr_correct:
  assumes "chr_stop m (ucast c) s k" "(ucast c :: u8) \<noteq> 0"
  shows "strchr m s c = Some (chr_result m (ucast c) (s + k))"
proof -
  consider "strchr_align m (ucast c) s = Inl (chr_result m (ucast c) (s + k))"
    | j where "j \<le> k" "strchr_align m (ucast c) s = Inr (s + j)"
    using strchr_align_correct [OF assms(1)] by auto
  then show ?thesis
    using strchr_words_correct [OF chr_stop_advance [OF assms(1)]] assms(2) by cases (auto simp: strchr_def Let_def)
qed

text \<open>Comparison of blocks: the first \<open>k\<close> bytes agree, and \<open>k\<close> is the size or the place of the difference.\<close>

definition same_bytes :: "memory \<Rightarrow> nat \<Rightarrow> nat \<Rightarrow> nat \<Rightarrow> bool" where
  "same_bytes m a b k \<longleftrightarrow> (\<forall>i<k. m (a + i) = m (b + i))"

lemma same_bytes_append: "same_bytes m a b j \<Longrightarrow> same_bytes m (a + j) (b + j) k \<Longrightarrow> same_bytes m a b (j + k)"
  unfolding same_bytes_def by (metis add.assoc add_diff_inverse_nat nat_add_left_cancel_less)

lemma memcmp_words_skip:
  "\<exists>j\<le>n. memcmp_words m a b n = (a + j, b + j, n - j) \<and> same_bytes m a b j"
proof (induction n arbitrary: a b rule: less_induct)
  case (less n)
  show ?case
  proof (cases "n \<ge> 8 \<and> (load_le m a 8 :: u64) = load_le m b 8")
    case True
    obtain j where j: "j \<le> n - 8" "memcmp_words m (a + 8) (b + 8) (n - 8) = (a + 8 + j, b + 8 + j, n - 8 - j)"
      "same_bytes m (a + 8) (b + 8) j" using less.IH [of "n - 8" "a + 8" "b + 8"] True by auto
    have "same_bytes m a b 8" using load_eq_bytes [of m a b] True by (simp add: same_bytes_def)
    then have "same_bytes m a b (8 + j)" using j(3) by (rule same_bytes_append)
    then show ?thesis using j True memcmp_words.simps [of m a b n] by (intro exI [of _ "8 + j"]) auto
  next
    case False
    then show ?thesis using memcmp_words.simps [of m a b n] by (intro exI [of _ 0]) (auto simp: same_bytes_def)
  qed
qed

lemma memcmp_bytes_correct:
  "k \<le> n \<Longrightarrow> same_bytes m a b k \<Longrightarrow> k < n \<longrightarrow> m (a + k) \<noteq> m (b + k) \<Longrightarrow>
     memcmp_bytes m a b n = (if k < n then byte_diff m (a + k) (b + k) else 0)"
proof (induction n arbitrary: a b k)
  case (Suc n)
  show ?case
  proof (cases k)
    case 0
    then show ?thesis using Suc.prems by (simp add: byte_diff_def)
  next
    case (Suc k')
    then have "m a = m b" "same_bytes m (Suc a) (Suc b) k'"
      using \<open>same_bytes m a b k\<close> unfolding same_bytes_def by auto
    then show ?thesis using Suc.IH [of k' "Suc a" "Suc b"] Suc Suc.prems by simp
  qed
qed simp

lemma memcmp_correct:
  assumes "k \<le> n" "same_bytes m a b k" "k < n \<longrightarrow> m (a + k) \<noteq> m (b + k)"
  shows "memcmp m a b n = (if k < n then byte_diff m (a + k) (b + k) else 0)"
proof -
  obtain j where j: "j \<le> n" "memcmp_words m a b n = (a + j, b + j, n - j)" "same_bytes m a b j"
    using memcmp_words_skip by blast
  have jk: "j \<le> k" using j(1,3) assms(1,3) unfolding same_bytes_def by (metis le_less_linear less_le_trans)
  have "same_bytes m (a + j) (b + j) (k - j)"
    using assms(2) unfolding same_bytes_def by (metis add.assoc add.commute less_diff_conv)
  then show ?thesis
    using j(2) jk memcmp_bytes_correct [of "k - j" "n - j" m "a + j" "b + j"] assms by (auto simp: memcmp_def)
qed

section \<open>Copying strings\<close>

text \<open>A C string in memory, and what \<open>strlcpy\<close> and \<open>strlcat\<close> leave in a buffer of \<open>n\<close> bytes. These two
  are what the clients (\<open>Vfs\<close>, \<open>Shmfs\<close>) use.\<close>

definition strlcpy_buf :: "nat \<Rightarrow> string \<Rightarrow> string" where
  "strlcpy_buf n src = take (n - 1) src"

definition strlcat_buf :: "nat \<Rightarrow> string \<Rightarrow> string \<Rightarrow> string" where
  "strlcat_buf n dst src = (if length dst \<ge> n then dst else take (n - 1) (dst @ src))"

definition c_string :: "memory \<Rightarrow> nat \<Rightarrow> string \<Rightarrow> bool" where
  "c_string m p s \<longleftrightarrow> (\<forall>i<length s. m (p + i) = of_char (s ! i) \<and> (of_char (s ! i) :: u8) \<noteq> 0) \<and> m (p + length s) = 0"

lemma c_string_str_at: "c_string m p s \<Longrightarrow> str_at m p (length s)"
  by (simp add: c_string_def str_at_def no_zero_def)

definition disjoint_from :: "nat \<Rightarrow> nat \<Rightarrow> nat \<Rightarrow> nat \<Rightarrow> bool" where
  "disjoint_from a n b k \<longleftrightarrow> a + n \<le> b \<or> b + k \<le> a"

lemma strlcpy_refines:
  assumes s: "c_string m src s" and d: "disjoint_from dest sz src (Suc (length s))"
  shows "\<exists>m'. strlcpy dest src sz m = Some (length s, m') \<and>
    (sz > 0 \<longrightarrow> c_string m' dest (strlcpy_buf sz s)) \<and> (\<forall>x. x < dest \<or> dest + sz \<le> x \<longrightarrow> m' x = m x)"
proof (cases "sz = 0")
  case True
  then show ?thesis using strlen_correct [OF c_string_str_at [OF s]] by (simp add: strlcpy_def)
next
  case False
  define k where "k = (if length s \<ge> sz then sz - 1 else length s)"
  have k: "k < sz" "k \<le> length s" "length (strlcpy_buf sz s) = k" "strlcpy_buf sz s = take k s"
    using False by (auto simp: k_def strlcpy_buf_def)
  have "strlcpy dest src sz m = Some (length s, (mem_copy dest src k m)(dest + k := 0))"
    using strlen_correct [OF c_string_str_at [OF s]] False memcpy_copy [of dest src k m] d k(1,2)
    by (auto simp: strlcpy_def Let_def k_def disjoint_from_def)
  moreover have "c_string ((mem_copy dest src k m)(dest + k := 0)) dest (take k s)"
    using s k(2) by (auto simp: c_string_def mem_copy_def)
  moreover have "((mem_copy dest src k m)(dest + k := 0)) x = m x" if "x < dest \<or> dest + sz \<le> x" for x
    using that k(1) by (auto simp: mem_copy_def)
  ultimately show ?thesis unfolding k(4) by blast
qed

lemma c_string_append:
  assumes "c_string m d a" "c_string m' (d + length a) b" "\<And>x. x < d + length a \<Longrightarrow> m' x = m x"
  shows "c_string m' d (a @ b)"
  unfolding c_string_def
proof (intro conjI allI impI)
  fix i assume i: "i < length (a @ b)"
  have "m' (d + i) = of_char ((a @ b) ! i) \<and> (of_char ((a @ b) ! i) :: u8) \<noteq> 0"
  proof (cases "i < length a")
    case True
    then show ?thesis using assms(1,3) by (simp add: c_string_def nth_append)
  next
    case False
    then obtain j where "i = length a + j" "j < length b" using i by (metis add_diff_inverse_nat length_append nat_add_left_cancel_less)
    then show ?thesis using assms(2) by (simp add: c_string_def nth_append add.assoc)
  qed
  then show "m' (d + i) = of_char ((a @ b) ! i)" "(of_char ((a @ b) ! i) :: u8) \<noteq> 0" by auto
next
  show "m' (d + length (a @ b)) = 0" using assms(2) by (simp add: c_string_def add.assoc)
qed

lemma strlcat_refines:
  assumes d: "c_string m dest a" and s: "c_string m src s" and dj: "disjoint_from dest sz src (Suc (length s))"
  shows "\<exists>m'. strlcat dest src sz m = Some ((if length a \<ge> sz then sz else length a) + length s, m') \<and>
    c_string m' dest (strlcat_buf sz a s) \<and> (\<forall>x. x < dest \<or> dest + sz \<le> x \<longrightarrow> m' x = m x)"
proof (cases "length a \<ge> sz")
  case True
  then show ?thesis
    using strlen_correct [OF c_string_str_at [OF s]] strlen_correct [OF c_string_str_at [OF d]] d
    by (simp add: strlcat_def strlcat_buf_def)
next
  case False
  have "disjoint_from (dest + length a) (sz - length a) src (Suc (length s))"
    using dj False by (auto simp: disjoint_from_def)
  from strlcpy_refines [OF s this] False obtain m' where
    m': "strlcpy (dest + length a) src (sz - length a) m = Some (length s, m')"
      "c_string m' (dest + length a) (strlcpy_buf (sz - length a) s)"
      "\<And>x. x < dest + length a \<or> dest + sz \<le> x \<Longrightarrow> m' x = m x" by auto
  have "c_string m' dest (a @ strlcpy_buf (sz - length a) s)"
    using c_string_append [OF d m'(2)] m'(3) by simp
  moreover have "a @ strlcpy_buf (sz - length a) s = strlcat_buf sz a s"
    using False by (simp add: strlcpy_buf_def strlcat_buf_def)
  ultimately show ?thesis
    using m' False strlen_correct [OF c_string_str_at [OF d]] by (simp add: strlcat_def)
qed

lemma strncpy_pads:
  assumes "bounded_len m src n k" "disjoint_from dest n src k"
  shows "strncpy dest src n m = (\<lambda>x. if dest \<le> x \<and> x < dest + n then if x - dest < k then m (src + (x - dest)) else 0 else m x)"
proof -
  have k: "k \<le> n" using assms(1) by (simp add: bounded_len_def)
  have "memcpy dest src k m = mem_copy dest src k m"
    using assms(2) k by (intro memcpy_copy) (auto simp: disjoint_from_def)
  then have "strncpy dest src n m = (if k < n then mem_fill (dest + k) (n - k) (\<lambda>_. 0) (mem_copy dest src k m) else mem_copy dest src k m)"
    using strnlen_correct [OF assms(1)] by (simp add: strncpy_def Let_def memset_fill)
  then show ?thesis using k by (auto simp: mem_fill_def mem_copy_def fun_eq_iff)
qed

section \<open>Properties\<close>

text \<open>C39: The word-wise block operations do what the byte-wise ones are documented to do. \<open>memmove\<close>
  copies as if the source were read first, for every overlap and every length; \<open>memcpy\<close> does so when the
  areas do not overlap or the destination lies below the source; \<open>memset\<close>, \<open>memset16\<close> and \<open>memset32\<close>
  fill exactly \<open>n\<close> units with the unit's little-endian bytes; nothing else changes.\<close>

theorem memory_blocks_correct:
  "memmove d s n m = (\<lambda>x. if d \<le> x \<and> x < d + n then m (s + (x - d)) else m x) \<and>
   (d \<le> s \<or> s + n \<le> d \<longrightarrow> memcpy d s n m = memmove d s n m) \<and>
   memset d c n m = (\<lambda>x. if d \<le> x \<and> x < d + n then ucast c else m x) \<and>
   memset16 d h n m = (\<lambda>x. if d \<le> x \<and> x < d + 2 * n then byte_of h ((x - d) mod 2) else m x) \<and>
   memset32 d c n m = (\<lambda>x. if d \<le> x \<and> x < d + 4 * n then byte_of c ((x - d) mod 4) else m x)"
  using memcpy_copy [of d s n m]
  by (simp add: memmove_copy memset_fill memset16_fill memset32_fill mem_copy_def mem_fill_def)

theorem memory_blocks_correct_witness:
  "memcpy 0 3 100 (\<lambda>x. of_nat x) = memmove 0 3 100 (\<lambda>x. of_nat x) \<and> memmove 0 3 100 (\<lambda>x. of_nat x) 5 = (8 :: u8)"
  using memory_blocks_correct [of 0 3 100 "\<lambda>x. of_nat x"] by simp

text \<open>On a string of length \<open>n\<close> the word-wise \<open>strlen\<close> returns \<open>n\<close>, \<open>strnlen\<close> the smaller of \<open>n\<close> and
  its bound, and \<open>strchr\<close> a pointer to the first occurrence of the character, the terminator for zero,
  or null: the zero byte test on words misses no byte and raises no false alarm, at every alignment.\<close>

lemma string_scans_correct:
  assumes "str_at m s n"
  shows "strlen m s = Some n \<and> strnlen m s k = min n k \<and>
    strchr m s c = Some (if (ucast c :: u8) = 0 then Some (s + n)
      else map_option (\<lambda>i. s + i) (find (\<lambda>i. m (s + i) = ucast c) [0..<n]))"
proof (intro conjI)
  show l: "strlen m s = Some n" by (rule strlen_correct [OF assms])
  have "bounded_len m s k (min n k)" using assms by (auto simp: bounded_len_def str_at_def no_zero_def min_def)
  then show "strnlen m s k = min n k" by (rule strnlen_correct)
  show "strchr m s c = Some (if (ucast c :: u8) = 0 then Some (s + n)
      else map_option (\<lambda>i. s + i) (find (\<lambda>i. m (s + i) = ucast c) [0..<n]))"
  proof (cases "(ucast c :: u8) = 0")
    case True
    then show ?thesis using l by (simp add: strchr_def)
  next
    case False
    show ?thesis
    proof (cases "find (\<lambda>i. m (s + i) = ucast c) [0..<n]")
      case None
      then have "chr_stop m (ucast c) s n" using assms by (auto simp: chr_stop_def str_at_def no_zero_def find_upt_None)
      then show ?thesis using strchr_correct False None assms by (auto simp: chr_result_def str_at_def)
    next
      case (Some i)
      then have "chr_stop m (ucast c) s i"
        using find_upt_Some [OF Some] assms by (auto simp: chr_stop_def str_at_def no_zero_def)
      then show ?thesis using strchr_correct False Some find_upt_Some(3) [OF Some] by (auto simp: chr_result_def)
    qed
  qed
qed

definition demo_mem :: memory where
  "demo_mem = (\<lambda>x. if x < 14 then 65 + of_nat x else 0)"

lemma string_scans_correct_witness:
  "strlen demo_mem 3 = Some 11 \<and> strnlen demo_mem 3 9 = 9 \<and> strchr demo_mem 3 70 = Some (Some 5)"
proof -
  have s: "str_at demo_mem 3 11" unfolding str_at_def no_zero_def by code_simp
  have f: "find (\<lambda>i. demo_mem (3 + i) = ucast (70 :: u32)) [0..<11] = Some 2" by code_simp
  show ?thesis using string_scans_correct [OF s, of 9 70] f by simp
qed

text \<open>\<open>strcmp\<close> returns the difference of the first bytes that differ or end the strings, whatever the
  alignment of the two; \<open>strncmp\<close> looks at no more than its bound; \<open>memcmp\<close> returns the difference at the
  first byte that differs.\<close>

lemma string_comparison_correct:
  assumes "\<forall>i<k. m (a + i) = m (b + i) \<and> m (a + i) \<noteq> 0" "m (a + k) \<noteq> m (b + k) \<or> m (a + k) = 0"
  shows "strcmp m a b = Some (uint (m (a + k)) - uint (m (b + k))) \<and>
    strncmp m a b n = (if k < n then uint (m (a + k)) - uint (m (b + k)) else 0) \<and>
    memcmp m p q n = (case find (\<lambda>i. m (p + i) \<noteq> m (q + i)) [0..<n] of
      None \<Rightarrow> 0 | Some i \<Rightarrow> uint (m (p + i)) - uint (m (q + i)))"
proof (intro conjI)
  have c: "cmp_stop m a b k" using assms by (auto simp: cmp_stop_def same_prefix_def)
  then show "strcmp m a b = Some (uint (m (a + k)) - uint (m (b + k)))"
    using strcmp_correct by (simp add: byte_diff_def)
  have "same_prefix m a b (min k n)" using assms(1) unfolding same_prefix_def by (meson min_less_iff_conj)
  then have "ncmp_stop m a b n (min k n)" using c by (auto simp: ncmp_stop_def min_def)
  from strncmp_correct [OF this] show "strncmp m a b n = (if k < n then uint (m (a + k)) - uint (m (b + k)) else 0)"
    by (auto simp: byte_diff_def min_def)
  show "memcmp m p q n = (case find (\<lambda>i. m (p + i) \<noteq> m (q + i)) [0..<n] of
      None \<Rightarrow> 0 | Some i \<Rightarrow> uint (m (p + i)) - uint (m (q + i)))"
  proof (cases "find (\<lambda>i. m (p + i) \<noteq> m (q + i)) [0..<n]")
    case None
    then have "same_bytes m p q n" by (simp add: same_bytes_def find_upt_None)
    then show ?thesis using memcmp_correct [of n n m p q] None by simp
  next
    case (Some i)
    then show ?thesis
      using memcmp_correct [of i n m p q] find_upt_Some [OF Some] by (auto simp: same_bytes_def byte_diff_def)
  qed
qed

lemma string_comparison_correct_witness:
  "strcmp demo_mem 4 20 = Some 69 \<and> strncmp demo_mem 4 20 0 = 0 \<and> memcmp demo_mem 14 30 2 = 0"
proof -
  have "find (\<lambda>i. demo_mem (14 + i) \<noteq> demo_mem (30 + i)) [0..<2] = None" by code_simp
  moreover have "find (\<lambda>i. demo_mem (14 + i) \<noteq> demo_mem (30 + i)) [0..<0] = None" by simp
  ultimately show ?thesis
    using string_comparison_correct [of 0 demo_mem 4 20 0 14 30] string_comparison_correct [of 0 demo_mem 4 20 2 14 30]
    by (simp add: demo_mem_def)
qed

text \<open>C40: \<open>strlcpy\<close> and \<open>strlcat\<close> into a buffer of \<open>sz\<close> bytes leave a terminated string, the longest
  prefix of the source (or of the concatenation) that fits, report the length it would have had, and
  write nothing outside the buffer; \<open>strncpy\<close> copies the string and pads the rest with zeros.\<close>

theorem string_copies_bounded:
  assumes "c_string m src s" "disjoint_from dest sz src (Suc (length s))"
  shows "(\<exists>m'. strlcpy dest src sz m = Some (length s, m') \<and>
      (sz > 0 \<longrightarrow> c_string m' dest (strlcpy_buf sz s)) \<and> (\<forall>x. x < dest \<or> dest + sz \<le> x \<longrightarrow> m' x = m x)) \<and>
    (c_string m dest a \<longrightarrow>
      (\<exists>m'. strlcat dest src sz m = Some (min sz (length a) + length s, m') \<and>
        c_string m' dest (strlcat_buf sz a s) \<and> (\<forall>x. x < dest \<or> dest + sz \<le> x \<longrightarrow> m' x = m x))) \<and>
    strncpy dest src sz m = (\<lambda>x. if dest \<le> x \<and> x < dest + sz
      then if x - dest < length s then m (src + (x - dest)) else 0 else m x)"
proof (intro conjI impI)
  show "\<exists>m'. strlcpy dest src sz m = Some (length s, m') \<and>
      (sz > 0 \<longrightarrow> c_string m' dest (strlcpy_buf sz s)) \<and> (\<forall>x. x < dest \<or> dest + sz \<le> x \<longrightarrow> m' x = m x)"
    by (rule strlcpy_refines [OF assms])
  assume "c_string m dest a"
  from strlcat_refines [OF this assms]
  show "\<exists>m'. strlcat dest src sz m = Some (min sz (length a) + length s, m') \<and>
        c_string m' dest (strlcat_buf sz a s) \<and> (\<forall>x. x < dest \<or> dest + sz \<le> x \<longrightarrow> m' x = m x)"
    by (simp add: min_def)
next
  have "bounded_len m src sz (min (length s) sz)" "disjoint_from dest sz src (min (length s) sz)"
    using assms by (auto simp: bounded_len_def c_string_def no_zero_def disjoint_from_def)
  from strncpy_pads [OF this]
  show "strncpy dest src sz m = (\<lambda>x. if dest \<le> x \<and> x < dest + sz
      then if x - dest < length s then m (src + (x - dest)) else 0 else m x)"
    by (auto simp: fun_eq_iff)
qed

theorem string_copies_bounded_witness:
  "\<exists>m'. strlcpy 100 11 3 demo_mem = Some (3, m') \<and> c_string m' 100 (strlcpy_buf 3 ''LMN'')"
proof -
  have "c_string demo_mem 11 ''LMN''" unfolding c_string_def by code_simp
  moreover have "disjoint_from 100 3 11 (Suc (length ''LMN''))" by code_simp
  ultimately show ?thesis
    using string_copies_bounded [of demo_mem 11 "''LMN''" 100 3 "[]"] by (auto simp: numeral_3_eq_3)
qed

end
