(* ===== verification/Shmfs.thy ===== *)
theory Shmfs
  imports Pmm KString
begin

text \<open>
  The shared memory file system (\<^verbatim>\<open>kernel/fs/shmfs.c\<close>): named and anonymous objects made of physical
  pages. Objects live in a heap of addresses, the global list is the list of the addresses in list order, page
  frames are taken from and returned to the page allocator of \<open>Pmm\<close> (a client of its interface), and file data
  is the physical memory itself. An access through the address of a freed object is \<open>Inl\<close>.
\<close>

section \<open>State\<close>

record shm_object =
  so_name :: string
  so_size :: nat
  so_page_count :: nat
  so_pages :: "nat list option"
  so_ref_count :: nat
  so_prot_mask :: nat
  so_is_pinned :: bool

record shmfs =
  shm_heap :: "nat \<rightharpoonup> shm_object"
  shm_objects :: "nat list"
  shm_mem :: memory
  shm_pmm :: "pmm \<times> bcache_state"

text \<open>The fields of a file node that the file system uses; \<open>impl\<close> is a 32-bit field.\<close>

record shm_node =
  sn_name :: string
  sn_flags :: nat
  sn_mask :: nat
  sn_impl :: nat
  sn_length :: nat

section \<open>Objects\<close>

definition shm_find_object :: "string \<Rightarrow> shmfs \<Rightarrow> nat option" where
  "shm_find_object name s =
     find (\<lambda>a. case shm_heap s a of None \<Rightarrow> False | Some obj \<Rightarrow> so_name obj = name) (shm_objects s)"

text \<open>The first argument is what \<open>kmalloc\<close> returns: \<open>None\<close>, or the address of the new object.\<close>

definition shm_create_object :: "nat option \<Rightarrow> string \<Rightarrow> shmfs \<Rightarrow> nat option \<times> shmfs" where
  "shm_create_object km name s =
     (case km of
        None \<Rightarrow> (None, s)
      | Some a \<Rightarrow>
          let obj = \<lparr>so_name = strlcpy_buf 128 name, so_size = 0, so_page_count = 0, so_pages = None,
                so_ref_count = 1, so_prot_mask = 7, so_is_pinned = True\<rparr>;
              s1 = s\<lparr>shm_heap := (shm_heap s)(a \<mapsto> obj)\<rparr>
          in (Some a, if name \<noteq> [] then s1\<lparr>shm_objects := a # shm_objects s1\<rparr> else s1))"

text \<open>The loop that gives the page frames back; a frame number 0 is skipped.\<close>

fun free_pages :: "nat list \<Rightarrow> pmm \<times> bcache_state \<Rightarrow> panic + pmm \<times> bcache_state" where
  "free_pages [] p = Inr p"
| "free_pages (a # as) p =
     (if a \<noteq> 0 then
        (case pmm_free_page a (fst p) of Inl e \<Rightarrow> Inl e | Inr q \<Rightarrow> free_pages as (q, snd p))
      else free_pages as p)"

definition shm_free_object :: "nat \<Rightarrow> shmfs \<Rightarrow> panic + shmfs" where
  "shm_free_object a s =
     (case shm_heap s a of
        None \<Rightarrow> Inl (Panic ''use after free'')
      | Some obj \<Rightarrow>
          let s1 = s\<lparr>shm_objects := remove1 a (shm_objects s)\<rparr> in
          (case so_pages obj of
             None \<Rightarrow> Inr (s1\<lparr>shm_heap := (shm_heap s1)(a := None)\<rparr>)
           | Some ps \<Rightarrow>
               (case free_pages (take (so_page_count obj) ps) (shm_pmm s1) of
                  Inl e \<Rightarrow> Inl e
                | Inr p \<Rightarrow> Inr (s1\<lparr>shm_pmm := p, shm_heap := (shm_heap s1)(a := None)\<rparr>))))"

text \<open>The object behind a node: no object for address 0.\<close>

definition node_object :: "shm_node option \<Rightarrow> shmfs \<Rightarrow> panic + shm_object option" where
  "node_object node s =
     (case node of
        None \<Rightarrow> Inr None
      | Some n \<Rightarrow>
          if sn_impl n = 0 then Inr None
          else case shm_heap s (sn_impl n) of
            None \<Rightarrow> Inl (Panic ''use after free'')
          | Some obj \<Rightarrow> Inr (Some obj))"

section \<open>Reading and writing\<close>

text \<open>Frame of page \<open>i\<close>, 0 when there is none.\<close>

definition page_at :: "shm_object \<Rightarrow> nat \<Rightarrow> nat" where
  "page_at obj i = (case so_pages obj of None \<Rightarrow> 0 | Some ps \<Rightarrow> if i < so_page_count obj then ps ! i else 0)"

definition copy_len :: "nat \<Rightarrow> nat \<Rightarrow> nat \<Rightarrow> nat" where
  "copy_len pos sz done_bytes =
     (let to_copy = PAGE_SIZE - pos mod PAGE_SIZE in
      if add32 done_bytes to_copy > sz then sub32 sz done_bytes else to_copy)"

partial_function (option) shm_read_loop ::
  "shm_object \<Rightarrow> memory \<Rightarrow> nat \<Rightarrow> nat \<Rightarrow> nat \<Rightarrow> u8 list \<Rightarrow> (nat \<times> u8 list) option" where
  "shm_read_loop obj m offset sz read_bytes buf =
     (if read_bytes < sz then
        let pos = add32 offset read_bytes;
            to_copy = copy_len pos sz read_bytes;
            phys = page_at obj (pos div PAGE_SIZE);
            part = (if phys \<noteq> 0 then map (\<lambda>k. m (phys + pos mod PAGE_SIZE + k)) [0..<to_copy] else replicate to_copy 0)
        in shm_read_loop obj m offset sz (add32 read_bytes to_copy) (buf @ part)
      else Some (read_bytes, buf))"

text \<open>Result: the return value and the bytes stored in the buffer; \<open>None\<close> if the loop does not end.\<close>

definition shmfs_read :: "shm_node option \<Rightarrow> nat \<Rightarrow> nat \<Rightarrow> bool \<Rightarrow> shmfs \<Rightarrow> panic + (int \<times> u8 list) option" where
  "shmfs_read node offset sz buffer_ok s =
     (if \<not> buffer_ok then Inr (Some (- EINVAL, []))
      else case node_object node s of
        Inl e \<Rightarrow> Inl e
      | Inr None \<Rightarrow> Inr (Some (- EINVAL, []))
      | Inr (Some obj) \<Rightarrow>
          if offset \<ge> so_size obj then Inr (Some (0, []))
          else
            let sz1 = (if add32 offset sz > so_size obj then sub32 (so_size obj) offset else sz) in
            Inr (map_option (\<lambda>(n, b). (int n, b)) (shm_read_loop obj (shm_mem s) offset sz1 0 [])))"

definition write_mem :: "memory \<Rightarrow> nat \<Rightarrow> u8 list \<Rightarrow> memory" where
  "write_mem m a bs = (\<lambda>x. if a \<le> x \<and> x < a + length bs then bs ! (x - a) else m x)"

partial_function (option) shm_write_loop ::
  "shm_object \<Rightarrow> nat \<Rightarrow> nat \<Rightarrow> u8 list \<Rightarrow> nat \<Rightarrow> memory \<Rightarrow> (nat \<times> memory) option" where
  "shm_write_loop obj offset sz buffer written_bytes m =
     (if written_bytes < sz then
        let pos = add32 offset written_bytes;
            to_copy = copy_len pos sz written_bytes;
            phys = page_at obj (pos div PAGE_SIZE);
            m1 = (if phys \<noteq> 0 then write_mem m (phys + pos mod PAGE_SIZE) (take to_copy (drop written_bytes buffer)) else m)
        in shm_write_loop obj offset sz buffer (add32 written_bytes to_copy) m1
      else Some (written_bytes, m))"

text \<open>The return type is unsigned: the negative error number is seen as a large count.\<close>

definition shmfs_write :: "shm_node option \<Rightarrow> nat \<Rightarrow> nat \<Rightarrow> u8 list option \<Rightarrow> shmfs \<Rightarrow> panic + (int \<times> shmfs) option" where
  "shmfs_write node offset sz buffer s =
     (case buffer of
        None \<Rightarrow> Inr (Some (2 ^ 32 - EINVAL, s))
      | Some buf \<Rightarrow>
          (case node_object node s of
             Inl e \<Rightarrow> Inl e
           | Inr None \<Rightarrow> Inr (Some (2 ^ 32 - EINVAL, s))
           | Inr (Some obj) \<Rightarrow>
               if add32 offset sz > so_size obj \<and> offset \<ge> so_size obj then Inr (Some (0, s))
               else
                 let sz1 = (if add32 offset sz > so_size obj then sub32 (so_size obj) offset else sz) in
                 Inr (map_option (\<lambda>(n, m). (int n, s\<lparr>shm_mem := m\<rparr>))
                        (shm_write_loop obj offset sz1 buf 0 (shm_mem s)))))"

section \<open>Closing, resizing\<close>

definition shmfs_close :: "shm_node option \<Rightarrow> shmfs \<Rightarrow> panic + shmfs" where
  "shmfs_close node s =
     (case node_object node s of
        Inl e \<Rightarrow> Inl e
      | Inr None \<Rightarrow> Inr s
      | Inr (Some obj) \<Rightarrow>
          let a = sn_impl (the node);
              rc = sub32 (so_ref_count obj) 1;
              s1 = s\<lparr>shm_heap := (shm_heap s)(a \<mapsto> obj\<lparr>so_ref_count := rc\<rparr>)\<rparr>
          in if rc = 0 \<and> so_name obj = [] then shm_free_object a s1 else Inr s1)"

text \<open>The loop that allocates and clears the pages of a growing object; a failed allocation leaves 0.\<close>

fun grow_pages :: "nat \<Rightarrow> memory \<Rightarrow> pmm \<times> bcache_state \<Rightarrow> panic + nat list \<times> memory \<times> pmm \<times> bcache_state" where
  "grow_pages 0 m p = Inr ([], m, p)"
| "grow_pages (Suc n) m p =
     (case pmm_alloc_page p of
        Inl e \<Rightarrow> Inl e
      | Inr (a, q) \<Rightarrow>
          (case grow_pages n (if a \<noteq> 0 then write_mem m a (replicate PAGE_SIZE 0) else m) q of
             Inl e \<Rightarrow> Inl e
           | Inr (as, m', q') \<Rightarrow> Inr (a # as, m', q')))"

definition page_count_of :: "nat \<Rightarrow> nat" where
  "page_count_of len = sub32 (add32 len PAGE_SIZE) 1 div PAGE_SIZE"

definition shmfs_truncate :: "bool \<Rightarrow> shm_node option \<Rightarrow> nat \<Rightarrow> shmfs \<Rightarrow> panic + int \<times> shm_node option \<times> shmfs" where
  "shmfs_truncate kmalloc_ok node len s =
     (case node_object node s of
        Inl e \<Rightarrow> Inl e
      | Inr None \<Rightarrow> Inr (- EINVAL, node, s)
      | Inr (Some obj) \<Rightarrow>
          let a = sn_impl (the node);
              new_page_count = page_count_of len;
              old = (case so_pages obj of None \<Rightarrow> [] | Some ps \<Rightarrow> ps);
              finish = (\<lambda>obj s. (0, map_option (\<lambda>n. n\<lparr>sn_length := len\<rparr>) node,
                 s\<lparr>shm_heap := (shm_heap s)(a \<mapsto> obj\<lparr>so_size := len\<rparr>)\<rparr>))
          in if new_page_count > so_page_count obj then
               if \<not> kmalloc_ok then Inr (- ENOMEM, node, s)
               else (case grow_pages (new_page_count - so_page_count obj) (shm_mem s) (shm_pmm s) of
                 Inl e \<Rightarrow> Inl e
               | Inr (as, m, p) \<Rightarrow>
                   Inr (finish (obj\<lparr>so_pages := Some (take (so_page_count obj) old @ as), so_page_count := new_page_count\<rparr>)
                          (s\<lparr>shm_mem := m, shm_pmm := p\<rparr>)))
             else if new_page_count < so_page_count obj then
               (case free_pages (drop new_page_count (take (so_page_count obj) old)) (shm_pmm s) of
                 Inl e \<Rightarrow> Inl e
               | Inr p \<Rightarrow>
                   Inr (finish (obj\<lparr>so_pages := Some (take new_page_count old @
                            replicate (so_page_count obj - new_page_count) 0 @ drop (so_page_count obj) old),
                          so_page_count := new_page_count\<rparr>) (s\<lparr>shm_pmm := p\<rparr>)))
             else Inr (finish obj s))"

section \<open>Names\<close>

definition shm_file_node :: "string \<Rightarrow> nat \<Rightarrow> nat \<Rightarrow> shm_node" where
  "shm_file_node name a len = \<lparr>sn_name = strlcpy_buf 128 name, sn_flags = 1, sn_mask = 438, sn_impl = a mod 2 ^ 32,
     sn_length = len\<rparr>"

definition shmfs_create_memfd :: "nat option \<Rightarrow> bool \<Rightarrow> string option \<Rightarrow> shmfs \<Rightarrow> panic + shm_node option \<times> shmfs" where
  "shmfs_create_memfd km kmalloc_ok name s =
     (case shm_create_object km [] s of
        (None, s1) \<Rightarrow> Inr (None, s1)
      | (Some a, s1) \<Rightarrow>
          if \<not> kmalloc_ok then
            (case shm_free_object a s1 of Inl e \<Rightarrow> Inl e | Inr s2 \<Rightarrow> Inr (None, s2))
          else Inr (Some (shm_file_node (case name of None \<Rightarrow> ''memfd'' | Some n \<Rightarrow> n) a 0), s1))"

definition shmfs_finddir :: "bool \<Rightarrow> string option \<Rightarrow> shmfs \<Rightarrow> shm_node option" where
  "shmfs_finddir kmalloc_ok name s =
     (case name of
        None \<Rightarrow> None
      | Some nm \<Rightarrow>
          (case shm_find_object nm s of
             None \<Rightarrow> None
           | Some a \<Rightarrow> if \<not> kmalloc_ok then None
               else map_option (\<lambda>obj. shm_file_node nm a (so_size obj)) (shm_heap s a)))"

definition shmfs_create :: "nat option \<Rightarrow> string option \<Rightarrow> shmfs \<Rightarrow> int \<times> shmfs" where
  "shmfs_create km name s =
     (case name of
        None \<Rightarrow> (- EINVAL, s)
      | Some nm \<Rightarrow>
          (case shm_find_object nm s of
             Some a \<Rightarrow> (0, s)
           | None \<Rightarrow> (case shm_create_object km nm s of (r, s1) \<Rightarrow> (if r = None then -1 else 0, s1))))"

definition shmfs_unlink :: "string option \<Rightarrow> shmfs \<Rightarrow> panic + int \<times> shmfs" where
  "shmfs_unlink name s =
     (case name of
        None \<Rightarrow> Inr (- EINVAL, s)
      | Some nm \<Rightarrow>
          (case shm_find_object nm s of
             None \<Rightarrow> Inr (- EINVAL, s)
           | Some a \<Rightarrow> (case shm_free_object a s of Inl e \<Rightarrow> Inl e | Inr s1 \<Rightarrow> Inr (0, s1))))"

definition shmfs_rename :: "string option \<Rightarrow> string option \<Rightarrow> shmfs \<Rightarrow> panic + int \<times> shmfs" where
  "shmfs_rename old_name new_name s =
     (case (old_name, new_name) of
        (Some old, Some new) \<Rightarrow>
          (case shm_find_object old s of
             None \<Rightarrow> Inr (- EINVAL, s)
           | Some a \<Rightarrow>
               let s1 = (case shm_find_object new s of
                     None \<Rightarrow> Inr s
                   | Some b \<Rightarrow>
                       let s' = s\<lparr>shm_objects := remove1 b (shm_objects s)\<rparr> in
                       if so_ref_count (the (shm_heap s b)) = 0 then shm_free_object b s' else Inr s')
               in (case s1 of
                     Inl e \<Rightarrow> Inl e
                   | Inr s2 \<Rightarrow>
                       (case shm_heap s2 a of
                          None \<Rightarrow> Inl (Panic ''use after free'')
                        | Some obj \<Rightarrow>
                            Inr (0, s2\<lparr>shm_heap := (shm_heap s2)(a \<mapsto> obj\<lparr>so_name := strlcpy_buf 128 new\<rparr>)\<rparr>))))
      | _ \<Rightarrow> Inr (- EINVAL, s))"

text \<open>Result: 0 with the name and the inode of the entry, or 1 at the end.\<close>

definition shmfs_readdir :: "nat \<Rightarrow> shmfs \<Rightarrow> int \<times> (string \<times> nat) option" where
  "shmfs_readdir index s =
     (if index < length (shm_objects s)
      then (0, Some (strlcpy_buf 128 (so_name (the (shm_heap s (shm_objects s ! index)))), add32 index 1))
      else (1, None))"

section \<open>Control requests\<close>

definition "ASHMEM_SET_NAME = (0x41007701 :: nat)"
definition "ASHMEM_GET_NAME = (0x81007702 :: nat)"
definition "ASHMEM_SET_SIZE = (0x40087703 :: nat)"
definition "ASHMEM_GET_SIZE = (0x7704 :: nat)"
definition "ASHMEM_SET_PROT_MASK = (0x40087705 :: nat)"
definition "ASHMEM_GET_PROT_MASK = (0x7706 :: nat)"
definition "ASHMEM_GET_PIN_STATUS = (0x7707 :: nat)"
definition "ASHMEM_PIN = (0x40087708 :: nat)"
definition "ASHMEM_UNPIN = (0x40087709 :: nat)"

text \<open>\<open>user\<close> is the string behind the pointer \<open>arg\<close> (\<open>None\<close>: the copy faults), \<open>user_ok\<close> whether the
  caller may write there. Result: return value, the name stored at \<open>arg\<close> if any, the node and the state.\<close>

definition shmfs_ioctl ::
  "bool \<Rightarrow> shm_node option \<Rightarrow> nat \<Rightarrow> nat \<Rightarrow> string option \<Rightarrow> bool \<Rightarrow> shmfs \<Rightarrow>
     panic + int \<times> string option \<times> shm_node option \<times> shmfs" where
  "shmfs_ioctl kmalloc_ok node request arg user user_ok s =
     (case node of
        None \<Rightarrow> Inr (- EINVAL, None, node, s)
      | Some n \<Rightarrow>
          if sn_impl n = 0 then Inr (- EINVAL, None, node, s)
          else if request = ASHMEM_SET_NAME then
            (if arg = 0 then Inr (0, None, node, s)
             else case user of
               None \<Rightarrow> Inr (- EFAULT, None, node, s)
             | Some str \<Rightarrow> Inr (0, None, Some (n\<lparr>sn_name := strlcpy_buf 128 (strlcpy_buf 256 str)\<rparr>), s))
          else if request = ASHMEM_GET_NAME then
            (if arg = 0 then Inr (0, None, node, s)
             else if \<not> user_ok then Inr (- EFAULT, None, node, s)
             else Inr (0, Some (sn_name n), node, s))
          else if request = ASHMEM_SET_SIZE then
            (case shmfs_truncate kmalloc_ok node (arg mod 2 ^ 32) s of
               Inl e \<Rightarrow> Inl e
             | Inr (_, node', s') \<Rightarrow> Inr (0, None, node', s'))
          else if request = ASHMEM_GET_SIZE then Inr (to_int32 (sn_length n), None, node, s)
          else if request \<in> {ASHMEM_SET_PROT_MASK, ASHMEM_GET_PROT_MASK, ASHMEM_PIN, ASHMEM_UNPIN, ASHMEM_GET_PIN_STATUS}
          then
            (case shm_heap s (sn_impl n) of
               None \<Rightarrow> Inl (Panic ''use after free'')
             | Some obj \<Rightarrow>
                 let put = (\<lambda>obj'. s\<lparr>shm_heap := (shm_heap s)(sn_impl n \<mapsto> obj')\<rparr>);
                     pinned = (if so_is_pinned obj then 1 else 0)
                 in if request = ASHMEM_SET_PROT_MASK
                    then Inr (0, None, node, put (obj\<lparr>so_prot_mask := arg mod 2 ^ 32\<rparr>))
                    else if request = ASHMEM_GET_PROT_MASK then Inr (to_int32 (so_prot_mask obj), None, node, s)
                    else if request = ASHMEM_PIN then Inr (pinned, None, node, put (obj\<lparr>so_is_pinned := True\<rparr>))
                    else if request = ASHMEM_UNPIN then Inr (pinned, None, node, put (obj\<lparr>so_is_pinned := False\<rparr>))
                    else Inr (pinned, None, node, s))
          else Inr (- ENOTTY, None, node, s))"

section \<open>The bytes of an object\<close>

definition shm_byte :: "shm_object \<Rightarrow> memory \<Rightarrow> nat \<Rightarrow> u8" where
  "shm_byte obj m i = (let p = page_at obj (i div PAGE_SIZE) in if p \<noteq> 0 then m (p + i mod PAGE_SIZE) else 0)"

text \<open>The frames of an object are aligned and different from each other.\<close>

definition frames_ok :: "shm_object \<Rightarrow> bool" where
  "frames_ok obj \<longleftrightarrow> (\<forall>i. PAGE_SIZE dvd page_at obj i) \<and>
     (\<forall>i j. page_at obj i = page_at obj j \<and> page_at obj i \<noteq> 0 \<longrightarrow> i = j)"

lemma in_page:
  assumes "pos mod PAGE_SIZE + k < PAGE_SIZE"
  shows "(pos + k) div PAGE_SIZE = pos div PAGE_SIZE" "(pos + k) mod PAGE_SIZE = pos mod PAGE_SIZE + k"
proof -
  have "(pos + k) = pos div PAGE_SIZE * PAGE_SIZE + (pos mod PAGE_SIZE + k)" by simp
  then show "(pos + k) div PAGE_SIZE = pos div PAGE_SIZE" "(pos + k) mod PAGE_SIZE = pos mod PAGE_SIZE + k"
    using assms by (metis add.commute add_cancel_right_right div_less div_mult_self1 gr_implies_not0,
        metis add.commute mod_less mod_mult_self1)
qed

lemma page_pos [simp]: "0 < PAGE_SIZE"
  by (simp add: PAGE_SIZE_def)

lemma copy_len_bounds:
  assumes "d < sz" "sz + PAGE_SIZE \<le> 2 ^ 32"
  shows "copy_len pos sz d = min (PAGE_SIZE - pos mod PAGE_SIZE) (sz - d)" "0 < copy_len pos sz d"
    "d + copy_len pos sz d \<le> sz" "pos mod PAGE_SIZE + copy_len pos sz d \<le> PAGE_SIZE"
proof -
  have m: "pos mod PAGE_SIZE < PAGE_SIZE" by simp
  have a: "add32 d (PAGE_SIZE - pos mod PAGE_SIZE) = d + (PAGE_SIZE - pos mod PAGE_SIZE)"
    using assms by (intro add32_exact) linarith
  have b: "sub32 sz d = sz - d" using assms page_pos by (intro sub32_exact) linarith+
  show c: "copy_len pos sz d = min (PAGE_SIZE - pos mod PAGE_SIZE) (sz - d)"
    using assms unfolding copy_len_def Let_def a b by auto
  show "0 < copy_len pos sz d" "d + copy_len pos sz d \<le> sz" "pos mod PAGE_SIZE + copy_len pos sz d \<le> PAGE_SIZE"
    unfolding c using assms m by (auto simp: min_def)
qed

lemma read_part:
  assumes "pos mod PAGE_SIZE + c \<le> PAGE_SIZE"
  shows "(if page_at obj (pos div PAGE_SIZE) \<noteq> 0
      then map (\<lambda>k. m (page_at obj (pos div PAGE_SIZE) + pos mod PAGE_SIZE + k)) [0..<c] else replicate c 0) =
    map (shm_byte obj m) [pos..<pos + c]"
proof -
  have "shm_byte obj m (pos + k) = (if page_at obj (pos div PAGE_SIZE) \<noteq> 0
      then m (page_at obj (pos div PAGE_SIZE) + pos mod PAGE_SIZE + k) else 0)" if "k < c" for k
    using in_page [of pos k] that assms by (simp add: shm_byte_def Let_def add.assoc)
  then show ?thesis by (intro nth_equalityI) auto
qed

lemma shm_read_loop_correct:
  assumes "offset + sz + PAGE_SIZE \<le> 2 ^ 32" "d \<le> sz"
  shows "shm_read_loop obj m offset sz d (map (shm_byte obj m) [offset..<offset + d]) =
    Some (sz, map (shm_byte obj m) [offset..<offset + sz])"
  using assms(2)
proof (induction "sz - d" arbitrary: d rule: less_induct)
  case less
  show ?case
  proof (cases "d < sz")
    case False
    then show ?thesis using less.prems by (simp add: shm_read_loop.simps)
  next
    case True
    have pos: "add32 offset d = offset + d" using True assms(1) page_pos by (intro add32_exact) linarith
    have "sz + PAGE_SIZE \<le> 2 ^ 32" using assms(1) by linarith
    note c = copy_len_bounds [OF True this, of "offset + d"]
    define k where "k = copy_len (offset + d) sz d"
    have dk: "add32 d k = d + k" using c(3) assms(1) page_pos unfolding k_def by (intro add32_exact) linarith
    have buf: "map (shm_byte obj m) [offset..<offset + d] @ map (shm_byte obj m) [offset + d..<offset + d + k] =
        map (shm_byte obj m) [offset..<offset + (d + k)]"
      using upt_add_eq_append [of offset "offset + d" k] by (simp add: add.assoc)
    have "shm_read_loop obj m offset sz d (map (shm_byte obj m) [offset..<offset + d]) =
        shm_read_loop obj m offset sz (d + k) (map (shm_byte obj m) [offset..<offset + (d + k)])"
      using True read_part [OF c(4), of obj m]
      by (subst shm_read_loop.simps) (simp add: Let_def pos dk buf flip: k_def)
    also have "\<dots> = Some (sz, map (shm_byte obj m) [offset..<offset + sz])"
      using c(2,3) True by (intro less.hyps) (simp_all add: k_def)
    finally show ?thesis .
  qed
qed

lemma frame_apart:
  fixes a b x :: nat
  assumes "PAGE_SIZE dvd a" "PAGE_SIZE dvd b" "a \<noteq> b" "a \<le> x" "x < a + PAGE_SIZE"
  shows "\<not> (b \<le> x \<and> x < b + PAGE_SIZE)"
proof -
  obtain u v where uv: "a = PAGE_SIZE * u" "b = PAGE_SIZE * v" using assms(1,2) by (auto elim!: dvdE)
  have "x div PAGE_SIZE = u" using assms(4,5) uv(1) by (simp add: div_nat_eqI)
  moreover have "x div PAGE_SIZE = v" if "b \<le> x \<and> x < b + PAGE_SIZE" using that uv(2) by (simp add: div_nat_eqI)
  ultimately show ?thesis using assms(3) uv by blast
qed

text \<open>A write inside one page changes these bytes of the object and nothing else.\<close>

lemma shm_byte_write:
  assumes ok: "frames_ok obj" and "pos mod PAGE_SIZE + length bs \<le> PAGE_SIZE" "page_at obj (pos div PAGE_SIZE) = phys"
    "phys \<noteq> 0"
  shows "shm_byte obj (write_mem m (phys + pos mod PAGE_SIZE) bs) i =
    (if pos \<le> i \<and> i < pos + length bs then bs ! (i - pos) else shm_byte obj m i)"
proof (cases "i div PAGE_SIZE = pos div PAGE_SIZE")
  case True
  have "i = pos div PAGE_SIZE * PAGE_SIZE + i mod PAGE_SIZE" "pos = pos div PAGE_SIZE * PAGE_SIZE + pos mod PAGE_SIZE"
    by (metis True div_mult_mod_eq, simp)
  then have "pos \<le> i \<and> i < pos + length bs \<longleftrightarrow> pos mod PAGE_SIZE \<le> i mod PAGE_SIZE \<and> i mod PAGE_SIZE < pos mod PAGE_SIZE + length bs"
    "pos \<le> i \<Longrightarrow> i - pos = i mod PAGE_SIZE - pos mod PAGE_SIZE" by linarith+
  then show ?thesis using True assms(3,4) by (auto simp: shm_byte_def write_mem_def Let_def)
next
  case False
  have "\<not> (pos \<le> i \<and> i < pos + length bs)"
  proof
    assume a: "pos \<le> i \<and> i < pos + length bs"
    then have "pos mod PAGE_SIZE + (i - pos) < PAGE_SIZE" using assms(2) by linarith
    then show False using False in_page(1) [of pos "i - pos"] a by simp
  qed
  moreover have "shm_byte obj (write_mem m (phys + pos mod PAGE_SIZE) bs) i = shm_byte obj m i"
  proof -
    let ?q = "page_at obj (i div PAGE_SIZE)"
    have "?q = 0 \<or> ?q \<noteq> phys" using False ok assms(3,4) by (auto simp: frames_ok_def)
    moreover have "i mod PAGE_SIZE < PAGE_SIZE" by simp
    moreover have "PAGE_SIZE dvd ?q" "PAGE_SIZE dvd phys" using ok assms(3) by (auto simp: frames_ok_def)
    ultimately have "?q = 0 \<or> \<not> (phys \<le> ?q + i mod PAGE_SIZE \<and> ?q + i mod PAGE_SIZE < phys + PAGE_SIZE)"
      using frame_apart [of ?q phys "?q + i mod PAGE_SIZE"] by auto
    then show ?thesis using assms(2) by (auto simp: shm_byte_def write_mem_def Let_def)
  qed
  ultimately show ?thesis by auto
qed

definition in_frames :: "shm_object \<Rightarrow> nat \<Rightarrow> bool" where
  "in_frames obj x \<longleftrightarrow> (\<exists>i. page_at obj i \<noteq> 0 \<and> page_at obj i \<le> x \<and> x < page_at obj i + PAGE_SIZE)"

lemma shm_write_loop_correct:
  assumes "offset + sz + PAGE_SIZE \<le> 2 ^ 32" "d \<le> sz" and ok: "frames_ok obj" and buf: "sz \<le> length buffer"
  shows "\<exists>m'. shm_write_loop obj offset sz buffer d m = Some (sz, m') \<and>
    (\<forall>i. shm_byte obj m' i = (if offset + d \<le> i \<and> i < offset + sz \<and> page_at obj (i div PAGE_SIZE) \<noteq> 0
       then buffer ! (i - offset) else shm_byte obj m i)) \<and>
    (\<forall>x. \<not> in_frames obj x \<longrightarrow> m' x = m x)"
  using assms(2)
proof (induction "sz - d" arbitrary: d m rule: less_induct)
  case less
  show ?case
  proof (cases "d < sz")
    case False
    then show ?thesis using less.prems by (auto simp: shm_write_loop.simps)
  next
    case True
    have pos: "add32 offset d = offset + d" using True assms(1) page_pos by (intro add32_exact) linarith
    have "sz + PAGE_SIZE \<le> 2 ^ 32" using assms(1) by linarith
    note c = copy_len_bounds [OF True this, of "offset + d"]
    define k where "k = copy_len (offset + d) sz d"
    note c = c [folded k_def]
    have dk: "add32 d k = d + k" using c(3) assms(1) page_pos by (intro add32_exact) linarith
    let ?p = "page_at obj ((offset + d) div PAGE_SIZE)" and ?bs = "take k (drop d buffer)"
    define m1 where "m1 = (if ?p \<noteq> 0 then write_mem m (?p + (offset + d) mod PAGE_SIZE) ?bs else m)"
    have len: "length ?bs = k" using c(3) buf by simp
    have step: "shm_write_loop obj offset sz buffer d m = shm_write_loop obj offset sz buffer (d + k) m1"
      using True by (subst shm_write_loop.simps) (simp add: Let_def pos dk m1_def flip: k_def)
    have inpage: "i div PAGE_SIZE = (offset + d) div PAGE_SIZE" if "offset + d \<le> i" "i < offset + d + k" for i
      using in_page(1) [of "offset + d" "i - (offset + d)"] c(4) that by simp
    have b1: "shm_byte obj m1 i = (if offset + d \<le> i \<and> i < offset + (d + k) \<and> page_at obj (i div PAGE_SIZE) \<noteq> 0
        then buffer ! (i - offset) else shm_byte obj m i)" for i
    proof (cases "?p = 0")
      case True
      then show ?thesis using inpage [of i] by (auto simp: m1_def shm_byte_def Let_def)
    next
      case False
      then show ?thesis
        using shm_byte_write [OF ok, of "offset + d" ?bs ?p m i] c(4) len buf c(3) inpage [of i]
        by (auto simp: m1_def add.assoc)
    qed
    have o1: "m1 x = m x" if "\<not> in_frames obj x" for x
    proof (cases "?p = 0")
      case False
      then have "\<not> (?p \<le> x \<and> x < ?p + PAGE_SIZE)" using that by (auto simp: in_frames_def)
      then show ?thesis using len c(4) by (auto simp: m1_def write_mem_def)
    qed (simp add: m1_def)
    obtain m' where m': "shm_write_loop obj offset sz buffer (d + k) m1 = Some (sz, m')"
      "\<And>i. shm_byte obj m' i = (if offset + (d + k) \<le> i \<and> i < offset + sz \<and> page_at obj (i div PAGE_SIZE) \<noteq> 0
         then buffer ! (i - offset) else shm_byte obj m1 i)"
      "\<And>x. \<not> in_frames obj x \<Longrightarrow> m' x = m1 x"
      using less.hyps [of "d + k" m1] c(2,3) diff_less_mono2 [of d "d + k" sz] True by auto
    have "shm_byte obj m' i = (if offset + d \<le> i \<and> i < offset + sz \<and> page_at obj (i div PAGE_SIZE) \<noteq> 0
        then buffer ! (i - offset) else shm_byte obj m i)" for i
      using m'(2) [of i] b1 [of i] c(3) by auto
    then show ?thesis using step m'(1,3) o1 by auto
  qed
qed

section \<open>Slots of pages: a client of the page allocator\<close>

context page_allocator
begin

text \<open>Allocations that go on after a failure (a failed one yields 0), and frees that skip 0.\<close>

fun alloc_slots :: "nat \<Rightarrow> 's \<Rightarrow> 'e + nat list \<times> 's" where
  "alloc_slots 0 s = Inr ([], s)"
| "alloc_slots (Suc n) s =
     (case alloc s of
        Inl e \<Rightarrow> Inl e
      | Inr (a, t) \<Rightarrow> (case alloc_slots n t of Inl e \<Rightarrow> Inl e | Inr (as, u) \<Rightarrow> Inr (a # as, u)))"

fun free_slots :: "nat list \<Rightarrow> 's \<Rightarrow> 'e + 's" where
  "free_slots [] s = Inr s"
| "free_slots (a # as) s =
     (if a \<noteq> 0 then (case free_page a s of Inl e \<Rightarrow> Inl e | Inr t \<Rightarrow> free_slots as t) else free_slots as s)"

lemma alloc_slots_fresh:
  assumes "invar s"
  shows "\<exists>as t. alloc_slots n s = Inr (as, t) \<and> length as = n \<and> invar t \<and> distinct (filter (\<lambda>a. a \<noteq> 0) as) \<and>
    (\<forall>a \<in> set as. a \<noteq> 0 \<longrightarrow> a \<notin> owned s) \<and> owned t = owned s \<union> (set as - {0})"
  using assms
proof (induction n arbitrary: s)
  case (Suc n)
  obtain a u where a: "alloc s = Inr (a, u)" using alloc_total [OF Suc.prems] by blast
  have u: "invar u \<and> owned u = owned s \<union> ({a} - {0}) \<and> (a \<noteq> 0 \<longrightarrow> a \<notin> owned s)"
    using alloc_fail [OF Suc.prems] alloc_page [OF Suc.prems a] a by (cases "a = 0") auto
  then have "invar u" by simp
  from Suc.IH [OF this] obtain as t where t: "alloc_slots n u = Inr (as, t)" "length as = n" "invar t"
    "distinct (filter (\<lambda>a. a \<noteq> 0) as)" "\<forall>a \<in> set as. a \<noteq> 0 \<longrightarrow> a \<notin> owned u" "owned t = owned u \<union> (set as - {0})"
    by (elim exE conjE) (rule that)
  have "alloc_slots (Suc n) s = Inr (a # as, t)" using a t(1) by simp
  moreover have "distinct (filter (\<lambda>a. a \<noteq> 0) (a # as))" using t(4,5) u by auto
  moreover have "\<forall>b \<in> set (a # as). b \<noteq> 0 \<longrightarrow> b \<notin> owned s" using t(5) u by auto
  moreover have "owned t = owned s \<union> (set (a # as) - {0})" using t(6) u by auto
  moreover have "length (a # as) = Suc n" using t(2) by simp
  ultimately show ?case using t(3) by blast
qed auto

lemma free_slots_spec:
  assumes "invar s" "distinct (filter (\<lambda>a. a \<noteq> 0) as)" "\<forall>a \<in> set as. a \<noteq> 0 \<longrightarrow> a \<in> owned s"
  shows "\<exists>t. free_slots as s = Inr t \<and> invar t \<and> owned t = owned s - {a \<in> set as. a \<noteq> 0 \<and> refs s a = 1}"
  using assms
proof (induction as arbitrary: s)
  case (Cons a as)
  show ?case
  proof (cases "a = 0")
    case True
    then have "{b \<in> set (a # as). b \<noteq> 0 \<and> refs s b = 1} = {b \<in> set as. b \<noteq> 0 \<and> refs s b = 1}" by auto
    then show ?thesis using Cons.IH [of s] Cons.prems True by simp
  next
    case False
    then have "a \<in> owned s" using Cons.prems(3) by simp
    from free_ok [OF Cons.prems(1) this False] obtain t where
      t: "free_page a s = Inr t" "invar t" "owned t = (if refs s a = 1 then owned s - {a} else owned s)"
      "\<forall>b \<in> owned s. b \<noteq> a \<longrightarrow> refs t b = refs s b" by blast
    have as: "b \<in> owned s" "b \<noteq> a" if "b \<in> set as" "b \<noteq> 0" for b using Cons.prems(2,3) that False by auto
    then obtain u where u: "free_slots as t = Inr u" "invar u" "owned u = owned t - {b \<in> set as. b \<noteq> 0 \<and> refs t b = 1}"
      using Cons.IH [of t] t Cons.prems(2) False by (auto split: if_splits)
    have "{b \<in> set as. b \<noteq> 0 \<and> refs t b = 1} = {b \<in> set as. b \<noteq> 0 \<and> refs s b = 1}" using t(4) as by auto
    then show ?thesis using u t False by (auto split: if_splits)
  qed
qed auto

end

lemma free_pages_eq: "free_pages as p = pa.free_slots as p"
proof (induction as arbitrary: p)
  case (Cons a as)
  obtain s bc where p: "p = (s, bc)" by fastforce
  show ?case
    unfolding pa.free_slots.simps free_pages.simps Cons.IH p prod.case fst_conv snd_conv
    by (cases "pmm_free_page a s") (simp_all only: map_sum.simps sum.case id_apply)
qed (simp only: pa.free_slots.simps free_pages.simps)

definition zero_frames :: "nat list \<Rightarrow> memory \<Rightarrow> memory" where
  "zero_frames as m = (\<lambda>x. if \<exists>a \<in> set as. a \<noteq> 0 \<and> a \<le> x \<and> x < a + PAGE_SIZE then 0 else m x)"

lemma zero_frames_simps:
  "zero_frames [] m = m"
  "zero_frames as (if a \<noteq> 0 then write_mem m a (replicate PAGE_SIZE 0) else m) = zero_frames (a # as) m"
  by (auto simp: zero_frames_def write_mem_def fun_eq_iff)

lemma grow_pages_eq:
  "grow_pages n m p = (case pa.alloc_slots n p of Inl e \<Rightarrow> Inl e | Inr (as, q) \<Rightarrow> Inr (as, zero_frames as m, q))"
proof (induction n arbitrary: m p)
  case (Suc n)
  show ?case
  proof (cases "pmm_alloc_page p")
    case (Inr ap)
    obtain a q where ap: "ap = (a, q)" by (cases ap)
    show ?thesis
      unfolding grow_pages.simps pa.alloc_slots.simps Inr ap sum.case prod.case Suc.IH
      by (cases "pa.alloc_slots n q") (auto simp only: sum.case zero_frames_simps prod.inject split: prod.splits)
  qed (simp only: grow_pages.simps pa.alloc_slots.simps sum.case)
qed (simp only: grow_pages.simps pa.alloc_slots.simps sum.case prod.case zero_frames_simps)

section \<open>The invariant\<close>

text \<open>Page tables cover the page counts, every frame is owned by the page allocator's client, and no frame is
  used twice, in one object or in two.\<close>

definition shm_inv :: "shmfs \<Rightarrow> bool" where
  "shm_inv s \<longleftrightarrow> pmm_ok (fst (shm_pmm s)) \<and>
     (\<forall>a obj. shm_heap s a = Some obj \<longrightarrow>
        (case so_pages obj of None \<Rightarrow> so_page_count obj = 0 | Some ps \<Rightarrow> so_page_count obj \<le> length ps) \<and>
        (\<forall>i. page_at obj i \<noteq> 0 \<longrightarrow> page_at obj i \<in> owned_addrs (fst (shm_pmm s)))) \<and>
     (\<forall>a b oa ob i j. shm_heap s a = Some oa \<and> shm_heap s b = Some ob \<and> page_at oa i = page_at ob j \<and>
        page_at oa i \<noteq> 0 \<longrightarrow> a = b \<and> i = j)"

lemma shm_inv_table:
  "shm_inv s \<Longrightarrow> shm_heap s a = Some obj \<Longrightarrow>
     (case so_pages obj of None \<Rightarrow> so_page_count obj = 0 | Some ps \<Rightarrow> so_page_count obj \<le> length ps)"
  unfolding shm_inv_def by blast

lemma shm_inv_owned:
  "shm_inv s \<Longrightarrow> shm_heap s a = Some obj \<Longrightarrow> page_at obj i \<noteq> 0 \<Longrightarrow> page_at obj i \<in> owned_addrs (fst (shm_pmm s))"
  unfolding shm_inv_def by blast

lemma shm_inv_apart:
  "shm_inv s \<Longrightarrow> shm_heap s a = Some oa \<Longrightarrow> shm_heap s b = Some ob \<Longrightarrow> page_at oa i = page_at ob j \<Longrightarrow>
     page_at oa i \<noteq> 0 \<Longrightarrow> a = b \<and> i = j"
  unfolding shm_inv_def by blast

lemma owned_aligned: "a \<in> owned_addrs p \<Longrightarrow> PAGE_SIZE dvd a"
  by (auto simp: owned_addrs_def)

lemma shm_inv_frames: "shm_inv s \<Longrightarrow> shm_heap s a = Some obj \<Longrightarrow> frames_ok obj"
  unfolding frames_ok_def using owned_aligned shm_inv_owned shm_inv_apart by (metis dvd_0_right)

text \<open>The pages of an object as a list.\<close>

definition page_list :: "shm_object \<Rightarrow> nat list" where
  "page_list obj = take (so_page_count obj) (case so_pages obj of None \<Rightarrow> [] | Some ps \<Rightarrow> ps)"

lemma page_list_nth:
  assumes "shm_inv s" "shm_heap s a = Some obj"
  shows "length (page_list obj) = so_page_count obj" "page_at obj i = (if i < so_page_count obj then page_list obj ! i else 0)"
  using shm_inv_table [OF assms] by (auto simp: page_list_def page_at_def split: option.splits)

lemma page_list_frames:
  assumes "shm_inv s" "shm_heap s a = Some obj"
  shows "distinct (filter (\<lambda>p. p \<noteq> 0) (page_list obj))"
    "\<forall>p \<in> set (page_list obj). p \<noteq> 0 \<longrightarrow> p \<in> owned_addrs (fst (shm_pmm s))"
proof -
  note n = page_list_nth [OF assms]
  show "\<forall>p \<in> set (page_list obj). p \<noteq> 0 \<longrightarrow> p \<in> owned_addrs (fst (shm_pmm s))"
    using shm_inv_owned [OF assms] n by (metis in_set_conv_nth)
  have inj: "i = j" if "i < so_page_count obj" "j < so_page_count obj" "page_list obj ! i = page_list obj ! j"
    "page_list obj ! i \<noteq> 0" for i j
    using shm_inv_apart [OF assms assms(2), of i j] that n(2) [of i] n(2) [of j] by simp
  have "distinct (filter (\<lambda>p. p \<noteq> 0) xs)"
    if "\<And>i j. i < length xs \<Longrightarrow> j < length xs \<Longrightarrow> xs ! i = xs ! j \<Longrightarrow> xs ! i \<noteq> 0 \<Longrightarrow> i = j" for xs :: "nat list"
    using that
  proof (induction xs)
    case (Cons x xs)
    have "x = 0 \<or> x \<notin> set xs" using Cons.prems [of 0 "Suc _"] by (auto simp: in_set_conv_nth)
    moreover have "distinct (filter (\<lambda>p. p \<noteq> 0) xs)"
      using Cons.prems [of "Suc _" "Suc _"] by (intro Cons.IH) auto
    ultimately show ?case by auto
  qed simp
  then show "distinct (filter (\<lambda>p. p \<noteq> 0) (page_list obj))" using inj n(1) by presburger
qed

lemma pa_free:
  assumes "pmm_ok (fst p)" "distinct (filter (\<lambda>a. a \<noteq> 0) as)" "\<forall>a \<in> set as. a \<noteq> 0 \<longrightarrow> a \<in> owned_addrs (fst p)"
  obtains q where "free_pages as p = Inr q" "pmm_ok (fst q)"
    "owned_addrs (fst q) = owned_addrs (fst p) - {a \<in> set as. a \<noteq> 0 \<and> addr_refs (fst p) a = 1}"
  using pa.free_slots_spec [of p as] assms by (auto simp: free_pages_eq split_def)

lemma pa_grow:
  assumes "pmm_ok (fst p)"
  obtains as q where "grow_pages n m p = Inr (as, zero_frames as m, q)" "length as = n" "pmm_ok (fst q)"
    "distinct (filter (\<lambda>a. a \<noteq> 0) as)" "\<forall>a \<in> set as. a \<noteq> 0 \<longrightarrow> a \<notin> owned_addrs (fst p)"
    "owned_addrs (fst q) = owned_addrs (fst p) \<union> (set as - {0})"
proof -
  have i: "(\<lambda>(s, bc). pmm_ok s) p" using assms by (simp add: split_def)
  from pa.alloc_slots_fresh [OF i, of n] obtain as q where
    a: "pa.alloc_slots n p = Inr (as, q)" "length as = n" "(\<lambda>(s, bc). pmm_ok s) q"
    "distinct (filter (\<lambda>a. a \<noteq> 0) as)" "\<forall>a \<in> set as. a \<noteq> 0 \<longrightarrow> a \<notin> (\<lambda>(s, bc). owned_addrs s) p"
    "(\<lambda>(s, bc). owned_addrs s) q = (\<lambda>(s, bc). owned_addrs s) p \<union> (set as - {0})"
    by (elim exE conjE) (rule that)
  have "grow_pages n m p = Inr (as, zero_frames as m, q)" by (simp only: grow_pages_eq a(1) sum.case prod.case)
  then show thesis using that a(2-) by (simp add: split_def)
qed

lemma nth_filter_inj:
  "distinct (filter P xs) \<Longrightarrow> i < length xs \<Longrightarrow> j < length xs \<Longrightarrow> xs ! i = xs ! j \<Longrightarrow> P (xs ! i) \<Longrightarrow> i = j"
proof (induction xs arbitrary: i j)
  case (Cons x xs)
  have d: "distinct (filter P xs)" "P x \<Longrightarrow> x \<notin> set xs" using Cons.prems(1) by (auto split: if_splits)
  show ?case
  proof (cases "i = 0 \<or> j = 0")
    case True
    then have "(x # xs) ! i = x \<and> (x # xs) ! j = x" using Cons.prems(4) by auto
    then show ?thesis using Cons.prems(2,3,5) d(2) by (cases i; cases j) auto
  next
    case False
    then have "i - 1 = j - 1" using Cons.prems(2-5) by (intro Cons.IH [OF d(1)]) (auto simp: nth_Cons')
    then show ?thesis using False by linarith
  qed
qed simp

text \<open>Replacing one object and the state of the page allocator.\<close>

lemma shm_inv_update:
  assumes inv: "shm_inv s" and q: "pmm_ok (fst q)"
    and tab: "case so_pages obj' of None \<Rightarrow> so_page_count obj' = 0 | Some ps \<Rightarrow> so_page_count obj' \<le> length ps"
    and own: "\<And>i. page_at obj' i \<noteq> 0 \<Longrightarrow> page_at obj' i \<in> owned_addrs (fst q)"
    and inj: "\<And>i j. page_at obj' i = page_at obj' j \<Longrightarrow> page_at obj' i \<noteq> 0 \<Longrightarrow> i = j"
    and oth: "\<And>b ob j. b \<noteq> a \<Longrightarrow> shm_heap s b = Some ob \<Longrightarrow> page_at ob j \<noteq> 0 \<Longrightarrow>
      page_at ob j \<in> owned_addrs (fst q) \<and> (\<forall>i. page_at obj' i \<noteq> page_at ob j)"
  shows "shm_inv (s\<lparr>shm_mem := m, shm_pmm := q, shm_heap := (shm_heap s)(a \<mapsto> obj')\<rparr>)"
proof -
  have A: "(case so_pages ob of None \<Rightarrow> so_page_count ob = 0 | Some ps \<Rightarrow> so_page_count ob \<le> length ps) \<and>
      (\<forall>i. page_at ob i \<noteq> 0 \<longrightarrow> page_at ob i \<in> owned_addrs (fst q))"
    if "((shm_heap s)(a \<mapsto> obj')) b = Some ob" for b ob
    using that tab own oth [of b ob] shm_inv_table [OF inv, of b ob] by (cases "b = a") auto
  have B: "b = c \<and> i = j"
    if "((shm_heap s)(a \<mapsto> obj')) b = Some ob" "((shm_heap s)(a \<mapsto> obj')) c = Some oc" "page_at ob i = page_at oc j"
      "page_at ob i \<noteq> 0" for b c ob oc i j
  proof -
    consider "b = a" "c = a" | "b = a" "c \<noteq> a" | "b \<noteq> a" "c = a" | "b \<noteq> a" "c \<noteq> a" by blast
    then show ?thesis
    proof cases
      case 1
      then show ?thesis using that inj by simp
    next
      case 2
      then show ?thesis using that oth [of c oc j] by simp
    next
      case 3
      then have "page_at obj' j \<noteq> page_at ob i" using that oth [of b ob i] by fastforce
      then show ?thesis using 3 that by simp
    next
      case 4
      then show ?thesis using that shm_inv_apart [OF inv, of b ob c oc i j] by simp
    qed
  qed
  have h: "shm_heap (s\<lparr>shm_mem := m, shm_pmm := q, shm_heap := (shm_heap s)(a \<mapsto> obj')\<rparr>) = (shm_heap s)(a \<mapsto> obj')"
    "shm_pmm (s\<lparr>shm_mem := m, shm_pmm := q, shm_heap := (shm_heap s)(a \<mapsto> obj')\<rparr>) = q" by simp_all
  show ?thesis unfolding shm_inv_def h
    by (intro conjI allI impI; (elim conjE)?) (fact q, use A in blast, use A in blast, use B in blast, use B in blast)
qed

lemma zero_frames_other:
  assumes "\<forall>a \<in> set as. a \<noteq> 0 \<longrightarrow> a \<noteq> p \<and> PAGE_SIZE dvd a" "PAGE_SIZE dvd p"
  shows "zero_frames as m (p + i mod PAGE_SIZE) = m (p + i mod PAGE_SIZE)"
proof -
  have "\<not> (a \<le> p + i mod PAGE_SIZE \<and> p + i mod PAGE_SIZE < a + PAGE_SIZE)" if "a \<in> set as" "a \<noteq> 0" for a
  proof -
    have "p \<noteq> a" "PAGE_SIZE dvd a" using assms(1) that by blast+
    then show ?thesis using frame_apart [of p a "p + i mod PAGE_SIZE"] assms(2) by simp
  qed
  then show ?thesis by (auto simp: zero_frames_def)
qed

text \<open>What a resize must do to an object: \<open>keep\<close> pages stay, the others are new.\<close>

definition resized :: "nat \<Rightarrow> nat \<Rightarrow> shmfs \<Rightarrow> shm_object \<Rightarrow> shmfs \<Rightarrow> bool" where
  "resized a len s obj t \<longleftrightarrow> shm_inv t \<and> shm_objects t = shm_objects s \<and>
     (\<exists>obj'. shm_heap t = (shm_heap s)(a \<mapsto> obj') \<and> so_name obj' = so_name obj \<and> so_size obj' = len \<and>
        so_page_count obj' = (len + PAGE_SIZE - 1) div PAGE_SIZE \<and>
        (\<forall>i < len. shm_byte obj' (shm_mem t) i =
           (if i div PAGE_SIZE < so_page_count obj then shm_byte obj (shm_mem s) i else 0)) \<and>
        (\<forall>i \<ge> so_page_count obj'. page_at obj i \<noteq> 0 \<and> addr_refs (fst (shm_pmm s)) (page_at obj i) = 1 \<longrightarrow>
           page_at obj i \<notin> owned_addrs (fst (shm_pmm t)))) \<and>
     (\<forall>b ob i. b \<noteq> a \<and> shm_heap s b = Some ob \<longrightarrow> shm_byte ob (shm_mem t) i = shm_byte ob (shm_mem s) i)"

lemma page_of_byte: "i < len \<Longrightarrow> i div PAGE_SIZE < (len + PAGE_SIZE - 1) div PAGE_SIZE"
  by (simp add: PAGE_SIZE_def)

lemma shm_grow:
  assumes inv: "shm_inv s" and obj: "shm_heap s a = Some obj" and n: "n = (len + PAGE_SIZE - 1) div PAGE_SIZE" "so_page_count obj < n"
    and g: "length as = n - so_page_count obj" "pmm_ok (fst q)" "distinct (filter (\<lambda>a. a \<noteq> 0) as)"
    "\<forall>a \<in> set as. a \<noteq> 0 \<longrightarrow> a \<notin> owned_addrs (fst (shm_pmm s))"
    "owned_addrs (fst q) = owned_addrs (fst (shm_pmm s)) \<union> (set as - {0})"
    and t: "t = s\<lparr>shm_mem := zero_frames as (shm_mem s), shm_pmm := q,
      shm_heap := (shm_heap s)(a \<mapsto> obj\<lparr>so_pages := Some (page_list obj @ as), so_page_count := n, so_size := len\<rparr>)\<rparr>"
  shows "resized a len s obj t"
proof -
  let ?o = "obj\<lparr>so_pages := Some (page_list obj @ as), so_page_count := n, so_size := len\<rparr>" and ?c = "so_page_count obj"
  note pl = page_list_nth [OF inv obj]
  have at: "page_at ?o i = (if i < ?c then page_at obj i else if i < n then as ! (i - ?c) else 0)" for i
    using n(2) pl by (simp add: page_at_def nth_append pl(2) [unfolded page_at_def])
  have new: "as ! (i - ?c) \<in> set as" if "\<not> i < ?c" "i < n" for i using that g(1) by simp
  have al: "\<forall>x \<in> set as. x \<noteq> 0 \<longrightarrow> PAGE_SIZE dvd x" using g(5) owned_aligned by blast
  have keep: "zero_frames as (shm_mem s) (p + k mod PAGE_SIZE) = shm_mem s (p + k mod PAGE_SIZE)"
    if "p \<in> owned_addrs (fst (shm_pmm s))" for p k
    using zero_frames_other [of as p] g(4) al owned_aligned [OF that] that by blast
  have "shm_inv (s\<lparr>shm_mem := zero_frames as (shm_mem s), shm_pmm := q, shm_heap := (shm_heap s)(a \<mapsto> ?o)\<rparr>)"
  proof (rule shm_inv_update [OF inv g(2)])
    show "case so_pages ?o of None \<Rightarrow> so_page_count ?o = 0 | Some ps \<Rightarrow> so_page_count ?o \<le> length ps"
      using g(1) pl(1) n(2) by simp
    show "page_at ?o i \<in> owned_addrs (fst q)" if "page_at ?o i \<noteq> 0" for i
      using that shm_inv_owned [OF inv obj, of i] new [of i] g(5) by (auto simp: at split: if_splits)
    show "i = j" if "page_at ?o i = page_at ?o j" "page_at ?o i \<noteq> 0" for i j
    proof (cases "i < ?c \<longleftrightarrow> j < ?c")
      case True
      have "i - ?c = j - ?c" if "\<not> i < ?c" "\<not> j < ?c" "i < n" "j < n"
        using nth_filter_inj [OF g(3), of "i - ?c" "j - ?c"] that \<open>page_at ?o i = page_at ?o j\<close>
          \<open>page_at ?o i \<noteq> 0\<close> g(1) by (auto simp: at)
      then show ?thesis using True that shm_inv_apart [OF inv obj obj, of i j] by (auto simp: at split: if_splits)
    next
      case False
      then show ?thesis using that new [of i] new [of j] g(4) shm_inv_owned [OF inv obj, of i] shm_inv_owned [OF inv obj, of j]
        by (auto simp: at split: if_splits)
    qed
    show "page_at ob j \<in> owned_addrs (fst q) \<and> (\<forall>i. page_at ?o i \<noteq> page_at ob j)"
      if "b \<noteq> a" "shm_heap s b = Some ob" "page_at ob j \<noteq> 0" for b ob j
    proof -
      have ow: "page_at ob j \<in> owned_addrs (fst (shm_pmm s))" using shm_inv_owned [OF inv that(2,3)] .
      have "page_at ?o i \<noteq> page_at ob j" for i
        using new [of i] g(4) ow that(1,3) shm_inv_apart [OF inv that(2) obj, of j i] by (auto simp: at)
      then show ?thesis using ow g(5) by simp
    qed
  qed
  then have it: "shm_inv t" by (simp add: t)
  have bytes: "shm_byte ?o (zero_frames as (shm_mem s)) i = (if i div PAGE_SIZE < ?c then shm_byte obj (shm_mem s) i else 0)"
    if "i < len" for i
  proof (cases "i div PAGE_SIZE < ?c")
    case True
    then show ?thesis using keep [OF shm_inv_owned [OF inv obj, of "i div PAGE_SIZE"], of i]
      by (auto simp: shm_byte_def at Let_def)
  next
    case False
    let ?p = "as ! (i div PAGE_SIZE - ?c)"
    have lt: "i div PAGE_SIZE < n" using page_of_byte [OF that] n(1) by simp
    have "i mod PAGE_SIZE < PAGE_SIZE" by simp
    then have "?p \<noteq> 0 \<longrightarrow> zero_frames as (shm_mem s) (?p + i mod PAGE_SIZE) = 0"
      using new [OF False lt] unfolding zero_frames_def by (metis add_less_cancel_left le_add1)
    then show ?thesis using False lt by (simp add: shm_byte_def at Let_def)
  qed
  have oth: "shm_byte ob (zero_frames as (shm_mem s)) i = shm_byte ob (shm_mem s) i" if "shm_heap s b = Some ob" for b ob i
    using keep [OF shm_inv_owned [OF inv that, of "i div PAGE_SIZE"], of i] by (auto simp: shm_byte_def Let_def)
  have "page_at obj i = 0" if "n \<le> i" for i using that n(2) pl(2) [of i] by simp
  then show ?thesis unfolding resized_def using it bytes oth n(1) by (auto simp: t)
qed

lemma shm_shrink:
  assumes inv: "shm_inv s" and obj: "shm_heap s a = Some obj" and n: "n = (len + PAGE_SIZE - 1) div PAGE_SIZE" "n \<le> so_page_count obj"
    and g: "pmm_ok (fst q)"
    "owned_addrs (fst q) = owned_addrs (fst (shm_pmm s)) -
       {p \<in> set (drop n (page_list obj)). p \<noteq> 0 \<and> addr_refs (fst (shm_pmm s)) p = 1}"
    and o: "so_name obj' = so_name obj" "so_size obj' = len" "so_page_count obj' = n"
      "\<And>i. page_at obj' i = (if i < n then page_at obj i else 0)"
      "case so_pages obj' of None \<Rightarrow> so_page_count obj' = 0 | Some ps \<Rightarrow> so_page_count obj' \<le> length ps"
    and t: "t = s\<lparr>shm_mem := shm_mem s, shm_pmm := q, shm_heap := (shm_heap s)(a \<mapsto> obj')\<rparr>"
  shows "resized a len s obj t"
proof -
  let ?c = "so_page_count obj"
  note pl = page_list_nth [OF inv obj]
  have dropped: "\<exists>j. n \<le> j \<and> j < ?c \<and> page_at obj j = p" if "p \<in> set (drop n (page_list obj))" for p
  proof -
    obtain k where "k < length (drop n (page_list obj))" "drop n (page_list obj) ! k = p"
      using \<open>p \<in> set (drop n (page_list obj))\<close> by (meson in_set_conv_nth)
    then show ?thesis using pl n(2) by (intro exI [of _ "n + k"]) simp
  qed
  have "shm_inv (s\<lparr>shm_mem := shm_mem s, shm_pmm := q, shm_heap := (shm_heap s)(a \<mapsto> obj')\<rparr>)"
  proof (rule shm_inv_update [OF inv g(1) o(5)])
    show "page_at obj' i \<in> owned_addrs (fst q)" if "page_at obj' i \<noteq> 0" for i
    proof -
      have i: "i < n" "page_at obj i \<noteq> 0" "page_at obj' i = page_at obj i" using that o(4) by (auto split: if_splits)
      have "page_at obj i \<notin> set (drop n (page_list obj))"
        using dropped shm_inv_apart [OF inv obj obj, of i] i by (metis leD)
      then show ?thesis using shm_inv_owned [OF inv obj i(2)] i(3) g(2) by simp
    qed
    show "i = j" if "page_at obj' i = page_at obj' j" "page_at obj' i \<noteq> 0" for i j
      using that o(4) shm_inv_apart [OF inv obj obj, of i j] by (auto split: if_splits)
    show "page_at ob j \<in> owned_addrs (fst q) \<and> (\<forall>i. page_at obj' i \<noteq> page_at ob j)"
      if "b \<noteq> a" "shm_heap s b = Some ob" "page_at ob j \<noteq> 0" for b ob j
    proof -
      have ne: "page_at obj i \<noteq> page_at ob j" for i using that shm_inv_apart [OF inv that(2) obj, of j i] by auto
      then have "page_at ob j \<notin> set (drop n (page_list obj))" using dropped by metis
      then show ?thesis using ne that(3) o(4) shm_inv_owned [OF inv that(2,3)] g(2) by auto
    qed
  qed
  then have it: "shm_inv t" by (simp only: t)
  have bytes: "shm_byte obj' (shm_mem s) i = (if i div PAGE_SIZE < ?c then shm_byte obj (shm_mem s) i else 0)" if "i < len" for i
    using page_of_byte [OF that] n o(4) by (simp add: shm_byte_def Let_def)
  have "page_at obj i \<notin> owned_addrs (fst q)" if "n \<le> i" "page_at obj i \<noteq> 0" "addr_refs (fst (shm_pmm s)) (page_at obj i) = 1" for i
  proof -
    have i: "i < ?c" "page_at obj i = page_list obj ! i" using pl(2) [of i] that(2) by (auto split: if_splits)
    then have "page_at obj i = drop n (page_list obj) ! (i - n)" "i - n < length (drop n (page_list obj))"
      using that(1) pl(1) by simp_all
    then have "page_at obj i \<in> set (drop n (page_list obj))" by (metis nth_mem)
    then show ?thesis using g(2) that by simp
  qed
  then show ?thesis unfolding resized_def using it bytes n(1) o(1-3) by (auto simp: t)
qed

section \<open>Properties\<close>

text \<open>C36: a read returns what the last write stored. On an object whose pages are present, a write of a buffer
  inside the object's size is read back as it was written, reads outside the written range are unchanged, the
  memory outside the object's frames is untouched, and both loops end.\<close>
theorem shmfs_read_after_write:
  assumes "shm_inv s" "shm_heap s (sn_impl n) = Some obj" "sn_impl n \<noteq> 0" "so_size obj + PAGE_SIZE \<le> 2 ^ 32"
    and "\<forall>i < so_size obj. page_at obj (i div PAGE_SIZE) \<noteq> 0" "offset + sz \<le> so_size obj" "length buffer = sz"
  shows "\<exists>t. shmfs_write (Some n) offset sz (Some buffer) s = Inr (Some (int sz, t)) \<and>
    shmfs_read (Some n) offset sz True t = Inr (Some (int sz, buffer)) \<and>
    (\<forall>off' sz'. off' + sz' \<le> so_size obj \<and> (off' + sz' \<le> offset \<or> offset + sz \<le> off') \<longrightarrow>
       shmfs_read (Some n) off' sz' True t = shmfs_read (Some n) off' sz' True s) \<and>
    (\<exists>m. t = s\<lparr>shm_mem := m\<rparr> \<and> (\<forall>x. \<not> in_frames obj x \<longrightarrow> m x = shm_mem s x))"
proof -
  have ok: "frames_ok obj" using shm_inv_frames assms(1,2) .
  have lim: "off' + sz' + PAGE_SIZE \<le> 2 ^ 32" if "off' + sz' \<le> so_size obj" for off' sz' using assms(4) that by linarith
  have add: "add32 off' sz' = off' + sz'" if "off' + sz' \<le> so_size obj" for off' sz'
    using lim [OF that] page_pos by (intro add32_exact) linarith
  have rd: "shmfs_read (Some n) off' sz' True t = Inr (Some (int sz', map (shm_byte obj (shm_mem t)) [off'..<off' + sz']))"
    if "off' + sz' \<le> so_size obj" "shm_heap t = shm_heap s" for off' sz' t
    using shm_read_loop_correct [OF lim [OF that(1)], of 0 obj "shm_mem t"] assms(2,3) that add [OF that(1)]
    by (auto simp: shmfs_read_def node_object_def Let_def)
  obtain m where m: "shm_write_loop obj offset sz buffer 0 (shm_mem s) = Some (sz, m)"
    "\<And>i. shm_byte obj m i = (if offset \<le> i \<and> i < offset + sz \<and> page_at obj (i div PAGE_SIZE) \<noteq> 0
       then buffer ! (i - offset) else shm_byte obj (shm_mem s) i)"
    "\<forall>x. \<not> in_frames obj x \<longrightarrow> m x = shm_mem s x"
    using shm_write_loop_correct [OF lim [OF assms(6)] _ ok, of 0 buffer "shm_mem s"] assms(7) by auto
  let ?t = "s\<lparr>shm_mem := m\<rparr>"
  have "map (shm_byte obj m) [offset..<offset + sz] = buffer"
    using m(2) assms(5,6,7) by (intro nth_equalityI) auto
  then have "shmfs_read (Some n) offset sz True ?t = Inr (Some (int sz, buffer))" using rd [OF assms(6), of ?t] by simp
  moreover have "shmfs_read (Some n) off' sz' True ?t = shmfs_read (Some n) off' sz' True s"
    if "off' + sz' \<le> so_size obj" "off' + sz' \<le> offset \<or> offset + sz \<le> off'" for off' sz'
    using rd [OF that(1), of ?t] rd [OF that(1), of s] m(2) that by auto
  moreover have "shmfs_write (Some n) offset sz (Some buffer) s = Inr (Some (int sz, ?t))"
    using m(1) assms(2,3,6) add [OF assms(6)] by (simp add: shmfs_write_def node_object_def Let_def)
  ultimately show ?thesis using m(3) by blast
qed


lemma page_count_of_exact: "len + PAGE_SIZE < 2 ^ 32 \<Longrightarrow> page_count_of len = (len + PAGE_SIZE - 1) div PAGE_SIZE"
  unfolding page_count_of_def by (subst sub32_exact; simp add: wrap_simps PAGE_SIZE_def)

text \<open>resizing an object succeeds when the new page table can be allocated, keeps the invariant (no frame
  used twice, all frames owned), gives the object exactly the pages its length needs, keeps the bytes of the pages it
  already had, reads as zero in the new pages, returns every dropped page that nobody else references to the page
  allocator, and changes no byte of any other object.\<close>
lemma shmfs_truncate_correct:
  assumes "shm_inv s" "shm_heap s (sn_impl n) = Some obj" "sn_impl n \<noteq> 0" "len + PAGE_SIZE < 2 ^ 32"
  shows "\<exists>t. shmfs_truncate True (Some n) len s = Inr (0, Some (n\<lparr>sn_length := len\<rparr>), t) \<and>
    resized (sn_impl n) len s obj t"
proof -
  let ?c = "so_page_count obj" and ?n = "(len + PAGE_SIZE - 1) div PAGE_SIZE"
  have no: "node_object (Some n) s = Inr (Some obj)" using assms(2,3) by (simp add: node_object_def)
  note pc = page_count_of_exact [OF assms(4)]
  have ok: "pmm_ok (fst (shm_pmm s))" using assms(1) by (simp add: shm_inv_def)
  consider "?c < ?n" | "?n < ?c" | "?n = ?c" by linarith
  then show ?thesis
  proof cases
    case 1
    obtain as q where g: "grow_pages (?n - ?c) (shm_mem s) (shm_pmm s) = Inr (as, zero_frames as (shm_mem s), q)"
      "length as = ?n - ?c" "pmm_ok (fst q)" "distinct (filter (\<lambda>a. a \<noteq> 0) as)"
      "\<forall>a \<in> set as. a \<noteq> 0 \<longrightarrow> a \<notin> owned_addrs (fst (shm_pmm s))"
      "owned_addrs (fst q) = owned_addrs (fst (shm_pmm s)) \<union> (set as - {0})"
      using pa_grow [OF ok] .
    show ?thesis
      using shm_grow [OF assms(1,2) refl 1 g(2-6) refl] 1 g(1)
      by (simp add: shmfs_truncate_def no pc Let_def page_list_def del: resized_def)
  next
    case 2
    let ?old = "case so_pages obj of None \<Rightarrow> [] | Some ps \<Rightarrow> ps"
    let ?o = "obj\<lparr>so_pages := Some (take ?n ?old @ replicate (?c - ?n) 0 @ drop ?c ?old), so_page_count := ?n, so_size := len\<rparr>"
    note pl = page_list_nth [OF assms(1,2)] page_list_frames [OF assms(1,2)]
    have "distinct (filter (\<lambda>a. a \<noteq> 0) (drop ?n (page_list obj)))"
      using pl(3) by (metis append_take_drop_id distinct_append filter_append)
    then obtain q where g: "free_pages (drop ?n (page_list obj)) (shm_pmm s) = Inr q" "pmm_ok (fst q)"
      "owned_addrs (fst q) = owned_addrs (fst (shm_pmm s)) -
        {a \<in> set (drop ?n (page_list obj)). a \<noteq> 0 \<and> addr_refs (fst (shm_pmm s)) a = 1}"
      using pl(4) by (elim pa_free [OF ok]) (meson in_set_dropD)
    have len: "?c \<le> length ?old" using pl(1) by (simp add: page_list_def)
    have "page_at ?o i = (if i < ?n then page_at obj i else 0)" for i
      using 2 len pl(2) [of i] by (simp add: page_at_def nth_append page_list_def)
    moreover have "case so_pages ?o of None \<Rightarrow> so_page_count ?o = 0 | Some ps \<Rightarrow> so_page_count ?o \<le> length ps"
      using 2 len by simp
    moreover have "shmfs_truncate True (Some n) len s = Inr (0, Some (n\<lparr>sn_length := len\<rparr>),
        s\<lparr>shm_mem := shm_mem s, shm_pmm := q, shm_heap := (shm_heap s)(sn_impl n \<mapsto> ?o)\<rparr>)"
      using 2 g(1) by (simp add: shmfs_truncate_def no pc Let_def page_list_def)
    ultimately show ?thesis
      using shm_shrink [OF assms(1,2) refl _ g(2,3), where obj' = ?o] 2 by simp
  next
    case 3
    let ?o = "obj\<lparr>so_size := len\<rparr>"
    have pl: "page_list obj = drop 0 (page_list obj)" "length (page_list obj) = ?c"
      using page_list_nth [OF assms(1,2)] by simp_all
    have "page_at ?o i = (if i < ?n then page_at obj i else 0)" for i
    proof -
      have "page_at ?o i = page_at obj i" by (simp add: page_at_def split: option.split)
      then show ?thesis using 3 page_list_nth(2) [OF assms(1,2), of i] by auto
    qed
    moreover have "case so_pages ?o of None \<Rightarrow> so_page_count ?o = 0 | Some ps \<Rightarrow> so_page_count ?o \<le> length ps"
      using shm_inv_table [OF assms(1,2)] by (simp split: option.splits)
    moreover have "shmfs_truncate True (Some n) len s = Inr (0, Some (n\<lparr>sn_length := len\<rparr>),
        s\<lparr>shm_mem := shm_mem s, shm_pmm := shm_pmm s, shm_heap := (shm_heap s)(sn_impl n \<mapsto> ?o)\<rparr>)"
      using 3 by (simp add: shmfs_truncate_def no pc Let_def)
    ultimately show ?thesis
      using shm_shrink [OF assms(1,2) refl _ ok, where obj' = ?o] 3 pl by simp
  qed
qed

section \<open>The directory\<close>

text \<open>Listed objects exist, once each, and have different names.\<close>

definition shm_name :: "shmfs \<Rightarrow> nat \<Rightarrow> string" where
  "shm_name s a = so_name (the (shm_heap s a))"

definition dir_ok :: "shmfs \<Rightarrow> bool" where
  "dir_ok s \<longleftrightarrow> distinct (shm_objects s) \<and> set (shm_objects s) \<subseteq> dom (shm_heap s) \<and>
     inj_on (shm_name s) (set (shm_objects s))"

lemma shm_find_iff:
  assumes "dir_ok s"
  shows "shm_find_object nm s = Some a \<longleftrightarrow> a \<in> set (shm_objects s) \<and> shm_name s a = nm"
proof -
  let ?P = "\<lambda>a. case shm_heap s a of None \<Rightarrow> False | Some obj \<Rightarrow> so_name obj = nm"
  have P: "?P x \<longleftrightarrow> shm_name s x = nm" if "x \<in> set (shm_objects s)" for x
    using assms that by (auto simp: dir_ok_def shm_name_def)
  show ?thesis
  proof
    assume "shm_find_object nm s = Some a"
    from find_SomeD [OF this [unfolded shm_find_object_def]] show "a \<in> set (shm_objects s) \<and> shm_name s a = nm"
      using P by blast
  next
    assume a: "a \<in> set (shm_objects s) \<and> shm_name s a = nm"
    have "y = a" if "y \<in> set (shm_objects s)" "?P y" for y
    proof -
      have "shm_name s y = nm" using P [OF that(1)] that(2) by blast
      then show ?thesis using assms a that(1) unfolding dir_ok_def inj_on_def by metis
    qed
    then show "shm_find_object nm s = Some a" unfolding shm_find_object_def using a P by (intro find_unique) blast+
  qed
qed

lemma shm_find_eqI:
  assumes "dir_ok s" "\<And>a. f = Some a \<longleftrightarrow> a \<in> set (shm_objects s) \<and> shm_name s a = nm"
  shows "shm_find_object nm s = f"
  by (rule option_eqI) (simp only: assms(2) shm_find_iff [OF assms(1)])

lemma shm_create_dir:
  assumes "dir_ok s" "shm_find_object nm s = None" "shm_heap s a = None" "nm \<noteq> []" "length nm < 128"
  shows "fst (shmfs_create (Some a) (Some nm) s) = 0" "dir_ok (snd (shmfs_create (Some a) (Some nm) s))"
    "(\<lambda>x. shm_find_object x (snd (shmfs_create (Some a) (Some nm) s))) = (\<lambda>x. shm_find_object x s)(nm \<mapsto> a)"
proof -
  let ?t = "snd (shmfs_create (Some a) (Some nm) s)"
  have t: "fst (shmfs_create (Some a) (Some nm) s) = 0" "shm_objects ?t = a # shm_objects s"
    "shm_name ?t a = nm" "\<And>b. b \<noteq> a \<Longrightarrow> shm_name ?t b = shm_name s b" "dom (shm_heap ?t) = insert a (dom (shm_heap s))"
    using assms(2,4,5) by (auto simp: shmfs_create_def shm_create_object_def Let_def shm_name_def strlcpy_buf_def)
  have na: "a \<notin> set (shm_objects s)" using assms(1,3) by (auto simp: dir_ok_def)
  have nn: "shm_name s b \<noteq> nm" if "b \<in> set (shm_objects s)" for b
    using assms(2) shm_find_iff [OF assms(1), of nm b] that by auto
  have nt: "shm_name ?t b = shm_name s b" if "b \<in> set (shm_objects s)" for b using na that t(4) by metis
  have "inj_on (shm_name ?t) (insert a (set (shm_objects s)))"
    using assms(1) nn nt t(3) na unfolding dir_ok_def inj_on_def by (metis insert_iff)
  then show ok: "dir_ok ?t" using assms(1) na t by (auto simp: dir_ok_def)
  show "(\<lambda>x. shm_find_object x ?t) = (\<lambda>x. shm_find_object x s)(nm \<mapsto> a)"
  proof
    fix x
    show "shm_find_object x ?t = ((\<lambda>x. shm_find_object x s)(nm \<mapsto> a)) x"
      using nn nt t(2,3) na shm_find_iff [OF assms(1), of x] by (intro shm_find_eqI [OF ok]) (auto split: if_splits)
  qed
  show "fst (shmfs_create (Some a) (Some nm) s) = 0" using t(1) .
qed

lemma shm_remove_dir:
  assumes "dir_ok s" "shm_objects t = remove1 a (shm_objects s)" "a \<in> set (shm_objects s)" "shm_heap t = (shm_heap s)(a := x)"
  shows "dir_ok t" "(\<lambda>x. shm_find_object x t) = (\<lambda>x. shm_find_object x s)(shm_name s a := None)"
proof -
  have st: "set (shm_objects t) = set (shm_objects s) - {a}" "distinct (shm_objects t)"
    using assms(1,2) by (auto simp: dir_ok_def)
  have nt: "shm_name t b = shm_name s b" if "b \<noteq> a" for b using that assms(4) by (simp add: shm_name_def)
  have inj: "inj_on (shm_name s) (set (shm_objects s))" using assms(1) by (simp add: dir_ok_def)
  have "inj_on (shm_name t) (set (shm_objects s) - {a})"
    using inj nt unfolding inj_on_def by (metis DiffD1 DiffD2 singletonI)
  then show ok: "dir_ok t" using assms(1,4) st by (auto simp: dir_ok_def)
  show "(\<lambda>x. shm_find_object x t) = (\<lambda>x. shm_find_object x s)(shm_name s a := None)"
  proof
    fix y
    show "shm_find_object y t = ((\<lambda>x. shm_find_object x s)(shm_name s a := None)) y"
      using st(1) nt shm_find_iff [OF assms(1), of y] inj_onD [OF inj, of _ a] assms(3)
      by (intro shm_find_eqI [OF ok]) auto
  qed
qed

lemma shm_free_object_ok:
  assumes "shm_inv s" "shm_heap s a = Some obj"
  obtains t where "shm_free_object a s = Inr t" "shm_objects t = remove1 a (shm_objects s)"
    "shm_heap t = (shm_heap s)(a := None)"
proof (cases "so_pages obj")
  case None
  then show ?thesis using that assms(2) by (simp add: shm_free_object_def Let_def)
next
  case (Some ps)
  have "pmm_ok (fst (shm_pmm s))" using assms(1) by (simp add: shm_inv_def)
  from pa_free [OF this page_list_frames [OF assms]] obtain q where
    "free_pages (page_list obj) (shm_pmm s) = Inr q" .
  then show ?thesis using that assms(2) Some by (simp add: shm_free_object_def Let_def page_list_def)
qed

lemma shm_rename_dir:
  assumes ok: "dir_ok s" and f: "shm_find_object old s = Some a" and "old \<noteq> new" "length new < 128"
    and rc: "\<forall>b obj. shm_heap s b = Some obj \<longrightarrow> so_ref_count obj \<noteq> 0"
  shows "\<exists>t. shmfs_rename (Some old) (Some new) s = Inr (0, t) \<and> dir_ok t \<and>
    (\<lambda>x. shm_find_object x t) = (\<lambda>x. shm_find_object x s)(old := None, new \<mapsto> a)"
proof -
  have a: "a \<in> set (shm_objects s)" "shm_name s a = old" using shm_find_iff [OF ok, of old a] f by simp_all
  then obtain obj where obj: "shm_heap s a = Some obj" using ok by (auto simp: dir_ok_def)
  have "\<exists>u. dir_ok u \<and> shm_heap u = shm_heap s \<and> a \<in> set (shm_objects u) \<and>
      (\<lambda>x. shm_find_object x u) = (\<lambda>x. shm_find_object x s)(new := None) \<and>
      shmfs_rename (Some old) (Some new) s = Inr (0, u\<lparr>shm_heap := (shm_heap u)(a \<mapsto> obj\<lparr>so_name := strlcpy_buf 128 new\<rparr>)\<rparr>)"
  proof (cases "shm_find_object new s")
    case None
    then have "(\<lambda>x. shm_find_object x s) = (\<lambda>x. shm_find_object x s)(new := None)" by auto
    then show ?thesis using ok a(1) obj f None by (intro exI [of _ s]) (simp add: shmfs_rename_def)
  next
    case (Some b)
    let ?u = "s\<lparr>shm_objects := remove1 b (shm_objects s)\<rparr>"
    have b: "b \<in> set (shm_objects s)" "shm_name s b = new" using shm_find_iff [OF ok, of new b] Some by simp_all
    have ne: "a \<noteq> b" using a(2) b(2) assms(3) by blast
    have "shm_heap ?u = (shm_heap s)(b := shm_heap s b)" by simp
    from shm_remove_dir [OF ok _ b(1) this] b(2) have
      "dir_ok ?u" "(\<lambda>x. shm_find_object x ?u) = (\<lambda>x. shm_find_object x s)(new := None)" by simp_all
    moreover have "b \<in> dom (shm_heap s)" using ok b(1) by (auto simp: dir_ok_def)
    then have "so_ref_count (the (shm_heap s b)) \<noteq> 0" using rc by auto
    ultimately show ?thesis using a(1) ne obj f Some
      by (intro exI [of _ ?u]) (simp add: shmfs_rename_def Let_def)
  qed
  then obtain u where u: "dir_ok u" "shm_heap u = shm_heap s" "a \<in> set (shm_objects u)"
    "(\<lambda>x. shm_find_object x u) = (\<lambda>x. shm_find_object x s)(new := None)"
    "shmfs_rename (Some old) (Some new) s = Inr (0, u\<lparr>shm_heap := (shm_heap u)(a \<mapsto> obj\<lparr>so_name := strlcpy_buf 128 new\<rparr>)\<rparr>)"
    by blast
  let ?t = "u\<lparr>shm_heap := (shm_heap u)(a \<mapsto> obj\<lparr>so_name := strlcpy_buf 128 new\<rparr>)\<rparr>"
  have nm: "shm_name ?t a = new" "\<And>b. b \<noteq> a \<Longrightarrow> shm_name ?t b = shm_name u b" "shm_name u a = old"
    using assms(4) a(2) u(2) by (simp_all add: shm_name_def strlcpy_buf_def)
  have nn: "shm_name u b \<noteq> new" if "b \<in> set (shm_objects u)" for b
    using shm_find_iff [OF u(1), of new b] fun_cong [OF u(4), of new] that by auto
  have inj: "inj_on (shm_name u) (set (shm_objects u))" using u(1) by (simp add: dir_ok_def)
  have "inj_on (shm_name ?t) (set (shm_objects u))" using inj nm nn u(3) unfolding inj_on_def by metis
  then have ok': "dir_ok ?t" using u(1,3) by (auto simp: dir_ok_def)
  have "shm_find_object x ?t = ((\<lambda>x. shm_find_object x s)(old := None, new \<mapsto> a)) x" for x
  proof (rule shm_find_eqI [OF ok'])
    fix b
    have uniq: "shm_name u b = old \<longleftrightarrow> b = a" if "b \<in> set (shm_objects u)"
      using inj_onD [OF inj, of b a] nm(3) u(3) that by auto
    have "x \<noteq> new \<Longrightarrow> shm_find_object x s = Some b \<longleftrightarrow> b \<in> set (shm_objects u) \<and> shm_name u b = x"
      using fun_cong [OF u(4), of x] shm_find_iff [OF u(1), of x b] by simp
    then show "((\<lambda>x. shm_find_object x s)(old := None, new \<mapsto> a)) x = Some b \<longleftrightarrow>
        b \<in> set (shm_objects ?t) \<and> shm_name ?t b = x"
      using uniq nm(1,3) nm(2) [of b] nn [of b] u(3) assms(3) by (cases "b = a") auto
  qed
  then show ?thesis using u(5) ok' by blast
qed

lemma shm_rename_self:
  assumes ok: "dir_ok s" and f: "shm_find_object nm s = Some a"
    and rc: "\<forall>b obj. shm_heap s b = Some obj \<longrightarrow> so_ref_count obj \<noteq> 0"
  shows "\<exists>t. shmfs_rename (Some nm) (Some nm) s = Inr (0, t) \<and> shm_find_object nm t = None"
proof -
  have a: "a \<in> set (shm_objects s)" "shm_name s a = nm" using shm_find_iff [OF ok, of nm a] f by simp_all
  then obtain obj where obj: "shm_heap s a = Some obj" using ok by (auto simp: dir_ok_def)
  let ?t = "s\<lparr>shm_objects := remove1 a (shm_objects s), shm_heap := (shm_heap s)(a \<mapsto> obj\<lparr>so_name := strlcpy_buf 128 nm\<rparr>)\<rparr>"
  have "shm_find_object nm ?t = None"
    using fun_cong [OF shm_remove_dir(2) [OF ok _ a(1), of ?t], of _ nm] a(2) by simp
  moreover have "shmfs_rename (Some nm) (Some nm) s = Inr (0, ?t)"
  proof -
    have "so_ref_count obj \<noteq> 0" using rc obj by blast
    then show ?thesis using f obj by (simp add: shmfs_rename_def Let_def)
  qed
  ultimately show ?thesis by blast
qed

text \<open>the directory is a finite map from names to objects. Creating a new name adds exactly that entry,
  unlinking removes exactly the entry, and renaming to a different name moves the entry and replaces what the new
  name stood for; no other entry changes. Renaming a file to its own name, however, removes it from the
  directory.\<close>
lemma shmfs_directory:
  assumes "shm_inv s" "dir_ok s" "\<forall>b obj. shm_heap s b = Some obj \<longrightarrow> so_ref_count obj \<noteq> 0"
  shows "(\<forall>nm a. shm_find_object nm s = None \<and> shm_heap s a = None \<and> nm \<noteq> [] \<and> length nm < 128 \<longrightarrow>
      (\<exists>t. shmfs_create (Some a) (Some nm) s = (0, t) \<and> dir_ok t \<and>
         (\<lambda>x. shm_find_object x t) = (\<lambda>x. shm_find_object x s)(nm \<mapsto> a))) \<and>
    (\<forall>nm a. shm_find_object nm s = Some a \<longrightarrow>
      (\<exists>t. shmfs_unlink (Some nm) s = Inr (0, t) \<and> dir_ok t \<and>
         (\<lambda>x. shm_find_object x t) = (\<lambda>x. shm_find_object x s)(nm := None))) \<and>
    (\<forall>old new a. shm_find_object old s = Some a \<and> old \<noteq> new \<and> length new < 128 \<longrightarrow>
      (\<exists>t. shmfs_rename (Some old) (Some new) s = Inr (0, t) \<and> dir_ok t \<and>
         (\<lambda>x. shm_find_object x t) = (\<lambda>x. shm_find_object x s)(old := None, new \<mapsto> a))) \<and>
    (\<forall>nm a. shm_find_object nm s = Some a \<longrightarrow>
      (\<exists>t. shmfs_rename (Some nm) (Some nm) s = Inr (0, t) \<and> shm_find_object nm t = None))"
proof (intro conjI allI impI; (elim conjE)?)
  fix nm a
  assume "shm_find_object nm s = None" "shm_heap s a = None" "nm \<noteq> []" "length nm < 128"
  from shm_create_dir [OF assms(2) this] show "\<exists>t. shmfs_create (Some a) (Some nm) s = (0, t) \<and> dir_ok t \<and>
      (\<lambda>x. shm_find_object x t) = (\<lambda>x. shm_find_object x s)(nm \<mapsto> a)" by (metis prod.collapse)
next
  fix nm a
  assume f: "shm_find_object nm s = Some a"
  have a: "a \<in> set (shm_objects s)" "shm_name s a = nm" using shm_find_iff [OF assms(2), of nm a] f by simp_all
  then obtain obj where "shm_heap s a = Some obj" using assms(2) by (auto simp: dir_ok_def)
  then obtain t where t: "shm_free_object a s = Inr t" "shm_objects t = remove1 a (shm_objects s)"
    "shm_heap t = (shm_heap s)(a := None)" using shm_free_object_ok [OF assms(1)] by blast
  then show "\<exists>t. shmfs_unlink (Some nm) s = Inr (0, t) \<and> dir_ok t \<and>
      (\<lambda>x. shm_find_object x t) = (\<lambda>x. shm_find_object x s)(nm := None)"
    using shm_remove_dir [OF assms(2) t(2) a(1) t(3)] f a(2) by (simp add: shmfs_unlink_def)
next
  fix old new a
  assume "shm_find_object old s = Some a" "old \<noteq> new" "length new < 128"
  from shm_rename_dir [OF assms(2) this assms(3)]
  show "\<exists>t. shmfs_rename (Some old) (Some new) s = Inr (0, t) \<and> dir_ok t \<and>
      (\<lambda>x. shm_find_object x t) = (\<lambda>x. shm_find_object x s)(old := None, new \<mapsto> a)" .
next
  fix nm a
  assume "shm_find_object nm s = Some a"
  from shm_rename_self [OF assms(2) this assms(3)]
  show "\<exists>t. shmfs_rename (Some nm) (Some nm) s = Inr (0, t) \<and> shm_find_object nm t = None" .
qed

section \<open>Witnesses\<close>

text \<open>A file system with one empty object, and one whose object has the page at 4096.\<close>

definition demo_object :: shm_object where
  "demo_object = \<lparr>so_name = ''a'', so_size = 0, so_page_count = 0, so_pages = None, so_ref_count = 1,
     so_prot_mask = 7, so_is_pinned = True\<rparr>"

definition demo_object_paged :: shm_object where
  "demo_object_paged = demo_object\<lparr>so_size := 10, so_page_count := 1, so_pages := Some [4096]\<rparr>"

lemma demo_paged_at: "page_at demo_object_paged i = (if i = 0 then 4096 else 0)"
  by (simp add: page_at_def demo_object_paged_def)

definition demo_shm :: shmfs where
  "demo_shm = \<lparr>shm_heap = [0x5000 \<mapsto> demo_object], shm_objects = [0x5000], shm_mem = \<lambda>_. 0,
     shm_pmm = (two_pages, boot_cache)\<rparr>"

definition demo_node :: shm_node where
  "demo_node = shm_file_node ''a'' 0x5000 0"

lemma demo_shm_inv: "shm_inv demo_shm"
  using two_pages_ok by (simp add: shm_inv_def demo_shm_def demo_object_def page_at_def)

lemma shmfs_truncate_correct_witness:
  "\<exists>t. shmfs_truncate True (Some demo_node) 5000 demo_shm = Inr (0, Some (demo_node\<lparr>sn_length := 5000\<rparr>), t) \<and> shm_inv t"
  using shmfs_truncate_correct [OF demo_shm_inv, of demo_node demo_object 5000]
  by (auto simp: demo_node_def demo_shm_def shm_file_node_def PAGE_SIZE_def resized_def)

lemma shmfs_directory_witness:
  "\<exists>t. shmfs_rename (Some ''a'') (Some ''b'') demo_shm = Inr (0, t) \<and> shm_find_object ''b'' t = Some 0x5000 \<and>
     shm_find_object ''a'' t = None"
proof -
  have ok: "dir_ok demo_shm" by (simp add: dir_ok_def demo_shm_def)
  have rc: "\<forall>b obj. shm_heap demo_shm b = Some obj \<longrightarrow> so_ref_count obj \<noteq> 0"
    by (simp add: demo_shm_def demo_object_def)
  have f: "shm_find_object ''a'' demo_shm = Some 0x5000 \<and> ''a'' \<noteq> ''b'' \<and> length ''b'' < 128"
    by (simp add: shm_find_object_def demo_shm_def demo_object_def)
  obtain t where t: "shmfs_rename (Some ''a'') (Some ''b'') demo_shm = Inr (0, t)"
    "(\<lambda>x. shm_find_object x t) = (\<lambda>x. shm_find_object x demo_shm)(''a'' := None, ''b'' \<mapsto> 0x5000)"
    using shmfs_directory [OF demo_shm_inv ok rc, THEN conjunct2, THEN conjunct2, THEN conjunct1, rule_format, OF f]
    by auto
  then show ?thesis using fun_cong [OF t(2), of "''a''"] fun_cong [OF t(2), of "''b''"] by simp
qed

lemma page_4096_alloc: "\<exists>t. pmm_ok t \<and> 4096 \<in> owned_addrs t"
proof -
  obtain a t bc where t: "pmm_alloc_page (two_pages, boot_cache) = Inr (a, t, bc)"
    using pmm_alloc_page_eq [OF two_pages_ok, of boot_cache] by (auto split: option.splits)
  have nf: "next_fit two_pages = Some 1"
    by (simp add: next_fit_def Let_def numeral_2_eq_2 bitmap_test_bit bit_1_iff)
  from two_pages_ok t have "a = 4096"
  proof (cases rule: pmm_alloc_cases)
    case (page p)
    with nf show ?thesis by (simp add: PAGE_SIZE_def)
  qed (use nf in simp)
  then show ?thesis using pmm_alloc_laws(2) [OF two_pages_ok t] by auto
qed

theorem shmfs_read_after_write_witness:
  "\<exists>s t. shmfs_write (Some demo_node) 1 3 (Some [7, 8, 9]) s = Inr (Some (3, t)) \<and>
     shmfs_read (Some demo_node) 1 3 True t = Inr (Some (3, [7, 8, 9]))"
proof -
  obtain p where p: "pmm_ok p" "4096 \<in> owned_addrs p" using page_4096_alloc by blast
  let ?s = "demo_shm\<lparr>shm_heap := [0x5000 \<mapsto> demo_object_paged], shm_pmm := (p, boot_cache)\<rparr>"
  have "shm_inv ?s" unfolding shm_inv_def using p
    by (auto simp: demo_paged_at demo_shm_def split: if_splits) (simp add: demo_object_paged_def)
  moreover have "shm_heap ?s (sn_impl demo_node) = Some demo_object_paged" "sn_impl demo_node \<noteq> 0"
    by (simp_all add: demo_node_def shm_file_node_def)
  moreover have size: "so_size demo_object_paged = 10" by (simp add: demo_object_paged_def)
  moreover have "\<forall>i < so_size demo_object_paged. page_at demo_object_paged (i div PAGE_SIZE) \<noteq> 0"
    by (simp add: demo_paged_at size PAGE_SIZE_def)
  ultimately show ?thesis
    using shmfs_read_after_write [of ?s demo_node demo_object_paged 1 3 "[7, 8, 9]"] by (auto simp: PAGE_SIZE_def)
qed

end
