(* ===== verification/Dll.thy ===== *)
theory Dll
  imports Prelude
begin

text \<open>
  Doubly linked lists as the scheduler keeps them: intrusive \<open>next\<close> and \<open>prev\<close>
  pointers in the nodes, \<open>None\<close> for NULL. \<open>lseg nx pv p xs n\<close> says that the nodes
  \<open>xs\<close> are linked in that order, with \<open>p\<close> before the first and \<open>n\<close> after the
  last. The lemmas give the effect of unlinking a node and of linking one in.
\<close>

definition first_or :: "'a list \<Rightarrow> 'a option \<Rightarrow> 'a option" where
  "first_or xs n = (case xs of [] \<Rightarrow> n | x # _ \<Rightarrow> Some x)"

definition last_or :: "'a list \<Rightarrow> 'a option \<Rightarrow> 'a option" where
  "last_or xs p = (if xs = [] then p else Some (last xs))"

fun lseg :: "('a \<Rightarrow> 'a option) \<Rightarrow> ('a \<Rightarrow> 'a option) \<Rightarrow> 'a option \<Rightarrow> 'a list \<Rightarrow> 'a option \<Rightarrow> bool" where
  "lseg nx pv p [] n \<longleftrightarrow> True"
| "lseg nx pv p (x # xs) n \<longleftrightarrow> pv x = p \<and> nx x = first_or xs n \<and> lseg nx pv (Some x) xs n"

text \<open>A whole list: linked from NULL to NULL, no node twice.\<close>

definition dll :: "('a \<Rightarrow> 'a option) \<Rightarrow> ('a \<Rightarrow> 'a option) \<Rightarrow> 'a list \<Rightarrow> bool" where
  "dll nx pv xs \<longleftrightarrow> lseg nx pv None xs None \<and> distinct xs"

lemma first_or_simps [simp]:
  "first_or [] n = n" "first_or (x # xs) n = Some x"
  "first_or (xs @ ys) n = first_or xs (first_or ys n)"
  by (cases xs; simp add: first_or_def)+

lemma last_or_simps [simp]:
  "last_or [] p = p" "last_or (x # xs) p = last_or xs (Some x)"
  "last_or (xs @ [x]) p = Some x"
  by (auto simp: last_or_def)

lemma last_or_append [simp]: "last_or (xs @ ys) p = last_or ys (last_or xs p)"
  by (induction xs arbitrary: p) auto

lemma first_or_None: "first_or xs None = None \<longleftrightarrow> xs = []"
  by (cases xs) auto

lemma last_or_None: "last_or xs None = None \<longleftrightarrow> xs = []"
  by (simp add: last_or_def)

lemma first_or_mem: "first_or xs None = Some x \<Longrightarrow> x \<in> set xs"
  by (cases xs) auto

lemma last_or_mem: "last_or xs None = Some x \<Longrightarrow> x \<in> set xs"
  by (auto simp: last_or_def split: if_splits)

lemma lseg_append:
  "lseg nx pv p (xs @ ys) n \<longleftrightarrow> lseg nx pv p xs (first_or ys n) \<and> lseg nx pv (last_or xs p) ys n"
  by (induction xs arbitrary: p) auto

lemma lseg_cong:
  "(\<And>x. x \<in> set xs \<Longrightarrow> nx x = nx' x \<and> pv x = pv' x) \<Longrightarrow> lseg nx pv p xs n = lseg nx' pv' p xs n"
  by (induction xs arbitrary: p) auto

text \<open>Redirecting the pointer out of the last node, and the one out of the first.\<close>

lemma lseg_set_next:
  assumes "lseg nx pv p xs n" "distinct xs" "last_or xs None = Some z"
  shows "lseg (nx(z := m)) pv p xs m"
proof -
  have xs: "xs = butlast xs @ [z]" using assms(3) by (auto simp: last_or_def split: if_splits)
  then have z: "z \<notin> set (butlast xs)" using assms(2) by (metis distinct_butlast distinct_append
        not_distinct_conv_prefix append.assoc)
  have "lseg nx pv p (butlast xs @ [z]) n" using assms(1) xs by simp
  then have "lseg nx pv p (butlast xs) (Some z)" "pv z = last_or (butlast xs) p"
    by (simp_all add: lseg_append)
  moreover from this(1) have "lseg (nx(z := m)) pv p (butlast xs) (Some z)"
    using z by (subst lseg_cong [of _ _ nx _ pv]) auto
  ultimately have "lseg (nx(z := m)) pv p (butlast xs @ [z]) m" by (simp add: lseg_append)
  with xs show ?thesis by simp
qed

lemma lseg_set_prev:
  assumes "lseg nx pv p xs n" "distinct xs" "first_or xs None = Some z"
  shows "lseg nx (pv(z := q)) q xs n"
proof -
  obtain ys where xs: "xs = z # ys" using assms(3) by (cases xs) auto
  then have "lseg nx (pv(z := q)) (Some z) ys n" using assms(1,2)
    by (subst lseg_cong [of _ _ nx _ pv]) auto
  with assms(1) xs show ?thesis by simp
qed

text \<open>Unlinking \<open>t\<close> from between \<open>as\<close> and \<open>bs\<close>, and the reverse step.\<close>

definition relink :: "('a \<Rightarrow> 'b) \<Rightarrow> 'a option \<Rightarrow> 'b \<Rightarrow> 'a \<Rightarrow> 'b" where
  "relink f k v = (case k of None \<Rightarrow> f | Some z \<Rightarrow> f(z := v))"

lemma relink_simps [simp]:
  "relink f None v = f" "relink f (Some z) v = f(z := v)"
  by (simp_all add: relink_def)

lemma lseg_relink_next:
  assumes "lseg nx pv None xs n" "distinct xs" "xs = [] \<Longrightarrow> n = m"
  shows "lseg (relink nx (last_or xs None) m) pv None xs m"
  using assms lseg_set_next [OF assms(1,2)] by (cases "last_or xs None") (auto simp: last_or_None)

lemma lseg_relink_prev:
  assumes "lseg nx pv p xs None" "distinct xs" "xs = [] \<Longrightarrow> p = q"
  shows "lseg nx (relink pv (first_or xs None) q) q xs None"
  using assms lseg_set_prev [OF assms(1,2)] by (cases "first_or xs None") (auto simp: first_or_None)

lemma dll_remove:
  assumes "dll nx pv (as @ t # bs)"
  shows "dll ((relink nx (last_or as None) (first_or bs None))(t := None))
             ((relink pv (first_or bs None) (last_or as None))(t := None)) (as @ bs)"
proof -
  let ?nx = "relink nx (last_or as None) (first_or bs None)"
  let ?pv = "relink pv (first_or bs None) (last_or as None)"
  have d: "distinct (as @ t # bs)" and l: "lseg nx pv None (as @ t # bs) None"
    using assms by (simp_all add: dll_def)
  have a: "lseg nx pv None as (Some t)" and b: "lseg nx pv (Some t) bs None"
    using l by (simp_all add: lseg_append)
  have la: "last_or as None = Some x \<Longrightarrow> x \<in> set as" for x by (rule last_or_mem)
  have fb: "first_or bs None = Some x \<Longrightarrow> x \<in> set bs" for x by (rule first_or_mem)
  have "lseg (?nx(t := None)) (?pv(t := None)) None as (first_or bs None)"
  proof (cases as)
    case (Cons x xs)
    have "lseg ?nx pv None as (first_or bs None)"
      using a d Cons lseg_relink_next [of nx pv as "Some t" "first_or bs None"] by simp
    moreover have "?pv y = pv y" if "y \<in> set as" for y
      using that d fb by (cases "first_or bs None") auto
    ultimately show ?thesis using d by (subst lseg_cong [of _ _ ?nx _ pv]) auto
  qed simp
  moreover have "lseg (?nx(t := None)) (?pv(t := None)) (last_or as None) bs None"
  proof (cases bs)
    case (Cons x xs)
    have "lseg nx ?pv (last_or as None) bs None"
      using b d Cons lseg_relink_prev [of nx pv "Some t" bs "last_or as None"] by simp
    moreover have "?nx y = nx y" if "y \<in> set bs" for y
      using that d la by (cases "last_or as None") auto
    ultimately show ?thesis using d by (subst lseg_cong [of _ _ nx _ ?pv]) auto
  qed simp
  ultimately show ?thesis using d by (simp add: dll_def lseg_append)
qed

lemma dll_insert:
  assumes "dll nx pv (as @ bs)" "t \<notin> set (as @ bs)"
  shows "dll ((relink nx (last_or as None) (Some t))(t := first_or bs None))
             ((relink pv (first_or bs None) (Some t))(t := last_or as None)) (as @ t # bs)"
proof -
  let ?nx = "relink nx (last_or as None) (Some t)"
  let ?pv = "relink pv (first_or bs None) (Some t)"
  have d: "distinct (as @ bs)" and l: "lseg nx pv None (as @ bs) None"
    using assms by (simp_all add: dll_def)
  have a: "lseg nx pv None as (first_or bs None)" and b: "lseg nx pv (last_or as None) bs None"
    using l by (simp_all add: lseg_append)
  have la: "last_or as None = Some x \<Longrightarrow> x \<in> set as" for x by (rule last_or_mem)
  have fb: "first_or bs None = Some x \<Longrightarrow> x \<in> set bs" for x by (rule first_or_mem)
  have "lseg (?nx(t := first_or bs None)) (?pv(t := last_or as None)) None as (Some t)"
  proof (cases as)
    case (Cons x xs)
    have "lseg ?nx pv None as (Some t)"
      using a d Cons lseg_relink_next [of nx pv as "first_or bs None" "Some t"] by simp
    moreover have "?pv y = pv y" if "y \<in> set as" for y
      using that d fb by (cases "first_or bs None") auto
    ultimately show ?thesis using assms(2) by (subst lseg_cong [of _ _ ?nx _ pv]) auto
  qed simp
  moreover have "lseg (?nx(t := first_or bs None)) (?pv(t := last_or as None)) (Some t) bs None"
  proof (cases bs)
    case (Cons x xs)
    have "lseg nx ?pv (Some t) bs None"
      using b d Cons lseg_relink_prev [of nx pv "last_or as None" bs "Some t"] by simp
    moreover have "?nx y = nx y" if "y \<in> set bs" for y
      using that d la by (cases "last_or as None") auto
    ultimately show ?thesis using assms(2) by (subst lseg_cong [of _ _ nx _ ?pv]) auto
  qed simp
  ultimately show ?thesis using d assms(2) by (simp add: dll_def lseg_append)
qed

text \<open>What a node's own pointers say about its place.\<close>

lemma dll_ptrs:
  assumes "dll nx pv (as @ t # bs)"
  shows "pv t = last_or as None" "nx t = first_or bs None"
  using assms by (simp_all add: dll_def lseg_append)

lemma dll_cong:
  "(\<And>x. x \<in> set xs \<Longrightarrow> nx x = nx' x \<and> pv x = pv' x) \<Longrightarrow> dll nx pv xs = dll nx' pv' xs"
  unfolding dll_def using lseg_cong [of xs nx nx' pv pv' None None] by simp

end
