(* ===== verification/Sched.thy ===== *)
theory Sched
  imports Dll "HOL-Library.Monad_Syntax"
begin

text \<open>
  The scheduler of \<^verbatim>\<open>kernel/task.c\<close>: the task table, the per-CPU ready queues, the
  sleep queue ordered by wake-up tick, \<open>schedule\<close>, blocking, sleeping and waking. Tasks
  are the slots of \<open>tasks[]\<close>, pointers to tasks are slot numbers (\<open>None\<close> is NULL),
  and the queues are the intrusive doubly linked lists of the source. \<open>cpu\<close> is what
  \<open>get_current_cpu()\<close> returns. The registers that \<open>schedule\<close> writes (FS and GS base,
  CR3, the TSS stack) are fields of the processor. Each function body between
  \<open>spin_lock(&sched_lock)\<close> and \<open>spin_unlock\<close> is one step; messages on the serial
  port are left out.
\<close>

section \<open>State (include/task.h, include/cpu.h, task.c lines 96-113)\<close>

datatype task_state =
  TASK_READY | TASK_RUNNING | TASK_BLOCKED | TASK_SLEEPING | TASK_STOPPED | TASK_DEAD

record task =
  t_state :: task_state
  t_id :: nat
  parent_id :: nat
  tgid :: nat
  t_name :: string
  cr3 :: nat
  wake_tick :: nat
  waiting_sem :: nat
  next_ready :: "nat option"
  prev_ready :: "nat option"
  next_sleep :: "nat option"
  prev_sleep :: "nat option"
  signal_pending :: u32
  target_cpu :: int
  kernel_stack_top :: nat
  user_rsp :: nat
  fs_base :: nat
  gs_base :: nat
  exit_code :: int
  wait_status :: int
  wait_code :: int
  wait_pending :: bool

datatype cpu_state = CPU_STATE_OFFLINE | CPU_STATE_BOOTING | CPU_STATE_ONLINE | CPU_STATE_HALTED

record cpu_info =
  apic_id :: nat
  cpu_index :: nat
  c_state :: cpu_state
  current_task :: "nat option"
  idle_task :: "nat option"
  sched_ticks :: nat
  c_kernel_stack_top :: nat
  user_stack_scratch :: nat
  local_ready_head :: "nat option"
  local_ready_tail :: "nat option"
  local_task_count :: int
  msr_fs_base :: nat
  msr_kernel_gs_base :: nat
  reg_cr3 :: nat
  tss_rsp0 :: nat

record sched =
  tasks :: "nat \<Rightarrow> task"
  cpus :: "int \<Rightarrow> cpu_info"
  total_cpus :: int
  task_count :: nat
  scheduler_active :: bool
  sleep_head :: "nat option"
  cpu_total_ticks :: nat
  cpu_idle_ticks :: nat
  cpu_last_load :: int
  ipis :: "(nat \<times> nat) list"

definition MAX_TASKS :: nat where
  "MAX_TASKS = 64"

definition MAX_CPUS :: nat where
  "MAX_CPUS = 256"

definition SCHEDULER_HZ :: nat where
  "SCHEDULER_HZ = 10"

definition TIMER_HZ :: nat where
  "TIMER_HZ = 1000"

text \<open>Assignment to a field of a task or of a processor.\<close>

definition upd_task :: "nat \<Rightarrow> (task \<Rightarrow> task) \<Rightarrow> sched \<Rightarrow> sched" where
  "upd_task t f s = s\<lparr>tasks := (tasks s)(t := f (tasks s t))\<rparr>"

definition upd_cpu :: "int \<Rightarrow> (cpu_info \<Rightarrow> cpu_info) \<Rightarrow> sched \<Rightarrow> sched" where
  "upd_cpu c f s = s\<lparr>cpus := (cpus s)(c := f (cpus s c))\<rparr>"

section \<open>The sleep queue (lines 115-159)\<close>

text \<open>The search loop of \<open>enqueue_sleep\<close>; \<open>None\<close> if it does not end.\<close>

partial_function (option) sleep_pos :: "sched \<Rightarrow> nat \<Rightarrow> nat \<Rightarrow> nat option" where
  "sleep_pos s tick cur =
     (case next_sleep (tasks s cur) of
        None \<Rightarrow> Some cur
      | Some n \<Rightarrow> if wake_tick (tasks s n) < tick then sleep_pos s tick n else Some cur)"

definition enqueue_sleep :: "nat \<Rightarrow> sched \<Rightarrow> sched option" where
  "enqueue_sleep t s0 =
     (let s = upd_task t (\<lambda>x. x\<lparr>next_sleep := None, prev_sleep := None\<rparr>) s0 in
      if sleep_head s = None \<or> wake_tick (tasks s (the (sleep_head s))) \<ge> wake_tick (tasks s t) then
        let s1 = upd_task t (\<lambda>x. x\<lparr>next_sleep := sleep_head s, prev_sleep := None\<rparr>) s;
            s2 = (case sleep_head s1 of None \<Rightarrow> s1 | Some h \<Rightarrow> upd_task h (\<lambda>x. x\<lparr>prev_sleep := Some t\<rparr>) s1)
        in Some (s2\<lparr>sleep_head := Some t\<rparr>)
      else do {
        cur \<leftarrow> sleep_pos s (wake_tick (tasks s t)) (the (sleep_head s));
        let n = next_sleep (tasks s cur);
        let s1 = upd_task t (\<lambda>x. x\<lparr>next_sleep := n\<rparr>) s;
        let s2 = (case n of None \<Rightarrow> s1 | Some m \<Rightarrow> upd_task m (\<lambda>x. x\<lparr>prev_sleep := Some t\<rparr>) s1);
        let s3 = upd_task t (\<lambda>x. x\<lparr>prev_sleep := Some cur\<rparr>) s2;
        Some (upd_task cur (\<lambda>x. x\<lparr>next_sleep := Some t\<rparr>) s3)
      })"

definition dequeue_sleep :: "nat \<Rightarrow> sched \<Rightarrow> sched" where
  "dequeue_sleep t s =
     (if prev_sleep (tasks s t) = None \<and> next_sleep (tasks s t) = None \<and> sleep_head s \<noteq> Some t then s
      else
        let s1 = (case prev_sleep (tasks s t) of
                    Some p \<Rightarrow> upd_task p (\<lambda>x. x\<lparr>next_sleep := next_sleep (tasks s t)\<rparr>) s
                  | None \<Rightarrow> if sleep_head s = Some t then s\<lparr>sleep_head := next_sleep (tasks s t)\<rparr> else s);
            s2 = (case next_sleep (tasks s1 t) of
                    Some n \<Rightarrow> upd_task n (\<lambda>x. x\<lparr>prev_sleep := prev_sleep (tasks s1 t)\<rparr>) s1
                  | None \<Rightarrow> s1)
        in upd_task t (\<lambda>x. x\<lparr>next_sleep := None, prev_sleep := None\<rparr>) s2)"

section \<open>The ready queues (lines 161-232)\<close>

text \<open>The loop that looks for the online processor with the fewest tasks.\<close>

fun best_cpu_loop :: "sched \<Rightarrow> int list \<Rightarrow> int \<Rightarrow> int \<Rightarrow> int" where
  "best_cpu_loop s [] best min_tasks = best"
| "best_cpu_loop s (i # is) best min_tasks =
     (if c_state (cpus s i) = CPU_STATE_ONLINE \<and> local_task_count (cpus s i) < min_tasks
      then best_cpu_loop s is i (local_task_count (cpus s i))
      else best_cpu_loop s is best min_tasks)"

definition best_cpu :: "sched \<Rightarrow> int" where
  "best_cpu s = best_cpu_loop s [0..total_cpus s - 1] 0 999999"

definition enqueue_ready :: "nat \<Rightarrow> sched \<Rightarrow> sched" where
  "enqueue_ready t s =
     (let tc = target_cpu (tasks s t) in
      if next_ready (tasks s t) \<noteq> None \<or> prev_ready (tasks s t) \<noteq> None then s
      else if tc \<ge> 0 \<and> tc < total_cpus s \<and> local_ready_head (cpus s tc) = Some t then s
      else
        let s1 = (if tc \<ge> 0 \<and> tc < total_cpus s \<and> c_state (cpus s tc) = CPU_STATE_ONLINE then s
                  else upd_task t (\<lambda>x. x\<lparr>target_cpu := best_cpu s\<rparr>) s);
            c = target_cpu (tasks s1 t);
            tl = local_ready_tail (cpus s1 c);
            s2 = upd_task t (\<lambda>x. x\<lparr>next_ready := None, prev_ready := tl\<rparr>) s1;
            s3 = (case tl of
                    Some z \<Rightarrow> upd_task z (\<lambda>x. x\<lparr>next_ready := Some t\<rparr>) s2
                  | None \<Rightarrow> upd_cpu c (\<lambda>x. x\<lparr>local_ready_head := Some t\<rparr>) s2)
        in upd_cpu c (\<lambda>x. x\<lparr>local_ready_tail := Some t, local_task_count := local_task_count x + 1\<rparr>) s3)"

definition dequeue_ready :: "nat \<Rightarrow> sched \<Rightarrow> sched" where
  "dequeue_ready t s =
     (let c = target_cpu (tasks s t) in
      if prev_ready (tasks s t) = None \<and> local_ready_head (cpus s c) \<noteq> Some t then s
      else
        let s1 = (case prev_ready (tasks s t) of
                    Some p \<Rightarrow> upd_task p (\<lambda>x. x\<lparr>next_ready := next_ready (tasks s t)\<rparr>) s
                  | None \<Rightarrow> upd_cpu c (\<lambda>x. x\<lparr>local_ready_head := next_ready (tasks s t)\<rparr>) s);
            s2 = (case next_ready (tasks s1 t) of
                    Some n \<Rightarrow> upd_task n (\<lambda>x. x\<lparr>prev_ready := prev_ready (tasks s1 t)\<rparr>) s1
                  | None \<Rightarrow> if local_ready_tail (cpus s1 c) = Some t
                      then upd_cpu c (\<lambda>x. x\<lparr>local_ready_tail := prev_ready (tasks s1 t)\<rparr>) s1 else s1);
            s3 = upd_task t (\<lambda>x. x\<lparr>next_ready := None, prev_ready := None\<rparr>) s2
        in upd_cpu c (\<lambda>x. x\<lparr>local_task_count := local_task_count x - 1\<rparr>) s3)"

section \<open>Switching (lines 632-797)\<close>

text \<open>The slot \<open>find_next_task\<close> returns.\<close>

definition find_next_task :: "int option \<Rightarrow> nat \<Rightarrow> sched \<Rightarrow> nat option" where
  "find_next_task cpu current s =
     (case cpu of
        None \<Rightarrow> None
      | Some c \<Rightarrow>
          (case local_ready_head (cpus s c) of
             Some h \<Rightarrow> Some h
           | None \<Rightarrow>
               if t_state (tasks s current) = TASK_RUNNING \<or> t_state (tasks s current) = TASK_READY
               then Some current else None))"

text \<open>Load tracking, lines 678-685 (the division is exact integer division of C).\<close>

definition count_tick :: "sched \<Rightarrow> sched" where
  "count_tick s =
     (let tot = add64 (cpu_total_ticks s) 1 in
      if tot \<ge> SCHEDULER_HZ then
        s\<lparr>cpu_last_load := 100 - int (mul64 (cpu_idle_ticks s) 100 div tot), cpu_total_ticks := 0,
          cpu_idle_ticks := 0\<rparr>
      else s\<lparr>cpu_total_ticks := tot\<rparr>)"

text \<open>Lines 687-697: without a ready task the CPU's idle task, or slot 0.\<close>

definition pick_next :: "int \<Rightarrow> nat \<Rightarrow> sched \<Rightarrow> nat \<times> sched" where
  "pick_next c current s =
     (case find_next_task (Some c) current s of
        Some n \<Rightarrow> (n, s)
      | None \<Rightarrow>
          (case idle_task (cpus s c) of Some i \<Rightarrow> i | None \<Rightarrow> 0,
           s\<lparr>cpu_idle_ticks := add64 (cpu_idle_ticks s) 1\<rparr>))"

text \<open>Lines 721-772: the switch itself, up to \<open>context_switch\<close>.\<close>

definition switch_to :: "int \<Rightarrow> nat \<Rightarrow> nat \<Rightarrow> sched \<Rightarrow> sched" where
  "switch_to c current next_task s0 =
     (let s1 = upd_cpu c (\<lambda>x. x\<lparr>sched_ticks := 0\<rparr>) s0;
          s2 = (if t_state (tasks s1 current) = TASK_RUNNING \<or> t_state (tasks s1 current) = TASK_READY
                then enqueue_ready current (upd_task current (\<lambda>x. x\<lparr>t_state := TASK_READY\<rparr>) s1)
                else s1);
          s3 = upd_task current (\<lambda>x. x\<lparr>fs_base := msr_fs_base (cpus s2 c),
                 gs_base := msr_kernel_gs_base (cpus s2 c)\<rparr>) s2;
          s4 = (if t_state (tasks s3 next_task) = TASK_READY then dequeue_ready next_task s3 else s3);
          s5 = upd_task next_task (\<lambda>x. x\<lparr>t_state := TASK_RUNNING\<rparr>) s4;
          s6 = upd_task next_task (\<lambda>x. x\<lparr>wake_tick := 0\<rparr>) (dequeue_sleep next_task s5);
          nt = tasks s6 next_task
      in upd_cpu c (\<lambda>x. x\<lparr>current_task := Some next_task, tss_rsp0 := kernel_stack_top nt,
             c_kernel_stack_top := kernel_stack_top nt, user_stack_scratch := user_rsp nt,
             msr_fs_base := fs_base nt, msr_kernel_gs_base := gs_base nt,
             reg_cr3 := (if cr3 nt \<noteq> reg_cr3 x \<and> cr3 nt \<noteq> 0 then cr3 nt else reg_cr3 x)\<rparr>) s6)"

text \<open>Lines 699-721: stay with the current task, let its time slice run, or switch.\<close>

definition resume_or_switch :: "int \<Rightarrow> nat \<Rightarrow> nat \<Rightarrow> sched \<Rightarrow> sched" where
  "resume_or_switch c current next_task s =
     (if next_task = current then
        let s1 = (if t_state (tasks s current) = TASK_READY
                  then upd_task current (\<lambda>x. x\<lparr>t_state := TASK_RUNNING\<rparr>) (dequeue_ready current s)
                  else s)
        in upd_task current (\<lambda>x. x\<lparr>wake_tick := 0\<rparr>) (dequeue_sleep current s1)
      else if t_state (tasks s current) = TASK_RUNNING \<or> t_state (tasks s current) = TASK_READY then
        let tk = add32 (sched_ticks (cpus s c)) 1;
            s1 = upd_cpu c (\<lambda>x. x\<lparr>sched_ticks := tk\<rparr>) s
        in if tk < SCHEDULER_HZ then s1 else switch_to c current next_task s1
      else switch_to c current next_task s)"

definition schedule :: "int option \<Rightarrow> sched \<Rightarrow> sched" where
  "schedule cpu s =
     (if \<not> scheduler_active s then s
      else case cpu of
        None \<Rightarrow> s
      | Some c \<Rightarrow>
          let current = (case current_task (cpus s c) of Some t \<Rightarrow> t | None \<Rightarrow> 0)
          in case pick_next c current (count_tick s) of (next_task, s1) \<Rightarrow>
               resume_or_switch c current next_task s1)"

definition task_yield :: "int option \<Rightarrow> sched \<Rightarrow> sched" where
  "task_yield cpu s =
     (if \<not> scheduler_active s then s
      else schedule cpu (case cpu of
             None \<Rightarrow> s
           | Some c \<Rightarrow> upd_cpu c (\<lambda>x. x\<lparr>sched_ticks := SCHEDULER_HZ\<rparr>) s))"

section \<open>Blocking and sleeping (lines 799-867)\<close>

definition task_get_current :: "int option \<Rightarrow> sched \<Rightarrow> nat" where
  "task_get_current cpu s =
     (case cpu of
        None \<Rightarrow> 0
      | Some c \<Rightarrow> (case current_task (cpus s c) of Some t \<Rightarrow> t | None \<Rightarrow> 0))"

definition task_block_with_timeout :: "int option \<Rightarrow> nat \<Rightarrow> sched \<Rightarrow> sched option" where
  "task_block_with_timeout cpu tick s =
     (if \<not> scheduler_active s then Some s
      else let current = task_get_current cpu s in
        if signal_pending (tasks s current) \<noteq> 0
        then Some (upd_task current (\<lambda>x. x\<lparr>t_state := TASK_READY\<rparr>) s)
        else enqueue_sleep current
          (upd_task current (\<lambda>x. x\<lparr>wake_tick := tick, t_state := TASK_BLOCKED\<rparr>) s))"

definition task_block :: "int option \<Rightarrow> sched \<Rightarrow> sched" where
  "task_block cpu s =
     (if \<not> scheduler_active s then s
      else let current = task_get_current cpu s in
        if signal_pending (tasks s current) \<noteq> 0
        then upd_task current (\<lambda>x. x\<lparr>t_state := TASK_READY\<rparr>) s
        else upd_task current (\<lambda>x. x\<lparr>wake_tick := 0, t_state := TASK_BLOCKED\<rparr>) s)"

text \<open>\<open>task_sleep\<close> with the scheduler running; \<open>now\<close> is \<open>timer_get_ticks()\<close>.\<close>

definition task_sleep :: "int option \<Rightarrow> nat \<Rightarrow> nat \<Rightarrow> sched \<Rightarrow> sched option" where
  "task_sleep cpu now ms s =
     (if \<not> scheduler_active s then Some s
      else
        let t0 = mul64 ms TIMER_HZ div 1000;
            ticks = (if ms > 0 \<and> t0 = 0 then 1 else t0);
            current = task_get_current cpu s
        in do {
          s1 \<leftarrow> enqueue_sleep current
            (upd_task current (\<lambda>x. x\<lparr>wake_tick := add64 now ticks, t_state := TASK_SLEEPING\<rparr>) s);
          Some (schedule cpu s1)
        })"

section \<open>Waking (lines 869-947)\<close>

definition is_active :: "sched \<Rightarrow> nat \<Rightarrow> bool" where
  "is_active s t \<longleftrightarrow>
     list_ex (\<lambda>i. c_state (cpus s i) = CPU_STATE_ONLINE \<and> current_task (cpus s i) = Some t)
       [0..int MAX_CPUS - 1]"

text \<open>The loop over the sleep queue; it may only end if the queue does.\<close>

partial_function (option) wake_expired_loop :: "nat \<Rightarrow> nat option \<Rightarrow> sched \<Rightarrow> sched option" where
  "wake_expired_loop now cur s =
     (case cur of
        None \<Rightarrow> Some s
      | Some t \<Rightarrow>
          if wake_tick (tasks s t) \<le> now then
            let nxt = next_sleep (tasks s t);
                s1 = dequeue_sleep t (upd_task t (\<lambda>x. x\<lparr>t_state := TASK_READY\<rparr>) s);
                s2 = (if is_active s1 t then s1 else enqueue_ready t s1)
            in wake_expired_loop now nxt s2
          else Some s)"

definition task_wake_expired :: "nat \<Rightarrow> sched \<Rightarrow> sched option" where
  "task_wake_expired now s =
     (if \<not> scheduler_active s then Some s else wake_expired_loop now (sleep_head s) s)"

definition lapic_send_ipi :: "nat \<Rightarrow> nat \<Rightarrow> sched \<Rightarrow> sched" where
  "lapic_send_ipi apic vec s = s\<lparr>ipis := ipis s @ [(apic, vec)]\<rparr>"

text \<open>Lines 910-925 and 929-943: queue a woken task and poke its processor.\<close>

definition ready_and_poke :: "int option \<Rightarrow> nat \<Rightarrow> sched \<Rightarrow> sched" where
  "ready_and_poke cpu t s =
     (if is_active s t then s
      else
        let s1 = enqueue_ready t s in
        case cpu of
          None \<Rightarrow> s1
        | Some c \<Rightarrow>
            if target_cpu (tasks s1 t) mod 2 ^ 32 \<noteq> int (cpu_index (cpus s1 c))
            then lapic_send_ipi (apic_id (cpus s1 (target_cpu (tasks s1 t)))) 0x20 s1 else s1)"

definition task_wakeup :: "int option \<Rightarrow> nat option \<Rightarrow> sched \<Rightarrow> sched" where
  "task_wakeup cpu tp s =
     (case tp of
        None \<Rightarrow> s
      | Some t \<Rightarrow>
          if \<not> scheduler_active s then s
          else
            let s1 = (if t_state (tasks s t) = TASK_BLOCKED \<or> t_state (tasks s t) = TASK_SLEEPING
                      then ready_and_poke cpu t
                        (dequeue_sleep t (upd_task t (\<lambda>x. x\<lparr>t_state := TASK_READY\<rparr>) s))
                      else s)
            in if t_state (tasks s1 t) = TASK_STOPPED
               then ready_and_poke cpu t (upd_task t (\<lambda>x. x\<lparr>t_state := TASK_READY\<rparr>) s1)
               else s1)"


section \<open>Specification: the queues as lists of slots\<close>

abbreviation "nxs s \<equiv> (\<lambda>i. next_sleep (tasks s i))"
abbreviation "pvs s \<equiv> (\<lambda>i. prev_sleep (tasks s i))"
abbreviation "nxr s \<equiv> (\<lambda>i. next_ready (tasks s i))"
abbreviation "pvr s \<equiv> (\<lambda>i. prev_ready (tasks s i))"

text \<open>The sleep queue is \<open>ss\<close>: linked, ordered by wake-up tick, all other tasks unlinked.\<close>

definition sleepq :: "sched \<Rightarrow> nat list \<Rightarrow> bool" where
  "sleepq s ss \<longleftrightarrow> dll (nxs s) (pvs s) ss \<and> sleep_head s = first_or ss None \<and>
     sorted (map (\<lambda>i. wake_tick (tasks s i)) ss) \<and>
     (\<forall>i. i \<notin> set ss \<longrightarrow> nxs s i = None \<and> pvs s i = None)"

text \<open>The ready queue of processor \<open>c\<close> is \<open>rs\<close>.\<close>

definition readyq :: "sched \<Rightarrow> int \<Rightarrow> nat list \<Rightarrow> bool" where
  "readyq s c rs \<longleftrightarrow> dll (nxr s) (pvr s) rs \<and>
     local_ready_head (cpus s c) = first_or rs None \<and>
     local_ready_tail (cpus s c) = last_or rs None \<and>
     local_task_count (cpus s c) = int (length rs) \<and>
     (\<forall>i \<in> set rs. target_cpu (tasks s i) = c)"

text \<open>All ready queues; a task in none of them is unlinked, and queues exist only for real CPUs.\<close>

definition readyqs :: "sched \<Rightarrow> (int \<Rightarrow> nat list) \<Rightarrow> bool" where
  "readyqs s rq \<longleftrightarrow> 0 < total_cpus s \<and> (\<forall>c. readyq s c (rq c)) \<and>
     (\<forall>c. rq c \<noteq> [] \<longrightarrow> 0 \<le> c \<and> c < total_cpus s) \<and>
     (\<forall>i. (\<forall>c. i \<notin> set (rq c)) \<longrightarrow> nxr s i = None \<and> pvr s i = None)"

text \<open>Writing all the sleep pointers, or all the ready pointers, at once.\<close>

definition set_sleep ::
  "(nat \<Rightarrow> nat option) \<Rightarrow> (nat \<Rightarrow> nat option) \<Rightarrow> nat option \<Rightarrow> sched \<Rightarrow> sched" where
  "set_sleep nx pv h s =
     s\<lparr>tasks := (\<lambda>i. (tasks s i)\<lparr>next_sleep := nx i, prev_sleep := pv i\<rparr>), sleep_head := h\<rparr>"

definition set_ready ::
  "(nat \<Rightarrow> nat option) \<Rightarrow> (nat \<Rightarrow> nat option) \<Rightarrow> (int \<Rightarrow> cpu_info) \<Rightarrow> sched \<Rightarrow> sched" where
  "set_ready nx pv cs s =
     s\<lparr>tasks := (\<lambda>i. (tasks s i)\<lparr>next_ready := nx i, prev_ready := pv i\<rparr>), cpus := cs\<rparr>"

named_theorems sched_simps \<open>fields of the state after a step\<close>

lemma upd_task_fields [sched_simps]:
  "tasks (upd_task t f s) i = (if i = t then f (tasks s t) else tasks s i)"
  "cpus (upd_task t f s) = cpus s" "total_cpus (upd_task t f s) = total_cpus s"
  "scheduler_active (upd_task t f s) = scheduler_active s" "sleep_head (upd_task t f s) = sleep_head s"
  "task_count (upd_task t f s) = task_count s" "ipis (upd_task t f s) = ipis s"
  by (simp_all add: upd_task_def)

lemma upd_cpu_fields [sched_simps]:
  "tasks (upd_cpu c f s) = tasks s"
  "cpus (upd_cpu c f s) d = (if d = c then f (cpus s c) else cpus s d)"
  "total_cpus (upd_cpu c f s) = total_cpus s"
  "scheduler_active (upd_cpu c f s) = scheduler_active s" "sleep_head (upd_cpu c f s) = sleep_head s"
  "task_count (upd_cpu c f s) = task_count s"
  by (simp_all add: upd_cpu_def)

lemma set_sleep_fields [sched_simps]:
  "next_sleep (tasks (set_sleep nx pv h s) i) = nx i" "prev_sleep (tasks (set_sleep nx pv h s) i) = pv i"
  "sleep_head (set_sleep nx pv h s) = h" "cpus (set_sleep nx pv h s) = cpus s"
  "total_cpus (set_sleep nx pv h s) = total_cpus s"
  "scheduler_active (set_sleep nx pv h s) = scheduler_active s"
  "wake_tick (tasks (set_sleep nx pv h s) i) = wake_tick (tasks s i)"
  "t_state (tasks (set_sleep nx pv h s) i) = t_state (tasks s i)"
  "next_ready (tasks (set_sleep nx pv h s) i) = next_ready (tasks s i)"
  "prev_ready (tasks (set_sleep nx pv h s) i) = prev_ready (tasks s i)"
  "target_cpu (tasks (set_sleep nx pv h s) i) = target_cpu (tasks s i)"
  by (simp_all add: set_sleep_def)

section \<open>The sleep queue refines insertion into and removal from a list\<close>

lemma sleepq_distinct: "sleepq s ss \<Longrightarrow> distinct ss"
  by (simp add: sleepq_def dll_def)

lemma sleepq_set_sleep:
  assumes "dll nx pv ss" "sorted (map (\<lambda>i. wake_tick (tasks s i)) ss)"
    and "\<And>i. i \<notin> set ss \<Longrightarrow> nx i = None \<and> pv i = None"
  shows "sleepq (set_sleep nx pv (first_or ss None) s) ss"
  using assms by (simp add: sleepq_def sched_simps)

lemma dequeue_sleep_eq:
  assumes "sleepq s (as @ t # bs)"
  shows "dequeue_sleep t s = set_sleep
     ((relink (nxs s) (last_or as None) (first_or bs None))(t := None))
     ((relink (pvs s) (first_or bs None) (last_or as None))(t := None)) (first_or (as @ bs) None) s"
proof -
  have d: "dll (nxs s) (pvs s) (as @ t # bs)" and h: "sleep_head s = first_or (as @ t # bs) None"
    using assms by (simp_all add: sleepq_def)
  note p = dll_ptrs [OF d]
  have dist: "distinct (as @ t # bs)" using assms by (rule sleepq_distinct)
  have la: "last_or as None = Some x \<Longrightarrow> x \<in> set as" for x by (rule last_or_mem)
  have fb: "first_or bs None = Some x \<Longrightarrow> x \<in> set bs" for x by (rule first_or_mem)
  have nt: "last_or as None \<noteq> Some t" "first_or bs None \<noteq> Some t" using la fb dist by auto
  have hd: "as = [] \<Longrightarrow> sleep_head s = Some t" "as \<noteq> [] \<Longrightarrow> sleep_head s \<noteq> Some t"
    using h dist by (cases as; auto)+
  show ?thesis
  proof (cases as rule: rev_cases)
    case Nil
    then have "prev_sleep (tasks s t) = None" "sleep_head s = Some t" using p hd by simp_all
    then show ?thesis
      using nt p Nil
      by (cases bs) (simp_all add: dequeue_sleep_def set_sleep_def upd_task_def fun_eq_iff)
  next
    case (snoc xs x)
    then have "prev_sleep (tasks s t) = Some x" "sleep_head s \<noteq> Some t" "x \<noteq> t"
      "sleep_head s = first_or (as @ bs) None"
      using p(1) hd(2) nt h snoc by (cases xs; simp)+
    then show ?thesis
      using nt p snoc
      by (cases bs) (simp_all add: dequeue_sleep_def set_sleep_def upd_task_def fun_eq_iff)
  qed
qed

lemma dequeue_sleep_unlinked:
  assumes "sleepq s ss" "t \<notin> set ss"
  shows "dequeue_sleep t s = s"
proof -
  have "sleep_head s \<noteq> Some t" using assms first_or_mem [of ss t] by (auto simp: sleepq_def)
  then show ?thesis using assms by (simp add: dequeue_sleep_def sleepq_def)
qed

lemma sleepq_dequeue:
  assumes "sleepq s ss"
  shows "sleepq (dequeue_sleep t s) (remove1 t ss)"
proof (cases "t \<in> set ss")
  case True
  then obtain as bs where ss: "ss = as @ t # bs" and n: "t \<notin> set as" by (metis split_list_first)
  have d: "dll (nxs s) (pvs s) (as @ t # bs)" using assms ss by (simp add: sleepq_def)
  have srt: "sorted (map (\<lambda>i. wake_tick (tasks s i)) (as @ bs))"
    using assms ss by (auto simp: sleepq_def sorted_append)
  have out: "nxs s i = None \<and> pvs s i = None" if "i \<notin> set (as @ t # bs)" for i
    using assms ss that by (simp add: sleepq_def)
  have "sleepq (dequeue_sleep t s) (as @ bs)"
    unfolding dequeue_sleep_eq [OF assms [unfolded ss]]
  proof (rule sleepq_set_sleep [OF dll_remove [OF d] srt])
    fix i assume "i \<notin> set (as @ bs)"
    then show "((relink (nxs s) (last_or as None) (first_or bs None))(t := None)) i = None \<and>
        ((relink (pvs s) (first_or bs None) (last_or as None))(t := None)) i = None"
      using out [of i] last_or_mem [of as] first_or_mem [of bs]
      by (cases "last_or as None"; cases "first_or bs None") auto
  qed
  moreover have "remove1 t ss = as @ bs" using n by (simp add: ss remove1_append)
  ultimately show ?thesis by simp
next
  case False
  then show ?thesis using assms by (simp add: dequeue_sleep_unlinked remove1_idem)
qed


lemma sleep_pos_spec:
  assumes "lseg (nxs s) pv p (x # ys) None"
  shows "sleep_pos s tick x = Some (last (x # takeWhile (\<lambda>i. wake_tick (tasks s i) < tick) ys))"
  using assms
proof (induction ys arbitrary: x p)
  case Nil
  then show ?case by (simp add: sleep_pos.simps)
next
  case (Cons y ys)
  then show ?case
    using Cons.IH [of "Some x" y] by (subst sleep_pos.simps) auto
qed

lemma upd_task_same: "f (tasks s t) = tasks s t \<Longrightarrow> upd_task t f s = s"
  by (simp add: upd_task_def)

definition sleep_before :: "sched \<Rightarrow> nat \<Rightarrow> nat \<Rightarrow> bool" where
  "sleep_before s t i \<longleftrightarrow> wake_tick (tasks s i) < wake_tick (tasks s t)"

text \<open>The list a sleeping task is put into: after all the tasks that wake earlier.\<close>

definition insert_sleep :: "sched \<Rightarrow> nat \<Rightarrow> nat list \<Rightarrow> nat list" where
  "insert_sleep s t ss = takeWhile (sleep_before s t) ss @ t # dropWhile (sleep_before s t) ss"

lemma enqueue_sleep_eq:
  assumes "sleepq s (as @ bs)" "t \<notin> set (as @ bs)"
    and "as = takeWhile (sleep_before s t) (as @ bs)"
  shows "enqueue_sleep t s = Some (set_sleep
     ((relink (nxs s) (last_or as None) (Some t))(t := first_or bs None))
     ((relink (pvs s) (first_or bs None) (Some t))(t := last_or as None))
     (first_or (as @ t # bs) None) s)"
proof -
  have d: "dll (nxs s) (pvs s) (as @ bs)" and h: "sleep_head s = first_or (as @ bs) None"
    and o: "nxs s t = None" "pvs s t = None"
    using assms by (simp_all add: sleepq_def)
  have same: "upd_task t (\<lambda>x. x\<lparr>next_sleep := None, prev_sleep := None\<rparr>) s = s"
    using o by (intro upd_task_same) simp
  have fb: "first_or bs None \<noteq> Some t" using assms(2) first_or_mem [of bs t] by auto
  show ?thesis
  proof (cases as)
    case Nil
    then have "sleep_head s = None \<or> \<not> sleep_before s t (the (sleep_head s))"
      using assms(3) h by (cases bs) (auto split: if_splits)
    then have c: "sleep_head s = None \<or>
        wake_tick (tasks s t) \<le> wake_tick (tasks s (the (sleep_head s)))"
      by (auto simp: sleep_before_def)
    show ?thesis unfolding enqueue_sleep_def Let_def same
      using c h fb Nil
      by (cases bs) (auto simp: set_sleep_def upd_task_def fun_eq_iff)
  next
    case (Cons x xs)
    have all: "\<forall>i \<in> set as. sleep_before s t i" using assms(3) by (metis set_takeWhileD)
    then have c: "\<not> (sleep_head s = None \<or>
        wake_tick (tasks s t) \<le> wake_tick (tasks s (the (sleep_head s))))" and hd: "sleep_head s = Some x"
      using h Cons by (auto simp: sleep_before_def)
    have "sleep_pos s (wake_tick (tasks s t)) x =
        Some (last (x # takeWhile (sleep_before s t) (xs @ bs)))"
      using sleep_pos_spec [of s "pvs s" None x "xs @ bs"] d Cons
      by (simp add: dll_def sleep_before_def [abs_def])
    moreover have "takeWhile (sleep_before s t) (xs @ bs) = xs"
      using assms(3) Cons all by simp
    ultimately have pos: "sleep_pos s (wake_tick (tasks s t)) x = Some (last as)" using Cons by simp
    have asn: "as = butlast as @ [last as]" using Cons by simp
    then have nl: "nxs s (last as) = first_or bs None"
      using dll_ptrs(2) [of "nxs s" "pvs s" "butlast as" "last as" bs] d by (metis append.assoc append_Cons append_Nil)
    have ne: "last as \<noteq> t" using assms(2) Cons by auto
    have fbl: "first_or bs None \<noteq> Some (last as)"
      using sleepq_distinct [OF assms(1)] first_or_mem [of bs "last as"] Cons last_in_set [of as] by auto
    have la: "last_or as None = Some (last as)" using Cons by (simp add: last_or_def)
    have fa: "first_or as z = Some x" for z using Cons by simp
    show ?thesis unfolding enqueue_sleep_def Let_def same
      using c hd pos nl ne fb fbl la o fa
      by (cases bs) (auto simp: set_sleep_def upd_task_def fun_eq_iff h intro!: sched.equality)
  qed
qed


lemma sorted_insert_sleep:
  assumes "sorted (map (\<lambda>i. wake_tick (tasks s i)) ss)"
  shows "sorted (map (\<lambda>i. wake_tick (tasks s i)) (insert_sleep s t ss))"
proof -
  let ?k = "\<lambda>i. wake_tick (tasks s i)" and ?P = "sleep_before s t"
  have "sorted (map ?k (takeWhile ?P ss @ dropWhile ?P ss))" using assms by simp
  then have *: "sorted (map ?k (takeWhile ?P ss))" "sorted (map ?k (dropWhile ?P ss))"
    "\<forall>x \<in> set (takeWhile ?P ss). \<forall>y \<in> set (dropWhile ?P ss). ?k x \<le> ?k y"
    by (auto simp only: map_append sorted_append set_map)
  have lt: "\<forall>x \<in> set (takeWhile ?P ss). ?k x \<le> ?k t"
    by (auto dest!: set_takeWhileD simp: sleep_before_def)
  have ge: "\<forall>y \<in> set (dropWhile ?P ss). ?k t \<le> ?k y"
  proof (cases "dropWhile ?P ss")
    case (Cons z zs)
    then have "\<not> ?P z" by (metis dropWhile_eq_Cons_conv)
    then show ?thesis using Cons *(2) by (auto simp: sleep_before_def)
  next
    case Nil
    show ?thesis unfolding Nil by simp
  qed
  show ?thesis using * lt ge by (auto simp: insert_sleep_def sorted_append)
qed

lemma sleepq_enqueue:
  assumes "sleepq s ss" "t \<notin> set ss"
  shows "\<exists>nx pv h. enqueue_sleep t s = Some (set_sleep nx pv h s) \<and>
    sleepq (set_sleep nx pv h s) (insert_sleep s t ss)"
proof -
  define as where "as = takeWhile (sleep_before s t) ss"
  define bs where "bs = dropWhile (sleep_before s t) ss"
  have ss: "ss = as @ bs" by (simp add: as_def bs_def)
  have d: "dll (nxs s) (pvs s) (as @ bs)" using assms ss by (simp add: sleepq_def)
  have t: "t \<notin> set (as @ bs)" using assms ss by simp
  have out: "nxs s i = None \<and> pvs s i = None" if "i \<notin> set (as @ bs)" for i
    using assms ss that by (simp add: sleepq_def)
  have ins: "insert_sleep s t ss = as @ t # bs" by (simp add: insert_sleep_def as_def bs_def)
  have "sorted (map (\<lambda>i. wake_tick (tasks s i)) ss)" using assms(1) by (simp add: sleepq_def)
  then have srt: "sorted (map (\<lambda>i. wake_tick (tasks s i)) (as @ t # bs))"
    using sorted_insert_sleep [of s ss t] ins by simp
  let ?nx = "(relink (nxs s) (last_or as None) (Some t))(t := first_or bs None)"
  let ?pv = "(relink (pvs s) (first_or bs None) (Some t))(t := last_or as None)"
  have "sleepq (set_sleep ?nx ?pv (first_or (as @ t # bs) None) s) (as @ t # bs)"
  proof (rule sleepq_set_sleep [OF dll_insert [OF d t] srt])
    fix i assume "i \<notin> set (as @ t # bs)"
    then show "?nx i = None \<and> ?pv i = None"
      using out [of i] last_or_mem [of as] first_or_mem [of bs]
      by (cases "last_or as None"; cases "first_or bs None") auto
  qed
  moreover have "as = takeWhile (sleep_before s t) (as @ bs)"
    using ss as_def by simp
  then have "enqueue_sleep t s = Some (set_sleep ?nx ?pv (first_or (as @ t # bs) None) s)"
    by (rule enqueue_sleep_eq [OF assms(1) [unfolded ss] t])
  ultimately show ?thesis using ins by metis
qed

section \<open>The ready queues refine first-in first-out lists\<close>

lemma set_ready_fields [sched_simps]:
  "next_ready (tasks (set_ready nx pv cs s) i) = nx i" "prev_ready (tasks (set_ready nx pv cs s) i) = pv i"
  "sleep_head (set_ready nx pv cs s) = sleep_head s" "cpus (set_ready nx pv cs s) = cs"
  "total_cpus (set_ready nx pv cs s) = total_cpus s"
  "scheduler_active (set_ready nx pv cs s) = scheduler_active s"
  "wake_tick (tasks (set_ready nx pv cs s) i) = wake_tick (tasks s i)"
  "t_state (tasks (set_ready nx pv cs s) i) = t_state (tasks s i)"
  "next_sleep (tasks (set_ready nx pv cs s) i) = next_sleep (tasks s i)"
  "prev_sleep (tasks (set_ready nx pv cs s) i) = prev_sleep (tasks s i)"
  "target_cpu (tasks (set_ready nx pv cs s) i) = target_cpu (tasks s i)"
  by (simp_all add: set_ready_def)

text \<open>The header of a queue that holds \<open>rs\<close>.\<close>

definition with_queue :: "nat list \<Rightarrow> cpu_info \<Rightarrow> cpu_info" where
  "with_queue rs x = x\<lparr>local_ready_head := first_or rs None, local_ready_tail := last_or rs None,
     local_task_count := int (length rs)\<rparr>"

lemma with_queue_fields [sched_simps]:
  "local_ready_head (with_queue rs x) = first_or rs None"
  "local_ready_tail (with_queue rs x) = last_or rs None"
  "local_task_count (with_queue rs x) = int (length rs)"
  "c_state (with_queue rs x) = c_state x" "current_task (with_queue rs x) = current_task x"
  "idle_task (with_queue rs x) = idle_task x" "sched_ticks (with_queue rs x) = sched_ticks x"
  "msr_fs_base (with_queue rs x) = msr_fs_base x"
  "msr_kernel_gs_base (with_queue rs x) = msr_kernel_gs_base x"
  "reg_cr3 (with_queue rs x) = reg_cr3 x" "cpu_index (with_queue rs x) = cpu_index x"
  by (simp_all add: with_queue_def)

lemma readyq_distinct: "readyq s c rs \<Longrightarrow> distinct rs"
  by (simp add: readyq_def dll_def)

lemma dequeue_ready_eq:
  assumes "readyq s c (as @ t # bs)"
  shows "dequeue_ready t s = set_ready
     ((relink (nxr s) (last_or as None) (first_or bs None))(t := None))
     ((relink (pvr s) (first_or bs None) (last_or as None))(t := None))
     ((cpus s)(c := with_queue (as @ bs) (cpus s c))) s"
proof -
  have d: "dll (nxr s) (pvr s) (as @ t # bs)" and tc: "target_cpu (tasks s t) = c"
    and h: "local_ready_head (cpus s c) = first_or (as @ t # bs) None"
      "local_ready_tail (cpus s c) = last_or (as @ t # bs) None"
      "local_task_count (cpus s c) = int (length (as @ t # bs))"
    using assms by (simp_all add: readyq_def)
  note p = dll_ptrs [OF d]
  have dist: "distinct (as @ t # bs)" using assms by (rule readyq_distinct)
  have nt: "last_or as None \<noteq> Some t" "first_or bs None \<noteq> Some t" "bs \<noteq> [] \<Longrightarrow> last bs \<noteq> t"
    using last_or_mem [of as t] first_or_mem [of bs t] last_in_set [of bs] dist by auto
  have tail: "last_or bs (Some t) = (if bs = [] then Some t else Some (last bs))"
    by (simp add: last_or_def)
  show ?thesis
  proof (cases as rule: rev_cases)
    case Nil
    then show ?thesis
      using nt p h tc tail
      by (cases bs)
        (auto simp: dequeue_ready_def set_ready_def upd_task_def upd_cpu_def with_queue_def Let_def
          fun_eq_iff last_or_def split: if_splits intro!: cpu_info.equality)
  next
    case (snoc xs x)
    then have "prev_ready (tasks s t) = Some x" "x \<noteq> t"
      "local_ready_head (cpus s c) = first_or (as @ bs) None"
      using p(1) nt h(1) by (cases xs; simp)+
    then show ?thesis
      using nt p h tc snoc tail
      by (cases bs)
        (auto simp: dequeue_ready_def set_ready_def upd_task_def upd_cpu_def with_queue_def Let_def
          fun_eq_iff last_or_def split: if_splits intro!: cpu_info.equality)
  qed
qed


lemma readyqs_queue: "readyqs s rq \<Longrightarrow> readyq s c (rq c)"
  by (simp add: readyqs_def)

lemma readyqs_target: "readyqs s rq \<Longrightarrow> i \<in> set (rq c) \<Longrightarrow> target_cpu (tasks s i) = c"
  using readyqs_queue by (simp add: readyq_def)

lemma readyqs_range: "readyqs s rq \<Longrightarrow> i \<in> set (rq c) \<Longrightarrow> 0 \<le> c \<and> c < total_cpus s"
  unfolding readyqs_def by (metis empty_iff empty_set)

lemma readyqs_unlinked:
  "readyqs s rq \<Longrightarrow> (\<And>c. i \<notin> set (rq c)) \<Longrightarrow> nxr s i = None \<and> pvr s i = None"
  by (simp add: readyqs_def)

lemma readyqs_disjoint: "readyqs s rq \<Longrightarrow> i \<in> set (rq c) \<Longrightarrow> i \<in> set (rq d) \<Longrightarrow> c = d"
  using readyqs_target by metis

text \<open>Steps that leave a queue alone.\<close>

lemma readyqs_cong:
  assumes "readyqs s rq" "\<And>i. nxr s' i = nxr s i \<and> pvr s' i = pvr s i"
    and "\<And>c. local_ready_head (cpus s' c) = local_ready_head (cpus s c) \<and>
      local_ready_tail (cpus s' c) = local_ready_tail (cpus s c) \<and>
      local_task_count (cpus s' c) = local_task_count (cpus s c)"
    and "total_cpus s' = total_cpus s"
    and "\<And>i c. i \<in> set (rq c) \<Longrightarrow> target_cpu (tasks s' i) = target_cpu (tasks s i)"
  shows "readyqs s' rq"
proof -
  have "nxr s' = nxr s" "pvr s' = pvr s" using assms(2) by auto
  then have "readyq s' c (rq c)" for c
    using readyqs_queue [OF assms(1), of c] assms(3,5) by (simp add: readyq_def)
  then show ?thesis using assms by (simp add: readyqs_def)
qed

lemma sleepq_cong:
  assumes "sleepq s ss" "\<And>i. nxs s' i = nxs s i \<and> pvs s' i = pvs s i" "sleep_head s' = sleep_head s"
    and "\<And>i. i \<in> set ss \<Longrightarrow> wake_tick (tasks s' i) = wake_tick (tasks s i)"
  shows "sleepq s' ss"
proof -
  have "nxs s' = nxs s" "pvs s' = pvs s" using assms(2) by auto
  moreover have "sorted (map (\<lambda>i. wake_tick (tasks s' i)) ss)"
    using assms(1,4) by (simp add: sleepq_def cong: map_cong)
  ultimately show ?thesis using assms(1-3) unfolding sleepq_def by simp
qed

lemma readyqs_set_ready:
  assumes rqs: "readyqs s rq" and c: "0 \<le> c \<and> c < total_cpus s"
    and d: "dll nx pv rs" and tc: "\<And>i. i \<in> set rs \<Longrightarrow> target_cpu (tasks s i) = c"
    and other: "\<And>i e. e \<noteq> c \<Longrightarrow> i \<in> set (rq e) \<Longrightarrow> i \<notin> set rs \<and> nx i = nxr s i \<and> pv i = pvr s i"
    and out: "\<And>i. i \<notin> set rs \<Longrightarrow> (\<And>e. e \<noteq> c \<Longrightarrow> i \<notin> set (rq e)) \<Longrightarrow> nx i = None \<and> pv i = None"
  shows "readyqs (set_ready nx pv ((cpus s)(c := with_queue rs (cpus s c))) s) (rq(c := rs))"
proof -
  let ?s = "set_ready nx pv ((cpus s)(c := with_queue rs (cpus s c))) s"
  have "readyq ?s e ((rq(c := rs)) e)" for e
  proof (cases "e = c")
    case True
    then show ?thesis using d tc by (simp add: readyq_def sched_simps)
  next
    case False
    have q: "readyq s e (rq e)" using rqs by (rule readyqs_queue)
    have "dll nx pv (rq e) = dll (nxr s) (pvr s) (rq e)"
      using other [OF False] by (intro dll_cong) auto
    then show ?thesis using False q by (simp add: readyq_def sched_simps)
  qed
  moreover have "nx i = None \<and> pv i = None" if "\<forall>e. i \<notin> set ((rq(c := rs)) e)" for i
    using that by (intro out) (auto split: if_splits dest: spec [of _ c])
  ultimately show ?thesis using rqs c
    by (auto simp: readyqs_def sched_simps)
qed

lemma readyqs_dequeue:
  assumes "readyqs s rq" "t \<in> set (rq c)"
  shows "readyqs (dequeue_ready t s) (rq(c := remove1 t (rq c)))"
    and "\<exists>nx pv. dequeue_ready t s =
      set_ready nx pv ((cpus s)(c := with_queue (remove1 t (rq c)) (cpus s c))) s"
proof -
  obtain as bs where q: "rq c = as @ t # bs" and n: "t \<notin> set as" using assms(2) by (metis split_list_first)
  have rem: "remove1 t (rq c) = as @ bs" using n by (simp add: q remove1_append)
  have rd: "readyq s c (as @ t # bs)" using readyqs_queue [OF assms(1), of c] q by simp
  note eq = dequeue_ready_eq [OF rd]
  then show "\<exists>nx pv. dequeue_ready t s =
      set_ready nx pv ((cpus s)(c := with_queue (remove1 t (rq c)) (cpus s c))) s"
    unfolding rem by blast
  have d: "dll (nxr s) (pvr s) (as @ t # bs)" using rd by (simp add: readyq_def)
  have ne: "i \<notin> set (as @ t # bs)" if "e \<noteq> c" "i \<in> set (rq e)" for i e
    using readyqs_disjoint [OF assms(1), of i e c] that q by auto
  show "readyqs (dequeue_ready t s) (rq(c := remove1 t (rq c)))"
    unfolding rem eq
  proof (rule readyqs_set_ready [OF assms(1)])
    show "0 \<le> c \<and> c < total_cpus s" by (rule readyqs_range [OF assms])
    show "dll ((relink (nxr s) (last_or as None) (first_or bs None))(t := None))
       ((relink (pvr s) (first_or bs None) (last_or as None))(t := None)) (as @ bs)"
      by (rule dll_remove [OF d])
    show "\<And>i. i \<in> set (as @ bs) \<Longrightarrow> target_cpu (tasks s i) = c" using rd by (auto simp: readyq_def)
    show "i \<notin> set (as @ bs) \<and>
        ((relink (nxr s) (last_or as None) (first_or bs None))(t := None)) i = nxr s i \<and>
        ((relink (pvr s) (first_or bs None) (last_or as None))(t := None)) i = pvr s i"
      if "e \<noteq> c" "i \<in> set (rq e)" for i e
      using ne [OF that] last_or_mem [of as] first_or_mem [of bs]
      by (cases "last_or as None"; cases "first_or bs None") auto
    show "((relink (nxr s) (last_or as None) (first_or bs None))(t := None)) i = None \<and>
        ((relink (pvr s) (first_or bs None) (last_or as None))(t := None)) i = None"
      if i: "i \<notin> set (as @ bs)" "\<And>e. e \<noteq> c \<Longrightarrow> i \<notin> set (rq e)" for i
    proof (cases "i = t")
      case False
      have "i \<notin> set (rq e)" for e using i q False by (cases "e = c") auto
      then have "nxr s i = None \<and> pvr s i = None" by (rule readyqs_unlinked [OF assms(1)])
      with False i show ?thesis using last_or_mem [of as] first_or_mem [of bs]
        by (cases "last_or as None"; cases "first_or bs None") auto
    qed simp
  qed
qed

lemma dequeue_ready_unlinked:
  assumes "readyqs s rq" "\<And>c. t \<notin> set (rq c)"
  shows "dequeue_ready t s = s"
proof -
  have "local_ready_head (cpus s c) \<noteq> Some t" for c
    using readyqs_queue [OF assms(1), of c] assms(2) first_or_mem [of "rq c" t] by (auto simp: readyq_def)
  then show ?thesis using assms by (simp add: dequeue_ready_def readyqs_def)
qed

lemma best_cpu_loop_mem: "best_cpu_loop s is b m \<in> insert b (set is)"
  by (induction s "is" b m rule: best_cpu_loop.induct) auto

text \<open>The processor a task is queued on: its own if that is online, else the least loaded.\<close>

definition ready_cpu :: "sched \<Rightarrow> nat \<Rightarrow> int" where
  "ready_cpu s t =
     (let tc = target_cpu (tasks s t) in
      if tc \<ge> 0 \<and> tc < total_cpus s \<and> c_state (cpus s tc) = CPU_STATE_ONLINE then tc else best_cpu s)"

lemma ready_cpu_range: "0 < total_cpus s \<Longrightarrow> 0 \<le> ready_cpu s t \<and> ready_cpu s t < total_cpus s"
  using best_cpu_loop_mem [of s "[0..total_cpus s - 1]" 0 999999]
  by (auto simp: ready_cpu_def best_cpu_def Let_def)

lemma enqueue_ready_queued:
  assumes "readyqs s rq" "t \<in> set (rq c)"
  shows "enqueue_ready t s = s"
proof -
  obtain as bs where q: "rq c = as @ t # bs" using assms(2) by (metis split_list)
  have rd: "readyq s c (as @ t # bs)" using readyqs_queue [OF assms(1), of c] q by simp
  then have d: "dll (nxr s) (pvr s) (as @ t # bs)" and tc: "target_cpu (tasks s t) = c"
    by (simp_all add: readyq_def)
  note p = dll_ptrs [OF d] tc
  have "0 \<le> c \<and> c < total_cpus s" by (rule readyqs_range [OF assms])
  moreover have "as = [] \<Longrightarrow> local_ready_head (cpus s c) = Some t" using rd by (simp add: readyq_def)
  ultimately show ?thesis using p
    by (simp add: enqueue_ready_def last_or_None first_or_None Let_def)
qed

lemma readyqs_enqueue:
  assumes rqs: "readyqs s rq" and t: "\<And>c. t \<notin> set (rq c)"
  defines "c \<equiv> ready_cpu s t"
  shows "readyqs (enqueue_ready t s) (rq(c := rq c @ [t]))"
    and "\<exists>nx pv. enqueue_ready t s =
      set_ready nx pv ((cpus s)(c := with_queue (rq c @ [t]) (cpus s c)))
        (upd_task t (\<lambda>x. x\<lparr>target_cpu := c\<rparr>) s)"
proof -
  let ?s1 = "upd_task t (\<lambda>x. x\<lparr>target_cpu := c\<rparr>) s"
  let ?nx = "(relink (nxr s) (last_or (rq c) None) (Some t))(t := None)"
  let ?pv = "(pvr s)(t := last_or (rq c) None)"
  let ?cs = "(cpus s)(c := with_queue (rq c @ [t]) (cpus s c))"
  have hd: "local_ready_head (cpus s e) \<noteq> Some t" for e
    using readyqs_queue [OF rqs, of e] t first_or_mem [of "rq e" t] by (auto simp: readyq_def)
  have o: "nxr s t = None" "pvr s t = None" using rqs t by (simp_all add: readyqs_def)
  have rd: "readyq s c (rq c)" by (rule readyqs_queue [OF rqs])
  have s1: "(if target_cpu (tasks s t) \<ge> 0 \<and> target_cpu (tasks s t) < total_cpus s \<and>
        c_state (cpus s (target_cpu (tasks s t))) = CPU_STATE_ONLINE then s
      else upd_task t (\<lambda>x. x\<lparr>target_cpu := best_cpu s\<rparr>) s) = ?s1"
  proof -
    have "upd_task t (\<lambda>x. x\<lparr>target_cpu := target_cpu (tasks s t)\<rparr>) s = s" by (rule upd_task_same) simp
    then show ?thesis by (simp add: c_def ready_cpu_def Let_def)
  qed
  have "enqueue_ready t s = set_ready ?nx ?pv ?cs ?s1"
  proof (cases "rq c" rule: rev_cases)
    case Nil
    then show ?thesis using rd hd o unfolding enqueue_ready_def s1 Let_def
      by (simp add: sched_simps readyq_def)
        (simp add: set_ready_def upd_task_def upd_cpu_def with_queue_def fun_eq_iff)
  next
    case (snoc xs x)
    then have "x \<noteq> t" using t [of c] by auto
    then show ?thesis using rd hd o snoc unfolding enqueue_ready_def s1 Let_def
      by (simp add: sched_simps readyq_def)
        (simp add: set_ready_def upd_task_def upd_cpu_def with_queue_def fun_eq_iff)
  qed
  then show "\<exists>nx pv. enqueue_ready t s =
      set_ready nx pv ((cpus s)(c := with_queue (rq c @ [t]) (cpus s c))) ?s1" by blast
  have rqs1: "readyqs ?s1 rq"
    using t by (intro readyqs_cong [OF rqs]) (auto simp: sched_simps)
  have "dll ?nx ?pv (rq c @ [t])"
    using dll_insert [of "nxr s" "pvr s" "rq c" "[]" t] rd t by (simp add: readyq_def)
  then have "readyqs (set_ready ?nx ?pv ((cpus ?s1)(c := with_queue (rq c @ [t]) (cpus ?s1 c))) ?s1)
      (rq(c := rq c @ [t]))"
  proof (rule readyqs_set_ready [OF rqs1, rotated])
    show "0 \<le> c \<and> c < total_cpus ?s1"
      using ready_cpu_range [of s t] rqs by (simp add: c_def readyqs_def sched_simps)
    show "\<And>i. i \<in> set (rq c @ [t]) \<Longrightarrow> target_cpu (tasks ?s1 i) = c"
      using rd by (auto simp: readyq_def sched_simps)
    show "i \<notin> set (rq c @ [t]) \<and> ?nx i = nxr ?s1 i \<and> ?pv i = pvr ?s1 i" if "e \<noteq> c" "i \<in> set (rq e)" for i e
      using readyqs_disjoint [OF rqs, of i e c] that t last_or_mem [of "rq c"]
      by (cases "last_or (rq c) None") (auto simp: sched_simps)
    show "?nx i = None \<and> ?pv i = None" if i: "i \<notin> set (rq c @ [t])" "\<And>e. e \<noteq> c \<Longrightarrow> i \<notin> set (rq e)" for i
    proof -
      have "i \<notin> set (rq e)" for e using i by (cases "e = c") auto
      then have "nxr s i = None \<and> pvr s i = None" by (rule readyqs_unlinked [OF rqs])
      then show ?thesis using i last_or_mem [of "rq c"] by (cases "last_or (rq c) None") auto
    qed
  qed
  then show "readyqs (enqueue_ready t s) (rq(c := rq c @ [t]))"
    using \<open>enqueue_ready t s = set_ready ?nx ?pv ?cs ?s1\<close> by (simp add: sched_simps)
qed


section \<open>The invariant of the scheduler\<close>

text \<open>The queues are well formed, queued tasks are ready, and only waiting tasks sleep. That no ready task is left out of the
  queues is stated apart, by \<open>lost\<close>.\<close>

definition sched_inv :: "sched \<Rightarrow> nat list \<Rightarrow> (int \<Rightarrow> nat list) \<Rightarrow> bool" where
  "sched_inv s ss rq \<longleftrightarrow> sleepq s ss \<and> readyqs s rq \<and>
     (\<forall>c. \<forall>i \<in> set (rq c). t_state (tasks s i) = TASK_READY) \<and>
     (\<forall>i \<in> set ss. t_state (tasks s i) = TASK_BLOCKED \<or> t_state (tasks s i) = TASK_SLEEPING)"

text \<open>No task is current on two processors, and a current task is in no ready queue.\<close>

definition excl :: "sched \<Rightarrow> (int \<Rightarrow> nat list) \<Rightarrow> bool" where
  "excl s rq \<longleftrightarrow>
     (\<forall>c d t. current_task (cpus s c) = Some t \<and> current_task (cpus s d) = Some t \<longrightarrow> c = d) \<and>
     (\<forall>c d t. current_task (cpus s c) = Some t \<longrightarrow> t \<notin> set (rq d))"

lemma sched_invD:
  assumes "sched_inv s ss rq"
  shows "sleepq s ss" "readyqs s rq" "\<And>c i. i \<in> set (rq c) \<Longrightarrow> t_state (tasks s i) = TASK_READY"
    and "\<And>i. i \<in> set ss \<Longrightarrow> t_state (tasks s i) = TASK_BLOCKED \<or> t_state (tasks s i) = TASK_SLEEPING"
  using assms by (auto simp: sched_inv_def)

lemma sched_inv_disjoint:
  "sched_inv s ss rq \<Longrightarrow> i \<in> set (rq c) \<Longrightarrow> i \<notin> set ss"
  by (auto simp: sched_inv_def)

text \<open>Assigning fields of one task that is in no queue.\<close>

lemma sched_inv_upd_task:
  assumes "sched_inv s ss rq" "t \<notin> set ss" "\<And>c. t \<notin> set (rq c)"
    and "\<And>x. next_ready (f x) = next_ready x \<and> prev_ready (f x) = prev_ready x \<and>
      next_sleep (f x) = next_sleep x \<and> prev_sleep (f x) = prev_sleep x"
  shows "sched_inv (upd_task t f s) ss rq"
proof -
  have "sleepq (upd_task t f s) ss"
    using assms by (intro sleepq_cong [OF sched_invD(1) [OF assms(1)]]) (auto simp: sched_simps)
  moreover have "readyqs (upd_task t f s) rq"
    using assms by (intro readyqs_cong [OF sched_invD(2) [OF assms(1)]]) (auto simp: sched_simps)
  ultimately show ?thesis using assms unfolding sched_inv_def by (auto simp: sched_simps)
qed

text \<open>Assigning the same field of any task, if it is no pointer, tick, state or target.\<close>

lemma sched_inv_upd_plain:
  assumes "sched_inv s ss rq"
    and "\<And>x. next_ready (f x) = next_ready x \<and> prev_ready (f x) = prev_ready x \<and>
      next_sleep (f x) = next_sleep x \<and> prev_sleep (f x) = prev_sleep x \<and> wake_tick (f x) = wake_tick x \<and>
      t_state (f x) = t_state x \<and> target_cpu (f x) = target_cpu x"
  shows "sched_inv (upd_task t f s) ss rq"
proof -
  have "sleepq (upd_task t f s) ss"
    using assms by (intro sleepq_cong [OF sched_invD(1) [OF assms(1)]]) (auto simp: sched_simps)
  moreover have "readyqs (upd_task t f s) rq"
    using assms by (intro readyqs_cong [OF sched_invD(2) [OF assms(1)]]) (auto simp: sched_simps)
  ultimately show ?thesis using assms unfolding sched_inv_def by (auto simp: sched_simps)
qed

lemma sched_inv_upd_cpu:
  assumes "sched_inv s ss rq"
    and "\<And>x. local_ready_head (f x) = local_ready_head x \<and> local_ready_tail (f x) = local_ready_tail x \<and>
      local_task_count (f x) = local_task_count x"
  shows "sched_inv (upd_cpu c f s) ss rq"
proof -
  have "sleepq (upd_cpu c f s) ss"
    by (rule sleepq_cong [OF sched_invD(1) [OF assms(1)]]) (simp_all add: sched_simps)
  moreover have "readyqs (upd_cpu c f s) rq"
    using assms(2) by (intro readyqs_cong [OF sched_invD(2) [OF assms(1)]]) (auto simp: sched_simps)
  ultimately show ?thesis using assms unfolding sched_inv_def by (auto simp: sched_simps)
qed

lemma dequeue_sleep_frame:
  assumes "sleepq s ss"
  shows "\<exists>nx pv h. dequeue_sleep t s = set_sleep nx pv h s"
proof (cases "t \<in> set ss")
  case True
  then obtain as bs where "ss = as @ t # bs" by (metis split_list)
  then show ?thesis using dequeue_sleep_eq assms by blast
next
  case False
  then have "dequeue_sleep t s = set_sleep (nxs s) (pvs s) (sleep_head s) s"
    using dequeue_sleep_unlinked [OF assms] by (simp add: set_sleep_def)
  then show ?thesis by blast
qed

lemma sched_inv_dequeue_sleep:
  assumes "sched_inv s ss rq"
  shows "sched_inv (dequeue_sleep t s) (remove1 t ss) rq"
proof -
  note i = sched_invD [OF assms]
  obtain nx pv h where f: "dequeue_sleep t s = set_sleep nx pv h s"
    using dequeue_sleep_frame [OF i(1)] by blast
  have "readyqs (dequeue_sleep t s) rq"
    unfolding f by (rule readyqs_cong [OF i(2)]) (simp_all add: sched_simps)
  moreover have "sleepq (dequeue_sleep t s) (remove1 t ss)" by (rule sleepq_dequeue [OF i(1)])
  ultimately show ?thesis using i(3,4) set_remove1_subset [of t ss]
    unfolding sched_inv_def f by (auto simp: sched_simps)
qed

lemma set_takeWhile_dropWhile: "set (takeWhile P xs) \<union> set (dropWhile P xs) = set xs"
  by (metis set_append takeWhile_dropWhile_id)

lemma sched_inv_enqueue_sleep:
  assumes "sched_inv s ss rq" "t \<notin> set ss"
    and "t_state (tasks s t) = TASK_BLOCKED \<or> t_state (tasks s t) = TASK_SLEEPING"
  shows "\<exists>nx pv h. enqueue_sleep t s = Some (set_sleep nx pv h s) \<and>
    sched_inv (set_sleep nx pv h s) (insert_sleep s t ss) rq"
proof -
  note i = sched_invD [OF assms(1)]
  obtain nx pv h where f: "enqueue_sleep t s = Some (set_sleep nx pv h s)"
    and q: "sleepq (set_sleep nx pv h s) (insert_sleep s t ss)"
    using sleepq_enqueue [OF i(1) assms(2)] by blast
  have "readyqs (set_sleep nx pv h s) rq"
    by (rule readyqs_cong [OF i(2)]) (simp_all add: sched_simps)
  moreover have "set (insert_sleep s t ss) = insert t (set ss)"
    using set_takeWhile_dropWhile [of "sleep_before s t" ss] by (simp add: insert_sleep_def)
  ultimately have "sched_inv (set_sleep nx pv h s) (insert_sleep s t ss) rq"
    using q i(3,4) assms(3) unfolding sched_inv_def by (auto simp: sched_simps)
  with f show ?thesis by blast
qed

lemma sched_inv_dequeue_ready:
  assumes "sched_inv s ss rq" "t \<in> set (rq c)"
  shows "sched_inv (dequeue_ready t s) ss (rq(c := remove1 t (rq c)))"
proof -
  note i = sched_invD [OF assms(1)]
  obtain nx pv where f: "dequeue_ready t s =
      set_ready nx pv ((cpus s)(c := with_queue (remove1 t (rq c)) (cpus s c))) s"
    using readyqs_dequeue(2) [OF i(2) assms(2)] by blast
  have "sleepq (dequeue_ready t s) ss"
    unfolding f by (rule sleepq_cong [OF i(1)]) (simp_all add: sched_simps)
  moreover have "readyqs (dequeue_ready t s) (rq(c := remove1 t (rq c)))"
    by (rule readyqs_dequeue(1) [OF i(2) assms(2)])
  ultimately show ?thesis using i(3,4) set_remove1_subset [of t "rq c"]
    unfolding sched_inv_def f by (auto simp: sched_simps)
qed

lemma sched_inv_enqueue_ready:
  assumes "sched_inv s ss rq" "\<And>c. t \<notin> set (rq c)" "t_state (tasks s t) = TASK_READY"
  defines "c \<equiv> ready_cpu s t"
  shows "sched_inv (enqueue_ready t s) ss (rq(c := rq c @ [t]))"
proof -
  note i = sched_invD [OF assms(1)]
  obtain nx pv where f: "enqueue_ready t s =
      set_ready nx pv ((cpus s)(c := with_queue (rq c @ [t]) (cpus s c)))
        (upd_task t (\<lambda>x. x\<lparr>target_cpu := c\<rparr>) s)"
    using readyqs_enqueue(2) [OF i(2) assms(2)] unfolding c_def by blast
  have "sleepq (enqueue_ready t s) ss"
    unfolding f by (rule sleepq_cong [OF i(1)]) (simp_all add: sched_simps)
  moreover have "readyqs (enqueue_ready t s) (rq(c := rq c @ [t]))"
    unfolding c_def by (rule readyqs_enqueue(1) [OF i(2) assms(2)])
  ultimately show ?thesis using i(3,4) i(4) [of t] assms(3)
    unfolding sched_inv_def f by (auto simp: sched_simps)
qed


section \<open>What the queue operations leave alone\<close>

text \<open>\<open>s'\<close> is \<open>s\<close> with other queue pointers, queue headers or target processors.\<close>

definition task_core :: "task \<Rightarrow> task" where
  "task_core x = x\<lparr>next_ready := None, prev_ready := None, next_sleep := None, prev_sleep := None,
     target_cpu := 0\<rparr>"

definition cpu_core :: "cpu_info \<Rightarrow> cpu_info" where
  "cpu_core x = x\<lparr>local_ready_head := None, local_ready_tail := None, local_task_count := 0\<rparr>"

definition only_links :: "sched \<Rightarrow> sched \<Rightarrow> bool" where
  "only_links s s' \<longleftrightarrow>
     (\<forall>i. task_core (tasks s' i) = task_core (tasks s i)) \<and>
     (\<forall>k. cpu_core (cpus s' k) = cpu_core (cpus s k)) \<and>
     s'\<lparr>tasks := tasks s, cpus := cpus s, sleep_head := sleep_head s\<rparr> = s"

lemma only_links_refl [simp]: "only_links s s"
  by (simp add: only_links_def)

lemma only_links_trans:
  assumes "only_links s t" "only_links t u"
  shows "only_links s u"
proof -
  have "u\<lparr>tasks := tasks t, cpus := cpus t, sleep_head := sleep_head t\<rparr> = t" using assms(2)
    by (simp add: only_links_def)
  then have "(u\<lparr>tasks := tasks t, cpus := cpus t, sleep_head := sleep_head t\<rparr>)
      \<lparr>tasks := tasks s, cpus := cpus s, sleep_head := sleep_head s\<rparr> = s"
    using assms(1) by (simp add: only_links_def)
  then show ?thesis using assms by (simp add: only_links_def)
qed

lemma task_core_fields:
  "t_state (task_core x) = t_state x" "wake_tick (task_core x) = wake_tick x"
  "fs_base (task_core x) = fs_base x" "gs_base (task_core x) = gs_base x" "cr3 (task_core x) = cr3 x"
  "t_id (task_core x) = t_id x" "waiting_sem (task_core x) = waiting_sem x"
  "signal_pending (task_core x) = signal_pending x" "kernel_stack_top (task_core x) = kernel_stack_top x"
  "user_rsp (task_core x) = user_rsp x" "tgid (task_core x) = tgid x" "parent_id (task_core x) = parent_id x"
  by (simp_all add: task_core_def)

lemma cpu_core_fields:
  "current_task (cpu_core x) = current_task x" "idle_task (cpu_core x) = idle_task x"
  "c_state (cpu_core x) = c_state x" "sched_ticks (cpu_core x) = sched_ticks x"
  "msr_fs_base (cpu_core x) = msr_fs_base x" "msr_kernel_gs_base (cpu_core x) = msr_kernel_gs_base x"
  "reg_cr3 (cpu_core x) = reg_cr3 x" "cpu_index (cpu_core x) = cpu_index x"
  by (simp_all add: cpu_core_def)

lemma only_links_task: "only_links s s' \<Longrightarrow> (\<And>x. f (task_core x) = f x) \<Longrightarrow> f (tasks s' i) = f (tasks s i)"
  unfolding only_links_def by metis

lemma only_links_cpu: "only_links s s' \<Longrightarrow> (\<And>x. f (cpu_core x) = f x) \<Longrightarrow> f (cpus s' k) = f (cpus s k)"
  unfolding only_links_def by metis

lemma only_links_global:
  assumes "only_links s s'"
  shows "total_cpus s' = total_cpus s" "scheduler_active s' = scheduler_active s"
    "task_count s' = task_count s" "ipis s' = ipis s"
proof -
  have e: "s'\<lparr>tasks := tasks s, cpus := cpus s, sleep_head := sleep_head s\<rparr> = s"
    using assms by (simp add: only_links_def)
  show "total_cpus s' = total_cpus s" "scheduler_active s' = scheduler_active s"
    "task_count s' = task_count s" "ipis s' = ipis s"
    by (subst e [symmetric], simp)+
qed

lemmas only_links_fields =
  only_links_task [where f = t_state, OF _ task_core_fields(1)]
  only_links_task [where f = wake_tick, OF _ task_core_fields(2)]
  only_links_task [where f = fs_base, OF _ task_core_fields(3)]
  only_links_task [where f = gs_base, OF _ task_core_fields(4)]
  only_links_task [where f = cr3, OF _ task_core_fields(5)]
  only_links_task [where f = waiting_sem, OF _ task_core_fields(7)]
  only_links_task [where f = signal_pending, OF _ task_core_fields(8)]
  only_links_cpu [where f = current_task, OF _ cpu_core_fields(1)]
  only_links_cpu [where f = idle_task, OF _ cpu_core_fields(2)]
  only_links_cpu [where f = c_state, OF _ cpu_core_fields(3)]
  only_links_cpu [where f = sched_ticks, OF _ cpu_core_fields(4)]
  only_links_cpu [where f = msr_fs_base, OF _ cpu_core_fields(5)]
  only_links_cpu [where f = msr_kernel_gs_base, OF _ cpu_core_fields(6)]
  only_links_cpu [where f = reg_cr3, OF _ cpu_core_fields(7)]
  only_links_global

lemma only_links_upd_task: "(\<And>x. task_core (f x) = task_core x) \<Longrightarrow> only_links s (upd_task t f s)"
  by (simp add: only_links_def upd_task_def)

lemma only_links_upd_cpu: "(\<And>x. cpu_core (f x) = cpu_core x) \<Longrightarrow> only_links s (upd_cpu c f s)"
  by (simp add: only_links_def upd_cpu_def)

lemma only_links_head: "only_links s (s\<lparr>sleep_head := h\<rparr>)"
  by (simp add: only_links_def)

lemma only_links_set_sleep: "only_links s (set_sleep nx pv h s)"
  by (simp add: only_links_def set_sleep_def task_core_def)

lemma only_links_set_ready:
  "(\<And>d. cpu_core (cs d) = cpu_core (cpus s d)) \<Longrightarrow> only_links s (set_ready nx pv cs s)"
  by (simp add: only_links_def set_ready_def task_core_def)

lemma only_links_dequeue_sleep: "sleepq s ss \<Longrightarrow> only_links s (dequeue_sleep t s)"
  using dequeue_sleep_frame only_links_set_sleep by metis

lemma only_links_dequeue_ready: "readyqs s rq \<Longrightarrow> only_links s (dequeue_ready t s)"
proof (cases "\<exists>c. t \<in> set (rq c)")
  case True
  assume "readyqs s rq"
  from readyqs_dequeue(2) [OF this] True show ?thesis
    using only_links_set_ready by (fastforce simp: with_queue_def cpu_core_def)
next
  case False
  assume "readyqs s rq"
  then show ?thesis using False dequeue_ready_unlinked by simp
qed

lemma only_links_enqueue_ready: "readyqs s rq \<Longrightarrow> only_links s (enqueue_ready t s)"
proof (cases "\<exists>c. t \<in> set (rq c)")
  case True
  assume "readyqs s rq"
  with True enqueue_ready_queued show ?thesis by force
next
  case False
  assume r: "readyqs s rq"
  let ?c = "ready_cpu s t"
  let ?s1 = "upd_task t (\<lambda>x. x\<lparr>target_cpu := ?c\<rparr>) s"
  obtain nx pv where e: "enqueue_ready t s =
      set_ready nx pv ((cpus s)(?c := with_queue (rq ?c @ [t]) (cpus s ?c))) ?s1"
    using readyqs_enqueue(2) [OF r, of t] False by blast
  have "only_links s ?s1" by (rule only_links_upd_task) (simp add: task_core_def)
  moreover have "only_links ?s1 (enqueue_ready t s)" unfolding e
    by (rule only_links_set_ready) (simp add: sched_simps with_queue_def cpu_core_def)
  ultimately show ?thesis by (rule only_links_trans)
qed


lemma target_dequeue_ready: "readyqs s rq \<Longrightarrow> target_cpu (tasks (dequeue_ready t s) i) = target_cpu (tasks s i)"
proof (cases "\<exists>c. t \<in> set (rq c)")
  case True
  assume "readyqs s rq"
  from readyqs_dequeue(2) [OF this] True show ?thesis by (fastforce simp: sched_simps)
qed (simp add: dequeue_ready_unlinked)

lemma target_enqueue_ready:
  "readyqs s rq \<Longrightarrow> i \<noteq> t \<Longrightarrow> target_cpu (tasks (enqueue_ready t s) i) = target_cpu (tasks s i)"
proof (cases "\<exists>c. t \<in> set (rq c)")
  case True
  assume "readyqs s rq"
  with True enqueue_ready_queued show ?thesis by force
next
  case False
  assume "readyqs s rq" "i \<noteq> t"
  with readyqs_enqueue(2) [OF this(1), of t] False show ?thesis by (fastforce simp: sched_simps)
qed

lemma target_dequeue_sleep: "sleepq s ss \<Longrightarrow> target_cpu (tasks (dequeue_sleep t s) i) = target_cpu (tasks s i)"
  using dequeue_sleep_frame [of s ss t] by (auto simp: sched_simps)

section \<open>Waking and switching keep the invariant\<close>

lemma sched_inv_wake:
  assumes inv: "sched_inv s ss rq" and t: "\<And>c. t \<notin> set (rq c)"
    and f: "\<And>x. next_ready (f x) = next_ready x \<and> prev_ready (f x) = prev_ready x \<and>
      next_sleep (f x) = next_sleep x \<and> prev_sleep (f x) = prev_sleep x \<and> wake_tick (f x) = wake_tick x"
  shows "sched_inv (dequeue_sleep t (upd_task t f s)) (remove1 t ss) rq"
proof -
  note i = sched_invD [OF inv]
  let ?s1 = "upd_task t f s"
  have s1: "sleepq ?s1 ss" using f by (intro sleepq_cong [OF i(1)]) (auto simp: sched_simps)
  have r1: "readyqs ?s1 rq" using f t by (intro readyqs_cong [OF i(2)]) (auto simp: sched_simps)
  obtain nx pv h where d: "dequeue_sleep t ?s1 = set_sleep nx pv h ?s1"
    using dequeue_sleep_frame [OF s1] by blast
  have "readyqs (dequeue_sleep t ?s1) rq"
    unfolding d by (rule readyqs_cong [OF r1]) (simp_all add: sched_simps)
  moreover have "set (remove1 t ss) = set ss - {t}"
    using sleepq_distinct [OF i(1)] by simp
  ultimately show ?thesis using sleepq_dequeue [OF s1, of t] i(3,4) t
    unfolding sched_inv_def d by (auto simp: sched_simps)
qed

lemma sched_inv_dequeue_any:
  assumes "sched_inv s ss rq"
  shows "sched_inv (dequeue_ready t s) ss (\<lambda>d. remove1 t (rq d))"
proof (cases "\<exists>c. t \<in> set (rq c)")
  case True
  then obtain c where c: "t \<in> set (rq c)" ..
  have "t \<notin> set (rq d)" if "d \<noteq> c" for d
    using readyqs_disjoint [OF sched_invD(2) [OF assms] c] that by blast
  then have "(\<lambda>d. remove1 t (rq d)) = rq(c := remove1 t (rq c))" by (simp add: fun_eq_iff remove1_idem)
  then show ?thesis using sched_inv_dequeue_ready [OF assms c] by simp
next
  case False
  then have "(\<lambda>d. remove1 t (rq d)) = rq" by (auto simp: fun_eq_iff remove1_idem)
  then show ?thesis using False dequeue_ready_unlinked [OF sched_invD(2) [OF assms]] assms by simp
qed

abbreviation "runnable s t \<equiv> t_state (tasks s t) = TASK_RUNNING \<or> t_state (tasks s t) = TASK_READY"

text \<open>The ready queues after a switch away from \<open>cur\<close> to \<open>n\<close>.\<close>

definition queues_after :: "sched \<Rightarrow> nat \<Rightarrow> nat \<Rightarrow> (int \<Rightarrow> nat list) \<Rightarrow> int \<Rightarrow> nat list" where
  "queues_after s cur n rq =
     (\<lambda>d. remove1 n ((if runnable s cur then rq(ready_cpu s cur := rq (ready_cpu s cur) @ [cur]) else rq) d))"

lemma ready_cpu_cong:
  assumes "target_cpu (tasks s' t) = target_cpu (tasks s t)" "total_cpus s' = total_cpus s"
    and "\<And>d. c_state (cpus s' d) = c_state (cpus s d) \<and>
      local_task_count (cpus s' d) = local_task_count (cpus s d)"
  shows "ready_cpu s' t = ready_cpu s t"
proof -
  have "best_cpu_loop s' is b m = best_cpu_loop s is b m" for "is" b m
    using assms(3) by (induction s "is" b m rule: best_cpu_loop.induct) auto
  then show ?thesis using assms by (simp add: ready_cpu_def best_cpu_def Let_def)
qed

text \<open>The first half of \<open>switch_to\<close>: put the current task back if it can run.\<close>

lemma requeue_inv:
  assumes inv: "sched_inv s ss rq" and out: "\<And>d. cur \<notin> set (rq d)"
  defines "s2 \<equiv> (if runnable s cur then enqueue_ready cur (upd_task cur (\<lambda>x. x\<lparr>t_state := TASK_READY\<rparr>) s) else s)"
  shows "sched_inv s2 ss (if runnable s cur then rq(ready_cpu s cur := rq (ready_cpu s cur) @ [cur]) else rq)"
    and "only_links (if runnable s cur then upd_task cur (\<lambda>x. x\<lparr>t_state := TASK_READY\<rparr>) s else s) s2"
proof -
  let ?s1 = "upd_task cur (\<lambda>x. x\<lparr>t_state := TASK_READY\<rparr>) s"
  have ns: "cur \<notin> set ss" if "runnable s cur" using that sched_invD(4) [OF inv, of cur] by auto
  have i1: "sched_inv ?s1 ss rq" if "runnable s cur"
    by (rule sched_inv_upd_task [OF inv ns [OF that] out]) simp
  have "ready_cpu ?s1 cur = ready_cpu s cur" by (rule ready_cpu_cong) (simp_all add: sched_simps)
  then show "sched_inv s2 ss (if runnable s cur then rq(ready_cpu s cur := rq (ready_cpu s cur) @ [cur]) else rq)"
    using inv sched_inv_enqueue_ready [OF i1 out] by (simp add: s2_def sched_simps)
  show "only_links (if runnable s cur then ?s1 else s) s2"
    using only_links_enqueue_ready [OF sched_invD(2) [OF i1]] by (simp add: s2_def)
qed

lemma switch_to_spec:
  assumes inv: "sched_inv s ss rq" and ex: "excl s rq" and cur: "current_task (cpus s c) = Some cur"
    and n: "n \<noteq> cur"
  defines "t \<equiv> switch_to c cur n s"
  shows "sched_inv t (remove1 n ss) (queues_after s cur n rq)"
    and "excl t (queues_after s cur n rq) \<longleftrightarrow> (\<forall>d. d \<noteq> c \<longrightarrow> current_task (cpus s d) \<noteq> Some n)"
    and "current_task (cpus t c) = Some n" "t_state (tasks t n) = TASK_RUNNING"
    and "runnable s cur \<Longrightarrow> t_state (tasks t cur) = TASK_READY"
    and "\<And>i. i \<noteq> cur \<Longrightarrow> i \<noteq> n \<Longrightarrow> t_state (tasks t i) = t_state (tasks s i)"
    and "fs_base (tasks t cur) = msr_fs_base (cpus s c)" "gs_base (tasks t cur) = msr_kernel_gs_base (cpus s c)"
    and "msr_fs_base (cpus t c) = fs_base (tasks s n)" "msr_kernel_gs_base (cpus t c) = gs_base (tasks s n)"
    and "cr3 (tasks s n) \<noteq> 0 \<Longrightarrow> reg_cr3 (cpus t c) = cr3 (tasks s n)"
    and "target_cpu (tasks t n) = target_cpu (tasks s n)"
    and "sched_ticks (cpus t c) = 0" "\<And>d. c_state (cpus t d) = c_state (cpus s d)"
    and "total_cpus t = total_cpus s" "scheduler_active t = scheduler_active s"
    and "\<not> runnable s cur \<Longrightarrow> t_state (tasks t cur) = t_state (tasks s cur)"
    and "\<And>d. d \<noteq> c \<Longrightarrow> current_task (cpus t d) = current_task (cpus s d)"
proof -
  define s1 where "s1 = upd_cpu c (\<lambda>x. x\<lparr>sched_ticks := 0\<rparr>) s"
  define b where "b = (if runnable s1 cur then upd_task cur (\<lambda>x. x\<lparr>t_state := TASK_READY\<rparr>) s1 else s1)"
  define s2 where "s2 = (if runnable s1 cur
     then enqueue_ready cur (upd_task cur (\<lambda>x. x\<lparr>t_state := TASK_READY\<rparr>) s1) else s1)"
  define s3 where "s3 = upd_task cur (\<lambda>x. x\<lparr>fs_base := msr_fs_base (cpus s2 c),
     gs_base := msr_kernel_gs_base (cpus s2 c)\<rparr>) s2"
  define s4 where "s4 = (if t_state (tasks s3 n) = TASK_READY then dequeue_ready n s3 else s3)"
  define s6 where "s6 = dequeue_sleep n (upd_task n (\<lambda>x. x\<lparr>t_state := TASK_RUNNING\<rparr>) s4)"
  define s7 where "s7 = upd_task n (\<lambda>x. x\<lparr>wake_tick := 0\<rparr>) s6"
  define rq1 where "rq1 = (if runnable s cur then rq(ready_cpu s cur := rq (ready_cpu s cur) @ [cur]) else rq)"
  have t: "t = upd_cpu c (\<lambda>x. x\<lparr>current_task := Some n, tss_rsp0 := kernel_stack_top (tasks s7 n),
             c_kernel_stack_top := kernel_stack_top (tasks s7 n), user_stack_scratch := user_rsp (tasks s7 n),
             msr_fs_base := fs_base (tasks s7 n), msr_kernel_gs_base := gs_base (tasks s7 n),
             reg_cr3 := (if cr3 (tasks s7 n) \<noteq> reg_cr3 x \<and> cr3 (tasks s7 n) \<noteq> 0 then cr3 (tasks s7 n)
               else reg_cr3 x)\<rparr>) s7"
    unfolding t_def switch_to_def Let_def s7_def s6_def s4_def s3_def s2_def s1_def by (rule refl)
  have out: "\<And>d. cur \<notin> set (rq d)" using ex cur unfolding excl_def by blast
  have i1: "sched_inv s1 ss rq" unfolding s1_def by (rule sched_inv_upd_cpu [OF inv]) simp
  have rc: "ready_cpu s1 cur = ready_cpu s cur" "runnable s1 cur = runnable s cur"
    unfolding s1_def by (rule ready_cpu_cong; simp add: sched_simps) (simp add: sched_simps)
  have i2: "sched_inv s2 ss rq1"
    using requeue_inv(1) [OF i1 out] unfolding s2_def rq1_def rc by simp
  have l2: "only_links b s2" using requeue_inv(2) [OF i1 out] unfolding s2_def b_def by simp
  have i3: "sched_inv s3 ss rq1" unfolding s3_def by (rule sched_inv_upd_plain [OF i2]) simp
  have q4: "queues_after s cur n rq = (\<lambda>d. remove1 n (rq1 d))" by (simp add: queues_after_def rq1_def)
  have i4: "sched_inv s4 ss (\<lambda>d. remove1 n (rq1 d))"
  proof (cases "t_state (tasks s3 n) = TASK_READY")
    case True
    then show ?thesis using sched_inv_dequeue_any [OF i3] by (simp add: s4_def)
  next
    case False
    then have "\<And>d. n \<notin> set (rq1 d)" using sched_invD(3) [OF i3] by blast
    then show ?thesis using False i3 by (simp add: s4_def remove1_idem)
  qed
  have l4: "only_links s3 s4" using only_links_dequeue_ready [OF sched_invD(2) [OF i3]] by (simp add: s4_def)
  have n4: "\<And>d. n \<notin> set (remove1 n (rq1 d))"
    using readyq_distinct [OF readyqs_queue [OF sched_invD(2) [OF i3]]] by simp
  have i6: "sched_inv s6 (remove1 n ss) (\<lambda>d. remove1 n (rq1 d))"
    unfolding s6_def by (rule sched_inv_wake [OF i4 n4]) simp
  have sl: "sleepq (upd_task n (\<lambda>x. x\<lparr>t_state := TASK_RUNNING\<rparr>) s4) ss"
    by (rule sleepq_cong [OF sched_invD(1) [OF i4]]) (auto simp: sched_simps)
  have l6: "only_links (upd_task n (\<lambda>x. x\<lparr>t_state := TASK_RUNNING\<rparr>) s4) s6"
    unfolding s6_def by (rule only_links_dequeue_sleep [OF sl])
  have "n \<notin> set (remove1 n ss)" using sleepq_distinct [OF sched_invD(1) [OF inv]] by simp
  then have "sched_inv s7 (remove1 n ss) (\<lambda>d. remove1 n (rq1 d))"
    unfolding s7_def by (rule sched_inv_upd_task [OF i6 _ n4]) simp
  then show "sched_inv t (remove1 n ss) (queues_after s cur n rq)"
    unfolding t q4 by (rule sched_inv_upd_cpu) simp
  have ct: "current_task (cpus s7 d) = current_task (cpus s d)" for d
    by (simp add: s7_def sched_simps only_links_fields [OF l6] only_links_fields [OF l4] s3_def
        only_links_fields [OF l2] b_def s1_def)
  show "current_task (cpus t c) = Some n" by (simp add: t sched_simps)
  have cd: "current_task (cpus t d) = (if d = c then Some n else current_task (cpus s d))" for d
    by (simp add: t sched_simps ct)
  have mem: "set (remove1 n (rq1 d)) \<subseteq> insert cur (set (rq d)) - {n}" for d
    using n4 [of d] set_remove1_subset [of n "rq1 d"] by (auto simp: rq1_def split: if_splits)
  have off: "x \<notin> set (remove1 n (rq1 e))" if x: "current_task (cpus t d) = Some x" for d e x
  proof (cases "d = c")
    case True
    with x n4 show ?thesis by (simp add: cd)
  next
    case False
    with x have d: "current_task (cpus s d) = Some x" by (simp add: cd)
    then have "x \<noteq> cur" "x \<notin> set (rq e)" using ex cur False unfolding excl_def by blast+
    with mem [of e] show ?thesis by auto
  qed
  have once: "d = e" if "\<forall>d. d \<noteq> c \<longrightarrow> current_task (cpus s d) \<noteq> Some n"
      "current_task (cpus t d) = Some x" "current_task (cpus t e) = Some x" for d e x
    using ex that by (auto simp: cd excl_def split: if_splits)
  have twice: "\<not> excl t (queues_after s cur n rq)" if "d \<noteq> c" "current_task (cpus s d) = Some n" for d
    using that cd [of d] cd [of c] unfolding excl_def by force
  show "excl t (queues_after s cur n rq) \<longleftrightarrow> (\<forall>d. d \<noteq> c \<longrightarrow> current_task (cpus s d) \<noteq> Some n)"
    using off once twice unfolding excl_def q4 by blast
  have st: "t_state (tasks t i) = (if i = n then TASK_RUNNING else if i = cur \<and> runnable s cur then TASK_READY
      else t_state (tasks s i))" for i
    by (simp add: t sched_simps s7_def only_links_fields [OF l6] only_links_fields [OF l4] s3_def
        only_links_fields [OF l2] b_def s1_def)
  show "t_state (tasks t n) = TASK_RUNNING" by (simp add: st)
  show "runnable s cur \<Longrightarrow> t_state (tasks t cur) = TASK_READY" using n by (simp add: st)
  show "\<And>i. i \<noteq> cur \<Longrightarrow> i \<noteq> n \<Longrightarrow> t_state (tasks t i) = t_state (tasks s i)" by (simp add: st)
  show "\<not> runnable s cur \<Longrightarrow> t_state (tasks t cur) = t_state (tasks s cur)" using n by (simp add: st)
  show "\<And>d. d \<noteq> c \<Longrightarrow> current_task (cpus t d) = current_task (cpus s d)" by (simp add: cd)
  show "fs_base (tasks t cur) = msr_fs_base (cpus s c)" "gs_base (tasks t cur) = msr_kernel_gs_base (cpus s c)"
    using n by (simp_all add: t sched_simps s7_def only_links_fields [OF l6] only_links_fields [OF l4] s3_def
        only_links_fields [OF l2] b_def s1_def)
  show "msr_fs_base (cpus t c) = fs_base (tasks s n)" "msr_kernel_gs_base (cpus t c) = gs_base (tasks s n)"
    "cr3 (tasks s n) \<noteq> 0 \<Longrightarrow> reg_cr3 (cpus t c) = cr3 (tasks s n)"
    using n by (simp_all add: t sched_simps s7_def only_links_fields [OF l6] only_links_fields [OF l4] s3_def
        only_links_fields [OF l2] b_def s1_def)
  have "target_cpu (tasks s2 n) = target_cpu (tasks s n)"
    using n target_enqueue_ready [of "upd_task cur (\<lambda>x. x\<lparr>t_state := TASK_READY\<rparr>) s1" rq n cur]
      readyqs_cong [OF sched_invD(2) [OF i1], of "upd_task cur (\<lambda>x. x\<lparr>t_state := TASK_READY\<rparr>) s1"]
    by (simp add: s2_def sched_simps s1_def)
  then show "target_cpu (tasks t n) = target_cpu (tasks s n)"
    using n target_dequeue_ready [OF sched_invD(2) [OF i3], of n n] target_dequeue_sleep [OF sl, of n n]
    by (simp add: t sched_simps s7_def s6_def s4_def s3_def split: if_splits)
  show "sched_ticks (cpus t c) = 0" "\<And>d. c_state (cpus t d) = c_state (cpus s d)"
    "total_cpus t = total_cpus s" "scheduler_active t = scheduler_active s"
    by (simp_all add: t sched_simps s7_def only_links_fields [OF l6] only_links_fields [OF l4] s3_def
        only_links_fields [OF l2] b_def s1_def)
qed

section \<open>The scheduler\<close>

lemma sched_inv_counters:
  assumes "tasks s' = tasks s" "cpus s' = cpus s" "total_cpus s' = total_cpus s" "sleep_head s' = sleep_head s"
  shows "sched_inv s' ss rq = sched_inv s ss rq" "excl s' rq = excl s rq"
  using assms by (simp_all add: sched_inv_def sleepq_def readyqs_def readyq_def excl_def)

lemma count_tick_fields [sched_simps]:
  "tasks (count_tick s) = tasks s" "cpus (count_tick s) = cpus s"
  "total_cpus (count_tick s) = total_cpus s" "sleep_head (count_tick s) = sleep_head s"
  "scheduler_active (count_tick s) = scheduler_active s"
  by (simp_all add: count_tick_def Let_def)

text \<open>What \<open>pick_next\<close> chooses: the head of the ready queue, the current task, or idle.\<close>

definition choice :: "sched \<Rightarrow> int \<Rightarrow> nat \<Rightarrow> nat list \<Rightarrow> nat" where
  "choice s c cur q =
     (case q of
        n # _ \<Rightarrow> n
      | [] \<Rightarrow> if runnable s cur then cur else (case idle_task (cpus s c) of Some i \<Rightarrow> i | None \<Rightarrow> 0))"

lemma pick_next_spec:
  assumes "readyqs s rq"
  shows "fst (pick_next c cur s) = choice s c cur (rq c)"
    and "tasks (snd (pick_next c cur s)) = tasks s" "cpus (snd (pick_next c cur s)) = cpus s"
      "total_cpus (snd (pick_next c cur s)) = total_cpus s"
      "sleep_head (snd (pick_next c cur s)) = sleep_head s"
      "scheduler_active (snd (pick_next c cur s)) = scheduler_active s"
proof -
  have "local_ready_head (cpus s c) = first_or (rq c) None"
    using readyqs_queue [OF assms, of c] by (simp add: readyq_def)
  then show "fst (pick_next c cur s) = choice s c cur (rq c)"
    by (cases "rq c") (auto simp: pick_next_def find_next_task_def choice_def split: option.splits)
qed (simp_all add: pick_next_def split: option.splits)

text \<open>A state that differs only in the load counters.\<close>

definition same_sched :: "sched \<Rightarrow> sched \<Rightarrow> bool" where
  "same_sched s s' \<longleftrightarrow> tasks s' = tasks s \<and> cpus s' = cpus s \<and> total_cpus s' = total_cpus s \<and>
     scheduler_active s' = scheduler_active s \<and> sleep_head s' = sleep_head s"

lemma same_sched_inv:
  "same_sched s s' \<Longrightarrow> sched_inv s' ss rq = sched_inv s ss rq"
  "same_sched s s' \<Longrightarrow> excl s' rq = excl s rq"
  by (rule sched_inv_counters; simp add: same_sched_def)+

lemma schedule_unfold:
  assumes inv: "sched_inv s ss rq" and act: "scheduler_active s" and cur: "current_task (cpus s c) = Some cur"
  shows "\<exists>s2. same_sched s s2 \<and> schedule (Some c) s = resume_or_switch c cur (choice s c cur (rq c)) s2"
proof -
  let ?s1 = "count_tick s"
  let ?s2 = "snd (pick_next c cur ?s1)"
  have r1: "readyqs ?s1 rq" by (rule readyqs_cong [OF sched_invD(2) [OF inv]]) (simp_all add: sched_simps)
  note p = pick_next_spec [OF r1, of c cur]
  have n: "fst (pick_next c cur ?s1) = choice s c cur (rq c)"
    unfolding p(1) by (cases "rq c") (simp_all add: choice_def sched_simps)
  have e: "pick_next c cur ?s1 = (choice s c cur (rq c), ?s2)" using n by (simp add: prod_eq_iff)
  have "same_sched s ?s2" by (simp add: p sched_simps same_sched_def)
  moreover have "schedule (Some c) s = resume_or_switch c cur (choice s c cur (rq c)) ?s2"
    unfolding schedule_def Let_def using act cur by (simp, subst e, simp)
  ultimately show ?thesis by blast
qed

lemma excl_cong:
  "(\<And>d. current_task (cpus s' d) = current_task (cpus s d)) \<Longrightarrow> excl s' rq = excl s rq"
  by (simp add: excl_def)

lemma excl_upd_task: "excl (upd_task t f s) rq = excl s rq"
  by (simp add: excl_def sched_simps)

lemma excl_only_links: "only_links s s' \<Longrightarrow> excl s' rq = excl s rq"
  by (simp add: excl_def only_links_fields)

text \<open>The task that runs when no other can: the processor's idle task, or slot 0 if it has none.\<close>

definition fallback :: "sched \<Rightarrow> int \<Rightarrow> nat" where
  "fallback s c = (case idle_task (cpus s c) of Some i \<Rightarrow> i | None \<Rightarrow> 0)"

text \<open>A task that is ready, but neither in a ready queue nor on a processor, never runs again.\<close>

definition lost :: "sched \<Rightarrow> (int \<Rightarrow> nat list) \<Rightarrow> nat \<Rightarrow> bool" where
  "lost s rq i \<longleftrightarrow> t_state (tasks s i) = TASK_READY \<and> (\<forall>d. i \<notin> set (rq d)) \<and> (\<forall>d. current_task (cpus s d) \<noteq> Some i)"

lemma lost_cong:
  "tasks s' = tasks s \<Longrightarrow> (\<And>d. current_task (cpus s' d) = current_task (cpus s d)) \<Longrightarrow> lost s' rq i = lost s rq i"
  by (simp add: lost_def)

lemma switch_to_not_lost:
  assumes "sched_inv s ss rq" and "excl s rq" and "current_task (cpus s c) = Some cur" and "n \<noteq> cur"
    and l: "lost (switch_to c cur n s) (queues_after s cur n rq) i"
  shows "lost s rq i"
proof -
  note sw = switch_to_spec [OF assms(1-4)]
  have "i \<noteq> n" using l sw(4) by (auto simp: lost_def)
  moreover have "i \<noteq> cur"
  proof
    assume i: "i = cur"
    then have "runnable s cur" using l sw(17) unfolding lost_def by metis
    then have "cur \<in> set (queues_after s cur n rq (ready_cpu s cur))" using assms(4) by (simp add: queues_after_def)
    then show False using l i by (auto simp: lost_def)
  qed
  ultimately have "t_state (tasks s i) = TASK_READY" "\<forall>d. current_task (cpus s d) \<noteq> Some i" "\<forall>d. i \<notin> set (rq d)"
  proof -
    assume ne: "i \<noteq> n" "i \<noteq> cur"
    show "t_state (tasks s i) = TASK_READY" using l sw(6) ne by (simp add: lost_def)
    show "\<forall>d. current_task (cpus s d) \<noteq> Some i"
      using l sw(18) assms(3) ne unfolding lost_def by (metis option.inject)
    have "i \<in> set (queues_after s cur n rq d)" if "i \<in> set (rq d)" for d
      using that ne by (auto simp: queues_after_def)
    then show "\<forall>d. i \<notin> set (rq d)" using l unfolding lost_def by blast
  qed
  then show ?thesis by (simp add: lost_def)
qed

lemma schedule_inv:
  assumes inv: "sched_inv s ss rq" and ex: "excl s rq" and act: "scheduler_active s"
    and cur: "current_task (cpus s c) = Some cur"
  shows "\<exists>ss' rq'. sched_inv (schedule (Some c) s) ss' rq' \<and>
      (excl (schedule (Some c) s) rq' \<longleftrightarrow>
         \<not> (rq c = [] \<and> \<not> runnable s cur \<and> (\<exists>d. d \<noteq> c \<and> current_task (cpus s d) = Some (fallback s c)))) \<and>
      (\<forall>i. lost (schedule (Some c) s) rq' i \<longrightarrow> lost s rq i)"
proof -
  obtain s2 where same: "same_sched s s2"
    and sch: "schedule (Some c) s = resume_or_switch c cur (choice s c cur (rq c)) s2"
    using schedule_unfold [OF inv act cur] by blast
  have s2: "tasks s2 = tasks s" "cpus s2 = cpus s" "total_cpus s2 = total_cpus s"
    "scheduler_active s2 = scheduler_active s" using same by (simp_all add: same_sched_def)
  let ?n = "choice s c cur (rq c)"
  have out: "\<And>d. cur \<notin> set (rq d)" using ex cur unfolding excl_def by blast
  let ?bad = "rq c = [] \<and> \<not> runnable s cur \<and> (\<exists>d. d \<noteq> c \<and> current_task (cpus s d) = Some (fallback s c))"
  have nc: "(\<forall>d. d \<noteq> c \<longrightarrow> current_task (cpus s d) \<noteq> Some ?n) \<longleftrightarrow> \<not> ?bad"
  proof (cases "rq c")
    case Nil
    have "d = c" if "current_task (cpus s d) = Some cur" for d using ex cur that unfolding excl_def by blast
    moreover have "?n = (if runnable s cur then cur else fallback s c)" using Nil by (simp add: choice_def fallback_def)
    ultimately show ?thesis using Nil by metis
  next
    case (Cons x xs)
    then have "x \<in> set (rq c)" by simp
    then have "current_task (cpus s d) \<noteq> Some x" for d using ex unfolding excl_def by blast
    then show ?thesis using Cons by (simp add: choice_def)
  qed
  have i2: "sched_inv s2 ss rq" and e2: "excl s2 rq" using inv ex same by (simp_all add: same_sched_inv)
  show ?thesis
  proof (cases "?n = cur")
    case True
    let ?s3 = "if t_state (tasks s cur) = TASK_READY
            then upd_task cur (\<lambda>x. x\<lparr>t_state := TASK_RUNNING\<rparr>) (dequeue_ready cur s2) else s2"
    have un: "dequeue_ready cur s2 = s2" by (rule dequeue_ready_unlinked [OF sched_invD(2) [OF i2] out])
    have i3: "sched_inv ?s3 ss rq"
    proof (cases "t_state (tasks s cur) = TASK_READY")
      case True
      then have "cur \<notin> set ss" using sched_invD(4) [OF inv, of cur] by auto
      then have "sched_inv (upd_task cur (\<lambda>x. x\<lparr>t_state := TASK_RUNNING\<rparr>) s2) ss rq"
        by (rule sched_inv_upd_task [OF i2 _ out]) simp
      with True un show ?thesis by simp
    qed (use i2 in simp)
    have "sched_inv (upd_task cur (\<lambda>x. x\<lparr>wake_tick := 0\<rparr>) (dequeue_sleep cur ?s3)) (remove1 cur ss) rq"
      using sleepq_distinct [OF sched_invD(1) [OF inv]]
      by (intro sched_inv_upd_task [OF sched_inv_dequeue_sleep [OF i3] _ out]) simp_all
    moreover have "excl (upd_task cur (\<lambda>x. x\<lparr>wake_tick := 0\<rparr>) (dequeue_sleep cur ?s3)) rq"
      using e2 un by (simp add: excl_upd_task excl_only_links [OF only_links_dequeue_sleep [OF sched_invD(1) [OF i3]]])
    moreover have sc: "schedule (Some c) s = upd_task cur (\<lambda>x. x\<lparr>wake_tick := 0\<rparr>) (dequeue_sleep cur ?s3)"
      by (simp add: sch resume_or_switch_def True s2)
    moreover have "\<not> ?bad" using nc True ex cur unfolding excl_def by metis
    moreover have "lost s rq i" if l: "lost (upd_task cur (\<lambda>x. x\<lparr>wake_tick := 0\<rparr>) (dequeue_sleep cur ?s3)) rq i" for i
      using l cur un by (simp add: lost_def sched_simps only_links_fields [OF only_links_dequeue_sleep [OF sched_invD(1) [OF i3]]] s2 split: if_splits)
    ultimately show ?thesis by metis
  next
    case ne: False
    have sw: "\<exists>ss' rq'. sched_inv (switch_to c cur ?n u) ss' rq' \<and> (excl (switch_to c cur ?n u) rq' \<longleftrightarrow> \<not> ?bad) \<and>
        (\<forall>i. lost (switch_to c cur ?n u) rq' i \<longrightarrow> lost s rq i)"
      if "sched_inv u ss rq" "excl u rq" "\<And>d. current_task (cpus u d) = current_task (cpus s d)" "tasks u = tasks s" for u
    proof -
      have cu: "current_task (cpus u c) = Some cur" using cur that(3) by simp
      note sp = switch_to_spec(1,2) [OF that(1,2) cu ne]
      have "\<forall>i. lost (switch_to c cur ?n u) (queues_after u cur ?n rq) i \<longrightarrow> lost s rq i"
        using switch_to_not_lost [OF that(1,2) cu ne] lost_cong [OF that(4,3)] by blast
      moreover have "excl (switch_to c cur ?n u) (queues_after u cur ?n rq) \<longleftrightarrow> \<not> ?bad"
        unfolding sp(2) that(3) nc by (rule refl)
      ultimately show ?thesis using sp(1) by blast
    qed
    let ?s3 = "upd_cpu c (\<lambda>x. x\<lparr>sched_ticks := add32 (sched_ticks (cpus s c)) 1\<rparr>) s2"
    have i3: "sched_inv ?s3 ss rq" by (rule sched_inv_upd_cpu [OF i2]) simp
    have c3: "\<And>d. current_task (cpus ?s3 d) = current_task (cpus s d)" by (simp add: sched_simps s2)
    have e3: "excl ?s3 rq" using ex excl_cong [of ?s3 s, OF c3] by simp
    have t3: "tasks ?s3 = tasks s" by (simp add: sched_simps s2)
    note sw3 = sw [OF i3 e3 c3 t3]
    have sw2: "\<exists>ss' rq'. sched_inv (switch_to c cur ?n s2) ss' rq' \<and> (excl (switch_to c cur ?n s2) rq' \<longleftrightarrow> \<not> ?bad) \<and>
        (\<forall>i. lost (switch_to c cur ?n s2) rq' i \<longrightarrow> lost s rq i)"
      by (rule sw [OF i2 e2]) (simp_all add: s2)
    have st: "\<exists>ss' rq'. sched_inv ?s3 ss' rq' \<and> (excl ?s3 rq' \<longleftrightarrow> \<not> ?bad) \<and> (\<forall>i. lost ?s3 rq' i \<longrightarrow> lost s rq i)"
      if "runnable s cur"
      using i3 e3 lost_cong [OF t3 c3] that by (intro exI [of _ ss] exI [of _ rq]) auto
    have "schedule (Some c) s = (if runnable s cur then if add32 (sched_ticks (cpus s c)) 1 < SCHEDULER_HZ then ?s3
        else switch_to c cur ?n ?s3 else switch_to c cur ?n s2)"
      unfolding sch resume_or_switch_def Let_def using ne by (simp add: s2)
    then consider "runnable s cur" "schedule (Some c) s = ?s3" | "schedule (Some c) s = switch_to c cur ?n ?s3"
      | "schedule (Some c) s = switch_to c cur ?n s2" by metis
    then show ?thesis
    proof cases
      case 1 then show ?thesis using st by metis
    next
      case 2 show ?thesis unfolding 2 by (rule sw3)
    next
      case 3 show ?thesis unfolding 3 by (rule sw2)
    qed
  qed
qed

text \<open>One scheduler tick with a competitor in the queue: count, and at the tenth switch.\<close>

lemma schedule_round_robin:
  assumes inv: "sched_inv s ss rq" and ex: "excl s rq" and act: "scheduler_active s"
    and cur: "current_task (cpus s c) = Some cur" "runnable s cur" and q: "rq c = n # ns"
  defines "t \<equiv> schedule (Some c) s"
  shows "add32 (sched_ticks (cpus s c)) 1 < SCHEDULER_HZ \<Longrightarrow> tasks t = tasks s \<and>
      sched_inv t ss rq \<and> excl t rq \<and> scheduler_active t \<and> total_cpus t = total_cpus s \<and>
      (\<forall>d. c_state (cpus t d) = c_state (cpus s d)) \<and>
      current_task (cpus t c) = Some cur \<and> sched_ticks (cpus t c) = add32 (sched_ticks (cpus s c)) 1"
    and "\<not> add32 (sched_ticks (cpus s c)) 1 < SCHEDULER_HZ \<Longrightarrow>
      sched_inv t (remove1 n ss) (queues_after s cur n rq) \<and> excl t (queues_after s cur n rq) \<and>
      current_task (cpus t c) = Some n \<and> t_state (tasks t n) = TASK_RUNNING \<and>
      t_state (tasks t cur) = TASK_READY \<and> scheduler_active t \<and> total_cpus t = total_cpus s \<and>
      (\<forall>d. c_state (cpus t d) = c_state (cpus s d)) \<and> sched_ticks (cpus t c) = 0 \<and>
      target_cpu (tasks t n) = target_cpu (tasks s n) \<and>
      fs_base (tasks t cur) = msr_fs_base (cpus s c) \<and> gs_base (tasks t cur) = msr_kernel_gs_base (cpus s c) \<and>
      msr_fs_base (cpus t c) = fs_base (tasks s n) \<and> msr_kernel_gs_base (cpus t c) = gs_base (tasks s n) \<and>
      (cr3 (tasks s n) \<noteq> 0 \<longrightarrow> reg_cr3 (cpus t c) = cr3 (tasks s n))"
proof -
  obtain s2 where same: "same_sched s s2"
    and sch: "schedule (Some c) s = resume_or_switch c cur (choice s c cur (rq c)) s2"
    using schedule_unfold [OF inv act cur(1)] by blast
  have s2: "tasks s2 = tasks s" "cpus s2 = cpus s" "total_cpus s2 = total_cpus s"
    "scheduler_active s2 = scheduler_active s" using same by (simp_all add: same_sched_def)
  have ne: "n \<noteq> cur" and nd: "\<And>d. current_task (cpus s d) \<noteq> Some n"
    using ex cur(1) q unfolding excl_def by (metis list.set_intros(1))+
  let ?s3 = "upd_cpu c (\<lambda>x. x\<lparr>sched_ticks := add32 (sched_ticks (cpus s c)) 1\<rparr>) s2"
  have t: "t = (if add32 (sched_ticks (cpus s c)) 1 < SCHEDULER_HZ then ?s3 else switch_to c cur n ?s3)"
    unfolding t_def sch resume_or_switch_def Let_def using ne cur(2) q s2 by (simp add: choice_def)
  have i3: "sched_inv ?s3 ss rq" using inv same by (intro sched_inv_upd_cpu) (simp_all add: same_sched_inv)
  have c3: "\<And>d. current_task (cpus ?s3 d) = current_task (cpus s d)" by (simp add: sched_simps s2)
  have e3: "excl ?s3 rq" using ex excl_cong [of ?s3 s, OF c3] by simp
  show "tasks t = tasks s \<and> sched_inv t ss rq \<and> excl t rq \<and> scheduler_active t \<and> total_cpus t = total_cpus s \<and>
      (\<forall>d. c_state (cpus t d) = c_state (cpus s d)) \<and>
      current_task (cpus t c) = Some cur \<and> sched_ticks (cpus t c) = add32 (sched_ticks (cpus s c)) 1"
    if "add32 (sched_ticks (cpus s c)) 1 < SCHEDULER_HZ"
    using that i3 e3 cur(1) act by (simp add: t sched_simps s2)
  assume "\<not> add32 (sched_ticks (cpus s c)) 1 < SCHEDULER_HZ"
  then have t: "t = switch_to c cur n ?s3" by (simp add: t)
  have qa: "queues_after ?s3 cur n rq = queues_after s cur n rq"
    using ready_cpu_cong [of ?s3 cur s] by (simp add: queues_after_def sched_simps s2)
  have cu3: "current_task (cpus ?s3 c) = Some cur" using c3 cur by simp
  note sw = switch_to_spec [OF i3 e3 cu3 ne, folded t]
  show "sched_inv t (remove1 n ss) (queues_after s cur n rq) \<and> excl t (queues_after s cur n rq) \<and>
      current_task (cpus t c) = Some n \<and> t_state (tasks t n) = TASK_RUNNING \<and>
      t_state (tasks t cur) = TASK_READY \<and> scheduler_active t \<and> total_cpus t = total_cpus s \<and>
      (\<forall>d. c_state (cpus t d) = c_state (cpus s d)) \<and> sched_ticks (cpus t c) = 0 \<and>
      target_cpu (tasks t n) = target_cpu (tasks s n) \<and>
      fs_base (tasks t cur) = msr_fs_base (cpus s c) \<and> gs_base (tasks t cur) = msr_kernel_gs_base (cpus s c) \<and>
      msr_fs_base (cpus t c) = fs_base (tasks s n) \<and> msr_kernel_gs_base (cpus t c) = gs_base (tasks s n) \<and>
      (cr3 (tasks s n) \<noteq> 0 \<longrightarrow> reg_cr3 (cpus t c) = cr3 (tasks s n))"
    using sw [unfolded qa] nd c3 cur(2) act by (simp add: sched_simps s2)
qed


section \<open>Waking tasks\<close>

lemma is_active_cong:
  assumes "\<And>d. c_state (cpus s' d) = c_state (cpus s d) \<and> current_task (cpus s' d) = current_task (cpus s d)"
  shows "is_active s' t = is_active s t"
  using assms by (simp add: is_active_def)

text \<open>The ready queues after a task has been woken.\<close>

definition woken_queues :: "sched \<Rightarrow> nat \<Rightarrow> (int \<Rightarrow> nat list) \<Rightarrow> int \<Rightarrow> nat list" where
  "woken_queues s t rq =
     (if is_active s t then rq else rq(ready_cpu s t := rq (ready_cpu s t) @ [t]))"

lemma wake_step:
  assumes inv: "sched_inv s ss rq"
    and st: "t_state (tasks s t) \<noteq> TASK_READY"
  defines "s1 \<equiv> dequeue_sleep t (upd_task t (\<lambda>x. x\<lparr>t_state := TASK_READY\<rparr>) s)"
  defines "s2 \<equiv> (if is_active s1 t then s1 else enqueue_ready t s1)"
  shows "sched_inv s2 (remove1 t ss) (woken_queues s t rq)"
    and "only_links (upd_task t (\<lambda>x. x\<lparr>t_state := TASK_READY\<rparr>) s) s2"
    and "is_active s1 t = is_active s t"
proof -
  let ?u = "upd_task t (\<lambda>x. x\<lparr>t_state := TASK_READY\<rparr>) s"
  have out: "\<And>c. t \<notin> set (rq c)" using sched_invD(3) [OF inv, of t] st by auto
  have i1: "sched_inv s1 (remove1 t ss) rq"
    unfolding s1_def by (rule sched_inv_wake [OF inv out]) simp
  have slu: "sleepq ?u ss" by (rule sleepq_cong [OF sched_invD(1) [OF inv]]) (auto simp: sched_simps)
  then have l1: "only_links ?u s1" unfolding s1_def by (rule only_links_dequeue_sleep)
  have cp: "cpus s1 = cpus s" "total_cpus s1 = total_cpus s"
    "target_cpu (tasks s1 t) = target_cpu (tasks s t)"
    using dequeue_sleep_frame [OF slu, of t] by (auto simp: s1_def sched_simps)
  then show a: "is_active s1 t = is_active s t" by (intro is_active_cong) simp
  have r: "ready_cpu s1 t = ready_cpu s t" using cp by (intro ready_cpu_cong) simp_all
  have "t_state (tasks s1 t) = TASK_READY" by (simp add: only_links_fields [OF l1] sched_simps)
  then have "sched_inv (enqueue_ready t s1) (remove1 t ss) (rq(ready_cpu s t := rq (ready_cpu s t) @ [t]))"
    using sched_inv_enqueue_ready [OF i1 out] r by simp
  then show "sched_inv s2 (remove1 t ss) (woken_queues s t rq)"
    using i1 a by (simp add: s2_def woken_queues_def)
  show "only_links ?u s2"
    using l1 only_links_trans [OF l1 only_links_enqueue_ready [OF sched_invD(2) [OF i1]]]
    by (simp add: s2_def)
qed

lemma sched_inv_ipi: "sched_inv (lapic_send_ipi a v s) ss rq = sched_inv s ss rq"
  by (rule sched_inv_counters) (simp_all add: lapic_send_ipi_def)

lemma ready_and_poke_eq:
  "\<exists>l. ready_and_poke cpu t s = (if is_active s t then s else enqueue_ready t s)\<lparr>ipis := l\<rparr>"
proof -
  have id: "\<exists>l. s = s\<lparr>ipis := l\<rparr>" for s :: sched by (rule exI [of _ "ipis s"]) simp
  show ?thesis unfolding ready_and_poke_def Let_def lapic_send_ipi_def
    by (auto split: option.splits intro: id)
qed

lemma sched_inv_ipis: "sched_inv (s\<lparr>ipis := l\<rparr>) ss rq = sched_inv s ss rq"
  by (rule sched_inv_counters) simp_all

lemma task_wakeup_inv:
  assumes inv: "sched_inv s ss rq" and act: "scheduler_active s"
    and st: "t_state (tasks s t) = TASK_BLOCKED \<or> t_state (tasks s t) = TASK_SLEEPING \<or>
      t_state (tasks s t) = TASK_STOPPED"
    and u: "u = task_wakeup cpu (Some t) s"
  shows "sched_inv u (remove1 t ss) (woken_queues s t rq)" "t_state (tasks u t) = TASK_READY"
    "\<And>i. i \<noteq> t \<Longrightarrow> t_state (tasks u i) = t_state (tasks s i)" "\<And>i. waiting_sem (tasks u i) = waiting_sem (tasks s i)"
    "\<And>d. current_task (cpus u d) = current_task (cpus s d)" "scheduler_active u = scheduler_active s"
    "only_links (upd_task t (\<lambda>x. x\<lparr>t_state := TASK_READY\<rparr>) s) (u\<lparr>ipis := ipis s\<rparr>)"
proof -
  let ?r = "upd_task t (\<lambda>x. x\<lparr>t_state := TASK_READY\<rparr>) s"
  have main: "\<exists>v l. u = v\<lparr>ipis := l\<rparr> \<and> sched_inv v (remove1 t ss) (woken_queues s t rq) \<and> only_links ?r v"
  proof (cases "t_state (tasks s t) = TASK_STOPPED")
    case False
    let ?s1 = "dequeue_sleep t ?r"
    have st': "t_state (tasks s t) = TASK_BLOCKED \<or> t_state (tasks s t) = TASK_SLEEPING" using st False by simp
    have ne: "t_state (tasks s t) \<noteq> TASK_READY" using st' by auto
    note w = wake_step [OF inv ne]
    obtain l where l: "ready_and_poke cpu t ?s1 = (if is_active ?s1 t then ?s1 else enqueue_ready t ?s1)\<lparr>ipis := l\<rparr>"
      using ready_and_poke_eq by blast
    have "t_state (tasks (ready_and_poke cpu t ?s1) t) = TASK_READY"
      unfolding l using only_links_fields(1) [OF w(2), of t] by (simp add: sched_simps)
    then have "u = ready_and_poke cpu t ?s1"
      unfolding u task_wakeup_def Let_def using act st' by auto
    then show ?thesis using l w(1,2) by blast
  next
    case True
    have out: "t \<notin> set ss" "\<And>c. t \<notin> set (rq c)"
      using sched_invD(3,4) [OF inv, of t] True by auto
    have i1: "sched_inv ?r ss rq" by (rule sched_inv_upd_task [OF inv out]) simp
    have a: "is_active ?r t = is_active s t" by (rule is_active_cong) (simp add: sched_simps)
    have r: "ready_cpu ?r t = ready_cpu s t" by (rule ready_cpu_cong) (simp_all add: sched_simps)
    obtain l where l: "ready_and_poke cpu t ?r = (if is_active ?r t then ?r else enqueue_ready t ?r)\<lparr>ipis := l\<rparr>"
      using ready_and_poke_eq by blast
    have "u = ready_and_poke cpu t ?r" using act True by (simp add: u task_wakeup_def)
    moreover have "sched_inv (if is_active ?r t then ?r else enqueue_ready t ?r) (remove1 t ss) (woken_queues s t rq)"
      using i1 out a sched_inv_enqueue_ready [OF i1 out(2)] r
      by (simp add: woken_queues_def remove1_idem sched_simps)
    moreover have "only_links ?r (if is_active ?r t then ?r else enqueue_ready t ?r)"
      using only_links_enqueue_ready [OF sched_invD(2) [OF i1]] by simp
    ultimately show ?thesis using l by metis
  qed
  then obtain v l where v: "u = v\<lparr>ipis := l\<rparr>" "sched_inv v (remove1 t ss) (woken_queues s t rq)"
    "only_links ?r v" by blast
  show "sched_inv u (remove1 t ss) (woken_queues s t rq)" using v by (simp add: sched_inv_ipis)
  show "t_state (tasks u t) = TASK_READY" "\<And>i. i \<noteq> t \<Longrightarrow> t_state (tasks u i) = t_state (tasks s i)"
    "\<And>i. waiting_sem (tasks u i) = waiting_sem (tasks s i)"
    "\<And>d. current_task (cpus u d) = current_task (cpus s d)" "scheduler_active u = scheduler_active s"
    using only_links_fields(1,6,8,16) [OF v(3)] by (simp_all add: v(1) sched_simps)
  have "ipis v = ipis s" using only_links_global(4) [OF v(3)] by (simp add: upd_task_def)
  then have "u\<lparr>ipis := ipis s\<rparr> = v" by (simp add: v(1))
  then show "only_links ?r (u\<lparr>ipis := ipis s\<rparr>)" using v(3) by simp
qed

lemma task_wakeup_other:
  "t_state (tasks s t) \<notin> {TASK_BLOCKED, TASK_SLEEPING, TASK_STOPPED} \<Longrightarrow> task_wakeup cpu (Some t) s = s"
  by (simp add: task_wakeup_def)

text \<open>\<open>wakes A s rq s' rq'\<close>: the tasks in \<open>A\<close> become ready, and each of them is appended to a ready queue unless a processor still
  runs it; apart from that only queue pointers and headers, the processors of the woken tasks and the interrupts sent to them differ.\<close>

definition make_ready :: "nat set \<Rightarrow> sched \<Rightarrow> sched" where
  "make_ready A s = s\<lparr>tasks := (\<lambda>i. if i \<in> A then (tasks s i)\<lparr>t_state := TASK_READY\<rparr> else tasks s i)\<rparr>"

definition wakes :: "nat set \<Rightarrow> sched \<Rightarrow> (int \<Rightarrow> nat list) \<Rightarrow> sched \<Rightarrow> (int \<Rightarrow> nat list) \<Rightarrow> bool" where
  "wakes A s rq s' rq' \<longleftrightarrow> only_links (make_ready A s) (s'\<lparr>ipis := ipis s\<rparr>) \<and>
     (\<forall>d. \<exists>xs. rq' d = rq d @ xs \<and> (\<forall>x \<in> set xs. x \<in> A \<and> \<not> is_active s x)) \<and>
     (\<forall>i \<in> A. is_active s i \<or> (\<exists>d. i \<in> set (rq' d)))"

lemma wakes_cpu: "wakes A s rq s' rq' \<Longrightarrow> (\<And>x. f (cpu_core x) = f x) \<Longrightarrow> f (cpus s' d) = f (cpus s d)"
  using only_links_cpu [of "make_ready A s" "s'\<lparr>ipis := ipis s\<rparr>" f d] by (simp add: wakes_def make_ready_def)

lemma wakes_fields:
  assumes "wakes A s rq s' rq'"
  shows "current_task (cpus s' d) = current_task (cpus s d)" "c_state (cpus s' d) = c_state (cpus s d)"
    "idle_task (cpus s' d) = idle_task (cpus s d)" "scheduler_active s' = scheduler_active s"
    "t_state (tasks s' i) = (if i \<in> A then TASK_READY else t_state (tasks s i))"
proof -
  show "current_task (cpus s' d) = current_task (cpus s d)" "c_state (cpus s' d) = c_state (cpus s d)" "idle_task (cpus s' d) = idle_task (cpus s d)"
    using wakes_cpu [OF assms, where f = current_task] wakes_cpu [OF assms, where f = c_state] wakes_cpu [OF assms, where f = idle_task]
    by (simp_all add: cpu_core_fields)
  have l: "only_links (make_ready A s) (s'\<lparr>ipis := ipis s\<rparr>)" using assms by (simp add: wakes_def)
  show "scheduler_active s' = scheduler_active s" "t_state (tasks s' i) = (if i \<in> A then TASK_READY else t_state (tasks s i))"
    using only_links_global(2) [OF l] only_links_fields(1) [OF l] by (simp_all add: make_ready_def)
qed

lemma wakes_refl: "wakes {} s rq s rq"
  by (simp add: wakes_def make_ready_def)

lemma make_ready_links:
  assumes "only_links s s'"
  shows "only_links (make_ready B s) (make_ready B s')"
proof -
  have "task_core (x\<lparr>t_state := TASK_READY\<rparr>) = (task_core x)\<lparr>t_state := TASK_READY\<rparr>" for x by (simp add: task_core_def)
  then have "task_core (tasks (make_ready B s') i) = task_core (tasks (make_ready B s) i)" for i
    using assms by (simp add: make_ready_def only_links_def)
  moreover have e: "s'\<lparr>tasks := tasks s, cpus := cpus s, sleep_head := sleep_head s\<rparr> = s" using assms by (simp add: only_links_def)
  have "(make_ready B s')\<lparr>tasks := tasks (make_ready B s), cpus := cpus (make_ready B s), sleep_head := sleep_head (make_ready B s)\<rparr> = make_ready B s"
    unfolding make_ready_def by (subst (6) e [symmetric]) simp
  ultimately show ?thesis using assms by (simp add: only_links_def make_ready_def)
qed

lemma only_links_ipis:
  assumes "only_links s s'"
  shows "only_links (s\<lparr>ipis := l\<rparr>) (s'\<lparr>ipis := l\<rparr>)"
proof -
  have e: "s = s'\<lparr>tasks := tasks s, cpus := cpus s, sleep_head := sleep_head s\<rparr>" using assms by (simp add: only_links_def)
  have "s'\<lparr>ipis := l, tasks := tasks s, cpus := cpus s, sleep_head := sleep_head s\<rparr> = s\<lparr>ipis := l\<rparr>"
    by (subst (4) e) simp
  then show ?thesis using assms by (simp add: only_links_def)
qed

lemma wakes_trans:
  assumes "wakes A s rq s1 rq1" "wakes B s1 rq1 s2 rq2"
  shows "wakes (A \<union> B) s rq s2 rq2"
proof -
  have act: "is_active s1 x = is_active s x" for x using wakes_fields(1,2) [OF assms(1)] by (intro is_active_cong) simp
  have l1: "only_links (make_ready A s) (s1\<lparr>ipis := ipis s\<rparr>)" and l2: "only_links (make_ready B s1) (s2\<lparr>ipis := ipis s1\<rparr>)"
    using assms by (simp_all add: wakes_def)
  have "make_ready (A \<union> B) s = make_ready B (make_ready A s)" by (auto simp: make_ready_def fun_eq_iff)
  moreover have "make_ready B (s1\<lparr>ipis := ipis s\<rparr>) = (make_ready B s1)\<lparr>ipis := ipis s\<rparr>" by (simp add: make_ready_def cong: if_cong)
  moreover have "only_links ((make_ready B s1)\<lparr>ipis := ipis s\<rparr>) (s2\<lparr>ipis := ipis s\<rparr>)"
    using only_links_ipis [OF l2, of "ipis s"] by simp
  ultimately have "only_links (make_ready (A \<union> B) s) (s2\<lparr>ipis := ipis s\<rparr>)"
    using only_links_trans [OF make_ready_links [OF l1, of B]] by simp
  moreover have "\<exists>xs. rq2 d = rq d @ xs \<and> (\<forall>x \<in> set xs. x \<in> A \<union> B \<and> \<not> is_active s x)" for d
  proof -
    obtain xs ys where "rq1 d = rq d @ xs" "\<forall>x \<in> set xs. x \<in> A \<and> \<not> is_active s x" "rq2 d = rq1 d @ ys" "\<forall>x \<in> set ys. x \<in> B \<and> \<not> is_active s x"
      using assms unfolding wakes_def act by meson
    then show ?thesis by (intro exI [of _ "xs @ ys"]) auto
  qed
  moreover have "is_active s i \<or> (\<exists>d. i \<in> set (rq2 d))" if "i \<in> A \<union> B" for i
  proof -
    have "set (rq1 d) \<subseteq> set (rq2 d)" for d using assms(2) unfolding wakes_def by (metis set_append sup_ge1)
    then show ?thesis using that assms unfolding wakes_def act by blast
  qed
  ultimately show ?thesis by (simp add: wakes_def)
qed

lemma task_wakeup_wakes:
  assumes "sched_inv s ss rq" and "scheduler_active s"
    and "t_state (tasks s t) = TASK_BLOCKED \<or> t_state (tasks s t) = TASK_SLEEPING \<or> t_state (tasks s t) = TASK_STOPPED"
  shows "wakes {t} s rq (task_wakeup cpu (Some t) s) (woken_queues s t rq)"
proof -
  have "upd_task t (\<lambda>x. x\<lparr>t_state := TASK_READY\<rparr>) s = make_ready {t} s"
    by (simp add: upd_task_def make_ready_def fun_upd_def cong: if_cong)
  then have "only_links (make_ready {t} s) ((task_wakeup cpu (Some t) s)\<lparr>ipis := ipis s\<rparr>)"
    using task_wakeup_inv(7) [OF assms refl, of cpu] by simp
  then show ?thesis by (auto simp: wakes_def woken_queues_def)
qed

text \<open>The timer's loop ends and empties the expired part of the sleep queue.\<close>

lemma wake_expired_loop_spec:
  assumes "sched_inv s ss rq"
  shows "\<exists>s' rq'. wake_expired_loop now (first_or ss None) s = Some s' \<and>
     sched_inv s' (dropWhile (\<lambda>i. wake_tick (tasks s i) \<le> now) ss) rq' \<and>
     (\<forall>c. set (rq c) \<subseteq> set (rq' c)) \<and>
     (\<forall>i \<in> set (takeWhile (\<lambda>i. wake_tick (tasks s i) \<le> now) ss).
        t_state (tasks s' i) = TASK_READY \<and> (is_active s i \<or> (\<exists>c. i \<in> set (rq' c)))) \<and>
     (\<forall>i. i \<notin> set (takeWhile (\<lambda>i. wake_tick (tasks s i) \<le> now) ss) \<longrightarrow>
        t_state (tasks s' i) = t_state (tasks s i)) \<and>
     (\<forall>d. current_task (cpus s' d) = current_task (cpus s d))"
  using assms
proof (induction ss arbitrary: s rq)
  case Nil
  then show ?case by (intro exI [of _ s] exI [of _ rq]) (simp add: wake_expired_loop.simps)
next
  case (Cons t ss)
  show ?case
  proof (cases "wake_tick (tasks s t) \<le> now")
    case False
    then show ?thesis using Cons.prems
      by (intro exI [of _ s] exI [of _ rq]) (simp add: wake_expired_loop.simps)
  next
    case True
    let ?u = "upd_task t (\<lambda>x. x\<lparr>t_state := TASK_READY\<rparr>) s"
    let ?s1 = "dequeue_sleep t ?u"
    let ?s2 = "if is_active ?s1 t then ?s1 else enqueue_ready t ?s1"
    let ?rq = "woken_queues s t rq"
    have st: "t_state (tasks s t) = TASK_BLOCKED \<or> t_state (tasks s t) = TASK_SLEEPING"
      using sched_invD(4) [OF Cons.prems, of t] by simp
    have ne: "t_state (tasks s t) \<noteq> TASK_READY" using st by auto
    note w = wake_step [OF Cons.prems ne]
    have i2: "sched_inv ?s2 ss ?rq" using w(1) by simp
    have nx: "next_sleep (tasks s t) = first_or ss None"
      using sched_invD(1) [OF Cons.prems] by (simp add: sleepq_def dll_def)
    have wt: "wake_tick (tasks ?s2 i) = wake_tick (tasks s i)" for i
      using only_links_fields(2) [OF w(2), of i] by (simp add: sched_simps)
    have ac: "is_active ?s2 i = is_active s i" for i
      using only_links_fields(8,10) [OF w(2)] by (intro is_active_cong) (simp add: sched_simps)
    have st2: "t_state (tasks ?s2 i) = (if i = t then TASK_READY else t_state (tasks s i))" for i
      using only_links_fields(1) [OF w(2), of i] by (simp add: sched_simps)
    have cu: "current_task (cpus ?s2 d) = current_task (cpus s d)" for d
      using only_links_fields(8) [OF w(2), of d] by (simp add: sched_simps)
    have step: "wake_expired_loop now (first_or (t # ss) None) s = wake_expired_loop now (first_or ss None) ?s2"
      using True by (subst wake_expired_loop.simps) (simp add: Let_def nx)
    obtain s' rq' where IH: "wake_expired_loop now (first_or ss None) ?s2 = Some s'"
      "sched_inv s' (dropWhile (\<lambda>i. wake_tick (tasks s i) \<le> now) ss) rq'"
      "\<forall>c. set (?rq c) \<subseteq> set (rq' c)"
      "\<forall>i \<in> set (takeWhile (\<lambda>i. wake_tick (tasks s i) \<le> now) ss).
         t_state (tasks s' i) = TASK_READY \<and> (is_active s i \<or> (\<exists>c. i \<in> set (rq' c)))"
      "\<forall>i. i \<notin> set (takeWhile (\<lambda>i. wake_tick (tasks s i) \<le> now) ss) \<longrightarrow>
         t_state (tasks s' i) = (if i = t then TASK_READY else t_state (tasks s i))"
      "\<forall>d. current_task (cpus s' d) = current_task (cpus s d)"
      using Cons.IH [OF i2] unfolding wt ac cu st2 by blast
    have tn: "t \<notin> set ss" using sleepq_distinct [OF sched_invD(1) [OF Cons.prems]] by simp
    have "t_state (tasks s' t) = TASK_READY"
      using IH(5) [rule_format, of t] tn set_takeWhileD [of t "\<lambda>i. wake_tick (tasks s i) \<le> now" ss] by auto
    moreover have "is_active s t \<or> (\<exists>c. t \<in> set (rq' c))"
    proof (cases "is_active s t")
      case False
      then have "t \<in> set (?rq (ready_cpu s t))" by (simp add: woken_queues_def)
      with IH(3) show ?thesis by blast
    qed simp
    moreover have "set (rq c) \<subseteq> set (rq' c)" for c
      using IH(3) [rule_format, of c] by (auto simp: woken_queues_def split: if_splits)
    ultimately show ?thesis
      using IH(1,2,4,5,6) True unfolding step by (intro exI [of _ s'] exI [of _ rq']) auto
  qed
qed


section \<open>Bounded waiting\<close>

text \<open>The scheduler invoked \<open>n\<close> times on one processor, as the timer interrupt does.\<close>

fun ticks :: "int \<Rightarrow> nat \<Rightarrow> sched \<Rightarrow> sched" where
  "ticks c 0 s = s"
| "ticks c (Suc n) s = ticks c n (schedule (Some c) s)"

text \<open>A processor with a runnable current task of its own and the ready queue \<open>q\<close>.\<close>

definition busy :: "int \<Rightarrow> sched \<Rightarrow> nat list \<Rightarrow> bool" where
  "busy c s q \<longleftrightarrow> (\<exists>ss rq cur. sched_inv s ss rq \<and> excl s rq \<and> scheduler_active s \<and>
     0 \<le> c \<and> c < total_cpus s \<and> c_state (cpus s c) = CPU_STATE_ONLINE \<and>
     current_task (cpus s c) = Some cur \<and> runnable s cur \<and> target_cpu (tasks s cur) = c \<and> rq c = q) \<and>
     sched_ticks (cpus s c) \<le> SCHEDULER_HZ"

lemma queues_after_own:
  assumes "runnable s cur" "ready_cpu s cur = c" "rq c = n # ns"
  shows "queues_after s cur n rq c = ns @ [cur]"
  using assms by (simp add: queues_after_def)

lemma busy_step:
  assumes "busy c s (n # ns)"
  shows "(add32 (sched_ticks (cpus s c)) 1 < SCHEDULER_HZ \<and> busy c (schedule (Some c) s) (n # ns) \<and>
       sched_ticks (cpus (schedule (Some c) s) c) = add32 (sched_ticks (cpus s c)) 1) \<or>
     (current_task (cpus (schedule (Some c) s) c) = Some n \<and>
       (\<exists>x. busy c (schedule (Some c) s) (ns @ [x])) \<and> sched_ticks (cpus (schedule (Some c) s) c) = 0)"
proof -
  obtain ss rq cur where b: "sched_inv s ss rq" "excl s rq" "scheduler_active s"
     "0 \<le> c \<and> c < total_cpus s \<and> c_state (cpus s c) = CPU_STATE_ONLINE"
     "current_task (cpus s c) = Some cur" "runnable s cur" "target_cpu (tasks s cur) = c" "rq c = n # ns"
    using assms unfolding busy_def by blast
  let ?t = "schedule (Some c) s"
  note rr = schedule_round_robin [OF b(1,2,3,5,6,8)]
  show ?thesis
  proof (cases "add32 (sched_ticks (cpus s c)) 1 < SCHEDULER_HZ")
    case True
    have "busy c ?t (n # ns)" unfolding busy_def using rr(1) [OF True] b True
      by (intro conjI exI [of _ ss] exI [of _ rq] exI [of _ cur]) simp_all
    then show ?thesis using True rr(1) [OF True] by blast
  next
    case False
    have "ready_cpu s cur = c" using b by (simp add: ready_cpu_def)
    then have q: "queues_after s cur n rq c = ns @ [cur]" by (rule queues_after_own [where rq = rq, OF b(6) _ b(8)])
    have "target_cpu (tasks ?t n) = c"
      using rr(2) [OF False] readyqs_target [OF sched_invD(2) [OF b(1)], of n c] b(8) by simp
    then have "busy c ?t (ns @ [cur])" unfolding busy_def using rr(2) [OF False] b(4) q
      by (intro conjI exI [of _ "remove1 n ss"] exI [of _ "queues_after s cur n rq"] exI [of _ n]) simp_all
    then show ?thesis using rr(2) [OF False] by blast
  qed
qed

lemma ticks_add: "ticks c (m + n) s = ticks c n (ticks c m s)"
  by (induction m arbitrary: s) auto

text \<open>The head of the queue runs within ten ticks.\<close>

lemma busy_switch_aux:
  assumes "busy c s (n # ns)"
  shows "\<exists>m. 0 < m \<and> m \<le> max 1 (SCHEDULER_HZ - sched_ticks (cpus s c)) \<and>
     current_task (cpus (ticks c m s) c) = Some n \<and> (\<exists>x. busy c (ticks c m s) (ns @ [x]))"
  using assms
proof (induction "SCHEDULER_HZ - sched_ticks (cpus s c)" arbitrary: s rule: less_induct)
  case less
  let ?t = "schedule (Some c) s" and ?k = "sched_ticks (cpus s c)"
  have k: "add32 ?k 1 = ?k + 1" using less.prems by (simp add: busy_def add32_def SCHEDULER_HZ_def)
  from busy_step [OF less.prems] show ?case
  proof
    assume a: "add32 ?k 1 < SCHEDULER_HZ \<and> busy c ?t (n # ns) \<and> sched_ticks (cpus ?t c) = add32 ?k 1"
    then have lt: "SCHEDULER_HZ - sched_ticks (cpus ?t c) < SCHEDULER_HZ - ?k" using k by linarith
    from less.hyps [OF this] a obtain m where
      m: "0 < m" "m \<le> max 1 (SCHEDULER_HZ - sched_ticks (cpus ?t c))"
        "current_task (cpus (ticks c m ?t) c) = Some n" "\<exists>x. busy c (ticks c m ?t) (ns @ [x])" by blast
    moreover have "Suc m \<le> max 1 (SCHEDULER_HZ - ?k)" using m(2) a k by (auto simp: max_def split: if_splits)
    ultimately show ?thesis by (intro exI [of _ "Suc m"]) simp
  next
    assume "current_task (cpus ?t c) = Some n \<and> (\<exists>x. busy c ?t (ns @ [x])) \<and> sched_ticks (cpus ?t c) = 0"
    then show ?thesis by (intro exI [of _ 1]) simp
  qed
qed

lemma busy_switch:
  assumes "busy c s (n # ns)"
  shows "\<exists>m \<le> SCHEDULER_HZ. current_task (cpus (ticks c m s) c) = Some n \<and>
     (\<exists>x. busy c (ticks c m s) (ns @ [x]))"
proof -
  have "max 1 (SCHEDULER_HZ - sched_ticks (cpus s c)) \<le> SCHEDULER_HZ" by (simp add: SCHEDULER_HZ_def)
  then show ?thesis using busy_switch_aux [OF assms] le_trans by blast
qed

lemma busy_wait:
  assumes "busy c s (xs @ t # ys)"
  shows "\<exists>m \<le> SCHEDULER_HZ * Suc (length xs). current_task (cpus (ticks c m s) c) = Some t"
  using assms
proof (induction xs arbitrary: s ys)
  case Nil
  then show ?case using busy_switch [of c s t ys] by auto
next
  case (Cons x xs)
  then obtain m y where m: "m \<le> SCHEDULER_HZ" "busy c (ticks c m s) (xs @ t # ys @ [y])"
    using busy_switch [of c s x "xs @ t # ys"] by auto
  from Cons.IH [OF this(2)] obtain k where
    "k \<le> SCHEDULER_HZ * Suc (length xs)" "current_task (cpus (ticks c k (ticks c m s)) c) = Some t" by blast
  then show ?case using m(1) by (intro exI [of _ "m + k"]) (simp add: ticks_add)
qed


section \<open>Properties\<close>

text \<open>A small machine: slot 0 runs on processor 0, slot 1 is ready, slot 2 sleeps until tick 5.\<close>

abbreviation blank_task :: task where
  "blank_task \<equiv> \<lparr>t_state = TASK_READY, t_id = 0, parent_id = 0, tgid = 0, t_name = [], cr3 = 0,
     wake_tick = 0, waiting_sem = 0, next_ready = None, prev_ready = None, next_sleep = None,
     prev_sleep = None, signal_pending = 0, target_cpu = 0, kernel_stack_top = 0, user_rsp = 0,
     fs_base = 0, gs_base = 0, exit_code = 0, wait_status = 0, wait_code = 0, wait_pending = False\<rparr>"

abbreviation blank_cpu :: cpu_info where
  "blank_cpu \<equiv> \<lparr>apic_id = 0, cpu_index = 0, c_state = CPU_STATE_OFFLINE, current_task = None,
     idle_task = None, sched_ticks = 0, c_kernel_stack_top = 0, user_stack_scratch = 0,
     local_ready_head = None, local_ready_tail = None, local_task_count = 0, msr_fs_base = 0,
     msr_kernel_gs_base = 0, reg_cr3 = 0, tss_rsp0 = 0\<rparr>"

definition demo_sched :: sched where
  "demo_sched = \<lparr>tasks = (\<lambda>_. blank_task)(0 := blank_task\<lparr>t_state := TASK_RUNNING\<rparr>,
       2 := blank_task\<lparr>t_state := TASK_SLEEPING, wake_tick := 5\<rparr>),
     cpus = (\<lambda>_. blank_cpu)(0 := blank_cpu\<lparr>c_state := CPU_STATE_ONLINE, current_task := Some 0,
       idle_task := Some 0, local_ready_head := Some 1, local_ready_tail := Some 1, local_task_count := 1\<rparr>),
     total_cpus = 1, task_count = 3, scheduler_active = True, sleep_head = Some 2,
     cpu_total_ticks = 0, cpu_idle_ticks = 0, cpu_last_load = 0, ipis = []\<rparr>"

abbreviation "demo_rq \<equiv> (\<lambda>_. [])(0 := [1 :: nat])"

lemma demo_inv: "sched_inv demo_sched [2] demo_rq"
  by (auto simp: sched_inv_def sleepq_def readyqs_def readyq_def dll_def demo_sched_def)

lemma demo_excl: "excl demo_sched demo_rq"
  by (auto simp: excl_def demo_sched_def split: if_splits)

lemma demo_fields: "scheduler_active demo_sched" "current_task (cpus demo_sched 0) = Some 0"
  "idle_task (cpus demo_sched 0) = Some 0" "runnable demo_sched 0" "total_cpus demo_sched = 1"
  "\<And>d. d \<noteq> 0 \<Longrightarrow> current_task (cpus demo_sched d) = None"
  by (simp_all add: demo_sched_def)

text \<open>C1: the scheduler keeps its invariant. From a state with well-formed queues in which no
  task is current on two processors or both current and queued, \<open>schedule()\<close> on a processor with a current task,
  with or without an idle task, leaves well-formed queues and loses no ready task, in every branch. No task is current twice or current
  and queued afterwards, except in one case: the current task cannot run, the ready queue is empty, and the task that takes over
  (the idle task, or slot 0 on a processor without one, such as the boot processor) runs on another processor; then it is
  current on both.\<close>

theorem schedule_keeps_invariant:
  assumes "sched_inv s ss rq" and "excl s rq" and "scheduler_active s" and "current_task (cpus s c) = Some cur"
  shows "\<exists>ss' rq'. sched_inv (schedule (Some c) s) ss' rq' \<and>
      (excl (schedule (Some c) s) rq' \<longleftrightarrow>
         \<not> (rq c = [] \<and> \<not> runnable s cur \<and> (\<exists>d. d \<noteq> c \<and> current_task (cpus s d) = Some (fallback s c)))) \<and>
      (\<forall>i. lost (schedule (Some c) s) rq' i \<longrightarrow> lost s rq i)"
  by (rule schedule_inv [OF assms])

theorem schedule_keeps_invariant_witness:
  "sched_inv demo_sched [2] demo_rq \<and> excl demo_sched demo_rq \<and>
   (\<exists>ss' rq'. sched_inv (schedule (Some 0) demo_sched) ss' rq' \<and> excl (schedule (Some 0) demo_sched) rq')"
  using schedule_keeps_invariant [OF demo_inv demo_excl demo_fields(1,2)] demo_inv demo_excl demo_fields(6)
  by auto

text \<open>C2: round robin. With a runnable current task and a task \<open>n\<close> at the head of the ready
  queue, \<open>schedule()\<close> keeps the current task for its time slice and changes no task; on the
  tenth tick \<open>n\<close> becomes current, the old task is ready again at the end of the queue of its
  processor, the FS and GS bases of the old task are saved and those of \<open>n\<close> are loaded, and
  its page table is the active one.\<close>

theorem schedule_is_round_robin:
  assumes "sched_inv s ss rq" and "excl s rq" and "scheduler_active s"
    and "current_task (cpus s c) = Some cur" and "runnable s cur" and "rq c = n # ns"
    and "ready_cpu s cur = c"
  shows "(add32 (sched_ticks (cpus s c)) 1 < SCHEDULER_HZ \<longrightarrow>
       tasks (schedule (Some c) s) = tasks s \<and> current_task (cpus (schedule (Some c) s) c) = Some cur) \<and>
     (SCHEDULER_HZ \<le> add32 (sched_ticks (cpus s c)) 1 \<longrightarrow>
       (let t = schedule (Some c) s in
        current_task (cpus t c) = Some n \<and> t_state (tasks t n) = TASK_RUNNING \<and>
        t_state (tasks t cur) = TASK_READY \<and>
        (\<exists>ss' rq'. sched_inv t ss' rq' \<and> rq' c = ns @ [cur]) \<and>
        fs_base (tasks t cur) = msr_fs_base (cpus s c) \<and> gs_base (tasks t cur) = msr_kernel_gs_base (cpus s c) \<and>
        msr_fs_base (cpus t c) = fs_base (tasks s n) \<and> msr_kernel_gs_base (cpus t c) = gs_base (tasks s n) \<and>
        (cr3 (tasks s n) \<noteq> 0 \<longrightarrow> reg_cr3 (cpus t c) = cr3 (tasks s n))))"
proof (intro conjI impI)
  note rr = schedule_round_robin [OF assms(1-6)]
  show "tasks (schedule (Some c) s) = tasks s" "current_task (cpus (schedule (Some c) s) c) = Some cur"
    if "add32 (sched_ticks (cpus s c)) 1 < SCHEDULER_HZ" using rr(1) that by simp_all
  assume "SCHEDULER_HZ \<le> add32 (sched_ticks (cpus s c)) 1"
  then have r2: "\<not> add32 (sched_ticks (cpus s c)) 1 < SCHEDULER_HZ" by simp
  have "queues_after s cur n rq c = ns @ [cur]"
    by (rule queues_after_own [where rq = rq, OF assms(5,7,6)])
  then show "let t = schedule (Some c) s in
        current_task (cpus t c) = Some n \<and> t_state (tasks t n) = TASK_RUNNING \<and>
        t_state (tasks t cur) = TASK_READY \<and>
        (\<exists>ss' rq'. sched_inv t ss' rq' \<and> rq' c = ns @ [cur]) \<and>
        fs_base (tasks t cur) = msr_fs_base (cpus s c) \<and> gs_base (tasks t cur) = msr_kernel_gs_base (cpus s c) \<and>
        msr_fs_base (cpus t c) = fs_base (tasks s n) \<and> msr_kernel_gs_base (cpus t c) = gs_base (tasks s n) \<and>
        (cr3 (tasks s n) \<noteq> 0 \<longrightarrow> reg_cr3 (cpus t c) = cr3 (tasks s n))"
    using rr(2) [OF r2] unfolding Let_def by blast
qed

theorem schedule_is_round_robin_witness:
  "ready_cpu demo_sched 0 = 0 \<and> tasks (schedule (Some 0) demo_sched) = tasks demo_sched"
proof -
  have "ready_cpu demo_sched 0 = 0" by (simp add: ready_cpu_def demo_sched_def)
  moreover have "add32 (sched_ticks (cpus demo_sched 0)) 1 < SCHEDULER_HZ"
    by (simp add: add32_def SCHEDULER_HZ_def demo_sched_def)
  ultimately show ?thesis
    using schedule_is_round_robin [OF demo_inv demo_excl demo_fields(1,2,4), of 1 "[]"] by simp
qed

text \<open>C3: bounded waiting. On a busy processor the task at position \<open>k\<close> of the ready queue
  becomes current within \<open>10 * (k + 1)\<close> scheduler ticks.\<close>

theorem ready_task_runs:
  assumes "busy c s q" and "k < length q"
  shows "\<exists>m \<le> SCHEDULER_HZ * Suc k. current_task (cpus (ticks c m s) c) = Some (q ! k)"
proof -
  have "q = take k q @ q ! k # drop (Suc k) q" using assms(2) by (rule id_take_nth_drop)
  moreover have "length (take k q) = k" using assms(2) by simp
  ultimately show ?thesis using busy_wait [of c s "take k q" "q ! k" "drop (Suc k) q"] assms(1) by simp
qed

theorem ready_task_runs_witness:
  "busy 0 demo_sched [1] \<and> (\<exists>m \<le> 10. current_task (cpus (ticks 0 m demo_sched) 0) = Some 1)"
proof -
  have "busy 0 demo_sched [1]"
    unfolding busy_def
    by (rule conjI, rule exI [of _ "[2]"], rule exI [of _ demo_rq], rule exI [of _ 0])
      (use demo_inv demo_excl in \<open>simp_all add: demo_sched_def\<close>)
  then show ?thesis using ready_task_runs [of 0 demo_sched "[1]" 0] by (simp add: SCHEDULER_HZ_def)
qed

text \<open>C4: the pointer code of the sleep queue implements an ordered list. \<open>dequeue_sleep\<close>
  removes the task from the list, whether it is in it or not; \<open>enqueue_sleep\<close> of a task
  that is not in the list always ends and puts it after all the tasks that wake up earlier,
  so the list stays ordered.\<close>

theorem sleep_queue_refines_list:
  assumes "sleepq s ss"
  shows "sleepq (dequeue_sleep t s) (remove1 t ss) \<and>
    (t \<notin> set ss \<longrightarrow> (\<exists>s'. enqueue_sleep t s = Some s' \<and> sleepq s' (insert_sleep s t ss)))"
  using sleepq_dequeue [OF assms] sleepq_enqueue [OF assms] by blast

theorem sleep_queue_refines_list_witness:
  "sleepq demo_sched [2] \<and> sleepq (dequeue_sleep 2 demo_sched) [] \<and>
   (\<exists>s'. enqueue_sleep 1 demo_sched = Some s' \<and> sleepq s' [1, 2])"
proof -
  have "insert_sleep demo_sched 1 [2] = [1, 2]"
    by (simp add: insert_sleep_def sleep_before_def demo_sched_def)
  then show ?thesis
    using sleep_queue_refines_list [OF sched_invD(1) [OF demo_inv], of 2]
      sleep_queue_refines_list [OF sched_invD(1) [OF demo_inv], of 1] sched_invD(1) [OF demo_inv] by simp
qed

text \<open>the pointer code of the ready queues implements first-in first-out lists, one per
  processor: \<open>enqueue_ready\<close> appends a task at the end of the queue of its processor (its own
  if that is online, else the least loaded one) and does nothing if the task is queued
  already; \<open>dequeue_ready\<close> removes it from the queue it is in.\<close>

lemma ready_queues_refine_lists:
  assumes "readyqs s rq"
  shows "((\<exists>c. t \<in> set (rq c)) \<longrightarrow> enqueue_ready t s = s) \<and>
    ((\<forall>c. t \<notin> set (rq c)) \<longrightarrow>
       readyqs (enqueue_ready t s) (rq(ready_cpu s t := rq (ready_cpu s t) @ [t])) \<and>
       dequeue_ready t s = s) \<and>
    (\<forall>c. t \<in> set (rq c) \<longrightarrow> readyqs (dequeue_ready t s) (rq(c := remove1 t (rq c))))"
  using enqueue_ready_queued [OF assms] readyqs_enqueue(1) [OF assms, of t]
    dequeue_ready_unlinked [OF assms, of t] readyqs_dequeue(1) [OF assms] by blast

lemma ready_queues_refine_lists_witness:
  "readyqs demo_sched demo_rq \<and> readyqs (dequeue_ready 1 demo_sched) ((demo_rq)(0 := []))"
  using ready_queues_refine_lists [OF sched_invD(2) [OF demo_inv], of 1] sched_invD(2) [OF demo_inv] by auto

text \<open>C5: the timer wakes the sleepers. \<open>task_wake_expired\<close> always ends; afterwards the sleep
  queue holds exactly the tasks whose tick has not come, every expired task is ready and in a
  ready queue unless a processor is still running it, and no other task changes state.\<close>

theorem task_wake_expired_correct:
  assumes "sched_inv s ss rq" and "scheduler_active s"
  shows "\<exists>s' rq'. task_wake_expired now s = Some s' \<and>
     sched_inv s' (filter (\<lambda>i. now < wake_tick (tasks s i)) ss) rq' \<and>
     (\<forall>i \<in> set ss. wake_tick (tasks s i) \<le> now \<longrightarrow>
        t_state (tasks s' i) = TASK_READY \<and> (is_active s i \<or> (\<exists>c. i \<in> set (rq' c)))) \<and>
     (\<forall>i. \<not> (i \<in> set ss \<and> wake_tick (tasks s i) \<le> now) \<longrightarrow> t_state (tasks s' i) = t_state (tasks s i))"
proof -
  let ?P = "\<lambda>i. wake_tick (tasks s i) \<le> now"
  note q = sched_invD(1) [OF assms(1)]
  have srt: "sorted (map (\<lambda>i. wake_tick (tasks s i)) ss)" using q by (simp add: sleepq_def)
  then have "takeWhile ?P ss = filter ?P ss \<and> dropWhile ?P ss = filter (\<lambda>i. now < wake_tick (tasks s i)) ss"
  proof (induction ss)
    case (Cons x xs)
    show ?case
    proof (cases "?P x")
      case False
      then have "\<forall>y \<in> set xs. \<not> ?P y" using Cons.prems by auto
      with False show ?thesis by (auto simp: filter_id_conv not_le)
    qed (use Cons in \<open>simp add: not_less\<close>)
  qed simp
  then have eq: "takeWhile ?P ss = filter ?P ss" "dropWhile ?P ss = filter (\<lambda>i. now < wake_tick (tasks s i)) ss"
    by simp_all
  have "task_wake_expired now s = wake_expired_loop now (first_or ss None) s"
    using assms(2) q by (simp add: task_wake_expired_def sleepq_def)
  then show ?thesis using wake_expired_loop_spec [OF assms(1), of now] unfolding eq by fastforce
qed

theorem task_wake_expired_correct_witness:
  "\<exists>s' rq'. task_wake_expired 5 demo_sched = Some s' \<and> sched_inv s' [] rq' \<and>
     t_state (tasks s' 2) = TASK_READY"
proof -
  have "wake_tick (tasks demo_sched 2) = 5" by (simp add: demo_sched_def)
  then show ?thesis
    using task_wake_expired_correct [OF demo_inv demo_fields(1), of 5] by auto
qed

text \<open>\<open>task_wakeup\<close> of a blocked, sleeping or stopped task makes it ready, takes it out of
  the sleep queue and appends it once to the ready queue of its processor unless a processor is
  still running it; no other task changes state, and waking any other task does nothing.\<close>

lemma task_wakeup_correct:
  assumes "sched_inv s ss rq" and "scheduler_active s"
  shows "(t_state (tasks s t) \<in> {TASK_BLOCKED, TASK_SLEEPING, TASK_STOPPED} \<longrightarrow>
      sched_inv (task_wakeup cpu (Some t) s) (remove1 t ss) (woken_queues s t rq) \<and>
      t_state (tasks (task_wakeup cpu (Some t) s) t) = TASK_READY \<and>
      (\<forall>i. i \<noteq> t \<longrightarrow> t_state (tasks (task_wakeup cpu (Some t) s) i) = t_state (tasks s i))) \<and>
    (t_state (tasks s t) \<notin> {TASK_BLOCKED, TASK_SLEEPING, TASK_STOPPED} \<longrightarrow>
      task_wakeup cpu (Some t) s = s)"
  using task_wakeup_inv(1-3) [OF assms _ refl] task_wakeup_other by blast

lemma task_wakeup_correct_witness:
  "t_state (tasks demo_sched 2) = TASK_SLEEPING \<and>
   t_state (tasks (task_wakeup (Some 0) (Some 2) demo_sched) 2) = TASK_READY"
proof -
  have "t_state (tasks demo_sched 2) = TASK_SLEEPING" by (simp add: demo_sched_def)
  then show ?thesis using task_wakeup_correct [OF demo_inv demo_fields(1), of 2 "Some 0"] by simp
qed


text \<open>the boot task cannot sleep alone. When the current task calls \<open>task_sleep\<close> on a
  processor whose ready queue is empty and the task chosen in its place (the idle task, or slot
  0 if the processor has none, as on the boot processor) is the caller itself, the call returns
  at once: the caller stays current, is marked sleeping, and is in no queue any more.\<close>

lemma sleep_of_fallback_task_returns:
  assumes "sched_inv s ss rq" and "excl s rq" and "scheduler_active s"
    and "current_task (cpus s c) = Some cur" and "rq c = []" and "cur \<notin> set ss"
    and "(case idle_task (cpus s c) of Some i \<Rightarrow> i | None \<Rightarrow> 0) = cur"
  shows "\<exists>s'. task_sleep (Some c) now ms s = Some s' \<and> current_task (cpus s' c) = Some cur \<and>
    t_state (tasks s' cur) = TASK_SLEEPING \<and> wake_tick (tasks s' cur) = 0 \<and> sleepq s' ss \<and>
    (\<exists>rq'. readyqs s' rq' \<and> (\<forall>d. cur \<notin> set (rq' d)))"
proof -
  have out: "\<And>d. cur \<notin> set (rq d)" using assms(2,4) unfolding excl_def by blast
  define w where "w = add64 now (if ms > 0 \<and> mul64 ms TIMER_HZ div 1000 = 0 then 1 else mul64 ms TIMER_HZ div 1000)"
  let ?u = "upd_task cur (\<lambda>x. x\<lparr>wake_tick := w, t_state := TASK_SLEEPING\<rparr>) s"
  have iu: "sched_inv ?u ss rq" by (rule sched_inv_upd_task [OF assms(1,6) out]) simp
  obtain nx pv h where e: "enqueue_sleep cur ?u = Some (set_sleep nx pv h ?u)"
    and i1: "sched_inv (set_sleep nx pv h ?u) (insert_sleep ?u cur ss) rq"
    using sched_inv_enqueue_sleep [OF iu assms(6)] by (auto simp: sched_simps)
  let ?v = "set_sleep nx pv h ?u"
  have sl: "task_sleep (Some c) now ms s = Some (schedule (Some c) ?v)"
    using assms(3,4) e by (simp add: task_sleep_def task_get_current_def Let_def w_def)
  have v: "scheduler_active ?v" "current_task (cpus ?v c) = Some cur" "t_state (tasks ?v cur) = TASK_SLEEPING"
    "idle_task (cpus ?v c) = idle_task (cpus s c)" using assms(3,4) by (simp_all add: sched_simps)
  obtain s2 where same: "same_sched ?v s2"
    and sch: "schedule (Some c) ?v = resume_or_switch c cur (choice ?v c cur (rq c)) s2"
    using schedule_unfold [OF i1 v(1,2)] by blast
  have i2: "sched_inv s2 (insert_sleep ?u cur ss) rq" using i1 same_sched_inv(1) [OF same] by simp
  have ch: "choice ?v c cur (rq c) = cur" using v(3,4) assms(5,7) by (simp add: choice_def)
  have s2: "t_state (tasks s2 cur) = TASK_SLEEPING" "current_task (cpus s2 c) = Some cur"
    using same v by (simp_all add: same_sched_def)
  let ?s' = "upd_task cur (\<lambda>x. x\<lparr>wake_tick := 0\<rparr>) (dequeue_sleep cur s2)"
  have res: "schedule (Some c) ?v = ?s'" using s2 by (simp add: sch ch resume_or_switch_def)
  have rem: "remove1 cur (insert_sleep ?u cur ss) = ss"
  proof -
    have "cur \<notin> set (takeWhile (sleep_before ?u cur) ss)" using assms(6) by (auto dest: set_takeWhileD)
    then show ?thesis by (simp add: insert_sleep_def remove1_append)
  qed
  have i3: "sched_inv (dequeue_sleep cur s2) ss rq" using sched_inv_dequeue_sleep [OF i2, of cur] rem by simp
  have "sched_inv ?s' ss rq" by (rule sched_inv_upd_task [OF i3 assms(6) out]) simp
  then have "sleepq ?s' ss" "\<exists>rq'. readyqs ?s' rq' \<and> (\<forall>d. cur \<notin> set (rq' d))"
    using sched_invD(1,2) out by blast+
  moreover have "only_links s2 (dequeue_sleep cur s2)" by (rule only_links_dequeue_sleep [OF sched_invD(1) [OF i2]])
  ultimately show ?thesis
    using sl res s2
    by (intro exI [of _ ?s']) (auto simp: sched_simps only_links_fields)
qed

definition boot_sched :: sched where
  "boot_sched = \<lparr>tasks = (\<lambda>_. blank_task)(0 := blank_task\<lparr>t_state := TASK_RUNNING\<rparr>),
     cpus = (\<lambda>_. blank_cpu)(0 := blank_cpu\<lparr>c_state := CPU_STATE_ONLINE, current_task := Some 0\<rparr>),
     total_cpus = 1, task_count = 1, scheduler_active = True, sleep_head = None,
     cpu_total_ticks = 0, cpu_idle_ticks = 0, cpu_last_load = 0, ipis = []\<rparr>"

lemma sleep_of_fallback_task_returns_witness:
  "\<exists>s'. task_sleep (Some 0) 0 1000 boot_sched = Some s' \<and> current_task (cpus s' 0) = Some 0 \<and>
    t_state (tasks s' 0) = TASK_SLEEPING"
proof -
  have i: "sched_inv boot_sched [] (\<lambda>_. [])"
    by (auto simp: sched_inv_def sleepq_def readyqs_def readyq_def dll_def boot_sched_def)
  have e: "excl boot_sched (\<lambda>_. [])" by (auto simp: excl_def boot_sched_def split: if_splits)
  have "scheduler_active boot_sched" "current_task (cpus boot_sched 0) = Some 0" "idle_task (cpus boot_sched 0) = None"
    by (simp_all add: boot_sched_def)
  with sleep_of_fallback_task_returns [OF i e, of 0 0 0 1000] show ?thesis by auto
qed

end
