(* ===== verification/Sync.thy ===== *)
theory Sync
  imports Sched
begin

text \<open>
  Spinlocks (\<^verbatim>\<open>include/lock.h\<close>) and counting semaphores (\<^verbatim>\<open>kernel/sem.c\<close>).
  A spinlock is a state machine of the processors that use it: one step is one atomic exchange,
  one read of the inner waiting loop, or one release. The semaphores are built on the scheduler:
  one iteration of the loop of \<open>sem_wait\<close> is one step, which ends with the semaphore taken or
  with the caller blocked and another task running.
\<close>

section \<open>Spinlocks\<close>

text \<open>Where a processor is: outside, before the exchange, in the inner loop, or inside.\<close>

datatype lock_pc = Outside | Exchange | Spinning | Inside

record lock_state =
  lock_val :: nat
  lock_pcs :: "nat \<Rightarrow> lock_pc"

definition test_and_set :: "lock_state \<Rightarrow> nat \<times> lock_state" where
  "test_and_set l = (lock_val l, l\<lparr>lock_val := 1\<rparr>)"

text \<open>One step of processor \<open>p\<close>: \<open>spin_lock\<close>, \<open>spin_trylock\<close>, \<open>spin_unlock\<close>. That only a holder releases is an
  assumption on the callers: \<open>spin_unlock\<close> stores 0 without a check.\<close>

inductive lock_step :: "nat \<Rightarrow> lock_state \<Rightarrow> lock_state \<Rightarrow> bool" where
  call: "lock_pcs l p = Outside \<Longrightarrow> lock_step p l (l\<lparr>lock_pcs := (lock_pcs l)(p := Exchange)\<rparr>)"
| acquire: "lock_pcs l p = Exchange \<Longrightarrow> test_and_set l = (0, l') \<Longrightarrow>
    lock_step p l (l'\<lparr>lock_pcs := (lock_pcs l)(p := Inside)\<rparr>)"
| contend: "lock_pcs l p = Exchange \<Longrightarrow> test_and_set l = (v, l') \<Longrightarrow> v \<noteq> 0 \<Longrightarrow>
    lock_step p l (l'\<lparr>lock_pcs := (lock_pcs l)(p := Spinning)\<rparr>)"
| pause: "lock_pcs l p = Spinning \<Longrightarrow> lock_val l \<noteq> 0 \<Longrightarrow> lock_step p l l"
| retry: "lock_pcs l p = Spinning \<Longrightarrow> lock_val l = 0 \<Longrightarrow>
    lock_step p l (l\<lparr>lock_pcs := (lock_pcs l)(p := Exchange)\<rparr>)"
| try_ok: "lock_pcs l p = Outside \<Longrightarrow> test_and_set l = (0, l') \<Longrightarrow>
    lock_step p l (l'\<lparr>lock_pcs := (lock_pcs l)(p := Inside)\<rparr>)"
| try_fail: "lock_pcs l p = Outside \<Longrightarrow> test_and_set l = (v, l') \<Longrightarrow> v \<noteq> 0 \<Longrightarrow> lock_step p l l'"
| release: "lock_pcs l p = Inside \<Longrightarrow>
    lock_step p l (l\<lparr>lock_val := 0, lock_pcs := (lock_pcs l)(p := Outside)\<rparr>)"

inductive_cases lock_stepE: "lock_step p l l'"

inductive lock_reach :: "lock_state \<Rightarrow> bool" where
  init: "lock_reach \<lparr>lock_val = 0, lock_pcs = (\<lambda>_. Outside)\<rparr>"
| step: "lock_reach l \<Longrightarrow> lock_step p l l' \<Longrightarrow> lock_reach l'"

definition inside :: "lock_state \<Rightarrow> nat set" where
  "inside l = {p. lock_pcs l p = Inside}"

definition lock_inv :: "lock_state \<Rightarrow> bool" where
  "lock_inv l \<longleftrightarrow> (lock_val l = 0 \<and> inside l = {}) \<or> (lock_val l = 1 \<and> (\<exists>p. inside l = {p}))"

lemma inside_upd:
  "inside (l\<lparr>lock_pcs := (lock_pcs l')(p := x)\<rparr>) =
     (if x = Inside then insert p (inside l') else inside l' - {p})"
  by (auto simp: inside_def)

lemma inside_val [simp]: "inside (l\<lparr>lock_val := v\<rparr>) = inside l"
  by (simp add: inside_def)

lemma lock_inv_stay:
  assumes "lock_inv l" "lock_pcs l p \<noteq> Inside" "x \<noteq> Inside"
  shows "lock_inv (l\<lparr>lock_pcs := (lock_pcs l)(p := x)\<rparr>)"
proof -
  have "p \<notin> inside l" using assms(2) by (simp add: inside_def)
  then show ?thesis using assms(1,3) by (simp add: lock_inv_def inside_upd [of l, simplified])
qed

lemma lock_inv_enter:
  assumes "lock_inv l" "lock_val l = 0"
  shows "lock_inv (l\<lparr>lock_val := 1, lock_pcs := (lock_pcs l)(p := Inside)\<rparr>)"
  using assms inside_upd [where l = "l\<lparr>lock_val := 1\<rparr>" and l' = l and p = p and x = Inside] by (auto simp: lock_inv_def)

lemma lock_inv_leave:
  assumes "lock_inv l" "lock_pcs l p = Inside"
  shows "lock_inv (l\<lparr>lock_val := 0, lock_pcs := (lock_pcs l)(p := Outside)\<rparr>)"
proof -
  have "p \<in> inside l" using assms(2) by (simp add: inside_def)
  then have "inside l = {p}" using assms(1) by (auto simp: lock_inv_def)
  then show ?thesis using inside_upd [where l = "l\<lparr>lock_val := 0\<rparr>" and l' = l and p = p and x = Outside] by (simp add: lock_inv_def)
qed

lemma lock_inv_held: "lock_inv l \<Longrightarrow> lock_val l \<noteq> 0 \<Longrightarrow> l\<lparr>lock_val := 1\<rparr> = l"
  by (auto simp: lock_inv_def)

lemma lock_inv_step:
  assumes "lock_inv l" "lock_step p l l'"
  shows "lock_inv l'"
  using assms(2)
proof cases
  case call
  then show ?thesis using lock_inv_stay [OF assms(1)] by simp
next
  case (acquire m)
  then show ?thesis using lock_inv_enter [OF assms(1)] by (auto simp: test_and_set_def)
next
  case (contend v m)
  then show ?thesis using lock_inv_stay [OF assms(1)] lock_inv_held [OF assms(1)]
    by (auto simp: test_and_set_def)
next
  case retry
  then show ?thesis using lock_inv_stay [OF assms(1)] by simp
next
  case (try_ok m)
  then show ?thesis using lock_inv_enter [OF assms(1)] by (auto simp: test_and_set_def)
next
  case (try_fail v)
  then show ?thesis using assms(1) lock_inv_held [OF assms(1)] by (auto simp: test_and_set_def)
next
  case release
  then show ?thesis using lock_inv_leave [OF assms(1)] by simp
qed (use assms(1) in simp)

lemma lock_reach_inv: "lock_reach l \<Longrightarrow> lock_inv l"
proof (induction rule: lock_reach.induct)
  case init
  show ?case by (simp add: lock_inv_def inside_def)
next
  case (step l p l')
  then show ?case using lock_inv_step by blast
qed

section \<open>Semaphores (kernel/sem.c)\<close>

text \<open>The semaphores by address (address 0 is NULL), beside the scheduler.\<close>

record sync =
  sch :: sched
  sem_count :: "nat \<Rightarrow> int"

definition sem_init :: "nat \<Rightarrow> int \<Rightarrow> sync \<Rightarrow> sync" where
  "sem_init sem v s = (if sem = 0 then s else s\<lparr>sem_count := (sem_count s)(sem := v)\<rparr>)"

text \<open>
  One iteration of the loop in \<open>sem_wait\<close>: \<open>True\<close> is the return; \<open>False\<close> is an
  iteration that blocked the caller and gave up the processor, after which the loop is entered
  again.
\<close>

definition sem_wait_iter :: "int option \<Rightarrow> nat \<Rightarrow> sync \<Rightarrow> bool \<times> sync" where
  "sem_wait_iter cpu sem s =
     (if sem = 0 then (True, s)
      else
        let current = task_get_current cpu (sch s) in
        if sem_count s sem > 0 then (True, s\<lparr>sem_count := (sem_count s)(sem := sem_count s sem - 1)\<rparr>)
        else
          let t1 = upd_task current (\<lambda>x. x\<lparr>waiting_sem := sem\<rparr>) (sch s);
              t2 = task_block cpu t1
          in (False, s\<lparr>sch := schedule cpu t2\<rparr>))"

text \<open>The first blocked task, in slot order, that waits on the semaphore.\<close>

definition sem_waiter :: "nat \<Rightarrow> sched \<Rightarrow> nat option" where
  "sem_waiter sem t =
     find (\<lambda>i. t_state (tasks t i) = TASK_BLOCKED \<and> waiting_sem (tasks t i) = sem) [0..<MAX_TASKS]"

definition sem_signal :: "int option \<Rightarrow> nat \<Rightarrow> sync \<Rightarrow> sync" where
  "sem_signal cpu sem s =
     (if sem = 0 then s
      else
        let s1 = s\<lparr>sem_count := (sem_count s)(sem := sem_count s sem + 1)\<rparr> in
        case sem_waiter sem (sch s1) of
          None \<Rightarrow> s1
        | Some i \<Rightarrow>
            s1\<lparr>sch := task_wakeup cpu (Some i) (upd_task i (\<lambda>x. x\<lparr>waiting_sem := 0\<rparr>) (sch s1))\<rparr>)"

section \<open>Sequences of semaphore operations\<close>

datatype sem_op = Wait "int option" | Signal "int option"

text \<open>Running operations on one semaphore; the number counts the waits that took it.\<close>

fun sem_run :: "nat \<Rightarrow> sem_op list \<Rightarrow> sync \<Rightarrow> int \<times> sync" where
  "sem_run sem [] s = (0, s)"
| "sem_run sem (Wait cpu # ops) s =
     (case sem_wait_iter cpu sem s of (ok, s1) \<Rightarrow>
        case sem_run sem ops s1 of (n, s2) \<Rightarrow> (if ok then n + 1 else n, s2))"
| "sem_run sem (Signal cpu # ops) s = sem_run sem ops (sem_signal cpu sem s)"

fun signals :: "sem_op list \<Rightarrow> int" where
  "signals [] = 0"
| "signals (Wait c # ops) = signals ops"
| "signals (Signal c # ops) = 1 + signals ops"

lemma sem_wait_iter_count:
  assumes "sem \<noteq> 0"
  shows "sem_count (snd (sem_wait_iter cpu sem s)) sem =
      (if fst (sem_wait_iter cpu sem s) then sem_count s sem - 1 else sem_count s sem)"
    and "fst (sem_wait_iter cpu sem s) \<longleftrightarrow> sem_count s sem > 0"
    and "sem' \<noteq> sem \<Longrightarrow> sem_count (snd (sem_wait_iter cpu sem s)) sem' = sem_count s sem'"
  using assms by (simp_all add: sem_wait_iter_def Let_def)

lemma sem_signal_count:
  "sem \<noteq> 0 \<Longrightarrow> sem_count (sem_signal cpu sem s) sem = sem_count s sem + 1"
  by (simp add: sem_signal_def Let_def split: option.splits)

lemma sem_run_count:
  assumes "sem \<noteq> 0" "sem_run sem ops s = (n, s')" "sem_count s sem \<ge> 0"
  shows "sem_count s' sem = sem_count s sem + signals ops - n \<and> sem_count s' sem \<ge> 0 \<and> 0 \<le> n"
  using assms(2,3)
proof (induction ops arbitrary: s n)
  case (Cons op ops)
  show ?case
  proof (cases op)
    case (Wait cpu)
    obtain ok s1 where w: "sem_wait_iter cpu sem s = (ok, s1)" by (cases "sem_wait_iter cpu sem s")
    obtain m where r: "sem_run sem ops s1 = (m, s')"
      using Cons.prems(1) Wait w by (auto split: prod.splits)
    have c: "sem_count s1 sem = (if ok then sem_count s sem - 1 else sem_count s sem)" "ok = (sem_count s sem > 0)"
      using sem_wait_iter_count(1,2) [OF assms(1), of cpu s] w by simp_all
    then have "sem_count s1 sem \<ge> 0" using Cons.prems(2) by (auto split: if_splits)
    from Cons.IH [OF r this] show ?thesis using Cons.prems(1) Wait w r c by (auto split: if_splits)
  next
    case (Signal cpu)
    have "sem_count (sem_signal cpu sem s) sem \<ge> 0"
      using sem_signal_count [OF assms(1), of cpu s] Cons.prems(2) by simp
    from Cons.IH [OF _ this] show ?thesis
      using Cons.prems(1) Signal sem_signal_count [OF assms(1), of cpu s] by simp
  qed
qed simp

section \<open>Properties\<close>

text \<open>C33: mutual exclusion of the spinlock. In every reachable state at most one processor is
  between \<open>spin_lock\<close> (or a successful \<open>spin_trylock\<close>) and \<open>spin_unlock\<close>, and the lock
  word is nonzero exactly while there is one. Callers release only a lock they hold.\<close>

theorem spinlock_mutual_exclusion:
  assumes "lock_reach l"
  shows "(\<forall>p q. lock_pcs l p = Inside \<and> lock_pcs l q = Inside \<longrightarrow> p = q) \<and>
    (lock_val l \<noteq> 0 \<longleftrightarrow> (\<exists>p. lock_pcs l p = Inside))"
proof -
  have "(\<forall>p q. p \<in> inside l \<and> q \<in> inside l \<longrightarrow> p = q) \<and> (lock_val l \<noteq> 0 \<longleftrightarrow> (\<exists>p. p \<in> inside l))"
    using lock_reach_inv [OF assms] by (auto simp: lock_inv_def)
  then show ?thesis by (simp add: inside_def)
qed

theorem spinlock_mutual_exclusion_witness:
  "\<exists>l. lock_reach l \<and> lock_pcs l 0 = Inside \<and> lock_pcs l 1 = Spinning \<and> lock_val l \<noteq> 0"
proof -
  let ?a = "\<lparr>lock_val = 0, lock_pcs = (\<lambda>_. Outside)\<rparr>"
  let ?b = "\<lparr>lock_val = 1, lock_pcs = (\<lambda>_. Outside)(0 := Inside)\<rparr>"
  let ?c = "\<lparr>lock_val = 1, lock_pcs = (\<lambda>_. Outside)(0 := Inside, 1 := Exchange)\<rparr>"
  let ?d = "\<lparr>lock_val = 1, lock_pcs = (\<lambda>_. Outside)(0 := Inside, 1 := Spinning)\<rparr>"
  have "lock_step 0 ?a ?b" using try_ok [of ?a 0 "?a\<lparr>lock_val := 1\<rparr>"] by (simp add: test_and_set_def)
  then have b: "lock_reach ?b" using lock_reach.intros by blast
  have "lock_step 1 ?b ?c" using call [of ?b 1] by simp
  then have c: "lock_reach ?c" using b lock_reach.intros by blast
  have "lock_step 1 ?c ?d" using contend [of ?c 1 1 ?c] by (simp add: test_and_set_def)
  then have d: "lock_reach ?d" using c lock_reach.intros by blast
  then show ?thesis using spinlock_mutual_exclusion [OF d] by (intro exI [of _ ?d]) auto
qed

text \<open>a semaphore conserves its units. Over any sequence of \<open>sem_wait\<close> iterations and
  \<open>sem_signal\<close> calls the count is the initial value plus the signals minus the waits that
  returned, and it never goes below zero: never more waits return than there were units.\<close>

lemma semaphore_conservation:
  assumes "sem \<noteq> 0" and "sem_count s sem \<ge> 0" and "sem_run sem ops s = (taken, s')"
  shows "sem_count s' sem = sem_count s sem + signals ops - taken \<and>
    0 \<le> taken \<and> taken \<le> sem_count s sem + signals ops"
  using sem_run_count [OF assms(1,3,2)] by simp

abbreviation demo_sync :: sync where
  "demo_sync \<equiv> \<lparr>sch = demo_sched, sem_count = (\<lambda>_. 1)\<rparr>"

lemma semaphore_conservation_witness:
  "\<exists>taken s'. sem_run 7 [Wait (Some 0), Wait (Some 0), Signal (Some 0)] demo_sync = (taken, s') \<and> taken \<le> 2"
proof -
  obtain taken s' where r: "sem_run 7 [Wait (Some 0), Wait (Some 0), Signal (Some 0)] demo_sync = (taken, s')"
    by (metis surj_pair)
  with semaphore_conservation [OF _ _ r] show ?thesis by simp
qed

text \<open>a signal wakes one waiter. If some task is blocked on the semaphore, \<open>sem_signal\<close>
  makes the one in the lowest slot ready and clears its wait, leaves every other task in its
  state, and adds one to the count, so that the woken task finds a unit when it tries again;
  without a waiter only the count changes.\<close>

lemma sem_signal_wakes_one:
  assumes "sched_inv (sch s) ss rq" and "scheduler_active (sch s)" and "sem \<noteq> 0"
  shows "sem_count (sem_signal cpu sem s) sem = sem_count s sem + 1 \<and>
    (case sem_waiter sem (sch s) of
       None \<Rightarrow> sch (sem_signal cpu sem s) = sch s \<and>
         (\<forall>j < MAX_TASKS. \<not> (t_state (tasks (sch s) j) = TASK_BLOCKED \<and> waiting_sem (tasks (sch s) j) = sem))
     | Some i \<Rightarrow>
         t_state (tasks (sch s) i) = TASK_BLOCKED \<and> waiting_sem (tasks (sch s) i) = sem \<and>
         t_state (tasks (sch (sem_signal cpu sem s)) i) = TASK_READY \<and>
         waiting_sem (tasks (sch (sem_signal cpu sem s)) i) = 0 \<and>
         (\<forall>j. j \<noteq> i \<longrightarrow> t_state (tasks (sch (sem_signal cpu sem s)) j) = t_state (tasks (sch s) j)))"
proof (cases "sem_waiter sem (sch s)")
  case None
  then have "\<forall>j < MAX_TASKS. \<not> (t_state (tasks (sch s) j) = TASK_BLOCKED \<and> waiting_sem (tasks (sch s) j) = sem)"
    by (auto simp: sem_waiter_def find_upt_None)
  then show ?thesis using None assms(3) by (simp add: sem_signal_def Let_def)
next
  case (Some i)
  have w: "t_state (tasks (sch s) i) = TASK_BLOCKED \<and> waiting_sem (tasks (sch s) i) = sem"
    using find_SomeD [OF Some [unfolded sem_waiter_def]] by simp
  let ?t = "upd_task i (\<lambda>x. x\<lparr>waiting_sem := 0\<rparr>) (sch s)"
  have it: "sched_inv ?t ss rq" by (rule sched_inv_upd_plain [OF assms(1)]) simp
  have "scheduler_active ?t" "t_state (tasks ?t i) = TASK_BLOCKED" using assms(2) w by (simp_all add: sched_simps)
  then have u: "t_state (tasks (task_wakeup cpu (Some i) ?t) i) = TASK_READY"
    "\<And>j. j \<noteq> i \<Longrightarrow> t_state (tasks (task_wakeup cpu (Some i) ?t) j) = t_state (tasks ?t j)"
    "\<And>j. waiting_sem (tasks (task_wakeup cpu (Some i) ?t) j) = waiting_sem (tasks ?t j)"
    using task_wakeup_inv(2-4) [OF it _ _ refl] by blast+
  have "sch (sem_signal cpu sem s) = task_wakeup cpu (Some i) ?t"
    using Some assms(3) by (simp add: sem_signal_def Let_def)
  then show ?thesis using Some w u sem_signal_count [OF assms(3)] by (simp add: sched_simps)
qed

lemma sem_signal_wakes_one_witness:
  "sem_waiter 7 (sch demo_sync) = None \<and> sem_count (sem_signal (Some 0) 7 demo_sync) 7 = 2"
proof -
  have "sem_waiter 7 demo_sched = None"
    by (auto simp: sem_waiter_def find_upt_None demo_sched_def)
  then show ?thesis using sem_signal_wakes_one [of demo_sync "[2]" demo_rq 7 "Some 0"] demo_inv demo_fields(1) by simp
qed

end
