(* ===== verification/Futex.thy ===== *)
theory Futex
  imports Sync
begin

text \<open>
  Fast user-space mutexes (\<^verbatim>\<open>kernel/futex.c\<close>): sixteen buckets of waiting nodes, hashed by
  user address and, for private futexes, by the address space. \<open>futex_wait\<close> is two steps, the
  part up to \<open>schedule()\<close> and the part that runs when the task is resumed; \<open>futex_wake\<close>
  is one. A bucket is the list of its nodes from \<open>head\<close> on; a node is identified by the address
  \<open>kmalloc\<close> returned for it.
\<close>

section \<open>State (lines 17-32)\<close>

definition FUTEX_BUCKETS :: nat where
  "FUTEX_BUCKETS = 16"

record futex_node =
  fn_addr :: nat
  fn_task :: nat
  fn_uaddr :: nat
  fn_bitset :: u32

record futex =
  fsch :: sched
  buckets :: "nat \<Rightarrow> futex_node list"
  umem :: "nat \<Rightarrow> u32"

definition FUTEX_PRIVATE_FLAG :: int where
  "FUTEX_PRIVATE_FLAG = 128"

section \<open>Hash and validation (lines 34-59)\<close>

definition futex_hash :: "int option \<Rightarrow> nat \<Rightarrow> bool \<Rightarrow> sched \<Rightarrow> nat" where
  "futex_hash cpu uaddr is_private s =
     (let pml4 = (if is_private then cr3 (tasks s (task_get_current cpu s)) else 0)
      in (drop_bit 2 uaddr XOR drop_bit 12 pml4) mod FUTEX_BUCKETS)"

definition futex_init :: "futex \<Rightarrow> futex" where
  "futex_init f = f\<lparr>buckets := (\<lambda>i. if i < FUTEX_BUCKETS then [] else buckets f i)\<rparr>"

definition validate_uaddr :: "nat \<Rightarrow> bool" where
  "validate_uaddr addr = (if addr AND 3 \<noteq> 0 then False else if addr = 0 then False else True)"

definition is_private_op :: "int \<Rightarrow> bool" where
  "is_private_op op \<longleftrightarrow> op AND FUTEX_PRIVATE_FLAG \<noteq> 0"

section \<open>Waiting (lines 61-161)\<close>

text \<open>The tick a timeout of \<open>sec\<close> seconds and \<open>nsec\<close> nanoseconds ends at (lines 66-75).\<close>

definition timeout_tick :: "nat \<Rightarrow> nat \<Rightarrow> nat \<Rightarrow> nat" where
  "timeout_tick now sec nsec =
     (let ticks = add64 (mul64 sec TIMER_HZ) (nsec div 1000000);
          target = add64 now ticks
      in if target = 0 then 1 else target)"

text \<open>
  Up to the call of \<open>schedule()\<close>. \<open>early\<close> is the value of the first, unlocked read of the
  futex word, \<open>mem\<close> the address \<open>kmalloc\<close> returned. The result is an error number, or the
  node, its bucket and the state in which the caller has been blocked and switched away.
\<close>

definition futex_wait_begin ::
  "int option \<Rightarrow> u32 \<Rightarrow> nat option \<Rightarrow> nat \<Rightarrow> u32 \<Rightarrow> nat option \<Rightarrow> int \<Rightarrow> u32 \<Rightarrow> futex
     \<Rightarrow> (int + nat \<times> nat \<times> futex) option" where
  "futex_wait_begin cpu early mem uaddr val target op bitset f =
     (if \<not> validate_uaddr uaddr then Some (Inl (- EFAULT))
      else if early \<noteq> val then Some (Inl (- EAGAIN))
      else
        let idx = futex_hash cpu uaddr (is_private_op op) (fsch f) in
        case mem of
          None \<Rightarrow> Some (Inl (- ENOMEM))
        | Some a \<Rightarrow>
            if umem f uaddr \<noteq> val then Some (Inl (- EAGAIN))
            else
              let node = \<lparr>fn_addr = a, fn_task = task_get_current cpu (fsch f), fn_uaddr = uaddr,
                     fn_bitset = bitset\<rparr>;
                  f1 = f\<lparr>buckets := (buckets f)(idx := node # buckets f idx)\<rparr>
              in do {
                s1 \<leftarrow> (case target of
                        Some tk \<Rightarrow> task_block_with_timeout cpu tk (fsch f1)
                      | None \<Rightarrow> Some (task_block cpu (fsch f1)));
                Some (Inr (a, idx, f1\<lparr>fsch := schedule cpu s1\<rparr>))
              })"

text \<open>Unlinking the node with address \<open>a\<close>, if it is still there.\<close>

fun remove_node :: "nat \<Rightarrow> futex_node list \<Rightarrow> futex_node list" where
  "remove_node a [] = []"
| "remove_node a (n # ns) = (if fn_addr n = a then ns else n # remove_node a ns)"

definition node_queued :: "nat \<Rightarrow> futex_node list \<Rightarrow> bool" where
  "node_queued a ns \<longleftrightarrow> list_ex (\<lambda>n. fn_addr n = a) ns"

text \<open>From the return of \<open>schedule()\<close> on; \<open>now\<close> is the tick at which the task resumed.\<close>

definition futex_wait_end :: "nat \<Rightarrow> nat option \<Rightarrow> nat \<Rightarrow> nat \<Rightarrow> futex \<Rightarrow> int \<times> futex" where
  "futex_wait_end now target a idx f =
     (let timed_out = (case target of Some tk \<Rightarrow> now \<ge> tk | None \<Rightarrow> False);
          found = node_queued a (buckets f idx);
          f1 = f\<lparr>buckets := (buckets f)(idx := remove_node a (buckets f idx))\<rparr>
      in (if found then (if timed_out then - ETIMEDOUT else - EINTR) else 0, f1))"

section \<open>Waking (lines 163-209)\<close>

definition node_match :: "nat \<Rightarrow> bool \<Rightarrow> u32 \<Rightarrow> sched \<Rightarrow> nat \<Rightarrow> futex_node \<Rightarrow> bool" where
  "node_match uaddr is_private bitset s current n \<longleftrightarrow>
     fn_uaddr n = uaddr \<and> (\<not> is_private \<or> cr3 (tasks s (fn_task n)) = cr3 (tasks s current)) \<and>
     fn_bitset n AND bitset \<noteq> 0"

fun futex_wake_loop ::
  "int option \<Rightarrow> nat \<Rightarrow> bool \<Rightarrow> u32 \<Rightarrow> nat \<Rightarrow> int \<Rightarrow> int \<Rightarrow> futex_node list \<Rightarrow> sched
     \<Rightarrow> int \<times> futex_node list \<times> sched" where
  "futex_wake_loop cpu uaddr priv bitset current count woken [] s = (woken, [], s)"
| "futex_wake_loop cpu uaddr priv bitset current count woken (n # ns) s =
     (if woken < count then
        if node_match uaddr priv bitset s current n then
          futex_wake_loop cpu uaddr priv bitset current count (woken + 1) ns
            (if t_state (tasks s (fn_task n)) = TASK_BLOCKED then task_wakeup cpu (Some (fn_task n)) s else s)
        else
          (case futex_wake_loop cpu uaddr priv bitset current count woken ns s of
             (w, rest, s') \<Rightarrow> (w, n # rest, s'))
      else (woken, n # ns, s))"

definition futex_wake :: "int option \<Rightarrow> nat \<Rightarrow> int \<Rightarrow> int \<Rightarrow> u32 \<Rightarrow> futex \<Rightarrow> int \<times> futex" where
  "futex_wake cpu uaddr count op bitset f =
     (if \<not> validate_uaddr uaddr then (- EFAULT, f)
      else
        let priv = is_private_op op;
            idx = futex_hash cpu uaddr priv (fsch f);
            current = task_get_current cpu (fsch f)
        in case futex_wake_loop cpu uaddr priv bitset current count 0 (buckets f idx) (fsch f) of
             (woken, rest, s) \<Rightarrow> (woken, f\<lparr>buckets := (buckets f)(idx := rest), fsch := s\<rparr>))"


section \<open>Switching, blocking and waking leave the identity of the tasks\<close>

text \<open>\<open>keeps_ids s s'\<close>: same numbers, page tables and reports to the parent, and the scheduler is active in both or in none.\<close>

abbreviation "ids x \<equiv> (cr3 x, t_id x, parent_id x, tgid x, t_name x, (exit_code x, wait_status x, wait_code x, wait_pending x))"

definition keeps_ids :: "sched \<Rightarrow> sched \<Rightarrow> bool" where
  "keeps_ids s s' \<longleftrightarrow> (\<forall>i. ids (tasks s' i) = ids (tasks s i)) \<and> scheduler_active s' = scheduler_active s"

named_theorems keep_intros \<open>steps that keep the identity of the tasks\<close>

lemma keep_refl [keep_intros]: "keeps_ids s s"
  by (simp add: keeps_ids_def)

lemma keep_upd_task [keep_intros]: "keeps_ids s u \<Longrightarrow> (\<And>x. ids (f x) = ids x) \<Longrightarrow> keeps_ids s (upd_task t f u)"
  by (simp add: keeps_ids_def upd_task_def)

lemma keep_upd_cpu [keep_intros]: "keeps_ids s u \<Longrightarrow> keeps_ids s (upd_cpu c f u)"
  by (simp add: keeps_ids_def upd_cpu_def)

lemma keep_head [keep_intros]: "keeps_ids s u \<Longrightarrow> keeps_ids s (u\<lparr>sleep_head := h\<rparr>)"
  by (simp add: keeps_ids_def)

lemma keep_if [keep_intros]:
  "(b \<Longrightarrow> keeps_ids s u) \<Longrightarrow> (\<not> b \<Longrightarrow> keeps_ids s v) \<Longrightarrow> keeps_ids s (if b then u else v)"
  by simp

lemma keep_option [keep_intros]:
  "keeps_ids s u \<Longrightarrow> (\<And>x. keeps_ids s (g x)) \<Longrightarrow> keeps_ids s (case k of None \<Rightarrow> u | Some x \<Rightarrow> g x)"
  by (cases k) simp_all

lemma keep_dequeue_sleep [keep_intros]: "keeps_ids s u \<Longrightarrow> keeps_ids s (dequeue_sleep t u)"
  unfolding dequeue_sleep_def Let_def by (intro keep_intros) simp_all

lemma keep_enqueue_sleep: "enqueue_sleep t s = Some s' \<Longrightarrow> keeps_ids s s'"
  unfolding enqueue_sleep_def Let_def
  by (auto simp: bind_eq_Some_conv split: if_splits intro!: keep_intros)

lemma keep_enqueue_ready [keep_intros]: "keeps_ids s u \<Longrightarrow> keeps_ids s (enqueue_ready t u)"
  unfolding enqueue_ready_def Let_def by (intro keep_intros) simp_all

lemma keep_dequeue_ready [keep_intros]: "keeps_ids s u \<Longrightarrow> keeps_ids s (dequeue_ready t u)"
  unfolding dequeue_ready_def Let_def by (intro keep_intros) simp_all

lemma keep_switch_to [keep_intros]: "keeps_ids s u \<Longrightarrow> keeps_ids s (switch_to c cur n u)"
  unfolding switch_to_def Let_def by (intro keep_intros) simp_all

lemma keep_resume_or_switch [keep_intros]: "keeps_ids s u \<Longrightarrow> keeps_ids s (resume_or_switch c cur n u)"
  unfolding resume_or_switch_def Let_def by (intro keep_intros) simp_all

lemma keep_count_tick [keep_intros]: "keeps_ids s u \<Longrightarrow> keeps_ids s (count_tick u)"
  by (simp add: keeps_ids_def count_tick_fields)

lemma keep_pick_next [keep_intros]: "keeps_ids s u \<Longrightarrow> keeps_ids s (snd (pick_next c cur u))"
  by (simp add: keeps_ids_def pick_next_def split: option.split)

lemma keep_schedule [keep_intros]: "keeps_ids s u \<Longrightarrow> keeps_ids s (schedule cpu u)"
  unfolding schedule_def Let_def case_prod_unfold by (intro keep_intros)

lemma keep_task_block [keep_intros]: "keeps_ids s u \<Longrightarrow> keeps_ids s (task_block cpu u)"
  unfolding task_block_def Let_def by (intro keep_intros) simp_all

lemma keep_task_block_with_timeout:
  assumes "task_block_with_timeout cpu tk s = Some s'"
  shows "keeps_ids s s'"
proof -
  have "keeps_ids s u" if "keeps_ids (upd_task t f s) u" "\<And>x. ids (f x) = ids x" for t f u
    using that by (simp add: keeps_ids_def upd_task_def)
  then show ?thesis using assms unfolding task_block_with_timeout_def Let_def
    by (auto split: if_splits intro!: keep_intros dest: keep_enqueue_sleep)
qed

lemma keep_task_wakeup [keep_intros]: "keeps_ids s u \<Longrightarrow> keeps_ids s (task_wakeup cpu t u)"
proof -
  have "keeps_ids s v \<Longrightarrow> keeps_ids s (lapic_send_ipi a x v)" for a x v
    by (simp add: keeps_ids_def lapic_send_ipi_def)
  then show "keeps_ids s u \<Longrightarrow> keeps_ids s (task_wakeup cpu t u)"
    unfolding task_wakeup_def ready_and_poke_def Let_def by (intro keep_intros) (simp_all add: keep_intros)
qed

lemma keeps_cr3D: "keeps_ids s s' \<Longrightarrow> cr3 (tasks s' i) = cr3 (tasks s i)"
  by (simp add: keeps_ids_def)

lemma keeps_idsD: "keeps_ids s s' \<Longrightarrow> ids (tasks s' i) = ids (tasks s i)"
  by (simp add: keeps_ids_def)

section \<open>The wake loop takes the first matching nodes\<close>

fun drop_first :: "nat \<Rightarrow> ('a \<Rightarrow> bool) \<Rightarrow> 'a list \<Rightarrow> 'a list" where
  "drop_first 0 P xs = xs"
| "drop_first (Suc k) P [] = []"
| "drop_first (Suc k) P (x # xs) = (if P x then drop_first k P xs else x # drop_first (Suc k) P xs)"

lemma node_match_wakeup:
  "node_match uaddr priv bitset (if b then task_wakeup cpu (Some t) s else s) cur = node_match uaddr priv bitset s cur"
  using keeps_cr3D [OF keep_task_wakeup [OF keep_refl]] by (simp add: node_match_def fun_eq_iff)

lemma futex_wake_loop_list:
  assumes "P = node_match uaddr priv bitset s cur" "futex_wake_loop cpu uaddr priv bitset cur count w ns s = (v, rest, s')"
  shows "rest = drop_first (nat (count - w)) P ns \<and>
    v = w + int (min (nat (count - w)) (length (filter P ns)))"
  using assms
proof (induction ns arbitrary: w s v rest)
  case Nil
  then show ?case by (cases "nat (count - w)") auto
next
  case (Cons n ns)
  show ?case
  proof (cases "w < count")
    case False
    then show ?thesis using Cons.prems by simp
  next
    case lt: True
    then have k: "nat (count - w) = Suc (nat (count - (w + 1)))" by simp
    show ?thesis
    proof (cases "P n")
      case True
      then have "futex_wake_loop cpu uaddr priv bitset cur count (w + 1) ns
          (if t_state (tasks s (fn_task n)) = TASK_BLOCKED then task_wakeup cpu (Some (fn_task n)) s else s) = (v, rest, s')"
        using Cons.prems lt by simp
      from Cons.IH [OF _ this] Cons.prems(1) show ?thesis using True
        by (simp only: node_match_wakeup k drop_first.simps filter.simps if_True list.size min_Suc_Suc) simp
    next
      case False
      then obtain r where r: "futex_wake_loop cpu uaddr priv bitset cur count w ns s = (v, r, s')" "rest = n # r"
        using Cons.prems lt by (auto split: prod.splits)
      from Cons.IH [OF Cons.prems(1) r(1)] False r(2) show ?thesis by (simp add: k)
    qed
  qed
qed

text \<open>The tasks a wake of at most \<open>k\<close> of the nodes \<open>ns\<close> makes ready: those of the first \<open>k\<close> matching nodes that are blocked.\<close>

definition blocked_waiters :: "nat \<Rightarrow> (futex_node \<Rightarrow> bool) \<Rightarrow> futex_node list \<Rightarrow> sched \<Rightarrow> nat set" where
  "blocked_waiters k P ns s = {i \<in> fn_task ` set (take k (filter P ns)). t_state (tasks s i) = TASK_BLOCKED}"

lemma futex_wake_loop_sched:
  assumes "sched_inv s ss rq" "scheduler_active s" "P = node_match uaddr priv bitset s cur"
    and "futex_wake_loop cpu uaddr priv bitset cur count w ns s = (v, rest, s')"
    and "A = blocked_waiters (nat (count - w)) P ns s"
  shows "\<exists>rq'. sched_inv s' (filter (\<lambda>i. i \<notin> A) ss) rq' \<and> wakes A s rq s' rq'"
  using assms
proof (induction ns arbitrary: w s ss rq v rest A)
  case Nil
  then have "A = {}" "s' = s" by (simp_all add: blocked_waiters_def)
  then show ?case using Nil.prems(1) wakes_refl by auto
next
  case (Cons n ns)
  show ?case
  proof (cases "w < count")
    case False
    then have "A = {}" "s' = s" using Cons.prems by (simp_all add: blocked_waiters_def)
    then show ?thesis using Cons.prems(1) wakes_refl by auto
  next
    case lt: True
    then have k: "nat (count - w) = Suc (nat (count - (w + 1)))" by simp
    show ?thesis
    proof (cases "P n")
      case True
      let ?t = "fn_task n"
      let ?s1 = "if t_state (tasks s ?t) = TASK_BLOCKED then task_wakeup cpu (Some ?t) s else s"
      let ?B = "{i. i = ?t \<and> t_state (tasks s i) = TASK_BLOCKED}"
      have r: "futex_wake_loop cpu uaddr priv bitset cur count (w + 1) ns ?s1 = (v, rest, s')"
        using Cons.prems lt True by simp
      have "\<exists>rq1. sched_inv ?s1 (filter (\<lambda>i. i \<notin> ?B) ss) rq1 \<and> wakes ?B s rq ?s1 rq1"
      proof (cases "t_state (tasks s ?t) = TASK_BLOCKED")
        case b: True
        then have B: "?B = {?t}" by auto
        have "filter (\<lambda>i. i \<notin> {?t}) ss = remove1 ?t ss"
          using sleepq_distinct [OF sched_invD(1) [OF Cons.prems(1)]] by (simp add: distinct_remove1_removeAll removeAll_filter_not_eq eq_commute)
        then show ?thesis unfolding B using b task_wakeup_inv(1) [OF Cons.prems(1,2) disjI1 [OF b] refl, of cpu]
          task_wakeup_wakes [OF Cons.prems(1,2) disjI1 [OF b], of cpu] by auto
      next
        case False
        then have B: "?B = {}" by auto
        show ?thesis unfolding B using False Cons.prems(1) wakes_refl by auto
      qed
      then obtain rq1 where s1: "sched_inv ?s1 (filter (\<lambda>i. i \<notin> ?B) ss) rq1" "wakes ?B s rq ?s1 rq1" by blast
      have act: "scheduler_active ?s1" using wakes_fields(4) [OF s1(2)] Cons.prems(2) by simp
      have P: "P = node_match uaddr priv bitset ?s1 cur" unfolding node_match_wakeup by (rule Cons.prems(3))
      define C where "C = blocked_waiters (nat (count - (w + 1))) P ns ?s1"
      obtain rq' where rq': "sched_inv s' (filter (\<lambda>i. i \<notin> C) (filter (\<lambda>i. i \<notin> ?B) ss)) rq'" "wakes C ?s1 rq1 s' rq'"
        using Cons.IH [OF s1(1) act P r C_def] by blast
      have "t_state (tasks ?s1 i) = (if i \<in> ?B then TASK_READY else t_state (tasks s i))" for i by (rule wakes_fields(5) [OF s1(2)])
      then have "A = ?B \<union> C" using Cons.prems(5) True unfolding C_def k blocked_waiters_def by auto
      then have "sched_inv s' (filter (\<lambda>i. i \<notin> A) ss) rq'" "wakes A s rq s' rq'"
        using rq'(1) wakes_trans [OF s1(2) rq'(2)] by (simp_all add: conj_commute)
      then show ?thesis by blast
    next
      case False
      then obtain r where r: "futex_wake_loop cpu uaddr priv bitset cur count w ns s = (v, r, s')"
        using Cons.prems lt by (auto split: prod.splits)
      have A: "A = blocked_waiters (nat (count - w)) P ns s" using False Cons.prems(5) by (simp add: blocked_waiters_def)
      show ?thesis by (rule Cons.IH [OF Cons.prems(1-3) r A])
    qed
  qed
qed

lemma futex_wake_spec:
  assumes "sched_inv (fsch f) ss rq" and "scheduler_active (fsch f)" and "validate_uaddr uaddr"
    and "P = node_match uaddr (is_private_op op) bitset (fsch f) (task_get_current cpu (fsch f))"
    and "idx = futex_hash cpu uaddr (is_private_op op) (fsch f)"
    and "A = blocked_waiters (nat count) P (buckets f idx) (fsch f)"
  shows "\<exists>s' rq'. futex_wake cpu uaddr count op bitset f =
      (int (min (nat count) (length (filter P (buckets f idx)))),
       f\<lparr>buckets := (buckets f)(idx := drop_first (nat count) P (buckets f idx)), fsch := s'\<rparr>) \<and>
    sched_inv s' (filter (\<lambda>i. i \<notin> A) ss) rq' \<and> wakes A (fsch f) rq s' rq'"
proof -
  let ?cur = "task_get_current cpu (fsch f)"
  obtain v rest s' where l: "futex_wake_loop cpu uaddr (is_private_op op) bitset ?cur count 0 (buckets f idx) (fsch f) = (v, rest, s')"
    by (metis prod_cases3)
  have A: "A = blocked_waiters (nat (count - 0)) P (buckets f idx) (fsch f)" using assms(6) by simp
  note a = futex_wake_loop_list [OF assms(4) l] and b = futex_wake_loop_sched [OF assms(1,2,4) l A]
  have "futex_wake cpu uaddr count op bitset f = (v, f\<lparr>buckets := (buckets f)(idx := rest), fsch := s'\<rparr>)"
    using assms(3,5) l by (simp add: futex_wake_def Let_def)
  then show ?thesis using a b by auto
qed

section \<open>Properties\<close>

text \<open>C34: \<open>futex_wake\<close> wakes the first \<open>count\<close> matching waiters and loses none. On a valid address it returns
  how many nodes matched, at most \<open>count\<close>; exactly those nodes, the first ones from the head
  of the bucket, are gone and the rest keep their order. Their tasks that were blocked are ready, out of the sleep queue, and at the end of a
  ready queue unless a processor still runs them. No other bucket, no word of user memory, and nothing else of the scheduler changes but
  queue pointers and headers, the processors chosen for the woken tasks, and the interrupts sent to them.\<close>

theorem futex_wake_correct:
  assumes "sched_inv (fsch f) ss rq" and "scheduler_active (fsch f)" and "validate_uaddr uaddr"
    and "P = node_match uaddr (is_private_op op) bitset (fsch f) (task_get_current cpu (fsch f))"
    and "idx = futex_hash cpu uaddr (is_private_op op) (fsch f)"
    and "A = blocked_waiters (nat count) P (buckets f idx) (fsch f)"
  shows "\<exists>s' rq'. futex_wake cpu uaddr count op bitset f =
      (int (min (nat count) (length (filter P (buckets f idx)))),
       f\<lparr>buckets := (buckets f)(idx := drop_first (nat count) P (buckets f idx)), fsch := s'\<rparr>) \<and>
    sched_inv s' (filter (\<lambda>i. i \<notin> A) ss) rq' \<and>
    (\<forall>i. t_state (tasks s' i) = (if i \<in> A then TASK_READY else t_state (tasks (fsch f) i))) \<and>
    (\<forall>i \<in> A. is_active (fsch f) i \<or> (\<exists>d. i \<in> set (rq' d))) \<and>
    (\<forall>d. \<exists>xs. rq' d = rq d @ xs \<and> (\<forall>x \<in> set xs. x \<in> A \<and> \<not> is_active (fsch f) x)) \<and>
    only_links (make_ready A (fsch f)) (s'\<lparr>ipis := ipis (fsch f)\<rparr>)"
proof -
  obtain s' rq' where f: "futex_wake cpu uaddr count op bitset f =
      (int (min (nat count) (length (filter P (buckets f idx)))),
       f\<lparr>buckets := (buckets f)(idx := drop_first (nat count) P (buckets f idx)), fsch := s'\<rparr>)"
    "sched_inv s' (filter (\<lambda>i. i \<notin> A) ss) rq'" "wakes A (fsch f) rq s' rq'"
    using futex_wake_spec [OF assms] by blast
  then show ?thesis using wakes_fields(5) [OF f(3)] f(3) [unfolded wakes_def]
    by (intro exI [of _ s'] exI [of _ rq'] conjI) simp_all
qed

abbreviation demo_futex :: futex where
  "demo_futex \<equiv> \<lparr>fsch = demo_sched, buckets = (\<lambda>_. [])(1 :=
     [\<lparr>fn_addr = 0x9000, fn_task = 5, fn_uaddr = 4, fn_bitset = 1\<rparr>]), umem = (\<lambda>_. 0)\<rparr>"

theorem futex_wake_correct_witness:
  "\<exists>s' rq'. futex_wake (Some 0) 4 1 0 1 (demo_futex\<lparr>fsch := upd_task 5 (\<lambda>x. x\<lparr>t_state := TASK_BLOCKED\<rparr>) demo_sched\<rparr>) =
      (1, \<lparr>fsch = s', buckets = (\<lambda>_. []), umem = (\<lambda>_. 0)\<rparr>) \<and>
    t_state (tasks s' 5) = TASK_READY \<and> sched_inv s' [2] rq' \<and> (\<exists>d. 5 \<in> set (rq' d))"
proof -
  let ?s = "upd_task 5 (\<lambda>x. x\<lparr>t_state := TASK_BLOCKED\<rparr>) demo_sched"
  let ?f = "demo_futex\<lparr>fsch := ?s\<rparr>"
  have v: "validate_uaddr 4" by (simp add: validate_uaddr_def)
  have p: "is_private_op 0 = False" by (simp add: is_private_op_def)
  have h: "1 = futex_hash (Some 0) 4 (is_private_op 0) (fsch ?f)"
    by (simp add: futex_hash_def p FUTEX_BUCKETS_def drop_bit_eq_div)
  have i: "sched_inv (fsch ?f) [2] demo_rq" unfolding futex.select_convs futex.update_convs by (rule sched_inv_upd_task [OF demo_inv]) auto
  have a: "scheduler_active (fsch ?f)" using demo_fields(1) by (simp add: sched_simps)
  have b: "{5} = blocked_waiters (nat 1) (node_match 4 (is_private_op 0) 1 (fsch ?f) (task_get_current (Some 0) (fsch ?f))) (buckets ?f 1) (fsch ?f)"
    by (auto simp: blocked_waiters_def p node_match_def sched_simps)
  have "current_task (cpus demo_sched d) \<noteq> Some 5" for d using demo_fields(2) demo_fields(6) [of d] by (cases "d = 0") auto
  then have na: "\<not> is_active (fsch ?f) 5" by (auto simp: is_active_def sched_simps list_ex_iff)
  have m: "node_match 4 (is_private_op 0) 1 (fsch ?f) (task_get_current (Some 0) (fsch ?f)) \<lparr>fn_addr = 0x9000, fn_task = 5, fn_uaddr = 4, fn_bitset = 1\<rparr>"
    by (simp add: p node_match_def)
  have e: "(\<lambda>_. [])(Suc 0 := []) = (\<lambda>_. [] :: futex_node list)" by (rule fun_upd_idem) simp
  from futex_wake_correct [OF i a v refl h b] show ?thesis
  proof (elim exE conjE, goal_cases)
    case (1 s' rq')
    then have "futex_wake (Some 0) 4 1 0 1 ?f = (1, \<lparr>fsch = s', buckets = (\<lambda>_. []), umem = (\<lambda>_. 0)\<rparr>)" "sched_inv s' [2] rq'"
      using m by (simp_all add: e)
    moreover have "t_state (tasks s' 5) = TASK_READY" "\<exists>d. 5 \<in> set (rq' d)" using 1(3,4) na by simp_all
    ultimately show ?case by blast
  qed
qed

text \<open>no wake-up is lost between a waiter and a waker. Once \<open>futex_wait\<close> has queued the
  caller, a \<open>futex_wake\<close> of the same word with the same private flag and a common bit, by a task
  of the same address space if the futex is private, finds the node first in the bucket and
  removes it, and the waiter then returns 0.\<close>

lemma futex_wait_then_wake:
  assumes "futex_wait_begin cpu early (Some a) uaddr val target op bitset f = Some (Inr (a, idx, f1))"
    and "a \<notin> fn_addr ` set (buckets f idx)" and "bitset AND bitset2 \<noteq> 0" and "count \<ge> 1"
    and "sched_inv (fsch f1) ss rq" and "scheduler_active (fsch f1)"
    and "is_private_op op \<Longrightarrow> cr3 (tasks (fsch f1) (task_get_current cpu2 (fsch f1))) =
       cr3 (tasks (fsch f) (task_get_current cpu (fsch f)))"
  shows "\<exists>w f2. futex_wake cpu2 uaddr count op bitset2 f1 = (w, f2) \<and> w \<ge> 1 \<and>
    fst (futex_wait_end now target a idx f2) = 0"
proof -
  let ?cur = "task_get_current cpu (fsch f)" and ?cur2 = "task_get_current cpu2 (fsch f1)"
  let ?node = "\<lparr>fn_addr = a, fn_task = ?cur, fn_uaddr = uaddr, fn_bitset = bitset\<rparr>"
  have v: "validate_uaddr uaddr" and i: "idx = futex_hash cpu uaddr (is_private_op op) (fsch f)"
    using assms(1) by (auto simp: futex_wait_begin_def Let_def bind_eq_Some_conv split: if_splits option.splits)
  have b: "buckets f1 idx = ?node # buckets f idx"
    using assms(1) by (auto simp: futex_wait_begin_def Let_def bind_eq_Some_conv split: if_splits option.splits)
  have c: "cr3 (tasks (fsch f1) j) = cr3 (tasks (fsch f) j)" for j
  proof -
    have "fsch f1 = schedule cpu (task_block cpu (fsch f)) \<or>
        (\<exists>tk s1. task_block_with_timeout cpu tk (fsch f) = Some s1 \<and> fsch f1 = schedule cpu s1)"
      using assms(1)
      by (auto simp: futex_wait_begin_def Let_def bind_eq_Some_conv split: if_splits option.splits) blast
    then obtain s1 where s1: "keeps_ids (fsch f) s1" "fsch f1 = schedule cpu s1"
      using keep_task_block [OF keep_refl] keep_task_block_with_timeout by metis
    show ?thesis unfolding s1(2) using keep_schedule [OF s1(1)] by (rule keeps_cr3D)
  qed
  define P where "P = node_match uaddr (is_private_op op) bitset2 (fsch f1) ?cur2"
  have idx2: "idx = futex_hash cpu2 uaddr (is_private_op op) (fsch f1)"
    using i assms(7) by (cases "is_private_op op") (simp_all add: futex_hash_def)
  have m: "P ?node" using assms(3,7) c by (simp add: P_def node_match_def)
  obtain f2 where w: "futex_wake cpu2 uaddr count op bitset2 f1 =
      (int (min (nat count) (length (filter P (buckets f1 idx)))), f2)"
    "buckets f2 = (buckets f1)(idx := drop_first (nat count) P (buckets f1 idx))"
    using futex_wake_spec [OF assms(5,6) v P_def idx2 refl] by fastforce
  obtain k where k: "nat count = Suc k" using assms(4) by (cases "nat count") auto
  have sub: "set (drop_first n Q xs) \<subseteq> set xs" for n Q and xs :: "futex_node list"
    by (induction n Q xs rule: drop_first.induct) auto
  have "a \<notin> fn_addr ` set (buckets f2 idx)"
    using sub [of k P "buckets f idx"] assms(2) m by (auto simp: w(2) b k)
  then have "\<not> node_queued a (buckets f2 idx)" by (auto simp: node_queued_def list_ex_iff)
  then have "fst (futex_wait_end now target a idx f2) = 0" by (simp add: futex_wait_end_def Let_def)
  moreover have "1 \<le> int (min (nat count) (length (filter P (buckets f1 idx))))" using m by (simp add: b k)
  ultimately show ?thesis using w(1) by blast
qed


lemma futex_wait_then_wake_witness:
  "\<exists>f1 w f2. futex_wait_begin (Some 0) 0 (Some 0x9000) 4 0 None 0 1 (demo_futex\<lparr>buckets := (\<lambda>_. [])\<rparr>) =
       Some (Inr (0x9000, 1, f1)) \<and>
     futex_wake (Some 0) 4 1 0 1 f1 = (w, f2) \<and> fst (futex_wait_end 0 None 0x9000 1 f2) = 0"
proof -
  let ?f = "demo_futex\<lparr>buckets := (\<lambda>_. [])\<rparr>"
  let ?b = "upd_task 0 (\<lambda>x. x\<lparr>wake_tick := 0, t_state := TASK_BLOCKED\<rparr>) demo_sched"
  let ?node = "\<lparr>fn_addr = 0x9000, fn_task = 0, fn_uaddr = 4, fn_bitset = 1\<rparr>"
  let ?f1 = "?f\<lparr>buckets := (\<lambda>_. [])(1 := [?node]), fsch := schedule (Some 0) ?b\<rparr>"
  have p: "is_private_op 0 = False" by (simp add: is_private_op_def)
  have cu: "task_get_current (Some 0) demo_sched = 0" by (simp add: task_get_current_def demo_sched_def)
  have h: "futex_hash (Some 0) 4 (is_private_op 0) demo_sched = 1"
    by (simp add: futex_hash_def p FUTEX_BUCKETS_def drop_bit_eq_div)
  have bl: "task_block (Some 0) demo_sched = ?b"
    by (simp add: task_block_def cu Let_def) (simp add: demo_sched_def)
  have begin_: "futex_wait_begin (Some 0) 0 (Some 0x9000) 4 0 None 0 1 ?f = Some (Inr (0x9000, 1, ?f1))"
    using h cu bl by (simp add: futex_wait_begin_def validate_uaddr_def Let_def)
  have ib: "sched_inv ?b [2] demo_rq" by (rule sched_inv_upd_task [OF demo_inv]) auto
  have eb: "excl ?b demo_rq" using demo_excl by (simp add: excl_upd_task)
  have "\<exists>ss' rq'. sched_inv (schedule (Some 0) ?b) ss' rq'"
    using schedule_inv [OF ib eb, of 0 0] demo_fields by (auto simp: sched_simps)
  then obtain ss rq where i: "sched_inv (fsch ?f1) ss rq" by auto
  have "keeps_ids demo_sched (schedule (Some 0) ?b)" by (intro keep_intros) simp
  then have "scheduler_active (schedule (Some 0) ?b)" using demo_fields(1) by (simp add: keeps_ids_def)
  then have act: "scheduler_active (fsch ?f1)" by simp
  show ?thesis
    using futex_wait_then_wake [OF begin_ _ _ _ i act, of 1 1 "Some 0" 0] begin_ p by auto
qed

end
