(* ===== verification/Input.thy ===== *)
theory Input
  imports Sync
begin

text \<open>
  The input event queues (\<^verbatim>\<open>kernel/drivers/input/input.c\<close>): a ring of 1024 events for all
  devices and one for the mouse, each with a semaphore that counts the events in it. A push or a
  read is the critical section under the queue's lock together with its semaphore operation. The
  locale \<open>bounded_fifo\<close> is what the readers rely on; both rings are interpretations of it.
\<close>

section \<open>State\<close>

record input_event =
  ev_type :: u16
  ev_code :: u16
  ev_value :: u32

record input =
  isync :: sync
  input_queue :: "nat \<Rightarrow> input_event"
  head :: nat
  tail :: nat
  mouse_queue :: "nat \<Rightarrow> input_event"
  mouse_head :: nat
  mouse_tail :: nat

definition INPUT_QUEUE_SIZE :: nat where
  "INPUT_QUEUE_SIZE = 1024"

text \<open>The addresses of the two semaphores.\<close>

definition input_sem :: nat where
  "input_sem = 0x1000"

definition mouse_sem :: nat where
  "mouse_sem = 0x1008"

section \<open>Operations\<close>

definition input_init :: "input \<Rightarrow> input" where
  "input_init s = s\<lparr>isync := sem_init mouse_sem 0 (sem_init input_sem 0 (isync s)), head := 0, tail := 0,
     mouse_head := 0, mouse_tail := 0\<rparr>"

definition input_push :: "int option \<Rightarrow> u16 \<Rightarrow> u16 \<Rightarrow> u32 \<Rightarrow> input \<Rightarrow> input" where
  "input_push cpu ty code val s =
     (let nxt = add32 (head s) 1 mod INPUT_QUEUE_SIZE in
      if nxt \<noteq> tail s then
        s\<lparr>input_queue := (input_queue s)(head s := \<lparr>ev_type = ty, ev_code = code, ev_value = val\<rparr>),
          head := nxt, isync := sem_signal cpu input_sem (isync s)\<rparr>
      else s)"

text \<open>What a read does: return with a number of events, or leave the caller blocked.\<close>

datatype read_result = Returned int "input_event option" | Blocked_on_sem

definition input_read :: "int option \<Rightarrow> int \<Rightarrow> input \<Rightarrow> read_result \<times> input" where
  "input_read cpu count s =
     (if count \<le> 0 then (Returned 0 None, s)
      else case sem_wait_iter cpu input_sem (isync s) of (ok, y) \<Rightarrow>
        let s1 = s\<lparr>isync := y\<rparr> in
        if \<not> ok then (Blocked_on_sem, s1)
        else if head s1 \<noteq> tail s1 then
          (Returned 1 (Some (input_queue s1 (tail s1))), s1\<lparr>tail := add32 (tail s1) 1 mod INPUT_QUEUE_SIZE\<rparr>)
        else (Returned 0 None, s1))"

definition input_pending :: "input \<Rightarrow> int" where
  "input_pending s = int (sub32 (add32 (head s) INPUT_QUEUE_SIZE) (tail s) mod INPUT_QUEUE_SIZE)"

definition mouse_enqueue :: "int option \<Rightarrow> u16 \<Rightarrow> u16 \<Rightarrow> u32 \<Rightarrow> input \<Rightarrow> input" where
  "mouse_enqueue cpu ty code val s =
     (let nxt = add32 (mouse_head s) 1 mod INPUT_QUEUE_SIZE in
      if nxt \<noteq> mouse_tail s then
        s\<lparr>mouse_queue := (mouse_queue s)(mouse_head s := \<lparr>ev_type = ty, ev_code = code, ev_value = val\<rparr>),
          mouse_head := nxt, isync := sem_signal cpu mouse_sem (isync s)\<rparr>
      else s)"

definition input_mouse_push :: "int option \<Rightarrow> u16 \<Rightarrow> u16 \<Rightarrow> u32 \<Rightarrow> input \<Rightarrow> input" where
  "input_mouse_push cpu ty code val s = input_push cpu ty code val (mouse_enqueue cpu ty code val s)"

definition input_read_mouse :: "int option \<Rightarrow> int \<Rightarrow> input \<Rightarrow> read_result \<times> input" where
  "input_read_mouse cpu count s =
     (if count \<le> 0 then (Returned 0 None, s)
      else case sem_wait_iter cpu mouse_sem (isync s) of (ok, y) \<Rightarrow>
        let s1 = s\<lparr>isync := y\<rparr> in
        if \<not> ok then (Blocked_on_sem, s1)
        else if mouse_head s1 \<noteq> mouse_tail s1 then
          (Returned 1 (Some (mouse_queue s1 (mouse_tail s1))),
           s1\<lparr>mouse_tail := add32 (mouse_tail s1) 1 mod INPUT_QUEUE_SIZE\<rparr>)
        else (Returned 0 None, s1))"

definition input_mouse_pending :: "input \<Rightarrow> int" where
  "input_mouse_pending s = int (sub32 (add32 (mouse_head s) INPUT_QUEUE_SIZE) (mouse_tail s) mod INPUT_QUEUE_SIZE)"

section \<open>The interface of a bounded queue\<close>

locale bounded_fifo =
  fixes push :: "'e \<Rightarrow> 's \<Rightarrow> 's"
    and pop :: "'s \<Rightarrow> ('e \<times> 's) option"
    and contents :: "'s \<Rightarrow> 'e list"
    and cap :: nat
    and invar :: "'s \<Rightarrow> bool"
  assumes push_room: "invar s \<Longrightarrow> length (contents s) < cap \<Longrightarrow> contents (push e s) = contents s @ [e]"
    and push_full: "invar s \<Longrightarrow> length (contents s) = cap \<Longrightarrow> contents (push e s) = contents s"
    and pop_empty: "invar s \<Longrightarrow> contents s = [] \<Longrightarrow> pop s = None"
    and pop_first: "invar s \<Longrightarrow> contents s = e # es \<Longrightarrow> \<exists>t. pop s = Some (e, t) \<and> contents t = es \<and> invar t"
    and invar_push: "invar s \<Longrightarrow> invar (push e s)"
    and bounded: "invar s \<Longrightarrow> length (contents s) \<le> cap"
begin

fun push_all :: "'e list \<Rightarrow> 's \<Rightarrow> 's" where
  "push_all [] s = s"
| "push_all (e # es) s = push_all es (push e s)"

fun pop_all :: "nat \<Rightarrow> 's \<Rightarrow> 'e list" where
  "pop_all 0 s = []"
| "pop_all (Suc n) s = (case pop s of None \<Rightarrow> [] | Some (e, t) \<Rightarrow> e # pop_all n t)"

lemma push_all_contents:
  "invar s \<Longrightarrow> invar (push_all es s) \<and>
     contents (push_all es s) = contents s @ take (cap - length (contents s)) es"
proof (induction es arbitrary: s)
  case (Cons e es)
  note IH = Cons.IH [OF invar_push [OF Cons.prems], of e]
  show ?case
  proof (cases "length (contents s) < cap")
    case True
    then have "cap - length (contents s) = Suc (cap - length (contents (push e s)))"
      using push_room [OF Cons.prems True, of e] by simp
    then show ?thesis using IH push_room [OF Cons.prems True, of e] by simp
  next
    case False
    then have "length (contents s) = cap" using bounded [OF Cons.prems] by simp
    then show ?thesis using IH push_full [OF Cons.prems, of e] by simp
  qed
qed simp

lemma pop_all_contents: "invar s \<Longrightarrow> pop_all n s = take n (contents s)"
proof (induction n arbitrary: s)
  case (Suc n)
  show ?case
  proof (cases "contents s")
    case Nil
    then show ?thesis using pop_empty [OF Suc.prems] by simp
  next
    case (Cons e es)
    from pop_first [OF Suc.prems Cons] obtain t where "pop s = Some (e, t)" "contents t = es" "invar t" by blast
    then show ?thesis using Suc.IH Cons by simp
  qed
qed simp

text \<open>What comes out is what went in, in order, up to the capacity.\<close>

lemma fifo_order:
  assumes "invar s" "contents s = []"
  shows "pop_all n (push_all es s) = take n (take cap es)"
  using push_all_contents [OF assms(1), of es] pop_all_contents [of "push_all es s" n] assms(2) by simp

end

section \<open>A ring as a list\<close>

definition ring_len :: "nat \<Rightarrow> nat \<Rightarrow> nat" where
  "ring_len h t = (h + INPUT_QUEUE_SIZE - t) mod INPUT_QUEUE_SIZE"

definition ring_list :: "(nat \<Rightarrow> 'e) \<Rightarrow> nat \<Rightarrow> nat \<Rightarrow> 'e list" where
  "ring_list q h t = map (\<lambda>i. q ((t + i) mod INPUT_QUEUE_SIZE)) [0..<ring_len h t]"

definition ring_ok :: "nat \<Rightarrow> nat \<Rightarrow> bool" where
  "ring_ok h t \<longleftrightarrow> h < INPUT_QUEUE_SIZE \<and> t < INPUT_QUEUE_SIZE"

lemma ring_len_cases:
  "ring_ok h t \<Longrightarrow> ring_len h t = (if t \<le> h then h - t else h + 1024 - t)"
proof (cases "t \<le> h")
  case True
  assume ok: "ring_ok h t"
  have "h + INPUT_QUEUE_SIZE - t = (h - t) + INPUT_QUEUE_SIZE" using True by simp
  then have "ring_len h t = (h - t) mod INPUT_QUEUE_SIZE" unfolding ring_len_def by (simp only: mod_add_self2)
  moreover have "h - t < INPUT_QUEUE_SIZE" using ok by (simp add: ring_ok_def less_imp_diff_less)
  ultimately show ?thesis using True by simp
next
  case False
  assume "ring_ok h t"
  then show ?thesis using False by (simp add: ring_len_def ring_ok_def INPUT_QUEUE_SIZE_def)
qed

lemma ring_len_bound: "ring_ok h t \<Longrightarrow> ring_len h t \<le> 1023"
  by (auto simp: ring_len_cases ring_ok_def INPUT_QUEUE_SIZE_def)

lemma ring_next: "h < INPUT_QUEUE_SIZE \<Longrightarrow> add32 h 1 mod INPUT_QUEUE_SIZE = (if h = 1023 then 0 else h + 1)"
  by (auto simp: add32_def INPUT_QUEUE_SIZE_def)

lemma ring_full_iff: "ring_ok h t \<Longrightarrow> add32 h 1 mod INPUT_QUEUE_SIZE = t \<longleftrightarrow> ring_len h t = 1023"
  using ring_next [of h] by (auto simp: ring_ok_def ring_len_cases INPUT_QUEUE_SIZE_def split: if_splits)

lemma ring_empty_iff: "ring_ok h t \<Longrightarrow> h = t \<longleftrightarrow> ring_len h t = 0"
  by (auto simp: ring_len_cases ring_ok_def INPUT_QUEUE_SIZE_def)

lemma ring_push:
  assumes "ring_ok h t" "ring_len h t < 1023" and n_def: "n = add32 h 1 mod INPUT_QUEUE_SIZE"
  shows "ring_ok n t" "ring_len n t = Suc (ring_len h t)" "ring_list (q(h := e)) n t = ring_list q h t @ [e]"
proof -
  have n: "n = (if h = 1023 then 0 else h + 1)" using assms(1) ring_next by (simp add: n_def ring_ok_def)
  show ok: "ring_ok n t" using assms(1) n by (auto simp: ring_ok_def INPUT_QUEUE_SIZE_def)
  show len: "ring_len n t = Suc (ring_len h t)"
    using assms(1,2) ok by (auto simp: ring_len_cases n ring_ok_def INPUT_QUEUE_SIZE_def split: if_splits)
  have last: "(t + ring_len h t) mod INPUT_QUEUE_SIZE = h"
    using assms(1) by (auto simp: ring_len_cases ring_ok_def INPUT_QUEUE_SIZE_def)
  have other: "(t + i) mod INPUT_QUEUE_SIZE \<noteq> h" if "i < ring_len h t" for i
  proof (cases "t + i < 1024")
    case True
    then show ?thesis using that assms(1)
      by (auto simp: ring_len_cases ring_ok_def INPUT_QUEUE_SIZE_def split: if_splits)
  next
    case False
    moreover have "t + i - 1024 < 1024"
      using that assms(1) ring_len_bound [OF assms(1)] by (auto simp: ring_ok_def INPUT_QUEUE_SIZE_def)
    ultimately have "(t + i) mod 1024 = t + i - 1024" by (simp add: le_mod_geq)
    then show ?thesis using that assms(1) False
      by (auto simp: ring_len_cases ring_ok_def INPUT_QUEUE_SIZE_def split: if_splits)
  qed
  show "ring_list (q(h := e)) n t = ring_list q h t @ [e]"
    using other last by (simp add: ring_list_def len)
qed

lemma ring_pop:
  assumes "ring_ok h t" "h \<noteq> t" and n_def: "n = add32 t 1 mod INPUT_QUEUE_SIZE"
  shows "ring_ok h n" "ring_list q h t = q t # ring_list q h n"
proof -
  have n: "n = (if t = 1023 then 0 else t + 1)" using assms(1) ring_next by (simp add: n_def ring_ok_def)
  show ok: "ring_ok h n" using assms(1) n by (auto simp: ring_ok_def INPUT_QUEUE_SIZE_def)
  have len: "ring_len h t = Suc (ring_len h n)"
    using assms(1,2) ok by (auto simp: ring_len_cases n ring_ok_def INPUT_QUEUE_SIZE_def split: if_splits)
  have "(t + Suc i) mod INPUT_QUEUE_SIZE = (n + i) mod INPUT_QUEUE_SIZE" for i
    using assms(1) by (auto simp: n ring_ok_def INPUT_QUEUE_SIZE_def)
  then show "ring_list q h t = q t # ring_list q h n"
    using assms(1) by (simp add: ring_list_def len upt_rec [of 0 "Suc _"] map_Suc_upt [symmetric] comp_def
        ring_ok_def del: upt_Suc)
qed


lemma length_ring_list [simp]: "length (ring_list q h t) = ring_len h t"
  by (simp add: ring_list_def)

section \<open>Both rings implement the interface\<close>

definition events :: "input \<Rightarrow> input_event list" where
  "events s = ring_list (input_queue s) (head s) (tail s)"

definition mouse_events :: "input \<Rightarrow> input_event list" where
  "mouse_events s = ring_list (mouse_queue s) (mouse_head s) (mouse_tail s)"

text \<open>The indices are in range and each semaphore counts the events of its ring.\<close>

definition input_inv :: "input \<Rightarrow> bool" where
  "input_inv s \<longleftrightarrow> ring_ok (head s) (tail s) \<and> ring_ok (mouse_head s) (mouse_tail s) \<and>
     sem_count (isync s) input_sem = int (length (events s)) \<and>
     sem_count (isync s) mouse_sem = int (length (mouse_events s))"

lemma sems [simp]: "input_sem \<noteq> 0" "mouse_sem \<noteq> 0" "input_sem \<noteq> mouse_sem" "mouse_sem \<noteq> input_sem"
  by (simp_all add: input_sem_def mouse_sem_def)

lemma sem_signal_other: "sem' \<noteq> sem \<Longrightarrow> sem_count (sem_signal cpu sem s) sem' = sem_count s sem'"
  by (simp add: sem_signal_def Let_def split: option.splits)

lemma input_push_spec:
  assumes "input_inv s"
  shows "input_inv (input_push cpu ty code val s)"
    and "events (input_push cpu ty code val s) =
      (if length (events s) < 1023 then events s @ [\<lparr>ev_type = ty, ev_code = code, ev_value = val\<rparr>] else events s)"
    and "mouse_events (input_push cpu ty code val s) = mouse_events s"
proof -
  have ok: "ring_ok (head s) (tail s)" using assms by (simp add: input_inv_def)
  let ?s = "input_push cpu ty code val s"
  have "input_inv ?s \<and> events ?s =
      (if length (events s) < 1023 then events s @ [\<lparr>ev_type = ty, ev_code = code, ev_value = val\<rparr>] else events s) \<and>
      mouse_events ?s = mouse_events s"
  proof (cases "ring_len (head s) (tail s) < 1023")
    case True
    define n where "n = add32 (head s) 1 mod INPUT_QUEUE_SIZE"
    have "n \<noteq> tail s" using True ring_full_iff [OF ok] by (simp add: n_def)
    then have "?s = s\<lparr>input_queue := (input_queue s)(head s := \<lparr>ev_type = ty, ev_code = code, ev_value = val\<rparr>),
        head := n, isync := sem_signal cpu input_sem (isync s)\<rparr>"
      by (simp add: input_push_def Let_def n_def)
    then show ?thesis using assms True ring_push [OF ok True n_def]
      by (simp add: input_inv_def events_def mouse_events_def sem_signal_count sem_signal_other)
  next
    case False
    then have "add32 (head s) 1 mod INPUT_QUEUE_SIZE = tail s"
      using ring_full_iff [OF ok] ring_len_bound [OF ok] by simp
    then show ?thesis using assms False by (simp add: input_push_def Let_def events_def)
  qed
  then show "input_inv ?s" "events ?s =
      (if length (events s) < 1023 then events s @ [\<lparr>ev_type = ty, ev_code = code, ev_value = val\<rparr>] else events s)"
    "mouse_events ?s = mouse_events s" by simp_all
qed

lemma mouse_enqueue_spec:
  assumes "input_inv s"
  shows "input_inv (mouse_enqueue cpu ty code val s)"
    and "mouse_events (mouse_enqueue cpu ty code val s) =
      (if length (mouse_events s) < 1023 then mouse_events s @ [\<lparr>ev_type = ty, ev_code = code, ev_value = val\<rparr>]
       else mouse_events s)"
    and "events (mouse_enqueue cpu ty code val s) = events s"
proof -
  have ok: "ring_ok (mouse_head s) (mouse_tail s)" using assms by (simp add: input_inv_def)
  let ?s = "mouse_enqueue cpu ty code val s"
  have "input_inv ?s \<and> mouse_events ?s =
      (if length (mouse_events s) < 1023 then mouse_events s @ [\<lparr>ev_type = ty, ev_code = code, ev_value = val\<rparr>]
       else mouse_events s) \<and> events ?s = events s"
  proof (cases "ring_len (mouse_head s) (mouse_tail s) < 1023")
    case True
    define n where "n = add32 (mouse_head s) 1 mod INPUT_QUEUE_SIZE"
    have "n \<noteq> mouse_tail s" using True ring_full_iff [OF ok] by (simp add: n_def)
    then have "?s = s\<lparr>mouse_queue := (mouse_queue s)(mouse_head s :=
          \<lparr>ev_type = ty, ev_code = code, ev_value = val\<rparr>),
        mouse_head := n, isync := sem_signal cpu mouse_sem (isync s)\<rparr>"
      by (simp add: mouse_enqueue_def Let_def n_def)
    then show ?thesis using assms True ring_push [OF ok True n_def]
      by (simp add: input_inv_def events_def mouse_events_def sem_signal_count sem_signal_other)
  next
    case False
    then have "add32 (mouse_head s) 1 mod INPUT_QUEUE_SIZE = mouse_tail s"
      using ring_full_iff [OF ok] ring_len_bound [OF ok] by simp
    then show ?thesis using assms False by (simp add: mouse_enqueue_def Let_def mouse_events_def)
  qed
  then show "input_inv ?s" "mouse_events ?s =
      (if length (mouse_events s) < 1023 then mouse_events s @ [\<lparr>ev_type = ty, ev_code = code, ev_value = val\<rparr>]
       else mouse_events s)" "events ?s = events s" by simp_all
qed

lemma input_read_spec:
  assumes "input_inv s" "count > 0"
  shows "events s = [] \<Longrightarrow> fst (input_read cpu count s) = Blocked_on_sem"
    and "events s = e # es \<Longrightarrow> \<exists>t. input_read cpu count s = (Returned 1 (Some e), t) \<and> events t = es \<and>
      input_inv t \<and> mouse_events t = mouse_events s"
proof -
  have ok: "ring_ok (head s) (tail s)" and c: "sem_count (isync s) input_sem = int (length (events s))"
    using assms(1) by (simp_all add: input_inv_def)
  obtain b y where w: "sem_wait_iter cpu input_sem (isync s) = (b, y)" by fastforce
  note cnt = sem_wait_iter_count(1,2) [OF sems(1), of cpu "isync s"]
  have b: "b = (events s \<noteq> [])" using cnt w c by simp
  show "fst (input_read cpu count s) = Blocked_on_sem" if "events s = []"
    using w b that assms(2) by (simp add: input_read_def Let_def)
  assume ev: "events s = e # es"
  have ne: "head s \<noteq> tail s" using ring_empty_iff [OF ok] ev by (auto simp: events_def ring_list_def)
  define n where "n = add32 (tail s) 1 mod INPUT_QUEUE_SIZE"
  note p = ring_pop [OF ok ne n_def]
  let ?t = "s\<lparr>isync := y, tail := n\<rparr>"
  have ev2: "e = input_queue s (tail s) \<and> es = events ?t"
    using ev p(2) [of "input_queue s"] by (simp add: events_def)
  then have "input_read cpu count s = (Returned 1 (Some e), ?t)"
    using assms(2) w b ev ne by (simp add: input_read_def Let_def n_def)
  moreover have "sem_count y input_sem = int (length es)" "sem_count y mouse_sem = sem_count (isync s) mouse_sem"
    using cnt w c ev sem_wait_iter_count(3) [OF sems(1), of mouse_sem cpu "isync s"] by simp_all
  then have "input_inv ?t" using assms(1) p(1) ev2 by (simp add: input_inv_def mouse_events_def)
  ultimately show "\<exists>t. input_read cpu count s = (Returned 1 (Some e), t) \<and> events t = es \<and> input_inv t \<and>
      mouse_events t = mouse_events s" using ev2 by (auto simp: mouse_events_def)
qed

lemma input_read_mouse_spec:
  assumes "input_inv s" "count > 0"
  shows "mouse_events s = [] \<Longrightarrow> fst (input_read_mouse cpu count s) = Blocked_on_sem"
    and "mouse_events s = e # es \<Longrightarrow> \<exists>t. input_read_mouse cpu count s = (Returned 1 (Some e), t) \<and>
      mouse_events t = es \<and> input_inv t \<and> events t = events s"
proof -
  have ok: "ring_ok (mouse_head s) (mouse_tail s)" and c: "sem_count (isync s) mouse_sem = int (length (mouse_events s))"
    using assms(1) by (simp_all add: input_inv_def)
  obtain b y where w: "sem_wait_iter cpu mouse_sem (isync s) = (b, y)" by fastforce
  note cnt = sem_wait_iter_count(1,2) [OF sems(2), of cpu "isync s"]
  have b: "b = (mouse_events s \<noteq> [])" using cnt w c by simp
  show "fst (input_read_mouse cpu count s) = Blocked_on_sem" if "mouse_events s = []"
    using w b that assms(2) by (simp add: input_read_mouse_def Let_def)
  assume ev: "mouse_events s = e # es"
  have ne: "mouse_head s \<noteq> mouse_tail s" using ring_empty_iff [OF ok] ev by (auto simp: mouse_events_def ring_list_def)
  define n where "n = add32 (mouse_tail s) 1 mod INPUT_QUEUE_SIZE"
  note p = ring_pop [OF ok ne n_def]
  let ?t = "s\<lparr>isync := y, mouse_tail := n\<rparr>"
  have ev2: "e = mouse_queue s (mouse_tail s) \<and> es = mouse_events ?t"
    using ev p(2) [of "mouse_queue s"] by (simp add: mouse_events_def)
  then have "input_read_mouse cpu count s = (Returned 1 (Some e), ?t)"
    using assms(2) w b ev ne by (simp add: input_read_mouse_def Let_def n_def)
  moreover have "sem_count y mouse_sem = int (length es)" "sem_count y input_sem = sem_count (isync s) input_sem"
    using cnt w c ev sem_wait_iter_count(3) [OF sems(2), of input_sem cpu "isync s"] by simp_all
  then have "input_inv ?t" using assms(1) p(1) ev2 by (simp add: input_inv_def events_def)
  ultimately show "\<exists>t. input_read_mouse cpu count s = (Returned 1 (Some e), t) \<and> mouse_events t = es \<and> input_inv t \<and>
      events t = events s" using ev2 by (auto simp: events_def)
qed

text \<open>The two queues with their operations as an event-level push and a read of one event.\<close>

definition push_event :: "input_event \<Rightarrow> input \<Rightarrow> input" where
  "push_event e = input_push None (ev_type e) (ev_code e) (ev_value e)"

definition push_mouse_event :: "input_event \<Rightarrow> input \<Rightarrow> input" where
  "push_mouse_event e = mouse_enqueue None (ev_type e) (ev_code e) (ev_value e)"

definition returned :: "read_result \<times> input \<Rightarrow> (input_event \<times> input) option" where
  "returned r = (case r of (Returned n (Some e), t) \<Rightarrow> Some (e, t) | _ \<Rightarrow> None)"

interpretation kq: bounded_fifo push_event "\<lambda>s. returned (input_read None 1 s)" events 1023 input_inv
proof
  fix s :: input and e es
  assume i: "input_inv s"
  show "length (events s) < 1023 \<Longrightarrow> events (push_event e s) = events s @ [e]"
    "length (events s) = 1023 \<Longrightarrow> events (push_event e s) = events s" "input_inv (push_event e s)"
    using input_push_spec [OF i] by (simp_all add: push_event_def)
  show "length (events s) \<le> 1023" using i ring_len_bound by (simp add: events_def input_inv_def)
  show "events s = [] \<Longrightarrow> returned (input_read None 1 s) = None"
    using input_read_spec(1) [OF i, of 1 None] by (cases "input_read None 1 s") (auto simp: returned_def)
  show "events s = e # es \<Longrightarrow> \<exists>t. returned (input_read None 1 s) = Some (e, t) \<and> events t = es \<and> input_inv t"
    using input_read_spec(2) [OF i, of 1 e es None] by (auto simp: returned_def)
qed

interpretation mq: bounded_fifo push_mouse_event "\<lambda>s. returned (input_read_mouse None 1 s)" mouse_events 1023 input_inv
proof
  fix s :: input and e es
  assume i: "input_inv s"
  show "length (mouse_events s) < 1023 \<Longrightarrow> mouse_events (push_mouse_event e s) = mouse_events s @ [e]"
    "length (mouse_events s) = 1023 \<Longrightarrow> mouse_events (push_mouse_event e s) = mouse_events s"
    "input_inv (push_mouse_event e s)"
    using mouse_enqueue_spec [OF i] by (simp_all add: push_mouse_event_def)
  show "length (mouse_events s) \<le> 1023" using i ring_len_bound by (simp add: mouse_events_def input_inv_def)
  show "mouse_events s = [] \<Longrightarrow> returned (input_read_mouse None 1 s) = None"
    using input_read_mouse_spec(1) [OF i, of 1 None] by (cases "input_read_mouse None 1 s") (auto simp: returned_def)
  show "mouse_events s = e # es \<Longrightarrow>
      \<exists>t. returned (input_read_mouse None 1 s) = Some (e, t) \<and> mouse_events t = es \<and> input_inv t"
    using input_read_mouse_spec(2) [OF i, of 1 e es None] by (auto simp: returned_def)
qed

section \<open>Properties\<close>

lemma input_init_ok: "input_inv (input_init s)" "events (input_init s) = []" "mouse_events (input_init s) = []"
  by (simp_all add: input_inv_def input_init_def sem_init_def events_def mouse_events_def ring_ok_def
      INPUT_QUEUE_SIZE_def ring_list_def ring_len_def)

lemma pending_is_length:
  assumes "ring_ok h t"
  shows "sub32 (add32 h INPUT_QUEUE_SIZE) t mod INPUT_QUEUE_SIZE = ring_len h t"
proof -
  have "h < 1024" "t < 1024" using assms by (simp_all add: ring_ok_def INPUT_QUEUE_SIZE_def)
  then have "sub32 (add32 h INPUT_QUEUE_SIZE) t = h + 1024 - t"
    by (simp add: wrap_simps INPUT_QUEUE_SIZE_def)
  then show ?thesis by (simp add: ring_len_def INPUT_QUEUE_SIZE_def)
qed

text \<open>the event queues are bounded FIFOs. After \<open>input_init\<close>, any sequence of keyboard-queue pushes
  followed by reads returns the first 1023 pushed events in the order in which they were pushed (later ones
  are dropped), and the same holds of the mouse queue.\<close>
lemma input_queues_fifo:
  "kq.pop_all n (kq.push_all es (input_init s)) = take n (take 1023 es) \<and>
   mq.pop_all n (mq.push_all es (input_init s)) = take n (take 1023 es)"
  using kq.fifo_order [OF input_init_ok(1,2)] mq.fifo_order [OF input_init_ok(1,3)] by blast

text \<open>in a state where the semaphores count the queued events, \<open>input_mouse_push\<close> delivers the event to
  the mouse queue and to the common queue, each unless it is full, the two pending counters are the numbers of
  queued events, and the invariant holds again.\<close>
lemma input_mouse_push_delivers:
  assumes "input_inv s" "e = \<lparr>ev_type = ty, ev_code = code, ev_value = val\<rparr>" "t = input_mouse_push cpu ty code val s"
  shows "input_inv t \<and>
    mouse_events t = (if length (mouse_events s) < 1023 then mouse_events s @ [e] else mouse_events s) \<and>
    events t = (if length (events s) < 1023 then events s @ [e] else events s) \<and>
    input_pending t = int (length (events t)) \<and> input_mouse_pending t = int (length (mouse_events t))"
proof -
  note m = mouse_enqueue_spec [OF assms(1), of cpu ty code val]
  note p = input_push_spec [OF m(1), of cpu ty code val]
  have i: "input_inv t" using p(1) assms(3) by (simp add: input_mouse_push_def)
  then have "input_pending t = int (length (events t))" "input_mouse_pending t = int (length (mouse_events t))"
    using pending_is_length
    by (simp_all add: input_inv_def input_pending_def input_mouse_pending_def events_def mouse_events_def)
  then show ?thesis using i m(2,3) p(2,3) assms(2,3) by (simp add: input_mouse_push_def)
qed

lemma input_mouse_push_delivers_witness:
  "length (mouse_events (input_mouse_push (Some 0) 2 0 1 (input_init (undefined :: input)))) = 1"
  using input_mouse_push_delivers [OF input_init_ok(1) refl refl, of "Some 0" 2 0 1 "undefined :: input"]
  by (simp add: input_init_ok)

end
