(* ===== verification/Libgcc.thy ===== *)
theory Libgcc
  imports Prelude "HOL-Library.Signed_Division"
begin

text \<open>
  The 64-bit division routines of 32-bit builds (\<^verbatim>\<open>kernel/libgcc.c\<close>): restoring shift-subtract
  division on 64-bit words. The loops keep their order, one recursion step per bit from bit 63 down.
\<close>

section \<open>Operations\<close>

text \<open>The body shared by the loops: shift the next bit of \<open>n\<close> into the remainder.\<close>

definition shift_in :: "u64 \<Rightarrow> nat \<Rightarrow> u64 \<Rightarrow> u64" where
  "shift_in n i r = (let r1 = push_bit 1 r in if drop_bit i n AND 1 \<noteq> 0 then r1 OR 1 else r1)"

text \<open>The loop of \<open>__udivdi3\<close> and \<open>__udivmoddi4\<close>; \<open>Suc i\<close> iterations are left when the index is \<open>i\<close>.\<close>

fun udivmod_loop :: "u64 \<Rightarrow> u64 \<Rightarrow> nat \<Rightarrow> u64 \<times> u64 \<Rightarrow> u64 \<times> u64" where
  "udivmod_loop n d 0 qr = qr"
| "udivmod_loop n d (Suc i) (q, r) =
     (let r1 = shift_in n i r in
      if d \<le> r1 then udivmod_loop n d i (q OR push_bit i 1, r1 - d)
      else udivmod_loop n d i (q, r1))"

definition udivdi3 :: "u64 \<Rightarrow> u64 \<Rightarrow> u64" where
  "udivdi3 n d = fst (udivmod_loop n d 64 (0, 0))"

fun umod_loop :: "u64 \<Rightarrow> u64 \<Rightarrow> nat \<Rightarrow> u64 \<Rightarrow> u64" where
  "umod_loop n d 0 r = r"
| "umod_loop n d (Suc i) r =
     (let r1 = shift_in n i r in umod_loop n d i (if d \<le> r1 then r1 - d else r1))"

definition umoddi3 :: "u64 \<Rightarrow> u64 \<Rightarrow> u64" where
  "umoddi3 n d = umod_loop n d 64 0"

text \<open>The quotient and what is stored through \<open>rem\<close> (\<open>None\<close> when the pointer is null).\<close>

definition udivmoddi4 :: "u64 \<Rightarrow> u64 \<Rightarrow> bool \<Rightarrow> u64 \<times> u64 option" where
  "udivmoddi4 n d rem = (case udivmod_loop n d 64 (0, 0) of (q, r) \<Rightarrow> (q, if rem then Some r else None))"

definition divdi3 :: "u64 \<Rightarrow> u64 \<Rightarrow> u64" where
  "divdi3 n d =
     (let neg = ((sint n < 0) \<noteq> (sint d < 0));
          q = udivdi3 (if sint n < 0 then - n else n) (if sint d < 0 then - d else d)
      in if neg then - q else q)"

definition moddi3 :: "u64 \<Rightarrow> u64 \<Rightarrow> u64" where
  "moddi3 n d =
     (let neg = (sint n < 0);
          r = umoddi3 (if sint n < 0 then - n else n) (if sint d < 0 then - d else d)
      in if neg then - r else r)"

section \<open>The unsigned routines\<close>

lemma unat_shift_in:
  assumes "unat r < 2 ^ 63"
  shows "unat (shift_in n i r) = 2 * unat r + of_bool (bit n i)"
proof -
  have e: "unat (push_bit 1 r) = 2 * unat r"
    using assms unat_mult_lem [of r 2] by (simp add: push_bit_eq_mult mult.commute)
  have b: "drop_bit i n AND 1 = of_bool (bit n i)" by (simp add: and_one_eq bit_iff_odd_drop_bit mod_2_eq_odd)
  have "unat (push_bit 1 r OR 1) = 2 * unat r + 1"
    using e by (simp only: unsigned_or_eq unsigned_1) (simp add: or_Suc_0_eq)
  with e b show ?thesis by (simp add: shift_in_def Let_def)
qed

text \<open>One step of long division.\<close>

lemma long_division_step:
  fixes a b d :: nat
  assumes "0 < d" "b < 2" "r = 2 * (a mod d) + b"
  shows "(2 * a + b) div d = 2 * (a div d) + (if d \<le> r then 1 else 0)"
    and "(2 * a + b) mod d = (if d \<le> r then r - d else r)"
proof -
  have eq: "2 * a + b = d * (2 * (a div d)) + r"
  proof -
    have "a = d * (a div d) + a mod d" by simp
    then have "2 * a = 2 * (d * (a div d)) + 2 * (a mod d)" by linarith
    then show ?thesis using assms(3) by (simp only: mult.left_commute [of d 2])
  qed
  have lt: "r < 2 * d"
    using assms mod_less_divisor [of d a] by linarith
  have r: "r div d = (if d \<le> r then 1 else 0)" "r mod d = (if d \<le> r then r - d else r)"
    using lt assms(1) by (auto simp: div_if mod_if)
  show "(2 * a + b) div d = 2 * (a div d) + (if d \<le> r then 1 else 0)"
    "(2 * a + b) mod d = (if d \<le> r then r - d else r)"
    using r assms(1) unfolding eq by simp_all
qed

lemma unat_or_exp:
  fixes q :: u64
  assumes "unat q = c * 2 ^ Suc i" "i < 64"
  shows "unat (q OR push_bit i 1) = unat q + 2 ^ i"
proof -
  have "\<not> bit (unat q) i" unfolding assms(1) by (simp add: bit_iff_odd)
  then have d: "unat q AND 2 ^ i = 0" by (intro bit_eqI) (auto simp: bit_and_iff bit_exp_iff)
  have "unat ((2 :: u64) ^ i) = 2 ^ i"
    using assms(2) unat_of_nat [of "2 ^ i", where 'a = 64] power_strict_increasing [of i 64 "2 :: nat"]
    by simp
  then have "unat (q OR push_bit i 1) = unat q OR 2 ^ i" by (simp add: unsigned_or_eq)
  also have "\<dots> = unat q + 2 ^ i" using d by (simp add: disjunctive_add_eq_or)
  finally show ?thesis .
qed

definition rem_inv :: "u64 \<Rightarrow> u64 \<Rightarrow> nat \<Rightarrow> u64 \<Rightarrow> bool" where
  "rem_inv n d i r \<longleftrightarrow> unat r = (unat n div 2 ^ i) mod unat d"

lemma next_bits: "unat (n :: u64) div 2 ^ i = 2 * (unat n div 2 ^ Suc i) + of_bool (bit n i)"
proof -
  have "unat n div 2 ^ i = 2 * (unat n div 2 ^ i div 2) + unat n div 2 ^ i mod 2" by simp
  moreover have "unat n div 2 ^ i mod 2 = of_bool (bit n i)"
    using bit_unsigned_iff [where 'a = nat, of n i] bit_imp_le_length [of n i]
    by (auto simp: bit_iff_odd [of "unat n"] mod_2_eq_odd)
  ultimately show ?thesis by (simp add: div_mult2_eq [symmetric] mult.commute)
qed

lemma shift_in_step:
  assumes "d \<noteq> 0" "rem_inv n d (Suc i) r" "i < 64"
  shows "rem_inv n d i (if d \<le> shift_in n i r then shift_in n i r - d else shift_in n i r)"
    and "unat n div 2 ^ i div unat d = 2 * (unat n div 2 ^ Suc i div unat d) + (if d \<le> shift_in n i r then 1 else 0)"
proof -
  have "unat n div 2 ^ Suc i \<le> unat n div 2" by (simp add: div_mult2_eq div_le_mono)
  moreover have "unat n < 2 ^ 64" using unsigned_less [of n] by simp
  ultimately have "unat n div 2 ^ Suc i < 2 ^ 63" by simp
  then have "unat r < 2 ^ 63"
    using assms(2) mod_less_eq_dividend [of "unat n div 2 ^ Suc i" "unat d"]
    unfolding rem_inv_def by (metis le_less_trans)
  note s = unat_shift_in [OF this, of n i]
  have d: "0 < unat d" using assms(1) by (simp add: unat_gt_0)
  note l = long_division_step [OF d, of "of_bool (bit n i)" _ "unat n div 2 ^ Suc i"]
  have eq: "unat (shift_in n i r) = 2 * (unat n div 2 ^ Suc i mod unat d) + of_bool (bit n i)"
    using s assms(2) by (simp add: rem_inv_def)
  show "unat n div 2 ^ i div unat d = 2 * (unat n div 2 ^ Suc i div unat d) + (if d \<le> shift_in n i r then 1 else 0)"
    using l(1) [OF _ eq] by (simp add: next_bits [of n i] word_le_nat_alt)
  show "rem_inv n d i (if d \<le> shift_in n i r then shift_in n i r - d else shift_in n i r)"
    using l(2) [OF _ eq] by (simp add: rem_inv_def next_bits [of n i] word_le_nat_alt unat_sub)
qed

lemma udivmod_loop_correct:
  assumes "d \<noteq> 0" "i \<le> 64" "rem_inv n d i r" "unat q = unat n div 2 ^ i div unat d * 2 ^ i"
  shows "udivmod_loop n d i (q, r) = (n div d, n mod d)"
  using assms
proof (induction i arbitrary: q r)
  case 0
  then show ?case by (simp add: rem_inv_def unat_div unat_mod word_unat_eq_iff [of q] word_unat_eq_iff [of r])
next
  case (Suc i)
  have i: "i < 64" using Suc.prems(2) by simp
  note s = shift_in_step [OF Suc.prems(1,3) i]
  have q: "unat q = unat n div 2 ^ Suc i div unat d * 2 ^ Suc i" using Suc.prems(4) .
  show ?case
  proof (cases "d \<le> shift_in n i r")
    case True
    have "unat (q OR push_bit i 1) = unat n div 2 ^ i div unat d * 2 ^ i"
      using unat_or_exp [OF q i] q s(2) True by (simp add: algebra_simps)
    then show ?thesis using Suc.IH [of "shift_in n i r - d" "q OR push_bit i 1"] Suc.prems(1) s(1) True i
      by (simp add: Let_def)
  next
    case False
    then show ?thesis using Suc.IH [of "shift_in n i r" q] Suc.prems(1) s q i by (simp add: Let_def)
  qed
qed

lemma umod_loop_is_snd: "umod_loop n d i r = snd (udivmod_loop n d i (q, r))"
  by (induction i arbitrary: q r) (simp_all add: Let_def)

text \<open>With a zero divisor every comparison succeeds and nothing is subtracted.\<close>

lemma udivmod_loop_zero:
  assumes "i \<le> 64" "unat r = unat n div 2 ^ i" "unat q = (2 ^ (64 - i) - 1) * 2 ^ i"
  shows "udivmod_loop n 0 i (q, r) = (-1, n)"
  using assms
proof (induction i arbitrary: q r)
  case 0
  then have "unat q = unat (-1 :: u64)" by (simp add: unsigned_minus_1_eq_mask mask_eq_exp_minus_1)
  then show ?case using 0 by (simp add: word_unat_eq_iff)
next
  case (Suc i)
  have i: "i < 64" using Suc.prems(1) by simp
  have "unat n < 2 ^ 64" using unsigned_less [of n] by simp
  moreover have "unat n div 2 ^ Suc i \<le> unat n div 2" by (simp add: div_mult2_eq div_le_mono)
  ultimately have "unat r < 2 ^ 63" using Suc.prems(2) by simp
  then have r: "unat (shift_in n i r) = unat n div 2 ^ i"
    using unat_shift_in [of r n i] Suc.prems(2) next_bits [of n i] by simp
  have e: "(2::nat) ^ (64 - i) = 2 * 2 ^ (64 - Suc i)"
    using i by (metis Suc_diff_Suc power_Suc)
  have "unat (q OR push_bit i 1) = (2 ^ (64 - Suc i) - 1) * 2 ^ Suc i + 2 ^ i"
    using unat_or_exp [OF Suc.prems(3) i] Suc.prems(3) by simp
  also have "\<dots> = (2 * (2 ^ (64 - Suc i) - 1) + 1) * 2 ^ i"
    by (simp only: add_mult_distrib power_Suc mult.assoc mult.left_commute [of _ 2] mult_1)
  also have "2 * (2 ^ (64 - Suc i) - 1) + 1 = 2 ^ (64 - i) - (1::nat)"
    using one_le_power [of "2::nat" "64 - Suc i"] unfolding e by linarith
  finally show ?case using Suc.IH [of "shift_in n i r" "q OR push_bit i 1"] r i by (simp add: Let_def)
qed

lemma udivmod_loop_64:
  "udivmod_loop n d 64 (0, 0) = (if d = 0 then (-1, n) else (n div d, n mod d))"
proof -
  have z: "unat n div 2 ^ 64 = 0" using unsigned_less [where 'a = nat, of n] by simp
  then show ?thesis
    using udivmod_loop_zero [of 64 0 n 0] udivmod_loop_correct [of d 64 n 0 0] by (simp add: rem_inv_def)
qed

section \<open>The signed routines\<close>

lemma sint_word_of_int:
  assumes "- (2 ^ 63) \<le> k" "k < 2 ^ 63"
  shows "sint (word_of_int k :: u64) = k"
  using assms by (simp add: signed_of_int signed_take_bit_int_eq_self)

lemma sint_of_uint:
  "uint (q :: u64) < 2 ^ 63 \<Longrightarrow> sint q = uint q"
  "uint (q :: u64) \<le> 2 ^ 63 \<Longrightarrow> sint (- q) = - uint q"
  using sint_word_of_int [of "uint q"] sint_word_of_int [of "- uint q"] unsigned_greater_eq [where 'a = int, of q]
  by simp_all

lemma uint_magnitude: "uint (if sint w < 0 then - w else w) = \<bar>sint (w :: u64)\<bar>"
proof -
  have b: "- (2 ^ 63) \<le> sint w" "sint w < 2 ^ 63"
    using sint_greater_eq [of w] sint_less [of w] by simp_all
  have u: "uint w = sint w mod 2 ^ 64" "uint (- w) = (- sint w) mod 2 ^ 64"
    using uint_word_of_int [of "sint w", where 'a = 64] uint_word_of_int [of "- sint w", where 'a = 64] by simp_all
  show ?thesis using b by (simp add: u)
qed

lemma signed_quotient:
  fixes q :: u64
  assumes "\<not> (n = - (2 ^ 63) \<and> d = -1)" "uint q = \<bar>n\<bar> div \<bar>d\<bar>" "d \<noteq> 0" "\<bar>n\<bar> \<le> 2 ^ 63" "n < 2 ^ 63"
  shows "sint (if (n < 0) \<noteq> (d < 0) then - q else q) = n sdiv d"
proof -
  have le: "\<bar>n\<bar> div \<bar>d\<bar> \<le> \<bar>n\<bar>" using assms(3) zdiv_mono2 [of "\<bar>n\<bar>" 1 "\<bar>d\<bar>"] by simp
  have w: "sint (- q) = - (\<bar>n\<bar> div \<bar>d\<bar>)"
    using sint_of_uint(2) [of q] assms(2,4) le by simp
  have p: "sint q = \<bar>n\<bar> div \<bar>d\<bar>" if "(n < 0) = (d < 0)"
  proof -
    have "\<bar>n\<bar> div \<bar>d\<bar> < 2 ^ 63"
    proof (cases "\<bar>n\<bar> = 2 ^ 63")
      case True
      then have "n = - (2 ^ 63)" using assms(5) by linarith
      then have "\<bar>d\<bar> > 1" using that assms(1,3) by auto
      then show ?thesis using int_div_less_self [of "\<bar>n\<bar>" "\<bar>d\<bar>"] True by simp
    qed (use le assms(4) in linarith)
    then show ?thesis using sint_of_uint(1) [of q] assms(2) by simp
  qed
  show ?thesis using w p assms(3) by (auto simp: signed_divide_int_def sgn_if)
qed

lemma signed_remainder:
  fixes r :: u64
  assumes "uint r = \<bar>n\<bar> mod \<bar>d\<bar>" "d \<noteq> 0" "\<bar>n\<bar> \<le> 2 ^ 63" "n < 2 ^ 63"
  shows "sint (if n < 0 then - r else r) = n smod d"
proof -
  have le: "\<bar>n\<bar> mod \<bar>d\<bar> \<le> \<bar>n\<bar>" "0 \<le> \<bar>n\<bar> mod \<bar>d\<bar>" using assms(2) by (simp_all add: zmod_le_nonneg_dividend)
  have w: "sint (- r) = - (\<bar>n\<bar> mod \<bar>d\<bar>)" using sint_of_uint(2) [of r] assms(1,3) le by simp
  have p: "sint r = \<bar>n\<bar> mod \<bar>d\<bar>" if "\<not> n < 0"
    using sint_of_uint(1) [of r] assms(1,4) le that by simp
  have "n smod d = sgn n * (\<bar>n\<bar> mod \<bar>d\<bar>)" by (simp add: signed_modulo_int_def)
  then show ?thesis using w p by (auto simp: sgn_if)
qed

text \<open>the unsigned 64-bit routines of 32-bit builds compute the quotient and the remainder of every
  dividend by every nonzero divisor, the remainder is stored exactly when the pointer is given, and with a zero
  divisor the loops return all ones and the dividend. No intermediate shift loses a bit.\<close>
lemma unsigned_division_correct:
  "udivdi3 n d = (if d = 0 then -1 else n div d) \<and>
   umoddi3 n d = (if d = 0 then n else n mod d) \<and>
   udivmoddi4 n d rem = (udivdi3 n d, if rem then Some (umoddi3 n d) else None)"
  using udivmod_loop_64 [of n d] umod_loop_is_snd [of n d 64 0 0]
  by (cases "d = 0") (simp_all add: udivdi3_def umoddi3_def udivmoddi4_def)

text \<open>the signed 64-bit routines compute the quotient rounded towards zero and the remainder with the
  sign of the dividend, for every nonzero divisor and every pair of operands whose quotient is representable.\<close>
lemma signed_division_correct:
  assumes "d \<noteq> 0" "\<not> (sint n = - (2 ^ 63) \<and> sint d = -1)"
  shows "sint (divdi3 n d) = sint n sdiv sint d \<and> sint (moddi3 n d) = sint n smod sint d"
proof -
  let ?n = "if sint n < 0 then - n else n" and ?d = "if sint d < 0 then - d else d"
  have d: "?d \<noteq> 0" using assms(1) by simp
  then have "udivdi3 ?n ?d = ?n div ?d" "umoddi3 ?n ?d = ?n mod ?d"
    using udivmod_loop_64 [of ?n ?d] umod_loop_is_snd [of ?n ?d 64 0 0] by (simp_all add: udivdi3_def umoddi3_def)
  then have u: "uint (udivdi3 ?n ?d) = \<bar>sint n\<bar> div \<bar>sint d\<bar>" "uint (umoddi3 ?n ?d) = \<bar>sint n\<bar> mod \<bar>sint d\<bar>"
    using uint_magnitude [of n] uint_magnitude [of d] by (simp_all only: uint_div uint_mod)
  have bn: "\<bar>sint n\<bar> \<le> 2 ^ 63" "sint n < 2 ^ 63" and d0: "sint d \<noteq> 0"
    using sint_greater_eq [of n] sint_less [of n] assms(1) by (auto simp: abs_le_iff signed_eq_0_iff)
  show ?thesis
    using signed_quotient [OF assms(2) u(1) d0 bn] signed_remainder [OF u(2) d0 bn]
    by (simp add: divdi3_def moddi3_def Let_def)
qed

lemma signed_division_correct_witness:
  "sint (divdi3 (- 7) 2) = - 3 \<and> sint (moddi3 (- 7) 2) = - 1"
  using signed_division_correct [of 2 "- 7"] by (simp add: signed_divide_int_def signed_modulo_int_def)

end
