(* ===== verification/Partition.thy ===== *)
theory Partition
  imports Prelude
begin

text \<open>
  The partition manager (\<^verbatim>\<open>kernel/drivers/disk/partition.c\<close>): the master boot record, byte-addressed
  reads and writes of a partition on top of the sector operations of a disk, and the choice of the active and
  the passive root of the A/B scheme. The disk's \<open>read_sector\<close> and \<open>write_sector\<close> are function pointers
  filled in by a driver: they are parameters here (\<open>rd\<close>, \<open>wr\<close>) over a device state of any type; a failed
  read is \<open>None\<close>, a write returns whether it succeeded and the new device state. There is one disk, so the
  disk pointer of a partition is not kept.
\<close>

section \<open>State\<close>

record partition =
  p_start_lba :: nat
  p_sector_count :: nat
  p_type :: u8
  p_index :: nat
  p_is_active :: bool

record part_mgr =
  partitions :: "partition list"
  partition_count :: nat
  active_partition_index :: int
  cached_active_idx :: int

record part_node =
  n_name :: string
  n_flags :: nat
  n_length :: nat
  n_impl :: nat

definition zero_partition :: partition where
  "zero_partition = \<lparr>p_start_lba = 0, p_sector_count = 0, p_type = 0, p_index = 0, p_is_active = False\<rparr>"

text \<open>The static initialisers.\<close>

definition part_mgr_start :: part_mgr where
  "part_mgr_start = \<lparr>partitions = replicate 4 zero_partition, partition_count = 0,
     active_partition_index = -1, cached_active_idx = -1\<rparr>"

section \<open>Reading and writing a partition\<close>

text \<open>The arithmetic at the head of both functions: first sector, offset in it, number of sectors and the
  possibly truncated size; \<open>None\<close> when the offset is past the partition.\<close>

definition part_span :: "partition \<Rightarrow> nat \<Rightarrow> nat \<Rightarrow> nat \<Rightarrow> (nat \<times> nat \<times> nat \<times> nat) option" where
  "part_span part sector_size offset sz =
     (let start_sector = offset div sector_size;
          end_sector = sub32 (add32 offset sz) 1 div sector_size;
          sector_offset = offset mod sector_size;
          total_sectors = add32 (sub32 end_sector start_sector) 1
      in if start_sector \<ge> p_sector_count part then None
         else if add32 start_sector total_sectors > p_sector_count part then
           let total_sectors' = sub32 (p_sector_count part) start_sector in
           Some (start_sector, sector_offset, total_sectors', sub32 (mul32 total_sectors' sector_size) sector_offset)
         else Some (start_sector, sector_offset, total_sectors, sz))"

text \<open>The part of sector \<open>i\<close> that is copied when \<open>done_bytes\<close> bytes have been copied.\<close>

definition part_chunk :: "nat \<Rightarrow> nat \<Rightarrow> nat \<Rightarrow> nat \<Rightarrow> nat \<Rightarrow> nat \<Rightarrow> nat \<times> nat" where
  "part_chunk sector_size sector_offset total_sectors sz i done_bytes =
     (let chunk_start = (if i = 0 then sector_offset else 0);
          remaining = sub32 sz done_bytes;
          chunk_end = (if i = sub32 total_sectors 1 \<and> add32 chunk_start remaining < sector_size
                       then add32 chunk_start remaining else sector_size)
      in (chunk_start, sub32 chunk_end chunk_start))"

text \<open>The loop of \<open>partition_read\<close>, \<open>k\<close> iterations from \<open>i\<close> on; \<open>buf\<close> is what has been
  written to the caller's buffer.\<close>

fun part_read_loop ::
  "(nat \<Rightarrow> u8 list option) \<Rightarrow> nat \<Rightarrow> (nat \<Rightarrow> nat \<Rightarrow> nat \<times> nat) \<Rightarrow> nat \<Rightarrow> nat \<Rightarrow> nat \<Rightarrow> u8 list \<Rightarrow> nat \<times> u8 list" where
  "part_read_loop rd base chunk 0 i bytes_read buf = (bytes_read, buf)"
| "part_read_loop rd base chunk (Suc k) i bytes_read buf =
     (case rd (add32 base i) of
        None \<Rightarrow> (bytes_read, buf)
      | Some sect \<Rightarrow>
          (case chunk i bytes_read of (chunk_start, chunk_size) \<Rightarrow>
             part_read_loop rd base chunk k (Suc i) (add32 bytes_read chunk_size)
               (buf @ take chunk_size (drop chunk_start sect))))"

text \<open>Result: the return value and the bytes written to the buffer.\<close>

definition partition_read ::
  "('d \<Rightarrow> nat \<Rightarrow> u8 list option) \<Rightarrow> nat \<Rightarrow> bool \<Rightarrow> part_mgr \<Rightarrow> int \<Rightarrow> nat \<Rightarrow> nat \<Rightarrow> 'd \<Rightarrow> nat \<times> u8 list" where
  "partition_read rd sector_size kmalloc_ok m p_idx offset sz dev =
     (if p_idx < 0 \<or> p_idx \<ge> int (partition_count m) then (0, [])
      else if sector_size = 0 then (0, [])
      else let part = partitions m ! nat p_idx in
        (case part_span part sector_size offset sz of
           None \<Rightarrow> (0, [])
         | Some (start_sector, sector_offset, total_sectors, sz') \<Rightarrow>
             if \<not> kmalloc_ok then (0, [])
             else part_read_loop (rd dev) (add32 (p_start_lba part) start_sector)
                    (part_chunk sector_size sector_offset total_sectors sz') total_sectors 0 0 []))"

fun part_write_loop ::
  "('d \<Rightarrow> nat \<Rightarrow> u8 list option) \<Rightarrow> ('d \<Rightarrow> nat \<Rightarrow> u8 list \<Rightarrow> bool \<times> 'd) \<Rightarrow> nat \<Rightarrow> nat \<Rightarrow>
     (nat \<Rightarrow> nat \<Rightarrow> nat \<times> nat) \<Rightarrow> u8 list \<Rightarrow> nat \<Rightarrow> nat \<Rightarrow> nat \<Rightarrow> u8 list \<Rightarrow> 'd \<Rightarrow> nat \<times> 'd" where
  "part_write_loop rd wr sector_size base chunk buffer 0 i bytes_written sect_buf dev = (bytes_written, dev)"
| "part_write_loop rd wr sector_size base chunk buffer (Suc k) i bytes_written sect_buf dev =
     (case chunk i bytes_written of (chunk_start, chunk_size) \<Rightarrow>
        (case (if chunk_size < sector_size then rd dev (add32 base i) else Some sect_buf) of
           None \<Rightarrow> (bytes_written, dev)
         | Some sect \<Rightarrow>
             let sect' = overwrite chunk_start (take chunk_size (drop bytes_written buffer)) sect in
             (case wr dev (add32 base i) sect' of
                (False, dev') \<Rightarrow> (bytes_written, dev')
              | (True, dev') \<Rightarrow>
                  part_write_loop rd wr sector_size base chunk buffer k (Suc i)
                    (add32 bytes_written chunk_size) sect' dev')))"

text \<open>The fresh sector buffer has unknown contents \<open>junk\<close>.\<close>

definition partition_write ::
  "('d \<Rightarrow> nat \<Rightarrow> u8 list option) \<Rightarrow> ('d \<Rightarrow> nat \<Rightarrow> u8 list \<Rightarrow> bool \<times> 'd) \<Rightarrow> nat \<Rightarrow> u8 list option \<Rightarrow> part_mgr \<Rightarrow>
     int \<Rightarrow> nat \<Rightarrow> nat \<Rightarrow> u8 list \<Rightarrow> 'd \<Rightarrow> nat \<times> 'd" where
  "partition_write rd wr sector_size junk m p_idx offset sz buffer dev =
     (if p_idx < 0 \<or> p_idx \<ge> int (partition_count m) then (0, dev)
      else if sector_size = 0 then (0, dev)
      else let part = partitions m ! nat p_idx in
        (case part_span part sector_size offset sz of
           None \<Rightarrow> (0, dev)
         | Some (start_sector, sector_offset, total_sectors, sz') \<Rightarrow>
             (case junk of
                None \<Rightarrow> (0, dev)
              | Some sect_buf \<Rightarrow>
                  part_write_loop rd wr sector_size (add32 (p_start_lba part) start_sector)
                    (part_chunk sector_size sector_offset total_sectors sz') buffer total_sectors 0 0 sect_buf dev)))"

section \<open>The master boot record\<close>

definition MBR_SIGNATURE :: u16 where
  "MBR_SIGNATURE = 0xAA55"

definition MBR_OFFSET_PARTITION_TABLE :: nat where
  "MBR_OFFSET_PARTITION_TABLE = 446"

record mbr_partition_entry =
  boot_indicator :: u8
  partition_type :: u8
  start_lba :: nat
  sector_count :: nat

text \<open>Entry \<open>i\<close> of the packed table of 16-byte entries.\<close>

definition mbr_entry :: "u8 list \<Rightarrow> nat \<Rightarrow> mbr_partition_entry" where
  "mbr_entry buffer i =
     (let a = MBR_OFFSET_PARTITION_TABLE + 16 * i; m = (\<lambda>x. buffer ! x) in
      \<lparr>boot_indicator = m a, partition_type = m (a + 4),
       start_lba = unat (load_le m (a + 8) 4 :: u32), sector_count = unat (load_le m (a + 12) 4 :: u32)\<rparr>)"

fun scan_entries :: "(nat \<times> mbr_partition_entry) list \<Rightarrow> part_mgr \<Rightarrow> part_mgr" where
  "scan_entries [] m = m"
| "scan_entries ((i, e) # es) m =
     scan_entries es
       (if partition_type e \<noteq> 0 then
          let c = partition_count m; act = (boot_indicator e = 0x80) in
          m\<lparr>partitions := (partitions m)[c := \<lparr>p_start_lba = start_lba e, p_sector_count = sector_count e,
               p_type = partition_type e, p_index = i, p_is_active = act\<rparr>],
            active_partition_index := (if act then int c else active_partition_index m),
            partition_count := c + 1\<rparr>
        else m)"

text \<open>A sector shorter than 512 bytes is read past its end: \<open>Inl\<close>.\<close>

definition partition_scan :: "(nat \<Rightarrow> u8 list option) \<Rightarrow> nat \<Rightarrow> bool \<Rightarrow> part_mgr \<Rightarrow> panic + part_mgr" where
  "partition_scan rd sector_size kmalloc_ok m =
     (if sector_size = 0 \<or> \<not> kmalloc_ok then Inr m
      else case rd 0 of
        None \<Rightarrow> Inr m
      | Some buffer \<Rightarrow>
          if sector_size < 512 then Inl (Panic ''read past the sector buffer'')
          else if (load_le (\<lambda>x. buffer ! x) 510 2 :: u16) \<noteq> MBR_SIGNATURE then Inr m
          else
            let m1 = scan_entries (map (\<lambda>i. (i, mbr_entry buffer i)) [0..<4])
                       (m\<lparr>partition_count := 0, active_partition_index := -1\<rparr>)
            in Inr (if active_partition_index m1 = -1 \<and> partition_count m1 > 0
                    then m1\<lparr>active_partition_index := 0\<rparr> else m1))"

section \<open>Active and passive root\<close>

definition create_partition_node :: "nat \<Rightarrow> bool \<Rightarrow> int \<Rightarrow> part_mgr \<Rightarrow> part_node option" where
  "create_partition_node sector_size kmalloc_ok idx m =
     (if idx < 0 \<or> idx \<ge> int (partition_count m) then None
      else if \<not> kmalloc_ok then None
      else Some \<lparr>n_name = ''part'' @ [char_of (48 + nat idx)], n_flags = 4,
             n_length = mul32 (p_sector_count (partitions m ! nat idx)) sector_size, n_impl = nat idx\<rparr>)"

definition get_booted_active_index :: "u8 \<Rightarrow> part_mgr \<Rightarrow> int \<times> part_mgr" where
  "get_booted_active_index nvram_part m =
     (if cached_active_idx m \<noteq> -1 then (cached_active_idx m, m)
      else
        let active_idx = (if nvram_part \<noteq> 0xFF \<and> unat nvram_part < partition_count m
                          then int (unat nvram_part) else active_partition_index m)
        in (active_idx, if active_idx = 0 \<or> active_idx = 1 then m\<lparr>cached_active_idx := active_idx\<rparr> else m))"

definition partition_get_active_root :: "nat \<Rightarrow> bool \<Rightarrow> u8 \<Rightarrow> part_mgr \<Rightarrow> part_node option \<times> part_mgr" where
  "partition_get_active_root sector_size kmalloc_ok nvram_part m =
     (case get_booted_active_index nvram_part m of (active_idx, m1) \<Rightarrow>
        (if active_idx \<noteq> 0 \<and> active_idx \<noteq> 1 then None
         else if active_idx < 0 \<or> active_idx \<ge> int (partition_count m1) then None
         else create_partition_node sector_size kmalloc_ok active_idx m1, m1))"

definition partition_get_passive_root :: "nat \<Rightarrow> bool \<Rightarrow> u8 \<Rightarrow> part_mgr \<Rightarrow> part_node option \<times> part_mgr" where
  "partition_get_passive_root sector_size kmalloc_ok nvram_part m =
     (if partition_count m < 2 then (None, m)
      else case get_booted_active_index nvram_part m of (active_idx, m1) \<Rightarrow>
        (if active_idx \<noteq> 0 \<and> active_idx \<noteq> 1 then None
         else let passive_index = (if active_idx = 0 then 1 else 0 :: int) in
           if passive_index \<ge> int (partition_count m1) then None
           else create_partition_node sector_size kmalloc_ok passive_index m1, m1))"

section \<open>Geometry\<close>

text \<open>What the head of both functions establishes: the bytes \<open>soff..soff+sz\<close> of \<open>tot\<close> sectors.\<close>

definition span_ok :: "nat \<Rightarrow> nat \<Rightarrow> nat \<Rightarrow> nat \<Rightarrow> bool" where
  "span_ok ss soff tot sz \<longleftrightarrow> ss < 2 ^ 32 \<and> tot < 2 ^ 32 \<and> sz < 2 ^ 32 \<and> soff < ss \<and> 0 < sz \<and> 0 < tot \<and>
     (tot - 1) * ss < soff + sz \<and> soff + sz \<le> tot * ss"

lemma div_span:
  fixes a s n :: nat
  assumes "0 < n" "0 < s"
  shows "(a + s - 1) div n * n < a + s" "a + s \<le> (a + s - 1) div n * n + n" "a div n \<le> (a + s - 1) div n"
proof -
  have "(a + s - 1) div n * n \<le> a + s - 1" by simp
  then show "(a + s - 1) div n * n < a + s" using assms(2) by linarith
  have "a + s - 1 = (a + s - 1) div n * n + (a + s - 1) mod n" by simp
  moreover have "(a + s - 1) mod n < n" using assms(1) by simp
  ultimately show "a + s \<le> (a + s - 1) div n * n + n" using assms(2) by linarith
  show "a div n \<le> (a + s - 1) div n" using assms(2) by (intro div_le_mono) linarith
qed

lemma last_byte: "0 < sz \<Longrightarrow> offset + sz < 2 ^ 32 \<Longrightarrow> sub32 (add32 offset sz) 1 = offset + sz - 1"
  by (simp add: wrap_simps del: One_nat_def)

lemma part_span_past:
  assumes "0 < ss" "p_sector_count part * ss \<le> offset"
  shows "part_span part ss offset sz = None"
proof -
  have "p_sector_count part \<le> offset div ss" using assms by (simp add: less_eq_div_iff_mult_less_eq)
  then show ?thesis by (simp add: part_span_def)
qed

lemma part_span_inside:
  assumes ss: "0 < ss" "ss < 2 ^ 32" and sz: "0 < sz" "offset + sz < 2 ^ 32"
    and n: "offset < p_sector_count part * ss" "p_sector_count part * ss < 2 ^ 32"
  obtains tot where
    "part_span part ss offset sz =
       Some (offset div ss, offset mod ss, tot, min sz (p_sector_count part * ss - offset))"
    "span_ok ss (offset mod ss) tot (min sz (p_sector_count part * ss - offset))"
    "offset div ss + tot \<le> p_sector_count part"
proof -
  define n s e where nse: "n = p_sector_count part" "s = offset div ss" "e = (offset + sz - 1) div ss"
  note d = div_span [OF ss(1) sz(1), of offset, folded nse]
  have off: "s * ss + offset mod ss = offset" and m: "offset mod ss < ss" using ss(1) by (simp_all add: nse)
  have s: "s < n" using n(1) ss(1) by (simp add: div_less_iff_less_mult nse)
  have "n * 1 \<le> n * ss" using ss(1) by (intro mult_le_mono2) simp
  then have n32: "n < 2 ^ 32" using n(2) unfolding nse(1) [symmetric] by linarith
  have "e \<le> offset + sz - 1" unfolding nse by (rule div_le_dividend)
  then have e32: "e + 1 < 2 ^ 32" using sz by linarith
  have t: "sub32 e s = e - s" "add32 (e - s) 1 = e - s + 1" "add32 s (e - s + 1) = e + 1"
    using e32 d(3) by (simp_all add: wrap_simps)
  have span: "part_span part ss offset sz =
      (if n < e + 1 then Some (s, offset mod ss, sub32 n s, sub32 (mul32 (sub32 n s) ss) (offset mod ss))
       else Some (s, offset mod ss, e - s + 1, sz))"
    using s unfolding part_span_def Let_def last_byte [OF sz] nse [symmetric] t by simp
  show thesis
  proof (cases "e < n")
    case True
    then have "e * ss + ss \<le> n * ss" using mult_le_mono1 [of "Suc e" n ss] by simp
    then have mn: "min sz (n * ss - offset) = sz" using d(2) by linarith
    have "(e - s) * ss = e * ss - s * ss" "s * ss \<le> e * ss" using d(3) by (simp_all add: diff_mult_distrib)
    then have "(e - s) * ss < offset mod ss + sz" "offset mod ss + sz \<le> (e - s) * ss + ss"
      using d(1,2) off by linarith+
    then have "span_ok ss (offset mod ss) (e - s + 1) sz"
      using ss m sz e32 by (simp add: span_ok_def)
    then show ?thesis using that [folded nse, of "e - s + 1"] span mn d(3) True by simp
  next
    case False
    then have "n * ss \<le> e * ss" by (intro mult_le_mono1) simp
    then have mn: "min sz (n * ss - offset) = n * ss - offset" using d(1) by linarith
    have dl: "(n - s) * ss = n * ss - s * ss" "(n - s - 1) * ss = n * ss - s * ss - ss"
      using diff_mult_distrib [of n s ss] diff_mult_distrib [of "n - s" 1 ss] by simp_all
    have "sub32 n s = n - s" using s n32 by (simp add: wrap_simps)
    moreover have "mul32 (n - s) ss = (n - s) * ss" using dl(1) n(2) by (intro mul32_exact) (simp add: nse)
    moreover have "sub32 ((n - s) * ss) (offset mod ss) = n * ss - offset"
      using dl(1) n off unfolding nse(1) [symmetric] by (subst sub32_exact) linarith+
    moreover have "(n - s - 1) * ss < offset mod ss + (n * ss - offset)"
      "offset mod ss + (n * ss - offset) \<le> (n - s) * ss"
      using dl n(1) off m ss(1) unfolding nse(1) [symmetric] by linarith+
    then have "span_ok ss (offset mod ss) (n - s) (n * ss - offset)"
      using ss m n n32 s unfolding span_ok_def nse(1) [symmetric] by (intro conjI) linarith+
    ultimately show ?thesis using that [folded nse, of "n - s"] span mn False s by simp
  qed
qed

text \<open>Where chunk \<open>i\<close> lies: it starts where the bytes copied so far end, stays in its sector, and the last
  one ends at the requested size.\<close>

definition copied :: "nat \<Rightarrow> nat \<Rightarrow> nat \<Rightarrow> nat" where
  "copied ss soff i = (if i = 0 then 0 else i * ss - soff)"

lemma part_chunk_inside:
  assumes "span_ok ss soff tot sz" "i < tot"
  obtains cs c where "part_chunk ss soff tot sz i (copied ss soff i) = (cs, c)" "cs + c \<le> ss"
    "soff + copied ss soff i = i * ss + cs" "copied ss soff i + c = (if Suc i = tot then sz else copied ss soff (Suc i))"
    "copied ss soff i + c \<le> sz"
proof -
  define b where "b = copied ss soff i"
  have ok: "ss < 2 ^ 32" "tot < 2 ^ 32" "sz < 2 ^ 32" "soff < ss" "0 < sz" "0 < tot" "(tot - 1) * ss < soff + sz"
    "soff + sz \<le> tot * ss" using assms(1) by (simp_all add: span_ok_def)
  define cs where "cs = (if i = 0 then soff else 0)"
  have isw: "soff \<le> i * ss" if "0 < i" using that ok(4) by (cases i) simp_all
  have pos: "soff + b = i * ss + cs" "cs < ss" using ok(4) isw by (auto simp: b_def copied_def cs_def)
  have "i * ss \<le> (tot - 1) * ss" using assms(2) by (intro mult_le_mono1) simp
  moreover have "b = 0 \<or> b + soff = i * ss" using isw by (auto simp: b_def copied_def)
  ultimately have bsz: "b < sz" using ok(5,7) by linarith
  have rem: "sub32 sz b = sz - b" using bsz ok(3) by (simp add: wrap_simps)
  have one: "sub32 tot 1 = tot - 1" using ok(2,6) by (simp add: wrap_simps del: One_nat_def)
  show thesis
  proof (cases "Suc i = tot")
    case True
    then have i: "i = tot - 1" and "tot * ss = i * ss + ss" by auto
    then have le: "cs + (sz - b) \<le> ss" using ok(8) pos bsz by linarith
    then have a: "add32 cs (sz - b) = cs + (sz - b)" using ok(1) by (simp add: wrap_simps)
    have s: "sub32 (cs + (sz - b)) cs = sz - b" "sub32 ss cs = ss - cs"
      using le ok(1) pos(2) by (simp_all add: wrap_simps)
    have "part_chunk ss soff tot sz i b = (cs, sz - b)"
      using le i s unfolding part_chunk_def Let_def rem one cs_def [symmetric] a by auto
    then show ?thesis using that [of cs "sz - b", folded b_def] le pos(1) bsz True by simp
  next
    case False
    then have "i \<noteq> tot - 1" using assms(2) by linarith
    then have "part_chunk ss soff tot sz i b = (cs, ss - cs)"
      using ok(1) pos(2) by (simp add: part_chunk_def Let_def one wrap_simps cs_def [symmetric] del: One_nat_def)
    moreover have "Suc i * ss \<le> (tot - 1) * ss" using assms(2) False by (intro mult_le_mono1) linarith
    then have "b + (ss - cs) \<le> sz" using ok(7) pos by simp
    moreover have "b + (ss - cs) = copied ss soff (Suc i)" using pos by (simp add: copied_def)
    ultimately show ?thesis using that [of cs "ss - cs", folded b_def] pos False by simp
  qed
qed

section \<open>Reads and writes of the bytes of a partition\<close>

text \<open>The bytes of a partition: its sectors laid end to end.\<close>

definition part_sectors :: "(nat \<Rightarrow> u8 list option) \<Rightarrow> partition \<Rightarrow> u8 list list" where
  "part_sectors rd part = map (\<lambda>j. the (rd (p_start_lba part + j))) [0..<p_sector_count part]"

definition part_bytes :: "(nat \<Rightarrow> u8 list option) \<Rightarrow> partition \<Rightarrow> u8 list" where
  "part_bytes rd part = concat (part_sectors rd part)"

text \<open>Every sector of the partition can be read, and the partition fits in 32-bit arithmetic.\<close>

definition part_ok :: "(nat \<Rightarrow> u8 list option) \<Rightarrow> nat \<Rightarrow> partition \<Rightarrow> bool" where
  "part_ok rd ss part \<longleftrightarrow> 0 < ss \<and> ss < 2 ^ 32 \<and> p_sector_count part * ss < 2 ^ 32 \<and>
     p_start_lba part + p_sector_count part \<le> 2 ^ 32 \<and>
     (\<forall>j < p_sector_count part. \<exists>b. rd (p_start_lba part + j) = Some b \<and> length b = ss)"

lemma part_ok_blocks:
  assumes "part_ok rd ss part"
  shows "blocks_of ss (part_sectors rd part)" "length (part_bytes rd part) = p_sector_count part * ss"
proof -
  show b: "blocks_of ss (part_sectors rd part)"
    using assms by (auto simp: part_ok_def part_sectors_def blocks_of_def)
  show "length (part_bytes rd part) = p_sector_count part * ss"
    using length_concat_blocks [OF b] by (simp add: part_bytes_def part_sectors_def)
qed

lemma part_sector:
  assumes "part_ok rd ss part" "j < p_sector_count part"
  shows "rd (p_start_lba part + j) = Some (part_sectors rd part ! j)" "length (part_sectors rd part ! j) = ss"
    "take ss (drop (j * ss) (part_bytes rd part)) = part_sectors rd part ! j"
  using assms take_drop_concat_blocks [OF part_ok_blocks(1) [OF assms(1)], of j]
  by (auto simp: part_ok_def part_sectors_def part_bytes_def)

lemma part_chunk_bytes:
  assumes "part_ok rd ss part" "j < p_sector_count part" "cs + c \<le> ss"
  shows "take c (drop cs (part_sectors rd part ! j)) = take c (drop (j * ss + cs) (part_bytes rd part))"
proof -
  have "drop cs (part_sectors rd part ! j) = take (ss - cs) (drop (j * ss + cs) (part_bytes rd part))"
    using part_sector(3) [OF assms(1,2), symmetric] by (simp add: drop_take add.commute)
  then show ?thesis using assms(3) by (simp add: min_def)
qed

lemma part_lba:
  assumes "part_ok rd ss part" "st + tot \<le> p_sector_count part" "i < tot"
  shows "add32 (add32 (p_start_lba part) st) i = p_start_lba part + (st + i)"
proof -
  have "p_start_lba part + st + i < 2 ^ 32" using assms by (simp add: part_ok_def)
  then show ?thesis by (simp add: wrap_simps)
qed

lemma part_read_loop_correct:
  assumes ok: "part_ok rd ss part" and sp: "span_ok ss soff tot sz" and st: "st + tot \<le> p_sector_count part"
    and "i + k = tot" "0 < k"
    "buf = take (copied ss soff i) (drop (st * ss + soff) (part_bytes rd part))"
  shows "part_read_loop rd (add32 (p_start_lba part) st) (part_chunk ss soff tot sz) k i (copied ss soff i) buf =
    (sz, take sz (drop (st * ss + soff) (part_bytes rd part)))"
  using assms(4-)
proof (induction k arbitrary: i buf)
  case (Suc k)
  have i: "i < tot" using Suc.prems(1) by simp
  obtain cs c where ch: "part_chunk ss soff tot sz i (copied ss soff i) = (cs, c)" "cs + c \<le> ss"
    "soff + copied ss soff i = i * ss + cs"
    "copied ss soff i + c = (if Suc i = tot then sz else copied ss soff (Suc i))" "copied ss soff i + c \<le> sz"
    using part_chunk_inside [OF sp i] .
  have j: "st + i < p_sector_count part" using st i by linarith
  have "(st + i) * ss + cs = copied ss soff i + (st * ss + soff)" using ch(3) by (simp add: add_mult_distrib)
  then have "buf @ take c (drop cs (part_sectors rd part ! (st + i))) =
      take (copied ss soff i + c) (drop (st * ss + soff) (part_bytes rd part))"
    using part_chunk_bytes [OF ok j ch(2)] Suc.prems(3) by (simp add: take_add)
  moreover have "add32 (copied ss soff i) c = copied ss soff i + c"
    using ch(5) sp by (intro add32_exact) (simp add: span_ok_def)
  moreover note part_lba [OF ok st i] part_sector(1) [OF ok j] ch(1,4)
  ultimately show ?case
    using Suc.IH [OF _ _ refl, of "Suc i"] Suc.prems(1) by (cases "k = 0") simp_all
qed simp

lemma span_split: "(offset :: nat) div ss * ss + offset mod ss = offset"
  by simp

lemma part_bytes_min:
  "part_ok rd ss part \<Longrightarrow> take (min sz (p_sector_count part * ss - offset)) (drop offset (part_bytes rd part)) =
     take sz (drop offset (part_bytes rd part))"
  using part_ok_blocks(2) [of rd ss part] by (simp add: min_def)

text \<open>reading a partition returns exactly the bytes of the partition from the offset on, as many as
  were asked for or as many as there are, for every nonempty request whose end fits in 32 bits, whatever the
  alignment of offset and size; past the end of the partition it returns nothing. The sectors are those of the
  partition only.\<close>
lemma partition_read_correct:
  assumes "idx < partition_count m" "part = partitions m ! idx" "part_ok (rd dev) ss part"
    and "0 < sz" "offset + sz < 2 ^ 32"
  shows "partition_read rd ss True m (int idx) offset sz dev =
    (min sz (p_sector_count part * ss - offset), take sz (drop offset (part_bytes (rd dev) part)))"
proof (cases "offset < p_sector_count part * ss")
  case True
  have ss: "0 < ss" "ss < 2 ^ 32" "p_sector_count part * ss < 2 ^ 32" using assms(3) by (simp_all add: part_ok_def)
  let ?n = "min sz (p_sector_count part * ss - offset)"
  obtain tot where t: "part_span part ss offset sz = Some (offset div ss, offset mod ss, tot, ?n)"
    "span_ok ss (offset mod ss) tot ?n" "offset div ss + tot \<le> p_sector_count part"
    using part_span_inside [OF ss(1,2) assms(4,5) True ss(3)] .
  have "part_read_loop (rd dev) (add32 (p_start_lba part) (offset div ss)) (part_chunk ss (offset mod ss) tot ?n) tot 0 0 [] =
      (?n, take ?n (drop offset (part_bytes (rd dev) part)))"
    using part_read_loop_correct [OF assms(3) t(2,3), of 0 tot "[]"] t(2)
    by (simp add: copied_def span_ok_def)
  then show ?thesis
    using assms(1,2) ss(1) t(1) part_bytes_min [OF assms(3)] by (simp add: partition_read_def Let_def)
next
  case False
  then show ?thesis
    using assms part_span_past [of ss part offset sz] part_ok_blocks(2) [OF assms(3)]
    by (simp add: partition_read_def Let_def part_ok_def)
qed


text \<open>A RAM disk for the examples: the list of its sectors.\<close>

definition ram_read :: "u8 list list \<Rightarrow> nat \<Rightarrow> u8 list option" where
  "ram_read d l = (if l < length d then Some (d ! l) else None)"

definition ram_write :: "u8 list list \<Rightarrow> nat \<Rightarrow> u8 list \<Rightarrow> bool \<times> u8 list list" where
  "ram_write d l b = (if l < length d then (True, d[l := b]) else (False, d))"

definition demo_mgr :: part_mgr where
  "demo_mgr = part_mgr_start\<lparr>partitions := (partitions part_mgr_start)[0 := zero_partition\<lparr>p_start_lba := 1,
     p_sector_count := 2\<rparr>], partition_count := 1\<rparr>"

definition demo_disk :: "u8 list list" where
  "demo_disk = [[0, 0, 0, 0], [1, 2, 3, 4], [5, 6, 7, 8], [9, 9, 9, 9]]"

lemma demo_part_ok: "part_ok (ram_read demo_disk) 4 (partitions demo_mgr ! 0)"
  by (auto simp: part_ok_def demo_mgr_def demo_disk_def ram_read_def part_mgr_start_def zero_partition_def
      less_2_cases_iff)

lemma partition_read_correct_witness:
  "partition_read ram_read 4 True demo_mgr 0 3 4 demo_disk = (4, [4, 5, 6, 7])"
  using partition_read_correct [where rd = ram_read and dev = demo_disk and m = demo_mgr and idx = 0,
      OF _ refl demo_part_ok, where sz = 4 and offset = 3]
  by (simp add: demo_mgr_def demo_disk_def part_mgr_start_def zero_partition_def part_bytes_def part_sectors_def
      ram_read_def upt_rec)

text \<open>A reliable disk: a write of a whole sector that exists succeeds, is what later reads return, and changes
  no other sector.\<close>

definition disk_laws :: "('d \<Rightarrow> nat \<Rightarrow> u8 list option) \<Rightarrow> ('d \<Rightarrow> nat \<Rightarrow> u8 list \<Rightarrow> bool \<times> 'd) \<Rightarrow> nat \<Rightarrow> bool" where
  "disk_laws rd wr ss \<longleftrightarrow> (\<forall>d l b. length b = ss \<and> rd d l \<noteq> None \<longrightarrow>
     (\<exists>d'. wr d l b = (True, d') \<and> rd d' = (rd d)(l \<mapsto> b)))"

lemma part_write_sector:
  assumes "disk_laws rd wr ss" and ok: "part_ok (rd dev) ss part" and j: "j < p_sector_count part"
    and new: "cs + length new \<le> ss"
  obtains dev' where
    "wr dev (p_start_lba part + j) (overwrite cs new (part_sectors (rd dev) part ! j)) = (True, dev')"
    "part_ok (rd dev') ss part"
    "part_bytes (rd dev') part = overwrite (j * ss + cs) new (part_bytes (rd dev) part)"
    "\<forall>l. l < p_start_lba part \<or> p_start_lba part + p_sector_count part \<le> l \<longrightarrow> rd dev' l = rd dev l"
proof -
  let ?b = "overwrite cs new (part_sectors (rd dev) part ! j)" and ?l = "p_start_lba part + j"
  note sec = part_sector [OF ok j]
  have len: "length ?b = ss" using length_overwrite [of cs new "part_sectors (rd dev) part ! j"] new sec(2) by simp
  then obtain dev' where d: "wr dev ?l ?b = (True, dev')" "rd dev' = (rd dev)(?l \<mapsto> ?b)"
    using assms(1) sec(1) unfolding disk_laws_def by (metis option.distinct(1))
  have "part_sectors (rd dev') part = (part_sectors (rd dev) part)[j := ?b]"
    by (rule nth_equalityI) (auto simp: part_sectors_def d(2) nth_list_update)
  moreover have "j < length (part_sectors (rd dev) part)" using j by (simp add: part_sectors_def)
  ultimately have "part_bytes (rd dev') part = overwrite (j * ss + cs) new (part_bytes (rd dev) part)"
    using concat_blocks_overwrite [OF part_ok_blocks(1) [OF ok] _ new] by (simp add: part_bytes_def)
  moreover have "part_ok (rd dev') ss part" using ok len by (auto simp: part_ok_def d(2))
  moreover have "\<forall>l. l < p_start_lba part \<or> p_start_lba part + p_sector_count part \<le> l \<longrightarrow> rd dev' l = rd dev l"
    using j by (auto simp: d(2))
  ultimately show thesis using that d(1) by blast
qed

lemma part_write_loop_correct:
  assumes laws: "disk_laws rd wr ss" and sp: "span_ok ss soff tot sz" and st: "st + tot \<le> p_sector_count part"
    and buf: "sz \<le> length buffer"
    and "part_ok (rd dev) ss part" "i + k = tot" "0 < k" "length sect = ss"
    "part_bytes (rd dev) part = overwrite (st * ss + soff) (take (copied ss soff i) buffer) bytes"
    "length bytes = p_sector_count part * ss"
  shows "\<exists>dev'. part_write_loop rd wr ss (add32 (p_start_lba part) st) (part_chunk ss soff tot sz) buffer k i
      (copied ss soff i) sect dev = (sz, dev') \<and> part_ok (rd dev') ss part \<and>
    part_bytes (rd dev') part = overwrite (st * ss + soff) (take sz buffer) bytes \<and>
    (\<forall>l. l < p_start_lba part \<or> p_start_lba part + p_sector_count part \<le> l \<longrightarrow> rd dev' l = rd dev l)"
  using assms(5-)
proof (induction k arbitrary: i sect dev)
  case (Suc k)
  let ?out = "\<lambda>d. \<forall>l. l < p_start_lba part \<or> p_start_lba part + p_sector_count part \<le> l \<longrightarrow> rd d l = rd dev l"
  have i: "i < tot" using Suc.prems(2) by simp
  obtain cs c where ch: "part_chunk ss soff tot sz i (copied ss soff i) = (cs, c)" "cs + c \<le> ss"
    "soff + copied ss soff i = i * ss + cs"
    "copied ss soff i + c = (if Suc i = tot then sz else copied ss soff (Suc i))" "copied ss soff i + c \<le> sz"
    using part_chunk_inside [OF sp i] .
  have j: "st + i < p_sector_count part" using st i by linarith
  let ?new = "take c (drop (copied ss soff i) buffer)"
  have c: "length ?new = c" using ch(5) buf by simp
  note sec = part_sector [OF Suc.prems(1) j]
  obtain dev' where d: "wr dev (p_start_lba part + (st + i)) (overwrite cs ?new (part_sectors (rd dev) part ! (st + i))) = (True, dev')"
    "part_ok (rd dev') ss part"
    "part_bytes (rd dev') part = overwrite ((st + i) * ss + cs) ?new (part_bytes (rd dev) part)" "?out dev'"
    using part_write_sector [OF laws Suc.prems(1) j, of cs ?new] ch(2) c by auto
  let ?s = "overwrite cs ?new (part_sectors (rd dev) part ! (st + i))"
  have same: "overwrite cs ?new sect = ?s" if "\<not> c < ss"
  proof -
    have "cs = 0" "c = ss" using that ch(2) by linarith+
    then show ?thesis using c Suc.prems(4) sec(2) by (simp add: overwrite_def)
  qed
  have ls: "length ?s = ss" using length_overwrite [of cs ?new "part_sectors (rd dev) part ! (st + i)"] ch(2) c sec(2) by simp
  have a: "add32 (copied ss soff i) c = copied ss soff i + c"
    using ch(5) sp by (intro add32_exact) (simp add: span_ok_def)
  have step: "part_write_loop rd wr ss (add32 (p_start_lba part) st) (part_chunk ss soff tot sz) buffer (Suc k) i
      (copied ss soff i) sect dev =
    part_write_loop rd wr ss (add32 (p_start_lba part) st) (part_chunk ss soff tot sz) buffer k (Suc i)
      (copied ss soff i + c) ?s dev'"
    using d(1) same sec(1) ch(1) part_lba [OF Suc.prems(1) st i] a by (simp add: Let_def)
  have "(st + i) * ss + cs = st * ss + soff + copied ss soff i" using ch(3) by (simp add: add_mult_distrib)
  moreover have "length (take (copied ss soff i) buffer) = copied ss soff i" using ch(5) buf by simp
  moreover have "(st + i) * ss + ss \<le> p_sector_count part * ss" using j mult_le_mono1 [of "Suc (st + i)" "p_sector_count part" ss] by simp
  ultimately have bytes: "part_bytes (rd dev') part = overwrite (st * ss + soff) (take (copied ss soff i + c) buffer) bytes"
    using overwrite_append [of "st * ss + soff" "take (copied ss soff i) buffer" ?new bytes] d(3) Suc.prems(5,6) c ch(2)
    by (simp add: take_add)
  show ?case
  proof (cases "k = 0")
    case True
    then show ?thesis using step bytes d(2,4) ch(4) Suc.prems(2) by simp
  next
    case False
    then have "copied ss soff i + c = copied ss soff (Suc i)" using ch(4) Suc.prems(2) by simp
    then show ?thesis
      using Suc.IH [OF d(2), of "Suc i" ?s] False Suc.prems(2,6) ls bytes step d(4) by simp
  qed
qed simp

lemma partition_write_bytes:
  assumes "idx < partition_count m" "part = partitions m ! idx" "part_ok (rd dev) ss part" "disk_laws rd wr ss"
    and "0 < sz" "offset + sz < 2 ^ 32" "sz \<le> length buffer" "offset < p_sector_count part * ss" "length junk = ss"
    and "n = min sz (p_sector_count part * ss - offset)"
  shows "\<exists>dev'. partition_write rd wr ss (Some junk) m (int idx) offset sz buffer dev = (n, dev') \<and>
    part_bytes (rd dev') part = overwrite offset (take n buffer) (part_bytes (rd dev) part) \<and>
    (\<forall>l. l < p_start_lba part \<or> p_start_lba part + p_sector_count part \<le> l \<longrightarrow> rd dev' l = rd dev l)"
proof -
  have ss: "0 < ss" "ss < 2 ^ 32" "p_sector_count part * ss < 2 ^ 32" using assms(3) by (simp_all add: part_ok_def)
  obtain tot where t: "part_span part ss offset sz = Some (offset div ss, offset mod ss, tot, n)"
    "span_ok ss (offset mod ss) tot n" "offset div ss + tot \<le> p_sector_count part"
    using part_span_inside [OF ss(1,2) assms(5,6,8) ss(3), folded assms(10)] .
  have "n \<le> length buffer" using assms(7,10) by simp
  then show ?thesis
    using part_write_loop_correct [OF assms(4) t(2,3) _ assms(3), of buffer 0 tot junk] t(2) assms(1,2,9) ss(1) t(1)
      part_ok_blocks(2) [OF assms(3)]
    by (auto simp: partition_write_def Let_def copied_def span_ok_def)
qed

text \<open>C35: writing at least one byte to a partition on a reliable disk, with the end of the range below 4 GiB, replaces exactly the requested bytes of the partition (as
  many as fit in it) by the buffer's, whatever the alignment, returns their number, and changes no sector outside
  the partition.\<close>
theorem partition_write_correct:
  assumes "idx < partition_count m" "part = partitions m ! idx" "part_ok (rd dev) ss part" "disk_laws rd wr ss"
    and "0 < sz" "offset + sz < 2 ^ 32" "sz \<le> length buffer" "offset < p_sector_count part * ss" "length junk = ss"
    and "n = min sz (p_sector_count part * ss - offset)"
  shows "\<exists>dev'. partition_write rd wr ss (Some junk) m (int idx) offset sz buffer dev = (n, dev') \<and>
    part_bytes (rd dev') part = overwrite offset (take n buffer) (part_bytes (rd dev) part) \<and>
    (\<forall>l. l < p_start_lba part \<or> p_start_lba part + p_sector_count part \<le> l \<longrightarrow> rd dev' l = rd dev l)"
  by (rule partition_write_bytes [OF assms])

lemma ram_laws: "disk_laws ram_read ram_write ss"
  by (auto simp: disk_laws_def ram_read_def ram_write_def)

theorem partition_write_correct_witness:
  "fst (partition_write ram_read ram_write 4 (Some [0, 0, 0, 0]) demo_mgr 0 3 4 [11, 12, 13, 14] demo_disk) = 4"
  using partition_write_correct [where rd = ram_read and dev = demo_disk and m = demo_mgr and idx = 0,
      OF _ refl demo_part_ok ram_laws, where sz = 4 and offset = 3
      and buffer = "[11, 12, 13, 14]" and junk = "[0, 0, 0, 0]"]
  by (auto simp: demo_mgr_def part_mgr_start_def zero_partition_def)


section \<open>The partition table\<close>

definition entry_partition :: "nat \<times> mbr_partition_entry \<Rightarrow> partition" where
  "entry_partition ie = (case ie of (i, e) \<Rightarrow> \<lparr>p_start_lba = start_lba e, p_sector_count = sector_count e,
     p_type = partition_type e, p_index = i, p_is_active = (boot_indicator e = 0x80)\<rparr>)"

text \<open>The index of the last active partition.\<close>

definition last_active :: "partition list \<Rightarrow> int" where
  "last_active ps = (case find (\<lambda>k. p_is_active (ps ! k)) (rev [0..<length ps]) of Some k \<Rightarrow> int k | None \<Rightarrow> -1)"

lemma last_active_snoc: "last_active (ps @ [p]) = (if p_is_active p then int (length ps) else last_active ps)"
proof -
  have "find (\<lambda>k. p_is_active ((ps @ [p]) ! k)) (rev [0..<length ps]) = find (\<lambda>k. p_is_active (ps ! k)) (rev [0..<length ps])"
    by (rule find_cong) (auto simp: nth_append)
  then show ?thesis by (simp add: last_active_def)
qed

lemma scan_entries_spec:
  assumes "partition_count m + length es \<le> length (partitions m)"
    "active_partition_index m = last_active (take (partition_count m) (partitions m))"
    "ps = take (partition_count m) (partitions m) @ map entry_partition (filter (\<lambda>(i, e). partition_type e \<noteq> 0) es)"
  shows "partition_count (scan_entries es m) = length ps \<and>
    take (length ps) (partitions (scan_entries es m)) = ps \<and>
    length (partitions (scan_entries es m)) = length (partitions m) \<and>
    active_partition_index (scan_entries es m) = last_active ps \<and>
    cached_active_idx (scan_entries es m) = cached_active_idx m"
  using assms
proof (induction es arbitrary: m ps)
  case Nil
  then show ?case by (simp add: min_def)
next
  case (Cons ie es)
  obtain i e where ie: "ie = (i, e)" by fastforce
  let ?c = "partition_count m"
  show ?case
  proof (cases "partition_type e = 0")
    case True
    then show ?thesis using Cons.IH [of m ps] Cons.prems ie by simp
  next
    case False
    let ?m = "m\<lparr>partitions := (partitions m)[?c := entry_partition ie],
      active_partition_index := (if boot_indicator e = 0x80 then int ?c else active_partition_index m),
      partition_count := ?c + 1\<rparr>"
    have c: "?c < length (partitions m)" using Cons.prems(1) by simp
    then have tk: "take (Suc ?c) ((partitions m)[?c := entry_partition ie]) = take ?c (partitions m) @ [entry_partition ie]"
      by (simp add: take_Suc_conv_app_nth)
    moreover have "last_active (take ?c (partitions m) @ [entry_partition ie]) = active_partition_index ?m"
      using c Cons.prems(2) by (simp add: last_active_snoc entry_partition_def ie min_def)
    ultimately have "partition_count (scan_entries es ?m) = length ps \<and>
      take (length ps) (partitions (scan_entries es ?m)) = ps \<and>
      length (partitions (scan_entries es ?m)) = length (partitions ?m) \<and>
      active_partition_index (scan_entries es ?m) = last_active ps \<and>
      cached_active_idx (scan_entries es ?m) = cached_active_idx ?m"
      using Cons.prems ie False by (intro Cons.IH) simp_all
    moreover have "scan_entries (ie # es) m = scan_entries es ?m"
      using False ie by (simp add: Let_def entry_partition_def)
    ultimately show ?thesis by simp
  qed
qed

text \<open>a scan of a readable first sector with the boot signature records exactly the used entries of the
  table, in table order, with the sector numbers stored in the table; the active partition is the last one marked
  0x80, the first one when none is marked, and -1 when the table is empty. A sector that cannot be read or lacks
  the signature leaves the state as it was.\<close>
lemma partition_scan_correct:
  assumes "512 \<le> ss" "length (partitions m) = 4"
    and "ps = (case rd 0 of None \<Rightarrow> [] | Some b \<Rightarrow>
      map entry_partition (filter (\<lambda>(i, e). partition_type e \<noteq> 0) (map (\<lambda>i. (i, mbr_entry b i)) [0..<4])))"
    and "valid = (case rd 0 of None \<Rightarrow> False | Some b \<Rightarrow> (load_le (\<lambda>x. b ! x) 510 2 :: u16) = MBR_SIGNATURE)"
  shows "\<exists>m'. partition_scan rd ss True m = Inr m' \<and>
    (if valid then partition_count m' = length ps \<and> take (length ps) (partitions m') = ps \<and>
       active_partition_index m' = (if last_active ps = -1 \<and> ps \<noteq> [] then 0 else last_active ps) \<and>
       cached_active_idx m' = cached_active_idx m
     else m' = m)"
proof (cases valid)
  case True
  then obtain b where b: "rd 0 = Some b" "(load_le (\<lambda>x. b ! x) 510 2 :: u16) = MBR_SIGNATURE"
    using assms(4) by (auto split: option.splits)
  let ?m = "scan_entries (map (\<lambda>i. (i, mbr_entry b i)) [0..<4]) (m\<lparr>partition_count := 0, active_partition_index := -1\<rparr>)"
  have ps: "ps = map entry_partition (filter (\<lambda>(i, e). partition_type e \<noteq> 0) (map (\<lambda>i. (i, mbr_entry b i)) [0..<4]))"
    using assms(3) b(1) by simp
  have "partition_count ?m = length ps \<and> take (length ps) (partitions ?m) = ps \<and>
      length (partitions ?m) = length (partitions (m\<lparr>partition_count := 0, active_partition_index := -1\<rparr>)) \<and>
      active_partition_index ?m = last_active ps \<and>
      cached_active_idx ?m = cached_active_idx (m\<lparr>partition_count := 0, active_partition_index := -1\<rparr>)"
    by (rule scan_entries_spec) (simp_all add: ps assms(2) last_active_def)
  then show ?thesis using True b assms(1) by (simp add: partition_scan_def Let_def)
next
  case False
  then show ?thesis using assms(1,4) by (auto simp: partition_scan_def split: option.splits)
qed

text \<open>A boot sector with one used, active entry.\<close>

definition demo_mbr :: "u8 list" where
  "demo_mbr = replicate 446 0 @ [0x80, 0, 0, 0, 0x0C, 0, 0, 0, 0x3F, 0, 0, 0, 0x10, 1, 0, 0] @ replicate 48 0 @ [0x55, 0xAA]"

lemma demo_mbr_fields:
  "(load_le (\<lambda>x. demo_mbr ! x) 510 2 :: u16) = MBR_SIGNATURE"
  "mbr_entry demo_mbr 0 = \<lparr>boot_indicator = 0x80, partition_type = 0x0C, start_lba = 63, sector_count = 272\<rparr>"
  "partition_type (mbr_entry demo_mbr 1) = 0" "partition_type (mbr_entry demo_mbr 2) = 0"
  "partition_type (mbr_entry demo_mbr 3) = 0"
  by (simp_all add: demo_mbr_def load_le_numeral nth_append MBR_SIGNATURE_def mbr_entry_def
      MBR_OFFSET_PARTITION_TABLE_def)

lemma partition_scan_correct_witness:
  "\<exists>m'. partition_scan (\<lambda>l. Some demo_mbr) 512 True part_mgr_start = Inr m' \<and> partition_count m' = 1 \<and>
     active_partition_index m' = 0 \<and> p_start_lba (partitions m' ! 0) = 63"
proof -
  have f: "filter (\<lambda>(i, e). partition_type e \<noteq> 0) (map (\<lambda>i. (i, mbr_entry demo_mbr i)) [0..<4]) = [(0, mbr_entry demo_mbr 0)]"
  proof -
    have "[0..<4] = [0, 1, 2, 3 :: nat]" by (simp add: upt_rec)
    then show ?thesis using demo_mbr_fields by simp
  qed
  obtain m' where m: "partition_scan (\<lambda>l. Some demo_mbr) 512 True part_mgr_start = Inr m'"
    "partition_count m' = 1" "take 1 (partitions m') = [entry_partition (0, mbr_entry demo_mbr 0)]"
    "active_partition_index m' = 0"
    using partition_scan_correct [where ss = 512 and m = part_mgr_start and rd = "\<lambda>l. Some demo_mbr", OF _ _ refl refl]
      demo_mbr_fields(1,2)
    by (auto simp: f part_mgr_start_def last_active_def entry_partition_def)
  then have "partitions m' ! 0 = entry_partition (0, mbr_entry demo_mbr 0)"
    by (metis nth_Cons_0 nth_take zero_less_one)
  then show ?thesis using m demo_mbr_fields(2) by (auto simp: entry_partition_def)
qed

section \<open>The A/B scheme\<close>

datatype part_op = Scan "nat \<Rightarrow> u8 list option" | Active_root u8 bool | Passive_root u8 bool

text \<open>What an operation returns as the index of the node it creates; a scan that runs into a short sector stops
  the kernel and leaves the state.\<close>

definition part_step :: "nat \<Rightarrow> part_op \<Rightarrow> part_mgr \<Rightarrow> (bool \<times> nat) option \<times> part_mgr" where
  "part_step ss x m = (case x of
     Scan rd \<Rightarrow> (None, case partition_scan rd ss True m of Inl _ \<Rightarrow> m | Inr m' \<Rightarrow> m')
   | Active_root nv km \<Rightarrow> (case partition_get_active_root ss km nv m of (n, m') \<Rightarrow> (map_option (\<lambda>n. (True, n_impl n)) n, m'))
   | Passive_root nv km \<Rightarrow> (case partition_get_passive_root ss km nv m of (n, m') \<Rightarrow> (map_option (\<lambda>n. (False, n_impl n)) n, m')))"

text \<open>The results of a sequence of operations.\<close>

fun part_run :: "nat \<Rightarrow> part_op list \<Rightarrow> part_mgr \<Rightarrow> (bool \<times> nat) list" where
  "part_run ss [] m = []"
| "part_run ss (x # xs) m =
     (case part_step ss x m of (r, m') \<Rightarrow> (case r of None \<Rightarrow> [] | Some y \<Rightarrow> [y]) @ part_run ss xs m')"

lemma scan_entries_cached: "cached_active_idx (scan_entries es m) = cached_active_idx m"
  by (induction es m rule: scan_entries.induct) (simp_all add: Let_def)

lemma scan_cached: "partition_scan rd ss km m = Inr m' \<Longrightarrow> cached_active_idx m' = cached_active_idx m"
  by (auto simp: partition_scan_def Let_def scan_entries_cached split: if_splits option.splits)

text \<open>One operation: once the booted index is fixed it stays, and the nodes handed out are that one for the active
  root and the other one for the passive root.\<close>

lemma get_booted_cases:
  assumes "get_booted_active_index nv m = (x, m1)"
  obtains "cached_active_idx m \<noteq> -1" "x = cached_active_idx m" "m1 = m"
  | "cached_active_idx m = -1" "x = 0 \<or> x = 1" "cached_active_idx m1 = x"
  | "cached_active_idx m = -1" "x \<noteq> 0" "x \<noteq> 1" "m1 = m"
proof -
  define y where "y = (if nv \<noteq> 0xFF \<and> unat nv < partition_count m then int (unat nv) else active_partition_index m)"
  have "(x, m1) = (if cached_active_idx m \<noteq> -1 then (cached_active_idx m, m)
      else (y, if y = 0 \<or> y = 1 then m\<lparr>cached_active_idx := y\<rparr> else m))"
    using assms by (simp only: get_booted_active_index_def Let_def y_def)
  then show thesis using that by (auto split: if_splits)
qed

lemma create_node_impl: "create_partition_node ss km idx m = Some n \<Longrightarrow> n_impl n = nat idx"
  by (auto simp: create_partition_node_def split: if_splits)

definition booted_step :: "part_mgr \<Rightarrow> (bool \<times> nat) option \<Rightarrow> part_mgr \<Rightarrow> bool" where
  "booted_step m r m' \<longleftrightarrow> cached_active_idx m' \<in> {-1, 0, 1} \<and>
     (cached_active_idx m \<noteq> -1 \<longrightarrow> cached_active_idx m' = cached_active_idx m) \<and>
     (\<forall>k i. r = Some (k, i) \<longrightarrow> cached_active_idx m' \<noteq> -1 \<and>
        int i = (if k then cached_active_idx m' else 1 - cached_active_idx m'))"

lemma active_root_booted:
  assumes "cached_active_idx m \<in> {-1, 0, 1}" "partition_get_active_root ss km nv m = (n, m')"
  shows "booted_step m (map_option (\<lambda>n. (True, n_impl n)) n) m'"
proof -
  obtain x m1 where g: "get_booted_active_index nv m = (x, m1)" by fastforce
  show ?thesis
    using assms g create_node_impl
    by (cases rule: get_booted_cases [OF g])
      (auto simp: partition_get_active_root_def booted_step_def split: if_splits)
qed

lemma passive_root_booted:
  assumes "cached_active_idx m \<in> {-1, 0, 1}" "partition_get_passive_root ss km nv m = (n, m')"
  shows "booted_step m (map_option (\<lambda>n. (False, n_impl n)) n) m'"
proof -
  obtain x m1 where g: "get_booted_active_index nv m = (x, m1)" by fastforce
  show ?thesis
    using assms g create_node_impl
    by (cases rule: get_booted_cases [OF g])
      (auto simp: partition_get_passive_root_def booted_step_def Let_def split: if_splits)
qed

lemma part_step_booted:
  assumes "cached_active_idx m \<in> {-1, 0, 1}" "part_step ss x m = (r, m')"
  shows "booted_step m r m'"
proof (cases x)
  case (Scan rd)
  then show ?thesis using assms scan_cached [of rd ss True m]
    by (auto simp: part_step_def booted_step_def split: sum.splits)
next
  case (Active_root nv km)
  then show ?thesis using assms active_root_booted [OF assms(1), of ss km nv]
    by (auto simp: part_step_def split: prod.splits)
next
  case (Passive_root nv km)
  then show ?thesis using assms passive_root_booted [OF assms(1), of ss km nv]
    by (auto simp: part_step_def split: prod.splits)
qed

lemma part_run_Cons:
  "part_step ss x m = (r, m') \<Longrightarrow> y \<in> set (part_run ss (x # xs) m) \<Longrightarrow> r = Some y \<or> y \<in> set (part_run ss xs m')"
  by (auto split: option.splits)

lemma part_run_fixed:
  assumes "cached_active_idx m = c" "c \<in> {0, 1}" "(k, i) \<in> set (part_run ss xs m)"
  shows "int i = (if k then c else 1 - c)"
  using assms
proof (induction xs arbitrary: m)
  case (Cons x xs)
  obtain r m' where s: "part_step ss x m = (r, m')" by fastforce
  have "cached_active_idx m \<in> {-1, 0, 1}" using Cons.prems(1,2) by auto
  note b = part_step_booted [OF this s]
  have c: "cached_active_idx m' = c" using b Cons.prems(1,2) by (auto simp: booted_step_def)
  from part_run_Cons [OF s Cons.prems(3)] show ?case
  proof
    assume "r = Some (k, i)"
    then show ?thesis using b c by (simp add: booted_step_def)
  qed (rule Cons.IH [OF c Cons.prems(2)])
qed simp

lemma part_run_results:
  assumes "cached_active_idx m = -1"
  shows "\<exists>c \<in> {0, 1}. \<forall>(k, i) \<in> set (part_run ss xs m). int i = (if k then c else 1 - c)"
  using assms
proof (induction xs arbitrary: m)
  case (Cons x xs)
  obtain r m' where s: "part_step ss x m = (r, m')" by fastforce
  have b: "booted_step m r m'" using part_step_booted [OF _ s] Cons.prems by simp
  show ?case
  proof (cases "cached_active_idx m' = -1")
    case True
    then have "r = None" using b by (cases r) (auto simp: booted_step_def)
    then show ?thesis using Cons.IH [OF True] s by simp
  next
    case False
    then have c: "cached_active_idx m' \<in> {0, 1}" using b by (simp add: booted_step_def)
    have "int i = (if k then cached_active_idx m' else 1 - cached_active_idx m')"
      if "(k, i) \<in> set (part_run ss (x # xs) m)" for k i
      using part_run_Cons [OF s that]
    proof
      assume "r = Some (k, i)"
      then show ?thesis using b by (simp add: booted_step_def)
    qed (rule part_run_fixed [OF refl c])
    then show ?thesis using c by blast
  qed
qed auto

text \<open>over any sequence of scans and root requests after boot, with any boot partition stored in NVRAM at
  any time, all active roots handed out are one and the same partition 0 or 1, and every passive root is the other
  one of the two: an update never writes to the running system nor to a data partition.\<close>
lemma passive_root_is_never_active:
  "\<exists>a. a \<in> {0, 1} \<and> set (part_run ss xs part_mgr_start) \<subseteq> {(True, a), (False, 1 - a)}"
proof -
  have "cached_active_idx part_mgr_start = -1" by (simp add: part_mgr_start_def)
  from part_run_results [OF this, of ss xs] obtain c where
    c: "c \<in> {0, 1}" "\<And>k i. (k, i) \<in> set (part_run ss xs part_mgr_start) \<Longrightarrow> int i = (if k then c else 1 - c)"
    by blast
  have "(k, i) \<in> {(True, nat c), (False, 1 - nat c)}" if "(k, i) \<in> set (part_run ss xs part_mgr_start)" for k i
    using c(1) c(2) [OF that] by (cases k) auto
  then show ?thesis using c(1) by (intro exI [of _ "nat c"]) auto
qed

end
