(* ===== verification/Vfs.thy ===== *)
theory Vfs
  imports KString
begin

text \<open>
  The virtual file system layer (\<^verbatim>\<open>kernel/fs/vfs.c\<close>): dispatch to the drivers, mount points, path
  lookup, splitting a path into parent and name, and path normalisation. The function pointers of a node
  belong to the file system drivers: a node carries the number of its driver, and a driver is a record of
  optional functions (\<open>None\<close> is a null pointer) over a world \<open>'w\<close> that they may change. C strings are
  character lists without the terminating zero.
\<close>

section \<open>State\<close>

record fs_node =
  fn_name :: string
  fn_flags :: nat
  fn_inode :: nat
  fn_impl :: nat
  fn_ref_count :: nat
  fn_driver :: nat

record 'w fs_driver =
  op_read :: "(fs_node \<Rightarrow> nat \<Rightarrow> nat \<Rightarrow> 'w \<Rightarrow> int \<times> u8 list) option"
  op_write :: "(fs_node \<Rightarrow> nat \<Rightarrow> nat \<Rightarrow> u8 list \<Rightarrow> 'w \<Rightarrow> nat \<times> 'w) option"
  op_open :: "(fs_node \<Rightarrow> 'w \<Rightarrow> 'w) option"
  op_close :: "(fs_node \<Rightarrow> 'w \<Rightarrow> 'w) option"
  op_ioctl :: "(fs_node \<Rightarrow> int \<Rightarrow> nat \<Rightarrow> 'w \<Rightarrow> int \<times> 'w) option"
  op_readdir :: "(fs_node \<Rightarrow> nat \<Rightarrow> 'w \<Rightarrow> int \<times> (string \<times> nat) option) option"
  op_finddir :: "(fs_node \<Rightarrow> string \<Rightarrow> 'w \<Rightarrow> fs_node option) option"
  op_create :: "(fs_node \<Rightarrow> string \<Rightarrow> nat \<Rightarrow> 'w \<Rightarrow> int \<times> 'w) option"
  op_mkdir :: "(fs_node \<Rightarrow> string \<Rightarrow> nat \<Rightarrow> 'w \<Rightarrow> int \<times> 'w) option"
  op_unlink :: "(fs_node \<Rightarrow> string \<Rightarrow> 'w \<Rightarrow> int \<times> 'w) option"
  op_rename :: "(fs_node \<Rightarrow> string \<Rightarrow> fs_node \<Rightarrow> string \<Rightarrow> 'w \<Rightarrow> int \<times> 'w) option"
  op_link :: "(fs_node \<Rightarrow> fs_node \<Rightarrow> string \<Rightarrow> 'w \<Rightarrow> int \<times> 'w) option"

record mount_point =
  mp_inode :: nat
  mp_impl :: nat
  mp_fs :: fs_node

record 'w vfs =
  vfs_root :: "fs_node option"
  vfs_mounts :: "mount_point list"
  vfs_drivers :: "nat \<Rightarrow> 'w fs_driver"
  vfs_world :: 'w

definition FS_DIRECTORY :: nat where
  "FS_DIRECTORY = 2"

definition is_dir :: "fs_node \<Rightarrow> bool" where
  "is_dir n \<longleftrightarrow> fn_flags n mod 8 = FS_DIRECTORY"

abbreviation drv :: "'w vfs \<Rightarrow> fs_node \<Rightarrow> 'w fs_driver" where
  "drv s n \<equiv> vfs_drivers s (fn_driver n)"

section \<open>Dispatch\<close>

definition read_fs :: "fs_node \<Rightarrow> nat \<Rightarrow> nat \<Rightarrow> 'w vfs \<Rightarrow> int \<times> u8 list" where
  "read_fs node offset sz s = (case op_read (drv s node) of None \<Rightarrow> (0, []) | Some f \<Rightarrow> f node offset sz (vfs_world s))"

definition write_fs :: "fs_node \<Rightarrow> nat \<Rightarrow> nat \<Rightarrow> u8 list \<Rightarrow> 'w vfs \<Rightarrow> nat \<times> 'w vfs" where
  "write_fs node offset sz buffer s =
     (case op_write (drv s node) of
        None \<Rightarrow> (0, s)
      | Some f \<Rightarrow> (case f node offset sz buffer (vfs_world s) of (r, w) \<Rightarrow> (r, s\<lparr>vfs_world := w\<rparr>)))"

definition open_fs :: "fs_node \<Rightarrow> 'w vfs \<Rightarrow> 'w vfs" where
  "open_fs node s = (case op_open (drv s node) of None \<Rightarrow> s | Some f \<Rightarrow> s\<lparr>vfs_world := f node (vfs_world s)\<rparr>)"

definition close_fs :: "fs_node \<Rightarrow> 'w vfs \<Rightarrow> 'w vfs" where
  "close_fs node s = (case op_close (drv s node) of None \<Rightarrow> s | Some f \<Rightarrow> s\<lparr>vfs_world := f node (vfs_world s)\<rparr>)"

definition readdir_fs :: "fs_node \<Rightarrow> nat \<Rightarrow> 'w vfs \<Rightarrow> int \<times> (string \<times> nat) option" where
  "readdir_fs node index s =
     (case op_readdir (drv s node) of
        Some f \<Rightarrow> if is_dir node then f node index (vfs_world s) else (- ENOTDIR, None)
      | None \<Rightarrow> (- ENOTDIR, None))"

text \<open>A hit on a mount point is replaced by a fresh copy of the mounted root.\<close>

definition mounted :: "mount_point list \<Rightarrow> fs_node \<Rightarrow> fs_node option" where
  "mounted ms n = map_option mp_fs (find (\<lambda>m. mp_inode m = fn_inode n \<and> mp_impl m = fn_impl n) ms)"

definition finddir_fs :: "bool \<Rightarrow> 'w vfs \<Rightarrow> fs_node \<Rightarrow> string \<Rightarrow> fs_node option" where
  "finddir_fs kmalloc_ok s node name =
     (case op_finddir (drv s node) of
        None \<Rightarrow> None
      | Some f \<Rightarrow>
          if \<not> is_dir node then None
          else case f node name (vfs_world s) of
            None \<Rightarrow> None
          | Some ret \<Rightarrow>
              (case mounted (vfs_mounts s) ret of
                 None \<Rightarrow> Some ret
               | Some fs \<Rightarrow> if kmalloc_ok then Some (fs\<lparr>fn_ref_count := 1\<rparr>) else None))"

definition lift_world :: "'w vfs \<Rightarrow> int \<times> 'w \<Rightarrow> int \<times> 'w vfs" where
  "lift_world s rw = (fst rw, s\<lparr>vfs_world := snd rw\<rparr>)"

definition create_fs :: "fs_node \<Rightarrow> string \<Rightarrow> nat \<Rightarrow> 'w vfs \<Rightarrow> int \<times> 'w vfs" where
  "create_fs parent name permission s =
     (case op_create (drv s parent) of
        Some f \<Rightarrow> if is_dir parent then lift_world s (f parent name permission (vfs_world s)) else (- ENOTDIR, s)
      | None \<Rightarrow> (- ENOTDIR, s))"

definition mkdir_fs :: "fs_node \<Rightarrow> string \<Rightarrow> nat \<Rightarrow> 'w vfs \<Rightarrow> int \<times> 'w vfs" where
  "mkdir_fs parent name permission s =
     (case op_mkdir (drv s parent) of
        Some f \<Rightarrow> if is_dir parent then lift_world s (f parent name permission (vfs_world s)) else (- ENOTDIR, s)
      | None \<Rightarrow> (- ENOTDIR, s))"

definition unlink_fs :: "fs_node \<Rightarrow> string \<Rightarrow> 'w vfs \<Rightarrow> int \<times> 'w vfs" where
  "unlink_fs parent name s =
     (if \<not> is_dir parent then (- ENOTDIR, s)
      else case op_unlink (drv s parent) of
        Some f \<Rightarrow> lift_world s (f parent name (vfs_world s))
      | None \<Rightarrow> (- EPERM, s))"

definition rename_fs :: "fs_node \<Rightarrow> string \<Rightarrow> fs_node \<Rightarrow> string \<Rightarrow> 'w vfs \<Rightarrow> int \<times> 'w vfs" where
  "rename_fs old_parent old_name new_parent new_name s =
     (if is_dir old_parent \<and> is_dir new_parent then
        (case op_rename (drv s old_parent) of
           Some f \<Rightarrow> lift_world s (f old_parent old_name new_parent new_name (vfs_world s))
         | None \<Rightarrow> (- EPERM, s))
      else (- ENOTDIR, s))"

definition link_fs :: "fs_node \<Rightarrow> fs_node \<Rightarrow> string \<Rightarrow> 'w vfs \<Rightarrow> int \<times> 'w vfs" where
  "link_fs parent target name s =
     (case op_link (drv s parent) of
        Some f \<Rightarrow> if is_dir parent then lift_world s (f parent target name (vfs_world s)) else (- ENOTDIR, s)
      | None \<Rightarrow> (- ENOTDIR, s))"

definition ioctl_fs :: "fs_node \<Rightarrow> int \<Rightarrow> nat \<Rightarrow> 'w vfs \<Rightarrow> int \<times> 'w vfs" where
  "ioctl_fs node request arg s =
     (case op_ioctl (drv s node) of
        None \<Rightarrow> (- ENOTTY, s)
      | Some f \<Rightarrow> lift_world s (f node request arg (vfs_world s)))"

section \<open>Lookup\<close>

text \<open>The next segment and what follows it and one slash; \<open>None\<close> when it does not fit in 1023 characters.\<close>

definition next_segment :: "string \<Rightarrow> (string \<times> string) option" where
  "next_segment p =
     (let segment = take 1023 (takeWhile (\<lambda>c. c \<noteq> CHR ''/'') p);
          p1 = drop (length segment) p
      in if length segment = 1023 \<and> p1 \<noteq> [] \<and> hd p1 \<noteq> CHR ''/'' then None
         else Some (segment, if p1 \<noteq> [] \<and> hd p1 = CHR ''/'' then tl p1 else p1))"

lemma next_segment_shorter:
  assumes "next_segment p = Some (seg, q)" "p \<noteq> []"
  shows "length q < length p"
proof (cases "take 1023 (takeWhile (\<lambda>c. c \<noteq> CHR ''/'') p) = []")
  case True
  then have "hd p = CHR ''/''" using assms(2) by (cases p) (auto split: if_splits)
  then show ?thesis using assms True by (auto simp: next_segment_def Let_def split: if_splits)
next
  case False
  then have "0 < length (take 1023 (takeWhile (\<lambda>c. c \<noteq> CHR ''/'') p))" by (rule length_greater_0_conv [THEN iffD2])
  then have "length (drop (length (take 1023 (takeWhile (\<lambda>c. c \<noteq> CHR ''/'') p))) p) < length p"
    unfolding length_drop by (rule diff_less) (simp add: assms(2))
  then show ?thesis using assms(1) by (auto simp: next_segment_def Let_def split: if_splits)
qed

function lookup_loop :: "(fs_node \<Rightarrow> string \<Rightarrow> fs_node option) \<Rightarrow> fs_node \<Rightarrow> string \<Rightarrow> fs_node option" where
  "lookup_loop finddir cur p =
     (if p = [] then Some cur
      else case next_segment p of
        None \<Rightarrow> None
      | Some (segment, q) \<Rightarrow>
          if segment = [] then lookup_loop finddir cur q
          else case finddir cur segment of
            None \<Rightarrow> None
          | Some nxt \<Rightarrow> if \<not> is_dir nxt \<and> q \<noteq> [] then None else lookup_loop finddir nxt q)"
  by pat_completeness auto

termination
  by (relation "measure (\<lambda>(f, cur, p). length p)") (auto dest: next_segment_shorter)

declare lookup_loop.simps [simp del]

text \<open>\<open>tty\<close> is what \<open>tty_create_node\<close> returns. All allocations succeed or fail together.\<close>

definition vfs_lookup :: "bool \<Rightarrow> fs_node option \<Rightarrow> 'w vfs \<Rightarrow> fs_node option \<Rightarrow> string option \<Rightarrow> fs_node option" where
  "vfs_lookup kmalloc_ok tty s root path =
     (case (root, path) of
        (Some r, Some pth) \<Rightarrow>
          if pth = ''/dev/tty'' then tty
          else if pth = ''/'' then (if kmalloc_ok then Some (r\<lparr>fn_ref_count := 1\<rparr>) else None)
          else
            let p = (if pth \<noteq> [] \<and> hd pth = CHR ''/'' then tl pth else pth) in
            if \<not> kmalloc_ok then None
            else if p = [] then Some (r\<lparr>fn_ref_count := 1\<rparr>)
            else lookup_loop (finddir_fs kmalloc_ok s) (r\<lparr>fn_ref_count := 1\<rparr>) p
      | _ \<Rightarrow> None)"

definition vfs_mount :: "bool \<Rightarrow> fs_node option \<Rightarrow> string option \<Rightarrow> fs_node option \<Rightarrow> 'w vfs \<Rightarrow> int \<times> 'w vfs" where
  "vfs_mount kmalloc_ok tty path fs s =
     (case (path, fs) of
        (Some p, Some f) \<Rightarrow>
          (case vfs_lookup kmalloc_ok tty s (vfs_root s) path of
             None \<Rightarrow> (- ENOENT, s)
           | Some node \<Rightarrow>
               if \<not> kmalloc_ok then (-2, s)
               else (0, s\<lparr>vfs_mounts := \<lparr>mp_inode = fn_inode node, mp_impl = fn_impl node, mp_fs = f\<rparr> # vfs_mounts s\<rparr>))
      | _ \<Rightarrow> (- ENOENT, s))"

section \<open>Parent and name\<close>

text \<open>The index of the last slash, as the loops over the path find it.\<close>

fun last_slash :: "string \<Rightarrow> nat \<Rightarrow> int \<Rightarrow> int" where
  "last_slash [] i r = r"
| "last_slash (c # cs) i r = last_slash cs (Suc i) (if c = CHR ''/'' then int i else r)"

text \<open>The parent path and the name; \<open>limit\<close> is 1023, in \<open>vfs_link\<close> 127.\<close>

definition split_path :: "nat \<Rightarrow> string \<Rightarrow> (string \<times> string) option" where
  "split_path limit path =
     (let l = last_slash path 0 (-1) in
      if l = -1 then None
      else if l = 0 then Some (''/'', take 1023 (drop 1 path))
      else if l \<ge> int limit then None
      else Some (take (nat l) path, take 1023 (drop (nat l + 1) path)))"

definition vfs_mkdir :: "bool \<Rightarrow> fs_node option \<Rightarrow> string option \<Rightarrow> nat \<Rightarrow> 'w vfs \<Rightarrow> int \<times> 'w vfs" where
  "vfs_mkdir kmalloc_ok tty path permission s =
     (case path of
        None \<Rightarrow> (- ENOENT, s)
      | Some p \<Rightarrow>
          if \<not> kmalloc_ok then (- ENOMEM, s)
          else case split_path 1023 p of
            None \<Rightarrow> (- ENOENT, s)
          | Some (parent_path, name) \<Rightarrow>
              (case vfs_lookup kmalloc_ok tty s (vfs_root s) (Some parent_path) of
                 None \<Rightarrow> (- ENOENT, s)
               | Some parent \<Rightarrow> mkdir_fs parent name permission s))"

definition vfs_link :: "bool \<Rightarrow> fs_node option \<Rightarrow> string option \<Rightarrow> string option \<Rightarrow> 'w vfs \<Rightarrow> int \<times> 'w vfs" where
  "vfs_link kmalloc_ok tty oldpath newpath s =
     (case (oldpath, newpath) of
        (Some old, Some new) \<Rightarrow>
          (case vfs_lookup kmalloc_ok tty s (vfs_root s) (Some old) of
             None \<Rightarrow> (- ENOENT, s)
           | Some target \<Rightarrow>
               if \<not> kmalloc_ok then (- ENOMEM, s)
               else case split_path 127 new of
                 None \<Rightarrow> (- ENOENT, s)
               | Some (parent_path, name) \<Rightarrow>
                   (case vfs_lookup kmalloc_ok tty s (vfs_root s) (Some parent_path) of
                      None \<Rightarrow> (- ENOENT, s)
                    | Some parent \<Rightarrow> link_fs parent target name s))
      | _ \<Rightarrow> (- ENOENT, s))"

definition vfs_unlink :: "bool \<Rightarrow> fs_node option \<Rightarrow> string option \<Rightarrow> 'w vfs \<Rightarrow> int \<times> 'w vfs" where
  "vfs_unlink kmalloc_ok tty path s =
     (case path of
        None \<Rightarrow> (- ENOENT, s)
      | Some p \<Rightarrow>
          if \<not> kmalloc_ok then (- ENOMEM, s)
          else case split_path 1023 p of
            None \<Rightarrow> (- ENOENT, s)
          | Some (parent_path, name) \<Rightarrow>
              (case vfs_lookup kmalloc_ok tty s (vfs_root s) (Some parent_path) of
                 None \<Rightarrow> (- ENOENT, s)
               | Some parent \<Rightarrow> unlink_fs parent name s))"

section \<open>Normalisation\<close>

lemma norm_rest_shorter:
  assumes "dropWhile (\<lambda>c. c = CHR ''/'') p \<noteq> []"
  shows "length (drop n (drop 1 (dropWhile (\<lambda>c. c = CHR ''/'') p))) < length p"
  using length_dropWhile_le [of "\<lambda>c. c = CHR ''/''" p] assms by (cases p) (auto split: if_splits)

text \<open>The loop over the segments of the copy; \<open>segs\<close> are the first \<open>count\<close> entries of the array.\<close>

function norm_loop :: "string \<Rightarrow> string list \<Rightarrow> string list option" where
  "norm_loop p segs =
     (let p1 = dropWhile (\<lambda>c. c = CHR ''/'') p in
      if p1 = [] then Some segs
      else
        let start = takeWhile (\<lambda>c. c \<noteq> CHR ''/'') p1;
            q = drop (Suc (length start)) p1
        in if start = ''.'' then norm_loop q segs
           else if start = ''..'' then norm_loop q (butlast segs)
           else if length segs < 64 then norm_loop q (segs @ [start])
           else None)"
  by pat_completeness auto

termination
proof (relation "measure (\<lambda>(p, segs). length p)")
  fix p x xa xb :: string and segs :: "string list"
  assume x: "x = dropWhile (\<lambda>c. c = CHR ''/'') p" "x \<noteq> []" "xb = drop (Suc (length xa)) x"
  have "xb = drop (length xa) (drop 1 (dropWhile (\<lambda>c. c = CHR ''/'') p))" using x by simp
  then have "length xb < length p" using norm_rest_shorter [of p] x(1,2) by metis
  then show "((xb, segs :: string list), (p, segs)) \<in> measure (\<lambda>(p, segs). length p)"
    "((xb, butlast segs), (p, segs)) \<in> measure (\<lambda>(p, segs). length p)"
    "((xb, segs @ [xa]), (p, segs)) \<in> measure (\<lambda>(p, segs). length p)" by simp_all
qed simp

declare norm_loop.simps [simp del]

fun join_segments :: "nat \<Rightarrow> string list \<Rightarrow> string \<Rightarrow> string" where
  "join_segments n [] out = out"
| "join_segments n (s # ss) out = join_segments n ss (strlcat_buf n (strlcat_buf n out ''/'') s)"

text \<open>\<open>cwd\<close> is the working directory of the current task, if there is one. With an empty base directory
  the code looks at the character before the buffer: \<open>Inl\<close>.\<close>

definition vfs_normalize_path ::
  "bool \<Rightarrow> string option \<Rightarrow> nat \<Rightarrow> string option \<Rightarrow> string option \<Rightarrow> panic + int \<times> string" where
  "vfs_normalize_path kmalloc_ok cwd out_size path base_dir =
     (case path of
        None \<Rightarrow> Inr (- ENOENT, [])
      | Some p \<Rightarrow>
          if out_size = 0 then Inr (- ENOENT, [])
          else if \<not> kmalloc_ok then Inr (- ENOMEM, [])
          else
            let base = strlcpy_buf 1024 (case base_dir of Some b \<Rightarrow> b | None \<Rightarrow> (case cwd of Some c \<Rightarrow> c | None \<Rightarrow> ''/'')) in
            if \<not> (p \<noteq> [] \<and> hd p = CHR ''/'') \<and> base = [] then Inl (Panic ''read before the start of the buffer'')
            else
              let temp = (if p \<noteq> [] \<and> hd p = CHR ''/'' then strlcpy_buf 1024 p
                          else strlcat_buf 1024 (if last base \<noteq> CHR ''/'' then strlcat_buf 1024 base ''/'' else base) p)
              in case norm_loop temp [] of
                   None \<Rightarrow> Inr (- ENAMETOOLONG, [])
                 | Some segs \<Rightarrow>
                     if segs = [] then Inr (0, strlcpy_buf out_size ''/'')
                     else Inr (0, join_segments out_size segs []))"

section \<open>Paths as lists of components\<close>

fun split_slash :: "string \<Rightarrow> string list" where
  "split_slash [] = [[]]"
| "split_slash (c # cs) =
     (if c = CHR ''/'' then [] # split_slash cs
      else case split_slash cs of [] \<Rightarrow> [[c]] | x # xs \<Rightarrow> (c # x) # xs)"

definition components :: "string \<Rightarrow> string list" where
  "components p = filter (\<lambda>s. s \<noteq> []) (split_slash p)"

lemma split_slash_ne [simp]: "split_slash p \<noteq> []"
  by (induction p) (auto split: list.splits)

lemma split_slash_append:
  "CHR ''/'' \<notin> set s \<Longrightarrow> split_slash (s @ CHR ''/'' # q) = s # split_slash q"
  "CHR ''/'' \<notin> set s \<Longrightarrow> split_slash s = [s]"
  by (induction s) auto

lemma components_simps [simp]:
  "components [] = []" "components (CHR ''/'' # p) = components p"
  by (simp_all add: components_def)

lemma components_segment:
  "CHR ''/'' \<notin> set s \<Longrightarrow> s \<noteq> [] \<Longrightarrow> components (s @ CHR ''/'' # q) = s # components q"
  "CHR ''/'' \<notin> set s \<Longrightarrow> s \<noteq> [] \<Longrightarrow> components s = [s]"
  by (simp_all add: components_def split_slash_append)

lemma components_ok: "s \<in> set (components p) \<Longrightarrow> s \<noteq> [] \<and> CHR ''/'' \<notin> set s"
proof -
  have "s \<in> set (split_slash p) \<Longrightarrow> CHR ''/'' \<notin> set s" for s
    by (induction p arbitrary: s) (auto split: if_splits list.splits)
  then show "s \<in> set (components p) \<Longrightarrow> s \<noteq> [] \<and> CHR ''/'' \<notin> set s" by (auto simp: components_def)
qed

text \<open>The first segment of a path that does not start with a slash, and what follows it.\<close>

lemma first_segment:
  assumes "p \<noteq> []" "hd p \<noteq> CHR ''/''" "s = takeWhile (\<lambda>c. c \<noteq> CHR ''/'') p"
  shows "s \<noteq> []" "CHR ''/'' \<notin> set s" "components p = s # components (drop (Suc (length s)) p)"
    "p = s \<or> (\<exists>q. p = s @ CHR ''/'' # q)"
proof -
  show s: "s \<noteq> []" "CHR ''/'' \<notin> set s" using assms by (cases p; auto dest: set_takeWhileD)+
  define r where "r = dropWhile (\<lambda>c. c \<noteq> CHR ''/'') p"
  have p: "p = s @ r" using assms(3) by (simp add: r_def)
  have "r = [] \<or> (\<exists>q. r = CHR ''/'' # q)" unfolding r_def
    by (cases "dropWhile (\<lambda>c. c \<noteq> CHR ''/'') p") (auto simp: dropWhile_eq_Cons_conv)
  then show "p = s \<or> (\<exists>q. p = s @ CHR ''/'' # q)"
    "components p = s # components (drop (Suc (length s)) p)" using p components_segment [OF s(2,1)] by auto
qed

lemma components_dropWhile: "components (dropWhile (\<lambda>c. c = CHR ''/'') p) = components p"
  by (induction p) auto

text \<open>What normalisation means on components.\<close>

definition resolve1 :: "string \<Rightarrow> string list \<Rightarrow> string list" where
  "resolve1 c segs = (if c = ''.'' then segs else if c = ''..'' then butlast segs else segs @ [c])"

definition resolve :: "string list \<Rightarrow> string list" where
  "resolve cs = fold resolve1 cs []"

definition render :: "string list \<Rightarrow> string" where
  "render segs = (if segs = [] then ''/'' else concat (map (\<lambda>s. CHR ''/'' # s) segs))"

lemma norm_loop_resolve:
  "length segs + length (components p) \<le> 64 \<Longrightarrow> norm_loop p segs = Some (fold resolve1 (components p) segs)"
proof (induction "length p" arbitrary: p segs rule: less_induct)
  case less
  define p1 where "p1 = dropWhile (\<lambda>c. c = CHR ''/'') p"
  have cp: "components p = components p1" by (simp add: p1_def components_dropWhile)
  show ?case
  proof (cases "p1 = []")
    case True
    then have "components p = []" using cp by simp
    then show ?thesis using True unfolding norm_loop.simps [of p] Let_def p1_def [symmetric] by simp
  next
    case False
    then have "hd p1 \<noteq> CHR ''/''" using hd_dropWhile [of "\<lambda>c. c = CHR ''/''" p] by (simp add: p1_def)
    note f = first_segment [OF False this refl]
    define s where "s = takeWhile (\<lambda>c. c \<noteq> CHR ''/'') p1"
    note f = f [folded s_def]
    define q where "q = drop (Suc (length s)) p1"
    have len: "length q < length p"
      using norm_rest_shorter [of p "length s"] False by (simp add: q_def p1_def)
    have c: "components p = s # components q" using cp f(3) by (simp add: q_def)
    have step: "norm_loop p segs = (if s = ''.'' then norm_loop q segs else if s = ''..'' then norm_loop q (butlast segs)
        else if length segs < 64 then norm_loop q (segs @ [s]) else None)"
      using False unfolding norm_loop.simps [of p] Let_def p1_def [symmetric] s_def [symmetric] q_def [symmetric] by simp
    then show ?thesis using less.hyps [OF len] less.prems c by (simp add: resolve1_def)
  qed
qed

lemma take_take_append: "take m (take m xs @ ys) = take m (xs @ ys)"
  by (auto simp: min_def)

lemma join_segments_render:
  "0 < n \<Longrightarrow> length out < n \<Longrightarrow> join_segments n segs out = take (n - 1) (out @ concat (map (\<lambda>s. CHR ''/'' # s) segs))"
proof (induction segs arbitrary: out)
  case (Cons s ss)
  have a: "strlcat_buf n out x = take (n - 1) (out @ x) \<and> length (strlcat_buf n out x) < n" if "length out < n" for out x
    using that Cons.prems(1) by (auto simp: strlcat_buf_def)
  have "strlcat_buf n (strlcat_buf n out ''/'') s = take (n - 1) (out @ CHR ''/'' # s)"
    using a [OF Cons.prems(2), of "''/''"] a [of "strlcat_buf n out ''/''" s] Cons.prems(2)
    by (auto simp: take_Cons' min_def)
  then have "join_segments n (s # ss) out = join_segments n ss (take (n - 1) (out @ CHR ''/'' # s))"
    by (simp only: join_segments.simps)
  also have "join_segments n ss (take (n - 1) (out @ CHR ''/'' # s)) =
      take (n - 1) (take (n - 1) (out @ CHR ''/'' # s) @ concat (map (\<lambda>s. CHR ''/'' # s) ss))"
    using Cons.prems by (intro Cons.IH) auto
  also have "\<dots> = take (n - 1) ((out @ CHR ''/'' # s) @ concat (map (\<lambda>s. CHR ''/'' # s) ss))" by (rule take_take_append)
  finally show ?case by simp
qed simp

lemma resolve_plain:
  assumes "\<And>c. c \<in> set cs \<Longrightarrow> c \<noteq> ''.'' \<and> c \<noteq> ''..''"
  shows "resolve cs = cs"
proof -
  have "fold resolve1 cs segs = segs @ cs" for segs
    using assms by (induction cs arbitrary: segs) (auto simp: resolve1_def)
  then show ?thesis by (simp add: resolve_def)
qed

lemma resolve_set:
  assumes "c \<in> set (resolve cs)"
  shows "c \<in> set cs \<and> c \<noteq> ''.'' \<and> c \<noteq> ''..''"
proof -
  have "c \<in> set (fold resolve1 cs segs) \<Longrightarrow> c \<in> set segs \<or> c \<in> set cs \<and> c \<noteq> ''.'' \<and> c \<noteq> ''..''" for segs
  proof (induction cs arbitrary: segs)
    case (Cons a cs)
    have "c \<in> set (resolve1 a segs) \<or> c \<in> set cs \<and> c \<noteq> ''.'' \<and> c \<noteq> ''..''"
      using Cons.IH [of "resolve1 a segs"] Cons.prems by simp
    then show ?case by (auto simp: resolve1_def split: if_splits dest: in_set_butlastD)
  qed simp
  from this [of "[]"] show ?thesis using assms by (simp add: resolve_def)
qed

lemma components_render:
  "(\<And>s. s \<in> set segs \<Longrightarrow> s \<noteq> [] \<and> CHR ''/'' \<notin> set s) \<Longrightarrow> components (render segs) = segs"
proof (induction segs)
  case (Cons s ss)
  have IH: "components (render ss) = ss" using Cons by simp
  have s: "s \<noteq> []" "CHR ''/'' \<notin> set s" using Cons.prems by auto
  show ?case
  proof (cases ss)
    case Nil
    then show ?thesis using components_segment(2) [OF s(2,1)] by (simp add: render_def)
  next
    case (Cons u us)
    then show ?thesis using components_segment(1) [OF s(2,1), of "u @ concat (map (\<lambda>s. CHR ''/'' # s) us)"] IH
      by (simp add: render_def)
  qed
qed (simp add: render_def)

section \<open>Walking a path\<close>

fun walk :: "(fs_node \<Rightarrow> string \<Rightarrow> fs_node option) \<Rightarrow> fs_node \<Rightarrow> string list \<Rightarrow> fs_node option" where
  "walk f n [] = Some n"
| "walk f n (c # cs) = (case f n c of None \<Rightarrow> None | Some m \<Rightarrow> walk f m cs)"

definition ends_in_two_slashes :: "string \<Rightarrow> bool" where
  "ends_in_two_slashes p \<longleftrightarrow> take 2 (rev p) = ''//''"

text \<open>What a traversal returns: the end of the walk, but a path ending in two slashes must end in a directory.\<close>

definition walk_path :: "(fs_node \<Rightarrow> string \<Rightarrow> fs_node option) \<Rightarrow> fs_node \<Rightarrow> string \<Rightarrow> fs_node option" where
  "walk_path f n p =
     (case walk f n (components p) of
        None \<Rightarrow> None
      | Some m \<Rightarrow> if components p \<noteq> [] \<and> \<not> is_dir m \<and> ends_in_two_slashes p then None else Some m)"

lemma components_Nil_iff: "components p = [] \<longleftrightarrow> (\<forall>c \<in> set p. c = CHR ''/'')"
proof (induction p)
  case (Cons c p)
  show ?case
  proof (cases "c = CHR ''/''")
    case False
    then show ?thesis using first_segment(3) [of "c # p"] by simp
  qed (use Cons in simp)
qed simp

lemma ends_two_append:
  assumes "components q \<noteq> []"
  shows "ends_in_two_slashes (x @ CHR ''/'' # q) = ends_in_two_slashes q"
proof (cases q rule: rev_cases)
  case (snoc q' c)
  show ?thesis
  proof (cases q' rule: rev_cases)
    case Nil
    then have "c \<noteq> CHR ''/''" using assms snoc by (auto simp: components_Nil_iff)
    then show ?thesis using Nil snoc by (simp add: ends_in_two_slashes_def)
  next
    case (snoc q'' d)
    then show ?thesis using \<open>q = q' @ [c]\<close> by (simp add: ends_in_two_slashes_def numeral_2_eq_2)
  qed
qed (use assms in simp)

lemma walk_path_slash: "walk_path f n (CHR ''/'' # q) = walk_path f n q"
  using ends_two_append [of q "[]"] by (cases "components q = []") (simp_all add: walk_path_def split: option.split)

lemma next_segment_slash: "next_segment (CHR ''/'' # p) = Some ([], p)"
  by (simp add: next_segment_def)

lemma next_segment_name:
  assumes "CHR ''/'' \<notin> set s" "length s \<le> 1023"
  shows "next_segment s = Some (s, [])" "next_segment (s @ CHR ''/'' # q) = Some (s, q)"
proof -
  have t: "takeWhile (\<lambda>c. c \<noteq> CHR ''/'') s = s" "takeWhile (\<lambda>c. c \<noteq> CHR ''/'') (s @ CHR ''/'' # q) = s"
    using assms(1) by (auto simp: takeWhile_eq_all_conv takeWhile_tail)
  show "next_segment s = Some (s, [])" "next_segment (s @ CHR ''/'' # q) = Some (s, q)"
    using assms(2) unfolding next_segment_def Let_def t by simp_all
qed

lemma lookup_loop_walk:
  assumes f: "\<And>n c. \<not> is_dir n \<Longrightarrow> f n c = None" and "\<forall>c \<in> set (components p). length c \<le> 1023"
  shows "lookup_loop f cur p = walk_path f cur p"
  using assms(2)
proof (induction "length p" arbitrary: p cur rule: less_induct)
  case less
  show ?case
  proof (cases "p = [] \<or> hd p = CHR ''/''")
    case True
    then consider "p = []" | q where "p = CHR ''/'' # q" by (cases p) auto
    then show ?thesis
    proof cases
      case 1
      then show ?thesis by (simp add: lookup_loop.simps walk_path_def)
    next
      case 2
      have "lookup_loop f cur p = walk_path f cur q"
        using less.hyps [of q cur] less.prems 2 unfolding lookup_loop.simps [of f cur p]
        by (simp add: next_segment_slash)
      then show ?thesis using 2 walk_path_slash by simp
    qed
  next
    case False
    define s where "s = takeWhile (\<lambda>c. c \<noteq> CHR ''/'') p"
    have s: "s \<noteq> []" "CHR ''/'' \<notin> set s" "p = s \<or> (\<exists>q. p = s @ CHR ''/'' # q)"
      using first_segment [OF _ _ s_def] False by auto
    have c: "length s \<le> 1023" using less.prems first_segment(3) [OF _ _ s_def] False by simp
    note n = next_segment_name [OF s(2) c]
    from s(3) show ?thesis
    proof
      assume p: "p = s"
      have "\<not> ends_in_two_slashes s" using s(2)
        by (cases s rule: rev_cases) (auto simp: ends_in_two_slashes_def)
      then show ?thesis using p s(1) n(1) components_segment(2) [OF s(2,1)]
        by (auto simp: lookup_loop.simps [of f cur] lookup_loop.simps [of f _ "[]"] walk_path_def split: option.splits)
    next
      assume "\<exists>q. p = s @ CHR ''/'' # q"
      then obtain q where p: "p = s @ CHR ''/'' # q" by blast
      have cp: "components p = s # components q" using components_segment(1) [OF s(2,1)] p by simp
      have step: "lookup_loop f cur p = (case f cur s of None \<Rightarrow> None
          | Some m \<Rightarrow> if \<not> is_dir m \<and> q \<noteq> [] then None else walk_path f m q)"
        using p n(2) s(1) less.hyps [of q] less.prems cp unfolding lookup_loop.simps [of f cur p]
        by (auto split: option.split)
      show ?thesis
      proof (cases "f cur s")
        case None
        then show ?thesis using step cp by (simp add: walk_path_def)
      next
        case (Some m)
        have "walk_path f cur p = (if \<not> is_dir m \<and> q \<noteq> [] then None else walk_path f m q)"
        proof (cases "components q = []")
          case True
          have "\<not> ends_in_two_slashes (s @ ''/'')" using s(2,1)
            by (cases s rule: rev_cases) (auto simp: ends_in_two_slashes_def numeral_2_eq_2)
          moreover have "ends_in_two_slashes p" if "q \<noteq> []"
            using that True p by (cases q rule: rev_cases; cases "butlast q" rule: rev_cases)
              (auto simp: ends_in_two_slashes_def components_Nil_iff numeral_2_eq_2)
          ultimately show ?thesis using True Some cp p by (cases "q = []") (auto simp: walk_path_def)
        next
          case ne: False
          then have "walk f m (components q) = None" if "\<not> is_dir m" using f [OF that] by (cases "components q") auto
          then show ?thesis using ends_two_append [OF ne, of s] p cp Some ne
            by (auto simp: walk_path_def split: option.splits)
        qed
        then show ?thesis using step Some by simp
      qed
    qed
  qed
qed

section \<open>Properties\<close>

lemma finddir_not_dir: "\<not> is_dir n \<Longrightarrow> finddir_fs km s n c = None"
  by (simp add: finddir_fs_def split: option.splits)

text \<open>path lookup. For every path other than the terminal's special name whose components fit the segment
  buffer, the character loop of the lookup ends and returns what walking the path's components from the root
  returns (each component looked up through the drivers and the mount table, failing at the first missing one or
  at a component below something that is not a directory); repeated and trailing slashes are ignored, except that
  a path ending in two slashes must name a directory.\<close>
lemma vfs_lookup_walks_components:
  assumes "path \<noteq> ''/dev/tty''" "\<forall>c \<in> set (components path). length c \<le> 1023"
  shows "vfs_lookup True tty s (Some root) (Some path) =
    walk_path (finddir_fs True s) (root\<lparr>fn_ref_count := 1\<rparr>) path"
proof -
  let ?r = "root\<lparr>fn_ref_count := 1\<rparr>" and ?f = "finddir_fs True s"
  define p where "p = (if path \<noteq> [] \<and> hd path = CHR ''/'' then tl path else path)"
  have path: "path = p \<or> path = CHR ''/'' # p" by (cases path) (auto simp: p_def)
  have comps: "components p = components path" using path by auto
  have "vfs_lookup True tty s (Some root) (Some path) = (if p = [] then Some ?r else lookup_loop ?f ?r p)"
    using assms(1) by (auto simp: vfs_lookup_def Let_def p_def)
  also have "\<dots> = walk_path ?f ?r p"
    using lookup_loop_walk [OF finddir_not_dir, where p = p] assms(2) comps by (cases "p = []") (simp_all add: walk_path_def)
  also have "\<dots> = walk_path ?f ?r path" using path walk_path_slash by auto
  finally show ?thesis .
qed

text \<open>A file system whose only file is \<open>/a\<close>.\<close>

definition demo_root :: fs_node where
  "demo_root = \<lparr>fn_name = ''/'', fn_flags = 2, fn_inode = 0, fn_impl = 0, fn_ref_count = 7, fn_driver = 0\<rparr>"

definition demo_file :: fs_node where
  "demo_file = \<lparr>fn_name = ''a'', fn_flags = 1, fn_inode = 1, fn_impl = 5, fn_ref_count = 1, fn_driver = 0\<rparr>"

definition demo_vfs :: "unit vfs" where
  "demo_vfs = \<lparr>vfs_root = Some demo_root, vfs_mounts = [], vfs_drivers = (\<lambda>_. \<lparr>op_read = None, op_write = None,
     op_open = None, op_close = None, op_ioctl = None, op_readdir = None,
     op_finddir = Some (\<lambda>n c w. if c = ''a'' then Some demo_file else None), op_create = None, op_mkdir = None,
     op_unlink = None, op_rename = None, op_link = None\<rparr>), vfs_world = ()\<rparr>"

lemma vfs_lookup_walks_components_witness:
  "vfs_lookup True None demo_vfs (Some demo_root) (Some ''//a/'') = Some demo_file \<and>
   vfs_lookup True None demo_vfs (Some demo_root) (Some ''/a//'') = None"
  using vfs_lookup_walks_components [of "''//a/''" None demo_vfs demo_root]
    vfs_lookup_walks_components [of "''/a//''" None demo_vfs demo_root]
  by (simp add: components_def walk_path_def finddir_fs_def demo_vfs_def demo_root_def demo_file_def is_dir_def
      FS_DIRECTORY_def mounted_def ends_in_two_slashes_def numeral_2_eq_2)

lemma norm_temp:
  assumes "length base < 1024" "base \<noteq> []" "length base + length p + 1 < 1024"
  shows "components (strlcat_buf 1024 (if last base \<noteq> CHR ''/'' then strlcat_buf 1024 base ''/'' else base) p) =
    components (base @ CHR ''/'' # p)"
proof -
  have split: "components (b @ CHR ''/'' # CHR ''/'' # p) = components (b @ CHR ''/'' # p)" for b
  proof (induction "length b" arbitrary: b rule: less_induct)
    case less
    show ?case
    proof (cases "CHR ''/'' \<in> set b")
      case True
      then obtain x y where b: "b = x @ CHR ''/'' # y" "CHR ''/'' \<notin> set x" by (meson split_list_first)
      have "components (y @ CHR ''/'' # CHR ''/'' # p) = components (y @ CHR ''/'' # p)" using less b by simp
      then show ?thesis using b components_segment(1) [OF b(2)] by (cases "x = []") simp_all
    qed (cases "b = []"; simp add: components_segment(1))
  qed
  show ?thesis
  proof (cases "last base = CHR ''/''")
    case True
    then obtain b where "base = b @ ''/''" using assms(2) by (metis append_butlast_last_id)
    then show ?thesis using split [of b] assms by (simp add: strlcat_buf_def)
  qed (use assms in \<open>simp add: strlcat_buf_def\<close>)
qed

text \<open>What the code does on every path that fits: \<open>..\<close> at the root stays there.\<close>

lemma normalize_path_spec:
  assumes "full = (if p \<noteq> [] \<and> hd p = CHR ''/'' then p else base @ CHR ''/'' # p)"
    and "length base + length p + 1 < 1024" "base \<noteq> []" "length (components full) \<le> 64"
    and "r = resolve (components full)" "length (render r) < out_size"
  shows "vfs_normalize_path True cwd out_size (Some p) (Some base) = Inr (0, render r) \<and>
    components (render r) = r \<and> (\<forall>c \<in> set r. c \<noteq> [] \<and> c \<noteq> ''.'' \<and> c \<noteq> ''..'') \<and>
    (length (render r) < 1024 \<longrightarrow>
      vfs_normalize_path True cwd out_size (Some (render r)) (Some base) = Inr (0, render r))"
proof -
  have fits: "vfs_normalize_path True cwd out_size (Some q) (Some base) = Inr (0, render segs)"
    if q: "fq = (if q \<noteq> [] \<and> hd q = CHR ''/'' then q else base @ CHR ''/'' # q)"
      "if q \<noteq> [] \<and> hd q = CHR ''/'' then length q < 1024 else length base + length q + 1 < 1024"
      "length (components fq) \<le> 64" "segs = resolve (components fq)" "length (render segs) < out_size" for q fq segs
  proof -
    define temp where "temp = (if q \<noteq> [] \<and> hd q = CHR ''/'' then strlcpy_buf 1024 q
      else strlcat_buf 1024 (if last (strlcpy_buf 1024 base) \<noteq> CHR ''/'' then strlcat_buf 1024 (strlcpy_buf 1024 base) ''/''
        else strlcpy_buf 1024 base) q)"
    have b: "strlcpy_buf 1024 base = base" using assms(2) by (simp add: strlcpy_buf_def)
    have "components temp = components fq"
      using norm_temp [of base q] q(1,2) assms(2,3) unfolding temp_def b by (auto simp: strlcpy_buf_def split: if_splits)
    then have "norm_loop temp [] = Some segs" using norm_loop_resolve [of "[]" temp] q(3,4) by (simp add: resolve_def)
    moreover have "strlcpy_buf out_size ''/'' = render segs" if "segs = []" using that q(5) by (simp add: render_def strlcpy_buf_def)
    moreover have "join_segments out_size segs [] = render segs" if "segs \<noteq> []"
      using that q(5) join_segments_render [of out_size "[]" segs] by (simp add: render_def)
    ultimately show ?thesis
      using q(5) assms(3) b unfolding vfs_normalize_path_def Let_def option.case temp_def [symmetric] by simp
  qed
  have rset: "c \<noteq> [] \<and> CHR ''/'' \<notin> set c \<and> c \<noteq> ''.'' \<and> c \<noteq> ''..''" if "c \<in> set r" for c
    using resolve_set [of c "components full"] components_ok [of c full] that assms(5) by auto
  then have comps: "components (render r) = r" using components_render by blast
  have "length r \<le> length (components full)"
  proof -
    have "length (fold resolve1 cs segs) \<le> length segs + length cs" for cs segs
    proof (induction cs arbitrary: segs)
      case (Cons a cs)
      have "length (resolve1 a segs) \<le> Suc (length segs)" by (cases segs) (auto simp: resolve1_def)
      then show ?case using Cons.IH [of "resolve1 a segs"] by simp
    qed simp
    from this [of "components full" "[]"] show ?thesis by (simp add: assms(5) resolve_def)
  qed
  moreover have "resolve r = r" using rset resolve_plain [of r] by blast
  moreover have "render r \<noteq> [] \<and> hd (render r) = CHR ''/''" by (cases r) (simp_all add: render_def)
  ultimately have "length (render r) < 1024 \<longrightarrow>
      vfs_normalize_path True cwd out_size (Some (render r)) (Some base) = Inr (0, render r)"
    using fits [of "render r" "render r" r] comps assms(4,6) by simp
  moreover have "vfs_normalize_path True cwd out_size (Some p) (Some base) = Inr (0, render r)"
    using fits [OF assms(1) _ assms(4,5,6)] assms(2) by auto
  ultimately show ?thesis using comps rset by blast
qed

lemma normalize_stays_at_root: "vfs_normalize_path True None 64 (Some ''/../../a'') (Some ''/'') = Inr (0, ''/a'')"
proof -
  have "components ''/../../a'' = [''..'', ''..'', ''a'']" by (simp add: components_def)
  moreover have "resolve [''..'', ''..'', ''a''] = [''a'']" by (simp add: resolve_def resolve1_def)
  ultimately show ?thesis
    using normalize_path_spec [of _ "''/../../a''" "''/''" _ 64 None, OF refl _ _ _ refl] by (simp add: render_def)
qed

text \<open>A list of components that, read from depth \<open>d\<close> below the root, never goes above it.\<close>

fun below_root :: "nat \<Rightarrow> string list \<Rightarrow> bool" where
  "below_root d [] = True"
| "below_root d (c # cs) =
     (if c = ''..'' then 0 < d \<and> below_root (d - 1) cs else if c = ''.'' then below_root d cs else below_root (d + 1) cs)"

text \<open>C37: path normalisation. For an absolute path, or a relative one with a nonempty base directory, that
  fits the 1024-byte work buffer, has at most 64 components and never goes above the root, the result is the absolute path of the resolved
  components, if it fits the caller's buffer: \<open>.\<close> and empty components are dropped, and \<open>..\<close> removes the component before it;
  no component of the result is empty, \<open>.\<close> or \<open>..\<close>, and normalising the result again gives it back. (Above the root the header
  promises an error, and the code stays at the root.)\<close>
theorem vfs_normalize_path_correct:
  assumes "full = (if p \<noteq> [] \<and> hd p = CHR ''/'' then p else base @ CHR ''/'' # p)"
    and "length base + length p + 1 < 1024" "base \<noteq> []" "length (components full) \<le> 64" "below_root 0 (components full)"
    and "r = resolve (components full)" "length (render r) < out_size"
  shows "vfs_normalize_path True cwd out_size (Some p) (Some base) = Inr (0, render r) \<and>
    components (render r) = r \<and> (\<forall>c \<in> set r. c \<noteq> [] \<and> c \<noteq> ''.'' \<and> c \<noteq> ''..'') \<and>
    (length (render r) < 1024 \<longrightarrow>
      vfs_normalize_path True cwd out_size (Some (render r)) (Some base) = Inr (0, render r))"
  by (rule normalize_path_spec [OF assms(1-4,6,7)])

theorem vfs_normalize_path_correct_witness:
  "vfs_normalize_path True None 64 (Some ''../b/./c'') (Some ''/home/x'') = Inr (0, ''/home/b/c'')"
proof -
  have "components ''/home/x/../b/./c'' = [''home'', ''x'', ''..'', ''b'', ''.'', ''c'']" by (simp add: components_def)
  moreover have "resolve [''home'', ''x'', ''..'', ''b'', ''.'', ''c''] = [''home'', ''b'', ''c'']"
    by (simp add: resolve_def resolve1_def)
  ultimately show ?thesis
    using vfs_normalize_path_correct [of _ "''../b/./c''" "''/home/x''" _ 64 None, OF refl _ _ _ _ refl]
    by (simp add: render_def)
qed

lemma last_slash_append: "last_slash (xs @ ys) i r = last_slash ys (i + length xs) (last_slash xs i r)"
  by (induction xs arbitrary: i r) auto

lemma last_slash_none: "CHR ''/'' \<notin> set xs \<Longrightarrow> last_slash xs i r = r"
  by (induction xs arbitrary: i r) auto

lemma split_path_append:
  assumes "CHR ''/'' \<notin> set nm" "length nm < 1024"
  shows "split_path limit (d @ CHR ''/'' # nm) =
    (if d = [] then Some (''/'', nm) else if length d \<ge> limit then None else Some (d, nm))"
  using assms by (simp add: split_path_def last_slash_append last_slash_none Let_def)

text \<open>removing a name and making a directory act on the last component of the path in the directory that
  looking up the rest of the path finds, for parent paths of up to 1022 characters; a path without a slash is
  refused. Making a link acts the same way but refuses parent paths of 127 characters and more, which the other two
  accept.\<close>
lemma vfs_acts_on_last_component:
  assumes "CHR ''/'' \<notin> set nm" "length nm < 1024" "length d < 1023" "path = d @ CHR ''/'' # nm"
    and "parent = vfs_lookup True tty s (vfs_root s) (Some (if d = [] then ''/'' else d))"
  shows "vfs_unlink True tty (Some path) s = (case parent of None \<Rightarrow> (- ENOENT, s) | Some n \<Rightarrow> unlink_fs n nm s) \<and>
    vfs_mkdir True tty (Some path) perm s = (case parent of None \<Rightarrow> (- ENOENT, s) | Some n \<Rightarrow> mkdir_fs n nm perm s) \<and>
    vfs_unlink True tty (Some nm) s = (- ENOENT, s) \<and> vfs_mkdir True tty (Some nm) perm s = (- ENOENT, s) \<and>
    (vfs_lookup True tty s (vfs_root s) (Some old) = Some target \<longrightarrow>
      vfs_link True tty (Some old) (Some path) s =
        (if length d \<ge> 127 then (- ENOENT, s)
         else case parent of None \<Rightarrow> (- ENOENT, s) | Some n \<Rightarrow> link_fs n target nm s))"
proof -
  note sp = split_path_append [OF assms(1,2), of _ d, folded assms(4)]
  have none: "split_path 1023 nm = None" using last_slash_none [OF assms(1)] by (simp add: split_path_def)
  have s1: "split_path 1023 path = Some (if d = [] then ''/'' else d, nm)" using sp [of 1023] assms(3) by simp
  have s2: "split_path 127 path = (if length d \<ge> 127 then None else Some (if d = [] then ''/'' else d, nm))"
    using sp [of 127] by auto
  show ?thesis unfolding assms(5)
    by (auto simp: vfs_unlink_def vfs_mkdir_def vfs_link_def s1 s2 none)
qed

lemma vfs_acts_on_last_component_witness:
  "vfs_unlink True None (Some ''/a'') demo_vfs = (- EPERM, demo_vfs)"
  using vfs_acts_on_last_component [of "''a''" "[]" "''/a''" _ None demo_vfs 0 "[]" demo_root, OF _ _ _ _ refl]
  by (simp add: vfs_lookup_def demo_vfs_def unlink_fs_def demo_root_def is_dir_def FS_DIRECTORY_def)

end
