(* ===== verification/Net.thy ===== *)
theory Net
  imports Prelude "HOL-Library.Monad_Syntax"
begin

text \<open>
  The packet parsing of the network code: byte order (\<^verbatim>\<open>include/net/defs.h\<close>), the DHCP offer and
  option parsers (\<^verbatim>\<open>kernel/net/core/dhcp_parser.c\<close>) and the address parser
  (\<^verbatim>\<open>kernel/net/core/ip_utils.c\<close>). A packet is the list of its bytes and every access is checked: a read
  past its end is \<open>None\<close>, so that absence of out-of-bounds reads is a theorem. Offsets are sums of header
  lengths and 16-bit lengths, far below the range of \<open>size_t\<close>.
\<close>

section \<open>Byte order\<close>

definition htons :: "u16 \<Rightarrow> u16" where
  "htons v = push_bit 8 v OR drop_bit 8 v"

definition htonl :: "u32 \<Rightarrow> u32" where
  "htonl v = push_bit 24 (v AND 0xFF) OR push_bit 8 (v AND 0xFF00) OR drop_bit 8 (v AND 0xFF0000) OR
     (drop_bit 24 v AND 0xFF)"

section \<open>Checked accesses\<close>

definition get8 :: "u8 list \<Rightarrow> nat \<Rightarrow> u8 option" where
  "get8 b i = (if i < length b then Some (b ! i) else None)"

definition get16 :: "u8 list \<Rightarrow> nat \<Rightarrow> u16 option" where
  "get16 b i = do { x \<leftarrow> get8 b i; y \<leftarrow> get8 b (i + 1); Some (ucast x OR push_bit 8 (ucast y)) }"

definition get32 :: "u8 list \<Rightarrow> nat \<Rightarrow> u32 option" where
  "get32 b i = do { x \<leftarrow> get16 b i; y \<leftarrow> get16 b (i + 2); Some (ucast x OR push_bit 16 (ucast y)) }"

section \<open>DHCP offers\<close>

text \<open>\<open>Some None\<close> is the result -1, \<open>Some (Some (off, n))\<close> the result 0 with the DHCP packet at offset \<open>off\<close>
  and of length \<open>n\<close>. \<open>None\<close> as a buffer is the null pointer, \<open>out_ok\<close> says that \<open>out_dhcp\<close> is not null.\<close>

definition dhcp_parse_offer :: "u8 list option \<Rightarrow> u32 \<Rightarrow> bool \<Rightarrow> (nat \<times> nat) option option" where
  "dhcp_parse_offer buffer xid out_ok =
     (case buffer of
        None \<Rightarrow> Some None
      | Some b \<Rightarrow>
          if \<not> out_ok then Some None
          else if length b < 14 then Some None
          else do {
            eth_type \<leftarrow> get16 b 12;
            if eth_type \<noteq> htons 0x0800 then Some None
            else if length b < 14 + 20 then Some None
            else do {
              proto \<leftarrow> get8 b (14 + 9);
              if proto \<noteq> 17 then Some None
              else do {
                ver_ihl \<leftarrow> get8 b 14;
                let ip_header_len = unat (ver_ihl AND 0x0F) * 4;
                if ip_header_len < 20 then Some None
                else if length b < 14 + ip_header_len then Some None
                else do {
                  let udp_offset = 14 + ip_header_len;
                  if length b < udp_offset + 8 then Some None
                  else do {
                    dest_port \<leftarrow> get16 b (udp_offset + 2);
                    if dest_port \<noteq> htons 68 then Some None
                    else do {
                      l \<leftarrow> get16 b (udp_offset + 4);
                      let udp_len = unat (htons l);
                      if udp_len < 8 then Some None
                      else if length b < udp_offset + udp_len then Some None
                      else do {
                        let dhcp_offset = udp_offset + 8;
                        let dhcp_len = udp_len - 8;
                        if dhcp_len < 240 then Some None
                        else if length b < dhcp_offset + 240 then Some None
                        else do {
                          x \<leftarrow> get32 b (dhcp_offset + 4);
                          if x \<noteq> htonl xid then Some None
                          else do {
                            opc \<leftarrow> get8 b dhcp_offset;
                            if opc \<noteq> 2 then Some None else Some (Some (dhcp_offset, dhcp_len)) } } } } } } } } })"

section \<open>DHCP options\<close>

record dhcp_values =
  dv_mask :: u32
  dv_gw :: u32
  dv_dns :: u32

definition store_option :: "u8 list \<Rightarrow> u8 \<Rightarrow> nat \<Rightarrow> nat \<Rightarrow> dhcp_values \<Rightarrow> dhcp_values option" where
  "store_option pkt ty len d r =
     (if ty = 1 \<and> len \<ge> 4 then map_option (\<lambda>v. r\<lparr>dv_mask := v\<rparr>) (get32 pkt d)
      else if ty = 3 \<and> len \<ge> 4 then map_option (\<lambda>v. r\<lparr>dv_gw := v\<rparr>) (get32 pkt d)
      else if ty = 6 \<and> len \<ge> 4 then map_option (\<lambda>v. r\<lparr>dv_dns := v\<rparr>) (get32 pkt d)
      else Some r)"

function dhcp_option_loop :: "u8 list \<Rightarrow> nat \<Rightarrow> nat \<Rightarrow> dhcp_values \<Rightarrow> dhcp_values option" where
  "dhcp_option_loop pkt len p r =
     (if p < len then
        (case get8 pkt p of
           None \<Rightarrow> None
         | Some ty \<Rightarrow>
             if ty = 255 then Some r
             else if ty = 0 then dhcp_option_loop pkt len (p + 1) r
             else if p + 2 > len then Some r
             else (case get8 pkt (p + 1) of
                None \<Rightarrow> None
              | Some l \<Rightarrow>
                  if p + 2 + unat l > len then Some r
                  else (case store_option pkt ty (unat l) (p + 2) r of
                     None \<Rightarrow> None
                   | Some r' \<Rightarrow> dhcp_option_loop pkt len (p + 2 + unat l) r')))
      else Some r)"
  by pat_completeness auto

termination
  by (relation "measure (\<lambda>(pkt, len, p, r). len - p)") auto

declare dhcp_option_loop.simps [simp del]

text \<open>The options array starts at offset 240; \<open>args_ok\<close> says that no pointer is null. The first component is the
  return value.\<close>

definition dhcp_parse_options :: "u8 list \<Rightarrow> nat \<Rightarrow> bool \<Rightarrow> dhcp_values \<Rightarrow> (int \<times> dhcp_values) option" where
  "dhcp_parse_options pkt len args_ok r =
     (if \<not> args_ok then Some (-1, r)
      else if 240 \<ge> len then Some (0, r)
      else map_option (\<lambda>r'. (0, r')) (dhcp_option_loop pkt len 240 r))"

section \<open>Addresses\<close>

definition is_digit :: "char \<Rightarrow> bool" where
  "is_digit c \<longleftrightarrow> 48 \<le> (of_char c :: nat) \<and> (of_char c :: nat) \<le> 57"

fun aton_digits :: "string \<Rightarrow> nat \<Rightarrow> nat \<Rightarrow> (nat \<times> nat \<times> string) option" where
  "aton_digits [] part digits = Some (part, digits, [])"
| "aton_digits (c # cs) part digits =
     (if is_digit c then
        if digits > 2 then None
        else aton_digits cs (add32 (mul32 part 10) (of_char c - 48)) (digits + 1)
      else Some (part, digits, c # cs))"

text \<open>The loop over the octets from octet \<open>i\<close> on; \<open>n\<close> are left.\<close>

fun aton_loop :: "nat \<Rightarrow> nat \<Rightarrow> string \<Rightarrow> u32 \<Rightarrow> u32" where
  "aton_loop 0 i cp val = (if cp \<noteq> [] then 0 else val)"
| "aton_loop (Suc n) i cp val =
     (case aton_digits cp 0 0 of
        None \<Rightarrow> 0
      | Some (part, digits, cp1) \<Rightarrow>
          if digits = 0 then 0
          else if part > 255 then 0
          else
            let val1 = val OR push_bit (i * 8) (word_of_nat part) in
            if i < 3 then
              (if cp1 = [] \<or> hd cp1 \<noteq> CHR ''.'' then 0 else aton_loop n (Suc i) (tl cp1) val1)
            else aton_loop n (Suc i) cp1 val1)"

definition ip_aton :: "string \<Rightarrow> u32" where
  "ip_aton cp = aton_loop 4 0 cp 0"

section \<open>Lemmas\<close>

lemma get_inside:
  "i < length b \<Longrightarrow> get8 b i = Some (b ! i)"
  "i + 1 < length b \<Longrightarrow> \<exists>v. get16 b i = Some v"
  "i + 3 < length b \<Longrightarrow> \<exists>v. get32 b i = Some v"
  by (simp_all add: get8_def get16_def get32_def)

lemma store_option_inside: "d + len \<le> length pkt \<Longrightarrow> store_option pkt ty len d r \<noteq> None"
  using get_inside(3) [of d pkt] by (auto simp: store_option_def)

lemma dhcp_option_loop_safe: "len \<le> length pkt \<Longrightarrow> dhcp_option_loop pkt len p r \<noteq> None"
proof (induction "len - p" arbitrary: p r rule: less_induct)
  case less
  have "store_option pkt (pkt ! p) (unat (pkt ! (p + 1))) (p + 2) r \<noteq> None" if "p + 2 + unat (pkt ! (p + 1)) \<le> len"
    using that less.prems by (intro store_option_inside) simp
  moreover have "dhcp_option_loop pkt len q u \<noteq> None" if "p < q" "p < len" for q u
    using that less.prems by (intro less.hyps) simp_all
  ultimately show ?case
    using less.prems by (subst dhcp_option_loop.simps) (auto simp: get8_def split: option.split)
qed

text \<open>Options as data.\<close>

datatype dhcp_option = Pad | Opt u8 "u8 list"

fun encode_option :: "dhcp_option \<Rightarrow> u8 list" where
  "encode_option Pad = [0]"
| "encode_option (Opt ty ds) = ty # word_of_nat (length ds) # ds"

definition option_ok :: "dhcp_option \<Rightarrow> bool" where
  "option_ok x = (case x of Pad \<Rightarrow> True | Opt ty ds \<Rightarrow> ty \<noteq> 0 \<and> ty \<noteq> 255 \<and> length ds < 256)"

text \<open>The little-endian number in the first four bytes.\<close>

definition first4 :: "u8 list \<Rightarrow> u32" where
  "first4 ds = the (get32 ds 0)"

fun apply_option :: "dhcp_option \<Rightarrow> dhcp_values \<Rightarrow> dhcp_values" where
  "apply_option Pad r = r"
| "apply_option (Opt ty ds) r =
     (if length ds < 4 then r
      else if ty = 1 then r\<lparr>dv_mask := first4 ds\<rparr>
      else if ty = 3 then r\<lparr>dv_gw := first4 ds\<rparr>
      else if ty = 6 then r\<lparr>dv_dns := first4 ds\<rparr>
      else r)"

lemma get_shift: "length ds \<ge> 4 \<Longrightarrow> get32 (pre @ ds @ post) (length pre) = Some (first4 ds)"
proof -
  assume "length ds \<ge> 4"
  then obtain a b c d rest where "ds = a # b # c # d # rest" by (auto simp: numeral_eq_Suc Suc_le_length_iff)
  then show ?thesis by (simp add: first4_def get32_def get16_def get8_def nth_append)
qed

lemma dhcp_option_loop_encoded:
  assumes "\<forall>x \<in> set os. option_ok x" "post = [] \<or> hd post = 255" "pkt = pre @ concat (map encode_option os) @ post"
  shows "dhcp_option_loop pkt (length pkt) (length pre) r = Some (fold apply_option os r)"
  using assms
proof (induction os arbitrary: pre r)
  case Nil
  then show ?case by (subst dhcp_option_loop.simps) (auto simp: get8_def nth_append hd_conv_nth)
next
  case (Cons x os)
  have IH: "dhcp_option_loop pkt (length pkt) (length (pre @ encode_option x)) r' = Some (fold apply_option os r')" for r'
    using Cons.prems by (intro Cons.IH) simp_all
  show ?case
  proof (cases x)
    case Pad
    have "get8 pkt (length pre) = Some 0" "length pre < length pkt"
      using Cons.prems(3) Pad by (simp_all add: get8_def nth_append)
    then show ?thesis using IH [of r] Pad by (subst dhcp_option_loop.simps) simp
  next
    case (Opt ty ds)
    have ok: "ty \<noteq> 0" "ty \<noteq> 255" "length ds < 256" using Cons.prems(1) Opt by (auto simp: option_ok_def)
    have l: "unat (word_of_nat (length ds) :: u8) = length ds" using ok(3) by (simp add: unat_of_nat)
    have pkt: "pkt = (pre @ [ty, word_of_nat (length ds)]) @ ds @ concat (map encode_option os) @ post"
      using Cons.prems(3) Opt by simp
    have g: "get8 pkt (length pre) = Some ty" "get8 pkt (length pre + 1) = Some (word_of_nat (length ds))"
      "length pre + 2 + length ds \<le> length pkt" using pkt by (simp_all add: get8_def nth_append)
    have "get32 pkt (length pre + 2) = Some (first4 ds)" if "length ds \<ge> 4"
      using get_shift [OF that, of "pre @ [ty, word_of_nat (length ds)]"] pkt by simp
    then have st: "store_option pkt ty (length ds) (length pre + 2) r = Some (apply_option x r)"
      using Opt by (auto simp: store_option_def)
    show ?thesis using g ok st l IH [of "apply_option x r"] Opt
      by (subst dhcp_option_loop.simps) simp
  qed
qed

section \<open>Properties\<close>

lemma dhcp_parse_offer_spec:
  "dhcp_parse_offer (Some b) xid True = Some None \<or>
   (\<exists>off n. dhcp_parse_offer (Some b) xid True = Some (Some (off, n)) \<and> off + n \<le> length b \<and> 240 \<le> n \<and>
      b ! off = 2 \<and> get32 b (off + 4) = Some (htonl xid))"
  by (auto simp: dhcp_parse_offer_def get32_def get16_def get8_def Let_def)


text \<open>C38: the DHCP parsers never read outside the packet and always end, whatever the packet contains: the offer
  parser either rejects it or returns a payload that lies inside it, holds the 240 fixed bytes, has operation code 2 and
  the expected transaction number; and the option parser, given any length within the packet, returns.\<close>
theorem dhcp_parsers_stay_inside:
  "(dhcp_parse_offer (Some b) xid True = Some None \<or>
    (\<exists>off n. dhcp_parse_offer (Some b) xid True = Some (Some (off, n)) \<and> off + n \<le> length b \<and> 240 \<le> n \<and>
       b ! off = 2 \<and> get32 b (off + 4) = Some (htonl xid))) \<and>
   (len \<le> length pkt \<longrightarrow> (\<exists>r'. dhcp_parse_options pkt len True r = Some (0, r')))"
proof (intro conjI impI)
  assume "len \<le> length pkt"
  then show "\<exists>r'. dhcp_parse_options pkt len True r = Some (0, r')"
    using dhcp_option_loop_safe [of len pkt 240 r] by (auto simp: dhcp_parse_options_def)
qed (rule dhcp_parse_offer_spec)

theorem dhcp_parsers_stay_inside_witness:
  "\<exists>r'. dhcp_parse_options (replicate 250 7) 250 True \<lparr>dv_mask = 0, dv_gw = 0, dv_dns = 0\<rparr> = Some (0, r')"
  using dhcp_parsers_stay_inside [of "[]" 0 250 "replicate 250 7"] by simp

text \<open>option parsing is the inverse of option encoding. For a packet made of 240 fixed bytes, any options
  and padding, and then the end of the packet or the end marker followed by anything, the parser returns the mask, gateway
  and name server of the last option of each kind that has at least four bytes.\<close>
lemma dhcp_parse_options_roundtrip:
  assumes "length fixed = 240" "\<forall>x \<in> set os. option_ok x" "post = [] \<or> hd post = 255"
    and "pkt = fixed @ concat (map encode_option os) @ post"
  shows "dhcp_parse_options pkt (length pkt) True r = Some (0, fold apply_option os r)"
proof (cases "240 < length pkt")
  case True
  then show ?thesis using dhcp_option_loop_encoded [OF assms(2,3,4), of r] assms(1) by (simp add: dhcp_parse_options_def)
next
  case False
  then have "concat (map encode_option os) = []" using assms(1,4) by simp
  then have "os = []" by (cases os; cases "hd os") auto
  then show ?thesis using False by (simp add: dhcp_parse_options_def)
qed

lemma dhcp_parse_options_roundtrip_witness:
  "\<exists>r. dhcp_parse_options (replicate 240 0 @ [0, 1, 4, 255, 255, 255, 0, 3, 4, 10, 0, 0, 1, 255]) 254 True
     \<lparr>dv_mask = 0, dv_gw = 0, dv_dns = 0\<rparr> = Some (0, r) \<and> dv_mask r = 0x00FFFFFF \<and> dv_gw r = 0x0100000A"
  using dhcp_parse_options_roundtrip [of "replicate 240 0" "[Pad, Opt 1 [255, 255, 255, 0], Opt 3 [10, 0, 0, 1]]" "[255]"]
  by (simp add: option_ok_def first4_def get32_def get16_def get8_def)

section \<open>Dotted addresses\<close>

definition digit_value :: "nat list \<Rightarrow> nat" where
  "digit_value ds = foldl (\<lambda>v d. v * 10 + d) 0 ds"

definition digit_string :: "nat list \<Rightarrow> string" where
  "digit_string ds = map (\<lambda>d. char_of (48 + d)) ds"

definition octet_ok :: "nat list \<Rightarrow> bool" where
  "octet_ok ds \<longleftrightarrow> 1 \<le> length ds \<and> length ds \<le> 3 \<and> (\<forall>d \<in> set ds. d < 10) \<and> digit_value ds \<le> 255"

definition dotted :: "nat list \<Rightarrow> nat list \<Rightarrow> nat list \<Rightarrow> nat list \<Rightarrow> string" where
  "dotted a b c d = digit_string a @ CHR ''.'' # digit_string b @ CHR ''.'' # digit_string c @ CHR ''.'' # digit_string d"

lemma digit_char: "d < 10 \<Longrightarrow> is_digit (char_of (48 + d)) \<and> (of_char (char_of (48 + d)) :: nat) = 48 + d"
  by (simp add: is_digit_def of_char_of)

lemma aton_digits_append:
  assumes "\<forall>d \<in> set ds. d < 10" "k + length ds \<le> 3" "v < 10 ^ k" "rest = [] \<or> \<not> is_digit (hd rest)"
  shows "aton_digits (digit_string ds @ rest) v k = Some (foldl (\<lambda>v d. v * 10 + d) v ds, k + length ds, rest)"
  using assms
proof (induction ds arbitrary: v k)
  case Nil
  then show ?case by (cases rest) (simp_all add: digit_string_def)
next
  case (Cons d ds)
  have d: "d < 10" using Cons.prems(1) by simp
  have k: "k \<le> 2" using Cons.prems(2) by simp
  have v: "v * 10 + d < 10 ^ Suc k" using Cons.prems(3) d by simp
  also have "(10::nat) ^ Suc k \<le> 10 ^ 3" using k by (intro power_increasing) simp_all
  finally have "add32 (mul32 v 10) d = v * 10 + d" by (simp add: wrap_simps)
  moreover have "aton_digits (digit_string ds @ rest) (v * 10 + d) (Suc k) =
      Some (foldl (\<lambda>v d. v * 10 + d) (v * 10 + d) ds, Suc k + length ds, rest)"
    using Cons.prems v by (intro Cons.IH) simp_all
  ultimately show ?case using digit_char [OF d] k by (simp add: digit_string_def)
qed

lemma aton_digits_inv:
  assumes "aton_digits cp v k = Some (part, n, rest)" "v < 10 ^ k" "k \<le> 3"
  shows "\<exists>ds. cp = digit_string ds @ rest \<and> n = k + length ds \<and> n \<le> 3 \<and> (\<forall>d \<in> set ds. d < 10) \<and>
    part = foldl (\<lambda>v d. v * 10 + d) v ds"
  using assms
proof (induction cp v k rule: aton_digits.induct)
  case (2 c cs part' digits)
  show ?case
  proof (cases "is_digit c")
    case True
    let ?d = "of_char c - 48 :: nat"
    have d: "?d < 10" "c = char_of (48 + ?d)" using True by (auto simp: is_digit_def)
    have k: "digits \<le> 2" using 2(2) True by (auto split: if_splits)
    have v: "part' * 10 + ?d < 10 ^ Suc digits" using 2(3) d(1) by simp
    also have "(10::nat) ^ Suc digits \<le> 10 ^ 3" using k by (intro power_increasing) simp_all
    finally have a: "add32 (mul32 part' 10) ?d = part' * 10 + ?d" by (simp add: wrap_simps)
    obtain ds where "cs = digit_string ds @ rest" "n = Suc digits + length ds" "n \<le> 3" "\<forall>d \<in> set ds. d < 10"
      "part = foldl (\<lambda>v d. v * 10 + d) (part' * 10 + ?d) ds"
      using 2(1) [OF True] 2(2) True k v a by auto
    then show ?thesis using d by (intro exI [of _ "?d # ds"]) (simp add: digit_string_def)
  next
    case False
    then show ?thesis using 2(2,4) by (intro exI [of _ "[]"]) (simp add: digit_string_def)
  qed
qed (intro exI [of _ "[]"], simp add: digit_string_def)

lemma aton_octet:
  assumes "octet_ok ds" "rest = [] \<or> \<not> is_digit (hd rest)"
  shows "aton_digits (digit_string ds @ rest) 0 0 = Some (digit_value ds, length ds, rest)"
  using aton_digits_append [of ds 0 0 rest] assms by (simp add: octet_ok_def digit_value_def)

lemma aton_loop_octet:
  assumes "octet_ok ds"
  shows "i < 3 \<Longrightarrow> aton_loop (Suc n) i (digit_string ds @ CHR ''.'' # r) val =
      aton_loop n (Suc i) r (val OR push_bit (i * 8) (word_of_nat (digit_value ds)))"
    and "aton_loop (Suc n) 3 (digit_string ds) val =
      aton_loop n 4 [] (val OR push_bit 24 (word_of_nat (digit_value ds)))"
  using aton_octet [OF assms, of "CHR ''.'' # r"] aton_octet [OF assms, of "[]"] assms
  by (auto simp: octet_ok_def is_digit_def Let_def)

lemma aton_loop_inv:
  assumes "aton_loop (Suc n) i cp val \<noteq> 0"
  obtains ds r v where "octet_ok ds" "cp = digit_string ds @ (if i < 3 then CHR ''.'' # r else r)"
    "aton_loop n (Suc i) r v \<noteq> 0"
proof -
  obtain part k cp1 where a: "aton_digits cp 0 0 = Some (part, k, cp1)"
    using assms by (cases "aton_digits cp 0 0") auto
  obtain ds where ds: "cp = digit_string ds @ cp1" "k = length ds" "k \<le> 3" "\<forall>d \<in> set ds. d < 10" "part = digit_value ds"
    using aton_digits_inv [OF a] by (auto simp: digit_value_def)
  have k: "k \<noteq> 0" "part \<le> 255" using assms a by (auto split: if_splits)
  then have "octet_ok ds" using ds by (simp add: octet_ok_def Suc_le_eq)
  then show thesis using that [of ds "if i < 3 then tl cp1 else cp1"] assms a k ds(1)
    by (cases cp1) (auto simp: Let_def split: if_splits)
qed

lemma aton_loop_end: "aton_loop 0 i cp val \<noteq> 0 \<Longrightarrow> cp = []"
  by (auto split: if_splits)

text \<open>the address parser accepts exactly the dotted addresses of four octets of one to three digits with value
  at most 255: for these it returns the four values as the bytes of a little-endian word, and a nonzero result means
  that the whole string has this form.\<close>
lemma ip_aton_correct:
  "(\<forall>a b c d. octet_ok a \<and> octet_ok b \<and> octet_ok c \<and> octet_ok d \<longrightarrow>
      ip_aton (dotted a b c d) = word_of_nat (digit_value a) OR push_bit 8 (word_of_nat (digit_value b)) OR
        push_bit 16 (word_of_nat (digit_value c)) OR push_bit 24 (word_of_nat (digit_value d))) \<and>
   (ip_aton s \<noteq> 0 \<longrightarrow> (\<exists>a b c d. octet_ok a \<and> octet_ok b \<and> octet_ok c \<and> octet_ok d \<and> s = dotted a b c d))"
proof (intro conjI allI impI; (elim conjE)?)
  fix a b c d
  assume ok: "octet_ok a" "octet_ok b" "octet_ok c" "octet_ok d"
  have four: "4 = Suc (Suc (Suc (Suc 0)))" by simp
  show "ip_aton (dotted a b c d) = word_of_nat (digit_value a) OR push_bit 8 (word_of_nat (digit_value b)) OR
      push_bit 16 (word_of_nat (digit_value c)) OR push_bit 24 (word_of_nat (digit_value d))"
    unfolding ip_aton_def dotted_def four
    using aton_loop_octet(1) [OF ok(1), of 0] aton_loop_octet(1) [OF ok(2), of 1] aton_loop_octet(1) [OF ok(3), of 2]
      aton_loop_octet(2) [OF ok(4), of 0]
    by (simp add: numeral_2_eq_2 numeral_3_eq_3 or.assoc)
next
  assume "ip_aton s \<noteq> 0"
  then have "aton_loop (Suc 3) 0 s 0 \<noteq> 0" by (simp add: ip_aton_def)
  then obtain a r1 v1 where a: "octet_ok a" "s = digit_string a @ CHR ''.'' # r1" "aton_loop 3 1 r1 v1 \<noteq> 0"
    by (elim aton_loop_inv) simp
  then have "aton_loop (Suc 2) 1 r1 v1 \<noteq> 0" by simp
  then obtain b r2 v2 where b: "octet_ok b" "r1 = digit_string b @ CHR ''.'' # r2" "aton_loop 2 2 r2 v2 \<noteq> 0"
    by (elim aton_loop_inv) (simp add: numeral_2_eq_2)
  then have "aton_loop (Suc 1) 2 r2 v2 \<noteq> 0" by (simp add: numeral_2_eq_2)
  then obtain c r3 v3 where c: "octet_ok c" "r2 = digit_string c @ CHR ''.'' # r3" "aton_loop 1 3 r3 v3 \<noteq> 0"
    by (elim aton_loop_inv) (simp add: numeral_3_eq_3)
  then have "aton_loop (Suc 0) 3 r3 v3 \<noteq> 0" by simp
  then obtain d r4 v4 where d: "octet_ok d" "r3 = digit_string d @ r4" "aton_loop 0 4 r4 v4 \<noteq> 0"
    by (elim aton_loop_inv) simp
  have "r4 = []" by (rule aton_loop_end [OF d(3)])
  then have "s = dotted a b c d" using a(2) b(2) c(2) d(2) by (simp add: dotted_def)
  then show "\<exists>a b c d. octet_ok a \<and> octet_ok b \<and> octet_ok c \<and> octet_ok d \<and> s = dotted a b c d"
    using a(1) b(1) c(1) d(1) by blast
qed

lemma ip_aton_correct_witness: "ip_aton ''1.2.3.45'' = 0x2D030201"
proof -
  have ok: "octet_ok [1] \<and> octet_ok [2] \<and> octet_ok [3] \<and> octet_ok [4, 5]" by (simp add: octet_ok_def digit_value_def)
  have s: "dotted [1] [2] [3] [4, 5] = ''1.2.3.45''" by (simp add: dotted_def digit_string_def char_of_def bit_0)
  show ?thesis
    using ip_aton_correct [of "[]", THEN conjunct1, rule_format, OF ok] unfolding s by (simp add: digit_value_def)
qed

end
