(* ===== verification/Convert.thy ===== *)
theory Convert
  imports Prelude
begin

text \<open>
  The conversions between numbers and strings of \<^verbatim>\<open>kernel/string.c\<close>: \<open>atoi\<close>, \<open>atoi_s\<close>, \<open>itoa_s\<close>
  and \<open>utoa_hex_s\<close>. A C string is a character list without its terminating zero; the result of a
  function that prints is the string it leaves in the buffer. Signed arithmetic that overflows, a
  division by zero and a write before the temporary array are \<open>Inl\<close>.
\<close>

section \<open>Reading numbers\<close>

abbreviation (input) "INT32_MAX \<equiv> (2147483647 :: int)"
abbreviation (input) "INT32_MIN \<equiv> (- 2147483648 :: int)"

definition is_space :: "char \<Rightarrow> bool" where
  "is_space c \<longleftrightarrow> c = CHR '' '' \<or> 9 \<le> (of_char c :: nat) \<and> (of_char c :: nat) \<le> 13"

definition is_dec :: "char \<Rightarrow> bool" where
  "is_dec c \<longleftrightarrow> 48 \<le> (of_char c :: nat) \<and> (of_char c :: nat) \<le> 57"

definition dec_value :: "char \<Rightarrow> int" where
  "dec_value c = int (of_char c) - 48"

text \<open>The optional sign after the white space.\<close>

definition read_sign :: "string \<Rightarrow> int \<times> string" where
  "read_sign str =
     (case str of
        c # cs \<Rightarrow> if c = CHR ''-'' then (-1, cs) else if c = CHR ''+'' then (1, cs) else (1, str)
      | [] \<Rightarrow> (1, []))"

definition fits_int32 :: "int \<Rightarrow> bool" where
  "fits_int32 v \<longleftrightarrow> INT32_MIN \<le> v \<and> v \<le> INT32_MAX"

fun atoi_digits :: "string \<Rightarrow> int \<Rightarrow> panic + int" where
  "atoi_digits [] res = Inr res"
| "atoi_digits (c # cs) res =
     (if is_dec c then
        if fits_int32 (res * 10) \<and> fits_int32 (res * 10 + dec_value c) then atoi_digits cs (res * 10 + dec_value c)
        else Inl (Panic ''signed overflow'')
      else Inr res)"

definition atoi :: "string \<Rightarrow> panic + int" where
  "atoi str =
     (case read_sign (dropWhile is_space str) of
        (sign, cs) \<Rightarrow>
          (case atoi_digits cs 0 of
             Inl e \<Rightarrow> Inl e
           | Inr res \<Rightarrow> Inr (sign * res)))"

text \<open>The digit loop of \<open>atoi_s\<close>; \<open>Inl\<close> is the early return.\<close>

fun atoi_s_digits :: "int \<Rightarrow> string \<Rightarrow> int \<Rightarrow> int + int \<times> string" where
  "atoi_s_digits sign [] res = Inr (res, [])"
| "atoi_s_digits sign (c # cs) res =
     (if is_dec c then
        let res = res * 10 + dec_value c in
        if sign = 1 \<and> res > INT32_MAX then Inl (-2)
        else if sign = -1 \<and> - res < INT32_MIN then Inl (-2)
        else atoi_s_digits sign cs res
      else Inr (res, c # cs))"

text \<open>Result: the return value and what is stored through \<open>out\<close>.\<close>

definition atoi_s :: "string option \<Rightarrow> bool \<Rightarrow> int \<times> int option" where
  "atoi_s str out =
     (case str of
        None \<Rightarrow> (-1, None)
      | Some s \<Rightarrow>
          if \<not> out then (-1, None)
          else case read_sign (dropWhile is_space s) of
            (sign, cs) \<Rightarrow>
              if cs = [] then (-1, None)
              else case atoi_s_digits sign cs 0 of
                Inl e \<Rightarrow> (e, None)
              | Inr (res, rest) \<Rightarrow> if rest \<noteq> [] then (-3, None) else (0, Some (sign * res)))"

section \<open>Printing numbers\<close>

text \<open>The loop that fills \<open>temp\<close> from the end: \<open>i\<close> is the free place below the digits written so far;
  a write below the array is \<open>None\<close>.\<close>

fun itoa_fill :: "(u64 \<Rightarrow> char) \<Rightarrow> (u64 \<Rightarrow> u64) \<Rightarrow> nat \<Rightarrow> u64 \<Rightarrow> string \<Rightarrow> (nat \<times> string) option" where
  "itoa_fill digit nxt 0 uvalue temp = (if uvalue \<noteq> 0 then None else Some (0, temp))"
| "itoa_fill digit nxt (Suc i) uvalue temp =
     (if uvalue \<noteq> 0 then itoa_fill digit nxt i (nxt uvalue) (digit uvalue # temp) else Some (Suc i, temp))"

definition hex_chars :: string where
  "hex_chars = ''0123456789ABCDEF''"

text \<open>The digit of the general loop, with the conversions of the remainder to \<open>int\<close> and to \<open>char\<close>.\<close>

definition base_digit :: "u64 \<Rightarrow> u64 \<Rightarrow> char" where
  "base_digit base uvalue =
     (let remainder = to_int32 (unat (uvalue mod base) mod 2 ^ 32) in
      char_of (nat ((if remainder > 9 then remainder - 10 + 65 else remainder + 48) mod 256)))"

definition itoa_s :: "int \<Rightarrow> nat \<Rightarrow> int \<Rightarrow> panic + string option" where
  "itoa_s value buffer_size base =
     (if buffer_size = 0 then Inr None
      else if value = 0 then Inr (Some (if buffer_size > 1 then ''0'' else ''''))
      else
        let is_negative = (value < 0 \<and> base = 10);
            uvalue = (if is_negative then - word_of_int value else word_of_int value) :: u64;
            filled =
              (if base = 10 then itoa_fill (\<lambda>u. char_of (48 + unat (u mod 10))) (\<lambda>u. u div 10) 64 uvalue []
               else if base = 16 then itoa_fill (\<lambda>u. hex_chars ! unat (u AND 0xF)) (drop_bit 4) 64 uvalue []
               else if base = 0 then None
               else itoa_fill (base_digit (word_of_int base)) (\<lambda>u. u div word_of_int base) 64 uvalue [])
        in case filled of
             None \<Rightarrow> Inl (Panic ''temp underflow or division by zero'')
           | Some (i, temp) \<Rightarrow>
               if is_negative \<and> i = 0 then Inl (Panic ''temp underflow'')
               else
                 let temp = (if is_negative then CHR ''-'' # temp else temp);
                     len = length temp
                 in Inr (Some (take (if len \<ge> buffer_size then buffer_size - 1 else len) temp)))"

text \<open>The unrolled sequence of guarded writes of \<open>utoa_hex_s\<close>.\<close>

definition put_char :: "nat \<Rightarrow> string \<Rightarrow> char \<Rightarrow> string" where
  "put_char buffer_size buf c = (if length buf < buffer_size - 1 then buf @ [c] else buf)"

definition hex_digit_at :: "u64 \<Rightarrow> nat \<Rightarrow> char" where
  "hex_digit_at value s = hex_chars ! unat (drop_bit s value AND 0xF)"

definition utoa_hex_s :: "u64 \<Rightarrow> nat \<Rightarrow> string option" where
  "utoa_hex_s value buffer_size =
     (if buffer_size = 0 then None
      else if buffer_size = 1 then Some ''''
      else Some (foldl (put_char buffer_size) ''''
        (''0x'' @ map (hex_digit_at value) [60, 56, 52, 48, 44, 40, 36, 32, 28, 24, 20, 16, 12, 8, 4, 0])))"

section \<open>Reading: the reference\<close>

fun digits_value :: "int \<Rightarrow> string \<Rightarrow> int" where
  "digits_value v [] = v"
| "digits_value v (c # cs) = digits_value (v * 10 + dec_value c) cs"

lemma dec_value_bounds: "is_dec c \<Longrightarrow> 0 \<le> dec_value c \<and> dec_value c \<le> 9"
  unfolding is_dec_def dec_value_def by linarith

lemma digits_value_mono: "0 \<le> v \<Longrightarrow> \<forall>c \<in> set ds. is_dec c \<Longrightarrow> v \<le> digits_value v ds"
proof (induction ds arbitrary: v)
  case (Cons c cs)
  then have "0 \<le> dec_value c" using dec_value_bounds by simp
  then show ?case using Cons.IH [of "v * 10 + dec_value c"] Cons.prems by force
qed simp

lemma atoi_s_digits_spec:
  assumes "sign = 1 \<or> sign = -1" "\<forall>c \<in> set ds. is_dec c" "rest = [] \<or> \<not> is_dec (hd rest)" "0 \<le> v" "fits_int32 (sign * v)"
  shows "atoi_s_digits sign (ds @ rest) v =
    (if fits_int32 (sign * digits_value v ds) then Inr (digits_value v ds, rest) else Inl (-2))"
  using assms(2,4,5)
proof (induction ds arbitrary: v)
  case Nil
  then show ?case using assms(3) by (cases rest) auto
next
  case (Cons c cs)
  define w where "w = v * 10 + dec_value c"
  have w: "0 \<le> w" using Cons.prems dec_value_bounds [of c] by (simp add: w_def)
  have m: "w \<le> digits_value w cs" using digits_value_mono [OF w] Cons.prems by simp
  show ?case
  proof (cases "fits_int32 (sign * w)")
    case True
    then show ?thesis
      using Cons.IH [OF _ w True] Cons.prems assms(1) by (auto simp: w_def [symmetric] Let_def fits_int32_def)
  next
    case False
    then have "\<not> fits_int32 (sign * digits_value w cs)" using m w assms(1) by (auto simp: fits_int32_def)
    then show ?thesis using False Cons.prems w assms(1) by (auto simp: w_def [symmetric] Let_def fits_int32_def)
  qed
qed

text \<open>A number as written: white space, a sign, digits and what follows them.\<close>

definition sign_of :: "string \<Rightarrow> int" where
  "sign_of sg = (if sg = ''-'' then -1 else 1)"

definition number_text :: "string \<Rightarrow> string \<Rightarrow> string \<Rightarrow> string \<Rightarrow> bool" where
  "number_text ws sg ds rest \<longleftrightarrow> (\<forall>c \<in> set ws. is_space c) \<and> sg \<in> {[], ''-'', ''+''} \<and>
     ds \<noteq> [] \<and> (\<forall>c \<in> set ds. is_dec c) \<and> (rest = [] \<or> \<not> is_dec (hd rest))"

lemma dec_not_special: "is_dec c \<Longrightarrow> \<not> is_space c \<and> c \<noteq> CHR ''-'' \<and> c \<noteq> CHR ''+''"
  by (auto simp: is_dec_def is_space_def)

lemma sign_not_space: "\<not> is_space (CHR ''-'')" "\<not> is_space (CHR ''+'')"
  by (simp_all add: is_space_def)

lemma read_sign_number:
  assumes "number_text ws sg ds rest"
  shows "read_sign (dropWhile is_space (ws @ sg @ ds @ rest)) = (sign_of sg, ds @ rest)"
proof -
  obtain d ds' where d: "ds = d # ds'" "is_dec d" using assms by (cases ds) (auto simp: number_text_def)
  have "dropWhile is_space (ws @ xs) = dropWhile is_space xs" for xs
    using assms by (simp add: number_text_def dropWhile_append2)
  moreover have "dropWhile is_space (sg @ ds @ rest) = sg @ ds @ rest"
    using assms d dec_not_special sign_not_space by (auto simp: number_text_def)
  moreover have "read_sign (sg @ ds @ rest) = (sign_of sg, ds @ rest)"
    using assms d dec_not_special by (auto simp: number_text_def read_sign_def sign_of_def)
  ultimately show ?thesis by simp
qed

lemma atoi_s_spec:
  assumes "number_text ws sg ds rest"
  shows "atoi_s (Some (ws @ sg @ ds @ rest)) True =
    (if \<not> fits_int32 (sign_of sg * digits_value 0 ds) then (-2, None)
     else if rest \<noteq> [] then (-3, None)
     else (0, Some (sign_of sg * digits_value 0 ds)))"
proof -
  have "atoi_s_digits (sign_of sg) (ds @ rest) 0 = (if fits_int32 (sign_of sg * digits_value 0 ds)
      then Inr (digits_value 0 ds, rest) else Inl (-2))"
    using assms by (intro atoi_s_digits_spec) (auto simp: number_text_def sign_of_def fits_int32_def)
  then show ?thesis using read_sign_number [OF assms] assms by (auto simp: atoi_s_def number_text_def)
qed

text \<open>\<open>atoi\<close> and \<open>atoi_s\<close> agree on a number whose absolute value fits.\<close>

lemma atoi_digits_spec:
  "\<forall>c \<in> set ds. is_dec c \<Longrightarrow> rest = [] \<or> \<not> is_dec (hd rest) \<Longrightarrow> 0 \<le> v \<Longrightarrow> v \<le> INT32_MAX \<Longrightarrow>
     atoi_digits (ds @ rest) v = (if digits_value v ds \<le> INT32_MAX then Inr (digits_value v ds) else Inl (Panic ''signed overflow''))"
proof (induction ds arbitrary: v)
  case Nil
  then show ?case by (cases rest) auto
next
  case (Cons c cs)
  define w where "w = v * 10 + dec_value c"
  have w: "0 \<le> w" "v * 10 \<le> w" using Cons.prems dec_value_bounds [of c] by (simp_all add: w_def)
  have m: "w \<le> digits_value w cs" using digits_value_mono [OF w(1)] Cons.prems by simp
  show ?case using Cons.IH [of w] Cons.prems w m by (auto simp: w_def [symmetric] fits_int32_def)
qed

lemma atoi_spec:
  assumes "number_text ws sg ds rest"
  shows "atoi (ws @ sg @ ds @ rest) = (if digits_value 0 ds \<le> INT32_MAX
    then Inr (sign_of sg * digits_value 0 ds) else Inl (Panic ''signed overflow''))"
  using read_sign_number [OF assms] atoi_digits_spec [of ds rest 0] assms by (simp add: atoi_def number_text_def)

section \<open>Printing: the reference\<close>

definition digit_char :: "nat \<Rightarrow> char" where
  "digit_char d = char_of (if d > 9 then d + 55 else d + 48)"

function base_string :: "nat \<Rightarrow> nat \<Rightarrow> string" where
  "base_string b n = (if b < 2 \<or> n < b then [digit_char n] else base_string b (n div b) @ [digit_char (n mod b)])"
  by pat_completeness auto
termination by (relation "measure snd") auto

declare base_string.simps [simp del]

definition show_number :: "int \<Rightarrow> int \<Rightarrow> string" where
  "show_number base v =
     (if base = 10 \<and> v < 0 then CHR ''-'' # base_string 10 (nat (- v)) else base_string (nat base) (nat (v mod 2 ^ 64)))"

lemma length_base_string: "2 \<le> b \<Longrightarrow> n < b ^ k \<Longrightarrow> 0 < k \<Longrightarrow> length (base_string b n) \<le> k"
proof (induction k arbitrary: n)
  case (Suc k)
  show ?case
  proof (cases "n < b")
    case True
    then show ?thesis by (simp add: base_string.simps [of b n])
  next
    case False
    then have "k > 0" using Suc.prems by (cases k) auto
    moreover have "n div b < b ^ k" using Suc.prems by (simp add: less_mult_imp_div_less mult.commute)
    ultimately show ?thesis using Suc.IH [of "n div b"] Suc.prems(1) False by (simp add: base_string.simps [of b n])
  qed
qed simp

lemma itoa_fill_zero: "itoa_fill digit nxt i 0 temp = Some (i, temp)"
  by (cases i) auto

lemma itoa_fill_spec:
  assumes b: "2 \<le> b" and d: "\<And>u. digit u = digit_char (unat u mod b)" and n: "\<And>u. unat (nxt u) = unat u div b"
  shows "u \<noteq> 0 \<Longrightarrow> unat u < 2 ^ i \<Longrightarrow>
    itoa_fill digit nxt i u temp = Some (i - length (base_string b (unat u)), base_string b (unat u) @ temp)"
proof (induction i arbitrary: u temp)
  case 0
  then show ?case by (simp add: unat_eq_zero)
next
  case (Suc i)
  show ?case
  proof (cases "unat u < b")
    case True
    then have "unat (nxt u) = 0" using n by simp
    then have "nxt u = 0" by (simp add: unat_eq_zero)
    then show ?thesis using Suc.prems True d by (simp add: itoa_fill_zero base_string.simps [of b "unat u"])
  next
    case False
    then have "unat (nxt u) \<noteq> 0" using n [of u] b by (simp add: div_greater_zero_iff)
    then have nz: "nxt u \<noteq> 0" by auto
    have "unat u div b \<le> unat u div 2" using b by (simp add: div_le_mono2)
    then have "unat (nxt u) < 2 ^ i" using Suc.prems(2) n [of u] by simp
    then show ?thesis
      using Suc.IH [OF nz] Suc.prems(1) False b d n by (simp add: base_string.simps [of b "unat u"])
  qed
qed

lemma hex_chars_digit: "d < 16 \<Longrightarrow> hex_chars ! d = digit_char d"
proof -
  have "\<forall>d \<in> set [0..<16]. hex_chars ! d = digit_char d" by code_simp
  then show "d < 16 \<Longrightarrow> hex_chars ! d = digit_char d" by simp
qed

lemma unat_and_15: "unat (u AND 0xF :: u64) = unat u mod 16"
proof -
  have "u AND 0xF = take_bit 4 u" by (simp add: take_bit_eq_mask mask_eq_exp_minus_1)
  then show ?thesis by (simp only: unsigned_take_bit_eq) (simp add: take_bit_eq_mod)
qed

lemma dec_digit_spec: "char_of (48 + unat (u mod 10 :: u64)) = digit_char (unat u mod 10)"
proof -
  have "unat (10 :: u64) = 10" by simp
  then have "unat (u mod 10) = unat u mod 10" by (simp only: unat_mod)
  moreover have "\<not> unat u mod 10 > 9" by simp
  ultimately show ?thesis by (simp add: digit_char_def add.commute)
qed

lemma hex_digit_spec: "hex_chars ! unat (u AND 0xF :: u64) = digit_char (unat u mod 16)"
  using hex_chars_digit [of "unat u mod 16"] by (simp add: unat_and_15)

lemma base_digit_spec:
  assumes "2 \<le> b" "b \<le> 36"
  shows "base_digit (word_of_int (int b)) u = digit_char (unat u mod b)"
proof -
  have "unat (word_of_int (int b) :: u64) = b" using assms by (simp add: unat_of_nat)
  then have "unat (u mod word_of_int (int b)) = unat u mod b" by (simp add: unat_mod)
  moreover have "unat u mod b < 36" using mod_less_divisor [of b "unat u"] assms by linarith
  ultimately show ?thesis
    by (simp add: base_digit_def digit_char_def to_int32_def Let_def nat_add_distrib)
qed

lemma digit_char_0: "digit_char 0 = CHR ''0''"
  by code_simp

lemma itoa_digits_spec:
  assumes "2 \<le> b" "b \<le> 36" "u \<noteq> 0"
  shows "(if int b = 10 then itoa_fill (\<lambda>u. char_of (48 + unat (u mod 10))) (\<lambda>u. u div 10) 64 u []
          else if int b = 16 then itoa_fill (\<lambda>u. hex_chars ! unat (u AND 0xF)) (drop_bit 4) 64 u []
          else if int b = 0 then None
          else itoa_fill (base_digit (word_of_int (int b))) (\<lambda>u. u div word_of_int (int b)) 64 u []) =
    Some (64 - length (base_string b (unat u)), base_string b (unat u))"
proof -
  have u: "unat u < 2 ^ 64" using unsigned_less [of u, where 'a = nat] by simp
  have ten: "unat (u div 10 :: u64) = unat u div 10" for u by (simp only: unat_div) simp
  have hex: "unat (drop_bit 4 u :: u64) = unat u div 16" for u by (simp only: unat_drop_bit_eq) (simp add: drop_bit_eq_div)
  have "unat (word_of_int (int b) :: u64) = b" using assms by (simp add: unat_of_nat)
  then have gen: "unat (u div word_of_int (int b) :: u64) = unat u div b" for u by (simp only: unat_div)
  consider "b = 10" | "b = 16" | "b \<noteq> 10" "b \<noteq> 16" "b \<noteq> 0" using assms(1) by linarith
  then show ?thesis
  proof cases
    case 1
    then show ?thesis using itoa_fill_spec [OF assms(1) _ _ assms(3) u, of _ _ "[]"] dec_digit_spec ten by simp
  next
    case 2
    then show ?thesis using itoa_fill_spec [OF assms(1) _ _ assms(3) u, of _ _ "[]"] hex_digit_spec hex by simp
  next
    case 3
    then show ?thesis using itoa_fill_spec [OF assms(1) _ _ assms(3) u, of _ _ "[]"] base_digit_spec [OF assms(1,2)] gen by simp
  qed
qed

lemma itoa_s_spec:
  assumes "2 \<le> base" "base \<le> 36" "- (2 ^ 63) \<le> v" "v < 2 ^ 63" "0 < n"
  shows "itoa_s v n base = Inr (Some (take (n - 1) (show_number base v)))"
proof (cases "v = 0")
  case True
  have "base_string (nat base) 0 = ''0''"
    using assms(1) by (simp add: base_string.simps [of "nat base" 0] digit_char_0)
  then show ?thesis using assms(1,5) True by (auto simp: itoa_s_def show_number_def take_Cons')
next
  case False
  define u where "u = (if v < 0 \<and> base = 10 then - word_of_int v else word_of_int v :: u64)"
  define d where "d = (if v < 0 \<and> base = 10 then nat (- v) else nat (v mod 2 ^ 64))"
  have un: "unat u = d"
  proof (cases "v < 0 \<and> base = 10")
    case True
    then have "unat (word_of_int (- v) :: u64) = nat (- v)"
      using assms(3) by (simp only: unat_eq_nat_uint uint_word_of_int_eq) (simp add: take_bit_eq_mod)
    then show ?thesis using True by (simp add: u_def d_def)
  next
    case False
    then show ?thesis
      unfolding u_def d_def by (simp only: unat_eq_nat_uint uint_word_of_int_eq if_False) (simp add: take_bit_eq_mod)
  qed
  have "\<not> (2 ^ 64 dvd v)" using dvd_imp_le_int [of v "2 ^ 64"] False assms(3,4) by auto
  then have "0 < v mod 2 ^ 64" using pos_mod_sign [of "2 ^ 64" v] by (simp add: dvd_eq_mod_eq_0 less_le)
  then have "d \<noteq> 0" by (auto simp: d_def)
  then have u0: "u \<noteq> 0" using un by auto
  have b: "2 \<le> nat base" "nat base \<le> 36" "int (nat base) = base" using assms(1,2) by auto
  have len: "64 - length (base_string 10 d) \<noteq> 0" if "v < 0 \<and> base = 10"
  proof -
    have "d < 10 ^ 20" using that assms(3) by (auto simp: d_def)
    then show ?thesis using length_base_string [of 10 d 20] by simp
  qed
  have t: "take (if length s \<ge> n then n - 1 else length s) s = take (n - 1) s" for s :: string using assms(5) by auto
  show ?thesis
    unfolding itoa_s_def Let_def u_def [symmetric] itoa_digits_spec [OF b(1,2) u0, unfolded b(3)]
    using assms(5) False len un t by (auto simp: show_number_def d_def)
qed

text \<open>Reading back decimal digits.\<close>

lemma digits_value_snoc: "digits_value v (ds @ [c]) = digits_value v ds * 10 + dec_value c"
  by (induction ds arbitrary: v) auto

lemma dec_digit: "d < 10 \<Longrightarrow> is_dec (digit_char d) \<and> dec_value (digit_char d) = int d"
  by (simp add: is_dec_def dec_value_def digit_char_def of_char_of)

lemma base_string_dec:
  "(\<forall>c \<in> set (base_string 10 n). is_dec c) \<and> base_string 10 n \<noteq> [] \<and> digits_value 0 (base_string 10 n) = int n"
proof (induction n rule: less_induct)
  case (less n)
  show ?case
  proof (cases "n < 10")
    case True
    then show ?thesis using dec_digit [of n] by (simp add: base_string.simps [of 10 n])
  next
    case False
    then have "base_string 10 n = base_string 10 (n div 10) @ [digit_char (n mod 10)]"
      by (simp add: base_string.simps [of 10 n])
    moreover have "int (n div 10) * 10 + int (n mod 10) = int n" by presburger
    ultimately show ?thesis
      using less.IH [of "n div 10"] dec_digit [of "n mod 10"] False by (simp add: digits_value_snoc)
  qed
qed

lemma length_show_int32:
  assumes "fits_int32 v"
  shows "length (show_number 10 v) \<le> 11"
proof -
  have l: "length (base_string 10 m) \<le> 10" if "m \<le> 2147483648" for m using length_base_string [of 10 m 10] that by simp
  show ?thesis
  proof (cases "v < 0")
    case True
    then show ?thesis using l [of "nat (- v)"] assms by (simp add: show_number_def fits_int32_def)
  next
    case False
    then have "nat v \<le> 2147483648" "v mod 2 ^ 64 = v" using assms by (auto simp: fits_int32_def)
    then show ?thesis using l [of "nat v"] False by (simp add: show_number_def)
  qed
qed

lemma read_show_number:
  assumes "fits_int32 v"
  shows "atoi_s (Some (show_number 10 v)) True = (0, Some v)"
proof (cases "v < 0")
  case True
  have "number_text [] ''-'' (base_string 10 (nat (- v))) []"
    using base_string_dec [of "nat (- v)"] by (simp add: number_text_def)
  from atoi_s_spec [OF this] True show ?thesis
    using base_string_dec [of "nat (- v)"] assms by (simp add: show_number_def sign_of_def)
next
  case False
  have "number_text [] [] (base_string 10 (nat v)) []"
    using base_string_dec [of "nat v"] by (simp add: number_text_def)
  moreover have "v mod 2 ^ 64 = v" using assms False by (simp add: fits_int32_def)
  ultimately show ?thesis
    using atoi_s_spec [of "[]" "[]" "base_string 10 (nat v)" "[]"] base_string_dec [of "nat v"] assms False
    by (simp add: show_number_def sign_of_def)
qed

lemma foldl_put_char: "foldl (put_char n) buf cs = buf @ take (n - 1 - length buf) cs"
proof (induction cs arbitrary: buf)
  case (Cons c cs)
  show ?case
  proof (cases "length buf < n - 1")
    case True
    then have "n - 1 - length buf = Suc (n - 1 - length (buf @ [c]))" by simp
    then show ?thesis using Cons.IH [of "buf @ [c]"] True by (simp add: put_char_def)
  next
    case False
    then show ?thesis using Cons.IH [of buf] by (simp add: put_char_def)
  qed
qed simp

text \<open>The sixteen hexadecimal digits of a 64-bit value, with leading zeros.\<close>

definition hex16 :: "u64 \<Rightarrow> string" where
  "hex16 v = map (\<lambda>k. digit_char (unat v div 16 ^ k mod 16)) (rev [0..<16])"

lemma hex_digit_at_spec: "hex_digit_at v (4 * k) = digit_char (unat v div 16 ^ k mod 16)"
proof -
  have "unat (drop_bit (4 * k) v) = unat v div 16 ^ k"
    by (simp only: unat_drop_bit_eq) (simp add: drop_bit_eq_div power_mult)
  then show ?thesis using hex_digit_spec [of "drop_bit (4 * k) v"] by (simp add: hex_digit_at_def)
qed

lemma utoa_hex_s_spec:
  assumes "0 < n"
  shows "utoa_hex_s v n = Some (take (n - 1) (''0x'' @ hex16 v))"
proof -
  have l: "[60, 56, 52, 48, 44, 40, 36, 32, 28, 24, 20, 16, 12, 8, 4, 0] = map (\<lambda>k. 4 * k) (rev [0..<16])"
    by (simp add: upt_rec)
  have "map (hex_digit_at v) [60, 56, 52, 48, 44, 40, 36, 32, 28, 24, 20, 16, 12, 8, 4, 0] = hex16 v"
    unfolding l hex16_def map_map o_def hex_digit_at_spec ..
  then show ?thesis
    using assms unfolding utoa_hex_s_def by (simp only: foldl_put_char) (auto simp: take_Cons')
qed

section \<open>Properties\<close>

text \<open>\<open>atoi_s\<close> on white space, an optional sign, digits and whatever follows. It stores the number
  exactly when it fits into 32 signed bits and nothing follows the digits; a number that does not fit is
  -2 however long it is, other trailing text is -3. The unchecked \<open>atoi\<close> computes the same number, and
  overflows when the digits alone exceed the largest 32-bit integer.\<close>

lemma atoi_s_correct:
  assumes "number_text ws sg ds rest" "v = sign_of sg * digits_value 0 ds"
  shows "atoi_s (Some (ws @ sg @ ds @ rest)) True =
      (if \<not> fits_int32 v then (-2, None) else if rest \<noteq> [] then (-3, None) else (0, Some v)) \<and>
    atoi (ws @ sg @ ds @ rest) =
      (if digits_value 0 ds \<le> INT32_MAX then Inr v else Inl (Panic ''signed overflow''))"
  using atoi_s_spec [OF assms(1)] atoi_spec [OF assms(1)] assms(2) by simp_all

lemma atoi_s_correct_witness:
  "atoi_s (Some ('' '' @ ''-'' @ ''42'' @ [])) True = (0, Some (-42)) \<and>
   atoi_s (Some ([] @ [] @ ''2147483648'' @ [])) True = (-2, None) \<and> atoi ([] @ ''+'' @ ''7'' @ ''x'') = Inr 7"
proof -
  have n: "number_text '' '' ''-'' ''42'' []" "number_text [] [] ''2147483648'' []" "number_text [] ''+'' ''7'' ''x''"
    by code_simp+
  show ?thesis
    using atoi_s_correct [OF n(1) refl] atoi_s_correct [OF n(2) refl] atoi_s_correct [OF n(3) refl]
    by (simp add: sign_of_def fits_int32_def dec_value_def)
qed

text \<open>\<open>itoa_s\<close> (every base from 2 to 36, every 64-bit value, \<open>INT64_MIN\<close> included) and
  \<open>utoa_hex_s\<close> leave in a buffer of \<open>n\<close> bytes the first \<open>n - 1\<close> characters of the numeral, so that with
  the terminating zero nothing is written past the buffer, and the temporary array is never overrun.\<close>

lemma number_printing_bounded:
  assumes "0 < n" "2 \<le> base" "base \<le> 36" "- (2 ^ 63) \<le> v" "v < 2 ^ 63"
  shows "itoa_s v n base = Inr (Some (take (n - 1) (show_number base v))) \<and>
    utoa_hex_s u n = Some (take (n - 1) (''0x'' @ hex16 u))"
  using itoa_s_spec [OF assms(2-5,1)] utoa_hex_s_spec [OF assms(1)] by auto

lemma number_printing_bounded_witness:
  "itoa_s (- (2 ^ 63)) 4 10 = Inr (Some (take 3 (show_number 10 (- (2 ^ 63))))) \<and>
   utoa_hex_s 255 19 = Some (take 18 (''0x'' @ hex16 255))"
  using number_printing_bounded [of 4 10 "- (2 ^ 63)"] number_printing_bounded [of 19 10 0 255] by simp

text \<open>Printing a 32-bit integer in base 10 into a buffer of at least twelve bytes and reading it back
  with \<open>atoi_s\<close> gives the integer.\<close>

lemma itoa_atoi_roundtrip:
  assumes "fits_int32 v" "12 \<le> n"
  shows "\<exists>s. itoa_s v n 10 = Inr (Some s) \<and> atoi_s (Some s) True = (0, Some v)"
proof -
  have "take (n - 1) (show_number 10 v) = show_number 10 v" using length_show_int32 [OF assms(1)] assms(2) by simp
  then show ?thesis
    using itoa_s_spec [of 10 v n] read_show_number [OF assms(1)] assms by (simp add: fits_int32_def)
qed

lemma itoa_atoi_roundtrip_witness:
  "\<exists>s. itoa_s (-2147483648) 12 10 = Inr (Some s) \<and> atoi_s (Some s) True = (0, Some (-2147483648))"
  using itoa_atoi_roundtrip [of "-2147483648" 12] by (simp add: fits_int32_def)

end
