(* ===== verification/Fat32.thy ===== *)
theory Fat32
  imports Bcache KString "HOL-Library.Monad_Syntax"
begin

text \<open>
  The FAT32 driver (\<^verbatim>\<open>kernel/fs/fat32.c\<close>). The disk callbacks of a volume are functions on a
  device state \<open>'d\<close>; every sector goes through the cache of \<open>Bcache\<close>. A buffer is the list of its bytes
  that have been determined, so that reading or writing back a byte that was never filled in, a call of
  the null \<open>write_sector\<close> and a loop that does not end are all \<open>None\<close>. Whether the \<open>n\<close>-th call of
  \<open>kmalloc\<close> succeeds is given by an oracle in the state. The volume lock brackets every entry point and
  is not part of the state.
\<close>

section \<open>Volumes, entries and the state\<close>

definition FAT32_EOC :: nat where
  "FAT32_EOC = 0x0FFFFFF8"

record 'd fat32_volume =
  read_sector :: "'d \<Rightarrow> nat \<Rightarrow> u8 list option"
  write_sector :: "('d \<Rightarrow> nat \<Rightarrow> u8 list \<Rightarrow> bool \<times> 'd) option"
  partition_lba :: nat
  fat_start_lba :: nat
  data_start_lba :: nat
  root_cluster :: nat
  sectors_per_cluster :: nat
  bytes_per_sector :: nat
  fat_size :: nat
  volume_id :: nat

record 'd fat_world =
  fw_cache :: bcache_state
  fw_dev :: 'd
  fw_next_id :: nat
  fw_kmalloc :: "nat \<Rightarrow> bool"
  fw_allocs :: nat

definition alloc_buf :: "'d fat_world \<Rightarrow> bool \<times> 'd fat_world" where
  "alloc_buf w = (fw_kmalloc w (fw_allocs w), w\<lparr>fw_allocs := Suc (fw_allocs w)\<rparr>)"

text \<open>Little-endian fields of a byte buffer.\<close>

definition le16 :: "u8 list \<Rightarrow> nat \<Rightarrow> nat" where
  "le16 b i = unat (b ! i) + 256 * unat (b ! (i + 1))"

definition le32 :: "u8 list \<Rightarrow> nat \<Rightarrow> nat" where
  "le32 b i = le16 b i + 65536 * le16 b (i + 2)"

definition enc16 :: "nat \<Rightarrow> u8 list" where
  "enc16 v = [of_nat v, of_nat (v div 256)]"

definition enc32 :: "nat \<Rightarrow> u8 list" where
  "enc32 v = enc16 v @ enc16 (v div 65536)"

text \<open>A directory entry is its 32 bytes; these are the fields of \<open>fat32_dir_entry_t\<close>.\<close>

definition de_name :: "u8 list \<Rightarrow> u8 list" where
  "de_name e = take 11 e"

definition de_attr :: "u8 list \<Rightarrow> u8" where
  "de_attr e = e ! 11"

definition de_cluster :: "u8 list \<Rightarrow> nat" where
  "de_cluster e = le16 e 20 * 65536 + le16 e 26"

definition de_file_size :: "u8 list \<Rightarrow> nat" where
  "de_file_size e = le32 e 28"

definition set_name :: "u8 list \<Rightarrow> u8 list \<Rightarrow> u8 list" where
  "set_name nm e = overwrite 0 nm e"

definition set_cluster :: "nat \<Rightarrow> u8 list \<Rightarrow> u8 list" where
  "set_cluster c e = overwrite 26 (enc16 c) (overwrite 20 (enc16 (c div 65536)) e)"

definition set_file_size :: "nat \<Rightarrow> u8 list \<Rightarrow> u8 list" where
  "set_file_size n e = overwrite 28 (enc32 n) e"

definition new_entry :: "u8 list \<Rightarrow> u8 \<Rightarrow> nat \<Rightarrow> u8 list" where
  "new_entry nm attr c = set_cluster c ((set_name nm (replicate 32 0))[11 := attr])"

definition ATTR_VOLUME_ID :: u8 where "ATTR_VOLUME_ID = 0x08"
definition ATTR_DIRECTORY :: u8 where "ATTR_DIRECTORY = 0x10"
definition ATTR_ARCHIVE :: u8 where "ATTR_ARCHIVE = 0x20"
definition ATTR_LONG_NAME :: u8 where "ATTR_LONG_NAME = 0x0F"
definition DIRENT_DELETED :: u8 where "DIRENT_DELETED = 0xE5"

section \<open>Cached sectors\<close>

text \<open>The result is the filled part of a buffer of \<open>bufsz\<close> bytes, \<open>None\<close> when the driver reports an error.
  A hit copies 512 bytes whatever the size of the buffer.\<close>

definition fat32_read_sector_cached ::
  "'d fat32_volume \<Rightarrow> nat \<Rightarrow> nat \<Rightarrow> 'd fat_world \<Rightarrow> (u8 list option \<times> 'd fat_world) option" where
  "fat32_read_sector_cached vol bufsz sector w =
     (case bcache_read (fw_cache w) (of_nat (volume_id vol)) (of_nat sector) [] of
        (r, data, c) \<Rightarrow>
          if r = 0 then if bufsz < 512 then None else Some (Some data, w\<lparr>fw_cache := c\<rparr>)
          else case read_sector vol (fw_dev w) sector of
            None \<Rightarrow> Some (None, w\<lparr>fw_cache := c\<rparr>)
          | Some buf \<Rightarrow>
              Some (Some buf, w\<lparr>fw_cache := bcache_write c (of_nat (volume_id vol)) (of_nat sector) buf\<rparr>))"

text \<open>\<open>len\<close> bytes are handed to the driver.\<close>

definition fat32_write_sector_cached ::
  "'d fat32_volume \<Rightarrow> nat \<Rightarrow> u8 list \<Rightarrow> 'd fat_world \<Rightarrow> (bool \<times> 'd fat_world) option" where
  "fat32_write_sector_cached vol sector buf w =
     (if length buf < bytes_per_sector vol then None
      else case write_sector vol of
        None \<Rightarrow> None
      | Some wr \<Rightarrow>
          (case wr (fw_dev w) sector buf of
             (ok, d) \<Rightarrow>
               Some (ok, w\<lparr>fw_dev := d,
                 fw_cache := (if ok then bcache_write (fw_cache w) (of_nat (volume_id vol)) (of_nat sector) buf
                              else fw_cache w)\<rparr>)))"

section \<open>Names\<close>

definition to_upper :: "u8 \<Rightarrow> u8" where
  "to_upper c = (if 97 \<le> c \<and> c \<le> 122 then c - 32 else c)"

definition fat32_get_name :: "u8 list \<Rightarrow> u8 list" where
  "fat32_get_name nm =
     takeWhile (\<lambda>c. c \<noteq> 32) (take 8 nm) @
     (if nm ! 8 \<noteq> 32 then 46 # takeWhile (\<lambda>c. c \<noteq> 32) (take 3 (drop 8 nm)) else [])"

text \<open>Pads or cuts a part of the name to its field.\<close>

definition fill_field :: "nat \<Rightarrow> u8 list \<Rightarrow> u8 list" where
  "fill_field n cs = take n (map to_upper cs @ replicate n 32)"

definition fat32_to_dos_name :: "u8 list \<Rightarrow> u8 list" where
  "fat32_to_dos_name name =
     (let base = takeWhile (\<lambda>c. c \<noteq> 46) name;
          rest = dropWhile (\<lambda>c. c \<noteq> 46) name
      in fill_field 8 base @ fill_field 3 (if rest = [] then [] else tl rest))"

section \<open>Initialisation\<close>

definition fat32_init ::
  "('d \<Rightarrow> nat \<Rightarrow> u8 list option) option \<Rightarrow> ('d \<Rightarrow> nat \<Rightarrow> u8 list \<Rightarrow> bool \<times> 'd) option \<Rightarrow> nat \<Rightarrow> 'd fat32_volume \<Rightarrow>
     'd fat_world \<Rightarrow> (int \<times> 'd fat32_volume \<times> 'd fat_world) option" where
  "fat32_init read_func write_func partition_offset vol0 w0 =
     (case read_func of
        None \<Rightarrow> Some (- EIO, vol0, w0)
      | Some rd \<Rightarrow>
          let vol = vol0\<lparr>read_sector := rd, write_sector := write_func, partition_lba := partition_offset,
                volume_id := fw_next_id w0\<rparr>;
              w1 = w0\<lparr>fw_next_id := add32 (fw_next_id w0) 1\<rparr>
          in case alloc_buf w1 of
            (False, w2) \<Rightarrow> Some (- ENOMEM, vol, w2)
          | (True, w2) \<Rightarrow> do {
              (data, w3) \<leftarrow> fat32_read_sector_cached vol 4096 partition_offset w2;
              (case data of
                 None \<Rightarrow> Some (- ENOSPC, vol, w3)
               | Some bpb \<Rightarrow>
                   if length bpb < 512 then None
                   else if le16 bpb 510 \<noteq> 0xAA55 then Some (- EIO, vol, w3)
                   else
                     let vol1 = vol\<lparr>bytes_per_sector := le16 bpb 11, sectors_per_cluster := unat (bpb ! 13),
                           root_cluster := le32 bpb 44\<rparr>
                     in if bytes_per_sector vol1 = 0 then Some (- EIO, vol1, w3)
                        else
                          let sz = (if le32 bpb 36 = 0 then le16 bpb 22 else le32 bpb 36);
                              fstart = add32 partition_offset (le16 bpb 14)
                          in Some (0, vol1\<lparr>fat_size := sz, fat_start_lba := fstart,
                               data_start_lba := add32 fstart (mul32 (unat (bpb ! 16)) sz)\<rparr>, w3))
            })"

section \<open>The file allocation table\<close>

definition fat_sector_of :: "'d fat32_volume \<Rightarrow> nat \<Rightarrow> nat" where
  "fat_sector_of vol cluster = add32 (fat_start_lba vol) (mul32 cluster 4 div bytes_per_sector vol)"

definition fat_offset_of :: "'d fat32_volume \<Rightarrow> nat \<Rightarrow> nat" where
  "fat_offset_of vol cluster = mul32 cluster 4 mod bytes_per_sector vol"

definition fat32_get_next_cluster ::
  "'d fat32_volume \<Rightarrow> nat \<Rightarrow> 'd fat_world \<Rightarrow> (nat \<times> 'd fat_world) option" where
  "fat32_get_next_cluster vol cluster w0 =
     (case (if bytes_per_sector vol > 512 then alloc_buf w0 else (True, w0)) of
        (False, w) \<Rightarrow> Some (0xFFFFFFFF, w)
      | (True, w) \<Rightarrow> do {
          (data, w1) \<leftarrow> fat32_read_sector_cached vol (max 512 (bytes_per_sector vol)) (fat_sector_of vol cluster) w;
          (case data of
             None \<Rightarrow> Some (0xFFFFFFFF, w1)
           | Some buf \<Rightarrow>
               if length buf < fat_offset_of vol cluster + 4 then None
               else Some (le32 buf (fat_offset_of vol cluster) mod 2 ^ 28, w1))
        })"

definition fat32_cluster_to_lba :: "'d fat32_volume \<Rightarrow> nat \<Rightarrow> nat" where
  "fat32_cluster_to_lba vol cluster = add32 (data_start_lba vol) (mul32 (sub32 cluster 2) (sectors_per_cluster vol))"

definition fat32_fat_set ::
  "'d fat32_volume \<Rightarrow> nat \<Rightarrow> nat \<Rightarrow> 'd fat_world \<Rightarrow> (int \<times> 'd fat_world) option" where
  "fat32_fat_set vol cluster v w0 =
     (if write_sector vol = None then Some (- EIO, w0)
      else case alloc_buf w0 of
        (False, w) \<Rightarrow> Some (- ENOMEM, w)
      | (True, w) \<Rightarrow> do {
          (data, w1) \<leftarrow> fat32_read_sector_cached vol (bytes_per_sector vol) (fat_sector_of vol cluster) w;
          (case data of
             None \<Rightarrow> Some (- ENOSPC, w1)
           | Some buf \<Rightarrow>
               if length buf < fat_offset_of vol cluster + 4 then None
               else do {
                 (ok, w2) \<leftarrow> fat32_write_sector_cached vol (fat_sector_of vol cluster)
                   (overwrite (fat_offset_of vol cluster) (enc32 v) buf) w1;
                 Some (if ok then 0 else - EIO, w2)
               })
        })"

text \<open>The inner loop over the entries of one FAT sector: the index and number of the first free one.\<close>

fun free_entry_loop :: "u8 list \<Rightarrow> nat \<Rightarrow> nat \<Rightarrow> nat \<Rightarrow> (nat \<times> nat) option" where
  "free_entry_loop buf 0 j cluster_idx = None"
| "free_entry_loop buf (Suc k) j cluster_idx =
     (if cluster_idx < 2 then free_entry_loop buf k (Suc j) (add32 cluster_idx 1)
      else if le32 buf (4 * j) mod 2 ^ 28 = 0 then Some (j, cluster_idx)
      else free_entry_loop buf k (Suc j) (add32 cluster_idx 1))"

text \<open>The loop that clears a cluster; errors are ignored.\<close>

fun zero_loop :: "'d fat32_volume \<Rightarrow> nat \<Rightarrow> nat \<Rightarrow> nat \<Rightarrow> 'd fat_world \<Rightarrow> 'd fat_world option" where
  "zero_loop vol lba 0 k w = Some w"
| "zero_loop vol lba (Suc n) k w = do {
     (ok, w1) \<leftarrow> fat32_write_sector_cached vol (add32 lba k) (replicate (bytes_per_sector vol) 0) w;
     zero_loop vol lba n (Suc k) w1
   }"

text \<open>The scan over the sectors of the FAT, \<open>n\<close> of them left, \<open>i\<close> the next.\<close>

fun alloc_loop :: "'d fat32_volume \<Rightarrow> nat \<Rightarrow> nat \<Rightarrow> nat \<Rightarrow> 'd fat_world \<Rightarrow> (int \<times> nat \<times> 'd fat_world) option" where
  "alloc_loop vol 0 i cluster_idx w = Some (- ENOSPC, 0, w)"
| "alloc_loop vol (Suc n) i cluster_idx w = do {
     (data, w1) \<leftarrow> fat32_read_sector_cached vol (bytes_per_sector vol) (add32 (fat_start_lba vol) i) w;
     (case data of
        None \<Rightarrow> Some (- EIO, 0, w1)
      | Some buf \<Rightarrow>
          if length buf < bytes_per_sector vol then None
          else case free_entry_loop buf (bytes_per_sector vol div 4) 0 cluster_idx of
            None \<Rightarrow> alloc_loop vol n (Suc i) (add32 cluster_idx (bytes_per_sector vol div 4)) w1
          | Some (j, found) \<Rightarrow> do {
              (ok, w2) \<leftarrow> fat32_write_sector_cached vol (add32 (fat_start_lba vol) i)
                (overwrite (4 * j) (enc32 FAT32_EOC) buf) w1;
              if \<not> ok then Some (- ENOSPC, 0, w2)
              else case alloc_buf w2 of
                (False, w3) \<Rightarrow> Some (0, found, w3)
              | (True, w3) \<Rightarrow> do {
                  w4 \<leftarrow> zero_loop vol (fat32_cluster_to_lba vol found) (sectors_per_cluster vol) 0 w3;
                  Some (0, found, w4)
                }
            })
   }"

definition fat32_alloc_cluster :: "'d fat32_volume \<Rightarrow> 'd fat_world \<Rightarrow> (int \<times> nat \<times> 'd fat_world) option" where
  "fat32_alloc_cluster vol w =
     (case alloc_buf w of
        (False, w1) \<Rightarrow> Some (- ENOMEM, 0, w1)
      | (True, w1) \<Rightarrow> alloc_loop vol (fat_size vol) 0 0 w1)"

partial_function (option) fat32_free_cluster_chain ::
  "'d fat32_volume \<Rightarrow> nat \<Rightarrow> 'd fat_world \<Rightarrow> 'd fat_world option" where
  "fat32_free_cluster_chain vol current w =
     (if current \<ge> 2 \<and> current < FAT32_EOC then do {
        (next_c, w1) \<leftarrow> fat32_get_next_cluster vol current w;
        (r, w2) \<leftarrow> fat32_fat_set vol current 0 w1;
        fat32_free_cluster_chain vol next_c w2
      } else Some w)"

section \<open>Directories\<close>

definition fat32_update_dirent ::
  "'d fat32_volume \<Rightarrow> nat \<Rightarrow> nat \<Rightarrow> u8 list \<Rightarrow> 'd fat_world \<Rightarrow> (int \<times> 'd fat_world) option" where
  "fat32_update_dirent vol sector offset e w0 =
     (case alloc_buf w0 of
        (False, w) \<Rightarrow> Some (- ENOMEM, w)
      | (True, w) \<Rightarrow> do {
          (data, w1) \<leftarrow> fat32_read_sector_cached vol (bytes_per_sector vol) sector w;
          (case data of
             None \<Rightarrow> Some (- EIO, w1)
           | Some buf \<Rightarrow>
               if bytes_per_sector vol < offset + 32 then None
               else do {
                 (ok, w2) \<leftarrow> fat32_write_sector_cached vol sector (overwrite offset e buf) w1;
                 Some (if ok then 0 else - ENOSPC, w2)
               })
        })"

text \<open>A callback gets the entry, its sector and its offset, and returns a code and its new context.\<close>

type_synonym 'c dir_cb = "'c \<Rightarrow> u8 list \<Rightarrow> nat \<Rightarrow> nat \<Rightarrow> int \<times> 'c"

fun entry_loop :: "'c dir_cb \<Rightarrow> u8 list \<Rightarrow> nat \<Rightarrow> nat \<Rightarrow> nat \<Rightarrow> 'c \<Rightarrow> int \<times> 'c" where
  "entry_loop cb buf sector 0 j ctx = (0, ctx)"
| "entry_loop cb buf sector (Suc n) j ctx =
     (case cb ctx (take 32 (drop (32 * j) buf)) sector (32 * j) of
        (res, ctx') \<Rightarrow> if res \<noteq> 0 then (res, ctx') else entry_loop cb buf sector n (Suc j) ctx')"

fun dir_sector_loop ::
  "'d fat32_volume \<Rightarrow> 'c dir_cb \<Rightarrow> nat \<Rightarrow> nat \<Rightarrow> nat \<Rightarrow> 'c \<Rightarrow> 'd fat_world \<Rightarrow> (int \<times> 'c \<times> 'd fat_world) option" where
  "dir_sector_loop vol cb lba 0 i ctx w = Some (0, ctx, w)"
| "dir_sector_loop vol cb lba (Suc n) i ctx w = do {
     (data, w1) \<leftarrow> fat32_read_sector_cached vol (bytes_per_sector vol) (add32 lba i) w;
     (case data of
        None \<Rightarrow> Some (- EIO, ctx, w1)
      | Some buf \<Rightarrow>
          if length buf < bytes_per_sector vol then None
          else case entry_loop cb buf (add32 lba i) (bytes_per_sector vol div 32) 0 ctx of
            (res, ctx') \<Rightarrow>
              if res \<noteq> 0 then Some (res, ctx', w1) else dir_sector_loop vol cb lba n (Suc i) ctx' w1)
   }"

text \<open>Result: the code, the context, the last cluster looked at and the state.\<close>

partial_function (option) dir_chain_loop ::
  "'d fat32_volume \<Rightarrow> 'c dir_cb \<Rightarrow> nat \<Rightarrow> nat \<Rightarrow> 'c \<Rightarrow> 'd fat_world \<Rightarrow> (int \<times> 'c \<times> nat \<times> 'd fat_world) option" where
  "dir_chain_loop vol cb current last_cluster ctx w =
     (if current < FAT32_EOC then do {
        (res, ctx', w1) \<leftarrow> dir_sector_loop vol cb (fat32_cluster_to_lba vol current) (sectors_per_cluster vol) 0 ctx w;
        if res \<noteq> 0 then Some (res, ctx', current, w1)
        else do {
          (next_c, w2) \<leftarrow> fat32_get_next_cluster vol current w1;
          if next_c \<ge> FAT32_EOC then Some (0, ctx', current, w2)
          else dir_chain_loop vol cb next_c current ctx' w2
        }
      } else Some (0, ctx, last_cluster, w))"

definition fat32_iterate_dir ::
  "'d fat32_volume \<Rightarrow> nat \<Rightarrow> 'c dir_cb \<Rightarrow> 'c \<Rightarrow> 'd fat_world \<Rightarrow> (int \<times> 'c \<times> nat \<times> 'd fat_world) option" where
  "fat32_iterate_dir vol start_cluster cb ctx w =
     (case alloc_buf w of
        (False, w1) \<Rightarrow> Some (- ENOMEM, ctx, 0, w1)
      | (True, w1) \<Rightarrow> dir_chain_loop vol cb start_cluster 0 ctx w1)"

definition fat32_find_free_cb :: "(nat \<times> nat) dir_cb" where
  "fat32_find_free_cb ctx e sector offset =
     (if e ! 0 = 0 \<or> e ! 0 = DIRENT_DELETED then (1, (sector, offset)) else (0, ctx))"

text \<open>Result: the code and the place found.\<close>

definition fat32_find_free_dirent_in_chain ::
  "'d fat32_volume \<Rightarrow> nat \<Rightarrow> 'd fat_world \<Rightarrow> (int \<times> (nat \<times> nat) \<times> 'd fat_world) option" where
  "fat32_find_free_dirent_in_chain vol start_cluster w = do {
     (res, place, last_cluster, w1) \<leftarrow> fat32_iterate_dir vol start_cluster fat32_find_free_cb (0, 0) w;
     if res = 1 then Some (0, place, w1)
     else if res < 0 then Some (res, place, w1)
     else do {
       (r, new_cluster, w2) \<leftarrow> fat32_alloc_cluster vol w1;
       if r \<noteq> 0 then Some (- ENOSPC, place, w2)
       else do {
         (r', w3) \<leftarrow> fat32_fat_set vol last_cluster new_cluster w2;
         Some (0, (fat32_cluster_to_lba vol new_cluster, 0), w3)
       }
     }
   }"

text \<open>An entry that the searches pass over.\<close>

definition hidden_entry :: "u8 list \<Rightarrow> bool" where
  "hidden_entry e \<longleftrightarrow> e ! 0 = DIRENT_DELETED \<or> de_attr e AND ATTR_VOLUME_ID \<noteq> 0 \<or> de_attr e AND ATTR_LONG_NAME \<noteq> 0"

definition fat32_find_entry_cb :: "u8 list \<Rightarrow> (u8 list \<times> nat \<times> nat) dir_cb" where
  "fat32_find_entry_cb dos_name ctx e sector offset =
     (if e ! 0 = 0 then (- ENOENT, ctx)
      else if hidden_entry e then (0, ctx)
      else if de_name e = dos_name then (1, (e, sector, offset))
      else (0, ctx))"

definition fat32_find_dirent_in_chain ::
  "'d fat32_volume \<Rightarrow> nat \<Rightarrow> u8 list \<Rightarrow> 'd fat_world \<Rightarrow> (int \<times> (u8 list \<times> nat \<times> nat) \<times> 'd fat_world) option" where
  "fat32_find_dirent_in_chain vol start_cluster filename w = do {
     (res, found, last_cluster, w1) \<leftarrow>
        fat32_iterate_dir vol start_cluster (fat32_find_entry_cb (fat32_to_dos_name filename)) ([], 0, 0) w;
     Some (if res = 1 then 0 else if res = -3 then - ENOENT else if res = 0 then - ENOENT else res, found, w1)
   }"

section \<open>Files\<close>

record fat_node =
  nd_name :: "u8 list"
  nd_is_dir :: bool
  nd_mask :: nat
  nd_inode :: nat
  nd_impl :: nat
  nd_uid :: nat
  nd_length :: nat
  nd_ref_count :: nat

fun seek_loop :: "'d fat32_volume \<Rightarrow> nat \<Rightarrow> nat \<Rightarrow> 'd fat_world \<Rightarrow> (nat \<times> 'd fat_world) option" where
  "seek_loop vol 0 current w = Some (current, w)"
| "seek_loop vol (Suc n) current w =
     (if current \<ge> FAT32_EOC then Some (FAT32_EOC, w)
      else do { (next_c, w1) \<leftarrow> fat32_get_next_cluster vol current w; seek_loop vol n next_c w1 })"

definition cluster_bytes :: "'d fat32_volume \<Rightarrow> nat" where
  "cluster_bytes vol = mul32 (bytes_per_sector vol) (sectors_per_cluster vol)"

text \<open>Result: the cluster and the offset in it.\<close>

definition fat32_seek_cluster ::
  "'d fat32_volume \<Rightarrow> nat \<Rightarrow> nat \<Rightarrow> 'd fat_world \<Rightarrow> (nat \<times> nat \<times> 'd fat_world) option" where
  "fat32_seek_cluster vol first_cluster offset w = do {
     (c, w1) \<leftarrow> seek_loop vol (offset div cluster_bytes vol) first_cluster w;
     Some (c, offset mod cluster_bytes vol, w1)
   }"

definition fat_chunk :: "'d fat32_volume \<Rightarrow> nat \<Rightarrow> nat \<Rightarrow> nat \<Rightarrow> nat" where
  "fat_chunk vol sz done_bytes off =
     (let chunk = sub32 (bytes_per_sector vol) off in
      if add32 done_bytes chunk > sz then sub32 sz done_bytes else chunk)"

text \<open>The loop over the sectors of a cluster in \<open>fat32_read_fs_impl\<close>, \<open>n\<close> sectors left and \<open>i\<close> the next;
  \<open>False\<close> is the early return after a read error. \<open>buf\<close> is what the caller's buffer has received.\<close>

fun read_sector_loop ::
  "'d fat32_volume \<Rightarrow> nat \<Rightarrow> nat \<Rightarrow> nat \<Rightarrow> nat \<Rightarrow> nat \<Rightarrow> nat \<Rightarrow> u8 list \<Rightarrow> 'd fat_world \<Rightarrow>
     (bool \<times> nat \<times> u8 list \<times> 'd fat_world) option" where
  "read_sector_loop vol sz lba 0 i off bytes_read buf w = Some (True, bytes_read, buf, w)"
| "read_sector_loop vol sz lba (Suc n) i off bytes_read buf w =
     (if bytes_read \<ge> sz then Some (True, bytes_read, buf, w)
      else
        let chunk = fat_chunk vol sz bytes_read off in do {
          (data, w1) \<leftarrow> fat32_read_sector_cached vol (bytes_per_sector vol) (add32 lba i) w;
          (case data of
             None \<Rightarrow> Some (False, bytes_read, buf, w1)
           | Some sect \<Rightarrow>
               if length sect < off + chunk \<or> (off = 0 \<and> chunk = bytes_per_sector vol \<and> length sect \<noteq> chunk) then None
               else read_sector_loop vol sz lba n (Suc i) 0 (add32 bytes_read chunk)
                      (buf @ take chunk (drop off sect)) w1)
        })"

partial_function (option) read_cluster_loop ::
  "'d fat32_volume \<Rightarrow> nat \<Rightarrow> nat \<Rightarrow> nat \<Rightarrow> nat \<Rightarrow> u8 list \<Rightarrow> 'd fat_world \<Rightarrow> (nat \<times> u8 list \<times> 'd fat_world) option" where
  "read_cluster_loop vol sz current cluster_offset bytes_read buf w =
     (if bytes_read < sz \<and> current < FAT32_EOC then
        let first = cluster_offset div bytes_per_sector vol in do {
          (ok, br, buf', w1) \<leftarrow> read_sector_loop vol sz (fat32_cluster_to_lba vol current)
            (sectors_per_cluster vol - first) first (cluster_offset mod bytes_per_sector vol) bytes_read buf w;
          if \<not> ok then Some (br, buf', w1)
          else do {
            (next_c, w2) \<leftarrow> fat32_get_next_cluster vol current w1;
            read_cluster_loop vol sz next_c 0 br buf' w2
          }
        }
      else Some (bytes_read, buf, w))"

definition fat32_read_fs ::
  "'d fat32_volume \<Rightarrow> fat_node \<Rightarrow> nat \<Rightarrow> nat \<Rightarrow> 'd fat_world \<Rightarrow> (nat \<times> u8 list \<times> 'd fat_world) option" where
  "fat32_read_fs vol node offset sz0 w =
     (if offset \<ge> nd_length node then Some (0, [], w)
      else
        let sz = (if add32 offset sz0 > nd_length node then sub32 (nd_length node) offset else sz0) in do {
          (current, cluster_offset, w1) \<leftarrow> fat32_seek_cluster vol (nd_inode node) offset w;
          if current \<ge> FAT32_EOC then Some (0, [], w1)
          else case alloc_buf w1 of
            (False, w2) \<Rightarrow> Some (0, [], w2)
          | (True, w2) \<Rightarrow> read_cluster_loop vol sz current cluster_offset 0 [] w2
        })"

text \<open>A field of the directory entry of the node is patched in place; failures are ignored.\<close>

definition patch_dirent ::
  "'d fat32_volume \<Rightarrow> fat_node \<Rightarrow> (u8 list \<Rightarrow> u8 list) \<Rightarrow> 'd fat_world \<Rightarrow> 'd fat_world option" where
  "patch_dirent vol node f w0 =
     (case alloc_buf w0 of
        (False, w) \<Rightarrow> Some w
      | (True, w) \<Rightarrow> do {
          (data, w1) \<leftarrow> fat32_read_sector_cached vol (bytes_per_sector vol) (nd_impl node) w;
          (case data of
             None \<Rightarrow> Some w1
           | Some buf \<Rightarrow>
               if length buf < nd_uid node + 32 then None
               else do {
                 (ok, w2) \<leftarrow> fat32_write_sector_cached vol (nd_impl node)
                   (overwrite (nd_uid node) (f (take 32 (drop (nd_uid node) buf))) buf) w1;
                 Some w2
               })
        })"

text \<open>The walk to the last cluster of a chain.\<close>

partial_function (option) last_cluster_loop ::
  "'d fat32_volume \<Rightarrow> nat \<Rightarrow> 'd fat_world \<Rightarrow> (nat \<times> 'd fat_world) option" where
  "last_cluster_loop vol current w = do {
     (next_c, w1) \<leftarrow> fat32_get_next_cluster vol current w;
     if next_c \<ge> FAT32_EOC then Some (current, w1) else last_cluster_loop vol next_c w1
   }"

text \<open>The loop over the sectors of a cluster in \<open>fat32_write_fs_impl\<close>; an error only ends this loop.\<close>

fun write_sector_loop ::
  "'d fat32_volume \<Rightarrow> u8 list \<Rightarrow> nat \<Rightarrow> nat \<Rightarrow> nat \<Rightarrow> nat \<Rightarrow> nat \<Rightarrow> nat \<Rightarrow> 'd fat_world \<Rightarrow> (nat \<times> 'd fat_world) option" where
  "write_sector_loop vol buffer sz lba 0 i off bytes_written w = Some (bytes_written, w)"
| "write_sector_loop vol buffer sz lba (Suc n) i off bytes_written w =
     (if bytes_written \<ge> sz then Some (bytes_written, w)
      else
        let chunk = fat_chunk vol sz bytes_written off;
            part = take chunk (drop bytes_written buffer)
        in if length part < chunk then None
           else if off = 0 \<and> chunk = bytes_per_sector vol then do {
             (ok, w1) \<leftarrow> fat32_write_sector_cached vol (add32 lba i) part w;
             if ok then write_sector_loop vol buffer sz lba n (Suc i) 0 (add32 bytes_written chunk) w1
             else Some (bytes_written, w1)
           }
           else do {
             (data, w1) \<leftarrow> fat32_read_sector_cached vol (bytes_per_sector vol) (add32 lba i) w;
             (case data of
                None \<Rightarrow> Some (bytes_written, w1)
              | Some sect \<Rightarrow>
                  if length sect < off + chunk then None
                  else do {
                    (ok, w2) \<leftarrow> fat32_write_sector_cached vol (add32 lba i) (overwrite off part sect) w1;
                    if ok then write_sector_loop vol buffer sz lba n (Suc i) 0 (add32 bytes_written chunk) w2
                    else Some (bytes_written, w2)
                  })
           })"

partial_function (option) write_cluster_loop ::
  "'d fat32_volume \<Rightarrow> u8 list \<Rightarrow> nat \<Rightarrow> nat \<Rightarrow> nat \<Rightarrow> nat \<Rightarrow> 'd fat_world \<Rightarrow> (nat \<times> 'd fat_world) option" where
  "write_cluster_loop vol buffer sz current cluster_offset bytes_written w =
     (if \<not> bytes_written < sz then Some (bytes_written, w)
      else if current = 0 \<or> current \<ge> FAT32_EOC then do {
        (r, c, w1) \<leftarrow> fat32_alloc_cluster vol w;
        Some (bytes_written, w1)
      }
      else
        let first = cluster_offset div bytes_per_sector vol in do {
          (bw, w1) \<leftarrow> write_sector_loop vol buffer sz (fat32_cluster_to_lba vol current)
            (sectors_per_cluster vol - first) first (cluster_offset mod bytes_per_sector vol) bytes_written w;
          (next_c, w2) \<leftarrow> fat32_get_next_cluster vol current w1;
          if next_c \<ge> FAT32_EOC \<and> bw < sz then do {
            (r, new_cluster, w3) \<leftarrow> fat32_alloc_cluster vol w2;
            if r \<noteq> 0 then Some (bw, w3)
            else do {
              (r', w4) \<leftarrow> fat32_fat_set vol current new_cluster w3;
              write_cluster_loop vol buffer sz new_cluster 0 bw w4
            }
          }
          else write_cluster_loop vol buffer sz next_c 0 bw w2
        })"

text \<open>The first cluster of an empty file; \<open>None\<close> in the node means that the disk is full.\<close>

definition first_cluster ::
  "'d fat32_volume \<Rightarrow> fat_node \<Rightarrow> 'd fat_world \<Rightarrow> (fat_node option \<times> 'd fat_world) option" where
  "first_cluster vol node w =
     (if nd_inode node = 0 then do {
        (r, new_cluster, w1) \<leftarrow> fat32_alloc_cluster vol w;
        if r \<noteq> 0 then Some (None, w1)
        else do {
          w2 \<leftarrow> patch_dirent vol node (set_cluster new_cluster) w1;
          Some (Some (node\<lparr>nd_inode := new_cluster\<rparr>), w2)
        }
      } else Some (Some node, w))"

text \<open>Where a write starts: past the end of the chain a cluster is appended, and the write goes to its
  beginning; \<open>None\<close> is the early return.\<close>

definition write_start ::
  "'d fat32_volume \<Rightarrow> nat \<Rightarrow> nat \<Rightarrow> 'd fat_world \<Rightarrow> ((nat \<times> nat) option \<times> 'd fat_world) option" where
  "write_start vol start_cluster offset w = do {
     (current, cluster_offset, w1) \<leftarrow> fat32_seek_cluster vol start_cluster offset w;
     if current \<ge> FAT32_EOC then do {
       (last_c, w2) \<leftarrow> last_cluster_loop vol start_cluster w1;
       (r, new_cluster, w3) \<leftarrow> fat32_alloc_cluster vol w2;
       if r \<noteq> 0 then Some (None, w3)
       else do {
         (r', w4) \<leftarrow> fat32_fat_set vol last_c new_cluster w3;
         Some (Some (new_cluster, 0), w4)
       }
     }
     else Some (Some (current, cluster_offset), w1)
   }"

text \<open>Result: the return value, the node and the state.\<close>

definition fat32_write_fs ::
  "'d fat32_volume \<Rightarrow> fat_node \<Rightarrow> nat \<Rightarrow> nat \<Rightarrow> u8 list \<Rightarrow> 'd fat_world \<Rightarrow> (nat \<times> fat_node \<times> 'd fat_world) option" where
  "fat32_write_fs vol node0 offset sz buffer w = do {
     (node_opt, w1) \<leftarrow> first_cluster vol node0 w;
     (case node_opt of
        None \<Rightarrow> Some (0, node0, w1)
      | Some node \<Rightarrow> do {
          (start, w2) \<leftarrow> write_start vol (nd_inode node) offset w1;
          (case start of
             None \<Rightarrow> Some (0, node, w2)
           | Some (current, cluster_offset) \<Rightarrow>
               (case alloc_buf w2 of
                  (False, w3) \<Rightarrow> Some (0, node, w3)
                | (True, w3) \<Rightarrow> do {
                    (bytes_written, w4) \<leftarrow> write_cluster_loop vol buffer sz current cluster_offset 0 w3;
                    if add32 offset bytes_written > nd_length node then do {
                      w5 \<leftarrow> patch_dirent vol node (set_file_size (add32 offset bytes_written)) w4;
                      Some (bytes_written, node\<lparr>nd_length := add32 offset bytes_written\<rparr>, w5)
                    }
                    else Some (bytes_written, node, w4)
                  }))
        })
   }"

section \<open>Directory operations\<close>

text \<open>The context is the count of entries passed and the entry found.\<close>

definition fat32_readdir_cb :: "nat \<Rightarrow> (nat \<times> (u8 list \<times> nat) option) dir_cb" where
  "fat32_readdir_cb index ctx e sector offset =
     (if e ! 0 = 0 then (1, ctx)
      else if hidden_entry e then (0, ctx)
      else if fst ctx = index then (2, (fst ctx, Some (fat32_get_name (de_name e), de_cluster e)))
      else (0, (add32 (fst ctx) 1, snd ctx)))"

definition fat32_readdir_fs ::
  "'d fat32_volume \<Rightarrow> fat_node \<Rightarrow> nat \<Rightarrow> 'd fat_world \<Rightarrow> (int \<times> (u8 list \<times> nat) option \<times> 'd fat_world) option" where
  "fat32_readdir_fs vol node index w = do {
     (res, ctx, last_cluster, w1) \<leftarrow> fat32_iterate_dir vol (nd_inode node) (fat32_readdir_cb index) (0, None) w;
     Some (if res = 2 then 0 else if res = 1 then 1 else if res = 0 then 1 else - ENOENT, snd ctx, w1)
   }"

definition fat32_finddir_fs ::
  "'d fat32_volume \<Rightarrow> fat_node \<Rightarrow> u8 list \<Rightarrow> 'd fat_world \<Rightarrow> (fat_node option \<times> 'd fat_world) option" where
  "fat32_finddir_fs vol node name w = do {
     (r, (e, dir_sector, dir_offset), w1) \<leftarrow> fat32_find_dirent_in_chain vol (nd_inode node) name w;
     if r \<noteq> 0 then Some (None, w1)
     else case alloc_buf w1 of
       (False, w2) \<Rightarrow> Some (None, w2)
     | (True, w2) \<Rightarrow>
         let dir = (de_attr e AND ATTR_DIRECTORY \<noteq> 0) in
         Some (Some \<lparr>nd_name = take 127 name, nd_is_dir = dir, nd_mask = (if dir then 511 else 438),
           nd_inode = de_cluster e, nd_impl = dir_sector, nd_uid = dir_offset,
           nd_length = de_file_size e, nd_ref_count = 1\<rparr>, w2)
   }"

definition fat32_create_fs ::
  "'d fat32_volume \<Rightarrow> fat_node \<Rightarrow> u8 list \<Rightarrow> 'd fat_world \<Rightarrow> (int \<times> 'd fat_world) option" where
  "fat32_create_fs vol parent name w = do {
     (r, found, w1) \<leftarrow> fat32_find_dirent_in_chain vol (nd_inode parent) name w;
     if r = 0 then Some (- EEXIST, w1)
     else do {
       (r', (sector, offset), w2) \<leftarrow> fat32_find_free_dirent_in_chain vol (nd_inode parent) w1;
       if r' \<noteq> 0 then Some (- ENOSPC, w2)
       else fat32_update_dirent vol sector offset (new_entry (fat32_to_dos_name name) ATTR_ARCHIVE 0) w2
     }
   }"

text \<open>The first sector of a new directory: its entries \<open>.\<close> and \<open>..\<close>, then zeros.\<close>

definition dot_sector :: "'d fat32_volume \<Rightarrow> nat \<Rightarrow> nat \<Rightarrow> u8 list" where
  "dot_sector vol cluster parent_clus =
     overwrite 0 (new_entry (46 # replicate 10 32) ATTR_DIRECTORY cluster @
       new_entry (46 # 46 # replicate 9 32) ATTR_DIRECTORY parent_clus) (replicate (bytes_per_sector vol) 0)"

definition fat32_mkdir_fs ::
  "'d fat32_volume \<Rightarrow> fat_node \<Rightarrow> u8 list \<Rightarrow> 'd fat_world \<Rightarrow> (int \<times> 'd fat_world) option" where
  "fat32_mkdir_fs vol parent name w = do {
     (r, found, w1) \<leftarrow> fat32_find_dirent_in_chain vol (nd_inode parent) name w;
     if r = 0 then Some (- EEXIST, w1)
     else do {
       (r', (sector, offset), w2) \<leftarrow> fat32_find_free_dirent_in_chain vol (nd_inode parent) w1;
       if r' \<noteq> 0 then Some (- ENOSPC, w2)
       else do {
         (r'', cluster, w3) \<leftarrow> fat32_alloc_cluster vol w2;
         if r'' \<noteq> 0 then Some (- ENOSPC, w3)
         else do {
           (u, w4) \<leftarrow> fat32_update_dirent vol sector offset
             (new_entry (fat32_to_dos_name name) ATTR_DIRECTORY cluster) w3;
           if u \<noteq> 0 then Some (- EIO, w4)
           else
             let parent_clus = (if nd_inode parent = root_cluster vol then 0 else nd_inode parent) in
             (case alloc_buf w4 of
                (False, w5) \<Rightarrow> Some (- EIO, w5)
              | (True, w5) \<Rightarrow> do {
                  (ok, w6) \<leftarrow> fat32_write_sector_cached vol (fat32_cluster_to_lba vol cluster)
                    (dot_sector vol cluster parent_clus) w5;
                  Some (0, w6)
                })
         }
       }
     }
   }"

definition fat32_unlink_fs ::
  "'d fat32_volume \<Rightarrow> fat_node \<Rightarrow> u8 list \<Rightarrow> 'd fat_world \<Rightarrow> (int \<times> 'd fat_world) option" where
  "fat32_unlink_fs vol parent name w = do {
     (r, (e, sector, offset), w1) \<leftarrow> fat32_find_dirent_in_chain vol (nd_inode parent) name w;
     if r \<noteq> 0 then Some (- ENOENT, w1)
     else do {
       w2 \<leftarrow> (if de_cluster e \<noteq> 0 then fat32_free_cluster_chain vol (de_cluster e) w1 else Some w1);
       fat32_update_dirent vol sector offset (e[0 := DIRENT_DELETED]) w2
     }
   }"

definition fat32_rename_fs ::
  "'d fat32_volume \<Rightarrow> fat_node \<Rightarrow> u8 list \<Rightarrow> fat_node \<Rightarrow> u8 list \<Rightarrow> 'd fat_world \<Rightarrow> (int \<times> 'd fat_world) option" where
  "fat32_rename_fs vol old_parent old_name new_parent new_name w = do {
     (r, (e, old_sector, old_offset), w1) \<leftarrow> fat32_find_dirent_in_chain vol (nd_inode old_parent) old_name w;
     if r \<noteq> 0 then Some (- ENOENT, w1)
     else do {
       (r', (e', exist_sector, exist_offset), w2) \<leftarrow> fat32_find_dirent_in_chain vol (nd_inode new_parent) new_name w1;
       (u, w3) \<leftarrow> (if r' = 0 then fat32_update_dirent vol exist_sector exist_offset (e'[0 := DIRENT_DELETED]) w2
                    else Some (0, w2));
       (r'', (new_sector, new_offset), w4) \<leftarrow> fat32_find_free_dirent_in_chain vol (nd_inode new_parent) w3;
       if r'' \<noteq> 0 then Some (- ENOSPC, w4)
       else do {
         (u', w5) \<leftarrow> fat32_update_dirent vol new_sector new_offset (set_name (fat32_to_dos_name new_name) e) w4;
         if u' \<noteq> 0 then Some (- EIO, w5)
         else do {
           (u'', w6) \<leftarrow> fat32_update_dirent vol old_sector old_offset
             ((set_name (fat32_to_dos_name new_name) e)[0 := DIRENT_DELETED]) w5;
           Some (0, w6)
         }
       }
     }
   }"

definition fat32_mount :: "'d fat32_volume \<Rightarrow> 'd fat_world \<Rightarrow> fat_node option \<times> 'd fat_world" where
  "fat32_mount vol w =
     (case alloc_buf w of
        (False, w1) \<Rightarrow> (None, w1)
      | (True, w1) \<Rightarrow>
          (Some \<lparr>nd_name = map of_char ''fat32_root'', nd_is_dir = True, nd_mask = 511, nd_inode = root_cluster vol,
             nd_impl = 0, nd_uid = 0, nd_length = 0, nd_ref_count = 1\<rparr>, w1))"

end
