(* ===== verification/FatTable.thy ===== *)
theory FatTable
  imports Fat32
begin

text \<open>
  The allocation table of a FAT32 volume: what the cached sector accesses of \<^theory_text>\<open>Fat32\<close> do on a device whose
  callbacks succeed, the table as a function from clusters to entries (\<open>fat_get\<close>, \<open>fat_put\<close>), the chains
  it holds, and the correctness of allocating a cluster and of freeing a chain.
\<close>

section \<open>The sectors behind the cache\<close>

text \<open>A device whose callbacks never fail: \<open>content\<close> is what its sectors hold.\<close>

definition device_ok :: "'d fat32_volume \<Rightarrow> ('d \<Rightarrow> nat \<Rightarrow> u8 list) \<Rightarrow> bool" where
  "device_ok vol content \<longleftrightarrow>
     (\<forall>d s. read_sector vol d s = Some (content d s) \<and> length (content d s) = 512) \<and>
     (\<exists>wr. write_sector vol = Some wr \<and>
        (\<forall>d s b. length b = 512 \<longrightarrow> fst (wr d s b) \<and> content (snd (wr d s b)) = (content d)(s := b)))"

text \<open>The cache agrees with the device, and memory is not exhausted.\<close>

definition fat_ok :: "'d fat32_volume \<Rightarrow> ('d \<Rightarrow> nat \<Rightarrow> u8 list) \<Rightarrow> 'd fat_world \<Rightarrow> bool" where
  "fat_ok vol content w \<longleftrightarrow>
     bcache_inv (fw_cache w) \<and> (\<forall>n. fw_kmalloc w n) \<and>
     (\<exists>K. bc.coherent K (fw_cache w) \<and> (\<forall>s. K (of_nat (volume_id vol), s) = content (fw_dev w) (unat s)))"

lemma read_cached_ok:
  assumes "device_ok vol content" "fat_ok vol content w" "s < 2 ^ 32" "512 \<le> bufsz"
  shows "\<exists>w'. fat32_read_sector_cached vol bufsz s w = Some (Some (content (fw_dev w) s), w') \<and>
    fat_ok vol content w' \<and> fw_dev w' = fw_dev w"
proof -
  obtain K where K: "bc.coherent K (fw_cache w)" "\<And>s. K (of_nat (volume_id vol), s) = content (fw_dev w) (unat s)"
    using assms(2) by (auto simp: fat_ok_def)
  have inv: "bcache_inv (fw_cache w)" using assms(2) by (simp add: fat_ok_def)
  have s: "unat (of_nat s :: u32) = s" using assms(3) by (simp add: unat_of_nat)
  let ?k = "(of_nat (volume_id vol) :: u32, of_nat s :: u32)"
  have Ks: "K ?k = content (fw_dev w) s" using K(2) s by simp
  obtain r d c where rd: "bcache_read (fw_cache w) (of_nat (volume_id vol)) (of_nat s) [] = (r, d, c)"
    by (metis prod_cases3)
  note c = cached_read [OF inv rd]
  have coh: "bc.coherent K c" using K(1) c unfolding bc.coherent_def by simp
  show ?thesis
  proof (cases "r = 0")
    case True
    then have "d = content (fw_dev w) s" using c K(1) Ks unfolding bc.coherent_def by auto
    moreover have "fat_ok vol content (w\<lparr>fw_cache := c\<rparr>)" using assms(2) c coh K(2) by (auto simp: fat_ok_def)
    ultimately show ?thesis using rd True assms(4) by (simp add: fat32_read_sector_cached_def)
  next
    case False
    have full: "length (content (fw_dev w) s) = 512" "read_sector vol (fw_dev w) s = Some (content (fw_dev w) s)"
      using assms(1) by (auto simp: device_ok_def)
    let ?c = "bcache_write c (of_nat (volume_id vol)) (of_nat s) (content (fw_dev w) s)"
    have "bc.coherent K ?c" using bc.coherent_fill [of c K ?k] c coh full Ks by simp
    moreover have "bcache_inv ?c" using bcache_inv_write c full by blast
    ultimately have "fat_ok vol content (w\<lparr>fw_cache := ?c\<rparr>)" using assms(2) K(2) by (auto simp: fat_ok_def)
    then show ?thesis using rd False full by (simp add: fat32_read_sector_cached_def)
  qed
qed

lemma write_cached_ok:
  assumes "device_ok vol content" "fat_ok vol content w" "s < 2 ^ 32" "length b = 512" "bytes_per_sector vol \<le> 512"
  shows "\<exists>w'. fat32_write_sector_cached vol s b w = Some (True, w') \<and> fat_ok vol content w' \<and>
    content (fw_dev w') = (content (fw_dev w))(s := b)"
proof -
  obtain K where K: "bc.coherent K (fw_cache w)" "\<And>s. K (of_nat (volume_id vol), s) = content (fw_dev w) (unat s)"
    using assms(2) by (auto simp: fat_ok_def)
  obtain wr where wr: "write_sector vol = Some wr" "fst (wr (fw_dev w) s b)"
    "content (snd (wr (fw_dev w) s b)) = (content (fw_dev w))(s := b)"
    using assms(1,4) by (auto simp: device_ok_def)
  let ?k = "(of_nat (volume_id vol) :: u32, of_nat s :: u32)"
  let ?c = "bcache_write (fw_cache w) (of_nat (volume_id vol)) (of_nat s) b"
  let ?w = "w\<lparr>fw_dev := snd (wr (fw_dev w) s b), fw_cache := ?c\<rparr>"
  have inv: "bcache_inv (fw_cache w)" using assms(2) by (simp add: fat_ok_def)
  have u: "unat x = s \<longleftrightarrow> x = of_nat s" for x :: u32
    using assms(3) by (auto simp: unat_of_nat)
  have "bc.coherent (K(?k := b)) ?c" using bc.coherent_write_through [OF inv _ K(1), of b ?k] assms(4) by simp
  moreover have "(K(?k := b)) (of_nat (volume_id vol), x) = content (fw_dev ?w) (unat x)" for x
    using K(2) wr(3) u [of x] by auto
  moreover have "bcache_inv ?c" using bcache_inv_write [OF inv assms(4)] .
  ultimately have "fat_ok vol content ?w" using assms(2) unfolding fat_ok_def by (auto intro!: exI [of _ "K(?k := b)"])
  moreover have "fat32_write_sector_cached vol s b w = Some (True, ?w)"
    using wr assms(4,5) by (auto simp: fat32_write_sector_cached_def split: prod.splits)
  ultimately show ?thesis using wr(3) by auto
qed

section \<open>The file allocation table on the disk\<close>

text \<open>A disk is the contents of its sectors; these are the table entries it holds.\<close>

type_synonym disk = "nat \<Rightarrow> u8 list"

definition disk_ok :: "disk \<Rightarrow> bool" where
  "disk_ok D \<longleftrightarrow> (\<forall>s. length (D s) = 512)"

definition vol_ok :: "'d fat32_volume \<Rightarrow> bool" where
  "vol_ok vol \<longleftrightarrow> bytes_per_sector vol = 512 \<and> 0 < sectors_per_cluster vol \<and> sectors_per_cluster vol < 256 \<and>
     fat_start_lba vol + fat_size vol \<le> data_start_lba vol \<and> 128 * fat_size vol \<le> FAT32_EOC \<and>
     data_start_lba vol + 128 * fat_size vol * sectors_per_cluster vol \<le> 2 ^ 32"

definition clusters :: "'d fat32_volume \<Rightarrow> nat" where
  "clusters vol = 128 * fat_size vol"

definition fat_get :: "'d fat32_volume \<Rightarrow> disk \<Rightarrow> nat \<Rightarrow> nat" where
  "fat_get vol D c = le32 (D (fat_start_lba vol + c div 128)) (4 * (c mod 128)) mod 2 ^ 28"

definition fat_put :: "'d fat32_volume \<Rightarrow> nat \<Rightarrow> nat \<Rightarrow> disk \<Rightarrow> disk" where
  "fat_put vol c v D = D(fat_start_lba vol + c div 128 :=
     overwrite (4 * (c mod 128)) (enc32 v) (D (fat_start_lba vol + c div 128)))"

lemma length_enc32 [simp]: "length (enc32 v) = 4"
  by (simp add: enc32_def enc16_def)

lemma nth_overwrite:
  assumes "p + length new \<le> length xs" "i < length xs"
  shows "overwrite p new xs ! i = (if p \<le> i \<and> i < p + length new then new ! (i - p) else xs ! i)"
  using assms by (auto simp: overwrite_def nth_append min_def)

lemma le32_alt:
  "le32 b i = unat (b ! i) + 256 * unat (b ! (i + 1)) + 65536 * (unat (b ! (i + 2)) + 256 * unat (b ! (i + 3)))"
  by (simp add: le32_def le16_def numeral_3_eq_3)

lemma le32_same:
  assumes "p + 4 \<le> length b"
  shows "le32 (overwrite p (enc32 v) b) p = v mod 2 ^ 32"
proof -
  have n: "overwrite p (enc32 v) b ! (p + k) = enc32 v ! k" if "k < 4" for k
    using that assms nth_overwrite [of p "enc32 v" b "p + k"] by simp
  have "le32 (overwrite p (enc32 v) b) p =
      unat (enc32 v ! 0) + 256 * unat (enc32 v ! 1) + 65536 * (unat (enc32 v ! 2) + 256 * unat (enc32 v ! 3))"
    unfolding le32_alt using n [of 0] by (simp only: n [of 1] n [of 2] n [of 3]) simp
  also have "\<dots> = v mod 256 + 256 * (v div 256 mod 256) + 65536 * (v div 65536 mod 256 + 256 * (v div 65536 div 256 mod 256))"
    by (simp add: enc32_def enc16_def unat_of_nat)
  also have "\<dots> = v mod 2 ^ 32"
  proof -
    have m: "x mod 65536 = x mod 256 + 256 * (x div 256 mod 256)" for x :: nat
      using mod_mult2_eq [of x 256 256] by simp
    have "v mod 2 ^ 32 = v mod 65536 + 65536 * (v div 65536 mod 65536)" using mod_mult2_eq [of v 65536 65536] by simp
    then show ?thesis using m [of v] m [of "v div 65536"] by simp
  qed
  finally show ?thesis .
qed

lemma le32_other:
  assumes "p + 4 \<le> length b" "q + 4 \<le> length b" "p + 4 \<le> q \<or> q + 4 \<le> p"
  shows "le32 (overwrite p (enc32 v) b) q = le32 b q"
proof -
  have "overwrite p (enc32 v) b ! (q + k) = b ! (q + k)" if "k < 4" for k
    using assms that nth_overwrite [of p "enc32 v" b "q + k"] by auto
  from this [of 0] this [of 1] this [of 2] this [of 3] show ?thesis unfolding le32_alt by (simp only:) simp
qed

lemma disk_ok_put: "disk_ok D \<Longrightarrow> disk_ok (fat_put vol c v D)"
proof -
  assume "disk_ok D"
  moreover have "4 * (c mod 128) + 4 \<le> 512" by (simp add: mult_le_cancel1 flip: mult_Suc_right) 
  ultimately show ?thesis by (simp add: disk_ok_def fat_put_def length_overwrite)
qed

lemma fat_get_put:
  assumes "disk_ok D"
  shows "fat_get vol (fat_put vol c v D) c' = (if c' = c then v mod 2 ^ 28 else fat_get vol D c')"
proof -
  let ?s = "fat_start_lba vol + c div 128"
  have len: "length (D ?s) = 512" using assms by (simp add: disk_ok_def)
  have c: "c mod 128 \<le> 127" "c' mod 128 \<le> 127" by simp_all
  show ?thesis
  proof (cases "c' = c")
    case True
    then show ?thesis using le32_same [of "4 * (c mod 128)" "D ?s" v] len c by (simp add: fat_get_def fat_put_def mod_mod_cancel)
  next
    case False
    show ?thesis
    proof (cases "c' div 128 = c div 128")
      case True
      then have "c' mod 128 \<noteq> c mod 128" using False by (metis div_mult_mod_eq)
      then have "4 * (c mod 128) + 4 \<le> 4 * (c' mod 128) \<or> 4 * (c' mod 128) + 4 \<le> 4 * (c mod 128)" by linarith
      then show ?thesis
        using le32_other [of "4 * (c mod 128)" "D ?s" "4 * (c' mod 128)" v] len c True False
        by (simp add: fat_get_def fat_put_def)
    next
      case d: False
      then show ?thesis using False by (simp add: fat_get_def fat_put_def)
    qed
  qed
qed

lemma fat_place:
  assumes "vol_ok vol" "c < clusters vol"
  shows "fat_sector_of vol c = fat_start_lba vol + c div 128" "fat_offset_of vol c = 4 * (c mod 128)"
    "fat_start_lba vol + c div 128 < data_start_lba vol" "data_start_lba vol \<le> 2 ^ 32" "4 * (c mod 128) + 4 \<le> 512"
proof -
  have v: "bytes_per_sector vol = 512" "fat_start_lba vol + fat_size vol \<le> data_start_lba vol"
    "data_start_lba vol \<le> 2 ^ 32" "128 * fat_size vol \<le> FAT32_EOC"
    using assms(1) by (auto simp: vol_ok_def)
  have c: "c < 128 * fat_size vol" using assms(2) by (simp add: clusters_def)
  have m: "mul32 c 4 = 4 * c" using c v(4) by (simp add: wrap_simps FAT32_EOC_def)
  have d: "c div 128 < fat_size vol" using c by (simp add: less_mult_imp_div_less mult.commute)
  have "4 * c div 512 = c div 128" "4 * c mod 512 = 4 * (c mod 128)"
    using div_mult_mult1 [of 4 c 128] mult_mod_right [of 4 c 128] by simp_all
  then show "fat_sector_of vol c = fat_start_lba vol + c div 128" "fat_offset_of vol c = 4 * (c mod 128)"
    using m v d by (simp_all add: fat_sector_of_def fat_offset_of_def wrap_simps)
  show "fat_start_lba vol + c div 128 < data_start_lba vol" "data_start_lba vol \<le> 2 ^ 32" using v d by auto
  have "c mod 128 \<le> 127" by simp
  then show "4 * (c mod 128) + 4 \<le> 512" by linarith
qed

lemma device_disk_ok: "device_ok vol content \<Longrightarrow> disk_ok (content d)"
  by (simp add: device_ok_def disk_ok_def)

lemma alloc_buf_ok: "fat_ok vol content w \<Longrightarrow>
  \<exists>w'. alloc_buf w = (True, w') \<and> fat_ok vol content w' \<and> fw_dev w' = fw_dev w"
  by (auto simp: alloc_buf_def fat_ok_def)

lemma get_next_ok:
  assumes "device_ok vol content" "vol_ok vol" "fat_ok vol content w" "c < clusters vol"
  shows "\<exists>w'. fat32_get_next_cluster vol c w = Some (fat_get vol (content (fw_dev w)) c, w') \<and>
    fat_ok vol content w' \<and> fw_dev w' = fw_dev w"
proof -
  note p = fat_place [OF assms(2,4)]
  have b: "bytes_per_sector vol = 512" using assms(2) by (simp add: vol_ok_def)
  have "fat_start_lba vol + c div 128 < 2 ^ 32" using p(3,4) by linarith
  from read_cached_ok [OF assms(1,3) this, of 512] obtain w' where w':
    "fat32_read_sector_cached vol 512 (fat_start_lba vol + c div 128) w =
       Some (Some (content (fw_dev w) (fat_start_lba vol + c div 128)), w')"
    "fat_ok vol content w'" "fw_dev w' = fw_dev w" by auto
  have "length (content (fw_dev w) (fat_start_lba vol + c div 128)) = 512"
    using device_disk_ok [OF assms(1)] by (simp add: disk_ok_def)
  then show ?thesis using w' p b by (simp add: fat32_get_next_cluster_def fat_get_def)
qed

lemma fat_set_ok:
  assumes "device_ok vol content" "vol_ok vol" "fat_ok vol content w" "c < clusters vol"
  shows "\<exists>w'. fat32_fat_set vol c v w = Some (0, w') \<and> fat_ok vol content w' \<and>
    content (fw_dev w') = fat_put vol c v (content (fw_dev w))"
proof -
  note p = fat_place [OF assms(2,4)]
  let ?s = "fat_start_lba vol + c div 128"
  have b: "bytes_per_sector vol = 512" using assms(2) by (simp add: vol_ok_def)
  have s: "?s < 2 ^ 32" using p(3,4) by linarith
  obtain w1 where w1: "alloc_buf w = (True, w1)" "fat_ok vol content w1" "fw_dev w1 = fw_dev w"
    using alloc_buf_ok [OF assms(3)] by auto
  obtain w2 where w2: "fat32_read_sector_cached vol 512 ?s w1 = Some (Some (content (fw_dev w) ?s), w2)"
    "fat_ok vol content w2" "fw_dev w2 = fw_dev w"
    using read_cached_ok [OF assms(1) w1(2) s, of 512] w1(3) by auto
  have len: "length (content (fw_dev w) ?s) = 512" using device_disk_ok [OF assms(1)] by (simp add: disk_ok_def)
  obtain w3 where w3: "fat32_write_sector_cached vol ?s (overwrite (4 * (c mod 128)) (enc32 v) (content (fw_dev w) ?s)) w2 = Some (True, w3)"
    "fat_ok vol content w3" "content (fw_dev w3) = (content (fw_dev w))(?s := overwrite (4 * (c mod 128)) (enc32 v) (content (fw_dev w) ?s))"
    using write_cached_ok [OF assms(1) w2(2) s, of "overwrite (4 * (c mod 128)) (enc32 v) (content (fw_dev w) ?s)"]
      w2(3) len p(5) b by (auto simp: length_overwrite)
  have "write_sector vol \<noteq> None" using assms(1) by (auto simp: device_ok_def)
  then show ?thesis using w1 w2 w3 p b len by (simp add: fat32_fat_set_def fat_put_def)
qed

section \<open>Freeing a chain\<close>

text \<open>The clusters of a file: a chain of table entries that ends with an end marker.\<close>

fun chain :: "'d fat32_volume \<Rightarrow> disk \<Rightarrow> nat \<Rightarrow> nat list \<Rightarrow> bool" where
  "chain vol D c [] \<longleftrightarrow> c < 2 \<or> FAT32_EOC \<le> c"
| "chain vol D c (x # xs) \<longleftrightarrow> c = x \<and> 2 \<le> x \<and> x < clusters vol \<and> chain vol D (fat_get vol D x) xs"

lemma chain_cong: "(\<And>x. x \<in> set cs \<Longrightarrow> fat_get vol D' x = fat_get vol D x) \<Longrightarrow> chain vol D' c cs = chain vol D c cs"
  by (induction cs arbitrary: c) auto

lemma chain_put_other:
  "disk_ok D \<Longrightarrow> x \<notin> set cs \<Longrightarrow> chain vol (fat_put vol x v D) c cs = chain vol D c cs"
  by (rule chain_cong) (auto simp: fat_get_put)

lemma chain_clusters: "chain vol D c cs \<Longrightarrow> x \<in> set cs \<Longrightarrow> 2 \<le> x \<and> x < clusters vol"
  by (induction cs arbitrary: c) auto

lemma clusters_eoc: "vol_ok vol \<Longrightarrow> c < clusters vol \<Longrightarrow> c < FAT32_EOC"
  by (auto simp: vol_ok_def clusters_def)

fun put_all :: "'d fat32_volume \<Rightarrow> nat list \<Rightarrow> nat \<Rightarrow> disk \<Rightarrow> disk" where
  "put_all vol [] v D = D"
| "put_all vol (c # cs) v D = put_all vol cs v (fat_put vol c v D)"

lemma disk_ok_put_all: "disk_ok D \<Longrightarrow> disk_ok (put_all vol cs v D)"
  by (induction cs arbitrary: D) (auto simp: disk_ok_put)

lemma fat_get_put_all:
  "disk_ok D \<Longrightarrow> fat_get vol (put_all vol cs v D) c = (if c \<in> set cs then v mod 2 ^ 28 else fat_get vol D c)"
  by (induction cs arbitrary: D) (auto simp: fat_get_put disk_ok_put)

lemma free_chain_ok:
  assumes "device_ok vol content" "vol_ok vol"
  shows "fat_ok vol content w \<Longrightarrow> chain vol (content (fw_dev w)) c cs \<Longrightarrow> distinct cs \<Longrightarrow>
    \<exists>w'. fat32_free_cluster_chain vol c w = Some w' \<and> fat_ok vol content w' \<and>
      content (fw_dev w') = put_all vol cs 0 (content (fw_dev w))"
proof (induction cs arbitrary: c w)
  case Nil
  then show ?case by (auto simp: fat32_free_cluster_chain.simps [of vol c])
next
  case (Cons x xs)
  let ?D = "content (fw_dev w)"
  have x: "c = x" "2 \<le> x" "x < clusters vol" "chain vol ?D (fat_get vol ?D x) xs" using Cons.prems(2) by auto
  obtain w1 where w1: "fat32_get_next_cluster vol x w = Some (fat_get vol ?D x, w1)" "fat_ok vol content w1" "fw_dev w1 = fw_dev w"
    using get_next_ok [OF assms Cons.prems(1) x(3)] by auto
  obtain w2 where w2: "fat32_fat_set vol x 0 w1 = Some (0, w2)" "fat_ok vol content w2" "content (fw_dev w2) = fat_put vol x 0 ?D"
    using fat_set_ok [OF assms w1(2) x(3)] w1(3) by auto
  have "chain vol (fat_put vol x 0 ?D) (fat_get vol ?D x) xs"
    using x(4) Cons.prems(3) by (simp add: chain_put_other [OF device_disk_ok [OF assms(1)]])
  then obtain w3 where w3: "fat32_free_cluster_chain vol (fat_get vol ?D x) w2 = Some w3" "fat_ok vol content w3"
    "content (fw_dev w3) = put_all vol xs 0 (fat_put vol x 0 ?D)"
    using Cons.IH [OF w2(2)] Cons.prems(3) w2(3) by auto
  show ?case
    using x(1,2) clusters_eoc [OF assms(2) x(3)] w1(1) w2(1) w3
    by (simp add: fat32_free_cluster_chain.simps [of vol x w])
qed

section \<open>Allocating a cluster\<close>

definition is_free :: "'d fat32_volume \<Rightarrow> disk \<Rightarrow> nat \<Rightarrow> bool" where
  "is_free vol D c \<longleftrightarrow> 2 \<le> c \<and> fat_get vol D c = 0"

definition cluster_lba :: "'d fat32_volume \<Rightarrow> nat \<Rightarrow> nat" where
  "cluster_lba vol c = data_start_lba vol + (c - 2) * sectors_per_cluster vol"

definition zero_cluster :: "'d fat32_volume \<Rightarrow> nat \<Rightarrow> disk \<Rightarrow> disk" where
  "zero_cluster vol c D =
     (\<lambda>s. if cluster_lba vol c \<le> s \<and> s < cluster_lba vol c + sectors_per_cluster vol then replicate 512 0 else D s)"

lemma find_upt_shift: "find P [a + j..<a + k] = map_option (\<lambda>t. a + t) (find (\<lambda>t. P (a + t)) [j..<k])"
proof (cases "find (\<lambda>t. P (a + t)) [j..<k]")
  case None
  then have "\<not> P i" if "a + j \<le> i" "i < a + k" for i
    using that by (simp add: find_upt_None) (metis add_le_cancel_left add_less_cancel_left le_Suc_ex le_trans le_add1)
  then have "find P [a + j..<a + k] = None" by (auto simp: find_upt_None)
  then show ?thesis using None by simp
next
  case (Some i)
  note f = find_upt_Some [OF Some]
  have "\<not> P x" if "a + j \<le> x" "x < a + i" for x
    using f(4) [of "x - a"] that by simp
  then have "find P [a + j..<a + k] = Some (a + i)" using f by (intro find_upt_SomeI) auto
  then show ?thesis using Some by simp
qed

lemma free_entry_loop_find:
  "base + j + k < 2 ^ 32 \<Longrightarrow> free_entry_loop buf k j (base + j) =
     map_option (\<lambda>t. (t, base + t)) (find (\<lambda>t. 2 \<le> base + t \<and> le32 buf (4 * t) mod 2 ^ 28 = 0) [j..<j + k])"
proof (induction k arbitrary: j)
  case (Suc k)
  have "add32 (base + j) 1 = base + Suc j" using Suc.prems by (simp add: wrap_simps)
  moreover have "[j..<j + Suc k] = j # [Suc j..<Suc j + k]" by (simp add: upt_conv_Cons del: upt_Suc)
  ultimately show ?case using Suc.IH [of "Suc j"] Suc.prems by (simp del: upt_Suc)
qed simp

lemma cluster_lba_bound:
  assumes "vol_ok vol" "2 \<le> c" "c < clusters vol" "k < sectors_per_cluster vol"
  shows "cluster_lba vol c + k < 2 ^ 32" "fat32_cluster_to_lba vol c = cluster_lba vol c"
    "add32 (cluster_lba vol c) k = cluster_lba vol c + k" "data_start_lba vol \<le> cluster_lba vol c"
proof -
  let ?n = "sectors_per_cluster vol"
  have v: "data_start_lba vol + clusters vol * ?n \<le> 2 ^ 32" "clusters vol \<le> FAT32_EOC" "?n < 256"
    using assms(1) by (auto simp: vol_ok_def clusters_def)
  have "(c - 2) * ?n + k < (c - 1) * ?n" using assms(2,4)
    by (metis One_nat_def Suc_diff_le Suc_1 add.commute diff_Suc_Suc mult_Suc nat_add_left_cancel_less)
  also have "\<dots> \<le> clusters vol * ?n" using assms(3) by (intro mult_le_mono1) simp
  finally show b: "cluster_lba vol c + k < 2 ^ 32" using v(1) by (simp add: cluster_lba_def)
  then show "add32 (cluster_lba vol c) k = cluster_lba vol c + k" by (simp add: wrap_simps)
  have "sub32 c 2 = c - 2" using assms v(2) by (simp add: wrap_simps FAT32_EOC_def)
  then show "fat32_cluster_to_lba vol c = cluster_lba vol c"
    using b by (simp add: fat32_cluster_to_lba_def cluster_lba_def wrap_simps)
  show "data_start_lba vol \<le> cluster_lba vol c" by (simp add: cluster_lba_def)
qed

lemma zero_loop_ok:
  assumes "device_ok vol content" "bytes_per_sector vol = 512"
  shows "fat_ok vol content w \<Longrightarrow> lba + k + n \<le> 2 ^ 32 \<Longrightarrow>
    \<exists>w'. zero_loop vol lba n k w = Some w' \<and> fat_ok vol content w' \<and>
      content (fw_dev w') = (\<lambda>s. if lba + k \<le> s \<and> s < lba + k + n then replicate 512 0 else content (fw_dev w) s)"
proof (induction n arbitrary: k w)
  case 0
  then show ?case by (auto simp: fun_eq_iff)
next
  case (Suc n)
  have a: "add32 lba k = lba + k" "lba + k < 2 ^ 32" using Suc.prems(2) by (simp_all add: wrap_simps)
  obtain w1 where w1: "fat32_write_sector_cached vol (lba + k) (replicate 512 0) w = Some (True, w1)"
    "fat_ok vol content w1" "content (fw_dev w1) = (content (fw_dev w))(lba + k := replicate 512 0)"
    using write_cached_ok [OF assms(1) Suc.prems(1) a(2), of "replicate 512 0"] assms(2) by auto
  obtain w2 where w2: "zero_loop vol lba n (Suc k) w1 = Some w2" "fat_ok vol content w2"
    "content (fw_dev w2) = (\<lambda>s. if lba + Suc k \<le> s \<and> s < lba + Suc k + n then replicate 512 0 else content (fw_dev w1) s)"
    using Suc.IH [OF w1(2), of "Suc k"] Suc.prems(2) by auto
  show ?case using w1(1) w2 w1(3) a(1) assms(2) by (auto simp: fun_eq_iff)
qed

lemma alloc_found_ok:
  assumes "device_ok vol content" "vol_ok vol" "fat_ok vol content w" "2 \<le> c" "c < clusters vol"
    "D = content (fw_dev w)" "s = fat_start_lba vol + c div 128" "D' = zero_cluster vol c (fat_put vol c FAT32_EOC D)"
  shows "\<exists>w2 w3 w4. fat32_write_sector_cached vol s (overwrite (4 * (c mod 128)) (enc32 FAT32_EOC) (D s)) w = Some (True, w2) \<and>
    alloc_buf w2 = (True, w3) \<and>
    zero_loop vol (fat32_cluster_to_lba vol c) (sectors_per_cluster vol) 0 w3 = Some w4 \<and>
    fat_ok vol content w4 \<and> content (fw_dev w4) = D'"
proof -
  note p = fat_place [OF assms(2,5)]
  have b: "bytes_per_sector vol = 512" and n: "0 < sectors_per_cluster vol" using assms(2) by (simp_all add: vol_ok_def)
  have s: "s < 2 ^ 32" using p(3,4) assms(7) by linarith
  have len: "length (D s) = 512" using device_disk_ok [OF assms(1)] assms(6) by (simp add: disk_ok_def)
  obtain w2 where w2: "fat32_write_sector_cached vol s (overwrite (4 * (c mod 128)) (enc32 FAT32_EOC) (D s)) w = Some (True, w2)"
    "fat_ok vol content w2" "content (fw_dev w2) = fat_put vol c FAT32_EOC D"
    using write_cached_ok [OF assms(1,3) s, of "overwrite (4 * (c mod 128)) (enc32 FAT32_EOC) (D s)"] len p(5) b assms(6,7)
    by (auto simp: length_overwrite fat_put_def)
  obtain w3 where w3: "alloc_buf w2 = (True, w3)" "fat_ok vol content w3" "fw_dev w3 = fw_dev w2"
    using alloc_buf_ok [OF w2(2)] by auto
  have "cluster_lba vol c + sectors_per_cluster vol \<le> 2 ^ 32"
    using cluster_lba_bound(1) [OF assms(2,4,5), of "sectors_per_cluster vol - 1"] n by simp
  then obtain w4 where w4: "zero_loop vol (cluster_lba vol c) (sectors_per_cluster vol) 0 w3 = Some w4" "fat_ok vol content w4"
    "content (fw_dev w4) = zero_cluster vol c (content (fw_dev w3))"
    using zero_loop_ok [OF assms(1) b w3(2), of "cluster_lba vol c" 0 "sectors_per_cluster vol"]
    by (auto simp: zero_cluster_def)
  then show ?thesis
    using w2 w3 cluster_lba_bound(2) [OF assms(2,4,5) n] assms(8) by auto
qed

lemma alloc_loop_ok:
  assumes "device_ok vol content" "vol_ok vol"
  shows "fat_ok vol content w \<Longrightarrow> i + n = fat_size vol \<Longrightarrow> D = content (fw_dev w) \<Longrightarrow>
    (case find (is_free vol D) [128 * i..<128 * (i + n)] of
       None \<Rightarrow> \<exists>w'. alloc_loop vol n i (128 * i) w = Some (- ENOSPC, 0, w') \<and> fat_ok vol content w' \<and> content (fw_dev w') = D
     | Some c \<Rightarrow> \<exists>w'. alloc_loop vol n i (128 * i) w = Some (0, c, w') \<and> fat_ok vol content w' \<and>
         content (fw_dev w') = zero_cluster vol c (fat_put vol c FAT32_EOC D))"
proof (induction n arbitrary: i w)
  case 0
  then show ?case by auto
next
  case (Suc n)
  have b: "bytes_per_sector vol = 512" and cl: "128 * fat_size vol \<le> FAT32_EOC" using assms(2) by (simp_all add: vol_ok_def)
  have bnd: "128 * i + 128 \<le> clusters vol" using Suc.prems(2) by (simp add: clusters_def)
  have idx: "128 * i < clusters vol" using bnd by simp
  note p = fat_place [OF assms(2) idx]
  have a: "add32 (fat_start_lba vol) i = fat_start_lba vol + i" using p(3,4) by (simp add: wrap_simps)
  have "fat_start_lba vol + i < 2 ^ 32" using p(3,4) by simp
  from read_cached_ok [OF assms(1) Suc.prems(1) this, of 512] Suc.prems(3) obtain w1 where
    w1: "fat32_read_sector_cached vol 512 (fat_start_lba vol + i) w = Some (Some (D (fat_start_lba vol + i)), w1)"
      "fat_ok vol content w1" "content (fw_dev w1) = D" by auto
  have len: "length (D (fat_start_lba vol + i)) = 512" using device_disk_ok [OF assms(1)] Suc.prems(3) by (simp add: disk_ok_def)
  have fg: "fat_get vol D (128 * i + t) = le32 (D (fat_start_lba vol + i)) (4 * t) mod 2 ^ 28" if "t < 128" for t
    using that by (simp add: fat_get_def)
  have fe: "free_entry_loop (D (fat_start_lba vol + i)) 128 0 (128 * i) =
      map_option (\<lambda>t. (t, 128 * i + t)) (find (\<lambda>t. is_free vol D (128 * i + t)) [0..<128])"
    using free_entry_loop_find [of "128 * i" 0 128 "D (fat_start_lba vol + i)"] bnd cl fg
    by (auto simp: is_free_def clusters_def FAT32_EOC_def intro!: arg_cong [where f = "map_option _"] find_cong)
  have split: "[128 * i..<128 * (i + Suc n)] = [128 * i + 0..<128 * i + 128] @ [128 * Suc i..<128 * (Suc i + n)]"
    using upt_add_eq_append [of "128 * i" "128 * i + 128" "128 * n"] by (simp add: ac_simps)
  show ?case
  proof (cases "find (\<lambda>t. is_free vol D (128 * i + t)) [0..<128]")
    case None
    have "add32 (128 * i) 128 = 128 * Suc i" using bnd cl by (simp add: wrap_simps clusters_def FAT32_EOC_def)
    then have e: "alloc_loop vol (Suc n) i (128 * i) w = alloc_loop vol n (Suc i) (128 * Suc i) w1"
      using w1(1) a b len fe None by simp
    have f: "find (is_free vol D) [128 * i..<128 * (i + Suc n)] = find (is_free vol D) [128 * Suc i..<128 * (Suc i + n)]"
      unfolding split find_append find_upt_shift None by simp
    show ?thesis unfolding e f by (rule Suc.IH [OF w1(2)]) (use Suc.prems(2) w1(3) in simp_all)
  next
    case (Some t)
    have t: "t < 128" "is_free vol D (128 * i + t)" using find_upt_Some [OF Some] by auto
    define c where "c = 128 * i + t"
    have c: "2 \<le> c" "c < clusters vol" "c div 128 = i" "c mod 128 = t" using t bnd by (auto simp: c_def is_free_def)
    obtain w2 w3 w4 where w: "fat32_write_sector_cached vol (fat_start_lba vol + i) (overwrite (4 * t) (enc32 FAT32_EOC) (D (fat_start_lba vol + i))) w1 = Some (True, w2)"
      "alloc_buf w2 = (True, w3)" "zero_loop vol (fat32_cluster_to_lba vol c) (sectors_per_cluster vol) 0 w3 = Some w4"
      "fat_ok vol content w4" "content (fw_dev w4) = zero_cluster vol c (fat_put vol c FAT32_EOC D)"
      using alloc_found_ok [OF assms w1(2) c(1,2) w1(3) [symmetric] refl refl] unfolding c(3,4) by blast
    have "alloc_loop vol (Suc n) i (128 * i) w = Some (0, c, w4)"
      using w1(1) a b len fe Some w by (simp add: c_def [symmetric])
    moreover have "find (is_free vol D) [128 * i..<128 * (i + Suc n)] = Some c"
      unfolding split find_append find_upt_shift Some by (simp add: c_def)
    ultimately show ?thesis using w by simp
  qed
qed

lemma alloc_ok:
  assumes "device_ok vol content" "vol_ok vol" "fat_ok vol content w" "D = content (fw_dev w)"
  shows "case find (is_free vol D) [0..<clusters vol] of
       None \<Rightarrow> \<exists>w'. fat32_alloc_cluster vol w = Some (- ENOSPC, 0, w') \<and> fat_ok vol content w' \<and> content (fw_dev w') = D
     | Some c \<Rightarrow> \<exists>w'. fat32_alloc_cluster vol w = Some (0, c, w') \<and> fat_ok vol content w' \<and>
         content (fw_dev w') = zero_cluster vol c (fat_put vol c FAT32_EOC D)"
proof -
  obtain w1 where w1: "alloc_buf w = (True, w1)" "fat_ok vol content w1" "fw_dev w1 = fw_dev w"
    using alloc_buf_ok [OF assms(3)] by auto
  have "fat32_alloc_cluster vol w = alloc_loop vol (fat_size vol) 0 (128 * 0) w1"
    using w1(1) by (simp add: fat32_alloc_cluster_def)
  then show ?thesis
    using alloc_loop_ok [OF assms(1,2) w1(2), of 0 "fat_size vol" D] w1(3) assms(4)
    by (auto simp: clusters_def split: option.splits)
qed

end
