(* ===== verification/FatFile.thy ===== *)
theory FatFile
  imports FatTable
begin

text \<open>
  The contents of files: the bytes of a chain of clusters, and that reading and writing a file node act on
  these bytes, appending zeroed clusters at the end when the disk has room.
\<close>

section \<open>The contents of a file\<close>

fun file_chain :: "'d fat32_volume \<Rightarrow> disk \<Rightarrow> nat \<Rightarrow> nat list \<Rightarrow> bool" where
  "file_chain vol D c [] \<longleftrightarrow> FAT32_EOC \<le> c"
| "file_chain vol D c (x # xs) \<longleftrightarrow> c = x \<and> 2 \<le> x \<and> x < clusters vol \<and> file_chain vol D (fat_get vol D x) xs"

definition cluster_sectors :: "'d fat32_volume \<Rightarrow> disk \<Rightarrow> nat \<Rightarrow> u8 list list" where
  "cluster_sectors vol D c = map (\<lambda>k. D (cluster_lba vol c + k)) [0..<sectors_per_cluster vol]"

definition cluster_data :: "'d fat32_volume \<Rightarrow> disk \<Rightarrow> nat \<Rightarrow> u8 list" where
  "cluster_data vol D c = concat (cluster_sectors vol D c)"

definition file_data :: "'d fat32_volume \<Rightarrow> disk \<Rightarrow> nat list \<Rightarrow> u8 list" where
  "file_data vol D cs = concat (map (cluster_data vol D) cs)"

definition csize :: "'d fat32_volume \<Rightarrow> nat" where
  "csize vol = 512 * sectors_per_cluster vol"

lemma blocks_cluster_sectors: "disk_ok D \<Longrightarrow> blocks_of 512 (cluster_sectors vol D c)"
  by (auto simp: blocks_of_def cluster_sectors_def disk_ok_def)

lemma length_cluster_data: "disk_ok D \<Longrightarrow> length (cluster_data vol D c) = csize vol"
  using length_concat_blocks [OF blocks_cluster_sectors, of D vol c]
  by (simp add: cluster_data_def csize_def cluster_sectors_def)

lemma blocks_file: "disk_ok D \<Longrightarrow> blocks_of (csize vol) (map (cluster_data vol D) cs)"
  by (auto simp: blocks_of_def length_cluster_data)

lemma length_file_data: "disk_ok D \<Longrightarrow> length (file_data vol D cs) = length cs * csize vol"
  using length_concat_blocks [OF blocks_file, of D vol cs] by (simp add: file_data_def)

lemma drop_concat_block:
  "blocks_of n xs \<Longrightarrow> i < length xs \<Longrightarrow> k \<le> n \<Longrightarrow> drop (i * n + k) (concat xs) = drop k (xs ! i) @ drop (Suc i * n) (concat xs)"
proof (induction xs arbitrary: i)
  case (Cons x xs)
  show ?case
  proof (cases i)
    case 0
    then show ?thesis using Cons.prems by simp
  next
    case (Suc j)
    then show ?thesis using Cons.IH [of j] Cons.prems by (simp add: add.assoc)
  qed
qed simp

lemma cluster_data_at:
  assumes "disk_ok D" "i < sectors_per_cluster vol" "k \<le> 512"
  shows "drop (i * 512 + k) (cluster_data vol D c) = drop k (D (cluster_lba vol c + i)) @ drop (Suc i * 512) (cluster_data vol D c)"
  using drop_concat_block [OF blocks_cluster_sectors [OF assms(1)], of i vol c k] assms
  by (simp add: cluster_data_def cluster_sectors_def)

lemma file_chain_chain: "file_chain vol D c cs \<Longrightarrow> chain vol D c cs"
  by (induction cs arbitrary: c) auto

lemma file_chain_clusters: "file_chain vol D c cs \<Longrightarrow> x \<in> set cs \<Longrightarrow> 2 \<le> x \<and> x < clusters vol"
  using chain_clusters file_chain_chain by blast

lemma file_chain_drop: "file_chain vol D c cs \<Longrightarrow> n < length cs \<Longrightarrow> file_chain vol D (cs ! n) (drop n cs)"
proof (induction cs arbitrary: c n)
  case (Cons x xs)
  then show ?case by (cases n) auto
qed simp

section \<open>Reading\<close>

lemma seek_loop_ok:
  assumes "device_ok vol content" "vol_ok vol"
  shows "fat_ok vol content w \<Longrightarrow> file_chain vol (content (fw_dev w)) c cs \<Longrightarrow> n < length cs \<Longrightarrow>
    \<exists>w'. seek_loop vol n c w = Some (cs ! n, w') \<and> fat_ok vol content w' \<and> fw_dev w' = fw_dev w"
proof (induction n arbitrary: c cs w)
  case 0
  then show ?case by (cases cs) auto
next
  case (Suc n)
  then obtain x xs where cs: "cs = x # xs" by (cases cs) auto
  then have x: "c = x" "x < clusters vol" "file_chain vol (content (fw_dev w)) (fat_get vol (content (fw_dev w)) x) xs"
    using Suc.prems(2) by auto
  obtain w1 where w1: "fat32_get_next_cluster vol x w = Some (fat_get vol (content (fw_dev w)) x, w1)"
    "fat_ok vol content w1" "fw_dev w1 = fw_dev w" using get_next_ok [OF assms Suc.prems(1) x(2)] by auto
  show ?case
    using Suc.IH [OF w1(2), of "fat_get vol (content (fw_dev w)) x" xs] w1 x Suc.prems(3) clusters_eoc [OF assms(2) x(2)] cs
    by auto
qed

lemma chunk_exact:
  assumes "bytes_per_sector vol = 512" "off < 512" "br < sz" "sz + 512 \<le> 2 ^ 32"
  shows "fat_chunk vol sz br off = min (512 - off) (sz - br)"
proof -
  have "sub32 512 off = 512 - off" "add32 br (512 - off) = br + (512 - off)" "sub32 sz br = sz - br"
    using assms by (simp_all add: wrap_simps)
  then show ?thesis using assms(1) by (auto simp: fat_chunk_def Let_def min_def)
qed

lemma read_sector_loop_ok:
  assumes "device_ok vol content" "vol_ok vol" "2 \<le> c" "c < clusters vol" "sz + 512 \<le> 2 ^ 32"
  shows "fat_ok vol content w \<Longrightarrow> i + n = sectors_per_cluster vol \<Longrightarrow> off < 512 \<Longrightarrow> br \<le> sz \<Longrightarrow> D = content (fw_dev w) \<Longrightarrow>
    m = min (sz - br) (n * 512 - off) \<Longrightarrow>
    \<exists>w'. read_sector_loop vol sz (cluster_lba vol c) n i off br buf w =
       Some (True, br + m, buf @ take m (drop (i * 512 + off) (cluster_data vol D c)), w') \<and>
      fat_ok vol content w' \<and> fw_dev w' = fw_dev w"
proof (induction n arbitrary: i off br buf w m)
  case 0
  then show ?case by simp
next
  case (Suc n)
  have b: "bytes_per_sector vol = 512" using assms(2) by (simp add: vol_ok_def)
  have dok: "disk_ok D" using device_disk_ok [OF assms(1)] Suc.prems(5) by simp
  show ?case
  proof (cases "br = sz")
    case True
    then show ?thesis using Suc.prems by simp
  next
    case False
    then have lt: "br < sz" using Suc.prems(4) by simp
    define chunk where "chunk = min (512 - off) (sz - br)"
    have ch: "fat_chunk vol sz br off = chunk" using chunk_exact [OF b Suc.prems(3) lt assms(5)] by (simp add: chunk_def)
    have i: "i < sectors_per_cluster vol" using Suc.prems(2) by simp
    note lba = cluster_lba_bound [OF assms(2,3,4) i]
    obtain w1 where w1: "fat32_read_sector_cached vol 512 (cluster_lba vol c + i) w = Some (Some (D (cluster_lba vol c + i)), w1)"
      "fat_ok vol content w1" "fw_dev w1 = fw_dev w"
      using read_cached_ok [OF assms(1) Suc.prems(1) lba(1), of 512] Suc.prems(5) by auto
    have len: "length (D (cluster_lba vol c + i)) = 512" using dok by (simp add: disk_ok_def)
    have add: "add32 br chunk = br + chunk" using lt assms(5) by (simp add: wrap_simps chunk_def)
    have e: "read_sector_loop vol sz (cluster_lba vol c) (Suc n) i off br buf w =
        read_sector_loop vol sz (cluster_lba vol c) n (Suc i) 0 (br + chunk) (buf @ take chunk (drop off (D (cluster_lba vol c + i)))) w1"
      using lt ch b w1(1) lba(3) len Suc.prems(3) add by (auto simp: Let_def chunk_def)
    define m' where "m' = min (sz - (br + chunk)) (n * 512)"
    have m: "m = chunk + m'" "chunk < 512 - off \<Longrightarrow> m' = 0"
      using Suc.prems(3,6) lt unfolding m'_def chunk_def min_def mult_Suc by (auto split: if_splits)
    have pr: "Suc i + n = sectors_per_cluster vol" "(0::nat) < 512" "br + chunk \<le> sz" "D = content (fw_dev w1)"
      "m' = min (sz - (br + chunk)) (n * 512 - 0)"
      using Suc.prems(2,5) lt w1(3) by (simp_all add: chunk_def m'_def)
    obtain w2 where w2: "read_sector_loop vol sz (cluster_lba vol c) n (Suc i) 0 (br + chunk)
        (buf @ take chunk (drop off (D (cluster_lba vol c + i)))) w1 =
       Some (True, br + chunk + m', (buf @ take chunk (drop off (D (cluster_lba vol c + i)))) @ take m' (drop (Suc i * 512 + 0) (cluster_data vol D c)), w2)"
      "fat_ok vol content w2" "fw_dev w2 = fw_dev w1"
      using Suc.IH [OF w1(2) pr] by blast
    have "take m (drop (i * 512 + off) (cluster_data vol D c)) =
        take chunk (drop off (D (cluster_lba vol c + i))) @ take m' (drop (Suc i * 512) (cluster_data vol D c))"
      using cluster_data_at [OF dok i, of off c] Suc.prems(3) m len
      by (cases "chunk = 512 - off") (auto simp: chunk_def)
    then show ?thesis using e w2 w1(3) m(1) by (simp add: add.assoc)
  qed
qed
lemma read_cluster_loop_ok:
  assumes "device_ok vol content" "vol_ok vol" "sz + 512 \<le> 2 ^ 32"
  shows "fat_ok vol content w \<Longrightarrow> file_chain vol D cur cs \<Longrightarrow> co < csize vol \<Longrightarrow> br \<le> sz \<Longrightarrow> D = content (fw_dev w) \<Longrightarrow>
    m = min (sz - br) (length cs * csize vol - co) \<Longrightarrow>
    \<exists>w'. read_cluster_loop vol sz cur co br buf w = Some (br + m, buf @ take m (drop co (file_data vol D cs)), w') \<and>
      fat_ok vol content w' \<and> fw_dev w' = fw_dev w"
proof (induction cs arbitrary: cur co br buf w m)
  case Nil
  then show ?case by (simp add: read_cluster_loop.simps [of vol sz cur] file_data_def)
next
  case (Cons x xs)
  have x: "cur = x" "2 \<le> x" "x < clusters vol" "file_chain vol D (fat_get vol D x) xs" using Cons.prems(2) by auto
  show ?case
  proof (cases "br = sz")
    case True
    then show ?thesis using Cons.prems(1,4,6) by (simp add: read_cluster_loop.simps [of vol sz cur co sz buf w])
  next
    case False
    have b: "bytes_per_sector vol = 512" using assms(2) by (simp add: vol_ok_def)
    have dok: "disk_ok D" using device_disk_ok [OF assms(1)] Cons.prems(5) by simp
    define first off m1 where "first = co div 512" and "off = co mod 512" and "m1 = min (sz - br) (csize vol - co)"
    have fo: "first * 512 + off = co" by (simp add: first_def off_def)
    have fs: "first < sectors_per_cluster vol"
      using Cons.prems(3) by (simp add: first_def csize_def less_mult_imp_div_less mult.commute)
    have av: "(sectors_per_cluster vol - first) * 512 - off = csize vol - co"
      using fo by (simp add: csize_def diff_mult_distrib mult.commute)
    have pr: "first + (sectors_per_cluster vol - first) = sectors_per_cluster vol" "off < 512" "br \<le> sz" "D = content (fw_dev w)"
      "m1 = min (sz - br) ((sectors_per_cluster vol - first) * 512 - off)"
      using fs Cons.prems(4,5) av by (simp_all add: off_def m1_def)
    obtain w1 where w1: "read_sector_loop vol sz (cluster_lba vol x) (sectors_per_cluster vol - first) first off br buf w =
        Some (True, br + m1, buf @ take m1 (drop co (cluster_data vol D x)), w1)" "fat_ok vol content w1" "fw_dev w1 = fw_dev w"
      using read_sector_loop_ok [OF assms(1,2) x(2,3) assms(3) Cons.prems(1) pr] unfolding fo by blast
    obtain w2 where w2: "fat32_get_next_cluster vol x w1 = Some (fat_get vol D x, w2)" "fat_ok vol content w2" "fw_dev w2 = fw_dev w"
      using get_next_ok [OF assms(1,2) w1(2) x(3)] w1(3) Cons.prems(5) by auto
    define m2 where "m2 = min (sz - (br + m1)) (length xs * csize vol)"
    have m: "m = m1 + m2" "m1 < csize vol - co \<Longrightarrow> m2 = 0" "br + m1 \<le> sz"
      using Cons.prems(3,4,6) unfolding m1_def m2_def min_def by (auto split: if_splits)
    have z: "(0::nat) < csize vol" using Cons.prems(3) by simp
    have pr2: "br + m1 \<le> sz" "D = content (fw_dev w2)" "m2 = min (sz - (br + m1)) (length xs * csize vol - 0)"
      using m(3) w2(3) Cons.prems(5) by (simp_all add: m2_def)
    obtain w3 where w3: "read_cluster_loop vol sz (fat_get vol D x) 0 (br + m1) (buf @ take m1 (drop co (cluster_data vol D x))) w2 =
        Some (br + m1 + m2, (buf @ take m1 (drop co (cluster_data vol D x))) @ take m2 (drop 0 (file_data vol D xs)), w3)"
      "fat_ok vol content w3" "fw_dev w3 = fw_dev w2"
      using Cons.IH [OF w2(2) x(4) z pr2] by blast
    have e: "read_cluster_loop vol sz x co br buf w =
        read_cluster_loop vol sz (fat_get vol D x) 0 (br + m1) (buf @ take m1 (drop co (cluster_data vol D x))) w2"
      using False Cons.prems(4) clusters_eoc [OF assms(2) x(3)] w1(1) w2(1) b cluster_lba_bound(2) [OF assms(2) x(2,3) fs]
      by (simp add: read_cluster_loop.simps [of vol sz x] first_def [symmetric] off_def [symmetric] Let_def)
    have "take m (drop co (file_data vol D (x # xs))) = take m1 (drop co (cluster_data vol D x)) @ take m2 (file_data vol D xs)"
      using m(1,2) Cons.prems(3) length_cluster_data [OF dok, of vol x]
      by (cases "m1 = csize vol - co") (auto simp: file_data_def m1_def)
    then show ?thesis using e w3 w2(3) x(1) m(1) by (simp add: add.assoc)
  qed
qed

lemma drop_file_data:
  assumes "disk_ok D" "n < length cs" "k \<le> csize vol"
  shows "drop (n * csize vol + k) (file_data vol D cs) = drop k (file_data vol D (drop n cs))"
proof -
  have "file_data vol D cs = file_data vol D (take n cs) @ file_data vol D (drop n cs)"
    by (simp add: file_data_def flip: concat_append map_append)
  then show ?thesis using length_file_data [OF assms(1), of vol "take n cs"] assms(2) by simp
qed

lemma seek_ok:
  assumes "device_ok vol content" "vol_ok vol" "fat_ok vol content w" "file_chain vol (content (fw_dev w)) c cs"
    "offset < length cs * csize vol"
  shows "\<exists>w'. fat32_seek_cluster vol c offset w = Some (cs ! (offset div csize vol), offset mod csize vol, w') \<and>
    fat_ok vol content w' \<and> fw_dev w' = fw_dev w"
proof -
  have cb: "cluster_bytes vol = csize vol"
    using assms(2) by (simp add: cluster_bytes_def csize_def vol_ok_def wrap_simps)
  have "offset div csize vol < length cs" using assms(5) by (simp add: less_mult_imp_div_less)
  from seek_loop_ok [OF assms(1-4) this] show ?thesis by (auto simp: fat32_seek_cluster_def cb)
qed

lemma read_fs_ok:
  assumes "device_ok vol content" "vol_ok vol" "fat_ok vol content w"
    "file_chain vol (content (fw_dev w)) (nd_inode node) cs"
    "nd_length node \<le> length cs * csize vol" "nd_length node + 512 \<le> 2 ^ 32" "offset + sz < 2 ^ 32"
    "offset < nd_length node" "m = min sz (nd_length node - offset)"
  shows "\<exists>w'. fat32_read_fs vol node offset sz w =
      Some (m, take m (drop offset (file_data vol (content (fw_dev w)) cs)), w') \<and>
    fat_ok vol content w' \<and> fw_dev w' = fw_dev w"
proof -
  let ?D = "content (fw_dev w)"
  let ?n = "offset div csize vol" and ?o = "offset mod csize vol"
  have off: "offset < length cs * csize vol" using assms(5,8) by simp
  have c0: "0 < csize vol" using off by (cases "csize vol") auto
  have nl: "?n < length cs" using off by (simp add: less_mult_imp_div_less)
  obtain w1 where w1: "fat32_seek_cluster vol (nd_inode node) offset w = Some (cs ! ?n, ?o, w1)" "fat_ok vol content w1" "fw_dev w1 = fw_dev w"
    using seek_ok [OF assms(1-4) off] by auto
  obtain w2 where w2: "alloc_buf w1 = (True, w2)" "fat_ok vol content w2" "fw_dev w2 = fw_dev w"
    using alloc_buf_ok [OF w1(2)] w1(3) by auto
  have e: "?n * csize vol + ?o = offset" by simp
  have mm: "m = min (m - 0) (length (drop ?n cs) * csize vol - ?o)"
    using assms(5,8,9) e by (simp add: diff_mult_distrib)
  have pr: "?o < csize vol" "0 \<le> m" "?D = content (fw_dev w2)" using c0 w2(3) by simp_all
  have m32: "m + 512 \<le> 2 ^ 32" using assms(6,9) by simp
  obtain w3 where w3: "read_cluster_loop vol m (cs ! ?n) ?o 0 [] w2 =
      Some (0 + m, [] @ take m (drop ?o (file_data vol ?D (drop ?n cs))), w3)" "fat_ok vol content w3" "fw_dev w3 = fw_dev w2"
    using read_cluster_loop_ok [OF assms(1,2) m32 w2(2) file_chain_drop [OF assms(4) nl] pr mm] by blast
  have s: "(if add32 offset sz > nd_length node then sub32 (nd_length node) offset else sz) = m"
    using assms(6-9) by (auto simp: wrap_simps min_def)
  have d: "drop offset (file_data vol ?D cs) = drop ?o (file_data vol ?D (drop ?n cs))"
    using drop_file_data [OF device_disk_ok [OF assms(1)] nl, of ?o vol "fw_dev w"] c0 e by (simp add: less_imp_le)
  have "cs ! ?n < clusters vol" using file_chain_clusters [OF assms(4) nth_mem [OF nl]] by simp
  then have "fat32_read_fs vol node offset sz w = Some (m, take m (drop offset (file_data vol ?D cs)), w3)"
    using assms(8) s w1(1) w2(1) w3(1) d clusters_eoc [OF assms(2), of "cs ! ?n"] by (simp add: fat32_read_fs_def Let_def)
  then show ?thesis using w3 w2(3) by auto
qed

section \<open>Writing inside a chain\<close>

text \<open>The part of the disk that may differ after a write to a cluster.\<close>

definition only_cluster :: "'d fat32_volume \<Rightarrow> nat \<Rightarrow> disk \<Rightarrow> disk \<Rightarrow> bool" where
  "only_cluster vol c D D' \<longleftrightarrow>
     (\<forall>s. \<not> (cluster_lba vol c \<le> s \<and> s < cluster_lba vol c + sectors_per_cluster vol) \<longrightarrow> D' s = D s)"

lemma only_cluster_trans: "only_cluster vol c D D1 \<Longrightarrow> only_cluster vol c D1 D2 \<Longrightarrow> only_cluster vol c D D2"
  by (simp add: only_cluster_def)

lemma cluster_disjoint:
  assumes "c \<noteq> c'" "2 \<le> c" "2 \<le> c'" "k < sectors_per_cluster vol" "k' < sectors_per_cluster vol"
  shows "cluster_lba vol c + k \<noteq> cluster_lba vol c' + k'"
proof
  assume "cluster_lba vol c + k = cluster_lba vol c' + k'"
  then have e: "(c - 2) * sectors_per_cluster vol + k = (c' - 2) * sectors_per_cluster vol + k'"
    by (simp add: cluster_lba_def)
  have "((c - 2) * sectors_per_cluster vol + k) div sectors_per_cluster vol = c - 2"
    "((c' - 2) * sectors_per_cluster vol + k') div sectors_per_cluster vol = c' - 2" using assms(4,5) by simp_all
  then have "c - 2 = c' - 2" using e by simp
  then show False using assms(1-3) by simp
qed

lemma only_cluster_other:
  assumes "only_cluster vol c D D'" "c' \<noteq> c" "2 \<le> c" "2 \<le> c'"
  shows "cluster_data vol D' c' = cluster_data vol D c'"
proof -
  have "D' (cluster_lba vol c' + k) = D (cluster_lba vol c' + k)" if k: "k < sectors_per_cluster vol" for k
  proof -
    have "\<not> (cluster_lba vol c \<le> cluster_lba vol c' + k \<and> cluster_lba vol c' + k < cluster_lba vol c + sectors_per_cluster vol)"
      using cluster_disjoint [OF assms(2,4,3) k] by (metis add_diff_inverse_nat nat_add_left_cancel_less not_less)
    then show ?thesis using assms(1) by (simp add: only_cluster_def)
  qed
  then have "cluster_sectors vol D' c' = cluster_sectors vol D c'" by (simp add: cluster_sectors_def)
  then show ?thesis by (simp add: cluster_data_def)
qed

lemma only_cluster_fat:
  assumes "vol_ok vol" "only_cluster vol c D D'" "x < clusters vol"
  shows "fat_get vol D' x = fat_get vol D x"
proof -
  have "fat_start_lba vol + x div 128 < cluster_lba vol c"
    using fat_place(3) [OF assms(1,3)] by (simp add: cluster_lba_def)
  then show ?thesis using assms(2) by (simp add: fat_get_def only_cluster_def)
qed

lemma cluster_data_update:
  assumes "disk_ok D" "i < sectors_per_cluster vol" "off + length part \<le> 512" "s = cluster_lba vol c + i"
  shows "cluster_data vol (D(s := overwrite off part (D s))) c = overwrite (i * 512 + off) part (cluster_data vol D c)"
proof -
  have "cluster_sectors vol (D(s := overwrite off part (D s))) c = (cluster_sectors vol D c)[i := overwrite off part (cluster_sectors vol D c ! i)]"
    using assms(2,4) by (intro nth_equalityI) (auto simp: cluster_sectors_def nth_list_update)
  then show ?thesis
    using concat_blocks_overwrite [OF blocks_cluster_sectors [OF assms(1)], of i vol c off part] assms(2,3)
    by (simp add: cluster_data_def cluster_sectors_def)
qed

lemma write_sector_step:
  assumes "device_ok vol content" "vol_ok vol" "fat_ok vol content w" "2 \<le> c" "c < clusters vol" "i < sectors_per_cluster vol"
    "D = content (fw_dev w)" "s = cluster_lba vol c + i" "off < 512" "part = take chunk (drop bw buffer)" "length part = chunk"
    "fat_chunk vol sz bw off = chunk" "off + chunk \<le> 512" "bw < sz" "bw + chunk < 2 ^ 32"
  shows "\<exists>w'. write_sector_loop vol buffer sz (cluster_lba vol c) (Suc n) i off bw w =
      write_sector_loop vol buffer sz (cluster_lba vol c) n (Suc i) 0 (bw + chunk) w' \<and>
    fat_ok vol content w' \<and> content (fw_dev w') = D(s := overwrite off part (D s))"
proof -
  have b: "bytes_per_sector vol = 512" using assms(2) by (simp add: vol_ok_def)
  note lba = cluster_lba_bound [OF assms(2,4,5,6)]
  have s: "s < 2 ^ 32" "add32 (cluster_lba vol c) i = s" using lba(1,3) assms(8) by simp_all
  have len: "length (D s) = 512" using device_disk_ok [OF assms(1)] assms(7) by (simp add: disk_ok_def)
  have a: "add32 bw chunk = bw + chunk" using assms(15) by (simp add: wrap_simps)
  show ?thesis
  proof (cases "off = 0 \<and> chunk = 512")
    case True
    then have o: "overwrite off part (D s) = part" using len assms(11) by (simp add: overwrite_def)
    obtain w1 where "fat32_write_sector_cached vol s part w = Some (True, w1)" "fat_ok vol content w1" "content (fw_dev w1) = D(s := part)"
      using write_cached_ok [OF assms(1,3) s(1), of part] True assms(7,11) b by auto
    then show ?thesis using True o s(2) b a assms(10,11,12,14) by (auto simp: Let_def)
  next
    case False
    obtain w1 where w1: "fat32_read_sector_cached vol 512 s w = Some (Some (D s), w1)" "fat_ok vol content w1" "fw_dev w1 = fw_dev w"
      using read_cached_ok [OF assms(1,3) s(1), of 512] assms(7) by auto
    obtain w2 where "fat32_write_sector_cached vol s (overwrite off part (D s)) w1 = Some (True, w2)" "fat_ok vol content w2"
      "content (fw_dev w2) = D(s := overwrite off part (D s))"
      using write_cached_ok [OF assms(1) w1(2) s(1), of "overwrite off part (D s)"] len assms(7,11,13) b w1(3)
      by (auto simp: length_overwrite)
    then show ?thesis using False w1(1) s(2) b a assms(10,11,12,13,14) len by (auto simp: Let_def)
  qed
qed

lemma write_sector_loop_ok:
  assumes "device_ok vol content" "vol_ok vol" "2 \<le> c" "c < clusters vol" "sz + 512 \<le> 2 ^ 32" "sz \<le> length buffer"
  shows "fat_ok vol content w \<Longrightarrow> i + n = sectors_per_cluster vol \<Longrightarrow> off < 512 \<Longrightarrow> bw \<le> sz \<Longrightarrow> D = content (fw_dev w) \<Longrightarrow>
    m = min (sz - bw) (n * 512 - off) \<Longrightarrow>
    \<exists>w'. write_sector_loop vol buffer sz (cluster_lba vol c) n i off bw w = Some (bw + m, w') \<and> fat_ok vol content w' \<and>
      only_cluster vol c D (content (fw_dev w')) \<and>
      cluster_data vol (content (fw_dev w')) c = overwrite (i * 512 + off) (take m (drop bw buffer)) (cluster_data vol D c)"
proof (induction n arbitrary: i off bw w m D)
  case 0
  then show ?case by (simp add: only_cluster_def)
next
  case (Suc n)
  have b: "bytes_per_sector vol = 512" using assms(2) by (simp add: vol_ok_def)
  have dok: "disk_ok D" using device_disk_ok [OF assms(1)] Suc.prems(5) by simp
  show ?case
  proof (cases "bw = sz")
    case True
    then show ?thesis using Suc.prems by (simp add: only_cluster_def)
  next
    case False
    then have lt: "bw < sz" using Suc.prems(4) by simp
    define chunk part s where "chunk = min (512 - off) (sz - bw)" and "part = take chunk (drop bw buffer)"
      and "s = cluster_lba vol c + i"
    have i: "i < sectors_per_cluster vol" using Suc.prems(2) by simp
    have ch: "fat_chunk vol sz bw off = chunk" "off + chunk \<le> 512" "bw + chunk < 2 ^ 32" "length part = chunk"
      using chunk_exact [OF b Suc.prems(3) lt assms(5)] Suc.prems(3) lt assms(5,6) by (auto simp: chunk_def part_def)
    let ?D1 = "D(s := overwrite off part (D s))"
    obtain w1 where w1: "write_sector_loop vol buffer sz (cluster_lba vol c) (Suc n) i off bw w =
        write_sector_loop vol buffer sz (cluster_lba vol c) n (Suc i) 0 (bw + chunk) w1" "fat_ok vol content w1" "content (fw_dev w1) = ?D1"
      using write_sector_step [OF assms(1,2) Suc.prems(1) assms(3,4) i Suc.prems(5) s_def Suc.prems(3) part_def ch(4,1,2) lt ch(3)]
      by blast
    define m' where "m' = min (sz - (bw + chunk)) (n * 512)"
    have m: "m = chunk + m'" "chunk < 512 - off \<Longrightarrow> m' = 0"
      using Suc.prems(3,6) lt unfolding m'_def chunk_def min_def mult_Suc by (auto split: if_splits)
    have pr: "Suc i + n = sectors_per_cluster vol" "(0::nat) < 512" "bw + chunk \<le> sz" "?D1 = content (fw_dev w1)"
      "m' = min (sz - (bw + chunk)) (n * 512 - 0)"
      using Suc.prems(2) lt w1(3) by (simp_all add: chunk_def m'_def)
    obtain w2 where w2: "write_sector_loop vol buffer sz (cluster_lba vol c) n (Suc i) 0 (bw + chunk) w1 = Some (bw + chunk + m', w2)"
      "fat_ok vol content w2" "only_cluster vol c ?D1 (content (fw_dev w2))"
      "cluster_data vol (content (fw_dev w2)) c = overwrite (Suc i * 512 + 0) (take m' (drop (bw + chunk) buffer)) (cluster_data vol ?D1 c)"
      using Suc.IH [OF w1(2) pr] by blast
    have oc: "only_cluster vol c D (content (fw_dev w2))"
      by (rule only_cluster_trans [OF _ w2(3)]) (use i in \<open>auto simp: only_cluster_def s_def\<close>)
    have cd: "cluster_data vol ?D1 c = overwrite (i * 512 + off) part (cluster_data vol D c)"
      using cluster_data_update [OF dok i _ s_def, of off part] ch(2,4) by simp
    have tk: "take m (drop bw buffer) = part @ take m' (drop (bw + chunk) buffer)"
      using m(1) by (simp add: part_def take_add add.commute)
    have "cluster_data vol (content (fw_dev w2)) c = overwrite (i * 512 + off) (take m (drop bw buffer)) (cluster_data vol D c)"
    proof (cases "chunk = 512 - off")
      case True
      then have p: "Suc i * 512 + 0 = i * 512 + off + length part" using ch(4) Suc.prems(3) by simp
      have "m' \<le> n * 512" by (simp add: m'_def)
      then have "i * 512 + off + length part + length (take m' (drop (bw + chunk) buffer)) \<le> csize vol"
        using p Suc.prems(2) by (simp add: csize_def algebra_simps)
      then show ?thesis
        unfolding w2(4) cd tk p using overwrite_append length_cluster_data [OF dok, of vol c] by metis
    next
      case False
      then have "m' = 0" using m(2) ch(2) by auto
      then show ?thesis using w2(4) cd tk by simp
    qed
    then show ?thesis using w1(1) w2(1,2) oc m(1) by (simp add: add.assoc)
  qed
qed

section \<open>Writing past the end of the chain\<close>

definition in_fat :: "'d fat32_volume \<Rightarrow> nat \<Rightarrow> bool" where
  "in_fat vol s \<longleftrightarrow> fat_start_lba vol \<le> s \<and> s < fat_start_lba vol + fat_size vol"

definition in_clusters :: "'d fat32_volume \<Rightarrow> nat list \<Rightarrow> nat \<Rightarrow> bool" where
  "in_clusters vol cs s \<longleftrightarrow> (\<exists>c \<in> set cs. cluster_lba vol c \<le> s \<and> s < cluster_lba vol c + sectors_per_cluster vol)"

text \<open>What lies outside the clusters \<open>cs\<close> and their table entries is the same on both disks.\<close>

definition same_outside :: "'d fat32_volume \<Rightarrow> nat list \<Rightarrow> disk \<Rightarrow> disk \<Rightarrow> bool" where
  "same_outside vol cs D D' \<longleftrightarrow>
     (\<forall>s. \<not> in_fat vol s \<and> \<not> in_clusters vol cs s \<longrightarrow> D' s = D s) \<and>
     (\<forall>x < clusters vol. x \<notin> set cs \<longrightarrow> fat_get vol D' x = fat_get vol D x)"

lemma same_outside_trans:
  "same_outside vol cs D D1 \<Longrightarrow> same_outside vol cs' D1 D2 \<Longrightarrow> set cs \<subseteq> set cs'' \<Longrightarrow> set cs' \<subseteq> set cs'' \<Longrightarrow>
     same_outside vol cs'' D D2"
  unfolding same_outside_def in_clusters_def by (metis subsetD)

lemma same_outside_data:
  assumes "same_outside vol cs D D'" "vol_ok vol" "2 \<le> x" "\<forall>c \<in> set cs. 2 \<le> c" "x \<notin> set cs"
  shows "cluster_data vol D' x = cluster_data vol D x"
proof -
  have "D' (cluster_lba vol x + k) = D (cluster_lba vol x + k)" if k: "k < sectors_per_cluster vol" for k
  proof -
    have "\<not> in_fat vol (cluster_lba vol x + k)" using assms(2) by (auto simp: in_fat_def vol_ok_def cluster_lba_def)
    moreover have "\<not> in_clusters vol cs (cluster_lba vol x + k)"
      unfolding in_clusters_def using cluster_disjoint [of x _ k vol] assms(3,4,5) k
      by (metis add_diff_inverse_nat nat_add_left_cancel_less not_less)
    ultimately show ?thesis using assms(1) by (simp add: same_outside_def)
  qed
  then have "cluster_sectors vol D' x = cluster_sectors vol D x" by (simp add: cluster_sectors_def)
  then show ?thesis by (simp add: cluster_data_def)
qed

lemma only_cluster_outside:
  "vol_ok vol \<Longrightarrow> only_cluster vol c D D' \<Longrightarrow> same_outside vol [c] D D'"
  using only_cluster_fat [of vol c D D'] by (auto simp: same_outside_def only_cluster_def in_clusters_def)

lemma in_fat_put:
  assumes "x < clusters vol" "\<not> in_fat vol s"
  shows "fat_put vol x v D s = D s"
proof -
  have "x div 128 < fat_size vol" using assms(1) by (simp add: clusters_def less_mult_imp_div_less mult.commute)
  then show ?thesis using assms(2) by (auto simp: fat_put_def in_fat_def)
qed

lemma fat_get_zero:
  assumes "vol_ok vol" "x < clusters vol"
  shows "fat_get vol (zero_cluster vol c D) x = fat_get vol D x"
proof -
  have "fat_start_lba vol + x div 128 < cluster_lba vol c"
    using fat_place(3) [OF assms] by (simp add: cluster_lba_def)
  then show ?thesis by (simp add: fat_get_def zero_cluster_def)
qed

lemma disk_ok_zero: "disk_ok D \<Longrightarrow> disk_ok (zero_cluster vol c D)"
  by (simp add: disk_ok_def zero_cluster_def)

text \<open>Appending a fresh cluster \<open>c\<close> to a chain that ends with \<open>x\<close>.\<close>

definition link_new :: "'d fat32_volume \<Rightarrow> nat \<Rightarrow> nat \<Rightarrow> disk \<Rightarrow> disk" where
  "link_new vol x c D = fat_put vol x c (zero_cluster vol c (fat_put vol c FAT32_EOC D))"

lemma link_new_fat:
  assumes "vol_ok vol" "disk_ok D" "y < clusters vol" "x \<noteq> c" "c < clusters vol"
  shows "fat_get vol (link_new vol x c D) y = (if y = x then c else if y = c then FAT32_EOC else fat_get vol D y)"
proof -
  have "c mod 2 ^ 28 = c" "FAT32_EOC mod 2 ^ 28 = FAT32_EOC"
    using clusters_eoc [OF assms(1,5)] by (simp_all add: FAT32_EOC_def)
  then show ?thesis
    using assms by (simp add: link_new_def fat_get_put fat_get_zero disk_ok_zero disk_ok_put)
qed

lemma link_new_outside:
  assumes "vol_ok vol" "disk_ok D" "x \<noteq> c" "x < clusters vol" "c < clusters vol"
  shows "same_outside vol [x, c] D (link_new vol x c D)"
proof -
  have "link_new vol x c D s = D s" if "\<not> in_fat vol s" "\<not> in_clusters vol [x, c] s" for s
    using that assms by (auto simp: link_new_def in_fat_put in_clusters_def zero_cluster_def)
  moreover have "fat_get vol (link_new vol x c D) y = fat_get vol D y" if "y < clusters vol" "y \<notin> {x, c}" for y
    using that link_new_fat [OF assms(1,2) that(1) assms(3,5)] by auto
  ultimately show ?thesis by (simp add: same_outside_def)
qed

lemma link_new_data:
  assumes "vol_ok vol" "2 \<le> c" "c < clusters vol" "x < clusters vol"
  shows "cluster_data vol (link_new vol x c D) c = replicate (csize vol) 0"
proof -
  have "\<not> in_fat vol (cluster_lba vol c + k)" for k using assms(1) by (auto simp: in_fat_def vol_ok_def cluster_lba_def)
  then have "cluster_sectors vol (link_new vol x c D) c = replicate (sectors_per_cluster vol) (replicate 512 0)"
    using assms(4) by (intro nth_equalityI) (auto simp: cluster_sectors_def link_new_def in_fat_put zero_cluster_def)
  moreover have "concat (replicate n (replicate 512 y)) = replicate (512 * n) y" for n and y :: u8
    by (induction n) (simp_all add: replicate_add [symmetric])
  ultimately show ?thesis by (simp add: cluster_data_def csize_def)
qed

lemma link_new_data_other:
  assumes "vol_ok vol" "2 \<le> y" "2 \<le> c" "y \<noteq> c" "x < clusters vol" "c < clusters vol"
  shows "cluster_data vol (link_new vol x c D) y = cluster_data vol D y"
proof -
  have f: "\<not> in_fat vol (cluster_lba vol y + k)" for k using assms(1) by (auto simp: in_fat_def vol_ok_def cluster_lba_def)
  have "zero_cluster vol c D0 (cluster_lba vol y + k) = D0 (cluster_lba vol y + k)" if "k < sectors_per_cluster vol" for k D0
    using cluster_disjoint [OF assms(4,2,3) that] by (auto simp: zero_cluster_def) (metis add_diff_inverse_nat nat_add_left_cancel_less not_less)
  then have "cluster_sectors vol (link_new vol x c D) y = cluster_sectors vol D y"
    using f assms(5,6) by (simp add: cluster_sectors_def link_new_def in_fat_put)
  then show ?thesis by (simp add: cluster_data_def)
qed

text \<open>The free clusters of a disk.\<close>

definition free_set :: "'d fat32_volume \<Rightarrow> disk \<Rightarrow> nat set" where
  "free_set vol D = {c. c < clusters vol \<and> is_free vol D c}"

lemma finite_free_set [simp]: "finite (free_set vol D)"
  by (simp add: free_set_def)

lemma free_set_cong: "(\<And>c. c < clusters vol \<Longrightarrow> fat_get vol D' c = fat_get vol D c) \<Longrightarrow> free_set vol D' = free_set vol D"
  by (auto simp: free_set_def is_free_def)

lemma find_free:
  assumes "free_set vol D \<noteq> {}"
  shows "\<exists>c. find (is_free vol D) [0..<clusters vol] = Some c \<and> c \<in> free_set vol D"
proof (cases "find (is_free vol D) [0..<clusters vol]")
  case None
  then show ?thesis using assms by (auto simp: find_None_iff free_set_def)
next
  case (Some c)
  then show ?thesis using find_upt_Some [OF Some] by (auto simp: free_set_def)
qed

lemma free_set_link:
  assumes "vol_ok vol" "disk_ok D" "c \<in> free_set vol D" "x < clusters vol" "x \<notin> free_set vol D" "2 \<le> x"
  shows "free_set vol (link_new vol x c D) = free_set vol D - {c}"
proof -
  have c: "c < clusters vol" "2 \<le> c" "x \<noteq> c" using assms(3,5) by (auto simp: free_set_def is_free_def)
  have "FAT32_EOC \<noteq> 0" by (simp add: FAT32_EOC_def)
  then show ?thesis
    using link_new_fat [OF assms(1,2) _ c(3,1)] c assms(4,5) by (auto simp: free_set_def is_free_def split: if_splits)
qed

text \<open>Overwriting across a boundary.\<close>

lemma overwrite_within: "co + length p \<le> length a \<Longrightarrow> overwrite co p a @ b = overwrite co p (a @ b)"
  by (simp add: overwrite_def)

lemma overwrite_across:
  "co + length p = length a \<Longrightarrow> length q \<le> length b \<Longrightarrow> overwrite co p a @ overwrite 0 q b = overwrite co (p @ q) (a @ b)"
proof -
  assume a: "co + length p = length a" "length q \<le> length b"
  then have "co + (length p + length q) - length a = length q" by simp
  then show ?thesis using a by (simp add: overwrite_def)
qed

text \<open>What a write of the bytes \<open>new\<close> at offset \<open>co\<close> of the chain \<open>cs\<close> has done when clusters \<open>ns\<close> have
  been appended.\<close>

definition written :: "'d fat32_volume \<Rightarrow> nat \<Rightarrow> nat list \<Rightarrow> nat list \<Rightarrow> nat \<Rightarrow> u8 list \<Rightarrow> disk \<Rightarrow> disk \<Rightarrow> bool" where
  "written vol cur cs ns co new D D' \<longleftrightarrow>
     file_chain vol D' cur (cs @ ns) \<and> distinct (cs @ ns) \<and> set ns \<subseteq> free_set vol D \<and>
     file_data vol D' (cs @ ns) = overwrite co new (file_data vol D cs @ replicate (length ns * csize vol) 0) \<and>
     same_outside vol (cs @ ns) D D'"

lemma file_chain_free: "file_chain vol D c cs \<Longrightarrow> x \<in> set cs \<Longrightarrow> x \<notin> free_set vol D"
proof (induction cs arbitrary: c)
  case (Cons y ys)
  have "fat_get vol D y \<noteq> 0" using Cons.prems(1) by (cases ys) (auto simp: FAT32_EOC_def)
  then show ?case using Cons by (auto simp: free_set_def is_free_def)
qed simp

lemma file_chain_cong:
  "(\<And>x. x \<in> set cs \<Longrightarrow> fat_get vol D' x = fat_get vol D x) \<Longrightarrow> file_chain vol D' c cs = file_chain vol D c cs"
  by (induction cs arbitrary: c) auto

lemma file_data_cong:
  "(\<And>x. x \<in> set cs \<Longrightarrow> cluster_data vol D' x = cluster_data vol D x) \<Longrightarrow> file_data vol D' cs = file_data vol D cs"
  by (simp add: file_data_def cong: map_cong)

lemma file_data_Cons: "file_data vol D (x # xs) = cluster_data vol D x @ file_data vol D xs"
  by (simp add: file_data_def)

text \<open>The first cluster done, the rest by the remaining iterations.\<close>

lemma written_Cons:
  assumes "vol_ok vol" "disk_ok D" "only_cluster vol x D D1" "cluster_data vol D1 x = overwrite co p (cluster_data vol D x)"
    "co + length p = csize vol" "written vol y (y # ys) ns 0 q D1 D'" "file_chain vol D x (x # y # ys)" "distinct (x # y # ys)"
    "length q \<le> length ys * csize vol + csize vol + length ns * csize vol"
  shows "written vol x (x # y # ys) ns co (p @ q) D D'"
proof -
  have w: "file_chain vol D' y (y # ys @ ns)" "distinct (y # ys @ ns)" "set ns \<subseteq> free_set vol D1"
    "file_data vol D' (y # ys @ ns) = overwrite 0 q (file_data vol D1 (y # ys) @ replicate (length ns * csize vol) 0)"
    "same_outside vol (y # ys @ ns) D1 D'"
    using assms(6) by (simp_all add: written_def)
  have x: "2 \<le> x" "x < clusters vol" "fat_get vol D x = y" using assms(7) by auto
  have fr: "free_set vol D1 = free_set vol D" using only_cluster_fat [OF assms(1,3)] by (intro free_set_cong) auto
  have xn: "x \<notin> set ns" using file_chain_free [OF assms(7), of x] w(3) fr by auto
  then have xf: "x \<notin> set (y # ys @ ns)" using assms(8) by auto
  have fx: "fat_get vol D' x = y"
    using w(5) xf x only_cluster_fat [OF assms(1,3) x(2)] by (simp add: same_outside_def)
  have ge: "\<forall>c \<in> set (y # ys @ ns). 2 \<le> c" using file_chain_clusters [OF w(1)] by auto
  have dx: "cluster_data vol D' x = overwrite co p (cluster_data vol D x)"
    using same_outside_data [OF w(5) assms(1) x(1) ge xf] assms(4) by simp
  have dr: "file_data vol D1 (y # ys) = file_data vol D (y # ys)"
  proof (rule file_data_cong)
    fix z assume z: "z \<in> set (y # ys)"
    then have "z \<noteq> x" "2 \<le> z" using assms(8) ge by auto
    then show "cluster_data vol D1 z = cluster_data vol D z" using only_cluster_other [OF assms(3) _ x(1)] by simp
  qed
  have "file_data vol D' (x # y # ys @ ns) = overwrite co (p @ q) (file_data vol D (x # y # ys) @ replicate (length ns * csize vol) 0)"
  proof -
    have "co + length p = length (cluster_data vol D x)"
      "length q \<le> length (file_data vol D (y # ys) @ replicate (length ns * csize vol) 0)"
      using assms(5,9) length_cluster_data [OF assms(2), of vol x] length_file_data [OF assms(2), of vol "y # ys"] by simp_all
    from overwrite_across [OF this] show ?thesis using dx w(4) dr by (simp add: file_data_Cons [of vol _ x])
  qed
  moreover have "same_outside vol ((x # y # ys) @ ns) D D'"
    by (rule same_outside_trans [OF only_cluster_outside [OF assms(1,3)] w(5)]) auto
  ultimately show ?thesis using w x fx xn assms(8) fr by (simp add: written_def)
qed

lemma written_link:
  assumes "vol_ok vol" "disk_ok D" "disk_ok D1" "only_cluster vol x D D1" "cluster_data vol D1 x = overwrite co p (cluster_data vol D x)"
    "co + length p = csize vol" "c \<in> free_set vol D" "written vol c [c] ns 0 q (link_new vol x c D1) D'" "file_chain vol D x [x]"
    "length q \<le> csize vol + length ns * csize vol"
  shows "written vol x [x] (c # ns) co (p @ q) D D'"
proof -
  let ?D3 = "link_new vol x c D1"
  have w: "file_chain vol D' c (c # ns)" "distinct (c # ns)" "set ns \<subseteq> free_set vol ?D3"
    "file_data vol D' (c # ns) = overwrite 0 q (cluster_data vol ?D3 c @ replicate (length ns * csize vol) 0)"
    "same_outside vol (c # ns) ?D3 D'"
    using assms(8) by (simp_all add: written_def file_data_def)
  have x: "2 \<le> x" "x < clusters vol" using assms(9) by auto
  have fr: "free_set vol D1 = free_set vol D" using only_cluster_fat [OF assms(1,4)] by (intro free_set_cong) auto
  have xf: "x \<notin> free_set vol D1" using file_chain_free [OF assms(9), of x] fr by simp
  have "x \<noteq> c" using assms(7) xf unfolding fr by blast
  moreover have "2 \<le> c" "c < clusters vol" using assms(7) by (auto simp: free_set_def is_free_def)
  ultimately have c: "2 \<le> c" "c < clusters vol" "x \<noteq> c" by simp_all
  have f3: "free_set vol ?D3 = free_set vol D - {c}"
    using free_set_link [OF assms(1,3) _ x(2) xf x(1), of c] assms(7) unfolding fr by blast
  have xn: "x \<notin> set (c # ns)" using w(3) xf c(3) unfolding f3 fr by auto
  have fx: "fat_get vol D' x = c"
    using w(5) xn x(2) link_new_fat [OF assms(1,3) x(2) c(3,2)] by (simp add: same_outside_def)
  have ge: "\<forall>z \<in> set (c # ns). 2 \<le> z" using file_chain_clusters [OF w(1)] by auto
  have dx: "cluster_data vol D' x = overwrite co p (cluster_data vol D x)"
    using same_outside_data [OF w(5) assms(1) x(1) ge xn] link_new_data_other [OF assms(1) x(1) c(1,3) x(2) c(2)] assms(5) by simp
  have "file_data vol D' (x # c # ns) = overwrite co (p @ q) (cluster_data vol D x @ replicate (length (c # ns) * csize vol) 0)"
  proof -
    have "co + length p = length (cluster_data vol D x)" "length q \<le> length (replicate (length (c # ns) * csize vol) (0 :: u8))"
      using assms(6,10) length_cluster_data [OF assms(2), of vol x] by simp_all
    from overwrite_across [OF this] show ?thesis
      using dx w(4) link_new_data [OF assms(1) c(1,2) x(2)] by (simp add: file_data_Cons [of vol _ x] replicate_add [symmetric])
  qed
  moreover have "same_outside vol ([x] @ c # ns) D D'"
  proof -
    have "same_outside vol [x, c] D ?D3"
      by (rule same_outside_trans [OF only_cluster_outside [OF assms(1,4)] link_new_outside [OF assms(1,3) c(3) x(2) c(2)]]) auto
    then show ?thesis by (rule same_outside_trans [OF _ w(5)]) auto
  qed
  ultimately show ?thesis using w x fx xn f3 assms(7) by (auto simp: written_def file_data_def)
qed

lemma alloc_link_ok:
  assumes "device_ok vol content" "vol_ok vol" "fat_ok vol content w" "D = content (fw_dev w)" "free_set vol D \<noteq> {}"
    "x < clusters vol"
  shows "\<exists>c w1 w2. fat32_alloc_cluster vol w = Some (0, c, w1) \<and> fat32_fat_set vol x c w1 = Some (0, w2) \<and>
    c \<in> free_set vol D \<and> fat_ok vol content w2 \<and> content (fw_dev w2) = link_new vol x c D"
proof -
  obtain c where c: "find (is_free vol D) [0..<clusters vol] = Some c" "c \<in> free_set vol D" using find_free [OF assms(5)] by auto
  obtain w1 where w1: "fat32_alloc_cluster vol w = Some (0, c, w1)" "fat_ok vol content w1"
    "content (fw_dev w1) = zero_cluster vol c (fat_put vol c FAT32_EOC D)"
    using alloc_ok [OF assms(1-4)] c(1) by auto
  obtain w2 where w2: "fat32_fat_set vol x c w1 = Some (0, w2)" "fat_ok vol content w2" "content (fw_dev w2) = fat_put vol x c (content (fw_dev w1))"
    using fat_set_ok [OF assms(1,2) w1(2) assms(6)] by auto
  show ?thesis using w1 w2 c(2) by (auto simp: link_new_def)
qed

lemma write_cluster_step:
  assumes "device_ok vol content" "vol_ok vol" "sz + 512 \<le> 2 ^ 32" "sz \<le> length buffer" "fat_ok vol content w"
    "2 \<le> x" "x < clusters vol" "co < csize vol" "bw < sz" "D = content (fw_dev w)" "m = min (sz - bw) (csize vol - co)"
  shows "\<exists>w2. fat_ok vol content w2 \<and> only_cluster vol x D (content (fw_dev w2)) \<and>
    cluster_data vol (content (fw_dev w2)) x = overwrite co (take m (drop bw buffer)) (cluster_data vol D x) \<and>
    write_cluster_loop vol buffer sz x co bw w =
      (if fat_get vol D x \<ge> FAT32_EOC \<and> bw + m < sz then do {
         (r, new_cluster, w3) \<leftarrow> fat32_alloc_cluster vol w2;
         if r \<noteq> 0 then Some (bw + m, w3)
         else do {
           (r', w4) \<leftarrow> fat32_fat_set vol x new_cluster w3;
           write_cluster_loop vol buffer sz new_cluster 0 (bw + m) w4
         }
       }
       else write_cluster_loop vol buffer sz (fat_get vol D x) 0 (bw + m) w2)"
proof -
  have b: "bytes_per_sector vol = 512" using assms(2) by (simp add: vol_ok_def)
  define first off where "first = co div 512" and "off = co mod 512"
  have fo: "first * 512 + off = co" by (simp add: first_def off_def)
  have fs: "first < sectors_per_cluster vol"
    using assms(8) by (simp add: first_def csize_def less_mult_imp_div_less mult.commute)
  have av: "(sectors_per_cluster vol - first) * 512 - off = csize vol - co"
    using fo by (simp add: csize_def diff_mult_distrib mult.commute)
  have pr: "first + (sectors_per_cluster vol - first) = sectors_per_cluster vol" "off < 512" "bw \<le> sz" "D = content (fw_dev w)"
    "m = min (sz - bw) ((sectors_per_cluster vol - first) * 512 - off)"
    using fs assms(9-11) av by (simp_all add: off_def)
  obtain w1 where w1: "write_sector_loop vol buffer sz (cluster_lba vol x) (sectors_per_cluster vol - first) first off bw w = Some (bw + m, w1)"
    "fat_ok vol content w1" "only_cluster vol x D (content (fw_dev w1))"
    "cluster_data vol (content (fw_dev w1)) x = overwrite co (take m (drop bw buffer)) (cluster_data vol D x)"
    using write_sector_loop_ok [OF assms(1,2,6,7,3,4,5) pr] unfolding fo by blast
  obtain w2 where w2: "fat32_get_next_cluster vol x w1 = Some (fat_get vol D x, w2)" "fat_ok vol content w2" "fw_dev w2 = fw_dev w1"
    using get_next_ok [OF assms(1,2) w1(2) assms(7)] only_cluster_fat [OF assms(2) w1(3) assms(7)] by auto
  have e: "fat32_cluster_to_lba vol x = cluster_lba vol x" by (rule cluster_lba_bound(2) [OF assms(2,6,7) fs])
  show ?thesis
    using w1 w2 assms(6,9) clusters_eoc [OF assms(2,7)] b e
    by (intro exI [of _ w2])
      (simp add: write_cluster_loop.simps [of vol buffer sz x] first_def [symmetric] off_def [symmetric] Let_def)
qed

lemma write_cluster_loop_ok:
  assumes "device_ok vol content" "vol_ok vol" "sz + 512 \<le> 2 ^ 32" "sz \<le> length buffer"
  shows "fat_ok vol content w \<Longrightarrow> file_chain vol D x (x # xs) \<Longrightarrow> distinct (x # xs) \<Longrightarrow> co < csize vol \<Longrightarrow> bw < sz \<Longrightarrow>
    D = content (fw_dev w) \<Longrightarrow> k \<le> card (free_set vol D) \<Longrightarrow> co + (sz - bw) \<le> (Suc (length xs) + k) * csize vol \<Longrightarrow>
    \<exists>ns w'. write_cluster_loop vol buffer sz x co bw w = Some (sz, w') \<and> fat_ok vol content w' \<and>
      length ns \<le> k \<and> co + (sz - bw) \<le> (Suc (length xs) + length ns) * csize vol \<and>
      written vol x (x # xs) ns co (take (sz - bw) (drop bw buffer)) D (content (fw_dev w'))"
proof (induction "sz - bw" arbitrary: w x xs co bw D k rule: less_induct)
  case less
  note p = less.prems
  have x: "2 \<le> x" "x < clusters vol" using p(2) by auto
  have dok: "disk_ok D" using device_disk_ok [OF assms(1)] p(6) by simp
  define m where "m = min (sz - bw) (csize vol - co)"
  obtain w2 where w2: "fat_ok vol content w2" "only_cluster vol x D (content (fw_dev w2))"
    "cluster_data vol (content (fw_dev w2)) x = overwrite co (take m (drop bw buffer)) (cluster_data vol D x)"
    and e: "write_cluster_loop vol buffer sz x co bw w =
      (if fat_get vol D x \<ge> FAT32_EOC \<and> bw + m < sz then do {
         (r, new_cluster, w3) \<leftarrow> fat32_alloc_cluster vol w2;
         if r \<noteq> 0 then Some (bw + m, w3)
         else do {
           (r', w4) \<leftarrow> fat32_fat_set vol x new_cluster w3;
           write_cluster_loop vol buffer sz new_cluster 0 (bw + m) w4
         }
       }
       else write_cluster_loop vol buffer sz (fat_get vol D x) 0 (bw + m) w2)"
    using write_cluster_step [OF assms p(1) x p(4,5,6) m_def] by blast
  define D1 where "D1 = content (fw_dev w2)"
  have d1: "disk_ok D1" using device_disk_ok [OF assms(1)] by (simp add: D1_def)
  note oc = w2(2) [folded D1_def] and cd = w2(3) [folded D1_def]
  have fr: "free_set vol D1 = free_set vol D" using only_cluster_fat [OF assms(2) oc] by (intro free_set_cong) auto
  have same: "file_chain vol D1 c zs = file_chain vol D c zs" if "set zs \<subseteq> {..<clusters vol}" for c zs
    using only_cluster_fat [OF assms(2) oc] that by (intro file_chain_cong) auto
  have lp: "length (take m (drop bw buffer)) = m" using assms(4) p(5) by (simp add: m_def)
  show ?case
  proof (cases "bw + m < sz")
    case False
    then have bm: "bw + m = sz" using p(5) by (simp add: m_def)
    have "write_cluster_loop vol buffer sz (fat_get vol D x) 0 sz w2 = Some (sz, w2)"
      by (simp add: write_cluster_loop.simps [of vol buffer sz _ 0 sz])
    then have r: "write_cluster_loop vol buffer sz x co bw w = Some (sz, w2)" using e bm by simp
    have m: "m = sz - bw" "co + m \<le> csize vol" using bm p(4) by (auto simp: m_def)
    have "file_data vol D1 (x # xs) = overwrite co (take m (drop bw buffer)) (file_data vol D (x # xs))"
    proof -
      have "file_data vol D1 xs = file_data vol D xs"
      proof (rule file_data_cong)
        fix y assume "y \<in> set xs"
        then have "y \<noteq> x" "2 \<le> y" using p(3) file_chain_clusters [OF p(2), of y] by auto
        then show "cluster_data vol D1 y = cluster_data vol D y" by (rule only_cluster_other [OF oc _ x(1)])
      qed
      then show ?thesis
        using cd overwrite_within [of co "take m (drop bw buffer)" "cluster_data vol D x"] m(2) lp length_cluster_data [OF dok, of vol x]
        by (simp add: file_data_Cons)
    qed
    moreover have "file_chain vol D1 x (x # xs)" using same [of "x # xs" x] p(2) file_chain_clusters [OF p(2)] by auto
    moreover have "same_outside vol (x # xs) D D1"
      using same_outside_trans [OF only_cluster_outside [OF assms(2) oc], of "[x]" D1 "x # xs"] by (auto simp: same_outside_def)
    ultimately have "written vol x (x # xs) [] co (take (sz - bw) (drop bw buffer)) D D1"
      using p(3) m(1) by (simp add: written_def)
    then show ?thesis using r w2(1) m by (intro exI [of _ "[]"] exI [of _ w2]) (simp add: D1_def)
  next
    case True
    have m: "m = csize vol - co" "co + m = csize vol" "0 < m" using True p(4) by (auto simp: m_def)
    have dec: "sz - (bw + m) < sz - bw" using m(3) True by simp
    have z: "(0::nat) < csize vol" using p(4) by simp
    have tk: "take (sz - bw) (drop bw buffer) = take m (drop bw buffer) @ take (sz - (bw + m)) (drop (bw + m) buffer)"
    proof -
      have "sz - bw = m + (sz - (bw + m))" using True by simp
      then show ?thesis by (metis add.commute drop_drop take_add)
    qed
    have lq: "length (take (sz - (bw + m)) (drop (bw + m) buffer)) = sz - (bw + m)" using assms(4) True by simp
    show ?thesis
    proof (cases xs)
      case (Cons y ys)
      have y: "fat_get vol D x = y" "y < FAT32_EOC" "file_chain vol D y (y # ys)" "distinct (y # ys)"
        using p(2,3) Cons clusters_eoc [OF assms(2)] by auto
      have y1: "file_chain vol D1 y (y # ys)" using same [of "y # ys" y] y(3) file_chain_clusters [OF y(3)] by auto
      have k: "k \<le> card (free_set vol D1)" "0 + (sz - (bw + m)) \<le> (Suc (length ys) + k) * csize vol"
        using p(7,8) fr Cons m True by auto
      from less.hyps [OF dec w2(1) y1 y(4) z True D1_def k] obtain ns w' where
        ns: "write_cluster_loop vol buffer sz y 0 (bw + m) w2 = Some (sz, w')" "fat_ok vol content w'" "length ns \<le> k"
          "0 + (sz - (bw + m)) \<le> (Suc (length ys) + length ns) * csize vol"
          "written vol y (y # ys) ns 0 (take (sz - (bw + m)) (drop (bw + m) buffer)) D1 (content (fw_dev w'))" by blast
      have "written vol x (x # y # ys) ns co (take (sz - bw) (drop bw buffer)) D (content (fw_dev w'))"
        unfolding tk using ns(4) p(2,3) Cons m(2) lp lq
        by (intro written_Cons [OF assms(2) dok oc cd _ ns(5)]) (simp_all add: algebra_simps)
      moreover have "co + (sz - bw) \<le> (Suc (length xs) + length ns) * csize vol" using ns(4) m True Cons by simp
      ultimately show ?thesis using e y(1,2) ns(1,2,3) Cons by auto
    next
      case Nil
      have eoc: "FAT32_EOC \<le> fat_get vol D x" using p(2) Nil by simp
      have k0: "0 < k" using p(8) Nil m True by (cases k) auto
      then have ne: "free_set vol D1 \<noteq> {}" using p(7) fr by auto
      obtain c w3 w4 where c: "fat32_alloc_cluster vol w2 = Some (0, c, w3)" "fat32_fat_set vol x c w3 = Some (0, w4)"
        "c \<in> free_set vol D1" "fat_ok vol content w4" "content (fw_dev w4) = link_new vol x c D1"
        using alloc_link_ok [OF assms(1,2) w2(1) D1_def ne x(2)] by auto
      let ?D3 = "link_new vol x c D1"
      have xf: "x \<notin> free_set vol D1" using file_chain_free [OF p(2), of x] fr by simp
      have cc: "2 \<le> c" "c < clusters vol" "x \<noteq> c" using c(3) xf by (auto simp: free_set_def is_free_def)
      have ch: "file_chain vol ?D3 c [c]" using cc link_new_fat [OF assms(2) d1 cc(2,3,2)] by simp
      have "free_set vol ?D3 = free_set vol D1 - {c}" by (rule free_set_link [OF assms(2) d1 c(3) x(2) xf x(1)])
      then have k: "k - 1 \<le> card (free_set vol ?D3)" "0 + (sz - (bw + m)) \<le> (Suc (length ([] :: nat list)) + (k - 1)) * csize vol"
        using p(7,8) fr c(3) k0 Nil m True by (auto simp: card_Diff_singleton)
      have "distinct [c]" by simp
      from less.hyps [OF dec c(4) ch this z True c(5) [symmetric] k] obtain ns w' where
        ns: "write_cluster_loop vol buffer sz c 0 (bw + m) w4 = Some (sz, w')" "fat_ok vol content w'" "length ns \<le> k - 1"
          "0 + (sz - (bw + m)) \<le> (Suc (length ([] :: nat list)) + length ns) * csize vol"
          "written vol c [c] ns 0 (take (sz - (bw + m)) (drop (bw + m) buffer)) ?D3 (content (fw_dev w'))" by blast
      have "written vol x [x] (c # ns) co (take (sz - bw) (drop bw buffer)) D (content (fw_dev w'))"
        unfolding tk using ns(4) p(2) Nil m(2) lp lq c(3) fr
        by (intro written_link [OF assms(2) dok d1 oc cd _ _ ns(5)]) simp_all
      moreover have "write_cluster_loop vol buffer sz x co bw w = Some (sz, w')" using e eoc True c(1,2) ns(1) by simp
      moreover have "co + (sz - bw) \<le> (Suc (length xs) + length (c # ns)) * csize vol" using ns(4) m True Nil by simp
      ultimately show ?thesis using ns(2,3) k0 Nil by (intro exI [of _ "c # ns"] exI [of _ w']) auto
    qed
  qed
qed

section \<open>The whole write\<close>

lemma file_chain_append_end:
  "file_chain vol D c (ps @ cs) \<Longrightarrow> cs \<noteq> [] \<Longrightarrow> file_chain vol D (hd cs) cs"
proof (induction ps arbitrary: c)
  case Nil
  then show ?case by (cases cs) auto
qed auto

lemma file_chain_prefix:
  assumes "file_chain vol D c (ps @ cs)" "cs \<noteq> []" "file_chain vol D' (hd cs) (cs @ ns)"
    "\<And>x. x \<in> set ps \<Longrightarrow> fat_get vol D' x = fat_get vol D x"
  shows "file_chain vol D' c (ps @ cs @ ns)"
  using assms(1,4)
proof (induction ps arbitrary: c)
  case Nil
  then show ?case using assms(2,3) by (cases cs) auto
qed auto

lemma written_prefix:
  assumes "vol_ok vol" "disk_ok D" "file_chain vol D cur (ps @ cs)" "distinct (ps @ cs)" "cs \<noteq> []"
    "written vol (hd cs) cs ns co new D D'" "co + length new \<le> (length cs + length ns) * csize vol"
  shows "written vol cur (ps @ cs) ns (length ps * csize vol + co) new D D'"
proof -
  have w: "file_chain vol D' (hd cs) (cs @ ns)" "distinct (cs @ ns)" "set ns \<subseteq> free_set vol D"
    "file_data vol D' (cs @ ns) = overwrite co new (file_data vol D cs @ replicate (length ns * csize vol) 0)"
    "same_outside vol (cs @ ns) D D'" using assms(6) by (simp_all add: written_def)
  have dj: "x \<notin> set (cs @ ns)" if "x \<in> set ps" for x
    using that assms(4) w(3) file_chain_free [OF assms(3), of x] by auto
  have cl: "2 \<le> x \<and> x < clusters vol" if "x \<in> set ps" for x using file_chain_clusters [OF assms(3)] that by simp
  have ge: "\<forall>c \<in> set (cs @ ns). 2 \<le> c" using file_chain_clusters [OF w(1)] by blast
  have "file_data vol D' ps = file_data vol D ps"
  proof (rule file_data_cong)
    fix y assume "y \<in> set ps"
    then show "cluster_data vol D' y = cluster_data vol D y"
      using same_outside_data [OF w(5) assms(1) _ ge] cl dj by blast
  qed
  then have "file_data vol D' (ps @ cs @ ns) =
      overwrite (length ps * csize vol + co) new (file_data vol D (ps @ cs) @ replicate (length ns * csize vol) 0)"
    using overwrite_middle [of co new "file_data vol D cs @ replicate (length ns * csize vol) 0" "file_data vol D ps" "[]"]
      w(4) assms(7) length_file_data [OF assms(2), of vol cs] length_file_data [OF assms(2), of vol ps]
    by (simp add: file_data_def add_mult_distrib)
  moreover have "file_chain vol D' cur (ps @ cs @ ns)"
    using w(5) dj cl by (intro file_chain_prefix [OF assms(3,5) w(1)]) (simp add: same_outside_def)
  moreover have "same_outside vol ((ps @ cs) @ ns) D D'"
    by (rule same_outside_trans [of vol "[]" D D, OF _ w(5)]) (auto simp: same_outside_def)
  moreover have "distinct ((ps @ cs) @ ns)" using assms(4) w(2) dj by auto
  ultimately show ?thesis using w(3) by (simp add: written_def)
qed

lemma seek_end_ok:
  assumes "device_ok vol content" "vol_ok vol"
  shows "fat_ok vol content w \<Longrightarrow> file_chain vol (content (fw_dev w)) c cs \<Longrightarrow>
    \<exists>e w'. seek_loop vol (length cs) c w = Some (e, w') \<and> FAT32_EOC \<le> e \<and> fat_ok vol content w' \<and> fw_dev w' = fw_dev w"
proof (induction cs arbitrary: c w)
  case (Cons x xs)
  have x: "c = x" "x < clusters vol" "file_chain vol (content (fw_dev w)) (fat_get vol (content (fw_dev w)) x) xs"
    using Cons.prems(2) by auto
  obtain w1 where w1: "fat32_get_next_cluster vol x w = Some (fat_get vol (content (fw_dev w)) x, w1)"
    "fat_ok vol content w1" "fw_dev w1 = fw_dev w" using get_next_ok [OF assms Cons.prems(1) x(2)] by auto
  then obtain e w' where "seek_loop vol (length xs) (fat_get vol (content (fw_dev w)) x) w1 = Some (e, w')" "FAT32_EOC \<le> e"
    "fat_ok vol content w'" "fw_dev w' = fw_dev w"
    using Cons.IH [OF w1(2), of "fat_get vol (content (fw_dev w)) x"] x(3) w1(3) by auto
  then show ?case using w1(1) x clusters_eoc [OF assms(2) x(2)] by auto
qed auto

lemma last_cluster_ok:
  assumes "device_ok vol content" "vol_ok vol"
  shows "fat_ok vol content w \<Longrightarrow> file_chain vol (content (fw_dev w)) c cs \<Longrightarrow> cs \<noteq> [] \<Longrightarrow>
    \<exists>w'. last_cluster_loop vol c w = Some (last cs, w') \<and> fat_ok vol content w' \<and> fw_dev w' = fw_dev w"
proof (induction cs arbitrary: c w)
  case (Cons x xs)
  let ?D = "content (fw_dev w)"
  have x: "c = x" "x < clusters vol" "file_chain vol ?D (fat_get vol ?D x) xs" using Cons.prems(2) by auto
  obtain w1 where w1: "fat32_get_next_cluster vol x w = Some (fat_get vol ?D x, w1)"
    "fat_ok vol content w1" "fw_dev w1 = fw_dev w" using get_next_ok [OF assms Cons.prems(1) x(2)] by auto
  show ?case
  proof (cases xs)
    case Nil
    then show ?thesis using w1 x by (auto simp: last_cluster_loop.simps [of vol x])
  next
    case (Cons y ys)
    then have "fat_get vol ?D x < FAT32_EOC" using x(3) clusters_eoc [OF assms(2)] by auto
    moreover obtain w' where "last_cluster_loop vol (fat_get vol ?D x) w1 = Some (last xs, w')" "fat_ok vol content w'" "fw_dev w' = fw_dev w"
      using Cons.IH [OF w1(2)] x(3) w1(3) Cons by auto
    ultimately show ?thesis using w1(1) x(1) Cons by (auto simp: last_cluster_loop.simps [of vol x])
  qed
qed simp

lemma link_new_chain:
  assumes "vol_ok vol" "disk_ok D" "file_chain vol D cur cs" "cs \<noteq> []" "distinct cs" "c \<in> free_set vol D"
  shows "file_chain vol (link_new vol (last cs) c D) cur (cs @ [c])" "last cs \<noteq> c" "c \<notin> set cs"
proof -
  show cs: "c \<notin> set cs" using assms(6) file_chain_free [OF assms(3)] by blast
  then show ne: "last cs \<noteq> c" using assms(4) last_in_set by metis
  have c: "2 \<le> c" "c < clusters vol" using assms(6) by (auto simp: free_set_def is_free_def)
  have fat: "fat_get vol (link_new vol (last cs) c D) y = (if y = last cs then c else if y = c then FAT32_EOC else fat_get vol D y)"
    if "y < clusters vol" for y by (rule link_new_fat [OF assms(1,2) that ne c(2)])
  have "file_chain vol (link_new vol (last cs) c D) cur (zs @ [c])"
    if "file_chain vol D cur zs" "zs \<noteq> []" "last zs = last cs" "distinct zs" "c \<notin> set zs" for cur zs
    using that
  proof (induction zs arbitrary: cur)
    case (Cons x xs)
    show ?case
    proof (cases xs)
      case Nil
      then show ?thesis using Cons.prems fat c by auto
    next
      case (Cons y ys)
      then have "x \<noteq> last cs" using Cons.prems(3,4) by (metis distinct.simps(2) last_ConsR last_in_set list.distinct(1))
      then show ?thesis using Cons.IH [of "fat_get vol D x"] Cons.prems fat [of x] Cons by auto
    qed
  qed simp
  from this [OF assms(3,4) refl assms(5) cs] show "file_chain vol (link_new vol (last cs) c D) cur (cs @ [c])" .
qed

lemma written_append_new:
  assumes "vol_ok vol" "disk_ok D" "file_chain vol D cur cs" "cs \<noteq> []" "distinct cs" "c \<in> free_set vol D"
    "written vol cur (cs @ [c]) ns off q (link_new vol (last cs) c D) D'"
  shows "written vol cur cs (c # ns) off q D D'"
proof -
  let ?x = "last cs" and ?D3 = "link_new vol (last cs) c D"
  have x: "2 \<le> ?x" "?x < clusters vol" "?x \<notin> free_set vol D"
    using file_chain_clusters [OF assms(3)] file_chain_free [OF assms(3)] assms(4) by auto
  have c: "2 \<le> c" "c < clusters vol" using assms(6) by (auto simp: free_set_def is_free_def)
  note l = link_new_chain [OF assms(1-6)]
  have f3: "free_set vol ?D3 = free_set vol D - {c}" by (rule free_set_link [OF assms(1,2,6) x(2,3,1)])
  have "file_data vol ?D3 cs = file_data vol D cs"
  proof (rule file_data_cong)
    fix y assume y: "y \<in> set cs"
    then have "2 \<le> y" "y \<noteq> c" using file_chain_clusters [OF assms(3) y] l(3) by auto
    then show "cluster_data vol ?D3 y = cluster_data vol D y"
      using link_new_data_other [OF assms(1) _ c(1) _ x(2) c(2)] by blast
  qed
  then have "file_data vol ?D3 (cs @ [c]) = file_data vol D cs @ replicate (csize vol) 0"
    using link_new_data [OF assms(1) c x(2)] by (simp add: file_data_def)
  moreover have "same_outside vol (cs @ c # ns) D D'"
  proof -
    have "same_outside vol [?x, c] D ?D3" using link_new_outside [OF assms(1,2) l(2) x(2) c(2)] .
    moreover have "same_outside vol (cs @ [c] @ ns) ?D3 D'" using assms(7) by (simp add: written_def)
    ultimately show ?thesis by (rule same_outside_trans) (use assms(4) in auto)
  qed
  ultimately show ?thesis
    using assms(6,7) f3 by (auto simp: written_def replicate_add [symmetric])
qed

text \<open>The place of the directory entry of a file: inside a cluster that is neither free nor part of the file.\<close>

definition entry_place :: "'d fat32_volume \<Rightarrow> disk \<Rightarrow> nat list \<Rightarrow> nat \<Rightarrow> nat \<Rightarrow> nat \<Rightarrow> nat \<Rightarrow> bool" where
  "entry_place vol D cs dc k s off \<longleftrightarrow> 2 \<le> dc \<and> dc < clusters vol \<and> k < sectors_per_cluster vol \<and> dc \<notin> set cs \<and>
     dc \<notin> free_set vol D \<and> s = cluster_lba vol dc + k \<and> off + 32 \<le> 512"

lemma patch_dirent_ok:
  assumes "device_ok vol content" "vol_ok vol" "fat_ok vol content w" "nd_impl node < 2 ^ 32" "nd_uid node + 32 \<le> 512"
    "D = content (fw_dev w)" "\<And>e. length e = 32 \<Longrightarrow> length (f e) = 32" "s = nd_impl node" "u = nd_uid node"
  shows "\<exists>w'. patch_dirent vol node f w = Some w' \<and> fat_ok vol content w' \<and>
    content (fw_dev w') = D(s := overwrite u (f (take 32 (drop u (D s)))) (D s))"
proof -
  have b: "bytes_per_sector vol = 512" using assms(2) by (simp add: vol_ok_def)
  obtain w1 where w1: "alloc_buf w = (True, w1)" "fat_ok vol content w1" "fw_dev w1 = fw_dev w" using alloc_buf_ok [OF assms(3)] by auto
  obtain w2 where w2: "fat32_read_sector_cached vol 512 s w1 = Some (Some (D s), w2)" "fat_ok vol content w2" "fw_dev w2 = fw_dev w"
    using read_cached_ok [OF assms(1) w1(2) assms(4), of 512] w1(3) assms(6,8) by auto
  have len: "length (D s) = 512" using device_disk_ok [OF assms(1)] assms(6) by (simp add: disk_ok_def)
  have fl: "length (f (take 32 (drop u (D s)))) = 32" using len assms(5,7,9) by simp
  obtain w3 where "fat32_write_sector_cached vol s (overwrite u (f (take 32 (drop u (D s)))) (D s)) w2 = Some (True, w3)"
    "fat_ok vol content w3" "content (fw_dev w3) = D(s := overwrite u (f (take 32 (drop u (D s)))) (D s))"
    using write_cached_ok [OF assms(1) w2(2) assms(4), of "overwrite u (f (take 32 (drop u (D s)))) (D s)"] len fl assms(5,6,8,9) b w2(3)
    by (auto simp: length_overwrite)
  then show ?thesis using w1(1) w2(1) b len assms(5,8,9) by (simp add: patch_dirent_def)
qed

lemma write_inside:
  assumes "device_ok vol content" "vol_ok vol" "fat_ok vol content w" "D = content (fw_dev w)" "file_chain vol D cur cs"
    "distinct cs" "offset < length cs * csize vol" "0 < sz" "sz + 512 \<le> 2 ^ 32" "sz \<le> length buffer"
    "k \<le> card (free_set vol D)" "offset + sz \<le> (length cs + k) * csize vol"
  shows "\<exists>ns w'. write_cluster_loop vol buffer sz (cs ! (offset div csize vol)) (offset mod csize vol) 0 w = Some (sz, w') \<and>
    fat_ok vol content w' \<and> written vol cur cs ns offset (take sz buffer) D (content (fw_dev w'))"
proof -
  let ?n = "offset div csize vol" and ?o = "offset mod csize vol"
  have c0: "0 < csize vol" using assms(7) by (cases "csize vol") auto
  have nl: "?n < length cs" using assms(7) by (simp add: less_mult_imp_div_less)
  have eq: "?n * csize vol + ?o = offset" by simp
  have sp: "drop ?n cs = cs ! ?n # drop (Suc ?n) cs" using nl by (simp add: Cons_nth_drop_Suc)
  have pr: "file_chain vol D (cs ! ?n) (cs ! ?n # drop (Suc ?n) cs)" "distinct (cs ! ?n # drop (Suc ?n) cs)"
    using file_chain_drop [OF assms(5) nl] assms(6) sp by (metis distinct_drop)+
  have sz: "?o + (sz - 0) \<le> (Suc (length (drop (Suc ?n) cs)) + k) * csize vol"
  proof -
    have "Suc (length (drop (Suc ?n) cs)) = length cs - ?n" using nl by simp
    moreover have "(length cs - ?n + k) * csize vol = (length cs + k) * csize vol - ?n * csize vol"
      using nl by (simp add: add_mult_distrib diff_mult_distrib)
    ultimately have "(Suc (length (drop (Suc ?n) cs)) + k) * csize vol = (length cs + k) * csize vol - ?n * csize vol"
      by (simp only:)
    then show ?thesis using assms(12) eq by linarith
  qed
  have oc: "?o < csize vol" using c0 by simp
  obtain ns w' where ns: "write_cluster_loop vol buffer sz (cs ! ?n) ?o 0 w = Some (sz, w')" "fat_ok vol content w'" "length ns \<le> k"
    "?o + (sz - 0) \<le> (Suc (length (drop (Suc ?n) cs)) + length ns) * csize vol"
    "written vol (cs ! ?n) (cs ! ?n # drop (Suc ?n) cs) ns ?o (take (sz - 0) (drop 0 buffer)) D (content (fw_dev w'))"
    using write_cluster_loop_ok [OF assms(1,2,9,10,3) pr oc assms(8,4,11) sz] by blast
  have "written vol cur (take ?n cs @ drop ?n cs) ns (length (take ?n cs) * csize vol + ?o) (take sz buffer) D (content (fw_dev w'))"
  proof (rule written_prefix [OF assms(2)])
    show "disk_ok D" using device_disk_ok [OF assms(1)] assms(4) by simp
    show "file_chain vol D cur (take ?n cs @ drop ?n cs)" "distinct (take ?n cs @ drop ?n cs)" "drop ?n cs \<noteq> []"
      using assms(5,6) nl by simp_all
    show "written vol (hd (drop ?n cs)) (drop ?n cs) ns ?o (take sz buffer) D (content (fw_dev w'))" using ns(5) sp by simp
    show "?o + length (take sz buffer) \<le> (length (drop ?n cs) + length ns) * csize vol" using ns(4) assms(10) sp by simp
  qed
  then show ?thesis using ns(1,2) nl eq by (auto simp: min_def)
qed

lemma write_at_end:
  assumes "device_ok vol content" "vol_ok vol" "fat_ok vol content w" "D = content (fw_dev w)" "file_chain vol D cur cs"
    "distinct cs" "cs \<noteq> []" "0 < sz" "sz + 512 \<le> 2 ^ 32" "sz \<le> length buffer" "c \<in> free_set vol D"
    "fat_ok vol content w3" "content (fw_dev w3) = link_new vol (last cs) c D"
    "k \<le> card (free_set vol D)" "sz \<le> k * csize vol" "0 < csize vol"
  shows "\<exists>ns w'. write_cluster_loop vol buffer sz c 0 0 w3 = Some (sz, w') \<and> fat_ok vol content w' \<and>
    written vol cur cs ns (length cs * csize vol) (take sz buffer) D (content (fw_dev w'))"
proof -
  let ?D3 = "link_new vol (last cs) c D"
  have dok: "disk_ok D" "disk_ok ?D3"
    using device_disk_ok [OF assms(1), of "fw_dev w"] device_disk_ok [OF assms(1), of "fw_dev w3"] assms(4,13) by simp_all
  note l = link_new_chain [OF assms(2) dok(1) assms(5,7,6,11)]
  have x: "last cs < clusters vol" "2 \<le> last cs" "last cs \<notin> free_set vol D"
    using file_chain_clusters [OF assms(5)] file_chain_free [OF assms(5)] assms(7) by auto
  have f3: "free_set vol ?D3 = free_set vol D - {c}" by (rule free_set_link [OF assms(2) dok(1) assms(11) x(1,3,2)])
  have k0: "0 < k" using assms(8,15) by (cases k) auto
  have ch: "file_chain vol ?D3 c [c]" using file_chain_append_end [OF l(1)] by simp
  have k: "k - 1 \<le> card (free_set vol ?D3)" "0 + (sz - 0) \<le> (Suc (length ([] :: nat list)) + (k - 1)) * csize vol"
    using assms(11,14,15) f3 k0 by (auto simp: card_Diff_singleton)
  have "distinct [c]" by simp
  from write_cluster_loop_ok [OF assms(1,2,9,10,12) ch this assms(16,8) assms(13) [symmetric] k] obtain ns w' where
    ns: "write_cluster_loop vol buffer sz c 0 0 w3 = Some (sz, w')" "fat_ok vol content w'"
      "0 + (sz - 0) \<le> (Suc (length ([] :: nat list)) + length ns) * csize vol"
      "written vol c [c] ns 0 (take (sz - 0) (drop 0 buffer)) ?D3 (content (fw_dev w'))" by blast
  have "written vol cur (cs @ [c]) ns (length cs * csize vol + 0) (take sz buffer) ?D3 (content (fw_dev w'))"
    by (rule written_prefix [OF assms(2) dok(2) l(1)]) (use l(3) assms(6) ns(3,4) assms(10) in simp_all)
  then have "written vol cur cs (c # ns) (length cs * csize vol) (take sz buffer) D (content (fw_dev w'))"
    by (intro written_append_new [OF assms(2) dok(1) assms(5,7,6,11)]) simp
  then show ?thesis using ns(1,2) by blast
qed

lemma write_start_ok:
  assumes "device_ok vol content" "vol_ok vol" "fat_ok vol content w" "D = content (fw_dev w)" "file_chain vol D cur cs"
    "distinct cs" "cs \<noteq> []" "offset \<le> length cs * csize vol" "0 < sz" "sz + 512 \<le> 2 ^ 32" "sz \<le> length buffer"
    "k \<le> card (free_set vol D)" "offset + sz \<le> (length cs + k) * csize vol"
  shows "\<exists>c co w2. write_start vol cur offset w = Some (Some (c, co), w2) \<and> fat_ok vol content w2 \<and>
    (\<forall>w3. fat_ok vol content w3 \<and> fw_dev w3 = fw_dev w2 \<longrightarrow>
      (\<exists>ns w'. write_cluster_loop vol buffer sz c co 0 w3 = Some (sz, w') \<and> fat_ok vol content w' \<and>
        written vol cur cs ns offset (take sz buffer) D (content (fw_dev w'))))"
proof -
  have c0: "0 < csize vol" using assms(9,13) by (cases "csize vol") auto
  show ?thesis
  proof (cases "offset < length cs * csize vol")
    case True
    have nl: "offset div csize vol < length cs" using True by (simp add: less_mult_imp_div_less)
    obtain w1 where w1: "fat32_seek_cluster vol cur offset w = Some (cs ! (offset div csize vol), offset mod csize vol, w1)"
      "fat_ok vol content w1" "fw_dev w1 = fw_dev w"
      using seek_ok [OF assms(1-3) assms(5) [unfolded assms(4)] True] by auto
    have "cs ! (offset div csize vol) < FAT32_EOC"
      using file_chain_clusters [OF assms(5) nth_mem [OF nl]] clusters_eoc [OF assms(2)] by simp
    then have "write_start vol cur offset w = Some (Some (cs ! (offset div csize vol), offset mod csize vol), w1)"
      using w1(1) by (simp add: write_start_def)
    moreover have "\<exists>ns w'. write_cluster_loop vol buffer sz (cs ! (offset div csize vol)) (offset mod csize vol) 0 w3 = Some (sz, w') \<and>
        fat_ok vol content w' \<and> written vol cur cs ns offset (take sz buffer) D (content (fw_dev w'))"
      if "fat_ok vol content w3" "fw_dev w3 = fw_dev w1" for w3
      using write_inside [OF assms(1,2) that(1) _ assms(5,6) True assms(9-13)] that(2) w1(3) assms(4) by simp
    ultimately show ?thesis using w1(2) by blast
  next
    case False
    then have off: "offset = length cs * csize vol" using assms(8) by simp
    have cb: "cluster_bytes vol = csize vol" using assms(2) by (simp add: cluster_bytes_def csize_def vol_ok_def wrap_simps)
    obtain e w1 where w1: "seek_loop vol (length cs) cur w = Some (e, w1)" "FAT32_EOC \<le> e" "fat_ok vol content w1" "fw_dev w1 = fw_dev w"
      using seek_end_ok [OF assms(1-3) assms(5) [unfolded assms(4)]] by auto
    obtain w2 where w2: "last_cluster_loop vol cur w1 = Some (last cs, w2)" "fat_ok vol content w2" "fw_dev w2 = fw_dev w"
      using last_cluster_ok [OF assms(1,2) w1(3), of cur cs] assms(4,5,7) w1(4) by auto
    have k: "sz \<le> k * csize vol" using assms(13) off by (simp add: add_mult_distrib)
    then have "free_set vol D \<noteq> {}" using assms(9,12) by (cases k) auto
    moreover have "last cs < clusters vol" using file_chain_clusters [OF assms(5)] assms(7) by simp
    ultimately obtain c w3 w4 where c: "fat32_alloc_cluster vol w2 = Some (0, c, w3)" "fat32_fat_set vol (last cs) c w3 = Some (0, w4)"
      "c \<in> free_set vol D" "fat_ok vol content w4" "content (fw_dev w4) = link_new vol (last cs) c D"
      using alloc_link_ok [OF assms(1,2) w2(2), of D "last cs"] w2(3) assms(4) by auto
    have "write_start vol cur offset w = Some (Some (c, 0), w4)"
      using w1(1,2) w2(1) c(1,2) c0 by (simp add: write_start_def fat32_seek_cluster_def cb off)
    moreover have "\<exists>ns w'. write_cluster_loop vol buffer sz c 0 0 w5 = Some (sz, w') \<and> fat_ok vol content w' \<and>
        written vol cur cs ns offset (take sz buffer) D (content (fw_dev w'))" if "fat_ok vol content w5" "fw_dev w5 = fw_dev w4" for w5
      unfolding off using that(2) c(5) by (intro write_at_end [OF assms(1-7,9-11) c(3) that(1) _ assms(12) k c0]) simp
    ultimately show ?thesis using c(4) by blast
  qed
qed

text \<open>Patching the directory entry leaves the file alone.\<close>

lemma written_patch:
  assumes "vol_ok vol" "written vol cur cs ns off new D D'" "entry_place vol D cs dc k s u"
  shows "written vol cur cs ns off new D D' \<Longrightarrow> file_chain vol (D'(s := b)) cur (cs @ ns) \<and>
    file_data vol (D'(s := b)) (cs @ ns) = file_data vol D' (cs @ ns) \<and> dc \<notin> set (cs @ ns)"
proof -
  have oc: "only_cluster vol dc D' (D'(s := b))" using assms(3) by (auto simp: only_cluster_def entry_place_def)
  have ch: "file_chain vol D' cur (cs @ ns)" and ns: "set ns \<subseteq> free_set vol D" using assms(2) by (simp_all add: written_def)
  have dc: "dc \<notin> set (cs @ ns)" "2 \<le> dc" using assms(3) ns by (auto simp: entry_place_def)
  have "file_chain vol (D'(s := b)) cur (cs @ ns) = file_chain vol D' cur (cs @ ns)"
    using only_cluster_fat [OF assms(1) oc] file_chain_clusters [OF ch] by (intro file_chain_cong) auto
  moreover have "file_data vol (D'(s := b)) (cs @ ns) = file_data vol D' (cs @ ns)"
  proof (rule file_data_cong)
    fix y assume y: "y \<in> set (cs @ ns)"
    then have "y \<noteq> dc" "2 \<le> y" using dc(1) file_chain_clusters [OF ch y] by auto
    then show "cluster_data vol (D'(s := b)) y = cluster_data vol D' y" by (rule only_cluster_other [OF oc _ dc(2)])
  qed
  ultimately show ?thesis using ch dc(1) by simp
qed

end
