(* ===== verification/FatDir.thy ===== *)
theory FatDir
  imports FatFile
begin

text \<open>
  Directories: the slots of a directory are the 32-byte records of its clusters; the visible ones, up to the
  end mark, form a finite map from 8.3 names to entries. The lemmas show that the searches of the driver
  return what this map holds, and what creating and removing an entry do to it.
\<close>

section \<open>The slots of a directory\<close>

type_synonym slot = "u8 list \<times> nat \<times> nat"

fun scan :: "'c dir_cb \<Rightarrow> slot list \<Rightarrow> 'c \<Rightarrow> int \<times> 'c" where
  "scan cb [] ctx = (0, ctx)"
| "scan cb ((e, s, off) # xs) ctx =
     (case cb ctx e s off of (res, ctx') \<Rightarrow> if res \<noteq> 0 then (res, ctx') else scan cb xs ctx')"

lemma scan_append:
  "scan cb (xs @ ys) ctx = (case scan cb xs ctx of (res, ctx') \<Rightarrow> if res \<noteq> 0 then (res, ctx') else scan cb ys ctx')"
  by (induction cb xs ctx rule: scan.induct) (auto split: prod.splits)

definition slot_at :: "disk \<Rightarrow> nat \<times> nat \<Rightarrow> slot" where
  "slot_at D p = (take 32 (drop (snd p) (D (fst p))), fst p, snd p)"

definition sector_places :: "nat \<Rightarrow> (nat \<times> nat) list" where
  "sector_places s = map (\<lambda>j. (s, 32 * j)) [0..<16]"

definition cluster_places :: "'d fat32_volume \<Rightarrow> nat \<Rightarrow> (nat \<times> nat) list" where
  "cluster_places vol c = concat (map (\<lambda>k. sector_places (cluster_lba vol c + k)) [0..<sectors_per_cluster vol])"

definition places :: "'d fat32_volume \<Rightarrow> nat list \<Rightarrow> (nat \<times> nat) list" where
  "places vol cs = concat (map (cluster_places vol) cs)"

definition dir_slots :: "'d fat32_volume \<Rightarrow> disk \<Rightarrow> nat list \<Rightarrow> slot list" where
  "dir_slots vol D cs = map (slot_at D) (places vol cs)"

lemma entry_loop_scan:
  "entry_loop cb buf s n j ctx = scan cb (map (\<lambda>j. (take 32 (drop (32 * j) buf), s, 32 * j)) [j..<j + n]) ctx"
proof (induction n arbitrary: j ctx)
  case (Suc n)
  have "[j..<j + Suc n] = j # [Suc j..<Suc j + n]" by (simp add: upt_conv_Cons del: upt_Suc)
  then show ?case using Suc.IH [of "Suc j"] by (simp del: upt_Suc split: prod.splits)
qed simp

lemma entry_loop_sector:
  "entry_loop cb (D s) s 16 0 ctx = scan cb (map (slot_at D) (sector_places s)) ctx"
  unfolding entry_loop_scan sector_places_def by (simp add: slot_at_def comp_def)

lemma dir_sector_loop_ok:
  assumes "device_ok vol content" "vol_ok vol" "2 \<le> c" "c < clusters vol"
  shows "fat_ok vol content w \<Longrightarrow> i + n \<le> sectors_per_cluster vol \<Longrightarrow> D = content (fw_dev w) \<Longrightarrow>
    scan cb (map (slot_at D) (concat (map (\<lambda>k. sector_places (cluster_lba vol c + k)) [i..<i + n]))) ctx = (res, ctx') \<Longrightarrow>
    \<exists>w'. dir_sector_loop vol cb (cluster_lba vol c) n i ctx w = Some (res, ctx', w') \<and>
      fat_ok vol content w' \<and> fw_dev w' = fw_dev w"
proof (induction n arbitrary: i ctx w)
  case 0
  then show ?case by simp
next
  case (Suc n)
  let ?s = "cluster_lba vol c + i"
  have i: "i < sectors_per_cluster vol" using Suc.prems(2) by simp
  note lb = cluster_lba_bound [OF assms(2-4) i]
  have b: "bytes_per_sector vol = 512" using assms(2) by (simp add: vol_ok_def)
  obtain w1 where w1: "fat32_read_sector_cached vol 512 ?s w = Some (Some (D ?s), w1)" "fat_ok vol content w1" "fw_dev w1 = fw_dev w"
    using read_cached_ok [OF assms(1) Suc.prems(1) lb(1), of 512] Suc.prems(3) by auto
  have len: "length (D ?s) = 512" using device_disk_ok [OF assms(1)] Suc.prems(3) by (simp add: disk_ok_def)
  obtain r c1 where r: "scan cb (map (slot_at D) (sector_places ?s)) ctx = (r, c1)" by fastforce
  have step: "dir_sector_loop vol cb (cluster_lba vol c) (Suc n) i ctx w =
      (if r \<noteq> 0 then Some (r, c1, w1) else dir_sector_loop vol cb (cluster_lba vol c) n (Suc i) c1 w1)"
    using w1(1) b lb(3) len r by (simp add: entry_loop_sector)
  have split: "[i..<i + Suc n] = i # [Suc i..<Suc i + n]" by (simp add: upt_conv_Cons del: upt_Suc)
  have sc: "(if r \<noteq> 0 then (r, c1) else
      scan cb (map (slot_at D) (concat (map (\<lambda>k. sector_places (cluster_lba vol c + k)) [Suc i..<Suc i + n]))) c1) = (res, ctx')"
    using Suc.prems(4) r unfolding split by (cases "r = 0") (simp_all add: scan_append del: upt_Suc)
  show ?case
  proof (cases "r = 0")
    case True
    then have "scan cb (map (slot_at D) (concat (map (\<lambda>k. sector_places (cluster_lba vol c + k)) [Suc i..<Suc i + n]))) c1 = (res, ctx')"
      using sc by simp
    from Suc.IH [OF w1(2) _ _ this] show ?thesis using True step w1(3) Suc.prems(2,3) by auto
  next
    case False
    then show ?thesis using step sc w1 by simp
  qed
qed

lemma dir_chain_loop_ok:
  assumes "device_ok vol content" "vol_ok vol"
  shows "fat_ok vol content w \<Longrightarrow> file_chain vol D c cs \<Longrightarrow> cs \<noteq> [] \<Longrightarrow> D = content (fw_dev w) \<Longrightarrow>
    scan cb (dir_slots vol D cs) ctx = (res, ctx') \<Longrightarrow>
    \<exists>lc w'. dir_chain_loop vol cb c lc0 ctx w = Some (res, ctx', lc, w') \<and> (res = 0 \<longrightarrow> lc = last cs) \<and>
      fat_ok vol content w' \<and> fw_dev w' = fw_dev w"
proof (induction cs arbitrary: c lc0 ctx w)
  case Nil
  then show ?case by simp
next
  case (Cons x xs)
  have x: "c = x" "2 \<le> x" "x < clusters vol" "file_chain vol D (fat_get vol D x) xs" using Cons.prems(2) by auto
  have n: "0 < sectors_per_cluster vol" using assms(2) by (simp add: vol_ok_def)
  note lb = cluster_lba_bound [OF assms(2) x(2,3) n]
  have eoc: "x < FAT32_EOC" using clusters_eoc [OF assms(2) x(3)] .
  obtain r c1 where r: "scan cb (map (slot_at D) (cluster_places vol x)) ctx = (r, c1)" by fastforce
  obtain w1 where w1: "dir_sector_loop vol cb (cluster_lba vol x) (sectors_per_cluster vol) 0 ctx w = Some (r, c1, w1)"
    "fat_ok vol content w1" "fw_dev w1 = fw_dev w"
    using dir_sector_loop_ok [OF assms x(2,3) Cons.prems(1) _ Cons.prems(4), of 0 "sectors_per_cluster vol" cb ctx r c1] r
    by (auto simp: cluster_places_def)
  obtain w2 where w2: "fat32_get_next_cluster vol x w1 = Some (fat_get vol D x, w2)" "fat_ok vol content w2" "fw_dev w2 = fw_dev w"
    using get_next_ok [OF assms w1(2) x(3)] w1(3) Cons.prems(4) by auto
  have step: "dir_chain_loop vol cb c lc0 ctx w =
      (if r \<noteq> 0 then Some (r, c1, x, w1)
       else if fat_get vol D x \<ge> FAT32_EOC then Some (0, c1, x, w2) else dir_chain_loop vol cb (fat_get vol D x) x c1 w2)"
    using x(1) eoc lb(2) w1(1) w2(1) by (simp add: dir_chain_loop.simps [of vol cb x])
  have sc: "(if r \<noteq> 0 then (r, c1) else scan cb (dir_slots vol D xs) c1) = (res, ctx')"
    using Cons.prems(5) r by (cases "r = 0") (simp_all add: dir_slots_def places_def scan_append)
  consider (stop) "r \<noteq> 0" | (fin) "r = 0" "xs = []" | (more) "r = 0" "xs \<noteq> []" by blast
  then show ?case
  proof cases
    case stop
    then show ?thesis using step sc w1 by simp
  next
    case fin
    then show ?thesis using step sc w2 x(4) by (auto simp: dir_slots_def places_def)
  next
    case more
    then have "fat_get vol D x < FAT32_EOC" using x(4) clusters_eoc [OF assms(2)] by (cases xs) auto
    moreover from Cons.IH [OF w2(2) x(4) more(2), of c1 x] obtain lc w' where
      "dir_chain_loop vol cb (fat_get vol D x) x c1 w2 = Some (res, ctx', lc, w')" "res = 0 \<longrightarrow> lc = last xs"
      "fat_ok vol content w'" "fw_dev w' = fw_dev w2"
      using w2(3) Cons.prems(4) sc more(1) by auto
    ultimately show ?thesis using step more w2(3) by auto
  qed
qed

lemma iterate_dir_ok:
  assumes "device_ok vol content" "vol_ok vol" "fat_ok vol content w" "file_chain vol D c cs" "cs \<noteq> []"
    "D = content (fw_dev w)" "scan cb (dir_slots vol D cs) ctx = (res, ctx')"
  shows "\<exists>lc w'. fat32_iterate_dir vol c cb ctx w = Some (res, ctx', lc, w') \<and> (res = 0 \<longrightarrow> lc = last cs) \<and>
    fat_ok vol content w' \<and> fw_dev w' = fw_dev w"
proof -
  obtain w1 where w1: "alloc_buf w = (True, w1)" "fat_ok vol content w1" "fw_dev w1 = fw_dev w" using alloc_buf_ok [OF assms(3)] by auto
  then show ?thesis
    using dir_chain_loop_ok [OF assms(1,2) w1(2) assms(4,5) _ assms(7), of 0] assms(6)
    by (simp add: fat32_iterate_dir_def)
qed

section \<open>The map of a directory\<close>

definition live :: "slot \<Rightarrow> bool" where
  "live x \<longleftrightarrow> fst x ! 0 \<noteq> 0"

definition visible :: "slot list \<Rightarrow> slot list" where
  "visible xs = filter (\<lambda>x. \<not> hidden_entry (fst x)) (takeWhile live xs)"

definition slot_name :: "slot \<Rightarrow> u8 list" where
  "slot_name x = de_name (fst x)"

definition dir_map :: "slot list \<Rightarrow> u8 list \<Rightarrow> slot option" where
  "dir_map xs dn = find (\<lambda>x. slot_name x = dn) (visible xs)"

text \<open>A well-formed directory: nothing follows its end mark, and no two visible entries share a name.\<close>

definition dir_ok :: "slot list \<Rightarrow> bool" where
  "dir_ok xs \<longleftrightarrow> (\<forall>x \<in> set (dropWhile live xs). \<not> live x) \<and> distinct (map slot_name (visible xs))"

lemma visible_Cons: "visible (x # xs) = (if live x then if hidden_entry (fst x) then visible xs else x # visible xs else [])"
  by (cases "live x"; cases "hidden_entry (fst x)") (simp_all add: visible_def)

lemma visible_Nil [simp]: "visible [] = []"
  by (simp add: visible_def)

lemma visible_append:
  assumes "\<forall>x \<in> set xs. live x"
  shows "visible (xs @ ys) = visible xs @ visible ys"
  using assms by (induction xs) (simp_all add: visible_Cons)

lemma visible_dead: "\<forall>x \<in> set xs. \<not> live x \<Longrightarrow> visible xs = []"
  by (cases xs) (auto simp: visible_Cons)

lemma scan_find_entry:
  "scan (fat32_find_entry_cb dn) xs ctx =
     (case dir_map xs dn of
        Some x \<Rightarrow> (1, x)
      | None \<Rightarrow> (if \<forall>x \<in> set xs. live x then 0 else - ENOENT, ctx))"
proof (induction xs)
  case (Cons x xs)
  obtain e s off where x: "x = (e, s, off)" using prod_cases3 by blast
  show ?case using Cons
    by (auto simp: x fat32_find_entry_cb_def dir_map_def visible_Cons live_def slot_name_def split: option.splits)
qed (simp add: dir_map_def visible_def)

lemma find_dirent_ok:
  assumes "device_ok vol content" "vol_ok vol" "fat_ok vol content w" "file_chain vol D c cs" "cs \<noteq> []"
    "D = content (fw_dev w)" "m = dir_map (dir_slots vol D cs) (fat32_to_dos_name name)"
  shows "\<exists>w'. fat32_find_dirent_in_chain vol c name w =
      Some (if m = None then - ENOENT else 0, case m of None \<Rightarrow> ([], 0, 0) | Some x \<Rightarrow> x, w') \<and>
    fat_ok vol content w' \<and> fw_dev w' = fw_dev w"
proof -
  let ?cb = "fat32_find_entry_cb (fat32_to_dos_name name)" and ?xs = "dir_slots vol D cs"
  have "scan ?cb ?xs ([], 0, 0) =
      (if m = None then if \<forall>x \<in> set ?xs. live x then 0 else - ENOENT else 1, case m of None \<Rightarrow> ([], 0, 0) | Some x \<Rightarrow> x)"
    unfolding scan_find_entry assms(7) [symmetric] by (simp split: option.splits)
  from iterate_dir_ok [OF assms(1-6) this] show ?thesis
    by (auto simp: fat32_find_dirent_in_chain_def)
qed

lemma scan_find_free:
  "scan fat32_find_free_cb xs ctx =
     (case find (\<lambda>x. \<not> live x \<or> fst x ! 0 = DIRENT_DELETED) xs of None \<Rightarrow> (0, ctx) | Some x \<Rightarrow> (1, snd x))"
proof (induction xs)
  case (Cons x xs)
  obtain e s off where "x = (e, s, off)" using prod_cases3 by blast
  then show ?case using Cons by (auto simp: fat32_find_free_cb_def live_def)
qed simp

text \<open>Reading the directory by index.\<close>

lemma scan_readdir:
  assumes "n + length xs < 2 ^ 32"
  shows "scan (fat32_readdir_cb index) xs (n, None) =
     (if n \<le> index \<and> index - n < length (visible xs)
      then (2, (index, Some (fat32_get_name (slot_name (visible xs ! (index - n))), de_cluster (fst (visible xs ! (index - n))))))
      else (if \<forall>x \<in> set xs. live x then 0 else 1, (n + length (visible xs), None)))"
  using assms
proof (induction xs arbitrary: n)
  case (Cons x xs)
  obtain e s off where x: "x = (e, s, off)" using prod_cases3 by blast
  have a: "add32 n 1 = Suc n" using Cons.prems by (simp add: wrap_simps)
  show ?case
  proof (cases "live x \<and> \<not> hidden_entry e \<and> n \<noteq> index")
    case True
    then show ?thesis using Cons.IH [of "Suc n"] Cons.prems a
      by (auto simp: x fat32_readdir_cb_def visible_Cons live_def slot_name_def nth_Cons' Suc_le_eq Suc_diff_Suc)
  next
    case False
    then show ?thesis using Cons.IH [of n] Cons.prems
      by (auto simp: x fat32_readdir_cb_def visible_Cons live_def slot_name_def)
  qed
qed (simp add: visible_def)

lemma visible_memE:
  assumes "x \<in> set (visible xs)"
  obtains A B where "xs = A @ x # B" "\<forall>a \<in> set A. live a" "live x" "\<not> hidden_entry (fst x)"
proof -
  have x: "x \<in> set (takeWhile live xs)" "\<not> hidden_entry (fst x)" using assms by (auto simp: visible_def)
  from x(1) obtain A B where "takeWhile live xs = A @ x # B" by (meson split_list)
  then have "xs = A @ x # (B @ dropWhile live xs)" "\<forall>a \<in> set A. live a" "live x"
    using takeWhile_dropWhile_id [of live xs] set_takeWhileD [of _ live xs] x(1)
    by (metis append.assoc append_Cons, metis Un_iff set_append, metis)
  then show ?thesis using that x(2) by blast
qed

lemma dir_map_iff:
  assumes "dir_ok xs"
  shows "dir_map xs dn = Some x \<longleftrightarrow> x \<in> set (visible xs) \<and> slot_name x = dn"
proof -
  have d: "distinct (map slot_name (visible xs))" using assms by (simp add: dir_ok_def)
  have "find (\<lambda>x. slot_name x = dn) ys = Some x \<longleftrightarrow> x \<in> set ys \<and> slot_name x = dn"
    if "distinct (map slot_name ys)" for ys :: "slot list"
    using that by (induction ys) auto
  from this [OF d] show ?thesis by (simp add: dir_map_def)
qed

lemma dir_map_None: "dir_map xs dn = None \<longleftrightarrow> dn \<notin> slot_name ` set (visible xs)"
  by (auto simp: dir_map_def find_None_iff)

lemma dir_map_eqI:
  assumes "dir_ok xs" "\<And>dn x. x \<in> set (visible xs) \<and> slot_name x = dn \<longleftrightarrow> f dn = Some x"
  shows "dir_map xs = f"
proof
  fix dn
  show "dir_map xs dn = f dn"
    using dir_map_iff [OF assms(1), of dn] assms(2) [of _ dn] by (metis not_None_eq)
qed

text \<open>Putting an entry \<open>y\<close> into the first reusable slot adds it to the map.\<close>

definition reusable :: "slot \<Rightarrow> bool" where
  "reusable x \<longleftrightarrow> \<not> live x \<or> fst x ! 0 = DIRENT_DELETED"

lemma reusable_visible:
  assumes "dir_ok (A @ x # B)" "\<forall>a \<in> set A. live a" "reusable x"
  shows "visible (A @ x # B) = visible A @ visible B"
proof (cases "live x")
  case True
  then have "hidden_entry (fst x)" using assms(3) by (simp add: reusable_def hidden_entry_def)
  then show ?thesis using True assms(2) by (simp add: visible_append visible_Cons)
next
  case False
  then have "dropWhile live (A @ x # B) = x # B" using assms(2) by (simp add: dropWhile_append2)
  then have "\<forall>b \<in> set B. \<not> live b" using assms(1) by (simp add: dir_ok_def)
  then show ?thesis using False assms(2) by (simp add: visible_append visible_Cons visible_dead)
qed

lemma dir_insert:
  assumes "dir_ok (A @ x # B)" "\<forall>a \<in> set A. live a" "reusable x" "live y" "\<not> hidden_entry (fst y)"
    "dir_map (A @ x # B) (slot_name y) = None"
  shows "dir_ok (A @ y # B)" "dir_map (A @ y # B) = (dir_map (A @ x # B))(slot_name y \<mapsto> y)"
proof -
  have v: "visible (A @ x # B) = visible A @ visible B" "visible (A @ y # B) = visible A @ y # visible B"
    using reusable_visible [OF assms(1-3)] assms(2,4,5) by (simp_all add: visible_append visible_Cons)
  have new: "slot_name y \<notin> slot_name ` set (visible A @ visible B)" using assms(6) v(1) by (simp add: dir_map_None)
  have "\<not> live b" if "b \<in> set (dropWhile live B)" for b
  proof (cases "live x")
    case True
    then show ?thesis using assms(1,2) that by (simp add: dir_ok_def dropWhile_append2)
  next
    case False
    then show ?thesis using assms(1,2) set_dropWhileD [OF that] by (simp add: dir_ok_def dropWhile_append2)
  qed
  moreover have "dropWhile live (A @ y # B) = dropWhile live B" using assms(2,4) by (simp add: dropWhile_append2)
  moreover have "distinct (map slot_name (visible A @ y # visible B))"
    using assms(1) v(1) new by (simp add: dir_ok_def image_Un)
  ultimately show ok: "dir_ok (A @ y # B)" using v(2) by (simp add: dir_ok_def)
  show "dir_map (A @ y # B) = (dir_map (A @ x # B))(slot_name y \<mapsto> y)"
  proof (rule dir_map_eqI [OF ok])
    fix dn z
    have "dir_map (A @ x # B) dn = Some z \<longleftrightarrow> z \<in> set (visible A @ visible B) \<and> slot_name z = dn"
      using dir_map_iff [OF assms(1)] v(1) by simp
    moreover have "z \<in> set (visible A @ visible B) \<Longrightarrow> slot_name z \<noteq> slot_name y" using new by (metis imageI)
    ultimately show "z \<in> set (visible (A @ y # B)) \<and> slot_name z = dn \<longleftrightarrow> ((dir_map (A @ x # B))(slot_name y \<mapsto> y)) dn = Some z"
      using v(2) by (cases "dn = slot_name y") auto
  qed
qed

text \<open>Marking an entry deleted removes it from the map.\<close>

lemma dir_delete:
  assumes "dir_ok (A @ x # B)" "\<forall>a \<in> set A. live a" "live x" "\<not> hidden_entry (fst x)" "fst y ! 0 = DIRENT_DELETED"
  shows "dir_ok (A @ y # B)" "dir_map (A @ y # B) = (dir_map (A @ x # B))(slot_name x := None)"
proof -
  have y: "live y" "hidden_entry (fst y)" using assms(5) by (simp_all add: live_def hidden_entry_def DIRENT_DELETED_def)
  have v: "visible (A @ x # B) = visible A @ x # visible B" "visible (A @ y # B) = visible A @ visible B"
    using assms(2-4) y by (simp_all add: visible_append visible_Cons)
  show ok: "dir_ok (A @ y # B)" using assms(1-3) y v by (auto simp: dir_ok_def dropWhile_append2)
  show "dir_map (A @ y # B) = (dir_map (A @ x # B))(slot_name x := None)"
  proof (rule dir_map_eqI [OF ok])
    fix dn z
    have d: "distinct (map slot_name (visible A @ x # visible B))" using assms(1) v by (simp add: dir_ok_def)
    then have "z \<in> set (visible A @ visible B) \<Longrightarrow> slot_name z \<noteq> slot_name x" by (auto simp: image_iff)
    then show "z \<in> set (visible (A @ y # B)) \<and> slot_name z = dn \<longleftrightarrow> ((dir_map (A @ x # B))(slot_name x := None)) dn = Some z"
      using v by (auto simp: dir_map_iff [OF assms(1)])
  qed
qed

section \<open>Slots on the disk\<close>

lemma places_mem:
  "p \<in> set (places vol cs) \<longleftrightarrow>
     (\<exists>c \<in> set cs. \<exists>k < sectors_per_cluster vol. \<exists>j < 16. p = (cluster_lba vol c + k, 32 * j))"
proof -
  have "p \<in> set (cluster_places vol c) \<longleftrightarrow> (\<exists>k < sectors_per_cluster vol. \<exists>j < 16. p = (cluster_lba vol c + k, 32 * j))" for c
    unfolding cluster_places_def sector_places_def set_concat set_map set_upt by force
  then show ?thesis by (simp add: places_def)
qed

lemma distinct_cluster_places: "distinct (cluster_places vol c)"
proof -
  have "distinct (concat (map (\<lambda>k. sector_places (l + k)) [0..<n]))" for l n
    by (induction n) (auto simp: sector_places_def distinct_map inj_on_def)
  then show ?thesis by (simp add: cluster_places_def)
qed

lemma distinct_places:
  assumes "distinct cs" "\<forall>c \<in> set cs. 2 \<le> c"
  shows "distinct (places vol cs)"
  using assms
proof (induction cs)
  case (Cons x xs)
  have "p \<notin> set (places vol xs)" if px: "p \<in> set (cluster_places vol x)" for p
  proof
    assume "p \<in> set (places vol xs)"
    then obtain c k where c: "c \<in> set xs" "k < sectors_per_cluster vol" "fst p = cluster_lba vol c + k" by (auto simp: places_mem)
    obtain k' where k': "k' < sectors_per_cluster vol" "fst p = cluster_lba vol x + k'"
      using px places_mem [of p vol "[x]"] by (fastforce simp: places_def)
    then show False using cluster_disjoint [of x c k' vol k] c Cons.prems by auto
  qed
  then show ?case using Cons distinct_cluster_places [of vol x] by (auto simp: places_def)
qed (simp add: places_def)

lemma overwrite_elsewhere:
  assumes "i + length e \<le> length b" "j + m \<le> length b" "i + length e \<le> j \<or> j + m \<le> i"
  shows "take m (drop j (overwrite i e b)) = take m (drop j b)"
proof (rule nth_equalityI)
  show "length (take m (drop j (overwrite i e b))) = length (take m (drop j b))" using assms by (simp add: length_overwrite)
next
  fix k assume "k < length (take m (drop j (overwrite i e b)))"
  then have k: "k < m" by simp
  then show "take m (drop j (overwrite i e b)) ! k = take m (drop j b) ! k"
    using assms nth_overwrite [of i e b "j + k"] by (auto simp: length_overwrite)
qed

lemma slot_at_update:
  assumes "disk_ok D" "length e = 32" "p = (s, 32 * i)" "i < 16" "q = (t, 32 * j)" "j < 16"
  shows "slot_at (D(s := overwrite (32 * i) e (D s))) q = (if q = p then (e, s, 32 * i) else slot_at D q)"
proof -
  have len: "length (D s) = 512" using assms(1) by (simp add: disk_ok_def)
  have "take 32 (drop (32 * j) (overwrite (32 * i) e (D s))) = take 32 (drop (32 * j) (D s))" if "i \<noteq> j"
    using that assms(2,4,6) len by (intro overwrite_elsewhere) auto
  moreover have "take 32 (drop (32 * i) (overwrite (32 * i) e (D s))) = e"
    using take_drop_overwrite [of "32 * i" e "D s"] assms(2,4) len by simp
  ultimately show ?thesis using assms(3,5) by (auto simp: slot_at_def)
qed

lemma dir_slots_update:
  assumes "disk_ok D" "distinct cs" "\<forall>c \<in> set cs. 2 \<le> c" "length e = 32" "i < length (places vol cs)" "places vol cs ! i = (s, off)"
  shows "dir_slots vol (D(s := overwrite off e (D s))) cs = (dir_slots vol D cs)[i := (e, s, off)]"
proof (rule nth_equalityI)
  fix n assume "n < length (dir_slots vol (D(s := overwrite off e (D s))) cs)"
  then have n: "n < length (places vol cs)" by (simp add: dir_slots_def)
  have "places vol cs ! i \<in> set (places vol cs)" "places vol cs ! n \<in> set (places vol cs)" using assms(5) n by auto
  then obtain j t j' where j: "off = 32 * j" "j < 16" "places vol cs ! n = (t, 32 * j')" "j' < 16"
    unfolding places_mem assms(6) by auto
  have iff: "places vol cs ! n = (s, off) \<longleftrightarrow> n = i"
    using nth_eq_iff_index_eq [OF distinct_places [OF assms(2,3), of vol] n assms(5)] assms(6) by simp
  have "slot_at (D(s := overwrite off e (D s))) (places vol cs ! n) = (if n = i then (e, s, off) else slot_at D (places vol cs ! n))"
    unfolding iff [symmetric] j(3) unfolding j(1) by (rule slot_at_update [OF assms(1,4) refl j(2) refl j(4)])
  then show "dir_slots vol (D(s := overwrite off e (D s))) cs ! n = (dir_slots vol D cs)[i := (e, s, off)] ! n"
    using n by (simp add: dir_slots_def nth_list_update)
qed (simp add: dir_slots_def)

lemma dir_slots_cong:
  assumes "\<And>c k. c \<in> set cs \<Longrightarrow> k < sectors_per_cluster vol \<Longrightarrow> D' (cluster_lba vol c + k) = D (cluster_lba vol c + k)"
  shows "dir_slots vol D' cs = dir_slots vol D cs"
  using assms by (auto simp: dir_slots_def places_mem slot_at_def)

lemma dir_slots_append: "dir_slots vol D (cs @ cs') = dir_slots vol D cs @ dir_slots vol D cs'"
  by (simp add: dir_slots_def places_def)

lemma outside_clusters:
  assumes "vol_ok vol" "2 \<le> n" "\<forall>y \<in> set cs. 2 \<le> y" "n \<notin> set cs" "k < sectors_per_cluster vol"
  shows "\<not> in_fat vol (cluster_lba vol n + k)" "\<not> in_clusters vol cs (cluster_lba vol n + k)"
proof -
  show "\<not> in_fat vol (cluster_lba vol n + k)" using assms(1) by (auto simp: in_fat_def vol_ok_def cluster_lba_def)
  show "\<not> in_clusters vol cs (cluster_lba vol n + k)"
  proof
    assume "in_clusters vol cs (cluster_lba vol n + k)"
    then obtain c where c: "c \<in> set cs" "cluster_lba vol c \<le> cluster_lba vol n + k"
      "cluster_lba vol n + k < cluster_lba vol c + sectors_per_cluster vol" by (auto simp: in_clusters_def)
    define k' where "k' = cluster_lba vol n + k - cluster_lba vol c"
    have "cluster_lba vol n + k = cluster_lba vol c + k'" "k' < sectors_per_cluster vol" using c by (simp_all add: k'_def)
    then show False using cluster_disjoint [of n c k vol k'] assms(2,3,4,5) c(1) by metis
  qed
qed

lemma same_outside_slots:
  assumes "same_outside vol ns D D'" "vol_ok vol" "\<forall>c \<in> set cs. 2 \<le> c \<and> c < clusters vol" "\<forall>c \<in> set ns. 2 \<le> c" "set cs \<inter> set ns = {}"
  shows "dir_slots vol D' cs = dir_slots vol D cs"
proof (rule dir_slots_cong)
  fix c k assume c: "c \<in> set cs" "k < sectors_per_cluster vol"
  then have "2 \<le> c" "c \<notin> set ns" using assms(3,5) by auto
  from outside_clusters [OF assms(2) this(1) assms(4) this(2) c(2)]
  show "D' (cluster_lba vol c + k) = D (cluster_lba vol c + k)" using assms(1) by (simp add: same_outside_def)
qed

section \<open>Directories on the disk\<close>

definition is_dir :: "'d fat32_volume \<Rightarrow> disk \<Rightarrow> nat \<Rightarrow> nat list \<Rightarrow> bool" where
  "is_dir vol D c cs \<longleftrightarrow> file_chain vol D c cs \<and> distinct cs \<and> cs \<noteq> [] \<and> dir_ok (dir_slots vol D cs)"

text \<open>A slot that an entry can be put into: the first reusable one.\<close>

definition open_slot :: "'d fat32_volume \<Rightarrow> disk \<Rightarrow> nat list \<Rightarrow> nat \<Rightarrow> bool" where
  "open_slot vol D cs i \<longleftrightarrow> i < length (places vol cs) \<and> (\<forall>j < i. live (dir_slots vol D cs ! j)) \<and> reusable (dir_slots vol D cs ! i)"

lemma link_new_slots:
  assumes "vol_ok vol" "\<forall>y \<in> set cs. 2 \<le> y \<and> y < clusters vol" "2 \<le> c" "c < clusters vol" "c \<notin> set cs" "x < clusters vol"
  shows "dir_slots vol (link_new vol x c D) cs = dir_slots vol D cs"
    "\<forall>z \<in> set (dir_slots vol (link_new vol x c D) [c]). \<not> live z"
proof -
  have nf: "\<not> in_fat vol (cluster_lba vol y + k)" for y k
    using assms(1) by (auto simp: in_fat_def vol_ok_def cluster_lba_def)
  show "dir_slots vol (link_new vol x c D) cs = dir_slots vol D cs"
  proof (rule dir_slots_cong)
    fix y k assume y: "y \<in> set cs" "k < sectors_per_cluster vol"
    then have "2 \<le> y" "y \<notin> set [c]" using assms(2,5) by auto
    then have "\<not> in_clusters vol [c] (cluster_lba vol y + k)" using outside_clusters(2) [OF assms(1), of y "[c]" k] assms(3) y(2) by simp
    then have "zero_cluster vol c (fat_put vol c FAT32_EOC D) (cluster_lba vol y + k) = D (cluster_lba vol y + k)"
      using in_fat_put [OF assms(4) nf] by (auto simp: zero_cluster_def in_clusters_def)
    then show "link_new vol x c D (cluster_lba vol y + k) = D (cluster_lba vol y + k)"
      using in_fat_put [OF assms(6) nf] by (simp add: link_new_def)
  qed
  have "link_new vol x c D (cluster_lba vol c + k) = replicate 512 0" if "k < sectors_per_cluster vol" for k
    using in_fat_put [OF assms(6) nf] that by (simp add: link_new_def zero_cluster_def)
  then show "\<forall>z \<in> set (dir_slots vol (link_new vol x c D) [c]). \<not> live z"
    by (auto simp: dir_slots_def places_mem slot_at_def live_def)
qed

lemma dir_ok_append_dead:
  assumes "dir_ok xs" "\<forall>x \<in> set xs. live x" "\<forall>y \<in> set ys. \<not> live y"
  shows "dir_ok (xs @ ys)" "visible (xs @ ys) = visible xs"
proof -
  show v: "visible (xs @ ys) = visible xs" using assms(2,3) by (simp add: visible_append visible_dead)
  have "dropWhile live (xs @ ys) = ys" using assms(2,3) by (cases ys) (simp_all add: dropWhile_append2)
  then show "dir_ok (xs @ ys)" using assms(1,3) v by (simp add: dir_ok_def)
qed

lemma same_outside_refl: "same_outside vol cs D D"
  by (simp add: same_outside_def)

lemma dir_extend:
  assumes "vol_ok vol" "disk_ok D" "is_dir vol D c cs" "\<forall>x \<in> set (dir_slots vol D cs). live x" "n \<in> free_set vol D"
    "D' = link_new vol (last cs) n D"
  shows "is_dir vol D' c (cs @ [n])" "same_outside vol (cs @ [n]) D D'"
    "dir_map (dir_slots vol D' (cs @ [n])) = dir_map (dir_slots vol D cs)"
    "open_slot vol D' (cs @ [n]) (length (places vol cs))"
    "places vol (cs @ [n]) ! length (places vol cs) = (fat32_cluster_to_lba vol n, 0)"
proof -
  let ?xs = "dir_slots vol D cs" and ?i = "length (places vol cs)"
  have dir: "file_chain vol D c cs" "cs \<noteq> []" "distinct cs" "dir_ok ?xs" using assms(3) by (auto simp: is_dir_def)
  have n: "2 \<le> n" "n < clusters vol" using assms(5) by (auto simp: free_set_def is_free_def)
  have ge: "\<forall>y \<in> set cs. 2 \<le> y \<and> y < clusters vol" using file_chain_clusters [OF dir(1)] by blast
  have lc: "last cs < clusters vol" using ge dir(2) by simp
  note lk = link_new_chain [OF assms(1,2) dir(1,2,3) assms(5)]
  have sl: "dir_slots vol D' cs = ?xs" "\<forall>z \<in> set (dir_slots vol D' [n]). \<not> live z"
    using link_new_slots [OF assms(1) ge n lk(3) lc, of D] assms(6) by simp_all
  have dap: "dir_ok (dir_slots vol D' (cs @ [n]))" "visible (dir_slots vol D' (cs @ [n])) = visible ?xs"
    using dir_ok_append_dead [OF dir(4) assms(4) sl(2)] sl(1) by (simp_all add: dir_slots_append)
  have spc: "0 < sectors_per_cluster vol" using assms(1) by (simp add: vol_ok_def)
  have pl: "places vol (cs @ [n]) = places vol cs @ cluster_places vol n" by (simp add: places_def)
  have cp: "cluster_places vol n \<noteq> []" "cluster_places vol n ! 0 = (cluster_lba vol n, 0)"
    using spc by (simp_all add: cluster_places_def sector_places_def upt_conv_Cons)
  have li: "length ?xs = ?i" by (simp add: dir_slots_def)
  have "\<not> live (dir_slots vol D' (cs @ [n]) ! ?i)"
    using sl(2) cp(1) li by (simp add: dir_slots_append nth_append sl(1)) (simp add: dir_slots_def places_def)
  then show "open_slot vol D' (cs @ [n]) ?i"
    using assms(4) sl(1) li cp(1) pl by (auto simp: open_slot_def reusable_def dir_slots_append nth_append)
  show "places vol (cs @ [n]) ! ?i = (fat32_cluster_to_lba vol n, 0)"
    using pl cp cluster_lba_bound(2) [OF assms(1) n spc] by (simp add: nth_append)
  show "is_dir vol D' c (cs @ [n])" using lk dir(3) dap(1) assms(6) by (simp add: is_dir_def)
  show "dir_map (dir_slots vol D' (cs @ [n])) = dir_map ?xs" using dap(2) by (simp add: dir_map_def fun_eq_iff)
  have "same_outside vol [last cs, n] D D'" using link_new_outside [OF assms(1,2) lk(2) lc n(2)] assms(6) by simp
  then show "same_outside vol (cs @ [n]) D D'"
    by (rule same_outside_trans [OF same_outside_refl, of vol _ D D' "[]"]) (use dir(2) in auto)
qed

lemma find_free_dirent_ok:
  assumes "device_ok vol content" "vol_ok vol" "fat_ok vol content w" "D = content (fw_dev w)" "is_dir vol D c cs"
    "(\<exists>x \<in> set (dir_slots vol D cs). reusable x) \<or> free_set vol D \<noteq> {}"
  shows "\<exists>ns i s off w' D'. fat32_find_free_dirent_in_chain vol c w = Some (0, (s, off), w') \<and> fat_ok vol content w' \<and>
    D' = content (fw_dev w') \<and> is_dir vol D' c (cs @ ns) \<and> set ns \<subseteq> free_set vol D \<and> length ns \<le> 1 \<and> same_outside vol (cs @ ns) D D' \<and>
    dir_map (dir_slots vol D' (cs @ ns)) = dir_map (dir_slots vol D cs) \<and>
    open_slot vol D' (cs @ ns) i \<and> places vol (cs @ ns) ! i = (s, off)"
proof -
  let ?xs = "dir_slots vol D cs"
  have dir: "file_chain vol D c cs" "cs \<noteq> []" using assms(5) by (auto simp: is_dir_def)
  show ?thesis
  proof (cases "find reusable ?xs")
    case (Some x)
    then obtain i where i: "i < length ?xs" "reusable (?xs ! i)" "x = ?xs ! i" "\<forall>j < i. \<not> reusable (?xs ! j)"
      by (auto simp: find_Some_iff)
    have "scan fat32_find_free_cb ?xs (0, 0) = (1, snd x)" unfolding scan_find_free using Some by (simp add: reusable_def [abs_def])
    from iterate_dir_ok [OF assms(1-3) dir assms(4) this] obtain lc w' where
      w': "fat32_iterate_dir vol c fat32_find_free_cb (0, 0) w = Some (1, snd x, lc, w')" "fat_ok vol content w'" "fw_dev w' = fw_dev w"
      by auto
    have "fat32_find_free_dirent_in_chain vol c w = Some (0, snd x, w')" using w'(1) by (simp add: fat32_find_free_dirent_in_chain_def)
    moreover have "snd x = places vol cs ! i" using i(1,3) by (simp add: dir_slots_def slot_at_def)
    moreover have "open_slot vol D cs i" using i by (auto simp: open_slot_def reusable_def dir_slots_def)
    ultimately show ?thesis using w' assms(4,5) same_outside_refl [of vol cs D]
      by (intro exI [of _ "[]"] exI [of _ i] exI [of _ "fst (snd x)"] exI [of _ "snd (snd x)"] exI [of _ w'] exI [of _ D]) simp
  next
    case None
    then have nr: "\<forall>x \<in> set ?xs. live x" "free_set vol D \<noteq> {}" using assms(6) by (auto simp: find_None_iff reusable_def)
    have "scan fat32_find_free_cb ?xs (0, 0) = (0, (0, 0))" unfolding scan_find_free using None by (simp add: reusable_def [abs_def])
    from iterate_dir_ok [OF assms(1-3) dir assms(4) this] obtain w1 where
      w1: "fat32_iterate_dir vol c fat32_find_free_cb (0, 0) w = Some (0, (0, 0), last cs, w1)" "fat_ok vol content w1" "fw_dev w1 = fw_dev w"
      by auto
    have lc: "last cs < clusters vol" using file_chain_clusters [OF dir(1)] dir(2) by simp
    have D: "D = content (fw_dev w1)" using assms(4) w1(3) by simp
    obtain n w2 w3 where w3: "fat32_alloc_cluster vol w1 = Some (0, n, w2)" "fat32_fat_set vol (last cs) n w2 = Some (0, w3)"
      "n \<in> free_set vol D" "fat_ok vol content w3" "content (fw_dev w3) = link_new vol (last cs) n D"
      using alloc_link_ok [OF assms(1,2) w1(2) D nr(2) lc] by blast
    have dok: "disk_ok D" using device_disk_ok [OF assms(1)] assms(4) by simp
    note ext = dir_extend [OF assms(2) dok assms(5) nr(1) w3(3) w3(5)]
    have "fat32_find_free_dirent_in_chain vol c w = Some (0, (fat32_cluster_to_lba vol n, 0), w3)"
      using w1(1) w3(1,2) by (simp add: fat32_find_free_dirent_in_chain_def)
    then show ?thesis using ext w3(3,4)
      by (intro exI [of _ "[n]"] exI [of _ "length (places vol cs)"] exI [of _ "fat32_cluster_to_lba vol n"] exI [of _ 0]
          exI [of _ w3] exI [of _ "content (fw_dev w3)"]) simp
  qed
qed

text \<open>Writing an entry at its place.\<close>

lemma update_dirent_ok:
  assumes "device_ok vol content" "vol_ok vol" "fat_ok vol content w" "D = content (fw_dev w)" "s < 2 ^ 32" "off + 32 \<le> 512" "length e = 32"
  shows "\<exists>w'. fat32_update_dirent vol s off e w = Some (0, w') \<and> fat_ok vol content w' \<and>
    content (fw_dev w') = D(s := overwrite off e (D s))"
proof -
  have b: "bytes_per_sector vol = 512" using assms(2) by (simp add: vol_ok_def)
  obtain w1 where w1: "alloc_buf w = (True, w1)" "fat_ok vol content w1" "fw_dev w1 = fw_dev w" using alloc_buf_ok [OF assms(3)] by auto
  obtain w2 where w2: "fat32_read_sector_cached vol 512 s w1 = Some (Some (D s), w2)" "fat_ok vol content w2" "fw_dev w2 = fw_dev w"
    using read_cached_ok [OF assms(1) w1(2) assms(5), of 512] w1(3) assms(4) by auto
  have "length (D s) = 512" using device_disk_ok [OF assms(1)] assms(4) by (simp add: disk_ok_def)
  then have "length (overwrite off e (D s)) = 512" using assms(6,7) by (simp add: length_overwrite)
  from write_cached_ok [OF assms(1) w2(2) assms(5) this] obtain w3 where
    "fat32_write_sector_cached vol s (overwrite off e (D s)) w2 = Some (True, w3)" "fat_ok vol content w3"
    "content (fw_dev w3) = D(s := overwrite off e (D s))" using b w2(3) assms(4) by auto
  then show ?thesis using w1(1) w2(1) b assms(6) by (simp add: fat32_update_dirent_def)
qed

text \<open>A change of one slot leaves the chain of the directory and everything outside it alone.\<close>

lemma put_slot:
  assumes "vol_ok vol" "disk_ok D" "file_chain vol D c cs" "distinct cs" "length e = 32" "i < length (places vol cs)"
    "places vol cs ! i = (s, off)" "D' = D(s := overwrite off e (D s))"
  shows "s < 2 ^ 32" "off + 32 \<le> 512" "file_chain vol D' c cs" "same_outside vol cs D D'"
    "dir_slots vol D' cs = take i (dir_slots vol D cs) @ (e, s, off) # drop (Suc i) (dir_slots vol D cs)"
    "dir_slots vol D cs = take i (dir_slots vol D cs) @ dir_slots vol D cs ! i # drop (Suc i) (dir_slots vol D cs)"
proof -
  have ge: "\<forall>y \<in> set cs. 2 \<le> y" using file_chain_clusters [OF assms(3)] by blast
  have "places vol cs ! i \<in> set (places vol cs)" using assms(6) by simp
  then obtain x k j where x: "x \<in> set cs" "k < sectors_per_cluster vol" "j < 16" "s = cluster_lba vol x + k" "off = 32 * j"
    unfolding places_mem assms(7) by auto
  have xb: "2 \<le> x" "x < clusters vol" using file_chain_clusters [OF assms(3) x(1)] by auto
  show "s < 2 ^ 32" using cluster_lba_bound(1) [OF assms(1) xb x(2)] x(4) by simp
  show "off + 32 \<le> 512" using x(3,5) by simp
  have oc: "only_cluster vol x D D'" using x(2,4) assms(8) by (auto simp: only_cluster_def)
  show "file_chain vol D' c cs"
    using file_chain_cong [of cs vol D' D c] only_cluster_fat [OF assms(1) oc] file_chain_clusters [OF assms(3)] assms(3) by auto
  show "same_outside vol cs D D'"
    by (rule same_outside_trans [OF same_outside_refl only_cluster_outside [OF assms(1) oc], of "[]"]) (use x(1) in auto)
  have li: "i < length (dir_slots vol D cs)" using assms(6) by (simp add: dir_slots_def)
  show "dir_slots vol D' cs = take i (dir_slots vol D cs) @ (e, s, off) # drop (Suc i) (dir_slots vol D cs)"
    unfolding assms(8) dir_slots_update [OF assms(2,4) ge assms(5-7)] by (rule upd_conv_take_nth_drop [OF li])
  show "dir_slots vol D cs = take i (dir_slots vol D cs) @ dir_slots vol D cs ! i # drop (Suc i) (dir_slots vol D cs)"
    by (rule id_take_nth_drop [OF li])
qed

lemma live_prefix:
  assumes "\<forall>j < i. live (xs ! j)"
  shows "\<forall>a \<in> set (take i xs). live a"
proof
  fix a assume "a \<in> set (take i xs)"
  then obtain j where "j < length (take i xs)" "take i xs ! j = a" by (meson in_set_conv_nth)
  then show "live a" using assms by (cases a) auto
qed

definition shown :: "u8 list \<Rightarrow> bool" where
  "shown e \<longleftrightarrow> length e = 32 \<and> e ! 0 \<noteq> 0 \<and> \<not> hidden_entry e"

lemma insert_entry_ok:
  assumes "device_ok vol content" "vol_ok vol" "fat_ok vol content w" "D = content (fw_dev w)" "is_dir vol D c cs"
    "open_slot vol D cs i" "places vol cs ! i = (s, off)" "shown e" "dir_map (dir_slots vol D cs) (de_name e) = None"
  shows "\<exists>w' D'. fat32_update_dirent vol s off e w = Some (0, w') \<and> fat_ok vol content w' \<and> D' = content (fw_dev w') \<and>
    is_dir vol D' c cs \<and> same_outside vol cs D D' \<and>
    dir_map (dir_slots vol D' cs) = (dir_map (dir_slots vol D cs))(de_name e \<mapsto> (e, s, off))"
proof -
  let ?xs = "dir_slots vol D cs" and ?D' = "D(s := overwrite off e (D s))"
  have dok: "disk_ok D" using device_disk_ok [OF assms(1)] assms(4) by simp
  have dir: "file_chain vol D c cs" "distinct cs" "dir_ok ?xs" "cs \<noteq> []" using assms(5) by (auto simp: is_dir_def)
  have i: "i < length (places vol cs)" "\<forall>j < i. live (?xs ! j)" "reusable (?xs ! i)" using assms(6) by (auto simp: open_slot_def)
  have e: "length e = 32" "live (e, s, off)" "\<not> hidden_entry (fst (e, s, off))" using assms(8) by (simp_all add: shown_def live_def)
  note put = put_slot [OF assms(2) dok dir(1,2) e(1) i(1) assms(7) refl]
  have la: "\<forall>a \<in> set (take i ?xs). live a" using live_prefix [OF i(2)] .
  have nm: "dir_map (take i ?xs @ ?xs ! i # drop (Suc i) ?xs) (slot_name (e, s, off)) = None"
    using assms(9) put(6) by (simp add: slot_name_def)
  have "dir_ok (take i ?xs @ ?xs ! i # drop (Suc i) ?xs)" using dir(3) put(6) by simp
  note ins = dir_insert [OF this la i(3) e(2,3) nm]
  have "dir_ok (dir_slots vol ?D' cs)" "dir_map (dir_slots vol ?D' cs) = (dir_map ?xs)(de_name e \<mapsto> (e, s, off))"
    using ins unfolding put(5) put(6) [symmetric] by (simp_all add: slot_name_def)
  then show ?thesis
    using update_dirent_ok [OF assms(1-4) put(1,2) e(1)] put(3,4) dir(2,4) by (auto simp: is_dir_def)
qed

lemma delete_entry_ok:
  assumes "device_ok vol content" "vol_ok vol" "fat_ok vol content w" "D = content (fw_dev w)" "is_dir vol D c cs"
    "dir_map (dir_slots vol D cs) dn = Some (e0, s, off)" "length e = 32" "e ! 0 = DIRENT_DELETED"
  shows "\<exists>w' D'. fat32_update_dirent vol s off e w = Some (0, w') \<and> fat_ok vol content w' \<and> D' = content (fw_dev w') \<and>
    is_dir vol D' c cs \<and> same_outside vol cs D D' \<and>
    dir_map (dir_slots vol D' cs) = (dir_map (dir_slots vol D cs))(dn := None)"
proof -
  let ?xs = "dir_slots vol D cs" and ?D' = "D(s := overwrite off e (D s))" and ?x = "(e0, s, off)"
  have dok: "disk_ok D" using device_disk_ok [OF assms(1)] assms(4) by simp
  have dir: "file_chain vol D c cs" "distinct cs" "dir_ok ?xs" "cs \<noteq> []" using assms(5) by (auto simp: is_dir_def)
  have x: "?x \<in> set (visible ?xs)" "slot_name ?x = dn" using assms(6) dir_map_iff [OF dir(3)] by auto
  from x(1) obtain A B where ab: "?xs = A @ ?x # B" "\<forall>a \<in> set A. live a" "live ?x" "\<not> hidden_entry (fst ?x)" by (rule visible_memE)
  let ?i = "length A"
  have i: "?i < length (places vol cs)" using arg_cong [OF ab(1), of length] by (simp add: dir_slots_def)
  have "?xs ! ?i = ?x" using ab(1) by simp
  then have pl: "places vol cs ! ?i = (s, off)" using i by (cases "places vol cs ! ?i") (simp add: dir_slots_def slot_at_def)
  note put = put_slot [OF assms(2) dok dir(1,2) assms(7) i pl refl]
  have sl: "dir_slots vol ?D' cs = A @ (e, s, off) # B" using put(5) ab(1) by simp
  have "dir_ok (A @ ?x # B)" using dir(3) ab(1) by simp
  note del = dir_delete [OF this ab(2-4), of "(e, s, off)"]
  have "dir_ok (dir_slots vol ?D' cs)" "dir_map (dir_slots vol ?D' cs) = (dir_map ?xs)(dn := None)"
    using del assms(8) x(2) unfolding sl ab(1) by simp_all
  then show ?thesis
    using update_dirent_ok [OF assms(1-4) put(1,2) assms(7)] put(3,4) dir(2,4) by (auto simp: is_dir_def)
qed

section \<open>Names and new entries\<close>

text \<open>The bytes of a C string that does not start with the deletion mark.\<close>

definition dos_name_ok :: "u8 list \<Rightarrow> bool" where
  "dos_name_ok name \<longleftrightarrow> 0 \<notin> set name \<and> (name \<noteq> [] \<longrightarrow> hd name \<noteq> DIRENT_DELETED)"

lemma length_fill_field: "length (fill_field n cs) = n"
  by (simp add: fill_field_def)

lemma length_dos_name [simp]: "length (fat32_to_dos_name name) = 11"
  by (simp add: fat32_to_dos_name_def length_fill_field Let_def)

lemma to_upper_cases: "to_upper c = c \<or> (97 \<le> c \<and> c \<le> 122 \<and> to_upper c = c - 32)"
  by (simp add: to_upper_def)

lemma to_upper_0: "c \<noteq> 0 \<Longrightarrow> to_upper c \<noteq> 0"
  by (auto simp: to_upper_def)

lemma to_upper_E5: "c \<noteq> DIRENT_DELETED \<Longrightarrow> to_upper c \<noteq> DIRENT_DELETED"
proof
  assume c: "c \<noteq> DIRENT_DELETED" "to_upper c = DIRENT_DELETED"
  then have "c - 32 = 0xE5" "97 \<le> c" by (auto simp: to_upper_def DIRENT_DELETED_def split: if_splits)
  then have "c = 0xE5 + 32" by (metis diff_add_cancel)
  moreover have "(0xE5 + 32 :: u8) = 5" by code_simp
  ultimately show False using \<open>97 \<le> c\<close> by simp
qed

lemma dos_name_head:
  assumes "dos_name_ok name"
  shows "fat32_to_dos_name name ! 0 \<noteq> 0" "fat32_to_dos_name name ! 0 \<noteq> DIRENT_DELETED"
proof -
  have h: "fat32_to_dos_name name ! 0 = (if name = [] \<or> hd name = 46 then 32 else to_upper (hd name))"
    by (cases name) (simp_all add: fat32_to_dos_name_def fill_field_def Let_def nth_append)
  show "fat32_to_dos_name name ! 0 \<noteq> 0" "fat32_to_dos_name name ! 0 \<noteq> DIRENT_DELETED"
    unfolding h using assms to_upper_0 [of "hd name"] to_upper_E5 [of "hd name"] hd_in_set [of name]
    by (cases "hd name = 0"; auto simp: dos_name_ok_def DIRENT_DELETED_def)+
qed

lemma length_new_entry: "length nm = 11 \<Longrightarrow> length (new_entry nm attr c) = 32"
  by (simp add: new_entry_def set_cluster_def set_name_def length_overwrite enc16_def)

lemma new_entry_alt:
  assumes "length nm = 11"
  shows "new_entry nm attr c = nm @ attr # replicate 8 0 @ enc16 (c div 65536) @ replicate 4 0 @ enc16 c @ replicate 4 0"
proof -
  obtain a0 a1 a2 a3 a4 a5 a6 a7 a8 a9 a10 where "nm = [a0, a1, a2, a3, a4, a5, a6, a7, a8, a9, a10]"
    using assms by (auto simp: numeral_eq_Suc length_Suc_conv)
  moreover have "replicate 32 (0 :: u8) = [0,0,0,0,0,0,0,0,0,0,0,0,0,0,0,0,0,0,0,0,0,0,0,0,0,0,0,0,0,0,0,0]"
    "replicate 8 (0 :: u8) = [0,0,0,0,0,0,0,0]" "replicate 4 (0 :: u8) = [0,0,0,0]"
    by (simp_all add: numeral_eq_Suc)
  ultimately show ?thesis
    by (simp add: new_entry_def set_cluster_def set_name_def overwrite_def enc16_def upd_conv_take_nth_drop)
qed

lemma bytes_16: "x mod 256 + 256 * (x div 256 mod 256) = (x :: nat) mod 65536"
  using mod_mult2_eq [of x 256 256] by simp

lemma new_entry_fields:
  assumes "length nm = 11"
  shows "de_name (new_entry nm attr c) = nm" "de_attr (new_entry nm attr c) = attr"
    "de_file_size (new_entry nm attr c) = 0" "c < 2 ^ 32 \<Longrightarrow> de_cluster (new_entry nm attr c) = c"
proof -
  have e: "new_entry nm attr c = nm @ attr # replicate 8 0 @ enc16 (c div 65536) @ replicate 4 0 @ enc16 c @ replicate 4 0"
    using assms by (simp add: new_entry_alt)
  show "de_name (new_entry nm attr c) = nm" "de_attr (new_entry nm attr c) = attr"
    unfolding e using assms by (simp_all add: de_name_def de_attr_def nth_append)
  show "de_file_size (new_entry nm attr c) = 0"
    unfolding e using assms by (simp add: de_file_size_def le32_alt nth_append enc16_def nth_Cons')
  show "de_cluster (new_entry nm attr c) = c" if "c < 2 ^ 32"
  proof -
    have "de_cluster (new_entry nm attr c) =
        (unat (of_nat (c div 65536) :: u8) + 256 * unat (of_nat (c div 65536 div 256) :: u8)) * 65536 +
        (unat (of_nat c :: u8) + 256 * unat (of_nat (c div 256) :: u8))"
      unfolding e using assms by (simp add: de_cluster_def le16_def nth_append enc16_def nth_Cons')
    also have "\<dots> = (c div 65536) * 65536 + c mod 65536"
      using bytes_16 [of "c div 65536"] bytes_16 [of c] that
      by (simp add: unat_of_nat)
    finally show ?thesis by simp
  qed
qed

lemma new_entry_shown:
  assumes "dos_name_ok name" "attr = ATTR_ARCHIVE \<or> attr = ATTR_DIRECTORY"
  shows "shown (new_entry (fat32_to_dos_name name) attr c)"
proof -
  let ?e = "new_entry (fat32_to_dos_name name) attr c"
  have "?e ! 0 = fat32_to_dos_name name ! 0"
    using new_entry_fields(1) [of "fat32_to_dos_name name" attr c] by (metis de_name_def length_dos_name nth_take zero_less_numeral)
  then show ?thesis
    using dos_name_head [OF assms(1)] assms(2) new_entry_fields(2) [of "fat32_to_dos_name name" attr c]
    by (auto simp: shown_def length_new_entry hidden_entry_def ATTR_ARCHIVE_def ATTR_DIRECTORY_def ATTR_VOLUME_ID_def ATTR_LONG_NAME_def)
qed

end
