(* ===== verification/FatOps.thy ===== *)
theory FatOps
  imports FatDir
begin

text \<open>
  The operations on directories: creating, removing and renaming an entry and making a directory, as changes of
  the map of \<open>FatDir\<close>, and the listing of a directory.
\<close>

section \<open>Creating\<close>

lemma set_clusters_ge: "file_chain vol D c cs \<Longrightarrow> \<forall>y \<in> set cs. 2 \<le> y \<and> y < clusters vol"
  using file_chain_clusters by blast

lemma same_outside_then: "same_outside vol cs D D1 \<Longrightarrow> same_outside vol cs D1 D2 \<Longrightarrow> same_outside vol cs D D2"
  by (rule same_outside_trans) auto

lemma same_outside_mono: "same_outside vol cs D D' \<Longrightarrow> set cs \<subseteq> set cs' \<Longrightarrow> same_outside vol cs' D D'"
  by (rule same_outside_trans [OF same_outside_refl, of _ _ _ _ "[]"]) auto

lemma create_exists_ok:
  assumes "device_ok vol content" "vol_ok vol" "fat_ok vol content w" "D = content (fw_dev w)" "is_dir vol D (nd_inode parent) cs"
    "dir_map (dir_slots vol D cs) (fat32_to_dos_name name) \<noteq> None"
  shows "\<exists>w'. fat32_create_fs vol parent name w = Some (- EEXIST, w') \<and> fat32_mkdir_fs vol parent name w = Some (- EEXIST, w') \<and>
    fat_ok vol content w' \<and> fw_dev w' = fw_dev w"
proof -
  have dir: "file_chain vol D (nd_inode parent) cs" "cs \<noteq> []" using assms(5) by (auto simp: is_dir_def)
  from find_dirent_ok [OF assms(1-3) dir assms(4) refl, of name] show ?thesis
    using assms(6) by (auto simp: fat32_create_fs_def fat32_mkdir_fs_def)
qed

lemma create_ok:
  assumes "device_ok vol content" "vol_ok vol" "fat_ok vol content w" "D = content (fw_dev w)" "is_dir vol D (nd_inode parent) cs"
    "(\<exists>x \<in> set (dir_slots vol D cs). reusable x) \<or> free_set vol D \<noteq> {}"
    "dos_name_ok name" "dn = fat32_to_dos_name name" "dir_map (dir_slots vol D cs) dn = None"
  shows "\<exists>ns s off w' D'. fat32_create_fs vol parent name w = Some (0, w') \<and> fat_ok vol content w' \<and>
    D' = content (fw_dev w') \<and> is_dir vol D' (nd_inode parent) (cs @ ns) \<and> set ns \<subseteq> free_set vol D \<and>
    same_outside vol (cs @ ns) D D' \<and>
    dir_map (dir_slots vol D' (cs @ ns)) = (dir_map (dir_slots vol D cs))(dn \<mapsto> (new_entry dn ATTR_ARCHIVE 0, s, off))"
proof -
  let ?c = "nd_inode parent" and ?e = "new_entry dn ATTR_ARCHIVE 0"
  have dir: "file_chain vol D ?c cs" "cs \<noteq> []" using assms(5) by (auto simp: is_dir_def)
  obtain f w1 where w1: "fat32_find_dirent_in_chain vol ?c name w = Some (- ENOENT, f, w1)" "fat_ok vol content w1" "fw_dev w1 = fw_dev w"
    using find_dirent_ok [OF assms(1-3) dir assms(4) refl, of name] assms(8,9) by auto
  have D: "D = content (fw_dev w1)" using assms(4) w1(3) by simp
  obtain ns i s off w2 D2 where w2: "fat32_find_free_dirent_in_chain vol ?c w1 = Some (0, (s, off), w2)" "fat_ok vol content w2"
    "D2 = content (fw_dev w2)" "is_dir vol D2 ?c (cs @ ns)" "set ns \<subseteq> free_set vol D" "same_outside vol (cs @ ns) D D2"
    "dir_map (dir_slots vol D2 (cs @ ns)) = dir_map (dir_slots vol D cs)" "open_slot vol D2 (cs @ ns) i" "places vol (cs @ ns) ! i = (s, off)"
    using find_free_dirent_ok [OF assms(1,2) w1(2) D assms(5,6)] by blast
  have e: "shown ?e" "de_name ?e = dn" using new_entry_shown [OF assms(7)] new_entry_fields(1) [of dn] assms(8) by simp_all
  have "dir_map (dir_slots vol D2 (cs @ ns)) (de_name ?e) = None" using w2(7) assms(9) e(2) by simp
  from insert_entry_ok [OF assms(1,2) w2(2-4,8,9) e(1) this] obtain w3 D3 where w3:
    "fat32_update_dirent vol s off ?e w2 = Some (0, w3)" "fat_ok vol content w3" "D3 = content (fw_dev w3)"
    "is_dir vol D3 ?c (cs @ ns)" "same_outside vol (cs @ ns) D2 D3"
    "dir_map (dir_slots vol D3 (cs @ ns)) = (dir_map (dir_slots vol D cs))(dn \<mapsto> (?e, s, off))"
    unfolding w2(7) e(2) by blast
  have "fat32_create_fs vol parent name w = Some (0, w3)"
    using w1(1) w2(1) w3(1) assms(8) by (simp add: fat32_create_fs_def)
  moreover have "same_outside vol (cs @ ns) D D3" using same_outside_trans [OF w2(6) w3(5)] by simp
  ultimately show ?thesis using w2(5) w3(2,3,4,6) by blast
qed

section \<open>Removing\<close>

lemma put_all_sectors:
  assumes "disk_ok D" "\<forall>x \<in> set fs. x < clusters vol" "\<not> in_fat vol s"
  shows "put_all vol fs v D s = D s"
  using assms by (induction fs arbitrary: D) (auto simp: in_fat_put disk_ok_put)

lemma put_all_outside:
  assumes "disk_ok D" "\<forall>x \<in> set fs. x < clusters vol"
  shows "same_outside vol fs D (put_all vol fs 0 D)"
  by (simp add: same_outside_def fat_get_put_all [OF assms(1)] put_all_sectors [OF assms])

lemma same_outside_dir:
  assumes "same_outside vol ns D D'" "vol_ok vol" "is_dir vol D c cs" "\<forall>c \<in> set ns. 2 \<le> c" "set cs \<inter> set ns = {}"
  shows "is_dir vol D' c cs" "dir_slots vol D' cs = dir_slots vol D cs"
proof -
  have ch: "file_chain vol D c cs" using assms(3) by (simp add: is_dir_def)
  note ge = set_clusters_ge [OF ch]
  show sl: "dir_slots vol D' cs = dir_slots vol D cs" by (rule same_outside_slots [OF assms(1,2) ge assms(4,5)])
  have "fat_get vol D' x = fat_get vol D x" if "x \<in> set cs" for x
    using that assms(1,5) ge by (auto simp: same_outside_def)
  then show "is_dir vol D' c cs" using file_chain_cong [of cs vol D' D c] assms(3) sl by (simp add: is_dir_def)
qed

lemma unlink_ok:
  assumes "device_ok vol content" "vol_ok vol" "fat_ok vol content w" "D = content (fw_dev w)" "is_dir vol D (nd_inode parent) cs"
    "dn = fat32_to_dos_name name" "dir_map (dir_slots vol D cs) dn = Some (e, s, off)" "chain vol D (de_cluster e) fs" "distinct fs"
    "set cs \<inter> set fs = {}"
  shows "\<exists>w' D'. fat32_unlink_fs vol parent name w = Some (0, w') \<and> fat_ok vol content w' \<and> D' = content (fw_dev w') \<and>
    is_dir vol D' (nd_inode parent) cs \<and> same_outside vol (cs @ fs) D D' \<and> (\<forall>x \<in> set fs. fat_get vol D' x = 0) \<and>
    dir_map (dir_slots vol D' cs) = (dir_map (dir_slots vol D cs))(dn := None)"
proof -
  let ?c = "nd_inode parent"
  have dok: "disk_ok D" using device_disk_ok [OF assms(1)] assms(4) by simp
  have dir: "file_chain vol D ?c cs" "cs \<noteq> []" "dir_ok (dir_slots vol D cs)" using assms(5) by (auto simp: is_dir_def)
  obtain w1 where w1: "fat32_find_dirent_in_chain vol ?c name w = Some (0, (e, s, off), w1)" "fat_ok vol content w1" "fw_dev w1 = fw_dev w"
    using find_dirent_ok [OF assms(1-3) dir(1,2) assms(4) refl, of name] assms(6,7) by auto
  obtain w2 where w2: "fat32_free_cluster_chain vol (de_cluster e) w1 = Some w2" "fat_ok vol content w2"
    "content (fw_dev w2) = put_all vol fs 0 D"
    using free_chain_ok [OF assms(1,2) w1(2)] assms(4,8,9) w1(3) by auto
  have "fat32_free_cluster_chain vol 0 w1 = Some w1" by (simp add: fat32_free_cluster_chain.simps [of vol 0])
  then have fr: "(if de_cluster e \<noteq> 0 then fat32_free_cluster_chain vol (de_cluster e) w1 else Some w1) = Some w2"
    using w2(1) by (cases "de_cluster e = 0") simp_all
  let ?D2 = "put_all vol fs 0 D"
  have fs: "\<forall>x \<in> set fs. x < clusters vol" "\<forall>x \<in> set fs. 2 \<le> x" using chain_clusters [OF assms(8)] by auto
  note so = put_all_outside [OF dok fs(1)]
  note sd = same_outside_dir [OF so assms(2,5) fs(2) assms(10)]
  have el: "length e = 32"
  proof -
    have "(e, s, off) \<in> set (dir_slots vol D cs)"
      using assms(7) dir_map_iff [OF dir(3)] by (auto simp: visible_def dest: set_takeWhileD)
    then show ?thesis using dok by (auto simp: dir_slots_def slot_at_def places_mem disk_ok_def)
  qed
  have "dir_map (dir_slots vol ?D2 cs) dn = Some (e, s, off)" using sd(2) assms(7) by simp
  from delete_entry_ok [OF assms(1,2) w2(2) w2(3) [symmetric] sd(1) this, of "e[0 := DIRENT_DELETED]"] el obtain w3 D3 where w3:
    "fat32_update_dirent vol s off (e[0 := DIRENT_DELETED]) w2 = Some (0, w3)" "fat_ok vol content w3" "D3 = content (fw_dev w3)"
    "is_dir vol D3 ?c cs" "same_outside vol cs ?D2 D3" "dir_map (dir_slots vol D3 cs) = (dir_map (dir_slots vol D cs))(dn := None)"
    unfolding sd(2) by auto
  have "fat32_unlink_fs vol parent name w = Some (0, w3)"
    using w1(1) fr w3(1) by (auto simp: fat32_unlink_fs_def)
  moreover have "same_outside vol (cs @ fs) D D3" using same_outside_trans [OF so w3(5)] by simp
  moreover have "fat_get vol D3 x = 0" if "x \<in> set fs" for x
    using w3(5) fat_get_put_all [OF dok, of vol fs 0 x] fs(1) that assms(10) by (auto simp: same_outside_def)
  ultimately show ?thesis using w3(2,3,4,6) by blast
qed

lemma unlink_missing_ok:
  assumes "device_ok vol content" "vol_ok vol" "fat_ok vol content w" "D = content (fw_dev w)" "is_dir vol D (nd_inode parent) cs"
    "dir_map (dir_slots vol D cs) (fat32_to_dos_name name) = None"
  shows "\<exists>w'. fat32_unlink_fs vol parent name w = Some (- ENOENT, w') \<and> fat_ok vol content w' \<and> fw_dev w' = fw_dev w"
proof -
  have dir: "file_chain vol D (nd_inode parent) cs" "cs \<noteq> []" using assms(5) by (auto simp: is_dir_def)
  from find_dirent_ok [OF assms(1-3) dir assms(4) refl, of name] show ?thesis
    using assms(6) by (auto simp: fat32_unlink_fs_def)
qed

section \<open>Renaming inside a directory\<close>

lemma dir_map_entry:
  assumes "disk_ok D" "is_dir vol D c cs" "dir_map (dir_slots vol D cs) dn = Some (e, s, off)"
  shows "shown e" "de_name e = dn"
proof -
  have x: "(e, s, off) \<in> set (visible (dir_slots vol D cs))" "slot_name (e, s, off) = dn"
    using assms(2,3) dir_map_iff [of "dir_slots vol D cs"] by (auto simp: is_dir_def)
  show "de_name e = dn" using x(2) by (simp add: slot_name_def)
  from x(1) obtain A B where ab: "dir_slots vol D cs = A @ (e, s, off) # B" "live (e, s, off)" "\<not> hidden_entry e"
    by (rule visible_memE) auto
  then have "(e, s, off) \<in> set (dir_slots vol D cs)" by simp
  then have "length e = 32" using assms(1) by (auto simp: dir_slots_def slot_at_def places_mem disk_ok_def)
  then show "shown e" using ab(2,3) by (simp add: shown_def live_def)
qed

lemma free_outside:
  assumes "same_outside vol cs D D'" "y \<in> free_set vol D" "y \<notin> set cs"
  shows "y \<in> free_set vol D'"
  using assms by (auto simp: free_set_def is_free_def same_outside_def)

lemma set_name_shown:
  assumes "shown e" "dos_name_ok name" "e' = set_name (fat32_to_dos_name name) e"
  shows "shown e'" "de_name e' = fat32_to_dos_name name" "de_cluster e' = de_cluster e" "de_file_size e' = de_file_size e"
proof -
  let ?n = "fat32_to_dos_name name"
  have le: "length e = 32" using assms(1) by (simp add: shown_def)
  have nth: "e' ! i = (if i < 11 then ?n ! i else e ! i)" if "i < 32" for i
    using nth_overwrite [of 0 ?n e i] le that assms(3) by (simp add: set_name_def)
  have l': "length e' = 32" using le assms(3) by (simp add: set_name_def length_overwrite)
  show "de_name e' = ?n" using le assms(3) by (simp add: de_name_def set_name_def overwrite_def)
  show "de_cluster e' = de_cluster e" "de_file_size e' = de_file_size e"
    by (simp_all add: de_cluster_def de_file_size_def le16_def le32_alt nth)
  have "de_attr e' = de_attr e" by (simp add: de_attr_def nth)
  then show "shown e'"
    using assms(1) dos_name_head [OF assms(2)] l' nth [of 0] by (auto simp: shown_def hidden_entry_def)
qed

text \<open>The entry of the new name, when there is one, is removed first.\<close>

lemma remove_existing_ok:
  assumes "device_ok vol content" "vol_ok vol" "fat_ok vol content w" "D = content (fw_dev w)" "is_dir vol D c cs"
    "m = dir_map (dir_slots vol D cs)" "dn = fat32_to_dos_name name" "free_set vol D \<noteq> {}"
  shows "\<exists>r f w2 u w3 D3. fat32_find_dirent_in_chain vol c name w = Some (r, f, w2) \<and>
    (if r = 0 then fat32_update_dirent vol (fst (snd f)) (snd (snd f)) ((fst f)[0 := DIRENT_DELETED]) w2 else Some (0, w2)) = Some (u, w3) \<and>
    fat_ok vol content w3 \<and> D3 = content (fw_dev w3) \<and> is_dir vol D3 c cs \<and> same_outside vol cs D D3 \<and>
    dir_map (dir_slots vol D3 cs) = m(dn := None) \<and> free_set vol D3 \<noteq> {}"
proof -
  have dok: "disk_ok D" using device_disk_ok [OF assms(1)] assms(4) by simp
  have dir: "file_chain vol D c cs" "cs \<noteq> []" using assms(5) by (auto simp: is_dir_def)
  obtain w2 where w2: "fat32_find_dirent_in_chain vol c name w =
      Some (if m dn = None then - ENOENT else 0, case m dn of None \<Rightarrow> ([], 0, 0) | Some x \<Rightarrow> x, w2)"
    "fat_ok vol content w2" "fw_dev w2 = fw_dev w"
    using find_dirent_ok [OF assms(1-3) dir assms(4) refl, of name] assms(6,7) by auto
  have D: "D = content (fw_dev w2)" using assms(4) w2(3) by simp
  obtain y where y: "y \<in> free_set vol D" using assms(8) by blast
  then have yc: "y \<notin> set cs" using file_chain_free [OF dir(1)] by blast
  show ?thesis
  proof (cases "m dn")
    case None
    then have "m(dn := None) = m" by auto
    then show ?thesis using None w2 D assms(5,6,8) same_outside_refl [of vol cs D] by simp
  next
    case (Some f)
    obtain e s off where f: "f = (e, s, off)" using prod_cases3 by blast
    have md: "dir_map (dir_slots vol D cs) dn = Some (e, s, off)" using Some f assms(6) by simp
    have "length e = 32" using dir_map_entry(1) [OF dok assms(5) md] by (simp add: shown_def)
    then obtain w3 D3 where w3: "fat32_update_dirent vol s off (e[0 := DIRENT_DELETED]) w2 = Some (0, w3)" "fat_ok vol content w3"
      "D3 = content (fw_dev w3)" "is_dir vol D3 c cs" "same_outside vol cs D D3" "dir_map (dir_slots vol D3 cs) = m(dn := None)"
      using delete_entry_ok [OF assms(1,2) w2(2) D assms(5) md, of "e[0 := DIRENT_DELETED]"] assms(6) by auto
    have "free_set vol D3 \<noteq> {}" using free_outside [OF w3(5) y yc] by blast
    then show ?thesis using Some f w2(1) w3 by auto
  qed
qed

lemma rename_ok:
  assumes "device_ok vol content" "vol_ok vol" "fat_ok vol content w" "D = content (fw_dev w)" "is_dir vol D (nd_inode parent) cs"
    "free_set vol D \<noteq> {}" "m = dir_map (dir_slots vol D cs)" "dn = fat32_to_dos_name old_name" "dn' = fat32_to_dos_name new_name"
    "dn \<noteq> dn'" "m dn = Some (e, s, off)" "dos_name_ok new_name"
  shows "\<exists>ns s' off' w' D'. fat32_rename_fs vol parent old_name parent new_name w = Some (0, w') \<and> fat_ok vol content w' \<and>
    D' = content (fw_dev w') \<and> is_dir vol D' (nd_inode parent) (cs @ ns) \<and> set ns \<subseteq> free_set vol D \<and> same_outside vol (cs @ ns) D D' \<and>
    dir_map (dir_slots vol D' (cs @ ns)) = m(dn := None, dn' \<mapsto> (set_name dn' e, s', off'))"
proof -
  let ?c = "nd_inode parent" and ?e = "set_name dn' e"
  have dok: "disk_ok D" using device_disk_ok [OF assms(1)] assms(4) by simp
  have dir: "file_chain vol D ?c cs" "cs \<noteq> []" using assms(5) by (auto simp: is_dir_def)
  have md: "dir_map (dir_slots vol D cs) dn = Some (e, s, off)" using assms(7,11) by simp
  have e: "shown ?e" "de_name ?e = dn'" using set_name_shown [OF dir_map_entry(1) [OF dok assms(5) md] assms(12)] assms(9) by simp_all
  obtain w1 where w1: "fat32_find_dirent_in_chain vol ?c old_name w = Some (0, (e, s, off), w1)" "fat_ok vol content w1" "fw_dev w1 = fw_dev w"
    using find_dirent_ok [OF assms(1-3) dir assms(4) refl, of old_name] assms(8) md by auto
  have D1: "D = content (fw_dev w1)" using assms(4) w1(3) by simp
  obtain r f w2 u w3 D3 where w3: "fat32_find_dirent_in_chain vol ?c new_name w1 = Some (r, f, w2)"
    "(if r = 0 then fat32_update_dirent vol (fst (snd f)) (snd (snd f)) ((fst f)[0 := DIRENT_DELETED]) w2 else Some (0, w2)) = Some (u, w3)"
    "fat_ok vol content w3" "D3 = content (fw_dev w3)" "is_dir vol D3 ?c cs" "same_outside vol cs D D3"
    "dir_map (dir_slots vol D3 cs) = m(dn' := None)" "free_set vol D3 \<noteq> {}"
    using remove_existing_ok [OF assms(1,2) w1(2) D1 assms(5,7,9,6)] by blast
  obtain ns i s' off' w4 D4 where w4: "fat32_find_free_dirent_in_chain vol ?c w3 = Some (0, (s', off'), w4)" "fat_ok vol content w4"
    "D4 = content (fw_dev w4)" "is_dir vol D4 ?c (cs @ ns)" "set ns \<subseteq> free_set vol D3" "same_outside vol (cs @ ns) D3 D4"
    "dir_map (dir_slots vol D4 (cs @ ns)) = m(dn' := None)" "open_slot vol D4 (cs @ ns) i" "places vol (cs @ ns) ! i = (s', off')"
    using find_free_dirent_ok [OF assms(1,2) w3(3,4,5)] w3(7,8) by metis
  have "dir_map (dir_slots vol D4 (cs @ ns)) (de_name ?e) = None" using w4(7) e(2) by simp
  from insert_entry_ok [OF assms(1,2) w4(2,3,4,8,9) e(1) this] obtain w5 D5 where w5:
    "fat32_update_dirent vol s' off' ?e w4 = Some (0, w5)" "fat_ok vol content w5" "D5 = content (fw_dev w5)" "is_dir vol D5 ?c (cs @ ns)"
    "same_outside vol (cs @ ns) D4 D5" "dir_map (dir_slots vol D5 (cs @ ns)) = m(dn' \<mapsto> (?e, s', off'))"
    unfolding w4(7) e(2) by auto
  have old: "dir_map (dir_slots vol D5 (cs @ ns)) dn = Some (e, s, off)" using w5(6) assms(10,11) by simp
  have el: "length ?e = 32" using e(1) by (simp add: shown_def)
  obtain w6 D6 where w6: "fat32_update_dirent vol s off (?e[0 := DIRENT_DELETED]) w5 = Some (0, w6)" "fat_ok vol content w6"
    "D6 = content (fw_dev w6)" "is_dir vol D6 ?c (cs @ ns)" "same_outside vol (cs @ ns) D5 D6"
    "dir_map (dir_slots vol D6 (cs @ ns)) = m(dn' \<mapsto> (?e, s', off'), dn := None)"
    using delete_entry_ok [OF assms(1,2) w5(2,3,4) old, of "?e[0 := DIRENT_DELETED]"] el w5(6) by auto
  have "fat32_rename_fs vol parent old_name parent new_name w = Some (0, w6)"
    using w1(1) w3(1,2) w4(1) w5(1) w6(1) assms(9)
    by (cases f; cases "r = 0") (simp_all add: fat32_rename_fs_def)
  moreover have "same_outside vol (cs @ ns) D D6"
    using same_outside_then [OF same_outside_mono [OF w3(6)] same_outside_then [OF w4(6) same_outside_then [OF w5(5) w6(5)]]] by simp
  moreover have "set ns \<subseteq> free_set vol D"
  proof
    fix x assume x: "x \<in> set ns"
    then have "x \<notin> set cs" using w4(4) by (auto simp: is_dir_def)
    then show "x \<in> free_set vol D" using w4(5) w3(6) x by (auto simp: free_set_def is_free_def same_outside_def)
  qed
  moreover have "m(dn' \<mapsto> (?e, s', off'), dn := None) = m(dn := None, dn' \<mapsto> (?e, s', off'))" using assms(10) by (auto simp: fun_eq_iff)
  ultimately show ?thesis using w6 by auto
qed

section \<open>Making a directory\<close>

lemma alloc_outside:
  assumes "vol_ok vol" "disk_ok D" "2 \<le> n" "n < clusters vol" "D' = zero_cluster vol n (fat_put vol n FAT32_EOC D)"
  shows "same_outside vol [n] D D'" "fat_get vol D' n = FAT32_EOC"
    "k < sectors_per_cluster vol \<Longrightarrow> D' (cluster_lba vol n + k) = replicate 512 0"
proof -
  have g: "fat_get vol D' y = (if y = n then FAT32_EOC else fat_get vol D y)" if "y < clusters vol" for y
    using fat_get_zero [OF assms(1) that, of n "fat_put vol n FAT32_EOC D"] fat_get_put [OF assms(2), of vol n FAT32_EOC y] assms(5)
    by (simp add: FAT32_EOC_def)
  show "fat_get vol D' n = FAT32_EOC" using g [OF assms(4)] by simp
  have "D' s = D s" if "\<not> in_fat vol s" "\<not> in_clusters vol [n] s" for s
    using that assms(5) in_fat_put [OF assms(4) that(1)] by (auto simp: zero_cluster_def in_clusters_def)
  then show "same_outside vol [n] D D'" using g by (simp add: same_outside_def)
  show "D' (cluster_lba vol n + k) = replicate 512 0" if "k < sectors_per_cluster vol" using that assms(5) by (simp add: zero_cluster_def)
qed

text \<open>The two entries of a new directory.\<close>

definition dot_name :: "u8 list" where "dot_name = 46 # replicate 10 32"
definition dotdot_name :: "u8 list" where "dotdot_name = 46 # 46 # replicate 9 32"

definition dot_map :: "nat \<Rightarrow> nat \<Rightarrow> nat \<Rightarrow> u8 list \<Rightarrow> slot option" where
  "dot_map lba n p =
     [dot_name \<mapsto> (new_entry dot_name ATTR_DIRECTORY n, lba, 0), dotdot_name \<mapsto> (new_entry dotdot_name ATTR_DIRECTORY p, lba, 32)]"

lemma dot_sector_slots:
  assumes "bytes_per_sector vol = 512" "b = dot_sector vol n p"
  shows "length b = 512" "take 32 b = new_entry dot_name ATTR_DIRECTORY n" "take 32 (drop 32 b) = new_entry dotdot_name ATTR_DIRECTORY p"
    "2 \<le> j \<Longrightarrow> j < 16 \<Longrightarrow> take 32 (drop (32 * j) b) = replicate 32 0"
proof -
  let ?a = "new_entry dot_name ATTR_DIRECTORY n" and ?c = "new_entry dotdot_name ATTR_DIRECTORY p"
  have l: "length ?a = 32" "length ?c = 32" by (simp_all add: length_new_entry dot_name_def dotdot_name_def)
  have b: "b = ?a @ ?c @ replicate 448 0"
    using assms l by (simp add: dot_sector_def dot_name_def dotdot_name_def overwrite_def)
  show "length b = 512" "take 32 b = ?a" "take 32 (drop 32 b) = ?c" using l by (simp_all add: b)
  show "take 32 (drop (32 * j) b) = replicate 32 0" if "2 \<le> j" "j < 16" using l that by (simp add: b min_def)
qed

lemma dot_dir:
  assumes "vol_ok vol" "2 \<le> n" "n < clusters vol" "fat_get vol D n = FAT32_EOC"
    "D (cluster_lba vol n) = dot_sector vol n p"
    "\<And>k. 0 < k \<Longrightarrow> k < sectors_per_cluster vol \<Longrightarrow> D (cluster_lba vol n + k) = replicate 512 0"
  shows "is_dir vol D n [n]" "dir_map (dir_slots vol D [n]) = dot_map (cluster_lba vol n) n p"
proof -
  let ?l = "cluster_lba vol n"
  let ?x = "(new_entry dot_name ATTR_DIRECTORY n, ?l, 0)" and ?y = "(new_entry dotdot_name ATTR_DIRECTORY p, ?l, 32)"
  have v: "bytes_per_sector vol = 512" "0 < sectors_per_cluster vol" using assms(1) by (simp_all add: vol_ok_def)
  note ds = dot_sector_slots [OF v(1) assms(5)]
  obtain k where k: "sectors_per_cluster vol = Suc k" using v(2) gr0_implies_Suc by blast
  define ps where "ps = drop 2 (places vol [n])"
  have pl: "places vol [n] = (?l, 0) # (?l, 32) # ps"
    by (simp add: ps_def places_def cluster_places_def k upt_conv_Cons sector_places_def del: upt_Suc)
  have dead: "\<not> live (slot_at D q)" if "q \<in> set ps" for q
  proof -
    have "distinct (places vol [n])" using distinct_places [of "[n]" vol] assms(2) by simp
    then have "q \<noteq> (?l, 0)" "q \<noteq> (?l, 32)" "q \<in> set (places vol [n])" using that pl by auto
    then obtain i j where ij: "q = (?l + i, 32 * j)" "i < sectors_per_cluster vol" "j < 16" unfolding places_mem by auto
    have "2 \<le> j" if "i = 0"
    proof (rule ccontr)
      assume "\<not> 2 \<le> j"
      then have "j = 0 \<or> j = 1" by auto
      then show False using that ij(1) \<open>q \<noteq> (?l, 0)\<close> \<open>q \<noteq> (?l, 32)\<close> by auto
    qed
    note q = ij this
    have "take 32 (drop (32 * j) (D (?l + i))) = replicate 32 0"
      using q assms(6) [of i] ds(4) [of j] by (cases "i = 0") auto
    then show ?thesis using q(1) by (simp add: slot_at_def live_def)
  qed
  have sl: "dir_slots vol D [n] = ?x # ?y # map (slot_at D) ps" using ds(2,3) by (simp add: dir_slots_def pl slot_at_def)
  have ln: "length dot_name = 11" "length dotdot_name = 11" by (simp_all add: dot_name_def dotdot_name_def)
  have e0: "new_entry nm a c ! 0 = nm ! 0" if "length nm = 11" for nm a c using that by (simp add: new_entry_alt nth_append)
  have "live ?x" "live ?y" "\<not> hidden_entry (fst ?x)" "\<not> hidden_entry (fst ?y)"
    using new_entry_fields(2) ln e0 [OF ln(1)] e0 [OF ln(2)]
    by (simp_all add: live_def hidden_entry_def dot_name_def dotdot_name_def DIRENT_DELETED_def ATTR_DIRECTORY_def
        ATTR_VOLUME_ID_def ATTR_LONG_NAME_def)
  then have vis: "visible (dir_slots vol D [n]) = [?x, ?y]" and dw: "dropWhile live (dir_slots vol D [n]) = dropWhile live (map (slot_at D) ps)"
    using dead visible_dead [of "map (slot_at D) ps"] by (simp_all add: sl visible_Cons)
  have nm: "slot_name ?x = dot_name" "slot_name ?y = dotdot_name" using new_entry_fields(1) ln by (simp_all add: slot_name_def)
  have ne: "dot_name \<noteq> dotdot_name" by code_simp
  have "dir_ok (dir_slots vol D [n])" using vis nm ne dead set_dropWhileD [of _ live "map (slot_at D) ps"] by (fastforce simp: dir_ok_def dw)
  then show "is_dir vol D n [n]" using assms(2,3,4) by (simp add: is_dir_def)
  show "dir_map (dir_slots vol D [n]) = dot_map ?l n p" using vis nm ne by (auto simp: dir_map_def dot_map_def fun_eq_iff)
qed

text \<open>The slot for the entry and the cluster of the directory are found.\<close>

lemma mkdir_alloc_ok:
  assumes "device_ok vol content" "vol_ok vol" "fat_ok vol content w" "D = content (fw_dev w)" "is_dir vol D c cs" "2 \<le> card (free_set vol D)"
  shows "\<exists>ns n i s off w2 w3 D3. fat32_find_free_dirent_in_chain vol c w = Some (0, (s, off), w2) \<and>
    fat32_alloc_cluster vol w2 = Some (0, n, w3) \<and> fat_ok vol content w3 \<and> D3 = content (fw_dev w3) \<and>
    is_dir vol D3 c (cs @ ns) \<and> set (n # ns) \<subseteq> free_set vol D \<and> n \<notin> set (cs @ ns) \<and> same_outside vol (cs @ ns @ [n]) D D3 \<and>
    dir_map (dir_slots vol D3 (cs @ ns)) = dir_map (dir_slots vol D cs) \<and> open_slot vol D3 (cs @ ns) i \<and>
    places vol (cs @ ns) ! i = (s, off) \<and> fat_get vol D3 n = FAT32_EOC \<and>
    (\<forall>k < sectors_per_cluster vol. D3 (cluster_lba vol n + k) = replicate 512 0)"
proof -
  have ch: "file_chain vol D c cs" using assms(5) by (simp add: is_dir_def)
  have fre: "free_set vol D \<noteq> {}" using assms(6) by auto
  obtain ns i s off w2 D2 where w2: "fat32_find_free_dirent_in_chain vol c w = Some (0, (s, off), w2)" "fat_ok vol content w2"
    "D2 = content (fw_dev w2)" "is_dir vol D2 c (cs @ ns)" "set ns \<subseteq> free_set vol D" "length ns \<le> 1" "same_outside vol (cs @ ns) D D2"
    "dir_map (dir_slots vol D2 (cs @ ns)) = dir_map (dir_slots vol D cs)" "open_slot vol D2 (cs @ ns) i" "places vol (cs @ ns) ! i = (s, off)"
    using find_free_dirent_ok [OF assms(1-5)] fre by metis
  have "free_set vol D2 \<noteq> {}"
  proof -
    have "card (set ns) \<le> 1" using w2(6) card_length [of ns] by simp
    then have "free_set vol D - set ns \<noteq> {}" using assms(6) card_mono [of "set ns" "free_set vol D"] by auto
    then obtain y where y: "y \<in> free_set vol D" "y \<notin> set ns" by blast
    moreover have "y \<notin> set cs" using y(1) file_chain_free [OF ch] by blast
    ultimately show ?thesis using free_outside [OF w2(7), of y] by auto
  qed
  from find_free [OF this] obtain n where n: "find (is_free vol D2) [0..<clusters vol] = Some n" "n \<in> free_set vol D2" by auto
  have nb: "2 \<le> n" "n < clusters vol" using n(2) by (auto simp: free_set_def is_free_def)
  have nc: "n \<notin> set (cs @ ns)" using n(2) w2(4) file_chain_free by (fastforce simp: is_dir_def)
  have nD: "n \<in> free_set vol D" using n(2) w2(7) nc by (auto simp: free_set_def is_free_def same_outside_def)
  define D3 where "D3 = zero_cluster vol n (fat_put vol n FAT32_EOC D2)"
  obtain w3 where w3: "fat32_alloc_cluster vol w2 = Some (0, n, w3)" "fat_ok vol content w3" "D3 = content (fw_dev w3)"
    using alloc_ok [OF assms(1,2) w2(2,3)] n(1) by (auto simp: D3_def)
  have dok2: "disk_ok D2" using device_disk_ok [OF assms(1)] w2(3) by simp
  note al = alloc_outside [OF assms(2) dok2 nb D3_def]
  have sd: "is_dir vol D3 c (cs @ ns)" "dir_slots vol D3 (cs @ ns) = dir_slots vol D2 (cs @ ns)"
    by (rule same_outside_dir [OF al(1) assms(2) w2(4)]; use nb nc in auto)+
  have "same_outside vol (cs @ ns @ [n]) D D3"
    by (rule same_outside_trans [OF w2(7) al(1)]) auto
  then show ?thesis using w2(1,5,8,9,10) w3 sd nc nD al(2,3)
    by (intro exI [of _ ns] exI [of _ n] exI [of _ i] exI [of _ s] exI [of _ off] exI [of _ w2] exI [of _ w3] exI [of _ D3])
      (simp add: open_slot_def)
qed

lemma mkdir_ok:
  assumes "device_ok vol content" "vol_ok vol" "fat_ok vol content w" "D = content (fw_dev w)" "is_dir vol D (nd_inode parent) cs"
    "2 \<le> card (free_set vol D)" "dos_name_ok name" "dn = fat32_to_dos_name name" "m = dir_map (dir_slots vol D cs)" "m dn = None"
    "p = (if nd_inode parent = root_cluster vol then 0 else nd_inode parent)"
  shows "\<exists>ns n s off w' D'. fat32_mkdir_fs vol parent name w = Some (0, w') \<and> fat_ok vol content w' \<and>
    D' = content (fw_dev w') \<and> is_dir vol D' (nd_inode parent) (cs @ ns) \<and> set (n # ns) \<subseteq> free_set vol D \<and> n \<notin> set (cs @ ns) \<and>
    same_outside vol (cs @ ns @ [n]) D D' \<and>
    dir_map (dir_slots vol D' (cs @ ns)) = m(dn \<mapsto> (new_entry dn ATTR_DIRECTORY n, s, off)) \<and>
    is_dir vol D' n [n] \<and> dir_map (dir_slots vol D' [n]) = dot_map (cluster_lba vol n) n p"
proof -
  let ?c = "nd_inode parent"
  have dir: "file_chain vol D ?c cs" "cs \<noteq> []" using assms(5) by (auto simp: is_dir_def)
  have spc: "0 < sectors_per_cluster vol" and b: "bytes_per_sector vol = 512" using assms(2) by (simp_all add: vol_ok_def)
  obtain f w1 where w1: "fat32_find_dirent_in_chain vol ?c name w = Some (- ENOENT, f, w1)" "fat_ok vol content w1" "fw_dev w1 = fw_dev w"
    using find_dirent_ok [OF assms(1-3) dir assms(4) refl, of name] assms(8,9,10) by auto
  have D1: "D = content (fw_dev w1)" using assms(4) w1(3) by simp
  obtain ns n i s off w2 w3 D3 where w3: "fat32_find_free_dirent_in_chain vol ?c w1 = Some (0, (s, off), w2)"
    "fat32_alloc_cluster vol w2 = Some (0, n, w3)" "fat_ok vol content w3" "D3 = content (fw_dev w3)" "is_dir vol D3 ?c (cs @ ns)"
    "set (n # ns) \<subseteq> free_set vol D" "n \<notin> set (cs @ ns)" "same_outside vol (cs @ ns @ [n]) D D3"
    "dir_map (dir_slots vol D3 (cs @ ns)) = m" "open_slot vol D3 (cs @ ns) i" "places vol (cs @ ns) ! i = (s, off)"
    "fat_get vol D3 n = FAT32_EOC" "\<forall>k < sectors_per_cluster vol. D3 (cluster_lba vol n + k) = replicate 512 0"
    using mkdir_alloc_ok [OF assms(1,2) w1(2) D1 assms(5,6)] unfolding assms(9) [symmetric] by blast
  have nb: "2 \<le> n" "n < clusters vol" using w3(6) by (auto simp: free_set_def is_free_def)
  let ?e = "new_entry dn ATTR_DIRECTORY n" and ?l = "cluster_lba vol n" and ?b = "dot_sector vol n p"
  have e: "shown ?e" "de_name ?e = dn" using new_entry_shown [OF assms(7)] new_entry_fields(1) [of dn] assms(8) by simp_all
  from insert_entry_ok [OF assms(1,2) w3(3,4,5,10,11) e(1)] obtain w4 D4 where w4:
    "fat32_update_dirent vol s off ?e w3 = Some (0, w4)" "fat_ok vol content w4" "D4 = content (fw_dev w4)" "is_dir vol D4 ?c (cs @ ns)"
    "same_outside vol (cs @ ns) D3 D4" "dir_map (dir_slots vol D4 (cs @ ns)) = m(dn \<mapsto> (?e, s, off))"
    unfolding w3(9) e(2) using assms(10) by auto
  obtain w5 where w5: "alloc_buf w4 = (True, w5)" "fat_ok vol content w5" "fw_dev w5 = fw_dev w4" using alloc_buf_ok [OF w4(2)] by auto
  note lb = cluster_lba_bound [OF assms(2) nb spc]
  have "?l < 2 ^ 32" using lb(1) by simp
  from write_cached_ok [OF assms(1) w5(2) this dot_sector_slots(1) [OF b refl]] obtain w6 where w6:
    "fat32_write_sector_cached vol ?l ?b w5 = Some (True, w6)" "fat_ok vol content w6" "content (fw_dev w6) = D4(?l := ?b)"
    using b w5(3) w4(3) by auto
  have r: "fat32_mkdir_fs vol parent name w = Some (0, w6)"
    using w1(1) w3(1,2) w4(1) w5(1) w6(1) lb(2) assms(8,11) by (simp add: fat32_mkdir_fs_def Let_def)
  let ?D = "D4(?l := ?b)"
  have oc: "only_cluster vol n D4 ?D" using spc by (auto simp: only_cluster_def)
  note so = only_cluster_outside [OF assms(2) oc]
  have sd: "is_dir vol ?D ?c (cs @ ns)" "dir_slots vol ?D (cs @ ns) = dir_slots vol D4 (cs @ ns)"
    by (rule same_outside_dir [OF so assms(2) w4(4)]; use nb w3(7) in auto)+
  have ge: "\<forall>y \<in> set (cs @ ns). 2 \<le> y" using w4(4) set_clusters_ge by (fastforce simp: is_dir_def)
  have "?D (?l + k) = replicate 512 0" if "0 < k" "k < sectors_per_cluster vol" for k
    using that w4(5) w3(13) outside_clusters [OF assms(2) nb(1) ge w3(7) that(2)] by (simp add: same_outside_def)
  moreover have "fat_get vol ?D n = FAT32_EOC"
    using only_cluster_fat [OF assms(2) oc nb(2)] w4(5) w3(12) nb(2) w3(7) by (simp add: same_outside_def)
  ultimately have dot: "is_dir vol ?D n [n]" "dir_map (dir_slots vol ?D [n]) = dot_map ?l n p"
    using dot_dir [OF assms(2) nb, of ?D p] by simp_all
  have "same_outside vol (cs @ ns @ [n]) D3 ?D" by (rule same_outside_trans [OF w4(5) so]) auto
  then have "same_outside vol (cs @ ns @ [n]) D ?D" by (rule same_outside_then [OF w3(8)])
  then show ?thesis using r w6(2,3) sd w4(6) dot w3(6,7)
    by (intro exI [of _ ns] exI [of _ n] exI [of _ s] exI [of _ off] exI [of _ w6] exI [of _ ?D]) simp
qed

section \<open>Finding and listing\<close>

lemma finddir_ok:
  assumes "device_ok vol content" "vol_ok vol" "fat_ok vol content w" "D = content (fw_dev w)" "is_dir vol D (nd_inode node) cs"
    "m = dir_map (dir_slots vol D cs) (fat32_to_dos_name name)"
  shows "\<exists>w'. fat32_finddir_fs vol node name w = Some (map_option (\<lambda>(e, s, off).
      \<lparr>nd_name = take 127 name, nd_is_dir = (de_attr e AND ATTR_DIRECTORY \<noteq> 0),
       nd_mask = (if de_attr e AND ATTR_DIRECTORY \<noteq> 0 then 511 else 438), nd_inode = de_cluster e, nd_impl = s, nd_uid = off,
       nd_length = de_file_size e, nd_ref_count = 1\<rparr>) m, w') \<and>
    fat_ok vol content w' \<and> fw_dev w' = fw_dev w"
proof -
  have dir: "file_chain vol D (nd_inode node) cs" "cs \<noteq> []" using assms(5) by (auto simp: is_dir_def)
  obtain w1 where w1: "fat32_find_dirent_in_chain vol (nd_inode node) name w =
      Some (if m = None then - ENOENT else 0, case m of None \<Rightarrow> ([], 0, 0) | Some x \<Rightarrow> x, w1)"
    "fat_ok vol content w1" "fw_dev w1 = fw_dev w"
    using find_dirent_ok [OF assms(1-3) dir assms(4,6)] by blast
  obtain w2 where w2: "alloc_buf w1 = (True, w2)" "fat_ok vol content w2" "fw_dev w2 = fw_dev w1" using alloc_buf_ok [OF w1(2)] by auto
  show ?thesis
  proof (cases m)
    case None
    then show ?thesis using w1 by (simp add: fat32_finddir_fs_def)
  next
    case (Some x)
    obtain e s off where "x = (e, s, off)" using prod_cases3 by blast
    then show ?thesis using Some w1 w2 by (simp add: fat32_finddir_fs_def Let_def)
  qed
qed

lemma readdir_ok:
  assumes "device_ok vol content" "vol_ok vol" "fat_ok vol content w" "D = content (fw_dev w)" "is_dir vol D (nd_inode node) cs"
    "xs = visible (dir_slots vol D cs)" "length (dir_slots vol D cs) < 2 ^ 32"
  shows "\<exists>w'. fat32_readdir_fs vol node index w =
      Some (if index < length xs then (0, Some (fat32_get_name (slot_name (xs ! index)), de_cluster (fst (xs ! index))), w')
            else (1, None, w')) \<and>
    fat_ok vol content w' \<and> fw_dev w' = fw_dev w"
proof -
  have dir: "file_chain vol D (nd_inode node) cs" "cs \<noteq> []" using assms(5) by (auto simp: is_dir_def)
  obtain r ctx where sc: "scan (fat32_readdir_cb index) (dir_slots vol D cs) (0, None) = (r, ctx)" by (meson surj_pair)
  then have r: "if index < length xs
      then r = 2 \<and> ctx = (index, Some (fat32_get_name (slot_name (xs ! index)), de_cluster (fst (xs ! index))))
      else (r = 0 \<or> r = 1) \<and> snd ctx = None"
    using scan_readdir [of 0 "dir_slots vol D cs" index] assms(6,7) by (auto split: if_splits)
  from iterate_dir_ok [OF assms(1-3) dir assms(4) sc] obtain lc w' where
    "fat32_iterate_dir vol (nd_inode node) (fat32_readdir_cb index) (0, None) w = Some (r, ctx, lc, w')"
    "fat_ok vol content w'" "fw_dev w' = fw_dev w" by blast
  then show ?thesis using r by (cases "index < length xs") (auto simp: fat32_readdir_fs_def)
qed

end
