(* ===== verification/FatWrite.thy ===== *)
theory FatWrite
  imports FatDir
begin

text \<open>
  Writing to a file of the FAT32 driver, sector by sector: which clusters, table entries and bytes of the directory change, for files
  that have clusters and for files that get their first one.
\<close>

section \<open>Fields of a directory entry\<close>

lemma overwrite_twice:
  "u + length x \<le> length b \<Longrightarrow> length y = length x \<Longrightarrow> overwrite u y (overwrite u x b) = overwrite u y b"
  by (simp add: overwrite_def)

lemma overwrite_same:
  assumes "u + n \<le> length b"
  shows "overwrite u (take n (drop u b)) b = b"
proof -
  have "take u b @ take n (drop u b) @ drop (u + n) b = (take u b @ take n (drop u b)) @ drop (u + n) b" by simp
  also have "\<dots> = b" unfolding take_add [symmetric] by simp
  finally show ?thesis using assms by (simp add: overwrite_def min_def)
qed

lemma length_set_fields: "length e = 32 \<Longrightarrow> length (set_file_size n e) = 32" "length e = 32 \<Longrightarrow> length (set_cluster c e) = 32"
  by (simp_all add: set_file_size_def set_cluster_def length_overwrite enc32_def enc16_def)

lemma de_cluster_set:
  assumes "length e = 32" "c < 2 ^ 32"
  shows "de_cluster (set_cluster c e) = c"
proof -
  have "de_cluster (set_cluster c e) = (unat (of_nat (c div 65536) :: u8) + 256 * unat (of_nat (c div 65536 div 256) :: u8)) * 65536 +
      (unat (of_nat c :: u8) + 256 * unat (of_nat (c div 256) :: u8))"
    using assms(1) by (simp add: de_cluster_def set_cluster_def le16_def overwrite_def enc16_def nth_append)
  also have "\<dots> = (c div 65536) * 65536 + c mod 65536"
    using bytes_16 [of "c div 65536"] bytes_16 [of c] assms(2) by (simp add: unat_of_nat)
  finally show ?thesis by simp
qed

lemma de_cluster_set_size: "length e = 32 \<Longrightarrow> de_cluster (set_file_size n e) = de_cluster e"
  by (simp add: de_cluster_def set_file_size_def le16_def overwrite_def nth_append)

section \<open>A write and its frame\<close>

text \<open>A write to the clusters \<open>cs\<close> of a file with its directory entry in sector \<open>s\<close> leaves all other table entries, and all other sectors
  outside the table, alone.\<close>

definition only_file :: "'d fat32_volume \<Rightarrow> nat list \<Rightarrow> nat \<Rightarrow> disk \<Rightarrow> disk \<Rightarrow> bool" where
  "only_file vol cs s D D' \<longleftrightarrow> (\<forall>x < clusters vol. x \<notin> set cs \<longrightarrow> fat_get vol D' x = fat_get vol D x) \<and>
     (\<forall>t. \<not> in_fat vol t \<and> \<not> in_clusters vol cs t \<and> t \<noteq> s \<longrightarrow> D' t = D t)"

lemma only_file_trans:
  "only_file vol cs s D D1 \<Longrightarrow> only_file vol cs' s D1 D2 \<Longrightarrow> set cs \<subseteq> set cs'' \<Longrightarrow> set cs' \<subseteq> set cs'' \<Longrightarrow> only_file vol cs'' s D D2"
  unfolding only_file_def in_clusters_def by (metis subsetD)

lemma write_fs_ok:
  assumes "device_ok vol content" "vol_ok vol" "fat_ok vol content w" "D = content (fw_dev w)" "file_chain vol D (nd_inode node) cs"
    "distinct cs" "cs \<noteq> []" "offset \<le> length cs * csize vol" "0 < sz" "offset + sz + 512 \<le> 2 ^ 32" "sz \<le> length buffer"
    "k \<le> card (free_set vol D)" "offset + sz \<le> (length cs + k) * csize vol" "entry_place vol D cs dc j (nd_impl node) (nd_uid node)"
    "len = max (nd_length node) (offset + sz)" "s = nd_impl node" "u = nd_uid node"
  shows "\<exists>ns w' D'. fat32_write_fs vol node offset sz buffer w = Some (sz, node\<lparr>nd_length := len\<rparr>, w') \<and>
    fat_ok vol content w' \<and> D' = content (fw_dev w') \<and> set ns \<subseteq> free_set vol D \<and>
    file_chain vol D' (nd_inode node) (cs @ ns) \<and> distinct (cs @ ns) \<and>
    file_data vol D' (cs @ ns) = overwrite offset (take sz buffer) (file_data vol D cs @ replicate (length ns * csize vol) 0) \<and>
    only_file vol (cs @ ns) s D D' \<and>
    D' s = (if nd_length node < len then overwrite u (set_file_size len (take 32 (drop u (D s)))) (D s) else D s)"
proof -
  have i: "nd_inode node \<noteq> 0" using assms(5,7) by (cases cs) auto
  have sz: "sz + 512 \<le> 2 ^ 32" using assms(10) by simp
  obtain c co w2 where w2: "write_start vol (nd_inode node) offset w = Some (Some (c, co), w2)" "fat_ok vol content w2"
    "\<And>w3. fat_ok vol content w3 \<Longrightarrow> fw_dev w3 = fw_dev w2 \<Longrightarrow>
      \<exists>ns w'. write_cluster_loop vol buffer sz c co 0 w3 = Some (sz, w') \<and> fat_ok vol content w' \<and>
        written vol (nd_inode node) cs ns offset (take sz buffer) D (content (fw_dev w'))"
    using write_start_ok [OF assms(1-9) sz assms(11-13)] by blast
  obtain w3 where w3: "alloc_buf w2 = (True, w3)" "fat_ok vol content w3" "fw_dev w3 = fw_dev w2" using alloc_buf_ok [OF w2(2)] by auto
  obtain ns w4 where w4: "write_cluster_loop vol buffer sz c co 0 w3 = Some (sz, w4)" "fat_ok vol content w4"
    "written vol (nd_inode node) cs ns offset (take sz buffer) D (content (fw_dev w4))" using w2(3) [OF w3(2,3)] by auto
  let ?D4 = "content (fw_dev w4)"
  have a: "add32 offset sz = offset + sz" using assms(10) by (simp add: wrap_simps)
  have ep: "entry_place vol D cs dc j s u" using assms(14,16,17) by simp
  have ge: "\<forall>x \<in> set (cs @ ns). 2 \<le> x"
    using w4(3) file_chain_clusters [of vol ?D4 "nd_inode node" "cs @ ns"] by (auto simp: written_def)
  have so: "same_outside vol (cs @ ns) D ?D4" using w4(3) by (simp add: written_def)
  then have of: "only_file vol (cs @ ns) s D ?D4" by (simp add: same_outside_def only_file_def)
  have "dc \<notin> set (cs @ ns)" "2 \<le> dc" "j < sectors_per_cluster vol" "s = cluster_lba vol dc + j"
    using ep w4(3) by (auto simp: entry_place_def written_def)
  then have s: "?D4 s = D s"
    using outside_clusters [OF assms(2) _ ge] so by (auto simp: same_outside_def)
  show ?thesis
  proof (cases "nd_length node < offset + sz")
    case False
    then have "len = nd_length node" using assms(15) by simp
    moreover from this have "fat32_write_fs vol node offset sz buffer w = Some (sz, node\<lparr>nd_length := len\<rparr>, w4)"
      using i w2(1) w3(1) w4(1) a False by (simp add: fat32_write_fs_def first_cluster_def)
    ultimately show ?thesis using w4(2,3) of s by (intro exI [of _ ns] exI [of _ w4]) (auto simp: written_def)
  next
    case True
    then have len: "len = offset + sz" using assms(15) by simp
    have pl: "nd_impl node < 2 ^ 32" "nd_uid node + 32 \<le> 512"
      using assms(14) cluster_lba_bound(1) [OF assms(2), of dc j] by (simp_all add: entry_place_def)
    define b where "b = overwrite u (set_file_size len (take 32 (drop u (?D4 s)))) (?D4 s)"
    obtain w5 where w5: "patch_dirent vol node (set_file_size len) w4 = Some w5" "fat_ok vol content w5" "content (fw_dev w5) = ?D4(s := b)"
      using patch_dirent_ok [where f = "set_file_size len", OF assms(1,2) w4(2) pl refl length_set_fields(1) assms(16,17)] unfolding b_def by auto
    have r: "fat32_write_fs vol node offset sz buffer w = Some (sz, node\<lparr>nd_length := len\<rparr>, w5)"
      using i w2(1) w3(1) w4(1) w5(1) a True len by (simp add: fat32_write_fs_def first_cluster_def)
    note wp = written_patch [OF assms(2) w4(3) ep w4(3), of b]
    have oc: "only_cluster vol dc ?D4 (?D4(s := b))" using ep by (auto simp: only_cluster_def entry_place_def)
    have "only_file vol (cs @ ns) s D (?D4(s := b))"
      using of only_cluster_fat [OF assms(2) oc] by (simp add: only_file_def)
    moreover have "(?D4(s := b)) s = overwrite u (set_file_size len (take 32 (drop u (D s)))) (D s)" by (simp add: b_def s)
    ultimately show ?thesis
      using r w5 wp w4(3) True len
      by (intro exI [of _ ns] exI [of _ w5] exI [of _ "?D4(s := b)"]) (simp add: written_def)
  qed
qed

section \<open>The first cluster of a file\<close>

definition first_linked :: "'d fat32_volume \<Rightarrow> nat \<Rightarrow> nat \<Rightarrow> nat \<Rightarrow> disk \<Rightarrow> disk" where
  "first_linked vol c s u D = (zero_cluster vol c (fat_put vol c FAT32_EOC D))(s := overwrite u (set_cluster c (take 32 (drop u (D s)))) (D s))"

lemma first_linked_spec:
  assumes "vol_ok vol" "disk_ok D" "c \<in> free_set vol D" "entry_place vol D [] dc j s u" "D2 = first_linked vol c s u D"
  shows "file_chain vol D2 c [c]" "free_set vol D2 = free_set vol D - {c}" "entry_place vol D2 [c] dc j s u"
    "file_data vol D2 [c] = replicate (csize vol) 0" "only_file vol [c] s D D2"
    "D2 s = overwrite u (set_cluster c (take 32 (drop u (D s)))) (D s)"
    "zero_cluster vol c (fat_put vol c FAT32_EOC D) s = D s"
proof -
  define D1 where "D1 = zero_cluster vol c (fat_put vol c FAT32_EOC D)"
  have c: "c < clusters vol" "2 \<le> c" using assms(3) by (auto simp: free_set_def is_free_def)
  have p: "2 \<le> dc" "dc < clusters vol" "dc \<noteq> c" "j < sectors_per_cluster vol" "s = cluster_lba vol dc + j"
    using assms(3,4) by (auto simp: entry_place_def)
  have D2: "D2 = D1(s := D2 s)" by (simp add: assms(5) first_linked_def D1_def)
  have oc: "only_cluster vol dc D1 D2" by (subst D2) (use p(4,5) in \<open>auto simp: only_cluster_def\<close>)
  have eoc: "FAT32_EOC mod 2 ^ 28 = FAT32_EOC" by (simp add: FAT32_EOC_def)
  have g1: "fat_get vol D1 x = (if x = c then FAT32_EOC else fat_get vol D x)" if "x < clusters vol" for x
    using that assms(1,2) c eoc by (simp add: D1_def fat_get_put fat_get_zero)
  have g: "fat_get vol D2 x = (if x = c then FAT32_EOC else fat_get vol D x)" if "x < clusters vol" for x
    using g1 [OF that] only_cluster_fat [OF assms(1) oc that] by simp
  show "file_chain vol D2 c [c]" using c g by simp
  show fs: "free_set vol D2 = free_set vol D - {c}" using g c by (auto simp: free_set_def is_free_def FAT32_EOC_def split: if_splits)
  show "entry_place vol D2 [c] dc j s u" using assms(4) p(3) fs by (simp add: entry_place_def)
  have nf: "\<not> in_fat vol (cluster_lba vol y + k)" for y k using assms(1) by (auto simp: in_fat_def vol_ok_def cluster_lba_def)
  have "cluster_data vol D2 c = cluster_data vol D1 c" by (rule only_cluster_other [OF oc p(3) [symmetric] p(1) c(2)])
  also have "\<dots> = replicate (csize vol) 0"
  proof -
    have "cluster_sectors vol D1 c = replicate (sectors_per_cluster vol) (replicate 512 0)"
      by (intro nth_equalityI) (auto simp: cluster_sectors_def D1_def zero_cluster_def)
    moreover have "concat (replicate n (replicate 512 y)) = replicate (512 * n) y" for n and y :: u8
      by (induction n) (simp_all add: replicate_add [symmetric])
    ultimately show ?thesis by (simp add: cluster_data_def csize_def)
  qed
  finally show "file_data vol D2 [c] = replicate (csize vol) 0" by (simp add: file_data_def)
  have o1: "D1 t = D t" if "\<not> in_fat vol t" "\<not> in_clusters vol [c] t" for t
    using that c by (auto simp: D1_def in_fat_put in_clusters_def zero_cluster_def)
  have "D2 t = D t" if "\<not> in_fat vol t \<and> \<not> in_clusters vol [c] t \<and> t \<noteq> s" for t
    by (subst D2) (use that o1 in simp)
  then show "only_file vol [c] s D D2" using g by (simp add: only_file_def)
  show "D2 s = overwrite u (set_cluster c (take 32 (drop u (D s)))) (D s)" by (simp add: assms(5) first_linked_def)
  show "zero_cluster vol c (fat_put vol c FAT32_EOC D) s = D s"
    using o1 [of s] nf [of dc j] outside_clusters(2) [OF assms(1) p(1), of "[c]" j] c p(3-5) by (simp add: D1_def)
qed

lemma first_cluster_ok:
  assumes "device_ok vol content" "vol_ok vol" "fat_ok vol content w" "D = content (fw_dev w)" "nd_inode node = 0"
    "entry_place vol D [] dc j (nd_impl node) (nd_uid node)" "free_set vol D \<noteq> {}" "s = nd_impl node" "u = nd_uid node"
  shows "\<exists>c w2. first_cluster vol node w = Some (Some (node\<lparr>nd_inode := c\<rparr>), w2) \<and> fat_ok vol content w2 \<and> c \<in> free_set vol D \<and>
    content (fw_dev w2) = first_linked vol c s u D"
proof -
  obtain c where c: "find (is_free vol D) [0..<clusters vol] = Some c" "c \<in> free_set vol D" using find_free [OF assms(7)] by auto
  obtain w1 where w1: "fat32_alloc_cluster vol w = Some (0, c, w1)" "fat_ok vol content w1"
    "content (fw_dev w1) = zero_cluster vol c (fat_put vol c FAT32_EOC D)"
    using alloc_ok [OF assms(1-4)] c(1) by auto
  have pl: "nd_impl node < 2 ^ 32" "nd_uid node + 32 \<le> 512"
    using assms(6) cluster_lba_bound(1) [OF assms(2), of dc j] by (simp_all add: entry_place_def)
  have D: "disk_ok D" using device_disk_ok [OF assms(1)] assms(4) by simp
  have ep: "entry_place vol D [] dc j s u" using assms(6,8,9) by simp
  have e: "content (fw_dev w1) s = D s" unfolding w1(3) by (rule first_linked_spec(7) [OF assms(2) D c(2) ep refl])
  obtain w2 where w2: "patch_dirent vol node (set_cluster c) w1 = Some w2" "fat_ok vol content w2" "content (fw_dev w2) = first_linked vol c s u D"
    using patch_dirent_ok [where f = "set_cluster c", OF assms(1,2) w1(2) pl refl length_set_fields(2) assms(8,9)]
    unfolding e unfolding w1(3) first_linked_def by auto
  show ?thesis using w1(1) w2 c(2) assms(5) by (auto simp: first_cluster_def)
qed

lemma write_fs_first:
  assumes "first_cluster vol node w = Some (Some (node\<lparr>nd_inode := c\<rparr>), w2)" "c \<noteq> 0"
  shows "fat32_write_fs vol node offset sz buffer w = fat32_write_fs vol (node\<lparr>nd_inode := c\<rparr>) offset sz buffer w2"
  using assms by (simp add: fat32_write_fs_def first_cluster_def)

text \<open>Both kinds of files together: \<open>cs\<close> is empty for a file without clusters.\<close>

lemma write_fs_any:
  assumes "device_ok vol content" "vol_ok vol" "fat_ok vol content w" "D = content (fw_dev w)"
    "if cs = [] then nd_inode node = 0 else file_chain vol D (nd_inode node) cs"
    "distinct cs" "offset \<le> max 1 (length cs) * csize vol" "0 < sz" "offset + sz + 512 \<le> 2 ^ 32" "sz \<le> length buffer"
    "k \<le> card (free_set vol D)" "offset + sz \<le> (length cs + k) * csize vol" "entry_place vol D cs dc j (nd_impl node) (nd_uid node)"
    "nd_length node \<le> length cs * csize vol" "len = max (nd_length node) (offset + sz)" "s = nd_impl node" "u = nd_uid node" "e = take 32 (drop u (D s))"
  shows "\<exists>ns w' D'. fat32_write_fs vol node offset sz buffer w = Some (sz, node\<lparr>nd_inode := hd (cs @ ns), nd_length := len\<rparr>, w') \<and>
    fat_ok vol content w' \<and> D' = content (fw_dev w') \<and> set ns \<subseteq> free_set vol D \<and>
    file_chain vol D' (hd (cs @ ns)) (cs @ ns) \<and> distinct (cs @ ns) \<and> cs @ ns \<noteq> [] \<and>
    file_data vol D' (cs @ ns) = overwrite offset (take sz buffer) (file_data vol D cs @ replicate (length ns * csize vol) 0) \<and>
    only_file vol (cs @ ns) s D D' \<and>
    D' s = overwrite u ((if nd_length node < len then set_file_size len else id) ((if cs = [] then set_cluster (hd ns) else id) e)) (D s)"
proof (cases "cs = []")
  case False
  then have ch: "file_chain vol D (nd_inode node) cs" "cs \<noteq> []" "offset \<le> length cs * csize vol" using assms(5,7) by (cases cs; simp)+
  obtain ns w' D' where r: "fat32_write_fs vol node offset sz buffer w = Some (sz, node\<lparr>nd_length := len\<rparr>, w')"
    "fat_ok vol content w'" "D' = content (fw_dev w')" "set ns \<subseteq> free_set vol D" "file_chain vol D' (nd_inode node) (cs @ ns)" "distinct (cs @ ns)"
    "file_data vol D' (cs @ ns) = overwrite offset (take sz buffer) (file_data vol D cs @ replicate (length ns * csize vol) 0)"
    "only_file vol (cs @ ns) s D D'"
    "D' s = (if nd_length node < len then overwrite u (set_file_size len (take 32 (drop u (D s)))) (D s) else D s)"
    using write_fs_ok [OF assms(1-4) ch(1) assms(6) ch(2,3) assms(8-13,15-17)] by blast
  have h: "hd cs = nd_inode node" using ch(1,2) by (cases cs) auto
  have nd: "node\<lparr>nd_inode := nd_inode node, nd_length := len\<rparr> = node\<lparr>nd_length := len\<rparr>" by simp
  have "length (D s) = 512" using device_disk_ok [OF assms(1)] assms(4) by (simp add: disk_ok_def)
  then have "overwrite u (take 32 (drop u (D s))) (D s) = D s"
    using assms(13,17) by (intro overwrite_same) (simp add: entry_place_def)
  then show ?thesis using r False assms(18)
    by (intro exI [of _ ns] exI [of _ w'] exI [of _ D']) (simp add: nd h)
next
  case True
  have k: "0 < k" using assms(8,12) True by (cases k) auto
  then have fr: "free_set vol D \<noteq> {}" using assms(11) by auto
  have ep: "entry_place vol D [] dc j (nd_impl node) (nd_uid node)" "entry_place vol D [] dc j s u" "nd_inode node = 0" using assms(5,13,16,17) True by simp_all
  obtain c w2 where c: "first_cluster vol node w = Some (Some (node\<lparr>nd_inode := c\<rparr>), w2)" "fat_ok vol content w2" "c \<in> free_set vol D"
    "content (fw_dev w2) = first_linked vol c s u D"
    using first_cluster_ok [OF assms(1-4) ep(3,1) fr assms(16,17)] by blast
  have dk: "disk_ok D" using device_disk_ok [OF assms(1)] assms(4) by simp
  note fl = first_linked_spec [OF assms(2) dk c(3) ep(2) c(4)]
  let ?D2 = "content (fw_dev w2)" and ?node = "node\<lparr>nd_inode := c\<rparr>"
  have a: "offset \<le> length [c] * csize vol" "k - 1 \<le> card (free_set vol ?D2)" "offset + sz \<le> (length [c] + (k - 1)) * csize vol"
    "file_chain vol ?D2 (nd_inode ?node) [c]" "distinct [c]" "[c] \<noteq> []" "entry_place vol ?D2 [c] dc j (nd_impl ?node) (nd_uid ?node)"
    "len = max (nd_length ?node) (offset + sz)" "s = nd_impl ?node" "u = nd_uid ?node"
    using assms(7,11,12,15-17) True fl(1-3) c(3) k by (simp_all add: card_Diff_singleton)
  obtain ns w' D' where r: "fat32_write_fs vol ?node offset sz buffer w2 = Some (sz, ?node\<lparr>nd_length := len\<rparr>, w')"
    "fat_ok vol content w'" "D' = content (fw_dev w')" "set ns \<subseteq> free_set vol ?D2" "file_chain vol D' (nd_inode ?node) ([c] @ ns)" "distinct ([c] @ ns)"
    "file_data vol D' ([c] @ ns) = overwrite offset (take sz buffer) (file_data vol ?D2 [c] @ replicate (length ns * csize vol) 0)"
    "only_file vol ([c] @ ns) s ?D2 D'"
    "D' s = (if nd_length ?node < len then overwrite u (set_file_size len (take 32 (drop u (?D2 s)))) (?D2 s) else ?D2 s)"
    using write_fs_ok [OF assms(1,2) c(2) refl a(4-6,1) assms(8-10) a(2,3,7-10)] by blast
  have c0: "c \<noteq> 0" using c(3) by (auto simp: free_set_def is_free_def)
  have len: "nd_length node < len" using assms(8,14,15) True by simp
  have l: "length (D s) = 512" "u + 32 \<le> 512" using dk ep(2) by (simp_all add: disk_ok_def entry_place_def)
  have le: "length e = 32" using l assms(18) by simp
  have "take 32 (drop u (?D2 s)) = set_cluster c e"
    unfolding fl(6) assms(18) [symmetric] using take_drop_overwrite [of u "set_cluster c e" "D s"] length_set_fields(2) [OF le] l by simp
  moreover have "overwrite u (set_file_size len (set_cluster c e)) (?D2 s) = overwrite u (set_file_size len (set_cluster c e)) (D s)"
    unfolding fl(6) assms(18) [symmetric] using length_set_fields [OF length_set_fields(2) [OF le]] length_set_fields(2) [OF le] l
    by (intro overwrite_twice) simp_all
  ultimately have ds: "D' s = overwrite u (set_file_size len (set_cluster c e)) (D s)" using r(9) len by simp
  have "fat32_write_fs vol node offset sz buffer w = Some (sz, node\<lparr>nd_inode := c, nd_length := len\<rparr>, w')"
    using write_fs_first [OF c(1) c0] r(1) by simp
  moreover have "only_file vol (c # ns) s D D'" using only_file_trans [OF fl(5) r(8), of "c # ns"] by simp
  moreover have "set (c # ns) \<subseteq> free_set vol D" using r(4) fl(2) c(3) by auto
  moreover have "file_data vol D' (c # ns) = overwrite offset (take sz buffer) (file_data vol D [] @ replicate (length (c # ns) * csize vol) 0)"
    using r(7) fl(4) by (simp add: file_data_def replicate_add)
  ultimately show ?thesis using r(2,3,5,6) True ds len
    by (intro exI [of _ "c # ns"] exI [of _ w'] exI [of _ D']) simp
qed

section \<open>What the frame says of clusters and of the directory\<close>

lemma entry_written:
  assumes "disk_ok D" "entry_place vol D cs dc j s u" "e = take 32 (drop u (D s))"
    "D' s = overwrite u ((if old < len then set_file_size len else id) ((if cs = [] then set_cluster c else id) e)) (D s)" "c < 2 ^ 32" "len < 2 ^ 32"
  shows "old < len \<longrightarrow> de_file_size (take 32 (drop u (D' s))) = len" "cs = [] \<longrightarrow> de_cluster (take 32 (drop u (D' s))) = c"
    "\<forall>b < 512. \<not> (u \<le> b \<and> b < u + 32) \<longrightarrow> D' s ! b = D s ! b" "cs \<noteq> [] \<and> old = len \<longrightarrow> D' s = D s"
proof -
  define f where "f = (if cs = [] then set_cluster c else id) e"
  define g where "g = (if old < len then set_file_size len else id) f"
  have l: "length (D s) = 512" "u + 32 \<le> 512" using assms(1,2) by (simp_all add: disk_ok_def entry_place_def)
  have le: "length e = 32" using l assms(3) by simp
  then have lf: "length f = 32" by (simp add: f_def length_set_fields)
  then have lg: "length g = 32" by (simp add: g_def length_set_fields)
  have ds: "D' s = overwrite u g (D s)" using assms(4) by (simp add: f_def g_def)
  have t: "take 32 (drop u (D' s)) = g" unfolding ds using take_drop_overwrite [of u g "D s"] lg l by simp
  show "old < len \<longrightarrow> de_file_size (take 32 (drop u (D' s))) = len"
    unfolding t using le32_same [of 28 f len] lf assms(6) by (simp add: g_def de_file_size_def set_file_size_def)
  show "cs = [] \<longrightarrow> de_cluster (take 32 (drop u (D' s))) = c"
  proof
    assume "cs = []"
    then have "f = set_cluster c e" by (simp add: f_def)
    then show "de_cluster (take 32 (drop u (D' s))) = c"
      unfolding t using de_cluster_set [OF le assms(5)] de_cluster_set_size [OF lf, of len] by (simp add: g_def)
  qed
  show "\<forall>b < 512. \<not> (u \<le> b \<and> b < u + 32) \<longrightarrow> D' s ! b = D s ! b"
    unfolding ds using lg l by (auto simp: overwrite_def nth_append)
  show "cs \<noteq> [] \<and> old = len \<longrightarrow> D' s = D s" using overwrite_same [of u 32 "D s"] l unfolding ds by (simp add: g_def f_def assms(3))
qed

lemma only_file_frame:
  assumes "vol_ok vol" "only_file vol fs s D D'" "s = cluster_lba vol dc + j" "j < sectors_per_cluster vol" "2 \<le> dc" "dc \<notin> set fs" "\<forall>x \<in> set fs. 2 \<le> x"
  shows "\<forall>x. 2 \<le> x \<and> x < clusters vol \<and> x \<notin> set fs \<longrightarrow> fat_get vol D' x = fat_get vol D x"
    "\<forall>x. 2 \<le> x \<and> x < clusters vol \<and> x \<notin> set fs \<and> x \<noteq> dc \<longrightarrow> cluster_data vol D' x = cluster_data vol D x"
    "\<forall>i < sectors_per_cluster vol. cluster_lba vol dc + i \<noteq> s \<longrightarrow> D' (cluster_lba vol dc + i) = D (cluster_lba vol dc + i)"
proof -
  show "\<forall>x. 2 \<le> x \<and> x < clusters vol \<and> x \<notin> set fs \<longrightarrow> fat_get vol D' x = fat_get vol D x" using assms(2) by (simp add: only_file_def)
  have sec: "D' (cluster_lba vol x + i) = D (cluster_lba vol x + i)"
    if "2 \<le> x" "x \<notin> set fs" "i < sectors_per_cluster vol" "cluster_lba vol x + i \<noteq> s" for x i
    using assms(2) outside_clusters [OF assms(1) that(1) assms(7) that(2,3)] that(4) by (simp add: only_file_def)
  then show "\<forall>i < sectors_per_cluster vol. cluster_lba vol dc + i \<noteq> s \<longrightarrow> D' (cluster_lba vol dc + i) = D (cluster_lba vol dc + i)"
    using assms(5,6) by blast
  have "cluster_sectors vol D' x = cluster_sectors vol D x" if "2 \<le> x" "x \<notin> set fs" "x \<noteq> dc" for x
    using sec [OF that(1,2)] cluster_disjoint [OF that(3,1) assms(5) _ assms(4)] assms(3) by (simp add: cluster_sectors_def)
  then show "\<forall>x. 2 \<le> x \<and> x < clusters vol \<and> x \<notin> set fs \<and> x \<noteq> dc \<longrightarrow> cluster_data vol D' x = cluster_data vol D x"
    by (simp add: cluster_data_def)
qed

end
