(* ===== verification/FatProps.thy ===== *)
theory FatProps
  imports FatOps FatWrite
begin

text \<open>
  The properties of the FAT32 driver, with a small volume in memory on which their hypotheses hold.
\<close>

section \<open>A volume in memory\<close>

definition ram_content :: "disk \<Rightarrow> disk" where
  "ram_content d = (\<lambda>s. take 512 (d s @ replicate 512 0))"

definition ram_volume :: "disk fat32_volume" where
  "ram_volume = \<lparr>read_sector = (\<lambda>d s. Some (ram_content d s)), write_sector = Some (\<lambda>d s b. (True, d(s := b))),
     partition_lba = 0, fat_start_lba = 0, data_start_lba = 1, root_cluster = 2, sectors_per_cluster = 1,
     bytes_per_sector = 512, fat_size = 1, volume_id = 1\<rparr>"

text \<open>Cluster 2 holds the root directory, 3 and 4 a file \<open>A.TXT\<close> of 600 bytes.\<close>

definition ram_name :: "u8 list" where
  "ram_name = [65, 46, 84, 88, 84]"

definition ram_entry :: "u8 list" where
  "ram_entry = set_file_size 600 (new_entry [65, 32, 32, 32, 32, 32, 32, 32, 84, 88, 84] ATTR_ARCHIVE 3)"

definition ram_disk :: disk where
  "ram_disk s =
     (if s = 0 then concat (map enc32 [FAT32_EOC, FAT32_EOC, FAT32_EOC, 4, FAT32_EOC])
      else if s = 1 then ram_entry else if s \<le> 3 then replicate 512 7 else [])"

definition ram_world :: "disk fat_world" where
  "ram_world = \<lparr>fw_cache = boot_cache, fw_dev = ram_disk, fw_next_id = 2,
     fw_kmalloc = (\<lambda>_. True), fw_allocs = 0\<rparr>"

definition ram_node :: fat_node where
  "ram_node = \<lparr>nd_name = ram_name, nd_is_dir = False, nd_mask = 438, nd_inode = 3, nd_impl = 1, nd_uid = 0, nd_length = 600, nd_ref_count = 1\<rparr>"

definition ram_root :: fat_node where
  "ram_root = \<lparr>nd_name = [], nd_is_dir = True, nd_mask = 511, nd_inode = 2, nd_impl = 0, nd_uid = 0, nd_length = 0, nd_ref_count = 1\<rparr>"

lemma ram_node_sel [simp]: "nd_inode ram_node = 3" "nd_impl ram_node = 1" "nd_uid ram_node = 0" "nd_length ram_node = 600" "nd_inode ram_root = 2"
  by (simp_all add: ram_node_def ram_root_def)

lemma ram_device: "device_ok ram_volume ram_content"
  by (auto simp: device_ok_def ram_volume_def ram_content_def)

lemma ram_vol_ok: "vol_ok ram_volume"
  by (simp add: vol_ok_def ram_volume_def FAT32_EOC_def)

lemma ram_fields [simp]: "clusters ram_volume = 128" "csize ram_volume = 512" "cluster_lba ram_volume c = 1 + (c - 2)"
  "sectors_per_cluster ram_volume = 1" "fw_dev ram_world = ram_disk" "root_cluster ram_volume = 2"
  by (simp_all add: clusters_def csize_def cluster_lba_def ram_volume_def ram_world_def)

lemma ram_ok: "fat_ok ram_volume ram_content ram_world"
proof -
  have "bc.coherent K (fw_cache ram_world)" for K
    by (auto simp: bc.coherent_def ram_world_def bcache_init_def cached_def2 slot_of_def be_match_def zero_entry_def find_Some_iff split: option.splits)
  then show ?thesis using bcache_inv_init [of True]
    by (auto simp: fat_ok_def ram_world_def intro!: exI [of _ "\<lambda>k. ram_content ram_disk (unat (snd k))"])
qed

lemma le32_words: "le32 (enc32 v @ ys) 0 = v mod 2 ^ 32" "le32 (enc32 v @ ys) (4 * Suc k) = le32 ys (4 * k)"
proof -
  show "le32 (enc32 v @ ys) 0 = v mod 2 ^ 32"
    using le32_same [of 0 "replicate 4 0 @ ys" v] by (simp add: overwrite_def)
  show "le32 (enc32 v @ ys) (4 * Suc k) = le32 ys (4 * k)" by (simp add: le32_alt nth_append add.commute)
qed

lemma ram_fat:
  assumes "c < 128"
  shows "fat_get ram_volume (ram_content ram_disk) c = (if c = 3 then 4 else if c \<le> 4 then FAT32_EOC else 0)"
proof -
  have f: "fat_get ram_volume (ram_content ram_disk) c = le32 (ram_content ram_disk 0) (4 * c) mod 2 ^ 28"
    using assms by (simp add: fat_get_def ram_volume_def)
  have r: "ram_content ram_disk 0 = enc32 FAT32_EOC @ enc32 FAT32_EOC @ enc32 FAT32_EOC @ enc32 4 @ enc32 FAT32_EOC @ replicate 492 0"
    by (simp add: ram_content_def ram_disk_def)
  have w: "le32 (enc32 v @ ys) (4 * c') = (case c' of 0 \<Rightarrow> v mod 2 ^ 32 | Suc k \<Rightarrow> le32 ys (4 * k))" for v ys c'
    by (cases c') (simp_all only: le32_words nat.case mult_0_right)
  have z: "le32 (replicate 492 0) (4 * k) = 0" if "k < 123" for k using that by (simp add: le32_alt)
  show ?thesis unfolding f r w using assms z by (auto simp: FAT32_EOC_def split: nat.splits)
qed

lemma ram_chain:
  "file_chain ram_volume (ram_content ram_disk) 3 [3, 4]" "chain ram_volume (ram_content ram_disk) 3 [3, 4]"
  "file_chain ram_volume (ram_content ram_disk) 2 [2]"
  by (simp_all add: ram_fat)

lemma ram_free: "free_set ram_volume (ram_content ram_disk) = {5..<128}"
  by (auto simp: free_set_def is_free_def ram_fat FAT32_EOC_def split: if_splits)

lemma ram_dir: "is_dir ram_volume (ram_content ram_disk) 2 [2]"
  "dir_map (dir_slots ram_volume (ram_content ram_disk) [2]) =
     [[65, 32, 32, 32, 32, 32, 32, 32, 84, 88, 84] \<mapsto> (ram_entry, 1, 0)]"
proof -
  let ?nm = "[65, 32, 32, 32, 32, 32, 32, 32, 84, 88, 84] :: u8 list"
  let ?D = "ram_content ram_disk" and ?x = "(ram_entry, 1 :: nat, 0 :: nat)"
  have le: "length ram_entry = 32" by (simp add: ram_entry_def set_file_size_def length_overwrite length_new_entry)
  have c1: "?D 1 = ram_entry @ replicate 480 0" using le by (simp add: ram_content_def ram_disk_def)
  have pl: "places ram_volume [2] = (1, 0) # map (\<lambda>j. (1, 32 * j)) [1..<16]"
    by (simp add: places_def cluster_places_def sector_places_def upt_conv_Cons)
  have "slot_at ?D (1, 32 * j) = (replicate 32 0, 1, 32 * j)" if "1 \<le> j" "j < 16" for j
    using that le by (simp add: slot_at_def c1 [simplified] min_def)
  then have sl: "dir_slots ram_volume ?D [2] = ?x # map (\<lambda>j. (replicate 32 0, 1, 32 * j)) [1..<16]"
    using le by (auto simp: dir_slots_def pl slot_at_def c1 [simplified] min_def)
  have e: "de_name ram_entry = ?nm" "de_attr ram_entry = ATTR_ARCHIVE" "ram_entry ! 0 = 65"
    by (simp_all add: ram_entry_def set_file_size_def overwrite_def new_entry_alt de_name_def de_attr_def nth_append)
  have "live ?x" "\<not> hidden_entry ram_entry"
    using e by (simp_all add: live_def hidden_entry_def DIRENT_DELETED_def ATTR_ARCHIVE_def ATTR_VOLUME_ID_def ATTR_LONG_NAME_def)
  moreover have dead: "\<forall>y \<in> set (map (\<lambda>j. (replicate 32 0, 1, 32 * j)) [1..<16]). \<not> live y" by (auto simp: live_def)
  ultimately have v: "visible (dir_slots ram_volume ?D [2]) = [?x]" and
    d: "dropWhile live (dir_slots ram_volume ?D [2]) = dropWhile live (map (\<lambda>j. (replicate 32 0, 1, 32 * j)) [1..<16])"
    using visible_dead [OF dead] by (simp_all add: sl visible_Cons)
  have "dir_ok (dir_slots ram_volume ?D [2])" unfolding dir_ok_def d v using dead set_dropWhileD by (metis distinct_singleton list.simps(8,9))
  then show "is_dir ram_volume ?D 2 [2]" using ram_chain(3) by (simp add: is_dir_def)
  show "dir_map (dir_slots ram_volume ?D [2]) = [?nm \<mapsto> ?x]"
    using e(1) by (auto simp: dir_map_def v slot_name_def fun_eq_iff)
qed

section \<open>The allocation table\<close>

lemma find_Min:
  assumes "find P [0..<n] = Some c"
  shows "c = Min {x. x < n \<and> P x}"
proof -
  have c: "c < n" "P c" "\<forall>j < c. \<not> P j" using assms by (auto simp: find_Some_iff)
  then show ?thesis by (intro Min_eqI [symmetric]) (auto simp: not_less [symmetric])
qed

text \<open>allocation of a cluster. When the table has a free entry, \<open>fat32_alloc_cluster\<close> returns the lowest
  free cluster, marks it as the end of a chain, fills it with zeros, and changes no other table entry and no
  other cluster; when the disk is full it returns \<open>-ENOSPC\<close> and changes nothing.\<close>

lemma fat32_alloc_cluster_correct:
  assumes "device_ok vol content" "vol_ok vol" "fat_ok vol content w" "D = content (fw_dev w)"
  shows "if free_set vol D = {}
    then \<exists>w'. fat32_alloc_cluster vol w = Some (- ENOSPC, 0, w') \<and> fat_ok vol content w' \<and> content (fw_dev w') = D
    else \<exists>c w' D'. fat32_alloc_cluster vol w = Some (0, c, w') \<and> c = Min (free_set vol D) \<and> fat_ok vol content w' \<and>
      D' = content (fw_dev w') \<and> fat_get vol D' c = FAT32_EOC \<and> cluster_data vol D' c = replicate (csize vol) 0 \<and>
      (\<forall>x < clusters vol. x \<noteq> c \<longrightarrow> fat_get vol D' x = fat_get vol D x \<and> (2 \<le> x \<longrightarrow> cluster_data vol D' x = cluster_data vol D x))"
proof (cases "free_set vol D = {}")
  case True
  then have "find (is_free vol D) [0..<clusters vol] = None" by (auto simp: find_None_iff free_set_def)
  then show ?thesis using alloc_ok [OF assms] True by auto
next
  case False
  from find_free [OF this] obtain c where c: "find (is_free vol D) [0..<clusters vol] = Some c" "c \<in> free_set vol D" by blast
  have cb: "2 \<le> c" "c < clusters vol" using c(2) by (auto simp: free_set_def is_free_def)
  have min: "c = Min (free_set vol D)" using find_Min [OF c(1)] by (simp add: free_set_def)
  define D' where "D' = zero_cluster vol c (fat_put vol c FAT32_EOC D)"
  obtain w' where w': "fat32_alloc_cluster vol w = Some (0, c, w')" "fat_ok vol content w'" "D' = content (fw_dev w')"
    using alloc_ok [OF assms] c(1) by (auto simp: D'_def)
  have dok: "disk_ok D" using device_disk_ok [OF assms(1)] assms(4) by simp
  note al = alloc_outside [OF assms(2) dok cb D'_def]
  have "cluster_sectors vol D' c = replicate (sectors_per_cluster vol) (replicate 512 0)"
    using al(3) by (auto simp: cluster_sectors_def intro!: nth_equalityI)
  moreover have "concat (replicate n (replicate 512 (0 :: u8))) = replicate (512 * n) 0" for n
    by (induction n) (simp_all add: replicate_add [symmetric])
  ultimately have data: "cluster_data vol D' c = replicate (csize vol) 0" by (simp add: cluster_data_def csize_def)
  have "fat_get vol D' x = fat_get vol D x \<and> (2 \<le> x \<longrightarrow> cluster_data vol D' x = cluster_data vol D x)"
    if "x < clusters vol" "x \<noteq> c" for x
    using that al(1) same_outside_data [OF al(1) assms(2), of x] cb(1) by (auto simp: same_outside_def)
  then show ?thesis using False w' al(2) data min by auto
qed

lemma fat32_alloc_cluster_correct_witness:
  "\<exists>w' D'. fat32_alloc_cluster ram_volume ram_world = Some (0, 5, w') \<and> D' = ram_content (fw_dev w') \<and>
     fat_get ram_volume D' 5 = FAT32_EOC \<and> cluster_data ram_volume D' 5 = replicate 512 0 \<and> fat_get ram_volume D' 3 = 4"
proof -
  have "Min {5..<128 :: nat} = 5" by (rule Min_eqI) auto
  then show ?thesis
    using fat32_alloc_cluster_correct [OF ram_device ram_vol_ok ram_ok refl] by (fastforce simp: ram_free ram_fat)
qed

text \<open>freeing a chain. \<open>fat32_free_cluster_chain\<close> returns on every chain of the table that is not circular,
  and then exactly the entries of that chain are free: every other entry of the table, and every sector
  outside the table, is as before.\<close>

lemma fat32_free_cluster_chain_correct:
  assumes "device_ok vol content" "vol_ok vol" "fat_ok vol content w" "D = content (fw_dev w)" "chain vol D c cs" "distinct cs"
  shows "\<exists>w' D'. fat32_free_cluster_chain vol c w = Some w' \<and> fat_ok vol content w' \<and> D' = content (fw_dev w') \<and>
    (\<forall>x. fat_get vol D' x = (if x \<in> set cs then 0 else fat_get vol D x)) \<and> (\<forall>s. \<not> in_fat vol s \<longrightarrow> D' s = D s)"
proof -
  obtain w' where w': "fat32_free_cluster_chain vol c w = Some w'" "fat_ok vol content w'" "content (fw_dev w') = put_all vol cs 0 D"
    using free_chain_ok [OF assms(1-3)] assms(4-6) by auto
  have dok: "disk_ok D" using device_disk_ok [OF assms(1)] assms(4) by simp
  have cl: "\<forall>x \<in> set cs. x < clusters vol" using chain_clusters [OF assms(5)] by blast
  show ?thesis using w' fat_get_put_all [OF dok, of vol cs 0] put_all_sectors [OF dok cl] by auto
qed

lemma fat32_free_cluster_chain_correct_witness:
  "\<exists>w' D'. fat32_free_cluster_chain ram_volume 3 ram_world = Some w' \<and> D' = ram_content (fw_dev w') \<and>
     fat_get ram_volume D' 3 = 0 \<and> fat_get ram_volume D' 4 = 0 \<and> fat_get ram_volume D' 2 = FAT32_EOC"
  using fat32_free_cluster_chain_correct [OF ram_device ram_vol_ok ram_ok refl, of 3 "[3, 4]"] ram_chain(2)
  by (fastforce simp: ram_fat)

section \<open>Files\<close>

lemma fat32_read_bytes:
  assumes "device_ok vol content" "vol_ok vol" "fat_ok vol content w" "D = content (fw_dev w)"
    "file_chain vol D (nd_inode node) cs" "nd_length node \<le> length cs * csize vol" "nd_length node + 512 \<le> 2 ^ 32" "offset + sz < 2 ^ 32"
    "bytes = take sz (drop offset (take (nd_length node) (file_data vol D cs)))"
  shows "\<exists>w'. fat32_read_fs vol node offset sz w = Some (length bytes, bytes, w') \<and> fat_ok vol content w' \<and> fw_dev w' = fw_dev w"
proof (cases "offset < nd_length node")
  case False
  then have "bytes = []" using assms(9) by simp
  then show ?thesis using False assms(3) by (simp add: fat32_read_fs_def)
next
  case True
  let ?m = "min sz (nd_length node - offset)"
  have dok: "disk_ok D" using device_disk_ok [OF assms(1)] assms(4) by simp
  have b: "bytes = take ?m (drop offset (file_data vol D cs))" using assms(9) by (simp add: drop_take min.commute)
  then have "length bytes = ?m" using True assms(6) length_file_data [OF dok, of vol cs] by simp
  then show ?thesis using read_fs_ok [OF assms(1-3) _ assms(6-8) True refl] assms(4,5) b by auto
qed

text \<open>reading. For a file whose clusters are \<open>cs\<close>, \<open>fat32_read_fs\<close> returns the bytes of the file from
  \<open>offset\<close>, cut at the size asked for and at the length of the file, whatever clusters and sectors they lie
  in; nothing on the disk changes.\<close>

lemma fat32_read_correct:
  assumes "device_ok vol content" "vol_ok vol" "fat_ok vol content w" "D = content (fw_dev w)"
    "file_chain vol D (nd_inode node) cs" "nd_length node \<le> length cs * csize vol" "nd_length node + 512 \<le> 2 ^ 32" "offset + sz < 2 ^ 32"
    "bytes = take sz (drop offset (take (nd_length node) (file_data vol D cs)))"
  shows "\<exists>w'. fat32_read_fs vol node offset sz w = Some (length bytes, bytes, w') \<and> fat_ok vol content w' \<and> fw_dev w' = fw_dev w"
  using assms by (rule fat32_read_bytes)

lemma fat32_read_correct_witness:
  "\<exists>w'. fat32_read_fs ram_volume ram_node 510 4 ram_world = Some (4, replicate 4 7, w')"
proof -
  let ?D = "ram_content ram_disk"
  have "?D 2 = replicate 512 7" "?D 3 = replicate 512 7" by (simp_all add: ram_content_def ram_disk_def)
  then have "file_data ram_volume ?D [3, 4] = replicate 512 7 @ replicate 512 7"
    by (simp add: file_data_def cluster_data_def cluster_sectors_def numeral_3_eq_3 numeral_2_eq_2)
  then have "replicate 4 7 = take 4 (drop 510 (take (nd_length ram_node) (file_data ram_volume ?D [3, 4])))" by (simp flip: replicate_add)
  then have b: "replicate 4 7 = take 4 (drop 510 (take (nd_length ram_node) (file_data ram_volume (ram_content (fw_dev ram_world)) [3, 4])))" by simp
  have "file_chain ram_volume (ram_content (fw_dev ram_world)) (nd_inode ram_node) [3, 4]" using ram_chain(1) by simp
  from fat32_read_correct [OF ram_device ram_vol_ok ram_ok refl this _ _ _ b] show ?thesis by auto
qed

text \<open>C25: writing. On a volume with room for the data, \<open>fat32_write_fs\<close> at an offset inside the file or at the
  end of its clusters (inside the first cluster or at its end for a file that has none) writes all the bytes: afterwards the file is its old
  clusters followed by new ones taken from the free ones and zeroed, its bytes are the old ones overwritten at \<open>offset\<close>, and reading at
  \<open>offset\<close> returns the bytes written. The node and, when the file grew, its directory entry carry the new length, and the first cluster if the file had
  none. Nothing else changes: no other table entry, no other cluster, the directory's included, and in the sector of the directory entry no
  byte outside the 32 of the entry.\<close>

theorem fat32_write_correct:
  assumes "device_ok vol content" "vol_ok vol" "fat_ok vol content w" "D = content (fw_dev w)"
    "if cs = [] then nd_inode node = 0 else file_chain vol D (nd_inode node) cs" "distinct cs"
    "entry_place vol D cs dc j (nd_impl node) (nd_uid node)"
    "offset \<le> max 1 (length cs) * csize vol" "0 < sz" "offset + sz + 512 \<le> 2 ^ 32" "sz \<le> length buffer"
    "k \<le> card (free_set vol D)" "offset + sz \<le> (length cs + k) * csize vol"
    "len = max (nd_length node) (offset + sz)" "nd_length node \<le> length cs * csize vol" "len + 512 \<le> 2 ^ 32"
    "s = nd_impl node" "u = nd_uid node"
  shows "\<exists>ns node' w' D'. fat32_write_fs vol node offset sz buffer w = Some (sz, node', w') \<and> fat_ok vol content w' \<and>
    node' = node\<lparr>nd_inode := hd (cs @ ns), nd_length := len\<rparr> \<and>
    D' = content (fw_dev w') \<and> set ns \<subseteq> free_set vol D \<and> file_chain vol D' (hd (cs @ ns)) (cs @ ns) \<and> distinct (cs @ ns) \<and>
    file_data vol D' (cs @ ns) = overwrite offset (take sz buffer) (file_data vol D cs @ replicate (length ns * csize vol) 0) \<and>
    (nd_length node < len \<longrightarrow> de_file_size (take 32 (drop u (D' s))) = len) \<and> (cs = [] \<longrightarrow> de_cluster (take 32 (drop u (D' s))) = hd ns) \<and>
    (\<forall>x. 2 \<le> x \<and> x < clusters vol \<and> x \<notin> set (cs @ ns) \<longrightarrow> fat_get vol D' x = fat_get vol D x) \<and>
    (\<forall>x. 2 \<le> x \<and> x < clusters vol \<and> x \<notin> set (cs @ ns) \<and> x \<noteq> dc \<longrightarrow> cluster_data vol D' x = cluster_data vol D x) \<and>
    (\<forall>i < sectors_per_cluster vol. cluster_lba vol dc + i \<noteq> s \<longrightarrow> D' (cluster_lba vol dc + i) = D (cluster_lba vol dc + i)) \<and>
    (\<forall>b < 512. \<not> (u \<le> b \<and> b < u + 32) \<longrightarrow> D' s ! b = D s ! b) \<and> (cs \<noteq> [] \<and> nd_length node = len \<longrightarrow> D' s = D s) \<and>
    (\<exists>w''. fat32_read_fs vol node' offset sz w' = Some (sz, take sz buffer, w''))"
proof -
  define e where "e = take 32 (drop u (D s))"
  obtain ns w' D' where w': "fat32_write_fs vol node offset sz buffer w = Some (sz, node\<lparr>nd_inode := hd (cs @ ns), nd_length := len\<rparr>, w')" "fat_ok vol content w'"
    "D' = content (fw_dev w')" "set ns \<subseteq> free_set vol D" "file_chain vol D' (hd (cs @ ns)) (cs @ ns)" "distinct (cs @ ns)"
    "file_data vol D' (cs @ ns) = overwrite offset (take sz buffer) (file_data vol D cs @ replicate (length ns * csize vol) 0)"
    "only_file vol (cs @ ns) s D D'"
    "D' s = overwrite u ((if nd_length node < len then set_file_size len else id) ((if cs = [] then set_cluster (hd ns) else id) e)) (D s)" "cs @ ns \<noteq> []"
    using write_fs_any [OF assms(1-6,8-13,7,15,14,17,18) e_def] by blast
  let ?node = "node\<lparr>nd_inode := hd (cs @ ns), nd_length := len\<rparr>"
  have dok: "disk_ok D" "disk_ok D'" using device_disk_ok [OF assms(1)] assms(4) w'(3) by simp_all
  have ep: "entry_place vol D cs dc j s u" using assms(7,17,18) by simp
  have ns: "\<forall>x \<in> set (cs @ ns). 2 \<le> x \<and> x < clusters vol" using file_chain_clusters [OF w'(5)] by blast
  have dc: "s = cluster_lba vol dc + j" "j < sectors_per_cluster vol" "2 \<le> dc" "dc \<notin> set (cs @ ns)" "\<forall>x \<in> set (cs @ ns). 2 \<le> x"
    using ep w'(4) ns by (auto simp: entry_place_def)
  note fr = only_file_frame [OF assms(2) w'(8) dc]
  have l32: "len < 2 ^ 32" using assms(16) by simp
  have en: "nd_length node < len \<longrightarrow> de_file_size (take 32 (drop u (D' s))) = len" "cs = [] \<longrightarrow> de_cluster (take 32 (drop u (D' s))) = hd ns"
    "\<forall>b < 512. \<not> (u \<le> b \<and> b < u + 32) \<longrightarrow> D' s ! b = D s ! b" "cs \<noteq> [] \<and> nd_length node = len \<longrightarrow> D' s = D s"
  proof -
    define c where "c = (if cs = [] then hd ns else 0)"
    have "c < 2 ^ 32"
    proof (cases "cs = []")
      case True
      then have "hd ns < clusters vol" using ns w'(10) by simp
      then show ?thesis using clusters_eoc [OF assms(2), of "hd ns"] True by (simp add: c_def FAT32_EOC_def)
    qed (simp add: c_def)
    moreover have "D' s = overwrite u ((if nd_length node < len then set_file_size len else id) ((if cs = [] then set_cluster c else id) e)) (D s)"
      using w'(9) by (simp add: c_def)
    ultimately show "nd_length node < len \<longrightarrow> de_file_size (take 32 (drop u (D' s))) = len"
      "cs = [] \<longrightarrow> de_cluster (take 32 (drop u (D' s))) = hd ns"
      "\<forall>b < 512. \<not> (u \<le> b \<and> b < u + 32) \<longrightarrow> D' s ! b = D s ! b" "cs \<noteq> [] \<and> nd_length node = len \<longrightarrow> D' s = D s"
      using entry_written [OF dok(1) ep e_def _ _ l32, of D' "nd_length node" c] by (simp_all add: c_def)
  qed
  let ?old = "file_data vol D cs @ replicate (length ns * csize vol) 0" and ?b = "take sz buffer"
  have lo: "length ?old = (length cs + length ns) * csize vol" using length_file_data [OF dok(1)] by (simp add: algebra_simps)
  have lb: "length ?b = sz" using assms(11) by simp
  have fits: "offset + sz \<le> length ?old"
  proof -
    have "length (overwrite offset ?b ?old) = length ?old"
      using length_file_data [OF dok(2), of vol "cs @ ns"] w'(7) lo by simp
    moreover have "max 1 (length cs) * csize vol \<le> length ?old" using w'(10) unfolding lo by (intro mult_le_mono1) (cases cs; simp add: Suc_le_eq)
    ultimately show ?thesis using lb assms(8) by (simp add: overwrite_def add_mult_distrib split: nat_diff_split)
  qed
  have len: "len \<le> length (cs @ ns) * csize vol" using assms(14,15) fits lo by (simp add: add_mult_distrib)
  have "take sz (drop offset (take len (overwrite offset ?b ?old))) = ?b"
    using assms(14) lb fits take_drop_overwrite [of offset ?b ?old] by (simp add: drop_take)
  then have rd: "\<exists>w''. fat32_read_fs vol ?node offset sz w' = Some (sz, ?b, w'')"
    using fat32_read_bytes [OF assms(1,2) w'(2,3), of ?node "cs @ ns" offset sz] w'(5,7) len assms(10,16) lb by auto
  show ?thesis
    by (rule exI [of _ ns], rule exI [of _ ?node], rule exI [of _ w'], rule exI [of _ D'], intro conjI refl w'(1-7) en fr rd)
qed

theorem fat32_write_correct_witness:
  "\<exists>ns node' w' D'. fat32_write_fs ram_volume ram_node 1000 100 (replicate 100 9) ram_world = Some (100, node', w') \<and> nd_length node' = 1100 \<and>
     D' = ram_content (fw_dev w') \<and> set ns \<subseteq> free_set ram_volume (ram_content ram_disk) \<and> file_chain ram_volume D' 3 ([3, 4] @ ns) \<and>
     de_file_size (take 32 (drop 0 (D' 1))) = 1100"
proof -
  let ?D = "ram_content (fw_dev ram_world)"
  have fc: "if [3, 4] = [] then nd_inode ram_node = 0 else file_chain ram_volume ?D (nd_inode ram_node) [3, 4]" using ram_chain(1) by simp
  have ep: "entry_place ram_volume ?D [3, 4] 2 0 (nd_impl ram_node) (nd_uid ram_node)" by (simp add: entry_place_def ram_free)
  have a: "distinct [3, 4 :: nat]" "1000 \<le> max 1 (length [3, 4 :: nat]) * csize ram_volume" "0 < (100 :: nat)"
    "1000 + 100 + 512 \<le> (2 :: nat) ^ 32" "100 \<le> length (replicate 100 (9 :: u8))" "1 \<le> card (free_set ram_volume ?D)"
    "1000 + 100 \<le> (length [3, 4 :: nat] + 1) * csize ram_volume" "1100 = max (nd_length ram_node) (1000 + 100)"
    "nd_length ram_node \<le> length [3, 4 :: nat] * csize ram_volume" "1100 + 512 \<le> (2 :: nat) ^ 32"
    by (simp_all add: ram_free)
  from fat32_write_correct [OF ram_device ram_vol_ok ram_ok refl fc a(1) ep a(2-10) refl refl] show ?thesis
    unfolding ram_node_sel ram_fields by (elim exE conjE) (rule exI, rule exI, rule exI, rule exI, intro conjI, assumption, simp, assumption, assumption, simp, simp)
qed

section \<open>Directories\<close>

text \<open>C26: creating a file. The map of a directory is what the driver sees of it: it skips entries with the
  read-only, hidden or system bit, so such a name counts as not there. In a directory with a reusable slot, or on a disk with a free cluster, creating a
  name that is not there succeeds: the directory stays well-formed, its map gains exactly the new name, bound to
  an empty file, \<open>fat32_finddir_fs\<close> then finds this file and every other name as before, and nothing outside the
  directory changes except the cluster appended to it. A name that is there gives \<open>-EEXIST\<close> and changes nothing.\<close>

theorem fat32_create_correct:
  assumes "device_ok vol content" "vol_ok vol" "fat_ok vol content w" "D = content (fw_dev w)" "is_dir vol D (nd_inode parent) cs"
    "(\<exists>x \<in> set (dir_slots vol D cs). reusable x) \<or> free_set vol D \<noteq> {}" "dos_name_ok name" "dn = fat32_to_dos_name name"
    "m = dir_map (dir_slots vol D cs)"
  shows "if m dn \<noteq> None
    then \<exists>w'. fat32_create_fs vol parent name w = Some (- EEXIST, w') \<and> fat_ok vol content w' \<and> fw_dev w' = fw_dev w
    else \<exists>ns s off w' D'. fat32_create_fs vol parent name w = Some (0, w') \<and> fat_ok vol content w' \<and> D' = content (fw_dev w') \<and>
      is_dir vol D' (nd_inode parent) (cs @ ns) \<and> set ns \<subseteq> free_set vol D \<and> same_outside vol (cs @ ns) D D' \<and>
      dir_map (dir_slots vol D' (cs @ ns)) = m(dn \<mapsto> (new_entry dn ATTR_ARCHIVE 0, s, off)) \<and>
      (\<exists>w''. fat32_finddir_fs vol parent name w' = Some (Some \<lparr>nd_name = take 127 name, nd_is_dir = False, nd_mask = 438,
        nd_inode = 0, nd_impl = s, nd_uid = off, nd_length = 0, nd_ref_count = 1\<rparr>, w''))"
proof (cases "m dn = None")
  case False
  then show ?thesis using create_exists_ok [OF assms(1-5), of name] assms(8,9) by auto
next
  case True
  then obtain ns s off w' D' where w': "fat32_create_fs vol parent name w = Some (0, w')" "fat_ok vol content w'"
    "D' = content (fw_dev w')" "is_dir vol D' (nd_inode parent) (cs @ ns)" "set ns \<subseteq> free_set vol D" "same_outside vol (cs @ ns) D D'"
    "dir_map (dir_slots vol D' (cs @ ns)) = m(dn \<mapsto> (new_entry dn ATTR_ARCHIVE 0, s, off))"
    using create_ok [OF assms(1-8)] unfolding assms(9) [symmetric] by blast
  have "dir_map (dir_slots vol D' (cs @ ns)) (fat32_to_dos_name name) = Some (new_entry dn ATTR_ARCHIVE 0, s, off)"
    using w'(7) assms(8) by simp
  with finddir_ok [OF assms(1,2) w'(2-4) refl, of name]
  have "\<exists>w''. fat32_finddir_fs vol parent name w' = Some (Some \<lparr>nd_name = take 127 name, nd_is_dir = False, nd_mask = 438,
      nd_inode = 0, nd_impl = s, nd_uid = off, nd_length = 0, nd_ref_count = 1\<rparr>, w'')"
    using new_entry_fields(2,3) [of dn ATTR_ARCHIVE 0] new_entry_fields(4) [of dn 0 ATTR_ARCHIVE] assms(8)
    by (auto simp: ATTR_ARCHIVE_def ATTR_DIRECTORY_def)
  then show ?thesis using True w' by auto
qed

lemma ram_entry_cluster: "de_cluster ram_entry = 3"
  by (simp add: ram_entry_def set_file_size_def overwrite_def new_entry_alt de_cluster_def le16_def enc16_def enc32_def nth_append)

lemma ram_dos_names:
  "fat32_to_dos_name ram_name = [65, 32, 32, 32, 32, 32, 32, 32, 84, 88, 84]"
  "fat32_to_dos_name [98] = [66, 32, 32, 32, 32, 32, 32, 32, 32, 32, 32]" "dos_name_ok [98]"
  by code_simp+

theorem fat32_create_correct_witness:
  "\<exists>w'. fat32_create_fs ram_volume ram_root [98] ram_world = Some (0, w')"
proof -
  have "is_dir ram_volume (ram_content (fw_dev ram_world)) (nd_inode ram_root) [2]" using ram_dir(1) by simp
  from fat32_create_correct [OF ram_device ram_vol_ok ram_ok refl this _ ram_dos_names(3) refl refl] show ?thesis
    using ram_free ram_dir(2) ram_dos_names(2) by auto
qed

text \<open>C31: removing a file. Removing a name of a directory frees exactly the clusters of the file's chain, removes
  exactly this name from the map of the directory, which stays well-formed, and changes nothing else; a name
  that is not there gives \<open>-ENOENT\<close> and changes nothing.\<close>

theorem fat32_unlink_correct:
  assumes "device_ok vol content" "vol_ok vol" "fat_ok vol content w" "D = content (fw_dev w)" "is_dir vol D (nd_inode parent) cs"
    "dn = fat32_to_dos_name name" "m = dir_map (dir_slots vol D cs)"
    "\<forall>e s off. m dn = Some (e, s, off) \<longrightarrow> chain vol D (de_cluster e) fs" "distinct fs" "set cs \<inter> set fs = {}"
  shows "case m dn of
      None \<Rightarrow> \<exists>w'. fat32_unlink_fs vol parent name w = Some (- ENOENT, w') \<and> fat_ok vol content w' \<and> fw_dev w' = fw_dev w
    | Some x \<Rightarrow> \<exists>w' D'. fat32_unlink_fs vol parent name w = Some (0, w') \<and> fat_ok vol content w' \<and> D' = content (fw_dev w') \<and>
        is_dir vol D' (nd_inode parent) cs \<and> dir_map (dir_slots vol D' cs) = m(dn := None) \<and>
        (\<forall>c \<in> set fs. fat_get vol D' c = 0) \<and> same_outside vol (cs @ fs) D D' \<and>
        (\<exists>w''. fat32_finddir_fs vol parent name w' = Some (None, w''))"
proof (cases "m dn")
  case None
  then show ?thesis using unlink_missing_ok [OF assms(1-5), of name] assms(6,7) by simp
next
  case (Some x)
  obtain e s off where x: "x = (e, s, off)" using prod_cases3 by blast
  have md: "dir_map (dir_slots vol D cs) dn = Some (e, s, off)" using Some x assms(7) by simp
  have ch: "chain vol D (de_cluster e) fs" using assms(8) Some x by blast
  from unlink_ok [OF assms(1-6) md ch assms(9,10)] obtain w' D' where w':
    "fat32_unlink_fs vol parent name w = Some (0, w')" "fat_ok vol content w'" "D' = content (fw_dev w')"
    "is_dir vol D' (nd_inode parent) cs" "same_outside vol (cs @ fs) D D'" "\<forall>c \<in> set fs. fat_get vol D' c = 0"
    "dir_map (dir_slots vol D' cs) = m(dn := None)" unfolding assms(7) [symmetric] by blast
  have "\<exists>w''. fat32_finddir_fs vol parent name w' = Some (None, w'')"
    using finddir_ok [OF assms(1,2) w'(2-4) refl, of name] w'(7) assms(6) by auto
  then show ?thesis using Some w' by simp
qed

theorem fat32_unlink_correct_witness:
  "\<exists>w' D'. fat32_unlink_fs ram_volume ram_root ram_name ram_world = Some (0, w') \<and> D' = ram_content (fw_dev w') \<and>
     fat_get ram_volume D' 3 = 0 \<and> fat_get ram_volume D' 4 = 0"
proof -
  let ?D = "ram_content (fw_dev ram_world)"
  have dir: "is_dir ram_volume ?D (nd_inode ram_root) [2]" using ram_dir(1) by simp
  have md: "dir_map (dir_slots ram_volume ?D [2]) (fat32_to_dos_name ram_name) = Some (ram_entry, 1, 0)"
    by (simp add: ram_dir(2) [simplified] ram_dos_names)
  have "chain ram_volume ?D (de_cluster ram_entry) [3, 4]" using ram_chain(2) ram_entry_cluster by simp
  then have ch: "\<forall>e s off. dir_map (dir_slots ram_volume ?D [2]) (fat32_to_dos_name ram_name) = Some (e, s, off) \<longrightarrow>
      chain ram_volume ?D (de_cluster e) [3, 4]" unfolding md by blast
  have "distinct [3, 4 :: nat]" "set [2] \<inter> set [3, 4 :: nat] = {}" by simp_all
  from fat32_unlink_correct [OF ram_device ram_vol_ok ram_ok refl dir refl refl ch this] show ?thesis
    unfolding md by auto
qed

text \<open>making a directory. On a disk with two free clusters, making a directory of a name that is not there adds
  exactly this name to the map of the parent, bound to a new cluster that holds a well-formed directory whose
  only entries are \<open>.\<close> and \<open>..\<close>, which point to itself and to its parent; a name that is there gives \<open>-EEXIST\<close>.\<close>

lemma fat32_mkdir_correct:
  assumes "device_ok vol content" "vol_ok vol" "fat_ok vol content w" "D = content (fw_dev w)" "is_dir vol D (nd_inode parent) cs"
    "2 \<le> card (free_set vol D)" "dos_name_ok name" "dn = fat32_to_dos_name name" "m = dir_map (dir_slots vol D cs)"
    "p = (if nd_inode parent = root_cluster vol then 0 else nd_inode parent)"
  shows "if m dn \<noteq> None
    then \<exists>w'. fat32_mkdir_fs vol parent name w = Some (- EEXIST, w') \<and> fat_ok vol content w' \<and> fw_dev w' = fw_dev w
    else \<exists>ns n s off w' D'. fat32_mkdir_fs vol parent name w = Some (0, w') \<and> fat_ok vol content w' \<and> D' = content (fw_dev w') \<and>
      is_dir vol D' (nd_inode parent) (cs @ ns) \<and> set (n # ns) \<subseteq> free_set vol D \<and> n \<notin> set (cs @ ns) \<and>
      same_outside vol (cs @ ns @ [n]) D D' \<and>
      dir_map (dir_slots vol D' (cs @ ns)) = m(dn \<mapsto> (new_entry dn ATTR_DIRECTORY n, s, off)) \<and>
      is_dir vol D' n [n] \<and> dir_map (dir_slots vol D' [n]) =
        [dot_name \<mapsto> (new_entry dot_name ATTR_DIRECTORY n, cluster_lba vol n, 0),
         dotdot_name \<mapsto> (new_entry dotdot_name ATTR_DIRECTORY p, cluster_lba vol n, 32)]"
proof (cases "m dn = None")
  case False
  then show ?thesis using create_exists_ok [OF assms(1-5), of name] assms(8,9) by auto
next
  case True
  then show ?thesis using mkdir_ok [OF assms(1-9) True assms(10)] by (simp only: dot_map_def) simp
qed

lemma fat32_mkdir_correct_witness:
  "\<exists>w'. fat32_mkdir_fs ram_volume ram_root [98] ram_world = Some (0, w')"
proof -
  have dir: "is_dir ram_volume (ram_content (fw_dev ram_world)) (nd_inode ram_root) [2]" using ram_dir(1) by simp
  from fat32_mkdir_correct [OF ram_device ram_vol_ok ram_ok refl dir _ ram_dos_names(3) refl refl refl] show ?thesis
    using ram_free ram_dir(2) ram_dos_names(2) by auto
qed

text \<open>renaming inside a directory, to a name with another 8.3 form. The old name is removed from the map
  of the directory, the new one is bound to the same file with the same cluster and size (replacing a file of that
  name), every other name is as before, and the directory stays well-formed.\<close>

lemma fat32_rename_correct:
  assumes "device_ok vol content" "vol_ok vol" "fat_ok vol content w" "D = content (fw_dev w)" "is_dir vol D (nd_inode parent) cs"
    "free_set vol D \<noteq> {}" "m = dir_map (dir_slots vol D cs)" "dn = fat32_to_dos_name old_name" "dn' = fat32_to_dos_name new_name"
    "dn \<noteq> dn'" "m dn = Some (e, s, off)" "dos_name_ok new_name"
  shows "\<exists>ns e' s' off' w' D'. fat32_rename_fs vol parent old_name parent new_name w = Some (0, w') \<and> fat_ok vol content w' \<and>
    D' = content (fw_dev w') \<and> is_dir vol D' (nd_inode parent) (cs @ ns) \<and> set ns \<subseteq> free_set vol D \<and> same_outside vol (cs @ ns) D D' \<and>
    dir_map (dir_slots vol D' (cs @ ns)) = m(dn := None, dn' \<mapsto> (e', s', off')) \<and>
    de_cluster e' = de_cluster e \<and> de_file_size e' = de_file_size e"
proof -
  have dok: "disk_ok D" using device_disk_ok [OF assms(1)] assms(4) by simp
  have md: "dir_map (dir_slots vol D cs) dn = Some (e, s, off)" using assms(7,11) by simp
  have "de_cluster (set_name dn' e) = de_cluster e" "de_file_size (set_name dn' e) = de_file_size e"
    using set_name_shown(3,4) [OF dir_map_entry(1) [OF dok assms(5) md] assms(12)] assms(9) by simp_all
  then show ?thesis using rename_ok [OF assms] by blast
qed

lemma fat32_rename_correct_witness:
  "\<exists>w'. fat32_rename_fs ram_volume ram_root ram_name ram_root [98] ram_world = Some (0, w')"
proof -
  let ?D = "ram_content (fw_dev ram_world)"
  have dir: "is_dir ram_volume ?D (nd_inode ram_root) [2]" using ram_dir(1) by simp
  have f: "free_set ram_volume ?D \<noteq> {}" by (simp add: ram_free)
  have ne: "fat32_to_dos_name ram_name \<noteq> fat32_to_dos_name [98]" by (simp add: ram_dos_names)
  have md: "dir_map (dir_slots ram_volume ?D [2]) (fat32_to_dos_name ram_name) = Some (ram_entry, 1, 0)"
    by (simp add: ram_dir(2) [simplified] ram_dos_names)
  from fat32_rename_correct [OF ram_device ram_vol_ok ram_ok refl dir f refl refl refl ne md ram_dos_names(3)] show ?thesis by blast
qed

section \<open>Names\<close>

text \<open>The characters of an 8.3 name that the driver keeps as they are.\<close>

definition dos_chars :: "u8 list \<Rightarrow> bool" where
  "dos_chars cs \<longleftrightarrow> (\<forall>c \<in> set cs. c \<noteq> 32 \<and> c \<noteq> 46 \<and> \<not> (97 \<le> c \<and> c \<le> 122))"

lemma fill_field_chars:
  assumes "dos_chars cs" "length cs \<le> n"
  shows "fill_field n cs = cs @ replicate (n - length cs) 32"
proof -
  have "map to_upper cs = cs" using assms(1) by (auto simp: dos_chars_def to_upper_def intro: map_idI)
  then show ?thesis using assms(2) by (simp add: fill_field_def)
qed

lemma takeWhile_field: "dos_chars cs \<Longrightarrow> takeWhile (\<lambda>c. c \<noteq> 32) (cs @ replicate n 32) = cs"
  by (subst takeWhile_append2) (auto simp: dos_chars_def takeWhile_eq_Nil_iff)

text \<open>the name of a directory entry made from a name of at most eight and three characters, none of them a
  blank, a dot or a small letter, reads back as that name.\<close>

lemma fat32_name_roundtrip:
  assumes "dos_chars base" "length base \<le> 8" "dos_chars ext" "length ext \<le> 3"
    "name = base @ (if ext = [] then [] else 46 # ext)"
  shows "fat32_get_name (fat32_to_dos_name name) = name"
proof -
  have nd: "\<forall>c \<in> set base. c \<noteq> 46" using assms(1) by (simp add: dos_chars_def)
  have "takeWhile (\<lambda>c. c \<noteq> 46) name = base" "dropWhile (\<lambda>c. c \<noteq> 46) name = (if ext = [] then [] else 46 # ext)"
    using nd assms(5) by (simp_all add: takeWhile_append2 dropWhile_append2)
  then have d: "fat32_to_dos_name name = (base @ replicate (8 - length base) 32) @ (ext @ replicate (3 - length ext) 32)"
    using fill_field_chars [OF assms(1,2)] fill_field_chars [OF assms(3,4)] by (cases ext) (simp_all add: fat32_to_dos_name_def Let_def)
  have l: "length (base @ replicate (8 - length base) (32 :: u8)) = 8" using assms(2) by simp
  have "fat32_to_dos_name name ! 8 = (ext @ replicate (3 - length ext) 32) ! 0"
    unfolding d using l by (simp only: nth_append) simp
  then have e: "(fat32_to_dos_name name ! 8 \<noteq> 32) = (ext \<noteq> [])"
    using assms(3) by (cases ext) (auto simp: dos_chars_def)
  have t: "take 8 (fat32_to_dos_name name) = base @ replicate (8 - length base) 32"
    "take 3 (drop 8 (fat32_to_dos_name name)) = ext @ replicate (3 - length ext) 32"
    unfolding d using l assms(4) by simp_all
  show ?thesis
    unfolding fat32_get_name_def e t takeWhile_field [OF assms(1)] takeWhile_field [OF assms(3)] using assms(5) by simp
qed

lemma fat32_name_roundtrip_witness:
  "fat32_get_name (fat32_to_dos_name ram_name) = ram_name"
  by (rule fat32_name_roundtrip [of "[65]" "[84, 88, 84]"]) (simp_all add: dos_chars_def ram_name_def)

end
