(* ===== verification/Heap.thy ===== *)
theory Heap
  imports Dll Pmm "HOL-Library.Monad_Syntax"
begin

text \<open>
  The kernel heap (\<^verbatim>\<open>kernel/mm/heap.c\<close>): \<open>kmalloc\<close>, \<open>kfree\<close>, \<open>kcalloc\<close> and \<open>krealloc\<close> over blocks that
  tile one region, doubly linked in address order, with the free ones in ten doubly linked lists by size.
  Memory is split by what the code keeps there: the block headers, the free-list nodes at the beginning of the
  free payloads, the footer words of the blocks in use, and the payload bytes, each by address. In the machine these
  are views of the same bytes. The operations themselves keep them apart: the blocks do not overlap, and the bytes
  that \<open>kcalloc\<close> fills and \<open>krealloc\<close> copies to are fewer than the request, which ends before the footer (the
  last four of the copied bytes are the old block's footer in the machine, payload here). What a caller's stores do to
  the other views is the step \<open>heap_store\<close> of \<open>HeapProps\<close>. A pointer is \<open>None\<close> for NULL. A failed \<open>ASSERT\<close> stops the machine:
  the operation yields \<open>Inl\<close>. The outer \<open>None\<close> is a loop that does not end.
\<close>

section \<open>Data\<close>

definition HEAP_ALIGNMENT :: nat where "HEAP_ALIGNMENT = 8"
definition ARCH_RESERVED_MEM_END :: nat where "ARCH_RESERVED_MEM_END = 0x100000"
definition HEAP_MAGIC :: u32 where "HEAP_MAGIC = 0x48454150"
definition HEAP_FOOTER_MAGIC :: u32 where "HEAP_FOOTER_MAGIC = 0x464F4F54"
definition MAX_HEAP_SIZE :: nat where "MAX_HEAP_SIZE = 96 * 1024 * 1024"
definition NUM_BUCKETS :: nat where "NUM_BUCKETS = 10"

record block_header =
  bh_size :: nat
  bh_magic :: u32
  bh_is_free :: bool
  bh_next :: "nat option"
  bh_prev :: "nat option"

text \<open>\<open>sizeof(block_header_t)\<close> and \<open>sizeof(free_node_t)\<close> on x86-64.\<close>

definition HDR :: nat where "HDR = 32"
definition NODE :: nat where "NODE = 16"

record free_node =
  next_free :: "nat option"
  prev_free :: "nat option"

record heap =
  heap_start :: "nat option"
  free_buckets :: "nat \<Rightarrow> nat option"
  memory_used :: nat
  memory_total :: nat
  mm_initialized :: bool
  hdr :: "nat \<Rightarrow> block_header"
  node_at :: "nat \<Rightarrow> free_node"
  footer_at :: "nat \<Rightarrow> u32"
  payload :: memory

section \<open>Helpers\<close>

definition round8 :: "nat \<Rightarrow> nat" where
  "round8 n = add64 n (HEAP_ALIGNMENT - 1) div HEAP_ALIGNMENT * HEAP_ALIGNMENT"

definition align :: "nat \<Rightarrow> nat" where
  "align n = (let aligned = round8 n in if aligned < NODE then round8 NODE else aligned)"

definition get_bucket_index :: "nat \<Rightarrow> nat" where
  "get_bucket_index sz =
     (if sz \<le> 32 then 0 else if sz \<le> 64 then 1 else if sz \<le> 128 then 2 else if sz \<le> 256 then 3
      else if sz \<le> 512 then 4 else if sz \<le> 1024 then 5 else if sz \<le> 2048 then 6 else if sz \<le> 4096 then 7
      else if sz \<le> 8192 then 8 else 9)"

definition get_free_node :: "nat \<Rightarrow> nat" where
  "get_free_node block = block + HDR"

definition set_next_free :: "nat \<Rightarrow> nat option \<Rightarrow> heap \<Rightarrow> heap" where
  "set_next_free block p s =
     s\<lparr>node_at := (node_at s)(get_free_node block := (node_at s (get_free_node block))\<lparr>next_free := p\<rparr>)\<rparr>"

definition set_prev_free :: "nat \<Rightarrow> nat option \<Rightarrow> heap \<Rightarrow> heap" where
  "set_prev_free block p s =
     s\<lparr>node_at := (node_at s)(get_free_node block := (node_at s (get_free_node block))\<lparr>prev_free := p\<rparr>)\<rparr>"

definition set_bucket :: "nat \<Rightarrow> nat option \<Rightarrow> heap \<Rightarrow> heap" where
  "set_bucket i p s = s\<lparr>free_buckets := (free_buckets s)(i := p)\<rparr>"

definition set_hdr :: "nat \<Rightarrow> (block_header \<Rightarrow> block_header) \<Rightarrow> heap \<Rightarrow> heap" where
  "set_hdr block f s = s\<lparr>hdr := (hdr s)(block := f (hdr s block))\<rparr>"

definition nx_free :: "heap \<Rightarrow> nat \<Rightarrow> nat option" where
  "nx_free s b = next_free (node_at s (get_free_node b))"

definition pv_free :: "heap \<Rightarrow> nat \<Rightarrow> nat option" where
  "pv_free s b = prev_free (node_at s (get_free_node b))"

definition add_to_free_list :: "nat option \<Rightarrow> heap \<Rightarrow> heap" where
  "add_to_free_list blk s =
     (case blk of
        None \<Rightarrow> s
      | Some block \<Rightarrow>
          if \<not> bh_is_free (hdr s block) then s
          else
            let bucket = get_bucket_index (bh_size (hdr s block));
                s1 = set_prev_free block None (set_next_free block (free_buckets s bucket) s);
                s2 = (case free_buckets s1 bucket of None \<Rightarrow> s1 | Some head \<Rightarrow> set_prev_free head (Some block) s1)
            in set_bucket bucket (Some block) s2)"

definition remove_from_free_list :: "nat option \<Rightarrow> heap \<Rightarrow> heap" where
  "remove_from_free_list blk s =
     (case blk of
        None \<Rightarrow> s
      | Some block \<Rightarrow>
          if \<not> bh_is_free (hdr s block) then s
          else
            let bucket = get_bucket_index (bh_size (hdr s block));
                s1 = (case pv_free s block of
                        Some p \<Rightarrow> set_next_free p (nx_free s block) s
                      | None \<Rightarrow> set_bucket bucket (nx_free s block) s);
                s2 = (case nx_free s1 block of
                        Some n \<Rightarrow> set_prev_free n (pv_free s1 block) s1
                      | None \<Rightarrow> s1)
            in set_prev_free block None (set_next_free block None s2))"

section \<open>Initialisation\<close>

text \<open>The loop over the memory map: the first usable region with a megabyte above the kernel.\<close>

fun heap_region :: "e820_entry list \<Rightarrow> nat \<Rightarrow> (nat \<times> nat) option" where
  "heap_region [] candidate = None"
| "heap_region (e # es) candidate =
     (if e_type e = E820_USABLE then
        let end0 = add64 (base_addr e) (e_length e);
            region_end = (if end0 > 0x100000000 then 0x100000000 else end0);
            start0 = PAGE_ALIGN_UP (base_addr e);
            region_start = (if start0 < candidate then candidate else start0)
        in if region_end > region_start \<and> region_end - region_start \<ge> 1024 * 1024
           then Some (region_start, min (mul64 (region_end - region_start) 3 div 4) MAX_HEAP_SIZE)
           else heap_region es candidate
      else heap_region es candidate)"

definition heap_place :: "memory_map option \<Rightarrow> nat \<Rightarrow> nat \<times> nat" where
  "heap_place mmap kernel_end =
     (let candidate = max (PAGE_ALIGN_UP kernel_end) ARCH_RESERVED_MEM_END;
          best = (case mmap of None \<Rightarrow> None | Some m \<Rightarrow> heap_region (map_entries m) candidate)
      in case best of
           Some (start, sz) \<Rightarrow> (start, sz)
         | None \<Rightarrow> (PAGE_ALIGN_UP (max 0x400000 candidate), 8 * 1024 * 1024))"

definition mm_init :: "memory_map option \<Rightarrow> nat \<Rightarrow> heap \<Rightarrow> pmm \<Rightarrow> heap \<times> pmm" where
  "mm_init mmap kernel_end s p =
     (case heap_place mmap kernel_end of
        (start, tot) \<Rightarrow>
          let s1 = s\<lparr>heap_start := Some start, free_buckets := (\<lambda>_. None), memory_total := tot\<rparr>;
              s2 = set_hdr start (\<lambda>_. \<lparr>bh_size = sub64 tot HDR, bh_magic = HEAP_MAGIC, bh_is_free = True,
                     bh_next = None, bh_prev = None\<rparr>) s1;
              s3 = (add_to_free_list (Some start) s2)\<lparr>memory_used := 0\<rparr>
          in (s3, pmm_mark_region_used start tot p))"

section \<open>Allocation\<close>

text \<open>The walk of one free list: the first block that is large enough.\<close>

partial_function (option) find_fit :: "heap \<Rightarrow> nat \<Rightarrow> nat option \<Rightarrow> (panic + nat option) option" where
  "find_fit s aligned_size cur =
     (case cur of
        None \<Rightarrow> Some (Inr None)
      | Some c \<Rightarrow>
          if \<not> bh_is_free (hdr s c) then find_fit s aligned_size (nx_free s c)
          else if bh_magic (hdr s c) \<noteq> HEAP_MAGIC
            then Some (Inl (Panic ''Heap corruption detected: Invalid magic number in free list''))
          else if bh_size (hdr s c) \<ge> aligned_size then Some (Inr (Some c))
          else find_fit s aligned_size (nx_free s c))"

text \<open>The loop over the buckets, \<open>n\<close> of them left.\<close>

fun bucket_loop :: "heap \<Rightarrow> nat \<Rightarrow> nat \<Rightarrow> nat \<Rightarrow> (panic + nat option) option" where
  "bucket_loop s aligned_size 0 b = Some (Inr None)"
| "bucket_loop s aligned_size (Suc n) b = do {
     r \<leftarrow> find_fit s aligned_size (free_buckets s b);
     (case r of
        Inr None \<Rightarrow> bucket_loop s aligned_size n (Suc b)
      | _ \<Rightarrow> Some r)
   }"

text \<open>What is done with the block found: unlink it, split it when the rest can be a block, mark it used.\<close>

definition split_block :: "nat \<Rightarrow> nat \<Rightarrow> heap \<Rightarrow> heap" where
  "split_block cur aligned_size s =
     (if bh_size (hdr s cur) \<ge> add64 (add64 aligned_size HDR) NODE then
        let new_block = add64 (add64 cur HDR) aligned_size;
            s1 = set_hdr new_block (\<lambda>_. \<lparr>bh_size = sub64 (sub64 (bh_size (hdr s cur)) aligned_size) HDR, bh_magic = HEAP_MAGIC,
                   bh_is_free = True, bh_next = bh_next (hdr s cur), bh_prev = Some cur\<rparr>) s;
            s2 = (case bh_next (hdr s1 new_block) of
                    None \<Rightarrow> s1
                  | Some n \<Rightarrow> set_hdr n (\<lambda>h. h\<lparr>bh_prev := Some new_block\<rparr>) s1);
            s3 = set_hdr cur (\<lambda>h. h\<lparr>bh_size := aligned_size, bh_next := Some new_block\<rparr>) s2
        in add_to_free_list (Some new_block) s3
      else s)"

definition footer_addr :: "nat \<Rightarrow> nat \<Rightarrow> nat" where
  "footer_addr block sz = sub64 (add64 (add64 block HDR) sz) 4"

definition take_block :: "nat \<Rightarrow> nat \<Rightarrow> heap \<Rightarrow> heap" where
  "take_block cur aligned_size s =
     (let s1 = split_block cur aligned_size (remove_from_free_list (Some cur) s);
          s2 = set_hdr cur (\<lambda>h. h\<lparr>bh_is_free := False\<rparr>) s1;
          sz = bh_size (hdr s2 cur);
          s3 = s2\<lparr>memory_used := add64 (memory_used s2) (add64 sz HDR)\<rparr>
      in s3\<lparr>footer_at := (footer_at s3)(footer_addr cur sz := HEAP_FOOTER_MAGIC)\<rparr>)"

definition kmalloc_impl :: "nat \<Rightarrow> heap \<Rightarrow> (panic + (nat option \<times> heap)) option" where
  "kmalloc_impl sz s =
     (if sz = 0 then Some (Inr (None, s))
      else if \<not> mm_initialized s then Some (Inl (Panic ''kmalloc called before mm_init!''))
      else if heap_start s = None then Some (Inr (None, s))
      else if sz > UINT64_MAX - HEAP_ALIGNMENT - HDR then Some (Inr (None, s))
      else if sz > memory_total s then Some (Inr (None, s))
      else
        let aligned_size = align (add64 sz 4);
            start_bucket = get_bucket_index aligned_size
        in do {
          r \<leftarrow> bucket_loop s aligned_size (NUM_BUCKETS - start_bucket) start_bucket;
          Some (case r of
            Inl e \<Rightarrow> Inl e
          | Inr None \<Rightarrow> Inr (None, s)
          | Inr (Some cur) \<Rightarrow> Inr (Some (add64 cur HDR), take_block cur aligned_size s))
        })"

definition kmalloc :: "nat \<Rightarrow> heap \<Rightarrow> (panic + (nat option \<times> heap)) option" where
  "kmalloc sz s = (if sz = 0 then Some (Inr (None, s)) else kmalloc_impl sz s)"

section \<open>Release\<close>

text \<open>Merging with the next block; the \<open>ASSERT\<close> halts when its header is damaged.\<close>

definition merge_next :: "nat \<Rightarrow> heap \<Rightarrow> panic + heap" where
  "merge_next block s =
     (case bh_next (hdr s block) of
        None \<Rightarrow> Inr s
      | Some n \<Rightarrow>
          if \<not> bh_is_free (hdr s n) then Inr s
          else if bh_magic (hdr s n) \<noteq> HEAP_MAGIC then Inl (Panic ''Heap corruption: Invalid magic in next block'')
          else
            let s1 = remove_from_free_list (Some n) s;
                s2 = set_hdr block (\<lambda>h. h\<lparr>bh_size := add64 (bh_size h) (add64 HDR (bh_size (hdr s1 n)))\<rparr>) s1;
                s3 = set_hdr block (\<lambda>h. h\<lparr>bh_next := bh_next (hdr s2 n)\<rparr>) s2
            in Inr (case bh_next (hdr s3 block) of
                      None \<Rightarrow> s3
                    | Some m \<Rightarrow> set_hdr m (\<lambda>h. h\<lparr>bh_prev := Some block\<rparr>) s3))"

definition merge_prev :: "nat \<Rightarrow> heap \<Rightarrow> panic + heap" where
  "merge_prev block s =
     (case bh_prev (hdr s block) of
        None \<Rightarrow> Inr (add_to_free_list (Some block) s)
      | Some p \<Rightarrow>
          if \<not> bh_is_free (hdr s p) then Inr (add_to_free_list (Some block) s)
          else if bh_magic (hdr s p) \<noteq> HEAP_MAGIC then Inl (Panic ''Heap corruption: Invalid magic in prev block'')
          else
            let s1 = remove_from_free_list (Some p) s;
                s2 = set_hdr p (\<lambda>h. h\<lparr>bh_size := add64 (bh_size h) (add64 HDR (bh_size (hdr s1 block)))\<rparr>) s1;
                s3 = set_hdr p (\<lambda>h. h\<lparr>bh_next := bh_next (hdr s2 block)\<rparr>) s2;
                s4 = (case bh_next (hdr s3 block) of
                        None \<Rightarrow> s3
                      | Some m \<Rightarrow> set_hdr m (\<lambda>h. h\<lparr>bh_prev := Some p\<rparr>) s3)
            in Inr (add_to_free_list (Some p) s4))"

definition kfree_impl :: "nat option \<Rightarrow> heap \<Rightarrow> panic + heap" where
  "kfree_impl pt s =
     (case (pt, heap_start s) of
        (Some ptr, Some start) \<Rightarrow>
          let block = sub64 ptr HDR; h = hdr s block in
          if block < start \<or> block \<ge> add64 start (memory_total s)
            then Inl (Panic ''Heap corruption detected: Invalid kfree address out of bounds'')
          else if bh_magic h \<noteq> HEAP_MAGIC then Inl (Panic ''Heap corruption detected: Invalid magic number'')
          else if bh_is_free h then Inl (Panic ''Heap corruption detected: Double free'')
          else if footer_at s (footer_addr block (bh_size h)) \<noteq> HEAP_FOOTER_MAGIC
            then Inl (Panic ''Heap corruption detected: Invalid footer magic number'')
          else
            let s1 = set_hdr block (\<lambda>h. h\<lparr>bh_is_free := True\<rparr>) s;
                s2 = s1\<lparr>memory_used := sub64 (memory_used s1) (add64 (bh_size h) HDR)\<rparr>
            in (case merge_next block s2 of Inl e \<Rightarrow> Inl e | Inr s3 \<Rightarrow> merge_prev block s3)
      | _ \<Rightarrow> Inr s)"

definition kfree :: "nat option \<Rightarrow> heap \<Rightarrow> panic + heap" where
  "kfree pt s = (if pt = None then Inr s else kfree_impl pt s)"

section \<open>The other entry points\<close>

definition heap_fill :: "nat \<Rightarrow> nat \<Rightarrow> u8 \<Rightarrow> heap \<Rightarrow> heap" where
  "heap_fill a n v s = s\<lparr>payload := (\<lambda>x. if a \<le> x \<and> x < a + n then v else payload s x)\<rparr>"

definition heap_copy :: "nat \<Rightarrow> nat \<Rightarrow> nat \<Rightarrow> heap \<Rightarrow> heap" where
  "heap_copy d a n s = s\<lparr>payload := (\<lambda>x. if d \<le> x \<and> x < d + n then payload s (a + (x - d)) else payload s x)\<rparr>"

definition kcalloc :: "nat \<Rightarrow> nat \<Rightarrow> heap \<Rightarrow> (panic + (nat option \<times> heap)) option" where
  "kcalloc num sz s =
     (if num > 0 \<and> sz > UINT64_MAX div num then Some (Inr (None, s))
      else
        let tot = mul64 num sz in do {
          r \<leftarrow> kmalloc tot s;
          Some (case r of
            Inr (Some ptr, s1) \<Rightarrow> Inr (Some ptr, heap_fill ptr tot 0 s1)
          | _ \<Rightarrow> r)
        })"

definition krealloc :: "nat option \<Rightarrow> nat \<Rightarrow> heap \<Rightarrow> (panic + (nat option \<times> heap)) option" where
  "krealloc pt sz s =
     (case pt of
        None \<Rightarrow> kmalloc sz s
      | Some ptr \<Rightarrow>
          if sz = 0 then Some (case kfree_impl pt s of Inl e \<Rightarrow> Inl e | Inr s1 \<Rightarrow> Inr (None, s1))
          else
            let block = sub64 ptr HDR in
            if bh_magic (hdr s block) \<noteq> HEAP_MAGIC then Some (Inl (Panic ''Heap corruption detected during krealloc''))
            else if bh_size (hdr s block) \<ge> sz then Some (Inr (pt, s))
            else do {
              r \<leftarrow> kmalloc_impl sz s;
              Some (case r of
                Inr (Some new_ptr, s1) \<Rightarrow>
                  (case kfree_impl pt (heap_copy new_ptr ptr (bh_size (hdr s1 block)) s1) of
                     Inl e \<Rightarrow> Inl e
                   | Inr s2 \<Rightarrow> Inr (Some new_ptr, s2))
              | _ \<Rightarrow> r)
            })"

text \<open>
  The integrity check; it returns unless it halts. It reads the last word of every block, also of the free
  ones, where the word is no footer but whatever is in memory there: \<open>word_at\<close> is the memory as 32-bit words.
\<close>

partial_function (option) verify_loop :: "(nat \<Rightarrow> u32) \<Rightarrow> heap \<Rightarrow> nat option \<Rightarrow> (panic + unit) option" where
  "verify_loop word_at s cur =
     (case cur of
        None \<Rightarrow> Some (Inr ())
      | Some c \<Rightarrow>
          if bh_magic (hdr s c) \<noteq> HEAP_MAGIC then Some (Inl (Panic ''Heap corruption: Bad magic number in block''))
          else if word_at (footer_addr c (bh_size (hdr s c))) \<noteq> HEAP_FOOTER_MAGIC
            then Some (Inl (Panic ''Heap corruption: Bad footer magic number in block''))
          else if (case bh_next (hdr s c) of None \<Rightarrow> False | Some n \<Rightarrow> bh_prev (hdr s n) \<noteq> Some c)
            then Some (Inl (Panic ''Heap corruption: Linked list structure broken''))
          else verify_loop word_at s (bh_next (hdr s c)))"

definition mm_verify_heap :: "(nat \<Rightarrow> u32) \<Rightarrow> heap \<Rightarrow> (panic + unit) option" where
  "mm_verify_heap word_at s =
     (if heap_start s = None \<or> \<not> mm_initialized s then Some (Inr ()) else verify_loop word_at s (heap_start s))"

definition mm_get_total_memory :: "heap \<Rightarrow> nat" where
  "mm_get_total_memory s = memory_total s"

definition mm_get_used_memory :: "heap \<Rightarrow> nat" where
  "mm_get_used_memory s = memory_used s"

end
