(* ===== verification/HeapInv.thy ===== *)
theory HeapInv
  imports Heap
begin

text \<open>
  The invariant of the heap and what the steps of \<open>Heap\<close> do to it: the blocks tile the region, the free ones
  are exactly those in the free lists, each in the list of its size, and no two free blocks are neighbours.
\<close>

section \<open>Views of the state\<close>

definition bsz :: "heap \<Rightarrow> nat \<Rightarrow> nat" where "bsz s b = bh_size (hdr s b)"
definition bfree :: "heap \<Rightarrow> nat \<Rightarrow> bool" where "bfree s b = bh_is_free (hdr s b)"
definition bnx :: "heap \<Rightarrow> nat \<Rightarrow> nat option" where "bnx s b = bh_next (hdr s b)"
definition bpv :: "heap \<Rightarrow> nat \<Rightarrow> nat option" where "bpv s b = bh_prev (hdr s b)"
definition bmagic :: "heap \<Rightarrow> nat \<Rightarrow> bool" where "bmagic s b \<longleftrightarrow> bh_magic (hdr s b) = HEAP_MAGIC"

lemmas views = bsz_def bfree_def bnx_def bpv_def bmagic_def

lemma node_views [simp]:
  "nx_free (set_next_free b p s) = (nx_free s)(b := p)" "pv_free (set_next_free b p s) = pv_free s"
  "nx_free (set_prev_free b p s) = nx_free s" "pv_free (set_prev_free b p s) = (pv_free s)(b := p)"
  by (auto simp: fun_eq_iff nx_free_def pv_free_def set_next_free_def set_prev_free_def get_free_node_def)

lemma node_frame [simp]:
  "hdr (set_next_free b p s) = hdr s" "hdr (set_prev_free b p s) = hdr s" "hdr (set_bucket i p s) = hdr s"
  "free_buckets (set_next_free b p s) = free_buckets s" "free_buckets (set_prev_free b p s) = free_buckets s"
  "free_buckets (set_bucket i p s) = (free_buckets s)(i := p)"
  "nx_free (set_bucket i p s) = nx_free s" "pv_free (set_bucket i p s) = pv_free s"
  "nx_free (set_hdr b f s) = nx_free s" "pv_free (set_hdr b f s) = pv_free s" "free_buckets (set_hdr b f s) = free_buckets s"
  by (auto simp: fun_eq_iff nx_free_def pv_free_def set_next_free_def set_prev_free_def set_bucket_def set_hdr_def)

lemma hdr_set_hdr [simp]: "hdr (set_hdr b f s) = (hdr s)(b := f (hdr s b))"
  by (simp add: set_hdr_def)

text \<open>What neither the headers nor the free lists touch.\<close>

definition same_rest :: "heap \<Rightarrow> heap \<Rightarrow> bool" where
  "same_rest s s' \<longleftrightarrow> heap_start s' = heap_start s \<and> memory_total s' = memory_total s \<and> mm_initialized s' = mm_initialized s \<and>
     footer_at s' = footer_at s \<and> payload s' = payload s \<and> memory_used s' = memory_used s"

lemma same_rest_simps [simp]:
  "same_rest s s" "same_rest s (set_next_free b p s') = same_rest s s'" "same_rest s (set_prev_free b p s') = same_rest s s'"
  "same_rest s (set_bucket i p s') = same_rest s s'" "same_rest s (set_hdr b f s') = same_rest s s'"
  by (simp_all add: same_rest_def set_next_free_def set_prev_free_def set_bucket_def set_hdr_def)

section \<open>The free lists\<close>

definition flists :: "heap \<Rightarrow> (nat \<Rightarrow> nat list) \<Rightarrow> nat set \<Rightarrow> bool" where
  "flists s fl F \<longleftrightarrow> (\<forall>i. dll (nx_free s) (pv_free s) (fl i) \<and> free_buckets s i = first_or (fl i) None \<and>
     set (fl i) = {b \<in> F. get_bucket_index (bsz s b) = i})"

lemma flists_cong:
  assumes "flists s fl F" "nx_free s' = nx_free s" "pv_free s' = pv_free s" "free_buckets s' = free_buckets s"
    "\<And>b. b \<in> F \<Longrightarrow> bsz s' b = bsz s b"
  shows "flists s' fl F"
proof -
  have "{b \<in> F. get_bucket_index (bsz s' b) = i} = {b \<in> F. get_bucket_index (bsz s b) = i}" for i using assms(5) by auto
  then show ?thesis using assms(1-4) by (simp add: flists_def)
qed

lemma add_free_ok:
  assumes "flists s fl F" "b \<notin> F" "bfree s b" "i = get_bucket_index (bsz s b)" "s' = add_to_free_list (Some b) s"
  shows "flists s' (fl(i := b # fl i)) (insert b F)" "hdr s' = hdr s" "same_rest s s'"
proof -
  have fr: "bh_is_free (hdr s b)" using assms(3) by (simp add: bfree_def)
  have fi: "dll (nx_free s) (pv_free s) (fl j)" "free_buckets s j = first_or (fl j) None"
    "set (fl j) = {b \<in> F. get_bucket_index (bsz s b) = j}" for j using assms(1) by (simp_all add: flists_def)
  have i: "i = get_bucket_index (bh_size (hdr s b))" using assms(4) by (simp add: bsz_def)
  have bi: "b \<notin> set (fl j)" for j using fi(3) assms(2) by auto
  have s': "s' = set_bucket i (Some b)
      (case free_buckets s i of None \<Rightarrow> set_prev_free b None (set_next_free b (free_buckets s i) s)
       | Some h \<Rightarrow> set_prev_free h (Some b) (set_prev_free b None (set_next_free b (free_buckets s i) s)))"
    unfolding assms(5) i add_to_free_list_def Let_def using fr by simp
  show h: "hdr s' = hdr s" and "same_rest s s'" unfolding s' by (simp_all split: option.splits)
  have hb: "first_or (fl i) None = Some h \<Longrightarrow> h \<noteq> b" for h using first_or_mem bi by metis
  have nx: "nx_free s' = (nx_free s)(b := first_or (fl i) None)"
    unfolding s' fi(2) by (simp split: option.splits)
  have pv: "pv_free s' = (relink (pv_free s) (first_or (fl i) None) (Some b))(b := None)"
    unfolding s' fi(2) using hb by (auto split: option.splits simp: fun_eq_iff)
  have fb: "free_buckets s' = (free_buckets s)(i := Some b)" unfolding s' by (simp split: option.splits)
  have di: "dll (nx_free s') (pv_free s') (b # fl i)"
    unfolding nx pv using dll_insert [of "nx_free s" "pv_free s" "[]" "fl i" b] fi(1) bi by simp
  have dj: "dll (nx_free s') (pv_free s') (fl j)" if "j \<noteq> i" for j
  proof (subst dll_cong [of _ _ "nx_free s" _ "pv_free s"])
    fix x assume x: "x \<in> set (fl j)"
    have "x \<noteq> b" using bi x by auto
    moreover have "first_or (fl i) None \<noteq> Some x" using first_or_mem [of "fl i" x] fi(3) that x by auto
    ultimately show "nx_free s' x = nx_free s x \<and> pv_free s' x = pv_free s x"
      unfolding nx pv by (cases "first_or (fl i) None") auto
  qed (rule fi(1))
  have sz: "bsz s' = bsz s" using h by (simp add: bsz_def fun_eq_iff)
  show "flists s' (fl(i := b # fl i)) (insert b F)"
    unfolding flists_def using di dj fb fi(2,3) assms(4) sz by auto
qed

lemma remove_free_ok:
  assumes "flists s fl F" "b \<in> F" "bfree s b" "s' = remove_from_free_list (Some b) s"
  shows "\<exists>fl'. flists s' fl' (F - {b})" "hdr s' = hdr s" "same_rest s s'"
proof -
  have fr: "bh_is_free (hdr s b)" using assms(3) by (simp add: bfree_def)
  define i where "i = get_bucket_index (bsz s b)"
  have fi: "dll (nx_free s) (pv_free s) (fl j)" "free_buckets s j = first_or (fl j) None"
    "set (fl j) = {b \<in> F. get_bucket_index (bsz s b) = j}" for j using assms(1) by (simp_all add: flists_def)
  have "b \<in> set (fl i)" using fi(3) assms(2) by (simp add: i_def)
  then obtain as cs where sp: "fl i = as @ b # cs" by (meson split_list)
  have d: "dll (nx_free s) (pv_free s) (as @ b # cs)" using fi(1) [of i] sp by simp
  note pt = dll_ptrs [OF d]
  have dist: "distinct (as @ b # cs)" using d by (simp add: dll_def)
  have la: "last_or as None = Some x \<Longrightarrow> x \<in> set as" for x by (rule last_or_mem)
  have fc: "first_or cs None = Some x \<Longrightarrow> x \<in> set cs" for x by (rule first_or_mem)
  let ?s1 = "case pv_free s b of Some p \<Rightarrow> set_next_free p (nx_free s b) s | None \<Rightarrow> set_bucket i (nx_free s b) s"
  let ?s2 = "case nx_free ?s1 b of Some n \<Rightarrow> set_prev_free n (pv_free ?s1 b) ?s1 | None \<Rightarrow> ?s1"
  have s': "s' = set_prev_free b None (set_next_free b None ?s2)"
    unfolding assms(4) i_def bsz_def remove_from_free_list_def Let_def using fr by simp
  have pb: "pv_free s b = Some p \<Longrightarrow> p \<noteq> b" for p using pt(1) la dist by fastforce
  have n1: "nx_free ?s1 b = nx_free s b" "pv_free ?s1 = pv_free s" using pb by (auto split: option.splits)
  show h: "hdr s' = hdr s" and "same_rest s s'" unfolding s' n1 by (simp_all split: option.splits)
  have nx: "nx_free s' = (relink (nx_free s) (last_or as None) (first_or cs None))(b := None)"
    unfolding s' n1 unfolding pt by (simp split: option.splits)
  have pv: "pv_free s' = (relink (pv_free s) (first_or cs None) (last_or as None))(b := None)"
    unfolding s' n1 unfolding pt by (auto split: option.splits)
  have fb: "free_buckets s' = (if as = [] then (free_buckets s)(i := first_or cs None) else free_buckets s)"
    unfolding s' n1 unfolding pt by (cases as rule: rev_cases) (auto split: option.splits)
  have di: "dll (nx_free s') (pv_free s') (as @ cs)" unfolding nx pv by (rule dll_remove [OF d])
  have dj: "dll (nx_free s') (pv_free s') (fl j)" if "j \<noteq> i" for j
  proof (subst dll_cong [of _ _ "nx_free s" _ "pv_free s"])
    fix x assume x: "x \<in> set (fl j)"
    then have "x \<notin> set (fl i)" using fi(3) that by auto
    then have "x \<noteq> b" "last_or as None \<noteq> Some x" "first_or cs None \<noteq> Some x" using sp la fc by auto
    then show "nx_free s' x = nx_free s x \<and> pv_free s' x = pv_free s x"
      unfolding nx pv by (cases "first_or cs None"; cases "last_or as None") auto
  qed (rule fi(1))
  have sz: "bsz s' = bsz s" using h by (simp add: bsz_def fun_eq_iff)
  have si: "set (as @ cs) = {x \<in> F - {b}. get_bucket_index (bsz s x) = i}" using fi(3) [of i] sp dist by auto
  have "flists s' (fl(i := as @ cs)) (F - {b})"
    unfolding flists_def
  proof (intro allI)
    fix j
    show "dll (nx_free s') (pv_free s') ((fl(i := as @ cs)) j) \<and> free_buckets s' j = first_or ((fl(i := as @ cs)) j) None \<and>
      set ((fl(i := as @ cs)) j) = {x \<in> F - {b}. get_bucket_index (bsz s' x) = j}"
    proof (cases "j = i")
      case True
      then show ?thesis using di fb si sz fi(2) [of i] sp by (cases as) auto
    next
      case False
      then show ?thesis using dj [OF False] fb fi(2,3) [of j] sz i_def by auto
    qed
  qed
  then show "\<exists>fl'. flists s' fl' (F - {b})" by blast
qed

section \<open>The tiling\<close>

fun tiles :: "(nat \<Rightarrow> nat) \<Rightarrow> nat \<Rightarrow> nat list \<Rightarrow> nat \<Rightarrow> bool" where
  "tiles sz a [] e \<longleftrightarrow> a = e"
| "tiles sz a (b # bs) e \<longleftrightarrow> b = a \<and> tiles sz (a + HDR + sz b) bs e"

lemma tiles_append: "tiles sz a (xs @ ys) e \<longleftrightarrow> (\<exists>m. tiles sz a xs m \<and> tiles sz m ys e)"
  by (induction xs arbitrary: a) auto

lemma tiles_cong: "(\<And>b. b \<in> set bs \<Longrightarrow> sz' b = sz b) \<Longrightarrow> tiles sz' a bs e = tiles sz a bs e"
  by (induction bs arbitrary: a) auto

lemma tiles_upd [simp]: "b \<notin> set bs \<Longrightarrow> tiles (sz(b := v)) a bs e = tiles sz a bs e"
  by (rule tiles_cong) auto

lemma tiles_le: "tiles sz a bs e \<Longrightarrow> a \<le> e"
  by (induction bs arbitrary: a) fastforce+

lemma tiles_range: "tiles sz a bs e \<Longrightarrow> b \<in> set bs \<Longrightarrow> a \<le> b \<and> b + HDR + sz b \<le> e"
proof (induction bs arbitrary: a)
  case (Cons x xs)
  show ?case
  proof (cases "b = x")
    case True
    then show ?thesis using Cons.prems tiles_le [of sz "a + HDR + sz x" xs e] by auto
  next
    case False
    then show ?thesis using Cons.IH [of "a + HDR + sz x"] Cons.prems by auto
  qed
qed simp

lemma tiles_disjoint:
  "tiles sz a bs e \<Longrightarrow> b \<in> set bs \<Longrightarrow> c \<in> set bs \<Longrightarrow> b \<noteq> c \<Longrightarrow> b + HDR + sz b \<le> c \<or> c + HDR + sz c \<le> b"
proof (induction bs arbitrary: a)
  case (Cons x xs)
  have t: "tiles sz (x + HDR + sz x) xs e" using Cons.prems(1) by auto
  consider "b = x" "c \<in> set xs" | "c = x" "b \<in> set xs" | "b \<in> set xs" "c \<in> set xs" using Cons.prems(2-4) by auto
  then show ?case
  proof cases
    case 1
    then show ?thesis using tiles_range [OF t, of c] by auto
  next
    case 2
    then show ?thesis using tiles_range [OF t, of b] by auto
  next
    case 3
    then show ?thesis using Cons.IH [OF t] Cons.prems(4) by blast
  qed
qed simp

lemma tiles_inside: "tiles sz a bs e \<Longrightarrow> b \<in> set bs \<Longrightarrow> b < x \<Longrightarrow> x < b + HDR + sz b \<Longrightarrow> x \<notin> set bs"
  using tiles_disjoint [of sz a bs e b x] by (auto simp: HDR_def)

text \<open>Splitting the block \<open>b\<close> and merging it with the one after it.\<close>

lemma tiles_split:
  assumes "tiles sz a (as @ b # cs) e" "distinct (as @ b # cs)" "sz b = k + HDR + r" "n = b + HDR + k"
  shows "tiles (sz(b := k, n := r)) a (as @ b # n # cs) e" "n \<notin> set (as @ b # cs)"
proof -
  show n: "n \<notin> set (as @ b # cs)"
    using tiles_inside [OF assms(1), of b n] assms(3,4) by (simp add: HDR_def)
  obtain m where m: "tiles sz a as m" "m = b" "tiles sz (b + HDR + sz b) cs e" using assms(1) by (auto simp: tiles_append)
  have "tiles (sz(b := k, n := r)) a as b" using m(1,2) assms(2) n by simp
  moreover have "tiles (sz(b := k, n := r)) (b + HDR + sz b) cs e"
    using m(3) assms(2) n by simp
  moreover have "b + HDR + sz b = n + HDR + r" "n \<noteq> b" using assms(3,4) by (simp_all add: HDR_def)
  ultimately show "tiles (sz(b := k, n := r)) a (as @ b # n # cs) e" using assms(4) by (auto simp: tiles_append)
qed

lemma tiles_merge:
  assumes "tiles sz a (as @ b # n # cs) e" "distinct (as @ b # n # cs)"
  shows "tiles (sz(b := sz b + HDR + sz n)) a (as @ b # cs) e" "n = b + HDR + sz b"
proof -
  let ?sz = "sz(b := sz b + HDR + sz n)"
  have m: "tiles sz a as b" "n = b + HDR + sz b" "tiles sz (n + HDR + sz n) cs e" using assms(1) by (auto simp: tiles_append)
  show "n = b + HDR + sz b" by (rule m(2))
  have "tiles ?sz a as b" using m(1) assms(2) by simp
  moreover have "tiles ?sz (n + HDR + sz n) cs e" using m(3) assms(2) by simp
  ultimately show "tiles ?sz a (as @ b # cs) e" using m(2) by (auto simp: tiles_append add.assoc)
qed

text \<open>No two neighbours are free.\<close>

fun coalesced :: "(nat \<Rightarrow> bool) \<Rightarrow> nat list \<Rightarrow> bool" where
  "coalesced fr (b # c # bs) \<longleftrightarrow> \<not> (fr b \<and> fr c) \<and> coalesced fr (c # bs)"
| "coalesced fr bs \<longleftrightarrow> True"

lemma coalesced_append: "coalesced fr (as @ b # cs) \<longleftrightarrow> coalesced fr (as @ [b]) \<and> coalesced fr (b # cs)"
  by (induction as rule: induct_list012) (auto simp: neq_Nil_conv)

lemma coalesced_cong: "(\<And>b. b \<in> set bs \<Longrightarrow> fr' b = fr b) \<Longrightarrow> coalesced fr' bs = coalesced fr bs"
  by (induction fr bs rule: coalesced.induct) auto

lemma coalesced_upd [simp]: "b \<notin> set bs \<Longrightarrow> coalesced (fr(b := x)) bs = coalesced fr bs"
  by (rule coalesced_cong) auto

lemma coalesced_ends:
  "coalesced fr (as @ [b]) \<longleftrightarrow> coalesced fr as \<and> (as \<noteq> [] \<longrightarrow> \<not> (fr (last as) \<and> fr b))"
  "coalesced fr (b # cs) \<longleftrightarrow> coalesced fr cs \<and> (cs \<noteq> [] \<longrightarrow> \<not> (fr b \<and> fr (hd cs)))"
  by (induction as rule: induct_list012, auto) (cases cs; auto)+

lemma coalesced_mid:
  "coalesced fr (as @ b # cs) \<longleftrightarrow> coalesced fr as \<and> coalesced fr cs \<and> (as \<noteq> [] \<longrightarrow> \<not> (fr (last as) \<and> fr b)) \<and>
     (cs \<noteq> [] \<longrightarrow> \<not> (fr b \<and> fr (hd cs)))"
  by (subst coalesced_append) (auto simp: coalesced_ends)

text \<open>The bytes taken by the blocks in use.\<close>

definition used_bytes :: "(nat \<Rightarrow> nat) \<Rightarrow> (nat \<Rightarrow> bool) \<Rightarrow> nat list \<Rightarrow> nat" where
  "used_bytes sz fr bs = sum_list (map (\<lambda>b. if fr b then 0 else sz b + HDR) bs)"

lemma used_bytes_cong:
  "(\<And>b. b \<in> set bs \<Longrightarrow> fr' b = fr b \<and> sz' b = sz b) \<Longrightarrow> used_bytes sz' fr' bs = used_bytes sz fr bs"
  unfolding used_bytes_def by (rule arg_cong [where f = sum_list]) auto

lemma used_bytes_upd [simp]: "b \<notin> set bs \<Longrightarrow> used_bytes (sz(b := v)) fr bs = used_bytes sz fr bs"
  "b \<notin> set bs \<Longrightarrow> used_bytes sz (fr(b := x)) bs = used_bytes sz fr bs"
  by (rule used_bytes_cong; auto)+

lemma used_bytes_append [simp]: "used_bytes sz fr (xs @ ys) = used_bytes sz fr xs + used_bytes sz fr ys"
  "used_bytes sz fr (b # xs) = (if fr b then 0 else sz b + HDR) + used_bytes sz fr xs" "used_bytes sz fr [] = 0"
  by (simp_all add: used_bytes_def)

lemma used_bytes_le: "tiles sz a bs e \<Longrightarrow> used_bytes sz fr bs \<le> e - a"
proof (induction bs arbitrary: a)
  case (Cons x xs)
  have "a + HDR + sz x \<le> e" using Cons.prems tiles_le [of sz "a + HDR + sz x" xs e] by auto
  then show ?case using Cons.IH [of "a + HDR + sz x"] Cons.prems by auto
qed simp

section \<open>The invariant\<close>

definition block_ok :: "heap \<Rightarrow> nat \<Rightarrow> bool" where
  "block_ok s b \<longleftrightarrow> bmagic s b \<and> 8 dvd b \<and> NODE \<le> bsz s b"

definition blocks_ok :: "heap \<Rightarrow> nat list \<Rightarrow> bool" where
  "blocks_ok s bs \<longleftrightarrow> bs \<noteq> [] \<and> heap_start s = Some (hd bs) \<and> dll (bnx s) (bpv s) bs \<and>
     tiles (bsz s) (hd bs) bs (hd bs + memory_total s) \<and> (\<forall>b \<in> set bs. block_ok s b) \<and>
     8 dvd hd bs \<and> NODE \<le> hd bs \<and> hd bs + memory_total s < 2 ^ 64 \<and> mm_initialized s"

text \<open>The blocks in use, with their sizes.\<close>

definition allocated :: "heap \<Rightarrow> nat list \<Rightarrow> nat \<Rightarrow> nat option" where
  "allocated s bs b = (if b \<in> set bs \<and> \<not> bfree s b then Some (bsz s b) else None)"

definition heap_ok :: "heap \<Rightarrow> nat list \<Rightarrow> bool" where
  "heap_ok s bs \<longleftrightarrow> blocks_ok s bs \<and> (\<exists>fl. flists s fl {b \<in> set bs. bfree s b}) \<and> coalesced (bfree s) bs \<and>
     (\<forall>b n. allocated s bs b = Some n \<longrightarrow> footer_at s (b + HDR + n - 4) = HEAP_FOOTER_MAGIC) \<and>
     memory_used s = used_bytes (bsz s) (bfree s) bs"

lemma heap_okI:
  assumes "blocks_ok s bs" "flists s fl {b \<in> set bs. bfree s b}"
    "\<And>b n. allocated s bs b = Some n \<Longrightarrow> footer_at s (b + HDR + n - 4) = HEAP_FOOTER_MAGIC"
    "coalesced (bfree s) bs" "memory_used s = used_bytes (bsz s) (bfree s) bs"
  shows "heap_ok s bs"
  unfolding heap_ok_def using assms by blast

lemma blocks_bounds:
  assumes "blocks_ok s bs" "b \<in> set bs"
  shows "hd bs \<le> b" "b + HDR + bsz s b \<le> hd bs + memory_total s" "b + HDR + bsz s b < 2 ^ 64" "NODE \<le> bsz s b" "8 dvd b" "bmagic s b"
  using tiles_range [of "bsz s" "hd bs" bs "hd bs + memory_total s" b] assms by (auto simp: blocks_ok_def block_ok_def)

text \<open>The views after a change of one header.\<close>

lemma set_hdr_views:
  "bsz (set_hdr b f s) = (bsz s)(b := bh_size (f (hdr s b)))" "bfree (set_hdr b f s) = (bfree s)(b := bh_is_free (f (hdr s b)))"
  "bnx (set_hdr b f s) = (bnx s)(b := bh_next (f (hdr s b)))" "bpv (set_hdr b f s) = (bpv s)(b := bh_prev (f (hdr s b)))"
  "bmagic (set_hdr b f s) = (bmagic s)(b := (bh_magic (f (hdr s b)) = HEAP_MAGIC))"
  by (auto simp: views fun_eq_iff)

lemma views_cong: "hdr s' = hdr s \<Longrightarrow> bsz s' = bsz s \<and> bfree s' = bfree s \<and> bnx s' = bnx s \<and> bpv s' = bpv s \<and> bmagic s' = bmagic s"
  by (auto simp: views fun_eq_iff)

lemma blocks_cong:
  assumes "blocks_ok s bs" "same_rest s s'" "bsz s' = bsz s" "bnx s' = bnx s" "bpv s' = bpv s" "bmagic s' = bmagic s"
  shows "blocks_ok s' bs"
  using assms by (simp add: blocks_ok_def same_rest_def block_ok_def)

section \<open>Splitting and merging blocks\<close>

text \<open>The header changes of a split, before the new block enters its free list.\<close>

definition split_hdrs :: "nat \<Rightarrow> nat \<Rightarrow> nat \<Rightarrow> heap \<Rightarrow> heap" where
  "split_hdrs b k n s =
     (let s1 = set_hdr n (\<lambda>_. \<lparr>bh_size = bsz s b - k - HDR, bh_magic = HEAP_MAGIC, bh_is_free = True, bh_next = bnx s b,
                 bh_prev = Some b\<rparr>) s;
          s2 = (case bnx s b of None \<Rightarrow> s1 | Some m \<Rightarrow> set_hdr m (\<lambda>h. h\<lparr>bh_prev := Some n\<rparr>) s1)
      in set_hdr b (\<lambda>h. h\<lparr>bh_size := k, bh_next := Some n\<rparr>) s2)"

lemma split_views:
  assumes "n \<noteq> b" "bnx s b \<noteq> Some n" "bnx s b \<noteq> Some b" "s' = split_hdrs b k n s"
  shows "bsz s' = (bsz s)(b := k, n := bsz s b - k - HDR)" "bfree s' = (bfree s)(n := True)"
    "bnx s' = (bnx s)(b := Some n, n := bnx s b)" "bpv s' = (relink (bpv s) (bnx s b) (Some n))(n := Some b)"
    "bmagic s' = (bmagic s)(n := True)" "same_rest s s'" "nx_free s' = nx_free s" "pv_free s' = pv_free s" "free_buckets s' = free_buckets s"
  unfolding assms(4) split_hdrs_def Let_def using assms(1-3)
  by (cases "bnx s b"; auto simp: set_hdr_views fun_eq_iff views)+

lemma split_blocks_ok:
  assumes "blocks_ok s (as @ b # cs)" "bsz s b = k + HDR + r" "n = b + HDR + k" "8 dvd k" "NODE \<le> k" "NODE \<le> r" "s' = split_hdrs b k n s"
  shows "blocks_ok s' (as @ b # n # cs)" "n \<notin> set (as @ b # cs)" "n \<noteq> b" "bnx s b \<noteq> Some n" "bnx s b \<noteq> Some b"
proof -
  let ?bs = "as @ b # cs"
  have B: "heap_start s = Some (hd ?bs)" "dll (bnx s) (bpv s) ?bs" "tiles (bsz s) (hd ?bs) ?bs (hd ?bs + memory_total s)"
    "\<forall>x \<in> set ?bs. block_ok s x" "8 dvd hd ?bs" "NODE \<le> hd ?bs" "hd ?bs + memory_total s < 2 ^ 64" "mm_initialized s"
    using assms(1) by (auto simp: blocks_ok_def)
  have d: "distinct ?bs" using B(2) by (simp add: dll_def)
  note ts = tiles_split [OF B(3) d assms(2,3)]
  show nb: "n \<notin> set ?bs" by (rule ts(2))
  show ne: "n \<noteq> b" using nb by auto
  note pt = dll_ptrs [OF B(2)]
  have fc: "first_or cs None = Some x \<Longrightarrow> x \<in> set cs" for x by (rule first_or_mem)
  show m: "bnx s b \<noteq> Some n" "bnx s b \<noteq> Some b" using pt(2) fc nb d by auto
  note v = split_views [OF ne m assms(7)]
  have "8 dvd b" using B(4) by (simp add: block_ok_def)
  then have "8 dvd n" using assms(3,4) unfolding HDR_def by presburger
  moreover have "bsz s b - k - HDR = r" using assms(2) by simp
  ultimately have "\<forall>x \<in> set (as @ b # n # cs). block_ok s' x"
    using B(4) assms(4,5,6) ne v(1,5) by (auto simp: block_ok_def)
  moreover have "dll (bnx s') (bpv s') ((as @ [b]) @ n # cs)"
  proof -
    have "dll ((relink (bnx s) (last_or (as @ [b]) None) (Some n))(n := first_or cs None))
        ((relink (bpv s) (first_or cs None) (Some n))(n := last_or (as @ [b]) None)) ((as @ [b]) @ n # cs)"
      by (rule dll_insert) (use B(2) nb in auto)
    then show ?thesis using v(3,4) pt(2) by simp
  qed
  moreover have "tiles (bsz s') (hd ?bs) (as @ b # n # cs) (hd ?bs + memory_total s)"
    using ts(1) v(1) \<open>bsz s b - k - HDR = r\<close> by simp
  moreover have "hd (as @ b # n # cs) = hd ?bs" by (cases as) simp_all
  ultimately show "blocks_ok s' (as @ b # n # cs)"
    using B(1,5-8) v(6) by (simp add: blocks_ok_def same_rest_def)
qed

text \<open>The header changes of a merge of \<open>b\<close> with the block \<open>n\<close> after it.\<close>

definition merge_hdrs :: "nat \<Rightarrow> nat \<Rightarrow> heap \<Rightarrow> heap" where
  "merge_hdrs b n s =
     (let s1 = set_hdr b (\<lambda>h. h\<lparr>bh_size := bsz s b + HDR + bsz s n, bh_next := bnx s n\<rparr>) s
      in case bnx s n of None \<Rightarrow> s1 | Some m \<Rightarrow> set_hdr m (\<lambda>h. h\<lparr>bh_prev := Some b\<rparr>) s1)"

lemma merge_views:
  assumes "n \<noteq> b" "bnx s n \<noteq> Some b" "s' = merge_hdrs b n s"
  shows "bsz s' = (bsz s)(b := bsz s b + HDR + bsz s n)" "bfree s' = bfree s" "bnx s' = (bnx s)(b := bnx s n)"
    "bpv s' = relink (bpv s) (bnx s n) (Some b)" "bmagic s' = bmagic s" "same_rest s s'"
    "nx_free s' = nx_free s" "pv_free s' = pv_free s" "free_buckets s' = free_buckets s"
  unfolding assms(3) merge_hdrs_def Let_def using assms(1,2)
  by (cases "bnx s n"; auto simp: set_hdr_views fun_eq_iff views)+

lemma merge_blocks_ok:
  assumes "blocks_ok s (as @ b # n # cs)" "s' = merge_hdrs b n s"
  shows "blocks_ok s' (as @ b # cs)" "n \<noteq> b" "bnx s n \<noteq> Some b"
    "bsz s b + HDR + bsz s n < 2 ^ 64" "bnx s b = Some n" "bpv s n = Some b"
proof -
  let ?bs = "as @ b # n # cs"
  have B: "heap_start s = Some (hd ?bs)" "dll (bnx s) (bpv s) ?bs" "tiles (bsz s) (hd ?bs) ?bs (hd ?bs + memory_total s)"
    "\<forall>x \<in> set ?bs. block_ok s x" "8 dvd hd ?bs" "NODE \<le> hd ?bs" "hd ?bs + memory_total s < 2 ^ 64" "mm_initialized s"
    using assms(1) by (auto simp: blocks_ok_def)
  have d: "distinct ?bs" using B(2) by (simp add: dll_def)
  show ne: "n \<noteq> b" using d by auto
  have d2: "dll (bnx s) (bpv s) ((as @ [b]) @ n # cs)" using B(2) by simp
  note pt = dll_ptrs [OF d2] dll_ptrs [OF B(2)]
  have fc: "first_or cs None = Some x \<Longrightarrow> x \<in> set cs" for x by (rule first_or_mem)
  show m: "bnx s n \<noteq> Some b" using pt(2) fc d by auto
  show "bnx s b = Some n" "bpv s n = Some b" using pt by simp_all
  note v = merge_views [OF ne m assms(2)]
  note tm = tiles_merge [OF B(3) d]
  have "n + HDR + bsz s n < 2 ^ 64" using blocks_bounds(3) [OF assms(1), of n] by simp
  then show "bsz s b + HDR + bsz s n < 2 ^ 64" using tm(2) by simp
  have "\<forall>x \<in> set (as @ b # cs). block_ok s' x" using B(4) v(1,5) by (auto simp: block_ok_def)
  moreover have "dll (bnx s') (bpv s') (as @ b # cs)"
  proof -
    have "dll ((relink (bnx s) (last_or (as @ [b]) None) (first_or cs None))(n := None))
        ((relink (bpv s) (first_or cs None) (last_or (as @ [b]) None))(n := None)) ((as @ [b]) @ cs)"
      by (rule dll_remove [OF d2])
    moreover have "n \<notin> set (as @ b # cs)" using d by auto
    ultimately show ?thesis using v(3,4) pt(2) by (subst dll_cong) (auto simp: fun_eq_iff)
  qed
  moreover have "hd (as @ b # cs) = hd ?bs" by (cases as) simp_all
  ultimately show "blocks_ok s' (as @ b # cs)"
    using B(1,5-8) v(1,6) tm(1) by (simp add: blocks_ok_def same_rest_def)
qed

section \<open>Allocation\<close>

lemma round8_eq: "n + 7 < 2 ^ 64 \<Longrightarrow> round8 n = (n + 7) div 8 * 8"
  by (simp add: round8_def HEAP_ALIGNMENT_def add64_def)

lemma align_ok:
  assumes "n + 8 < 2 ^ 64"
  shows "n \<le> align n" "8 dvd align n" "NODE \<le> align n" "align n \<le> n + 16"
proof -
  have r: "round8 n = (n + 7) div 8 * 8" "round8 NODE = 16" using assms by (auto simp: round8_eq NODE_def)
  then have a: "align n = max 16 ((n + 7) div 8 * 8)" by (auto simp: align_def Let_def NODE_def)
  have "n \<le> (n + 7) div 8 * 8" "(n + 7) div 8 * 8 < n + 8" by linarith+
  then show "n \<le> align n" "NODE \<le> align n" "align n \<le> n + 16" unfolding a NODE_def by linarith+
  show "8 dvd align n" unfolding a by (auto simp: max_def)
qed

lemma bucket_mono: "a \<le> b \<Longrightarrow> get_bucket_index a \<le> get_bucket_index b"
  by (simp add: get_bucket_index_def)

lemma bucket_bound: "get_bucket_index a < NUM_BUCKETS"
  by (simp add: get_bucket_index_def NUM_BUCKETS_def)

lemma find_fit_list:
  assumes "lseg (nx_free s) (pv_free s) p xs None" "\<And>b. b \<in> set xs \<Longrightarrow> bfree s b \<and> bmagic s b"
  shows "find_fit s k (first_or xs None) = Some (Inr (find (\<lambda>b. k \<le> bsz s b) xs))"
  using assms
proof (induction xs arbitrary: p)
  case Nil
  then show ?case by (simp add: find_fit.simps)
next
  case (Cons x xs)
  have "bh_is_free (hdr s x)" "bh_magic (hdr s x) = HEAP_MAGIC" using Cons.prems(2) [of x] by (simp_all add: views)
  then show ?case using Cons.IH [of "Some x"] Cons.prems by (simp add: find_fit.simps [of s k "Some x"] bsz_def)
qed

text \<open>The search fails only when no free block is large enough.\<close>

lemma bucket_loop_ok:
  assumes "flists s fl F" "\<And>b. b \<in> F \<Longrightarrow> bfree s b \<and> bmagic s b"
  shows "\<exists>r. bucket_loop s k n i = Some (Inr r) \<and>
    (case r of Some b \<Rightarrow> b \<in> F \<and> k \<le> bsz s b
     | None \<Rightarrow> \<forall>b \<in> F. i \<le> get_bucket_index (bsz s b) \<and> get_bucket_index (bsz s b) < i + n \<longrightarrow> bsz s b < k)"
proof (induction n arbitrary: i)
  case 0
  then show ?case by auto
next
  case (Suc n)
  have fi: "lseg (nx_free s) (pv_free s) None (fl i) None" "free_buckets s i = first_or (fl i) None"
    "set (fl i) = {b \<in> F. get_bucket_index (bsz s b) = i}" using assms(1) by (auto simp: flists_def dll_def)
  have f: "find_fit s k (free_buckets s i) = Some (Inr (find (\<lambda>b. k \<le> bsz s b) (fl i)))"
    unfolding fi(2) using find_fit_list [OF fi(1)] assms(2) fi(3) by auto
  show ?case
  proof (cases "find (\<lambda>b. k \<le> bsz s b) (fl i)")
    case (Some b)
    then show ?thesis using f fi(3) find_SomeD [OF Some] by auto
  next
    case None
    obtain r where r: "bucket_loop s k n (Suc i) = Some (Inr r)" "case r of Some b \<Rightarrow> b \<in> F \<and> k \<le> bsz s b
     | None \<Rightarrow> \<forall>b \<in> F. Suc i \<le> get_bucket_index (bsz s b) \<and> get_bucket_index (bsz s b) < Suc i + n \<longrightarrow> bsz s b < k"
      using Suc.IH by blast
    have "bsz s b < k" if "b \<in> F" "get_bucket_index (bsz s b) = i" for b
    proof -
      have "b \<in> set (fl i)" using that fi(3) by simp
      then show ?thesis using None by (auto simp: find_None_iff not_le)
    qed
    then show ?thesis using None f r by (auto split: option.splits simp: less_Suc_eq_le le_Suc_eq) (metis Suc_leI le_neq_implies_less)+
  qed
qed

lemma split_block_eq:
  assumes "b + HDR + bsz s b < 2 ^ 64" "k + HDR + NODE \<le> bsz s b" "n = b + HDR + k"
  shows "split_block b k s = add_to_free_list (Some n) (split_hdrs b k n s)"
proof -
  have a: "add64 (add64 k HDR) NODE = k + HDR + NODE" "add64 (add64 b HDR) k = n" "sub64 (sub64 (bsz s b) k) HDR = bsz s b - k - HDR"
    using assms(1-3) by (simp_all add: wrap_simps HDR_def NODE_def)
  have "k + HDR + NODE \<le> bh_size (hdr s b)" using assms(2) by (simp add: bsz_def)
  then show ?thesis
    unfolding split_block_def split_hdrs_def Let_def views a [unfolded bsz_def]
    by (cases "bh_next (hdr s b)") simp_all
qed

text \<open>Taking a free block: what the steps before the final marking establish.\<close>

lemma split_step_ok:
  assumes "blocks_ok s bs" "flists s fl F" "F = {x \<in> set bs. bfree s x}" "b \<in> F" "k \<le> bsz s b" "8 dvd k" "NODE \<le> k" "coalesced (bfree s) bs"
    "s' = split_block b k (remove_from_free_list (Some b) s)"
  shows "\<exists>bs' fl'. blocks_ok s' bs' \<and> flists s' fl' ({x \<in> set bs'. bfree s' x} - {b}) \<and> b \<in> set bs' \<and> k \<le> bsz s' b \<and>
    bfree s' b \<and> same_rest s s' \<and> coalesced ((bfree s')(b := False)) bs' \<and> set bs \<subseteq> set bs' \<and>
    (\<forall>x. x \<noteq> b \<longrightarrow> allocated s' bs' x = allocated s bs x) \<and>
    used_bytes (bsz s') (bfree s') bs' = used_bytes (bsz s) (bfree s) bs"
proof -
  have b: "b \<in> set bs" "bfree s b" using assms(3,4) by auto
  define s1 where "s1 = remove_from_free_list (Some b) s"
  obtain fl1 where r: "flists s1 fl1 (F - {b})" "hdr s1 = hdr s" "same_rest s s1"
    using remove_free_ok [OF assms(2,4) b(2) s1_def] by blast
  have v: "bsz s1 = bsz s" "bfree s1 = bfree s" "bnx s1 = bnx s" "bpv s1 = bpv s" "bmagic s1 = bmagic s" using views_cong [OF r(2)] by auto
  have B: "blocks_ok s1 bs" by (rule blocks_cong [OF assms(1) r(3)]) (use v in simp_all)
  note bb = blocks_bounds [OF assms(1) b(1)]
  have co: "coalesced ((bfree s)(b := False)) bs" if "coalesced (bfree s) bs" for bs
    using that by (induction "bfree s" bs rule: coalesced.induct) auto
  show ?thesis
  proof (cases "k + HDR + NODE \<le> bsz s b")
    case False
    have "add64 (add64 k HDR) NODE = k + HDR + NODE"
      using bb(1,3) assms(1,5) by (simp add: wrap_simps HDR_def NODE_def blocks_ok_def)
    then have "split_block b k s1 = s1" using False v(1) by (simp add: split_block_def bsz_def fun_eq_iff)
    then have s': "s' = s1" using assms(9) s1_def by simp
    have "{x \<in> set bs. bfree s1 x} - {b} = F - {b}" using assms(3) v(2) by simp
    then show ?thesis using s' B r b assms(5,8) v co by (intro exI [of _ bs] exI [of _ fl1]) (auto simp: allocated_def)
  next
    case True
    define n where "n = b + HDR + k"
    define q where "q = bsz s b - k - HDR"
    define s2 where "s2 = split_hdrs b k n s1"
    obtain as cs where sp: "bs = as @ b # cs" using b(1) by (meson split_list)
    have sz: "bsz s1 b = k + HDR + q" "NODE \<le> q" using True v(1) by (simp_all add: q_def)
    have B1: "blocks_ok s1 (as @ b # cs)" using B sp by simp
    note sb = split_blocks_ok [OF B1 sz(1) n_def assms(6,7) sz(2) s2_def]
    note sv = split_views [OF sb(3,4,5) s2_def]
    have q: "bsz s1 b - k - HDR = q" using v(1) by (simp add: q_def)
    have s': "s' = add_to_free_list (Some n) s2"
      using split_block_eq [of b s1 k n] bb(3) True v(1) n_def assms(9) s1_def s2_def by simp
    have nF: "n \<notin> F" using sb(2) assms(3) sp by auto
    have f2: "flists s2 fl1 (F - {b})"
      by (rule flists_cong [OF r(1) sv(7,8,9)]) (use sv(1) nF in auto)
    have fn: "bfree s2 n" using sv(2) by simp
    obtain fl2 where ad: "flists s' fl2 (insert n (F - {b}))" "hdr s' = hdr s2" "same_rest s2 s'"
      using add_free_ok [OF f2 _ fn refl s'] nF by auto
    have v': "bsz s' = (bsz s)(b := k, n := q)" "bfree s' = (bfree s)(n := True)" "bnx s' = bnx s2" "bpv s' = bpv s2" "bmagic s' = bmagic s2"
      using views_cong [OF ad(2)] sv(1,2) v q by auto
    have d: "distinct bs" using assms(1) by (simp add: blocks_ok_def dll_def)
    have nb: "n \<notin> set as" "n \<notin> set cs" "n \<noteq> b" "b \<notin> set as" "b \<notin> set cs" using sb(2) d sp by auto
    have B': "blocks_ok s' (as @ b # n # cs)"
      by (rule blocks_cong [OF sb(1) ad(3)]) (use views_cong [OF ad(2)] in auto)
    have F': "{x \<in> set (as @ b # n # cs). bfree s' x} - {b} = insert n (F - {b})" using assms(3) sp v'(2) nb by auto
    have "coalesced ((bfree s')(b := False)) (as @ b # n # cs)"
    proof -
      have "coalesced (bfree s) (as @ b # cs)" using assms(8) sp by simp
      then have c: "coalesced (bfree s) as" "coalesced (bfree s) cs" "cs \<noteq> [] \<longrightarrow> \<not> bfree s (hd cs)"
        using b(2) by (auto simp: coalesced_mid)
      have "hd cs \<noteq> n" "hd cs \<noteq> b" if "cs \<noteq> []" using that nb(2,5) hd_in_set by metis+
      then show ?thesis unfolding v'(2) using c nb by (auto simp: coalesced_mid coalesced_ends(2))
    qed
    moreover have "used_bytes (bsz s') (bfree s') (as @ b # n # cs) = used_bytes (bsz s) (bfree s) bs"
      unfolding v'(1,2) sp using nb b(2) by simp
    moreover have "allocated s' (as @ b # n # cs) x = allocated s bs x" if "x \<noteq> b" for x
      unfolding allocated_def v'(1,2) sp using that nb by auto
    moreover have "same_rest s s'" using r(3) sv(6) ad(3) by (simp add: same_rest_def)
    ultimately show ?thesis
      using B' ad(1) F' b(2) v' nb(3) sp by (intro exI [of _ "as @ b # n # cs"] exI [of _ fl2]) auto
  qed
qed

lemma allocated_disjoint:
  assumes "blocks_ok s bs" "allocated s bs b = Some n" "allocated s bs c = Some m" "b \<noteq> c"
  shows "b + HDR + n \<le> c \<or> c + HDR + m \<le> b"
  using tiles_disjoint [of "bsz s" "hd bs" bs "hd bs + memory_total s" b c] assms
  by (auto simp: blocks_ok_def allocated_def split: if_splits)

lemma flists_any:
  assumes "flists s fl F" "node_at s' = node_at s" "free_buckets s' = free_buckets s" "bsz s' = bsz s"
  shows "flists s' fl F"
proof -
  have "nx_free s' = nx_free s" "pv_free s' = pv_free s" using assms(2) by (auto simp: fun_eq_iff nx_free_def pv_free_def)
  then show ?thesis using flists_cong [OF assms(1)] assms(3,4) by simp
qed

lemma take_block_ok:
  assumes "heap_ok s bs" "b \<in> set bs" "bfree s b" "k \<le> bsz s b" "8 dvd k" "NODE \<le> k" "s' = take_block b k s"
  shows "\<exists>bs' m. heap_ok s' bs' \<and> k \<le> m \<and> allocated s' bs' = (allocated s bs)(b \<mapsto> m) \<and>
    heap_start s' = heap_start s \<and> memory_total s' = memory_total s \<and> payload s' = payload s \<and> memory_used s' = memory_used s + m + HDR"
proof -
  define s1 where "s1 = split_block b k (remove_from_free_list (Some b) s)"
  have H: "blocks_ok s bs" "coalesced (bfree s) bs" "memory_used s = used_bytes (bsz s) (bfree s) bs"
    "\<And>x n. allocated s bs x = Some n \<Longrightarrow> footer_at s (x + HDR + n - 4) = HEAP_FOOTER_MAGIC" using assms(1) by (auto simp: heap_ok_def)
  obtain fl where fl: "flists s fl {x \<in> set bs. bfree s x}" using assms(1) by (auto simp: heap_ok_def)
  have bF: "b \<in> {x \<in> set bs. bfree s x}" using assms(2,3) by simp
  obtain bs' fl' where S: "blocks_ok s1 bs'" "flists s1 fl' ({x \<in> set bs'. bfree s1 x} - {b})" "b \<in> set bs'" "k \<le> bsz s1 b"
    "bfree s1 b" "same_rest s s1" "coalesced ((bfree s1)(b := False)) bs'"
    "\<And>x. x \<noteq> b \<Longrightarrow> allocated s1 bs' x = allocated s bs x" "used_bytes (bsz s1) (bfree s1) bs' = used_bytes (bsz s) (bfree s) bs"
    using split_step_ok [OF H(1) fl refl bF assms(4-6) H(2) s1_def] by blast
  define m where "m = bsz s1 b"
  note bb = blocks_bounds [OF S(1,3)]
  have tl: "tiles (bsz s1) (hd bs') bs' (hd bs' + memory_total s1)" and d: "distinct bs'" using S(1) by (auto simp: blocks_ok_def dll_def)
  have "used_bytes (bsz s1) ((bfree s1)(b := False)) bs' = used_bytes (bsz s1) (bfree s1) bs' + m + HDR"
  proof -
    obtain as cs where "bs' = as @ b # cs" using S(3) by (meson split_list)
    then show ?thesis using d S(5) m_def by simp
  qed
  then have u: "used_bytes (bsz s1) ((bfree s1)(b := False)) bs' = memory_used s + m + HDR" using S(9) H(3) by simp
  have "memory_used s + m + HDR \<le> memory_total s1" using used_bytes_le [OF tl, of "(bfree s1)(b := False)"] u by simp
  then have ub: "memory_used s + (m + HDR) < 2 ^ 64" using S(1) by (simp add: blocks_ok_def)
  have fa: "footer_addr b m = b + HDR + m - 4" "add64 m HDR = m + HDR"
    using bb m_def by (simp_all add: footer_addr_def wrap_simps HDR_def NODE_def)
  have s': "s' = (set_hdr b (\<lambda>h. h\<lparr>bh_is_free := False\<rparr>) s1)\<lparr>memory_used := memory_used s + m + HDR,
      footer_at := (footer_at s)(b + HDR + m - 4 := HEAP_FOOTER_MAGIC)\<rparr>"
    unfolding assms(7) take_block_def Let_def s1_def [symmetric]
    using S(6) fa ub m_def by (simp add: bsz_def set_hdr_def same_rest_def wrap_simps add.assoc)
  have v: "bsz s' = bsz s1" "bfree s' = (bfree s1)(b := False)" "bnx s' = bnx s1" "bpv s' = bpv s1" "bmagic s' = bmagic s1"
    unfolding s' by (auto simp: views fun_eq_iff)
  have rest: "heap_start s' = heap_start s1" "memory_total s' = memory_total s1" "mm_initialized s' = mm_initialized s1" "payload s' = payload s1"
    "node_at s' = node_at s1" "free_buckets s' = free_buckets s1" "memory_used s' = memory_used s + m + HDR"
    "footer_at s' = (footer_at s)(b + HDR + m - 4 := HEAP_FOOTER_MAGIC)"
    unfolding s' by (simp_all add: set_hdr_def)
  have B': "blocks_ok s' bs'" using S(1) v(1,3,4,5) rest(1-3) by (simp add: blocks_ok_def block_ok_def)
  have "{x \<in> set bs'. bfree s' x} = {x \<in> set bs'. bfree s1 x} - {b}" using v(2) by auto
  then have f': "flists s' fl' {x \<in> set bs'. bfree s' x}" using flists_any [OF S(2) rest(5,6) v(1)] by simp
  have al: "allocated s' bs' = (allocated s bs)(b \<mapsto> m)"
  proof
    fix x
    have "x \<noteq> b \<Longrightarrow> allocated s' bs' x = allocated s1 bs' x" "allocated s' bs' b = Some m"
      using S(3) v(1,2) m_def by (simp_all add: allocated_def)
    then show "allocated s' bs' x = ((allocated s bs)(b \<mapsto> m)) x" using S(8) [of x] by (cases "x = b") simp_all
  qed
  have "footer_at s' (x + HDR + n - 4) = HEAP_FOOTER_MAGIC" if x: "allocated s' bs' x = Some n" for x n
  proof (cases "x = b")
    case True
    then show ?thesis using x al rest(8) by simp
  next
    case False
    have "allocated s' bs' b = Some m" using al by simp
    then have "x + HDR + n \<le> b \<or> b + HDR + m \<le> x" using allocated_disjoint [OF B' x] False by blast
    moreover have "NODE \<le> n" "NODE \<le> m"
      using x blocks_bounds(4) [OF B', of x] bb(4) m_def by (auto simp: allocated_def split: if_splits)
    ultimately have "x + HDR + n - 4 \<noteq> b + HDR + m - 4" by (auto simp: HDR_def NODE_def)
    moreover have "allocated s bs x = Some n" using x al False by simp
    ultimately show ?thesis using rest(8) H(4) by simp
  qed
  with B' f' have "heap_ok s' bs'" by (rule heap_okI) (use S(7) u rest(7) v in simp_all)
  moreover have "k \<le> m" using S(4) m_def by simp
  ultimately show ?thesis using al rest(1,2,4,7) S(6) by (auto simp: same_rest_def)
qed

text \<open>Allocation as a whole. A request is served exactly when some free block is large enough.\<close>

lemma kmalloc_impl_ok:
  assumes "heap_ok s bs" "0 < sz" "k = align (sz + 4)" "sz \<le> memory_total s"
  shows "if \<exists>b \<in> set bs. bfree s b \<and> k \<le> bsz s b
    then \<exists>b m s' bs'. kmalloc_impl sz s = Some (Inr (Some (b + HDR), s')) \<and> heap_ok s' bs' \<and> allocated s bs b = None \<and>
      sz + 4 \<le> m \<and> allocated s' bs' = (allocated s bs)(b \<mapsto> m) \<and> heap_start s' = heap_start s \<and> memory_total s' = memory_total s \<and>
      payload s' = payload s \<and> memory_used s' = memory_used s + m + HDR
    else kmalloc_impl sz s = Some (Inr (None, s))"
proof -
  have H: "blocks_ok s bs" using assms(1) by (simp add: heap_ok_def)
  obtain fl where fl: "flists s fl {x \<in> set bs. bfree s x}" using assms(1) by (auto simp: heap_ok_def)
  have st: "heap_start s \<noteq> None" "mm_initialized s" "memory_total s + NODE < 2 ^ 64" using H by (auto simp: blocks_ok_def)
  define F where "F = {x \<in> set bs. bfree s x}"
  have FF: "b \<in> F \<Longrightarrow> bfree s b \<and> bmagic s b" for b using blocks_bounds(6) [OF H] by (simp add: F_def)
  have hdbs: "hd bs \<in> set bs" using H by (simp add: blocks_ok_def)
  have "HDR + NODE \<le> memory_total s" "hd bs + memory_total s < 2 ^ 64" "NODE \<le> hd bs"
    using blocks_bounds(1,2,4) [OF H hdbs] H by (auto simp: blocks_ok_def)
  show ?thesis
  proof (cases "sz > UINT64_MAX - HEAP_ALIGNMENT - HDR")
    case True
    have "bsz s b < k" if "b \<in> set bs" for b
    proof -
      have "b + HDR + bsz s b \<le> hd bs + memory_total s" "hd bs \<le> b" using blocks_bounds(1,2) [OF H that] by auto
      then have "bsz s b + HDR \<le> memory_total s" by simp
      then show ?thesis using True st(3) assms(2,3,4) align_ok(1) [of "sz + 4"]
        by (cases "sz + 4 + 8 < 2 ^ 64") (auto simp: UINT64_MAX_def HEAP_ALIGNMENT_def HDR_def NODE_def)
    qed
    then have "\<not> (\<exists>b \<in> set bs. bfree s b \<and> k \<le> bsz s b)" by (meson not_le)
    then show ?thesis using True assms(2) st by (auto simp: kmalloc_impl_def)
  next
    case False
    then have sm: "sz + 4 + 8 < 2 ^ 64" by (simp add: UINT64_MAX_def HEAP_ALIGNMENT_def HDR_def)
    then have a4: "add64 sz 4 = sz + 4" by (simp add: wrap_simps)
    note al = align_ok [OF sm, folded assms(3)]
    let ?i = "get_bucket_index k"
    have ib: "?i + (NUM_BUCKETS - ?i) = NUM_BUCKETS" using bucket_bound [of k] by simp
    obtain r where r: "bucket_loop s k (NUM_BUCKETS - ?i) ?i = Some (Inr r)"
      "case r of Some b \<Rightarrow> b \<in> F \<and> k \<le> bsz s b
       | None \<Rightarrow> \<forall>b \<in> F. ?i \<le> get_bucket_index (bsz s b) \<and> get_bucket_index (bsz s b) < ?i + (NUM_BUCKETS - ?i) \<longrightarrow> bsz s b < k"
      using bucket_loop_ok [OF fl [folded F_def], of k "NUM_BUCKETS - ?i" ?i] FF by blast
    have step: "kmalloc_impl sz s = Some (case r of None \<Rightarrow> Inr (None, s) | Some b \<Rightarrow> Inr (Some (add64 b HDR), take_block b k s))"
      using assms(2,3,4) False st(1,2) r(1) a4 by (simp add: kmalloc_impl_def Let_def split: option.splits)
    show ?thesis
    proof (cases r)
      case None
      have "bsz s b < k" if "b \<in> F" for b
        using r(2) None that bucket_mono [of k "bsz s b"] bucket_bound [of "bsz s b"] ib by (cases "k \<le> bsz s b") auto
      then have "\<not> (\<exists>b \<in> set bs. bfree s b \<and> k \<le> bsz s b)" by (auto simp: F_def not_le)
      then show ?thesis using step None by simp
    next
      case (Some b)
      then have b: "b \<in> set bs" "bfree s b" "k \<le> bsz s b" using r(2) by (auto simp: F_def)
      have "add64 b HDR = b + HDR" using blocks_bounds(3) [OF H b(1)] by (simp add: wrap_simps)
      moreover obtain bs' m where "heap_ok (take_block b k s) bs'" "k \<le> m" "allocated (take_block b k s) bs' = (allocated s bs)(b \<mapsto> m)"
        "heap_start (take_block b k s) = heap_start s" "memory_total (take_block b k s) = memory_total s"
        "payload (take_block b k s) = payload s" "memory_used (take_block b k s) = memory_used s + m + HDR"
        using take_block_ok [OF assms(1) b al(2,3) refl] by blast
      moreover have "allocated s bs b = None" using b(2) by (simp add: allocated_def)
      ultimately show ?thesis using step Some b al(1) by (auto intro: order_trans)
    qed
  qed
qed

section \<open>Release\<close>

text \<open>The two merges as changes of headers and free lists.\<close>

lemma merge_next_eq:
  assumes "blocks_ok s (as @ b # n # cs)" "bfree s n" "hdr s1 = hdr s" "s1 = remove_from_free_list (Some n) s"
  shows "merge_next b s = Inr (merge_hdrs b n s1)"
proof -
  note mb = merge_blocks_ok [OF assms(1) refl]
  have n: "bh_next (hdr s b) = Some n" "bh_is_free (hdr s n)" "bh_magic (hdr s n) = HEAP_MAGIC"
    using mb(5) assms(2) blocks_bounds(6) [OF assms(1), of n] by (simp_all add: views)
  have a: "add64 (bsz s b) (add64 HDR (bsz s n)) = bsz s b + HDR + bsz s n" using mb(4) by (simp add: wrap_simps)
  have r: "remove_from_free_list (Some n) s = s1" using assms(4) by simp
  show ?thesis
    unfolding merge_next_def Let_def merge_hdrs_def n(1) option.case r using n mb(2) a assms(3)
    by (cases "bh_next (hdr s n)") (auto simp: views set_hdr_def)
qed

lemma merge_prev_eq:
  assumes "blocks_ok s (as @ p # b # cs)" "bfree s p" "hdr s1 = hdr s" "s1 = remove_from_free_list (Some p) s"
  shows "merge_prev b s = Inr (add_to_free_list (Some p) (merge_hdrs p b s1))"
proof -
  note mb = merge_blocks_ok [OF assms(1) refl]
  have n: "bh_prev (hdr s b) = Some p" "bh_is_free (hdr s p)" "bh_magic (hdr s p) = HEAP_MAGIC"
    using mb(6) assms(2) blocks_bounds(6) [OF assms(1), of p] by (simp_all add: views)
  have a: "add64 (bsz s p) (add64 HDR (bsz s b)) = bsz s p + HDR + bsz s b" using mb(4) by (simp add: wrap_simps)
  have r: "remove_from_free_list (Some p) s = s1" using assms(4) by simp
  show ?thesis
    unfolding merge_prev_def Let_def merge_hdrs_def n(1) option.case r using n mb(2) a assms(3)
    by (cases "bh_next (hdr s b)") (auto simp: views set_hdr_def)
qed

text \<open>The state between the steps of a release: the block \<open>b\<close> is free and in no list yet.\<close>

definition pending :: "heap \<Rightarrow> nat list \<Rightarrow> nat \<Rightarrow> nat list \<Rightarrow> bool" where
  "pending s as b cs \<longleftrightarrow> blocks_ok s (as @ b # cs) \<and> (\<exists>fl. flists s fl ({x \<in> set (as @ b # cs). bfree s x} - {b})) \<and> bfree s b \<and>
     coalesced (bfree s) as \<and> coalesced (bfree s) cs"

definition same_used :: "heap \<Rightarrow> nat list \<Rightarrow> heap \<Rightarrow> nat list \<Rightarrow> bool" where
  "same_used s bs s' bs' \<longleftrightarrow> same_rest s s' \<and> allocated s' bs' = allocated s bs \<and>
     used_bytes (bsz s') (bfree s') bs' = used_bytes (bsz s) (bfree s) bs"

lemma same_used_trans: "same_used s bs s1 bs1 \<Longrightarrow> same_used s1 bs1 s2 bs2 \<Longrightarrow> same_used s bs s2 bs2"
  by (simp add: same_used_def same_rest_def)

text \<open>Merging two free neighbours of which one is in no list.\<close>

lemma merge_pair_ok:
  assumes "blocks_ok s (as @ b # n # cs)" "flists s fl ({x \<in> set (as @ b # n # cs). bfree s x} - {b, n})" "bfree s b" "bfree s n"
    "s' = merge_hdrs b n s"
  shows "blocks_ok s' (as @ b # cs)" "flists s' fl ({x \<in> set (as @ b # cs). bfree s' x} - {b})" "bfree s' = bfree s"
    "same_used s (as @ b # n # cs) s' (as @ b # cs)"
proof -
  note mb = merge_blocks_ok [OF assms(1,5)]
  note v = merge_views [OF mb(2,3) assms(5)]
  show "blocks_ok s' (as @ b # cs)" "bfree s' = bfree s" by (rule mb(1), rule v(2))
  have d: "distinct (as @ b # n # cs)" using assms(1) by (simp add: blocks_ok_def dll_def)
  have F: "{x \<in> set (as @ b # n # cs). bfree s x} - {b, n} = {x \<in> set (as @ b # cs). bfree s' x} - {b}" using v(2) d by auto
  have "flists s' fl ({x \<in> set (as @ b # n # cs). bfree s x} - {b, n})"
    by (rule flists_cong [OF assms(2) v(7,8,9)]) (use v(1) in auto)
  then show "flists s' fl ({x \<in> set (as @ b # cs). bfree s' x} - {b})" unfolding F .
  have "allocated s' (as @ b # cs) x = allocated s (as @ b # n # cs) x" for x
    unfolding allocated_def v(1,2) using assms(3,4) d by auto
  moreover have "used_bytes (bsz s') (bfree s') (as @ b # cs) = used_bytes (bsz s) (bfree s) (as @ b # n # cs)"
    unfolding v(1,2) using assms(3,4) d by simp
  ultimately show "same_used s (as @ b # n # cs) s' (as @ b # cs)" using v(6) by (simp add: same_used_def fun_eq_iff)
qed

lemma merge_next_ok:
  assumes "pending s as b cs"
  shows "\<exists>s' cs'. merge_next b s = Inr s' \<and> pending s' as b cs' \<and> (cs' \<noteq> [] \<longrightarrow> \<not> bfree s' (hd cs')) \<and>
    same_used s (as @ b # cs) s' (as @ b # cs') \<and> bfree s' = bfree s \<and> bmagic s' = bmagic s"
proof -
  have P: "blocks_ok s (as @ b # cs)" "bfree s b" "coalesced (bfree s) as" "coalesced (bfree s) cs" using assms by (auto simp: pending_def)
  obtain fl where fl: "flists s fl ({x \<in> set (as @ b # cs). bfree s x} - {b})" using assms by (auto simp: pending_def)
  have dl: "dll (bnx s) (bpv s) (as @ b # cs)" using P(1) by (simp add: blocks_ok_def)
  have nx: "bnx s b = first_or cs None" using dll_ptrs(2) [OF dl] .
  show ?thesis
  proof (cases "cs \<noteq> [] \<and> bfree s (hd cs)")
    case False
    have "merge_next b s = Inr s"
      using nx False by (cases cs) (auto simp: merge_next_def views)
    then show ?thesis using assms False by (auto simp: same_used_def)
  next
    case True
    then obtain n ds where cs: "cs = n # ds" "bfree s n" by (cases cs) auto
    have B: "blocks_ok s (as @ b # n # ds)" using P(1) cs by simp
    have d: "distinct (as @ b # n # ds)" using B by (simp add: blocks_ok_def dll_def)
    define s1 where "s1 = remove_from_free_list (Some n) s"
    have nF: "n \<in> {x \<in> set (as @ b # cs). bfree s x} - {b}" using cs d by auto
    obtain fl1 where r: "flists s1 fl1 ({x \<in> set (as @ b # cs). bfree s x} - {b} - {n})" "hdr s1 = hdr s" "same_rest s s1"
      using remove_free_ok [OF fl nF cs(2) s1_def] by blast
    have v: "bsz s1 = bsz s" "bfree s1 = bfree s" "bnx s1 = bnx s" "bpv s1 = bpv s" "bmagic s1 = bmagic s" using views_cong [OF r(2)] by auto
    have B1: "blocks_ok s1 (as @ b # n # ds)" by (rule blocks_cong [OF B r(3)]) (use v in simp_all)
    have "{x \<in> set (as @ b # cs). bfree s x} - {b} - {n} = {x \<in> set (as @ b # n # ds). bfree s1 x} - {b, n}" using cs v(2) by auto
    then have f1: "flists s1 fl1 ({x \<in> set (as @ b # n # ds). bfree s1 x} - {b, n})" using r(1) by simp
    define s2 where "s2 = merge_hdrs b n s1"
    have fb: "bfree s1 b" "bfree s1 n" using P(2) cs(2) v(2) by simp_all
    note mp = merge_pair_ok [OF B1 f1 fb s2_def]
    have "merge_next b s = Inr s2" using merge_next_eq [OF B cs(2) r(2) s1_def] s2_def by simp
    moreover have "coalesced (bfree s) ds" "ds \<noteq> [] \<longrightarrow> \<not> bfree s (hd ds)" using P(4) cs by (auto simp: coalesced_ends(2))
    moreover have "same_used s (as @ b # cs) s1 (as @ b # n # ds)"
      unfolding same_used_def allocated_def v using r(3) cs(1) by simp
    moreover have "bmagic s2 = bmagic s1"
      using merge_views(5) [OF merge_blocks_ok(2,3) [OF B1 refl] s2_def] .
    ultimately show ?thesis
      using mp P(2,3) v(2,5) same_used_trans by (intro exI [of _ s2] exI [of _ ds]) (auto simp: pending_def)
  qed
qed


lemma merge_prev_ok:
  assumes "pending s as b cs" "cs \<noteq> [] \<longrightarrow> \<not> bfree s (hd cs)"
  shows "\<exists>s' bs'. merge_prev b s = Inr s' \<and> blocks_ok s' bs' \<and> (\<exists>fl. flists s' fl {x \<in> set bs'. bfree s' x}) \<and>
    coalesced (bfree s') bs' \<and> same_used s (as @ b # cs) s' bs'"
proof -
  have P: "blocks_ok s (as @ b # cs)" "bfree s b" "coalesced (bfree s) as" "coalesced (bfree s) cs" using assms(1) by (auto simp: pending_def)
  obtain fl where fl: "flists s fl ({x \<in> set (as @ b # cs). bfree s x} - {b})" using assms(1) by (auto simp: pending_def)
  have dl: "dll (bnx s) (bpv s) (as @ b # cs)" using P(1) by (simp add: blocks_ok_def)
  have pv: "bpv s b = last_or as None" using dll_ptrs(1) [OF dl] .
  show ?thesis
  proof (cases "as \<noteq> [] \<and> bfree s (last as)")
    case False
    define s' where "s' = add_to_free_list (Some b) s"
    have "merge_prev b s = Inr s'"
      using pv False by (cases as rule: rev_cases) (auto simp: merge_prev_def views s'_def)
    moreover note ad = add_free_ok [OF fl _ P(2) refl s'_def]
    have v: "bsz s' = bsz s" "bfree s' = bfree s" "bnx s' = bnx s" "bpv s' = bpv s" "bmagic s' = bmagic s" using views_cong [OF ad(2)] by auto
    have "blocks_ok s' (as @ b # cs)" by (rule blocks_cong [OF P(1) ad(3)]) (use v in simp_all)
    moreover have "insert b ({x \<in> set (as @ b # cs). bfree s x} - {b}) = {x \<in> set (as @ b # cs). bfree s' x}" using P(2) v(2) by auto
    then have "\<exists>fl. flists s' fl {x \<in> set (as @ b # cs). bfree s' x}" using ad(1) by auto
    moreover have "coalesced (bfree s') (as @ b # cs)" unfolding v using P(3,4) False assms(2) by (auto simp: coalesced_mid)
    moreover have "same_used s (as @ b # cs) s' (as @ b # cs)" unfolding same_used_def allocated_def v using ad(3) by simp
    ultimately show ?thesis by blast
  next
    case True
    then obtain ds p where as: "as = ds @ [p]" "bfree s p" by (cases as rule: rev_cases) auto
    have B: "blocks_ok s (ds @ p # b # cs)" using P(1) as by simp
    have d: "distinct (ds @ p # b # cs)" using B by (simp add: blocks_ok_def dll_def)
    define s1 where "s1 = remove_from_free_list (Some p) s"
    have pF: "p \<in> {x \<in> set (as @ b # cs). bfree s x} - {b}" using as d by auto
    obtain fl1 where r: "flists s1 fl1 ({x \<in> set (as @ b # cs). bfree s x} - {b} - {p})" "hdr s1 = hdr s" "same_rest s s1"
      using remove_free_ok [OF fl pF as(2) s1_def] by blast
    have v: "bsz s1 = bsz s" "bfree s1 = bfree s" "bnx s1 = bnx s" "bpv s1 = bpv s" "bmagic s1 = bmagic s" using views_cong [OF r(2)] by auto
    have B1: "blocks_ok s1 (ds @ p # b # cs)" by (rule blocks_cong [OF B r(3)]) (use v in simp_all)
    have "{x \<in> set (as @ b # cs). bfree s x} - {b} - {p} = {x \<in> set (ds @ p # b # cs). bfree s1 x} - {p, b}" using as v(2) by auto
    then have f1: "flists s1 fl1 ({x \<in> set (ds @ p # b # cs). bfree s1 x} - {p, b})" using r(1) by simp
    define s2 where "s2 = merge_hdrs p b s1"
    have fb: "bfree s1 p" "bfree s1 b" using P(2) as(2) v(2) by simp_all
    note mp = merge_pair_ok [OF B1 f1 fb s2_def]
    define s' where "s' = add_to_free_list (Some p) s2"
    have fp: "bfree s2 p" using mp(3) fb(1) by simp
    note ad = add_free_ok [OF mp(2) _ fp refl s'_def]
    have w: "bsz s' = bsz s2" "bfree s' = bfree s2" "bnx s' = bnx s2" "bpv s' = bpv s2" "bmagic s' = bmagic s2" using views_cong [OF ad(2)] by auto
    have "merge_prev b s = Inr s'" using merge_prev_eq [OF B as(2) r(2) s1_def] s2_def s'_def by simp
    moreover have "blocks_ok s' (ds @ p # cs)" by (rule blocks_cong [OF mp(1) ad(3)]) (use w in simp_all)
    moreover have "insert p ({x \<in> set (ds @ p # cs). bfree s2 x} - {p}) = {x \<in> set (ds @ p # cs). bfree s' x}" using fp w(2) by auto
    then have "\<exists>fl. flists s' fl {x \<in> set (ds @ p # cs). bfree s' x}" using ad(1) by auto
    moreover have "coalesced (bfree s') (ds @ p # cs)"
      unfolding w mp(3) v using P(3,4) assms(2) as by (auto simp: coalesced_mid coalesced_ends)
    moreover have "same_used s (as @ b # cs) s1 (ds @ p # b # cs)" unfolding same_used_def allocated_def v using r(3) as(1) by simp
    moreover have "same_used s2 (ds @ p # cs) s' (ds @ p # cs)" unfolding same_used_def allocated_def w using ad(3) by simp
    ultimately show ?thesis using mp(4) same_used_trans by blast
  qed
qed

lemma kfree_impl_ok:
  assumes "heap_ok s bs" "allocated s bs b = Some m"
  shows "\<exists>s' bs'. kfree_impl (Some (b + HDR)) s = Inr s' \<and> heap_ok s' bs' \<and> allocated s' bs' = (allocated s bs)(b := None) \<and>
    heap_start s' = heap_start s \<and> memory_total s' = memory_total s \<and> payload s' = payload s \<and> memory_used s = memory_used s' + m + HDR"
proof -
  have H: "blocks_ok s bs" "coalesced (bfree s) bs" "memory_used s = used_bytes (bsz s) (bfree s) bs"
    "\<And>x n. allocated s bs x = Some n \<Longrightarrow> footer_at s (x + HDR + n - 4) = HEAP_FOOTER_MAGIC" using assms(1) by (auto simp: heap_ok_def)
  obtain fl where fl: "flists s fl {x \<in> set bs. bfree s x}" using assms(1) by (auto simp: heap_ok_def)
  have b: "b \<in> set bs" "\<not> bfree s b" "bsz s b = m" using assms(2) by (auto simp: allocated_def split: if_splits)
  note bb = blocks_bounds [OF H(1) b(1)]
  obtain as cs where sp: "bs = as @ b # cs" using b(1) by (meson split_list)
  have d: "distinct bs" using H(1) by (simp add: blocks_ok_def dll_def)
  have mu: "memory_used s = used_bytes (bsz s) ((bfree s)(b := True)) bs + m + HDR" using H(3) b d sp by simp
  have m64: "memory_used s < 2 ^ 64"
    using used_bytes_le [of "bsz s" "hd bs" bs "hd bs + memory_total s" "bfree s"] H(1,3) by (simp add: blocks_ok_def)
  define s1 where "s1 = (set_hdr b (\<lambda>h. h\<lparr>bh_is_free := True\<rparr>) s)\<lparr>memory_used := memory_used s - (m + HDR)\<rparr>"
  have v: "bsz s1 = bsz s" "bfree s1 = (bfree s)(b := True)" "bnx s1 = bnx s" "bpv s1 = bpv s" "bmagic s1 = bmagic s"
    by (auto simp: views fun_eq_iff s1_def)
  have rest: "heap_start s1 = heap_start s" "memory_total s1 = memory_total s" "mm_initialized s1 = mm_initialized s" "payload s1 = payload s"
    "node_at s1 = node_at s" "free_buckets s1 = free_buckets s" "footer_at s1 = footer_at s" by (simp_all add: s1_def set_hdr_def)
  have B1: "blocks_ok s1 (as @ b # cs)" using H(1) v rest sp by (simp add: blocks_ok_def block_ok_def)
  have "{x \<in> set (as @ b # cs). bfree s1 x} - {b} = {x \<in> set bs. bfree s x}" using v(2) sp b(2) by auto
  then have f1: "flists s1 fl ({x \<in> set (as @ b # cs). bfree s1 x} - {b})" using flists_any [OF fl rest(5,6) v(1)] by simp
  have "coalesced (bfree s1) as" "coalesced (bfree s1) cs" using H(2) d unfolding v sp by (auto simp: coalesced_mid)
  moreover have "bfree s1 b" using v(2) by simp
  ultimately have pend: "pending s1 as b cs" unfolding pending_def using B1 f1 by blast
  obtain s2 cs2 where s2: "merge_next b s1 = Inr s2" "pending s2 as b cs2" "cs2 \<noteq> [] \<longrightarrow> \<not> bfree s2 (hd cs2)"
    "same_used s1 (as @ b # cs) s2 (as @ b # cs2)" using merge_next_ok [OF pend] by blast
  obtain s3 bs3 where s3: "merge_prev b s2 = Inr s3" "blocks_ok s3 bs3" "\<exists>fl. flists s3 fl {x \<in> set bs3. bfree s3 x}"
    "coalesced (bfree s3) bs3" "same_used s2 (as @ b # cs2) s3 bs3" using merge_prev_ok [OF s2(2,3)] by blast
  have su: "same_rest s1 s3" "allocated s3 bs3 = allocated s1 bs" "used_bytes (bsz s3) (bfree s3) bs3 = used_bytes (bsz s1) (bfree s1) bs"
    using same_used_trans [OF s2(4) s3(5)] sp by (auto simp: same_used_def)
  have al: "allocated s3 bs3 = (allocated s bs)(b := None)"
    unfolding su(2) by (auto simp: fun_eq_iff allocated_def v)
  have ft: "footer_at s3 = footer_at s" "memory_used s3 = memory_used s - (m + HDR)" using su(1) by (auto simp: same_rest_def s1_def set_hdr_def)
  have "heap_ok s3 bs3"
    unfolding heap_ok_def using s3(2,3,4) su(3) mu H(4) by (auto simp: al ft v)
  moreover have "kfree_impl (Some (b + HDR)) s = Inr s3"
  proof -
    have st: "heap_start s = Some (hd bs)" "hd bs + memory_total s < 2 ^ 64" using H(1) by (auto simp: blocks_ok_def)
    have "sub64 (b + HDR) HDR = b" "add64 (hd bs) (memory_total s) = hd bs + memory_total s" "b < hd bs + memory_total s"
      "footer_addr b m = b + HDR + m - 4" "add64 m HDR = m + HDR" "sub64 (memory_used s) (m + HDR) = memory_used s - (m + HDR)"
      using bb st m64 mu b(3) by (simp_all add: footer_addr_def wrap_simps HDR_def NODE_def)
    then show ?thesis
      using st(1) bb(1,6) b H(4) [OF assms(2)] s2(1) s3(1)
      by (simp add: kfree_impl_def Let_def s1_def views set_hdr_def)
  qed
  ultimately show ?thesis using al su(1) rest ft(2) mu by (auto simp: same_rest_def)
qed

end
