(* ===== verification/HeapProps.thy ===== *)
theory HeapProps
  imports HeapInv
begin

text \<open>
  What the kernel heap promises: the entry points of \<^verbatim>\<open>kernel/mm/heap.c\<close> on every well-formed heap,
  the initial heap of \<^verbatim>\<open>mm_init\<close>, and the states that sequences of calls can reach.
\<close>

section \<open>Allocation\<close>

text \<open>The block size for a request: the request and its footer, rounded up to 8, at least a free-list node.\<close>

definition heap_need :: "nat \<Rightarrow> nat" where
  "heap_need sz = max 16 ((sz + 4 + 7) div 8 * 8)"

definition heap_fits :: "nat \<Rightarrow> heap \<Rightarrow> nat list \<Rightarrow> bool" where
  "heap_fits sz s bs \<longleftrightarrow> (\<exists>b \<in> set bs. bfree s b \<and> heap_need sz \<le> bsz s b)"

lemma heap_need_ge: "sz + 4 \<le> heap_need sz"
  unfolding heap_need_def by linarith

lemma heap_fits_small:
  assumes "heap_ok s bs" "heap_fits sz s bs"
  shows "sz + 4 + HDR \<le> memory_total s" "sz + 4 + 8 < 2 ^ 64"
proof -
  have B: "blocks_ok s bs" using assms(1) by (simp add: heap_ok_def)
  obtain b where b: "b \<in> set bs" "heap_need sz \<le> bsz s b" using assms(2) by (auto simp: heap_fits_def)
  show t: "sz + 4 + HDR \<le> memory_total s" using blocks_bounds(1,2) [OF B b(1)] b(2) heap_need_ge [of sz] by linarith
  have "hd bs + memory_total s < 2 ^ 64" using B by (simp add: blocks_ok_def)
  then show "sz + 4 + 8 < 2 ^ 64" using t unfolding HDR_def by linarith
qed

lemma align_need: "sz + 4 + 8 < 2 ^ 64 \<Longrightarrow> align (sz + 4) = heap_need sz"
  by (auto simp: align_def Let_def NODE_def round8_eq heap_need_def)

lemma kmalloc_impl_spec:
  assumes "heap_ok s bs" "0 < sz"
  shows "if heap_fits sz s bs
    then \<exists>b m s' bs'. kmalloc_impl sz s = Some (Inr (Some (b + HDR), s')) \<and> heap_ok s' bs' \<and> allocated s bs b = None \<and>
      sz + 4 \<le> m \<and> allocated s' bs' = (allocated s bs)(b \<mapsto> m) \<and> heap_start s' = heap_start s \<and> memory_total s' = memory_total s \<and>
      payload s' = payload s \<and> memory_used s' = memory_used s + m + HDR
    else kmalloc_impl sz s = Some (Inr (None, s))"
proof (cases "sz + 4 + 8 < 2 ^ 64 \<and> sz \<le> memory_total s")
  case True
  then show ?thesis
    using kmalloc_impl_ok [OF assms refl] align_need [of sz] unfolding heap_fits_def by simp
next
  case False
  have B: "heap_start s \<noteq> None" "mm_initialized s" using assms(1) by (auto simp: heap_ok_def blocks_ok_def)
  have "\<not> heap_fits sz s bs" using heap_fits_small [OF assms(1)] False by fastforce
  moreover have "kmalloc_impl sz s = Some (Inr (None, s))"
    using kmalloc_impl_ok [OF assms refl] B False assms
    by (cases "sz \<le> memory_total s") (auto simp: kmalloc_impl_def UINT64_MAX_def HEAP_ALIGNMENT_def HDR_def)
  ultimately show ?thesis by simp
qed

section \<open>The heap as a map of live blocks\<close>

text \<open>The abstract state: the blocks in use, by address, with their sizes.\<close>

definition heap_rel :: "heap \<Rightarrow> (nat \<Rightarrow> nat option) \<Rightarrow> bool" where
  "heap_rel s A \<longleftrightarrow> (\<exists>bs. heap_ok s bs \<and> A = allocated s bs)"

lemma heap_relI: "heap_ok s bs \<Longrightarrow> heap_rel s (allocated s bs)"
  by (auto simp: heap_rel_def)

lemma heap_rel_bounds:
  assumes "heap_rel s A" "A b = Some n"
  shows "8 dvd b + HDR" "16 \<le> n" "bh_size (hdr s b) = n" "b + HDR + n < 2 ^ 64"
    "heap_start s = Some h \<Longrightarrow> h \<le> b \<and> b + HDR + n \<le> h + memory_total s"
proof -
  obtain bs where bs: "heap_ok s bs" "A = allocated s bs" using assms(1) by (auto simp: heap_rel_def)
  have B: "blocks_ok s bs" "b \<in> set bs" "bsz s b = n" using bs assms(2) by (auto simp: heap_ok_def allocated_def split: if_splits)
  note bb = blocks_bounds [OF B(1,2)]
  show "8 dvd b + HDR" "16 \<le> n" "bh_size (hdr s b) = n" "b + HDR + n < 2 ^ 64"
    using bb B(3) by (simp_all add: HDR_def NODE_def bsz_def)
  show "h \<le> b \<and> b + HDR + n \<le> h + memory_total s" if "heap_start s = Some h"
    using bb B(1,3) that by (auto simp: blocks_ok_def)
qed

lemma heap_rel_disjoint:
  assumes "heap_rel s A" "A b = Some n" "A c = Some m" "b \<noteq> c"
  shows "b + HDR + n \<le> c \<or> c + HDR + m \<le> b"
  using assms allocated_disjoint [of s _ b n c m] by (auto simp: heap_rel_def heap_ok_def)

lemma heap_rel_cong:
  assumes "heap_rel s A" "s' = s\<lparr>payload := f\<rparr>"
  shows "heap_rel s' A"
proof -
  obtain bs where bs: "heap_ok s bs" "A = allocated s bs" using assms(1) by (auto simp: heap_rel_def)
  have v: "hdr s' = hdr s" "node_at s' = node_at s" "free_buckets s' = free_buckets s" using assms(2) by simp_all
  note w = views_cong [OF v(1)]
  have "blocks_ok s bs" using bs(1) by (simp add: heap_ok_def)
  then have "blocks_ok s' bs" using w assms(2) by (simp add: blocks_ok_def block_ok_def)
  moreover obtain fl where "flists s fl {b \<in> set bs. bfree s b}" using bs(1) by (auto simp: heap_ok_def)
  then have "flists s' fl {b \<in> set bs. bfree s' b}" using flists_any [of s fl _ s'] v w by simp
  moreover have al: "allocated s' bs = allocated s bs" using w by (simp add: allocated_def fun_eq_iff)
  ultimately have "heap_ok s' bs" using bs(1) w assms(2) by (auto simp: heap_ok_def)
  then show ?thesis using al bs(2) by (auto simp: heap_rel_def)
qed

section \<open>The contract of an allocator\<close>

text \<open>
  What the callers of \<open>kmalloc\<close> and \<open>kfree\<close> rely on: a granted block is new, large enough, apart from the
  live ones, and giving back a live block works.
\<close>

locale allocator =
  fixes rel :: "'s \<Rightarrow> (nat \<Rightarrow> nat option) \<Rightarrow> bool" and hsz :: nat
    and alloc :: "nat \<Rightarrow> 's \<Rightarrow> ('e + (nat option \<times> 's)) option" and release :: "nat option \<Rightarrow> 's \<Rightarrow> 'e + 's"
  assumes apart: "rel s A \<Longrightarrow> A b = Some n \<Longrightarrow> A c = Some m \<Longrightarrow> b \<noteq> c \<Longrightarrow> b + hsz + n \<le> c \<or> c + hsz + m \<le> b"
    and alloc_law: "rel s A \<Longrightarrow> 0 < sz \<Longrightarrow> alloc sz s = Some (Inr (None, s)) \<or>
      (\<exists>b m s'. alloc sz s = Some (Inr (Some (b + hsz), s')) \<and> A b = None \<and> sz + 4 \<le> m \<and> rel s' (A(b \<mapsto> m)))"
    and release_law: "rel s A \<Longrightarrow> A b = Some m \<Longrightarrow> \<exists>s'. release (Some (b + hsz)) s = Inr s' \<and> rel s' (A(b := None))"
begin

lemma alloc_total: "rel s A \<Longrightarrow> 0 < sz \<Longrightarrow> \<exists>p s'. alloc sz s = Some (Inr (p, s'))"
  using alloc_law by blast

lemma alloc_fresh:
  assumes "rel s A" "0 < sz" "alloc sz s = Some (Inr (Some p, s'))"
  obtains b m where "p = b + hsz" "A b = None" "sz + 4 \<le> m" "rel s' (A(b \<mapsto> m))"
    "\<And>c n. A c = Some n \<Longrightarrow> b + hsz + m \<le> c \<or> c + hsz + n \<le> b"
proof -
  obtain b m where b: "p = b + hsz" "A b = None" "sz + 4 \<le> m" "rel s' (A(b \<mapsto> m))"
    using alloc_law [OF assms(1,2)] assms(3) by auto
  moreover have "b + hsz + m \<le> c \<or> c + hsz + n \<le> b" if "A c = Some n" for c n
    using apart [OF b(4), of b m c n] that b(2) by (cases "b = c") auto
  ultimately show thesis using that by blast
qed

lemma alloc_release:
  assumes "rel s A" "0 < sz" "alloc sz s = Some (Inr (Some p, s'))"
  shows "\<exists>s''. release (Some p) s' = Inr s'' \<and> rel s'' A"
proof -
  obtain b m where b: "p = b + hsz" "A b = None" "rel s' (A(b \<mapsto> m))"
    using alloc_fresh [OF assms] by metis
  have "A(b \<mapsto> m, b := None) = A" using b(2) by auto
  then show ?thesis using release_law [OF b(3), of b m] b(1) by auto
qed

text \<open>Giving back every live block of a list, in any order.\<close>

lemma release_all:
  assumes "rel s A" "distinct ps" "\<And>b. b \<in> set ps \<Longrightarrow> A b \<noteq> None"
  shows "\<exists>s'. foldr (\<lambda>b r. case r of Inl e \<Rightarrow> Inl e | Inr t \<Rightarrow> release (Some (b + hsz)) t) ps (Inr s) = Inr s' \<and>
    rel s' (A |` (- set ps))"
  using assms(2,3)
proof (induction ps)
  case (Cons b ps)
  then obtain s1 where s1: "foldr (\<lambda>b r. case r of Inl e \<Rightarrow> Inl e | Inr t \<Rightarrow> release (Some (b + hsz)) t) ps (Inr s) = Inr s1"
    "rel s1 (A |` (- set ps))" by auto
  obtain m where "(A |` (- set ps)) b = Some m" using Cons.prems by (auto simp: restrict_map_def)
  then obtain s2 where s2: "release (Some (b + hsz)) s1 = Inr s2" "rel s2 ((A |` (- set ps))(b := None))"
    using release_law [OF s1(2)] by blast
  moreover have "(A |` (- set ps))(b := None) = A |` (- set (b # ps))" by (auto simp: restrict_map_def fun_eq_iff)
  ultimately show ?case using s1(1) by auto
qed (use assms(1) in \<open>simp add: restrict_map_def\<close>)

end

lemma kmalloc_law:
  assumes "heap_rel s A" "0 < sz"
  shows "kmalloc sz s = Some (Inr (None, s)) \<or>
    (\<exists>b m s'. kmalloc sz s = Some (Inr (Some (b + HDR), s')) \<and> A b = None \<and> sz + 4 \<le> m \<and> heap_rel s' (A(b \<mapsto> m)))"
proof -
  obtain bs where bs: "heap_ok s bs" "A = allocated s bs" using assms(1) by (auto simp: heap_rel_def)
  show ?thesis
    using kmalloc_impl_spec [OF bs(1) assms(2)] assms(2) bs(2) heap_relI
    by (cases "heap_fits sz s bs") (fastforce simp: kmalloc_def)+
qed

lemma kfree_law:
  assumes "heap_rel s A" "A b = Some m"
  shows "\<exists>s'. kfree (Some (b + HDR)) s = Inr s' \<and> heap_rel s' (A(b := None))"
proof -
  obtain bs where bs: "heap_ok s bs" "A = allocated s bs" using assms(1) by (auto simp: heap_rel_def)
  show ?thesis
    using kfree_impl_ok [OF bs(1)] assms(2) bs(2) heap_relI by (fastforce simp: kfree_def)
qed

interpretation heap: allocator heap_rel HDR kmalloc kfree
  using heap_rel_disjoint kmalloc_law kfree_law by unfold_locales


section \<open>The other entry points\<close>

lemma page_align_up: "n + 4095 < 2 ^ 64 \<Longrightarrow> n \<le> PAGE_ALIGN_UP n \<and> PAGE_ALIGN_UP n \<le> n + 4095"
  "4096 dvd PAGE_ALIGN_UP n"
  unfolding PAGE_ALIGN_UP_def PAGE_SIZE_def by (auto simp: add64_def)

lemma heap_region_bounds:
  assumes "heap_region es cand = Some (start, sz)" "4096 dvd cand"
  shows "cand \<le> start \<and> start + sz \<le> 0x100000000 \<and> 786432 \<le> sz \<and> sz \<le> MAX_HEAP_SIZE \<and> 4096 dvd start"
  using assms(1)
proof (induction es)
  case (Cons e es)
  define re where "re = min (add64 (base_addr e) (e_length e)) 0x100000000"
  define rs where "rs = max (PAGE_ALIGN_UP (base_addr e)) cand"
  have rw: "heap_region (e # es) cand =
    (if e_type e = E820_USABLE \<and> re > rs \<and> re - rs \<ge> 1024 * 1024 then Some (rs, min (mul64 (re - rs) 3 div 4) MAX_HEAP_SIZE)
     else heap_region es cand)"
    by (auto simp: re_def rs_def Let_def min_def max_def not_less)
  show ?case
  proof (cases "e_type e = E820_USABLE \<and> re > rs \<and> re - rs \<ge> 1024 * 1024")
    case True
    have "4096 dvd rs" using page_align_up(2) assms(2) by (simp add: rs_def max_def)
    moreover have "re \<le> 0x100000000" "cand \<le> rs" by (simp_all add: re_def rs_def)
    moreover have "mul64 (re - rs) 3 = (re - rs) * 3" using calculation(2) by (simp add: mul64_def)
    ultimately show ?thesis using Cons.prems True unfolding rw by (auto simp: MAX_HEAP_SIZE_def)
  next
    case False
    then have "heap_region (e # es) cand = heap_region es cand" using rw by presburger
    then show ?thesis using Cons by simp
  qed
qed simp

lemma heap_place_bounds:
  assumes "heap_place mmap ke = (start, sz)" "ke \<le> 2 ^ 32"
  shows "ke \<le> start" "0x100000 \<le> start" "4096 dvd start" "start + sz \<le> 2 ^ 33" "786432 \<le> sz" "sz \<le> MAX_HEAP_SIZE"
proof -
  define cand where "cand = max (PAGE_ALIGN_UP ke) ARCH_RESERVED_MEM_END"
  have c: "ke \<le> cand" "0x100000 \<le> cand" "4096 dvd cand" "cand \<le> 2 ^ 32 + 4095"
    using page_align_up [of ke] assms(2) by (auto simp: cand_def ARCH_RESERVED_MEM_END_def max_def)
  define best where "best = (case mmap of None \<Rightarrow> None | Some m \<Rightarrow> heap_region (map_entries m) cand)"
  have "ke \<le> start \<and> 0x100000 \<le> start \<and> 4096 dvd start \<and> start + sz \<le> 2 ^ 33 \<and> 786432 \<le> sz \<and> sz \<le> MAX_HEAP_SIZE"
  proof (cases best)
    case None
    then have "start = PAGE_ALIGN_UP (max 0x400000 cand)" "sz = 8 * 1024 * 1024"
      using assms(1) unfolding heap_place_def Let_def cand_def [symmetric] best_def [symmetric] by simp_all
    moreover have "max 0x400000 cand + 4095 < 2 ^ 64" using c(4) by simp
    note page_align_up(1) [OF this]
    ultimately show ?thesis using c page_align_up(2) by (auto simp: MAX_HEAP_SIZE_def)
  next
    case (Some x)
    then have "x = (start, sz)" using assms(1) unfolding heap_place_def Let_def cand_def [symmetric] best_def [symmetric]
      by (simp split: prod.splits)
    then obtain m where "heap_region (map_entries m) cand = Some (start, sz)" using Some by (auto simp: best_def split: option.splits)
    then show ?thesis using heap_region_bounds [of _ cand start sz] c by fastforce
  qed
  then show "ke \<le> start" "0x100000 \<le> start" "4096 dvd start" "start + sz \<le> 2 ^ 33" "786432 \<le> sz" "sz \<le> MAX_HEAP_SIZE" by auto
qed

lemma flists_empty: "free_buckets s = (\<lambda>_. None) \<Longrightarrow> flists s (\<lambda>_. []) {}"
  by (simp add: flists_def dll_def)

lemma mm_init_ok:
  assumes "ke \<le> 2 ^ 32" "heap_place mmap ke = (start, tot)" "s' = (fst (mm_init mmap ke s p))\<lparr>mm_initialized := True\<rparr>"
  shows "heap_ok s' [start]" "bfree s' start" "bsz s' start = tot - HDR" "memory_total s' = tot" "heap_start s' = Some start"
    "snd (mm_init mmap ke s p) = pmm_mark_region_used start tot p" "memory_used s' = 0"
proof -
  note hb = heap_place_bounds [OF assms(2,1)]
  define s1 where "s1 = s\<lparr>heap_start := Some start, free_buckets := (\<lambda>_. None), memory_total := tot,
      hdr := (hdr s)(start := \<lparr>bh_size = tot - HDR, bh_magic = HEAP_MAGIC, bh_is_free = True, bh_next = None, bh_prev = None\<rparr>)\<rparr>"
  have tot: "sub64 tot HDR = tot - HDR" using hb(4,5) by (simp add: sub64_exact HDR_def)
  define s2 where "s2 = add_to_free_list (Some start) s1"
  have f1: "flists s1 (\<lambda>_. []) {}" by (rule flists_empty) (simp add: s1_def)
  have fr: "bfree s1 start" by (simp add: s1_def bfree_def)
  note ad = add_free_ok [OF f1 _ fr refl s2_def]
  have s': "s' = s2\<lparr>memory_used := 0, mm_initialized := True\<rparr>"
    using assms(2) tot by (simp add: assms(3) mm_init_def Let_def s2_def s1_def set_hdr_def)
  have h: "hdr s' = hdr s1" using ad(2) by (simp add: s')
  note v = views_cong [OF h]
  show S: "bfree s' start" "bsz s' start = tot - HDR" using v by (simp_all add: bsz_def bfree_def s1_def)
  show R: "memory_total s' = tot" "heap_start s' = Some start" "memory_used s' = 0" using ad(3) by (simp_all add: s' same_rest_def s1_def)
  have "8 dvd start" by (rule dvd_trans [OF _ hb(3)]) simp
  moreover have "16 \<le> tot - 32" using hb(5) by simp
  ultimately have "blocks_ok s' [start]"
    using S R hb v by (simp add: blocks_ok_def block_ok_def dll_def HDR_def NODE_def s1_def views s')
  moreover have "\<exists>fl. flists s' fl {b \<in> set [start]. bfree s' b}"
  proof -
    have "{b \<in> set [start]. bfree s' b} = {start}" using S(1) by auto
    moreover have "bsz s' = bsz s2" using ad(2) by (simp add: s' views fun_eq_iff)
    moreover have "\<exists>fl. flists s2 fl {start}" using ad(1) by auto
    ultimately show ?thesis using flists_any [of s2 _ "{start}" s'] s' by auto
  qed
  moreover have "allocated s' [start] b = None" for b using S(1) by (simp add: allocated_def)
  ultimately show "heap_ok s' [start]" using R(3) S(1) by (auto simp: heap_ok_def)
  show "snd (mm_init mmap ke s p) = pmm_mark_region_used start tot p" using assms(2) by (simp add: mm_init_def Let_def)
qed

lemma kcalloc_spec:
  assumes "heap_ok s bs"
  shows "kcalloc num sz s =
    (if num * sz = 0 \<or> \<not> heap_fits (num * sz) s bs then Some (Inr (None, s))
     else map_option (map_sum id (\<lambda>(p, s'). (p, heap_fill (the p) (num * sz) 0 s'))) (kmalloc (num * sz) s))"
proof (cases "num > 0 \<and> sz > UINT64_MAX div num")
  case True
  then have "UINT64_MAX < num * sz" by (metis div_less_iff_less_mult mult.commute)
  then have "\<not> heap_fits (num * sz) s bs" using heap_fits_small(2) [OF assms, of "num * sz"] by (auto simp: UINT64_MAX_def)
  then show ?thesis using True by (simp add: kcalloc_def)
next
  case False
  then have "num * sz < 2 ^ 64"
    by (cases "num = 0") (auto simp: not_less less_eq_div_iff_mult_less_eq UINT64_MAX_def mult.commute)
  then have m: "mul64 num sz = num * sz" by (simp add: mul64_def)
  show ?thesis
  proof (cases "num * sz = 0")
    case True
    then show ?thesis using False m by (auto simp: kcalloc_def kmalloc_def)
  next
    case nz: False
    have K: "kcalloc num sz s = do { r \<leftarrow> kmalloc (num * sz) s; Some (case r of
        Inr (Some ptr, s1) \<Rightarrow> Inr (Some ptr, heap_fill ptr (num * sz) 0 s1) | _ \<Rightarrow> r) }"
      using False m by (auto simp: kcalloc_def Let_def)
    show ?thesis
      using kmalloc_impl_spec [OF assms, of "num * sz"] nz unfolding K kmalloc_def
      by (cases "heap_fits (num * sz) s bs") auto
  qed
qed

text \<open>Growing a live block: a new block with the old contents, and the old block given back.\<close>

lemma krealloc_grow:
  assumes "heap_ok s bs" "allocated s bs b = Some n" "n < sz" "heap_fits sz s bs"
  shows "\<exists>b' m s' bs'. krealloc (Some (b + HDR)) sz s = Some (Inr (Some (b' + HDR), s')) \<and> heap_ok s' bs' \<and>
    allocated s bs b' = None \<and> sz + 4 \<le> m \<and> allocated s' bs' = (allocated s bs)(b' \<mapsto> m, b := None) \<and>
    (\<forall>i < n. payload s' (b' + HDR + i) = payload s (b + HDR + i)) \<and>
    (\<forall>x. x < b' + HDR \<or> b' + HDR + n \<le> x \<longrightarrow> payload s' x = payload s x)"
proof -
  have sz: "0 < sz" using assms(3) by simp
  obtain b' m s1 bs1 where s1: "kmalloc_impl sz s = Some (Inr (Some (b' + HDR), s1))" "heap_ok s1 bs1" "allocated s bs b' = None"
    "sz + 4 \<le> m" "allocated s1 bs1 = (allocated s bs)(b' \<mapsto> m)" "payload s1 = payload s"
    using kmalloc_impl_spec [OF assms(1) sz] assms(4) by auto
  have nb: "b' \<noteq> b" using s1(3) assms(2) by auto
  define s2 where "s2 = heap_copy (b' + HDR) (b + HDR) n s1"
  have "heap_rel s2 (allocated s1 bs1)"
    by (rule heap_rel_cong [OF heap_relI [OF s1(2)]]) (auto simp: s2_def heap_copy_def)
  then obtain bs2 where bs2: "heap_ok s2 bs2" "allocated s2 bs2 = (allocated s bs)(b' \<mapsto> m)" using s1(5) by (auto simp: heap_rel_def)
  have "allocated s2 bs2 b = Some n" using bs2(2) nb assms(2) by simp
  then obtain s3 bs3 where s3: "kfree_impl (Some (b + HDR)) s2 = Inr s3" "heap_ok s3 bs3" "allocated s3 bs3 = (allocated s2 bs2)(b := None)"
    "payload s3 = payload s2" using kfree_impl_ok [OF bs2(1)] by blast
  have A: "heap_rel s (allocated s bs)" "heap_rel s1 (allocated s1 bs1)" using heap_relI assms(1) s1(2) by auto
  have "bh_size (hdr s b) = n" "bh_size (hdr s1 b) = n"
    using heap_rel_bounds(3) [OF A(1) assms(2)] heap_rel_bounds(3) [OF A(2), of b n] s1(5) nb assms(2) by auto
  moreover have "bh_magic (hdr s b) = HEAP_MAGIC"
    using assms(1,2) blocks_bounds(6) [of s bs b] by (auto simp: heap_ok_def allocated_def bmagic_def split: if_splits)
  moreover have "sub64 (b + HDR) HDR = b" using heap_rel_bounds(4) [OF A(1) assms(2)] by (simp add: wrap_simps)
  ultimately have "krealloc (Some (b + HDR)) sz s = Some (Inr (Some (b' + HDR), s3))"
    using s1(1) s3(1) assms(3) by (simp add: krealloc_def Let_def s2_def)
  moreover have "payload s3 = (\<lambda>x. if b' + HDR \<le> x \<and> x < b' + HDR + n then payload s (b + HDR + (x - (b' + HDR))) else payload s x)"
    unfolding s3(4) s2_def heap_copy_def s1(6) [symmetric] by simp
  ultimately show ?thesis
    using s1(3,4) s3(2,3) bs2(2) by (intro exI [of _ b'] exI [of _ m] exI [of _ s3] exI [of _ bs3]) simp
qed

lemma krealloc_other:
  assumes "heap_ok s bs" "allocated s bs b = Some n" "0 < sz" "sz \<le> n \<or> \<not> heap_fits sz s bs"
  shows "krealloc (Some (b + HDR)) sz s = Some (Inr (if sz \<le> n then Some (b + HDR) else None, s))"
proof -
  have A: "heap_rel s (allocated s bs)" using heap_relI assms(1) by auto
  have "bh_size (hdr s b) = n" using heap_rel_bounds(3) [OF A assms(2)] .
  moreover have "bh_magic (hdr s b) = HEAP_MAGIC"
    using assms(1,2) blocks_bounds(6) [of s bs b] by (auto simp: heap_ok_def allocated_def bmagic_def split: if_splits)
  moreover have "sub64 (b + HDR) HDR = b" using heap_rel_bounds(4) [OF A assms(2)] by (simp add: wrap_simps)
  ultimately show ?thesis
    using kmalloc_impl_spec [OF assms(1,3)] assms(3,4) by (auto simp: krealloc_def Let_def)
qed

section \<open>Sequences of calls\<close>

text \<open>
  Stores of the holders. The heap's memory is kept as four views by address, and in the machine these are the same
  bytes: a store to the addresses \<open>X\<close> changes payload bytes in \<open>X\<close> only, and it may change in any way
  each footer word (4 bytes), free-list node (16 bytes) and block header (32 bytes) that has a byte in \<open>X\<close>.
\<close>

definition heap_store :: "nat set \<Rightarrow> heap \<Rightarrow> heap \<Rightarrow> bool" where
  "heap_store X s s' \<longleftrightarrow> heap_start s' = heap_start s \<and> free_buckets s' = free_buckets s \<and> memory_used s' = memory_used s \<and>
     memory_total s' = memory_total s \<and> mm_initialized s' = mm_initialized s \<and>
     (\<forall>a. a \<notin> X \<longrightarrow> payload s' a = payload s a) \<and>
     (\<forall>a. {a..<a + 4} \<inter> X = {} \<longrightarrow> footer_at s' a = footer_at s a) \<and>
     (\<forall>a. {a..<a + NODE} \<inter> X = {} \<longrightarrow> node_at s' a = node_at s a) \<and>
     (\<forall>a. {a..<a + HDR} \<inter> X = {} \<longrightarrow> hdr s' a = hdr s a)"

text \<open>
  The bytes that may be stored to: all of a live block but its last four, which hold the footer, and the memory
  outside the heap. What \<open>kmalloc\<close> and \<open>kcalloc\<close> were asked for never reaches the last four bytes; a
  \<open>krealloc\<close> in place may grant them.
\<close>

definition heap_own :: "heap \<Rightarrow> (nat \<Rightarrow> nat option) \<Rightarrow> nat set" where
  "heap_own s A = {x. \<exists>b n. A b = Some n \<and> b + HDR \<le> x \<and> x + 4 < b + HDR + n} \<union>
     {x. \<forall>h. heap_start s = Some h \<longrightarrow> x < h \<or> h + memory_total s \<le> x}"

lemma heap_own_apart:
  assumes "heap_ok s bs" "x \<in> heap_own s (allocated s bs)" "c \<in> set bs"
  shows "x < c \<or> c + HDR + bsz s c \<le> x \<or> (\<not> bfree s c \<and> c + HDR \<le> x \<and> x + 4 < c + HDR + bsz s c)"
proof -
  have B: "blocks_ok s bs" using assms(1) by (simp add: heap_ok_def)
  have st: "heap_start s = Some (hd bs)" "tiles (bsz s) (hd bs) bs (hd bs + memory_total s)" using B by (auto simp: blocks_ok_def)
  consider b n where "allocated s bs b = Some n" "b + HDR \<le> x" "x + 4 < b + HDR + n" | "x < hd bs \<or> hd bs + memory_total s \<le> x"
    using assms(2) st(1) by (auto simp: heap_own_def)
  then show ?thesis
  proof cases
    case 1
    then have b: "b \<in> set bs" "\<not> bfree s b" "bsz s b = n" by (auto simp: allocated_def split: if_splits)
    then show ?thesis using 1 tiles_disjoint [OF st(2) b(1) assms(3)] by (cases "b = c") auto
  next
    case 2
    then show ?thesis using blocks_bounds(1,2) [OF B assms(3)] by auto
  qed
qed

text \<open>Headers, the nodes of free blocks and the footers of live ones are out of reach of such a store.\<close>

lemma heap_store_views:
  assumes "heap_ok s bs" "heap_store X s s'" "X \<subseteq> heap_own s (allocated s bs)" "c \<in> set bs"
  shows "hdr s' c = hdr s c" "bfree s c \<Longrightarrow> node_at s' (c + HDR) = node_at s (c + HDR)"
    "\<not> bfree s c \<Longrightarrow> footer_at s' (c + HDR + bsz s c - 4) = footer_at s (c + HDR + bsz s c - 4)"
proof -
  have ap: "x < c \<or> c + HDR + bsz s c \<le> x \<or> (\<not> bfree s c \<and> c + HDR \<le> x \<and> x + 4 < c + HDR + bsz s c)" if "x \<in> X" for x
    using heap_own_apart [OF assms(1) _ assms(4), of x] assms(3) that by auto
  have sz: "16 \<le> bsz s c" using blocks_bounds(4) [of s bs c] assms(1,4) by (simp add: heap_ok_def NODE_def)
  have "{c..<c + HDR} \<inter> X = {}" using ap by fastforce
  then show "hdr s' c = hdr s c" using assms(2) by (simp add: heap_store_def)
  show "node_at s' (c + HDR) = node_at s (c + HDR)" if "bfree s c"
  proof -
    have "{c + HDR..<c + HDR + NODE} \<inter> X = {}" using ap that sz by (fastforce simp: NODE_def)
    then show ?thesis using assms(2) by (simp add: heap_store_def)
  qed
  show "footer_at s' (c + HDR + bsz s c - 4) = footer_at s (c + HDR + bsz s c - 4)" if "\<not> bfree s c"
  proof -
    have "{c + HDR + bsz s c - 4..<c + HDR + bsz s c - 4 + 4} \<inter> X = {}" using ap sz by fastforce
    then show ?thesis using assms(2) by (simp add: heap_store_def)
  qed
qed

lemma heap_rel_store:
  assumes "heap_rel s A" "heap_store X s s'" "X \<subseteq> heap_own s A"
  shows "heap_rel s' A"
proof -
  obtain bs where bs: "heap_ok s bs" "A = allocated s bs" using assms(1) by (auto simp: heap_rel_def)
  note v = heap_store_views [OF bs(1) assms(2) assms(3) [unfolded bs(2)]]
  have w: "bsz s' c = bsz s c" "bfree s' c = bfree s c" "bnx s' c = bnx s c" "bpv s' c = bpv s c" "bmagic s' c = bmagic s c"
    if "c \<in> set bs" for c using v(1) [OF that] by (simp_all add: views)
  have r: "heap_start s' = heap_start s" "free_buckets s' = free_buckets s" "memory_used s' = memory_used s"
    "memory_total s' = memory_total s" "mm_initialized s' = mm_initialized s" using assms(2) by (simp_all add: heap_store_def)
  have B: "blocks_ok s bs" using bs(1) by (simp add: heap_ok_def)
  have "dll (bnx s') (bpv s') bs = dll (bnx s) (bpv s) bs" by (rule dll_cong) (simp add: w)
  moreover have "tiles (bsz s') (hd bs) bs e = tiles (bsz s) (hd bs) bs e" for e by (rule tiles_cong) (simp add: w)
  ultimately have B': "blocks_ok s' bs" using B w r by (simp add: blocks_ok_def block_ok_def)
  have F: "{b \<in> set bs. bfree s' b} = {b \<in> set bs. bfree s b}" using w(2) by auto
  obtain fl where fl: "flists s fl {b \<in> set bs. bfree s b}" using bs(1) by (auto simp: heap_ok_def)
  have "flists s' fl {b \<in> set bs. bfree s b}"
    unfolding flists_def
  proof (intro allI conjI)
    fix i
    have m: "set (fl i) = {b \<in> {b \<in> set bs. bfree s b}. get_bucket_index (bsz s b) = i}" using fl unfolding flists_def by blast
    have "dll (nx_free s') (pv_free s') (fl i) = dll (nx_free s) (pv_free s) (fl i)"
      by (rule dll_cong) (use m v(2) in \<open>simp add: nx_free_def pv_free_def get_free_node_def\<close>)
    then show "dll (nx_free s') (pv_free s') (fl i)" using fl by (simp add: flists_def)
    show "free_buckets s' i = first_or (fl i) None" using fl r(2) by (simp add: flists_def)
    show "set (fl i) = {b \<in> {b \<in> set bs. bfree s b}. get_bucket_index (bsz s' b) = i}" using m w(1) by auto
  qed
  then have "flists s' fl {b \<in> set bs. bfree s' b}" unfolding F .
  moreover have al: "allocated s' bs = allocated s bs" using w by (auto simp: allocated_def fun_eq_iff)
  moreover have "coalesced (bfree s') bs = coalesced (bfree s) bs" by (rule coalesced_cong) (simp add: w)
  moreover have "used_bytes (bsz s') (bfree s') bs = used_bytes (bsz s) (bfree s) bs" by (rule used_bytes_cong) (simp_all add: w)
  moreover have "footer_at s' (b + HDR + n - 4) = HEAP_FOOTER_MAGIC" if "allocated s bs b = Some n" for b n
    using v(3) [of b] that bs(1) by (auto simp: heap_ok_def allocated_def split: if_splits)
  ultimately have "heap_ok s' bs"
    using bs(1) B' r(3) by (auto simp: heap_ok_def)
  then show ?thesis using al bs(2) by (auto simp: heap_rel_def)
qed

text \<open>
  The heaps reached by calls on live blocks, with the blocks the callers hold. A holder may store to the
  bytes of its block, less the last four, at any time.
\<close>

inductive heap_reach :: "heap \<Rightarrow> (nat \<Rightarrow> nat option) \<Rightarrow> bool" where
  boot: "kernel_end \<le> 2 ^ 32 \<Longrightarrow> heap_reach ((fst (mm_init mmap kernel_end s p))\<lparr>mm_initialized := True\<rparr>) Map.empty"
| malloc: "heap_reach s A \<Longrightarrow> kmalloc sz s = Some (Inr (Some (b + HDR), s')) \<Longrightarrow>
    heap_reach s' (A(b \<mapsto> bh_size (hdr s' b)))"
| malloc_fail: "heap_reach s A \<Longrightarrow> kmalloc sz s = Some (Inr (None, s')) \<Longrightarrow> heap_reach s' A"
| calloc: "heap_reach s A \<Longrightarrow> kcalloc num sz s = Some (Inr (Some (b + HDR), s')) \<Longrightarrow>
    heap_reach s' (A(b \<mapsto> bh_size (hdr s' b)))"
| calloc_fail: "heap_reach s A \<Longrightarrow> kcalloc num sz s = Some (Inr (None, s')) \<Longrightarrow> heap_reach s' A"
| realloc: "heap_reach s A \<Longrightarrow> A b = Some n \<Longrightarrow> krealloc (Some (b + HDR)) sz s = Some (Inr (Some (c + HDR), s')) \<Longrightarrow>
    heap_reach s' (A(b := None, c \<mapsto> bh_size (hdr s' c)))"
| realloc_fail: "heap_reach s A \<Longrightarrow> A b = Some n \<Longrightarrow> 0 < sz \<Longrightarrow> krealloc (Some (b + HDR)) sz s = Some (Inr (None, s')) \<Longrightarrow>
    heap_reach s' A"
| free: "heap_reach s A \<Longrightarrow> A b = Some n \<Longrightarrow> kfree (Some (b + HDR)) s = Inr s' \<Longrightarrow> heap_reach s' (A(b := None))"
| use: "heap_reach s A \<Longrightarrow> X \<subseteq> heap_own s A \<Longrightarrow> heap_store X s s' \<Longrightarrow> heap_reach s' A"

lemma heap_rel_granted:
  assumes "heap_rel s' (A(b \<mapsto> m))"
  shows "heap_rel s' (A(b \<mapsto> bh_size (hdr s' b)))"
  using heap_rel_bounds(3) [OF assms, of b m] assms by simp

lemma kmalloc_rel:
  assumes "heap_rel s A" "kmalloc sz s = Some (Inr (p, s'))"
  shows "case p of None \<Rightarrow> s' = s | Some q \<Rightarrow> (\<forall>b. q = b + HDR \<longrightarrow> heap_rel s' (A(b \<mapsto> bh_size (hdr s' b))))"
proof (cases "sz = 0")
  case True
  then show ?thesis using assms(2) by (auto simp: kmalloc_def)
next
  case False
  then show ?thesis using kmalloc_law [OF assms(1), of sz] assms(2) heap_rel_granted by (auto split: option.splits)
qed

lemma kcalloc_rel:
  assumes "heap_rel s A" "kcalloc num sz s = Some (Inr (p, s'))"
  shows "case p of None \<Rightarrow> s' = s | Some q \<Rightarrow> (\<forall>b. q = b + HDR \<longrightarrow> heap_rel s' (A(b \<mapsto> bh_size (hdr s' b))))"
proof -
  obtain bs where bs: "heap_ok s bs" "A = allocated s bs" using assms(1) by (auto simp: heap_rel_def)
  show ?thesis
  proof (cases "num * sz = 0 \<or> \<not> heap_fits (num * sz) s bs")
    case True
    then have "kcalloc num sz s = Some (Inr (None, s))" using kcalloc_spec [OF bs(1), of num sz] by presburger
    then show ?thesis using assms(2) by simp
  next
    case False
    then obtain q s1 where q: "kmalloc (num * sz) s = Some (Inr (Some q, s1))"
      using kmalloc_impl_spec [OF bs(1), of "num * sz"] by (auto simp: kmalloc_def)
    then have "p = Some q" "s' = heap_fill q (num * sz) 0 s1" using assms(2) kcalloc_spec [OF bs(1), of num sz] False by auto
    then show ?thesis
      using kmalloc_rel [OF assms(1) q] heap_rel_cong [of s1 _ s'] by (auto simp: heap_fill_def)
  qed
qed

lemma krealloc_rel:
  assumes "heap_rel s A" "A b = Some n" "krealloc (Some (b + HDR)) sz s = Some (Inr (p, s'))"
  shows "case p of None \<Rightarrow> 0 < sz \<longrightarrow> s' = s | Some q \<Rightarrow> (\<forall>c. q = c + HDR \<longrightarrow> heap_rel s' (A(b := None, c \<mapsto> bh_size (hdr s' c))))"
proof -
  obtain bs where bs: "heap_ok s bs" "A = allocated s bs" using assms(1) by (auto simp: heap_rel_def)
  have bn: "allocated s bs b = Some n" using assms(2) bs(2) by simp
  consider "sz = 0" | "0 < sz" "sz \<le> n \<or> \<not> heap_fits sz s bs" | "n < sz" "heap_fits sz s bs" by linarith
  then show ?thesis
  proof cases
    case 1
    then have "p = None" using assms(3) by (auto simp: krealloc_def split: sum.splits)
    then show ?thesis using 1 by simp
  next
    case 2
    have "bh_size (hdr s b) = n" using heap_rel_bounds(3) [OF assms(1,2)] .
    moreover have "A(b := None, b \<mapsto> n) = A" using assms(2) by auto
    ultimately show ?thesis
      using krealloc_other [OF bs(1) bn 2] assms(1,3) by (auto split: if_splits)
  next
    case 3
    obtain c m bs' where g: "p = Some (c + HDR)" "heap_ok s' bs'" "allocated s bs c = None" "allocated s' bs' = (allocated s bs)(c \<mapsto> m, b := None)"
      using krealloc_grow [OF bs(1) bn 3] assms(3) by auto
    have "c \<noteq> b" using g(3) bn by auto
    then have "heap_rel s' ((A(b := None))(c \<mapsto> m))" using heap_relI [OF g(2)] g(4) bs(2) by (simp add: fun_upd_twist)
    then show ?thesis using heap_rel_granted g(1) by auto
  qed
qed

lemma heap_reach_rel: "heap_reach s A \<Longrightarrow> heap_rel s A"
proof (induction rule: heap_reach.induct)
  case (boot kernel_end mmap s p)
  obtain start tot where st: "heap_place mmap kernel_end = (start, tot)" by (cases "heap_place mmap kernel_end")
  note mi = mm_init_ok [OF boot st refl, of s p]
  have "allocated ((fst (mm_init mmap kernel_end s p))\<lparr>mm_initialized := True\<rparr>) [start] = Map.empty"
    using mi(2) by (auto simp: fun_eq_iff allocated_def)
  then show ?case using heap_relI [OF mi(1)] by simp
next
  case (malloc s A sz b s')
  then show ?case using kmalloc_rel [of s A sz "Some (b + HDR)" s'] by (simp add: fun_upd_def)
next
  case (malloc_fail s A sz s')
  then show ?case using kmalloc_rel [of s A sz None s'] by simp
next
  case (calloc s A num sz b s')
  then show ?case using kcalloc_rel [of s A num sz "Some (b + HDR)" s'] by (simp add: fun_upd_def)
next
  case (calloc_fail s A num sz s')
  then show ?case using kcalloc_rel [of s A num sz None s'] by simp
next
  case (realloc s A b n sz c s')
  then show ?case using krealloc_rel [of s A b n sz "Some (c + HDR)" s'] by (simp add: fun_upd_def)
next
  case (realloc_fail s A b n sz s')
  then show ?case using krealloc_rel [of s A b n sz None s'] by simp
next
  case (free s A b n s')
  then show ?case using kfree_law [of s A b n] by (auto simp: fun_upd_def)
next
  case (use s A X s')
  then show ?case using heap_rel_store [of s A X s'] by simp
qed

text \<open>A granted block is new and has room for the request before its footer.\<close>

lemma heap_reach_alloc:
  assumes "heap_reach s A" "0 < sz"
  shows "\<exists>p s'. kmalloc sz s = Some (Inr (p, s')) \<and>
    (p = None \<or> (\<exists>c m. p = Some (c + HDR) \<and> A c = None \<and> sz + 4 \<le> m \<and> heap_reach s' (A(c \<mapsto> m))))"
proof -
  consider "kmalloc sz s = Some (Inr (None, s))" |
    c m s' where "kmalloc sz s = Some (Inr (Some (c + HDR), s'))" "A c = None" "sz + 4 \<le> m" "heap_rel s' (A(c \<mapsto> m))"
    using heap.alloc_law [OF heap_reach_rel [OF assms(1)] assms(2)] by blast
  then show ?thesis
  proof cases
    case 2
    have "bh_size (hdr s' c) = m" using heap_rel_bounds(3) [OF 2(4), of c m] by simp
    then show ?thesis using heap_reach.malloc [OF assms(1) 2(1)] 2 by auto
  qed simp
qed

text \<open>Resizing in place, and what becomes of a block whose footer was stored over.\<close>

lemma krealloc_in_place:
  assumes "heap_rel s A" "A b = Some n" "0 < sz" "sz \<le> n"
  shows "krealloc (Some (b + HDR)) sz s = Some (Inr (Some (b + HDR), s))"
proof -
  obtain bs where bs: "heap_ok s bs" "A = allocated s bs" using assms(1) by (auto simp: heap_rel_def)
  then show ?thesis using krealloc_other [OF bs(1), of b n sz] assms(2-4) by simp
qed

lemma kfree_lost_footer:
  assumes "heap_rel s A" "A b = Some n" "X \<subseteq> {b + HDR + n - 4..<b + HDR + n}" "heap_store X s s'"
    "footer_at s' (b + HDR + n - 4) \<noteq> HEAP_FOOTER_MAGIC"
  shows "kfree (Some (b + HDR)) s' = Inl (Panic ''Heap corruption detected: Invalid footer magic number'')"
proof -
  obtain bs where bs: "heap_ok s bs" "A = allocated s bs" using assms(1) by (auto simp: heap_rel_def)
  have B: "blocks_ok s bs" using bs(1) by (simp add: heap_ok_def)
  have b: "b \<in> set bs" "\<not> bh_is_free (hdr s b)" "bh_size (hdr s b) = n" using assms(2) bs(2) by (auto simp: allocated_def views split: if_splits)
  note bb = blocks_bounds [OF B b(1)]
  have sz: "16 \<le> n" using bb(4) b(3) by (simp add: NODE_def bsz_def)
  have "{b..<b + HDR} \<inter> X = {}" using assms(3) sz by fastforce
  then have h: "hdr s' b = hdr s b" "heap_start s' = heap_start s" "memory_total s' = memory_total s" using assms(4) by (simp_all add: heap_store_def)
  have st: "heap_start s = Some (hd bs)" "hd bs + memory_total s < 2 ^ 64" using B by (auto simp: blocks_ok_def)
  have "add64 (hd bs) (memory_total s) = hd bs + memory_total s" using st(2) by (simp add: add64_exact)
  moreover have "sub64 (b + HDR) HDR = b" "footer_addr b n = b + HDR + n - 4" "b < hd bs + memory_total s" "bh_magic (hdr s b) = HEAP_MAGIC"
    using bb b(3) by (auto simp: footer_addr_def wrap_simps HDR_def NODE_def bsz_def bmagic_def)
  ultimately show ?thesis using b bb(1) st h assms(5) by (simp add: kfree_def kfree_impl_def Let_def)
qed

lemma all_free_single:
  assumes "heap_ok s bs" "allocated s bs = Map.empty"
  shows "bs = [hd bs]" "bfree s (hd bs)" "bsz s (hd bs) + HDR = memory_total s" "memory_used s = 0"
proof -
  have B: "blocks_ok s bs" "coalesced (bfree s) bs" "memory_used s = used_bytes (bsz s) (bfree s) bs" using assms(1) by (auto simp: heap_ok_def)
  have fr: "bfree s b" if "b \<in> set bs" for b using fun_cong [OF assms(2), of b] that by (auto simp: allocated_def split: if_splits)
  have ne: "bs \<noteq> []" using B(1) by (simp add: blocks_ok_def)
  then obtain x xs where bs: "bs = x # xs" by (cases bs) auto
  have "xs = []" using B(2) fr bs by (cases xs) auto
  then show one: "bs = [hd bs]" "bfree s (hd bs)" using bs fr by auto
  show "bsz s (hd bs) + HDR = memory_total s" using B(1) one(1) by (subst (asm) one(1)) (auto simp: blocks_ok_def)
  show "memory_used s = 0" unfolding B(3) by (subst one(1)) (use one(2) in simp)
qed

section \<open>The integrity check\<close>

lemma verify_loop_ok:
  assumes "blocks_ok s (as @ cs)"
  shows "verify_loop word_at s (first_or cs None) =
    Some (if \<forall>b \<in> set cs. word_at (footer_addr b (bsz s b)) = HEAP_FOOTER_MAGIC then Inr ()
          else Inl (Panic ''Heap corruption: Bad footer magic number in block''))"
  using assms
proof (induction cs arbitrary: as)
  case Nil
  then show ?case by (simp add: verify_loop.simps)
next
  case (Cons c cs)
  have dl: "dll (bnx s) (bpv s) (as @ c # cs)" using Cons.prems by (simp add: blocks_ok_def)
  have m: "bh_magic (hdr s c) = HEAP_MAGIC" using blocks_bounds(6) [OF Cons.prems, of c] by (simp add: bmagic_def)
  have nx: "bh_next (hdr s c) = first_or cs None" using dll_ptrs(2) [OF dl] by (simp add: bnx_def)
  have pv: "bh_prev (hdr s d) = Some c" if "cs = d # ds" for d ds
    using dll_ptrs(1) [of "bnx s" "bpv s" "as @ [c]" d ds] dl that by (simp add: bpv_def)
  have IH: "verify_loop word_at s (first_or cs None) = Some (if \<forall>b \<in> set cs. word_at (footer_addr b (bsz s b)) = HEAP_FOOTER_MAGIC
      then Inr () else Inl (Panic ''Heap corruption: Bad footer magic number in block''))"
    using Cons.IH [of "as @ [c]"] Cons.prems by simp
  have lk: "(case bh_next (hdr s c) of None \<Rightarrow> False | Some n \<Rightarrow> bh_prev (hdr s n) \<noteq> Some c) = False"
    unfolding nx using pv by (cases cs) simp_all
  have "verify_loop word_at s (Some c) =
      (if word_at (footer_addr c (bsz s c)) \<noteq> HEAP_FOOTER_MAGIC
       then Some (Inl (Panic ''Heap corruption: Bad footer magic number in block''))
       else verify_loop word_at s (bh_next (hdr s c)))"
    by (subst verify_loop.simps) (simp only: m lk bsz_def option.case if_False simp_thms)
  then show ?case using IH unfolding nx by simp
qed

lemma blocks_first: "blocks_ok s bs \<Longrightarrow> heap_start s = first_or bs None"
  by (cases bs) (auto simp: blocks_ok_def)

section \<open>Properties\<close>

text \<open>The state of the examples: the heap set up without a memory map.\<close>

definition boot_heap :: heap where
  "boot_heap = (fst (mm_init None 0x200000
     \<lparr>heap_start = None, free_buckets = (\<lambda>_. None), memory_used = 0, memory_total = 0, mm_initialized = False,
      hdr = (\<lambda>_. \<lparr>bh_size = 0, bh_magic = 0, bh_is_free = False, bh_next = None, bh_prev = None\<rparr>),
      node_at = (\<lambda>_. \<lparr>next_free = None, prev_free = None\<rparr>), footer_at = (\<lambda>_. 0), payload = (\<lambda>_. 0)\<rparr>
     blank_pmm))\<lparr>mm_initialized := True\<rparr>"

lemma boot_heap_ok:
  "heap_ok boot_heap [0x400000]" "allocated boot_heap [0x400000] = Map.empty" "heap_reach boot_heap Map.empty"
  "bfree boot_heap 0x400000" "bsz boot_heap 0x400000 = 8388576" "memory_total boot_heap = 8388608"
proof -
  have pl: "heap_place None 0x200000 = (0x400000, 8388608)"
    by (simp add: heap_place_def Let_def PAGE_ALIGN_UP_def PAGE_SIZE_def add64_def ARCH_RESERVED_MEM_END_def max_def)
  have ke: "(0x200000 :: nat) \<le> 2 ^ 32" by simp
  note mi = mm_init_ok [OF ke pl refl, folded boot_heap_def]
  show "heap_ok boot_heap [0x400000]" "bfree boot_heap 0x400000" "memory_total boot_heap = 8388608"
    unfolding boot_heap_def by (rule mm_init_ok [OF ke pl refl])+
  show "bsz boot_heap 0x400000 = 8388576" unfolding boot_heap_def using mm_init_ok(3) [OF ke pl refl] by (simp add: HDR_def)
  show "allocated boot_heap [0x400000] = Map.empty"
    using \<open>bfree boot_heap 0x400000\<close> by (auto simp: fun_eq_iff allocated_def)
  show "heap_reach boot_heap Map.empty" unfolding boot_heap_def by (rule heap_reach.boot [OF ke])
qed

lemma boot_heap_fits: "heap_fits 100 boot_heap [0x400000]"
  using boot_heap_ok(4,5) by (simp add: heap_fits_def heap_need_def)

text \<open>C18: On a well-formed heap \<open>kmalloc\<close> of a non-zero size always returns. It grants a block exactly when some
  free block has room for the request and its footer, rounded up to 8; then the block is added to the live
  ones, is at least 4 bytes larger than the request, its pointer is a multiple of 8, the bytes of the heap
  are not touched, the account grows by the block and its header, and the heap stays well-formed.
  Otherwise it returns NULL and changes nothing.\<close>

theorem heap_kmalloc_correct:
  assumes "heap_ok s bs" "0 < sz"
  shows "if \<exists>b \<in> set bs. bh_is_free (hdr s b) \<and> max 16 ((sz + 4 + 7) div 8 * 8) \<le> bh_size (hdr s b)
    then \<exists>b m s' bs'. kmalloc sz s = Some (Inr (Some (b + HDR), s')) \<and> heap_ok s' bs' \<and> allocated s bs b = None \<and>
      sz + 4 \<le> m \<and> allocated s' bs' = (allocated s bs)(b \<mapsto> m) \<and> 8 dvd b + HDR \<and> payload s' = payload s \<and>
      mm_get_used_memory s' = mm_get_used_memory s + m + HDR
    else kmalloc sz s = Some (Inr (None, s))"
proof -
  have f: "(\<exists>b \<in> set bs. bh_is_free (hdr s b) \<and> max 16 ((sz + 4 + 7) div 8 * 8) \<le> bh_size (hdr s b)) = heap_fits sz s bs"
    by (simp add: heap_fits_def heap_need_def bfree_def bsz_def)
  have k: "kmalloc sz s = kmalloc_impl sz s" using assms(2) by (simp add: kmalloc_def)
  show ?thesis
  proof (cases "heap_fits sz s bs")
    case True
    then obtain b m s' bs' where g: "kmalloc_impl sz s = Some (Inr (Some (b + HDR), s'))" "heap_ok s' bs'" "allocated s bs b = None"
      "sz + 4 \<le> m" "allocated s' bs' = (allocated s bs)(b \<mapsto> m)" "payload s' = payload s" "memory_used s' = memory_used s + m + HDR"
      using kmalloc_impl_spec [OF assms] by auto
    have "8 dvd b + HDR" using heap_rel_bounds(1) [OF heap_relI [OF g(2)], of b m] g(5) by simp
    then show ?thesis using g True unfolding f k mm_get_used_memory_def by auto
  next
    case False
    then show ?thesis using kmalloc_impl_spec [OF assms] unfolding f k by simp
  qed
qed

theorem heap_kmalloc_correct_witness:
  "\<exists>b m s' bs'. kmalloc 100 boot_heap = Some (Inr (Some (b + HDR), s')) \<and> heap_ok s' bs' \<and> 104 \<le> m \<and>
    allocated s' bs' = [b \<mapsto> m]"
proof -
  have "\<exists>b \<in> set [0x400000]. bh_is_free (hdr boot_heap b) \<and> max 16 ((100 + 4 + 7) div 8 * 8) \<le> bh_size (hdr boot_heap b)"
    using boot_heap_fits by (simp add: heap_fits_def heap_need_def bfree_def bsz_def)
  then show ?thesis using heap_kmalloc_correct [OF boot_heap_ok(1), of 100] boot_heap_ok(2) by auto
qed

text \<open>C19: Giving a live block back works: \<open>kfree\<close> of its pointer removes exactly this block from the live ones,
  takes the block and its header off the account, touches no payload byte and keeps the heap well-formed:
  the tiling, the ten free lists, and that no two neighbours are free.\<close>

theorem heap_kfree_correct:
  assumes "heap_ok s bs" "allocated s bs b = Some m"
  shows "\<exists>s' bs'. kfree (Some (b + HDR)) s = Inr s' \<and> heap_ok s' bs' \<and> allocated s' bs' = (allocated s bs)(b := None) \<and>
    payload s' = payload s \<and> mm_get_used_memory s = mm_get_used_memory s' + m + HDR \<and>
    mm_get_total_memory s' = mm_get_total_memory s"
  using kfree_impl_ok [OF assms] by (simp add: kfree_def mm_get_used_memory_def mm_get_total_memory_def) blast

theorem heap_kfree_correct_witness:
  "\<exists>b s1 s2 bs. kmalloc 100 boot_heap = Some (Inr (Some (b + HDR), s1)) \<and> kfree (Some (b + HDR)) s1 = Inr s2 \<and> heap_ok s2 bs \<and>
     allocated s2 bs = Map.empty"
proof -
  have "0 < (100 :: nat)" by simp
  obtain b m s1 bs1 where g: "kmalloc_impl 100 boot_heap = Some (Inr (Some (b + HDR), s1))" "heap_ok s1 bs1"
    "allocated s1 bs1 = [b \<mapsto> m]"
    using kmalloc_impl_spec [OF boot_heap_ok(1) \<open>0 < 100\<close>] boot_heap_fits boot_heap_ok(2) by auto
  have "allocated s1 bs1 b = Some m" using g(3) by simp
  note heap_kfree_correct [OF g(2) this]
  then show ?thesis using g(1,3) by (auto simp: kmalloc_def)
qed

text \<open>C23: The checks of \<open>kfree\<close>: a pointer to a block that is already free, a pointer outside the heap, a pointer
  whose header has no magic number and a live block whose footer was overwritten each halt the machine with
  their message; NULL is ignored.\<close>

theorem heap_kfree_errors:
  assumes "heap_ok s bs"
  shows "kfree None s = Inr s \<and>
    (b \<in> set bs \<longrightarrow> bh_is_free (hdr s b) \<longrightarrow> kfree (Some (b + HDR)) s = Inl (Panic ''Heap corruption detected: Double free'')) \<and>
    (HDR \<le> q \<longrightarrow> q < 2 ^ 64 \<longrightarrow> q - HDR < hd bs \<or> hd bs + memory_total s \<le> q - HDR \<longrightarrow>
       kfree (Some q) s = Inl (Panic ''Heap corruption detected: Invalid kfree address out of bounds'')) \<and>
    (HDR \<le> q \<longrightarrow> q < 2 ^ 64 \<longrightarrow> hd bs \<le> q - HDR \<longrightarrow> q - HDR < hd bs + memory_total s \<longrightarrow> bh_magic (hdr s (q - HDR)) \<noteq> HEAP_MAGIC \<longrightarrow>
       kfree (Some q) s = Inl (Panic ''Heap corruption detected: Invalid magic number'')) \<and>
    (allocated s bs b = Some m \<longrightarrow> w \<noteq> HEAP_FOOTER_MAGIC \<longrightarrow>
       kfree (Some (b + HDR)) (s\<lparr>footer_at := (footer_at s)(b + HDR + m - 4 := w)\<rparr>) =
         Inl (Panic ''Heap corruption detected: Invalid footer magic number''))"
proof -
  have B: "blocks_ok s bs" using assms by (simp add: heap_ok_def)
  have st: "heap_start s = Some (hd bs)" "hd bs + memory_total s < 2 ^ 64" using B by (auto simp: blocks_ok_def)
  have e: "add64 (hd bs) (memory_total s) = hd bs + memory_total s" using st(2) by (simp add: add64_exact)
  have blk: "sub64 (x + HDR) HDR = x \<and> hd bs \<le> x \<and> x < hd bs + memory_total s \<and> bh_magic (hdr s x) = HEAP_MAGIC" if "x \<in> set bs" for x
    using blocks_bounds [OF B that] by (auto simp: wrap_simps HDR_def NODE_def bmagic_def)
  have "kfree None s = Inr s" by (simp add: kfree_def)
  moreover have "kfree (Some (b + HDR)) s = Inl (Panic ''Heap corruption detected: Double free'')" if "b \<in> set bs" "bh_is_free (hdr s b)"
    using blk [OF that(1)] that(2) st e by (simp add: kfree_def kfree_impl_def Let_def)
  moreover have "kfree (Some q) s = Inl (Panic ''Heap corruption detected: Invalid kfree address out of bounds'')"
    if "HDR \<le> q" "q < 2 ^ 64" "q - HDR < hd bs \<or> hd bs + memory_total s \<le> q - HDR"
    using that st e by (auto simp: kfree_def kfree_impl_def Let_def sub64_exact)
  moreover have "kfree (Some q) s = Inl (Panic ''Heap corruption detected: Invalid magic number'')"
    if "HDR \<le> q" "q < 2 ^ 64" "hd bs \<le> q - HDR" "q - HDR < hd bs + memory_total s" "bh_magic (hdr s (q - HDR)) \<noteq> HEAP_MAGIC"
    using that st e by (simp add: kfree_def kfree_impl_def Let_def sub64_exact)
  moreover have "kfree (Some (b + HDR)) (s\<lparr>footer_at := (footer_at s)(b + HDR + m - 4 := w)\<rparr>) =
      Inl (Panic ''Heap corruption detected: Invalid footer magic number'')" if "allocated s bs b = Some m" "w \<noteq> HEAP_FOOTER_MAGIC"
  proof -
    have b: "b \<in> set bs" "\<not> bh_is_free (hdr s b)" "bh_size (hdr s b) = m"
      using that(1) by (auto simp: allocated_def views split: if_splits)
    have "footer_addr b m = b + HDR + m - 4"
      using blocks_bounds(3,4) [OF B b(1)] b(3) by (simp add: footer_addr_def wrap_simps HDR_def NODE_def bsz_def)
    then show ?thesis using blk [OF b(1)] b that(2) st e by (simp add: kfree_def kfree_impl_def Let_def)
  qed
  ultimately show ?thesis by blast
qed

theorem heap_kfree_errors_witness:
  "kfree (Some (0x400000 + HDR)) boot_heap = Inl (Panic ''Heap corruption detected: Double free'') \<and>
   kfree (Some 0x1000) boot_heap = Inl (Panic ''Heap corruption detected: Invalid kfree address out of bounds'')"
  using heap_kfree_errors [OF boot_heap_ok(1), of 4194304 4096] boot_heap_ok(4) by (simp add: bfree_def HDR_def)

text \<open>C20: After any sequence of calls on live blocks from a boot of the kernel, with the holders storing to their blocks
  but not to the last four bytes of one, each live block lies inside the heap, its pointer is a multiple of 8, it is
  apart from every other live block with its header, and giving it back does not halt. A further
  allocation of any non-zero size returns, and the bytes it was asked for end before the last four of the new block.
  The restriction on the holders is needed because \<open>krealloc\<close> keeps a block in place for every size up to that of the
  block (\<^verbatim>\<open>heap.c:471\<close>), so it can grant the last four bytes too: when a holder stores to these and
  changes the footer, \<open>kfree\<close> of the block halts the machine.\<close>

theorem heap_reachable_safe:
  assumes "heap_reach s A" "A b = Some n"
  shows "8 dvd b + HDR \<and> (\<exists>h. heap_start s = Some h \<and> h \<le> b \<and> b + HDR + n \<le> h + mm_get_total_memory s) \<and>
    (\<forall>c m. c \<noteq> b \<and> A c = Some m \<longrightarrow> b + HDR + n \<le> c \<or> c + HDR + m \<le> b) \<and>
    (\<exists>s'. kfree (Some (b + HDR)) s = Inr s' \<and> heap_reach s' (A(b := None))) \<and>
    (\<forall>sz > 0. \<exists>p s'. kmalloc sz s = Some (Inr (p, s')) \<and>
       (p = None \<or> (\<exists>c m. p = Some (c + HDR) \<and> A c = None \<and> sz + 4 \<le> m \<and> heap_reach s' (A(c \<mapsto> m))))) \<and>
    (\<forall>sz > 0. sz \<le> n \<longrightarrow> krealloc (Some (b + HDR)) sz s = Some (Inr (Some (b + HDR), s))) \<and>
    (\<forall>X s'. X \<subseteq> {b + HDR + n - 4..<b + HDR + n} \<and> heap_store X s s' \<and> footer_at s' (b + HDR + n - 4) \<noteq> HEAP_FOOTER_MAGIC \<longrightarrow>
       kfree (Some (b + HDR)) s' = Inl (Panic ''Heap corruption detected: Invalid footer magic number''))"
proof -
  note R = heap_reach_rel [OF assms(1)]
  have "heap_start s \<noteq> None" using R by (auto simp: heap_rel_def heap_ok_def blocks_ok_def)
  moreover obtain s' where "kfree (Some (b + HDR)) s = Inr s'" using heap.release_law [OF R assms(2)] by blast
  ultimately show ?thesis
    using heap_rel_bounds(1,5) [OF R assms(2)] heap.apart [OF R assms(2)] heap_reach_alloc [OF assms(1)]
      heap_reach.free [OF assms] krealloc_in_place [OF R assms(2)] kfree_lost_footer [OF R assms(2)]
    by (simp add: mm_get_total_memory_def) blast
qed

theorem heap_reachable_safe_witness:
  "\<exists>b s n t. heap_reach s [b \<mapsto> n] \<and> 8 dvd b + HDR \<and> (\<exists>s'. kfree (Some (b + HDR)) s = Inr s' \<and> heap_reach s' Map.empty) \<and>
     krealloc (Some (b + HDR)) n s = Some (Inr (Some (b + HDR), s)) \<and> heap_store {b + HDR + n - 4} s t \<and>
     kfree (Some (b + HDR)) t = Inl (Panic ''Heap corruption detected: Invalid footer magic number'')"
proof -
  have "0 < (100 :: nat)" by simp
  obtain b s1 where g: "kmalloc_impl 100 boot_heap = Some (Inr (Some (b + HDR), s1))"
    using kmalloc_impl_spec [OF boot_heap_ok(1) \<open>0 < 100\<close>] boot_heap_fits by auto
  then have "kmalloc 100 boot_heap = Some (Inr (Some (b + HDR), s1))" by (simp add: kmalloc_def)
  note r = heap_reach.malloc [OF boot_heap_ok(3) this]
  define n where "n = bh_size (hdr s1 b)"
  define t where "t = s1\<lparr>footer_at := (footer_at s1)(b + HDR + n - 4 := 0)\<rparr>"
  have n: "16 \<le> n" using heap_rel_bounds(2) [OF heap_reach_rel [OF r], of b n] by (simp add: n_def)
  have st: "heap_store {b + HDR + n - 4} s1 t" by (auto simp: heap_store_def t_def)
  have f: "footer_at t (b + HDR + n - 4) \<noteq> HEAP_FOOTER_MAGIC" by (simp add: t_def HEAP_FOOTER_MAGIC_def)
  have X: "{b + HDR + n - 4} \<subseteq> {b + HDR + n - 4..<b + HDR + n}" using n by auto
  have A: "[b \<mapsto> n] b = Some n" by simp
  note c = heap_reachable_safe [OF r [folded n_def] A]
  have k: "kfree (Some (b + HDR)) t = Inl (Panic ''Heap corruption detected: Invalid footer magic number'')" using c X st f by blast
  have i: "krealloc (Some (b + HDR)) n s1 = Some (Inr (Some (b + HDR), s1))" using c n by simp
  have e: "[b \<mapsto> n](b := None) = Map.empty" by auto
  have "\<exists>s'. kfree (Some (b + HDR)) s1 = Inr s' \<and> heap_reach s' ([b \<mapsto> n](b := None))" using c by (elim conjE)
  then have l: "\<exists>s'. kfree (Some (b + HDR)) s1 = Inr s' \<and> heap_reach s' Map.empty" unfolding e .
  have d: "8 dvd b + HDR" using c by (elim conjE)
  show ?thesis using r [folded n_def] d l i st k by blast
qed

text \<open>C21: When every block has been given back, whatever calls were made before, the free space is one block again:
  nothing is in use, and a request of any size up to the heap less one header and the footer is granted.\<close>

theorem heap_no_fragments:
  assumes "heap_reach s Map.empty" "0 < sz" "(sz + 4 + 7) div 8 * 8 + HDR \<le> mm_get_total_memory s" "48 \<le> mm_get_total_memory s"
  shows "mm_get_used_memory s = 0 \<and> (\<exists>p s'. kmalloc sz s = Some (Inr (Some p, s')))"
proof -
  obtain bs where bs: "heap_ok s bs" "allocated s bs = Map.empty" using heap_reach_rel [OF assms(1)] by (auto simp: heap_rel_def)
  note one = all_free_single [OF bs]
  have "hd bs \<in> set bs" using bs(1) by (simp add: heap_ok_def blocks_ok_def)
  moreover have "heap_need sz \<le> bsz s (hd bs)"
    using assms(3,4) one(3) by (simp add: heap_need_def mm_get_total_memory_def HDR_def)
  ultimately have "heap_fits sz s bs" using one(2) by (auto simp: heap_fits_def)
  then show ?thesis
    using kmalloc_impl_spec [OF bs(1) assms(2)] one(4) assms(2) by (auto simp: kmalloc_def mm_get_used_memory_def)
qed

theorem heap_no_fragments_witness: "\<exists>p s'. kmalloc 8388572 boot_heap = Some (Inr (Some p, s'))"
  using heap_no_fragments [OF boot_heap_ok(3), of 8388572] boot_heap_ok(6) by (simp add: mm_get_total_memory_def HDR_def)

text \<open>\<open>krealloc\<close> of a live block with a non-zero size: a size the block has room for returns the same pointer and changes
  nothing. A larger one that fits is granted in a new block that holds all the bytes of the old one, which is
  given back, and no byte outside the new block changes. When none fits it returns NULL and the old block
  stays live and unchanged.\<close>

lemma heap_krealloc_correct:
  assumes "heap_ok s bs" "allocated s bs b = Some n" "0 < sz"
  shows "(if sz \<le> n then krealloc (Some (b + HDR)) sz s = Some (Inr (Some (b + HDR), s))
     else if heap_fits sz s bs then
       \<exists>b' m s' bs'. krealloc (Some (b + HDR)) sz s = Some (Inr (Some (b' + HDR), s')) \<and> heap_ok s' bs' \<and> sz + 4 \<le> m \<and>
         allocated s' bs' = (allocated s bs)(b' \<mapsto> m, b := None) \<and> (\<forall>i. i < n \<longrightarrow> payload s' (b' + HDR + i) = payload s (b + HDR + i)) \<and>
         (\<forall>x. x < b' + HDR \<or> b' + HDR + n \<le> x \<longrightarrow> payload s' x = payload s x)
     else krealloc (Some (b + HDR)) sz s = Some (Inr (None, s)))"
proof -
  consider "sz \<le> n" | "n < sz" "heap_fits sz s bs" | "n < sz" "\<not> heap_fits sz s bs" by linarith
  then show ?thesis
  proof cases
    case 2
    then have c: "\<not> sz \<le> n" by simp
    show ?thesis unfolding if_not_P [OF c] if_P [OF 2(2)] using krealloc_grow [OF assms(1,2) 2] by blast
  qed (use krealloc_other [OF assms] in auto)
qed

lemma heap_krealloc_correct_witness:
  "\<exists>b s. kmalloc 100 boot_heap = Some (Inr (Some (b + HDR), s)) \<and>
     krealloc (Some (b + HDR)) 8388608 s = Some (Inr (None, s)) \<and> krealloc (Some (b + HDR)) 50 s = Some (Inr (Some (b + HDR), s))"
proof -
  have "0 < (100 :: nat)" by simp
  obtain b m s bs where g: "kmalloc_impl 100 boot_heap = Some (Inr (Some (b + HDR), s))" "heap_ok s bs" "104 \<le> m"
    "allocated s bs = [b \<mapsto> m]" "memory_total s = 8388608"
    using kmalloc_impl_spec [OF boot_heap_ok(1) \<open>0 < 100\<close>] boot_heap_fits boot_heap_ok(2,6) by auto
  have b: "allocated s bs b = Some m" using g(4) by simp
  have "\<not> heap_fits 8388608 s bs" using heap_fits_small(1) [OF g(2), of 8388608] g(5) by auto
  moreover have "m < 8388608"
    using b g(2) g(5) blocks_bounds(1,2) [of s bs b] by (auto simp: heap_ok_def allocated_def HDR_def split: if_splits)
  ultimately show ?thesis
    using heap_krealloc_correct [OF g(2) b, of 8388608] heap_krealloc_correct [OF g(2) b, of 50] g(1,3) by (auto simp: kmalloc_def)
qed

text \<open>C22: Setting up the heap: whatever the memory map, it starts on a page boundary at or above the end of the kernel and
  above the first megabyte, has between 768 KB and 96 MB, is well-formed with nothing in use, and the page
  allocator holds every page of it as used from then on, so \<open>pmm_alloc\<close> never hands one out.\<close>

theorem heap_init_correct:
  assumes "kernel_end \<le> 2 ^ 32" "mm_init mmap kernel_end s p = (s', p')"
  shows "\<exists>start. heap_start s' = Some start \<and> kernel_end \<le> start \<and> 0x100000 \<le> start \<and> PAGE_SIZE dvd start \<and>
    786432 \<le> mm_get_total_memory s' \<and> mm_get_total_memory s' \<le> MAX_HEAP_SIZE \<and> mm_get_used_memory s' = 0 \<and>
    heap_ok (s'\<lparr>mm_initialized := True\<rparr>) [start] \<and>
    (\<forall>a. start \<le> a \<and> a < start + mm_get_total_memory s' \<and> a div PAGE_SIZE < total_pages p \<longrightarrow> bitmap_test p' (a div PAGE_SIZE))"
proof -
  obtain start tot where st: "heap_place mmap kernel_end = (start, tot)" by (cases "heap_place mmap kernel_end")
  note hb = heap_place_bounds [OF st assms(1)]
  note mi = mm_init_ok [OF assms(1) st refl, of s p]
  have S: "fst (mm_init mmap kernel_end s p) = s'" "snd (mm_init mmap kernel_end s p) = p'" using assms(2) by simp_all
  have t: "mm_get_total_memory s' = tot" "heap_start s' = Some start" "mm_get_used_memory s' = 0"
    using mi(4,5,7) S(1) by (simp_all add: mm_get_total_memory_def mm_get_used_memory_def)
  have small: "tot + PAGE_SIZE < 2 ^ 64" using hb(4) by (simp add: PAGE_SIZE_def)
  have "bitmap_test p' (a div PAGE_SIZE)" if a: "start \<le> a" "a < start + tot" "a div PAGE_SIZE < total_pages p" for a
  proof -
    have "start div PAGE_SIZE \<le> a div PAGE_SIZE" using a(1) by (rule div_le_mono)
    moreover obtain k where k: "start = PAGE_SIZE * k" using hb(3) by (auto simp: PAGE_SIZE_def elim: dvdE)
    have "a div PAGE_SIZE < k + (tot + PAGE_SIZE - 1) div PAGE_SIZE"
    proof -
      have "a - start < tot" using a(1,2) by simp
      then have "(a - start) div PAGE_SIZE < (tot + PAGE_SIZE - 1) div PAGE_SIZE" unfolding PAGE_SIZE_def by simp
      moreover have "a = PAGE_SIZE * k + (a - start)" using a(1) k by simp
      then have "a div PAGE_SIZE = k + (a - start) div PAGE_SIZE" by (metis PAGE_SIZE_def div_mult_self4 zero_neq_numeral add.commute)
      ultimately show ?thesis by simp
    qed
    ultimately show ?thesis
      using pmm_mark_region_used_spec(2) [OF small, of start p "a div PAGE_SIZE"] a(3) mi(6) S(2) k by (simp add: PAGE_SIZE_def)
  qed
  then show ?thesis using hb t mi(1) S(1) by (auto simp: PAGE_SIZE_def)
qed

theorem heap_init_correct_witness:
  "\<exists>start. heap_start boot_heap = Some start \<and> 0x200000 \<le> start \<and> heap_ok boot_heap [start]"
proof -
  have ke: "(0x200000 :: nat) \<le> 2 ^ 32" by simp
  show ?thesis
    using heap_init_correct [OF ke surjective_pairing [of "mm_init None 0x200000 _ blank_pmm"]] unfolding boot_heap_def by auto
qed

text \<open>The integrity check of the heap ends on every well-formed heap. The blocks in use always pass; the check halts
  exactly when the last word of some free block is not the footer mark, which nothing writes there.\<close>

lemma heap_verify_terminates:
  assumes "heap_ok s bs" "\<And>b n. allocated s bs b = Some n \<Longrightarrow> word_at (b + HDR + n - 4) = footer_at s (b + HDR + n - 4)"
  shows "mm_verify_heap word_at s =
    Some (if \<exists>b. b \<in> set bs \<and> bh_is_free (hdr s b) \<and> word_at (b + HDR + bh_size (hdr s b) - 4) \<noteq> HEAP_FOOTER_MAGIC
          then Inl (Panic ''Heap corruption: Bad footer magic number in block'') else Inr ())"
proof -
  have B: "blocks_ok s ([] @ bs)" using assms(1) by (simp add: heap_ok_def)
  have st: "heap_start s \<noteq> None" "mm_initialized s" using B by (auto simp: blocks_ok_def)
  have fa: "footer_addr b (bsz s b) = b + HDR + bsz s b - 4" if "b \<in> set bs" for b
    using blocks_bounds(3,4) [of s bs b] B that by (simp add: footer_addr_def wrap_simps HDR_def NODE_def)
  have live: "word_at (b + HDR + bsz s b - 4) = HEAP_FOOTER_MAGIC" if "b \<in> set bs" "\<not> bfree s b" for b
  proof -
    have "allocated s bs b = Some (bsz s b)" using that by (simp add: allocated_def)
    then show ?thesis using assms by (simp add: heap_ok_def)
  qed
  have "(\<forall>b \<in> set bs. word_at (footer_addr b (bsz s b)) = HEAP_FOOTER_MAGIC) \<longleftrightarrow>
    \<not> (\<exists>b. b \<in> set bs \<and> bh_is_free (hdr s b) \<and> word_at (b + HDR + bh_size (hdr s b) - 4) \<noteq> HEAP_FOOTER_MAGIC)"
    using fa live by (auto simp: bfree_def bsz_def)
  then show ?thesis
    using verify_loop_ok [OF B, of word_at] blocks_first [of s bs] B st by (simp add: mm_verify_heap_def)
qed

text \<open>The check halts on the heap that \<open>mm_init\<close> leaves in a zeroed memory: its one block is free.\<close>

lemma heap_verify_terminates_witness:
  "mm_verify_heap (\<lambda>_. 0) boot_heap = Some (Inl (Panic ''Heap corruption: Bad footer magic number in block''))"
  using heap_verify_terminates [OF boot_heap_ok(1), of "\<lambda>_. 0"] boot_heap_ok(2,4) by (simp add: HEAP_FOOTER_MAGIC_def bfree_def)

end
