(* ===== verification/Vmm.thy ===== *)
theory Vmm
  imports Pmm
begin

text \<open>
  The virtual memory manager (\<^verbatim>\<open>kernel/mm/vmm.c\<close>): four-level page tables in physical memory, which the
  kernel reaches through its identity map, on top of the page allocator of \<open>Pmm\<close>. The state is physical
  memory as 64-bit words (word \<open>w\<close> is at address \<open>8 * w\<close>), the allocator with the sector cache it may empty, the register CR3, and
  what a TLB shootdown touches. Addresses are numbers, table entries are 64-bit words; the address 0 is the
  null pointer. A failed assertion of the allocator stops the machine: the operation yields \<open>Inl\<close>.
\<close>

section \<open>Constants\<close>

definition PAGE_PRESENT :: u64 where "PAGE_PRESENT = 0x1"
definition PAGE_WRITE :: u64 where "PAGE_WRITE = 0x2"
definition PAGE_USER :: u64 where "PAGE_USER = 0x4"
definition PAGE_PWT :: u64 where "PAGE_PWT = 0x8"
definition PAGE_PCD :: u64 where "PAGE_PCD = 0x10"
definition PAGE_HUGE :: u64 where "PAGE_HUGE = 0x80"
definition PAGE_COW :: u64 where "PAGE_COW = 0x200"
definition PAGE_ADDR_MASK :: u64 where "PAGE_ADDR_MASK = 0x000FFFFFFFFFF000"

definition PML4_INDEX :: "nat \<Rightarrow> nat" where "PML4_INDEX addr = (addr div 2 ^ 39) mod 512"
definition PDPT_INDEX :: "nat \<Rightarrow> nat" where "PDPT_INDEX addr = (addr div 2 ^ 30) mod 512"
definition PD_INDEX :: "nat \<Rightarrow> nat" where "PD_INDEX addr = (addr div 2 ^ 21) mod 512"
definition PT_INDEX :: "nat \<Rightarrow> nat" where "PT_INDEX addr = (addr div 2 ^ 12) mod 512"

definition USER_BASE :: nat where "USER_BASE = 0x200000000"
definition USER_LIMIT :: nat where "USER_LIMIT = 0x00007FFFFFFFFFFF"

definition HAL_MEM_WRITE :: u32 where "HAL_MEM_WRITE = 2"
definition HAL_MEM_USER :: u32 where "HAL_MEM_USER = 8"
definition HAL_MEM_CACHE_DISABLE :: u32 where "HAL_MEM_CACHE_DISABLE = 16"
definition HAL_MEM_WRITE_COMBINING :: u32 where "HAL_MEM_WRITE_COMBINING = 128"

section \<open>State\<close>

text \<open>
  \<open>tlb_acks k\<close> is the value of \<^verbatim>\<open>tlb_ack_count\<close>, which the other processors increment, in the \<open>k\<close>-th turn of
  the wait loop; \<open>ipis\<close> are the interrupts sent (target and address), \<open>invlpgs\<close> the local invalidations,
  and \<open>tlb_timeouts\<close> counts the reports of a shootdown that was not answered in time.
\<close>

record vm =
  pmem :: "nat \<Rightarrow> u64"
  frames :: pmm
  cache :: bcache_state
  cr3 :: nat
  vm_cpus :: nat
  vm_my_id :: nat
  vm_online :: "nat \<Rightarrow> bool"
  vm_apic_id :: "nat \<Rightarrow> nat"
  tlb_acks :: "nat \<Rightarrow> nat"
  tlb_flush_addr :: nat
  ipis :: "(nat \<times> nat) list"
  invlpgs :: "nat list"
  tlb_timeouts :: nat
  vmm_initialized_flag :: bool

type_synonym 'a vm_result = "panic + ('a \<times> vm)"

definition vbind :: "'a vm_result \<Rightarrow> ('a \<Rightarrow> vm \<Rightarrow> 'b vm_result) \<Rightarrow> 'b vm_result" where
  "vbind m f = (case m of Inl e \<Rightarrow> Inl e | Inr (x, s) \<Rightarrow> f x s)"

lemma vbind_simps [simp]: "vbind (Inr (x, s)) f = f x s" "vbind (Inl e) f = Inl e"
  by (simp_all add: vbind_def)

text \<open>Table entries, and the page-sized \<open>memset\<close> and \<open>memcpy\<close>.\<close>

definition entry :: "vm \<Rightarrow> nat \<Rightarrow> nat \<Rightarrow> u64" where
  "entry s table i = pmem s (table div 8 + i)"

definition set_entry :: "nat \<Rightarrow> nat \<Rightarrow> u64 \<Rightarrow> vm \<Rightarrow> vm" where
  "set_entry table i e s = s\<lparr>pmem := (pmem s)(table div 8 + i := e)\<rparr>"

definition entry_addr :: "u64 \<Rightarrow> nat" where
  "entry_addr e = unat (e AND PAGE_ADDR_MASK)"

definition has :: "u64 \<Rightarrow> u64 \<Rightarrow> bool" where
  "has e flag \<longleftrightarrow> e AND flag \<noteq> 0"

definition write_page :: "nat \<Rightarrow> (nat \<Rightarrow> u64) \<Rightarrow> vm \<Rightarrow> vm" where
  "write_page a f s = s\<lparr>pmem := (\<lambda>w. if a div 8 \<le> w \<and> w < a div 8 + 512 then f (w - a div 8) else pmem s w)\<rparr>"

definition zero_page :: "nat \<Rightarrow> vm \<Rightarrow> vm" where
  "zero_page a s = write_page a (\<lambda>_. 0) s"

definition copy_page :: "nat \<Rightarrow> nat \<Rightarrow> vm \<Rightarrow> vm" where
  "copy_page d a s = write_page d (\<lambda>i. entry s a i) s"

text \<open>The calls to the page allocator.\<close>

definition vm_alloc :: "vm \<Rightarrow> nat vm_result" where
  "vm_alloc s =
     (case pmm_alloc_page (frames s, cache s) of
        Inl e \<Rightarrow> Inl e
      | Inr (a, p, c) \<Rightarrow> Inr (a, s\<lparr>frames := p, cache := c\<rparr>))"

definition with_frames :: "(pmm \<Rightarrow> panic + pmm) \<Rightarrow> vm \<Rightarrow> unit vm_result" where
  "with_frames f s = (case f (frames s) of Inl e \<Rightarrow> Inl e | Inr p \<Rightarrow> Inr ((), s\<lparr>frames := p\<rparr>))"

section \<open>TLB shootdown\<close>

definition invlpg :: "nat \<Rightarrow> vm \<Rightarrow> vm" where
  "invlpg addr s = s\<lparr>invlpgs := invlpgs s @ [addr]\<rparr>"

definition vmm_flush_tlb_local :: "nat \<Rightarrow> vm \<Rightarrow> vm" where
  "vmm_flush_tlb_local addr s = invlpg addr s"

text \<open>The loop that sends the interrupts; \<open>n\<close> processors are left. The second component counts them.\<close>

fun send_ipis :: "nat \<Rightarrow> nat \<Rightarrow> nat \<Rightarrow> vm \<Rightarrow> nat \<times> vm" where
  "send_ipis 0 i acks s = (acks, s)"
| "send_ipis (Suc n) i acks s =
     (if i = vm_my_id s \<or> \<not> vm_online s i then send_ipis n (Suc i) acks s
      else send_ipis n (Suc i) (Suc acks) (s\<lparr>ipis := ipis s @ [(vm_apic_id s i, tlb_flush_addr s)]\<rparr>))"

text \<open>The wait loop with its timeout; the result is whether every processor answered.\<close>

fun wait_acks :: "(nat \<Rightarrow> nat) \<Rightarrow> nat \<Rightarrow> nat \<Rightarrow> nat \<Rightarrow> bool" where
  "wait_acks acks expected k 0 = False"
| "wait_acks acks expected k (Suc timeout) =
     (if acks k < expected then (if timeout = 0 then False else wait_acks acks expected (Suc k) timeout) else True)"

definition vmm_flush_tlb_smp :: "nat \<Rightarrow> vm \<Rightarrow> vm" where
  "vmm_flush_tlb_smp addr s =
     (if vm_cpus s \<le> 1 then invlpg addr s
      else
        case send_ipis (vm_cpus s) 0 0 (s\<lparr>tlb_flush_addr := addr\<rparr>) of
          (expected_acks, s1) \<Rightarrow>
            if expected_acks > 0 \<and> \<not> wait_acks (tlb_acks s1) expected_acks 0 50000000
            then invlpg addr (s1\<lparr>tlb_timeouts := Suc (tlb_timeouts s1)\<rparr>)
            else invlpg addr s1)"

section \<open>Walking and changing the tables\<close>

definition get_active_pml4 :: "vm \<Rightarrow> nat" where
  "get_active_pml4 s = unat (of_nat (cr3 s) AND PAGE_ADDR_MASK)"

definition split_entry :: "u64 \<Rightarrow> nat \<Rightarrow> u64" where
  "split_entry e i =
     ((e AND PAGE_ADDR_MASK) + of_nat (i * PAGE_SIZE)) OR ((e AND NOT PAGE_ADDR_MASK) AND NOT PAGE_HUGE)"

definition table_link :: "nat \<Rightarrow> u64" where
  "table_link a = of_nat a OR PAGE_PRESENT OR PAGE_WRITE OR PAGE_USER"

definition get_next_table :: "nat \<Rightarrow> nat \<Rightarrow> bool \<Rightarrow> vm \<Rightarrow> nat vm_result" where
  "get_next_table table index allocate s =
     (let e = entry s table index in
      if has e PAGE_PRESENT then
        (if has e PAGE_HUGE then
           vbind (vm_alloc s) (\<lambda>new_pt s1.
             if new_pt = 0 then Inr (0, s1)
             else
               let s2 = zero_page new_pt s1;
                   s3 = write_page new_pt (split_entry e) s2
               in Inr (new_pt, set_entry table index (table_link new_pt) s3))
         else Inr (entry_addr e, s))
      else if \<not> allocate then Inr (0, s)
      else
        vbind (vm_alloc s) (\<lambda>new_table s1.
          if new_table = 0 then Inr (0, s1)
          else Inr (new_table, set_entry table index (table_link new_table) (zero_page new_table s1))))"

text \<open>The three steps down to the page table that \<open>vmm_map_page\<close>, \<open>vmm_unmap_page\<close> and the fault handler share;
  0 when one of them returns NULL.\<close>

definition walk_to_pt :: "nat \<Rightarrow> bool \<Rightarrow> vm \<Rightarrow> nat vm_result" where
  "walk_to_pt virt_addr allocate s =
     vbind (get_next_table (get_active_pml4 s) (PML4_INDEX virt_addr) allocate s) (\<lambda>pdpt s1.
       if pdpt = 0 then Inr (0, s1)
       else vbind (get_next_table pdpt (PDPT_INDEX virt_addr) allocate s1) (\<lambda>pd s2.
         if pd = 0 then Inr (0, s2)
         else get_next_table pd (PD_INDEX virt_addr) allocate s2))"

definition BOOT_PML4_ADDR :: nat where "BOOT_PML4_ADDR = 0x0A000"

definition vmm_get_pml4 :: "vm \<Rightarrow> nat" where
  "vmm_get_pml4 s = BOOT_PML4_ADDR"

definition vmm_init :: "vm \<Rightarrow> vm" where
  "vmm_init s = s\<lparr>vmm_initialized_flag := True\<rparr>"

definition vmm_map_page :: "u64 \<Rightarrow> nat \<Rightarrow> u64 \<Rightarrow> vm \<Rightarrow> int vm_result" where
  "vmm_map_page phys_addr virt_addr flags s =
     vbind (walk_to_pt virt_addr True s) (\<lambda>pt s1.
       if pt = 0 then Inr (-1, s1)
       else Inr (0, vmm_flush_tlb_smp virt_addr
              (set_entry pt (PT_INDEX virt_addr) ((phys_addr AND PAGE_ADDR_MASK) OR flags) s1)))"

definition vmm_unmap_page :: "nat \<Rightarrow> vm \<Rightarrow> unit vm_result" where
  "vmm_unmap_page virt_addr s =
     vbind (walk_to_pt virt_addr False s) (\<lambda>pt s1.
       if pt = 0 then Inr ((), s1)
       else if \<not> has (entry s1 pt (PT_INDEX virt_addr)) PAGE_PRESENT then Inr ((), s1)
       else Inr ((), vmm_flush_tlb_smp virt_addr (set_entry pt (PT_INDEX virt_addr) 0 s1)))"

definition vmm_virt_to_phys :: "vm \<Rightarrow> nat \<Rightarrow> nat" where
  "vmm_virt_to_phys s virt_addr =
     (if virt_addr = 0 then 0
      else
        let e4 = entry s (get_active_pml4 s) (PML4_INDEX virt_addr) in
        if \<not> has e4 PAGE_PRESENT then 0
        else
          let e3 = entry s (entry_addr e4) (PDPT_INDEX virt_addr) in
          if \<not> has e3 PAGE_PRESENT then 0
          else if has e3 PAGE_HUGE then add64 (unat (e3 AND 0xFFFFFC0000000)) (virt_addr mod 2 ^ 30)
          else
            let e2 = entry s (entry_addr e3) (PD_INDEX virt_addr) in
            if \<not> has e2 PAGE_PRESENT then 0
            else if has e2 PAGE_HUGE then add64 (unat (e2 AND 0xFFFFFFFFFE00000)) (virt_addr mod 2 ^ 21)
            else
              let e1 = entry s (entry_addr e2) (PT_INDEX virt_addr) in
              if \<not> has e1 PAGE_PRESENT then 0
              else add64 (entry_addr e1) (virt_addr mod 2 ^ 12))"

section \<open>The hardware abstraction layer\<close>

definition hal_flags :: "u32 \<Rightarrow> u64" where
  "hal_flags flags =
     (let f0 = PAGE_PRESENT;
          f1 = (if flags AND HAL_MEM_WRITE \<noteq> 0 then f0 OR PAGE_WRITE else f0);
          f2 = (if flags AND HAL_MEM_USER \<noteq> 0 then f1 OR PAGE_USER else f1);
          f3 = (if flags AND HAL_MEM_CACHE_DISABLE \<noteq> 0 then f2 OR PAGE_PCD else f2)
      in if flags AND HAL_MEM_WRITE_COMBINING \<noteq> 0 then (f3 OR PAGE_PWT) AND NOT PAGE_PCD else f3)"

definition hal_mem_map :: "u64 \<Rightarrow> nat \<Rightarrow> u32 \<Rightarrow> vm \<Rightarrow> int vm_result" where
  "hal_mem_map phys_addr virt_addr flags s = vmm_map_page phys_addr virt_addr (hal_flags flags) s"

definition hal_mem_unmap :: "nat \<Rightarrow> vm \<Rightarrow> int vm_result" where
  "hal_mem_unmap virt_addr s = vbind (vmm_unmap_page virt_addr s) (\<lambda>_ s1. Inr (0, s1))"

definition hal_mem_get_phys :: "vm \<Rightarrow> nat \<Rightarrow> nat" where
  "hal_mem_get_phys s virt_addr = vmm_virt_to_phys s virt_addr"

section \<open>Copying an address space\<close>

text \<open>The last level: share the page copy-on-write, or copy it.\<close>

definition clone_page :: "nat \<Rightarrow> nat \<Rightarrow> bool \<Rightarrow> nat \<Rightarrow> vm \<Rightarrow> unit vm_result" where
  "clone_page dest src cow i s =
     (let e = entry s src i; phys = entry_addr e; flags = e AND NOT PAGE_ADDR_MASK in
      if \<not> has flags PAGE_USER then Inr ((), set_entry dest i e s)
      else if cow then
        let s1 = set_entry src i ((e OR PAGE_COW) AND NOT PAGE_WRITE) s
        in with_frames (pmm_ref_page phys) (set_entry dest i (entry s1 src i) s1)
      else
        vbind (vm_alloc s) (\<lambda>new_page s1.
          if new_page = 0 then Inr ((), s1)
          else Inr ((), set_entry dest i (of_nat new_page OR flags) (copy_page new_page phys s1))))"

text \<open>The loop from entry \<open>i\<close> on; \<open>return\<close> on a failed allocation leaves this level only.\<close>

function clone_pt_recursive :: "nat \<Rightarrow> nat \<Rightarrow> nat \<Rightarrow> bool \<Rightarrow> nat \<Rightarrow> vm \<Rightarrow> unit vm_result" where
  "clone_pt_recursive dest src level cow i s =
     (if i \<ge> 512 then Inr ((), s)
      else
        let e = entry s src i in
        if \<not> has e PAGE_PRESENT then clone_pt_recursive dest src level cow (Suc i) s
        else if level = 4 \<and> i \<noteq> 0 \<or> level = 3 \<and> i < 8
          then clone_pt_recursive dest src level cow (Suc i) (set_entry dest i e s)
        else if level > 1 then
          (case vm_alloc s of
             Inl e \<Rightarrow> Inl e
           | Inr (new_table, s1) \<Rightarrow>
               if new_table = 0 then Inr ((), s1)
               else
                 (case clone_pt_recursive new_table (entry_addr e) (level - 1) cow 0 (zero_page new_table s1) of
                    Inl e \<Rightarrow> Inl e
                  | Inr (_, s2) \<Rightarrow>
                      clone_pt_recursive dest src level cow (Suc i)
                        (set_entry dest i (of_nat new_table OR (entry s2 src i AND 0xFFF)) s2)))
        else
          (case clone_page dest src cow i s of
             Inl e \<Rightarrow> Inl e
           | Inr (_, s1) \<Rightarrow> clone_pt_recursive dest src level cow (Suc i) s1))"
  by pat_completeness auto
termination
  by (relation "measures [\<lambda>(dest, src, level, cow, i, s). level, \<lambda>(dest, src, level, cow, i, s). 512 - i]") auto

definition vmm_clone_pml4 :: "bool \<Rightarrow> vm \<Rightarrow> nat vm_result" where
  "vmm_clone_pml4 cow s =
     vbind (vm_alloc s) (\<lambda>new_pml4 s1.
       if new_pml4 = 0 then Inr (0, s1)
       else vbind (clone_pt_recursive new_pml4 (get_active_pml4 s1) 4 cow 0 (zero_page new_pml4 s1))
              (\<lambda>_ s2. Inr (new_pml4, s2)))"

section \<open>Page faults\<close>

definition vmm_resolve_cow :: "nat \<Rightarrow> nat \<Rightarrow> nat \<Rightarrow> vm \<Rightarrow> int vm_result" where
  "vmm_resolve_cow addr pt pt_idx s =
     (let e = entry s pt pt_idx; old_phys = entry_addr e; flags = e AND NOT PAGE_ADDR_MASK in
      if \<not> has e PAGE_COW then Inr (0, s)
      else if pmm_get_ref_count old_phys (frames s) = 1
        then Inr (1, vmm_flush_tlb_smp addr (set_entry pt pt_idx ((e AND NOT PAGE_COW) OR PAGE_WRITE) s))
      else
        vbind (vm_alloc s) (\<lambda>new_phys s1.
          if new_phys = 0 then Inr (0, s1)
          else
            let s2 = copy_page new_phys old_phys s1;
                s3 = set_entry pt pt_idx (of_nat new_phys OR (flags AND NOT PAGE_COW) OR PAGE_WRITE) s2
            in vbind (with_frames (pmm_unref_page old_phys) s3) (\<lambda>_ s4. Inr (1, vmm_flush_tlb_smp addr s4))))"

definition vmm_handle_page_fault :: "nat \<Rightarrow> u64 \<Rightarrow> vm \<Rightarrow> int vm_result" where
  "vmm_handle_page_fault addr error_code s =
     (if error_code AND 1 \<noteq> 0 \<and> error_code AND 2 \<noteq> 0 \<and> error_code AND 4 \<noteq> 0 then
        vbind (walk_to_pt addr False s) (\<lambda>pt s1.
          if pt = 0 then Inr (0, s1) else vmm_resolve_cow addr pt (PT_INDEX addr) s1)
      else Inr (0, s))"

section \<open>Access by user programs\<close>

definition vmm_validate_user_ptr :: "nat \<Rightarrow> nat \<Rightarrow> bool" where
  "vmm_validate_user_ptr start sz =
     (let end_addr = add64 start sz in
      if end_addr < start \<or> sz > add64 (sub64 USER_LIMIT start) 1 then False
      else if start < USER_BASE then False
      else if end_addr > USER_LIMIT + 1 then False
      else True)"

text \<open>The walk of one page of the access check: the page table, when every level down to the page is present
  and for users.\<close>

definition user_pt :: "vm \<Rightarrow> nat \<Rightarrow> nat option" where
  "user_pt s v =
     (let e4 = entry s (get_active_pml4 s) (PML4_INDEX v) in
      if \<not> has e4 PAGE_PRESENT \<or> \<not> has e4 PAGE_USER then None
      else
        let e3 = entry s (entry_addr e4) (PDPT_INDEX v) in
        if \<not> has e3 PAGE_PRESENT \<or> \<not> has e3 PAGE_USER then None
        else
          let e2 = entry s (entry_addr e3) (PD_INDEX v) in
          if \<not> has e2 PAGE_PRESENT \<or> \<not> has e2 PAGE_USER then None
          else
            let e1 = entry s (entry_addr e2) (PT_INDEX v) in
            if \<not> has e1 PAGE_PRESENT \<or> \<not> has e1 PAGE_USER then None
            else Some (entry_addr e2))"

text \<open>The loop over the pages; \<open>v\<close> and \<open>end_page\<close> are page aligned.\<close>

function access_loop :: "nat \<Rightarrow> bool \<Rightarrow> nat \<Rightarrow> vm \<Rightarrow> bool vm_result" where
  "access_loop end_page write v s =
     (if v < end_page then
        case user_pt s v of
          None \<Rightarrow> Inr (False, s)
        | Some pt \<Rightarrow>
            let e = entry s pt (PT_INDEX v) in
            if \<not> write \<or> has e PAGE_WRITE then access_loop end_page write (v + PAGE_SIZE) s
            else if has e PAGE_COW then
              (case vmm_resolve_cow v pt (PT_INDEX v) s of
                 Inl e \<Rightarrow> Inl e
               | Inr (r, s1) \<Rightarrow> if r = 0 then Inr (False, s1) else access_loop end_page write (v + PAGE_SIZE) s1)
            else Inr (False, s)
      else Inr (True, s))"
  by pat_completeness auto
termination
  by (relation "measure (\<lambda>(end_page, write, v, s). end_page - v)") (auto simp: PAGE_SIZE_def)

definition vmm_verify_user_access :: "nat \<Rightarrow> nat \<Rightarrow> bool \<Rightarrow> vm \<Rightarrow> bool vm_result" where
  "vmm_verify_user_access addr sz write s =
     (if \<not> vmm_validate_user_ptr addr sz then Inr (False, s)
      else
        let end_addr = add64 addr sz;
            start_page = addr div PAGE_SIZE * PAGE_SIZE;
            end_page = PAGE_ALIGN_UP end_addr
        in access_loop end_page write start_page s)"

definition vmm_is_user_page :: "vm \<Rightarrow> nat \<Rightarrow> bool" where
  "vmm_is_user_page s virt_addr =
     (let e4 = entry s (get_active_pml4 s) (PML4_INDEX virt_addr) in
      if \<not> has e4 PAGE_PRESENT then False
      else if \<not> has e4 PAGE_USER then False
      else
        let e3 = entry s (entry_addr e4) (PDPT_INDEX virt_addr) in
        if \<not> has e3 PAGE_PRESENT then False
        else if \<not> has e3 PAGE_USER then False
        else if has e3 PAGE_HUGE then True
        else
          let e2 = entry s (entry_addr e3) (PD_INDEX virt_addr) in
          if \<not> has e2 PAGE_PRESENT then False
          else if \<not> has e2 PAGE_USER then False
          else if has e2 PAGE_HUGE then True
          else
            let e1 = entry s (entry_addr e2) (PT_INDEX virt_addr) in
            if \<not> has e1 PAGE_PRESENT then False
            else if \<not> has e1 PAGE_USER then False
            else True)"

text \<open>The byte the processor reads at a virtual address of the active address space.\<close>

definition user_byte :: "vm \<Rightarrow> nat \<Rightarrow> u8" where
  "user_byte s va =
     (let pa = vmm_virt_to_phys s va in ucast (drop_bit (8 * (pa mod 8)) (pmem s (pa div 8))))"

text \<open>A read at a virtual address: if the processor finds an entry that is not present on its walk, the kernel takes a page fault, and the handler
  (\<^verbatim>\<open>arch/x86_64/idt.c\<close>) ends the task or panics; the reading function does not go on.\<close>

definition va_present :: "vm \<Rightarrow> nat \<Rightarrow> bool" where
  "va_present s va \<longleftrightarrow>
     (let e4 = entry s (get_active_pml4 s) (PML4_INDEX va);
          e3 = entry s (entry_addr e4) (PDPT_INDEX va);
          e2 = entry s (entry_addr e3) (PD_INDEX va);
          e1 = entry s (entry_addr e2) (PT_INDEX va)
      in has e4 PAGE_PRESENT \<and> has e3 PAGE_PRESENT \<and> (has e3 PAGE_HUGE \<or> has e2 PAGE_PRESENT \<and> (has e2 PAGE_HUGE \<or> has e1 PAGE_PRESENT)))"

definition user_read :: "nat \<Rightarrow> vm \<Rightarrow> u8 vm_result" where
  "user_read va s = (if va_present s va then Inr (user_byte s va, s) else Inl (Panic ''page fault''))"

text \<open>The scan of \<open>vmm_check_user_string\<close> from offset \<open>i\<close> on, with \<open>n\<close> bytes left.\<close>

fun check_string_loop :: "nat \<Rightarrow> nat \<Rightarrow> nat \<Rightarrow> vm \<Rightarrow> bool vm_result" where
  "check_string_loop str i 0 s = Inr (False, s)"
| "check_string_loop str i (Suc n) s =
     (let addr = str + i in
      vbind (if i = 0 \<or> addr mod PAGE_SIZE = 0 then vmm_verify_user_access addr 1 False s else Inr (True, s))
        (\<lambda>ok s1. if \<not> ok then Inr (False, s1)
                 else vbind (user_read addr s1) (\<lambda>c s2.
                   if c = 0 then Inr (True, s2) else check_string_loop str (Suc i) n s2)))"

definition vmm_check_user_string :: "nat \<Rightarrow> nat \<Rightarrow> vm \<Rightarrow> bool vm_result" where
  "vmm_check_user_string str max_len s =
     (if str = 0 then Inr (False, s)
      else if \<not> vmm_validate_user_ptr str 1 then Inr (False, s)
      else
        let remaining = add64 (sub64 USER_LIMIT str) 1;
            scan_len = (if remaining < max_len then remaining else max_len)
        in check_string_loop str 0 scan_len s)"

text \<open>The copy loop of \<open>vmm_strncpy_from_user\<close>; \<open>buf\<close> is the kernel buffer, \<open>n\<close> bytes of room are left.\<close>

fun strncpy_loop :: "nat \<Rightarrow> nat \<Rightarrow> nat \<Rightarrow> u8 list \<Rightarrow> vm \<Rightarrow> (int \<times> u8 list) vm_result" where
  "strncpy_loop src copied 0 buf s = Inr ((to_int32 (copied mod 2 ^ 32), buf[copied - 1 := 0]), s)"
| "strncpy_loop src copied (Suc n) buf s =
     (let addr = add64 src copied in
      vbind (if copied = 0 \<or> addr mod PAGE_SIZE = 0 then vmm_verify_user_access addr 1 False s else Inr (True, s))
        (\<lambda>ok s1. if \<not> ok then Inr ((- EFAULT, buf), s1)
                 else vbind (user_read addr s1) (\<lambda>c s2.
                   let buf1 = buf[copied := c] in
                   if c = 0 then Inr ((to_int32 ((copied + 1) mod 2 ^ 32), buf1), s2)
                   else strncpy_loop src (Suc copied) n buf1 s2)))"

definition vmm_strncpy_from_user :: "u8 list option \<Rightarrow> nat \<Rightarrow> nat \<Rightarrow> vm \<Rightarrow> (int \<times> u8 list option) vm_result" where
  "vmm_strncpy_from_user dst src mx s =
     (case dst of
        None \<Rightarrow> Inr ((- EINVAL, None), s)
      | Some buf \<Rightarrow>
          if src = 0 \<or> mx = 0 then Inr ((- EINVAL, dst), s)
          else vbind (strncpy_loop src 0 mx buf s) (\<lambda>(r, buf1) s1. Inr ((r, Some buf1), s1)))"

section \<open>Tearing an address space down\<close>

function free_pt_recursive :: "nat \<Rightarrow> nat \<Rightarrow> nat \<Rightarrow> vm \<Rightarrow> unit vm_result" where
  "free_pt_recursive table level i s =
     (if i \<ge> 512 then Inr ((), s)
      else
        let e = entry s table i in
        if \<not> has e PAGE_PRESENT then free_pt_recursive table level (Suc i) s
        else if \<not> has e PAGE_USER then free_pt_recursive table level (Suc i) s
        else if (level = 3 \<or> level = 2) \<and> has e PAGE_HUGE then
          (case with_frames (pmm_unref_page (entry_addr e)) s of
             Inl e \<Rightarrow> Inl e
           | Inr (_, s1) \<Rightarrow> free_pt_recursive table level (Suc i) s1)
        else if level > 1 then
          (case free_pt_recursive (entry_addr e) (level - 1) 0 s of
             Inl e \<Rightarrow> Inl e
           | Inr (_, s1) \<Rightarrow>
               (case with_frames (pmm_free_page (entry_addr e)) s1 of
                  Inl e \<Rightarrow> Inl e
                | Inr (_, s2) \<Rightarrow> free_pt_recursive table level (Suc i) s2))
        else
          (case with_frames (pmm_unref_page (entry_addr e)) s of
             Inl e \<Rightarrow> Inl e
           | Inr (_, s1) \<Rightarrow> free_pt_recursive table level (Suc i) s1))"
  by pat_completeness auto
termination
  by (relation "measures [\<lambda>(table, level, i, s). level, \<lambda>(table, level, i, s). 512 - i]") auto

definition vmm_destroy_pml4 :: "nat \<Rightarrow> vm \<Rightarrow> unit vm_result" where
  "vmm_destroy_pml4 pml4_phys s =
     (if pml4_phys = 0 then Inr ((), s)
      else vbind (free_pt_recursive pml4_phys 4 0 s) (\<lambda>_ s1. with_frames (pmm_free_page pml4_phys) s1))"

text \<open>The loops unfold only where a proof asks for it.\<close>

declare clone_pt_recursive.simps [simp del] access_loop.simps [simp del] free_pt_recursive.simps [simp del]

end
