(* ===== verification/VmmMap.thy ===== *)
theory VmmMap
  imports Vmm
begin

text \<open>
  The page tables as a tree and what mapping, unmapping and translating do to the address map that they stand
  for. A table is named by the path of indices that leads to it from the root.
\<close>

section \<open>Entries\<close>

lemma flag_bits:
  "has e PAGE_PRESENT \<longleftrightarrow> bit e 0" "has e PAGE_WRITE \<longleftrightarrow> bit e 1" "has e PAGE_USER \<longleftrightarrow> bit e 2"
  "has e PAGE_HUGE \<longleftrightarrow> bit e 7" "has e PAGE_COW \<longleftrightarrow> bit e 9"
proof -
  have *: "has e (2 ^ k) \<longleftrightarrow> bit e k" if "k < 64" for k
    using and_exp_eq_0_iff [of e k] that by (simp add: has_def)
  show "has e PAGE_PRESENT \<longleftrightarrow> bit e 0" "has e PAGE_WRITE \<longleftrightarrow> bit e 1" "has e PAGE_USER \<longleftrightarrow> bit e 2"
    "has e PAGE_HUGE \<longleftrightarrow> bit e 7" "has e PAGE_COW \<longleftrightarrow> bit e 9"
    using * [of 0] * [of 1] * [of 2] * [of 7] * [of 9]
    by (simp_all add: PAGE_PRESENT_def PAGE_WRITE_def PAGE_USER_def PAGE_HUGE_def PAGE_COW_def)
qed

lemma bit_flags:
  "bit PAGE_PRESENT n \<longleftrightarrow> n = 0" "bit PAGE_WRITE n \<longleftrightarrow> n = 1" "bit PAGE_USER n \<longleftrightarrow> n = 2"
  "bit PAGE_HUGE n \<longleftrightarrow> n = 7" "bit PAGE_COW n \<longleftrightarrow> n = 9"
proof -
  have *: "bit (2 ^ k :: u64) n \<longleftrightarrow> n = k" if "k < 64" for k using that by simp
  show "bit PAGE_PRESENT n \<longleftrightarrow> n = 0" "bit PAGE_WRITE n \<longleftrightarrow> n = 1" "bit PAGE_USER n \<longleftrightarrow> n = 2"
    "bit PAGE_HUGE n \<longleftrightarrow> n = 7" "bit PAGE_COW n \<longleftrightarrow> n = 9"
    using * [of 0] * [of 1] * [of 2] * [of 7] * [of 9]
    by (simp_all add: PAGE_PRESENT_def PAGE_WRITE_def PAGE_USER_def PAGE_HUGE_def PAGE_COW_def)
qed

lemma bit_addr_mask: "bit PAGE_ADDR_MASK n \<longleftrightarrow> 12 \<le> n \<and> n < 52"
proof -
  have m: "PAGE_ADDR_MASK = push_bit 12 (mask 40)" by (simp add: PAGE_ADDR_MASK_def mask_eq_exp_minus_1 push_bit_eq_mult)
  show ?thesis unfolding m by (auto simp: bit_push_bit_iff bit_mask_iff)
qed

lemma entry_addr_eq: "entry_addr e = unat e div 4096 mod 2 ^ 40 * 4096"
proof -
  have "e AND PAGE_ADDR_MASK = push_bit 12 (take_bit 40 (drop_bit 12 e))"
    by (rule bit_eqI) (auto simp: bit_and_iff bit_addr_mask bit_push_bit_iff bit_take_bit_iff bit_drop_bit_eq)
  moreover have "unat (push_bit 12 (take_bit 40 (drop_bit 12 e))) = take_bit 64 (push_bit 12 (take_bit 40 (drop_bit 12 (unat e))))"
  proof -
    have "take_bit 64 (unat e) = unat e" using unsigned_less [of e, where ?'a = nat] by (simp add: take_bit_nat_eq_self_iff)
    then show ?thesis by (simp add: unsigned_push_bit_eq unsigned_take_bit_eq unsigned_drop_bit_eq)
  qed
  moreover have "\<dots> = unat e div 4096 mod 2 ^ 40 * 4096"
    by (simp add: take_bit_eq_mod push_bit_eq_mult drop_bit_eq_div)
  ultimately show ?thesis by (simp add: entry_addr_def)
qed

lemma entry_addr_bounds: "4096 dvd entry_addr e" "entry_addr e < 2 ^ 52"
  by (auto simp: entry_addr_eq)

text \<open>A page address with flags outside the address bits.\<close>

lemma bit_page_addr:
  assumes "4096 dvd a" "a < 2 ^ 52" "bit (of_nat a :: u64) n"
  shows "12 \<le> n \<and> n < 52"
proof -
  have b: "bit a n" using assms(3) by (simp add: bit_of_nat_iff)
  obtain k where k: "a = 4096 * k" using assms(1) by (auto elim: dvdE)
  have "a = push_bit 12 k" by (simp add: k push_bit_eq_mult)
  then have "12 \<le> n" using b by (auto simp: bit_push_bit_iff)
  moreover have "take_bit 52 a = a" using assms(2) by (simp add: take_bit_nat_eq_self_iff)
  then have "n < 52" using b by (metis bit_take_bit_iff)
  ultimately show ?thesis by simp
qed

lemma unat_page_addr: "a < 2 ^ 52 \<Longrightarrow> unat (of_nat a :: u64) = a"
  by (simp add: unat_of_nat take_bit_nat_eq_self_iff)

lemma addr_flags:
  assumes "4096 dvd a" "a < 2 ^ 52" "f AND PAGE_ADDR_MASK = 0"
  shows "entry_addr (of_nat a OR f) = a" "n < 12 \<or> 52 \<le> n \<Longrightarrow> bit (of_nat a OR f) n \<longleftrightarrow> bit f n"
    "(of_nat a OR f) AND NOT PAGE_ADDR_MASK = f"
proof -
  have nf: "\<not> bit f k" if "12 \<le> k" "k < 52" for k
    using assms(3) that bit_addr_mask [of k] by (metis bit_0_eq bit_and_iff bot_apply bot_bool_def)
  note ba = bit_page_addr [OF assms(1,2)]
  have "(of_nat a OR f) AND PAGE_ADDR_MASK = of_nat a"
    by (rule bit_eqI) (use ba nf in \<open>auto simp: bit_and_iff bit_or_iff bit_addr_mask\<close>)
  then show "entry_addr (of_nat a OR f) = a" using unat_page_addr [OF assms(2)] by (simp add: entry_addr_def)
  show "bit (of_nat a OR f) n \<longleftrightarrow> bit f n" if "n < 12 \<or> 52 \<le> n"
    using ba [of n] that by (auto simp: bit_or_iff)
  show "(of_nat a OR f) AND NOT PAGE_ADDR_MASK = f"
    by (rule bit_eqI) (use ba nf in \<open>auto simp: bit_and_iff bit_or_iff bit_not_iff bit_addr_mask\<close>)
qed

lemma no_addr_bits: "(\<And>n. 12 \<le> n \<Longrightarrow> n < 52 \<Longrightarrow> \<not> bit f n) \<Longrightarrow> f AND PAGE_ADDR_MASK = 0"
  by (rule bit_eqI) (auto simp: bit_and_iff bit_addr_mask)

lemma table_link_bits:
  assumes "4096 dvd a" "a < 2 ^ 52"
  shows "entry_addr (table_link a) = a" "bit (table_link a) 0" "bit (table_link a) 1" "bit (table_link a) 2" "\<not> bit (table_link a) 7"
proof -
  have f: "(PAGE_PRESENT OR PAGE_WRITE OR PAGE_USER) AND PAGE_ADDR_MASK = 0"
    by (rule no_addr_bits) (auto simp: bit_or_iff bit_flags)
  have t: "table_link a = of_nat a OR (PAGE_PRESENT OR PAGE_WRITE OR PAGE_USER)" by (simp add: table_link_def or.assoc)
  show "entry_addr (table_link a) = a" unfolding t by (rule addr_flags(1) [OF assms f])
  show "bit (table_link a) 0" "bit (table_link a) 1" "bit (table_link a) 2" "\<not> bit (table_link a) 7"
    unfolding t using addr_flags(2) [OF assms f, of 7] by (auto simp: bit_or_iff bit_flags)
qed

text \<open>Entries of a split: with an aligned address no carry occurs.\<close>

definition huge_ok :: "u64 \<Rightarrow> bool" where
  "huge_ok e \<longleftrightarrow> (\<forall>n. 12 \<le> n \<and> n < 21 \<or> 52 \<le> n \<and> n < 60 \<longrightarrow> \<not> bit e n)"

lemma split_sum:
  assumes "huge_ok e" "l < 512"
  shows "(e AND PAGE_ADDR_MASK) + of_nat (l * PAGE_SIZE) = of_nat (entry_addr e + l * 4096)" "entry_addr e + l * 4096 < 2 ^ 52"
    "2097152 dvd entry_addr e"
proof -
  have "(of_nat (entry_addr e) :: u64) = e AND PAGE_ADDR_MASK" by (simp add: entry_addr_def)
  then show "(e AND PAGE_ADDR_MASK) + of_nat (l * PAGE_SIZE) = of_nat (entry_addr e + l * 4096)" by (simp add: PAGE_SIZE_def)
  have "e AND PAGE_ADDR_MASK = push_bit 21 (take_bit 31 (drop_bit 21 e))"
    using assms(1)
    by (intro bit_eqI) (auto simp: bit_and_iff bit_addr_mask bit_push_bit_iff bit_take_bit_iff bit_drop_bit_eq huge_ok_def not_less)
  moreover have "unat (push_bit 21 (take_bit 31 (drop_bit 21 e))) = take_bit 64 (push_bit 21 (take_bit 31 (drop_bit 21 (unat e))))"
  proof -
    have "take_bit 64 (unat e) = unat e" using unsigned_less [of e, where ?'a = nat] by (simp add: take_bit_nat_eq_self_iff)
    then show ?thesis by (simp add: unsigned_push_bit_eq unsigned_take_bit_eq unsigned_drop_bit_eq)
  qed
  moreover have "take_bit 64 (push_bit 21 (take_bit 31 (drop_bit 21 (unat e)))) = unat e div 2097152 mod 2 ^ 31 * 2097152"
    by (simp add: take_bit_eq_mod push_bit_eq_mult drop_bit_eq_div)
  ultimately have a: "entry_addr e = unat e div 2097152 mod 2 ^ 31 * 2097152" by (simp add: entry_addr_def)
  then show "2097152 dvd entry_addr e" by simp
  have "unat e div 2097152 mod 2 ^ 31 \<le> 2 ^ 31 - 1" by simp
  then show "entry_addr e + l * 4096 < 2 ^ 52" using assms(2) a by simp
qed

lemma split_entry_bits:
  assumes "huge_ok e" "l < 512"
  shows "entry_addr (split_entry e l) = entry_addr e + l * 4096" "n < 12 \<Longrightarrow> bit (split_entry e l) n \<longleftrightarrow> bit e n \<and> n \<noteq> 7"
    "split_entry e l AND NOT PAGE_ADDR_MASK = (e AND NOT PAGE_ADDR_MASK) AND NOT PAGE_HUGE"
proof -
  note ss = split_sum [OF assms]
  let ?f = "(e AND NOT PAGE_ADDR_MASK) AND NOT PAGE_HUGE"
  have f: "?f AND PAGE_ADDR_MASK = 0" by (rule no_addr_bits) (auto simp: bit_and_iff bit_not_iff bit_addr_mask)
  have d: "4096 dvd entry_addr e + l * 4096" using entry_addr_bounds(1) by (simp add: dvd_add)
  have se: "split_entry e l = of_nat (entry_addr e + l * 4096) OR ?f" unfolding split_entry_def ss(1) ..
  show "entry_addr (split_entry e l) = entry_addr e + l * 4096" unfolding se by (rule addr_flags(1) [OF d ss(2) f])
  show "split_entry e l AND NOT PAGE_ADDR_MASK = ?f" unfolding se by (rule addr_flags(3) [OF d ss(2) f])
  show "bit (split_entry e l) n \<longleftrightarrow> bit e n \<and> n \<noteq> 7" if "n < 12"
    unfolding se using addr_flags(2) [OF d ss(2) f, of n] that
    by (auto simp: bit_and_iff bit_not_iff bit_addr_mask bit_flags)
qed

section \<open>The tree of tables\<close>

definition is_link :: "u64 \<Rightarrow> bool" where
  "is_link e \<longleftrightarrow> bit e 0 \<and> \<not> bit e 7"

fun tab_from :: "vm \<Rightarrow> nat \<Rightarrow> nat list \<Rightarrow> nat option" where
  "tab_from s t [] = Some t"
| "tab_from s t (i # p) = (if is_link (entry s t i) then tab_from s (entry_addr (entry s t i)) p else None)"

definition tab :: "vm \<Rightarrow> nat list \<Rightarrow> nat option" where
  "tab s p = tab_from s (get_active_pml4 s) p"

definition path :: "nat list \<Rightarrow> bool" where
  "path p \<longleftrightarrow> length p \<le> 3 \<and> set p \<subseteq> {..<512}"

lemma tab_from_append: "tab_from s t (p @ q) = (case tab_from s t p of None \<Rightarrow> None | Some u \<Rightarrow> tab_from s u q)"
  by (induction s t p rule: tab_from.induct) auto

lemma tab_Nil [simp]: "tab s [] = Some (get_active_pml4 s)"
  by (simp add: tab_def)

lemma tab_snoc:
  "tab s (p @ [i]) = (case tab s p of None \<Rightarrow> None | Some t \<Rightarrow>
     if is_link (entry s t i) then Some (entry_addr (entry s t i)) else None)"
  by (simp add: tab_def tab_from_append split: option.splits)

lemma path_snoc: "path (p @ [i]) \<longleftrightarrow> path p \<and> length p < 3 \<and> i < 512"
  by (auto simp: path_def)

lemma root_addr: "get_active_pml4 s = entry_addr (of_nat (cr3 s))"
  by (simp add: get_active_pml4_def entry_addr_def)

lemma tab_dvd: "tab s p = Some t \<Longrightarrow> 4096 dvd t"
  by (cases p rule: rev_cases) (auto simp: root_addr entry_addr_bounds tab_snoc split: option.splits if_splits)

text \<open>Two words of tables are the same only as the same entry of the same table.\<close>

lemma word_inj:
  fixes t u i j :: nat
  assumes "4096 dvd t" "4096 dvd u" "i < 512" "j < 512" "t div 8 + i = u div 8 + j"
  shows "t = u" "i = j"
proof -
  obtain k m where km: "t = 4096 * k" "u = 4096 * m" using assms(1,2) by (auto elim!: dvdE)
  then have "512 * k + i = 512 * m + j" using assms(5) by simp
  then have "(512 * k + i) div 512 = (512 * m + j) div 512" by simp
  then have "k = m" using assms(3,4) by simp
  then show "t = u" "i = j" using km assms(5) by simp_all
qed

text \<open>
  The invariant: the tables of the active address space are pages in use, no table is reached by two paths,
  the upper two levels have no huge entries, and those of the third are aligned.
\<close>

definition vm_ok :: "vm \<Rightarrow> bool" where
  "vm_ok s \<longleftrightarrow> pmm_ok (frames s) \<and> total_pages (frames s) \<le> 2 ^ 40 \<and>
     (\<forall>p t. path p \<and> tab s p = Some t \<longrightarrow> t \<in> owned_addrs (frames s) \<and> t \<noteq> 0) \<and>
     (\<forall>p q t. path p \<and> path q \<and> tab s p = Some t \<and> tab s q = Some t \<longrightarrow> p = q) \<and>
     (\<forall>p t i. path p \<and> length p < 2 \<and> i < 512 \<and> tab s p = Some t \<longrightarrow> \<not> (bit (entry s t i) 0 \<and> bit (entry s t i) 7)) \<and>
     (\<forall>p t i. path p \<and> length p = 2 \<and> i < 512 \<and> tab s p = Some t \<and> bit (entry s t i) 0 \<and> bit (entry s t i) 7 \<longrightarrow> huge_ok (entry s t i))"

lemma vm_okD:
  assumes "vm_ok s"
  shows "pmm_ok (frames s)" "total_pages (frames s) \<le> 2 ^ 40"
    "path p \<Longrightarrow> tab s p = Some t \<Longrightarrow> t \<in> owned_addrs (frames s)" "path p \<Longrightarrow> tab s p = Some t \<Longrightarrow> t \<noteq> 0"
    "path p \<Longrightarrow> path q \<Longrightarrow> tab s p = Some t \<Longrightarrow> tab s q = Some t \<Longrightarrow> p = q"
    "path p \<Longrightarrow> length p < 2 \<Longrightarrow> i < 512 \<Longrightarrow> tab s p = Some t \<Longrightarrow> \<not> (bit (entry s t i) 0 \<and> bit (entry s t i) 7)"
    "path p \<Longrightarrow> length p = 2 \<Longrightarrow> i < 512 \<Longrightarrow> tab s p = Some t \<Longrightarrow> bit (entry s t i) 0 \<Longrightarrow> bit (entry s t i) 7 \<Longrightarrow> huge_ok (entry s t i)"
  using assms unfolding vm_ok_def by blast+

lemma owned_dvd: "a \<in> owned_addrs s \<Longrightarrow> 4096 dvd a"
  by (auto simp: owned_addrs_def PAGE_SIZE_def)

lemma owned_lt: "a \<in> owned_addrs s \<Longrightarrow> total_pages s \<le> 2 ^ 40 \<Longrightarrow> a < 2 ^ 52"
  by (auto simp: owned_addrs_def used_pages_def PAGE_SIZE_def)

text \<open>The tables stay where all entries but one stay, as far as the path does not use that entry.\<close>

definition entries_kept :: "vm \<Rightarrow> vm \<Rightarrow> nat list \<Rightarrow> nat \<Rightarrow> bool" where
  "entries_kept s s' p i \<longleftrightarrow> (\<forall>q u j. path q \<and> tab s q = Some u \<and> j < 512 \<and> \<not> (q = p \<and> j = i) \<longrightarrow> entry s' u j = entry s u j)"

lemma entries_keptD:
  "entries_kept s s' p i \<Longrightarrow> path q \<Longrightarrow> tab s q = Some u \<Longrightarrow> j < 512 \<Longrightarrow> \<not> (q = p \<and> j = i) \<Longrightarrow> entry s' u j = entry s u j"
  unfolding entries_kept_def by blast

lemma tab_keep:
  assumes "entries_kept s s' p i" "get_active_pml4 s' = get_active_pml4 s" "path q" "\<And>r. q \<noteq> p @ i # r"
  shows "tab s' q = tab s q"
  using assms(3,4)
proof (induction q rule: rev_induct)
  case Nil
  then show ?case using assms(2) by simp
next
  case (snoc j q)
  have pq: "path q" "j < 512" using snoc.prems(1) by (auto simp: path_snoc)
  have np: "q \<noteq> p @ i # r" for r using snoc.prems(2) [of "r @ [j]"] by auto
  have t: "tab s' q = tab s q" using snoc.IH [OF pq(1) np] .
  have "\<not> (q = p \<and> j = i)" using snoc.prems(2) [of "[]"] by auto
  then have "entry s' u j = entry s u j" if "tab s q = Some u" for u
    using assms(1) that pq by (auto simp: entries_kept_def)
  then show ?case using t by (auto simp: tab_snoc split: option.splits)
qed

section \<open>The address map\<close>

text \<open>The entry of the 4 KB page of an address, as the processor sees it: huge pages count as the pages they cover.\<close>

definition page_of :: "vm \<Rightarrow> nat \<Rightarrow> u64 option" where
  "page_of s va =
     (case tab s [PML4_INDEX va, PDPT_INDEX va, PD_INDEX va] of
        Some t \<Rightarrow> let e = entry s t (PT_INDEX va) in if bit e 0 then Some e else None
      | None \<Rightarrow>
          (case tab s [PML4_INDEX va, PDPT_INDEX va] of
             None \<Rightarrow> None
           | Some t \<Rightarrow>
               let e = entry s t (PD_INDEX va)
               in if bit e 0 \<and> bit e 7 then Some (split_entry e (PT_INDEX va)) else None))"

lemma index_lt [simp]: "PML4_INDEX va < 512" "PDPT_INDEX va < 512" "PD_INDEX va < 512" "PT_INDEX va < 512"
  by (simp_all add: PML4_INDEX_def PDPT_INDEX_def PD_INDEX_def PT_INDEX_def)

definition same_env :: "vm \<Rightarrow> vm \<Rightarrow> bool" where
  "same_env s s' \<longleftrightarrow> s' = s\<lparr>pmem := pmem s', frames := frames s', cache := cache s'\<rparr>"

lemma same_env_refl [simp]: "same_env s s"
  by (simp add: same_env_def)

lemma same_env_trans: "same_env s s1 \<Longrightarrow> same_env s1 s2 \<Longrightarrow> same_env s s2"
  unfolding same_env_def by (cases s, cases s1, cases s2) simp

lemma same_env_root: "same_env s s' \<Longrightarrow> get_active_pml4 s' = get_active_pml4 s"
  unfolding same_env_def get_active_pml4_def by (cases s, cases s') simp

text \<open>Words of pages in use that are no tables.\<close>

definition table_word :: "vm \<Rightarrow> nat \<Rightarrow> bool" where
  "table_word s w \<longleftrightarrow> (\<exists>p t. path p \<and> tab s p = Some t \<and> t div 8 \<le> w \<and> w < t div 8 + 512)"

definition data_kept :: "vm \<Rightarrow> vm \<Rightarrow> bool" where
  "data_kept s s' \<longleftrightarrow> (\<forall>w. w div 512 * 4096 \<in> owned_addrs (frames s) \<and> \<not> table_word s w \<longrightarrow> pmem s' w = pmem s w)"

text \<open>What adding tables may change.\<close>

definition grows :: "vm \<Rightarrow> vm \<Rightarrow> bool" where
  "grows s s' \<longleftrightarrow> same_env s s' \<and> owned_addrs (frames s) \<subseteq> owned_addrs (frames s') \<and> data_kept s s' \<and>
     (\<forall>a \<in> owned_addrs (frames s). addr_refs (frames s') a = addr_refs (frames s) a) \<and>
     (\<forall>p t. path p \<and> tab s p = Some t \<longrightarrow> tab s' p = Some t) \<and>
     (\<forall>p t. path p \<and> tab s' p = Some t \<longrightarrow> tab s p = Some t \<or> t \<notin> owned_addrs (frames s)) \<and>
     page_of s' = page_of s"

lemma grows_refl [simp]: "grows s s"
  by (simp add: grows_def data_kept_def)

lemma page_word:
  fixes t w :: nat
  assumes "4096 dvd t"
  shows "t div 8 \<le> w \<and> w < t div 8 + 512 \<longleftrightarrow> w div 512 * 4096 = t"
proof -
  obtain k where k: "t = 4096 * k" using assms by (auto elim: dvdE)
  then have "t div 8 = 512 * k" by simp
  moreover have "512 * k \<le> w \<and> w < 512 * k + 512 \<longleftrightarrow> w div 512 = k"
  proof
    assume "512 * k \<le> w \<and> w < 512 * k + 512"
    then show "w div 512 = k" by (intro div_nat_eqI) auto
  next
    assume "w div 512 = k"
    then show "512 * k \<le> w \<and> w < 512 * k + 512" using div_mult_mod_eq [of w 512] mod_less_divisor [of 512 w] by simp
  qed
  ultimately show ?thesis using k by auto
qed

lemma grows_trans:
  assumes "grows s s1" "grows s1 s2"
  shows "grows s s2"
proof -
  have d: "data_kept s s2"
    unfolding data_kept_def
  proof (intro allI impI)
    fix w assume w: "w div 512 * 4096 \<in> owned_addrs (frames s) \<and> \<not> table_word s w"
    have "\<not> table_word s1 w"
    proof
      assume "table_word s1 w"
      then obtain p t where p: "path p" "tab s1 p = Some t" "t div 8 \<le> w \<and> w < t div 8 + 512" by (auto simp: table_word_def)
      show False
      proof (cases "tab s p = Some t")
        case True
        then show False using w p by (auto simp: table_word_def)
      next
        case False
        then have t: "t \<notin> owned_addrs (frames s)" using assms(1) p(1,2) by (auto simp: grows_def)
        have "4096 dvd t" using tab_dvd [OF p(2)] .
        then show False using page_word [of t w] p(3) w t by simp
      qed
    qed
    then show "pmem s2 w = pmem s w"
      using w assms by (auto simp: grows_def data_kept_def)
  qed
  have "\<forall>p t. path p \<and> tab s2 p = Some t \<longrightarrow> tab s p = Some t \<or> t \<notin> owned_addrs (frames s)"
    using assms unfolding grows_def by blast
  moreover have "\<forall>a \<in> owned_addrs (frames s). addr_refs (frames s2) a = addr_refs (frames s) a" using assms by (auto simp: grows_def)
  ultimately show ?thesis using assms d same_env_trans unfolding grows_def by auto
qed

section \<open>New tables\<close>

lemma vm_alloc_ok:
  assumes "pmm_ok (frames s)"
  obtains a p c where "vm_alloc s = Inr (a, s\<lparr>frames := p, cache := c\<rparr>)" "pmm_ok p" "total_pages p = total_pages (frames s)"
    "a = 0 \<Longrightarrow> owned_addrs p = owned_addrs (frames s) \<and> addr_refs p = addr_refs (frames s) \<and> (\<forall>q < total_pages p. bitmap_test p q)"
    "a \<noteq> 0 \<Longrightarrow> a \<notin> owned_addrs (frames s) \<and> owned_addrs p = insert a (owned_addrs (frames s)) \<and> addr_refs p a = 1 \<and>
       (\<forall>b \<in> owned_addrs (frames s). addr_refs p b = addr_refs (frames s) b)"
proof -
  obtain a p c where al: "pmm_alloc_page (frames s, cache s) = Inr (a, p, c)"
    using pmm_alloc_page_eq [OF assms, of "cache s"] by (auto split: option.splits)
  note laws = pmm_alloc_laws [OF assms al]
  have tp: "total_pages p = total_pages (frames s) \<and> (a = 0 \<longrightarrow> (\<forall>q < total_pages p. bitmap_test p q))"
    using assms al
  proof (cases rule: pmm_alloc_cases)
    case full
    then show ?thesis using reset_rover_fields(1,2) [of "frames s"] by (auto simp: next_fit_None same_tables_def)
  next
    case (page q)
    have "same_tables (frames s) p"
      unfolding page using reset_rover_fields(1) take_page_fields(1) same_tables_trans by blast
    then show ?thesis using page by (simp add: same_tables_def PAGE_SIZE_def)
  qed
  have v: "vm_alloc s = Inr (a, s\<lparr>frames := p, cache := c\<rparr>)" by (simp add: vm_alloc_def al)
  have "pmm_ok p" using laws by (cases "a = 0") auto
  then show thesis by (rule that [OF v]) (use laws tp in auto)
qed

text \<open>The state after a new table at \<open>a\<close> has been filled with \<open>f\<close> and linked at entry \<open>i\<close> of \<open>t\<close>.\<close>

definition linked :: "nat \<Rightarrow> nat \<Rightarrow> nat \<Rightarrow> (nat \<Rightarrow> u64) \<Rightarrow> vm \<Rightarrow> vm" where
  "linked t i a f s = set_entry t i (table_link a) (write_page a f s)"

lemma linked_entries:
  assumes "4096 dvd t" "4096 dvd a" "t \<noteq> a" "i < 512"
  shows "entry (linked t i a f s) t i = table_link a" "j < 512 \<Longrightarrow> entry (linked t i a f s) a j = f j"
    "4096 dvd u \<Longrightarrow> j < 512 \<Longrightarrow> u \<noteq> a \<Longrightarrow> \<not> (u = t \<and> j = i) \<Longrightarrow> entry (linked t i a f s) u j = entry s u j"
    "same_env s (linked t i a f s)" "frames (linked t i a f s) = frames s"
proof -
  show "entry (linked t i a f s) t i = table_link a" "same_env s (linked t i a f s)" "frames (linked t i a f s) = frames s"
    by (simp_all add: linked_def entry_def set_entry_def same_env_def write_page_def)
  show "entry (linked t i a f s) a j = f j" if "j < 512"
  proof -
    have "a div 8 + j \<noteq> t div 8 + i" using word_inj [OF assms(1,2,4) that] assms(3) by auto
    then show ?thesis using that by (simp add: linked_def entry_def set_entry_def write_page_def)
  qed
  show "entry (linked t i a f s) u j = entry s u j" if "4096 dvd u" "j < 512" "u \<noteq> a" "\<not> (u = t \<and> j = i)"
  proof -
    have "u div 8 + j \<noteq> t div 8 + i" using word_inj [OF that(1) assms(1) that(2) assms(4)] that(4) by auto
    moreover have "\<not> (a div 8 \<le> u div 8 + j \<and> u div 8 + j < a div 8 + 512)"
      using page_word [OF that(1), of "u div 8 + j"] page_word [OF assms(2), of "u div 8 + j"] that(2,3) by auto
    ultimately show ?thesis by (auto simp: linked_def entry_def set_entry_def write_page_def)
  qed
qed

text \<open>
  A new table in place of an absent entry, or in place of a huge one whose pages it holds, leaves the address map
  as it is.
\<close>

lemma linked_ok:
  assumes "vm_ok s" "path (p @ [i])" "tab s p = Some t" "\<not> is_link (entry s t i)"
    "a \<noteq> 0" "a \<notin> owned_addrs (frames s)" "owned_addrs F = insert a (owned_addrs (frames s))" "pmm_ok F"
    "total_pages F = total_pages (frames s)" "\<forall>b \<in> owned_addrs (frames s). addr_refs F b = addr_refs (frames s) b"
    "s' = linked t i a f (s\<lparr>frames := F, cache := c\<rparr>)"
    "\<And>l. l < 512 \<Longrightarrow> length p < 2 \<Longrightarrow> f l = 0" "length p < 2 \<Longrightarrow> \<not> bit (entry s t i) 0"
    "\<And>l. l < 512 \<Longrightarrow> length p = 2 \<Longrightarrow> (if bit (f l) 0 then Some (f l) else None) =
       (if bit (entry s t i) 0 \<and> bit (entry s t i) 7 then Some (split_entry (entry s t i) l) else None)"
  shows "vm_ok s'" "grows s s'" "tab s' (p @ [i]) = Some a"
proof -
  note ok = vm_okD [OF assms(1)]
  have p: "path p" "length p < 3" "i < 512" using assms(2) by (auto simp: path_snoc)
  have a: "4096 dvd a" "a < 2 ^ 52" using owned_dvd [of a F] owned_lt [of a F] assms(7,9) ok(2) by auto
  have t: "4096 dvd t" "t \<noteq> a" using tab_dvd [OF assms(3)] ok(3) [OF p(1) assms(3)] assms(6) by auto
  note le = linked_entries [OF t(1) a(1) t(2) p(3), where f = f and s = "s\<lparr>frames := F, cache := c\<rparr>", folded assms(11)]
  have env: "same_env s s'" "frames s' = F" using le(4,5) by (auto simp: same_env_def)
  note root = same_env_root [OF env(1)]
  have kept: "entries_kept s s' p i"
    unfolding entries_kept_def
  proof (intro allI impI)
    fix q u j assume q: "path q \<and> tab s q = Some u \<and> j < 512 \<and> \<not> (q = p \<and> j = i)"
    then have "u \<noteq> a" "\<not> (u = t \<and> j = i)" using ok(3) [of q u] ok(5) [of q p u] assms(3,6) p(1) by auto
    then show "entry s' u j = entry s u j" using le(3) [of u j] q tab_dvd [of s q u] by (simp add: entry_def)
  qed
  have tk: "tab s' q = tab s q" if "path q" "\<And>r. q \<noteq> p @ i # r" for q by (rule tab_keep [OF kept root that])
  have tp: "tab s' p = Some t" using tk [of p] p(1) assms(3) by simp
  note lb = table_link_bits [OF a]
  show ta: "tab s' (p @ [i]) = Some a" using tp le(1) lb by (simp add: tab_snoc is_link_def)
  have below_old: "tab s (p @ i # r) = None" for r
    using assms(3,4) by (simp add: tab_def tab_from_append)
  have below_new: "tab s' (p @ i # r) = None" if pr: "path (p @ i # r)" "r \<noteq> []" for r
  proof -
    obtain j r' where r: "r = j # r'" using pr(2) by (cases r) auto
    then have "j < 512" "length p < 2" using pr(1) by (auto simp: path_def)
    then have "entry s' a j = 0" using le(2) assms(12) by simp
    moreover have "tab s' (p @ i # r) = tab_from s' a r"
      using ta tab_from_append [of s' "get_active_pml4 s'" "p @ [i]" r] by (simp add: tab_def)
    ultimately show ?thesis using r by (simp add: is_link_def)
  qed
  have cases: "tab s' q = tab s q \<and> q \<noteq> p @ [i] \<or> q = p @ [i] \<and> tab s' q = Some a \<and> tab s q = None" if "path q" for q
  proof (cases "\<exists>r. q = p @ i # r")
    case True
    then obtain r where r: "q = p @ i # r" by blast
    show ?thesis using below_old [of r] below_new [of r] that ta r by (cases "r = []") auto
  next
    case False
    then show ?thesis using tk [OF that] by auto
  qed
  have ent: "entry s' u j = (if q = p \<and> j = i then table_link a else entry s u j)" if "path q" "tab s q = Some u" "j < 512" for q u j
    using entries_keptD [OF kept that] le(1) that(2) assms(3) by auto
  have pg: "page_of s' va = page_of s va" for va
  proof -
    let ?q = "[PML4_INDEX va, PDPT_INDEX va]" let ?k = "PD_INDEX va" let ?l = "PT_INDEX va"
    have q: "path ?q" "path (?q @ [?k])" by (simp_all add: path_def)
    consider "p = ?q" "i = ?k" | "p @ [i] = ?q" | "p @ [i] \<noteq> ?q @ [?k]" "p @ [i] \<noteq> ?q" by fastforce
    then show ?thesis
    proof cases
      case 1
      have l2: "length p = 2" using 1 by simp
      have "tab s' ?q = Some t" "tab s ?q = Some t" using tp assms(3) 1 by auto
      moreover have "tab s' (?q @ [?k]) = Some a" "tab s (?q @ [?k]) = None" using ta below_old [of "[]"] 1 by auto
      moreover have "entry s' a ?l = f ?l" using le(2) by simp
      ultimately show ?thesis using assms(14) [OF _ l2, of ?l] 1 by (simp add: page_of_def Let_def)
    next
      case 2
      have pl: "length p < 2" using arg_cong [OF 2, of length] by simp
      have "tab s ?q = None" "tab s (?q @ [?k]) = None" using below_old [of "[]"] below_old [of "[?k]"] 2 by (metis append.assoc append_Cons append_Nil)+
      moreover have "tab s' ?q = Some a" using ta 2 by simp
      moreover have "entry s' a ?k = 0" using le(2) assms(12) pl by simp
      moreover have "tab s' (?q @ [?k]) = None" using calculation(3,4) by (subst tab_snoc) (simp add: is_link_def)
      ultimately show ?thesis by (simp add: page_of_def Let_def)
    next
      case 3
      have s1: "tab s' ?q = tab s ?q" "tab s' (?q @ [?k]) = tab s (?q @ [?k])" using cases [OF q(1)] cases [OF q(2)] 3 by auto
      have e2: "entry s' u ?k = entry s u ?k" if "tab s ?q = Some u" for u
        by (rule entries_keptD [OF kept q(1) that]) (use 3(1) in auto)
      have e3: "entry s' u ?l = entry s u ?l" if "tab s (?q @ [?k]) = Some u" for u
        by (rule entries_keptD [OF kept q(2) that]) (use p(2) in auto)
      show ?thesis using s1 e2 e3 by (auto simp: page_of_def Let_def split: option.splits)
    qed
  qed
  show "grows s s'"
    unfolding grows_def
  proof (intro conjI)
    show "data_kept s s'"
      unfolding data_kept_def
    proof (intro allI impI)
      fix w assume w: "w div 512 * 4096 \<in> owned_addrs (frames s) \<and> \<not> table_word s w"
      have "table_word s (t div 8 + i)" unfolding table_word_def using assms(3) p(1,3) by (intro exI [of _ p] exI [of _ t]) simp
      then have "w \<noteq> t div 8 + i" using w by blast
      moreover have "\<not> (a div 8 \<le> w \<and> w < a div 8 + 512)" using page_word [OF a(1), of w] w assms(6) by auto
      ultimately show "pmem s' w = pmem s w" unfolding assms(11) linked_def set_entry_def write_page_def by auto
    qed
    show "\<forall>p t. path p \<and> tab s p = Some t \<longrightarrow> tab s' p = Some t" using cases by fastforce
    show "\<forall>p t. path p \<and> tab s' p = Some t \<longrightarrow> tab s p = Some t \<or> t \<notin> owned_addrs (frames s)" using cases assms(6) by fastforce
  qed (use env assms(7,10) pg in auto)
  show "vm_ok s'"
    unfolding vm_ok_def env(2)
  proof (intro conjI)
    show "pmm_ok F" "total_pages F \<le> 2 ^ 40" using assms(8,9) ok(2) by simp_all
    show "\<forall>p t. path p \<and> tab s' p = Some t \<longrightarrow> t \<in> owned_addrs F \<and> t \<noteq> 0"
      using cases ok(3,4) assms(5,7) by (metis insertCI option.sel)
    show "\<forall>p q t. path p \<and> path q \<and> tab s' p = Some t \<and> tab s' q = Some t \<longrightarrow> p = q"
      using cases ok(3,5) assms(6) by (metis option.sel)
    show "\<forall>q u j. path q \<and> length q < 2 \<and> j < 512 \<and> tab s' q = Some u \<longrightarrow> \<not> (bit (entry s' u j) 0 \<and> bit (entry s' u j) 7)"
    proof (intro allI impI)
      fix q u and j :: nat assume q: "path q \<and> length q < 2 \<and> j < 512 \<and> tab s' q = Some u"
      show "\<not> (bit (entry s' u j) 0 \<and> bit (entry s' u j) 7)"
      proof (cases "q = p @ [i]")
        case True
        then show ?thesis using q ta le(2) [of j] assms(12) by auto
      next
        case False
        then have "tab s q = Some u" using cases [of q] q by auto
        then show ?thesis using q ok(6) [of q j u] ent [of q u j] lb by (cases "q = p \<and> j = i") auto
      qed
    qed
    show "\<forall>q u j. path q \<and> length q = 2 \<and> j < 512 \<and> tab s' q = Some u \<and> bit (entry s' u j) 0 \<and> bit (entry s' u j) 7 \<longrightarrow> huge_ok (entry s' u j)"
    proof (intro allI impI)
      fix q u and j :: nat assume q: "path q \<and> length q = 2 \<and> j < 512 \<and> tab s' q = Some u \<and> bit (entry s' u j) 0 \<and> bit (entry s' u j) 7"
      show "huge_ok (entry s' u j)"
      proof (cases "q = p @ [i]")
        case True
        then show ?thesis using q ta le(2) [of j] assms(12) by auto
      next
        case False
        then have "tab s q = Some u" using cases [of q] q by auto
        then show ?thesis using q ok(7) [of q j u] ent [of q u j] lb by (cases "q = p \<and> j = i") auto
      qed
    qed
  qed
qed

section \<open>Walking down\<close>

definition no_pages :: "vm \<Rightarrow> bool" where
  "no_pages s \<longleftrightarrow> (\<forall>q < total_pages (frames s). bitmap_test (frames s) q)"

lemma tab_cong: "pmem s' = pmem s \<Longrightarrow> get_active_pml4 s' = get_active_pml4 s \<Longrightarrow> tab s' = tab s"
proof -
  assume m: "pmem s' = pmem s" and r: "get_active_pml4 s' = get_active_pml4 s"
  have "tab_from s' t p = tab_from s t p" for t p
    by (induction p arbitrary: t) (simp_all add: entry_def m)
  then show ?thesis by (simp add: tab_def fun_eq_iff r)
qed

lemma vm_ok_cong:
  assumes "vm_ok s" "pmem s' = pmem s" "get_active_pml4 s' = get_active_pml4 s" "pmm_ok (frames s')"
    "total_pages (frames s') = total_pages (frames s)" "owned_addrs (frames s') = owned_addrs (frames s)"
  shows "vm_ok s'" "page_of s' = page_of s"
proof -
  have e: "tab s' = tab s" "entry s' = entry s" using tab_cong assms(2,3) by (auto simp: entry_def fun_eq_iff)
  show "vm_ok s'" using assms(1,4) unfolding vm_ok_def e assms(5,6) by blast
  show "page_of s' = page_of s" by (rule ext) (simp only: page_of_def e)
qed

lemma next_table_ok:
  assumes "vm_ok s" "path (p @ [i])" "tab s p = Some t"
  obtains a s' where "get_next_table t i al s = Inr (a, s')" "vm_ok s'" "grows s s'" "a \<noteq> 0 \<Longrightarrow> tab s' (p @ [i]) = Some a"
    "a = 0 \<Longrightarrow> no_pages s' \<or> \<not> al \<and> \<not> bit (entry s t i) 0"
proof -
  let ?e = "entry s t i"
  have ok: "pmm_ok (frames s)" using vm_okD(1) [OF assms(1)] .
  have p: "path p" "length p < 3" "i < 512" using assms(2) by (auto simp: path_snoc)
  have wp: "write_page a f (zero_page a s1) = write_page a f s1" for a f s1
    by (simp add: write_page_def zero_page_def cong: if_cong)
  obtain a F c where al: "vm_alloc s = Inr (a, s\<lparr>frames := F, cache := c\<rparr>)" "pmm_ok F" "total_pages F = total_pages (frames s)"
    "a = 0 \<Longrightarrow> owned_addrs F = owned_addrs (frames s) \<and> addr_refs F = addr_refs (frames s) \<and> (\<forall>q < total_pages F. bitmap_test F q)"
    "a \<noteq> 0 \<Longrightarrow> a \<notin> owned_addrs (frames s) \<and> owned_addrs F = insert a (owned_addrs (frames s)) \<and> addr_refs F a = 1 \<and>
       (\<forall>b \<in> owned_addrs (frames s). addr_refs F b = addr_refs (frames s) b)"
    by (rule vm_alloc_ok [OF ok]) (rule that)
  let ?s1 = "s\<lparr>frames := F, cache := c\<rparr>"
  have oom: "vm_ok ?s1 \<and> grows s ?s1 \<and> no_pages ?s1" if "a = 0"
  proof -
    have v: "vm_ok ?s1" "page_of ?s1 = page_of s"
      using vm_ok_cong [OF assms(1), of ?s1] al(2,3,4) that by (auto simp: get_active_pml4_def)
    have "tab ?s1 = tab s" by (rule tab_cong) (simp_all add: get_active_pml4_def)
    then show ?thesis using v al(4) [OF that] by (simp add: grows_def same_env_def data_kept_def no_pages_def)
  qed
  consider (link) "bit ?e 0" "\<not> bit ?e 7" | (huge) "bit ?e 0" "bit ?e 7" | (none) "\<not> bit ?e 0" "\<not> al" | (new) "\<not> bit ?e 0" "al" by blast
  then show thesis
  proof cases
    case link
    have "tab s (p @ [i]) = Some (entry_addr ?e)" using assms(3) link by (simp add: tab_snoc is_link_def)
    moreover from this have "entry_addr ?e \<noteq> 0" using vm_okD(4) [OF assms(1,2)] by blast
    moreover have "get_next_table t i al s = Inr (entry_addr ?e, s)" using link by (simp add: get_next_table_def flag_bits)
    ultimately show thesis using that assms(1) by auto
  next
    case none
    then have "get_next_table t i al s = Inr (0, s)" by (simp add: get_next_table_def flag_bits)
    then show thesis using that [of 0 s] none assms(1) by simp
  next
    case huge
    have l2: "length p = 2" using vm_okD(6) [OF assms(1) p(1) _ p(3) assms(3)] huge p(2) by linarith
    have ho: "huge_ok ?e" using vm_okD(7) [OF assms(1) p(1) l2 p(3) assms(3)] huge by simp
    show thesis
    proof (cases "a = 0")
      case True
      have "get_next_table t i al s = Inr (0, ?s1)" using huge al(1) True by (simp add: get_next_table_def flag_bits)
      then show thesis using that oom [OF True] by auto
    next
      case False
      let ?s' = "linked t i a (split_entry ?e) ?s1"
      have r: "get_next_table t i al s = Inr (a, ?s')"
        using huge al(1) False by (simp add: get_next_table_def flag_bits linked_def wp Let_def)
      have nl: "\<not> is_link ?e" using huge by (simp add: is_link_def)
      note ap = al(5) [OF False]
      have "vm_ok ?s' \<and> grows s ?s' \<and> tab ?s' (p @ [i]) = Some a"
        using linked_ok [OF assms nl False _ _ al(2,3) _ refl] ap huge l2 split_entry_bits(2) [OF ho, of _ 0] by simp
      then show thesis using that r False by blast
    qed
  next
    case new
    show thesis
    proof (cases "a = 0")
      case True
      have "get_next_table t i al s = Inr (0, ?s1)" using new al(1) True by (simp add: get_next_table_def flag_bits)
      then show thesis using that oom [OF True] by auto
    next
      case False
      let ?s' = "linked t i a (\<lambda>_. 0) ?s1"
      have r: "get_next_table t i al s = Inr (a, ?s')"
        using new al(1) False by (simp add: get_next_table_def flag_bits linked_def zero_page_def)
      have nl: "\<not> is_link ?e" using new by (simp add: is_link_def)
      note ap = al(5) [OF False]
      have "vm_ok ?s' \<and> grows s ?s' \<and> tab ?s' (p @ [i]) = Some a"
        using linked_ok [OF assms nl False _ _ al(2,3) _ refl] ap new by simp
      then show thesis using that r False by blast
    qed
  qed
qed

lemma grows_tab: "grows s s' \<Longrightarrow> path p \<Longrightarrow> tab s p = Some t \<Longrightarrow> tab s' p = Some t"
  unfolding grows_def by blast

lemma page_of_none:
  assumes "tab s p = Some t" "\<not> bit (entry s t i) 0" "[PML4_INDEX va, PDPT_INDEX va, PD_INDEX va] = p @ i # r"
  shows "page_of s va = None"
proof -
  have n: "tab s (p @ i # q) = None" for q using assms(1,2) by (simp add: tab_def tab_from_append is_link_def)
  have t3: "tab s [PML4_INDEX va, PDPT_INDEX va, PD_INDEX va] = None" using n [of r] assms(3) by simp
  show ?thesis
  proof (cases "r = []")
    case True
    then have "p = [PML4_INDEX va, PDPT_INDEX va]" "i = PD_INDEX va" using assms(3) by (auto simp: Cons_eq_append_conv)
    then show ?thesis using assms(1,2) t3 by (simp add: page_of_def Let_def)
  next
    case False
    then have "[PML4_INDEX va, PDPT_INDEX va] = p @ i # butlast r" using arg_cong [OF assms(3), of butlast] by (simp add: butlast_append)
    then have "tab s [PML4_INDEX va, PDPT_INDEX va] = None" using n [of "butlast r"] by simp
    then show ?thesis using t3 by (simp add: page_of_def)
  qed
qed

lemma walk_ok:
  assumes "vm_ok s"
  obtains pt s' where "walk_to_pt va al s = Inr (pt, s')" "vm_ok s'" "grows s s'"
    "pt \<noteq> 0 \<Longrightarrow> tab s' [PML4_INDEX va, PDPT_INDEX va, PD_INDEX va] = Some pt"
    "pt = 0 \<Longrightarrow> no_pages s' \<or> \<not> al \<and> page_of s va = None"
proof -
  let ?i = "PML4_INDEX va" and ?j = "PDPT_INDEX va" and ?k = "PD_INDEX va"
  have P: "path ([] @ [?i])" "path ([?i] @ [?j])" "path ([?i, ?j] @ [?k])" by (simp_all add: path_def)
  obtain a1 s1 where 1: "get_next_table (get_active_pml4 s) ?i al s = Inr (a1, s1)" "vm_ok s1" "grows s s1"
    "a1 \<noteq> 0 \<Longrightarrow> tab s1 ([] @ [?i]) = Some a1" "a1 = 0 \<Longrightarrow> no_pages s1 \<or> \<not> al \<and> \<not> bit (entry s (get_active_pml4 s) ?i) 0"
    by (rule next_table_ok [OF assms P(1) tab_Nil]) (rule that)
  show thesis
  proof (cases "a1 = 0")
    case True
    have "walk_to_pt va al s = Inr (0, s1)" using 1(1) True by (simp add: walk_to_pt_def)
    then show thesis using that [of 0 s1] 1(2,3) 1(5) [OF True] page_of_none [OF tab_Nil, of s ?i va "[?j, ?k]"] by auto
  next
    case f1: False
    have t1: "tab s1 [?i] = Some a1" using 1(4) [OF f1] by simp
    obtain a2 s2 where 2: "get_next_table a1 ?j al s1 = Inr (a2, s2)" "vm_ok s2" "grows s1 s2"
      "a2 \<noteq> 0 \<Longrightarrow> tab s2 ([?i] @ [?j]) = Some a2" "a2 = 0 \<Longrightarrow> no_pages s2 \<or> \<not> al \<and> \<not> bit (entry s1 a1 ?j) 0"
      by (rule next_table_ok [OF 1(2) P(2) t1]) (rule that)
    note g2 = grows_trans [OF 1(3) 2(3)]
    have pg1: "page_of s1 = page_of s" using 1(3) by (simp add: grows_def)
    show thesis
    proof (cases "a2 = 0")
      case True
      have "walk_to_pt va al s = Inr (0, s2)" using 1(1) 2(1) f1 True by (simp add: walk_to_pt_def)
      then show thesis
        using that [of 0 s2] 2(2) g2 2(5) [OF True] page_of_none [OF t1, of ?j va "[?k]"] pg1 by auto
    next
      case f2: False
      have t2: "tab s2 [?i, ?j] = Some a2" using 2(4) [OF f2] by simp
      obtain a3 s3 where 3: "get_next_table a2 ?k al s2 = Inr (a3, s3)" "vm_ok s3" "grows s2 s3"
        "a3 \<noteq> 0 \<Longrightarrow> tab s3 ([?i, ?j] @ [?k]) = Some a3" "a3 = 0 \<Longrightarrow> no_pages s3 \<or> \<not> al \<and> \<not> bit (entry s2 a2 ?k) 0"
        by (rule next_table_ok [OF 2(2) P(3) t2]) (rule that)
      have pg2: "page_of s2 = page_of s" using g2 by (simp add: grows_def)
      have "walk_to_pt va al s = Inr (a3, s3)" using 1(1) 2(1) 3(1) f1 f2 by (simp add: walk_to_pt_def)
      then show thesis
        using that [of a3 s3] 3(2,4,5) grows_trans [OF g2 3(3)] page_of_none [OF t2, of ?k va "[]"] pg2 by auto
    qed
  qed
qed

section \<open>Changing a leaf\<close>

definition same_page :: "nat \<Rightarrow> nat \<Rightarrow> bool" where
  "same_page v w \<longleftrightarrow> PML4_INDEX v = PML4_INDEX w \<and> PDPT_INDEX v = PDPT_INDEX w \<and> PD_INDEX v = PD_INDEX w \<and> PT_INDEX v = PT_INDEX w"

lemma set_leaf_ok:
  assumes "vm_ok s" "tab s [PML4_INDEX va, PDPT_INDEX va, PD_INDEX va] = Some t" "s' = set_entry t (PT_INDEX va) e s"
  shows "vm_ok s'" "page_of s' v = (if same_page v va then (if bit e 0 then Some e else None) else page_of s v)"
    "\<And>q. path q \<Longrightarrow> tab s' q = tab s q" "data_kept s s'" "frames s' = frames s"
    "\<And>u j. 4096 dvd u \<Longrightarrow> j < 512 \<Longrightarrow> \<not> (u = t \<and> j = PT_INDEX va) \<Longrightarrow> entry s' u j = entry s u j" "entry s' t (PT_INDEX va) = e"
proof -
  let ?p = "[PML4_INDEX va, PDPT_INDEX va, PD_INDEX va]" and ?l = "PT_INDEX va"
  note ok = vm_okD [OF assms(1)]
  have P: "path ?p" by (simp add: path_def)
  have t: "4096 dvd t" using tab_dvd [OF assms(2)] .
  have ent: "entry s' u j = (if u = t \<and> j = ?l then e else entry s u j)" if "4096 dvd u" "j < 512" for u j
    using word_inj [OF that(1) t that(2), of ?l] unfolding assms(3) by (auto simp: entry_def set_entry_def)
  show "\<And>u j. 4096 dvd u \<Longrightarrow> j < 512 \<Longrightarrow> \<not> (u = t \<and> j = PT_INDEX va) \<Longrightarrow> entry s' u j = entry s u j" using ent by metis
  show le: "entry s' t ?l = e" using ent [OF t, of ?l] by simp
  have env: "same_env s s'" "frames s' = frames s" unfolding assms(3) by (simp_all add: same_env_def set_entry_def)
  then show "frames s' = frames s" by simp
  have kept: "entries_kept s s' ?p ?l"
    unfolding entries_kept_def
  proof (intro allI impI)
    fix q u j assume q: "path q \<and> tab s q = Some u \<and> j < 512 \<and> \<not> (q = ?p \<and> j = ?l)"
    then have "\<not> (u = t \<and> j = ?l)" using ok(5) [of q ?p u] assms(2) P by auto
    then show "entry s' u j = entry s u j" using ent [of u j] q tab_dvd [of s q u] by auto
  qed
  show tk: "\<And>q. path q \<Longrightarrow> tab s' q = tab s q"
    by (rule tab_keep [OF kept same_env_root [OF env(1)]]) (auto simp: path_def)
  have up: "entry s' u j = entry s u j" if "path q" "length q < 3" "tab s q = Some u" "j < 512" for q u j
    by (rule entries_keptD [OF kept that(1,3,4)]) (use that(2) in auto)
  show "vm_ok s'"
    unfolding vm_ok_def env(2)
  proof (intro conjI)
    show "\<forall>p t i. path p \<and> length p < 2 \<and> i < 512 \<and> tab s' p = Some t \<longrightarrow> \<not> (bit (entry s' t i) 0 \<and> bit (entry s' t i) 7)"
    proof (intro allI impI)
      fix q u and j :: nat assume q: "path q \<and> length q < 2 \<and> j < 512 \<and> tab s' q = Some u"
      then have "entry s' u j = entry s u j" using up [of q u j] tk [of q] by simp
      then show "\<not> (bit (entry s' u j) 0 \<and> bit (entry s' u j) 7)" using ok(6) [of q j u] q tk [of q] by simp
    qed
    show "\<forall>p t i. path p \<and> length p = 2 \<and> i < 512 \<and> tab s' p = Some t \<and> bit (entry s' t i) 0 \<and> bit (entry s' t i) 7 \<longrightarrow> huge_ok (entry s' t i)"
    proof (intro allI impI)
      fix q u and j :: nat assume q: "path q \<and> length q = 2 \<and> j < 512 \<and> tab s' q = Some u \<and> bit (entry s' u j) 0 \<and> bit (entry s' u j) 7"
      then have "entry s' u j = entry s u j" using up [of q u j] tk [of q] by simp
      then show "huge_ok (entry s' u j)" using ok(7) [of q j u] q tk [of q] by simp
    qed
    show "\<forall>p q t. path p \<and> path q \<and> tab s' p = Some t \<and> tab s' q = Some t \<longrightarrow> p = q" using tk ok(5) by auto
  qed (use ok(1-4) tk in auto)
  show "page_of s' v = (if same_page v va then (if bit e 0 then Some e else None) else page_of s v)"
  proof -
    let ?q = "[PML4_INDEX v, PDPT_INDEX v]" and ?k = "PD_INDEX v"
    have q: "path ?q" "path (?q @ [?k])" by (simp_all add: path_def)
    show ?thesis
    proof (cases "same_page v va")
      case True
      then show ?thesis using tk [OF P] assms(2) le by (simp add: page_of_def same_page_def Let_def)
    next
      case False
      have e2: "entry s' u ?k = entry s u ?k" if "tab s ?q = Some u" for u by (rule up [OF q(1) _ that]) simp_all
      have e3: "entry s' u (PT_INDEX v) = entry s u (PT_INDEX v)" if "tab s (?q @ [?k]) = Some u" for u
        by (rule entries_keptD [OF kept q(2) that]) (use False in \<open>auto simp: same_page_def\<close>)
      show ?thesis using tk [OF q(1)] tk [OF q(2)] e2 e3 False by (auto simp: page_of_def Let_def split: option.splits)
    qed
  qed
  show "data_kept s s'"
    unfolding data_kept_def
  proof (intro allI impI)
    fix w assume w: "w div 512 * 4096 \<in> owned_addrs (frames s) \<and> \<not> table_word s w"
    have "table_word s (t div 8 + ?l)" unfolding table_word_def using assms(2) P by (intro exI [of _ ?p] exI [of _ t]) simp
    then have "w \<noteq> t div 8 + ?l" using w by blast
    then show "pmem s' w = pmem s w" unfolding assms(3) set_entry_def by simp
  qed
qed

section \<open>Shootdown\<close>

definition flush_only :: "vm \<Rightarrow> vm \<Rightarrow> bool" where
  "flush_only s s' \<longleftrightarrow> pmem s' = pmem s \<and> frames s' = frames s \<and> cache s' = cache s \<and> cr3 s' = cr3 s"

lemma send_ipis_spec:
  "send_ipis n i k s = (k + length (filter (\<lambda>c. c \<noteq> vm_my_id s \<and> vm_online s c) [i..<i + n]),
     s\<lparr>ipis := ipis s @ map (\<lambda>c. (vm_apic_id s c, tlb_flush_addr s)) (filter (\<lambda>c. c \<noteq> vm_my_id s \<and> vm_online s c) [i..<i + n])\<rparr>)"
proof (induction n arbitrary: i k s)
  case (Suc n)
  have "[i..<i + Suc n] = i # [Suc i..<Suc i + n]" by (simp add: upt_rec)
  then show ?case using Suc by (auto simp del: upt_Suc)
qed simp

lemma flush_spec:
  assumes "s' = vmm_flush_tlb_smp addr s"
  shows "flush_only s s'" "invlpgs s' = invlpgs s @ [addr]"
    "ipis s' = ipis s @ (if vm_cpus s \<le> 1 then [] else
       map (\<lambda>c. (vm_apic_id s c, addr)) (filter (\<lambda>c. c \<noteq> vm_my_id s \<and> vm_online s c) [0..<vm_cpus s]))"
  unfolding assms by (auto simp: vmm_flush_tlb_smp_def send_ipis_spec invlpg_def flush_only_def)

lemma flush_ok:
  assumes "vm_ok s" "flush_only s s'"
  shows "vm_ok s'" "page_of s' = page_of s"
proof -
  have "get_active_pml4 s' = get_active_pml4 s" using assms(2) by (simp add: get_active_pml4_def flush_only_def)
  then show "vm_ok s'" "page_of s' = page_of s"
    using vm_ok_cong [OF assms(1), of s'] vm_okD(1) [OF assms(1)] assms(2) by (auto simp: flush_only_def)
qed

section \<open>Translation\<close>

lemma huge_addr:
  assumes "huge_ok e"
  shows "unat (e AND 0xFFFFFFFFFE00000) = entry_addr e"
proof -
  have m: "(0xFFFFFFFFFE00000 :: u64) = push_bit 21 (mask 39)" by (simp add: mask_eq_exp_minus_1 push_bit_eq_mult)
  have "e AND 0xFFFFFFFFFE00000 = e AND PAGE_ADDR_MASK"
    unfolding m by (rule bit_eqI)
      (use assms in \<open>auto simp: bit_and_iff bit_push_bit_iff bit_mask_iff bit_addr_mask huge_ok_def not_less; force\<close>)
  then show ?thesis by (simp add: entry_addr_def)
qed

lemma mod_2M: "va mod 2 ^ 21 = PT_INDEX va * 4096 + va mod 4096"
proof -
  have "va mod (4096 * 512) = 4096 * (va div 4096 mod 512) + va mod 4096" by (rule mod_mult2_eq)
  then show ?thesis by (simp add: PT_INDEX_def)
qed

lemma virt_to_phys_ok:
  assumes "vm_ok s" "va \<noteq> 0"
  shows "vmm_virt_to_phys s va = (case page_of s va of None \<Rightarrow> 0 | Some e \<Rightarrow> entry_addr e + va mod 4096)"
proof -
  let ?i = "PML4_INDEX va" and ?j = "PDPT_INDEX va" and ?k = "PD_INDEX va" and ?l = "PT_INDEX va"
  have ad: "add64 (entry_addr e) (va mod 2 ^ 12) = entry_addr e + va mod 4096" for e
  proof -
    have "va mod 4096 < 4096" by simp
    then have "entry_addr e + va mod 4096 < 2 ^ 64" using entry_addr_bounds(2) [of e] by simp
    then show ?thesis by (simp add: add64_def)
  qed
  define e4 where "e4 = entry s (get_active_pml4 s) ?i"
  define e3 where "e3 = entry s (entry_addr e4) ?j"
  define e2 where "e2 = entry s (entry_addr e3) ?k"
  define e1 where "e1 = entry s (entry_addr e2) ?l"
  note V = vmm_virt_to_phys_def [of s va, folded e4_def, unfolded Let_def, folded e3_def, folded e2_def, folded e1_def, unfolded flag_bits]
  have root: "tab s [] = Some (get_active_pml4 s)" by simp
  show ?thesis
  proof (cases "bit e4 0")
    case False
    then show ?thesis using page_of_none [OF root, of ?i va "[?j, ?k]"] assms(2) by (simp add: V e4_def)
  next
    case b4: True
    then have "\<not> bit e4 7" using vm_okD(6) [OF assms(1), of "[]" ?i] by (auto simp: path_def e4_def)
    then have t1: "tab s [?i] = Some (entry_addr e4)" using b4 tab_snoc [of s "[]" ?i] by (simp add: is_link_def e4_def)
    show ?thesis
    proof (cases "bit e3 0")
      case False
      then show ?thesis using page_of_none [OF t1, of ?j va "[?k]"] assms(2) b4 by (simp add: V e3_def)
    next
      case b3: True
      then have h3: "\<not> bit e3 7" using vm_okD(6) [OF assms(1) _ _ _ t1, of ?j] by (auto simp: path_def e3_def)
      then have t2: "tab s [?i, ?j] = Some (entry_addr e3)" using b3 t1 tab_snoc [of s "[?i]" ?j] by (simp add: is_link_def e3_def)
      show ?thesis
      proof (cases "bit e2 0")
        case False
        then show ?thesis using page_of_none [OF t2, of ?k va "[]"] assms(2) b4 b3 h3 by (simp add: V e2_def)
      next
        case b2: True
        show ?thesis
        proof (cases "bit e2 7")
          case True
          have ho: "huge_ok e2" using vm_okD(7) [OF assms(1) _ _ _ t2, of ?k] b2 True by (simp add: path_def e2_def)
          have "tab s [?i, ?j, ?k] = None" using t2 tab_snoc [of s "[?i, ?j]" ?k] True by (simp add: is_link_def e2_def)
          then have pg: "page_of s va = Some (split_entry e2 ?l)" using t2 b2 True by (simp add: page_of_def e2_def)
          have "entry_addr e2 + va mod 2 ^ 21 < 2 ^ 64"
          proof -
            have "va mod 2 ^ 21 < 2 ^ 21" by simp
            then show ?thesis using entry_addr_bounds(2) [of e2] by simp
          qed
          then have "add64 (entry_addr e2) (va mod 2 ^ 21) = entry_addr e2 + ?l * 4096 + va mod 4096"
            by (simp only: add64_exact mod_2M add.assoc)
          then show ?thesis
            using pg split_entry_bits(1) [OF ho, of ?l] huge_addr [OF ho] assms(2) b4 b3 h3 b2 True by (simp add: V)
        next
          case False
          then have "tab s [?i, ?j, ?k] = Some (entry_addr e2)" using b2 t2 tab_snoc [of s "[?i, ?j]" ?k] by (simp add: is_link_def e2_def)
          then have "page_of s va = (if bit e1 0 then Some e1 else None)" by (simp add: page_of_def e1_def)
          then show ?thesis using ad [of e1] assms(2) b4 b3 h3 b2 False by (simp add: V)
        qed
      qed
    qed
  qed
qed

section \<open>Mapping and unmapping\<close>

lemma data_kept_trans:
  assumes "grows s s1" "data_kept s1 s2"
  shows "data_kept s s2"
  unfolding data_kept_def
proof (intro allI impI)
  fix w assume w: "w div 512 * 4096 \<in> owned_addrs (frames s) \<and> \<not> table_word s w"
  have "\<not> table_word s1 w"
  proof
    assume "table_word s1 w"
    then obtain p t where p: "path p" "tab s1 p = Some t" "t div 8 \<le> w \<and> w < t div 8 + 512" by (auto simp: table_word_def)
    have "tab s p = Some t \<or> t \<notin> owned_addrs (frames s)" using assms(1) p(1,2) by (auto simp: grows_def)
    then show False using w p page_word [OF tab_dvd [OF p(2)], of w] by (auto simp: table_word_def)
  qed
  then show "pmem s2 w = pmem s w" using w assms by (auto simp: grows_def data_kept_def)
qed

lemma map_page_ok:
  assumes "vm_ok s" "e = (phys AND PAGE_ADDR_MASK) OR flags"
  obtains r s' where "vmm_map_page phys va flags s = Inr (r, s')" "vm_ok s'" "data_kept s s'" "r = 0 \<or> r = -1"
    "owned_addrs (frames s) \<subseteq> owned_addrs (frames s')"
    "r = -1 \<Longrightarrow> page_of s' = page_of s \<and> no_pages s' \<and> invlpgs s' = invlpgs s"
    "r = 0 \<Longrightarrow> page_of s' = (\<lambda>v. if same_page v va then (if bit e 0 then Some e else None) else page_of s v) \<and> invlpgs s' = invlpgs s @ [va] \<and>
       tab s' [PML4_INDEX va, PDPT_INDEX va, PD_INDEX va] \<noteq> None"
proof -
  obtain pt s1 where w: "walk_to_pt va True s = Inr (pt, s1)" "vm_ok s1" "grows s s1"
    "pt \<noteq> 0 \<Longrightarrow> tab s1 [PML4_INDEX va, PDPT_INDEX va, PD_INDEX va] = Some pt"
    "pt = 0 \<Longrightarrow> no_pages s1 \<or> \<not> True \<and> page_of s va = None"
    by (rule walk_ok [OF assms(1)]) (rule that)
  have g: "page_of s1 = page_of s" "owned_addrs (frames s) \<subseteq> owned_addrs (frames s1)" "data_kept s s1" "invlpgs s1 = invlpgs s"
    using w(3) unfolding grows_def same_env_def by (auto, cases s, cases s1, auto)
  show thesis
  proof (cases "pt = 0")
    case True
    have "vmm_map_page phys va flags s = Inr (-1, s1)" using w(1) True by (simp add: vmm_map_page_def)
    then show thesis using that [of "-1" s1] w(2) w(5) [OF True] g by auto
  next
    case False
    let ?s2 = "set_entry pt (PT_INDEX va) e s1"
    let ?s3 = "vmm_flush_tlb_smp va ?s2"
    note sl = set_leaf_ok [OF w(2) w(4) [OF False] refl, where e = e]
    note fl = flush_spec [OF refl, where addr = va and s = ?s2]
    note fo = flush_ok [OF sl(1) fl(1)]
    have "vmm_map_page phys va flags s = Inr (0, ?s3)" using w(1) False assms(2) by (simp add: vmm_map_page_def)
    moreover have "data_kept s ?s3" using data_kept_trans [OF w(3) sl(4)] fl(1) by (simp add: data_kept_def flush_only_def)
    moreover have "page_of ?s3 = (\<lambda>v. if same_page v va then (if bit e 0 then Some e else None) else page_of s v)"
      using fo(2) sl(2) g(1) by (simp add: fun_eq_iff)
    moreover have "owned_addrs (frames ?s3) = owned_addrs (frames s1)" using fl(1) by (simp add: flush_only_def sl(5))
    moreover have "invlpgs ?s3 = invlpgs s @ [va]" using fl(2) g(4) by (simp add: set_entry_def)
    moreover have "tab ?s3 [PML4_INDEX va, PDPT_INDEX va, PD_INDEX va] \<noteq> None"
      using sl(3) w(4) [OF False] tab_cong [of ?s3 ?s2] fl(1) by (simp add: flush_only_def get_active_pml4_def path_def)
    ultimately show thesis using that [of 0 ?s3] fo(1) g(2) by auto
  qed
qed

text \<open>A walk along tables that are all there changes nothing.\<close>

lemma next_table_link: "is_link (entry s t i) \<Longrightarrow> get_next_table t i al s = Inr (entry_addr (entry s t i), s)"
  by (simp add: get_next_table_def Let_def is_link_def flag_bits)

lemma walk_links:
  assumes "vm_ok s" "tab s [PML4_INDEX va, PDPT_INDEX va, PD_INDEX va] = Some pt"
  shows "walk_to_pt va al s = Inr (pt, s)" "pt \<noteq> 0"
proof -
  let ?i = "PML4_INDEX va" and ?j = "PDPT_INDEX va" and ?k = "PD_INDEX va"
  show nz: "pt \<noteq> 0" using vm_okD(4) [OF assms(1) _ assms(2)] by (simp add: path_def)
  obtain a where a: "tab s [?i] = Some a" "is_link (entry s (get_active_pml4 s) ?i)" "a = entry_addr (entry s (get_active_pml4 s) ?i)"
    "tab_from s a [?j, ?k] = Some pt" using assms(2) by (auto simp: tab_def split: if_splits)
  then obtain b where b: "tab s [?i, ?j] = Some b" "is_link (entry s a ?j)" "b = entry_addr (entry s a ?j)"
    "is_link (entry s b ?k)" "pt = entry_addr (entry s b ?k)" by (auto simp: tab_def split: if_splits)
  have "a \<noteq> 0" "b \<noteq> 0" using vm_okD(4) [OF assms(1) _ a(1)] vm_okD(4) [OF assms(1) _ b(1)] by (simp_all add: path_def)
  then show "walk_to_pt va al s = Inr (pt, s)"
    using a(2,3) b(2-5) by (simp add: walk_to_pt_def next_table_link)
qed

lemma unmap_page_ok:
  assumes "vm_ok s"
  obtains s' where "vmm_unmap_page va s = Inr ((), s')" "vm_ok s'" "data_kept s s'" "owned_addrs (frames s) \<subseteq> owned_addrs (frames s')"
    "page_of s' = page_of s \<and> no_pages s' \<and> tab s [PML4_INDEX va, PDPT_INDEX va, PD_INDEX va] = None \<or>
     page_of s' = (\<lambda>v. if same_page v va then None else page_of s v) \<and> (page_of s va \<noteq> None \<longrightarrow> invlpgs s' = invlpgs s @ [va])"
proof -
  obtain pt s1 where w: "walk_to_pt va False s = Inr (pt, s1)" "vm_ok s1" "grows s s1"
    "pt \<noteq> 0 \<Longrightarrow> tab s1 [PML4_INDEX va, PDPT_INDEX va, PD_INDEX va] = Some pt"
    "pt = 0 \<Longrightarrow> no_pages s1 \<or> \<not> False \<and> page_of s va = None"
    by (rule walk_ok [OF assms(1)]) (rule that)
  have g: "page_of s1 = page_of s" "owned_addrs (frames s) \<subseteq> owned_addrs (frames s1)" "data_kept s s1" "invlpgs s1 = invlpgs s"
    using w(3) unfolding grows_def same_env_def by (auto, cases s, cases s1, auto)
  have sp: "page_of s v = page_of s va" if "same_page v va" for v using that unfolding page_of_def same_page_def by metis
  have absent: "page_of s1 = (\<lambda>v. if same_page v va then None else page_of s v)" if "page_of s va = None"
    using g(1) sp that by (auto simp: fun_eq_iff)
  show thesis
  proof (cases "pt = 0")
    case True
    have "vmm_unmap_page va s = Inr ((), s1)" using w(1) True by (simp add: vmm_unmap_page_def)
    moreover have "tab s [PML4_INDEX va, PDPT_INDEX va, PD_INDEX va] = None"
      using walk_links(1) [OF assms, of va _ False] walk_links(2) [OF assms, of va] w(1) True by (cases "tab s [PML4_INDEX va, PDPT_INDEX va, PD_INDEX va]") auto
    ultimately show thesis using that [of s1] w(2) w(5) [OF True] g absent by auto
  next
    case False
    note tp = w(4) [OF False]
    show thesis
    proof (cases "bit (entry s1 pt (PT_INDEX va)) 0")
      case b: False
      have "page_of s1 va = None" using tp b by (simp add: page_of_def)
      moreover have "vmm_unmap_page va s = Inr ((), s1)" using w(1) False b by (simp add: vmm_unmap_page_def flag_bits)
      ultimately show thesis using that [of s1] w(2) g absent by auto
    next
      case True
      let ?s2 = "set_entry pt (PT_INDEX va) 0 s1"
      let ?s3 = "vmm_flush_tlb_smp va ?s2"
      note sl = set_leaf_ok [OF w(2) tp refl, where e = 0]
      note fl = flush_spec [OF refl, where addr = va and s = ?s2]
      note fo = flush_ok [OF sl(1) fl(1)]
      have "vmm_unmap_page va s = Inr ((), ?s3)" using w(1) False True by (simp add: vmm_unmap_page_def flag_bits)
      moreover have "data_kept s ?s3" using data_kept_trans [OF w(3) sl(4)] fl(1) by (simp add: data_kept_def flush_only_def)
      moreover have "page_of ?s3 = (\<lambda>v. if same_page v va then None else page_of s v)"
        using fo(2) sl(2) g(1) by (simp add: fun_eq_iff)
      moreover have "owned_addrs (frames ?s3) = owned_addrs (frames s1)" using fl(1) by (simp add: flush_only_def sl(5))
      moreover have "invlpgs ?s3 = invlpgs s @ [va]" using fl(2) g(4) by (simp add: set_entry_def)
      ultimately show thesis using that [of ?s3] fo(1) g(2) by auto
    qed
  qed
qed

end
