(* ===== verification/VmmUser.thy ===== *)
theory VmmUser
  imports VmmMap
begin

text \<open>
  Copy-on-write faults and the access of the kernel to the memory of user programs.
\<close>

section \<open>Copy on write\<close>

text \<open>The frame of an entry is a page in use that is none of the tables.\<close>

definition data_frame :: "vm \<Rightarrow> nat \<Rightarrow> bool" where
  "data_frame s a \<longleftrightarrow> a \<in> owned_addrs (frames s) \<and> a \<noteq> 0 \<and> (\<forall>p. path p \<longrightarrow> tab s p \<noteq> Some a)"

lemma data_frame_word:
  assumes "data_frame s a" "i < 512"
  shows "(a div 8 + i) div 512 * 4096 = a" "\<not> table_word s (a div 8 + i)"
proof -
  have d: "4096 dvd a" using assms(1) owned_dvd by (auto simp: data_frame_def)
  show w: "(a div 8 + i) div 512 * 4096 = a" using page_word [OF d, of "a div 8 + i"] assms(2) by simp
  show "\<not> table_word s (a div 8 + i)"
  proof
    assume "table_word s (a div 8 + i)"
    then obtain p t where p: "path p" "tab s p = Some t" "t div 8 \<le> a div 8 + i \<and> a div 8 + i < t div 8 + 512"
      by (auto simp: table_word_def)
    then have "t = a" using page_word [OF tab_dvd [OF p(2)], of "a div 8 + i"] w by simp
    then show False using assms(1) p(1,2) by (auto simp: data_frame_def)
  qed
qed

lemma data_frame_grows:
  assumes "grows s s'" "data_frame s a"
  shows "data_frame s' a" "i < 512 \<Longrightarrow> entry s' a i = entry s a i"
proof -
  show "data_frame s' a" using assms unfolding grows_def data_frame_def by blast
  show "entry s' a i = entry s a i" if "i < 512"
    using data_frame_word [OF assms(2) that] assms unfolding grows_def data_kept_def data_frame_def entry_def by metis
qed

text \<open>The flags of a resolved entry: writable, no longer copy-on-write, all others as before.\<close>

definition cow_flags :: "u64 \<Rightarrow> u64 \<Rightarrow> bool" where
  "cow_flags e e' \<longleftrightarrow> (\<forall>n. n < 12 \<or> 52 \<le> n \<longrightarrow> bit e' n = (if n = 1 then True else if n = 9 then False else bit e n))"

lemma cow_flags_simple: "cow_flags e ((e AND NOT PAGE_COW) OR PAGE_WRITE)" "entry_addr ((e AND NOT PAGE_COW) OR PAGE_WRITE) = entry_addr e"
proof -
  show "cow_flags e ((e AND NOT PAGE_COW) OR PAGE_WRITE)"
    unfolding cow_flags_def
  proof (intro allI impI)
    fix n :: nat assume "n < 12 \<or> 52 \<le> n"
    show "bit ((e AND NOT PAGE_COW) OR PAGE_WRITE) n = (if n = 1 then True else if n = 9 then False else bit e n)"
      using bit_imp_le_length [of e n] by (auto simp: bit_or_iff bit_and_iff bit_not_iff bit_flags possible_bit_def)
  qed
  have "((e AND NOT PAGE_COW) OR PAGE_WRITE) AND PAGE_ADDR_MASK = e AND PAGE_ADDR_MASK"
    by (rule bit_eqI) (auto simp: bit_or_iff bit_and_iff bit_not_iff bit_flags bit_addr_mask)
  then show "entry_addr ((e AND NOT PAGE_COW) OR PAGE_WRITE) = entry_addr e" by (simp add: entry_addr_def)
qed

lemma cow_flags_new:
  assumes "4096 dvd a" "a < 2 ^ 52" "e' = of_nat a OR ((e AND NOT PAGE_ADDR_MASK) AND NOT PAGE_COW) OR PAGE_WRITE"
  shows "cow_flags e e'" "entry_addr e' = a"
proof -
  let ?f = "((e AND NOT PAGE_ADDR_MASK) AND NOT PAGE_COW) OR PAGE_WRITE"
  have f: "?f AND PAGE_ADDR_MASK = 0"
    by (rule no_addr_bits) (auto simp: bit_or_iff bit_and_iff bit_not_iff bit_addr_mask bit_flags)
  have e': "e' = of_nat a OR ?f" using assms(3) by simp
  show "entry_addr e' = a" unfolding e' by (rule addr_flags(1) [OF assms(1,2) f])
  show "cow_flags e e'"
    unfolding cow_flags_def
  proof (intro allI impI)
    fix n :: nat assume n: "n < 12 \<or> 52 \<le> n"
    have "bit ?f n = (if n = 1 then True else if n = 9 then False else bit e n)"
      using n bit_imp_le_length [of e n] by (auto simp: bit_or_iff bit_and_iff bit_not_iff bit_flags bit_addr_mask)
    then show "bit e' n = (if n = 1 then True else if n = 9 then False else bit e n)"
      unfolding e' using addr_flags(2) [OF assms(1,2) f n] by simp
  qed
qed

text \<open>Writing a page that is no table changes neither the tables nor the address map.\<close>

lemma page_write_ok:
  assumes "vm_ok s" "get_active_pml4 s' = get_active_pml4 s" "\<forall>q. path q \<longrightarrow> tab s q \<noteq> Some a"
    "\<forall>w. w div 512 * 4096 \<noteq> a \<longrightarrow> pmem s' w = pmem s w" "owned_addrs (frames s) \<subseteq> owned_addrs (frames s')"
    "pmm_ok (frames s')" "total_pages (frames s') = total_pages (frames s)"
  shows "vm_ok s'" "page_of s' = page_of s" "\<And>q. path q \<Longrightarrow> tab s' q = tab s q"
    "\<And>q t i. path q \<Longrightarrow> tab s q = Some t \<Longrightarrow> i < 512 \<Longrightarrow> entry s' t i = entry s t i"
proof -
  note ok = vm_okD [OF assms(1)]
  have ent: "entry s' t i = entry s t i" if "path p" "tab s p = Some t" "i < 512" for p t i
  proof -
    have "t \<noteq> a" using assms(3) that(1,2) by auto
    then show ?thesis using page_word [OF tab_dvd [OF that(2)], of "t div 8 + i"] that(3) assms(4) by (simp add: entry_def)
  qed
  then show "\<And>q t i. path q \<Longrightarrow> tab s q = Some t \<Longrightarrow> i < 512 \<Longrightarrow> entry s' t i = entry s t i" by blast
  have kept: "entries_kept s s' [600] 0" using ent by (auto simp: entries_kept_def)
  show tk: "\<And>q. path q \<Longrightarrow> tab s' q = tab s q"
    by (rule tab_keep [OF kept assms(2)]) (auto simp: path_def)
  show "vm_ok s'"
    unfolding vm_ok_def
  proof (intro conjI)
    show "\<forall>p t i. path p \<and> length p < 2 \<and> i < 512 \<and> tab s' p = Some t \<longrightarrow> \<not> (bit (entry s' t i) 0 \<and> bit (entry s' t i) 7)"
    proof (intro allI impI)
      fix q u and j :: nat assume q: "path q \<and> length q < 2 \<and> j < 512 \<and> tab s' q = Some u"
      then show "\<not> (bit (entry s' u j) 0 \<and> bit (entry s' u j) 7)" using ok(6) [of q j u] ent [of q u j] tk [of q] by simp
    qed
    show "\<forall>p t i. path p \<and> length p = 2 \<and> i < 512 \<and> tab s' p = Some t \<and> bit (entry s' t i) 0 \<and> bit (entry s' t i) 7 \<longrightarrow> huge_ok (entry s' t i)"
    proof (intro allI impI)
      fix q u and j :: nat assume q: "path q \<and> length q = 2 \<and> j < 512 \<and> tab s' q = Some u \<and> bit (entry s' u j) 0 \<and> bit (entry s' u j) 7"
      then show "huge_ok (entry s' u j)" using ok(7) [of q j u] ent [of q u j] tk [of q] by simp
    qed
    show "\<forall>p q t. path p \<and> path q \<and> tab s' p = Some t \<and> tab s' q = Some t \<longrightarrow> p = q" using tk ok(5) by auto
    show "\<forall>p t. path p \<and> tab s' p = Some t \<longrightarrow> t \<in> owned_addrs (frames s') \<and> t \<noteq> 0" using tk ok(3,4) assms(5) by auto
  qed (use assms(6,7) ok(2) in simp_all)
  show "page_of s' = page_of s"
  proof
    fix v
    let ?q = "[PML4_INDEX v, PDPT_INDEX v]"
    have q: "path ?q" "path (?q @ [PD_INDEX v])" by (simp_all add: path_def)
    show "page_of s' v = page_of s v"
      using tk [OF q(1)] tk [OF q(2)] ent [OF q(1)] ent [OF q(2)] by (auto simp: page_of_def Let_def split: option.splits)
  qed
qed

text \<open>The same for a page that was not in use, which leaves all pages in use as they were.\<close>

lemma fresh_page_ok:
  assumes "vm_ok s" "get_active_pml4 s' = get_active_pml4 s" "a \<notin> owned_addrs (frames s)"
    "\<forall>w. w div 512 * 4096 \<noteq> a \<longrightarrow> pmem s' w = pmem s w" "owned_addrs (frames s) \<subseteq> owned_addrs (frames s')"
    "pmm_ok (frames s')" "total_pages (frames s') = total_pages (frames s)"
  shows "vm_ok s'" "page_of s' = page_of s" "\<And>q. path q \<Longrightarrow> tab s' q = tab s q" "data_kept s s'"
proof -
  have nt: "\<forall>q. path q \<longrightarrow> tab s q \<noteq> Some a" using vm_okD(3) [OF assms(1)] assms(3) by blast
  note pw = page_write_ok [OF assms(1,2) nt assms(4-7)]
  show "vm_ok s'" "page_of s' = page_of s" "\<And>q. path q \<Longrightarrow> tab s' q = tab s q" using pw by auto
  show "data_kept s s'" unfolding data_kept_def using assms(3,4) by metis
qed

definition resolved :: "nat \<Rightarrow> vm \<Rightarrow> vm \<Rightarrow> bool" where
  "resolved va s s' \<longleftrightarrow> (\<exists>e e'. page_of s va = Some e \<and>
     page_of s' = (\<lambda>v. if same_page v va then Some e' else page_of s v) \<and> cow_flags e e' \<and>
     addr_refs (frames s') (entry_addr e') = 1 \<and> (\<forall>i < 512. entry s' (entry_addr e') i = entry s (entry_addr e) i) \<and>
     data_kept s s')"

lemma resolve_cow_ok:
  assumes "vm_ok s" "tab s [PML4_INDEX va, PDPT_INDEX va, PD_INDEX va] = Some pt" "e = entry s pt (PT_INDEX va)" "bit e 0" "bit e 9"
    "data_frame s (entry_addr e)"
  obtains r s' where "vmm_resolve_cow va pt (PT_INDEX va) s = Inr (r, s')" "vm_ok s'" "r = 0 \<or> r = 1"
    "r = 0 \<Longrightarrow> no_pages s' \<and> page_of s' = page_of s \<and> data_kept s s'" "r = 1 \<Longrightarrow> resolved va s s' \<and> invlpgs s' = invlpgs s @ [va]"
proof -
  let ?l = "PT_INDEX va" and ?old = "entry_addr e"
  have pg: "page_of s va = Some e" using assms(2,3,4) by (simp add: page_of_def)
  have old: "?old \<in> owned_addrs (frames s)" "?old \<noteq> 0" using assms(6) by (auto simp: data_frame_def)
  have ok: "pmm_ok (frames s)" using vm_okD(1) [OF assms(1)] .
  have b: "vmm_resolve_cow va pt ?l s = (if pmm_get_ref_count ?old (frames s) = 1
      then Inr (1, vmm_flush_tlb_smp va (set_entry pt ?l ((e AND NOT PAGE_COW) OR PAGE_WRITE) s))
      else vbind (vm_alloc s) (\<lambda>new_phys s1. if new_phys = 0 then Inr (0, s1)
        else vbind (with_frames (pmm_unref_page ?old) (set_entry pt ?l
           (of_nat new_phys OR ((e AND NOT PAGE_ADDR_MASK) AND NOT PAGE_COW) OR PAGE_WRITE) (copy_page new_phys ?old s1)))
           (\<lambda>_ s4. Inr (1, vmm_flush_tlb_smp va s4))))"
    unfolding vmm_resolve_cow_def Let_def assms(3) [symmetric] flag_bits using assms(5) by simp
  show thesis
  proof (cases "pmm_get_ref_count ?old (frames s) = 1")
    case True
    let ?e' = "(e AND NOT PAGE_COW) OR PAGE_WRITE"
    let ?s1 = "set_entry pt ?l ?e' s" let ?s2 = "vmm_flush_tlb_smp va ?s1"
    note sl = set_leaf_ok [OF assms(1,2) refl, where e = ?e']
    note fl = flush_spec [OF refl, where addr = va and s = ?s1]
    note fo = flush_ok [OF sl(1) fl(1)]
    have b0: "bit ?e' 0" using assms(4) by (simp add: bit_or_iff bit_and_iff bit_not_iff bit_flags)
    have "addr_refs (frames ?s2) ?old = 1" using True fl(1) sl(5) by (simp add: addr_refs_def flush_only_def)
    moreover have "entry ?s2 ?old i = entry s ?old i" if "i < 512" for i
    proof -
      have "?old \<noteq> pt" using assms(2,6) by (auto simp: data_frame_def path_def)
      then show ?thesis using sl(6) [of ?old i] that entry_addr_bounds(1) fl(1) by (simp add: entry_def flush_only_def)
    qed
    moreover have "data_kept s ?s2" using sl(4) fl(1) by (simp add: data_kept_def flush_only_def)
    moreover have "page_of ?s2 = (\<lambda>v. if same_page v va then Some ?e' else page_of s v)" using fo(2) sl(2) b0 by (auto simp: fun_eq_iff)
    ultimately have "resolved va s ?s2"
      unfolding resolved_def using pg cow_flags_simple [of e] by (intro exI [of _ e] exI [of _ ?e']) simp
    moreover have "invlpgs ?s2 = invlpgs s @ [va]" using fl(2) by (simp add: set_entry_def)
    ultimately show thesis using that [of 1 ?s2] b True fo(1) by auto
  next
    case rc: False
    obtain a F c where al: "vm_alloc s = Inr (a, s\<lparr>frames := F, cache := c\<rparr>)" "pmm_ok F" "total_pages F = total_pages (frames s)"
      "a = 0 \<Longrightarrow> owned_addrs F = owned_addrs (frames s) \<and> addr_refs F = addr_refs (frames s) \<and> (\<forall>q < total_pages F. bitmap_test F q)"
      "a \<noteq> 0 \<Longrightarrow> a \<notin> owned_addrs (frames s) \<and> owned_addrs F = insert a (owned_addrs (frames s)) \<and> addr_refs F a = 1 \<and>
         (\<forall>b \<in> owned_addrs (frames s). addr_refs F b = addr_refs (frames s) b)"
      by (rule vm_alloc_ok [OF ok]) (rule that)
    let ?s1 = "s\<lparr>frames := F, cache := c\<rparr>"
    show thesis
    proof (cases "a = 0")
      case True
      have v: "vm_ok ?s1" "page_of ?s1 = page_of s"
        using vm_ok_cong [OF assms(1), of ?s1] al(2,3,4) True by (auto simp: get_active_pml4_def)
      have "vmm_resolve_cow va pt ?l s = Inr (0, ?s1)" using b rc al(1) True by simp
      then show thesis using that [of 0 ?s1] v al(4) [OF True] by (simp add: no_pages_def data_kept_def)
    next
      case False
      note ap = al(5) [OF False]
      have a: "4096 dvd a" "a < 2 ^ 52" using owned_dvd [of a F] owned_lt [of a F] ap al(3) vm_okD(2) [OF assms(1)] by auto
      let ?e' = "of_nat a OR ((e AND NOT PAGE_ADDR_MASK) AND NOT PAGE_COW) OR PAGE_WRITE"
      note cf = cow_flags_new [OF a refl, of e]
      let ?s2 = "copy_page a ?old ?s1"
      have ao: "a \<noteq> ?old" using old(1) ap by auto
      have F: "?old \<in> owned_addrs F" using old(1) ap by auto
      obtain G where G: "pmm_free_page ?old F = Inr G" "pmm_ok G" "addr_refs G ?old = addr_refs F ?old - 1"
        "owned_addrs G = (if addr_refs F ?old = 1 then owned_addrs F - {?old} else owned_addrs F)"
        "\<forall>b \<in> owned_addrs F. b \<noteq> ?old \<longrightarrow> addr_refs G b = addr_refs F b"
        using pmm_free_laws [OF al(2) F old(2)] by blast
      have "addr_refs F ?old \<noteq> 1"
      proof -
        have "addr_refs F ?old = unat (pmm_get_ref_count ?old (frames s))" using ap old(1) by (simp add: addr_refs_def)
        then show ?thesis using rc word_unat_eq_iff [of "pmm_get_ref_count ?old (frames s)" 1] by simp
      qed
      then have og: "owned_addrs G = insert a (owned_addrs (frames s))" using G(4) ap by simp
      have tG: "total_pages G = total_pages (frames s)"
      proof -
        obtain q where q: "?old = q * PAGE_SIZE" "q < total_pages F" "bitmap_test F q" using F by (auto simp: owned_addrs_def used_pages_def)
        have "q \<noteq> 0" using q(1) old(2) by auto
        then have "same_tables F G" using pmm_ok_free(2) [OF al(2) q(2,3) _ G(1) [unfolded q(1)]] by blast
        then show ?thesis using al(3) by (simp add: same_tables_def)
      qed
      let ?s3 = "?s2\<lparr>frames := G\<rparr>"
      have root: "get_active_pml4 ?s3 = get_active_pml4 s" by (simp add: get_active_pml4_def copy_page_def write_page_def)
      have out: "\<forall>w. w div 512 * 4096 \<noteq> a \<longrightarrow> pmem ?s3 w = pmem s w"
        using page_word [OF a(1)] by (auto simp: copy_page_def write_page_def)
      have own: "owned_addrs (frames s) \<subseteq> owned_addrs (frames ?s3)" using og by auto
      have fresh: "a \<notin> owned_addrs (frames s)" using ap by simp
      have tot: "pmm_ok (frames ?s3)" "total_pages (frames ?s3) = total_pages (frames s)" using G(2) tG by simp_all
      note fp = fresh_page_ok [OF assms(1) root fresh out own tot]
      have tp3: "tab ?s3 [PML4_INDEX va, PDPT_INDEX va, PD_INDEX va] = Some pt" using fp(3) assms(2) by (simp add: path_def)
      let ?s4 = "set_entry pt ?l ?e' ?s3" let ?s5 = "vmm_flush_tlb_smp va ?s4"
      note sl = set_leaf_ok [OF fp(1) tp3 refl, where e = ?e']
      note fl = flush_spec [OF refl, where addr = va and s = ?s4]
      note fo = flush_ok [OF sl(1) fl(1)]
      have r: "vmm_resolve_cow va pt ?l s = Inr (1, ?s5)"
      proof -
        have f: "frames (set_entry pt ?l ?e' ?s2) = F" by (simp add: set_entry_def copy_page_def write_page_def)
        have "(set_entry pt ?l ?e' ?s2)\<lparr>frames := G\<rparr> = ?s4"
          by (cases s) (simp add: set_entry_def copy_page_def write_page_def entry_def)
        then have "with_frames (pmm_unref_page ?old) (set_entry pt ?l ?e' ?s2) = Inr ((), ?s4)"
          using G(1) by (simp add: with_frames_def pmm_unref_page_def f)
        then show ?thesis using b rc al(1) False by simp
      qed
      have b0: "bit ?e' 0" using cf(1) assms(4) by (simp add: cow_flags_def)
      have "page_of ?s5 = (\<lambda>v. if same_page v va then Some ?e' else page_of s v)"
        using fo(2) sl(2) fp(2) b0 by (auto simp: fun_eq_iff)
      moreover have "addr_refs (frames ?s5) a = 1" using G(5) ap ao fl(1) sl(5) by (simp add: flush_only_def)
      moreover have "entry ?s5 a i = entry s ?old i" if "i < 512" for i
      proof -
        have "a \<noteq> pt" using vm_okD(3) [OF assms(1) _ assms(2)] ap by (auto simp: path_def)
        then have "entry ?s5 a i = entry ?s3 a i" using sl(6) [of a i] a(1) that fl(1) by (simp add: entry_def flush_only_def)
        then show ?thesis using that by (simp add: entry_def copy_page_def write_page_def)
      qed
      moreover have "data_kept s ?s5"
      proof -
        have "table_word ?s3 w = table_word s w" for w using fp(3) by (auto simp: table_word_def)
        then have "data_kept s ?s4" using fp(4) sl(4) own by (auto simp: data_kept_def)
        then show ?thesis using fl(1) by (simp add: data_kept_def flush_only_def)
      qed
      ultimately have "resolved va s ?s5"
        unfolding resolved_def using pg cf by (intro exI [of _ e] exI [of _ ?e']) simp
      moreover have "invlpgs ?s5 = invlpgs s @ [va]" using fl(2) by (simp add: set_entry_def copy_page_def write_page_def)
      ultimately show thesis using that [of 1 ?s5] r fo(1) by auto
    qed
  qed
qed

section \<open>Page faults\<close>

lemma page_fault_ok:
  assumes "vm_ok s" "page_of s va = Some e" "bit e 9" "data_frame s (entry_addr e)"
  obtains r s' where "vmm_handle_page_fault va 7 s = Inr (r, s')" "vm_ok s'" "r = 0 \<or> r = 1"
    "r = 0 \<Longrightarrow> no_pages s' \<and> page_of s' = page_of s \<and> data_kept s s'" "r = 1 \<Longrightarrow> resolved va s s' \<and> va \<in> set (invlpgs s')"
proof -
  obtain pt s1 where w: "walk_to_pt va False s = Inr (pt, s1)" "vm_ok s1" "grows s s1"
    "pt \<noteq> 0 \<Longrightarrow> tab s1 [PML4_INDEX va, PDPT_INDEX va, PD_INDEX va] = Some pt"
    "pt = 0 \<Longrightarrow> no_pages s1 \<or> \<not> False \<and> page_of s va = None"
    by (rule walk_ok [OF assms(1)]) (rule that)
  have code: "(7 :: u64) AND 1 \<noteq> 0" "(7 :: u64) AND 2 \<noteq> 0" "(7 :: u64) AND 4 \<noteq> 0" by simp_all
  have g: "page_of s1 = page_of s" "data_kept s s1" using w(3) by (auto simp: grows_def)
  show thesis
  proof (cases "pt = 0")
    case True
    have "vmm_handle_page_fault va 7 s = Inr (0, s1)" using w(1) True code by (simp add: vmm_handle_page_fault_def)
    then show thesis using that [of 0 s1] w(2) w(5) [OF True] g assms(2) by auto
  next
    case False
    note tp = w(4) [OF False]
    have "page_of s1 va = Some e" using assms(2) g(1) by simp
    then have e: "e = entry s1 pt (PT_INDEX va)" "bit e 0" using tp by (auto simp: page_of_def Let_def split: if_splits)
    note df = data_frame_grows [OF w(3) assms(4)]
    obtain r s' where r: "vmm_resolve_cow va pt (PT_INDEX va) s1 = Inr (r, s')" "vm_ok s'" "r = 0 \<or> r = 1"
      "r = 0 \<Longrightarrow> no_pages s' \<and> page_of s' = page_of s1 \<and> data_kept s1 s'" "r = 1 \<Longrightarrow> resolved va s1 s' \<and> invlpgs s' = invlpgs s1 @ [va]"
      by (rule resolve_cow_ok [OF w(2) tp e assms(3) df(1)]) (rule that)
    have "vmm_handle_page_fault va 7 s = Inr (r, s')" using w(1) False code r(1) by (simp add: vmm_handle_page_fault_def)
    moreover have "resolved va s s'" if rs: "resolved va s1 s'"
    proof -
      obtain e' where e': "page_of s' = (\<lambda>v. if same_page v va then Some e' else page_of s v)" "cow_flags e e'"
        "addr_refs (frames s') (entry_addr e') = 1" "\<forall>i < 512. entry s' (entry_addr e') i = entry s1 (entry_addr e) i" "data_kept s1 s'"
        using rs assms(2) unfolding resolved_def g(1) by auto
      then show ?thesis
        unfolding resolved_def using df(2) assms(2) data_kept_trans [OF w(3) e'(5)] by auto
    qed
    ultimately show thesis using that [of r s'] r g(1) data_kept_trans [OF w(3)] by auto
  qed
qed

section \<open>User pointers\<close>

lemma validate_user_ptr_iff:
  assumes "a < 2 ^ 64" "n < 2 ^ 64"
  shows "vmm_validate_user_ptr a n \<longleftrightarrow> USER_BASE \<le> a \<and> a + n \<le> USER_LIMIT + 1"
proof -
  have c: "USER_LIMIT = 2 ^ 47 - 1" by (simp add: USER_LIMIT_def)
  consider (wrap) "2 ^ 64 \<le> a + n" | (inside) "a + n < 2 ^ 64" "a \<le> USER_LIMIT" | (above) "a + n < 2 ^ 64" "USER_LIMIT < a" by linarith
  then show ?thesis
  proof cases
    case wrap
    have "add64 a n = a + n - 2 ^ 64" using wrap assms by (simp add: add64_def mod_if)
    then have "add64 a n < a" using wrap assms(2) by linarith
    then show ?thesis using wrap c by (simp add: vmm_validate_user_ptr_def Let_def)
  next
    case inside
    have s: "sub64 USER_LIMIT a = USER_LIMIT - a" using inside c by (intro sub64_exact) simp_all
    have "add64 (sub64 USER_LIMIT a) 1 = USER_LIMIT - a + 1" unfolding s using c by (intro add64_exact) simp
    moreover have "add64 a n = a + n" by (rule add64_exact [OF inside(1)])
    ultimately show ?thesis using inside by (auto simp: vmm_validate_user_ptr_def Let_def)
  next
    case above
    have "add64 a n = a + n" by (rule add64_exact [OF above(1)])
    then show ?thesis using above(2) by (cases "n = 0") (auto simp: vmm_validate_user_ptr_def Let_def)
  qed
qed

text \<open>Where the access check and \<open>vmm_is_user_page\<close> differ: on a huge page the check goes on as if the page were a table, so
  that the words of the page at the place of the next entries must look present and for users.\<close>

definition on_huge_page :: "vm \<Rightarrow> nat \<Rightarrow> bool" where
  "on_huge_page s v \<longleftrightarrow>
     (let e3 = entry s (entry_addr (entry s (get_active_pml4 s) (PML4_INDEX v))) (PDPT_INDEX v)
      in has e3 PAGE_HUGE \<or> has (entry s (entry_addr e3) (PD_INDEX v)) PAGE_HUGE)"

definition looks_like_tables :: "vm \<Rightarrow> nat \<Rightarrow> bool" where
  "looks_like_tables s v \<longleftrightarrow>
     (let e3 = entry s (entry_addr (entry s (get_active_pml4 s) (PML4_INDEX v))) (PDPT_INDEX v);
          e2 = entry s (entry_addr e3) (PD_INDEX v); e1 = entry s (entry_addr e2) (PT_INDEX v)
      in has e2 PAGE_PRESENT \<and> has e2 PAGE_USER \<and> has e1 PAGE_PRESENT \<and> has e1 PAGE_USER)"

definition user_readable :: "vm \<Rightarrow> nat \<Rightarrow> bool" where
  "user_readable s v \<longleftrightarrow> vmm_is_user_page s v \<and> (on_huge_page s v \<longrightarrow> looks_like_tables s v)"

lemma user_pt_iff: "user_pt s v \<noteq> None \<longleftrightarrow> user_readable s v"
  by (auto simp: user_readable_def on_huge_page_def looks_like_tables_def user_pt_def vmm_is_user_page_def Let_def)

lemma user_readable_present: "user_readable s v \<Longrightarrow> va_present s v"
  by (auto simp: user_readable_def vmm_is_user_page_def va_present_def Let_def split: if_splits)

lemma access_loop_read:
  assumes "4096 dvd end_page" "4096 dvd v"
  shows "access_loop end_page False v s = Inr (\<forall>w. 4096 dvd w \<and> v \<le> w \<and> w < end_page \<longrightarrow> user_pt s w \<noteq> None, s)"
  using assms
proof (induction "end_page - v" arbitrary: v rule: less_induct)
  case less
  show ?case
  proof (cases "v < end_page")
    case False
    then have "(\<forall>w. 4096 dvd w \<and> v \<le> w \<and> w < end_page \<longrightarrow> user_pt s w \<noteq> None) = True" by auto
    then show ?thesis using False by (simp add: access_loop.simps [of end_page])
  next
    case True
    have IH: "access_loop end_page False (v + PAGE_SIZE) s =
        Inr (\<forall>w. 4096 dvd w \<and> v + PAGE_SIZE \<le> w \<and> w < end_page \<longrightarrow> user_pt s w \<noteq> None, s)"
      by (rule less(1)) (use True less(2,3) in \<open>auto simp: PAGE_SIZE_def\<close>)
    have next_page: "w = v \<or> v + PAGE_SIZE \<le> w" if "4096 dvd w" "v \<le> w" for w
    proof -
      have "4096 dvd w - v" using that less(3) by (simp add: dvd_diff_nat)
      then show ?thesis using that(2) dvd_imp_le [of 4096 "w - v"] by (cases "w = v") (auto simp: PAGE_SIZE_def)
    qed
    have "(\<forall>w. 4096 dvd w \<and> v \<le> w \<and> w < end_page \<longrightarrow> user_pt s w \<noteq> None) \<longleftrightarrow>
        user_pt s v \<noteq> None \<and> (\<forall>w. 4096 dvd w \<and> v + PAGE_SIZE \<le> w \<and> w < end_page \<longrightarrow> user_pt s w \<noteq> None)"
      using next_page True less(3) by (metis add_leE le_refl)
    moreover have "access_loop end_page False v s = (case user_pt s v of None \<Rightarrow> Inr (False, s) | Some pt \<Rightarrow> access_loop end_page False (v + PAGE_SIZE) s)"
      using True by (subst access_loop.simps) (simp split: option.splits)
    ultimately show ?thesis using IH by (cases "user_pt s v") simp_all
  qed
qed

definition user_range :: "vm \<Rightarrow> nat \<Rightarrow> nat \<Rightarrow> bool" where
  "user_range s a n \<longleftrightarrow> USER_BASE \<le> a \<and> a + n \<le> USER_LIMIT + 1 \<and>
     (\<forall>w. 4096 dvd w \<and> a < w + 4096 \<and> w < PAGE_ALIGN_UP (a + n) \<longrightarrow> user_pt s w \<noteq> None)"

lemma verify_read_ok:
  assumes "a < 2 ^ 64" "n < 2 ^ 64"
  shows "vmm_verify_user_access a n False s = Inr (user_range s a n, s)"
proof (cases "vmm_validate_user_ptr a n")
  case False
  then show ?thesis using validate_user_ptr_iff [OF assms] by (auto simp: vmm_verify_user_access_def user_range_def)
next
  case True
  then have v: "USER_BASE \<le> a" "a + n \<le> USER_LIMIT + 1" using validate_user_ptr_iff [OF assms] by auto
  then have e: "add64 a n = a + n" by (intro add64_exact) (simp add: USER_LIMIT_def)
  have st: "a div PAGE_SIZE * PAGE_SIZE \<le> w \<longleftrightarrow> a < w + 4096" if dw: "4096 dvd w" for w
  proof -
    obtain k where k: "w = 4096 * k" using dw by (auto elim: dvdE)
    have "a div 4096 * 4096 \<le> 4096 * k \<longleftrightarrow> a div 4096 \<le> k" by (simp add: mult.commute)
    also have "\<dots> \<longleftrightarrow> a < 4096 * k + 4096" by (simp add: less_Suc_eq_le [symmetric] div_less_iff_less_mult algebra_simps)
    finally show ?thesis by (simp add: k PAGE_SIZE_def)
  qed
  have "4096 dvd PAGE_ALIGN_UP (a + n)" "4096 dvd a div PAGE_SIZE * PAGE_SIZE" by (simp_all add: PAGE_ALIGN_UP_def PAGE_SIZE_def)
  note al = access_loop_read [OF this, of s]
  have "(\<forall>w. 4096 dvd w \<and> a div PAGE_SIZE * PAGE_SIZE \<le> w \<and> w < PAGE_ALIGN_UP (a + n) \<longrightarrow> user_pt s w \<noteq> None) = user_range s a n"
    unfolding user_range_def using v st by blast
  then show ?thesis using True e al by (simp add: vmm_verify_user_access_def)
qed

lemma page_index: "PML4_INDEX (w div 4096 * 4096) = PML4_INDEX w" "PDPT_INDEX (w div 4096 * 4096) = PDPT_INDEX w"
  "PD_INDEX (w div 4096 * 4096) = PD_INDEX w" "PT_INDEX (w div 4096 * 4096) = PT_INDEX w"
proof -
  have d: "w div 4096 * 4096 div (4096 * n) = w div (4096 * n)" for n
    by (simp add: div_mult2_eq)
  show "PML4_INDEX (w div 4096 * 4096) = PML4_INDEX w" using d [of "2 ^ 27"] by (simp add: PML4_INDEX_def)
  show "PDPT_INDEX (w div 4096 * 4096) = PDPT_INDEX w" using d [of "2 ^ 18"] by (simp add: PDPT_INDEX_def)
  show "PD_INDEX (w div 4096 * 4096) = PD_INDEX w" using d [of "2 ^ 9"] by (simp add: PD_INDEX_def)
  show "PT_INDEX (w div 4096 * 4096) = PT_INDEX w" using d [of 1] by (simp add: PT_INDEX_def)
qed

lemma user_pt_page: "user_pt s (w div 4096 * 4096) = user_pt s w"
  unfolding user_pt_def page_index ..

text \<open>The pages the access check visits are those of the bytes of the range.\<close>

lemma user_range_bytes:
  assumes "0 < n"
  shows "user_range s a n \<longleftrightarrow> USER_BASE \<le> a \<and> a + n \<le> USER_LIMIT + 1 \<and> (\<forall>w. a \<le> w \<and> w < a + n \<longrightarrow> user_pt s w \<noteq> None)"
proof (cases "a + n \<le> USER_LIMIT + 1")
  case True
  have al: "w < PAGE_ALIGN_UP (a + n) \<longleftrightarrow> w < a + n" if dw: "4096 dvd w" for w
  proof -
    have ex: "add64 (a + n) 4095 = a + n + 4095" using True by (intro add64_exact) (simp add: USER_LIMIT_def)
    obtain k where k: "w = 4096 * k" using dw by (auto elim: dvdE)
    have "4096 * k < (a + n + 4095) div 4096 * 4096 \<longleftrightarrow> k < (a + n + 4095) div 4096" by (simp add: mult.commute)
    also have "\<dots> \<longleftrightarrow> 4096 * k < a + n" by linarith
    finally show ?thesis by (simp add: k PAGE_ALIGN_UP_def PAGE_SIZE_def ex)
  qed
  have "(\<forall>w. 4096 dvd w \<and> a < w + 4096 \<and> w < PAGE_ALIGN_UP (a + n) \<longrightarrow> user_pt s w \<noteq> None) \<longleftrightarrow>
      (\<forall>w. a \<le> w \<and> w < a + n \<longrightarrow> user_pt s w \<noteq> None)" (is "?L = ?R")
  proof
    assume L: ?L
    show ?R
    proof (intro allI impI)
      fix w assume w: "a \<le> w \<and> w < a + n"
      let ?p = "w div 4096 * 4096"
      have p: "4096 dvd ?p" "a < ?p + 4096" "?p < a + n" using w by auto
      then have "user_pt s ?p \<noteq> None" using L al by blast
      then show "user_pt s w \<noteq> None" by (simp add: user_pt_page)
    qed
  next
    assume R: ?R
    show ?L
    proof (intro allI impI)
      fix w assume w: "4096 dvd w \<and> a < w + 4096 \<and> w < PAGE_ALIGN_UP (a + n)"
      then have lt: "w < a + n" using al by blast
      let ?v = "max a w"
      have "a \<le> ?v" "?v < a + n" using lt assms by auto
      then have "user_pt s ?v \<noteq> None" using R by blast
      moreover have "?v div 4096 * 4096 = w"
      proof -
        obtain k where k: "w = 4096 * k" using w by (auto elim: dvdE)
        have "?v div 4096 = k" using w unfolding k by (intro div_nat_eqI) auto
        then show ?thesis by (simp add: k)
      qed
      ultimately show "user_pt s w \<noteq> None" using user_pt_page [of s ?v] by simp
    qed
  qed
  then show ?thesis unfolding user_range_def by blast
qed (simp add: user_range_def)

section \<open>Strings of user programs\<close>

text \<open>A byte of user memory that the access check accepts.\<close>

definition user_ok :: "vm \<Rightarrow> nat \<Rightarrow> bool" where
  "user_ok s a \<longleftrightarrow> USER_BASE \<le> a \<and> a \<le> USER_LIMIT \<and> user_readable s a"

lemma user_range_one: "user_range s a 1 \<longleftrightarrow> user_ok s a"
proof -
  have "(\<forall>w. a \<le> w \<and> w < a + 1 \<longrightarrow> P w) \<longleftrightarrow> P a" for P using le_less_Suc_eq by auto
  then show ?thesis unfolding user_range_bytes [OF zero_less_one] user_ok_def user_pt_iff by auto
qed

text \<open>Inside a page the answer of the check is that for the byte before.\<close>

lemma user_ok_next:
  assumes "user_ok s a" "(a + 1) mod PAGE_SIZE \<noteq> 0"
  shows "user_ok s (a + 1)"
proof -
  have m: "(a + 1) mod 4096 \<noteq> 0" using assms(2) by (simp add: PAGE_SIZE_def)
  then have d: "(a + 1) div 4096 = a div 4096" by (simp add: div_Suc mod_Suc split: if_splits)
  have "user_readable s (a + 1) \<longleftrightarrow> user_readable s a"
    using user_pt_page [of s "a + 1"] user_pt_page [of s a] unfolding d user_pt_iff [symmetric] by simp
  moreover have "a \<noteq> USER_LIMIT" using m by (auto simp: USER_LIMIT_def)
  ultimately show ?thesis using assms(1) by (auto simp: user_ok_def)
qed

definition str_buf :: "vm \<Rightarrow> nat \<Rightarrow> u8 list \<Rightarrow> nat \<Rightarrow> u8 list" where
  "str_buf s src buf c = map (\<lambda>k. user_byte s (src + k)) [0..<c] @ drop c buf"

lemma str_buf_update: "c < length buf \<Longrightarrow> (str_buf s src buf c)[c := user_byte s (src + c)] = str_buf s src buf (Suc c)"
  by (simp add: str_buf_def list_update_append Cons_nth_drop_Suc [symmetric])

lemma strncpy_step:
  assumes "src + c < 2 ^ 64" "c < length buf" "c = 0 \<or> user_ok s (src + (c - 1))"
  shows "strncpy_loop src c (Suc n) (str_buf s src buf c) s =
    (if \<not> user_ok s (src + c) then Inr ((- EFAULT, str_buf s src buf c), s)
     else if user_byte s (src + c) = 0 then Inr ((to_int32 ((c + 1) mod 2 ^ 32), str_buf s src buf (Suc c)), s)
     else strncpy_loop src (Suc c) n (str_buf s src buf (Suc c)) s)"
proof -
  have a: "add64 src c = src + c" by (rule add64_exact [OF assms(1)])
  have v: "vmm_verify_user_access (src + c) 1 False s = Inr (user_ok s (src + c), s)"
    using verify_read_ok [of "src + c" 1 s] assms(1) unfolding user_range_one by simp
  have "user_ok s (src + c)" if "\<not> (c = 0 \<or> (src + c) mod PAGE_SIZE = 0)"
    using user_ok_next [of s "src + (c - 1)"] assms(3) that by (cases c) simp_all
  then have chk: "(if c = 0 \<or> (src + c) mod PAGE_SIZE = 0 then vmm_verify_user_access (src + c) 1 False s else Inr (True, s)) = Inr (user_ok s (src + c), s)"
    using v by simp
  have "user_read (src + c) s = Inr (user_byte s (src + c), s)" if "user_ok s (src + c)"
    using that user_readable_present by (simp add: user_read_def user_ok_def)
  then show ?thesis unfolding strncpy_loop.simps Let_def a chk
    by (simp add: str_buf_update [OF assms(2), of s src, symmetric])
qed

lemma strncpy_steps:
  assumes "src + c + j < 2 ^ 64" "c + j \<le> length buf" "\<And>k. k < c + j \<Longrightarrow> user_ok s (src + k) \<and> user_byte s (src + k) \<noteq> 0"
  shows "strncpy_loop src c (j + n) (str_buf s src buf c) s = strncpy_loop src (c + j) n (str_buf s src buf (c + j)) s"
  using assms
proof (induction j arbitrary: c)
  case (Suc j)
  have "c = 0 \<or> user_ok s (src + (c - 1))" using Suc.prems(3) [of "c - 1"] by (cases c) simp_all
  then have "strncpy_loop src c (Suc (j + n)) (str_buf s src buf c) s = strncpy_loop src (Suc c) (j + n) (str_buf s src buf (Suc c)) s"
    using strncpy_step [of src c buf s "j + n"] Suc.prems(1,2) Suc.prems(3) [of c] by simp
  also have "\<dots> = strncpy_loop src (Suc c + j) n (str_buf s src buf (Suc c + j)) s"
    by (rule Suc.IH) (use Suc.prems in auto)
  finally show ?case by simp
qed simp

lemma strncpy_prefix:
  assumes "src + mx < 2 ^ 64" "mx \<le> length buf" "m \<le> mx" "\<And>k. k < m \<Longrightarrow> user_ok s (src + k) \<and> user_byte s (src + k) \<noteq> 0"
  shows "strncpy_loop src 0 mx buf s = strncpy_loop src m (mx - m) (str_buf s src buf m) s"
  using strncpy_steps [of src 0 m buf s "mx - m"] assms by (simp add: str_buf_def)

end
