(* ===== verification/VmmTree.thy ===== *)
theory VmmTree
  imports VmmUser
begin

text \<open>
  Whole address spaces: what tearing one down gives back, and what copying one shares.
\<close>

section \<open>Tearing down\<close>

text \<open>The pages that the walk below a table gives back, in its order.\<close>

fun frees :: "vm \<Rightarrow> nat \<Rightarrow> nat \<Rightarrow> nat list" where
  "frees s table 0 = []"
| "frees s table (Suc level) =
     concat (map (\<lambda>i.
       let e = entry s table i in
       if \<not> has e PAGE_PRESENT \<or> \<not> has e PAGE_USER then []
       else if level = 0 \<or> (level = 1 \<or> level = 2) \<and> has e PAGE_HUGE then [entry_addr e]
       else frees s (entry_addr e) level @ [entry_addr e]) [0..<512])"

text \<open>Dropping one reference of each page of a list, up to the first failed assertion.\<close>

fun free_all :: "nat list \<Rightarrow> pmm \<Rightarrow> panic + pmm" where
  "free_all [] p = Inr p"
| "free_all (a # as) p = (case pmm_free_page a p of Inl e \<Rightarrow> Inl e | Inr q \<Rightarrow> free_all as q)"

lemma free_all_append: "free_all (as @ bs) p = (case free_all as p of Inl e \<Rightarrow> Inl e | Inr q \<Rightarrow> free_all bs q)"
  by (induction as arbitrary: p) (auto split: sum.splits)

definition free_frames :: "nat list \<Rightarrow> vm \<Rightarrow> unit vm_result" where
  "free_frames as s = with_frames (free_all as) s"

lemma free_frames_simps:
  "free_frames [] s = Inr ((), s)"
  "free_frames (as @ bs) s = (case free_frames as s of Inl e \<Rightarrow> Inl e | Inr (_, s1) \<Rightarrow> free_frames bs s1)"
  "with_frames (pmm_free_page a) s = free_frames [a] s" "with_frames (pmm_unref_page a) s = free_frames [a] s"
  by (auto simp: free_frames_def with_frames_def free_all_append pmm_unref_page_def split: sum.splits)

lemma frees_cong: "pmem s' = pmem s \<Longrightarrow> frees s' table level = frees s table level"
  by (induction level arbitrary: table) (simp_all add: entry_def Let_def cong: if_cong)

lemma free_frames_mem: "free_frames as s = Inr (u, s') \<Longrightarrow> pmem s' = pmem s"
  by (auto simp: free_frames_def with_frames_def split: sum.splits)

text \<open>The part of the list from entry \<open>i\<close> on.\<close>

definition frees_at :: "vm \<Rightarrow> nat \<Rightarrow> nat \<Rightarrow> nat \<Rightarrow> nat list" where
  "frees_at s table level i =
     (let e = entry s table i in
       if \<not> has e PAGE_PRESENT \<or> \<not> has e PAGE_USER then []
       else if level = 0 \<or> (level = 1 \<or> level = 2) \<and> has e PAGE_HUGE then [entry_addr e]
       else frees s (entry_addr e) level @ [entry_addr e])"

lemma frees_Suc: "frees s table (Suc level) = concat (map (frees_at s table level) [0..<512])"
  by (simp add: frees_at_def [abs_def])

lemma frees_at_cong: "pmem s' = pmem s \<Longrightarrow> frees_at s' table level i = frees_at s table level i"
proof -
  assume m: "pmem s' = pmem s"
  have f: "frees s' = frees s" by (intro ext) (rule frees_cong [OF m])
  show ?thesis unfolding frees_at_def entry_def f m ..
qed

text \<open>One turn of the loop, given what the recursion does.\<close>

lemma free_pt_step:
  assumes "i < 512" "\<And>a s. 0 < level \<Longrightarrow> free_pt_recursive a level 0 s = free_frames (frees s a level) s"
  shows "free_pt_recursive table (Suc level) i s =
    (case free_frames (frees_at s table level i) s of Inl e \<Rightarrow> Inl e | Inr (_, s1) \<Rightarrow> free_pt_recursive table (Suc level) (Suc i) s1)"
proof -
  let ?e = "entry s table i"
  have lv: "(Suc level = 3 \<or> Suc level = 2) \<longleftrightarrow> (level = 1 \<or> level = 2)" by auto
  note step = free_pt_recursive.simps [of table "Suc level" i s, unfolded Let_def]
  consider (none) "\<not> has ?e PAGE_PRESENT \<or> \<not> has ?e PAGE_USER"
    | (huge) "has ?e PAGE_PRESENT" "has ?e PAGE_USER" "level = 1 \<or> level = 2" "has ?e PAGE_HUGE"
    | (leaf) "has ?e PAGE_PRESENT" "has ?e PAGE_USER" "level = 0"
    | (table) "has ?e PAGE_PRESENT" "has ?e PAGE_USER" "0 < level" "\<not> ((level = 1 \<or> level = 2) \<and> has ?e PAGE_HUGE)" by blast
  then show ?thesis
  proof cases
    case none
    then have "frees_at s table level i = []" by (simp add: frees_at_def)
    then show ?thesis using none assms(1) step by (auto simp: free_frames_simps(1))
  next
    case huge
    then have "frees_at s table level i = [entry_addr ?e]" by (auto simp: frees_at_def)
    then show ?thesis using huge assms(1) step lv by (simp add: free_frames_simps(4))
  next
    case leaf
    then have "frees_at s table level i = [entry_addr ?e]" by (simp add: frees_at_def)
    then show ?thesis using leaf assms(1) step by (simp add: free_frames_simps(4))
  next
    case table
    then have f: "frees_at s table level i = frees s (entry_addr ?e) level @ [entry_addr ?e]" by (auto simp: frees_at_def Let_def)
    have "free_pt_recursive table (Suc level) i s =
      (case free_frames (frees s (entry_addr ?e) level) s of Inl e \<Rightarrow> Inl e
       | Inr (_, s1) \<Rightarrow> (case free_frames [entry_addr ?e] s1 of Inl e \<Rightarrow> Inl e | Inr (_, s2) \<Rightarrow> free_pt_recursive table (Suc level) (Suc i) s2))"
    proof -
      have g: "\<not> ((Suc level = 3 \<or> Suc level = 2) \<and> has ?e PAGE_HUGE)" using table(4) lv by blast
      show ?thesis unfolding step free_frames_simps(3) if_not_P [OF g] using table assms by simp
    qed
    then show ?thesis unfolding f free_frames_simps(2) by (auto split: sum.splits)
  qed
qed

lemma free_pt_loop:
  assumes "\<And>a s. 0 < level \<Longrightarrow> free_pt_recursive a level 0 s = free_frames (frees s a level) s"
  shows "i \<le> 512 \<Longrightarrow> free_pt_recursive table (Suc level) i s = free_frames (concat (map (frees_at s table level) [i..<512])) s"
proof (induction "512 - i" arbitrary: i s)
  case 0
  then show ?case by (simp add: free_pt_recursive.simps [of table] free_frames_simps(1))
next
  case (Suc n)
  have i: "i < 512" using Suc(2) by simp
  have IH: "free_pt_recursive table (Suc level) (Suc i) s' = free_frames (concat (map (frees_at s' table level) [Suc i..<512])) s'" for s'
    by (rule Suc(1)) (use Suc(2) in auto)
  have up: "[i..<512] = i # [Suc i..<512]" using i by (simp add: upt_conv_Cons)
  show ?case
  proof (cases "free_frames (frees_at s table level i) s")
    case (Inl e)
    then show ?thesis unfolding up list.map concat.simps free_frames_simps(2) using free_pt_step [OF i assms, of table s] by simp
  next
    case (Inr r)
    obtain u s1 where r: "r = (u, s1)" by (cases r)
    have "frees_at s1 table level = frees_at s table level" using frees_at_cong [OF free_frames_mem] Inr r by blast
    then show ?thesis unfolding up list.map concat.simps free_frames_simps(2) using free_pt_step [OF i assms, of table s] Inr r IH [of s1] by simp
  qed
qed

lemma free_pt_eq: "free_pt_recursive table (Suc level) 0 s = free_frames (frees s table (Suc level)) s"
proof (induction level arbitrary: table s)
  case 0
  then show ?case using free_pt_loop [of 0 0 table s] frees_Suc [of s table 0] by simp
next
  case (Suc level)
  have "free_pt_recursive table (Suc (Suc level)) 0 s = free_frames (concat (map (frees_at s table (Suc level)) [0..<512])) s"
    by (rule free_pt_loop) (use Suc in simp_all)
  then show ?case unfolding frees_Suc .
qed

lemma destroy_eq:
  assumes "p \<noteq> 0"
  shows "vmm_destroy_pml4 p s = free_frames (frees s p 4 @ [p]) s"
proof -
  have "free_pt_recursive p 4 0 s = free_frames (frees s p 4) s" 
  proof -
    have "Suc 3 = 4" by simp
    then show ?thesis using free_pt_eq [of p 3 s] by (simp only:)
  qed
  then show ?thesis
    using assms unfolding free_frames_simps(2)
    by (cases "free_frames (frees s p 4) s") (auto simp: vmm_destroy_pml4_def free_frames_simps(3))
qed

end
