(* ===== verification/VmmFork.thy ===== *)
theory VmmFork
  imports VmmTree
begin

text \<open>
  Copying an address space copy-on-write (\<^verbatim>\<open>vmm_clone_pml4(1)\<close>, the core of \<^verbatim>\<open>fork\<close>).
\<close>

section \<open>Copy-on-write entries\<close>

definition cowed :: "u64 \<Rightarrow> u64" where
  "cowed e = (if bit e 0 \<and> bit e 2 then (e OR PAGE_COW) AND NOT PAGE_WRITE else e)"

lemma cowed_bits:
  "bit (cowed e) 0 = bit e 0" "bit (cowed e) 2 = bit e 2" "bit (cowed e) 7 = bit e 7" "entry_addr (cowed e) = entry_addr e"
  "cowed (cowed e) = cowed e" "bit e 0 \<Longrightarrow> bit e 2 \<Longrightarrow> bit (cowed e) 9 \<and> \<not> bit (cowed e) 1" "\<not> bit e 0 \<Longrightarrow> cowed e = e"
proof -
  show b: "bit (cowed e) 0 = bit e 0" "bit (cowed e) 2 = bit e 2" "bit (cowed e) 7 = bit e 7"
    by (auto simp: cowed_def bit_and_iff bit_or_iff bit_not_iff bit_flags)
  show "bit e 0 \<Longrightarrow> bit e 2 \<Longrightarrow> bit (cowed e) 9 \<and> \<not> bit (cowed e) 1"
    by (auto simp: cowed_def bit_and_iff bit_or_iff bit_not_iff bit_flags)
  have "((e OR PAGE_COW) AND NOT PAGE_WRITE) AND PAGE_ADDR_MASK = e AND PAGE_ADDR_MASK"
    by (rule bit_eqI) (auto simp: bit_or_iff bit_and_iff bit_not_iff bit_flags bit_addr_mask)
  then show "entry_addr (cowed e) = entry_addr e" by (simp add: entry_addr_def cowed_def)
  have "(((e OR PAGE_COW) AND NOT PAGE_WRITE) OR PAGE_COW) AND NOT PAGE_WRITE = (e OR PAGE_COW) AND NOT PAGE_WRITE"
    by (rule bit_eqI) (auto simp: bit_or_iff bit_and_iff bit_not_iff bit_flags)
  then show "cowed (cowed e) = cowed e" using b by (auto simp: cowed_def)
  show "\<not> bit e 0 \<Longrightarrow> cowed e = e" by (simp add: cowed_def)
qed

section \<open>What the copy may change\<close>

text \<open>The part of the tables that is copied; the rest is shared.\<close>

definition priv :: "nat list \<Rightarrow> bool" where
  "priv p \<longleftrightarrow> (p \<noteq> [] \<longrightarrow> p ! 0 = 0) \<and> (2 \<le> length p \<longrightarrow> 8 \<le> p ! 1)"

definition cl :: "vm \<Rightarrow> vm \<Rightarrow> nat set \<Rightarrow> bool" where
  "cl s s' X \<longleftrightarrow> same_env s s' \<and> vm_ok s' \<and> total_pages (frames s') = total_pages (frames s) \<and>
     owned_addrs (frames s) \<subseteq> owned_addrs (frames s') \<and>
     (\<forall>b \<in> owned_addrs (frames s). addr_refs (frames s) b \<le> addr_refs (frames s') b) \<and>
     (\<forall>q. path q \<longrightarrow> tab s' q = tab s q) \<and>
     (\<forall>q t i. path q \<and> tab s q = Some t \<and> i < 512 \<longrightarrow>
        entry s' t i = entry s t i \<or> length q = 3 \<and> priv q \<and> entry s' t i = cowed (entry s t i)) \<and>
     (\<forall>w. w div 512 * 4096 \<in> owned_addrs (frames s) \<and> \<not> table_word s w \<and> w div 512 * 4096 \<notin> X \<longrightarrow> pmem s' w = pmem s w)"

lemma clD:
  assumes "cl s s' X"
  shows "same_env s s'" "vm_ok s'" "total_pages (frames s') = total_pages (frames s)"
    "owned_addrs (frames s) \<subseteq> owned_addrs (frames s')"
    "b \<in> owned_addrs (frames s) \<Longrightarrow> addr_refs (frames s) b \<le> addr_refs (frames s') b" "path q \<Longrightarrow> tab s' q = tab s q"
    "path q \<Longrightarrow> tab s q = Some t \<Longrightarrow> i < 512 \<Longrightarrow> entry s' t i = entry s t i \<or> length q = 3 \<and> priv q \<and> entry s' t i = cowed (entry s t i)"
    "w div 512 * 4096 \<in> owned_addrs (frames s) \<Longrightarrow> \<not> table_word s w \<Longrightarrow> w div 512 * 4096 \<notin> X \<Longrightarrow> pmem s' w = pmem s w"
  using assms unfolding cl_def by blast+

lemma cl_refl: "vm_ok s \<Longrightarrow> cl s s X"
  by (simp add: cl_def)

lemma cl_trans:
  assumes "cl s s1 X" "cl s1 s2 X"
  shows "cl s s2 X"
proof -
  note a = clD [OF assms(1)] and b = clD [OF assms(2)]
  have tw: "table_word s1 w = table_word s w" for w using a(6) by (auto simp: table_word_def)
  have tk: "tab s2 q = tab s q" if "path q" for q using a(6) [OF that] b(6) [OF that] by simp
  have en: "entry s2 t i = entry s t i \<or> length q = 3 \<and> priv q \<and> entry s2 t i = cowed (entry s t i)"
    if q: "path q" "tab s q = Some t" "i < 512" for q t i
  proof -
    have "tab s1 q = Some t" using a(6) [OF q(1)] q(2) by simp
    then show ?thesis using a(7) [OF q] b(7) [OF q(1) _ q(3)] cowed_bits(5) [of "entry s t i"] by metis
  qed
  have pm: "pmem s2 w = pmem s w" if w: "w div 512 * 4096 \<in> owned_addrs (frames s)" "\<not> table_word s w" "w div 512 * 4096 \<notin> X" for w
    using a(8) [OF w] b(8) [of w] a(4) w tw by auto
  have rf: "addr_refs (frames s) c \<le> addr_refs (frames s2) c" if "c \<in> owned_addrs (frames s)" for c
    using a(5) [OF that] b(5) [of c] a(4) that by fastforce
  show ?thesis
    unfolding cl_def using same_env_trans [OF a(1) b(1)] b(2) a(3) b(3) a(4) b(4) tk en pm rf by auto
qed

lemma cl_mono: "cl s s' X \<Longrightarrow> X \<subseteq> Y \<Longrightarrow> cl s s' Y"
  unfolding cl_def by blast

lemma no_pages_iff: "no_pages s \<longleftrightarrow> (\<forall>q < total_pages (frames s). q * 4096 \<in> owned_addrs (frames s))"
  by (auto simp: no_pages_def owned_addrs_def used_pages_def PAGE_SIZE_def)

lemma cl_no_pages: "cl s s' X \<Longrightarrow> no_pages s \<Longrightarrow> no_pages s'"
  unfolding no_pages_iff by (auto simp: clD(3) dest: clD(4) [THEN subsetD])

text \<open>A page that was not in use before is written freely.\<close>

lemma cl_fresh: "cl s s' (insert b X) \<Longrightarrow> b \<notin> owned_addrs (frames s) \<Longrightarrow> cl s s' X"
  unfolding cl_def by blast

section \<open>What the copy is\<close>

definition shared :: "nat \<Rightarrow> nat \<Rightarrow> bool" where
  "shared level i \<longleftrightarrow> level = 4 \<and> i \<noteq> 0 \<or> level = 3 \<and> i < 8"

text \<open>
  Below entry \<open>i\<close> of the table at path \<open>p\<close>, with \<open>L\<close> levels below it: \<open>ed\<close> is the entry of the copy. The new tables are in \<open>D\<close>,
  the pages in use at the beginning in \<open>Own\<close>.
\<close>

fun copies :: "vm \<Rightarrow> nat set \<Rightarrow> nat set \<Rightarrow> nat \<Rightarrow> u64 \<Rightarrow> nat list \<Rightarrow> nat \<Rightarrow> bool" where
  "copies s Own D 0 ed p i \<longleftrightarrow> (\<exists>t. tab s p = Some t \<and>
     (\<not> bit (entry s t i) 0 \<and> ed = 0 \<or> no_pages s \<and> ed = 0 \<or>
      bit (entry s t i) 0 \<and> ed = entry s t i \<and> cowed (entry s t i) = entry s t i \<and>
        (bit (entry s t i) 2 \<and> entry_addr (entry s t i) \<in> Own \<longrightarrow> 2 \<le> addr_refs (frames s) (entry_addr (entry s t i)))))"
| "copies s Own D (Suc L) ed p i \<longleftrightarrow> (\<exists>t. tab s p = Some t \<and>
     (\<not> bit (entry s t i) 0 \<and> ed = 0 \<or> no_pages s \<and> ed = 0 \<or>
      bit (entry s t i) 0 \<and> shared (Suc (Suc L)) i \<and> ed = entry s t i \<or>
      bit (entry s t i) 0 \<and> \<not> shared (Suc (Suc L)) i \<and>
        (\<exists>b \<in> D. ed = of_nat b OR (entry s t i AND 0xFFF) \<and> (\<forall>j < 512. copies s Own D L (entry s b j) (p @ [i]) j))))"

lemma copies_mono: "copies s Own D L ed p i \<Longrightarrow> D \<subseteq> E \<Longrightarrow> copies s Own E L ed p i"
proof (induction L arbitrary: ed p i)
  case (Suc L)
  then show ?case unfolding copies.simps by blast
qed simp

text \<open>Pages that hold copies: in use, no tables of the active address space.\<close>

definition copy_pages :: "vm \<Rightarrow> nat set \<Rightarrow> bool" where
  "copy_pages s D \<longleftrightarrow> (\<forall>b \<in> D. b \<in> owned_addrs (frames s) \<and> (\<forall>q. path q \<longrightarrow> tab s q \<noteq> Some b))"

lemma copy_page_entry:
  assumes "cl s s' X" "copy_pages s D" "b \<in> D" "b \<notin> X" "j < 512"
  shows "entry s' b j = entry s b j"
proof -
  have b: "b \<in> owned_addrs (frames s)" "4096 dvd b" using assms(2,3) owned_dvd by (auto simp: copy_pages_def)
  have w: "(b div 8 + j) div 512 * 4096 = b" using page_word [OF b(2), of "b div 8 + j"] assms(5) by simp
  have "\<not> table_word s (b div 8 + j)"
  proof
    assume "table_word s (b div 8 + j)"
    then obtain p t where p: "path p" "tab s p = Some t" "t div 8 \<le> b div 8 + j \<and> b div 8 + j < t div 8 + 512"
      by (auto simp: table_word_def)
    then have "t = b" using page_word [OF tab_dvd [OF p(2)], of "b div 8 + j"] w by simp
    then show False using assms(2,3) p(1,2) by (auto simp: copy_pages_def)
  qed
  then show ?thesis using clD(8) [OF assms(1), of "b div 8 + j"] b(1) w assms(4) by (simp add: entry_def)
qed

text \<open>Later steps do not disturb what has been copied.\<close>

lemma copies_stable:
  assumes "cl s s' X" "copy_pages s D" "D \<inter> X = {}" "Own \<subseteq> owned_addrs (frames s)"
  shows "copies s Own D L ed p i \<Longrightarrow> path p \<Longrightarrow> length p + L = 3 \<Longrightarrow> i < 512 \<Longrightarrow> copies s' Own D L ed p i"
proof (induction L arbitrary: ed p i)
  case 0
  then obtain t where t: "tab s p = Some t" "\<not> bit (entry s t i) 0 \<and> ed = 0 \<or> no_pages s \<and> ed = 0 \<or>
      bit (entry s t i) 0 \<and> ed = entry s t i \<and> cowed (entry s t i) = entry s t i \<and>
        (bit (entry s t i) 2 \<and> entry_addr (entry s t i) \<in> Own \<longrightarrow> 2 \<le> addr_refs (frames s) (entry_addr (entry s t i)))"
    by auto
  have t': "tab s' p = Some t" using clD(6) [OF assms(1) 0(2)] t(1) by simp
  have e: "entry s' t i = entry s t i \<or> entry s' t i = cowed (entry s t i)" using clD(7) [OF assms(1) 0(2) t(1) 0(4)] by blast
  have r: "addr_refs (frames s) c \<le> addr_refs (frames s') c" if "c \<in> Own" for c using clD(5) [OF assms(1)] assms(4) that by blast
  from t(2) consider (none) "\<not> bit (entry s t i) 0" "ed = 0" | (full) "no_pages s" "ed = 0"
    | (page) "bit (entry s t i) 0" "ed = entry s t i" "cowed (entry s t i) = entry s t i"
      "bit (entry s t i) 2 \<and> entry_addr (entry s t i) \<in> Own \<longrightarrow> 2 \<le> addr_refs (frames s) (entry_addr (entry s t i))" by blast
  then show ?case
  proof cases
    case none
    then have "\<not> bit (entry s' t i) 0" using e cowed_bits(1) by metis
    then show ?thesis using t' none(2) by simp
  next
    case full
    then have "no_pages s'" using cl_no_pages [OF assms(1)] by blast
    then show ?thesis using t' full(2) by simp
  next
    case page
    then have e': "entry s' t i = entry s t i" using e by auto
    have "bit (entry s t i) 2 \<and> entry_addr (entry s t i) \<in> Own \<longrightarrow> 2 \<le> addr_refs (frames s') (entry_addr (entry s t i))"
      using page(4) r by (meson order_trans)
    then show ?thesis using t' page(1-3) by (simp add: e')
  qed
next
  case (Suc L)
  from Suc.prems(1) obtain t where t: "tab s p = Some t" "\<not> bit (entry s t i) 0 \<and> ed = 0 \<or> no_pages s \<and> ed = 0 \<or>
      bit (entry s t i) 0 \<and> shared (Suc (Suc L)) i \<and> ed = entry s t i \<or>
      bit (entry s t i) 0 \<and> \<not> shared (Suc (Suc L)) i \<and>
        (\<exists>b \<in> D. ed = of_nat b OR (entry s t i AND 0xFFF) \<and> (\<forall>j < 512. copies s Own D L (entry s b j) (p @ [i]) j))"
    by auto
  have t': "tab s' p = Some t" using clD(6) [OF assms(1) Suc.prems(2)] t(1) by simp
  have e: "entry s' t i = entry s t i" using clD(7) [OF assms(1) Suc.prems(2) t(1) Suc.prems(4)] Suc.prems(3) by auto
  have sub: "copies s' Own D L (entry s' b j) (p @ [i]) j" if "b \<in> D" "copies s Own D L (entry s b j) (p @ [i]) j" "j < 512" for b j
  proof -
    have "entry s' b j = entry s b j" by (rule copy_page_entry [OF assms(1,2) that(1) _ that(3)]) (use assms(3) that(1) in auto)
    then show ?thesis using Suc.IH [OF that(2)] Suc.prems(2,3,4) that(3) by (auto simp: path_snoc)
  qed
  then show ?case using t t' e cl_no_pages [OF assms(1)] by auto
qed

section \<open>The steps\<close>

lemma cl_set_copy:
  assumes "vm_ok s" "copy_pages s {a}" "i < 512" "s' = set_entry a i e s"
  shows "cl s s' {a}" "entry s' a i = e" "\<And>j. j < 512 \<Longrightarrow> j \<noteq> i \<Longrightarrow> entry s' a j = entry s a j"
proof -
  have a: "4096 dvd a" "a \<in> owned_addrs (frames s)" "\<forall>q. path q \<longrightarrow> tab s q \<noteq> Some a"
    using assms(2) owned_dvd by (auto simp: copy_pages_def)
  have env: "same_env s s'" "frames s' = frames s" unfolding assms(4) by (simp_all add: same_env_def set_entry_def)
  have out: "\<forall>w. w div 512 * 4096 \<noteq> a \<longrightarrow> pmem s' w = pmem s w"
  proof (intro allI impI)
    fix w assume "w div 512 * 4096 \<noteq> a"
    then have "w \<noteq> a div 8 + i" using page_word [OF a(1), of w] assms(3) by auto
    then show "pmem s' w = pmem s w" unfolding assms(4) by (simp add: set_entry_def)
  qed
  have "pmm_ok (frames s')" "total_pages (frames s') = total_pages (frames s)" "owned_addrs (frames s) \<subseteq> owned_addrs (frames s')"
    using env(2) vm_okD(1) [OF assms(1)] by auto
  note pw = page_write_ok [OF assms(1) same_env_root [OF env(1)] a(3) out this(3,1,2)]
  show "cl s s' {a}" unfolding cl_def using env pw out by auto
  show "entry s' a i = e" "\<And>j. j < 512 \<Longrightarrow> j \<noteq> i \<Longrightarrow> entry s' a j = entry s a j"
    unfolding assms(4) by (auto simp: entry_def set_entry_def)
qed

lemma cl_frames:
  assumes "vm_ok s" "pmm_ok F" "total_pages F = total_pages (frames s)" "owned_addrs F = owned_addrs (frames s)"
    "\<And>b. b \<in> owned_addrs (frames s) \<Longrightarrow> addr_refs (frames s) b \<le> addr_refs F b"
  shows "cl s (s\<lparr>frames := F, cache := c\<rparr>) X"
proof -
  let ?s' = "s\<lparr>frames := F, cache := c\<rparr>"
  have r: "get_active_pml4 ?s' = get_active_pml4 s" by (simp add: get_active_pml4_def)
  have "vm_ok ?s'" using vm_ok_cong(1) [OF assms(1) _ r] assms(2-4) by simp
  moreover have "tab ?s' = tab s" using tab_cong [OF _ r] by simp
  ultimately show ?thesis unfolding cl_def using assms(3-5) by (auto simp: same_env_def entry_def)
qed

lemma cl_new_page:
  assumes "vm_ok s" "b \<noteq> 0" "b \<notin> owned_addrs (frames s)" "owned_addrs F = insert b (owned_addrs (frames s))" "pmm_ok F"
    "total_pages F = total_pages (frames s)" "\<forall>c \<in> owned_addrs (frames s). addr_refs F c = addr_refs (frames s) c"
    "s' = zero_page b (s\<lparr>frames := F, cache := c\<rparr>)"
  shows "cl s s' {}" "copy_pages s' {b}" "\<And>j. j < 512 \<Longrightarrow> entry s' b j = 0" "frames s' = F" "b < 2 ^ 52"
proof -
  have env: "same_env s s'" "frames s' = F" unfolding assms(8) by (simp_all add: same_env_def zero_page_def write_page_def)
  show "frames s' = F" by (rule env(2))
  have b: "4096 dvd b" using owned_dvd [of b F] assms(4) by auto
  show "b < 2 ^ 52" using owned_lt [of b F] assms(4,6) vm_okD(2) [OF assms(1)] by auto
  have out: "\<forall>w. w div 512 * 4096 \<noteq> b \<longrightarrow> pmem s' w = pmem s w"
  proof (intro allI impI)
    fix w assume "w div 512 * 4096 \<noteq> b"
    then have "\<not> (b div 8 \<le> w \<and> w < b div 8 + 512)" using page_word [OF b, of w] by auto
    then show "pmem s' w = pmem s w" unfolding assms(8) zero_page_def write_page_def by auto
  qed
  have nt: "\<forall>q. path q \<longrightarrow> tab s q \<noteq> Some b" using vm_okD(3) [OF assms(1)] assms(3) by blast
  have "owned_addrs (frames s) \<subseteq> owned_addrs (frames s')" "pmm_ok (frames s')" "total_pages (frames s') = total_pages (frames s)"
    using env(2) assms(4-6) by auto
  note pw = page_write_ok [OF assms(1) same_env_root [OF env(1)] nt out this]
  show "cl s s' {}" unfolding cl_def using env pw out assms(3,4,6,7) by (auto, metis)
  show "copy_pages s' {b}" using pw(3) nt env(2) assms(4) by (simp add: copy_pages_def)
  show "\<And>j. j < 512 \<Longrightarrow> entry s' b j = 0" unfolding assms(8) by (simp add: entry_def zero_page_def write_page_def)
qed

lemma va_exists:
  assumes "i < 512" "j < 512" "k < 512" "l < 512"
  shows "\<exists>va. PML4_INDEX va = i \<and> PDPT_INDEX va = j \<and> PD_INDEX va = k \<and> PT_INDEX va = l"
proof -
  let ?va = "(((i * 512 + j) * 512 + k) * 512 + l) * 4096"
  have d: "?va div 2 ^ 12 = ((i * 512 + j) * 512 + k) * 512 + l" by simp
  have d2: "?va div 2 ^ 21 = (i * 512 + j) * 512 + k"
  proof -
    have "?va div 2 ^ 21 = ?va div 2 ^ 12 div 512" by (simp add: div_mult2_eq [symmetric])
    then show ?thesis unfolding d using assms by simp
  qed
  have d3: "?va div 2 ^ 30 = i * 512 + j"
  proof -
    have "?va div 2 ^ 30 = ?va div 2 ^ 21 div 512" by (simp add: div_mult2_eq [symmetric])
    then show ?thesis unfolding d2 using assms by simp
  qed
  have d4: "?va div 2 ^ 39 = i"
  proof -
    have "?va div 2 ^ 39 = ?va div 2 ^ 30 div 512" by (simp add: div_mult2_eq [symmetric])
    then show ?thesis unfolding d3 using assms by simp
  qed
  have m: "(x * 512 + y) mod 512 = y" if "y < 512" for x y :: nat using that by simp
  have "PML4_INDEX ?va = i" "PDPT_INDEX ?va = j" "PD_INDEX ?va = k" "PT_INDEX ?va = l"
    unfolding PML4_INDEX_def PDPT_INDEX_def PD_INDEX_def PT_INDEX_def d d2 d3 d4
    using m [OF assms(2)] m [OF assms(3)] m [OF assms(4)] assms(1) by (simp_all only: mod_less)
  then show ?thesis by blast
qed

lemma path3: "path p \<Longrightarrow> length p = 3 \<Longrightarrow> \<exists>i j k. p = [i, j, k] \<and> i < 512 \<and> j < 512 \<and> k < 512"
  by (auto simp: path_def length_Suc_conv numeral_3_eq_3)

lemma cl_cow_leaf:
  assumes "vm_ok s" "path p" "length p = 3" "priv p" "tab s p = Some t" "l < 512" "s' = set_entry t l (cowed (entry s t l)) s"
  shows "cl s s' {}" "entry s' t l = cowed (entry s t l)"
    "\<And>u j. 4096 dvd u \<Longrightarrow> j < 512 \<Longrightarrow> u \<noteq> t \<Longrightarrow> entry s' u j = entry s u j"
proof -
  obtain i j k where p: "p = [i, j, k]" "i < 512" "j < 512" "k < 512" using path3 [OF assms(2,3)] by blast
  obtain va where va: "PML4_INDEX va = i" "PDPT_INDEX va = j" "PD_INDEX va = k" "PT_INDEX va = l"
    using va_exists [OF p(2-4) assms(6)] by blast
  note sl = set_leaf_ok [OF assms(1), of va t s' "cowed (entry s t l)", unfolded va, folded p(1), OF assms(5,7)]
  have env: "same_env s s'" unfolding assms(7) by (simp add: same_env_def set_entry_def)
  have en: "entry s' u n = entry s u n \<or> length q = 3 \<and> priv q \<and> entry s' u n = cowed (entry s u n)"
    if q: "path q" "tab s q = Some u" "n < 512" for q u n
  proof (cases "u = t \<and> n = l")
    case True
    then have "q = p" using vm_okD(5) [OF assms(1) q(1) assms(2) q(2)] assms(5) by blast
    then show ?thesis using sl(7) True assms(3,4) by simp
  next
    case False
    then show ?thesis using sl(6) [of u n] tab_dvd [OF q(2)] q(3) by simp
  qed
  show "cl s s' {}" unfolding cl_def using env sl(1,3,4,5) en by (auto simp: data_kept_def)
  show "entry s' t l = cowed (entry s t l)" by (rule sl(7))
  show "\<And>u j. 4096 dvd u \<Longrightarrow> j < 512 \<Longrightarrow> u \<noteq> t \<Longrightarrow> entry s' u j = entry s u j" using sl(6) by blast
qed

section \<open>One page\<close>

abbreviation ref_overflow :: panic where
  "ref_overflow \<equiv> Panic ''PMM Refcount overflow!''"

lemma ref_page_ok:
  assumes "pmm_ok F"
  shows "pmm_ref_page a F = Inl ref_overflow \<or>
    (\<exists>G. pmm_ref_page a F = Inr G \<and> pmm_ok G \<and> total_pages G = total_pages F \<and> owned_addrs G = owned_addrs F \<and>
       (\<forall>b \<in> owned_addrs F. addr_refs F b \<le> addr_refs G b) \<and> (a \<in> owned_addrs F \<longrightarrow> addr_refs G a = addr_refs F a + 1))"
proof -
  let ?p = "a div PAGE_SIZE"
  have rc: "pmm_ref_counts F \<noteq> 0" using assms by (simp add: pmm_ok_def pmm_inv_def)
  have big: "a \<notin> owned_addrs F" if "total_pages F \<le> ?p" using that by (auto simp: owned_addrs_def used_pages_def PAGE_SIZE_def)
  show ?thesis
  proof (cases "?p < total_pages F \<and> refs_mem F ?p < 65535")
    case False
    then show ?thesis using rc assms big by (auto simp: pmm_ref_page_def Let_def not_less)
  next
    case True
    let ?G = "F\<lparr>refs_mem := (refs_mem F)(?p := refs_mem F ?p + 1)\<rparr>"
    have r: "pmm_ref_page a F = Inr ?G" using True rc by (simp add: pmm_ref_page_def Let_def)
    have st: "same_tables F ?G" "bitmap_test ?G = bitmap_test F" "used_ram ?G = used_ram F"
      by (simp_all add: same_tables_def bitmap_test_def fun_eq_iff)
    have "used_pages ?G = used_pages F" using same_used_pages [OF st(1,2)] .
    then have o: "owned_addrs ?G = owned_addrs F" by (rule owned_addrs_cong)
    have up: "unat (refs_mem F ?p + 1) = unat (refs_mem F ?p) + 1"
    proof -
      have "unat (refs_mem F ?p) < 65535" using True by (simp add: word_less_nat_alt)
      then show ?thesis by (simp add: unat_word_ariths)
    qed
    have ref: "addr_refs ?G b = (if b div PAGE_SIZE = ?p then addr_refs F b + 1 else addr_refs F b)" if "b \<in> owned_addrs F" for b
      using that rc up by (auto simp: addr_refs_def pmm_get_ref_count_def Let_def owned_addrs_def used_pages_def PAGE_SIZE_def)
    have "pmm_ok ?G"
    proof -
      have "refs_inv ?G" using assms inc_pos [of "refs_mem F ?p"] True st(2) by (auto simp: refs_inv_def pmm_ok_def)
      moreover have "page0_used ?G" using assms st(2) by (simp add: page0_used_def pmm_ok_def)
      moreover have "pmm_inv ?G" using assms pmm_inv_cong [OF st] by (simp add: pmm_ok_def)
      ultimately show ?thesis by (simp add: pmm_ok_def)
    qed
    then show ?thesis using r o ref by auto
  qed
qed

lemma low_bits: "bit (e AND 0xFFF) n \<longleftrightarrow> bit e n \<and> n < 12" for e :: u64
proof -
  have m: "(0xFFF :: u64) = mask 12" by (simp add: mask_eq_exp_minus_1)
  show ?thesis unfolding m by (auto simp: bit_and_iff bit_mask_iff dest: bit_imp_le_length)
qed

lemma clone_page_ok:
  assumes "vm_ok s" "path p" "length p = 3" "priv p" "tab s p = Some t" "i < 512" "bit (entry s t i) 0" "copy_pages s {a}"
    "Own \<subseteq> owned_addrs (frames s)"
  shows "clone_page a t True i s = Inl ref_overflow \<or>
    (\<exists>s'. clone_page a t True i s = Inr ((), s') \<and> cl s s' {a} \<and> copies s' Own D 0 (entry s' a i) p i \<and>
       (\<forall>j < 512. j \<noteq> i \<longrightarrow> entry s' a j = entry s a j))"
proof (cases "bit (entry s t i) 2")
  case False
  let ?e = "entry s t i" let ?s' = "set_entry a i ?e s"
  note sc = cl_set_copy [OF assms(1,8,6) refl, where e = ?e]
  have "\<not> has (?e AND NOT PAGE_ADDR_MASK) PAGE_USER" using False by (simp add: flag_bits bit_and_iff)
  then have "clone_page a t True i s = Inr ((), ?s')" by (simp add: clone_page_def Let_def)
  moreover have "entry ?s' t i = ?e"
    using clD(7) [OF sc(1) assms(2,5,6)] False by (auto simp: cowed_def)
  moreover have "tab ?s' p = Some t" using clD(6) [OF sc(1) assms(2)] assms(5) by simp
  ultimately show ?thesis using sc assms(7) False by (auto simp: cowed_def)
next
  case True
  let ?e = "entry s t i" let ?f = "entry_addr ?e"
  let ?s1 = "set_entry t i (cowed ?e) s"
  let ?s2 = "set_entry a i (cowed ?e) ?s1"
  note c1 = cl_cow_leaf [OF assms(1-6) refl]
  have cp1: "copy_pages ?s1 {a}" using assms(8) clD(4,6) [OF c1(1)] by (auto simp: copy_pages_def)
  note c2 = cl_set_copy [OF clD(2) [OF c1(1)] cp1 assms(6) refl, where e = "cowed ?e"]
  have c12: "cl s ?s2 {a}" using cl_trans [OF cl_mono [OF c1(1)] c2(1)] by simp
  have fr: "frames ?s2 = frames s" by (simp add: set_entry_def)
  have us: "has (?e AND NOT PAGE_ADDR_MASK) PAGE_USER"
    using True by (simp add: flag_bits bit_and_iff bit_not_iff bit_addr_mask)
  have ce: "cowed ?e = (?e OR PAGE_COW) AND NOT PAGE_WRITE" using True assms(7) by (simp add: cowed_def)
  have cp: "clone_page a t True i s = with_frames (pmm_ref_page ?f) ?s2"
    using us c1(2) unfolding clone_page_def Let_def ce [symmetric] by (simp add: ce)
  from ref_page_ok [OF vm_okD(1) [OF assms(1)], of ?f] show ?thesis
  proof (elim disjE exE conjE)
    assume "pmm_ref_page ?f (frames s) = Inl ref_overflow"
    then show ?thesis using cp fr by (simp add: with_frames_def)
  next
    fix G assume G: "pmm_ref_page ?f (frames s) = Inr G" "pmm_ok G" "total_pages G = total_pages (frames s)"
      "owned_addrs G = owned_addrs (frames s)" "\<forall>b \<in> owned_addrs (frames s). addr_refs (frames s) b \<le> addr_refs G b"
      "?f \<in> owned_addrs (frames s) \<longrightarrow> addr_refs G ?f = addr_refs (frames s) ?f + 1"
    let ?s3 = "?s2\<lparr>frames := G\<rparr>"
    have "cl ?s2 (?s2\<lparr>frames := G, cache := cache ?s2\<rparr>) {a}"
      by (rule cl_frames [OF clD(2) [OF c12] G(2)]) (use G fr in auto)
    then have c3: "cl ?s2 ?s3 {a}" by simp
    have c: "cl s ?s3 {a}" by (rule cl_trans [OF c12 c3])
    have r: "clone_page a t True i s = Inr ((), ?s3)" using cp fr G(1) by (simp add: with_frames_def)
    have at: "a \<noteq> t" using assms(2,5,8) by (auto simp: copy_pages_def)
    have et: "entry ?s3 t i = cowed ?e"
    proof -
      have "4096 dvd a" using assms(8) owned_dvd by (auto simp: copy_pages_def)
      then have "t div 8 + i \<noteq> a div 8 + i" using word_inj [OF tab_dvd [OF assms(5)] _ assms(6,6), of a] at by auto
      then show ?thesis by (simp add: entry_def set_entry_def)
    qed
    have ea: "entry ?s3 a i = cowed ?e" "\<forall>j < 512. j \<noteq> i \<longrightarrow> entry ?s3 a j = entry s a j"
    proof -
      show "entry ?s3 a i = cowed ?e" using c2(2) by (simp add: entry_def)
      have "4096 dvd a" using assms(8) owned_dvd by (auto simp: copy_pages_def)
      then show "\<forall>j < 512. j \<noteq> i \<longrightarrow> entry ?s3 a j = entry s a j" using c2(3) c1(3) [OF _ _ at] by (simp add: entry_def)
    qed
    have "2 \<le> addr_refs G ?f" if "?f \<in> Own"
    proof -
      have o: "?f \<in> owned_addrs (frames s)" using that assms(9) by auto
      then obtain q where q: "?f = q * PAGE_SIZE" "q < total_pages (frames s)" "bitmap_test (frames s) q" by (auto simp: owned_addrs_def used_pages_def)
      then have "0 < refs_mem (frames s) q" using vm_okD(1) [OF assms(1)] by (simp add: pmm_ok_def refs_inv_def)
      then have "0 < addr_refs (frames s) ?f"
        using addr_refs_page [OF vm_okD(1) [OF assms(1)] q(2)] q(1) by (simp add: unat_gt_0 word_gt_0)
      then show ?thesis using G(6) o by simp
    qed
    moreover have "tab ?s3 p = Some t" using clD(6) [OF c assms(2)] assms(5) by simp
    ultimately have "copies ?s3 Own D 0 (entry ?s3 a i) p i"
      using et ea(1) cowed_bits(1,4,5) [of ?e] assms(7) by simp
    then show ?thesis using r c ea(2) by blast
  qed
qed

section \<open>The whole tree\<close>

definition no_huge :: "vm \<Rightarrow> bool" where
  "no_huge s \<longleftrightarrow> (\<forall>j t k. 8 \<le> j \<and> j < 512 \<and> k < 512 \<and> tab s [0, j] = Some t \<longrightarrow> \<not> (bit (entry s t k) 0 \<and> bit (entry s t k) 7))"

lemma no_huge_cl:
  assumes "cl s s' X" "no_huge s"
  shows "no_huge s'"
  unfolding no_huge_def
proof (intro allI impI)
  fix j t and k :: nat assume a: "8 \<le> j \<and> j < 512 \<and> k < 512 \<and> tab s' [0, j] = Some t"
  have p: "path [0, j]" using a by (simp add: path_def)
  then have t: "tab s [0, j] = Some t" using clD(6) [OF assms(1)] a by simp
  then have "entry s' t k = entry s t k" using clD(7) [OF assms(1) p t, of k] a by simp
  then show "\<not> (bit (entry s' t k) 0 \<and> bit (entry s' t k) 7)" using assms(2) a t by (auto simp: no_huge_def)
qed

definition clone_inv :: "vm \<Rightarrow> nat set \<Rightarrow> nat set \<Rightarrow> nat \<Rightarrow> nat \<Rightarrow> nat list \<Rightarrow> nat \<Rightarrow> nat \<Rightarrow> bool" where
  "clone_inv s Own D L a p t i \<longleftrightarrow> vm_ok s \<and> no_huge s \<and> tab s p = Some t \<and> path p \<and> length p + L = 3 \<and> priv p \<and> copy_pages s {a} \<and>
     Own \<subseteq> owned_addrs (frames s) \<and> copy_pages s D \<and> a \<notin> D \<and> (\<forall>j < i. copies s Own D L (entry s a j) p j) \<and>
     (\<forall>j < 512. i \<le> j \<longrightarrow> entry s a j = 0)"

definition clone_post :: "vm \<Rightarrow> nat set \<Rightarrow> nat set \<Rightarrow> nat \<Rightarrow> nat \<Rightarrow> nat list \<Rightarrow> unit vm_result \<Rightarrow> bool" where
  "clone_post s Own D L a p r \<longleftrightarrow> r = Inl ref_overflow \<or>
     (\<exists>s' D'. r = Inr ((), s') \<and> cl s s' {a} \<and> D \<subseteq> D' \<and> copy_pages s' D' \<and> a \<notin> D' \<and> (\<forall>b \<in> D' - D. b \<notin> owned_addrs (frames s)) \<and>
       (\<forall>j < 512. copies s' Own D' L (entry s' a j) p j))"

lemma copy_pages_cl: "cl s s' X \<Longrightarrow> copy_pages s D \<Longrightarrow> copy_pages s' D"
  unfolding copy_pages_def using clD(4,6) by (metis subsetD)

lemma clone_inv_step:
  assumes "clone_inv s Own D L a p t i" "i < 512" "cl s s1 {a}" "\<forall>j < 512. j \<noteq> i \<longrightarrow> entry s1 a j = entry s a j" "D \<subseteq> D1"
    "copy_pages s1 D1" "a \<notin> D1" "copies s1 Own D1 L (entry s1 a i) p i"
  shows "clone_inv s1 Own D1 L a p t (Suc i)"
proof -
  have I: "vm_ok s" "no_huge s" "tab s p = Some t" "path p" "length p + L = 3" "priv p" "copy_pages s {a}" "Own \<subseteq> owned_addrs (frames s)"
    "copy_pages s D" "a \<notin> D" "\<forall>j < i. copies s Own D L (entry s a j) p j" "\<forall>j < 512. i \<le> j \<longrightarrow> entry s a j = 0"
    using assms(1) by (simp_all add: clone_inv_def)
  have old: "copies s1 Own D1 L (entry s1 a j) p j" if "j < i" for j
  proof -
    have "copies s1 Own D L (entry s a j) p j"
      by (rule copies_stable [OF assms(3) I(9) _ I(8)]) (use I(4,5,10,11) that assms(2) in auto)
    then show ?thesis using copies_mono [OF _ assms(5)] assms(4) that assms(2) by simp
  qed
  then have "copies s1 Own D1 L (entry s1 a j) p j" if "j < Suc i" for j using that assms(8) by (cases "j = i") auto
  moreover have "\<forall>j < 512. Suc i \<le> j \<longrightarrow> entry s1 a j = 0" using I(12) assms(4) by auto
  moreover have "tab s1 p = Some t" using clD(6) [OF assms(3) I(4)] I(3) by simp
  moreover have "Own \<subseteq> owned_addrs (frames s1)" using clD(4) [OF assms(3)] I(8) by auto
  ultimately show ?thesis
    unfolding clone_inv_def using clD(2) [OF assms(3)] no_huge_cl [OF assms(3) I(2)] copy_pages_cl [OF assms(3) I(7)] I(4-6) assms(6,7) by blast
qed

lemma clone_post_step:
  assumes "cl s s1 {a}" "D \<subseteq> D1" "\<forall>b \<in> D1 - D. b \<notin> owned_addrs (frames s)" "clone_post s1 Own D1 L a p r"
  shows "clone_post s Own D L a p r"
  using assms(4) unfolding clone_post_def
proof (elim disjE exE conjE)
  fix s' D' assume r: "r = Inr ((), s')" "cl s1 s' {a}" "D1 \<subseteq> D'" "copy_pages s' D'" "a \<notin> D'" "\<forall>b \<in> D' - D1. b \<notin> owned_addrs (frames s1)"
    "\<forall>j < 512. copies s' Own D' L (entry s' a j) p j"
  have "\<forall>b \<in> D' - D. b \<notin> owned_addrs (frames s)" using assms(3) r(6) clD(4) [OF assms(1)] by blast
  then show "r = Inl ref_overflow \<or> (\<exists>s' D'. r = Inr ((), s') \<and> cl s s' {a} \<and> D \<subseteq> D' \<and> copy_pages s' D' \<and> a \<notin> D' \<and>
      (\<forall>b \<in> D' - D. b \<notin> owned_addrs (frames s)) \<and> (\<forall>j < 512. copies s' Own D' L (entry s' a j) p j))"
    using r cl_trans [OF assms(1) r(2)] assms(2) by blast
qed simp

lemma priv_snoc: "priv p \<Longrightarrow> length p + L = 3 \<Longrightarrow> \<not> shared (Suc L) i \<Longrightarrow> priv (p @ [i])"
  by (cases p; cases "tl p") (auto simp: priv_def shared_def nth_append split: if_splits)

lemma priv_link:
  assumes "vm_ok s" "no_huge s" "path p" "priv p" "length p < 3" "tab s p = Some t" "i < 512" "bit (entry s t i) 0"
  shows "tab s (p @ [i]) = Some (entry_addr (entry s t i))"
proof -
  have "\<not> bit (entry s t i) 7"
  proof (cases "length p < 2")
    case True
    then show ?thesis using vm_okD(6) [OF assms(1,3) True assms(7,6)] assms(8) by blast
  next
    case False
    then obtain x j where p: "p = [x, j]" using assms(5) by (cases p; cases "tl p") auto
    then have "x = 0" "8 \<le> j" "j < 512" using assms(3,4) by (auto simp: priv_def path_def)
    then show ?thesis using assms(2,6,7,8) p by (auto simp: no_huge_def)
  qed
  then show ?thesis using assms(6,8) by (simp add: tab_snoc is_link_def)
qed

text \<open>One turn of the loop, in the four cases of the code.\<close>

lemma clone_turn:
  assumes "i < 512" "e = entry s t i"
  shows "\<not> bit e 0 \<Longrightarrow> clone_pt_recursive a t level cow i s = clone_pt_recursive a t level cow (Suc i) s"
    "bit e 0 \<Longrightarrow> shared level i \<Longrightarrow> clone_pt_recursive a t level cow i s = clone_pt_recursive a t level cow (Suc i) (set_entry a i e s)"
    "bit e 0 \<Longrightarrow> \<not> shared level i \<Longrightarrow> level = Suc (Suc L) \<Longrightarrow> clone_pt_recursive a t level cow i s =
       vbind (vm_alloc s) (\<lambda>b s1. if b = 0 then Inr ((), s1)
         else vbind (clone_pt_recursive b (entry_addr e) (Suc L) cow 0 (zero_page b s1)) (\<lambda>_ s2.
           clone_pt_recursive a t level cow (Suc i) (set_entry a i (of_nat b OR (entry s2 t i AND 0xFFF)) s2)))"
    "bit e 0 \<Longrightarrow> level = 1 \<Longrightarrow> clone_pt_recursive a t level cow i s =
       vbind (clone_page a t cow i s) (\<lambda>_ s1. clone_pt_recursive a t level cow (Suc i) s1)"
proof -
  have u: "clone_pt_recursive a t level cow i s =
     (if \<not> bit e 0 then clone_pt_recursive a t level cow (Suc i) s
      else if shared level i then clone_pt_recursive a t level cow (Suc i) (set_entry a i e s)
      else if level > 1 then vbind (vm_alloc s) (\<lambda>b s1. if b = 0 then Inr ((), s1)
         else vbind (clone_pt_recursive b (entry_addr e) (level - 1) cow 0 (zero_page b s1)) (\<lambda>_ s2.
           clone_pt_recursive a t level cow (Suc i) (set_entry a i (of_nat b OR (entry s2 t i AND 0xFFF)) s2)))
      else vbind (clone_page a t cow i s) (\<lambda>_ s1. clone_pt_recursive a t level cow (Suc i) s1))"
    unfolding clone_pt_recursive.simps [of a t level cow i s] Let_def flag_bits vbind_def shared_def assms(2)
    using assms(1) by (simp only: not_le [symmetric] if_False)
  show "\<not> bit e 0 \<Longrightarrow> clone_pt_recursive a t level cow i s = clone_pt_recursive a t level cow (Suc i) s"
    "bit e 0 \<Longrightarrow> shared level i \<Longrightarrow> clone_pt_recursive a t level cow i s = clone_pt_recursive a t level cow (Suc i) (set_entry a i e s)"
    by (simp_all only: u if_True if_False simp_thms)
  show "clone_pt_recursive a t level cow i s =
       vbind (vm_alloc s) (\<lambda>b s1. if b = 0 then Inr ((), s1)
         else vbind (clone_pt_recursive b (entry_addr e) (Suc L) cow 0 (zero_page b s1)) (\<lambda>_ s2.
           clone_pt_recursive a t level cow (Suc i) (set_entry a i (of_nat b OR (entry s2 t i AND 0xFFF)) s2)))"
    if px: "bit e 0" "\<not> shared level i" "level = Suc (Suc L)"
  proof -
    have "1 < level" "level - 1 = Suc L" using px(3) by simp_all
    then show ?thesis unfolding u using px(1,2) by (simp only: if_True if_False simp_thms)
  qed
  show "clone_pt_recursive a t level cow i s = vbind (clone_page a t cow i s) (\<lambda>_ s1. clone_pt_recursive a t level cow (Suc i) s1)"
    if px: "bit e 0" "level = 1"
  proof -
    have "\<not> 1 < level" "\<not> shared level i" using px(2) by (simp_all add: shared_def)
    then show ?thesis unfolding u using px(1) by (simp only: if_True if_False simp_thms)
  qed
qed

text \<open>The copy of the tables one level down, as the loop uses it.\<close>

definition clone_below :: "nat \<Rightarrow> bool" where
  "clone_below L \<longleftrightarrow> (\<forall>s Own b q u. clone_inv s Own {} L b q u 0 \<longrightarrow> clone_post s Own {} L b q (clone_pt_recursive b u (Suc L) True 0 s))"

lemma cl_entry: "cl s s' X \<Longrightarrow> path p \<Longrightarrow> tab s p = Some t \<Longrightarrow> length p < 3 \<Longrightarrow> i < 512 \<Longrightarrow> entry s' t i = entry s t i"
  using clD(7) [of s s' X p t i] by auto

lemma clone_invD:
  assumes "clone_inv s Own D L a p t i"
  shows "vm_ok s" "no_huge s" "tab s p = Some t" "path p" "length p + L = 3" "priv p" "copy_pages s {a}"
    "Own \<subseteq> owned_addrs (frames s)" "copy_pages s D" "a \<notin> D" "\<forall>j < i. copies s Own D L (entry s a j) p j"
    "\<forall>j < 512. i \<le> j \<longrightarrow> entry s a j = 0"
  using assms by (simp_all add: clone_inv_def)

text \<open>An entry that leads to a table: the table is copied and linked.\<close>

lemma clone_table:
  assumes "clone_below L" "clone_inv s Own D (Suc L) a p t i" "i < 512" "bit (entry s t i) 0" "\<not> shared (Suc (Suc L)) i"
    "vm_alloc s = Inr (b, s\<lparr>frames := F, cache := c\<rparr>)" "b \<noteq> 0" "b \<notin> owned_addrs (frames s)"
    "owned_addrs F = insert b (owned_addrs (frames s))" "pmm_ok F" "total_pages F = total_pages (frames s)"
    "\<forall>b \<in> owned_addrs (frames s). addr_refs F b = addr_refs (frames s) b"
  defines "r \<equiv> clone_pt_recursive b (entry_addr (entry s t i)) (Suc L) True 0 (zero_page b (s\<lparr>frames := F, cache := c\<rparr>))"
  shows "r = Inl ref_overflow \<or> (\<exists>s2 s3 D1. r = Inr ((), s2) \<and> s3 = set_entry a i (of_nat b OR (entry s2 t i AND 0xFFF)) s2 \<and>
     cl s s3 {a} \<and> D \<subseteq> D1 \<and> (\<forall>d \<in> D1 - D. d \<notin> owned_addrs (frames s)) \<and> clone_inv s3 Own D1 (Suc L) a p t (Suc i))"
proof -
  note I = clone_invD [OF assms(2)]
  let ?s1 = "zero_page b (s\<lparr>frames := F, cache := c\<rparr>)" and ?q = "p @ [i]"
  note np = cl_new_page [where s' = ?s1, OF I(1) assms(7,8,9,10,11,12) refl]
  have lp: "length p < 3" using I(5) by simp
  have q: "path ?q" "priv ?q" "length ?q + L = 3" using I(4,5) lp assms(3) priv_snoc [OF I(6) I(5) assms(5)] by (auto simp: path_snoc)
  have "tab s ?q = Some (entry_addr (entry s t i))" by (rule priv_link [OF I(1,2,4,6) lp I(3) assms(3,4)])
  then have tq: "tab ?s1 ?q = Some (entry_addr (entry s t i))" using clD(6) [OF np(1) q(1)] by simp
  have "clone_inv ?s1 Own {} L b ?q (entry_addr (entry s t i)) 0"
    unfolding clone_inv_def using clD(2,4) [OF np(1)] no_huge_cl [OF np(1) I(2)] tq q np(2,3) I(8) by (auto simp: copy_pages_def)
  then have "clone_post ?s1 Own {} L b ?q r" using assms(1) unfolding clone_below_def r_def by blast
  then show ?thesis
    unfolding clone_post_def
  proof (elim disjE exE conjE)
    fix s2 D2 assume r: "r = Inr ((), s2)" "cl ?s1 s2 {b}" "copy_pages s2 D2" "b \<notin> D2" "\<forall>d \<in> D2 - {}. d \<notin> owned_addrs (frames ?s1)"
      "\<forall>j < 512. copies s2 Own D2 L (entry s2 b j) ?q j"
    let ?e = "of_nat b OR (entry s2 t i AND 0xFFF)"
    let ?s3 = "set_entry a i ?e s2" and ?D1 = "D \<union> D2 \<union> {b}"
    have c2: "cl s s2 {}" using cl_fresh [OF cl_trans [OF cl_mono [OF np(1)] r(2)]] assms(8) by simp
    have new: "\<forall>d \<in> D2 \<union> {b}. d \<notin> owned_addrs (frames s)" using r(5) clD(4) [OF np(1)] assms(8) by blast
    have ao: "a \<in> owned_addrs (frames s)" "a \<noteq> b" using I(7) assms(8) by (auto simp: copy_pages_def)
    have cpa: "copy_pages s2 {a}" "copy_pages s2 D" "copy_pages s2 {b}"
      using copy_pages_cl [OF c2] I(7,9) copy_pages_cl [OF r(2) np(2)] by auto
    note c3 = cl_set_copy [OF clD(2) [OF c2] cpa(1) assms(3) refl, where e = ?e]
    have cl3: "cl s ?s3 {a}" by (rule cl_trans [OF cl_mono [OF c2] c3(1)]) simp
    have et: "entry s2 t i = entry s t i" by (rule cl_entry [OF c2 I(4,3) lp assms(3)])
    have et3: "entry ?s3 t i = entry s t i" by (rule cl_entry [OF cl3 I(4,3) lp assms(3)])
    have cpd: "copy_pages s2 ?D1" using cpa(2,3) r(3) by (auto simp: copy_pages_def)
    have aD: "a \<notin> ?D1" using I(10) ao new by auto
    have "copies ?s3 Own ?D1 L (entry ?s3 b j) ?q j" if j: "j < 512" for j
    proof -
      have cs: "copies s2 Own ?D1 L (entry s2 b j) ?q j" by (rule copies_mono [OF r(6) [rule_format, OF j]]) blast
      have "entry ?s3 b j = entry s2 b j" by (rule copy_page_entry [OF c3(1) cpa(3) _ _ j]) (use ao in auto)
      moreover have "copies ?s3 Own ?D1 L (entry s2 b j) ?q j"
        by (rule copies_stable [OF c3(1) cpd _ _ cs q(1,3) j]) (use aD I(8) clD(4) [OF c2] in auto)
      ultimately show ?thesis by (simp only:)
    qed
    then have "copies ?s3 Own ?D1 (Suc L) (entry ?s3 a i) p i"
      using c3(2) clD(6) [OF cl3 I(4)] I(3) et et3 assms(4,5) by auto
    moreover have "\<forall>j < 512. j \<noteq> i \<longrightarrow> entry ?s3 a j = entry s a j"
      using c3(3) copy_page_entry [OF c2 I(7)] by simp
    ultimately have "clone_inv ?s3 Own ?D1 (Suc L) a p t (Suc i)"
      by (intro clone_inv_step [OF assms(2,3) cl3]) (use copy_pages_cl [OF c3(1) cpd] aD in auto)
    then show ?thesis using r(1) cl3 new by (intro disjI2 exI [of _ s2] exI [of _ ?s3] exI [of _ ?D1]) auto
  qed simp
qed

text \<open>The loop over the entries of one table, given the copy of the tables below.\<close>

lemma clone_post_done:
  assumes "clone_inv s Own D L a p t i" "cl s s' {a}" "\<forall>j < 512. i \<le> j \<longrightarrow> copies s' Own D L 0 p j" "i \<le> 512" "pmem s' = pmem s"
  shows "clone_post s Own D L a p (Inr ((), s'))"
proof -
  note I = clone_invD [OF assms(1)]
  have "copies s' Own D L (entry s' a j) p j" if j: "j < 512" for j
  proof (cases "j < i")
    case True
    then show ?thesis
      using copies_stable [OF assms(2) I(9) _ I(8) _ I(4,5) j, of "entry s a j"] I(10,11) assms(5) by (simp add: entry_def)
  next
    case False
    then show ?thesis using assms(3,5) I(12) j by (simp add: entry_def)
  qed
  then show ?thesis
    unfolding clone_post_def using assms(2) I(10) copy_pages_cl [OF assms(2) I(9)] by (intro disjI2 exI [of _ s'] exI [of _ D]) auto
qed

lemma clone_loop:
  assumes "\<forall>L'. L = Suc L' \<longrightarrow> clone_below L'"
  shows "clone_inv s Own D L a p t i \<Longrightarrow> i \<le> 512 \<Longrightarrow> clone_post s Own D L a p (clone_pt_recursive a t (Suc L) True i s)"
proof (induction "512 - i" arbitrary: s D i rule: less_induct)
  case less
  note I = clone_invD [OF less.prems(1)]
  let ?e = "entry s t i"
  have step: "clone_post s Own D L a p (clone_pt_recursive a t (Suc L) True (Suc i) s1)"
    if px: "i < 512" "cl s s1 {a}" "D \<subseteq> D1" "\<forall>b \<in> D1 - D. b \<notin> owned_addrs (frames s)" "clone_inv s1 Own D1 L a p t (Suc i)" for s1 D1
    using less.hyps [OF _ px(5)] px(1) clone_post_step [OF px(2-4)] by simp
  have same: "clone_inv s1 Own D L a p t (Suc i)"
    if px: "i < 512" "cl s s1 {a}" "\<forall>j < 512. j \<noteq> i \<longrightarrow> entry s1 a j = entry s a j" "copies s1 Own D L (entry s1 a i) p i" for s1
    by (rule clone_inv_step [OF less.prems(1) px(1-3) order_refl copy_pages_cl [OF px(2) I(9)] I(10) px(4)])
  consider (finish) "i = 512" | (absent) "i < 512" "\<not> bit ?e 0" | (share) "i < 512" "bit ?e 0" "shared (Suc L) i"
    | (table) L' where "i < 512" "bit ?e 0" "\<not> shared (Suc L) i" "L = Suc L'" | (page) "i < 512" "bit ?e 0" "L = 0"
    using less.prems(2) by (cases L) force+
  then show ?case
  proof cases
    case finish
    then have "clone_pt_recursive a t (Suc L) True i s = Inr ((), s)" by (simp add: clone_pt_recursive.simps [of a t _ _ 512])
    then show ?thesis using clone_post_done [OF less.prems(1) cl_refl [OF I(1)]] finish by simp
  next
    case absent
    have "copies s Own D L (entry s a i) p i" using absent I(3,12) by (cases L) auto
    then have "clone_inv s Own D L a p t (Suc i)" using same [OF absent(1) cl_refl [OF I(1)]] by simp
    then show ?thesis using step [OF absent(1) cl_refl [OF I(1)], of D] clone_turn(1) [OF absent(1) refl absent(2)] by simp
  next
    case share
    note sc = cl_set_copy [OF I(1,7) share(1) refl, where e = ?e]
    obtain L' where L: "L = Suc L'" using share(3) by (cases L) (auto simp: shared_def)
    have "entry (set_entry a i ?e s) t i = ?e" by (rule cl_entry [OF sc(1) I(4,3) _ share(1)]) (use I(5) L in simp)
    then have "copies (set_entry a i ?e s) Own D L (entry (set_entry a i ?e s) a i) p i"
      using share clD(6) [OF sc(1) I(4)] I(3) sc(2) by (simp add: L)
    then have "clone_inv (set_entry a i ?e s) Own D L a p t (Suc i)" using same [OF share(1) sc(1)] sc(3) by simp
    then show ?thesis using step [OF share(1) sc(1), of D] clone_turn(2) [OF share(1) refl share(2,3)] by simp
  next
    case (table L')
    obtain b F c where al: "vm_alloc s = Inr (b, s\<lparr>frames := F, cache := c\<rparr>)" "pmm_ok F" "total_pages F = total_pages (frames s)"
      "b = 0 \<Longrightarrow> owned_addrs F = owned_addrs (frames s) \<and> addr_refs F = addr_refs (frames s) \<and> (\<forall>q < total_pages F. bitmap_test F q)"
      "b \<noteq> 0 \<Longrightarrow> b \<notin> owned_addrs (frames s) \<and> owned_addrs F = insert b (owned_addrs (frames s)) \<and> addr_refs F b = 1 \<and>
         (\<forall>d \<in> owned_addrs (frames s). addr_refs F d = addr_refs (frames s) d)"
      by (rule vm_alloc_ok [OF vm_okD(1) [OF I(1)]]) (rule that)
    note turn = clone_turn(3) [OF table(1) refl table(2,3), unfolded table(4), OF refl]
    show ?thesis
    proof (cases "b = 0")
      case True
      let ?s1 = "s\<lparr>frames := F, cache := c\<rparr>"
      have c1: "cl s ?s1 {a}" by (rule cl_frames [OF I(1) al(2,3)]) (use al(4) True in auto)
      have "copies ?s1 Own D L 0 p j" for j
        using clD(6) [OF c1 I(4)] I(3) al(4) [OF True] table(4) by (auto simp: no_pages_def)
      then show ?thesis
        using clone_post_done [OF less.prems(1) c1] less.prems(2) turn al(1) True by (simp add: table(4))
    next
      case False
      note ap = al(5) [OF False]
      have b: "clone_below L'" using assms table(4) by blast
      note ct = clone_table [OF b less.prems(1) [unfolded table(4)] table(1,2) table(3) [unfolded table(4)] al(1) False _ _ al(2,3)]
      from ct ap consider
        (stop) "clone_pt_recursive b (entry_addr ?e) (Suc L') True 0 (zero_page b (s\<lparr>frames := F, cache := c\<rparr>)) = Inl ref_overflow"
        | (copied) s2 s3 D1 where
          "clone_pt_recursive b (entry_addr ?e) (Suc L') True 0 (zero_page b (s\<lparr>frames := F, cache := c\<rparr>)) = Inr ((), s2)"
          "s3 = set_entry a i (of_nat b OR (entry s2 t i AND 0xFFF)) s2"
          "cl s s3 {a}" "D \<subseteq> D1" "\<forall>d \<in> D1 - D. d \<notin> owned_addrs (frames s)" "clone_inv s3 Own D1 (Suc L') a p t (Suc i)"
        by blast
      then show ?thesis
      proof cases
        case stop
        then show ?thesis using turn al(1) False by (simp add: table(4) clone_post_def)
      next
        case copied
        show ?thesis
          using step [OF table(1) copied(3-5)] copied(6) turn al(1) False copied(1,2) by (simp add: table(4))
      qed
    qed
  next
    case page
    have l3: "length p = 3" using I(5) page(3) by simp
    note turn = clone_turn(4) [OF page(1) refl page(2), of "Suc L" a True]
    from clone_page_ok [OF I(1,4) l3 I(6,3) page(1,2) I(7,8), of D] show ?thesis
    proof (elim disjE exE conjE)
      assume "clone_page a t True i s = Inl ref_overflow"
      then show ?thesis using turn page(3) by (simp add: clone_post_def)
    next
      fix s' assume r: "clone_page a t True i s = Inr ((), s')" "cl s s' {a}" "copies s' Own D 0 (entry s' a i) p i"
        "\<forall>j < 512. j \<noteq> i \<longrightarrow> entry s' a j = entry s a j"
      have "clone_inv s' Own D L a p t (Suc i)" using same [OF page(1) r(2,4)] r(3) page(3) by simp
      then show ?thesis using step [OF page(1) r(2), of D] turn page(3) r(1) by simp
    qed
  qed
qed

lemma clone_below_all: "clone_below L"
proof (induction L)
  case 0
  then show ?case unfolding clone_below_def using clone_loop [of 0] by blast
next
  case (Suc L)
  then show ?case unfolding clone_below_def [of "Suc L"] using clone_loop [of "Suc L"] by blast
qed

section \<open>The two address spaces\<close>

text \<open>The walk of the processor from a table on, given the indices that are left.\<close>

fun look :: "vm \<Rightarrow> nat \<Rightarrow> nat list \<Rightarrow> u64 option" where
  "look s t [] = None"
| "look s t [l] = (if bit (entry s t l) 0 then Some (entry s t l) else None)"
| "look s t (i # j # is) =
     (if is_link (entry s t i) then look s (entry_addr (entry s t i)) (j # is)
      else if is = [] \<and> bit (entry s t i) 0 \<and> bit (entry s t i) 7 then Some (split_entry (entry s t i) j) else None)"

lemma page_of_look: "page_of s va = look s (get_active_pml4 s) [PML4_INDEX va, PDPT_INDEX va, PD_INDEX va, PT_INDEX va]"
  by (simp add: page_of_def tab_def Let_def)

lemma look_cong: "pmem s' = pmem s \<Longrightarrow> look s' t is = look s t is"
  by (induction s t "is" rule: look.induct) (simp_all add: entry_def)

lemma copied_link:
  assumes "is_link e" "b < 2 ^ 52" "4096 dvd b" "ed = of_nat b OR (e AND 0xFFF)"
  shows "is_link ed" "entry_addr ed = b"
proof -
  have f: "(e AND 0xFFF) AND PAGE_ADDR_MASK = 0" by (rule no_addr_bits) (simp add: low_bits)
  show "entry_addr ed = b" unfolding assms(4) by (rule addr_flags(1) [OF assms(3,2) f])
  show "is_link ed" using assms(1) addr_flags(2) [OF assms(3,2) f] unfolding assms(4) by (simp add: is_link_def low_bits)
qed

lemma priv_append: "priv (p @ q) \<Longrightarrow> priv p"
  by (auto simp: priv_def nth_append split: if_splits)

lemma shared_not_priv: "shared (Suc L) i \<Longrightarrow> length p + L = 3 \<Longrightarrow> \<not> priv (p @ i # is)"
  by (cases p; cases "tl p") (auto simp: priv_def shared_def nth_append)

text \<open>What a walk from the copy finds is what the walk from the original finds.\<close>

lemma look_copy:
  assumes "vm_ok s" "no_huge s" "copy_pages s D"
  shows "copies s Own D L (entry s a i) p i \<Longrightarrow> path p \<Longrightarrow> priv p \<Longrightarrow> length p + L = 3 \<Longrightarrow> i < 512 \<Longrightarrow> length is = L \<Longrightarrow>
     \<forall>j \<in> set is. j < 512 \<Longrightarrow> tab s p = Some t \<Longrightarrow>
     no_pages s \<and> look s a (i # is) = None \<or>
     look s a (i # is) = look s t (i # is) \<and> (\<forall>e. look s a (i # is) = Some e \<and> priv (p @ i # is) \<longrightarrow>
       cowed e = e \<and> (bit e 2 \<and> entry_addr e \<in> Own \<longrightarrow> 2 \<le> addr_refs (frames s) (entry_addr e)))"
proof (induction L arbitrary: a i p t "is")
  case 0
  then show ?case by auto
next
  case (Suc L)
  obtain j js where js: "is = j # js" "length js = L" "j < 512" using Suc.prems(6,7) by (cases "is") auto
  have lp: "length p < 3" using Suc.prems(4) by simp
  let ?e = "entry s t i" and ?ed = "entry s a i"
  from Suc.prems(1,8) consider (none) "\<not> bit ?e 0" "?ed = 0" | (full) "no_pages s" "?ed = 0"
    | (share) "shared (Suc (Suc L)) i" "?ed = ?e"
    | (table) b where "bit ?e 0" "\<not> shared (Suc (Suc L)) i" "b \<in> D" "?ed = of_nat b OR (?e AND 0xFFF)"
        "\<forall>j < 512. copies s Own D L (entry s b j) (p @ [i]) j"
    by auto
  then show ?case
  proof cases
    case table
    have q: "path (p @ [i])" "priv (p @ [i])" "length (p @ [i]) + L = 3"
      using Suc.prems(2,4,5) lp priv_snoc [OF Suc.prems(3,4) table(2)] by (auto simp: path_snoc)
    have tq: "tab s (p @ [i]) = Some (entry_addr ?e)" by (rule priv_link [OF assms(1,2) Suc.prems(2,3) lp Suc.prems(8,5) table(1)])
    then have l: "is_link ?e" using Suc.prems(8) by (simp add: tab_snoc split: if_splits)
    have b: "b \<in> owned_addrs (frames s)" using assms(3) table(3) by (auto simp: copy_pages_def)
    note cl = copied_link [OF l owned_lt [OF b vm_okD(2) [OF assms(1)]] owned_dvd [OF b] table(4)]
    have "copies s Own D L (entry s b j) (p @ [i]) j" using table(5) js(3) by blast
    note IH = Suc.IH [OF this q js(3,2) _ tq]
    show ?thesis using IH cl l Suc.prems(7) unfolding js(1) by simp
  next
    case share
    then show ?thesis using shared_not_priv [OF share(1) Suc.prems(4), of "is"] unfolding js(1) by simp
  qed (simp_all add: js(1) is_link_def)
qed

definition private_va :: "nat \<Rightarrow> bool" where
  "private_va va \<longleftrightarrow> PML4_INDEX va = 0 \<and> 8 \<le> PDPT_INDEX va"

lemma cl_page_of:
  assumes "cl s s' {}" "vm_ok s"
  shows "page_of s' va = page_of s va \<or> private_va va \<and> page_of s' va = map_option cowed (page_of s va)"
proof -
  let ?q = "[PML4_INDEX va, PDPT_INDEX va]"
  have q: "path ?q" "path (?q @ [PD_INDEX va])" by (simp_all add: path_def)
  have t: "tab s' ?q = tab s ?q" "tab s' (?q @ [PD_INDEX va]) = tab s (?q @ [PD_INDEX va])" using clD(6) [OF assms(1)] q by blast+
  show ?thesis
  proof (cases "tab s (?q @ [PD_INDEX va])")
    case None
    have "entry s' u (PD_INDEX va) = entry s u (PD_INDEX va)" if "tab s ?q = Some u" for u
      using clD(7) [OF assms(1) q(1) that index_lt(3)] by simp
    then show ?thesis using None t by (auto simp: page_of_def Let_def split: option.splits)
  next
    case (Some u)
    have pv: "priv (?q @ [PD_INDEX va]) \<longleftrightarrow> private_va va" by (simp add: priv_def private_va_def)
    show ?thesis
      using clD(7) [OF assms(1) q(2) Some, of "PT_INDEX va"] Some t pv cowed_bits(1) [of "entry s u (PT_INDEX va)"]
      by (auto simp: page_of_def Let_def)
  qed
qed

definition fork_shares :: "vm \<Rightarrow> vm \<Rightarrow> vm \<Rightarrow> bool" where
  "fork_shares s s' child \<longleftrightarrow> (\<forall>va.
     (page_of child va = page_of s' va \<or> no_pages s' \<and> page_of child va = None) \<and>
     (\<forall>e. page_of child va = Some e \<and> private_va va \<longrightarrow> cowed e = e \<and>
        (bit e 2 \<and> entry_addr e \<in> owned_addrs (frames s) \<longrightarrow> 2 \<le> addr_refs (frames s') (entry_addr e))))"

text \<open>
  The copy uses the page directories of the first 8 GB of the original, with the same flags: the entry of the copied table of
  the second level is the entry of the original.
\<close>

definition shares_directory :: "vm \<Rightarrow> nat \<Rightarrow> nat \<Rightarrow> bool" where
  "shares_directory s d j \<longleftrightarrow> is_link (entry s d 0) \<and>
     (\<forall>n < 12. bit (entry s d 0) n = bit (entry s (get_active_pml4 s) 0) n) \<and>
     entry s (entry_addr (entry s d 0)) j = entry s (entry_addr (entry s (get_active_pml4 s) 0)) j"

lemma directory_shared:
  assumes "vm_ok s" "no_huge s" "copy_pages s D" "copies s Own D (Suc 2) (entry s d 0) [] 0" "\<not> no_pages s" "j < 8" "tab s [0, j] \<noteq> None"
  shows "shares_directory s d j"
proof -
  let ?e = "entry s (get_active_pml4 s) 0"
  have l: "is_link ?e" "is_link (entry s (entry_addr ?e) j)" using assms(7) by (auto simp: tab_def split: if_splits)
  then obtain b where b: "b \<in> D" "entry s d 0 = of_nat b OR (?e AND 0xFFF)" "\<forall>j < 512. copies s Own D (Suc 1) (entry s b j) [0] j"
    using assms(4,5) by (auto simp: is_link_def shared_def numeral_2_eq_2)
  have o: "b \<in> owned_addrs (frames s)" using assms(3) b(1) by (auto simp: copy_pages_def)
  note a = owned_dvd [OF o] owned_lt [OF o vm_okD(2) [OF assms(1)]]
  note c = copied_link [OF l(1) a(2,1) b(2)]
  have t: "tab s [0] = Some (entry_addr ?e)" using l(1) by (simp add: tab_def)
  have "copies s Own D (Suc 1) (entry s b j) [0] j" using b(3) assms(6) by simp
  then have "entry s b j = entry s (entry_addr ?e) j" using t l(2) assms(5,6) by (auto simp: is_link_def shared_def)
  moreover have "\<forall>n < 12. bit (entry s d 0) n = bit ?e n"
  proof -
    have "(?e AND 0xFFF) AND PAGE_ADDR_MASK = 0" by (rule no_addr_bits) (simp add: low_bits)
    then show ?thesis using addr_flags(2) [OF a] unfolding b(2) by (simp add: low_bits)
  qed
  ultimately show ?thesis unfolding shares_directory_def using c by simp
qed

lemma clone_pml4_ok:
  assumes "vm_ok s" "no_huge s"
  shows "vmm_clone_pml4 True s = Inl ref_overflow \<or>
    (\<exists>s'. vmm_clone_pml4 True s = Inr (0, s') \<and> no_pages s' \<and> vm_ok s' \<and> page_of s' = page_of s \<and> data_kept s s') \<or>
    (\<exists>d s'. vmm_clone_pml4 True s = Inr (d, s') \<and> d \<noteq> 0 \<and> d \<notin> owned_addrs (frames s) \<and> vm_ok s' \<and> data_kept s s' \<and>
       (\<forall>va. page_of s' va = page_of s va \<or> private_va va \<and> page_of s' va = map_option cowed (page_of s va)) \<and>
       fork_shares s s' (s'\<lparr>cr3 := d\<rparr>) \<and>
       (\<not> no_pages s' \<longrightarrow> (\<forall>j < 8. tab s [0, j] \<noteq> None \<longrightarrow> shares_directory s' d j)))"
proof -
  obtain b F c where al: "vm_alloc s = Inr (b, s\<lparr>frames := F, cache := c\<rparr>)" "pmm_ok F" "total_pages F = total_pages (frames s)"
    "b = 0 \<Longrightarrow> owned_addrs F = owned_addrs (frames s) \<and> addr_refs F = addr_refs (frames s) \<and> (\<forall>q < total_pages F. bitmap_test F q)"
    "b \<noteq> 0 \<Longrightarrow> b \<notin> owned_addrs (frames s) \<and> owned_addrs F = insert b (owned_addrs (frames s)) \<and> addr_refs F b = 1 \<and>
       (\<forall>d \<in> owned_addrs (frames s). addr_refs F d = addr_refs (frames s) d)"
    by (rule vm_alloc_ok [OF vm_okD(1) [OF assms(1)]]) (rule that)
  let ?s0 = "s\<lparr>frames := F, cache := c\<rparr>"
  show ?thesis
  proof (cases "b = 0")
    case True
    have v: "vm_ok ?s0" "page_of ?s0 = page_of s"
      using vm_ok_cong [OF assms(1), of ?s0] al(2,3,4) True by (auto simp: get_active_pml4_def)
    have "vmm_clone_pml4 True s = Inr (0, ?s0)" using al(1) True by (simp add: vmm_clone_pml4_def)
    then show ?thesis using v al(4) [OF True] by (auto simp: no_pages_def data_kept_def)
  next
    case False
    note ap = al(5) [OF False]
    let ?s1 = "zero_page b ?s0" and ?Own = "owned_addrs (frames s)" and ?t = "get_active_pml4 s"
    have fresh: "b \<notin> ?Own" "owned_addrs F = insert b ?Own" "\<forall>d \<in> ?Own. addr_refs F d = addr_refs (frames s) d" using ap by auto
    note np = cl_new_page [where s' = ?s1, OF assms(1) False fresh(1,2) al(2,3) fresh(3) refl]
    have root: "get_active_pml4 ?s1 = ?t" "get_active_pml4 ?s0 = ?t" using same_env_root [OF clD(1) [OF np(1)]] by (simp_all add: get_active_pml4_def)
    have "clone_inv ?s1 ?Own {} 3 b [] ?t 0"
      unfolding clone_inv_def using clD(2,4) [OF np(1)] no_huge_cl [OF np(1) assms(2)] root np(2,3)
      by (simp add: path_def priv_def copy_pages_def)
    then have "clone_post ?s1 ?Own {} 3 b [] (clone_pt_recursive b ?t 4 True 0 ?s1)"
      using clone_below_all [of 3] by (simp add: clone_below_def)
    then show ?thesis
      unfolding clone_post_def
    proof (elim disjE exE conjE)
      assume "clone_pt_recursive b ?t 4 True 0 ?s1 = Inl ref_overflow"
      then show ?thesis using al(1) False root(2) by (simp add: vmm_clone_pml4_def)
    next
      fix s' D assume r: "clone_pt_recursive b ?t 4 True 0 ?s1 = Inr ((), s')" "cl ?s1 s' {b}" "copy_pages s' D"
        "\<forall>j < 512. copies s' ?Own D 3 (entry s' b j) [] j"
      have c: "cl s s' {}" using cl_fresh [OF cl_trans [OF cl_mono [OF np(1)] r(2)]] fresh(1) by simp
      have v: "vmm_clone_pml4 True s = Inr (b, s')" using al(1) False root(2) r(1) by (simp add: vmm_clone_pml4_def)
      have dk: "data_kept s s'" using clD(8) [OF c] by (simp add: data_kept_def)
      let ?child = "s'\<lparr>cr3 := b\<rparr>"
      have rc: "get_active_pml4 ?child = b"
      proof -
        have "4096 dvd b" using owned_dvd [of b F] fresh(2) by auto
        then show ?thesis using addr_flags(1) [of b 0] np(5) by (simp add: root_addr)
      qed
      have rs: "get_active_pml4 s' = ?t" using same_env_root [OF clD(1) [OF c]] .
      have "(page_of ?child va = page_of s' va \<or> no_pages s' \<and> page_of ?child va = None) \<and>
         (\<forall>e. page_of ?child va = Some e \<and> private_va va \<longrightarrow> cowed e = e \<and>
           (bit e 2 \<and> entry_addr e \<in> ?Own \<longrightarrow> 2 \<le> addr_refs (frames s') (entry_addr e)))" for va
      proof -
        let ?is = "[PDPT_INDEX va, PD_INDEX va, PT_INDEX va]" and ?i = "PML4_INDEX va"
        have p: "page_of ?child va = look s' b (?i # ?is)" "page_of s' va = look s' ?t (?i # ?is)"
          unfolding page_of_look rc rs by (rule look_cong, simp, simp only:)
        have pv: "priv ([] @ ?i # ?is) \<longleftrightarrow> private_va va" by (simp add: priv_def private_va_def)
        have "copies s' ?Own D 3 (entry s' b ?i) [] ?i" using r(4) by simp
        note lc = look_copy [OF clD(2) [OF c] no_huge_cl [OF c assms(2)] r(3) this, of ?is ?t, unfolded pv]
        have "path []" "priv []" "length ([] :: nat list) + 3 = 3" "?i < 512" "length ?is = 3" "\<forall>j \<in> set ?is. j < 512" "tab s' [] = Some ?t"
          using rs by (simp_all add: path_def priv_def)
        from lc [OF this] show ?thesis unfolding p by (auto simp del: look.simps)
      qed
      then have fs: "fork_shares s s' ?child" unfolding fork_shares_def by blast
      have "\<forall>va. page_of s' va = page_of s va \<or> private_va va \<and> page_of s' va = map_option cowed (page_of s va)"
        using cl_page_of [OF c assms(1)] by blast
      moreover have "shares_directory s' b j" if px: "\<not> no_pages s'" "j < 8" "tab s [0, j] \<noteq> None" for j
      proof -
        have "tab s' [0, j] = tab s [0, j]" using clD(6) [OF c] px(2) by (simp add: path_def)
        moreover have "copies s' ?Own D (Suc 2) (entry s' b 0) [] 0" using r(4) by simp
        ultimately show ?thesis using directory_shared [OF clD(2) [OF c] no_huge_cl [OF c assms(2)] r(3) _ px(1,2)] px(3) by simp
      qed
      ultimately show ?thesis using v False fresh(1) clD(2) [OF c] dk fs by blast
    qed
  qed
qed

end
