(* ===== verification/VmmProps.thy ===== *)
theory VmmProps
  imports VmmFork
begin

text \<open>
  The properties of the virtual memory manager: mapping, translation, shootdown, copy-on-write, access by the kernel to user memory,
  and tearing down, each with an example on a machine of sixteen pages.
\<close>

section \<open>An example\<close>

text \<open>
  Pages 1 to 4 hold the tables, page 5 is shared copy-on-write between this address space and another one, and is mapped at the first
  address of user programs; it holds the string \<^verbatim>\<open>hi\<close>. Pages 6 to 15 are free.
\<close>

definition demo_frames :: pmm where
  "demo_frames = \<lparr>pmm_bitmap = 0x1A000, pmm_bitmap_size = 2, pmm_ref_counts = 0x1B000,
     pmm_initialized_flag = True, total_ram = 65536, used_ram = 24576, total_pages = 16,
     free_mem_start = 0, last_free_idx = 0, bitmap_mem = (\<lambda>a. if a = 0 then 0x3F else 0),
     refs_mem = (\<lambda>p. if p = 5 then 2 else 1)\<rparr>"

definition demo_vm :: vm where
  "demo_vm = \<lparr>pmem = (\<lambda>w. if w = 512 then 0x2007 else if w = 1032 then 0x3007 else if w = 1536 then 0x4007
       else if w = 2048 then 0x5205 else if w = 2560 then 0x6968 else 0),
     frames = demo_frames, cache = boot_cache, cr3 = 0x1000, vm_cpus = 2, vm_my_id = 0, vm_online = (\<lambda>_. True), vm_apic_id = (\<lambda>c. c),
     tlb_acks = (\<lambda>_. 1), tlb_flush_addr = 0, ipis = [], invlpgs = [], tlb_timeouts = 0, vmm_initialized_flag = True\<rparr>"

lemma demo_test: "bitmap_test demo_frames p \<longleftrightarrow> p < 6"
proof -
  have "bit (0x3F :: u8) n \<longleftrightarrow> n < 6" if "n < 8" for n
  proof -
    have m: "(0x3F :: u8) = mask 6" by (simp add: mask_eq_exp_minus_1)
    show ?thesis unfolding m using that by (simp add: bit_mask_iff)
  qed
  moreover have "p < 6 \<Longrightarrow> p div 8 = 0" by simp
  ultimately show ?thesis by (auto simp: demo_frames_def bitmap_test_bit)
qed

lemma demo_used: "used_pages demo_frames = {..<6}"
proof -
  have "total_pages demo_frames = 16" by (simp add: demo_frames_def)
  then show ?thesis by (auto simp: used_pages_def demo_test)
qed

lemma demo_frames_ok: "pmm_ok demo_frames"
proof -
  have "pmm_inv demo_frames" using demo_used by (simp add: pmm_inv_def) (simp add: demo_frames_def PAGE_SIZE_def)
  then show ?thesis using demo_test by (simp add: pmm_ok_def page0_used_def refs_inv_def) (simp add: demo_frames_def)
qed

lemma demo_owned: "owned_addrs demo_frames = (\<lambda>p. p * 4096) ` {..<6}"
  by (simp add: owned_addrs_def demo_used PAGE_SIZE_def)

lemma demo_entry:
  assumes "i < 512"
  shows "entry demo_vm 4096 i = (if i = 0 then 0x2007 else 0)" "entry demo_vm 8192 i = (if i = 8 then 0x3007 else 0)"
    "entry demo_vm 12288 i = (if i = 0 then 0x4007 else 0)" "entry demo_vm 16384 i = (if i = 0 then 0x5205 else 0)"
    "entry demo_vm 20480 i = (if i = 0 then 0x6968 else 0)"
  using assms by (simp_all add: entry_def demo_vm_def)

lemma demo_bits:
  "bit (0x2007 :: u64) 0" "\<not> bit (0x2007 :: u64) 7" "bit (0x2007 :: u64) 2" "entry_addr 0x2007 = 8192"
  "bit (0x3007 :: u64) 0" "\<not> bit (0x3007 :: u64) 7" "bit (0x3007 :: u64) 2" "entry_addr 0x3007 = 12288"
  "bit (0x4007 :: u64) 0" "\<not> bit (0x4007 :: u64) 7" "bit (0x4007 :: u64) 2" "entry_addr 0x4007 = 16384"
  "bit (0x5205 :: u64) 0" "\<not> bit (0x5205 :: u64) 7" "bit (0x5205 :: u64) 2" "entry_addr 0x5205 = 20480" "bit (0x5205 :: u64) 9"
  by (simp_all add: entry_addr_eq)

lemma demo_root: "get_active_pml4 demo_vm = 4096"
  by (simp add: root_addr demo_vm_def entry_addr_eq)

lemma demo_tab:
  assumes "path p"
  shows "tab demo_vm p = (if p = [] then Some 4096 else if p = [0] then Some 8192 else if p = [0, 8] then Some 12288
    else if p = [0, 8, 0] then Some 16384 else None)"
proof -
  consider "p = []" | a where "p = [a]" "a < 512" | a b where "p = [a, b]" "a < 512" "b < 512"
    | a b c where "p = [a, b, c]" "a < 512" "b < 512" "c < 512"
  proof -
    have "length p = 0 \<or> length p = 1 \<or> length p = 2 \<or> length p = 3" using assms unfolding path_def by linarith
    then show thesis using assms that by (auto simp: path_def length_Suc_conv numeral_3_eq_3 numeral_2_eq_2)
  qed
  then show ?thesis by cases (simp_all add: tab_def demo_root demo_entry is_link_def demo_bits)
qed

lemma demo_ok: "vm_ok demo_vm"
proof -
  have f: "frames demo_vm = demo_frames" by (simp add: demo_vm_def)
  have t: "tab demo_vm p = Some t \<longleftrightarrow> p = [] \<and> t = 4096 \<or> p = [0] \<and> t = 8192 \<or> p = [0, 8] \<and> t = 12288 \<or> p = [0, 8, 0] \<and> t = 16384"
    if "path p" for p t using demo_tab [OF that] by auto
  have own: "{4096, 8192, 12288, 16384, 20480} \<subseteq> owned_addrs demo_frames"
    unfolding demo_owned by (auto intro: image_eqI [of _ _ 1] image_eqI [of _ _ 2] image_eqI [of _ _ 3] image_eqI [of _ _ 4] image_eqI [of _ _ 5])
  show ?thesis
    unfolding vm_ok_def f
  proof (intro conjI)
    show "total_pages demo_frames \<le> 2 ^ 40" by (simp add: demo_frames_def)
    show "\<forall>p t. path p \<and> tab demo_vm p = Some t \<longrightarrow> t \<in> owned_addrs demo_frames \<and> t \<noteq> 0" using t own by auto
    show "\<forall>p q t. path p \<and> path q \<and> tab demo_vm p = Some t \<and> tab demo_vm q = Some t \<longrightarrow> p = q" using t by auto
    show "\<forall>p t i. path p \<and> length p < 2 \<and> i < 512 \<and> tab demo_vm p = Some t \<longrightarrow> \<not> (bit (entry demo_vm t i) 0 \<and> bit (entry demo_vm t i) 7)"
      using t by (auto simp: demo_entry demo_bits split: if_splits)
    show "\<forall>p t i. path p \<and> length p = 2 \<and> i < 512 \<and> tab demo_vm p = Some t \<and> bit (entry demo_vm t i) 0 \<and> bit (entry demo_vm t i) 7 \<longrightarrow>
        huge_ok (entry demo_vm t i)" using t by (auto simp: demo_entry demo_bits split: if_splits)
  qed (rule demo_frames_ok)
qed

lemma demo_no_huge: "no_huge demo_vm"
  unfolding no_huge_def by (auto simp: demo_tab path_def demo_entry demo_bits split: if_splits)

lemma demo_index: "PML4_INDEX 0x200000000 = 0" "PDPT_INDEX 0x200000000 = 8" "PD_INDEX 0x200000000 = 0" "PT_INDEX 0x200000000 = 0"
  by (simp_all add: PML4_INDEX_def PDPT_INDEX_def PD_INDEX_def PT_INDEX_def)

lemma demo_page: "page_of demo_vm 0x200000000 = Some 0x5205"
  by (simp add: page_of_def demo_index demo_tab path_def demo_entry demo_bits)

lemma demo_data: "data_frame demo_vm 20480"
proof -
  have "20480 \<in> owned_addrs demo_frames" unfolding demo_owned by (rule image_eqI [of _ _ 5]) simp_all
  moreover have "frames demo_vm = demo_frames" by (simp add: demo_vm_def)
  ultimately show ?thesis by (auto simp: data_frame_def demo_tab split: if_splits)
qed

section \<open>Mapping\<close>

text \<open>C15: \<^verbatim>\<open>vmm_map_page\<close> on any well-formed address space, for every physical address, virtual address and flags. It returns 0 and then the page of
  the address, and no other page, has the new entry, and the address has been flushed from the local TLB; or it returns -1, and then
  no page is free and the address map is as before. Either way the tables stay well formed (a tree of pages in use, 2 MB pages split as needed),
  no page in use is given up and the contents of all pages in use that hold no tables are kept.\<close>

theorem vmm_map_page_correct:
  assumes "vm_ok s"
  shows "\<exists>r s'. vmm_map_page phys va flags s = Inr (r, s') \<and> vm_ok s' \<and> data_kept s s' \<and> owned_addrs (frames s) \<subseteq> owned_addrs (frames s') \<and>
    (r = 0 \<and> page_of s' = (let e = (phys AND PAGE_ADDR_MASK) OR flags in
         (\<lambda>v. if same_page v va then (if bit e 0 then Some e else None) else page_of s v)) \<and> invlpgs s' = invlpgs s @ [va] \<or>
     r = -1 \<and> page_of s' = page_of s \<and> no_pages s' \<and> invlpgs s' = invlpgs s)"
proof -
  obtain r s' where r: "vmm_map_page phys va flags s = Inr (r, s')" "vm_ok s'" "data_kept s s'" "r = 0 \<or> r = -1"
    "owned_addrs (frames s) \<subseteq> owned_addrs (frames s')"
    "r = -1 \<Longrightarrow> page_of s' = page_of s \<and> no_pages s' \<and> invlpgs s' = invlpgs s"
    "r = 0 \<Longrightarrow> page_of s' = (\<lambda>v. if same_page v va then (if bit ((phys AND PAGE_ADDR_MASK) OR flags) 0
         then Some ((phys AND PAGE_ADDR_MASK) OR flags) else None) else page_of s v) \<and> invlpgs s' = invlpgs s @ [va] \<and>
       tab s' [PML4_INDEX va, PDPT_INDEX va, PD_INDEX va] \<noteq> None"
    by (rule map_page_ok [OF assms refl]) (rule that)
  show ?thesis
  proof (cases "r = 0")
    case True
    show ?thesis using r(1-3,5) r(7) [OF True] True by (intro exI [of _ r] exI [of _ s'] conjI disjI1) (auto simp: Let_def)
  next
    case False
    then have m: "r = -1" using r(4) by blast
    show ?thesis using r(1-3,5) r(6) [OF m] m by (intro exI [of _ r] exI [of _ s'] conjI disjI2) auto
  qed
qed

theorem vmm_map_page_correct_witness:
  "\<exists>r s'. vmm_map_page 0x7000 0x40000000 3 demo_vm = Inr (r, s') \<and> vm_ok s'"
  using vmm_map_page_correct [OF demo_ok, where phys = 28672 and va = 1073741824 and flags = 3] by auto

text \<open>mapping, translation and unmapping fit together. When \<^verbatim>\<open>vmm_map_page\<close> returns 0 for a present entry, \<^verbatim>\<open>vmm_virt_to_phys\<close> gives the physical
  address with the offset in the page for every address of the page, and what it gave before for all others; \<^verbatim>\<open>vmm_unmap_page\<close> then takes the
  mapping away again, and only that.\<close>

lemma vmm_map_translate_unmap:
  assumes "vm_ok s" "vmm_map_page phys va flags s = Inr (0, s')" "bit flags 0" "flags AND PAGE_ADDR_MASK = 0"
  shows "(\<forall>v. v \<noteq> 0 \<longrightarrow> vmm_virt_to_phys s' v =
        (if same_page v va then unat (phys AND PAGE_ADDR_MASK) + v mod 4096 else vmm_virt_to_phys s v)) \<and>
    (\<exists>t. vmm_unmap_page va s' = Inr ((), t) \<and> vm_ok t \<and>
       (\<forall>v. v \<noteq> 0 \<longrightarrow> vmm_virt_to_phys t v = (if same_page v va then 0 else vmm_virt_to_phys s v)))"
proof -
  let ?e = "(phys AND PAGE_ADDR_MASK) OR flags"
  have e: "bit ?e 0" using assms(3) by (simp add: bit_or_iff)
  have "?e AND PAGE_ADDR_MASK = phys AND PAGE_ADDR_MASK"
    using assms(4) by (simp add: bit.conj_disj_distrib2 and.assoc)
  then have ea: "entry_addr ?e = unat (phys AND PAGE_ADDR_MASK)" by (simp add: entry_addr_def)
  obtain r s1 where r: "vmm_map_page phys va flags s = Inr (r, s1)" "vm_ok s1" "data_kept s s1" "r = 0 \<or> r = -1"
    "owned_addrs (frames s) \<subseteq> owned_addrs (frames s1)"
    "r = -1 \<Longrightarrow> page_of s1 = page_of s \<and> no_pages s1 \<and> invlpgs s1 = invlpgs s"
    "r = 0 \<Longrightarrow> page_of s1 = (\<lambda>v. if same_page v va then (if bit ?e 0 then Some ?e else None) else page_of s v) \<and> invlpgs s1 = invlpgs s @ [va] \<and>
       tab s1 [PML4_INDEX va, PDPT_INDEX va, PD_INDEX va] \<noteq> None"
    by (rule map_page_ok [OF assms(1) refl]) (rule that)
  have m: "vm_ok s'" "page_of s' = (\<lambda>v. if same_page v va then Some ?e else page_of s v)"
    "tab s' [PML4_INDEX va, PDPT_INDEX va, PD_INDEX va] \<noteq> None" using r assms(2) e by auto
  obtain t where t: "vmm_unmap_page va s' = Inr ((), t)" "vm_ok t" "data_kept s' t" "owned_addrs (frames s') \<subseteq> owned_addrs (frames t)"
    "page_of t = page_of s' \<and> no_pages t \<and> tab s' [PML4_INDEX va, PDPT_INDEX va, PD_INDEX va] = None \<or>
     page_of t = (\<lambda>v. if same_page v va then None else page_of s' v) \<and> (page_of s' va \<noteq> None \<longrightarrow> invlpgs t = invlpgs s' @ [va])"
    by (rule unmap_page_ok [OF m(1)]) (rule that)
  have pt: "page_of t = (\<lambda>v. if same_page v va then None else page_of s v)" using t(5) m(2,3) by (auto simp: fun_eq_iff)
  have "vmm_virt_to_phys s' v = (if same_page v va then unat (phys AND PAGE_ADDR_MASK) + v mod 4096 else vmm_virt_to_phys s v)"
    if "v \<noteq> 0" for v using virt_to_phys_ok [OF m(1) that] virt_to_phys_ok [OF assms(1) that] m(2) ea by simp
  moreover have "vmm_virt_to_phys t v = (if same_page v va then 0 else vmm_virt_to_phys s v)" if "v \<noteq> 0" for v
    using virt_to_phys_ok [OF t(2) that] virt_to_phys_ok [OF assms(1) that] pt by simp
  ultimately show ?thesis using t(1,2) by blast
qed

lemma demo_map: "\<exists>s'. vmm_map_page 0x5000 0x200001000 5 demo_vm = Inr (0, s')"
proof -
  have i: "PML4_INDEX 0x200001000 = 0" "PDPT_INDEX 0x200001000 = 8" "PD_INDEX 0x200001000 = 0"
    by (simp_all add: PML4_INDEX_def PDPT_INDEX_def PD_INDEX_def)
  have "walk_to_pt 0x200001000 True demo_vm = Inr (16384, demo_vm)"
    by (rule walk_links(1) [OF demo_ok]) (simp add: i demo_tab path_def)
  then show ?thesis by (simp add: vmm_map_page_def)
qed

lemma vmm_map_translate_unmap_witness: "\<exists>s'. vmm_map_page 0x5000 0x200001000 5 demo_vm = Inr (0, s') \<and> vmm_virt_to_phys s' 0x200001234 = 0x5234"
proof -
  obtain s' where s': "vmm_map_page 0x5000 0x200001000 5 demo_vm = Inr (0, s')" using demo_map by blast
  have sp: "same_page 0x200001234 0x200001000"
    by (simp add: same_page_def PML4_INDEX_def PDPT_INDEX_def PD_INDEX_def PT_INDEX_def)
  have "\<forall>v. v \<noteq> 0 \<longrightarrow> vmm_virt_to_phys s' v =
      (if same_page v 0x200001000 then unat ((0x5000 :: u64) AND PAGE_ADDR_MASK) + v mod 4096 else vmm_virt_to_phys demo_vm v)"
    using vmm_map_translate_unmap [OF demo_ok s'] by (simp add: PAGE_ADDR_MASK_def)
  then have "vmm_virt_to_phys s' 0x200001234 = unat ((0x5000 :: u64) AND PAGE_ADDR_MASK) + 0x200001234 mod 4096" using sp by simp
  then show ?thesis using s' by (simp add: PAGE_ADDR_MASK_def)
qed

section \<open>Shootdown\<close>

lemma wait_acks_iff: "wait_acks acks expected k n \<longleftrightarrow> (\<exists>j < n. expected \<le> acks (k + j))"
proof (induction n arbitrary: k)
  case (Suc n)
  have "(\<exists>j < Suc n. expected \<le> acks (k + j)) \<longleftrightarrow> expected \<le> acks k \<or> (\<exists>j < n. expected \<le> acks (Suc k + j))"
    by (metis Suc_less_eq add_Suc_shift add_0_right less_Suc_eq_0_disj zero_less_Suc)
  then show ?case using Suc [of "Suc k"] by auto
qed simp

text \<open>the shootdown \<^verbatim>\<open>vmm_flush_tlb_smp\<close> invalidates the address on this processor and interrupts every other processor that is online,
  each once and no other, with this address; it touches neither memory nor tables; its wait ends after at most 50 million turns, and the
  timeout is reported exactly when there is a processor to wait for and the answers were too few in all those turns.\<close>

lemma vmm_flush_tlb_smp_correct:
  "let targets = filter (\<lambda>c. c \<noteq> vm_my_id s \<and> vm_online s c) [0..<vm_cpus s]; s' = vmm_flush_tlb_smp addr s in
    pmem s' = pmem s \<and> frames s' = frames s \<and> cr3 s' = cr3 s \<and> invlpgs s' = invlpgs s @ [addr] \<and>
    ipis s' = ipis s @ (if vm_cpus s \<le> 1 then [] else map (\<lambda>c. (vm_apic_id s c, addr)) targets) \<and>
    tlb_timeouts s' = tlb_timeouts s + (if 1 < vm_cpus s \<and> targets \<noteq> [] \<and> (\<forall>k < 50000000. tlb_acks s k < length targets) then 1 else 0)"
proof -
  define targets where "targets = filter (\<lambda>c. c \<noteq> vm_my_id s \<and> vm_online s c) [0..<vm_cpus s]"
  define s' where "s' = vmm_flush_tlb_smp addr s"
  note f = flush_spec [OF s'_def]
  have "tlb_timeouts s' = tlb_timeouts s + (if 1 < vm_cpus s \<and> targets \<noteq> [] \<and> (\<forall>k < 50000000. tlb_acks s k < length targets) then 1 else 0)"
  proof (cases "vm_cpus s \<le> 1")
    case True
    then show ?thesis by (simp add: s'_def vmm_flush_tlb_smp_def invlpg_def)
  next
    case False
    let ?s1 = "s\<lparr>tlb_flush_addr := addr\<rparr>"
    have w: "wait_acks (tlb_acks s) (length targets) 0 50000000 \<longleftrightarrow> \<not> (\<forall>k < 50000000. tlb_acks s k < length targets)"
      unfolding wait_acks_iff by (auto simp: not_less)
    have "send_ipis (vm_cpus s) 0 0 ?s1 = (length targets, ?s1\<lparr>ipis := ipis s @ map (\<lambda>c. (vm_apic_id s c, addr)) targets\<rparr>)"
      unfolding send_ipis_spec targets_def by simp
    then show ?thesis using False w unfolding s'_def vmm_flush_tlb_smp_def by (auto simp: invlpg_def)
  qed
  then show ?thesis using f unfolding s'_def [symmetric] targets_def [symmetric] Let_def by (simp add: flush_only_def)
qed

lemma vmm_flush_tlb_smp_correct_witness: "ipis (vmm_flush_tlb_smp 0x200000000 demo_vm) = [(1, 0x200000000)]"
proof -
  have "[0..<vm_cpus demo_vm] = [0, 1]" by (simp add: demo_vm_def upt_rec)
  moreover have "vm_my_id demo_vm = 0" "vm_online demo_vm = (\<lambda>_. True)" "vm_apic_id demo_vm = (\<lambda>c. c)" "ipis demo_vm = []" "vm_cpus demo_vm = 2"
    by (simp_all add: demo_vm_def)
  ultimately show ?thesis using vmm_flush_tlb_smp_correct [of demo_vm 8589934592] by (simp add: Let_def)
qed

section \<open>Copy on write\<close>

text \<open>C14: a write fault of a user program (error code 7) on a page marked copy-on-write. The handler returns 1 and then the page is
  writable and no longer copy-on-write with all other flags kept, the address maps to a frame with a single reference whose contents
  are those of the shared frame, no other page of the address space has changed, and no page in use (so no frame another address space
  shares) has been written; the address has been flushed. Or it returns 0: then no page is free and nothing has changed.\<close>

theorem vmm_cow_fault_correct:
  assumes "vm_ok s" "page_of s va = Some e" "bit e 9" "data_frame s (entry_addr e)"
  shows "\<exists>r s'. vmm_handle_page_fault va 7 s = Inr (r, s') \<and> vm_ok s' \<and> data_kept s s' \<and>
    (r = 1 \<and> va \<in> set (invlpgs s') \<and> (\<exists>e'. cow_flags e e' \<and> page_of s' = (\<lambda>v. if same_page v va then Some e' else page_of s v) \<and>
        addr_refs (frames s') (entry_addr e') = 1 \<and> (\<forall>i < 512. entry s' (entry_addr e') i = entry s (entry_addr e) i)) \<or>
     r = 0 \<and> no_pages s' \<and> page_of s' = page_of s)"
proof -
  obtain r s' where r: "vmm_handle_page_fault va 7 s = Inr (r, s')" "vm_ok s'" "r = 0 \<or> r = 1"
    "r = 0 \<Longrightarrow> no_pages s' \<and> page_of s' = page_of s \<and> data_kept s s'" "r = 1 \<Longrightarrow> resolved va s s' \<and> va \<in> set (invlpgs s')"
    by (rule page_fault_ok [OF assms]) (rule that)
  show ?thesis
  proof (cases "r = 1")
    case True
    then show ?thesis using r(1,2,5) assms(2) unfolding resolved_def by (intro exI [of _ r] exI [of _ s']) auto
  next
    case False
    then show ?thesis using r(1-4) by (intro exI [of _ r] exI [of _ s']) auto
  qed
qed

theorem vmm_cow_fault_correct_witness:
  "\<exists>r s'. vmm_handle_page_fault 0x200000000 7 demo_vm = Inr (r, s') \<and> vm_ok s' \<and> data_kept demo_vm s'"
proof -
  have "data_frame demo_vm (entry_addr 0x5205)" using demo_data demo_bits(16) by simp
  from vmm_cow_fault_correct [OF demo_ok demo_page demo_bits(17) this] show ?thesis by blast
qed

text \<open>C13: \<^verbatim>\<open>vmm_clone_pml4(1)\<close>, the copy of the address space in \<^verbatim>\<open>fork\<close>. It stops the machine only when a reference count is full;
  it returns NULL only when no page is free, and then nothing has changed; otherwise it returns a page that was not in use, and
  the parent maps every address as before except that private user pages have become copy-on-write, the contents of all
  pages in use are kept, and the child maps every address to what the parent maps it to (a page is missing only when memory ran out);
  every private user page the child has is read-only and copy-on-write in both, and its frame has at least two references.\<close>

theorem vmm_fork_correct:
  assumes "vm_ok s" "no_huge s"
  shows "vmm_clone_pml4 True s = Inl (Panic ''PMM Refcount overflow!'') \<or>
    (\<exists>d s'. vmm_clone_pml4 True s = Inr (d, s') \<and> vm_ok s' \<and> data_kept s s' \<and> (d = 0 \<longrightarrow> no_pages s' \<and> page_of s' = page_of s) \<and>
       (d \<noteq> 0 \<longrightarrow> d \<notin> owned_addrs (frames s) \<and>
         (\<forall>va. page_of s' va = page_of s va \<or> private_va va \<and> page_of s' va = map_option cowed (page_of s va)) \<and>
         (\<forall>va. page_of (s'\<lparr>cr3 := d\<rparr>) va = page_of s' va \<or> no_pages s' \<and> page_of (s'\<lparr>cr3 := d\<rparr>) va = None) \<and>
         (\<forall>va e. page_of (s'\<lparr>cr3 := d\<rparr>) va = Some e \<and> private_va va \<and> bit e 2 \<and> bit e 0 \<longrightarrow> bit e 9 \<and> \<not> bit e 1 \<and>
            (entry_addr e \<in> owned_addrs (frames s) \<longrightarrow> 2 \<le> addr_refs (frames s') (entry_addr e)))))"
  using clone_pml4_ok [OF assms]
proof (elim disjE exE conjE)
  fix d s' assume c: "vmm_clone_pml4 True s = Inr (d, s')" "d \<noteq> 0" "d \<notin> owned_addrs (frames s)" "vm_ok s'" "data_kept s s'"
    "\<forall>va. page_of s' va = page_of s va \<or> private_va va \<and> page_of s' va = map_option cowed (page_of s va)"
    "fork_shares s s' (s'\<lparr>cr3 := d\<rparr>)"
  have "bit e 9 \<and> \<not> bit e 1" if "cowed e = e" "bit e 2" "bit e 0" for e using cowed_bits(6) [of e] that by simp
  then show ?thesis using c unfolding fork_shares_def by (intro disjI2 exI [of _ d] exI [of _ s']) blast
qed blast+

theorem vmm_fork_correct_witness:
  "vm_ok demo_vm \<and> no_huge demo_vm \<and> (vmm_clone_pml4 True demo_vm = Inl (Panic ''PMM Refcount overflow!'') \<or>
     (\<exists>d s'. vmm_clone_pml4 True demo_vm = Inr (d, s') \<and> vm_ok s' \<and> data_kept demo_vm s'))"
  using vmm_fork_correct [OF demo_ok demo_no_huge] demo_ok demo_no_huge by blast

section \<open>Access to user memory\<close>

text \<open>C16: the check before the kernel reads user memory, \<^verbatim>\<open>vmm_verify_user_access\<close>, on 64-bit arguments: it
  changes nothing, and it accepts a non-empty range exactly when it lies between the bounds of user memory (whatever the sum of address and size
  wraps to), every byte of it is on a page that \<^verbatim>\<open>vmm_is_user_page\<close> accepts, and, for each byte on a huge page, the words of that page
  look like page table entries that are present and for users (the check walks into the page as if it were a table). So it never accepts
  what \<^verbatim>\<open>vmm_is_user_page\<close> refuses, and the two agree on ranges mapped with 4 KB pages.\<close>

theorem vmm_verify_user_access_correct:
  assumes "a < 2 ^ 64" "n < 2 ^ 64" "0 < n"
  shows "vmm_verify_user_access a n False s =
    Inr (USER_BASE \<le> a \<and> a + n \<le> USER_LIMIT + 1 \<and>
      (\<forall>w. a \<le> w \<and> w < a + n \<longrightarrow> vmm_is_user_page s w \<and> (on_huge_page s w \<longrightarrow> looks_like_tables s w)), s)"
  unfolding verify_read_ok [OF assms(1,2)] user_range_bytes [OF assms(3)] user_pt_iff user_readable_def ..

lemma demo_user:
  assumes "0x200000000 \<le> w" "w < 0x200001000"
  shows "PML4_INDEX w = 0" "PDPT_INDEX w = 8" "PD_INDEX w = 0" "PT_INDEX w = 0"
proof -
  have "w div 2 ^ 12 = 2 ^ 21" using assms by (intro div_nat_eqI) auto
  then have d: "w div 2 ^ 12 div n = 2 ^ 21 div n" for n by simp
  show "PT_INDEX w = 0" using d [of 1] by (simp add: PT_INDEX_def)
  show "PD_INDEX w = 0" using d [of 512] by (simp add: PD_INDEX_def div_mult2_eq [symmetric])
  show "PDPT_INDEX w = 8" using d [of 262144] by (simp add: PDPT_INDEX_def div_mult2_eq [symmetric])
  show "PML4_INDEX w = 0" using d [of 134217728] by (simp add: PML4_INDEX_def div_mult2_eq [symmetric])
qed

lemma demo_user_page:
  assumes "0x200000000 \<le> w" "w < 0x200001000"
  shows "\<not> on_huge_page demo_vm w" "vmm_is_user_page demo_vm w"
  unfolding on_huge_page_def vmm_is_user_page_def Let_def demo_user [OF assms] demo_root flag_bits
  by (simp_all add: demo_entry demo_bits)

theorem vmm_verify_user_access_correct_witness: "vmm_verify_user_access 0x200000010 100 False demo_vm = Inr (True, demo_vm)"
proof -
  have "\<not> on_huge_page demo_vm w" "vmm_is_user_page demo_vm w" if "0x200000010 \<le> w" "w < 0x200000010 + 100" for w
    using demo_user_page [of w] that by auto
  then show ?thesis
    using vmm_verify_user_access_correct [of 8589934608 100 demo_vm] by (auto simp: USER_BASE_def USER_LIMIT_def)
qed

text \<open>C17: \<^verbatim>\<open>vmm_strncpy_from_user\<close> with a buffer of at least \<open>mx\<close> bytes. It returns without a page fault, reads only bytes of user memory that the
  access check accepts, and changes no memory but the buffer. It copies the bytes of the user string in order up to the first that is 0 and returns
  their number including the 0; or, when there is none among the first \<open>mx\<close>, the first \<open>mx\<close> with the last replaced by 0, and returns \<open>mx\<close>; or, when
  a byte that the access check refuses comes first, it returns -EFAULT, and the buffer holds the bytes before it, without a 0
  after them. The other bytes of the buffer are untouched.\<close>

theorem vmm_strncpy_from_user_correct:
  assumes "src \<noteq> 0" "0 < mx" "mx \<le> length buf" "src + mx < 2 ^ 64" "mx < 2 ^ 31"
  shows "\<exists>m r buf'. vmm_strncpy_from_user (Some buf) src mx s = Inr ((r, Some buf'), s) \<and>
    (\<forall>k < m. user_ok s (src + k) \<and> user_byte s (src + k) \<noteq> 0) \<and> length buf' = length buf \<and> (\<forall>k. m < k \<and> k < length buf \<longrightarrow> buf' ! k = buf ! k) \<and>
    (m < mx \<and> user_ok s (src + m) \<and> r = int m + 1 \<and> user_byte s (src + m) = 0 \<and> (\<forall>k \<le> m. buf' ! k = user_byte s (src + k)) \<or>
     m = mx \<and> r = int mx \<and> buf' ! (mx - 1) = 0 \<and> (\<forall>k < mx - 1. buf' ! k = user_byte s (src + k)) \<and> (mx < length buf \<longrightarrow> buf' ! mx = buf ! mx) \<or>
     m < mx \<and> \<not> user_ok s (src + m) \<and> r = - EFAULT \<and> (\<forall>k < m. buf' ! k = user_byte s (src + k)) \<and> buf' ! m = buf ! m)"
proof -
  let ?good = "\<lambda>k. user_ok s (src + k) \<and> user_byte s (src + k) \<noteq> 0"
  obtain m where m: "m \<le> mx" "\<forall>k < m. ?good k" "m < mx \<longrightarrow> \<not> ?good m"
  proof (cases "\<exists>k < mx. \<not> ?good k")
    case False
    then show thesis using that [of mx] by auto
  next
    case True
    then obtain k where k: "k < mx" "\<not> ?good k" by blast
    define j where "j = (LEAST k. \<not> ?good k)"
    have "\<not> ?good j" unfolding j_def by (rule LeastI [of _ k]) (rule k(2))
    moreover have "j \<le> k" unfolding j_def by (rule Least_le) (rule k(2))
    moreover have "\<forall>i < j. ?good i" unfolding j_def using not_less_Least by blast
    ultimately show thesis using that [of j] k(1) by (meson less_imp_le order.trans)
  qed
  have pre: "strncpy_loop src 0 mx buf s = strncpy_loop src m (mx - m) (str_buf s src buf m) s"
    by (rule strncpy_prefix [OF assms(4,3) m(1)]) (use m(2) in blast)
  have call: "vmm_strncpy_from_user (Some buf) src mx s = vbind (strncpy_loop src m (mx - m) (str_buf s src buf m) s) (\<lambda>(r, b) s1. Inr ((r, Some b), s1))"
    using assms(1,2) pre by (simp add: vmm_strncpy_from_user_def)
  have int32: "to_int32 (x mod 2 ^ 32) = int x" if "x < 2 ^ 31" for x using that by (simp add: to_int32_def)
  have sb: "length (str_buf s src buf c) = length buf" "k < c \<Longrightarrow> str_buf s src buf c ! k = user_byte s (src + k)"
    "c \<le> k \<Longrightarrow> k < length buf \<Longrightarrow> str_buf s src buf c ! k = buf ! k" if "c \<le> length buf" for c k
    using that by (auto simp: str_buf_def nth_append)
  show ?thesis
  proof (cases "m = mx")
    case True
    have "vmm_strncpy_from_user (Some buf) src mx s = Inr ((int mx, Some ((str_buf s src buf mx)[mx - 1 := 0])), s)"
      using call True assms(5) int32 by simp
    moreover have "length ((str_buf s src buf mx)[mx - 1 := 0]) = length buf" "((str_buf s src buf mx)[mx - 1 := 0]) ! (mx - 1) = 0"
      "\<forall>k < mx - 1. ((str_buf s src buf mx)[mx - 1 := 0]) ! k = user_byte s (src + k)"
      "\<forall>k. m \<le> k \<and> k < length buf \<longrightarrow> ((str_buf s src buf mx)[mx - 1 := 0]) ! k = buf ! k"
      using sb [OF assms(3)] assms(2,3) True by auto
    ultimately show ?thesis using m(2) True by (intro exI [of _ m]) auto
  next
    case False
    then have lt: "m < mx" "src + m < 2 ^ 64" "m < length buf" "mx - m = Suc (mx - m - 1)" using m(1) assms by auto
    have prev: "m = 0 \<or> user_ok s (src + (m - 1))" using m(2) by (cases m) simp_all
    note st = strncpy_step [OF lt(2,3) prev, where n = "mx - m - 1", folded lt(4)]
    show ?thesis
    proof (cases "user_ok s (src + m)")
      case ok: True
      then have z: "user_byte s (src + m) = 0" using m(3) lt(1) by blast
      have "m + 1 < 2 ^ 31" using lt(1) assms(5) by linarith
      then have "vmm_strncpy_from_user (Some buf) src mx s = Inr ((int m + 1, Some (str_buf s src buf (Suc m))), s)"
        using call st ok z int32 [of "m + 1"] by simp
      moreover have "length (str_buf s src buf (Suc m)) = length buf" "\<forall>k \<le> m. str_buf s src buf (Suc m) ! k = user_byte s (src + k)"
        "\<forall>k. m < k \<and> k < length buf \<longrightarrow> str_buf s src buf (Suc m) ! k = buf ! k" using sb [of "Suc m"] lt(3) by auto
      ultimately show ?thesis using m(2) lt(1) ok z by (intro exI [of _ m]) auto
    next
      case bad: False
      have "vmm_strncpy_from_user (Some buf) src mx s = Inr ((- EFAULT, Some (str_buf s src buf m)), s)" using call st bad by simp
      moreover have "length (str_buf s src buf m) = length buf" "\<forall>k < m. str_buf s src buf m ! k = user_byte s (src + k)"
        "\<forall>k. m \<le> k \<and> k < length buf \<longrightarrow> str_buf s src buf m ! k = buf ! k"
        using sb [of m] lt(3) by auto
      ultimately show ?thesis using m(2) lt(1,3) bad by (intro exI [of _ m]) auto
    qed
  qed
qed

theorem vmm_strncpy_from_user_correct_witness:
  "\<exists>r buf'. vmm_strncpy_from_user (Some [9, 9, 9, 9]) 0x200000000 4 demo_vm = Inr ((r, Some buf'), demo_vm) \<and> length buf' = 4"
  using vmm_strncpy_from_user_correct [where src = 8589934592 and mx = 4 and buf = "[9, 9, 9, 9]" and s = demo_vm] by auto

section \<open>Tearing down\<close>

lemma frees_user:
  assumes "is_link e" "bit e 2" "e = entry s table i" "i < 512" "a \<in> set (frees s (entry_addr e) level) \<or> a = entry_addr e"
  shows "a \<in> set (frees s table (Suc level))"
proof -
  have "a \<in> set (frees_at s table level i)"
    using assms by (auto simp: frees_at_def Let_def is_link_def flag_bits)
  then show ?thesis unfolding frees_Suc using assms(4) by (auto simp del: upt_Suc)
qed

text \<open>\<^verbatim>\<open>vmm_destroy_pml4\<close> drops one reference of exactly the pages that are reached through present user entries of the four levels, each page after
  the pages below it, the top table last (stopping at the first failed assertion of the allocator), and changes nothing else; and since a copy made by
  \<^verbatim>\<open>vmm_clone_pml4\<close> uses the page directories of the first 8 GB of its parent, destroying it also drops those directories,
  which the parent still uses, when they are reached through user entries.\<close>

lemma vmm_destroy_pml4_correct:
  assumes "p \<noteq> 0"
  shows "vmm_destroy_pml4 p s = (case free_all (frees s p 4 @ [p]) (frames s) of Inl e \<Rightarrow> Inl e | Inr F \<Rightarrow> Inr ((), s\<lparr>frames := F\<rparr>)) \<and>
    (\<forall>s0 j t. vm_ok s0 \<and> no_huge s0 \<and> vmm_clone_pml4 True s0 = Inr (p, s) \<and> \<not> no_pages s \<and> j < 8 \<and> tab s0 [0, j] = Some t \<and>
       bit (entry s (get_active_pml4 s) 0) 2 \<and> bit (entry s (entry_addr (entry s (get_active_pml4 s) 0)) j) 2 \<and>
       tab s [0, j] = Some t \<longrightarrow> t \<in> set (frees s p 4))"
proof (intro conjI allI impI)
  show "vmm_destroy_pml4 p s = (case free_all (frees s p 4 @ [p]) (frames s) of Inl e \<Rightarrow> Inl e | Inr F \<Rightarrow> Inr ((), s\<lparr>frames := F\<rparr>))"
    using destroy_eq [OF assms] by (simp add: free_frames_def with_frames_def)
  fix s0 j t
  assume a: "vm_ok s0 \<and> no_huge s0 \<and> vmm_clone_pml4 True s0 = Inr (p, s) \<and> \<not> no_pages s \<and> j < 8 \<and> tab s0 [0, j] = Some t \<and>
       bit (entry s (get_active_pml4 s) 0) 2 \<and> bit (entry s (entry_addr (entry s (get_active_pml4 s) 0)) j) 2 \<and> tab s [0, j] = Some t"
  then have sd: "shares_directory s p j" using clone_pml4_ok [of s0] assms by fastforce
  let ?e4 = "entry s p 0" and ?r4 = "entry s (get_active_pml4 s) 0"
  let ?e3 = "entry s (entry_addr ?e4) j"
  have l: "is_link ?e4" "bit ?e4 2" "?e3 = entry s (entry_addr ?r4) j" using sd a by (auto simp: shares_directory_def)
  have l3: "is_link ?e3" "entry_addr ?e3 = t" using a l(3) by (auto simp: tab_def split: if_splits)
  have "t \<in> set (frees s (entry_addr ?e4) (Suc 2))" by (rule frees_user [OF l3(1) _ refl]) (use a l(3) l3 in auto)
  then have "t \<in> set (frees s (entry_addr ?e4) 3)" by (simp only: Suc_numeral add_num_simps)
  then have "t \<in> set (frees s p (Suc 3))" by (intro frees_user [OF l(1,2) refl]) auto
  then show "t \<in> set (frees s p 4)" by (simp only: Suc_numeral add_num_simps)
qed

lemma vmm_destroy_pml4_correct_witness:
  "vmm_destroy_pml4 4096 demo_vm = (case free_all (frees demo_vm 4096 4 @ [4096]) (frames demo_vm) of
     Inl e \<Rightarrow> Inl e | Inr F \<Rightarrow> Inr ((), demo_vm\<lparr>frames := F\<rparr>))"
proof -
  have "(4096 :: nat) \<noteq> 0" by simp
  from vmm_destroy_pml4_correct [OF this, of demo_vm] show ?thesis by blast
qed

end
