(* ===== verification/Sha.thy ===== *)
theory Sha
  imports Prelude
begin

text \<open>
  The hash functions SHA-256 and SHA-512 (\<^verbatim>\<open>kernel/crypto/sha256.c\<close>, \<^verbatim>\<open>kernel/crypto/sha512.c\<close>), loop by loop. A context is a record,
  an array the list of its elements, a null pointer \<open>None\<close>.
\<close>

section \<open>SHA-256: the code\<close>

definition k256 :: "u32 list" where
  "k256 =
     concat
      [[0x428a2f98, 0x71374491, 0xb5c0fbcf, 0xe9b5dba5, 0x3956c25b, 0x59f111f1, 0x923f82a4, 0xab1c5ed5],
       [0xd807aa98, 0x12835b01, 0x243185be, 0x550c7dc3, 0x72be5d74, 0x80deb1fe, 0x9bdc06a7, 0xc19bf174],
       [0xe49b69c1, 0xefbe4786, 0x0fc19dc6, 0x240ca1cc, 0x2de92c6f, 0x4a7484aa, 0x5cb0a9dc, 0x76f988da],
       [0x983e5152, 0xa831c66d, 0xb00327c8, 0xbf597fc7, 0xc6e00bf3, 0xd5a79147, 0x06ca6351, 0x14292967],
       [0x27b70a85, 0x2e1b2138, 0x4d2c6dfc, 0x53380d13, 0x650a7354, 0x766a0abb, 0x81c2c92e, 0x92722c85],
       [0xa2bfe8a1, 0xa81a664b, 0xc24b8b70, 0xc76c51a3, 0xd192e819, 0xd6990624, 0xf40e3585, 0x106aa070],
       [0x19a4c116, 0x1e376c08, 0x2748774c, 0x34b0bcb5, 0x391c0cb3, 0x4ed8aa4a, 0x5b9cca4f, 0x682e6ff3],
       [0x748f82ee, 0x78a5636f, 0x84c87814, 0x8cc70208, 0x90befffa, 0xa4506ceb, 0xbef9a3f7, 0xc67178f2]]"

definition ROTRIGHT :: "u32 \<Rightarrow> nat \<Rightarrow> u32" where
  "ROTRIGHT a b = drop_bit b a OR push_bit (32 - b) a"

definition CH :: "u32 \<Rightarrow> u32 \<Rightarrow> u32 \<Rightarrow> u32" where
  "CH x y z = (x AND y) XOR (NOT x AND z)"

definition MAJ :: "u32 \<Rightarrow> u32 \<Rightarrow> u32 \<Rightarrow> u32" where
  "MAJ x y z = (x AND y) XOR (x AND z) XOR (y AND z)"

definition EP0 :: "u32 \<Rightarrow> u32" where
  "EP0 x = ROTRIGHT x 2 XOR ROTRIGHT x 13 XOR ROTRIGHT x 22"

definition EP1 :: "u32 \<Rightarrow> u32" where
  "EP1 x = ROTRIGHT x 6 XOR ROTRIGHT x 11 XOR ROTRIGHT x 25"

definition SIG0 :: "u32 \<Rightarrow> u32" where
  "SIG0 x = ROTRIGHT x 7 XOR ROTRIGHT x 18 XOR drop_bit 3 x"

definition SIG1 :: "u32 \<Rightarrow> u32" where
  "SIG1 x = ROTRIGHT x 17 XOR ROTRIGHT x 19 XOR drop_bit 10 x"

record sha256_ctx =
  c_data :: "u8 list"
  c_datalen :: nat
  c_bitlen :: u64
  c_state :: "u32 list"

text \<open>The first loop reads the block, the second extends \<open>m\<close> one word at a time; \<open>n\<close> words are missing.\<close>

definition sha256_load :: "u8 list \<Rightarrow> u32 list" where
  "sha256_load data =
     map (\<lambda>i. let j = 4 * i in
       push_bit 24 (ucast (data ! j)) OR push_bit 16 (ucast (data ! (j + 1))) OR push_bit 8 (ucast (data ! (j + 2))) OR
       ucast (data ! (j + 3))) [0..<16]"

fun sha256_extend :: "nat \<Rightarrow> u32 list \<Rightarrow> u32 list" where
  "sha256_extend 0 m = m"
| "sha256_extend (Suc n) m =
     (let i = length m
      in sha256_extend n (m @ [SIG1 (m ! (i - 2)) + m ! (i - 7) + SIG0 (m ! (i - 15)) + m ! (i - 16)]))"

text \<open>The working variables \<open>a\<close> to \<open>h\<close>, and the loop over the rounds from \<open>i\<close> on.\<close>

type_synonym 'a vars = "'a \<times> 'a \<times> 'a \<times> 'a \<times> 'a \<times> 'a \<times> 'a \<times> 'a"

definition sha256_round :: "u32 list \<Rightarrow> nat \<Rightarrow> u32 vars \<Rightarrow> u32 vars" where
  "sha256_round m i v = (case v of (a, b, c, d, e, f, g, h) \<Rightarrow>
     let t1 = h + EP1 e + CH e f g + k256 ! i + m ! i;
         t2 = EP0 a + MAJ a b c
     in (t1 + t2, a, b, c, d + t1, e, f, g))"

fun sha256_rounds :: "nat \<Rightarrow> nat \<Rightarrow> u32 list \<Rightarrow> u32 vars \<Rightarrow> u32 vars" where
  "sha256_rounds 0 i m v = v"
| "sha256_rounds (Suc n) i m v = sha256_rounds n (Suc i) m (sha256_round m i v)"

definition sha256_transform :: "u8 list \<Rightarrow> u32 list \<Rightarrow> u32 list" where
  "sha256_transform data st =
     (let m = sha256_extend 48 (sha256_load data)
      in case sha256_rounds 64 0 m (st ! 0, st ! 1, st ! 2, st ! 3, st ! 4, st ! 5, st ! 6, st ! 7) of
           (a, b, c, d, e, f, g, h) \<Rightarrow>
             [st ! 0 + a, st ! 1 + b, st ! 2 + c, st ! 3 + d, st ! 4 + e, st ! 5 + f, st ! 6 + g, st ! 7 + h])"

definition sha256_init :: "sha256_ctx \<Rightarrow> sha256_ctx" where
  "sha256_init ctx = ctx\<lparr>c_datalen := 0, c_bitlen := 0,
     c_state := [0x6a09e667, 0xbb67ae85, 0x3c6ef372, 0xa54ff53a, 0x510e527f, 0x9b05688c, 0x1f83d9ab, 0x5be0cd19]\<rparr>"

text \<open>One turn of the loop of \<open>sha256_update\<close>; the loop counter has 32 bits and the length 64, so a long enough input makes it
  run forever (\<open>None\<close>).\<close>

definition sha256_byte :: "sha256_ctx \<Rightarrow> u8 \<Rightarrow> sha256_ctx" where
  "sha256_byte ctx x =
     (let ctx1 = ctx\<lparr>c_data := (c_data ctx)[c_datalen ctx := x], c_datalen := c_datalen ctx + 1\<rparr>
      in if c_datalen ctx1 = 64
         then ctx1\<lparr>c_state := sha256_transform (c_data ctx1) (c_state ctx1), c_bitlen := c_bitlen ctx1 + 512, c_datalen := 0\<rparr>
         else ctx1)"

partial_function (option) sha256_update_loop :: "u8 list \<Rightarrow> nat \<Rightarrow> u32 \<Rightarrow> sha256_ctx \<Rightarrow> sha256_ctx option" where
  "sha256_update_loop data len i ctx =
     (if unat i < len then sha256_update_loop data len (i + 1) (sha256_byte ctx (data ! unat i)) else Some ctx)"

definition sha256_update :: "u8 list option \<Rightarrow> nat \<Rightarrow> sha256_ctx option \<Rightarrow> sha256_ctx option option" where
  "sha256_update data len ctx =
     (case ctx of
        None \<Rightarrow> Some None
      | Some c \<Rightarrow>
          (case data of
             None \<Rightarrow> Some (Some c)
           | Some bytes \<Rightarrow> map_option Some (sha256_update_loop bytes len 0 c)))"

text \<open>Stores a value at the positions from \<open>i\<close> up to \<open>n\<close>: \<^verbatim>\<open>while (i < n) data[i++] = 0\<close>.\<close>

definition zero_fill :: "nat \<Rightarrow> nat \<Rightarrow> u8 list \<Rightarrow> u8 list" where
  "zero_fill i n d = take i d @ replicate (n - i) 0 @ drop (max i n) d"

definition sha256_digest :: "u32 list \<Rightarrow> u8 list" where
  "sha256_digest st = map (\<lambda>n. ucast (drop_bit (24 - (n mod 4) * 8) (st ! (n div 4)) AND 0xFF)) [0..<32]"

definition sha256_finish :: "sha256_ctx \<Rightarrow> sha256_ctx \<times> u8 list" where
  "sha256_finish ctx =
     (let i = c_datalen ctx;
          ctx1 = (if c_datalen ctx < 56
            then ctx\<lparr>c_data := zero_fill (i + 1) 56 ((c_data ctx)[i := 0x80])\<rparr>
            else
              let c = ctx\<lparr>c_data := zero_fill (i + 1) 64 ((c_data ctx)[i := 0x80])\<rparr>
              in c\<lparr>c_state := sha256_transform (c_data c) (c_state c), c_data := replicate 56 0 @ drop 56 (c_data c)\<rparr>);
          bits = c_bitlen ctx1 + of_nat (c_datalen ctx1 * 8);
          ctx2 = ctx1\<lparr>c_bitlen := bits, c_data := take 56 (c_data ctx1) @
            [ucast (drop_bit 56 bits), ucast (drop_bit 48 bits), ucast (drop_bit 40 bits), ucast (drop_bit 32 bits),
             ucast (drop_bit 24 bits), ucast (drop_bit 16 bits), ucast (drop_bit 8 bits), ucast bits]\<rparr>;
          ctx3 = ctx2\<lparr>c_state := sha256_transform (c_data ctx2) (c_state ctx2)\<rparr>
      in (ctx3, sha256_digest (c_state ctx3)))"

definition sha256_final :: "sha256_ctx option \<Rightarrow> u8 list option \<Rightarrow> sha256_ctx option \<times> u8 list option" where
  "sha256_final ctx hash =
     (case (ctx, hash) of
        (Some c, Some _) \<Rightarrow> (case sha256_finish c of (c', h) \<Rightarrow> (Some c', Some h))
      | _ \<Rightarrow> (ctx, hash))"

text \<open>The context lives on the stack: its initial contents are an argument. The result is the new contents of \<open>hash\<close>.\<close>

definition sha256 :: "sha256_ctx \<Rightarrow> u8 list option \<Rightarrow> nat \<Rightarrow> u8 list option \<Rightarrow> u8 list option option" where
  "sha256 stack data len hash =
     (if data = None \<and> len > 0 \<or> hash = None then Some hash
      else
        case sha256_update data len (Some (sha256_init stack)) of
          Some ctx \<Rightarrow> Some (snd (sha256_final ctx hash))
        | None \<Rightarrow> None)"

section \<open>SHA-512: the code\<close>

definition K512 :: "u64 list" where
  "K512 =
     concat
      [[0x428a2f98d728ae22, 0x7137449123ef65cd, 0xb5c0fbcfec4d3b2f, 0xe9b5dba58189dbbc],
       [0x3956c25bf348b538, 0x59f111f1b605d019, 0x923f82a4af194f9b, 0xab1c5ed5da6d8118],
       [0xd807aa98a3030242, 0x12835b0145706fbe, 0x243185be4ee4b28c, 0x550c7dc3d5ffb4e2],
       [0x72be5d74f27b896f, 0x80deb1fe3b1696b1, 0x9bdc06a725c71235, 0xc19bf174cf692694],
       [0xe49b69c19ef14ad2, 0xefbe4786384f25e3, 0x0fc19dc68b8cd5b5, 0x240ca1cc77ac9c65],
       [0x2de92c6f592b0275, 0x4a7484aa6ea6e483, 0x5cb0a9dcbd41fbd4, 0x76f988da831153b5],
       [0x983e5152ee66dfab, 0xa831c66d2db43210, 0xb00327c898fb213f, 0xbf597fc7beef0ee4],
       [0xc6e00bf33da88fc2, 0xd5a79147930aa725, 0x06ca6351e003826f, 0x142929670a0e6e70],
       [0x27b70a8546d22ffc, 0x2e1b21385c26c926, 0x4d2c6dfc5ac42aed, 0x53380d139d95b3df],
       [0x650a73548baf63de, 0x766a0abb3c77b2a8, 0x81c2c92e47edaee6, 0x92722c851482353b],
       [0xa2bfe8a14cf10364, 0xa81a664bbc423001, 0xc24b8b70d0f89791, 0xc76c51a30654be30],
       [0xd192e819d6ef5218, 0xd69906245565a910, 0xf40e35855771202a, 0x106aa07032bbd1b8],
       [0x19a4c116b8d2d0c8, 0x1e376c085141ab53, 0x2748774cdf8eeb99, 0x34b0bcb5e19b48a8],
       [0x391c0cb3c5c95a63, 0x4ed8aa4ae3418acb, 0x5b9cca4f7763e373, 0x682e6ff3d6b2b8a3],
       [0x748f82ee5defb2fc, 0x78a5636f43172f60, 0x84c87814a1f0ab72, 0x8cc702081a6439ec],
       [0x90befffa23631e28, 0xa4506cebde82bde9, 0xbef9a3f7b2c67915, 0xc67178f2e372532b],
       [0xca273eceea26619c, 0xd186b8c721c0c207, 0xeada7dd6cde0eb1e, 0xf57d4f7fee6ed178],
       [0x06f067aa72176fba, 0x0a637dc5a2c898a6, 0x113f9804bef90dae, 0x1b710b35131c471b],
       [0x28db77f523047d84, 0x32caab7b40c72493, 0x3c9ebe0a15c9bebc, 0x431d67c49c100d4c],
       [0x4cc5d4becb3e42b6, 0x597f299cfc657e2a, 0x5fcb6fab3ad6faec, 0x6c44198c4a475817]]"

definition ROTR :: "u64 \<Rightarrow> nat \<Rightarrow> u64" where
  "ROTR x n = drop_bit n x OR push_bit (64 - n) x"

definition Ch :: "u64 \<Rightarrow> u64 \<Rightarrow> u64 \<Rightarrow> u64" where
  "Ch x y z = (x AND y) XOR (NOT x AND z)"

definition Maj :: "u64 \<Rightarrow> u64 \<Rightarrow> u64 \<Rightarrow> u64" where
  "Maj x y z = (x AND y) XOR (x AND z) XOR (y AND z)"

definition SIGMA0 :: "u64 \<Rightarrow> u64" where
  "SIGMA0 x = ROTR x 28 XOR ROTR x 34 XOR ROTR x 39"

definition SIGMA1 :: "u64 \<Rightarrow> u64" where
  "SIGMA1 x = ROTR x 14 XOR ROTR x 18 XOR ROTR x 41"

definition sigma0 :: "u64 \<Rightarrow> u64" where
  "sigma0 x = ROTR x 1 XOR ROTR x 8 XOR drop_bit 7 x"

definition sigma1 :: "u64 \<Rightarrow> u64" where
  "sigma1 x = ROTR x 19 XOR ROTR x 61 XOR drop_bit 6 x"

record sha512_ctx =
  d_state :: "u64 list"
  d_bitlen :: u64
  d_data :: "u8 list"
  d_datalen :: nat

definition sha512_load :: "u8 list \<Rightarrow> u64 list" where
  "sha512_load data =
     map (\<lambda>i.
       push_bit 56 (ucast (data ! (i * 8))) OR push_bit 48 (ucast (data ! (i * 8 + 1))) OR
       push_bit 40 (ucast (data ! (i * 8 + 2))) OR push_bit 32 (ucast (data ! (i * 8 + 3))) OR
       push_bit 24 (ucast (data ! (i * 8 + 4))) OR push_bit 16 (ucast (data ! (i * 8 + 5))) OR
       push_bit 8 (ucast (data ! (i * 8 + 6))) OR ucast (data ! (i * 8 + 7))) [0..<16]"

fun sha512_extend :: "nat \<Rightarrow> u64 list \<Rightarrow> u64 list" where
  "sha512_extend 0 m = m"
| "sha512_extend (Suc n) m =
     (let i = length m
      in sha512_extend n (m @ [sigma1 (m ! (i - 2)) + m ! (i - 7) + sigma0 (m ! (i - 15)) + m ! (i - 16)]))"

definition sha512_round :: "u64 list \<Rightarrow> nat \<Rightarrow> u64 vars \<Rightarrow> u64 vars" where
  "sha512_round m i v = (case v of (a, b, c, d, e, f, g, h) \<Rightarrow>
     let t1 = h + SIGMA1 e + Ch e f g + K512 ! i + m ! i;
         t2 = SIGMA0 a + Maj a b c
     in (t1 + t2, a, b, c, d + t1, e, f, g))"

fun sha512_rounds :: "nat \<Rightarrow> nat \<Rightarrow> u64 list \<Rightarrow> u64 vars \<Rightarrow> u64 vars" where
  "sha512_rounds 0 i m v = v"
| "sha512_rounds (Suc n) i m v = sha512_rounds n (Suc i) m (sha512_round m i v)"

definition sha512_transform :: "u8 list \<Rightarrow> u64 list \<Rightarrow> u64 list" where
  "sha512_transform data st =
     (let m = sha512_extend 64 (sha512_load data)
      in case sha512_rounds 80 0 m (st ! 0, st ! 1, st ! 2, st ! 3, st ! 4, st ! 5, st ! 6, st ! 7) of
           (a, b, c, d, e, f, g, h) \<Rightarrow>
             [st ! 0 + a, st ! 1 + b, st ! 2 + c, st ! 3 + d, st ! 4 + e, st ! 5 + f, st ! 6 + g, st ! 7 + h])"

definition sha512_init :: "sha512_ctx \<Rightarrow> sha512_ctx" where
  "sha512_init ctx = ctx\<lparr>d_datalen := 0, d_bitlen := 0,
     d_state := [0x6a09e667f3bcc908, 0xbb67ae8584caa73b, 0x3c6ef372fe94f82b, 0xa54ff53a5f1d36f1,
       0x510e527fade682d1, 0x9b05688c2b3e6c1f, 0x1f83d9abfb41bd6b, 0x5be0cd19137e2179]\<rparr>"

definition sha512_byte :: "sha512_ctx \<Rightarrow> u8 \<Rightarrow> sha512_ctx" where
  "sha512_byte ctx x =
     (let ctx1 = ctx\<lparr>d_data := (d_data ctx)[d_datalen ctx := x], d_datalen := d_datalen ctx + 1\<rparr>
      in if d_datalen ctx1 = 128
         then ctx1\<lparr>d_state := sha512_transform (d_data ctx1) (d_state ctx1), d_bitlen := d_bitlen ctx1 + 1024, d_datalen := 0\<rparr>
         else ctx1)"

text \<open>The loop counter is a \<^verbatim>\<open>size_t\<close>: the loop runs once for each of the \<open>len\<close> bytes.\<close>

definition sha512_update :: "u8 list \<Rightarrow> nat \<Rightarrow> sha512_ctx \<Rightarrow> sha512_ctx" where
  "sha512_update data len ctx = foldl (\<lambda>c i. sha512_byte c (data ! i)) ctx [0..<len]"

text \<open>The loop up to byte 112 of \<open>sha512_final\<close>, which would start a new block at byte 128, as it is written.\<close>

function sha512_pad_loop :: "nat \<Rightarrow> sha512_ctx \<Rightarrow> nat \<times> sha512_ctx" where
  "sha512_pad_loop i ctx =
     (if i < 112 then
        let c = ctx\<lparr>d_data := (d_data ctx)[i := 0]\<rparr>; i1 = i + 1
        in if i1 = 128
           then sha512_pad_loop 0 (c\<lparr>d_state := sha512_transform (d_data c) (d_state c), d_bitlen := d_bitlen c + 1024, d_datalen := 0\<rparr>)
           else sha512_pad_loop i1 c
      else (i, ctx))"
  by pat_completeness auto
termination by (relation "measure (\<lambda>(i, ctx). 112 - i)") auto

definition sha512_digest :: "u64 list \<Rightarrow> u8 list" where
  "sha512_digest st = map (\<lambda>n. ucast (drop_bit (56 - (n mod 8) * 8) (st ! (n div 8)) AND 0xFF)) [0..<64]"

definition sha512_final :: "sha512_ctx \<Rightarrow> sha512_ctx \<times> u8 list" where
  "sha512_final ctx =
     (let i = d_datalen ctx in
      case sha512_pad_loop (i + 1) (ctx\<lparr>d_data := (d_data ctx)[i := 0x80]\<rparr>) of
        (i1, ctx1) \<Rightarrow>
          let ctx2 = ctx1\<lparr>d_data := zero_fill i1 120 (d_data ctx1)\<rparr>;
              bits = d_bitlen ctx2 + of_nat (d_datalen ctx2 * 8);
              ctx3 = ctx2\<lparr>d_bitlen := bits, d_data := take 120 (d_data ctx2) @ map (\<lambda>i. ucast (drop_bit ((7 - i) * 8) bits AND 0xFF)) [0..<8]\<rparr>;
              ctx4 = ctx3\<lparr>d_state := sha512_transform (d_data ctx3) (d_state ctx3)\<rparr>
          in (ctx4, sha512_digest (d_state ctx4)))"

definition sha512 :: "sha512_ctx \<Rightarrow> u8 list \<Rightarrow> nat \<Rightarrow> u8 list" where
  "sha512 stack data len = snd (sha512_final (sha512_update data len (sha512_init stack)))"

declare sha512_pad_loop.simps [simp del]

end
