(* ===== verification/ShaSpec.thy ===== *)
theory ShaSpec
  imports Sha
begin

text \<open>
  The standard FIPS 180-4 that the hash functions are compared with: padding, message schedule and compression as recursive
  definitions, and the constants as the leading fraction bits of the roots of the first primes; here the constants of the code
  are shown to be those.
\<close>

section \<open>The standard\<close>

definition be_val :: "u8 list \<Rightarrow> nat" where
  "be_val bs = foldl (\<lambda>v b. 256 * v + unat b) 0 bs"

definition be_bytes :: "nat \<Rightarrow> nat \<Rightarrow> u8 list" where
  "be_bytes n v = map (\<lambda>i. of_nat (v div 256 ^ (n - 1 - i))) [0..<n]"

text \<open>Padding (5.1): a one bit, zeros up to a multiple of the block size, and the length in bits; \<open>B\<close> and \<open>l\<close> are the sizes of
  a block and of the length field in bytes.\<close>

definition pad :: "nat \<Rightarrow> nat \<Rightarrow> u8 list \<Rightarrow> u8 list" where
  "pad B l msg = msg @ [0x80] @ replicate ((B - (length msg + 1 + l) mod B) mod B) 0 @ be_bytes l (8 * length msg)"

fun chop :: "nat \<Rightarrow> 'a list \<Rightarrow> 'a list list" where
  "chop n xs = (if n = 0 \<or> length xs < n then [] else take n xs # chop n (drop n xs))"

declare chop.simps [simp del]

text \<open>The constants (4.2, 5.3): the first bits of the fraction of the \<open>r\<close>-th root of the first primes, which are found
  by trial division (the square of 23 is above 410).\<close>

definition primes :: "nat list" where
  "primes = filter (\<lambda>p. list_all (\<lambda>d. p = d \<or> p mod d \<noteq> 0) [2, 3, 5, 7, 11, 13, 17, 19]) [2..<410]"

definition root_bits :: "nat \<Rightarrow> nat \<Rightarrow> nat \<Rightarrow> nat" where
  "root_bits r bits p = (GREATEST x. x ^ r \<le> p * 2 ^ (bits * r)) mod 2 ^ bits"

text \<open>The functions, schedule and compression (4.1, 6.2, 6.4), for words of both sizes; the rotations are the arguments.\<close>

definition sha_Ch :: "'a::len word \<Rightarrow> 'a word \<Rightarrow> 'a word \<Rightarrow> 'a word" where
  "sha_Ch x y z = (x AND y) XOR (NOT x AND z)"

definition sha_Maj :: "'a::len word \<Rightarrow> 'a word \<Rightarrow> 'a word \<Rightarrow> 'a word" where
  "sha_Maj x y z = (x AND y) XOR (x AND z) XOR (y AND z)"

definition rot3 :: "nat \<Rightarrow> nat \<Rightarrow> nat \<Rightarrow> 'a::len word \<Rightarrow> 'a word" where
  "rot3 a b c x = word_rotr a x XOR word_rotr b x XOR word_rotr c x"

definition rot2 :: "nat \<Rightarrow> nat \<Rightarrow> nat \<Rightarrow> 'a::len word \<Rightarrow> 'a word" where
  "rot2 a b c x = word_rotr a x XOR word_rotr b x XOR drop_bit c x"

function schedule_word :: "('a::len word \<Rightarrow> 'a word) \<Rightarrow> ('a word \<Rightarrow> 'a word) \<Rightarrow> (nat \<Rightarrow> 'a word) \<Rightarrow> nat \<Rightarrow> 'a word" where
  "schedule_word s0 s1 M t =
     (if t < 16 then M t
      else s1 (schedule_word s0 s1 M (t - 2)) + schedule_word s0 s1 M (t - 7) + s0 (schedule_word s0 s1 M (t - 15)) + schedule_word s0 s1 M (t - 16))"
  by pat_completeness auto
termination by (relation "measure (\<lambda>(s0, s1, M, t). t)") auto

declare schedule_word.simps [simp del]

fun working :: "('a::len word \<Rightarrow> 'a word) \<Rightarrow> ('a word \<Rightarrow> 'a word) \<Rightarrow> (nat \<Rightarrow> 'a word) \<Rightarrow> (nat \<Rightarrow> 'a word) \<Rightarrow> 'a word vars \<Rightarrow> nat \<Rightarrow> 'a word vars" where
  "working S0 S1 K W v 0 = v"
| "working S0 S1 K W v (Suc t) =
     (case working S0 S1 K W v t of (a, b, c, d, e, f, g, h) \<Rightarrow>
        let T1 = h + S1 e + sha_Ch e f g + K t + W t;
            T2 = S0 a + sha_Maj a b c
        in (T1 + T2, a, b, c, d + T1, e, f, g))"

definition list_vars :: "'a list \<Rightarrow> 'a vars" where
  "list_vars s = (s ! 0, s ! 1, s ! 2, s ! 3, s ! 4, s ! 5, s ! 6, s ! 7)"

definition vars_list :: "'a vars \<Rightarrow> 'a list" where
  "vars_list v = (case v of (a, b, c, d, e, f, g, h) \<Rightarrow> [a, b, c, d, e, f, g, h])"

definition SHA256_K :: "nat \<Rightarrow> u32" where
  "SHA256_K t = of_nat (root_bits 3 32 (primes ! t))"

definition SHA256_H0 :: "u32 list" where
  "SHA256_H0 = map (\<lambda>i. of_nat (root_bits 2 32 (primes ! i))) [0..<8]"

definition SHA256_compress :: "u8 list \<Rightarrow> u32 list \<Rightarrow> u32 list" where
  "SHA256_compress block H =
     (let W = schedule_word (rot2 7 18 3) (rot2 17 19 10) (\<lambda>t. of_nat (be_val (take 4 (drop (4 * t) block))))
      in map2 (+) H (vars_list (working (rot3 2 13 22) (rot3 6 11 25) SHA256_K W (list_vars H) 64)))"

definition SHA256 :: "u8 list \<Rightarrow> u8 list" where
  "SHA256 msg = concat (map (\<lambda>w. be_bytes 4 (unat w)) (foldl (\<lambda>H b. SHA256_compress b H) SHA256_H0 (chop 64 (pad 64 8 msg))))"

definition SHA512_K :: "nat \<Rightarrow> u64" where
  "SHA512_K t = of_nat (root_bits 3 64 (primes ! t))"

definition SHA512_H0 :: "u64 list" where
  "SHA512_H0 = map (\<lambda>i. of_nat (root_bits 2 64 (primes ! i))) [0..<8]"

definition SHA512_compress :: "u8 list \<Rightarrow> u64 list \<Rightarrow> u64 list" where
  "SHA512_compress block H =
     (let W = schedule_word (rot2 1 8 7) (rot2 19 61 6) (\<lambda>t. of_nat (be_val (take 8 (drop (8 * t) block))))
      in map2 (+) H (vars_list (working (rot3 28 34 39) (rot3 14 18 41) SHA512_K W (list_vars H) 80)))"

definition SHA512 :: "u8 list \<Rightarrow> u8 list" where
  "SHA512 msg = concat (map (\<lambda>w. be_bytes 8 (unat w)) (foldl (\<lambda>H b. SHA512_compress b H) SHA512_H0 (chop 128 (pad 128 16 msg))))"

section \<open>The constants\<close>

lemma root_bits_eq:
  assumes "x ^ r \<le> p * 2 ^ (bits * r)" "p * 2 ^ (bits * r) < (x + 1) ^ r" 
  shows "root_bits r bits p = x mod 2 ^ bits"
proof -
  have r: "r \<noteq> 0"
  proof
    assume "r = 0"
    then show False using assms by simp
  qed
  have "(GREATEST x. x ^ r \<le> p * 2 ^ (bits * r)) = x"
  proof (rule Greatest_equality)
    show "x ^ r \<le> p * 2 ^ (bits * r)" by (rule assms(1))
  next
    fix y assume "y ^ r \<le> p * 2 ^ (bits * r)"
    then have "y ^ r < (x + 1) ^ r" using assms(2) by linarith
    then have "y < x + 1" using power_less_imp_less_base by blast
    then show "y \<le> x" by simp
  qed
  then show ?thesis by (simp add: root_bits_def)
qed

lemma primes_eq: "primes =
  [2, 3, 5, 7, 11, 13, 17, 19, 23, 29, 31, 37, 41, 43, 47, 53, 59, 61, 67, 71, 73, 79, 83, 89, 97, 101, 103, 107, 109, 113, 127, 131,
   137, 139, 149, 151, 157, 163, 167, 173, 179, 181, 191, 193, 197, 199, 211, 223, 227, 229, 233, 239, 241, 251, 257, 263, 269, 271,
   277, 281, 283, 293, 307, 311, 313, 317, 331, 337, 347, 349, 353, 359, 367, 373, 379, 383, 389, 397, 401, 409]"
  unfolding primes_def by (simp add: upt_rec_numeral)

text \<open>The roots themselves, with 32 or 64 bits after the point.\<close>

definition is_root :: "nat \<Rightarrow> nat \<Rightarrow> nat \<Rightarrow> nat \<Rightarrow> bool" where
  "is_root r bits p x \<longleftrightarrow> x ^ r \<le> p * 2 ^ (bits * r) \<and> p * 2 ^ (bits * r) < (x + 1) ^ r"

lemma roots_bits: "list_all2 (is_root r bits) ps xs \<Longrightarrow> map (root_bits r bits) ps = map (\<lambda>x. x mod 2 ^ bits) xs"
  by (induction rule: list_all2_induct) (auto simp: is_root_def intro: root_bits_eq)

lemma roots_nth:
  assumes "list_all2 (is_root r bits) (take n primes) xs" "i < n" "n \<le> length primes"
  shows "root_bits r bits (primes ! i) = xs ! i mod 2 ^ bits" "i < length xs"
proof -
  have l: "length xs = n" using list_all2_lengthD [OF assms(1)] assms(3) by simp
  then show "i < length xs" using assms(2) by simp
  have "map (root_bits r bits) (take n primes) ! i = map (\<lambda>x. x mod 2 ^ bits) xs ! i" using roots_bits [OF assms(1)] by simp
  then show "root_bits r bits (primes ! i) = xs ! i mod 2 ^ bits" using l assms(2,3) by simp
qed

definition roots3_32 :: "nat list" where
  "roots3_32 =
  [5411319704, 6194414737, 7344290767, 8215976869, 9551921755, 10098905585, 11043570340, 11460697813,
   12214315672, 13195500289, 13492127166, 14311783875, 14809980276, 15046980094, 15499789991, 16133124468,
   16720292289, 16907126662, 17444216262, 17784676812, 17950125167, 18429019306, 18734950876, 19175934170,
   19734090066, 20001703533, 20132865992, 20390182855, 20516441075, 20764397895, 21588763473, 21813078375,
   22141143685, 22248366392, 22769593852, 22871018771, 23170020180, 23461497531, 23651862830, 23931792517,
   24205322401, 24295138891, 24734567280, 24820601251, 24990902297, 25075189284, 25569408389, 26045227120,
   26200031510, 26276752392, 26428864332, 26653801653, 26727943347, 27092625994, 27306805839, 27517677555,
   27725365998, 27793908591, 27997534228, 28131656200, 28198240250, 28526537963, 28973835255, 29099129074]"

lemma roots3_32_ok: "list_all2 (is_root 3 32) (take 64 primes) roots3_32"
  by (simp add: primes_eq roots3_32_def is_root_def)

definition roots2_32 :: "nat list" where
  "roots2_32 =
  [6074000999, 7439101573, 9603838834, 11363415354, 14244795007, 15485724812, 17708603819, 18721328409]"

lemma roots2_32_ok: "list_all2 (is_root 2 32) (take 8 primes) roots2_32"
  by (simp add: primes_eq roots2_32_def is_root_def)

definition roots3_64 :: "nat list" where
  "roots3_64 =
  [23241441160490167842, 26604808713878332877, 31543488660544240431, 35287351959220771772, 41025191555757552952,
   43374469216020582425, 47431773444313272219, 49223322299838333208, 52460086356995146306, 56674242196778545086,
   57948244932766773900, 61468643694135456994, 63608380943893236079, 64626287408284341937, 66571091106846937653,
   69291241975837173396, 71813108563482594002, 72615556083564357091, 74922338351982630325, 76384605279477341285,
   77095200552867529333, 79152035218479047811, 80466001307761769428, 82360010132597855157, 84757271453788200875,
   85906662539289440784, 86470001012957192511, 87575168524888248036, 88117443448470540226, 89182409882623190821,
   92723033081372705391, 93686458245878541936, 95095488024300105724, 95556006044611561766, 97794660939065469677,
   98230277650290947039, 99514478923103560670, 100766364611844223656, 101583977345534766822, 102786266195516601659,
   103961068102722061156, 104346826991781163009, 106234157551817627537, 106603670640207904304, 107335108066752287256,
   107697117917222381840, 109819772810290077738, 111863398698143437240, 112528278492720320712, 112857792170093030227,
   113511107980111571865, 114477206417490790568, 114795642568024087139, 116361942610802215627, 117281838038729876339,
   118187525164200278179, 119079540232616391420, 119373928427484032864, 120248493880617511794, 120824543361758411244,
   121110519679094562344, 122520547622920568297, 124441674862916172053, 124979807718728684331, 125247145020423037340,
   125778422408467759623, 127603441353585912606, 128369846764518166904, 129627222056361226170, 129875788766833580198,
   130370087684295691694, 131104582549941012251, 132071287192121802116, 132787134709014930579, 133495346155087314620,
   133963344184962190668, 134659270149180113590, 135576127461610847786, 136029942151059536620, 136928597060811708439]"

lemma roots3_64_ok: "list_all2 (is_root 3 64) (take 80 primes) roots3_64"
  by (simp add: primes_eq roots3_64_def is_root_def)

definition roots2_64 :: "nat list" where
  "roots2_64 =
  [26087635650665564424, 31950697969885030203, 41248173712355948587, 48805497317890012913,
   61180928696206656209, 66510681623121259551, 76057874264641092971, 80407493254657745273]"

lemma roots2_64_ok: "list_all2 (is_root 2 64) (take 8 primes) roots2_64"
  by (simp add: primes_eq roots2_64_def is_root_def)

lemma root_const:
  assumes "list_all2 (is_root r bits) (take n primes) xs" "map (\<lambda>x. of_nat (x mod 2 ^ bits)) xs = ks" "i < n" "n \<le> length primes"
  shows "of_nat (root_bits r bits (primes ! i)) = ks ! i"
  using roots_nth [OF assms(1,3,4)] unfolding assms(2) [symmetric] by simp

lemma length_primes: "length primes = 80"
  by (simp add: primes_eq)

lemma SHA256_K_eq: "t < 64 \<Longrightarrow> SHA256_K t = k256 ! t"
  unfolding SHA256_K_def by (rule root_const [OF roots3_32_ok]) (simp_all add: length_primes roots3_32_def k256_def)

lemma SHA512_K_eq: "t < 80 \<Longrightarrow> SHA512_K t = K512 ! t"
  unfolding SHA512_K_def by (rule root_const [OF roots3_64_ok]) (simp_all add: length_primes roots3_64_def K512_def)

lemma SHA256_H0_eq: "SHA256_H0 = c_state (sha256_init ctx)"
proof (rule nth_equalityI)
  fix i assume "i < length SHA256_H0"
  then have i: "i < 8" by (simp add: SHA256_H0_def)
  have "of_nat (root_bits 2 32 (primes ! i)) = c_state (sha256_init ctx) ! i"
    by (rule root_const [OF roots2_32_ok _ i]) (simp_all add: length_primes roots2_32_def sha256_init_def)
  then show "SHA256_H0 ! i = c_state (sha256_init ctx) ! i" using i by (simp add: SHA256_H0_def)
qed (simp add: SHA256_H0_def sha256_init_def)

lemma SHA512_H0_eq: "SHA512_H0 = d_state (sha512_init ctx)"
proof (rule nth_equalityI)
  fix i assume "i < length SHA512_H0"
  then have i: "i < 8" by (simp add: SHA512_H0_def)
  have "of_nat (root_bits 2 64 (primes ! i)) = d_state (sha512_init ctx) ! i"
    by (rule root_const [OF roots2_64_ok _ i]) (simp_all add: length_primes roots2_64_def sha512_init_def)
  then show "SHA512_H0 ! i = d_state (sha512_init ctx) ! i" using i by (simp add: SHA512_H0_def)
qed (simp add: SHA512_H0_def sha512_init_def)

end
