(* ===== verification/ShaProps.thy ===== *)
theory ShaProps
  imports ShaSpec
begin

text \<open>
  The hash functions compute what the standard says. The locale \<open>block_stream\<close> is what a hash context promises: bytes are
  collected into blocks, and each full block is compressed; both contexts are interpretations of it.
\<close>

section \<open>Compression\<close>

lemma rot_shift:
  fixes x :: "'a::len word"
  assumes "0 < n" "n < LENGTH('a)"
  shows "drop_bit n x OR push_bit (LENGTH('a) - n) x = word_rotr n x"
proof (rule bit_word_eqI)
  fix m assume m: "m < LENGTH('a)"
  show "bit (drop_bit n x OR push_bit (LENGTH('a) - n) x) m = bit (word_rotr n x) m"
  proof (cases "m + n < LENGTH('a)")
    case True
    then show ?thesis using m assms
      by (auto simp: bit_or_iff bit_drop_bit_eq bit_push_bit_iff bit_word_rotr_iff add.commute)
  next
    case False
    then have "(m + n) mod LENGTH('a) = m + n - LENGTH('a)" using m assms by (simp add: mod_if)
    moreover have "\<not> bit x (m + n)" using False bit_imp_le_length [of x "m + n"] by auto
    moreover have "m - (LENGTH('a) - n) = m + n - LENGTH('a)" using assms False by simp
    ultimately show ?thesis using m assms False
      by (auto simp: bit_or_iff bit_drop_bit_eq bit_push_bit_iff bit_word_rotr_iff add.commute)
  qed
qed

lemma sha256_funs: "EP0 = rot3 2 13 22" "EP1 = rot3 6 11 25" "SIG0 = rot2 7 18 3" "SIG1 = rot2 17 19 10" "CH = sha_Ch" "MAJ = sha_Maj"
proof -
  have r: "0 < n \<Longrightarrow> n < 32 \<Longrightarrow> ROTRIGHT x n = word_rotr n x" for n x using rot_shift [of n x] by (simp add: ROTRIGHT_def)
  show "EP0 = rot3 2 13 22" "EP1 = rot3 6 11 25" "SIG0 = rot2 7 18 3" "SIG1 = rot2 17 19 10" "CH = sha_Ch" "MAJ = sha_Maj"
    by (simp_all add: fun_eq_iff EP0_def EP1_def SIG0_def SIG1_def CH_def MAJ_def rot3_def rot2_def sha_Ch_def sha_Maj_def r)
qed

lemma sha512_funs: "SIGMA0 = rot3 28 34 39" "SIGMA1 = rot3 14 18 41" "sigma0 = rot2 1 8 7" "sigma1 = rot2 19 61 6" "Ch = sha_Ch" "Maj = sha_Maj"
proof -
  have r: "0 < n \<Longrightarrow> n < 64 \<Longrightarrow> ROTR x n = word_rotr n x" for n x using rot_shift [of n x] by (simp add: ROTR_def)
  show "SIGMA0 = rot3 28 34 39" "SIGMA1 = rot3 14 18 41" "sigma0 = rot2 1 8 7" "sigma1 = rot2 19 61 6" "Ch = sha_Ch" "Maj = sha_Maj"
    by (simp_all add: fun_eq_iff SIGMA0_def SIGMA1_def sigma0_def sigma1_def Ch_def Maj_def rot3_def rot2_def sha_Ch_def sha_Maj_def r)
qed

text \<open>Bytes put together by shifts are the number they stand for.\<close>

definition low :: "nat \<Rightarrow> 'a::len word \<Rightarrow> bool" where
  "low k r \<longleftrightarrow> (\<forall>n. bit r n \<longrightarrow> n < k)"

lemma or_byte:
  fixes r :: "'a::len word" and b :: u8
  assumes "low k r"
  shows "push_bit k (ucast b) OR r = of_nat (unat b * 2 ^ k) + r" "low (k + 8) (push_bit k (ucast b) OR r)"
proof -
  have "push_bit k (ucast b) + r = push_bit k (ucast b) OR r"
    by (rule disjunctive_add) (use assms in \<open>auto simp: low_def bit_push_bit_iff\<close>)
  moreover have "push_bit k (ucast b :: 'a word) = of_nat (unat b * 2 ^ k)" by (simp add: push_bit_eq_mult)
  ultimately show "push_bit k (ucast b) OR r = of_nat (unat b * 2 ^ k) + r" by simp
  have "n < 8" if "bit b n" for n using bit_imp_le_length [OF that] by simp
  then show "low (k + 8) (push_bit k (ucast b) OR r)"
    using assms by (fastforce simp: low_def bit_or_iff bit_push_bit_iff bit_ucast_iff)
qed

lemma low_byte: "low 8 (ucast (b :: u8) :: 'a::len word)"
  using bit_imp_le_length [of b] by (auto simp: low_def bit_ucast_iff)

lemma take_drop_nth: "i + n \<le> length xs \<Longrightarrow> take n (drop i xs) = map (\<lambda>k. xs ! (i + k)) [0..<n]"
  by (rule nth_equalityI) auto

lemma upt4: "[0..<4] = [0, 1, 2, 3]" and upt8: "[0..<8] = [0, 1, 2, 3, 4, 5, 6, 7]"
  by (simp_all add: upt_rec)

lemma sha256_load_nth:
  assumes "length data = 64" "i < 16"
  shows "sha256_load data ! i = of_nat (be_val (take 4 (drop (4 * i) data)))"
proof -
  let ?b = "\<lambda>k. data ! (4 * i + k)"
  note l0 = low_byte [of "?b 3", where 'a = 32]
  note l1 = or_byte [OF l0, of "?b 2"]
  note l2 = or_byte [OF l1(2), of "?b 1"]
  note l3 = or_byte [OF l2(2), of "?b 0"]
  have "be_val (take 4 (drop (4 * i) data)) = unat (?b 0) * 2 ^ 24 + (unat (?b 1) * 2 ^ 16 + (unat (?b 2) * 2 ^ 8 + unat (?b 3)))"
    using take_drop_nth [of "4 * i" 4 data] assms by (simp add: be_val_def upt4)
  then show ?thesis
    using l3(1) l2(1) l1(1) assms(2) by (simp add: sha256_load_def Let_def)
qed

lemma sha512_load_nth:
  assumes "length data = 128" "i < 16"
  shows "sha512_load data ! i = of_nat (be_val (take 8 (drop (8 * i) data)))"
proof -
  let ?b = "\<lambda>k. data ! (8 * i + k)"
  note l0 = low_byte [of "?b 7", where 'a = 64]
  note l1 = or_byte [OF l0, of "?b 6"]
  note l2 = or_byte [OF l1(2), of "?b 5"]
  note l3 = or_byte [OF l2(2), of "?b 4"]
  note l4 = or_byte [OF l3(2), of "?b 3"]
  note l5 = or_byte [OF l4(2), of "?b 2"]
  note l6 = or_byte [OF l5(2), of "?b 1"]
  note l7 = or_byte [OF l6(2), of "?b 0"]
  have "be_val (take 8 (drop (8 * i) data)) = unat (?b 0) * 2 ^ 56 + (unat (?b 1) * 2 ^ 48 + (unat (?b 2) * 2 ^ 40 + (unat (?b 3) * 2 ^ 32 +
      (unat (?b 4) * 2 ^ 24 + (unat (?b 5) * 2 ^ 16 + (unat (?b 6) * 2 ^ 8 + unat (?b 7)))))))"
    using take_drop_nth [of "8 * i" 8 data] assms by (simp add: be_val_def upt8)
  then show ?thesis
    using l7(1) l6(1) l5(1) l4(1) l3(1) l2(1) l1(1) assms(2) by (simp add: sha512_load_def mult.commute [of i])
qed

text \<open>The array of the schedule holds the words of the schedule.\<close>

lemma sha256_extend_nth:
  assumes "16 \<le> length m" "\<forall>j < length m. m ! j = schedule_word SIG0 SIG1 M j"
  shows "i < length m + n \<Longrightarrow> sha256_extend n m ! i = schedule_word SIG0 SIG1 M i"
  using assms
proof (induction n arbitrary: m)
  case (Suc n)
  let ?l = "length m"
  let ?w = "SIG1 (m ! (?l - 2)) + m ! (?l - 7) + SIG0 (m ! (?l - 15)) + m ! (?l - 16)"
  have "?w = schedule_word SIG0 SIG1 M ?l"
    using Suc.prems(2,3) by (subst schedule_word.simps) simp
  then have "\<forall>j < length (m @ [?w]). (m @ [?w]) ! j = schedule_word SIG0 SIG1 M j"
    using Suc.prems(3) by (auto simp: nth_append less_Suc_eq)
  then show ?case using Suc.IH [of "m @ [?w]"] Suc.prems(1,2) by (simp add: Let_def)
qed simp

lemma sha512_extend_nth:
  assumes "16 \<le> length m" "\<forall>j < length m. m ! j = schedule_word sigma0 sigma1 M j"
  shows "i < length m + n \<Longrightarrow> sha512_extend n m ! i = schedule_word sigma0 sigma1 M i"
  using assms
proof (induction n arbitrary: m)
  case (Suc n)
  let ?l = "length m"
  let ?w = "sigma1 (m ! (?l - 2)) + m ! (?l - 7) + sigma0 (m ! (?l - 15)) + m ! (?l - 16)"
  have "?w = schedule_word sigma0 sigma1 M ?l"
    using Suc.prems(2,3) by (subst schedule_word.simps) simp
  then have "\<forall>j < length (m @ [?w]). (m @ [?w]) ! j = schedule_word sigma0 sigma1 M j"
    using Suc.prems(3) by (auto simp: nth_append less_Suc_eq)
  then show ?case using Suc.IH [of "m @ [?w]"] Suc.prems(1,2) by (simp add: Let_def)
qed simp

lemma sha256_rounds_eq:
  assumes "\<forall>i < 64. m ! i = W i"
  shows "i + n \<le> 64 \<Longrightarrow> sha256_rounds n i m (working EP0 EP1 SHA256_K W v i) = working EP0 EP1 SHA256_K W v (i + n)"
proof (induction n arbitrary: i)
  case (Suc n)
  have "sha256_round m i (working EP0 EP1 SHA256_K W v i) = working EP0 EP1 SHA256_K W v (Suc i)"
    using assms Suc.prems SHA256_K_eq [of i] by (simp add: sha256_round_def sha256_funs Let_def split: prod.splits)
  then show ?case using Suc.IH [of "Suc i"] Suc.prems by simp
qed simp

lemma sha512_rounds_eq:
  assumes "\<forall>i < 80. m ! i = W i"
  shows "i + n \<le> 80 \<Longrightarrow> sha512_rounds n i m (working SIGMA0 SIGMA1 SHA512_K W v i) = working SIGMA0 SIGMA1 SHA512_K W v (i + n)"
proof (induction n arbitrary: i)
  case (Suc n)
  have "sha512_round m i (working SIGMA0 SIGMA1 SHA512_K W v i) = working SIGMA0 SIGMA1 SHA512_K W v (Suc i)"
    using assms Suc.prems SHA512_K_eq [of i] by (simp add: sha512_round_def sha512_funs Let_def split: prod.splits)
  then show ?case using Suc.IH [of "Suc i"] Suc.prems by simp
qed simp

lemma list8: "length s = 8 \<Longrightarrow> s = [s ! 0, s ! 1, s ! 2, s ! 3, s ! 4, s ! 5, s ! 6, s ! 7]"
  by (rule nth_equalityI) (auto simp: less_Suc_eq numeral_eq_Suc)

lemma map2_list8:
  assumes "length s = 8"
  shows "map2 (+) s (vars_list (a, b, c, d, e, f, g, h)) =
    [s ! 0 + a, s ! 1 + b, s ! 2 + c, s ! 3 + d, s ! 4 + e, s ! 5 + f, s ! 6 + g, s ! 7 + h]"
  by (subst list8 [OF assms]) (simp add: vars_list_def)

lemma vars_cases:
  fixes v :: "'a vars"
  obtains a b c d e f g h where "v = (a, b, c, d, e, f, g, h)"
  by (cases v) auto

lemma sha256_transform_eq:
  assumes "length data = 64" "length st = 8"
  shows "sha256_transform data st = SHA256_compress data st" "length (sha256_transform data st) = 8"
proof -
  let ?M = "\<lambda>t. of_nat (be_val (take 4 (drop (4 * t) data)))" and ?m = "sha256_extend 48 (sha256_load data)"
  let ?W = "schedule_word SIG0 SIG1 ?M"
  have l: "length (sha256_load data) = 16" by (simp add: sha256_load_def)
  have "\<forall>j < 16. sha256_load data ! j = ?W j" using sha256_load_nth [OF assms(1)] by (simp add: schedule_word.simps)
  then have m: "\<forall>i < 64. ?m ! i = ?W i" using sha256_extend_nth [of "sha256_load data" ?M _ 48] l by simp
  have "sha256_rounds 64 0 ?m (list_vars st) = working EP0 EP1 SHA256_K ?W (list_vars st) 64"
    using sha256_rounds_eq [OF m, of 0 64 "list_vars st"] by simp
  moreover obtain a b c d e f g h where w: "working EP0 EP1 SHA256_K ?W (list_vars st) 64 = (a, b, c, d, e, f, g, h)" by (rule vars_cases)
  ultimately have "sha256_rounds 64 0 ?m (list_vars st) = (a, b, c, d, e, f, g, h)" by simp
  then show "sha256_transform data st = SHA256_compress data st"
    unfolding sha256_transform_def SHA256_compress_def Let_def list_vars_def [symmetric] sha256_funs [symmetric] w map2_list8 [OF assms(2)] by simp
  show "length (sha256_transform data st) = 8" by (simp add: sha256_transform_def Let_def split: prod.splits)
qed

lemma sha512_transform_eq:
  assumes "length data = 128" "length st = 8"
  shows "sha512_transform data st = SHA512_compress data st" "length (sha512_transform data st) = 8"
proof -
  let ?M = "\<lambda>t. of_nat (be_val (take 8 (drop (8 * t) data)))" and ?m = "sha512_extend 64 (sha512_load data)"
  let ?W = "schedule_word sigma0 sigma1 ?M"
  have l: "length (sha512_load data) = 16" by (simp add: sha512_load_def)
  have "\<forall>j < 16. sha512_load data ! j = ?W j" using sha512_load_nth [OF assms(1)] by (simp add: schedule_word.simps)
  then have m: "\<forall>i < 80. ?m ! i = ?W i" using sha512_extend_nth [of "sha512_load data" ?M _ 64] l by simp
  have "sha512_rounds 80 0 ?m (list_vars st) = working SIGMA0 SIGMA1 SHA512_K ?W (list_vars st) 80"
    using sha512_rounds_eq [OF m, of 0 80 "list_vars st"] by simp
  moreover obtain a b c d e f g h where w: "working SIGMA0 SIGMA1 SHA512_K ?W (list_vars st) 80 = (a, b, c, d, e, f, g, h)" by (rule vars_cases)
  ultimately have "sha512_rounds 80 0 ?m (list_vars st) = (a, b, c, d, e, f, g, h)" by simp
  then show "sha512_transform data st = SHA512_compress data st"
    unfolding sha512_transform_def SHA512_compress_def Let_def list_vars_def [symmetric] sha512_funs [symmetric] w map2_list8 [OF assms(2)] by simp
  show "length (sha512_transform data st) = 8" by (simp add: sha512_transform_def Let_def split: prod.splits)
qed

section \<open>Blocks\<close>

lemma chop_short: "length xs < n \<Longrightarrow> chop n xs = []"
  by (subst chop.simps) simp

lemma chop_one: "0 < n \<Longrightarrow> length xs = n \<Longrightarrow> chop n xs = [xs]"
  by (subst chop.simps) (simp add: chop_short)

lemma chop_Cons: "0 < n \<Longrightarrow> n \<le> length xs \<Longrightarrow> chop n xs = take n xs # chop n (drop n xs)"
  by (subst chop.simps) simp

definition rest :: "nat \<Rightarrow> 'a list \<Rightarrow> 'a list" where
  "rest n xs = drop (n * (length xs div n)) xs"

lemma length_rest: "length (rest n xs) = length xs mod n"
  by (simp add: rest_def minus_mult_div_eq_mod)

lemma rest_Cons: "0 < n \<Longrightarrow> n \<le> length xs \<Longrightarrow> rest n xs = rest n (drop n xs)"
proof -
  assume n: "0 < n" "n \<le> length xs"
  have "n * (length xs div n) = n * ((length xs - n) div n) + n" using le_div_geq [OF n] by simp
  then show ?thesis by (simp add: rest_def add.commute)
qed

lemma chop_append:
  assumes "0 < n"
  shows "chop n (xs @ ys) = chop n xs @ chop n (rest n xs @ ys)"
proof (induction "length xs" arbitrary: xs rule: less_induct)
  case less
  show ?case
  proof (cases "length xs < n")
    case True
    then show ?thesis by (simp add: chop_short rest_def)
  next
    case False
    have "chop n (xs @ ys) = take n xs # chop n (drop n xs @ ys)" using chop_Cons [OF assms, of "xs @ ys"] False by simp
    also have "chop n (drop n xs @ ys) = chop n (drop n xs) @ chop n (rest n (drop n xs) @ ys)"
      by (rule less) (use assms False in auto)
    finally show ?thesis using chop_Cons [OF assms, of xs] rest_Cons [OF assms, of xs] False by simp
  qed
qed

locale block_stream =
  fixes good :: "'c \<Rightarrow> bool" and byte :: "'c \<Rightarrow> u8 \<Rightarrow> 'c" and buf :: "'c \<Rightarrow> u8 list" and bits :: "'c \<Rightarrow> u64"
    and state :: "'c \<Rightarrow> 's" and compress :: "u8 list \<Rightarrow> 's \<Rightarrow> 's" and B :: nat
  assumes B_pos: "0 < B"
    and good_byte: "good c \<Longrightarrow> good (byte c x)"
    and buf_short: "good c \<Longrightarrow> length (buf c) < B"
    and byte_more: "good c \<Longrightarrow> Suc (length (buf c)) < B \<Longrightarrow> buf (byte c x) = buf c @ [x] \<and> state (byte c x) = state c"
    and byte_full: "good c \<Longrightarrow> Suc (length (buf c)) = B \<Longrightarrow> buf (byte c x) = [] \<and> state (byte c x) = compress (buf c @ [x]) (state c)"
    and byte_bits: "good c \<Longrightarrow> bits (byte c x) = bits c + 8"
begin

lemma absorb:
  assumes "good c"
  shows "good (foldl byte c xs) \<and> buf (foldl byte c xs) = rest B (buf c @ xs) \<and> bits (foldl byte c xs) = bits c + of_nat (8 * length xs) \<and>
    state (foldl byte c xs) = foldl (\<lambda>H b. compress b H) (state c) (chop B (buf c @ xs))"
  using assms
proof (induction xs arbitrary: c)
  case Nil
  then show ?case using buf_short [OF Nil] by (simp add: rest_def chop_short)
next
  case (Cons x xs)
  note IH = Cons.IH [OF good_byte [OF Cons.prems], of x]
  have bl: "bits (byte c x) + of_nat (8 * length xs) = bits c + of_nat (8 * length (x # xs))"
    using byte_bits [OF Cons.prems, of x] by (simp add: algebra_simps)
  show ?case
  proof (cases "Suc (length (buf c)) < B")
    case True
    then show ?thesis using byte_more [OF Cons.prems True, of x] IH bl by simp
  next
    case False
    then have f: "Suc (length (buf c)) = B" using buf_short [OF Cons.prems] by simp
    have td: "take B (buf c @ x # xs) = buf c @ [x]" "drop B (buf c @ x # xs) = xs" "B \<le> length (buf c @ x # xs)"
      unfolding f [symmetric] by simp_all
    have "chop B (buf c @ x # xs) = (buf c @ [x]) # chop B xs" unfolding chop_Cons [OF B_pos td(3)] td(1,2) ..
    moreover have "rest B (buf c @ x # xs) = rest B xs" unfolding rest_Cons [OF B_pos td(3)] td(2) ..
    ultimately show ?thesis using byte_full [OF Cons.prems f, of x] IH bl by simp
  qed
qed

text \<open>A stream that was empty before: the full blocks are compressed in order, the rest is kept.\<close>

lemma absorb_all:
  assumes "good c" "buf c = []" "bits c = 0"
  shows "good (foldl byte c xs)" "buf (foldl byte c xs) = rest B xs" "bits (foldl byte c xs) = of_nat (8 * length xs)"
    "state (foldl byte c xs) = foldl (\<lambda>H b. compress b H) (state c) (chop B xs)"
  using absorb [OF assms(1), of xs] assms(2,3) by simp_all

end

definition good256 :: "sha256_ctx \<Rightarrow> bool" where
  "good256 c \<longleftrightarrow> length (c_data c) = 64 \<and> c_datalen c < 64 \<and> length (c_state c) = 8"

definition good512 :: "sha512_ctx \<Rightarrow> bool" where
  "good512 c \<longleftrightarrow> length (d_data c) = 128 \<and> d_datalen c < 128 \<and> length (d_state c) = 8"

lemma take_snoc_update: "n < length xs \<Longrightarrow> take (Suc n) (xs[n := x]) = take n xs @ [x]"
  by (simp add: take_Suc_conv_app_nth)

interpretation s256: block_stream good256 sha256_byte "\<lambda>c. take (c_datalen c) (c_data c)" "\<lambda>c. c_bitlen c + of_nat (c_datalen c * 8)"
  c_state SHA256_compress 64
proof unfold_locales
  fix c x assume g: "good256 c"
  let ?d = "(c_data c)[c_datalen c := x]"
  have d: "length ?d = 64" "length (c_state c) = 8" using g by (simp_all add: good256_def)
  note tr = sha256_transform_eq [OF d]
  show "good256 (sha256_byte c x)" using g tr(2) by (auto simp: good256_def sha256_byte_def Let_def)
  show "length (take (c_datalen c) (c_data c)) < 64" using g by (simp add: good256_def)
  show "c_bitlen (sha256_byte c x) + of_nat (c_datalen (sha256_byte c x) * 8) = c_bitlen c + of_nat (c_datalen c * 8) + 8"
    using g by (auto simp: good256_def sha256_byte_def Let_def algebra_simps)
  show "Suc (length (take (c_datalen c) (c_data c))) < 64 \<Longrightarrow>
      take (c_datalen (sha256_byte c x)) (c_data (sha256_byte c x)) = take (c_datalen c) (c_data c) @ [x] \<and> c_state (sha256_byte c x) = c_state c"
    using g take_snoc_update [of "c_datalen c" "c_data c" x] by (simp add: good256_def sha256_byte_def Let_def)
  show "Suc (length (take (c_datalen c) (c_data c))) = 64 \<Longrightarrow>
      take (c_datalen (sha256_byte c x)) (c_data (sha256_byte c x)) = [] \<and>
      c_state (sha256_byte c x) = SHA256_compress (take (c_datalen c) (c_data c) @ [x]) (c_state c)"
    using g tr(1) take_snoc_update [of "c_datalen c" "c_data c" x] by (simp add: good256_def sha256_byte_def Let_def)
qed simp

interpretation s512: block_stream good512 sha512_byte "\<lambda>c. take (d_datalen c) (d_data c)" "\<lambda>c. d_bitlen c + of_nat (d_datalen c * 8)"
  d_state SHA512_compress 128
proof unfold_locales
  fix c x assume g: "good512 c"
  let ?d = "(d_data c)[d_datalen c := x]"
  have d: "length ?d = 128" "length (d_state c) = 8" using g by (simp_all add: good512_def)
  note tr = sha512_transform_eq [OF d]
  show "good512 (sha512_byte c x)" using g tr(2) by (auto simp: good512_def sha512_byte_def Let_def)
  show "length (take (d_datalen c) (d_data c)) < 128" using g by (simp add: good512_def)
  show "d_bitlen (sha512_byte c x) + of_nat (d_datalen (sha512_byte c x) * 8) = d_bitlen c + of_nat (d_datalen c * 8) + 8"
    using g by (auto simp: good512_def sha512_byte_def Let_def algebra_simps)
  show "Suc (length (take (d_datalen c) (d_data c))) < 128 \<Longrightarrow>
      take (d_datalen (sha512_byte c x)) (d_data (sha512_byte c x)) = take (d_datalen c) (d_data c) @ [x] \<and> d_state (sha512_byte c x) = d_state c"
    using g take_snoc_update [of "d_datalen c" "d_data c" x] by (simp add: good512_def sha512_byte_def Let_def)
  show "Suc (length (take (d_datalen c) (d_data c))) = 128 \<Longrightarrow>
      take (d_datalen (sha512_byte c x)) (d_data (sha512_byte c x)) = [] \<and>
      d_state (sha512_byte c x) = SHA512_compress (take (d_datalen c) (d_data c) @ [x]) (d_state c)"
    using g tr(1) take_snoc_update [of "d_datalen c" "d_data c" x] by (simp add: good512_def sha512_byte_def Let_def)
qed simp

section \<open>Bytes of a number\<close>

lemma shifted_byte:
  assumes "8 * j + 8 \<le> LENGTH('a)"
  shows "(ucast (drop_bit (8 * j) (of_nat v :: 'a::len word)) :: u8) = of_nat (v div 256 ^ j)"
    "(ucast (drop_bit (8 * j) (of_nat v :: 'a::len word) AND 0xFF) :: u8) = of_nat (v div 256 ^ j)"
proof -
  have p: "(256 :: nat) ^ j = 2 ^ (8 * j)" by (simp add: power_mult)
  have m: "(0xFF :: 'a word) = mask 8" by (simp add: mask_eq_exp_minus_1)
  have b: "bit (of_nat (v div 256 ^ j) :: u8) n \<longleftrightarrow> n < 8 \<and> bit v (8 * j + n)" for n
    unfolding p drop_bit_eq_div [symmetric] by (simp add: bit_of_nat_iff bit_drop_bit_eq)
  show "(ucast (drop_bit (8 * j) (of_nat v :: 'a word)) :: u8) = of_nat (v div 256 ^ j)"
    by (rule bit_word_eqI, unfold b) (use assms in \<open>simp add: bit_ucast_iff bit_drop_bit_eq bit_of_nat_iff\<close>)
  show "(ucast (drop_bit (8 * j) (of_nat v :: 'a word) AND 0xFF) :: u8) = of_nat (v div 256 ^ j)"
    unfolding m by (rule bit_word_eqI, unfold b) (use assms in \<open>auto simp: bit_ucast_iff bit_drop_bit_eq bit_of_nat_iff bit_and_iff bit_mask_iff\<close>)
qed

lemma be_bytes_8: "be_bytes 8 v = [ucast (drop_bit 56 w), ucast (drop_bit 48 w), ucast (drop_bit 40 w), ucast (drop_bit 32 w),
    ucast (drop_bit 24 w), ucast (drop_bit 16 w), ucast (drop_bit 8 w), ucast w]" if "w = (of_nat v :: u64)"
proof -
  have s: "j \<le> 7 \<Longrightarrow> (of_nat (v div 256 ^ j) :: u8) = ucast (drop_bit (8 * j) w)" for j
    using shifted_byte(1) [of j v, where 'a = 64] that by simp
  show ?thesis using s [of 0] s [of 1] s [of 2] s [of 3] s [of 4] s [of 5] s [of 6] s [of 7] by (simp add: be_bytes_def upt8)
qed

lemma be_bytes_8': "map (\<lambda>i. ucast (drop_bit ((7 - i) * 8) (of_nat v :: u64) AND 0xFF)) [0..<8] = be_bytes 8 v"
  unfolding be_bytes_def
proof (intro map_cong refl)
  fix i :: nat assume "i \<in> set [0..<8]"
  then have "8 * (7 - i) + 8 \<le> LENGTH(64)" by simp
  then show "ucast (drop_bit ((7 - i) * 8) (of_nat v :: u64) AND 0xFF) = (of_nat (v div 256 ^ (8 - 1 - i)) :: u8)"
    using shifted_byte(2) [of "7 - i" v, where 'a = 64] by (simp add: mult.commute)
qed

lemma concat_bytes: "concat (map (\<lambda>w. map (g w) [0..<k]) ws) = map (\<lambda>n. g (ws ! (n div k)) (n mod k)) [0..<k * length ws]"
proof (induction ws rule: rev_induct)
  case (snoc w ws)
  have "[0..<k * length (ws @ [w])] = [0..<k * length ws] @ map (\<lambda>n. k * length ws + n) [0..<k]"
    using upt_add_eq_append [of 0 "k * length ws" k] map_add_upt [of "k * length ws" k] by (simp add: add.commute)
  moreover have "map (\<lambda>n. g ((ws @ [w]) ! (n div k)) (n mod k)) [0..<k * length ws] = map (\<lambda>n. g (ws ! (n div k)) (n mod k)) [0..<k * length ws]"
    by (auto simp: nth_append less_mult_imp_div_less mult.commute [of k])
  moreover have "map (\<lambda>n. g ((ws @ [w]) ! (n div k)) (n mod k)) (map (\<lambda>n. k * length ws + n) [0..<k]) = map (g w) [0..<k]"
    by (auto simp: nth_append)
  ultimately show ?case using snoc by simp
qed simp

lemma sha256_digest_eq: "length st = 8 \<Longrightarrow> sha256_digest st = concat (map (\<lambda>w. be_bytes 4 (unat w)) st)"
proof -
  assume l: "length st = 8"
  have "ucast (drop_bit (24 - (n mod 4) * 8) w AND 0xFF) = (of_nat (unat w div 256 ^ (4 - 1 - n mod 4)) :: u8)" for n and w :: u32
  proof -
    have "24 - (n mod 4) * 8 = 8 * (3 - n mod 4)" by simp
    moreover have "(ucast (drop_bit (8 * (3 - n mod 4)) (of_nat (unat w) :: u32) AND 0xFF) :: u8) = of_nat (unat w div 256 ^ (3 - n mod 4))"
      by (rule shifted_byte) simp
    ultimately show ?thesis by simp
  qed
  then show ?thesis using l concat_bytes [of "\<lambda>w i. of_nat (unat w div 256 ^ (4 - 1 - i)) :: u8" 4 st] by (simp add: sha256_digest_def be_bytes_def)
qed

lemma sha512_digest_eq: "length st = 8 \<Longrightarrow> sha512_digest st = concat (map (\<lambda>w. be_bytes 8 (unat w)) st)"
proof -
  assume l: "length st = 8"
  have "ucast (drop_bit (56 - (n mod 8) * 8) w AND 0xFF) = (of_nat (unat w div 256 ^ (8 - 1 - n mod 8)) :: u8)" for n and w :: u64
  proof -
    have "56 - (n mod 8) * 8 = 8 * (7 - n mod 8)" by simp
    moreover have "(ucast (drop_bit (8 * (7 - n mod 8)) (of_nat (unat w) :: u64) AND 0xFF) :: u8) = of_nat (unat w div 256 ^ (7 - n mod 8))"
      by (rule shifted_byte) simp
    ultimately show ?thesis by simp
  qed
  then show ?thesis using l concat_bytes [of "\<lambda>w i. of_nat (unat w div 256 ^ (8 - 1 - i)) :: u8" 8 st] by (simp add: sha512_digest_def be_bytes_def)
qed

section \<open>SHA-256\<close>

lemma sha256_update_loop_ok:
  assumes "len < 2 ^ 32" "len \<le> length data" "unat i \<le> len"
  shows "sha256_update_loop data len i ctx = Some (foldl sha256_byte ctx (drop (unat i) (take len data)))"
  using assms(3)
proof (induction "len - unat i" arbitrary: i ctx rule: less_induct)
  case less
  show ?case
  proof (cases "unat i < len")
    case False
    then show ?thesis using less.prems assms(2) by (simp add: sha256_update_loop.simps)
  next
    case True
    have u: "unat (i + 1) = unat i + 1"
    proof -
      have "unat i + 1 < 2 ^ 32" using True assms(1) by linarith
      then show ?thesis by (simp add: unat_word_ariths)
    qed
    have "drop (unat i) (take len data) = data ! unat i # drop (unat i + 1) (take len data)"
      using True assms(2) Cons_nth_drop_Suc [of "unat i" "take len data"] by simp
    moreover have "sha256_update_loop data len (i + 1) (sha256_byte ctx (data ! unat i)) =
        Some (foldl sha256_byte (sha256_byte ctx (data ! unat i)) (drop (unat i + 1) (take len data)))"
      using less.hyps [of "i + 1"] True u by simp
    ultimately show ?thesis using True by (simp add: sha256_update_loop.simps [of data len i])
  qed
qed

text \<open>The 32-bit counter never reaches a length of \<open>2 ^ 32\<close> or more.\<close>

lemma sha256_update_loop_long:
  assumes "2 ^ 32 \<le> len"
  shows "sha256_update_loop data len i ctx = None"
proof -
  have "len < 2 ^ 32" if "sha256_update_loop data len i ctx = Some y" for y
    using that
  proof (rule sha256_update_loop.raw_induct [rotated])
    fix f :: "u8 list \<Rightarrow> nat \<Rightarrow> u32 \<Rightarrow> sha256_ctx \<Rightarrow> sha256_ctx option" and data len i ctx y
    assume IH: "\<And>data len i ctx y. f data len i ctx = Some y \<Longrightarrow> len < 2 ^ 32"
      and b: "(if unat i < len then f data len (i + 1) (sha256_byte ctx (data ! unat i)) else Some ctx) = Some y"
    show "len < 2 ^ 32"
    proof (cases "unat i < len")
      case True
      then show ?thesis using b IH by simp
    next
      case False
      moreover have "unat i < 2 ^ LENGTH(32)" by (rule unsigned_less)
      ultimately show ?thesis by simp
    qed
  qed
  then show ?thesis using assms by (cases "sha256_update_loop data len i ctx") force+
qed

lemma zero_fill_take:
  assumes "length d = B" "n < m" "m \<le> B"
  shows "take m (zero_fill (Suc n) m (d[n := x])) = take n d @ x # replicate (m - Suc n) 0" "length (zero_fill (Suc n) m (d[n := x])) = B"
proof -
  let ?l = "take n d @ x # replicate (m - Suc n) 0"
  have "length ?l = m" using assms by simp
  moreover have z: "zero_fill (Suc n) m (d[n := x]) = ?l @ drop m d"
    using assms take_snoc_update [of n d x] by (simp add: zero_fill_def max_def)
  ultimately show "take m (zero_fill (Suc n) m (d[n := x])) = ?l" "length (zero_fill (Suc n) m (d[n := x])) = B"
    unfolding z using assms by (simp_all only: take_append, simp_all)
qed

lemma chop_two: "0 < n \<Longrightarrow> length a = n \<Longrightarrow> length b = n \<Longrightarrow> chop n (a @ b) = [a, b]"
  using chop_append [of n a b] chop_one [of n a] chop_one [of n b] by (simp add: rest_def)

text \<open>The number of zeros, from the length of the last partial block.\<close>

lemma pad_length:
  fixes B l len :: nat
  assumes "l < B"
  shows "(B - (len + 1 + l) mod B) mod B = (if len mod B + l < B then B - 1 - l - len mod B else 2 * B - 1 - l - len mod B)"
proof -
  define r where "r = len mod B"
  have r: "r < B" using assms by (simp add: r_def)
  have "(len + 1 + l) mod B = (r + (1 + l)) mod B" unfolding r_def mod_add_left_eq by (simp only: add.assoc)
  also have "\<dots> = (if r + 1 + l < B then r + 1 + l else r + 1 + l - B)" using r assms by (simp add: mod_if add.assoc)
  finally have m: "(len + 1 + l) mod B = (if r + 1 + l < B then r + 1 + l else r + 1 + l - B)" .
  show ?thesis
  proof (cases "r + 1 + l < B")
    case True
    then show ?thesis using m r unfolding r_def [symmetric] by simp
  next
    case False
    then have e: "(len + 1 + l) mod B = r + 1 + l - B" using m by simp
    show ?thesis
    proof (cases "r + l < B")
      case True
      then have "r + 1 + l - B = 0" using False by simp
      then show ?thesis using True False unfolding e r_def [symmetric] by simp
    next
      case f: False
      then have "0 < r + 1 + l - B" "B - (r + 1 + l - B) = 2 * B - 1 - l - r" using r assms by auto
      then show ?thesis using f r assms unfolding e r_def [symmetric] by simp
    qed
  qed
qed

lemma pad_length_64: "(64 - (len + 1 + 8) mod 64) mod 64 = (if len mod 64 < 56 then 55 - len mod 64 else 119 - len mod 64)" for len :: nat
  by (subst pad_length) auto

lemma pad_length_128: "(128 - (len + 1 + 16) mod 128) mod 128 = (if len mod 128 < 112 then 111 - len mod 128 else 239 - len mod 128)" for len :: nat
  by (subst pad_length) auto

definition sha256_hash :: "u32 list \<Rightarrow> u8 list list \<Rightarrow> u8 list" where
  "sha256_hash H bs = concat (map (\<lambda>w. be_bytes 4 (unat w)) (foldl (\<lambda>H b. SHA256_compress b H) H bs))"

lemma sha256_finish_ok:
  assumes "good256 c" "take (c_datalen c) (c_data c) = r" "c_bitlen c + of_nat (c_datalen c * 8) = of_nat (8 * len)" "length r = len mod 64"
  shows "snd (sha256_finish c) = sha256_hash (c_state c)
    (chop 64 (r @ [0x80] @ replicate ((64 - (len + 1 + 8) mod 64) mod 64) 0 @ be_bytes 8 (8 * len)))"
proof -
  let ?n = "c_datalen c" and ?be = "be_bytes 8 (8 * len)"
  have g: "length (c_data c) = 64" "?n < 64" "length (c_state c) = 8" using assms(1) by (simp_all add: good256_def)
  have n: "?n = len mod 64" using assms(2,4) g by auto
  note be = be_bytes_8 [OF assms(3)]
  have lb: "length ?be = 8" by (simp add: be_bytes_def)
  show ?thesis
  proof (cases "?n < 56")
    case True
    let ?blk = "r @ 0x80 # replicate (55 - ?n) 0 @ ?be"
    have lblk: "length ?blk = 64" using True assms(4) n lb by simp
    note zf = zero_fill_take [OF g(1) True, of "0x80"]
    have "snd (sha256_finish c) = sha256_digest (sha256_transform ?blk (c_state c))"
      unfolding sha256_finish_def Let_def be using True zf assms(2,3) by simp
    moreover have "chop 64 (r @ [0x80] @ replicate ((64 - (len + 1 + 8) mod 64) mod 64) 0 @ ?be) = [?blk]"
      unfolding pad_length_64 using True n chop_one [of 64 ?blk] lblk by simp
    ultimately show ?thesis using sha256_transform_eq [OF lblk g(3)] sha256_digest_eq by (simp add: sha256_hash_def)
  next
    case False
    let ?b1 = "r @ 0x80 # replicate (63 - ?n) 0" and ?b2 = "replicate 56 0 @ ?be"
    have l: "length ?b1 = 64" "length ?b2 = 64" using False assms(4) n g(2) lb by auto
    note zf = zero_fill_take [OF g(1) g(2) order_refl, of "0x80"]
    have z: "zero_fill (Suc ?n) 64 ((c_data c)[?n := 0x80]) = ?b1" using zf assms(2) by simp
    have "snd (sha256_finish c) = sha256_digest (sha256_transform ?b2 (sha256_transform ?b1 (c_state c)))"
      unfolding sha256_finish_def Let_def be using False z assms(3) by simp
    moreover have "r @ [0x80] @ replicate ((64 - (len + 1 + 8) mod 64) mod 64) 0 @ ?be = ?b1 @ ?b2"
      unfolding pad_length_64 using False n g(2) by (simp add: replicate_add [symmetric])
    moreover have "chop 64 (?b1 @ ?b2) = [?b1, ?b2]" by (rule chop_two) (use l in auto)
    ultimately show ?thesis
      using sha256_transform_eq [OF l(1) g(3)] sha256_transform_eq [OF l(2)] sha256_digest_eq by (simp add: sha256_hash_def)
  qed
qed

lemma sha256_init_good:
  assumes "length (c_data c) = 64"
  shows "good256 (sha256_init c)" "take (c_datalen (sha256_init c)) (c_data (sha256_init c)) = []"
    "c_bitlen (sha256_init c) + of_nat (c_datalen (sha256_init c) * 8) = 0" "c_state (sha256_init c) = SHA256_H0"
  using assms unfolding SHA256_H0_eq [of c] by (simp_all add: good256_def sha256_init_def)

lemma sha256_stream:
  assumes "length (c_data c) = 64"
  shows "snd (sha256_finish (foldl sha256_byte (sha256_init c) msg)) = SHA256 msg"
proof -
  note i = sha256_init_good [OF assms]
  note a = s256.absorb_all [OF i(1-3), of msg]
  have "chop 64 (pad 64 8 msg) = chop 64 msg @ chop 64 (rest 64 msg @ [0x80] @
      replicate ((64 - (length msg + 1 + 8) mod 64) mod 64) 0 @ be_bytes 8 (8 * length msg))"
    unfolding pad_def by (rule chop_append) simp
  then show ?thesis
    using sha256_finish_ok [OF a(1,2,3) length_rest] a(4) i(4) by (simp only: sha256_hash_def SHA256_def foldl_append)
qed

text \<open>C32: \<^verbatim>\<open>sha256\<close> computes the SHA-256 of the standard, constants included (the fraction bits of the roots of the first primes), for every
  message of less than \<open>2 ^ 32\<close> bytes and whatever the stack held before; for a longer one it never returns, since its 32-bit loop counter
  wraps; without data or without a place for the result nothing is written.\<close>

theorem sha256_correct:
  assumes "length (c_data stack) = 64"
  shows "(len < 2 ^ 32 \<and> len \<le> length data \<longrightarrow> sha256 stack (Some data) len (Some hash) = Some (Some (SHA256 (take len data)))) \<and>
    (2 ^ 32 \<le> len \<longrightarrow> sha256 stack (Some data) len (Some hash) = None) \<and>
    sha256 stack (Some data) len None = Some None \<and> (0 < len \<longrightarrow> sha256 stack None len (Some hash) = Some (Some hash))"
proof -
  have "sha256 stack (Some data) len (Some hash) = Some (Some (SHA256 (take len data)))" if px: "len < 2 ^ 32" "len \<le> length data"
  proof -
    have "sha256_update_loop data len 0 (sha256_init stack) = Some (foldl sha256_byte (sha256_init stack) (take len data))"
      using sha256_update_loop_ok [OF px, of 0] by simp
    then show ?thesis
      using sha256_stream [OF assms, of "take len data"] by (simp add: sha256_def sha256_update_def sha256_final_def split_def)
  qed
  moreover have "sha256 stack (Some data) len (Some hash) = None" if "2 ^ 32 \<le> len"
    using sha256_update_loop_long [OF that, of data 0] by (simp add: sha256_def sha256_update_def)
  ultimately show ?thesis by (simp add: sha256_def)
qed

theorem sha256_correct_witness:
  "sha256 \<lparr>c_data = replicate 64 0xAA, c_datalen = 7, c_bitlen = 1, c_state = []\<rparr> (Some [0x61, 0x62, 0x63]) 3 (Some []) = Some (Some (SHA256 [0x61, 0x62, 0x63]))"
proof -
  have l: "length (c_data \<lparr>c_data = replicate 64 0xAA, c_datalen = 7, c_bitlen = 1, c_state = []\<rparr>) = 64" by simp
  from sha256_correct [OF l, of 3 "[0x61, 0x62, 0x63]" "[]"] show ?thesis by simp
qed

section \<open>SHA-512\<close>

lemma sha512_update_eq: "len \<le> length data \<Longrightarrow> sha512_update data len ctx = foldl sha512_byte ctx (take len data)"
proof -
  assume "len \<le> length data"
  then have "take len data = map ((!) data) [0..<len]" by (simp add: take_drop_nth [of 0 len data, simplified])
  then show ?thesis by (simp add: sha512_update_def foldl_map)
qed

lemma sha512_pad_loop_eq:
  "i \<le> 112 \<Longrightarrow> length (d_data c) = 128 \<Longrightarrow> sha512_pad_loop i c = (112, c\<lparr>d_data := take i (d_data c) @ replicate (112 - i) 0 @ drop 112 (d_data c)\<rparr>)"
  "112 \<le> i \<Longrightarrow> sha512_pad_loop i c = (i, c)"
proof -
  show "112 \<le> i \<Longrightarrow> sha512_pad_loop i c = (i, c)" by (subst sha512_pad_loop.simps) simp
  show "sha512_pad_loop i c = (112, c\<lparr>d_data := take i (d_data c) @ replicate (112 - i) 0 @ drop 112 (d_data c)\<rparr>)"
    if "i \<le> 112" "length (d_data c) = 128" using that
  proof (induction "112 - i" arbitrary: i c)
    case 0
    then show ?case by (subst sha512_pad_loop.simps) simp
  next
    case (Suc n)
    let ?c = "c\<lparr>d_data := (d_data c)[i := 0]\<rparr>"
    have i: "i < 112" using Suc(2) by simp
    have "sha512_pad_loop i c = sha512_pad_loop (i + 1) ?c" using i by (subst sha512_pad_loop.simps) (simp add: Let_def)
    also have "\<dots> = (112, ?c\<lparr>d_data := take (i + 1) (d_data ?c) @ replicate (112 - (i + 1)) 0 @ drop 112 (d_data ?c)\<rparr>)"
      by (rule Suc(1)) (use Suc.prems Suc(2) i in auto)
    also have "take (i + 1) (d_data ?c) @ replicate (112 - (i + 1)) 0 @ drop 112 (d_data ?c) = take i (d_data c) @ replicate (112 - i) 0 @ drop 112 (d_data c)"
    proof -
      have "replicate (112 - i) (0 :: u8) = 0 # replicate (112 - (i + 1)) 0" using i by (cases "112 - i") auto
      then show ?thesis using i Suc.prems(2) take_snoc_update [of i "d_data c" 0] by simp
    qed
    finally show ?case by simp
  qed
qed

text \<open>The block that \<open>sha512_final\<close> compresses; it starts no second one.\<close>

definition sha512_last :: "u8 list \<Rightarrow> nat \<Rightarrow> u8 list" where
  "sha512_last r len =
     (if length r < 112 then r @ 0x80 # replicate (119 - length r) 0 else take 120 (r @ 0x80 # replicate 8 0)) @ be_bytes 8 (8 * len)"

lemma sha512_fill:
  assumes "length d = 128" "n < 128" "take n d = r"
  shows "\<exists>i c'. sha512_pad_loop (n + 1) (c\<lparr>d_data := d[n := 0x80]\<rparr>) = (i, c\<lparr>d_data := c'\<rparr>) \<and>
    take 120 (zero_fill i 120 c') @ be_bytes 8 (8 * len) = sha512_last r len"
proof -
  have r: "length r = n" using assms by auto
  have t: "take (Suc n) (d[n := 0x80]) = r @ [0x80]" using take_snoc_update [of n d] assms by simp
  consider "n < 112" | "112 \<le> n" "n < 120" | "120 \<le> n" by linarith
  then show ?thesis
  proof cases
    case 1
    let ?c' = "r @ 0x80 # replicate (111 - n) 0 @ drop 112 d"
    have "sha512_pad_loop (n + 1) (c\<lparr>d_data := d[n := 0x80]\<rparr>) = (112, c\<lparr>d_data := ?c'\<rparr>)"
      using sha512_pad_loop_eq(1) [of "n + 1" "c\<lparr>d_data := d[n := 0x80]\<rparr>"] 1 assms(1) t by simp
    moreover have "take 120 (zero_fill 112 120 ?c') = (r @ 0x80 # replicate (111 - n) 0) @ replicate 8 0"
    proof -
      define A where "A = r @ 0x80 # replicate (111 - n) 0"
      have A: "length A = 112" "?c' = A @ drop 112 d" using r 1 by (simp_all add: A_def)
      show ?thesis unfolding A(2) A_def [symmetric] using A(1) by (simp add: zero_fill_def)
    qed
    moreover have "replicate (119 - n) (0 :: u8) = replicate (111 - n) 0 @ replicate 8 0" using 1 by (simp add: replicate_add [symmetric])
    ultimately show ?thesis using 1 r by (intro exI [of _ 112] exI [of _ ?c']) (simp add: sha512_last_def)
  next
    case 2
    have "sha512_pad_loop (n + 1) (c\<lparr>d_data := d[n := 0x80]\<rparr>) = (n + 1, c\<lparr>d_data := d[n := 0x80]\<rparr>)" using 2 by (intro sha512_pad_loop_eq(2)) simp
    moreover have "take 120 (zero_fill (n + 1) 120 (d[n := 0x80])) = r @ 0x80 # replicate (119 - n) 0"
      using zero_fill_take(1) [OF assms(1) 2(2)] assms(3) by simp
    moreover have "take 120 (r @ 0x80 # replicate 8 0) = r @ 0x80 # replicate (119 - n) (0 :: u8)" using 2 r by (simp add: take_Cons' min_def)
    ultimately show ?thesis using 2 r by (intro exI [of _ "n + 1"] exI [of _ "d[n := 0x80]"]) (simp add: sha512_last_def)
  next
    case 3
    have "sha512_pad_loop (n + 1) (c\<lparr>d_data := d[n := 0x80]\<rparr>) = (n + 1, c\<lparr>d_data := d[n := 0x80]\<rparr>)" using 3 by (intro sha512_pad_loop_eq(2)) simp
    moreover have "take 120 (zero_fill (n + 1) 120 (d[n := 0x80])) = take 120 r" using 3 assms by (auto simp: zero_fill_def min_def)
    moreover have "take 120 (r @ 0x80 # replicate 8 0) = take 120 r" using 3 r by simp
    ultimately show ?thesis using 3 r by (intro exI [of _ "n + 1"] exI [of _ "d[n := 0x80]"]) (simp add: sha512_last_def)
  qed
qed

lemma length_sha512_last: "length r < 128 \<Longrightarrow> length (sha512_last r len) = 128"
  by (auto simp: sha512_last_def be_bytes_def min_def)

lemma sha512_final_ok:
  assumes "good512 c" "take (d_datalen c) (d_data c) = r" "d_bitlen c + of_nat (d_datalen c * 8) = of_nat (8 * len)"
  shows "snd (sha512_final c) = concat (map (\<lambda>w. be_bytes 8 (unat w)) (SHA512_compress (sha512_last r len) (d_state c)))"
proof -
  have g: "length (d_data c) = 128" "d_datalen c < 128" "length (d_state c) = 8" using assms(1) by (simp_all add: good512_def)
  obtain i c' where f: "sha512_pad_loop (d_datalen c + 1) (c\<lparr>d_data := (d_data c)[d_datalen c := 0x80]\<rparr>) = (i, c\<lparr>d_data := c'\<rparr>)"
    "take 120 (zero_fill i 120 c') @ be_bytes 8 (8 * len) = sha512_last r len"
    using sha512_fill [OF g(1,2) assms(2), of c len] by blast
  have "length r < 128" using assms(2) g by auto
  note tr = sha512_transform_eq [OF length_sha512_last [OF this] g(3), of len]
  have "snd (sha512_final c) = sha512_digest (sha512_transform (sha512_last r len) (d_state c))"
    unfolding sha512_final_def Let_def f(1) using f(2) assms(3) be_bytes_8' [of "8 * len"] by simp
  then show ?thesis using sha512_digest_eq [OF tr(2)] tr(1) by simp
qed

lemma sha512_init_good:
  assumes "length (d_data c) = 128"
  shows "good512 (sha512_init c)" "take (d_datalen (sha512_init c)) (d_data (sha512_init c)) = []"
    "d_bitlen (sha512_init c) + of_nat (d_datalen (sha512_init c) * 8) = 0" "d_state (sha512_init c) = SHA512_H0"
  using assms unfolding SHA512_H0_eq [of c] by (simp_all add: good512_def sha512_init_def)

lemma sha512_eq:
  assumes "length (d_data stack) = 128" "len \<le> length data" "msg = take len data"
  shows "sha512 stack data len = concat (map (\<lambda>w. be_bytes 8 (unat w))
    (foldl (\<lambda>H b. SHA512_compress b H) SHA512_H0 (chop 128 msg @ [sha512_last (rest 128 msg) len])))"
proof -
  note i = sha512_init_good [OF assms(1)]
  note a = s512.absorb_all [OF i(1-3), of msg]
  have "length msg = len" using assms(2,3) by simp
  then show ?thesis
    using sha512_final_ok [OF a(1,2), of len] a(3,4) i(4) sha512_update_eq [OF assms(2)] assms(3) by (simp add: sha512_def)
qed

lemma be_bytes_16: "v < 2 ^ 64 \<Longrightarrow> be_bytes 16 v = replicate 8 0 @ be_bytes 8 v"
proof -
  assume v: "v < 2 ^ 64"
  have "[0..<16] = [0..<8] @ map (\<lambda>i. i + 8) [0..<8 :: nat]" by (simp add: upt_rec)
  moreover have "v div 256 ^ (15 - i) = 0" if "i < 8" for i
  proof -
    have "(256 :: nat) ^ 8 \<le> 256 ^ (15 - i)" using that by (intro power_increasing) auto
    then show ?thesis using v by simp
  qed
  then have "map (\<lambda>i. of_nat (v div 256 ^ (15 - i)) :: u8) [0..<8] = map (\<lambda>_. 0) [0..<8]" by (intro map_cong) auto
  then have "map (\<lambda>i. of_nat (v div 256 ^ (15 - i)) :: u8) [0..<8] = replicate 8 0" by (simp only: map_replicate_const length_upt minus_nat.diff_0)
  ultimately show ?thesis by (simp add: be_bytes_def comp_def)
qed

lemma chop_take: "0 < n \<Longrightarrow> chop n xs = chop n (take (n * (length xs div n)) xs)"
proof -
  assume n: "0 < n"
  let ?a = "take (n * (length xs div n)) xs"
  have le: "n * (length xs div n) \<le> length xs" by (simp add: mult.commute div_times_less_eq_dividend)
  then have "rest n ?a = []" using n by (simp add: rest_def min_def)
  then have "chop n (?a @ rest n xs) = chop n ?a @ chop n (rest n xs)" using chop_append [OF n, of ?a "rest n xs"] by simp
  moreover have "?a @ rest n xs = xs" by (simp add: rest_def)
  moreover have "chop n (rest n xs) = []" using n by (intro chop_short) (simp add: length_rest)
  ultimately show ?thesis by simp
qed

text \<open>\<^verbatim>\<open>sha512\<close> computes the SHA-512 of the standard, constants included, for every message whose length in bytes is below 112 modulo 128. For the other
  lengths the final step does not start the second block the standard asks for: when the rest is longer than 120 bytes, the length
  field overwrites the bytes of the message after the first 120 of the last block, and all messages that agree up to there
  have the same hash.\<close>

lemma sha512_correct:
  assumes "length (d_data stack) = 128" "len \<le> length data" "len < 2 ^ 61"
  shows "(len mod 128 < 112 \<longrightarrow> sha512 stack data len = SHA512 (take len data)) \<and>
    (\<forall>data'. 120 < len mod 128 \<and> len \<le> length data' \<and> take (len div 128 * 128 + 120) data' = take (len div 128 * 128 + 120) data \<longrightarrow>
       sha512 stack data' len = sha512 stack data len)"
proof (intro conjI allI impI)
  let ?msg = "take len data"
  have lm: "length ?msg = len" using assms(2) by simp
  note eq = sha512_eq [OF assms(1,2) refl]
  show "sha512 stack data len = SHA512 ?msg" if n: "len mod 128 < 112"
  proof -
    have lr: "length (rest 128 ?msg) = len mod 128" using lm by (simp add: length_rest)
    have "8 * len < 2 ^ 64" using assms(3) by simp
    note be = be_bytes_16 [OF this]
    have "replicate (111 - len mod 128) 0 @ replicate 8 (0 :: u8) = replicate (119 - len mod 128) 0"
      using n by (simp add: replicate_add [symmetric])
    then have last: "sha512_last (rest 128 ?msg) len =
        rest 128 ?msg @ [0x80] @ replicate ((128 - (length ?msg + 1 + 16) mod 128) mod 128) 0 @ be_bytes 16 (8 * length ?msg)"
      unfolding pad_length_128 lm be using n lr by (simp add: sha512_last_def)
    have "chop 128 (pad 128 16 ?msg) = chop 128 ?msg @ chop 128 (sha512_last (rest 128 ?msg) len)"
      unfolding last pad_def by (rule chop_append) simp
    moreover have "chop 128 (sha512_last (rest 128 ?msg) len) = [sha512_last (rest 128 ?msg) len]"
      by (rule chop_one) (use lr in \<open>simp_all add: length_sha512_last\<close>)
    ultimately show ?thesis unfolding SHA512_def eq by simp
  qed
  fix data'
  assume a: "120 < len mod 128 \<and> len \<le> length data' \<and> take (len div 128 * 128 + 120) data' = take (len div 128 * 128 + 120) data"
  let ?msg' = "take len data'" and ?q = "len div 128 * 128"
  have lm': "length ?msg' = len" using a by simp
  have q: "?q + 120 < len" using a div_mult_mod_eq [of len 128] by linarith
  have t: "take (?q + 120) ?msg' = take (?q + 120) ?msg" using a q by (simp add: min_def)
  have tq: "take ?q ?msg' = take ?q ?msg"
  proof -
    have "take ?q (take (?q + 120) xs) = take ?q xs" for xs :: "u8 list" by simp
    then show ?thesis using arg_cong [OF t, of "take ?q"] by (simp only:)
  qed
  have ch: "chop 128 ?msg' = chop 128 ?msg"
  proof -
    have "chop 128 ?msg' = chop 128 (take ?q ?msg')" using chop_take [of 128 ?msg'] lm' by (simp only: mult.commute [of 128])
    also have "\<dots> = chop 128 ?msg" using chop_take [of 128 ?msg] lm tq by (simp only: mult.commute [of 128])
    finally show ?thesis .
  qed
  have "take 120 (rest 128 ?msg') = take 120 (rest 128 ?msg)"
  proof -
    have "drop ?q (take (?q + 120) xs) = take 120 (drop ?q xs)" for xs :: "u8 list" by (simp add: drop_take)
    then have "take 120 (drop ?q ?msg') = take 120 (drop ?q ?msg)" using arg_cong [OF t, of "drop ?q"] by (simp only:)
    then show ?thesis unfolding rest_def lm lm' by (simp only: mult.commute [of 128])
  qed
  moreover have "length (rest 128 ?msg) = len mod 128" "length (rest 128 ?msg') = len mod 128" using lm lm' by (simp_all add: length_rest)
  ultimately have "sha512_last (rest 128 ?msg') len = sha512_last (rest 128 ?msg) len" using a by (simp add: sha512_last_def)
  then show "sha512 stack data' len = sha512 stack data len"
    using sha512_eq [OF assms(1) _ refl, of len data'] a ch unfolding eq by simp
qed

lemma sha512_correct_witness:
  "sha512 \<lparr>d_state = [], d_bitlen = 1, d_data = replicate 128 0xAA, d_datalen = 7\<rparr> [0x61, 0x62, 0x63] 3 = SHA512 [0x61, 0x62, 0x63] \<and>
   sha512 \<lparr>d_state = [], d_bitlen = 1, d_data = replicate 128 0xAA, d_datalen = 7\<rparr> (replicate 120 0x61 @ [0x62]) 121 =
   sha512 \<lparr>d_state = [], d_bitlen = 1, d_data = replicate 128 0xAA, d_datalen = 7\<rparr> (replicate 120 0x61 @ [0x63]) 121"
proof
  let ?s = "\<lparr>d_state = [], d_bitlen = 1, d_data = replicate 128 0xAA, d_datalen = 7\<rparr>"
  have l: "length (d_data ?s) = 128" by simp
  show "sha512 ?s [0x61, 0x62, 0x63] 3 = SHA512 [0x61, 0x62, 0x63]" using sha512_correct [OF l, of 3 "[0x61, 0x62, 0x63]"] by simp
  have "\<forall>data'. 120 < (121 :: nat) mod 128 \<and> 121 \<le> length data' \<and>
      take (121 div 128 * 128 + 120) data' = take (121 div 128 * 128 + 120) (replicate 120 0x61 @ [0x63 :: u8]) \<longrightarrow>
      sha512 ?s data' 121 = sha512 ?s (replicate 120 0x61 @ [0x63]) 121"
    by (rule conjunct2 [OF sha512_correct [OF l]]) simp_all
  from this [rule_format, of "replicate 120 0x61 @ [0x62]"]
  show "sha512 ?s (replicate 120 0x61 @ [0x62]) 121 = sha512 ?s (replicate 120 0x61 @ [0x63]) 121" by simp
qed

end
