(* ===== verification/Jfs.thy ===== *)
theory Jfs
  imports FatTable
begin

text \<open>
  The journaling file system (\<^verbatim>\<open>kernel/fs/jfs.c\<close>), which the kernel mounts at \<^verbatim>\<open>/data\<close>. Blocks of 512 bytes go through the cache of \<open>Bcache\<close> to the
  node of the active partition, whose callbacks are functions on a device state \<open>'d\<close>. A result \<open>None\<close> is undefined behaviour: a byte
  of a buffer that was never filled in, or a string without an end. Whether the \<open>n\<close>-th call of \<open>kmalloc\<close> succeeds is given by an
  oracle in the state. Arguments that are pointers are not null, except where the text says so.
\<close>

section \<open>Data on the disk\<close>

definition JFS_MAGIC :: nat where "JFS_MAGIC = 0x4A465321"
definition JFS_TX_BEGIN :: nat where "JFS_TX_BEGIN = 1"
definition JFS_TX_DATA :: nat where "JFS_TX_DATA = 2"
definition JFS_TX_COMMIT :: nat where "JFS_TX_COMMIT = 3"
definition JFS_MAX_INODES :: nat where "JFS_MAX_INODES = 4096"
definition JFS_FILE :: nat where "JFS_FILE = 1"
definition JFS_DIRECTORY :: nat where "JFS_DIRECTORY = 2"

record jfs_superblock =
  sb_magic :: nat
  sb_block_size :: nat
  sb_journal_start :: nat
  sb_journal_blocks :: nat
  sb_inode_start :: nat
  sb_inode_blocks :: nat
  sb_data_start :: nat
  sb_total_blocks :: nat

record jfs_inode =
  in_inode :: nat
  in_size :: nat
  in_flags :: nat
  in_nlink :: nat
  in_blocks :: "nat list"

text \<open>The structures as bytes: little-endian 32-bit fields one after the other.\<close>

definition enc_words :: "nat list \<Rightarrow> u8 list" where
  "enc_words ws = concat (map enc32 ws)"

definition dec_words :: "nat \<Rightarrow> u8 list \<Rightarrow> nat \<Rightarrow> nat list" where
  "dec_words n b off = map (\<lambda>i. le32 b (off + 4 * i)) [0..<n]"

definition inode_words :: "jfs_inode \<Rightarrow> nat list" where
  "inode_words nd = [in_inode nd, in_size nd, in_flags nd, in_nlink nd] @ in_blocks nd"

definition words_inode :: "nat list \<Rightarrow> jfs_inode" where
  "words_inode ws = \<lparr>in_inode = ws ! 0, in_size = ws ! 1, in_flags = ws ! 2, in_nlink = ws ! 3, in_blocks = drop 4 ws\<rparr>"

definition sb_words :: "jfs_superblock \<Rightarrow> nat list" where
  "sb_words sb = [sb_magic sb, sb_block_size sb, sb_journal_start sb, sb_journal_blocks sb, sb_inode_start sb, sb_inode_blocks sb,
     sb_data_start sb, sb_total_blocks sb]"

definition words_sb :: "nat list \<Rightarrow> jfs_superblock" where
  "words_sb ws = \<lparr>sb_magic = ws ! 0, sb_block_size = ws ! 1, sb_journal_start = ws ! 2, sb_journal_blocks = ws ! 3, sb_inode_start = ws ! 4,
     sb_inode_blocks = ws ! 5, sb_data_start = ws ! 6, sb_total_blocks = ws ! 7\<rparr>"

section \<open>State\<close>

record 'd jfs_part =
  jp_read :: "'d \<Rightarrow> nat \<Rightarrow> u8 list"
  jp_write :: "'d \<Rightarrow> nat \<Rightarrow> u8 list \<Rightarrow> 'd"
  jp_impl :: nat
  jp_length :: nat

record 'd jfs =
  j_cache :: bcache_state
  j_dev :: 'd
  j_sb :: jfs_superblock
  current_tx_id :: nat
  jfs_next_free_block :: nat
  next_inode :: nat
  jfs_inode_mode :: "nat \<Rightarrow> nat"
  jfs_inode_uid :: "nat \<Rightarrow> nat"
  jfs_inode_gid :: "nat \<Rightarrow> nat"
  j_kmalloc :: "nat \<Rightarrow> bool"
  j_allocs :: nat

definition j_alloc :: "'d jfs \<Rightarrow> bool \<times> 'd jfs" where
  "j_alloc s = (j_kmalloc s (j_allocs s), s\<lparr>j_allocs := Suc (j_allocs s)\<rparr>)"

section \<open>Blocks\<close>

definition disk_read :: "'d jfs_part \<Rightarrow> nat \<Rightarrow> 'd jfs \<Rightarrow> (u8 list \<times> 'd jfs) option" where
  "disk_read p block s =
     (case bcache_read (j_cache s) (of_nat (jp_impl p)) (of_nat block) [] of
        (r, data, c) \<Rightarrow>
          if r = 0 then Some (data, s\<lparr>j_cache := c\<rparr>)
          else
            let buf = jp_read p (j_dev s) (mul32 block 512) in
            if length buf < 512 then None
            else Some (buf, s\<lparr>j_cache := bcache_write c (of_nat (jp_impl p)) (of_nat block) buf\<rparr>))"

definition disk_write :: "'d jfs_part \<Rightarrow> nat \<Rightarrow> u8 list \<Rightarrow> 'd jfs \<Rightarrow> 'd jfs" where
  "disk_write p block buf s =
     s\<lparr>j_dev := jp_write p (j_dev s) (mul32 block 512) buf,
       j_cache := bcache_write (j_cache s) (of_nat (jp_impl p)) (of_nat block) buf\<rparr>"

text \<open>The header of a journal entry in an otherwise empty sector; the checksum is never set.\<close>

definition journal_header :: "nat \<Rightarrow> nat \<Rightarrow> nat \<Rightarrow> u8 list" where
  "journal_header tx type target = enc_words [tx, type, target, 0] @ replicate 496 0"

definition jfs_journal_write :: "'d jfs_part \<Rightarrow> nat \<Rightarrow> u8 list \<Rightarrow> 'd jfs \<Rightarrow> 'd jfs" where
  "jfs_journal_write p target_block data s =
     (let j_start = sb_journal_start (j_sb s);
          tx = current_tx_id s;
          s1 = disk_write p j_start (journal_header tx JFS_TX_BEGIN 0) s;
          s2 = disk_write p (add32 j_start 1) (journal_header tx JFS_TX_DATA target_block) s1;
          s3 = disk_write p (add32 j_start 2) data s2;
          s4 = disk_write p (add32 j_start 3) (journal_header tx JFS_TX_COMMIT 0) s3;
          s5 = disk_write p target_block data s4
      in s5\<lparr>current_tx_id := add32 tx 1\<rparr>)"

section \<open>Inodes\<close>

definition inode_block :: "'d jfs \<Rightarrow> nat \<Rightarrow> nat" where
  "inode_block s idx = add32 (sb_inode_start (j_sb s)) (idx div 8)"

text \<open>The inner \<open>None\<close> is the null pointer.\<close>

definition get_inode :: "'d jfs_part \<Rightarrow> nat \<Rightarrow> 'd jfs \<Rightarrow> (jfs_inode option \<times> 'd jfs) option" where
  "get_inode p idx s = do {
     (sector, s1) \<leftarrow> disk_read p (inode_block s idx) s;
     let (ok, s2) = j_alloc s1;
     Some (if ok then Some (words_inode (dec_words 16 sector (idx mod 8 * 64))) else None, s2)
   }"

definition put_inode :: "'d jfs_part \<Rightarrow> jfs_inode \<Rightarrow> nat \<Rightarrow> 'd jfs \<Rightarrow> 'd jfs option" where
  "put_inode p nd idx s = do {
     (sector, s1) \<leftarrow> disk_read p (inode_block s idx) s;
     Some (disk_write p (inode_block s idx) (overwrite (idx mod 8 * 64) (enc_words (inode_words nd)) sector) s1)
   }"

definition jfs_set_inode_metadata :: "nat \<Rightarrow> nat \<Rightarrow> nat \<Rightarrow> nat \<Rightarrow> 'd jfs \<Rightarrow> 'd jfs" where
  "jfs_set_inode_metadata idx mode uid gid s =
     (if idx \<ge> JFS_MAX_INODES then s
      else s\<lparr>jfs_inode_mode := (jfs_inode_mode s)(idx := mode mod 512), jfs_inode_uid := (jfs_inode_uid s)(idx := uid),
             jfs_inode_gid := (jfs_inode_gid s)(idx := gid)\<rparr>)"

definition is_dir_flags :: "nat \<Rightarrow> bool" where
  "is_dir_flags flags \<longleftrightarrow> odd (flags div 2)"

definition jfs_is_directory :: "'d jfs_part \<Rightarrow> nat \<Rightarrow> 'd jfs \<Rightarrow> (bool \<times> 'd jfs) option" where
  "jfs_is_directory p idx s = do {
     (nd, s1) \<leftarrow> get_inode p idx s;
     Some (case nd of None \<Rightarrow> False | Some x \<Rightarrow> is_dir_flags (in_flags x), s1)
   }"

definition jfs_alloc_block :: "'d jfs \<Rightarrow> int \<times> nat \<times> 'd jfs" where
  "jfs_alloc_block s =
     (if jfs_next_free_block s \<ge> sb_total_blocks (j_sb s) then (- ENOSPC, 0, s)
      else (0, jfs_next_free_block s, s\<lparr>jfs_next_free_block := add32 (jfs_next_free_block s) 1\<rparr>))"

definition jfs_alloc_inode :: "'d jfs_part \<Rightarrow> nat \<Rightarrow> 'd jfs \<Rightarrow> (int \<times> nat \<times> 'd jfs) option" where
  "jfs_alloc_inode p flags s = do {
     let free_inode = next_inode s;
     (nd, s1) \<leftarrow> get_inode p free_inode (s\<lparr>next_inode := add32 (next_inode s) 1\<rparr>);
     case nd of
       None \<Rightarrow> Some (- ENOMEM, 0, s1)
     | Some _ \<Rightarrow> do {
         s2 \<leftarrow> put_inode p \<lparr>in_inode = free_inode, in_size = 0, in_flags = flags, in_nlink = 1, in_blocks = replicate 12 0\<rparr> free_inode s1;
         Some (0, free_inode, jfs_set_inode_metadata free_inode (if is_dir_flags flags then 493 else 420) 0 0 s2)
       }
   }"

section \<open>Directories\<close>

definition jfs_ensure_dir_block :: "'d jfs_part \<Rightarrow> jfs_inode \<Rightarrow> nat \<Rightarrow> 'd jfs \<Rightarrow> int \<times> jfs_inode \<times> 'd jfs" where
  "jfs_ensure_dir_block p dir i s =
     (if i \<ge> 12 then (- EINVAL, dir, s)
      else if in_blocks dir ! i \<noteq> 0 then (0, dir, s)
      else
        case jfs_alloc_block s of
          (r, new_block, s1) \<Rightarrow>
            if r \<noteq> 0 then (- ENOSPC, dir, s1)
            else (0, dir\<lparr>in_blocks := (in_blocks dir)[i := new_block]\<rparr>, disk_write p new_block (replicate 512 0) s1))"

text \<open>\<open>strcmp(field, name) == 0\<close> on the bytes from the field to the end of the sector; running off the sector is undefined.\<close>

fun strcmp_eq :: "u8 list \<Rightarrow> u8 list \<Rightarrow> bool option" where
  "strcmp_eq [] name = None"
| "strcmp_eq (c # cs) [] = Some (c = 0)"
| "strcmp_eq (c # cs) (n # ns) = (if c \<noteq> n then Some False else strcmp_eq cs ns)"

definition ent_inode :: "u8 list \<Rightarrow> nat \<Rightarrow> nat" where
  "ent_inode sector j = le32 sector (64 * j)"

text \<open>The string in the field of the name.\<close>

definition ent_name :: "u8 list \<Rightarrow> nat \<Rightarrow> u8 list" where
  "ent_name sector j = takeWhile (\<lambda>c. c \<noteq> 0) (drop (64 * j + 4) sector)"

text \<open>The inner loops over the eight entries of a sector, from entry \<open>j\<close> on with \<open>n\<close> left: the entry with a name, and a free entry.\<close>

fun find_in_sector :: "u8 list \<Rightarrow> u8 list \<Rightarrow> nat \<Rightarrow> nat \<Rightarrow> nat option option" where
  "find_in_sector sector name j 0 = Some None"
| "find_in_sector sector name j (Suc n) =
     (if ent_inode sector j = 0 then find_in_sector sector name (Suc j) n
      else do {
        eq \<leftarrow> strcmp_eq (drop (64 * j + 4) sector) name;
        if eq then Some (Some j) else find_in_sector sector name (Suc j) n
      })"

fun free_in_sector :: "u8 list \<Rightarrow> nat \<Rightarrow> nat \<Rightarrow> nat option" where
  "free_in_sector sector j 0 = None"
| "free_in_sector sector j (Suc n) = (if ent_inode sector j = 0 then Some j else free_in_sector sector (Suc j) n)"

text \<open>The search of \<open>jfs_find_entry\<close> and \<open>jfs_remove_entry\<close> through the blocks of a directory: block, sector and entry.\<close>

fun search_blocks :: "'d jfs_part \<Rightarrow> u8 list \<Rightarrow> nat list \<Rightarrow> 'd jfs \<Rightarrow> ((nat \<times> u8 list \<times> nat) option \<times> 'd jfs) option" where
  "search_blocks p name [] s = Some (None, s)"
| "search_blocks p name (b # bs) s =
     (if b = 0 then search_blocks p name bs s
      else do {
        (sector, s1) \<leftarrow> disk_read p b s;
        r \<leftarrow> find_in_sector sector name 0 8;
        case r of
          Some j \<Rightarrow> Some (Some (b, sector, j), s1)
        | None \<Rightarrow> search_blocks p name bs s1
      })"

text \<open>The results are the return value and the entry: its inode, the string in its field, its block and its index.\<close>

definition jfs_find_entry :: "'d jfs_part \<Rightarrow> nat \<Rightarrow> u8 list \<Rightarrow> 'd jfs \<Rightarrow> (int \<times> (nat \<times> u8 list \<times> nat \<times> nat) option \<times> 'd jfs) option" where
  "jfs_find_entry p dir_inode name s = do {
     (dir, s1) \<leftarrow> get_inode p dir_inode s;
     case dir of
       None \<Rightarrow> Some (- EINVAL, None, s1)
     | Some d \<Rightarrow>
         if \<not> is_dir_flags (in_flags d) then Some (- ENOTDIR, None, s1)
         else do {
           (r, s2) \<leftarrow> search_blocks p name (in_blocks d) s1;
           Some (case r of
              Some (b, sector, j) \<Rightarrow> (0, Some (ent_inode sector j, ent_name sector j, b, j), s2)
            | None \<Rightarrow> (- ENOENT, None, s2))
         }
   }"

text \<open>\<open>entries[j].inode = child; strlcpy(entries[j].name, name, 60)\<close>: the bytes after the terminator stay.\<close>

definition set_entry_bytes :: "nat \<Rightarrow> nat \<Rightarrow> u8 list \<Rightarrow> u8 list \<Rightarrow> u8 list" where
  "set_entry_bytes j child name sector =
     overwrite (64 * j + 4) (take 59 name @ [0]) (overwrite (64 * j) (enc32 child) sector)"

definition clear_entry_bytes :: "nat \<Rightarrow> u8 list \<Rightarrow> u8 list" where
  "clear_entry_bytes j sector = (overwrite (64 * j) (enc32 0) sector)[64 * j + 4 := 0]"

text \<open>The loop of \<open>jfs_add_entry\<close> from block \<open>i\<close> on, with \<open>n\<close> blocks left.\<close>

fun add_loop :: "'d jfs_part \<Rightarrow> nat \<Rightarrow> u8 list \<Rightarrow> nat \<Rightarrow> nat \<Rightarrow> nat \<Rightarrow> jfs_inode \<Rightarrow> 'd jfs \<Rightarrow> (int \<times> 'd jfs) option" where
  "add_loop p dir_inode name child i 0 dir s = Some (- ENOENT, s)"
| "add_loop p dir_inode name child i (Suc n) dir s =
     (case jfs_ensure_dir_block p dir i s of
        (r, dir1, s1) \<Rightarrow>
          if r \<noteq> 0 then Some (- ENOSPC, s1)
          else do {
            s2 \<leftarrow> put_inode p dir1 dir_inode s1;
            (sector, s3) \<leftarrow> disk_read p (in_blocks dir1 ! i) s2;
            case free_in_sector sector 0 8 of
              Some j \<Rightarrow> do {
                let s4 = jfs_journal_write p (in_blocks dir1 ! i) (set_entry_bytes j child name sector) s3;
                s5 \<leftarrow> put_inode p (dir1\<lparr>in_size := add32 (in_size dir1) 64\<rparr>) dir_inode s4;
                Some (0, s5)
              }
            | None \<Rightarrow> add_loop p dir_inode name child (Suc i) n dir1 s3
          })"

definition jfs_add_entry :: "'d jfs_part \<Rightarrow> nat \<Rightarrow> u8 list \<Rightarrow> nat \<Rightarrow> 'd jfs \<Rightarrow> (int \<times> 'd jfs) option" where
  "jfs_add_entry p dir_inode name child s = do {
     (dir, s1) \<leftarrow> get_inode p dir_inode s;
     case dir of
       None \<Rightarrow> Some (- EINVAL, s1)
     | Some d \<Rightarrow>
         if \<not> is_dir_flags (in_flags d) then Some (- ENOTDIR, s1)
         else do {
           (r, _, s2) \<leftarrow> jfs_find_entry p dir_inode name s1;
           if r = 0 then Some (- EEXIST, s2) else add_loop p dir_inode name child 0 12 d s2
         }
   }"

definition jfs_remove_entry :: "'d jfs_part \<Rightarrow> nat \<Rightarrow> u8 list \<Rightarrow> 'd jfs \<Rightarrow> (int \<times> nat \<times> 'd jfs) option" where
  "jfs_remove_entry p dir_inode name s = do {
     (dir, s1) \<leftarrow> get_inode p dir_inode s;
     case dir of
       None \<Rightarrow> Some (- EINVAL, 0, s1)
     | Some d \<Rightarrow>
         if \<not> is_dir_flags (in_flags d) then Some (- ENOTDIR, 0, s1)
         else do {
           (r, s2) \<leftarrow> search_blocks p name (in_blocks d) s1;
           Some (case r of
              Some (b, sector, j) \<Rightarrow> (0, ent_inode sector j, jfs_journal_write p b (clear_entry_bytes j sector) s2)
            | None \<Rightarrow> (- ENOENT, 0, s2))
         }
   }"

section \<open>Nodes\<close>

record jfs_node =
  jn_inode :: nat
  jn_length :: nat
  jn_flags :: nat
  jn_mask :: nat
  jn_uid :: nat
  jn_gid :: nat
  jn_name :: "u8 list"

text \<open>The operations of a node are those of a directory or of a file as its flags say.\<close>

definition jfs_make_node :: "'d jfs_part \<Rightarrow> nat \<Rightarrow> u8 list \<Rightarrow> 'd jfs \<Rightarrow> (jfs_node option \<times> 'd jfs) option" where
  "jfs_make_node p idx name s = do {
     (nd, s1) \<leftarrow> get_inode p idx s;
     case nd of
       None \<Rightarrow> Some (None, s1)
     | Some x \<Rightarrow> do {
         let (ok, s2) = j_alloc s1;
         Some (if ok then Some \<lparr>jn_inode = idx, jn_length = in_size x, jn_flags = in_flags x,
             jn_mask = (if idx < JFS_MAX_INODES then jfs_inode_mode s2 idx else if is_dir_flags (in_flags x) then 493 else 420),
             jn_uid = (if idx < JFS_MAX_INODES then jfs_inode_uid s2 idx else 0),
             jn_gid = (if idx < JFS_MAX_INODES then jfs_inode_gid s2 idx else 0), jn_name = take 127 name\<rparr> else None, s2)
       }
   }"

section \<open>Files\<close>

text \<open>The loops move at least one byte in every turn; \<open>done\<close> counts them. The result of the first is what has been read from there on.\<close>

function read_loop :: "'d jfs_part \<Rightarrow> jfs_inode \<Rightarrow> nat \<Rightarrow> nat \<Rightarrow> nat \<Rightarrow> 'd jfs \<Rightarrow> (u8 list \<times> 'd jfs) option" where
  "read_loop p nd offset sz done s =
     (if done < sz then
        let block_idx = add32 offset done div 512; block_off = add32 offset done mod 512 in
        if block_idx \<ge> 12 then Some ([], s)
        else if in_blocks nd ! block_idx = 0
          then (case read_loop p nd offset sz (done + 1) s of None \<Rightarrow> None | Some (bs, s1) \<Rightarrow> Some (0 # bs, s1))
        else
          (case disk_read p (in_blocks nd ! block_idx) s of
             None \<Rightarrow> None
           | Some (sector, s1) \<Rightarrow>
               let chunk = min (512 - block_off) (sz - done) in
               (case read_loop p nd offset sz (done + chunk) s1 of
                  None \<Rightarrow> None
                | Some (bs, s2) \<Rightarrow> Some (take chunk (drop block_off sector) @ bs, s2)))
      else Some ([], s))"
  by pat_completeness auto
termination
  by (relation "measure (\<lambda>(p, nd, offset, sz, done, s). sz - done)") auto

definition jfs_read :: "'d jfs_part \<Rightarrow> nat \<Rightarrow> nat \<Rightarrow> nat \<Rightarrow> 'd jfs \<Rightarrow> (u8 list \<times> 'd jfs) option" where
  "jfs_read p idx offset sz s = do {
     (dir, s1) \<leftarrow> jfs_is_directory p idx s;
     if dir then Some ([], s1)
     else do {
       (nd, s2) \<leftarrow> get_inode p idx s1;
       case nd of
         None \<Rightarrow> Some ([], s2)
       | Some x \<Rightarrow>
           if offset \<ge> in_size x then Some ([], s2)
           else read_loop p x offset (if add32 offset sz > in_size x then in_size x - offset else sz) 0 s2
     }
   }"

function write_loop :: "'d jfs_part \<Rightarrow> nat \<Rightarrow> u8 list \<Rightarrow> nat \<Rightarrow> jfs_inode \<Rightarrow> 'd jfs \<Rightarrow> (nat \<times> jfs_inode \<times> 'd jfs) option" where
  "write_loop p offset buffer done nd s =
     (if done < length buffer then
        let block_idx = add32 offset done div 512; block_off = add32 offset done mod 512 in
        if block_idx \<ge> 12 then Some (done, nd, s)
        else
          let (nd1, s1) = (if in_blocks nd ! block_idx = 0
                then (nd\<lparr>in_blocks := (in_blocks nd)[block_idx := jfs_next_free_block s]\<rparr>,
                      s\<lparr>jfs_next_free_block := add32 (jfs_next_free_block s) 1\<rparr>)
                else (nd, s));
              disk_block = in_blocks nd1 ! block_idx
          in (case disk_read p disk_block s1 of
                None \<Rightarrow> None
              | Some (sector, s2) \<Rightarrow>
                  let chunk = min (512 - block_off) (length buffer - done);
                      sector1 = overwrite block_off (take chunk (drop done buffer)) sector
                  in write_loop p offset buffer (done + chunk) nd1 (jfs_journal_write p disk_block sector1 s2))
      else Some (done, nd, s))"
  by pat_completeness auto
termination
  by (relation "measure (\<lambda>(p, offset, buffer, done, nd, s). length buffer - done)") auto

text \<open>The result is the number of bytes and the length of the node (\<open>None\<close> when it is not set).\<close>

definition jfs_write :: "'d jfs_part \<Rightarrow> nat \<Rightarrow> nat \<Rightarrow> u8 list \<Rightarrow> 'd jfs \<Rightarrow> (nat \<times> nat option \<times> 'd jfs) option" where
  "jfs_write p idx offset buffer s = do {
     (dir, s1) \<leftarrow> jfs_is_directory p idx s;
     if dir then Some (0, None, s1)
     else do {
       (nd, s2) \<leftarrow> get_inode p idx s1;
       case nd of
         None \<Rightarrow> Some (0, None, s2)
       | Some x \<Rightarrow> do {
           (written, x1, s3) \<leftarrow> write_loop p offset buffer 0 x s2;
           if add32 offset written > in_size x1 then do {
             let x2 = x1\<lparr>in_size := add32 offset written\<rparr>;
             s4 \<leftarrow> put_inode p x2 idx s3;
             Some (written, Some (in_size x2), s4)
           } else Some (written, Some (in_size x1), s3)
         }
     }
   }"

section \<open>Operations on directories\<close>

text \<open>One sector of \<open>jfs_readdir\<close>: the entries in use from \<open>j\<close> on, \<open>seen\<close> of them before.\<close>

fun readdir_sector :: "u8 list \<Rightarrow> nat \<Rightarrow> nat \<Rightarrow> nat \<Rightarrow> nat \<Rightarrow> nat \<times> nat option" where
  "readdir_sector sector index seen j 0 = (seen, None)"
| "readdir_sector sector index seen j (Suc n) =
     (if ent_inode sector j = 0 then readdir_sector sector index seen (Suc j) n
      else if seen \<noteq> index then readdir_sector sector index (add32 seen 1) (Suc j) n
      else (add32 seen 1, Some j))"

fun readdir_blocks :: "'d jfs_part \<Rightarrow> nat \<Rightarrow> nat \<Rightarrow> nat list \<Rightarrow> 'd jfs \<Rightarrow> ((u8 list \<times> nat) option \<times> 'd jfs) option" where
  "readdir_blocks p index seen [] s = Some (None, s)"
| "readdir_blocks p index seen (b # bs) s =
     (if b = 0 then readdir_blocks p index seen bs s
      else do {
        (sector, s1) \<leftarrow> disk_read p b s;
        case readdir_sector sector index seen 0 8 of
          (seen1, Some j) \<Rightarrow>
            if 0 \<notin> set (drop (64 * j + 4) sector) then None else Some (Some (ent_name sector j, ent_inode sector j), s1)
        | (seen1, None) \<Rightarrow> readdir_blocks p index seen1 bs s1
      })"

definition jfs_readdir :: "'d jfs_part \<Rightarrow> nat \<Rightarrow> nat \<Rightarrow> 'd jfs \<Rightarrow> (int \<times> (u8 list \<times> nat) option \<times> 'd jfs) option" where
  "jfs_readdir p idx index s = do {
     (dir, s1) \<leftarrow> get_inode p idx s;
     case dir of
       None \<Rightarrow> Some (- EINVAL, None, s1)
     | Some d \<Rightarrow>
         if \<not> is_dir_flags (in_flags d) then Some (- ENOTDIR, None, s1)
         else do {
           (r, s2) \<leftarrow> readdir_blocks p index 0 (in_blocks d) s1;
           Some (case r of None \<Rightarrow> (1, None, s2) | Some (name, ino) \<Rightarrow> (0, Some (take 127 name, ino), s2))
         }
   }"

text \<open>The name of the copied entry has to end within its 60 bytes.\<close>

definition jfs_finddir :: "'d jfs_part \<Rightarrow> nat \<Rightarrow> u8 list \<Rightarrow> 'd jfs \<Rightarrow> (jfs_node option \<times> 'd jfs) option" where
  "jfs_finddir p idx name s = do {
     (r, found, s1) \<leftarrow> jfs_find_entry p idx name s;
     case found of
       None \<Rightarrow> Some (None, s1)
     | Some (ino, nm, b, j) \<Rightarrow> if length nm \<ge> 60 then None else jfs_make_node p ino nm s1
   }"

text \<open>The parent node gives its inode and its owner.\<close>

definition jfs_create :: "'d jfs_part \<Rightarrow> jfs_node \<Rightarrow> u8 list \<Rightarrow> nat \<Rightarrow> 'd jfs \<Rightarrow> (int \<times> 'd jfs) option" where
  "jfs_create p parent name permission s =
     (if name = [] then Some (- EINVAL, s)
      else do {
        (dir, s1) \<leftarrow> jfs_is_directory p (jn_inode parent) s;
        if \<not> dir then Some (- ENOTDIR, s1)
        else do {
          (r, free_inode, s2) \<leftarrow> jfs_alloc_inode p JFS_FILE s1;
          if r \<noteq> 0 then Some (- ENOSPC, s2)
          else jfs_add_entry p (jn_inode parent) name free_inode
                 (jfs_set_inode_metadata free_inode (if permission \<noteq> 0 then permission else 420) (jn_uid parent) (jn_gid parent) s2)
        }
      })"

definition jfs_mkdir :: "'d jfs_part \<Rightarrow> jfs_node \<Rightarrow> u8 list \<Rightarrow> nat \<Rightarrow> 'd jfs \<Rightarrow> (int \<times> 'd jfs) option" where
  "jfs_mkdir p parent name permission s =
     (if name = [] then Some (- EINVAL, s)
      else do {
        (dir, s1) \<leftarrow> jfs_is_directory p (jn_inode parent) s;
        if \<not> dir then Some (- ENOTDIR, s1)
        else do {
          (r, free_inode, s2) \<leftarrow> jfs_alloc_inode p JFS_DIRECTORY s1;
          if r \<noteq> 0 then Some (- ENOSPC, s2)
          else do {
            (nd, s3) \<leftarrow> get_inode p free_inode
              (jfs_set_inode_metadata free_inode (if permission \<noteq> 0 then permission else 493) (jn_uid parent) (jn_gid parent) s2);
            case nd of
              None \<Rightarrow> Some (- ENOMEM, s3)
            | Some x \<Rightarrow>
                (case jfs_ensure_dir_block p x 0 s3 of
                   (r1, x1, s4) \<Rightarrow>
                     if r1 \<noteq> 0 then Some (- ENOSPC, s4)
                     else do {
                       s5 \<leftarrow> put_inode p x1 free_inode s4;
                       jfs_add_entry p (jn_inode parent) name free_inode s5
                     })
          }
        }
      })"

definition jfs_link :: "'d jfs_part \<Rightarrow> jfs_node \<Rightarrow> jfs_node \<Rightarrow> u8 list \<Rightarrow> 'd jfs \<Rightarrow> (int \<times> 'd jfs) option" where
  "jfs_link p parent target name s =
     (if name = [] then Some (- EINVAL, s)
      else do {
        (dir, s1) \<leftarrow> jfs_is_directory p (jn_inode parent) s;
        if \<not> dir then Some (- ENOTDIR, s1)
        else do {
          (nd, s2) \<leftarrow> get_inode p (jn_inode target) s1;
          case nd of
            None \<Rightarrow> Some (- EINVAL, s2)
          | Some x \<Rightarrow> do {
              s3 \<leftarrow> put_inode p (x\<lparr>in_nlink := add32 (in_nlink x) 1\<rparr>) (jn_inode target) s2;
              (ret, s4) \<leftarrow> jfs_add_entry p (jn_inode parent) name (jn_inode target) s3;
              if ret = 0 then Some (0, s4)
              else do {
                (nd1, s5) \<leftarrow> get_inode p (jn_inode target) s4;
                case nd1 of
                  None \<Rightarrow> Some (ret, s5)
                | Some y \<Rightarrow> do {
                    s6 \<leftarrow> put_inode p (y\<lparr>in_nlink := sub32 (in_nlink y) 1\<rparr>) (jn_inode target) s5;
                    Some (ret, s6)
                  }
              }
            }
        }
      })"

text \<open>Dropping a link, in \<open>jfs_unlink\<close> and \<open>jfs_rename\<close>: the last one clears the inode.\<close>

definition drop_link :: "'d jfs_part \<Rightarrow> nat \<Rightarrow> 'd jfs \<Rightarrow> 'd jfs option" where
  "drop_link p idx s = do {
     (nd, s1) \<leftarrow> get_inode p idx s;
     case nd of
       None \<Rightarrow> Some s1
     | Some x \<Rightarrow>
         let n = (if in_nlink x > 0 then in_nlink x - 1 else 0);
             x1 = x\<lparr>in_nlink := n\<rparr>
         in put_inode p (if n = 0 then x1\<lparr>in_blocks := map (\<lambda>_. 0) (in_blocks x1), in_flags := 0, in_size := 0\<rparr> else x1) idx s1
   }"

definition jfs_rename :: "'d jfs_part \<Rightarrow> jfs_node \<Rightarrow> u8 list \<Rightarrow> jfs_node \<Rightarrow> u8 list \<Rightarrow> 'd jfs \<Rightarrow> (int \<times> 'd jfs) option" where
  "jfs_rename p old_parent old_name new_parent new_name s =
     (if old_name = [] \<or> new_name = [] then Some (- EINVAL, s)
      else do {
        (d1, s1) \<leftarrow> jfs_is_directory p (jn_inode old_parent) s;
        (d2, s2) \<leftarrow> (if d1 then jfs_is_directory p (jn_inode new_parent) s1 else Some (False, s1));
        if \<not> d2 then Some (- ENOTDIR, s2)
        else do {
          (r, found, s3) \<leftarrow> jfs_find_entry p (jn_inode old_parent) old_name s2;
          case found of
            None \<Rightarrow> Some (- ENOENT, s3)
          | Some (target_inode, nm, b, j) \<Rightarrow> do {
              (r1, existing, s4) \<leftarrow> jfs_remove_entry p (jn_inode new_parent) new_name s3;
              s5 \<leftarrow> (if r1 = 0 then drop_link p existing s4 else Some s4);
              (ret, s6) \<leftarrow> jfs_add_entry p (jn_inode new_parent) new_name target_inode s5;
              if ret \<noteq> 0 then Some (ret, s6)
              else do {
                (r2, dummy, s7) \<leftarrow> jfs_remove_entry p (jn_inode old_parent) old_name s6;
                Some (0, s7)
              }
            }
        }
      })"

definition jfs_unlink :: "'d jfs_part \<Rightarrow> jfs_node \<Rightarrow> u8 list \<Rightarrow> 'd jfs \<Rightarrow> (int \<times> 'd jfs) option" where
  "jfs_unlink p parent name s =
     (if name = [] then Some (- EINVAL, s)
      else do {
        (dir, s1) \<leftarrow> jfs_is_directory p (jn_inode parent) s;
        if \<not> dir then Some (- ENOTDIR, s1)
        else do {
          (r, deleted, s2) \<leftarrow> jfs_remove_entry p (jn_inode parent) name s1;
          if r \<noteq> 0 then Some (- ENOENT, s2)
          else do {
            s3 \<leftarrow> drop_link p deleted s2;
            Some (0, s3)
          }
        }
      })"

section \<open>Mounting\<close>

definition jfs_root_node :: jfs_node where
  "jfs_root_node = \<lparr>jn_inode = 0, jn_length = 0, jn_flags = JFS_DIRECTORY, jn_mask = 511, jn_uid = 0, jn_gid = 0,
     jn_name = [106, 102, 115, 95, 114, 111, 111, 116]\<rparr>"

definition jfs_format :: "'d jfs_part \<Rightarrow> 'd jfs \<Rightarrow> 'd jfs option" where
  "jfs_format p s = do {
     let sb = \<lparr>sb_magic = JFS_MAGIC, sb_block_size = 512, sb_journal_start = 1, sb_journal_blocks = 64, sb_inode_start = 65,
                sb_inode_blocks = 32, sb_data_start = 100, sb_total_blocks = jp_length p div 512\<rparr>;
     let s1 = disk_write p 0 (enc_words (sb_words sb) @ replicate 480 0) (s\<lparr>j_sb := sb\<rparr>);
     (root, s2) \<leftarrow> get_inode p 0 s1;
     s3 \<leftarrow> (case root of
        None \<Rightarrow> Some s2
      | Some x \<Rightarrow> put_inode p (x\<lparr>in_inode := 0, in_size := 0, in_flags := JFS_DIRECTORY, in_blocks := (in_blocks x)[0 := sb_data_start sb]\<rparr>) 0
                    (jfs_set_inode_metadata 0 511 0 0 s2));
     Some (s3\<lparr>jfs_next_free_block := add32 (sb_data_start sb) 1\<rparr>)
   }"

text \<open>The argument is the node of the active partition, the inner \<open>None\<close> of the result the null pointer.\<close>

definition jfs_init :: "'d jfs_part option \<Rightarrow> 'd jfs \<Rightarrow> (jfs_node option \<times> 'd jfs) option" where
  "jfs_init part s =
     (case part of
        None \<Rightarrow> Some (None, s)
      | Some p \<Rightarrow> do {
          (sb_sector, s1) \<leftarrow> disk_read p 0
            (s\<lparr>jfs_inode_mode := (\<lambda>_. 0), jfs_inode_uid := (\<lambda>_. 0), jfs_inode_gid := (\<lambda>_. 0)\<rparr>);
          let sb = words_sb (dec_words 8 sb_sector 0);
          s2 \<leftarrow> (if sb_magic sb \<noteq> JFS_MAGIC then jfs_format p (s1\<lparr>j_sb := sb\<rparr>)
                  else Some (s1\<lparr>j_sb := sb, jfs_next_free_block := add32 (sb_data_start sb) 1\<rparr>));
          let (ok, s3) = j_alloc s2;
          Some (if ok then Some jfs_root_node else None, s3)
        })"

declare read_loop.simps [simp del] write_loop.simps [simp del]

end
