(* ===== verification/JfsInv.thy ===== *)
theory JfsInv
  imports Jfs
begin

text \<open>
  What the blocks, inodes and directories of the journaling file system hold: the cached accesses of \<^theory_text>\<open>Jfs\<close> on a
  partition that works, the inode table as a function from numbers to inodes, and the entries of a directory.
\<close>

section \<open>Blocks\<close>

text \<open>A partition of \<open>N\<close> blocks whose callbacks do not fail; \<open>content\<close> is what its blocks hold. All of it can be addressed with 32 bits.\<close>

definition part_ok :: "'d jfs_part \<Rightarrow> nat \<Rightarrow> ('d \<Rightarrow> nat \<Rightarrow> u8 list) \<Rightarrow> bool" where
  "part_ok p N content \<longleftrightarrow> N \<le> 2 ^ 23 \<and>
     (\<forall>d b. b < N \<longrightarrow> jp_read p d (512 * b) = content d b \<and> length (content d b) = 512) \<and>
     (\<forall>d b x. b < N \<longrightarrow> length x = 512 \<longrightarrow> content (jp_write p d (512 * b) x) = (content d)(b := x))"

text \<open>The cache agrees with the partition, and memory is not exhausted.\<close>

definition jfs_ok :: "'d jfs_part \<Rightarrow> nat \<Rightarrow> ('d \<Rightarrow> nat \<Rightarrow> u8 list) \<Rightarrow> 'd jfs \<Rightarrow> bool" where
  "jfs_ok p N content s \<longleftrightarrow> part_ok p N content \<and> bcache_inv (j_cache s) \<and> (\<forall>n. j_kmalloc s n) \<and>
     (\<exists>K. bc.coherent K (j_cache s) \<and> (\<forall>b < N. K (of_nat (jp_impl p), of_nat b) = content (j_dev s) b))"

text \<open>Everything of the state but the device, the cache and the number of allocations so far.\<close>

definition same_state :: "'d jfs \<Rightarrow> 'd jfs \<Rightarrow> bool" where
  "same_state s s' \<longleftrightarrow> j_sb s' = j_sb s \<and> current_tx_id s' = current_tx_id s \<and> jfs_next_free_block s' = jfs_next_free_block s \<and>
     next_inode s' = next_inode s \<and> jfs_inode_mode s' = jfs_inode_mode s \<and> jfs_inode_uid s' = jfs_inode_uid s \<and>
     jfs_inode_gid s' = jfs_inode_gid s"

lemma same_state_refl [simp]: "same_state s s"
  by (simp add: same_state_def)

lemma same_state_trans: "same_state s t \<Longrightarrow> same_state t u \<Longrightarrow> same_state s u"
  by (simp add: same_state_def)

lemma jfs_ok_bounds: "jfs_ok p N content s \<Longrightarrow> b < N \<Longrightarrow> length (content (j_dev s) b) = 512 \<and> b < 2 ^ 23"
  by (auto simp: jfs_ok_def part_ok_def)

lemma block_offset: "b < 2 ^ 23 \<Longrightarrow> mul32 b 512 = 512 * b"
  by (simp add: wrap_simps)

lemma disk_read_ok:
  assumes "jfs_ok p N content s" "b < N"
  shows "\<exists>s'. disk_read p b s = Some (content (j_dev s) b, s') \<and> jfs_ok p N content s' \<and> j_dev s' = j_dev s \<and> same_state s s'"
proof -
  obtain K where K: "bc.coherent K (j_cache s)" "\<forall>b < N. K (of_nat (jp_impl p), of_nat b) = content (j_dev s) b"
    using assms(1) by (auto simp: jfs_ok_def)
  have inv: "bcache_inv (j_cache s)" "part_ok p N content" using assms(1) by (simp_all add: jfs_ok_def)
  let ?k = "(of_nat (jp_impl p) :: u32, of_nat b :: u32)"
  have Ks: "K ?k = content (j_dev s) b" using K(2) assms(2) by simp
  obtain r d c where rd: "bcache_read (j_cache s) (of_nat (jp_impl p)) (of_nat b) [] = (r, d, c)"
    by (metis prod_cases3)
  note c = cached_read [OF inv(1) rd]
  have coh: "bc.coherent K c" using K(1) c unfolding bc.coherent_def by simp
  show ?thesis
  proof (cases "r = 0")
    case True
    then have "d = content (j_dev s) b" using c K(1) Ks unfolding bc.coherent_def by auto
    moreover have "jfs_ok p N content (s\<lparr>j_cache := c\<rparr>)" using assms(1) c coh K(2) by (auto simp: jfs_ok_def)
    ultimately show ?thesis using rd True by (simp add: disk_read_def same_state_def)
  next
    case False
    have full: "length (content (j_dev s) b) = 512" "jp_read p (j_dev s) (512 * b) = content (j_dev s) b" "b < 2 ^ 23"
      using inv(2) assms(2) by (auto simp: part_ok_def)
    let ?c = "bcache_write c (of_nat (jp_impl p)) (of_nat b) (content (j_dev s) b)"
    have "bc.coherent K ?c" using bc.coherent_fill [of c K ?k] c coh full Ks by simp
    moreover have "bcache_inv ?c" using bcache_inv_write c full by blast
    ultimately have "jfs_ok p N content (s\<lparr>j_cache := ?c\<rparr>)" using assms(1) K(2) by (auto simp: jfs_ok_def)
    then show ?thesis using rd False full by (simp add: disk_read_def same_state_def block_offset Let_def)
  qed
qed

lemma disk_write_ok:
  assumes "jfs_ok p N content s" "b < N" "length x = 512"
  shows "jfs_ok p N content (disk_write p b x s)" "content (j_dev (disk_write p b x s)) = (content (j_dev s))(b := x)"
    "same_state s (disk_write p b x s)"
proof -
  obtain K where K: "bc.coherent K (j_cache s)" "\<forall>b < N. K (of_nat (jp_impl p), of_nat b) = content (j_dev s) b"
    using assms(1) by (auto simp: jfs_ok_def)
  have inv: "bcache_inv (j_cache s)" "part_ok p N content" using assms(1) by (simp_all add: jfs_ok_def)
  have b: "b < 2 ^ 23" "N \<le> 2 ^ 23" using inv(2) assms(2) by (auto simp: part_ok_def)
  let ?s = "disk_write p b x s"
  let ?k = "(of_nat (jp_impl p) :: u32, of_nat b :: u32)"
  let ?c = "bcache_write (j_cache s) (of_nat (jp_impl p)) (of_nat b) x"
  have C: "content (j_dev ?s) = (content (j_dev s))(b := x)"
    using inv(2) assms(2,3) b by (auto simp: disk_write_def block_offset part_ok_def)
  then show "content (j_dev ?s) = (content (j_dev s))(b := x)" .
  have u: "(of_nat y :: u32) = of_nat b \<longleftrightarrow> y = b" if "y < N" for y
    using that b by (auto simp: word_of_nat_eq_iff take_bit_nat_eq_self)
  have "bc.coherent (K(?k := x)) ?c" using bc.coherent_write_through [OF inv(1) _ K(1), of x ?k] assms(3) by simp
  moreover have "\<forall>y < N. (K(?k := x)) (of_nat (jp_impl p), of_nat y) = content (j_dev ?s) y"
    using K(2) u by (auto simp: C)
  moreover have "bcache_inv ?c" using bcache_inv_write [OF inv(1) assms(3)] .
  ultimately show "jfs_ok p N content ?s"
    using assms(1) unfolding jfs_ok_def by (auto simp: disk_write_def intro!: exI [of _ "K(?k := x)"])
  show "same_state s ?s" by (simp add: disk_write_def same_state_def)
qed

section \<open>The interface of the block layer\<close>

text \<open>
  What the file system relies on: reading a block returns what it holds and changes nothing that can be seen, writing one replaces
  exactly that block. Reading, changing and writing back is the step from which the metadata operations are made.
\<close>

locale block_layer =
  fixes ok :: "'s \<Rightarrow> bool"
    and blk :: "'s \<Rightarrow> nat \<Rightarrow> u8 list"
    and valid :: "nat \<Rightarrow> bool"
    and rd :: "nat \<Rightarrow> 's \<Rightarrow> (u8 list \<times> 's) option"
    and wr :: "nat \<Rightarrow> u8 list \<Rightarrow> 's \<Rightarrow> 's"
    and kept :: "'s \<Rightarrow> 's \<Rightarrow> bool"
  assumes rd_law: "ok s \<Longrightarrow> valid b \<Longrightarrow> \<exists>s'. rd b s = Some (blk s b, s') \<and> ok s' \<and> blk s' = blk s \<and> kept s s'"
    and wr_law: "ok s \<Longrightarrow> valid b \<Longrightarrow> length x = 512 \<Longrightarrow> ok (wr b x s) \<and> blk (wr b x s) = (blk s)(b := x) \<and> kept s (wr b x s)"
    and blk_length: "ok s \<Longrightarrow> valid b \<Longrightarrow> length (blk s b) = 512"
    and kept_trans: "kept s t \<Longrightarrow> kept t u \<Longrightarrow> kept s u"
begin

definition modify :: "nat \<Rightarrow> (u8 list \<Rightarrow> u8 list) \<Rightarrow> 's \<Rightarrow> 's option" where
  "modify b f s = (case rd b s of None \<Rightarrow> None | Some (x, s') \<Rightarrow> Some (wr b (f x) s'))"

lemma modify_law:
  assumes "ok s" "valid b" "length (f (blk s b)) = 512"
  shows "\<exists>s'. modify b f s = Some s' \<and> ok s' \<and> blk s' = (blk s)(b := f (blk s b)) \<and> kept s s'"
proof -
  obtain s1 where s1: "rd b s = Some (blk s b, s1)" "ok s1" "blk s1 = blk s" "kept s s1" using rd_law [OF assms(1,2)] by blast
  show ?thesis using s1 wr_law [OF s1(2) assms(2,3)] kept_trans [OF s1(4)] by (auto simp: modify_def)
qed

lemma read_after_modify:
  assumes "ok s" "valid b" "length (f (blk s b)) = 512" "valid c"
  shows "\<exists>s' s''. modify b f s = Some s' \<and> rd c s' = Some (if c = b then f (blk s b) else blk s c, s'')"
proof -
  obtain s' where s': "modify b f s = Some s'" "ok s'" "blk s' = (blk s)(b := f (blk s b))" using modify_law [where f = f, OF assms(1-3)] by blast
  then show ?thesis using rd_law [OF s'(2) assms(4)] by auto
qed

end

interpretation jb: block_layer "jfs_ok p N content" "\<lambda>s. content (j_dev s)" "\<lambda>b. b < N" "disk_read p" "disk_write p" same_state
  for p :: "'d jfs_part" and N :: nat and content :: "'d \<Rightarrow> nat \<Rightarrow> u8 list"
proof
  show "\<exists>s'. disk_read p b s = Some (content (j_dev s) b, s') \<and> jfs_ok p N content s' \<and> content (j_dev s') = content (j_dev s) \<and> same_state s s'"
    if "jfs_ok p N content s" "b < N" for s b using disk_read_ok [OF that] by auto
  show "jfs_ok p N content (disk_write p b x s) \<and> content (j_dev (disk_write p b x s)) = (content (j_dev s))(b := x) \<and> same_state s (disk_write p b x s)"
    if "jfs_ok p N content s" "b < N" "length x = 512" for s b x using disk_write_ok [OF that] by blast
  show "length (content (j_dev s) b) = 512" if "jfs_ok p N content s" "b < N" for s b using jfs_ok_bounds [OF that] by blast
qed (rule same_state_trans)

section \<open>Layout\<close>

text \<open>The areas of a volume follow each other: journal, inodes, data.\<close>

definition sb_ok :: "nat \<Rightarrow> jfs_superblock \<Rightarrow> bool" where
  "sb_ok N sb \<longleftrightarrow> 0 < sb_journal_start sb \<and> sb_journal_start sb + 4 \<le> sb_inode_start sb \<and>
     sb_inode_start sb + sb_inode_blocks sb \<le> sb_data_start sb \<and> sb_data_start sb < N \<and> N \<le> 2 ^ 23"

definition valid_inode :: "jfs_superblock \<Rightarrow> nat \<Rightarrow> bool" where
  "valid_inode sb idx \<longleftrightarrow> idx < 8 * sb_inode_blocks sb"

lemma inode_block_eq:
  assumes "sb_ok N (j_sb s)" "valid_inode (j_sb s) idx"
  shows "inode_block s idx = sb_inode_start (j_sb s) + idx div 8" "sb_inode_start (j_sb s) + idx div 8 < sb_data_start (j_sb s)"
    "sb_data_start (j_sb s) < N" "sb_journal_start (j_sb s) + 4 \<le> sb_inode_start (j_sb s)"
proof -
  have "idx div 8 < sb_inode_blocks (j_sb s)" using assms(2) by (simp add: valid_inode_def less_mult_imp_div_less mult.commute)
  then show "inode_block s idx = sb_inode_start (j_sb s) + idx div 8" "sb_inode_start (j_sb s) + idx div 8 < sb_data_start (j_sb s)"
    "sb_data_start (j_sb s) < N" "sb_journal_start (j_sb s) + 4 \<le> sb_inode_start (j_sb s)"
    using assms(1) by (auto simp: inode_block_def sb_ok_def wrap_simps)
qed

section \<open>The journal\<close>

definition journal_at :: "nat \<Rightarrow> nat \<Rightarrow> nat \<Rightarrow> u8 list \<Rightarrow> disk \<Rightarrow> disk" where
  "journal_at js tx t x D =
     D(js := journal_header tx JFS_TX_BEGIN 0, js + 1 := journal_header tx JFS_TX_DATA t, js + 2 := x,
       js + 3 := journal_header tx JFS_TX_COMMIT 0, t := x)"

lemma journal_at_same [simp]: "journal_at js tx t x D t = x"
  by (simp add: journal_at_def)

lemma journal_at_other: "c \<noteq> t \<Longrightarrow> c \<notin> {js..<js + 4} \<Longrightarrow> journal_at js tx t x D c = D c"
  by (auto simp: journal_at_def)

lemma length_enc_words: "length (enc_words ws) = 4 * length ws"
  by (induction ws) (simp_all add: enc_words_def)

lemma length_journal_header [simp]: "length (journal_header tx ty t) = 512"
  by (simp add: journal_header_def length_enc_words)

lemma jfs_journal_write_ok:
  assumes "jfs_ok p N content s" "sb_ok N (j_sb s)" "t < N" "length x = 512"
  shows "jfs_ok p N content (jfs_journal_write p t x s)"
    "content (j_dev (jfs_journal_write p t x s)) = journal_at (sb_journal_start (j_sb s)) (current_tx_id s) t x (content (j_dev s))"
    "same_state (s\<lparr>current_tx_id := add32 (current_tx_id s) 1\<rparr>) (jfs_journal_write p t x s)"
proof -
  let ?js = "sb_journal_start (j_sb s)" and ?tx = "current_tx_id s"
  have b: "?js + 3 < N" "N \<le> 2 ^ 23" using assms(2) by (auto simp: sb_ok_def)
  then have a: "add32 ?js 1 = ?js + 1" "add32 ?js 2 = ?js + 2" "add32 ?js 3 = ?js + 3" by (simp_all add: wrap_simps)
  define s1 where "s1 = disk_write p ?js (journal_header ?tx JFS_TX_BEGIN 0) s"
  define s2 where "s2 = disk_write p (?js + 1) (journal_header ?tx JFS_TX_DATA t) s1"
  define s3 where "s3 = disk_write p (?js + 2) x s2"
  define s4 where "s4 = disk_write p (?js + 3) (journal_header ?tx JFS_TX_COMMIT 0) s3"
  define s5 where "s5 = disk_write p t x s4"
  have jw: "jfs_journal_write p t x s = s5\<lparr>current_tx_id := add32 ?tx 1\<rparr>"
    unfolding s5_def s4_def s3_def s2_def s1_def by (simp only: jfs_journal_write_def Let_def a)
  note 1 = disk_write_ok [OF assms(1), of ?js "journal_header ?tx JFS_TX_BEGIN 0", folded s1_def]
  note 2 = disk_write_ok [OF 1(1), of "?js + 1" "journal_header ?tx JFS_TX_DATA t", folded s2_def]
  note 3 = disk_write_ok [OF 2(1), of "?js + 2" x, folded s3_def]
  note 4 = disk_write_ok [OF 3(1), of "?js + 3" "journal_header ?tx JFS_TX_COMMIT 0", folded s4_def]
  note 5 = disk_write_ok [OF 4(1), of t x, folded s5_def]
  have s: "same_state s s5" and ok: "jfs_ok p N content s5"
    and c: "content (j_dev s5) = journal_at ?js ?tx t x (content (j_dev s))"
    using 1 2 3 4 5 assms(3,4) b by (simp_all add: journal_at_def same_state_def)
  show "jfs_ok p N content (jfs_journal_write p t x s)" using ok by (simp add: jw jfs_ok_def)
  show "content (j_dev (jfs_journal_write p t x s)) = journal_at ?js ?tx t x (content (j_dev s))" using c by (simp add: jw)
  show "same_state (s\<lparr>current_tx_id := add32 ?tx 1\<rparr>) (jfs_journal_write p t x s)" using s by (simp add: jw same_state_def)
qed

section \<open>The inode table\<close>

definition inode_at :: "jfs_superblock \<Rightarrow> disk \<Rightarrow> nat \<Rightarrow> jfs_inode" where
  "inode_at sb D idx = words_inode (dec_words 16 (D (sb_inode_start sb + idx div 8)) (idx mod 8 * 64))"

definition inode_put :: "jfs_superblock \<Rightarrow> nat \<Rightarrow> jfs_inode \<Rightarrow> disk \<Rightarrow> disk" where
  "inode_put sb idx nd D = D(sb_inode_start sb + idx div 8 :=
     overwrite (idx mod 8 * 64) (enc_words (inode_words nd)) (D (sb_inode_start sb + idx div 8)))"

definition inode_fits :: "jfs_inode \<Rightarrow> bool" where
  "inode_fits nd \<longleftrightarrow> length (in_blocks nd) = 12 \<and> (\<forall>w \<in> set (inode_words nd). w < 2 ^ 32)"

lemma nth_enc_words: "i < length ws \<Longrightarrow> k < 4 \<Longrightarrow> enc_words ws ! (4 * i + k) = enc32 (ws ! i) ! k"
proof (induction ws arbitrary: i)
  case (Cons w ws)
  then show ?case by (cases i) (auto simp: enc_words_def nth_append)
qed simp

lemma le32_enc_words:
  assumes "i < length ws" "p + 4 * length ws \<le> length b"
  shows "le32 (overwrite p (enc_words ws) b) (p + 4 * i) = ws ! i mod 2 ^ 32"
proof -
  have n: "overwrite p (enc_words ws) b ! (p + 4 * i + k) = overwrite p (enc32 (ws ! i)) b ! (p + k)" if "k < 4" for k
  proof -
    have "4 * i + k < 4 * length ws" using assms(1) that by simp
    then have "p + (4 * i + k) < length b" "p + k < length b" "p + 4 \<le> length b" using assms that by linarith+
    then show ?thesis
      using assms that nth_overwrite [of p "enc_words ws" b "p + (4 * i + k)"] nth_overwrite [of p "enc32 (ws ! i)" b "p + k"]
      by (simp add: length_enc_words nth_enc_words add.assoc)
  qed
  have "p + 4 \<le> length b" using assms by simp
  then show ?thesis
    using le32_same [of p b "ws ! i"] n [of 0] unfolding le32_alt by (simp only: n [of 1] n [of 2] n [of 3]) simp
qed

lemma le32_enc_words_other:
  assumes "p + 4 * length ws \<le> length b" "q + 4 \<le> length b" "p + 4 * length ws \<le> q \<or> q + 4 \<le> p"
  shows "le32 (overwrite p (enc_words ws) b) q = le32 b q"
proof -
  have "overwrite p (enc_words ws) b ! (q + k) = b ! (q + k)" if "k < 4" for k
    using assms that nth_overwrite [of p "enc_words ws" b "q + k"] by (auto simp: length_enc_words)
  from this [of 0] this [of 1] this [of 2] this [of 3] show ?thesis unfolding le32_alt by (simp only:) simp
qed

lemma words_inode_words: "inode_fits nd \<Longrightarrow> words_inode (map (\<lambda>w. w mod 2 ^ 32) (inode_words nd)) = nd"
  by (cases nd) (auto simp: inode_fits_def inode_words_def words_inode_def nth_append intro!: map_idI)

lemma inode_fits_dec: "inode_fits (words_inode (dec_words 16 b off))"
proof -
  have "le32 b i < 2 ^ 32" for i
  proof -
    have u: "unat x < 256" for x :: u8 using unsigned_less [of x, where 'a = nat] by simp
    show ?thesis using u [of "b ! i"] u [of "b ! (i + 1)"] u [of "b ! (i + 2)"] u [of "b ! (i + 3)"] by (simp add: le32_alt)
  qed
  then show ?thesis by (auto simp: inode_fits_def words_inode_def inode_words_def dec_words_def dest!: in_set_dropD)
qed

lemma inode_at_put:
  assumes "inode_fits nd" "length (D (sb_inode_start sb + idx div 8)) = 512"
  shows "inode_at sb (inode_put sb idx nd D) i = (if i = idx then nd else inode_at sb D i)"
proof -
  let ?b = "D (sb_inode_start sb + idx div 8)"
  have l: "length (inode_words nd) = 16" using assms(1) by (simp add: inode_fits_def inode_words_def)
  have m: "idx mod 8 * 64 + 64 \<le> 512" "i mod 8 * 64 + 64 \<le> 512"
    using mod_less_divisor [of 8 idx] mod_less_divisor [of 8 i] by linarith+
  show ?thesis
  proof (cases "i = idx")
    case True
    have "dec_words 16 (overwrite (idx mod 8 * 64) (enc_words (inode_words nd)) ?b) (idx mod 8 * 64) =
        map (\<lambda>w. w mod 2 ^ 32) (inode_words nd)"
      using l m le32_enc_words [of _ "inode_words nd" "idx mod 8 * 64" ?b] assms(2) by (auto simp: dec_words_def intro: nth_equalityI)
    then show ?thesis using True assms(1) by (simp add: inode_at_def inode_put_def words_inode_words del: power_Suc power_numeral)
  next
    case False
    have "dec_words 16 (overwrite (idx mod 8 * 64) (enc_words (inode_words nd)) ?b) (i mod 8 * 64) = dec_words 16 ?b (i mod 8 * 64)"
      if "i div 8 = idx div 8"
    proof -
      have "i mod 8 \<noteq> idx mod 8" using that False by (metis div_mult_mod_eq)
      then have "i mod 8 * 64 + 64 \<le> idx mod 8 * 64 \<or> idx mod 8 * 64 + 64 \<le> i mod 8 * 64" by linarith
      then show ?thesis
        using l m assms(2) by (auto simp: dec_words_def intro!: le32_enc_words_other)
    qed
    then show ?thesis using False by (simp add: inode_at_def inode_put_def)
  qed
qed

lemma inode_put_other: "b \<noteq> sb_inode_start sb + idx div 8 \<Longrightarrow> inode_put sb idx nd D b = D b"
  by (simp add: inode_put_def)

lemma get_inode_ok:
  assumes "jfs_ok p N content s" "sb_ok N (j_sb s)" "valid_inode (j_sb s) idx"
  shows "\<exists>s'. get_inode p idx s = Some (Some (inode_at (j_sb s) (content (j_dev s)) idx), s') \<and> jfs_ok p N content s' \<and>
    j_dev s' = j_dev s \<and> same_state s s'"
proof -
  note b = inode_block_eq [OF assms(2,3)]
  obtain s1 where 1: "disk_read p (inode_block s idx) s = Some (content (j_dev s) (inode_block s idx), s1)" "jfs_ok p N content s1"
    "j_dev s1 = j_dev s" "same_state s s1"
    using disk_read_ok [OF assms(1), of "inode_block s idx"] b by auto
  then have "get_inode p idx s = Some (Some (inode_at (j_sb s) (content (j_dev s)) idx), s1\<lparr>j_allocs := Suc (j_allocs s1)\<rparr>)"
    using b by (simp add: get_inode_def j_alloc_def inode_at_def jfs_ok_def)
  then show ?thesis using 1 by (auto simp: jfs_ok_def same_state_def)
qed

lemma put_inode_ok:
  assumes "jfs_ok p N content s" "sb_ok N (j_sb s)" "valid_inode (j_sb s) idx" "inode_fits nd"
  shows "\<exists>s'. put_inode p nd idx s = Some s' \<and> jfs_ok p N content s' \<and>
    content (j_dev s') = inode_put (j_sb s) idx nd (content (j_dev s)) \<and> same_state s s'"
proof -
  note b = inode_block_eq [OF assms(2,3)]
  let ?b = "sb_inode_start (j_sb s) + idx div 8"
  let ?f = "overwrite (idx mod 8 * 64) (enc_words (inode_words nd))"
  have m: "idx mod 8 * 64 + 64 \<le> 512" using mod_less_divisor [of 8 idx] by linarith
  have "length (inode_words nd) = 16" using assms(4) by (simp add: inode_fits_def inode_words_def)
  then have l: "length (?f (content (j_dev s) ?b)) = 512"
    using m jb.blk_length [OF assms(1), of ?b] b by (simp add: length_overwrite length_enc_words)
  have "put_inode p nd idx s = jb.modify p ?b ?f s"
    unfolding put_inode_def jb.modify_def b(1) by (simp split: option.splits)
  then show ?thesis using jb.modify_law [where f = ?f, OF assms(1) _ l] b unfolding inode_put_def by simp
qed

section \<open>Files\<close>

text \<open>The bytes of a file, through its twelve blocks: a block number 0 is a hole.\<close>

definition byte_at :: "disk \<Rightarrow> jfs_inode \<Rightarrow> nat \<Rightarrow> u8" where
  "byte_at D nd i = (if in_blocks nd ! (i div 512) = 0 then 0 else D (in_blocks nd ! (i div 512)) ! (i mod 512))"

lemma within_block:
  fixes i :: nat
  assumes "i mod m + k < m"
  shows "(i + k) div m = i div m" "(i + k) mod m = i mod m + k"
proof -
  have e: "i mod m + k + i div m * m = i + k" using div_mult_mod_eq [of i m] by linarith
  have "m \<noteq> 0" using assms by auto
  then show "(i + k) div m = i div m" "(i + k) mod m = i mod m + k"
    using div_mult_self1 [of m "i mod m + k" "i div m"] mod_mult_self1 [of "i mod m + k" "i div m" m] assms
    unfolding e by simp_all
qed

lemma block_bytes:
  assumes "in_blocks nd ! (i div 512) = b" "b \<noteq> 0" "length (D b) = 512" "i mod 512 + n \<le> 512"
  shows "take n (drop (i mod 512) (D b)) = map (byte_at D nd) [i..<i + n]"
proof (rule nth_equalityI)
  fix k assume "k < length (take n (drop (i mod 512) (D b)))"
  then have k: "k < n" by simp
  have "i mod 512 + k < 512" using k assms(4) by simp
  then show "take n (drop (i mod 512) (D b)) ! k = map (byte_at D nd) [i..<i + n] ! k"
    using k assms by (simp add: byte_at_def within_block)
qed (use assms in simp)

lemma read_loop_ok:
  assumes "jfs_ok p N content s" "length (in_blocks nd) = 12" "\<forall>b \<in> set (in_blocks nd). b < N" "offset + sz < 2 ^ 32"
  shows "\<exists>s'. read_loop p nd offset sz k s = Some (map (byte_at (content (j_dev s)) nd) [offset + k..<min (offset + sz) 6144], s') \<and>
    jfs_ok p N content s' \<and> j_dev s' = j_dev s \<and> same_state s s'"
  using assms
proof (induction p nd offset sz k s rule: read_loop.induct)
  case (1 p nd offset sz k s)
  let ?D = "content (j_dev s)" and ?bi = "(offset + k) div 512" and ?bo = "(offset + k) mod 512"
  show ?case
  proof (cases "k < sz")
    case False
    then show ?thesis using 1(3) by (simp add: read_loop.simps)
  next
    case k: True
    then have a: "add32 offset k = offset + k" using 1(6) by (simp add: wrap_simps)
    show ?thesis
    proof (cases "12 \<le> ?bi")
      case True
      then have "6144 \<le> offset + k" by simp
      then show ?thesis using 1(3) k True by (simp add: read_loop.simps a Let_def)
    next
      case bi: False
      then have lt: "offset + k < 6144" by simp
      show ?thesis
      proof (cases "in_blocks nd ! ?bi = 0")
        case True
        obtain s' where s': "read_loop p nd offset sz (k + 1) s =
            Some (map (byte_at ?D nd) [offset + (k + 1)..<min (offset + sz) 6144], s')" "jfs_ok p N content s'" "j_dev s' = j_dev s" "same_state s s'"
          using 1(1) [OF k refl refl] bi True 1(3-6) by (auto simp: a)
        moreover have "map (byte_at ?D nd) [offset + k..<min (offset + sz) 6144] =
            0 # map (byte_at ?D nd) [offset + (k + 1)..<min (offset + sz) 6144]"
          using k lt True by (subst upt_conv_Cons) (auto simp: byte_at_def)
        ultimately show ?thesis using k bi True by (simp add: read_loop.simps [of p nd offset sz k s] a Let_def)
      next
        case False
        let ?b = "in_blocks nd ! ?bi" and ?n = "min (512 - ?bo) (sz - k)"
        have b: "?b < N" using 1(4,5) bi by simp
        obtain s1 where s1: "disk_read p ?b s = Some (?D ?b, s1)" "jfs_ok p N content s1" "j_dev s1 = j_dev s" "same_state s s1"
          using disk_read_ok [OF 1(3) b] by auto
        obtain s' where s': "read_loop p nd offset sz (k + ?n) s1 =
            Some (map (byte_at ?D nd) [offset + (k + ?n)..<min (offset + sz) 6144], s')" "jfs_ok p N content s'" "j_dev s' = j_dev s1" "same_state s1 s'"
          using 1(2) [OF k refl refl _ _ _ refl refl, unfolded a, OF bi False s1(1)] s1(2,3) 1(4-6) by auto
        have len: "length (?D ?b) = 512" using jfs_ok_bounds [OF 1(3) b] by simp
        have "offset + k = 512 * ?bi + ?bo" "?bi \<le> 11" "?bo < 512" using bi by simp_all
        then have le: "offset + k + ?n \<le> min (offset + sz) 6144" using k by linarith
        have "take ?n (drop ?bo (?D ?b)) = map (byte_at ?D nd) [offset + k..<offset + k + ?n]"
          using False len by (intro block_bytes [OF refl]) (auto simp: min_def)
        then have "take ?n (drop ?bo (?D ?b)) @ map (byte_at ?D nd) [offset + (k + ?n)..<min (offset + sz) 6144] =
            map (byte_at ?D nd) [offset + k..<min (offset + sz) 6144]"
          using le upt_add_eq_append [of "offset + k" "offset + k + ?n" "min (offset + sz) 6144 - (offset + k + ?n)"]
          by (simp add: add.assoc)
        then show ?thesis
          using k bi False s1 s' same_state_trans by (simp add: read_loop.simps [of p nd offset sz k s] a Let_def) blast
      qed
    qed
  qed
qed

text \<open>
  The blocks of a file lie in the data area below the allocation counter, no two of its holes aside are the same, and there is room
  to fill its holes.
\<close>

definition holes :: "jfs_inode \<Rightarrow> nat set" where
  "holes nd = {i. i < 12 \<and> in_blocks nd ! i = 0}"

definition file_ok :: "nat \<Rightarrow> jfs_superblock \<Rightarrow> nat \<Rightarrow> jfs_inode \<Rightarrow> bool" where
  "file_ok N sb nf nd \<longleftrightarrow> length (in_blocks nd) = 12 \<and> sb_data_start sb \<le> nf \<and> nf + card (holes nd) \<le> N \<and>
     (\<forall>b \<in> set (in_blocks nd). b = 0 \<or> sb_data_start sb \<le> b \<and> b < nf) \<and>
     (\<forall>i < 12. \<forall>j < 12. i \<noteq> j \<longrightarrow> in_blocks nd ! i = in_blocks nd ! j \<longrightarrow> in_blocks nd ! i = 0)"

definition fill :: "nat \<Rightarrow> nat \<Rightarrow> jfs_inode \<Rightarrow> jfs_inode" where
  "fill bi nf nd = (if in_blocks nd ! bi = 0 then nd\<lparr>in_blocks := (in_blocks nd)[bi := nf]\<rparr> else nd)"

definition next_free :: "nat \<Rightarrow> nat \<Rightarrow> jfs_inode \<Rightarrow> nat" where
  "next_free bi nf nd = (if in_blocks nd ! bi = 0 then nf + 1 else nf)"

lemma file_ok_nth:
  assumes "file_ok N sb nf nd" "j < 12"
  shows "in_blocks nd ! j = 0 \<or> sb_data_start sb \<le> in_blocks nd ! j \<and> in_blocks nd ! j < nf"
proof -
  have "in_blocks nd ! j \<in> set (in_blocks nd)" using assms by (simp add: file_ok_def)
  then show ?thesis using assms by (simp add: file_ok_def)
qed

lemma file_ok_fill:
  assumes "file_ok N sb nf nd" "bi < 12" "sb_ok N sb"
  shows "file_ok N sb (next_free bi nf nd) (fill bi nf nd)" "in_blocks (fill bi nf nd) ! bi \<noteq> 0"
    "sb_data_start sb \<le> in_blocks (fill bi nf nd) ! bi" "in_blocks (fill bi nf nd) ! bi < next_free bi nf nd" "next_free bi nf nd \<le> N"
proof -
  note f = assms(1) [unfolded file_ok_def]
  have fin: "finite (holes nd)" by (simp add: holes_def)
  show "file_ok N sb (next_free bi nf nd) (fill bi nf nd)"
  proof (cases "in_blocks nd ! bi = 0")
    case True
    then have h: "holes (fill bi nf nd) = holes nd - {bi}" "bi \<in> holes nd"
      using f assms by (auto simp: holes_def fill_def nth_list_update sb_ok_def)
    then have "card (holes (fill bi nf nd)) + 1 = card (holes nd)" using fin card_Suc_Diff1 [of "holes nd" bi] by simp
    moreover have "\<forall>b \<in> set (in_blocks (fill bi nf nd)). b = 0 \<or> sb_data_start sb \<le> b \<and> b < nf + 1"
      using f True set_update_subset_insert [of "in_blocks nd" bi nf] by (fastforce simp: fill_def)
    moreover have ne: "in_blocks nd ! i \<noteq> nf" if "i < 12" for i
      using file_ok_nth [OF assms(1) that] f assms(3) by (auto simp: sb_ok_def)
    have "\<forall>i < 12. \<forall>j < 12. i \<noteq> j \<longrightarrow> in_blocks (fill bi nf nd) ! i = in_blocks (fill bi nf nd) ! j \<longrightarrow> in_blocks (fill bi nf nd) ! i = 0"
    proof (intro allI impI)
      fix i j :: nat
      assume a: "i < 12" "j < 12" "i \<noteq> j" "in_blocks (fill bi nf nd) ! i = in_blocks (fill bi nf nd) ! j"
      have "in_blocks nd ! i = in_blocks nd ! j \<Longrightarrow> in_blocks nd ! i = 0" using f a(1-3) by blast
      moreover have "length (in_blocks nd) = 12" using f by simp
      ultimately show "in_blocks (fill bi nf nd) ! i = 0"
        using a True assms(2) ne [of i] ne [of j] by (simp add: fill_def nth_list_update split: if_splits)
    qed
    ultimately show ?thesis using f True by (simp add: file_ok_def fill_def next_free_def)
  qed (use assms(1) in \<open>simp add: fill_def next_free_def\<close>)
  note m = file_ok_nth [OF assms(1,2)]
  have "1 \<le> card (holes nd)" if "in_blocks nd ! bi = 0"
    using that assms(2) fin card_gt_0_iff [of "holes nd"] by (auto simp: holes_def)
  moreover have "length (in_blocks nd) = 12" "sb_data_start sb \<le> nf" "nf + card (holes nd) \<le> N" using f by simp_all
  ultimately show "in_blocks (fill bi nf nd) ! bi \<noteq> 0" "sb_data_start sb \<le> in_blocks (fill bi nf nd) ! bi"
    "in_blocks (fill bi nf nd) ! bi < next_free bi nf nd" "next_free bi nf nd \<le> N"
    using m assms(2,3) by (auto simp: fill_def next_free_def sb_ok_def)
qed

text \<open>
  What writing \<open>buffer\<close> at \<open>offset\<close> does from byte \<open>k\<close> on: the blocks, the allocation counter and the inode before and after.
\<close>

definition wrote :: "nat \<Rightarrow> jfs_superblock \<Rightarrow> nat \<Rightarrow> u8 list \<Rightarrow> nat \<Rightarrow> disk \<times> nat \<times> jfs_inode \<Rightarrow> disk \<times> nat \<times> jfs_inode \<Rightarrow> bool" where
  "wrote N sb offset buffer k \<equiv> \<lambda>(D, nf, nd) (D', nf', nd').
     file_ok N sb nf' nd' \<and> nf \<le> nf' \<and> nd' = nd\<lparr>in_blocks := in_blocks nd'\<rparr> \<and>
     (\<forall>j < 12. in_blocks nd ! j \<noteq> 0 \<longrightarrow> in_blocks nd' ! j = in_blocks nd ! j) \<and>
     (\<forall>i < 6144. offset + k \<le> i \<longrightarrow> i < offset + length buffer \<longrightarrow> in_blocks nd' ! (i div 512) \<noteq> 0 \<and> byte_at D' nd' i = buffer ! (i - offset)) \<and>
     (\<forall>i < 6144. i < offset + k \<or> offset + length buffer \<le> i \<longrightarrow> in_blocks nd' ! (i div 512) = in_blocks nd ! (i div 512) \<longrightarrow>
        byte_at D' nd' i = byte_at D nd i) \<and>
     (\<forall>b. b \<notin> set (in_blocks nd) - {0} \<longrightarrow> b \<notin> {nf..<nf'} \<longrightarrow> b \<notin> {sb_journal_start sb..<sb_journal_start sb + 4} \<longrightarrow> D' b = D b) \<and>
     ((\<forall>i < 6144. offset + k \<le> i \<longrightarrow> i < offset + length buffer \<longrightarrow> in_blocks nd ! (i div 512) \<noteq> 0) \<longrightarrow> nd' = nd \<and> nf' = nf)"

lemma wroteD:
  assumes "wrote N sb offset buffer k (D, nf, nd) (D', nf', nd')"
  shows "file_ok N sb nf' nd'" "nf \<le> nf'" "nd' = nd\<lparr>in_blocks := in_blocks nd'\<rparr>"
    "\<And>j. j < 12 \<Longrightarrow> in_blocks nd ! j \<noteq> 0 \<Longrightarrow> in_blocks nd' ! j = in_blocks nd ! j"
    "\<And>i. i < 6144 \<Longrightarrow> offset + k \<le> i \<Longrightarrow> i < offset + length buffer \<Longrightarrow> in_blocks nd' ! (i div 512) \<noteq> 0 \<and> byte_at D' nd' i = buffer ! (i - offset)"
    "\<And>i. i < 6144 \<Longrightarrow> i < offset + k \<or> offset + length buffer \<le> i \<Longrightarrow> in_blocks nd' ! (i div 512) = in_blocks nd ! (i div 512) \<Longrightarrow>
        byte_at D' nd' i = byte_at D nd i"
    "\<And>b. b \<notin> set (in_blocks nd) - {0} \<Longrightarrow> b \<notin> {nf..<nf'} \<Longrightarrow> b \<notin> {sb_journal_start sb..<sb_journal_start sb + 4} \<Longrightarrow> D' b = D b"
    "(\<And>i. i < 6144 \<Longrightarrow> offset + k \<le> i \<Longrightarrow> i < offset + length buffer \<Longrightarrow> in_blocks nd ! (i div 512) \<noteq> 0) \<Longrightarrow> nd' = nd \<and> nf' = nf"
  using assms unfolding wrote_def prod.case by blast+

lemma wroteI:
  assumes "file_ok N sb nf' nd'" "nf \<le> nf'" "nd' = nd\<lparr>in_blocks := in_blocks nd'\<rparr>"
    "\<And>j. j < 12 \<Longrightarrow> in_blocks nd ! j \<noteq> 0 \<Longrightarrow> in_blocks nd' ! j = in_blocks nd ! j"
    "\<And>i. i < 6144 \<Longrightarrow> offset + k \<le> i \<Longrightarrow> i < offset + length buffer \<Longrightarrow> in_blocks nd' ! (i div 512) \<noteq> 0 \<and> byte_at D' nd' i = buffer ! (i - offset)"
    "\<And>i. i < 6144 \<Longrightarrow> i < offset + k \<or> offset + length buffer \<le> i \<Longrightarrow> in_blocks nd' ! (i div 512) = in_blocks nd ! (i div 512) \<Longrightarrow>
        byte_at D' nd' i = byte_at D nd i"
    "\<And>b. b \<notin> set (in_blocks nd) - {0} \<Longrightarrow> b \<notin> {nf..<nf'} \<Longrightarrow> b \<notin> {sb_journal_start sb..<sb_journal_start sb + 4} \<Longrightarrow> D' b = D b"
    "(\<And>i. i < 6144 \<Longrightarrow> offset + k \<le> i \<Longrightarrow> i < offset + length buffer \<Longrightarrow> in_blocks nd ! (i div 512) \<noteq> 0) \<Longrightarrow> nd' = nd \<and> nf' = nf"
  shows "wrote N sb offset buffer k (D, nf, nd) (D', nf', nd')"
  unfolding wrote_def prod.case by (intro conjI) (use assms in blast)+

lemma wrote_nothing:
  assumes "file_ok N sb nf nd" "6144 \<le> offset + k \<or> length buffer \<le> k"
  shows "wrote N sb offset buffer k (D, nf, nd) (D, nf, nd)"
  using assms by (auto simp: wrote_def)

lemma byte_at_journal:
  assumes "file_ok N sb nf nd" "sb_ok N sb" "q mod 512 + length x \<le> 512" "q div 512 < 12" "in_blocks nd ! (q div 512) = b" "b \<noteq> 0"
    "length (D b) = 512" "i < 6144"
  shows "byte_at (journal_at (sb_journal_start sb) tx b (overwrite (q mod 512) x (D b)) D) nd i =
    (if q \<le> i \<and> i < q + length x then x ! (i - q) else byte_at D nd i)"
proof -
  let ?D = "journal_at (sb_journal_start sb) tx b (overwrite (q mod 512) x (D b)) D"
  let ?c = "in_blocks nd ! (i div 512)"
  have bi: "i div 512 < 12" using assms(8) by simp
  have data: "sb_data_start sb \<le> y" if "y = in_blocks nd ! j" "j < 12" "y \<noteq> 0" for y j
    using file_ok_nth [OF assms(1) that(2)] that by simp
  have keep: "?D y = D y" if "sb_data_start sb \<le> y" "y \<noteq> b" for y
    using that assms(2) by (auto simp: journal_at_def sb_ok_def)
  have o: "q = 512 * (q div 512) + q mod 512" "i = 512 * (i div 512) + i mod 512" by simp_all
  show ?thesis
  proof (cases "i div 512 = q div 512")
    case True
    have "i mod 512 < length (D b)" using assms(7) by simp
    then have n: "?D b ! (i mod 512) =
        (if q mod 512 \<le> i mod 512 \<and> i mod 512 < q mod 512 + length x then x ! (i mod 512 - q mod 512) else D b ! (i mod 512))"
      using nth_overwrite [of "q mod 512" x "D b" "i mod 512"] assms(3,7) by (simp add: journal_at_def)
    have e: "(q mod 512 \<le> i mod 512 \<and> i mod 512 < q mod 512 + length x) = (q \<le> i \<and> i < q + length x)" "i mod 512 - q mod 512 = i - q"
      using o unfolding True by linarith+
    show ?thesis using assms(5,6) n unfolding byte_at_def True e by simp
  next
    case False
    have "\<not> (q \<le> i \<and> i < q + length x)"
    proof
      assume a: "q \<le> i \<and> i < q + length x"
      then have "i = q + (i - q)" "q mod 512 + (i - q) < 512" using assms(3) by linarith+
      then show False using within_block(1) [of q 512 "i - q"] False by simp
    qed
    moreover have "?c = 0 \<or> ?D ?c = D ?c"
    proof (cases "?c = 0")
      case nz: False
      have "?c \<noteq> b" using assms(1,4,5,6) bi False nz unfolding file_ok_def by metis
      then show ?thesis using keep data [OF refl bi nz] by blast
    qed simp
    ultimately show ?thesis by (auto simp: byte_at_def)
  qed
qed

lemma fill_other: "j \<noteq> bi \<Longrightarrow> in_blocks (fill bi nf nd) ! j = in_blocks nd ! j"
  by (simp add: fill_def)

lemma set_fill: "set (in_blocks (fill bi nf nd)) \<subseteq> insert (if in_blocks nd ! bi = 0 then nf else 0) (set (in_blocks nd))"
  using set_update_subset_insert [of "in_blocks nd" bi nf] by (auto simp: fill_def)

lemma wrote_step:
  assumes f: "file_ok N sb nf nd" "sb_ok N sb" and k: "k < length buffer" "bi = (offset + k) div 512" "bi < 12"
    and n: "n = min (512 - (offset + k) mod 512) (length buffer - k)"
    and nd1: "nd1 = fill bi nf nd" "nf1 = next_free bi nf nd" "b = in_blocks nd1 ! bi" "length (D b) = 512"
    and D1: "D1 = journal_at (sb_journal_start sb) tx b (overwrite ((offset + k) mod 512) (take n (drop k buffer)) (D b)) D"
    and r: "wrote N sb offset buffer (k + n) (D1, nf1, nd1) (D', nf', nd')"
  shows "wrote N sb offset buffer k (D, nf, nd) (D', nf', nd')"
proof -
  note f1 = file_ok_fill [OF f(1) k(3) f(2), folded nd1]
  have np: "0 < n" "n \<le> length buffer - k" using n k(1) by (auto simp: min_def)
  have lx: "length (take n (drop k buffer)) = n" using np by simp
  have bytes: "byte_at D1 nd1 i = (if offset + k \<le> i \<and> i < offset + k + n then buffer ! (i - offset) else byte_at D nd1 i)" if "i < 6144" for i
  proof -
    have "(offset + k) mod 512 + n \<le> 512" using n mod_less_divisor [of 512 "offset + k"] by linarith
    then have "byte_at D1 nd1 i = (if offset + k \<le> i \<and> i < offset + k + n then take n (drop k buffer) ! (i - (offset + k)) else byte_at D nd1 i)"
      unfolding D1 using byte_at_journal [OF f1(1) f(2), of "offset + k" "take n (drop k buffer)" b D i tx] lx k nd1 f1(2) that by simp
    moreover have "take n (drop k buffer) ! (i - (offset + k)) = buffer ! (i - offset)" if "offset + k \<le> i" "i < offset + k + n"
    proof -
      have "i - (offset + k) < n" "k + (i - (offset + k)) = i - offset" using that by linarith+
      then show ?thesis using np by simp
    qed
    ultimately show ?thesis by presburger
  qed
  have same: "byte_at D nd1 i = byte_at D nd i" if "in_blocks nd1 ! (i div 512) = in_blocks nd ! (i div 512)" for i
    using that by (simp add: byte_at_def)
  have grow: "in_blocks nd1 ! j = in_blocks nd ! j" if "in_blocks nd ! j \<noteq> 0" for j
    using that nd1 fill_other [of j bi nf nd] by (cases "j = bi") (auto simp: fill_def)
  note r' = wroteD [OF r]
  have "nd1\<lparr>in_blocks := z\<rparr> = nd\<lparr>in_blocks := z\<rparr>" for z by (simp add: nd1(1) fill_def)
  then have fields: "nd' = nd\<lparr>in_blocks := in_blocks nd'\<rparr>" using r'(3) by (rule trans [rotated])
  have nf: "nf \<le> nf1" using nd1 by (simp add: next_free_def)
  note keep = r'(4)
  have new: "in_blocks nd' ! (i div 512) \<noteq> 0 \<and> byte_at D' nd' i = buffer ! (i - offset)"
    if i: "i < 6144" "offset + k \<le> i" "i < offset + length buffer" for i
  proof (cases "offset + (k + n) \<le> i")
    case True
    then show ?thesis using r'(5) i by simp
  next
    case False
    then have "i = offset + k + (i - (offset + k))" "(offset + k) mod 512 + (i - (offset + k)) < 512"
      using i n mod_less_divisor [of 512 "offset + k"] by linarith+
    then have "i div 512 = bi" using within_block(1) [of "offset + k" 512 "i - (offset + k)"] k(2) by simp
    then have nz: "in_blocks nd1 ! (i div 512) \<noteq> 0" "in_blocks nd' ! (i div 512) = in_blocks nd1 ! (i div 512)"
      using f1(2) keep [of bi] k(3) nd1(3) by simp_all
    then have "byte_at D' nd' i = byte_at D1 nd1 i" using r'(6) [of i] i False by simp
    then show ?thesis using nz bytes [OF i(1)] False i(2) by simp
  qed
  have old: "byte_at D' nd' i = byte_at D nd i"
    if i: "i < 6144" "i < offset + k \<or> offset + length buffer \<le> i" "in_blocks nd' ! (i div 512) = in_blocks nd ! (i div 512)" for i
  proof -
    have "i div 512 < 12" using i(1) by simp
    then have e: "in_blocks nd1 ! (i div 512) = in_blocks nd ! (i div 512)"
      using keep [of "i div 512"] grow [of "i div 512"] i(3) by (cases "in_blocks nd1 ! (i div 512) = 0") auto
    moreover have "i < offset + (k + n) \<or> offset + length buffer \<le> i" using i(2) by linarith
    ultimately have "byte_at D' nd' i = byte_at D1 nd1 i" using r'(6) [of i] i(1,3) by simp
    moreover have "\<not> (offset + k \<le> i \<and> i < offset + k + n)" using i(2) np k(1) by linarith
    ultimately show ?thesis using bytes [OF i(1)] same [OF e] by simp
  qed
  have frame: "D' c = D c" if c: "c \<notin> set (in_blocks nd) - {0}" "c \<notin> {nf..<nf'}" "c \<notin> {sb_journal_start sb..<sb_journal_start sb + 4}" for c
  proof -
    note r'(2)
    then have "c \<notin> set (in_blocks nd1) - {0}" "c \<notin> {nf1..<nf'}"
      using c set_fill [of bi nf nd] nf unfolding nd1(1,2) by (auto simp: next_free_def split: if_splits)
    then have "D' c = D1 c" using r'(7) c(3) by blast
    moreover have "c \<noteq> b" using \<open>c \<notin> set (in_blocks nd1) - {0}\<close> f1(1,2) nd1(3) k(3) by (auto simp: file_ok_def)
    then have "D1 c = D c" using c(3) unfolding D1 by (rule journal_at_other)
    ultimately show ?thesis by simp
  qed
  have full: "nd' = nd \<and> nf' = nf" if h: "\<And>i. i < 6144 \<Longrightarrow> offset + k \<le> i \<Longrightarrow> i < offset + length buffer \<Longrightarrow> in_blocks nd ! (i div 512) \<noteq> 0"
  proof -
    have "offset + k < 6144" using k by simp
    then have "in_blocks nd ! bi \<noteq> 0" using h k by simp
    then have "nd1 = nd" "nf1 = nf" using nd1 by (simp_all add: fill_def next_free_def)
    then show ?thesis using r'(8) h by simp
  qed
  have ext: "in_blocks nd' ! j = in_blocks nd ! j" if "j < 12" "in_blocks nd ! j \<noteq> 0" for j using keep [of j] grow [of j] that by simp
  show ?thesis by (rule wroteI [OF r'(1) order_trans [OF nf r'(2)] fields ext new old frame full])
qed

lemma write_loop_ok:
  assumes "jfs_ok p N content s" "sb_ok N (j_sb s)" "file_ok N (j_sb s) (jfs_next_free_block s) nd" "offset + length buffer < 2 ^ 32"
  shows "\<exists>nd' s'. write_loop p offset buffer k nd s = Some (max k (min (length buffer) (6144 - offset)), nd', s') \<and>
    jfs_ok p N content s' \<and> j_sb s' = j_sb s \<and>
    wrote N (j_sb s) offset buffer k (content (j_dev s), jfs_next_free_block s, nd) (content (j_dev s'), jfs_next_free_block s', nd')"
  using assms
proof (induction p offset buffer k nd s rule: write_loop.induct)
  case (1 p offset buffer k nd s)
  let ?nf = "jfs_next_free_block s" and ?sb = "j_sb s"
  let ?bi = "(offset + k) div 512" and ?bo = "(offset + k) mod 512"
  show ?case
  proof (cases "k < length buffer \<and> ?bi < 12")
    case False
    have "\<not> (k < length buffer \<and> offset + k < 6144)" using False by auto
    then have "wrote N ?sb offset buffer k (content (j_dev s), ?nf, nd) (content (j_dev s), ?nf, nd)"
      "max k (min (length buffer) (6144 - offset)) = k"
      using wrote_nothing [OF 1(4)] by (auto simp: max_def min_def)
    moreover have "write_loop p offset buffer k nd s = Some (k, nd, s)"
    proof (cases "k < length buffer")
      case True
      then have "add32 offset k = offset + k" using 1(5) by (simp add: wrap_simps)
      then show ?thesis using True False by (simp add: write_loop.simps Let_def)
    qed (simp add: write_loop.simps)
    ultimately show ?thesis using 1(2) by auto
  next
    case True
    then have k: "k < length buffer" and bi: "?bi < 12" by simp_all
    have a: "add32 offset k = offset + k" using k 1(5) by (simp add: wrap_simps)
    define nd1 where "nd1 = fill ?bi ?nf nd"
    define nf1 where "nf1 = next_free ?bi ?nf nd"
    define s1 where "s1 = s\<lparr>jfs_next_free_block := nf1\<rparr>"
    define b where "b = in_blocks nd1 ! ?bi"
    note f1 = file_ok_fill [OF 1(4) bi 1(3), folded nd1_def nf1_def b_def]
    have N: "N \<le> 2 ^ 23" using 1(3) by (simp add: sb_ok_def)
    then have al: "(if in_blocks nd ! ?bi = 0 then (nd\<lparr>in_blocks := (in_blocks nd)[?bi := ?nf]\<rparr>, s\<lparr>jfs_next_free_block := add32 ?nf 1\<rparr>) else (nd, s)) = (nd1, s1)"
      using f1(5) by (auto simp: nd1_def nf1_def s1_def fill_def next_free_def wrap_simps)
    have ok1: "jfs_ok p N content s1" "b < N" using 1(2) f1(4,5) by (auto simp: s1_def jfs_ok_def)
    obtain s2 where s2: "disk_read p b s1 = Some (content (j_dev s) b, s2)" "jfs_ok p N content s2" "j_dev s2 = j_dev s" "same_state s1 s2"
      using disk_read_ok [OF ok1] by (auto simp: s1_def)
    define n where "n = min (512 - ?bo) (length buffer - k)"
    define x where "x = overwrite ?bo (take n (drop k buffer)) (content (j_dev s) b)"
    define s3 where "s3 = jfs_journal_write p b x s2"
    have len: "length (content (j_dev s) b) = 512" using jfs_ok_bounds [OF 1(2) ok1(2)] by simp
    have "?bo + n \<le> 512" "n \<le> length buffer - k" "0 < n" using n_def mod_less_divisor [of 512 "offset + k"] k by linarith+
    then have lx: "length x = 512" using len by (simp add: x_def length_overwrite)
    have sb2: "j_sb s2 = ?sb" "jfs_next_free_block s2 = nf1" using s2(4) by (simp_all add: same_state_def s1_def)
    note w = jfs_journal_write_ok [OF s2(2) _ ok1(2) lx, folded s3_def, unfolded sb2, OF 1(3)]
    have s3: "j_sb s3 = ?sb" "jfs_next_free_block s3 = nf1" using w(3) sb2 by (simp_all add: same_state_def)
    have unf: "write_loop p offset buffer k nd s = write_loop p offset buffer (k + n) nd1 s3"
      using k bi s2(1) unfolding write_loop.simps [of p offset buffer k nd s] Let_def a al prod.case b_def [symmetric]
      by (simp add: n_def x_def s3_def)
    have "\<exists>nd' s'. write_loop p offset buffer (k + n) nd1 s3 = Some (max (k + n) (min (length buffer) (6144 - offset)), nd', s') \<and>
      jfs_ok p N content s' \<and> j_sb s' = ?sb \<and>
      wrote N ?sb offset buffer (k + n) (content (j_dev s3), nf1, nd1) (content (j_dev s'), jfs_next_free_block s', nd')"
    proof -
      have "(nd1, s1) = (if in_blocks nd ! ?bi = 0 then (nd\<lparr>in_blocks := (in_blocks nd)[?bi := ?nf]\<rparr>, s\<lparr>jfs_next_free_block := add32 ?nf 1\<rparr>) else (nd, s))"
        using al by simp
      from 1(1) [unfolded a, OF k refl refl _ refl this b_def s2(1) refl n_def x_def, folded s3_def] show ?thesis
        using bi w(1) s3 1(3,5) f1(1) by simp
    qed
    then obtain nd' s' where r: "write_loop p offset buffer (k + n) nd1 s3 = Some (max (k + n) (min (length buffer) (6144 - offset)), nd', s')"
      "jfs_ok p N content s'" "j_sb s' = ?sb"
      "wrote N ?sb offset buffer (k + n) (content (j_dev s3), nf1, nd1) (content (j_dev s'), jfs_next_free_block s', nd')" by blast
    have e: "offset + k = 512 * ?bi + ?bo" "?bi \<le> 11" "?bo < 512" using bi by simp_all
    then have "max (k + n) (min (length buffer) (6144 - offset)) = max k (min (length buffer) (6144 - offset))"
      using k n_def by linarith
    moreover have "wrote N ?sb offset buffer k (content (j_dev s), ?nf, nd) (content (j_dev s'), jfs_next_free_block s', nd')"
      using wrote_step [OF 1(4,3) k refl bi n_def nd1_def nf1_def b_def len w(2) [unfolded x_def s2(3)] r(4)] .
    ultimately show ?thesis using r unf by auto
  qed
qed

end
