(* ===== verification/JfsDir.thy ===== *)
theory JfsDir
  imports JfsInv
begin

text \<open>
  The directories of the journaling file system as maps from names to inode numbers: what finding, adding and removing an entry do to
  the map, on the sectors the cache and the journal write.
\<close>

section \<open>Entries of a sector\<close>

text \<open>A sector of entries: the name of every entry in use ends within its field.\<close>

definition sector_ok :: "u8 list \<Rightarrow> bool" where
  "sector_ok x \<longleftrightarrow> length x = 512 \<and> (\<forall>j < 8. ent_inode x j \<noteq> 0 \<longrightarrow> 0 \<in> set (take 60 (drop (64 * j + 4) x)))"

definition has_entry :: "u8 list \<Rightarrow> nat \<Rightarrow> u8 list \<Rightarrow> bool" where
  "has_entry x j name \<longleftrightarrow> ent_inode x j \<noteq> 0 \<and> ent_name x j = name"

lemma strcmp_eq_ok: "0 \<in> set f \<Longrightarrow> 0 \<notin> set name \<Longrightarrow> strcmp_eq f name = Some (takeWhile (\<lambda>c. c \<noteq> 0) f = name)"
  by (induction f name rule: strcmp_eq.induct) auto

lemma sector_ok_ends: "sector_ok x \<Longrightarrow> j < 8 \<Longrightarrow> ent_inode x j \<noteq> 0 \<Longrightarrow> 0 \<in> set (drop (64 * j + 4) x)"
  unfolding sector_ok_def using in_set_takeD by fast

lemma find_in_sector_ok:
  assumes "sector_ok x" "0 \<notin> set name" "j + n \<le> 8"
  shows "find_in_sector x name j n = Some (find (\<lambda>j. has_entry x j name) [j..<j + n])"
  using assms(3)
proof (induction n arbitrary: j)
  case (Suc n)
  have u: "[j..<j + Suc n] = j # [Suc j..<Suc j + n]" using upt_conv_Cons [of j "j + Suc n"] by simp
  show ?case
  proof (cases "ent_inode x j = 0")
    case True
    then show ?thesis unfolding u using Suc by (simp add: has_entry_def)
  next
    case False
    then have "strcmp_eq (drop (64 * j + 4) x) name = Some (ent_name x j = name)"
      using strcmp_eq_ok [OF sector_ok_ends [OF assms(1)] assms(2)] Suc(2) by (simp add: ent_name_def)
    then show ?thesis unfolding u using Suc False by (simp add: has_entry_def)
  qed
qed simp

lemma free_in_sector_ok: "free_in_sector x j n = find (\<lambda>j. ent_inode x j = 0) [j..<j + n]"
proof (induction n arbitrary: j)
  case (Suc n)
  have "[j..<j + Suc n] = j # [Suc j..<Suc j + n]" using upt_conv_Cons [of j "j + Suc n"] by simp
  then show ?case using Suc by simp
qed simp

lemma find_slot:
  "find P [0..<8] = Some j \<Longrightarrow> j < (8 :: nat) \<and> P j" "find P [0..<8] = None \<longleftrightarrow> (\<forall>j < (8 :: nat). \<not> P j)"
  by (auto simp: find_Some_iff find_None_iff)

lemma string_in_field:
  assumes "0 \<in> set (take n xs)"
  shows "takeWhile (\<lambda>c. c \<noteq> (0 :: u8)) xs = takeWhile (\<lambda>c. c \<noteq> 0) (take n xs)"
  using assms takeWhile_append1 [of 0 "take n xs" "\<lambda>c. c \<noteq> 0" "drop n xs"] by simp

text \<open>Two sectors with the same 64 bytes in an entry have the same entry there.\<close>

lemma same_entry:
  assumes "length x = 512" "length y = 512" "j < 8" "\<And>i. 64 * j \<le> i \<Longrightarrow> i < 64 * j + 64 \<Longrightarrow> y ! i = x ! i"
  shows "ent_inode y j = ent_inode x j" "take 60 (drop (64 * j + 4) y) = take 60 (drop (64 * j + 4) x)"
    "0 \<in> set (take 60 (drop (64 * j + 4) x)) \<Longrightarrow> ent_name y j = ent_name x j"
proof -
  show "ent_inode y j = ent_inode x j" using assms(4) by (simp add: ent_inode_def le32_alt)
  show t: "take 60 (drop (64 * j + 4) y) = take 60 (drop (64 * j + 4) x)"
    using assms by (intro nth_equalityI) auto
  then show "0 \<in> set (take 60 (drop (64 * j + 4) x)) \<Longrightarrow> ent_name y j = ent_name x j"
    unfolding ent_name_def using string_in_field [of 60 "drop (64 * j + 4) y"] string_in_field [of 60 "drop (64 * j + 4) x"] by metis
qed

lemma entry_apart: "j \<noteq> j' \<Longrightarrow> 64 * j' + 64 \<le> 64 * j \<or> 64 * j + 64 \<le> 64 * (j' :: nat)"
  by linarith

lemma nth_set_entry:
  assumes "length x = 512" "j < 8" "length name \<le> 59" "i < 512"
  shows "set_entry_bytes j child name x ! i =
    (if 64 * j \<le> i \<and> i < 64 * j + 4 then enc32 child ! (i - 64 * j)
     else if 64 * j + 4 \<le> i \<and> i < 64 * j + 5 + length name then (name @ [0]) ! (i - (64 * j + 4)) else x ! i)"
  using assms unfolding set_entry_bytes_def by (subst nth_overwrite, simp_all add: length_overwrite nth_overwrite)

lemma set_entry_ok:
  assumes "sector_ok x" "j < 8" "length name \<le> 59" "0 \<notin> set name" "0 < child" "child < 2 ^ 32"
  defines "y \<equiv> set_entry_bytes j child name x"
  shows "sector_ok y" "ent_inode y j = child" "ent_name y j = name"
    "\<And>k. k < 8 \<Longrightarrow> k \<noteq> j \<Longrightarrow> ent_inode y k = ent_inode x k \<and> (ent_inode x k \<noteq> 0 \<longrightarrow> ent_name y k = ent_name x k)"
proof -
  have x: "length x = 512" using assms(1) by (simp add: sector_ok_def)
  have y: "length y = 512" using x assms(2,3) by (simp add: y_def set_entry_bytes_def length_overwrite)
  have o: "\<And>k i. k < 8 \<Longrightarrow> k \<noteq> j \<Longrightarrow> 64 * k \<le> i \<Longrightarrow> i < 64 * k + 64 \<Longrightarrow> y ! i = x ! i"
  proof -
    fix k i assume a: "k < 8" "k \<noteq> j" "64 * k \<le> i" "i < 64 * k + 64"
    then have "i < 512" "i < 64 * j \<or> 64 * j + 64 \<le> i" using entry_apart [of k j] by linarith+
    then show "y ! i = x ! i" unfolding y_def using nth_set_entry [OF x assms(2,3), of i child] assms(3) by auto
  qed
  have "le32 y (64 * j) = le32 (overwrite (64 * j) (enc32 child) x) (64 * j)"
    unfolding le32_alt y_def using assms(2,3) x by (simp add: nth_set_entry nth_overwrite)
  then show i: "ent_inode y j = child" unfolding ent_inode_def using le32_same [of "64 * j" x child] x assms(2,6) by simp
  have "take (Suc (length name)) (drop (64 * j + 4) y) = name @ [0]"
    using assms(2,3) x y unfolding y_def by (intro nth_equalityI) (auto simp: nth_set_entry)
  then have d: "drop (64 * j + 4) y = (name @ [0]) @ drop (Suc (length name)) (drop (64 * j + 4) y)" by (metis append_take_drop_id)
  show "ent_name y j = name" unfolding ent_name_def by (subst d) (use assms(4) in \<open>simp add: takeWhile_append\<close>)
  have z: "0 \<in> set (take 60 (drop (64 * j + 4) y))" by (subst d) (use assms(3) in \<open>simp add: take_Cons' \<close>)
  show e: "ent_inode y k = ent_inode x k \<and> (ent_inode x k \<noteq> 0 \<longrightarrow> ent_name y k = ent_name x k)" if "k < 8" "k \<noteq> j" for k
    using same_entry [OF x y that(1) o [OF that]] assms(1) that unfolding sector_ok_def by blast
  show "sector_ok y" unfolding sector_ok_def
  proof (intro conjI allI impI)
    fix k assume k: "k < 8" "ent_inode y k \<noteq> 0"
    show "0 \<in> set (take 60 (drop (64 * k + 4) y))"
    proof (cases "k = j")
      case False
      then show ?thesis using same_entry(2) [OF x y k(1) o [OF k(1)]] e [of k] assms(1) k unfolding sector_ok_def by simp
    qed (use z k in simp)
  qed (rule y)
qed

lemma clear_entry_ok:
  assumes "sector_ok x" "j < 8"
  defines "y \<equiv> clear_entry_bytes j x"
  shows "sector_ok y" "ent_inode y j = 0"
    "\<And>k. k < 8 \<Longrightarrow> k \<noteq> j \<Longrightarrow> ent_inode y k = ent_inode x k \<and> (ent_inode x k \<noteq> 0 \<longrightarrow> ent_name y k = ent_name x k)"
proof -
  have x: "length x = 512" using assms(1) by (simp add: sector_ok_def)
  have y: "length y = 512" using x assms(2) by (simp add: y_def clear_entry_bytes_def length_overwrite)
  have n: "y ! i = (if 64 * j \<le> i \<and> i < 64 * j + 4 then enc32 0 ! (i - 64 * j) else if i = 64 * j + 4 then 0 else x ! i)" if "i < 512" for i
    using that x assms(2) by (auto simp: y_def clear_entry_bytes_def nth_list_update length_overwrite nth_overwrite)
  have o: "\<And>k i. k < 8 \<Longrightarrow> k \<noteq> j \<Longrightarrow> 64 * k \<le> i \<Longrightarrow> i < 64 * k + 64 \<Longrightarrow> y ! i = x ! i"
  proof -
    fix k i assume a: "k < 8" "k \<noteq> j" "64 * k \<le> i" "i < 64 * k + 64"
    then have "i < 512" "i < 64 * j \<or> 64 * j + 64 \<le> i" using entry_apart [of k j] by linarith+
    then show "y ! i = x ! i" using n [of i] by auto
  qed
  have "le32 y (64 * j) = le32 (overwrite (64 * j) (enc32 0) x) (64 * j)"
    unfolding le32_alt using assms(2) x by (simp add: n nth_overwrite)
  then show i: "ent_inode y j = 0" unfolding ent_inode_def using le32_same [of "64 * j" x 0] x assms(2) by simp
  show e: "ent_inode y k = ent_inode x k \<and> (ent_inode x k \<noteq> 0 \<longrightarrow> ent_name y k = ent_name x k)" if "k < 8" "k \<noteq> j" for k
    using same_entry [OF x y that(1) o [OF that]] assms(1) that unfolding sector_ok_def by blast
  show "sector_ok y" unfolding sector_ok_def
  proof (intro conjI allI impI)
    fix k assume k: "k < 8" "ent_inode y k \<noteq> 0"
    show "0 \<in> set (take 60 (drop (64 * k + 4) y))"
    proof (cases "k = j")
      case False
      then show ?thesis using same_entry(2) [OF x y k(1) o [OF k(1)]] e [of k] assms(1) k unfolding sector_ok_def by simp
    qed (use i k in simp)
  qed (rule y)
qed

section \<open>A directory as a map\<close>

text \<open>The slots of a directory are the places of its entries: a block and an index in it.\<close>

definition slots :: "nat list \<Rightarrow> (nat \<times> nat) list" where
  "slots bs = concat (map (\<lambda>b. map (Pair b) [0..<8]) (filter (\<lambda>b. b \<noteq> 0) bs))"

definition entry_of :: "disk \<Rightarrow> nat \<times> nat \<Rightarrow> (u8 list \<times> nat) option" where
  "entry_of D x = (case x of (b, j) \<Rightarrow> if ent_inode (D b) j = 0 then None else Some (ent_name (D b) j, ent_inode (D b) j))"

definition dir_find :: "disk \<Rightarrow> u8 list \<Rightarrow> nat list \<Rightarrow> (nat \<times> nat) option" where
  "dir_find D name bs = find (\<lambda>(b, j). has_entry (D b) j name) (slots bs)"

definition dir_map :: "disk \<Rightarrow> nat list \<Rightarrow> u8 list \<Rightarrow> nat option" where
  "dir_map D bs name = map_option (\<lambda>(b, j). ent_inode (D b) j) (dir_find D name bs)"

text \<open>No name is in a directory twice.\<close>

definition unique_names :: "disk \<Rightarrow> nat list \<Rightarrow> bool" where
  "unique_names D bs \<longleftrightarrow> (\<forall>x \<in> set (slots bs). \<forall>y \<in> set (slots bs). \<forall>n i i'. entry_of D x = Some (n, i) \<longrightarrow> entry_of D y = Some (n, i') \<longrightarrow> x = y)"

definition dir_ok :: "disk \<Rightarrow> nat list \<Rightarrow> bool" where
  "dir_ok D bs \<longleftrightarrow> (\<forall>b \<in> set bs. b \<noteq> 0 \<longrightarrow> sector_ok (D b)) \<and> unique_names D bs"

lemma slots_iff: "(b, j) \<in> set (slots bs) \<longleftrightarrow> b \<in> set bs \<and> b \<noteq> 0 \<and> j < 8"
  by (auto simp: slots_def)

lemma has_entry_iff: "has_entry (D b) j name \<longleftrightarrow> entry_of D (b, j) = Some (name, ent_inode (D b) j)"
  by (auto simp: has_entry_def entry_of_def)

lemma entry_ofD: "entry_of D (b, j) = Some (n, i) \<Longrightarrow> ent_inode (D b) j = i \<and> ent_name (D b) j = n \<and> i \<noteq> 0"
  by (auto simp: entry_of_def split: if_splits)

lemma dir_find_None: "dir_find D name bs = None \<longleftrightarrow> (\<forall>x \<in> set (slots bs). \<forall>i. entry_of D x \<noteq> Some (name, i))"
  by (fastforce simp: dir_find_def find_None_iff has_entry_iff dest: entry_ofD)

lemma dir_find_Some:
  assumes "dir_find D name bs = Some (b, j)"
  shows "(b, j) \<in> set (slots bs)" "entry_of D (b, j) = Some (name, ent_inode (D b) j)"
proof -
  obtain i where "i < length (slots bs)" "slots bs ! i = (b, j)" "has_entry (D b) j name"
    using assms by (auto simp: dir_find_def find_Some_iff)
  then show "(b, j) \<in> set (slots bs)" "entry_of D (b, j) = Some (name, ent_inode (D b) j)"
    using nth_mem [of i "slots bs"] by (auto simp: has_entry_iff)
qed

lemma entry_map_None: "dir_map D bs name = None \<longleftrightarrow> (\<forall>x \<in> set (slots bs). \<forall>i. entry_of D x \<noteq> Some (name, i))"
  by (simp add: dir_map_def dir_find_None)

lemma dir_map_Some:
  assumes "unique_names D bs"
  shows "dir_map D bs name = Some i \<longleftrightarrow> (\<exists>x \<in> set (slots bs). entry_of D x = Some (name, i))"
proof
  assume "dir_map D bs name = Some i"
  then obtain b j where f: "dir_find D name bs = Some (b, j)" "i = ent_inode (D b) j" by (auto simp: dir_map_def)
  then show "\<exists>x \<in> set (slots bs). entry_of D x = Some (name, i)" using dir_find_Some [OF f(1)] by auto
next
  assume "\<exists>x \<in> set (slots bs). entry_of D x = Some (name, i)"
  then obtain x where x: "x \<in> set (slots bs)" "entry_of D x = Some (name, i)" by auto
  then have "dir_find D name bs \<noteq> None" unfolding dir_find_None by blast
  then obtain b j where f: "dir_find D name bs = Some (b, j)" by auto
  then have "(b, j) = x" using dir_find_Some [OF f] x assms unfolding unique_names_def by blast
  then show "dir_map D bs name = Some i" using f x entry_ofD by (fastforce simp: dir_map_def)
qed

lemma entry_map_eqI:
  assumes "unique_names D bs" "\<And>n i. m n = Some i \<longleftrightarrow> (\<exists>x \<in> set (slots bs). entry_of D x = Some (n, i))"
  shows "dir_map D bs = m"
proof
  fix n
  show "dir_map D bs n = m n" using dir_map_Some [OF assms(1), of n] assms(2) [of n]
    by (cases "dir_map D bs n"; cases "m n") auto
qed

lemma dir_map_add:
  assumes "unique_names D bs" "x0 \<in> set (slots bs')" "set (slots bs) \<subseteq> set (slots bs')" "dir_map D bs name = None"
    "x0 \<in> set (slots bs) \<Longrightarrow> entry_of D x0 = None"
    "\<And>x. x \<in> set (slots bs') \<Longrightarrow> entry_of D' x = (if x = x0 then Some (name, child) else if x \<in> set (slots bs) then entry_of D x else None)"
  shows "unique_names D' bs'" "dir_map D' bs' = (dir_map D bs)(name \<mapsto> child)"
proof -
  have none: "entry_of D x \<noteq> Some (name, i)" if "x \<in> set (slots bs)" for x i using assms(4) that by (simp add: entry_map_None)
  have E: "(x \<in> set (slots bs') \<and> entry_of D' x = Some (n, i)) \<longleftrightarrow>
      x = x0 \<and> n = name \<and> i = child \<or> x \<in> set (slots bs) \<and> entry_of D x = Some (n, i)" for x n i
    using assms(2,3,5) assms(6) [of x] by (auto split: if_splits)
  show u: "unique_names D' bs'" unfolding unique_names_def
  proof (intro ballI allI impI)
    fix x y n i i'
    assume "x \<in> set (slots bs')" "y \<in> set (slots bs')" "entry_of D' x = Some (n, i)" "entry_of D' y = Some (n, i')"
    then have "x = x0 \<and> n = name \<and> i = child \<or> x \<in> set (slots bs) \<and> entry_of D x = Some (n, i)"
      "y = x0 \<and> n = name \<and> i' = child \<or> y \<in> set (slots bs) \<and> entry_of D y = Some (n, i')"
      using E [of x n i] E [of y n i'] by simp_all
    then show "x = y" using none [of x i] none [of y i'] assms(1) unfolding unique_names_def by metis
  qed
  show "dir_map D' bs' = (dir_map D bs)(name \<mapsto> child)"
  proof (rule entry_map_eqI [OF u])
    fix n i
    have "(\<exists>x \<in> set (slots bs'). entry_of D' x = Some (n, i)) \<longleftrightarrow> n = name \<and> i = child \<or> (\<exists>x \<in> set (slots bs). entry_of D x = Some (n, i))"
      using E [of _ n i] by blast
    then show "((dir_map D bs)(name \<mapsto> child)) n = Some i \<longleftrightarrow> (\<exists>x \<in> set (slots bs'). entry_of D' x = Some (n, i))"
      using none dir_map_Some [OF assms(1), of n i] by auto
  qed
qed

lemma dir_map_remove:
  assumes "unique_names D bs" "x0 \<in> set (slots bs)" "entry_of D x0 = Some (name, j)"
    "\<And>x. x \<in> set (slots bs) \<Longrightarrow> entry_of D' x = (if x = x0 then None else entry_of D x)"
  shows "unique_names D' bs" "dir_map D' bs = (dir_map D bs)(name := None)"
proof -
  have one: "x = x0" if "x \<in> set (slots bs)" "entry_of D x = Some (name, i)" for x i
    using assms(1-3) that unfolding unique_names_def by blast
  have E: "(x \<in> set (slots bs) \<and> entry_of D' x = Some (n, i)) \<longleftrightarrow> n \<noteq> name \<and> x \<in> set (slots bs) \<and> entry_of D x = Some (n, i)" for x n i
  proof (cases "x = x0")
    case True
    then show ?thesis using assms(2,3) assms(4) [of x0] by simp
  next
    case False
    then show ?thesis using assms(4) [of x] one [of x i] by auto
  qed
  show u: "unique_names D' bs" unfolding unique_names_def
    using E assms(1) unfolding unique_names_def by metis
  show "dir_map D' bs = (dir_map D bs)(name := None)"
  proof (rule entry_map_eqI [OF u])
    fix n i
    have "(\<exists>x \<in> set (slots bs). entry_of D' x = Some (n, i)) \<longleftrightarrow> n \<noteq> name \<and> (\<exists>x \<in> set (slots bs). entry_of D x = Some (n, i))"
      using E [of _ n i] by blast
    then show "((dir_map D bs)(name := None)) n = Some i \<longleftrightarrow> (\<exists>x \<in> set (slots bs). entry_of D' x = Some (n, i))"
      using dir_map_Some [OF assms(1), of n i] by auto
  qed
qed

section \<open>Finding an entry\<close>

lemma find_mapped: "find P (map f xs) = map_option f (find (P \<circ> f) xs)"
  by (induction xs) auto

lemma search_blocks_ok:
  assumes "jfs_ok p N content s" "\<forall>b \<in> set bs. b < N \<and> (b \<noteq> 0 \<longrightarrow> sector_ok (content (j_dev s) b))" "0 \<notin> set name"
  shows "\<exists>s'. search_blocks p name bs s =
      Some (map_option (\<lambda>(b, j). (b, content (j_dev s) b, j)) (dir_find (content (j_dev s)) name bs), s') \<and>
    jfs_ok p N content s' \<and> j_dev s' = j_dev s \<and> same_state s s'"
  using assms(1,2)
proof (induction bs arbitrary: s)
  case Nil
  then show ?case by (auto simp: dir_find_def slots_def)
next
  case (Cons b bs)
  let ?D = "content (j_dev s)"
  have c: "dir_find ?D name (b # bs) = (if b = 0 then dir_find ?D name bs
      else case find (\<lambda>j. has_entry (?D b) j name) [0..<8] of Some j \<Rightarrow> Some (b, j) | None \<Rightarrow> dir_find ?D name bs)"
    by (auto simp: dir_find_def slots_def find_append find_mapped comp_def split: option.splits)
  show ?case
  proof (cases "b = 0")
    case True
    then show ?thesis using Cons.IH [OF Cons.prems(1)] Cons.prems(2) c by simp
  next
    case False
    obtain s1 where s1: "disk_read p b s = Some (?D b, s1)" "jfs_ok p N content s1" "j_dev s1 = j_dev s" "same_state s s1"
      using disk_read_ok [OF Cons.prems(1), of b] Cons.prems(2) by auto
    have f: "find_in_sector (?D b) name 0 8 = Some (find (\<lambda>j. has_entry (?D b) j name) [0..<8])"
      using find_in_sector_ok [of "?D b" name 0 8] Cons.prems(2) False assms(3) by simp
    show ?thesis
    proof (cases "find (\<lambda>j. has_entry (?D b) j name) [0..<8]")
      case None
      obtain s' where "search_blocks p name bs s1 = Some (map_option (\<lambda>(b, j). (b, ?D b, j)) (dir_find ?D name bs), s')"
        "jfs_ok p N content s'" "j_dev s' = j_dev s1" "same_state s1 s'"
        using Cons.IH [OF s1(2)] Cons.prems(2) s1(3) by auto
      then show ?thesis using None False s1 f c same_state_trans by auto
    next
      case (Some j)
      then show ?thesis using False s1 f c by auto
    qed
  qed
qed

text \<open>A directory with the given inode, and its entries.\<close>

definition is_dir :: "nat \<Rightarrow> jfs_superblock \<Rightarrow> nat \<Rightarrow> disk \<Rightarrow> nat \<Rightarrow> bool" where
  "is_dir N sb nf D idx \<longleftrightarrow> valid_inode sb idx \<and> is_dir_flags (in_flags (inode_at sb D idx)) \<and>
     file_ok N sb nf (inode_at sb D idx) \<and> dir_ok D (in_blocks (inode_at sb D idx))"

definition entries :: "jfs_superblock \<Rightarrow> disk \<Rightarrow> nat \<Rightarrow> u8 list \<Rightarrow> nat option" where
  "entries sb D idx = dir_map D (in_blocks (inode_at sb D idx))"

lemma file_ok_blocks: "file_ok N sb nf nd \<Longrightarrow> sb_ok N sb \<Longrightarrow> b \<in> set (in_blocks nd) \<Longrightarrow> b < N"
  unfolding file_ok_def sb_ok_def by fastforce

lemma dir_blocks:
  assumes "is_dir N sb nf D idx" "sb_ok N sb"
  shows "\<forall>b \<in> set (in_blocks (inode_at sb D idx)). b < N \<and> (b \<noteq> 0 \<longrightarrow> sector_ok (D b))"
  using assms file_ok_blocks unfolding is_dir_def dir_ok_def by blast

lemma jfs_find_entry_ok:
  assumes "jfs_ok p N content s" "sb_ok N (j_sb s)" "is_dir N (j_sb s) nf (content (j_dev s)) idx" "0 \<notin> set name"
  shows "\<exists>r e s'. jfs_find_entry p idx name s = Some (r, e, s') \<and> jfs_ok p N content s' \<and> j_dev s' = j_dev s \<and> same_state s s' \<and>
    (case entries (j_sb s) (content (j_dev s)) idx name of
       None \<Rightarrow> r = - ENOENT \<and> e = None
     | Some i \<Rightarrow> r = 0 \<and> (\<exists>b j. e = Some (i, name, b, j)))"
proof -
  let ?D = "content (j_dev s)" and ?sb = "j_sb s"
  let ?nd = "inode_at ?sb ?D idx"
  have v: "valid_inode ?sb idx" "is_dir_flags (in_flags ?nd)" using assms(3) by (simp_all add: is_dir_def)
  obtain s1 where s1: "get_inode p idx s = Some (Some ?nd, s1)" "jfs_ok p N content s1" "j_dev s1 = j_dev s" "same_state s s1"
    using get_inode_ok [OF assms(1,2) v(1)] by auto
  obtain s2 where s2: "search_blocks p name (in_blocks ?nd) s1 = Some (map_option (\<lambda>(b, j). (b, ?D b, j)) (dir_find ?D name (in_blocks ?nd)), s2)"
    "jfs_ok p N content s2" "j_dev s2 = j_dev s1" "same_state s1 s2"
    using search_blocks_ok [OF s1(2) _ assms(4), of "in_blocks ?nd"] dir_blocks [OF assms(3,2)] s1(3) by auto
  have ss: "same_state s s2" "j_dev s2 = j_dev s" using s1 s2 same_state_trans by auto
  show ?thesis
  proof (cases "dir_find ?D name (in_blocks ?nd)")
    case None
    then show ?thesis using s1 s2 ss v by (simp add: jfs_find_entry_def entries_def dir_map_def)
  next
    case (Some x)
    obtain b j where "x = (b, j)" by (cases x)
    then show ?thesis
      using Some s1 s2 ss v dir_find_Some [of ?D name "in_blocks ?nd" b j] entry_ofD [of ?D b j]
      by (auto simp: jfs_find_entry_def entries_def dir_map_def)
  qed
qed

section \<open>Removing an entry\<close>

lemma inode_at_cong: "D' (sb_inode_start sb + i div 8) = D (sb_inode_start sb + i div 8) \<Longrightarrow> inode_at sb D' i = inode_at sb D i"
  by (simp add: inode_at_def)

lemma inode_at_data:
  assumes "sb_ok N sb" "valid_inode sb i"
  shows "sb_inode_start sb + i div 8 < sb_data_start sb" "sb_inode_start sb + i div 8 \<notin> {sb_journal_start sb..<sb_journal_start sb + 4}"
proof -
  have "i div 8 < sb_inode_blocks sb" using assms(2) by (simp add: valid_inode_def less_mult_imp_div_less mult.commute)
  then show "sb_inode_start sb + i div 8 < sb_data_start sb" "sb_inode_start sb + i div 8 \<notin> {sb_journal_start sb..<sb_journal_start sb + 4}"
    using assms(1) by (auto simp: sb_ok_def)
qed

lemma inode_at_journal:
  assumes "sb_ok N sb" "valid_inode sb i" "sb_data_start sb \<le> b"
  shows "inode_at sb (journal_at (sb_journal_start sb) tx b x D) i = inode_at sb D i"
  using inode_at_data [OF assms(1,2)] assms(3) by (intro inode_at_cong journal_at_other) auto

lemma journal_data:
  assumes "sb_ok N sb" "sb_data_start sb \<le> c" "c \<noteq> b"
  shows "journal_at (sb_journal_start sb) tx b x D c = D c"
  using assms by (intro journal_at_other) (auto simp: sb_ok_def)

text \<open>All of the state but the device, the cache, the transaction counter and the number of allocations.\<close>

definition same_vars :: "'d jfs \<Rightarrow> 'd jfs \<Rightarrow> bool" where
  "same_vars s s' \<longleftrightarrow> same_state (s\<lparr>current_tx_id := current_tx_id s'\<rparr>) s'"

lemma same_varsD:
  "same_vars s s' \<Longrightarrow> j_sb s' = j_sb s" "same_vars s s' \<Longrightarrow> jfs_next_free_block s' = jfs_next_free_block s"
  "same_vars s s' \<Longrightarrow> next_inode s' = next_inode s"
  by (simp_all add: same_vars_def same_state_def)

lemma same_vars_trans: "same_vars s t \<Longrightarrow> same_vars t u \<Longrightarrow> same_vars s u"
  by (simp add: same_vars_def same_state_def)

lemma same_state_vars: "same_state s t \<Longrightarrow> same_vars s t"
  by (simp add: same_vars_def same_state_def)

lemma same_vars_journal: "same_state (s\<lparr>current_tx_id := x\<rparr>) t \<Longrightarrow> same_vars s t"
  by (simp add: same_vars_def same_state_def)

lemma entry_of_same: "ent_inode (D' b) j = ent_inode (D b) j \<Longrightarrow> (ent_inode (D b) j \<noteq> 0 \<Longrightarrow> ent_name (D' b) j = ent_name (D b) j) \<Longrightarrow>
    entry_of D' (b, j) = entry_of D (b, j)"
  by (simp add: entry_of_def)

lemma remove_slot:
  assumes "dir_ok D bs" "(b, j) \<in> set (slots bs)" "entry_of D (b, j) = Some (name, i)"
    "D' b = clear_entry_bytes j (D b)" "\<And>c. c \<in> set bs \<Longrightarrow> c \<noteq> 0 \<Longrightarrow> c \<noteq> b \<Longrightarrow> D' c = D c"
  shows "dir_ok D' bs" "dir_map D' bs = (dir_map D bs)(name := None)"
proof -
  have b: "b \<in> set bs" "b \<noteq> 0" "j < 8" using assms(2) by (simp_all add: slots_iff)
  have ok: "sector_ok (D b)" using assms(1) b by (simp add: dir_ok_def)
  note c = clear_entry_ok [OF ok b(3), folded assms(4)]
  have "entry_of D' x = (if x = (b, j) then None else entry_of D x)" if "x \<in> set (slots bs)" for x
  proof -
    obtain b' j' where x: "x = (b', j')" by (cases x)
    then have x': "b' \<in> set bs" "b' \<noteq> 0" "j' < 8" using that by (simp_all add: slots_iff)
    show ?thesis
    proof (cases "b' = b")
      case True
      then show ?thesis using c(2) c(3) [OF x'(3)] x by (auto simp: entry_of_def)
    next
      case False
      then show ?thesis using assms(5) [OF x'(1,2)] x by (auto simp: entry_of_def)
    qed
  qed
  note r = dir_map_remove [OF _ assms(2,3) this]
  show "dir_map D' bs = (dir_map D bs)(name := None)" using r assms(1) by (simp add: dir_ok_def)
  have "sector_ok (D' c)" if "c \<in> set bs" "c \<noteq> 0" for c
    using that assms(1) assms(5) [OF that] \<open>sector_ok (D' b)\<close> by (cases "c = b") (auto simp: dir_ok_def)
  then show "dir_ok D' bs" using r(1) assms(1) by (simp add: dir_ok_def)
qed

lemma jfs_remove_entry_ok:
  assumes "jfs_ok p N content s" "sb_ok N (j_sb s)" "is_dir N (j_sb s) nf (content (j_dev s)) idx" "0 \<notin> set name"
  shows "\<exists>r i s'. jfs_remove_entry p idx name s = Some (r, i, s') \<and> jfs_ok p N content s' \<and> same_vars s s' \<and>
    (let D = content (j_dev s); D' = content (j_dev s'); sb = j_sb s in
     case entries sb D idx name of
       None \<Rightarrow> r = - ENOENT \<and> D' = D
     | Some n \<Rightarrow> r = 0 \<and> i = n \<and> is_dir N sb nf D' idx \<and> entries sb D' idx = (entries sb D idx)(name := None) \<and>
         (\<forall>k. valid_inode sb k \<longrightarrow> inode_at sb D' k = inode_at sb D k) \<and>
         (\<forall>b. sb_data_start sb \<le> b \<longrightarrow> b \<notin> set (in_blocks (inode_at sb D idx)) \<longrightarrow> D' b = D b))"
proof -
  let ?D = "content (j_dev s)" and ?sb = "j_sb s"
  let ?nd = "inode_at ?sb ?D idx"
  have v: "valid_inode ?sb idx" "is_dir_flags (in_flags ?nd)" "file_ok N ?sb nf ?nd" "dir_ok ?D (in_blocks ?nd)"
    using assms(3) by (simp_all add: is_dir_def)
  obtain s1 where s1: "get_inode p idx s = Some (Some ?nd, s1)" "jfs_ok p N content s1" "j_dev s1 = j_dev s" "same_state s s1"
    using get_inode_ok [OF assms(1,2) v(1)] by auto
  obtain s2 where s2: "search_blocks p name (in_blocks ?nd) s1 = Some (map_option (\<lambda>(b, j). (b, ?D b, j)) (dir_find ?D name (in_blocks ?nd)), s2)"
    "jfs_ok p N content s2" "j_dev s2 = j_dev s1" "same_state s1 s2"
    using search_blocks_ok [OF s1(2) _ assms(4), of "in_blocks ?nd"] dir_blocks [OF assms(3,2)] s1(3) by auto
  have ss: "same_state s s2" "j_dev s2 = j_dev s" using s1 s2 same_state_trans by auto
  show ?thesis
  proof (cases "dir_find ?D name (in_blocks ?nd)")
    case None
    then show ?thesis using s1 s2 ss v same_state_vars by (simp add: jfs_remove_entry_def entries_def dir_map_def Let_def)
  next
    case (Some x)
    obtain b j where x: "x = (b, j)" by (cases x)
    note f = dir_find_Some [OF Some [unfolded x]]
    let ?x = "clear_entry_bytes j (?D b)" and ?i = "ent_inode (?D b) j"
    let ?s = "jfs_journal_write p b ?x s2"
    let ?D' = "content (j_dev ?s)"
    have b: "b \<in> set (in_blocks ?nd)" "b \<noteq> 0" "j < 8" using f(1) by (simp_all add: slots_iff)
    then have bN: "b < N" "sb_data_start ?sb \<le> b" using dir_blocks [OF assms(3,2)] v(3) by (auto simp: file_ok_def)
    have "sector_ok (?D b)" using v(4) b by (simp add: dir_ok_def)
    then have lx: "length ?x = 512" using clear_entry_ok(1) b(3) by (simp add: sector_ok_def)
    have sb2: "j_sb s2 = ?sb" using ss(1) by (simp add: same_state_def)
    note w = jfs_journal_write_ok [OF s2(2) _ bN(1) lx, unfolded sb2 ss(2), OF assms(2)]
    have D': "?D' b = ?x" "\<And>c. sb_data_start ?sb \<le> c \<Longrightarrow> c \<noteq> b \<Longrightarrow> ?D' c = ?D c"
      using w(2) journal_data [OF assms(2)] by auto
    have I: "inode_at ?sb ?D' k = inode_at ?sb ?D k" if "valid_inode ?sb k" for k
      unfolding w(2) by (rule inode_at_journal [OF assms(2) that bN(2)])
    have data: "sb_data_start ?sb \<le> c" if "c \<in> set (in_blocks ?nd)" "c \<noteq> 0" for c using v(3) that by (auto simp: file_ok_def)
    note r = remove_slot [OF v(4) f D'(1) D'(2) [OF data], simplified]
    have "is_dir N ?sb nf ?D' idx" "entries ?sb ?D' idx = (entries ?sb ?D idx)(name := None)"
      using r v I [OF v(1)] by (simp_all add: is_dir_def entries_def)
    moreover have "same_vars s ?s" using same_vars_trans [OF same_state_vars [OF ss(1)] same_vars_journal [OF w(3)]] .
    moreover have "jfs_remove_entry p idx name s = Some (0, ?i, ?s)"
      using s1 s2 v Some x by (simp add: jfs_remove_entry_def)
    moreover have "entries ?sb ?D idx name = Some ?i" using Some x by (simp add: entries_def dir_map_def)
    moreover have "?D' c = ?D c" if "sb_data_start ?sb \<le> c" "c \<notin> set (in_blocks ?nd)" for c
      using that b D'(2) by blast
    ultimately show ?thesis using w(1) I by (auto simp: Let_def)
  qed
qed

section \<open>Adding an entry\<close>

lemma jfs_ensure_dir_block_ok:
  assumes "jfs_ok p N content s" "sb_ok N (j_sb s)" "file_ok N (j_sb s) (jfs_next_free_block s) dir" "i < 12"
    "jfs_next_free_block s < sb_total_blocks (j_sb s)"
  shows "\<exists>s'. jfs_ensure_dir_block p dir i s = (0, fill i (jfs_next_free_block s) dir, s') \<and> jfs_ok p N content s' \<and>
    content (j_dev s') = (if in_blocks dir ! i = 0 then (content (j_dev s))(jfs_next_free_block s := replicate 512 0) else content (j_dev s)) \<and>
    same_state (s\<lparr>jfs_next_free_block := next_free i (jfs_next_free_block s) dir\<rparr>) s'"
proof (cases "in_blocks dir ! i = 0")
  case False
  then show ?thesis using assms by (auto simp: jfs_ensure_dir_block_def fill_def next_free_def)
next
  case True
  let ?nf = "jfs_next_free_block s"
  let ?s = "s\<lparr>jfs_next_free_block := add32 ?nf 1\<rparr>"
  have n: "?nf + 1 \<le> N" using file_ok_fill(5) [OF assms(3,4,2)] True by (simp add: next_free_def)
  then have "add32 ?nf 1 = ?nf + 1" using assms(2) by (simp add: sb_ok_def wrap_simps)
  moreover have "jfs_ok p N content ?s" using assms(1) by (simp add: jfs_ok_def)
  note w = disk_write_ok [OF this, of ?nf "replicate 512 0"]
  ultimately show ?thesis
    using True assms(4,5) n w by (simp add: jfs_ensure_dir_block_def jfs_alloc_block_def fill_def next_free_def)
qed

text \<open>A place for an entry in a block of a directory: the block is a hole, or one of its entries is free.\<close>

definition has_room :: "disk \<Rightarrow> nat \<Rightarrow> bool" where
  "has_room D b \<longleftrightarrow> b = 0 \<or> (\<exists>j < 8. ent_inode (D b) j = 0)"

text \<open>What adding an entry does to the blocks: \<open>k\<close> is the index of the block in the inode and \<open>j\<close> the entry in the block.\<close>

definition added :: "jfs_superblock \<Rightarrow> nat \<Rightarrow> u8 list \<Rightarrow> nat \<Rightarrow> disk \<Rightarrow> nat \<Rightarrow> jfs_inode \<Rightarrow> disk \<Rightarrow> nat \<Rightarrow> nat \<Rightarrow> nat \<Rightarrow> bool" where
  "added sb idx name child D nf dir D' nf' k j \<longleftrightarrow>
     (let dir1 = fill k nf dir; b = in_blocks dir1 ! k; x = (if in_blocks dir ! k = 0 then replicate 512 0 else D b) in
      k < 12 \<and> j < 8 \<and> nf' = next_free k nf dir \<and> ent_inode x j = 0 \<and> D' b = set_entry_bytes j child name x \<and>
      (\<forall>c. sb_data_start sb \<le> c \<longrightarrow> c \<noteq> b \<longrightarrow> D' c = D c) \<and>
      inode_at sb D' idx = dir1\<lparr>in_size := add32 (in_size dir) 64\<rparr> \<and>
      (\<forall>i. valid_inode sb i \<longrightarrow> i \<noteq> idx \<longrightarrow> inode_at sb D' i = inode_at sb D i))"

lemma inode_fits_fill:
  assumes "inode_fits dir" "nf < 2 ^ 32" "k < 12"
  shows "inode_fits (fill k nf dir)" "inode_fits ((fill k nf dir)\<lparr>in_size := add32 x 64\<rparr>)"
  using assms set_update_subset_insert [of "in_blocks dir" k nf]
  by (auto simp: inode_fits_def fill_def inode_words_def add32_def)

lemma ent_inode_zero: "j < 8 \<Longrightarrow> ent_inode (replicate 512 0) j = 0"
  by (simp add: ent_inode_def le32_alt)

lemma length_set_entry: "length x = 512 \<Longrightarrow> j < 8 \<Longrightarrow> length (set_entry_bytes j child name x) = 512"
  by (simp add: set_entry_bytes_def length_overwrite)

text \<open>The turn of the loop that finds a place.\<close>

lemma add_loop_place:
  assumes "jfs_ok p N content s" "sb_ok N (j_sb s)" "valid_inode (j_sb s) idx" "file_ok N (j_sb s) (jfs_next_free_block s) dir"
    "inode_fits dir" "jfs_next_free_block s < sb_total_blocks (j_sb s)" "k < 12" "has_room (content (j_dev s)) (in_blocks dir ! k)"
  shows "\<exists>s' j. add_loop p idx name child k (Suc n) dir s = Some (0, s') \<and> jfs_ok p N content s' \<and>
    same_vars (s\<lparr>jfs_next_free_block := jfs_next_free_block s'\<rparr>) s' \<and>
    added (j_sb s) idx name child (content (j_dev s)) (jfs_next_free_block s) dir (content (j_dev s')) (jfs_next_free_block s') k j"
proof -
  let ?D = "content (j_dev s)" and ?sb = "j_sb s" and ?nf = "jfs_next_free_block s"
  define dir1 where "dir1 = fill k ?nf dir"
  define nf1 where "nf1 = next_free k ?nf dir"
  define b where "b = in_blocks dir1 ! k"
  define x where "x = (if in_blocks dir ! k = 0 then replicate 512 0 else ?D b)"
  note f1 = file_ok_fill [OF assms(4,7,2), folded dir1_def nf1_def b_def]
  have N: "N \<le> 2 ^ 23" "b < N" using assms(2) f1 by (auto simp: sb_ok_def)
  have nfN: "?nf < 2 ^ 32" using f1(5) N by (auto simp: nf1_def next_free_def split: if_splits)
  note fit = inode_fits_fill [OF assms(5) nfN assms(7), folded dir1_def]
  obtain s1 where s1: "jfs_ensure_dir_block p dir k s = (0, dir1, s1)" "jfs_ok p N content s1"
    "content (j_dev s1) = (if in_blocks dir ! k = 0 then ?D(?nf := replicate 512 0) else ?D)"
    "same_state (s\<lparr>jfs_next_free_block := nf1\<rparr>) s1"
    using jfs_ensure_dir_block_ok [OF assms(1,2,4,7,6)] by (auto simp: dir1_def nf1_def)
  let ?D1 = "content (j_dev s1)"
  have sb1: "j_sb s1 = ?sb" using s1(4) by (simp add: same_state_def)
  have nfb: "in_blocks dir ! k = 0 \<Longrightarrow> b = ?nf" using assms(4,7) by (simp add: b_def dir1_def fill_def file_ok_def)
  have D1: "?D1 b = x" "\<And>c. c \<noteq> b \<Longrightarrow> ?D1 c = ?D c" using s1(3) nfb by (auto simp: x_def)
  have I1: "inode_at ?sb ?D1 i = inode_at ?sb ?D i" if "valid_inode ?sb i" for i
    using inode_at_data(1) [OF assms(2) that] f1(3) by (intro inode_at_cong D1(2)) auto
  obtain s2 where s2: "put_inode p dir1 idx s1 = Some s2" "jfs_ok p N content s2" "content (j_dev s2) = inode_put ?sb idx dir1 ?D1" "same_state s1 s2"
    using put_inode_ok [OF s1(2), unfolded sb1, OF assms(2,3) fit(1)] by auto
  have ib: "sb_inode_start ?sb + idx div 8 < sb_data_start ?sb" "sb_data_start ?sb < N"
    using inode_at_data(1) [OF assms(2,3)] assms(2) by (auto simp: sb_ok_def)
  have D2: "content (j_dev s2) c = ?D1 c" if "sb_data_start ?sb \<le> c" for c unfolding s2(3) using that ib by (intro inode_put_other) auto
  obtain s3 where s3: "disk_read p b s2 = Some (x, s3)" "jfs_ok p N content s3" "j_dev s3 = j_dev s2" "same_state s2 s3"
    using disk_read_ok [OF s2(2) N(2)] D2 [OF f1(3)] D1(1) by auto
  have lx: "length x = 512" using jfs_ok_bounds [OF s3(2) N(2)] s3(3) D2 [OF f1(3)] D1(1) by simp
  obtain j where j: "free_in_sector x 0 8 = Some j" "j < 8" "ent_inode x j = 0"
  proof -
    have "\<exists>j < 8. ent_inode x j = 0"
      using assms(8) ent_inode_zero [of 0] by (auto simp: has_room_def x_def b_def dir1_def fill_def intro: exI [of _ 0])
    then have "find (\<lambda>j. ent_inode x j = 0) [0..<8] \<noteq> None" unfolding find_slot(2) by blast
    then obtain j where "find (\<lambda>j. ent_inode x j = 0) [0..<8] = Some j" by blast
    then show ?thesis using that find_slot(1) [of "\<lambda>j. ent_inode x j = 0" j] free_in_sector_ok [of x 0 8] by simp
  qed
  define y where "y = set_entry_bytes j child name x"
  define s4 where "s4 = jfs_journal_write p b y s3"
  have sb3: "j_sb s3 = ?sb" using s2(4) s3(4) sb1 by (simp add: same_state_def)
  have ly: "length y = 512" using length_set_entry [OF lx j(2)] by (simp add: y_def)
  note w = jfs_journal_write_ok [OF s3(2) _ N(2) ly, folded s4_def, unfolded sb3, OF assms(2)]
  have sb4: "j_sb s4 = ?sb" using w(3) sb3 by (simp add: same_state_def)
  let ?dir2 = "dir1\<lparr>in_size := add32 (in_size dir1) 64\<rparr>"
  obtain s5 where s5: "put_inode p ?dir2 idx s4 = Some s5" "jfs_ok p N content s5" "content (j_dev s5) = inode_put ?sb idx ?dir2 (content (j_dev s4))" "same_state s4 s5"
    using put_inode_ok [OF w(1), unfolded sb4, OF assms(2,3)] fit(2) [of "in_size dir1"] unfolding dir1_def by blast
  have D5: "content (j_dev s5) c = content (j_dev s4) c" if "sb_data_start ?sb \<le> c" for c unfolding s5(3) using that ib by (intro inode_put_other) auto
  have D4: "content (j_dev s4) b = y" "\<And>c. sb_data_start ?sb \<le> c \<Longrightarrow> c \<noteq> b \<Longrightarrow> content (j_dev s4) c = ?D c"
    using w(2) journal_data [OF assms(2)] D2 D1(2) s3(3) by auto
  have l: "length (content (j_dev t) (sb_inode_start ?sb + idx div 8)) = 512" if "jfs_ok p N content t" for t
    using jfs_ok_bounds [OF that] ib by auto
  have I5: "inode_at ?sb (content (j_dev s5)) i = (if i = idx then ?dir2 else inode_at ?sb ?D i)" if "valid_inode ?sb i" for i
  proof -
    have "inode_at ?sb (content (j_dev s5)) i = (if i = idx then ?dir2 else inode_at ?sb (content (j_dev s4)) i)"
      unfolding s5(3) using fit(2) [of "in_size dir1"] l [OF w(1)] by (intro inode_at_put) (simp_all add: dir1_def)
    moreover have "inode_at ?sb (content (j_dev s4)) i = inode_at ?sb (content (j_dev s2)) i"
      unfolding w(2) s3(3) by (rule inode_at_journal [OF assms(2) that f1(3)])
    moreover have "inode_at ?sb (content (j_dev s2)) i = (if i = idx then dir1 else inode_at ?sb ?D1 i)"
      unfolding s2(3) using fit(1) l [OF s1(2)] by (intro inode_at_put) simp_all
    ultimately show ?thesis using I1 [OF that] by simp
  qed
  have sz: "in_size dir1 = in_size dir" by (simp add: dir1_def fill_def)
  have nf5: "jfs_next_free_block s5 = nf1" "same_vars (s\<lparr>jfs_next_free_block := nf1\<rparr>) s5"
    using s1(4) s2(4) s3(4) w(3) s5(4) by (simp_all add: same_vars_def same_state_def)
  have "add_loop p idx name child k (Suc n) dir s = Some (0, s5)"
    using s1(1) s2(1) s3(1) s5(1) j(1) by (simp add: b_def y_def s4_def)
  moreover have "added ?sb idx name child ?D ?nf dir (content (j_dev s5)) (jfs_next_free_block s5) k j"
    unfolding added_def Let_def dir1_def [symmetric] b_def [symmetric] x_def [symmetric] nf1_def [symmetric]
    using assms(3,7) j(2,3) D5 D4 I5 f1(3) nf5(1) sz by (simp add: y_def)
  ultimately show ?thesis using s5(2) nf5 by auto
qed

lemma added_cong:
  assumes "added sb idx name child D1 nf dir D' nf' k j" "\<And>c. sb_data_start sb \<le> c \<Longrightarrow> D1 c = D c"
    "\<And>i. valid_inode sb i \<Longrightarrow> i \<noteq> idx \<Longrightarrow> inode_at sb D1 i = inode_at sb D i"
    "in_blocks dir ! k = 0 \<or> sb_data_start sb \<le> in_blocks dir ! k"
  shows "added sb idx name child D nf dir D' nf' k j"
proof -
  let ?b = "in_blocks (fill k nf dir) ! k"
  have "(if in_blocks dir ! k = 0 then replicate 512 0 else D1 ?b) = (if in_blocks dir ! k = 0 then replicate 512 0 else D ?b)"
    using assms(2) [of ?b] assms(4) by (auto simp: fill_def)
  then show ?thesis using assms(1-3) by (simp add: added_def Let_def)
qed

lemma add_loop_ok:
  assumes "jfs_ok p N content s" "sb_ok N (j_sb s)" "valid_inode (j_sb s) idx" "file_ok N (j_sb s) (jfs_next_free_block s) dir"
    "inode_fits dir" "jfs_next_free_block s < sb_total_blocks (j_sb s)" "i + n = 12" "\<exists>k < 12. i \<le> k \<and> has_room (content (j_dev s)) (in_blocks dir ! k)"
  shows "\<exists>s' k j. add_loop p idx name child i n dir s = Some (0, s') \<and> jfs_ok p N content s' \<and>
    same_vars (s\<lparr>jfs_next_free_block := jfs_next_free_block s'\<rparr>) s' \<and>
    added (j_sb s) idx name child (content (j_dev s)) (jfs_next_free_block s) dir (content (j_dev s')) (jfs_next_free_block s') k j"
  using assms
proof (induction n arbitrary: i s)
  case 0
  then show ?case by auto
next
  case (Suc n)
  let ?D = "content (j_dev s)" and ?sb = "j_sb s" and ?nf = "jfs_next_free_block s"
  have i: "i < 12" using Suc.prems(7) by simp
  show ?case
  proof (cases "has_room ?D (in_blocks dir ! i)")
    case True
    from add_loop_place [OF Suc.prems(1-6) i True, of name child n] show ?thesis by (elim exE) (intro exI, assumption)
  next
    case False
    let ?b = "in_blocks dir ! i"
    have nz: "?b \<noteq> 0" "\<forall>j < 8. ent_inode (?D ?b) j \<noteq> 0" using False by (auto simp: has_room_def)
    then have b: "sb_data_start ?sb \<le> ?b" "?b < N"
      using file_ok_nth [OF Suc.prems(4) i] Suc.prems(4) by (auto simp: file_ok_def)
    have fl: "fill i ?nf dir = dir" "next_free i ?nf dir = ?nf" using nz by (simp_all add: fill_def next_free_def)
    have e: "jfs_ensure_dir_block p dir i s = (0, dir, s)" using nz i by (simp add: jfs_ensure_dir_block_def)
    obtain s2 where s2: "put_inode p dir idx s = Some s2" "jfs_ok p N content s2" "content (j_dev s2) = inode_put ?sb idx dir ?D" "same_state s s2"
      using put_inode_ok [OF Suc.prems(1,2,3,5)] by auto
    have ib: "sb_inode_start ?sb + idx div 8 < sb_data_start ?sb" "sb_data_start ?sb < N"
      using inode_at_data(1) [OF Suc.prems(2,3)] Suc.prems(2) by (auto simp: sb_ok_def)
    have D2: "content (j_dev s2) c = ?D c" if "sb_data_start ?sb \<le> c" for c unfolding s2(3) using that ib by (intro inode_put_other) auto
    have I2: "inode_at ?sb (content (j_dev s2)) m = inode_at ?sb ?D m" if "m \<noteq> idx" for m
      unfolding s2(3) using inode_at_put [OF Suc.prems(5), of ?D ?sb idx m] jfs_ok_bounds [OF Suc.prems(1), of "sb_inode_start ?sb + idx div 8"] ib that by simp
    obtain s3 where s3: "disk_read p ?b s2 = Some (?D ?b, s3)" "jfs_ok p N content s3" "j_dev s3 = j_dev s2" "same_state s2 s3"
      using disk_read_ok [OF s2(2) b(2)] D2 [OF b(1)] by auto
    have v: "j_sb s3 = ?sb" "jfs_next_free_block s3 = ?nf" using s2(4) s3(4) by (simp_all add: same_state_def)
    have room: "\<exists>k < 12. Suc i \<le> k \<and> has_room (content (j_dev s3)) (in_blocks dir ! k)"
    proof -
      obtain k where k: "k < 12" "i \<le> k" "has_room ?D (in_blocks dir ! k)" using Suc.prems(8) by blast
      then have "Suc i \<le> k" using False by (metis Suc_leI le_neq_implies_less)
      moreover have "has_room (content (j_dev s3)) (in_blocks dir ! k)"
        using k(3) file_ok_nth [OF Suc.prems(4) k(1)] D2 s3(3) by (auto simp: has_room_def)
      ultimately show ?thesis using k(1) by blast
    qed
    obtain s' k j where r: "add_loop p idx name child (Suc i) n dir s3 = Some (0, s')" "jfs_ok p N content s'"
      "same_vars (s3\<lparr>jfs_next_free_block := jfs_next_free_block s'\<rparr>) s'"
      "added ?sb idx name child (content (j_dev s3)) ?nf dir (content (j_dev s')) (jfs_next_free_block s') k j"
      using Suc.IH [OF s3(2), of "Suc i"] v Suc.prems room by auto
    have f: "free_in_sector (?D ?b) 0 8 = None" using nz(2) free_in_sector_ok [of "?D ?b" 0 8] find_slot(2) [of "\<lambda>j. ent_inode (?D ?b) j = 0"] by simp
    have "k < 12" using r(4) by (simp add: added_def Let_def)
    then have "added ?sb idx name child ?D ?nf dir (content (j_dev s')) (jfs_next_free_block s') k j"
      using added_cong [OF r(4)] D2 I2 s3(3) file_ok_nth [OF Suc.prems(4), of k] by auto
    moreover have "add_loop p idx name child i (Suc n) dir s = Some (0, s')" using e s2(1) s3(1) f r(1) by simp
    moreover have "same_vars (s\<lparr>jfs_next_free_block := jfs_next_free_block s'\<rparr>) s'"
      using r(3) s2(4) s3(4) by (simp add: same_vars_def same_state_def)
    ultimately show ?thesis using r(2) by blast
  qed
qed

lemma added_dir:
  assumes "added sb idx name child D nf dir D' nf' k j" "file_ok N sb nf dir" "sb_ok N sb" "dir_ok D (in_blocks dir)"
    "length name \<le> 59" "0 \<notin> set name" "0 < child" "child < 2 ^ 32" "dir_map D (in_blocks dir) name = None"
  shows "dir_ok D' (in_blocks (fill k nf dir))"
    "dir_map D' (in_blocks (fill k nf dir)) = (dir_map D (in_blocks dir))(name \<mapsto> child)"
proof -
  define b where "b = in_blocks (fill k nf dir) ! k"
  define x where "x = (if in_blocks dir ! k = 0 then replicate 512 0 else D b)"
  let ?bs = "in_blocks dir" and ?bs' = "in_blocks (fill k nf dir)"
  have a: "k < 12" "j < 8" "ent_inode x j = 0" "D' b = set_entry_bytes j child name x" "\<And>c. sb_data_start sb \<le> c \<Longrightarrow> c \<noteq> b \<Longrightarrow> D' c = D c"
    using assms(1) unfolding added_def Let_def b_def [symmetric] x_def [symmetric] by auto
  note f1 = file_ok_fill [OF assms(2) a(1) assms(3), folded b_def]
  have len: "length ?bs = 12" "length ?bs' = 12" using assms(2) f1(1) by (simp_all add: file_ok_def)
  have data: "sb_data_start sb \<le> c" if "c \<in> set ?bs'" "c \<noteq> 0" for c using f1(1) that by (auto simp: file_ok_def)
  have set1: "c \<in> set ?bs' \<longleftrightarrow> c = b \<or> c \<in> set ?bs" if "c \<noteq> 0" for c
  proof
    assume "c \<in> set ?bs'"
    then obtain i where "i < 12" "c = ?bs' ! i" using len by (auto simp: in_set_conv_nth)
    then show "c = b \<or> c \<in> set ?bs" using fill_other [of i k nf dir] len nth_mem [of i ?bs] by (cases "i = k") (auto simp: b_def)
  next
    assume "c = b \<or> c \<in> set ?bs"
    then consider "c = b" | i where "i < 12" "c = ?bs ! i" using len by (auto simp: in_set_conv_nth)
    then show "c \<in> set ?bs'"
    proof cases
      case 1
      then show ?thesis using a(1) len nth_mem [of k ?bs'] by (simp add: b_def)
    next
      case (2 i)
      then have "?bs' ! i = c" using that a(1) len by (auto simp: fill_def nth_list_update)
      then show ?thesis using 2(1) len nth_mem [of i ?bs'] by simp
    qed
  qed
  have nfb: "b \<notin> set ?bs" if "?bs ! k = 0"
  proof -
    have "b = nf" using that a(1) len by (simp add: b_def fill_def)
    then show ?thesis using assms(2) f1(2) by (auto simp: file_ok_def)
  qed
  have b_in: "b \<in> set ?bs" if "?bs ! k \<noteq> 0" using that a(1) len nth_mem [of k ?bs] by (simp add: b_def fill_def)
  have ok: "sector_ok x" unfolding x_def using assms(4) b_in f1(2) by (auto simp: dir_ok_def sector_ok_def ent_inode_zero)
  note y = set_entry_ok [OF ok a(2) assms(5-8), folded a(4)]
  have E: "entry_of D' z = (if z = (b, j) then Some (name, child) else if z \<in> set (slots ?bs) then entry_of D z else None)"
    if "z \<in> set (slots ?bs')" for z
  proof -
    obtain c m where z: "z = (c, m)" by (cases z)
    then have z': "c \<in> set ?bs'" "c \<noteq> 0" "m < 8" using that by (simp_all add: slots_iff)
    show ?thesis
    proof (cases "c = b")
      case False
      then show ?thesis using a(5) [OF data [OF z'(1,2)]] set1 [OF z'(2)] z z' by (auto simp: slots_iff entry_of_def)
    next
      case c: True
      show ?thesis
      proof (cases "m = j")
        case True
        then show ?thesis using y(2,3) assms(7) z c by (simp add: entry_of_def)
      next
        case False
        then have e: "ent_inode (D' b) m = ent_inode x m" "ent_inode x m \<noteq> 0 \<Longrightarrow> ent_name (D' b) m = ent_name x m" using y(4) [OF z'(3)] by auto
        show ?thesis
        proof (cases "?bs ! k = 0")
          case True
          then show ?thesis using e(1) nfb z c False ent_inode_zero [OF z'(3)] by (simp add: entry_of_def slots_iff x_def)
        next
          case nh: False
          then show ?thesis using e b_in z z' c False by (auto simp: entry_of_def slots_iff x_def)
        qed
      qed
    qed
  qed
  have x0: "(b, j) \<in> set (slots ?bs')" "(b, j) \<in> set (slots ?bs) \<Longrightarrow> entry_of D (b, j) = None"
    using set1 [of b] f1(2) a(2,3) nfb by (auto simp: slots_iff entry_of_def x_def split: if_splits)
  have "set (slots ?bs) \<subseteq> set (slots ?bs')" using set1 by (auto simp: slots_iff)
  note r = dir_map_add [OF _ x0(1) this assms(9) x0(2) E]
  show "dir_map D' ?bs' = (dir_map D ?bs)(name \<mapsto> child)" using r(2) assms(4) by (simp add: dir_ok_def)
  have "sector_ok (D' c)" if "c \<in> set ?bs'" "c \<noteq> 0" for c
    using y(1) a(5) [OF data [OF that]] set1 [OF that(2)] that assms(4) by (cases "c = b") (auto simp: dir_ok_def)
  then show "dir_ok D' ?bs'" using r(1) assms(4) by (simp add: dir_ok_def)
qed

text \<open>
  A directory takes one more entry: there is a place in its blocks and, in case it is a hole, a free block.
\<close>

definition dir_room :: "nat \<Rightarrow> jfs_superblock \<Rightarrow> disk \<Rightarrow> nat \<Rightarrow> bool" where
  "dir_room nf sb D idx \<longleftrightarrow> nf < sb_total_blocks sb \<and> (\<exists>k < 12. has_room D (in_blocks (inode_at sb D idx) ! k))"

text \<open>What an operation on the directory \<open>idx\<close> leaves alone: the other inodes, and the blocks in use by anything else.\<close>

definition others_kept :: "jfs_superblock \<Rightarrow> nat \<Rightarrow> nat \<Rightarrow> disk \<Rightarrow> disk \<Rightarrow> bool" where
  "others_kept sb nf idx D D' \<longleftrightarrow> (\<forall>k. valid_inode sb k \<longrightarrow> k \<noteq> idx \<longrightarrow> inode_at sb D' k = inode_at sb D k) \<and>
     (\<forall>b. sb_data_start sb \<le> b \<longrightarrow> b < nf \<longrightarrow> b \<notin> set (in_blocks (inode_at sb D idx)) \<longrightarrow> D' b = D b)"

lemma inode_fits_at: "inode_fits (inode_at sb D idx)"
  by (simp add: inode_at_def inode_fits_dec)

lemma jfs_add_entry_ok:
  assumes "jfs_ok p N content s" "sb_ok N (j_sb s)" "is_dir N (j_sb s) (jfs_next_free_block s) (content (j_dev s)) idx"
    "dir_room (jfs_next_free_block s) (j_sb s) (content (j_dev s)) idx" "0 \<notin> set name" "length name \<le> 59" "0 < child" "child < 2 ^ 32"
  shows "\<exists>r s'. jfs_add_entry p idx name child s = Some (r, s') \<and> jfs_ok p N content s' \<and>
    same_vars (s\<lparr>jfs_next_free_block := jfs_next_free_block s'\<rparr>) s' \<and> jfs_next_free_block s \<le> jfs_next_free_block s' \<and>
    (let D = content (j_dev s); D' = content (j_dev s'); sb = j_sb s in
     case entries sb D idx name of
       Some _ \<Rightarrow> r = - EEXIST \<and> D' = D \<and> jfs_next_free_block s' = jfs_next_free_block s
     | None \<Rightarrow> r = 0 \<and> is_dir N sb (jfs_next_free_block s') D' idx \<and> entries sb D' idx = (entries sb D idx)(name \<mapsto> child) \<and>
         others_kept sb (jfs_next_free_block s) idx D D')"
proof -
  let ?D = "content (j_dev s)" and ?sb = "j_sb s" and ?nf = "jfs_next_free_block s"
  let ?nd = "inode_at ?sb ?D idx"
  have v: "valid_inode ?sb idx" "is_dir_flags (in_flags ?nd)" "file_ok N ?sb ?nf ?nd" "dir_ok ?D (in_blocks ?nd)"
    using assms(3) by (simp_all add: is_dir_def)
  obtain s1 where s1: "get_inode p idx s = Some (Some ?nd, s1)" "jfs_ok p N content s1" "j_dev s1 = j_dev s" "same_state s s1"
    using get_inode_ok [OF assms(1,2) v(1)] by auto
  have e1: "j_sb s1 = ?sb" using s1(4) by (simp add: same_state_def)
  obtain r e s2 where s2: "jfs_find_entry p idx name s1 = Some (r, e, s2)" "jfs_ok p N content s2" "j_dev s2 = j_dev s" "same_state s1 s2"
    "case entries ?sb ?D idx name of None \<Rightarrow> r = - ENOENT \<and> e = None | Some i \<Rightarrow> r = 0 \<and> (\<exists>b j. e = Some (i, name, b, j))"
    using jfs_find_entry_ok [OF s1(2), unfolded e1 s1(3), OF assms(2,3,5)] by blast
  have ss: "same_state s s2" "j_dev s2 = j_dev s" "j_sb s2 = ?sb" "jfs_next_free_block s2 = ?nf"
    using s1 s2 by (auto simp: same_state_def)
  show ?thesis
  proof (cases "entries ?sb ?D idx name")
    case (Some i)
    then have "jfs_add_entry p idx name child s = Some (- EEXIST, s2)" using s1(1) s2(1,5) v(2) by (simp add: jfs_add_entry_def)
    moreover have "same_vars (s\<lparr>jfs_next_free_block := jfs_next_free_block s2\<rparr>) s2" using ss(1) by (simp add: same_vars_def same_state_def)
    ultimately show ?thesis using s2(2) ss Some by (simp add: Let_def)
  next
    case None
    have room: "?nf < sb_total_blocks ?sb" "\<exists>k < 12. 0 \<le> k \<and> has_room ?D (in_blocks ?nd ! k)" using assms(4) by (auto simp: dir_room_def)
    obtain s' k j where l: "add_loop p idx name child 0 12 ?nd s2 = Some (0, s')" "jfs_ok p N content s'"
      "same_vars (s2\<lparr>jfs_next_free_block := jfs_next_free_block s'\<rparr>) s'"
      "added ?sb idx name child ?D ?nf ?nd (content (j_dev s')) (jfs_next_free_block s') k j"
      using add_loop_ok [where n = 12 and name = name and child = child, OF s2(2), unfolded ss(2-4), OF assms(2) v(1,3) inode_fits_at room(1) add_0 room(2)]
      by blast
    let ?D' = "content (j_dev s')" and ?nd1 = "fill k ?nf ?nd"
    have a: "k < 12" "jfs_next_free_block s' = next_free k ?nf ?nd" "inode_at ?sb ?D' idx = ?nd1\<lparr>in_size := add32 (in_size ?nd) 64\<rparr>"
      "\<And>i. valid_inode ?sb i \<Longrightarrow> i \<noteq> idx \<Longrightarrow> inode_at ?sb ?D' i = inode_at ?sb ?D i"
      "\<And>c. sb_data_start ?sb \<le> c \<Longrightarrow> c \<noteq> in_blocks ?nd1 ! k \<Longrightarrow> ?D' c = ?D c"
      using l(4) by (auto simp: added_def Let_def)
    note f1 = file_ok_fill [OF v(3) a(1) assms(2)]
    note m = added_dir [OF l(4) v(3) assms(2) v(4) assms(6,5,7,8) None [unfolded entries_def]]
    have "file_ok N ?sb (jfs_next_free_block s') (inode_at ?sb ?D' idx)" using f1(1) a(2,3) by (simp add: file_ok_def holes_def)
    moreover have "in_flags ?nd1 = in_flags ?nd" by (simp add: fill_def)
    ultimately have "is_dir N ?sb (jfs_next_free_block s') ?D' idx" "entries ?sb ?D' idx = (entries ?sb ?D idx)(name \<mapsto> child)"
      using m v a(3) by (simp_all add: is_dir_def entries_def)
    moreover have "others_kept ?sb ?nf idx ?D ?D'"
    proof -
      have "?D' c = ?D c" if "sb_data_start ?sb \<le> c" "c < ?nf" "c \<notin> set (in_blocks ?nd)" for c
      proof (rule a(5) [OF that(1)])
        show "c \<noteq> in_blocks ?nd1 ! k" using that a(1) v(3) nth_mem [of k "in_blocks ?nd"] by (auto simp: fill_def file_ok_def split: if_splits)
      qed
      then show ?thesis using a(4) by (auto simp: others_kept_def)
    qed
    moreover have "jfs_add_entry p idx name child s = Some (0, s')"
      using s1(1) s2(1,5) v(2) None l(1) by (simp add: jfs_add_entry_def)
    moreover have "same_vars (s\<lparr>jfs_next_free_block := jfs_next_free_block s'\<rparr>) s'" using l(3) ss(1) by (simp add: same_vars_def same_state_def)
    moreover have "?nf \<le> jfs_next_free_block s'" using a(2) by (simp add: next_free_def)
    ultimately show ?thesis using l(2) None by (simp add: Let_def)
  qed
qed

end
