(* ===== verification/JfsProps.thy ===== *)
theory JfsProps
  imports JfsDir
begin

text \<open>
  Correctness of the journaling file system: the journal is written ahead of the target at every point where the machine may stop, reading and
  writing files, and creating and removing the names of a directory.
\<close>

section \<open>Files\<close>

lemma jfs_is_directory_ok:
  assumes "jfs_ok p N content s" "sb_ok N (j_sb s)" "valid_inode (j_sb s) idx"
  shows "\<exists>s'. jfs_is_directory p idx s = Some (is_dir_flags (in_flags (inode_at (j_sb s) (content (j_dev s)) idx)), s') \<and>
    jfs_ok p N content s' \<and> j_dev s' = j_dev s \<and> same_state s s'"
  using get_inode_ok [OF assms] by (auto simp: jfs_is_directory_def)

lemma file_ok_fits:
  assumes "file_ok N sb nf nd" "sb_ok N sb" "inode_fits nd0" "nd = nd0\<lparr>in_blocks := in_blocks nd\<rparr>" "z < 2 ^ 32"
  shows "inode_fits nd" "inode_fits (nd\<lparr>in_size := z\<rparr>)"
proof -
  have b: "b < 2 ^ 32" if "b \<in> set (in_blocks nd)" for b
    using file_ok_blocks [OF assms(1,2) that] assms(2) by (simp add: sb_ok_def)
  have f: "in_inode nd = in_inode nd0" "in_size nd = in_size nd0" "in_flags nd = in_flags nd0" "in_nlink nd = in_nlink nd0"
    by (subst assms(4), simp)+
  show "inode_fits nd" "inode_fits (nd\<lparr>in_size := z\<rparr>)"
    using assms(1,3,5) b f by (auto simp: inode_fits_def inode_words_def file_ok_def)
qed

lemma jfs_read_ok:
  assumes "jfs_ok p N content s" "sb_ok N (j_sb s)" "valid_inode (j_sb s) idx" "file_ok N (j_sb s) nf (inode_at (j_sb s) (content (j_dev s)) idx)"
    "offset + sz < 2 ^ 32"
  shows "\<exists>s'. jfs_read p idx offset sz s = Some
      (if is_dir_flags (in_flags (inode_at (j_sb s) (content (j_dev s)) idx)) then []
       else map (byte_at (content (j_dev s)) (inode_at (j_sb s) (content (j_dev s)) idx))
              [offset..<min (min (offset + sz) (in_size (inode_at (j_sb s) (content (j_dev s)) idx))) 6144], s') \<and>
    jfs_ok p N content s' \<and> j_dev s' = j_dev s \<and> same_state s s'"
proof -
  let ?D = "content (j_dev s)"
  let ?nd = "inode_at (j_sb s) ?D idx"
  obtain s1 where s1: "jfs_is_directory p idx s = Some (is_dir_flags (in_flags ?nd), s1)" "jfs_ok p N content s1" "j_dev s1 = j_dev s" "same_state s s1"
    using jfs_is_directory_ok [OF assms(1-3)] by blast
  have e1: "j_sb s1 = j_sb s" using s1(4) by (simp add: same_state_def)
  obtain s2 where s2: "get_inode p idx s1 = Some (Some ?nd, s2)" "jfs_ok p N content s2" "j_dev s2 = j_dev s" "same_state s1 s2"
    using get_inode_ok [OF s1(2), unfolded e1 s1(3), OF assms(2,3)] by blast
  have ss: "same_state s s2" using s1(4) s2(4) same_state_trans by blast
  have bl: "\<forall>b \<in> set (in_blocks ?nd). b < N" "length (in_blocks ?nd) = 12" using file_ok_blocks [OF assms(4,2)] assms(4) by (auto simp: file_ok_def)
  show ?thesis
  proof (cases "is_dir_flags (in_flags ?nd)")
    case True
    then show ?thesis using s1 by (simp add: jfs_read_def)
  next
    case False
    let ?n = "if offset + sz > in_size ?nd then in_size ?nd - offset else sz"
    show ?thesis
    proof (cases "offset < in_size ?nd")
      case True
      then have n: "offset + ?n = min (offset + sz) (in_size ?nd)" by auto
      then have "offset + ?n < 2 ^ 32" using assms(5) by linarith
      from read_loop_ok [OF s2(2) bl(2,1) this, of 0] obtain s' where r: "read_loop p ?nd offset ?n 0 s2 =
          Some (map (byte_at ?D ?nd) [offset..<min (min (offset + sz) (in_size ?nd)) 6144], s')" "jfs_ok p N content s'" "j_dev s' = j_dev s" "same_state s2 s'"
        unfolding s2(3) n by auto
      have "jfs_read p idx offset sz s = read_loop p ?nd offset ?n 0 s2"
        using s1(1) s2(1) False True assms(5) by (simp add: jfs_read_def wrap_simps)
      then show ?thesis using r False same_state_trans [OF ss] by auto
    next
      case ge: False
      then have e: "[offset..<min (min (offset + sz) (in_size ?nd)) 6144] = []" by simp
      show ?thesis unfolding e using s1(1) s2 ge False ss by (simp add: jfs_read_def)
    qed
  qed
qed

text \<open>The bytes and the inode of a file after a write.\<close>

definition file_written :: "nat \<Rightarrow> jfs_superblock \<Rightarrow> nat \<Rightarrow> nat \<Rightarrow> u8 list \<Rightarrow> disk \<Rightarrow> nat \<Rightarrow> disk \<Rightarrow> nat \<Rightarrow> bool" where
  "file_written N sb idx offset buffer D nf D' nf' \<longleftrightarrow>
     (let nd = inode_at sb D idx; nd' = inode_at sb D' idx; n = min (length buffer) (6144 - offset) in
      file_ok N sb nf' nd' \<and> nf \<le> nf' \<and> in_size nd' = max (in_size nd) (offset + n) \<and> in_flags nd' = in_flags nd \<and> in_nlink nd' = in_nlink nd \<and>
      (\<forall>i. offset \<le> i \<and> i < offset + n \<longrightarrow> byte_at D' nd' i = buffer ! (i - offset)) \<and>
      (\<forall>i < 6144. (i < offset \<or> offset + n \<le> i) \<and> (in_blocks nd ! (i div 512) \<noteq> 0 \<or> in_blocks nd' ! (i div 512) = 0) \<longrightarrow>
         byte_at D' nd' i = byte_at D nd i) \<and>
      others_kept sb nf idx D D')"

lemma byte_at_cong:
  assumes "file_ok N sb nf nd" "i < 6144" "\<And>c. sb_data_start sb \<le> c \<Longrightarrow> D' c = D c" "in_blocks nd' = in_blocks nd"
  shows "byte_at D' nd' i = byte_at D nd i"
  using file_ok_nth [OF assms(1), of "i div 512"] assms(2-4) by (auto simp: byte_at_def)

lemma jfs_write_ok:
  assumes "jfs_ok p N content s" "sb_ok N (j_sb s)" "valid_inode (j_sb s) idx"
    "file_ok N (j_sb s) (jfs_next_free_block s) (inode_at (j_sb s) (content (j_dev s)) idx)"
    "\<not> is_dir_flags (in_flags (inode_at (j_sb s) (content (j_dev s)) idx))" "offset + length buffer < 2 ^ 32"
    "in_size (inode_at (j_sb s) (content (j_dev s)) idx) < offset + min (length buffer) (6144 - offset) \<or>
     (\<forall>i < 6144. offset \<le> i \<and> i < offset + length buffer \<longrightarrow> in_blocks (inode_at (j_sb s) (content (j_dev s)) idx) ! (i div 512) \<noteq> 0)"
  shows "\<exists>s'. jfs_write p idx offset buffer s =
      Some (min (length buffer) (6144 - offset), Some (in_size (inode_at (j_sb s) (content (j_dev s')) idx)), s') \<and>
    jfs_ok p N content s' \<and> j_sb s' = j_sb s \<and>
    file_written N (j_sb s) idx offset buffer (content (j_dev s)) (jfs_next_free_block s) (content (j_dev s')) (jfs_next_free_block s')"
proof -
  let ?D = "content (j_dev s)" and ?sb = "j_sb s" and ?nf = "jfs_next_free_block s"
  let ?nd = "inode_at ?sb ?D idx"
  define n where "n = min (length buffer) (6144 - offset)"
  obtain s1 where s1: "jfs_is_directory p idx s = Some (is_dir_flags (in_flags ?nd), s1)" "jfs_ok p N content s1" "j_dev s1 = j_dev s" "same_state s s1"
    using jfs_is_directory_ok [OF assms(1-3)] by blast
  have e1: "j_sb s1 = j_sb s" using s1(4) by (simp add: same_state_def)
  obtain s2 where s2: "get_inode p idx s1 = Some (Some ?nd, s2)" "jfs_ok p N content s2" "j_dev s2 = j_dev s" "same_state s1 s2"
    using get_inode_ok [OF s1(2), unfolded e1 s1(3), OF assms(2,3)] by blast
  have ss: "j_sb s2 = ?sb" "jfs_next_free_block s2 = ?nf" using s1(4) s2(4) by (simp_all add: same_state_def)
  obtain nd1 s3 where s3: "write_loop p offset buffer 0 ?nd s2 = Some (n, nd1, s3)" "jfs_ok p N content s3" "j_sb s3 = ?sb"
    "wrote N ?sb offset buffer 0 (?D, ?nf, ?nd) (content (j_dev s3), jfs_next_free_block s3, nd1)"
    using write_loop_ok [OF s2(2), unfolded ss s2(3), OF assms(2,4,6), of 0] by (auto simp: n_def)
  let ?D3 = "content (j_dev s3)" and ?nf3 = "jfs_next_free_block s3"
  note w = wroteD [OF s3(4)]
  have sz: "in_size nd1 = in_size ?nd" "in_flags nd1 = in_flags ?nd" "in_nlink nd1 = in_nlink ?nd" by (subst w(3), simp)+
  have a: "add32 offset n = offset + n" "offset + n < 2 ^ 32" using assms(6) by (auto simp: wrap_simps n_def)
  have data: "sb_data_start ?sb \<le> b" if "b \<in> set (in_blocks ?nd) - {0}" for b using assms(4) that by (auto simp: file_ok_def)
  have I3: "inode_at ?sb ?D3 k = inode_at ?sb ?D k" if "valid_inode ?sb k" for k
  proof (rule inode_at_cong, rule w(7))
    show "sb_inode_start ?sb + k div 8 \<notin> set (in_blocks ?nd) - {0}" using data inode_at_data(1) [OF assms(2) that] by fastforce
    show "sb_inode_start ?sb + k div 8 \<notin> {?nf..<?nf3}" using inode_at_data(1) [OF assms(2) that] assms(4) by (auto simp: file_ok_def)
  qed (rule inode_at_data(2) [OF assms(2) that])
  have F3: "?D3 b = ?D b" if "sb_data_start ?sb \<le> b" "b < ?nf" "b \<notin> set (in_blocks ?nd)" for b
    using w(7) [of b] that assms(2) by (auto simp: sb_ok_def)
  have new: "byte_at ?D3 nd1 i = buffer ! (i - offset)" if "offset \<le> i" "i < offset + n" for i
    using w(5) [of i] that by (auto simp: n_def)
  have old: "byte_at ?D3 nd1 i = byte_at ?D ?nd i"
    if "i < 6144" "i < offset \<or> offset + n \<le> i" "in_blocks ?nd ! (i div 512) \<noteq> 0 \<or> in_blocks nd1 ! (i div 512) = 0" for i
  proof (rule w(6) [OF that(1)])
    show "i < offset + 0 \<or> offset + length buffer \<le> i" using that(1,2) by (auto simp: n_def min_def split: if_splits)
    have "i div 512 < 12" using that(1) by simp
    then show "in_blocks nd1 ! (i div 512) = in_blocks ?nd ! (i div 512)" using w(4) [of "i div 512"] that(3) by (cases "in_blocks ?nd ! (i div 512) = 0") auto
  qed
  show ?thesis
  proof (cases "in_size ?nd < offset + n")
    case True
    let ?nd2 = "nd1\<lparr>in_size := offset + n\<rparr>"
    have fit: "inode_fits ?nd2" using file_ok_fits(2) [OF w(1) assms(2) inode_fits_at w(3) a(2)] .
    obtain s4 where s4: "put_inode p ?nd2 idx s3 = Some s4" "jfs_ok p N content s4" "content (j_dev s4) = inode_put ?sb idx ?nd2 ?D3" "same_state s3 s4"
      using put_inode_ok [OF s3(2), unfolded s3(3), OF assms(2,3) fit] by blast
    have ib: "sb_inode_start ?sb + idx div 8 < sb_data_start ?sb" "sb_data_start ?sb < N"
      using inode_at_data(1) [OF assms(2,3)] assms(2) by (auto simp: sb_ok_def)
    have D4: "content (j_dev s4) c = ?D3 c" if "sb_data_start ?sb \<le> c" for c unfolding s4(3) using that ib by (intro inode_put_other) auto
    have I4: "inode_at ?sb (content (j_dev s4)) i = (if i = idx then ?nd2 else inode_at ?sb ?D3 i)" for i
      unfolding s4(3) using fit jfs_ok_bounds [OF s3(2), of "sb_inode_start ?sb + idx div 8"] ib by (intro inode_at_put) auto
    have e4: "j_sb s4 = ?sb" "jfs_next_free_block s4 = ?nf3" using s4(4) s3(3) by (simp_all add: same_state_def)
    have B: "byte_at (content (j_dev s4)) ?nd2 i = byte_at ?D3 nd1 i" if "i < 6144" for i
      using that D4 by (intro byte_at_cong [OF w(1)]) simp_all
    have "file_written N ?sb idx offset buffer ?D ?nf (content (j_dev s4)) ?nf3"
      unfolding file_written_def Let_def I4 n_def [symmetric] if_True simp_thms(6)
    proof (intro conjI allI impI)
      show "file_ok N ?sb ?nf3 ?nd2" using w(1) by (simp add: file_ok_def holes_def)
      show "byte_at (content (j_dev s4)) ?nd2 i = buffer ! (i - offset)" if "offset \<le> i \<and> i < offset + n" for i
        using that new [of i] B [of i] by (auto simp: n_def)
      show "byte_at (content (j_dev s4)) ?nd2 i = byte_at ?D ?nd i"
        if "i < 6144" "(i < offset \<or> offset + n \<le> i) \<and> (in_blocks ?nd ! (i div 512) \<noteq> 0 \<or> in_blocks ?nd2 ! (i div 512) = 0)" for i
        using that old [of i] B [of i] by simp
      show "others_kept ?sb ?nf idx ?D (content (j_dev s4))" unfolding others_kept_def I4 using I3 F3 D4 by auto
    qed (use w(2) True sz in simp_all)
    moreover have "jfs_write p idx offset buffer s = Some (n, Some (offset + n), s4)"
      using s1(1) s2(1) s3(1) s4(1) assms(5) True by (simp add: jfs_write_def a sz)
    ultimately show ?thesis using s4(2) e4 I4 by (auto simp: n_def)
  next
    case False
    then have nd1: "nd1 = ?nd" "?nf3 = ?nf" using assms(7) w(8) by (auto simp: n_def)
    have "file_written N ?sb idx offset buffer ?D ?nf ?D3 ?nf3"
      unfolding file_written_def Let_def I3 [OF assms(3)] n_def [symmetric]
    proof (intro conjI allI impI)
      show "others_kept ?sb ?nf idx ?D ?D3" unfolding others_kept_def using I3 F3 by auto
    qed (use w(1,2) False new old in \<open>simp_all add: nd1 max_def\<close>)
    moreover have "jfs_write p idx offset buffer s = Some (n, Some (in_size ?nd), s3)"
      using s1(1) s2(1) s3(1) assms(5) False by (simp add: jfs_write_def a sz)
    ultimately show ?thesis using s3(2,3) I3 [OF assms(3)] by (auto simp: n_def)
  qed
qed

section \<open>Creating and removing names\<close>

lemma is_dir_cong:
  assumes "is_dir N sb nf D idx" "inode_at sb D' idx = inode_at sb D idx" "\<And>b. sb_data_start sb \<le> b \<Longrightarrow> D' b = D b"
  shows "is_dir N sb nf D' idx" "entries sb D' idx = entries sb D idx"
proof -
  let ?bs = "in_blocks (inode_at sb D idx)"
  have same: "D' b = D b" if "b \<in> set ?bs" "b \<noteq> 0" for b
    using assms(1) that by (intro assms(3)) (auto simp: is_dir_def file_ok_def)
  then have E: "entry_of D' x = entry_of D x" if "x \<in> set (slots ?bs)" for x using that by (cases x) (auto simp: slots_iff entry_of_def)
  have u: "unique_names D ?bs" using assms(1) by (simp add: is_dir_def dir_ok_def)
  then have u': "unique_names D' ?bs" using E by (simp add: unique_names_def)
  then show "is_dir N sb nf D' idx" using assms(1,2) same by (auto simp: is_dir_def dir_ok_def)
  have "dir_map D' ?bs = dir_map D ?bs" by (rule entry_map_eqI [OF u']) (use E dir_map_Some [OF u] in auto)
  then show "entries sb D' idx = entries sb D idx" by (simp add: entries_def assms(2))
qed

definition new_inode :: "nat \<Rightarrow> nat \<Rightarrow> jfs_inode" where
  "new_inode idx flags = \<lparr>in_inode = idx, in_size = 0, in_flags = flags, in_nlink = 1, in_blocks = replicate 12 0\<rparr>"

lemma metadata_simps [simp]:
  "j_dev (jfs_set_inode_metadata i m u g s) = j_dev s" "j_sb (jfs_set_inode_metadata i m u g s) = j_sb s"
  "next_inode (jfs_set_inode_metadata i m u g s) = next_inode s" "jfs_next_free_block (jfs_set_inode_metadata i m u g s) = jfs_next_free_block s"
  "jfs_ok p N content (jfs_set_inode_metadata i m u g s) = jfs_ok p N content s"
  by (simp_all add: jfs_set_inode_metadata_def jfs_ok_def)

lemma put_inode_frame:
  assumes "jfs_ok p N content s" "sb_ok N (j_sb s)" "valid_inode (j_sb s) idx" "inode_fits nd"
  shows "\<exists>s'. put_inode p nd idx s = Some s' \<and> jfs_ok p N content s' \<and> same_state s s' \<and>
    (\<forall>k. inode_at (j_sb s) (content (j_dev s')) k = (if k = idx then nd else inode_at (j_sb s) (content (j_dev s)) k)) \<and>
    (\<forall>b. sb_data_start (j_sb s) \<le> b \<longrightarrow> content (j_dev s') b = content (j_dev s) b)"
proof -
  have ib: "sb_inode_start (j_sb s) + idx div 8 < sb_data_start (j_sb s)" "sb_data_start (j_sb s) < N"
    using inode_at_data(1) [OF assms(2,3)] assms(2) by (auto simp: sb_ok_def)
  then have "length (content (j_dev s) (sb_inode_start (j_sb s) + idx div 8)) = 512" using jfs_ok_bounds [OF assms(1)] by auto
  then show ?thesis
    using put_inode_ok [OF assms] inode_at_put [OF assms(4)] inode_put_other ib by (metis leD)
qed

lemma jfs_alloc_inode_ok:
  assumes "jfs_ok p N content s" "sb_ok N (j_sb s)" "valid_inode (j_sb s) (next_inode s)" "flags < 2 ^ 32" "next_inode s + 1 < 2 ^ 32"
  shows "\<exists>s'. jfs_alloc_inode p flags s = Some (0, next_inode s, s') \<and> jfs_ok p N content s' \<and> j_sb s' = j_sb s \<and>
    jfs_next_free_block s' = jfs_next_free_block s \<and> next_inode s' = next_inode s + 1 \<and>
    (\<forall>k. inode_at (j_sb s) (content (j_dev s')) k =
       (if k = next_inode s then new_inode (next_inode s) flags else inode_at (j_sb s) (content (j_dev s)) k)) \<and>
    (\<forall>b. sb_data_start (j_sb s) \<le> b \<longrightarrow> content (j_dev s') b = content (j_dev s) b)"
proof -
  let ?s = "s\<lparr>next_inode := add32 (next_inode s) 1\<rparr>"
  have ok: "jfs_ok p N content ?s" using assms(1) by (simp add: jfs_ok_def)
  obtain nd s1 where s1: "get_inode p (next_inode s) ?s = Some (Some nd, s1)" "jfs_ok p N content s1" "j_dev s1 = j_dev s" "same_state ?s s1"
    using get_inode_ok [OF ok, of "next_inode s"] assms(2,3) by auto
  have e1: "j_sb s1 = j_sb s" "jfs_next_free_block s1 = jfs_next_free_block s" "next_inode s1 = next_inode s + 1"
    using s1(4) assms(5) by (simp_all add: same_state_def wrap_simps)
  have "inode_fits (new_inode (next_inode s) flags)" using assms(4,5) by (auto simp: inode_fits_def new_inode_def inode_words_def)
  from put_inode_frame [OF s1(2), unfolded e1(1) s1(3), OF assms(2,3) this]
  obtain s2 where s2: "put_inode p (new_inode (next_inode s) flags) (next_inode s) s1 = Some s2" "jfs_ok p N content s2" "same_state s1 s2"
    "\<forall>k. inode_at (j_sb s) (content (j_dev s2)) k = (if k = next_inode s then new_inode (next_inode s) flags else inode_at (j_sb s) (content (j_dev s)) k)"
    "\<forall>b. sb_data_start (j_sb s) \<le> b \<longrightarrow> content (j_dev s2) b = content (j_dev s) b" by blast
  let ?s' = "jfs_set_inode_metadata (next_inode s) (if is_dir_flags flags then 493 else 420) 0 0 s2"
  have "jfs_alloc_inode p flags s = Some (0, next_inode s, ?s')"
    using s1(1) s2(1) by (simp add: jfs_alloc_inode_def new_inode_def Let_def)
  then show ?thesis using s2 e1 by (auto simp: same_state_def)
qed

text \<open>C30: creating a file in a directory with room for an entry: a new name leads to the next inode number afterwards, whose inode is an
  empty file with one link; all other names, inodes and blocks are as before, and the directory is well formed. A name that exists is
  refused with \<open>EEXIST\<close> and the directory stays the same.\<close>

theorem jfs_create_correct:
  assumes "jfs_ok p N content s" "sb_ok N (j_sb s)" "is_dir N (j_sb s) (jfs_next_free_block s) (content (j_dev s)) (jn_inode parent)"
    "dir_room (jfs_next_free_block s) (j_sb s) (content (j_dev s)) (jn_inode parent)" "name \<noteq> []" "0 \<notin> set name" "length name \<le> 59"
    "valid_inode (j_sb s) (next_inode s)" "next_inode s \<noteq> jn_inode parent" "0 < next_inode s" "next_inode s + 1 < 2 ^ 32"
  shows "\<exists>r s'. jfs_create p parent name permission s = Some (r, s') \<and> jfs_ok p N content s' \<and> next_inode s' = next_inode s + 1 \<and>
    (let D = content (j_dev s); D' = content (j_dev s'); sb = j_sb s; dir = jn_inode parent in
     (case entries sb D dir name of
        Some _ \<Rightarrow> r = - EEXIST \<and> entries sb D' dir = entries sb D dir
      | None \<Rightarrow> r = 0 \<and> entries sb D' dir = (entries sb D dir)(name \<mapsto> next_inode s)) \<and>
     is_dir N sb (jfs_next_free_block s') D' dir \<and>
     inode_at sb D' (next_inode s) = new_inode (next_inode s) JFS_FILE \<and>
     (\<forall>k. valid_inode sb k \<longrightarrow> k \<noteq> dir \<longrightarrow> k \<noteq> next_inode s \<longrightarrow> inode_at sb D' k = inode_at sb D k) \<and>
     (\<forall>b. sb_data_start sb \<le> b \<longrightarrow> b < jfs_next_free_block s \<longrightarrow> b \<notin> set (in_blocks (inode_at sb D dir)) \<longrightarrow> D' b = D b))"
proof -
  let ?D = "content (j_dev s)" and ?sb = "j_sb s" and ?dir = "jn_inode parent" and ?nf = "jfs_next_free_block s" and ?i = "next_inode s"
  have v: "valid_inode ?sb ?dir" "is_dir_flags (in_flags (inode_at ?sb ?D ?dir))" using assms(3) by (simp_all add: is_dir_def)
  obtain s1 where s1: "jfs_is_directory p ?dir s = Some (True, s1)" "jfs_ok p N content s1" "j_dev s1 = j_dev s" "same_state s s1"
    using jfs_is_directory_ok [OF assms(1,2) v(1)] v(2) by auto
  have e1: "j_sb s1 = ?sb" "jfs_next_free_block s1 = ?nf" "next_inode s1 = ?i" using s1(4) by (simp_all add: same_state_def)
  have fl: "JFS_FILE < 2 ^ 32" by (simp add: JFS_FILE_def)
  obtain s2 where s2: "jfs_alloc_inode p JFS_FILE s1 = Some (0, ?i, s2)" "jfs_ok p N content s2" "j_sb s2 = ?sb" "jfs_next_free_block s2 = ?nf"
    "next_inode s2 = ?i + 1" "\<forall>k. inode_at ?sb (content (j_dev s2)) k = (if k = ?i then new_inode ?i JFS_FILE else inode_at ?sb ?D k)"
    "\<forall>b. sb_data_start ?sb \<le> b \<longrightarrow> content (j_dev s2) b = ?D b"
    using jfs_alloc_inode_ok [OF s1(2), unfolded e1 s1(3), OF assms(2,8) fl assms(11)] by blast
  let ?t = "jfs_set_inode_metadata ?i (if permission \<noteq> 0 then permission else 420) (jn_uid parent) (jn_gid parent) s2"
  have t: "jfs_ok p N content ?t" "j_dev ?t = j_dev s2" "j_sb ?t = ?sb" "jfs_next_free_block ?t = ?nf" "next_inode ?t = ?i + 1"
    using s2(2-5) by simp_all
  let ?D2 = "content (j_dev s2)"
  have I2: "inode_at ?sb ?D2 ?dir = inode_at ?sb ?D ?dir" using s2(6) assms(9) by simp
  have d: "is_dir N ?sb ?nf ?D2 ?dir" "entries ?sb ?D2 ?dir = entries ?sb ?D ?dir" "inode_at ?sb ?D2 ?dir = inode_at ?sb ?D ?dir"
    using is_dir_cong [OF assms(3) I2] s2(7) I2 by auto
  have "has_room ?D2 b = has_room ?D b" if "b \<in> set (in_blocks (inode_at ?sb ?D ?dir))" for b
  proof -
    have "b = 0 \<or> sb_data_start ?sb \<le> b" using assms(3) that unfolding is_dir_def file_ok_def by blast
    then show ?thesis using s2(7) by (auto simp: has_room_def)
  qed
  moreover have "length (in_blocks (inode_at ?sb ?D ?dir)) = 12" using assms(3) by (simp add: is_dir_def file_ok_def)
  ultimately have room: "dir_room ?nf ?sb ?D2 ?dir" using assms(4) unfolding dir_room_def d(3) by (metis nth_mem)
  have iN: "?i < 2 ^ 32" using assms(11) by simp
  obtain r s' where r: "jfs_add_entry p ?dir name ?i ?t = Some (r, s')" "jfs_ok p N content s'"
    "same_vars (?t\<lparr>jfs_next_free_block := jfs_next_free_block s'\<rparr>) s'" "?nf \<le> jfs_next_free_block s'"
    "case entries ?sb ?D ?dir name of
       Some _ \<Rightarrow> r = - EEXIST \<and> content (j_dev s') = ?D2 \<and> jfs_next_free_block s' = ?nf
     | None \<Rightarrow> r = 0 \<and> is_dir N ?sb (jfs_next_free_block s') (content (j_dev s')) ?dir \<and>
         entries ?sb (content (j_dev s')) ?dir = (entries ?sb ?D ?dir)(name \<mapsto> ?i) \<and> others_kept ?sb ?nf ?dir ?D2 (content (j_dev s'))"
    using jfs_add_entry_ok [OF t(1), unfolded t(2-4), OF assms(2) d(1) room assms(6,7,10) iN, unfolded Let_def d(2)] by blast
  have run: "jfs_create p parent name permission s = Some (r, s')"
    using s1(1) s2(1) r(1) assms(5) by (simp add: jfs_create_def)
  have ni: "next_inode s' = ?i + 1" using same_varsD(3) [OF r(3)] t(5) by simp
  show ?thesis
  proof (cases "entries ?sb ?D ?dir name")
    case None
    then have n: "r = 0" "is_dir N ?sb (jfs_next_free_block s') (content (j_dev s')) ?dir"
      "entries ?sb (content (j_dev s')) ?dir = (entries ?sb ?D ?dir)(name \<mapsto> ?i)" "others_kept ?sb ?nf ?dir ?D2 (content (j_dev s'))"
      using r(5) by simp_all
    then show ?thesis using run r(2) ni None s2(6,7) d(3) assms(8,9) by (auto simp: Let_def others_kept_def)
  next
    case (Some x)
    then have n: "r = - EEXIST" "content (j_dev s') = ?D2" "jfs_next_free_block s' = ?nf" using r(5) by simp_all
    then show ?thesis using run r(2) ni Some s2(6,7) d by (auto simp: Let_def)
  qed
qed

definition unlinked :: "jfs_inode \<Rightarrow> jfs_inode" where
  "unlinked nd = (if in_nlink nd \<le> 1 then nd\<lparr>in_nlink := 0, in_blocks := replicate 12 0, in_flags := 0, in_size := 0\<rparr>
     else nd\<lparr>in_nlink := in_nlink nd - 1\<rparr>)"

lemma drop_link_ok:
  assumes "jfs_ok p N content s" "sb_ok N (j_sb s)" "valid_inode (j_sb s) i"
  shows "\<exists>s'. drop_link p i s = Some s' \<and> jfs_ok p N content s' \<and> same_state s s' \<and>
    (\<forall>k. inode_at (j_sb s) (content (j_dev s')) k =
       (if k = i then unlinked (inode_at (j_sb s) (content (j_dev s)) i) else inode_at (j_sb s) (content (j_dev s)) k)) \<and>
    (\<forall>b. sb_data_start (j_sb s) \<le> b \<longrightarrow> content (j_dev s') b = content (j_dev s) b)"
proof -
  let ?nd = "inode_at (j_sb s) (content (j_dev s)) i"
  obtain s1 where s1: "get_inode p i s = Some (Some ?nd, s1)" "jfs_ok p N content s1" "j_dev s1 = j_dev s" "same_state s s1"
    using get_inode_ok [OF assms] by blast
  have e1: "j_sb s1 = j_sb s" using s1(4) by (simp add: same_state_def)
  have fit: "inode_fits ?nd" by (rule inode_fits_at)
  then have "map (\<lambda>_. 0) (in_blocks ?nd) = replicate 12 (0 :: nat)" by (simp add: inode_fits_def map_replicate_const)
  then have d: "drop_link p i s = put_inode p (unlinked ?nd) i s1"
    using s1(1) by (cases "in_nlink ?nd") (auto simp: drop_link_def unlinked_def Let_def)
  have "inode_fits (unlinked ?nd)" using fit by (auto simp: inode_fits_def unlinked_def inode_words_def)
  from put_inode_frame [OF s1(2), unfolded e1 s1(3), OF assms(2,3) this] show ?thesis
    unfolding d using same_state_trans [OF s1(4)] by blast
qed

text \<open>Removing a name: the directory loses exactly that name and stays well formed, the inode behind it loses a link and is cleared
  with the last one, every other inode and the blocks of other files are as before. A name that is not there gives \<open>ENOENT\<close> and no
  block changes.\<close>

lemma jfs_unlink_correct:
  assumes "jfs_ok p N content s" "sb_ok N (j_sb s)" "is_dir N (j_sb s) (jfs_next_free_block s) (content (j_dev s)) (jn_inode parent)"
    "name \<noteq> []" "0 \<notin> set name"
    "case entries (j_sb s) (content (j_dev s)) (jn_inode parent) name of None \<Rightarrow> True | Some i \<Rightarrow> valid_inode (j_sb s) i \<and> i \<noteq> jn_inode parent"
  shows "\<exists>r s'. jfs_unlink p parent name s = Some (r, s') \<and> jfs_ok p N content s' \<and> same_vars s s' \<and>
    (let D = content (j_dev s); D' = content (j_dev s'); sb = j_sb s; dir = jn_inode parent in
     case entries sb D dir name of
       None \<Rightarrow> r = - ENOENT \<and> D' = D
     | Some i \<Rightarrow> r = 0 \<and> is_dir N sb (jfs_next_free_block s) D' dir \<and> entries sb D' dir = (entries sb D dir)(name := None) \<and>
         inode_at sb D' i = unlinked (inode_at sb D i) \<and>
         (\<forall>k. valid_inode sb k \<longrightarrow> k \<noteq> i \<longrightarrow> inode_at sb D' k = inode_at sb D k) \<and>
         (\<forall>b. sb_data_start sb \<le> b \<longrightarrow> b \<notin> set (in_blocks (inode_at sb D dir)) \<longrightarrow> D' b = D b))"
proof -
  let ?D = "content (j_dev s)" and ?sb = "j_sb s" and ?dir = "jn_inode parent" and ?nf = "jfs_next_free_block s"
  have v: "valid_inode ?sb ?dir" "is_dir_flags (in_flags (inode_at ?sb ?D ?dir))" using assms(3) by (simp_all add: is_dir_def)
  obtain s1 where s1: "jfs_is_directory p ?dir s = Some (True, s1)" "jfs_ok p N content s1" "j_dev s1 = j_dev s" "same_state s s1"
    using jfs_is_directory_ok [OF assms(1,2) v(1)] v(2) by auto
  have e1: "j_sb s1 = ?sb" using s1(4) by (simp add: same_state_def)
  note rem = jfs_remove_entry_ok [OF s1(2), unfolded e1 s1(3), OF assms(2,3,5), unfolded Let_def]
  show ?thesis
  proof (cases "entries ?sb ?D ?dir name")
    case None
    then obtain i s2 where s2: "jfs_remove_entry p ?dir name s1 = Some (- ENOENT, i, s2)" "jfs_ok p N content s2" "same_vars s1 s2" "content (j_dev s2) = ?D"
      using rem by auto
    then have "jfs_unlink p parent name s = Some (- ENOENT, s2)" using s1(1) assms(4) by (simp add: jfs_unlink_def)
    then show ?thesis using s2 None same_vars_trans [OF same_state_vars [OF s1(4)]] by (simp add: Let_def)
  next
    case (Some i)
    then obtain s2 where s2: "jfs_remove_entry p ?dir name s1 = Some (0, i, s2)" "jfs_ok p N content s2" "same_vars s1 s2"
      "is_dir N ?sb ?nf (content (j_dev s2)) ?dir" "entries ?sb (content (j_dev s2)) ?dir = (entries ?sb ?D ?dir)(name := None)"
      "\<forall>k. valid_inode ?sb k \<longrightarrow> inode_at ?sb (content (j_dev s2)) k = inode_at ?sb ?D k"
      "\<forall>b. sb_data_start ?sb \<le> b \<longrightarrow> b \<notin> set (in_blocks (inode_at ?sb ?D ?dir)) \<longrightarrow> content (j_dev s2) b = ?D b"
      using rem by auto
    have i: "valid_inode ?sb i" "i \<noteq> ?dir" using assms(6) Some by simp_all
    have e2: "j_sb s2 = ?sb" using same_varsD(1) [OF s2(3)] e1 by simp
    obtain s3 where s3: "drop_link p i s2 = Some s3" "jfs_ok p N content s3" "same_state s2 s3"
      "\<forall>k. inode_at ?sb (content (j_dev s3)) k = (if k = i then unlinked (inode_at ?sb (content (j_dev s2)) i) else inode_at ?sb (content (j_dev s2)) k)"
      "\<forall>b. sb_data_start ?sb \<le> b \<longrightarrow> content (j_dev s3) b = content (j_dev s2) b"
      using drop_link_ok [OF s2(2), unfolded e2, OF assms(2) i(1)] by blast
    have I3: "inode_at ?sb (content (j_dev s3)) ?dir = inode_at ?sb (content (j_dev s2)) ?dir" using s3(4) i(2) by simp
    have same: "content (j_dev s3) b = content (j_dev s2) b" if "sb_data_start ?sb \<le> b" for b using s3(5) that by blast
    have d: "is_dir N ?sb ?nf (content (j_dev s3)) ?dir" "entries ?sb (content (j_dev s3)) ?dir = entries ?sb (content (j_dev s2)) ?dir"
      by (rule is_dir_cong [OF s2(4) I3], erule same)+
    have "jfs_unlink p parent name s = Some (0, s3)" using s1(1) s2(1) s3(1) assms(4) by (simp add: jfs_unlink_def)
    moreover have "same_vars s s3"
      using same_vars_trans [OF same_vars_trans [OF same_state_vars [OF s1(4)] s2(3)] same_state_vars [OF s3(3)]] .
    ultimately show ?thesis using s3(2,4,5) s2(5-7) d Some i by (simp add: Let_def)
  qed
qed

section \<open>Reading what was written\<close>

lemma byte_at_other:
  assumes "file_ok N sb nf nd" "i < 6144" "others_kept sb nf idx D D'" "set (in_blocks nd) \<inter> set (in_blocks (inode_at sb D idx)) \<subseteq> {0}"
  shows "byte_at D' nd i = byte_at D nd i"
proof -
  let ?c = "in_blocks nd ! (i div 512)"
  have k: "i div 512 < 12" using assms(2) by simp
  then have "?c \<in> set (in_blocks nd)" using assms(1) by (simp add: file_ok_def)
  then have "?c = 0 \<or> D' ?c = D ?c" using file_ok_nth [OF assms(1) k] assms(3,4) unfolding others_kept_def by blast
  then show ?thesis by (auto simp: byte_at_def)
qed

text \<open>C29: a write to a file, within the 6144 bytes a file can have, takes all bytes, and reading the same range afterwards returns them;
  a read of any other file returns what it returned before. The file grows, or the range has no holes: a block that fills a hole without
  growing the file is not recorded. The blocks of both files lie below the allocation counter (\<open>file_ok\<close>), which mounting resets.\<close>

theorem jfs_write_then_read:
  assumes "jfs_ok p N content s" "sb_ok N (j_sb s)" "valid_inode (j_sb s) idx"
    "file_ok N (j_sb s) (jfs_next_free_block s) (inode_at (j_sb s) (content (j_dev s)) idx)"
    "\<not> is_dir_flags (in_flags (inode_at (j_sb s) (content (j_dev s)) idx))" "offset + length buffer \<le> 6144"
    "in_size (inode_at (j_sb s) (content (j_dev s)) idx) < offset + length buffer \<or>
     (\<forall>i. offset \<le> i \<and> i < offset + length buffer \<longrightarrow> in_blocks (inode_at (j_sb s) (content (j_dev s)) idx) ! (i div 512) \<noteq> 0)"
    "valid_inode (j_sb s) other" "other \<noteq> idx" "file_ok N (j_sb s) (jfs_next_free_block s) (inode_at (j_sb s) (content (j_dev s)) other)"
    "set (in_blocks (inode_at (j_sb s) (content (j_dev s)) other)) \<inter> set (in_blocks (inode_at (j_sb s) (content (j_dev s)) idx)) \<subseteq> {0}"
    "at + sz < 2 ^ 32"
  shows "\<exists>n s'. jfs_write p idx offset buffer s = Some (length buffer, Some n, s') \<and> jfs_ok p N content s' \<and>
    map_option fst (jfs_read p idx offset (length buffer) s') = Some buffer \<and>
    map_option fst (jfs_read p other at sz s') = map_option fst (jfs_read p other at sz s)"
proof -
  let ?D = "content (j_dev s)" and ?sb = "j_sb s" and ?nf = "jfs_next_free_block s"
  let ?nd = "inode_at ?sb ?D idx" and ?od = "inode_at ?sb ?D other"
  have n: "min (length buffer) (6144 - offset) = length buffer" "offset + length buffer < 2 ^ 32" using assms(6) by simp_all
  obtain s' where s': "jfs_write p idx offset buffer s = Some (length buffer, Some (in_size (inode_at ?sb (content (j_dev s')) idx)), s')"
    "jfs_ok p N content s'" "j_sb s' = ?sb" "file_written N ?sb idx offset buffer ?D ?nf (content (j_dev s')) (jfs_next_free_block s')"
    using jfs_write_ok [OF assms(1-5) n(2)] assms(7) unfolding n(1) by auto
  let ?D' = "content (j_dev s')"
  let ?nd' = "inode_at ?sb ?D' idx"
  note f = s'(4) [unfolded file_written_def Let_def n(1)]
  have w: "file_ok N ?sb (jfs_next_free_block s') ?nd'" "in_size ?nd' = max (in_size ?nd) (offset + length buffer)" "in_flags ?nd' = in_flags ?nd"
    "others_kept ?sb ?nf idx ?D ?D'" using f by blast+
  have "map (byte_at ?D' ?nd') [offset..<offset + length buffer] = buffer" using f by (intro nth_equalityI) auto
  moreover have "min (min (offset + length buffer) (in_size ?nd')) 6144 = offset + length buffer" using w(2) assms(6) by simp
  ultimately have r1: "map_option fst (jfs_read p idx offset (length buffer) s') = Some buffer"
    using jfs_read_ok [OF s'(2), unfolded s'(3), OF assms(2,3) w(1) n(2)] w(3) assms(5) by auto
  have o: "inode_at ?sb ?D' other = ?od" using w(4) assms(8,9) by (simp add: others_kept_def)
  have fo: "file_ok N ?sb ?nf (inode_at ?sb ?D' other)" using assms(10) unfolding o .
  have "map (byte_at ?D' ?od) [at..<min (min (at + sz) (in_size ?od)) 6144] = map (byte_at ?D ?od) [at..<min (min (at + sz) (in_size ?od)) 6144]"
    using byte_at_other [OF assms(10) _ w(4) assms(11)] by auto
  then have "map_option fst (jfs_read p other at sz s') = map_option fst (jfs_read p other at sz s)"
    using jfs_read_ok [OF s'(2), unfolded s'(3), OF assms(2,8) fo assms(12), unfolded o] jfs_read_ok [OF assms(1,2,8,10,12)] by auto
  then show ?thesis using s'(1,2) r1 by blast
qed

section \<open>The journal\<close>

text \<open>The blocks after a sequence of writes to the device.\<close>

definition apply_writes :: "(nat \<times> u8 list) list \<Rightarrow> disk \<Rightarrow> disk" where
  "apply_writes ws D = fold (\<lambda>(off, x) E. E(off div 512 := x)) ws D"

lemma apply_writes_Nil [simp]: "apply_writes [] D = D"
  by (simp add: apply_writes_def)

text \<open>The journal at block \<open>js\<close> holds transaction \<open>tx\<close> in full: the begin record, the data record that names block \<open>t\<close>, the data, and the
  commit record.\<close>

definition tx_logged :: "nat \<Rightarrow> nat \<Rightarrow> nat \<Rightarrow> u8 list \<Rightarrow> disk \<Rightarrow> bool" where
  "tx_logged js tx t x D \<longleftrightarrow> le32 (D js) 0 = tx \<and> le32 (D js) 4 = JFS_TX_BEGIN \<and>
     le32 (D (js + 1)) 0 = tx \<and> le32 (D (js + 1)) 4 = JFS_TX_DATA \<and> le32 (D (js + 1)) 8 = t \<and> D (js + 2) = x \<and>
     le32 (D (js + 3)) 0 = tx \<and> le32 (D (js + 3)) 4 = JFS_TX_COMMIT"

lemma le32_journal_header:
  "tx < 2 ^ 32 \<Longrightarrow> le32 (journal_header tx ty t) 0 = tx" "ty < 2 ^ 32 \<Longrightarrow> le32 (journal_header tx ty t) 4 = ty"
  "t < 2 ^ 32 \<Longrightarrow> le32 (journal_header tx ty t) 8 = t"
proof -
  have h: "journal_header tx ty t = overwrite 0 (enc_words [tx, ty, t, 0]) (replicate 512 0)"
    by (simp add: journal_header_def overwrite_def length_enc_words)
  note e = le32_enc_words [of _ "[tx, ty, t, 0]" 0 "replicate 512 0", folded h]
  show "tx < 2 ^ 32 \<Longrightarrow> le32 (journal_header tx ty t) 0 = tx" using e [of 0] by simp
  show "ty < 2 ^ 32 \<Longrightarrow> le32 (journal_header tx ty t) 4 = ty" using e [of 1] by simp
  show "t < 2 ^ 32 \<Longrightarrow> le32 (journal_header tx ty t) 8 = t" using e [of 2] by simp
qed

text \<open>The writes of a transaction, in their order.\<close>

definition tx_writes :: "nat \<Rightarrow> nat \<Rightarrow> nat \<Rightarrow> u8 list \<Rightarrow> (nat \<times> u8 list) list" where
  "tx_writes js tx t x = [(512 * js, journal_header tx JFS_TX_BEGIN 0), (512 * (js + 1), journal_header tx JFS_TX_DATA t), (512 * (js + 2), x),
     (512 * (js + 3), journal_header tx JFS_TX_COMMIT 0), (512 * t, x)]"

lemma jfs_journal_write_log:
  assumes "\<And>d off x. jp_write p d off x = d @ [(off, x)]" "sb_ok N (j_sb s)" "t < N"
  shows "j_dev (jfs_journal_write p t x s) = j_dev s @ tx_writes (sb_journal_start (j_sb s)) (current_tx_id s) t x"
proof -
  have b: "sb_journal_start (j_sb s) + 3 < 2 ^ 23" "t < 2 ^ 23" using assms(2,3) by (auto simp: sb_ok_def)
  then show ?thesis
    by (simp add: jfs_journal_write_def Let_def disk_write_def assms(1) tx_writes_def wrap_simps)
qed

text \<open>C28: writing ahead. \<open>jfs_journal_write\<close> sends five writes to the device. Let the device stop after any number of them, in
  their order. Blocks outside the four of the journal are as before, but for the target after the last write; so as long as the target
  is not overwritten it holds the old block, and when it is, the journal already holds the whole transaction on the disk: its begin record, the number of
  the target, the data and the commit record. The commit record is not touched before the other three are there. At the
  end the target holds the data, and the next transaction has the next number.\<close>

theorem jfs_journal_writes_ahead:
  assumes "\<And>d off x. jp_write p d off x = d @ [(off, x)]" "j_dev s = []" "sb_ok N (j_sb s)" "t < N"
    "t \<notin> {sb_journal_start (j_sb s)..<sb_journal_start (j_sb s) + 4}" "current_tx_id s < 2 ^ 32"
  shows "let js = sb_journal_start (j_sb s); tx = current_tx_id s; s' = jfs_journal_write p t x s; after = (\<lambda>k. apply_writes (take k (j_dev s')) D) in
    length (j_dev s') = 5 \<and> current_tx_id s' = add32 tx 1 \<and>
    (\<forall>k b. b \<notin> {js..<js + 4} \<and> b \<noteq> t \<longrightarrow> after k b = D b) \<and>
    (\<forall>k. after k t \<noteq> D t \<longrightarrow> tx_logged js tx t x (after k)) \<and>
    (\<forall>k. after k (js + 3) \<noteq> D (js + 3) \<longrightarrow> tx_logged js tx t x (after k)) \<and>
    (\<forall>k < 5. after k t = D t) \<and> after 5 t = x \<and> tx_logged js tx t x (after 5)"
proof -
  define js where "js = sb_journal_start (j_sb s)"
  define tx where "tx = current_tx_id s"
  define ws where "ws = tx_writes js tx t x"
  have log: "j_dev (jfs_journal_write p t x s) = ws"
    using jfs_journal_write_log [OF assms(1,3,4)] assms(2) by (simp add: ws_def js_def tx_def)
  have t: "t \<noteq> js" "t \<noteq> js + 1" "t \<noteq> js + 2" "t \<noteq> js + 3" "t < 2 ^ 32" using assms(3-5) by (auto simp: js_def sb_ok_def)
  have tx: "tx < 2 ^ 32" using assms(6) by (simp add: tx_def)
  let ?d = "\<lambda>k. apply_writes (take k ws) D"
  have tk: "take 0 [a, b, c, d, e] = []" "take (Suc 0) [a, b, c, d, e] = [a]" "take 2 [a, b, c, d, e] = [a, b]" "take 3 [a, b, c, d, e] = [a, b, c]"
    "take 4 [a, b, c, d, e] = [a, b, c, d]" "take 5 [a, b, c, d, e] = [a, b, c, d, e]" for a b c d e :: "nat \<times> u8 list" by simp_all
  have d: "?d 0 = D" "?d (Suc 0) = D(js := journal_header tx JFS_TX_BEGIN 0)" "?d 2 = (?d (Suc 0))(js + 1 := journal_header tx JFS_TX_DATA t)"
    "?d 3 = (?d 2)(js + 2 := x)" "?d 4 = (?d 3)(js + 3 := journal_header tx JFS_TX_COMMIT 0)" "?d 5 = (?d 4)(t := x)"
    unfolding apply_writes_def ws_def tx_writes_def tk by simp_all
  have cases: "?d k = ?d 0 \<or> ?d k = ?d (Suc 0) \<or> ?d k = ?d 2 \<or> ?d k = ?d 3 \<or> k = 4 \<or> 5 \<le> k \<and> ?d k = ?d 5" for k
  proof (cases "5 \<le> k")
    case True
    then have "take k ws = take 5 ws" by (simp add: ws_def tx_writes_def)
    then show ?thesis using True by simp
  next
    case False
    then have "k \<in> {0, Suc 0, 2, 3, 4}" by auto
    then show ?thesis by auto
  qed
  have logged: "tx_logged js tx t x (?d k)" if "k = 4 \<or> ?d k = ?d 5" for k
    using that t tx unfolding tx_logged_def by (auto simp: d le32_journal_header JFS_TX_BEGIN_def JFS_TX_DATA_def JFS_TX_COMMIT_def)
  have early: "k = 4 \<or> ?d k = ?d 5 \<or> ?d k t = D t \<and> ?d k (js + 3) = D (js + 3)" for k
    using cases [of k] t by (elim disjE) (simp_all add: d)
  have "?d k b = D b" if "b \<notin> {js..<js + 4}" "b \<noteq> t" for k b
  proof -
    have "b \<noteq> js" "b \<noteq> js + 1" "b \<noteq> js + 2" "b \<noteq> js + 3" using that(1) by auto
    then show ?thesis using cases [of k] that(2) by (elim disjE) (simp_all add: d)
  qed
  moreover have "?d k t = D t" if "k < 5" for k
    using cases [of k] t that by (elim disjE) (simp_all add: d)
  moreover have "?d 5 t = x" unfolding d(6) by simp
  moreover have "length ws = 5" by (simp add: ws_def tx_writes_def)
  moreover have "tx_logged js tx t x (?d 5)" by (rule logged) simp
  moreover have "current_tx_id (jfs_journal_write p t x s) = add32 tx 1" by (simp add: jfs_journal_write_def Let_def tx_def)
  ultimately show ?thesis unfolding Let_def log js_def [symmetric] tx_def [symmetric] using early logged by blast
qed

section \<open>A small volume\<close>

text \<open>
  A volume of 200 blocks in memory with a root directory of one entry, the file \<open>a\<close>, which is inode 1 and empty; the properties above apply to it.
\<close>

definition demo_content :: "(nat \<Rightarrow> u8 list) \<Rightarrow> disk" where
  "demo_content d b = take 512 (d b @ replicate 512 0)"

definition demo_part :: "(nat \<Rightarrow> u8 list) jfs_part" where
  "demo_part = \<lparr>jp_read = (\<lambda>d off. demo_content d (off div 512)), jp_write = (\<lambda>d off x. d(off div 512 := x)), jp_impl = 0, jp_length = 102400\<rparr>"

definition demo_sb :: jfs_superblock where
  "demo_sb = \<lparr>sb_magic = JFS_MAGIC, sb_block_size = 512, sb_journal_start = 1, sb_journal_blocks = 64, sb_inode_start = 65, sb_inode_blocks = 32,
     sb_data_start = 100, sb_total_blocks = 200\<rparr>"

definition demo_root :: jfs_inode where
  "demo_root = \<lparr>in_inode = 0, in_size = 64, in_flags = 2, in_nlink = 1, in_blocks = 100 # replicate 11 0\<rparr>"

definition demo_disk :: disk where
  "demo_disk = (inode_put demo_sb 1 (new_inode 1 1) (inode_put demo_sb 0 demo_root (\<lambda>_. replicate 512 0)))
     (100 := set_entry_bytes 0 1 [97] (replicate 512 0))"

definition demo_state :: "(nat \<Rightarrow> u8 list) jfs" where
  "demo_state = \<lparr>j_cache = \<lparr>bcache = None, bcache_lock = False, access_counter = 0\<rparr>, j_dev = demo_disk, j_sb = demo_sb, current_tx_id = 1,
     jfs_next_free_block = 101, next_inode = 2, jfs_inode_mode = (\<lambda>_. 0), jfs_inode_uid = (\<lambda>_. 0), jfs_inode_gid = (\<lambda>_. 0),
     j_kmalloc = (\<lambda>_. True), j_allocs = 0\<rparr>"

definition demo_node :: jfs_node where
  "demo_node = jfs_root_node"

lemma demo_fits: "inode_fits demo_root" "inode_fits (new_inode 1 1)"
  by (simp_all add: inode_fits_def demo_root_def new_inode_def inode_words_def)

lemma demo_inode: "inode_at demo_sb demo_disk i =
    (if i = 1 then new_inode 1 1 else if i = 0 then demo_root else inode_at demo_sb (\<lambda>_. replicate 512 0) i)" if "i < 256"
proof -
  have b: "65 + i div 8 \<noteq> 100" using that by simp
  have l: "length (inode_put demo_sb 0 demo_root (\<lambda>_. replicate 512 0) 65) = 512"
    by (simp add: inode_put_def demo_sb_def length_overwrite length_enc_words demo_root_def inode_words_def)
  have "inode_at demo_sb demo_disk i = inode_at demo_sb (inode_put demo_sb 1 (new_inode 1 1) (inode_put demo_sb 0 demo_root (\<lambda>_. replicate 512 0))) i"
    using b by (intro inode_at_cong) (simp add: demo_disk_def demo_sb_def)
  then show ?thesis using inode_at_put [OF demo_fits(2), of _ demo_sb 1 i] inode_at_put [OF demo_fits(1), of _ demo_sb 0 i] l
    by (simp add: demo_sb_def)
qed

lemma demo_length: "length (demo_disk b) = 512"
  by (simp add: demo_disk_def inode_put_def demo_sb_def length_overwrite length_enc_words demo_root_def new_inode_def inode_words_def length_set_entry)

lemma demo_content_disk: "demo_content demo_disk = demo_disk"
  by (rule ext) (simp add: demo_content_def demo_length)

lemma jfs_demo_ok: "jfs_ok demo_part 200 demo_content demo_state" "sb_ok 200 (j_sb demo_state)"
proof -
  have "part_ok demo_part 200 demo_content"
    by (auto simp: part_ok_def demo_part_def demo_content_def fun_eq_iff)
  moreover have "bc.coherent (\<lambda>(v, s). demo_disk (unat s)) (j_cache demo_state)"
    by (simp add: bc.coherent_def cached_def demo_state_def bcache_read_def)
  moreover have "demo_disk (unat (word_of_nat b :: u32)) = demo_disk b" if "b < 200" for b
    using that by (simp add: unat_of_nat)
  ultimately show "jfs_ok demo_part 200 demo_content demo_state"
    unfolding jfs_ok_def by (auto simp: demo_state_def demo_content_disk bcache_inv_def intro!: exI [of _ "\<lambda>(v, s). demo_disk (unat s)"])
  show "sb_ok 200 (j_sb demo_state)" by (simp add: demo_state_def sb_ok_def demo_sb_def)
qed

lemma demo_proj: "j_sb demo_state = demo_sb" "demo_content (j_dev demo_state) = demo_disk" "jfs_next_free_block demo_state = 101"
  "next_inode demo_state = 2" "jn_inode demo_node = 0"
  by (simp_all add: demo_state_def demo_content_disk demo_node_def jfs_root_node_def)

lemma demo_holes: "card (holes nd) \<le> 12"
  using card_mono [of "{..<12}" "holes nd"] by (auto simp: holes_def)

lemma demo_file: "file_ok 200 demo_sb 101 (new_inode 1 1)"
  using demo_holes [of "new_inode 1 1"] by (auto simp: file_ok_def new_inode_def demo_sb_def)

lemma demo_block: "nth (100 # replicate 11 (0 :: nat)) i = (if i = 0 then 100 else 0)" if "i < 12"
  using that by (cases i) auto

lemma demo_slot: "sector_ok (demo_disk 100)" "entry_of demo_disk (100, 0) = Some ([97], 1)" "\<And>j. 0 < j \<Longrightarrow> j < 8 \<Longrightarrow> entry_of demo_disk (100, j) = None"
proof -
  have z: "sector_ok (replicate 512 0)" by (simp add: sector_ok_def ent_inode_zero)
  have e: "demo_disk 100 = set_entry_bytes 0 1 [97] (replicate 512 0)" by (simp add: demo_disk_def)
  note s = set_entry_ok [OF z, of 0 "[97]" 1, folded e]
  show "sector_ok (demo_disk 100)" using s(1) by simp
  show "entry_of demo_disk (100, 0) = Some ([97], 1)" using s(2,3) by (simp add: entry_of_def)
  show "entry_of demo_disk (100, j) = None" if "0 < j" "j < 8" for j using s(4) [of j] that by (simp add: entry_of_def ent_inode_zero)
qed

lemma demo_dir: "is_dir 200 demo_sb 101 demo_disk 0" "entries demo_sb demo_disk 0 = [[97] \<mapsto> 1]" "dir_room 101 demo_sb demo_disk 0"
proof -
  let ?bs = "100 # replicate 11 (0 :: nat)"
  have nd: "inode_at demo_sb demo_disk 0 = demo_root" "in_blocks demo_root = ?bs" using demo_inode [of 0] by (simp_all add: demo_root_def)
  have sl: "x \<in> set (slots ?bs) \<longleftrightarrow> (\<exists>j < 8. x = (100, j))" for x
  proof -
    have "set ?bs = {100, 0}" by simp
    moreover obtain a b where x: "x = (a, b)" by (cases x)
    ultimately show ?thesis unfolding x slots_iff by auto
  qed
  have en: "entry_of demo_disk x = Some (n, i) \<longleftrightarrow> x = (100, 0) \<and> n = [97] \<and> i = 1" if xs: "x \<in> set (slots ?bs)" for x n i
  proof -
    obtain j where x: "x = (100, j)" "j < 8" using xs sl by blast
    have "entry_of demo_disk x = (if j = 0 then Some ([97], 1) else None)" unfolding x(1) using demo_slot(2) demo_slot(3) [of j] x(2) by simp
    then show ?thesis using x(1) by auto
  qed
  have u: "unique_names demo_disk ?bs" unfolding unique_names_def using en by simp
  have f: "file_ok 200 demo_sb 101 demo_root"
    using demo_holes [of demo_root] demo_block by (auto simp: file_ok_def demo_sb_def nd(2) split: if_splits)
  show "is_dir 200 demo_sb 101 demo_disk 0"
    unfolding is_dir_def dir_ok_def nd using u f demo_slot(1) by (auto simp: valid_inode_def demo_sb_def demo_root_def is_dir_flags_def)
  have "(100, 0) \<in> set (slots ?bs)" using sl by auto
  then have "dir_map demo_disk ?bs = [[97] \<mapsto> 1]" by (intro entry_map_eqI [OF u]) (use en in \<open>auto split: if_splits\<close>)
  then show "entries demo_sb demo_disk 0 = [[97] \<mapsto> 1]" by (simp add: entries_def nd)
  have "has_room demo_disk (?bs ! 1)" by (simp add: has_room_def)
  then show "dir_room 101 demo_sb demo_disk 0" unfolding dir_room_def nd by (auto simp: demo_sb_def intro: exI [of _ 1])
qed

lemma demo_setup: "valid_inode demo_sb i \<longleftrightarrow> i < 256" "inode_at demo_sb demo_disk 1 = new_inode 1 1" "inode_at demo_sb demo_disk 0 = demo_root"
  "file_ok 200 demo_sb 101 demo_root"
  using demo_inode [of 0] demo_inode [of 1] demo_dir(1) by (auto simp: valid_inode_def demo_sb_def is_dir_def)

theorem jfs_write_then_read_witness:
  "\<exists>n s'. jfs_write demo_part 1 0 [7, 8, 9] demo_state = Some (3, Some n, s') \<and> map_option fst (jfs_read demo_part 1 0 3 s') = Some [7, 8, 9]"
proof -
  have h: "(1 :: nat) < 256" "\<not> is_dir_flags (in_flags (new_inode 1 1))" "0 + length [7, 8, 9 :: u8] \<le> 6144" "(0 :: nat) < 256" "(0 :: nat) \<noteq> 1"
    "in_size (new_inode 1 1) < 0 + length [7, 8, 9 :: u8]" "set (in_blocks demo_root) \<inter> set (in_blocks (new_inode 1 1)) \<subseteq> {0}" "0 + 10 < (2 :: nat) ^ 32"
    by (simp_all add: new_inode_def is_dir_flags_def)
  have l: "length [7, 8, 9 :: u8] = 3" by simp
  from jfs_write_then_read [where idx = 1 and offset = 0 and buffer = "[7, 8, 9]" and other = 0 and at = 0 and sz = 10, OF jfs_demo_ok,
      unfolded demo_proj demo_setup, OF h(1) demo_file h(2,3) disjI1 [OF h(6)] h(4,5) demo_setup(4) h(7,8), unfolded l]
  show ?thesis by blast
qed

theorem jfs_create_correct_witness:
  "\<exists>s'. jfs_create demo_part demo_node [98] 0 demo_state = Some (0, s') \<and> entries demo_sb (demo_content (j_dev s')) 0 = [[97] \<mapsto> 1, [98] \<mapsto> 2]"
  using jfs_create_correct [OF jfs_demo_ok, of demo_node "[98]" 0, unfolded demo_proj Let_def demo_setup] demo_dir by auto

lemma jfs_unlink_correct_witness:
  "\<exists>s'. jfs_unlink demo_part demo_node [97] demo_state = Some (0, s') \<and> entries demo_sb (demo_content (j_dev s')) 0 = Map.empty"
  using jfs_unlink_correct [OF jfs_demo_ok, of demo_node "[97]", unfolded demo_proj Let_def demo_setup] demo_dir by auto

definition log_part :: "(nat \<times> u8 list) list jfs_part" where
  "log_part = \<lparr>jp_read = (\<lambda>d off. []), jp_write = (\<lambda>d off x. d @ [(off, x)]), jp_impl = 0, jp_length = 102400\<rparr>"

definition log_state :: "(nat \<times> u8 list) list jfs" where
  "log_state = \<lparr>j_cache = \<lparr>bcache = None, bcache_lock = False, access_counter = 0\<rparr>, j_dev = [], j_sb = demo_sb, current_tx_id = 1,
     jfs_next_free_block = 101, next_inode = 2, jfs_inode_mode = (\<lambda>_. 0), jfs_inode_uid = (\<lambda>_. 0), jfs_inode_gid = (\<lambda>_. 0),
     j_kmalloc = (\<lambda>_. True), j_allocs = 0\<rparr>"

theorem jfs_journal_writes_ahead_witness:
  "\<exists>ws. ws = j_dev (jfs_journal_write log_part 100 (replicate 512 7) log_state) \<and> apply_writes (take 4 ws) (\<lambda>_. replicate 512 0) 100 = replicate 512 0 \<and>
    apply_writes (take 5 ws) (\<lambda>_. replicate 512 0) 100 = replicate 512 7 \<and> tx_logged 1 1 100 (replicate 512 7) (apply_writes (take 5 ws) (\<lambda>_. replicate 512 0))"
proof -
  have js: "sb_journal_start (j_sb log_state) = 1" "sb_ok 200 (j_sb log_state)" "current_tx_id log_state = 1" "j_dev log_state = []"
    by (simp_all add: log_state_def demo_sb_def sb_ok_def)
  have w: "jp_write log_part d off x = d @ [(off, x)]" for d off x by (simp add: log_part_def)
  have t: "(100 :: nat) < 200" "(100 :: nat) \<notin> {1..<1 + 4}" "(1 :: nat) < 2 ^ 32" by simp_all
  note a = jfs_journal_writes_ahead [OF w js(4,2) t(1), unfolded js(1,3), OF t(2,3), of "replicate 512 7" "\<lambda>_. replicate 512 0"]
  have "(4 :: nat) < 5" by simp
  then show ?thesis using a unfolding Let_def by blast
qed

end
