(* ===== verification/Proc.thy ===== *)
theory Proc
  imports Futex Pmm Convert
begin

text \<open>
  The life of a task (\<^verbatim>\<open>kernel/task.c\<close>): the table slots and their bitmap, the first tasks, creation of kernel tasks, \<^verbatim>\<open>fork\<close> and
  \<^verbatim>\<open>clone\<close>, ending, stopping and killing, and the wait calls that reap dead children. The state is that of the scheduler and the futexes with the
  other fields of the task table: \<open>pt\<close> holds those that the scheduler does not use, \<open>fd_nodes\<close> and \<open>sig_tables\<close> the descriptor table and the
  signal tables inside each slot. What the kernel stack allocator and the copy of the address space returned, and the answers of the user memory
  check, are arguments (the copy and the check are \<open>vmm_clone_pml4\<close> and \<open>vmm_verify_user_access\<close> of \<open>VmmFork\<close> and \<open>VmmUser\<close>); of the new kernel stack
  only the saved stack pointer is modelled, not the registers stored there.
\<close>

section \<open>State\<close>

text \<open>The four arrays of 32 entries that describe what a signal does.\<close>

record sigtab =
  handlers :: "nat \<Rightarrow> nat"
  restorers :: "nat \<Rightarrow> nat"
  sa_flags :: "nat \<Rightarrow> nat"
  action_masks :: "nat \<Rightarrow> nat"

record ptask =
  rsp :: nat
  stack_base :: nat
  pgid :: nat
  sid :: nat
  group_leader :: "nat option"
  clear_child_tid :: nat
  executable_path :: string
  fd_table :: nat
  cwd :: string
  cwd_node :: "nat option"
  signal_mask :: u32
  uid :: nat
  gid :: nat
  euid :: nat
  egid :: nat
  sigaltstack_sp :: nat
  sigaltstack_size :: nat
  sigaltstack_flags :: u32
  signal_tables :: nat
  brk :: nat
  os_abi :: nat
  mmap_base :: nat
  binder_mmap_base :: nat
  binder_mmap_size :: nat
  binder_mmap_offset :: nat
  binder_mmap_kptr :: nat
  entry :: nat

text \<open>\<open>fd_table\<close> and \<open>signal_tables\<close> are the slot whose internal tables are used (the four signal pointers are always set together); \<open>closed\<close> and \<open>destroyed\<close> record the calls of \<open>close_fs\<close> (with the node freed) and of \<open>vmm_destroy_pml4\<close>.\<close>

record proc =
  fut :: futex
  pt :: "nat \<Rightarrow> ptask"
  fd_nodes :: "nat \<Rightarrow> nat \<Rightarrow> nat option"
  sig_tables :: "nat \<Rightarrow> sigtab"
  node_refs :: "nat \<Rightarrow> nat"
  closed :: "nat list"
  destroyed :: "nat list"
  task_bitmap :: u64
  next_id :: nat

abbreviation blank_sigtab :: sigtab where
  "blank_sigtab \<equiv> \<lparr>handlers = (\<lambda>_. 0), restorers = (\<lambda>_. 0), sa_flags = (\<lambda>_. 0), action_masks = (\<lambda>_. 0)\<rparr>"

abbreviation blank_ptask :: ptask where
  "blank_ptask \<equiv> \<lparr>rsp = 0, stack_base = 0, pgid = 0, sid = 0, group_leader = None, clear_child_tid = 0, executable_path = [], fd_table = 0, cwd = [], cwd_node = None,
     signal_mask = 0, uid = 0, gid = 0, euid = 0, egid = 0, sigaltstack_sp = 0, sigaltstack_size = 0, sigaltstack_flags = 0, signal_tables = 0, brk = 0, os_abi = 0,
     mmap_base = 0, binder_mmap_base = 0, binder_mmap_size = 0, binder_mmap_offset = 0, binder_mmap_kptr = 0, entry = 0\<rparr>"

definition MAX_FD :: nat where "MAX_FD = 256"
definition TASK_STACK_SIZE :: nat where "TASK_STACK_SIZE = 32768"
definition SIGKILL :: nat where "SIGKILL = 9"
definition FUTEX_WAKE :: int where "FUTEX_WAKE = 1"
definition CLD_EXITED :: int where "CLD_EXITED = 1"
definition CLD_KILLED :: int where "CLD_KILLED = 2"
definition CLD_STOPPED :: int where "CLD_STOPPED = 5"
definition CLD_CONTINUED :: int where "CLD_CONTINUED = 6"
definition SIZEOF_SYSCALL_REGS :: nat where "SIZEOF_SYSCALL_REGS = 120"
definition SS_ONSTACK :: u32 where "SS_ONSTACK = 1"
definition SS_DISABLE :: u32 where "SS_DISABLE = 2"
definition CLONE_VM :: u64 where "CLONE_VM = 0x100"
definition CLONE_FILES :: u64 where "CLONE_FILES = 0x400"
definition CLONE_SIGHAND :: u64 where "CLONE_SIGHAND = 0x800"
definition CLONE_THREAD :: u64 where "CLONE_THREAD = 0x10000"
definition CLONE_SETTLS :: u64 where "CLONE_SETTLS = 0x80000"
definition CLONE_PARENT_SETTID :: u64 where "CLONE_PARENT_SETTID = 0x100000"
definition CLONE_CHILD_CLEARTID :: u64 where "CLONE_CHILD_CLEARTID = 0x200000"
definition CLONE_CHILD_SETTID :: u64 where "CLONE_CHILD_SETTID = 0x1000000"
definition WNOHANG :: u32 where "WNOHANG = 1"
definition WUNTRACED :: u32 where "WUNTRACED = 2"
definition WSTOPPED :: u32 where "WSTOPPED = WUNTRACED"
definition WEXITED :: u32 where "WEXITED = 4"
definition WCONTINUED :: u32 where "WCONTINUED = 8"
definition WNOWAIT :: u32 where "WNOWAIT = 0x01000000"
definition WALL :: u32 where "WALL = 0x40000000"
definition P_ALL :: int where "P_ALL = 0"
definition P_PID :: int where "P_PID = 1"
definition P_PGID :: int where "P_PGID = 2"

abbreviation psch :: "proc \<Rightarrow> sched" where
  "psch p \<equiv> fsch (fut p)"

definition with_sched :: "sched \<Rightarrow> proc \<Rightarrow> proc" where
  "with_sched s p = p\<lparr>fut := (fut p)\<lparr>fsch := s\<rparr>\<rparr>"

definition upd_pt :: "nat \<Rightarrow> (ptask \<Rightarrow> ptask) \<Rightarrow> proc \<Rightarrow> proc" where
  "upd_pt t f p = p\<lparr>pt := (pt p)(t := f (pt p t))\<rparr>"

text \<open>The conversion of a 32-bit number to \<open>int\<close>.\<close>

definition to_int :: "nat \<Rightarrow> int" where
  "to_int n = (if n < 2 ^ 31 then int n else int n - 2 ^ 32)"

text \<open>A processor, online or not, has the task as its current one.\<close>

definition current_anywhere :: "sched \<Rightarrow> nat \<Rightarrow> bool" where
  "current_anywhere s t \<longleftrightarrow> list_ex (\<lambda>c. current_task (cpus s c) = Some t) [0..int MAX_CPUS - 1]"

section \<open>Slots (lines 241-270, 1517-1558)\<close>

definition drop_fd :: "nat \<Rightarrow> nat \<Rightarrow> proc \<Rightarrow> proc" where
  "drop_fd z j p =
     (case fd_nodes p z j of
        None \<Rightarrow> p
      | Some n \<Rightarrow>
          let r = sub32 (node_refs p n) 1
          in p\<lparr>node_refs := (node_refs p)(n := r), closed := (if r = 0 then closed p @ [n] else closed p),
               fd_nodes := (fd_nodes p)(z := (fd_nodes p z)(j := None))\<rparr>)"

text \<open>The page table is shared if another slot has it whose state is not 0, which is \<open>TASK_READY\<close>.\<close>

definition shared_cr3 :: "nat \<Rightarrow> sched \<Rightarrow> bool" where
  "shared_cr3 z s \<longleftrightarrow>
     list_ex (\<lambda>k. k \<noteq> z \<and> t_state (tasks s k) \<noteq> TASK_READY \<and> cr3 (tasks s k) = cr3 (tasks s z)) [0..<MAX_TASKS]"

definition task_reap_zombie_locked :: "nat \<Rightarrow> proc \<Rightarrow> proc" where
  "task_reap_zombie_locked z p =
     (let p1 = (if fd_table (pt p z) = z then fold (drop_fd z) [0..<MAX_FD] p else p);
          p2 = (if cr3 (tasks (psch p1) z) \<noteq> cr3 (tasks (psch p1) 0) \<and> \<not> shared_cr3 z (psch p1)
                then p1\<lparr>destroyed := destroyed p1 @ [cr3 (tasks (psch p1) z)]\<rparr> else p1);
          s = upd_task z (\<lambda>x. x\<lparr>t_id := 0, t_state := TASK_READY, t_name := [], wait_pending := False, wait_code := 0, wait_status := 0\<rparr>) (psch p2)
      in (with_sched s p2)\<lparr>task_bitmap := unset_bit z (task_bitmap p2)\<rparr>)"

fun reap_orphan :: "nat list \<Rightarrow> proc \<Rightarrow> nat option \<times> proc" where
  "reap_orphan [] p = (None, p)"
| "reap_orphan (i # is) p =
     (if t_state (tasks (psch p) i) = TASK_DEAD \<and> parent_id (tasks (psch p) i) = t_id (tasks (psch p) 0) \<and> \<not> current_anywhere (psch p) i
      then let p1 = task_reap_zombie_locked i p in (Some i, p1\<lparr>task_bitmap := set_bit i (task_bitmap p1)\<rparr>)
      else reap_orphan is p)"

definition find_free_slot :: "proc \<Rightarrow> nat option \<times> proc" where
  "find_free_slot p =
     (if NOT (task_bitmap p) \<noteq> 0 \<and> ctzll (NOT (task_bitmap p)) < MAX_TASKS
      then (Some (ctzll (NOT (task_bitmap p))), p\<lparr>task_bitmap := set_bit (ctzll (NOT (task_bitmap p))) (task_bitmap p)\<rparr>)
      else reap_orphan [1..<MAX_TASKS] p)"

section \<open>The first tasks (lines 317-485)\<close>

definition add_ref :: "nat option \<Rightarrow> proc \<Rightarrow> proc" where
  "add_ref nd p = (case nd of None \<Rightarrow> p | Some n \<Rightarrow> p\<lparr>node_refs := (node_refs p)(n := add32 (node_refs p n) 1)\<rparr>)"

text \<open>\<open>pml4\<close> is the register CR3 and \<open>root\<close> the node \<open>fs_root\<close>.\<close>

definition scheduler_init :: "int option \<Rightarrow> nat \<Rightarrow> nat option \<Rightarrow> proc \<Rightarrow> proc" where
  "scheduler_init cpu pml4 root p =
     (let i = next_id p;
          x = blank_task\<lparr>t_id := i, parent_id := 0, tgid := i, t_state := TASK_RUNNING, target_cpu := 0, cr3 := pml4,
                kernel_stack_top := 0x90000, t_name := ''kernel''\<rparr>;
          y = blank_ptask\<lparr>pgid := i, sid := i, group_leader := Some 0, fd_table := 0, cwd := ''/'', executable_path := ''/kernel'', cwd_node := root,
                sigaltstack_flags := SS_DISABLE, signal_tables := 0, mmap_base := 0x700000000000\<rparr>;
          s1 = (psch p)\<lparr>tasks := (\<lambda>_. blank_task)(0 := x), task_count := 1, scheduler_active := True\<rparr>;
          s2 = (case cpu of
                  None \<Rightarrow> s1
                | Some c \<Rightarrow> upd_cpu c (\<lambda>k. k\<lparr>current_task := Some 0, sched_ticks := 0, tss_rsp0 := 0x90000\<rparr>) s1)
      in add_ref root ((with_sched s2 p)\<lparr>pt := (\<lambda>_. blank_ptask)(0 := y), fd_nodes := (\<lambda>_ _. None), sig_tables := (\<lambda>_. blank_sigtab),
           task_bitmap := 1, next_id := add32 i 1\<rparr>))"

definition set_task_count :: "nat \<Rightarrow> proc \<Rightarrow> proc" where
  "set_task_count slot p =
     (if slot \<ge> task_count (psch p) then with_sched ((psch p)\<lparr>task_count := slot + 1\<rparr>) p else p)"

definition ap_name :: "sched \<Rightarrow> int option \<Rightarrow> string" where
  "ap_name s cpu =
     (case cpu of
        None \<Rightarrow> ''Idle AP ?''
      | Some c \<Rightarrow> (case itoa_s (int (apic_id (cpus s c))) 8 10 of Inr (Some b) \<Rightarrow> take 31 (''Idle AP '' @ b) | _ \<Rightarrow> ''Idle AP ''))"

definition task_init_ap :: "int option \<Rightarrow> nat \<Rightarrow> proc \<Rightarrow> proc" where
  "task_init_ap cpu pml4 p =
     (case find_free_slot p of
        (None, p1) \<Rightarrow> p1
      | (Some slot, p1) \<Rightarrow>
          let i = next_id p1; s = psch p1;
              s1 = upd_task slot (\<lambda>x. x\<lparr>t_id := i, parent_id := 0, tgid := i, t_state := TASK_RUNNING, cr3 := pml4, kernel_stack_top := 0,
                     t_name := ap_name s cpu, fs_base := 0, gs_base := 0\<rparr>) s;
              s2 = (case cpu of
                      None \<Rightarrow> s1
                    | Some c \<Rightarrow>
                        let ks = c_kernel_stack_top (cpus s c) in
                        upd_cpu c (\<lambda>k. k\<lparr>current_task := Some slot, idle_task := Some slot, sched_ticks := 0, tss_rsp0 := ks\<rparr>)
                          (upd_task slot (\<lambda>x. x\<lparr>target_cpu := to_int (cpu_index (cpus s c)), kernel_stack_top := ks\<rparr>) s1));
              p2 = upd_pt slot (\<lambda>y. y\<lparr>pgid := i, sid := i, group_leader := Some slot, clear_child_tid := 0, stack_base := 0, rsp := 0, fd_table := slot, cwd := ''/'',
                     uid := 0, gid := 0, signal_tables := slot, sigaltstack_sp := 0, sigaltstack_size := 0, sigaltstack_flags := SS_DISABLE\<rparr>)
                     ((with_sched s2 p1)\<lparr>next_id := add32 i 1, fd_nodes := (fd_nodes p1)(slot := (\<lambda>_. None)), sig_tables := (sig_tables p1)(slot := blank_sigtab)\<rparr>)
          in set_task_count slot p2)"

section \<open>Creation (lines 499-626, 1162-1503)\<close>

text \<open>The end of every creation: the slot counts and its task is ready and queued.\<close>

definition start_task :: "nat \<Rightarrow> proc \<Rightarrow> proc" where
  "start_task slot p =
     (let p1 = set_task_count slot p
      in with_sched (enqueue_ready slot (upd_task slot (\<lambda>x. x\<lparr>t_state := TASK_READY\<rparr>) (psch p1))) p1)"

text \<open>\<open>stack\<close> is what \<open>alloc_kernel_stack\<close> returned.\<close>

definition task_create :: "nat option \<Rightarrow> nat \<Rightarrow> nat option \<Rightarrow> string \<Rightarrow> nat \<Rightarrow> proc \<Rightarrow> int \<times> proc" where
  "task_create stack pml4 root name fn p =
     (if task_count (psch p) \<ge> MAX_TASKS then (- 1, p)
      else
        case find_free_slot p of
          (None, p1) \<Rightarrow> (- 1, p1)
        | (Some slot, p1) \<Rightarrow>
            (case stack of
               None \<Rightarrow> (- 1, p1\<lparr>task_bitmap := unset_bit slot (task_bitmap p1)\<rparr>)
             | Some sp \<Rightarrow>
                 let i = next_id p1;
                     s1 = upd_task slot (\<lambda>x. x\<lparr>t_id := i, parent_id := 0, tgid := i, t_state := TASK_READY, kernel_stack_top := sp + TASK_STACK_SIZE,
                            cr3 := pml4, t_name := take 31 name, signal_pending := 0, fs_base := 0, gs_base := 0,
                            wait_status := 0, wait_code := 0, wait_pending := False\<rparr>) (psch p1);
                     p2 = upd_pt slot (\<lambda>y. y\<lparr>pgid := i, sid := i, stack_base := sp, executable_path := ''/'', entry := fn, fd_table := slot, cwd := ''/'', cwd_node := root,
                            signal_mask := 0, sigaltstack_sp := 0, sigaltstack_size := 0, sigaltstack_flags := SS_DISABLE, signal_tables := slot,
                            brk := 0, uid := 0, gid := 0, euid := 0, egid := 0, mmap_base := 0x700000000000, rsp := sp + TASK_STACK_SIZE - 56\<rparr>)
                            ((with_sched s1 p1)\<lparr>next_id := add32 i 1, fd_nodes := (fd_nodes p1)(slot := (\<lambda>_. None)), sig_tables := (sig_tables p1)(slot := blank_sigtab)\<rparr>)
                 in (to_int i, start_task slot (add_ref root p2))))"

text \<open>The copy of the descriptor table, with a reference for each open node, and of the signal tables.\<close>

definition copy_fds :: "nat \<Rightarrow> nat \<Rightarrow> proc \<Rightarrow> proc" where
  "copy_fds slot src p =
     fold (\<lambda>j q. add_ref (fd_nodes q slot j) q) [0..<MAX_FD] (p\<lparr>fd_nodes := (fd_nodes p)(slot := fd_nodes p src)\<rparr>)"

definition copy_signals :: "nat \<Rightarrow> nat \<Rightarrow> proc \<Rightarrow> proc" where
  "copy_signals slot src p = p\<lparr>sig_tables := (sig_tables p)(slot := sig_tables p src)\<rparr>"

text \<open>The fields of the child's slot, from those of the parent: \<open>x0\<close> and \<open>y0\<close>.\<close>

definition fork_task :: "nat \<Rightarrow> nat \<Rightarrow> nat \<Rightarrow> task \<Rightarrow> task \<Rightarrow> task" where
  "fork_task i sp child_cr3 x0 x =
     x\<lparr>t_id := i, parent_id := t_id x0, tgid := i, t_state := TASK_READY, kernel_stack_top := sp + TASK_STACK_SIZE,
       cr3 := child_cr3, t_name := take 31 (t_name x0), signal_pending := 0, fs_base := fs_base x0, gs_base := gs_base x0,
       user_rsp := user_rsp x0, wait_status := 0, wait_code := 0, wait_pending := False\<rparr>"

definition fork_ptask :: "nat \<Rightarrow> nat \<Rightarrow> ptask \<Rightarrow> ptask \<Rightarrow> ptask" where
  "fork_ptask slot sp y0 y =
     y\<lparr>pgid := pgid y0, sid := sid y0, group_leader := Some slot, clear_child_tid := 0, stack_base := sp,
       executable_path := executable_path y0, fd_table := slot, cwd := cwd y0, cwd_node := cwd_node y0, signal_mask := signal_mask y0,
       sigaltstack_sp := sigaltstack_sp y0, sigaltstack_size := sigaltstack_size y0,
       sigaltstack_flags := sigaltstack_flags y0 AND NOT SS_ONSTACK, signal_tables := slot, brk := brk y0, os_abi := os_abi y0,
       uid := uid y0, gid := gid y0, euid := euid y0, egid := egid y0, mmap_base := mmap_base y0,
       binder_mmap_base := binder_mmap_base y0, binder_mmap_size := binder_mmap_size y0, binder_mmap_offset := binder_mmap_offset y0,
       binder_mmap_kptr := binder_mmap_kptr y0, rsp := sp + TASK_STACK_SIZE - SIZEOF_SYSCALL_REGS - 56\<rparr>"

text \<open>The lock is released around the copy of the address space, whose result \<open>child_cr3\<close> is not checked.\<close>

definition task_fork :: "int option \<Rightarrow> nat option \<Rightarrow> nat \<Rightarrow> proc \<Rightarrow> int \<times> proc" where
  "task_fork cpu stack child_cr3 p =
     (if task_count (psch p) \<ge> MAX_TASKS then (- 1, p)
      else
        case find_free_slot p of
          (None, p1) \<Rightarrow> (- 1, p1)
        | (Some slot, p1) \<Rightarrow>
            (case stack of
               None \<Rightarrow> (- 1, p1\<lparr>task_bitmap := unset_bit slot (task_bitmap p1)\<rparr>)
             | Some sp \<Rightarrow>
                 let i = next_id p1; parent = task_get_current cpu (psch p1);
                     x0 = tasks (psch p1) parent; y0 = pt p1 parent;
                     p2 = upd_pt slot (fork_ptask slot sp y0)
                            ((with_sched (upd_task slot (fork_task i sp child_cr3 x0) (psch p1)) p1)\<lparr>next_id := add32 i 1\<rparr>);
                     p3 = copy_signals slot (signal_tables y0) (add_ref (cwd_node y0) (copy_fds slot (fd_table y0) p2))
                 in (to_int i, start_task slot p3)))"

definition clone_task :: "u64 \<Rightarrow> nat \<Rightarrow> nat \<Rightarrow> nat \<Rightarrow> nat \<Rightarrow> nat \<Rightarrow> task \<Rightarrow> task \<Rightarrow> task" where
  "clone_task flags i sp child_cr3 stack_top tls x0 x =
     x\<lparr>t_id := i, parent_id := t_id x0, tgid := (if flags AND CLONE_THREAD \<noteq> 0 then tgid x0 else i), t_state := TASK_READY,
       kernel_stack_top := sp + TASK_STACK_SIZE, cr3 := (if flags AND CLONE_VM \<noteq> 0 then cr3 x0 else child_cr3),
       t_name := take 31 (t_name x0), signal_pending := 0,
       fs_base := (if flags AND CLONE_SETTLS \<noteq> 0 then tls else fs_base x0), gs_base := gs_base x0,
       user_rsp := (if stack_top \<noteq> 0 then stack_top else user_rsp x0), wait_status := 0, wait_code := 0, wait_pending := False\<rparr>"

definition clone_ptask :: "u64 \<Rightarrow> nat \<Rightarrow> nat \<Rightarrow> nat \<Rightarrow> ptask \<Rightarrow> ptask \<Rightarrow> ptask" where
  "clone_ptask flags slot sp child_tid y0 y =
     (let vm = (flags AND CLONE_VM \<noteq> 0) in
      y\<lparr>pgid := pgid y0, sid := sid y0, group_leader := (if flags AND CLONE_THREAD \<noteq> 0 then group_leader y0 else Some slot),
       clear_child_tid := (if flags AND CLONE_CHILD_CLEARTID \<noteq> 0 then child_tid else 0), stack_base := sp,
       executable_path := executable_path y0, fd_table := (if flags AND CLONE_FILES \<noteq> 0 then fd_table y0 else slot),
       cwd := cwd y0, cwd_node := cwd_node y0, signal_mask := signal_mask y0,
       sigaltstack_sp := (if vm then 0 else sigaltstack_sp y0), sigaltstack_size := (if vm then 0 else sigaltstack_size y0),
       sigaltstack_flags := (if vm then SS_DISABLE else sigaltstack_flags y0 AND NOT SS_ONSTACK),
       signal_tables := (if flags AND CLONE_SIGHAND \<noteq> 0 then signal_tables y0 else slot), brk := brk y0, os_abi := os_abi y0,
       uid := uid y0, gid := gid y0, euid := euid y0, egid := egid y0, mmap_base := mmap_base y0,
       binder_mmap_base := binder_mmap_base y0, binder_mmap_size := binder_mmap_size y0, binder_mmap_offset := binder_mmap_offset y0,
       binder_mmap_kptr := binder_mmap_kptr y0, rsp := sp + TASK_STACK_SIZE - SIZEOF_SYSCALL_REGS - 56\<rparr>)"

text \<open>The thread number stored in user memory, if asked for and if the address may be written.\<close>

definition store_tid :: "bool \<Rightarrow> (nat \<Rightarrow> bool) \<Rightarrow> nat \<Rightarrow> nat \<Rightarrow> proc \<Rightarrow> proc" where
  "store_tid wanted access a i p =
     (if wanted \<and> a \<noteq> 0 \<and> access a then p\<lparr>fut := (fut p)\<lparr>umem := (umem (fut p))(a := of_nat i)\<rparr>\<rparr> else p)"

definition task_clone :: "int option \<Rightarrow> nat option \<Rightarrow> nat \<Rightarrow> (nat \<Rightarrow> bool) \<Rightarrow> u64 \<Rightarrow> nat \<Rightarrow> nat \<Rightarrow> nat \<Rightarrow> nat \<Rightarrow> proc \<Rightarrow> int \<times> proc" where
  "task_clone cpu stack child_cr3 access flags stack_top parent_tid child_tid tls p =
     (if task_count (psch p) \<ge> MAX_TASKS then (- 1, p)
      else
        case find_free_slot p of
          (None, p1) \<Rightarrow> (- 1, p1)
        | (Some slot, p1) \<Rightarrow>
            (case stack of
               None \<Rightarrow> (- 1, p1\<lparr>task_bitmap := unset_bit slot (task_bitmap p1)\<rparr>)
             | Some sp \<Rightarrow>
                 let i = next_id p1; parent = task_get_current cpu (psch p1);
                     x0 = tasks (psch p1) parent; y0 = pt p1 parent;
                     files = (flags AND CLONE_FILES \<noteq> 0); sighand = (flags AND CLONE_SIGHAND \<noteq> 0);
                     p2 = upd_pt slot (clone_ptask flags slot sp child_tid y0)
                            ((with_sched (upd_task slot (clone_task flags i sp child_cr3 stack_top tls x0) (psch p1)) p1)\<lparr>next_id := add32 i 1\<rparr>);
                     p3 = (if files then p2 else copy_fds slot (fd_table y0) p2);
                     p4 = add_ref (cwd_node y0) p3;
                     p5 = (if sighand then p4 else copy_signals slot (signal_tables y0) p4);
                     p6 = store_tid (flags AND CLONE_PARENT_SETTID \<noteq> 0) access parent_tid i p5;
                     p7 = store_tid (flags AND CLONE_CHILD_SETTID \<noteq> 0) access child_tid i p6
                 in (to_int i, start_task slot p7)))"

section \<open>Ending and stopping (lines 949-1050)\<close>

definition task_mark_parent_wait_event :: "nat \<Rightarrow> int \<Rightarrow> int \<Rightarrow> sched \<Rightarrow> sched" where
  "task_mark_parent_wait_event current status code =
     upd_task current (\<lambda>x. x\<lparr>wait_status := status, wait_code := code, wait_pending := True\<rparr>)"

definition waits :: "task_state \<Rightarrow> bool" where
  "waits st \<longleftrightarrow> st = TASK_SLEEPING \<or> st = TASK_BLOCKED \<or> st = TASK_STOPPED"

definition wake_waiter :: "int option \<Rightarrow> nat \<Rightarrow> sched \<Rightarrow> sched" where
  "wake_waiter cpu i s =
     (let active = is_active s i;
          s1 = dequeue_sleep i (upd_task i (\<lambda>x. x\<lparr>t_state := TASK_READY\<rparr>) s)
      in if active then s1
         else
           let s2 = enqueue_ready i s1; tc = target_cpu (tasks s2 i) in
           case cpu of
             None \<Rightarrow> s2
           | Some c \<Rightarrow>
               if tc mod 2 ^ 32 \<noteq> int (cpu_index (cpus s2 c)) \<and> c_state (cpus s2 tc) = CPU_STATE_ONLINE
               then lapic_send_ipi (apic_id (cpus s2 tc)) 0x20 s2 else s2)"

definition task_wake_parent_waiter :: "int option \<Rightarrow> nat \<Rightarrow> sched \<Rightarrow> sched" where
  "task_wake_parent_waiter cpu current s =
     fold (\<lambda>i s. if t_id (tasks s i) = parent_id (tasks s current) \<and> waits (t_state (tasks s i)) then wake_waiter cpu i s else s)
       [0..<MAX_TASKS] s"

definition reparent :: "nat \<Rightarrow> sched \<Rightarrow> sched" where
  "reparent current s =
     fold (\<lambda>i s. if t_id (tasks s i) \<noteq> 0 \<and> parent_id (tasks s i) = t_id (tasks s current)
                 then upd_task i (\<lambda>x. x\<lparr>parent_id := t_id (tasks s 0)\<rparr>) s else s)
       [0..<MAX_TASKS] s"

text \<open>Up to the call of \<open>schedule()\<close>, from which the task does not come back; \<open>access\<close> is the answer of the user memory check.\<close>

definition clear_tid :: "int option \<Rightarrow> bool \<Rightarrow> nat \<Rightarrow> proc \<Rightarrow> proc" where
  "clear_tid cpu access current p =
     (let a = clear_child_tid (pt p current) in
      if a \<noteq> 0 \<and> access
      then p\<lparr>fut := snd (futex_wake cpu a 1 FUTEX_WAKE 0xffffffff ((fut p)\<lparr>umem := (umem (fut p))(a := 0)\<rparr>))\<rparr>
      else p)"

definition task_exit_internal :: "int option \<Rightarrow> bool \<Rightarrow> int \<Rightarrow> int \<Rightarrow> int \<Rightarrow> proc \<Rightarrow> proc" where
  "task_exit_internal cpu access status wstatus wcode p =
     (let current = task_get_current cpu (psch p);
          p1 = clear_tid cpu access current p;
          s1 = upd_task current (\<lambda>x. x\<lparr>t_state := TASK_DEAD, exit_code := status\<rparr>) (psch p1);
          s2 = task_mark_parent_wait_event current wstatus wcode s1;
          s3 = reparent current s2;
          s4 = task_wake_parent_waiter cpu current s3
      in with_sched (schedule cpu s4) p1)"

definition task_exit :: "int option \<Rightarrow> bool \<Rightarrow> int \<Rightarrow> proc \<Rightarrow> proc" where
  "task_exit cpu access status = task_exit_internal cpu access status (status mod 256 * 256) CLD_EXITED"

definition task_exit_signal :: "int option \<Rightarrow> bool \<Rightarrow> int \<Rightarrow> proc \<Rightarrow> proc" where
  "task_exit_signal cpu access sig = task_exit_internal cpu access (128 + sig mod 128) (sig mod 128) CLD_KILLED"

definition task_get_by_id :: "nat \<Rightarrow> sched \<Rightarrow> nat option" where
  "task_get_by_id i s =
     (if \<not> scheduler_active s then None
      else find (\<lambda>k. t_id (tasks s k) = i \<and> t_name (tasks s k) \<noteq> [] \<and> t_state (tasks s k) \<noteq> TASK_DEAD) [0..<MAX_TASKS])"

definition task_stop_signal :: "int option \<Rightarrow> int \<Rightarrow> proc \<Rightarrow> proc" where
  "task_stop_signal cpu sig p =
     (let current = task_get_current cpu (psch p);
          s1 = upd_task current (\<lambda>x. x\<lparr>wait_status := sig mod 256 * 256 OR 127, wait_code := CLD_STOPPED, wait_pending := True, t_state := TASK_STOPPED\<rparr>) (psch p);
          parent = task_get_by_id (parent_id (tasks s1 current)) s1
      in with_sched (task_wakeup cpu parent s1) p)"

section \<open>Queries and killing (lines 1060-1150)\<close>

definition task_get_count :: "sched \<Rightarrow> nat" where
  "task_get_count s = length (filter (\<lambda>i. t_state (tasks s i) = TASK_READY \<or> t_state (tasks s i) = TASK_RUNNING) [0..<task_count s])"

definition task_get_at :: "int \<Rightarrow> nat option" where
  "task_get_at i = (if i \<ge> 0 \<and> i < int MAX_TASKS then Some (nat i) else None)"

definition kill_one :: "int option \<Rightarrow> nat \<Rightarrow> nat \<Rightarrow> nat \<Rightarrow> sched \<times> bool \<times> bool \<Rightarrow> sched \<times> bool \<times> bool" where
  "kill_one cpu pid current i st =
     (case st of (s, self, found) \<Rightarrow>
        if tgid (tasks s i) = pid \<and> t_state (tasks s i) \<noteq> TASK_DEAD then
          let s1 = upd_task i (\<lambda>x. x\<lparr>signal_pending := set_bit SIGKILL (signal_pending x)\<rparr>) s;
              s2 = (if waits (t_state (tasks s1 i))
                    then ready_and_poke cpu i (dequeue_sleep i (upd_task i (\<lambda>x. x\<lparr>t_state := TASK_READY\<rparr>) s1)) else s1)
          in (s2, self \<or> i = current, True)
        else (s, self, found))"

text \<open>No result when the caller killed itself: it does not return.\<close>

definition task_kill :: "int option \<Rightarrow> bool \<Rightarrow> nat \<Rightarrow> proc \<Rightarrow> int option \<times> proc" where
  "task_kill cpu access pid p =
     (if pid = 0 then (Some (- 1), p)
      else
        case fold (kill_one cpu pid (task_get_current cpu (psch p))) [1..<task_count (psch p)] (psch p, False, False) of
          (s, self, found) \<Rightarrow>
            if found then
              if self then (None, task_exit_signal cpu access (int SIGKILL) (with_sched s p)) else (Some 0, with_sched s p)
            else (Some (- 1), with_sched s p))"

section \<open>Waiting for children (lines 1505-1515, 1560-1763)\<close>

definition task_is_wait_target :: "sched \<Rightarrow> nat \<Rightarrow> nat \<Rightarrow> int \<Rightarrow> u32 \<Rightarrow> bool" where
  "task_is_wait_target s current t pid options =
     (let is_child = (parent_id (tasks s t) = t_id (tasks s current));
          is_thread = (tgid (tasks s t) = tgid (tasks s current));
          wall = (options AND WALL \<noteq> 0)
      in if \<not> (is_child \<or> wall \<and> is_thread \<or> wall \<and> tgid (tasks s t) = t_id (tasks s current)) then False
         else if pid = - 1 then True
         else if to_int (t_id (tasks s t)) = pid \<or> to_int (tgid (tasks s t)) = pid then True
         else pid < - 1 \<and> to_int (tgid (tasks s t)) = - pid)"

text \<open>The scan of the table: whether a child was seen, and the first slot with an event to report.\<close>

fun wait_scan :: "(nat \<Rightarrow> bool) \<Rightarrow> (nat \<Rightarrow> bool) \<Rightarrow> nat list \<Rightarrow> bool \<Rightarrow> bool \<times> nat option" where
  "wait_scan child event [] seen = (seen, None)"
| "wait_scan child event (i # is) seen =
     (if \<not> child i then wait_scan child event is seen
      else if event i then (True, Some i) else wait_scan child event is True)"

definition other_task :: "sched \<Rightarrow> nat \<Rightarrow> nat \<Rightarrow> bool" where
  "other_task s current i \<longleftrightarrow> \<not> (t_id (tasks s i) = 0 \<and> t_state (tasks s i) = TASK_READY) \<and> t_id (tasks s i) \<noteq> t_id (tasks s current)"

definition wait_event :: "sched \<Rightarrow> u32 \<Rightarrow> bool \<Rightarrow> nat \<Rightarrow> bool" where
  "wait_event s options exited i \<longleftrightarrow> wait_pending (tasks s i) \<and>
     (if t_state (tasks s i) = TASK_DEAD then exited
      else if wait_code (tasks s i) = CLD_STOPPED then options AND WUNTRACED \<noteq> 0
      else if wait_code (tasks s i) = CLD_CONTINUED then options AND WCONTINUED \<noteq> 0 else False)"

text \<open>Taking the event of a slot: a dead task is reaped, a stop or continue report is consumed.\<close>

definition take_event :: "u32 \<Rightarrow> nat \<Rightarrow> proc \<Rightarrow> proc" where
  "take_event options i p =
     (if options AND WNOWAIT \<noteq> 0 then p
      else if t_state (tasks (psch p) i) = TASK_DEAD then task_reap_zombie_locked i p
      else with_sched (upd_task i (\<lambda>x. x\<lparr>wait_pending := False, wait_code := 0\<rparr>) (psch p)) p)"

text \<open>
  One turn of the loops: \<open>Inl\<close> is what the call returns, \<open>Inr\<close> the state after \<open>task_sleep\<close> from which the next turn starts. The
  outer option is that of \<open>task_sleep\<close>.
\<close>

definition sleep_turn :: "int option \<Rightarrow> nat \<Rightarrow> nat \<Rightarrow> proc \<Rightarrow> ('a + proc) option" where
  "sleep_turn cpu now ms p = do { s \<leftarrow> task_sleep cpu now ms (psch p); Some (Inr (with_sched s p)) }"

definition task_waitpid :: "int option \<Rightarrow> nat \<Rightarrow> int \<Rightarrow> u32 \<Rightarrow> proc \<Rightarrow> ((int \<times> int option \<times> proc) + proc) option" where
  "task_waitpid cpu now pid options p =
     (let s = psch p; current = task_get_current cpu s in
      case wait_scan (\<lambda>i. other_task s current i \<and> task_is_wait_target s current i pid options) (wait_event s options True) [0..<MAX_TASKS] False of
        (_, Some i) \<Rightarrow>
          if t_state (tasks s i) = TASK_DEAD \<and> current_anywhere s i then sleep_turn cpu now 10 p
          else Some (Inl (to_int (t_id (tasks s i)), Some (wait_status (tasks s i)), take_event options i p))
      | (False, None) \<Rightarrow> Some (Inl (- 10, None, p))
      | (True, None) \<Rightarrow> if options AND WNOHANG \<noteq> 0 then Some (Inl (0, None, p)) else sleep_turn cpu now 100 p)"

definition waitid_child :: "sched \<Rightarrow> nat \<Rightarrow> u32 \<Rightarrow> nat \<Rightarrow> bool" where
  "waitid_child s current options i \<longleftrightarrow> other_task s current i \<and>
     (parent_id (tasks s i) = t_id (tasks s current) \<or>
      options AND WALL \<noteq> 0 \<and> (tgid (tasks s i) = tgid (tasks s current) \<or> tgid (tasks s i) = t_id (tasks s current)))"

definition waitid_selects :: "proc \<Rightarrow> nat \<Rightarrow> int \<Rightarrow> int \<Rightarrow> nat \<Rightarrow> bool" where
  "waitid_selects p current idtype i k \<longleftrightarrow>
     (if idtype = P_PID then to_int (t_id (tasks (psch p) k)) = i \<or> to_int (tgid (tasks (psch p) k)) = i
      else if idtype = P_PGID then to_int (pgid (pt p k)) = (if i \<noteq> 0 then i else to_int (pgid (pt p current)))
      else True)"

text \<open>The results of \<open>task_waitid\<close> are the return value and the numbers stored: pid, status and code.\<close>

definition task_waitid :: "int option \<Rightarrow> nat \<Rightarrow> int \<Rightarrow> int \<Rightarrow> u32 \<Rightarrow> proc \<Rightarrow> ((int \<times> (int \<times> int \<times> int) option \<times> proc) + proc) option" where
  "task_waitid cpu now idtype i options p =
     (let s = psch p; current = task_get_current cpu s in
      if options AND (WEXITED OR WSTOPPED OR WCONTINUED) = 0 then Some (Inl (- 22, None, p))
      else if idtype \<notin> {P_PID, P_PGID, P_ALL} \<and> list_ex (waitid_child s current options) [0..<MAX_TASKS] then Some (Inl (- 22, None, p))
      else
        case wait_scan (\<lambda>k. waitid_child s current options k \<and> waitid_selects p current idtype i k)
               (wait_event s options (options AND WEXITED \<noteq> 0)) [0..<MAX_TASKS] False of
          (_, Some k) \<Rightarrow>
            if t_state (tasks s k) = TASK_DEAD \<and> current_anywhere s k then sleep_turn cpu now 10 p
            else Some (Inl (0, Some (to_int (t_id (tasks s k)), wait_status (tasks s k), wait_code (tasks s k)), take_event options k p))
        | (False, None) \<Rightarrow> Some (Inl (- 10, None, p))
        | (True, None) \<Rightarrow> if options AND WNOHANG \<noteq> 0 then Some (Inl (0, Some (0, 0, 0), p)) else sleep_turn cpu now 100 p)"

end
