(* ===== verification/ProcProps.thy ===== *)
theory ProcProps
  imports Proc
begin

text \<open>
  Properties of the task life cycle: what ending a task does to the scheduler, to its children and to its parent, what the wait calls
  return and free, that slots are handed out once, and that a forked child gives back the references it took.
\<close>

section \<open>Waking the parent\<close>

text \<open>A current task belongs to one of the processors the code looks at, and that one is online.\<close>

definition online_currents :: "sched \<Rightarrow> bool" where
  "online_currents s \<longleftrightarrow>
     (\<forall>c t. current_task (cpus s c) = Some t \<longrightarrow> c_state (cpus s c) = CPU_STATE_ONLINE \<and> 0 \<le> c \<and> c < int MAX_CPUS)"

lemma is_active_current:
  "online_currents s \<Longrightarrow> is_active s t \<longleftrightarrow> (\<exists>c. current_task (cpus s c) = Some t)"
  by (force simp: online_currents_def is_active_def list_ex_iff)

lemma current_anywhere_iff:
  "online_currents s \<Longrightarrow> current_anywhere s t \<longleftrightarrow> (\<exists>c. current_task (cpus s c) = Some t)"
  by (force simp: online_currents_def current_anywhere_def list_ex_iff)

lemma woken_queues_mem:
  "i \<in> set (woken_queues s t rq d) \<longleftrightarrow> i \<in> set (rq d) \<or> \<not> is_active s t \<and> d = ready_cpu s t \<and> i = t"
  by (auto simp: woken_queues_def)

lemma wake_waiter_eq:
  "\<exists>l. wake_waiter cpu t s = (let s1 = dequeue_sleep t (upd_task t (\<lambda>x. x\<lparr>t_state := TASK_READY\<rparr>) s)
     in if is_active s t then s1 else enqueue_ready t s1)\<lparr>ipis := l\<rparr>"
proof -
  have id: "\<exists>l. s = s\<lparr>ipis := l\<rparr>" for s :: sched by (rule exI [of _ "ipis s"]) simp
  show ?thesis unfolding wake_waiter_def Let_def lapic_send_ipi_def
    by (auto split: option.splits intro: id)
qed

text \<open>One waiter is woken: the queues stay well formed, the task is ready, and queued unless it is still current.\<close>

lemma wake_waiter_spec:
  assumes inv: "sched_inv s ss rq" and ex: "excl s rq" and on: "online_currents s"
    and w: "waits (t_state (tasks s t))" and u: "u = wake_waiter cpu t s"
  shows "sched_inv u (remove1 t ss) (woken_queues s t rq)" "excl u (woken_queues s t rq)" "online_currents u"
    "\<And>i. t_state (tasks u i) = (if i = t then TASK_READY else t_state (tasks s i))"
    "\<And>d. current_task (cpus u d) = current_task (cpus s d)" "\<And>d. idle_task (cpus u d) = idle_task (cpus s d)"
    "keeps_ids s u"
proof -
  let ?r = "upd_task t (\<lambda>x. x\<lparr>t_state := TASK_READY\<rparr>) s"
  have ne: "t_state (tasks s t) \<noteq> TASK_READY" using w by (auto simp: waits_def)
  note ws = wake_step [OF inv ne]
  let ?v = "if is_active (dequeue_sleep t ?r) t then dequeue_sleep t ?r else enqueue_ready t (dequeue_sleep t ?r)"
  obtain l where l: "u = ?v\<lparr>ipis := l\<rparr>" using wake_waiter_eq [of cpu t s] unfolding u Let_def ws(3) by blast
  note f = only_links_fields [OF ws(2)]
  show "sched_inv u (remove1 t ss) (woken_queues s t rq)" using ws(1) by (simp add: l sched_inv_ipis)
  show st: "\<And>i. t_state (tasks u i) = (if i = t then TASK_READY else t_state (tasks s i))"
    and cu: "\<And>d. current_task (cpus u d) = current_task (cpus s d)"
    and "\<And>d. idle_task (cpus u d) = idle_task (cpus s d)"
    using f(1,8,9) by (simp_all add: l sched_simps)
  have cs: "\<And>d. c_state (cpus u d) = c_state (cpus s d)" using f(10) by (simp add: l sched_simps)
  show "online_currents u" using on by (simp add: online_currents_def cu cs)
  show "excl u (woken_queues s t rq)"
    using ex is_active_current [OF on, of t] by (auto simp: excl_def cu woken_queues_mem)
  have "keeps_ids s ?v" by (intro keep_intros) simp_all
  then show "keeps_ids s u" by (simp add: l keeps_ids_def)
qed

lemma keeps_ids_trans: "keeps_ids s u \<Longrightarrow> keeps_ids u v \<Longrightarrow> keeps_ids s v"
  by (simp add: keeps_ids_def)

abbreviation wake_one :: "int option \<Rightarrow> nat \<Rightarrow> nat \<Rightarrow> sched \<Rightarrow> sched" where
  "wake_one cpu cur i s \<equiv>
     (if t_id (tasks s i) = parent_id (tasks s cur) \<and> waits (t_state (tasks s i)) then wake_waiter cpu i s else s)"

abbreviation woken :: "sched \<Rightarrow> nat \<Rightarrow> nat \<Rightarrow> bool" where
  "woken s cur i \<equiv> t_id (tasks s i) = parent_id (tasks s cur) \<and> waits (t_state (tasks s i))"

lemma wake_parent_fold:
  assumes "sched_inv s ss rq" "excl s rq" "online_currents s"
  shows "\<exists>ss' rq'. let u = fold (wake_one cpu cur) xs s in
     sched_inv u ss' rq' \<and> excl u rq' \<and> online_currents u \<and> keeps_ids s u \<and>
     (\<forall>d. current_task (cpus u d) = current_task (cpus s d) \<and> idle_task (cpus u d) = idle_task (cpus s d)) \<and>
     (\<forall>i. t_state (tasks u i) = (if i \<in> set xs \<and> woken s cur i then TASK_READY else t_state (tasks s i))) \<and>
     (\<forall>c. set (rq c) \<subseteq> set (rq' c)) \<and>
     (\<forall>i \<in> set xs. woken s cur i \<longrightarrow> (\<exists>c. current_task (cpus s c) = Some i) \<or> (\<exists>c. i \<in> set (rq' c)))"
  using assms
proof (induction xs arbitrary: s ss rq)
  case Nil
  then show ?case by (intro exI [of _ ss] exI [of _ rq]) (simp add: keep_refl)
next
  case (Cons t xs)
  show ?case
  proof (cases "woken s cur t")
    case False
    then have "\<And>i. i \<in> set (t # xs) \<and> woken s cur i \<longleftrightarrow> i \<in> set xs \<and> woken s cur i" by auto
    moreover have "fold (wake_one cpu cur) (t # xs) s = fold (wake_one cpu cur) xs s" using False by auto
    moreover note Cons.IH [OF Cons.prems]
    ultimately show ?thesis by (simp only: ball_simps Let_def) (auto simp: False)
  next
    case True
    define u where "u = wake_waiter cpu t s"
    note w = wake_waiter_spec [OF Cons.prems conjunct2 [OF True] u_def]
    have id: "\<And>i. t_id (tasks u i) = t_id (tasks s i)" "\<And>i. parent_id (tasks u i) = parent_id (tasks s i)"
      using keeps_idsD [OF w(7)] by simp_all
    have wk: "woken u cur i \<longleftrightarrow> i \<noteq> t \<and> woken s cur i" for i by (simp add: id w(4) waits_def)
    obtain ss' rq' where f: "let v = fold (wake_one cpu cur) xs u in
       sched_inv v ss' rq' \<and> excl v rq' \<and> online_currents v \<and> keeps_ids u v \<and>
       (\<forall>d. current_task (cpus v d) = current_task (cpus u d) \<and> idle_task (cpus v d) = idle_task (cpus u d)) \<and>
       (\<forall>i. t_state (tasks v i) = (if i \<in> set xs \<and> woken u cur i then TASK_READY else t_state (tasks u i))) \<and>
       (\<forall>c. set (woken_queues s t rq c) \<subseteq> set (rq' c)) \<and>
       (\<forall>i \<in> set xs. woken u cur i \<longrightarrow> (\<exists>c. current_task (cpus u c) = Some i) \<or> (\<exists>c. i \<in> set (rq' c)))"
      using Cons.IH [OF w(1-3)] by blast
    have e: "fold (wake_one cpu cur) (t # xs) s = fold (wake_one cpu cur) xs u" using True by (simp add: u_def)
    have q: "\<And>c. set (rq c) \<subseteq> set (woken_queues s t rq c)" by (auto simp: woken_queues_mem)
    have t: "(\<exists>c. current_task (cpus s c) = Some t) \<or> t \<in> set (woken_queues s t rq (ready_cpu s t))"
      using is_active_current [OF Cons.prems(3), of t] by (auto simp: woken_queues_mem)
    define v where "v = fold (wake_one cpu cur) xs u"
    have nr: "\<not> waits TASK_READY" by (simp add: waits_def)
    note g = f [folded v_def, unfolded Let_def id w(4-6)]
    have "t_state (tasks v i) = (if i \<in> set (t # xs) \<and> woken s cur i then TASK_READY else t_state (tasks s i))" for i
      using g True nr by (cases "i = t") auto
    moreover have "(\<exists>c. current_task (cpus s c) = Some i) \<or> (\<exists>c. i \<in> set (rq' c))" if "i \<in> set (t # xs)" "woken s cur i" for i
    proof (cases "i = t")
      case True
      then show ?thesis using g t by blast
    next
      case False
      then show ?thesis using g that by auto
    qed
    moreover have "set (rq c) \<subseteq> set (rq' c)" for c using g q by blast
    moreover have "keeps_ids s v" using g keeps_ids_trans [OF w(7)] by blast
    ultimately show ?thesis unfolding e v_def [symmetric] Let_def using g
      by (intro exI [of _ ss'] exI [of _ rq']) blast
  qed
qed

section \<open>Ending a task\<close>

lemma reparent_fold:
  fixes s :: sched and cur :: nat
  defines "R \<equiv> \<lambda>i s. if t_id (tasks s i) \<noteq> 0 \<and> parent_id (tasks s i) = t_id (tasks s cur)
                 then upd_task i (\<lambda>x. x\<lparr>parent_id := t_id (tasks s 0)\<rparr>) s else s"
  assumes "distinct xs"
  shows "fold R xs s = s\<lparr>tasks := (\<lambda>i. if i \<in> set xs \<and> t_id (tasks s i) \<noteq> 0 \<and> parent_id (tasks s i) = t_id (tasks s cur)
           then (tasks s i)\<lparr>parent_id := t_id (tasks s 0)\<rparr> else tasks s i)\<rparr>"
  using assms(2)
proof (induction xs arbitrary: s)
  case (Cons i xs)
  have id: "t_id (tasks (R i s) k) = t_id (tasks s k)" for k by (simp add: R_def upd_task_def)
  have o: "tasks (R i s) k = tasks s k" if "k \<noteq> i" for k using that by (simp add: R_def upd_task_def)
  have "fold R (i # xs) s = fold R xs (R i s)" by simp
  also have "\<dots> = (R i s)\<lparr>tasks := (\<lambda>k. if k \<in> set xs \<and> t_id (tasks s k) \<noteq> 0 \<and> parent_id (tasks (R i s) k) = t_id (tasks s cur)
           then (tasks (R i s) k)\<lparr>parent_id := t_id (tasks s 0)\<rparr> else tasks (R i s) k)\<rparr>"
    using Cons by (simp add: id cong: if_cong)
  also have "\<dots> = s\<lparr>tasks := (\<lambda>k. if k \<in> set (i # xs) \<and> t_id (tasks s k) \<noteq> 0 \<and> parent_id (tasks s k) = t_id (tasks s cur)
           then (tasks s k)\<lparr>parent_id := t_id (tasks s 0)\<rparr> else tasks s k)\<rparr>"
  proof -
    have r: "R i s = s\<lparr>tasks := tasks (R i s)\<rparr>" by (simp add: R_def upd_task_def)
    have i: "tasks (R i s) i = (if t_id (tasks s i) \<noteq> 0 \<and> parent_id (tasks s i) = t_id (tasks s cur)
        then (tasks s i)\<lparr>parent_id := t_id (tasks s 0)\<rparr> else tasks s i)" by (simp add: R_def upd_task_def)
    have "(if k \<in> set xs \<and> t_id (tasks s k) \<noteq> 0 \<and> parent_id (tasks (R i s) k) = t_id (tasks s cur)
           then (tasks (R i s) k)\<lparr>parent_id := t_id (tasks s 0)\<rparr> else tasks (R i s) k) =
        (if k \<in> set (i # xs) \<and> t_id (tasks s k) \<noteq> 0 \<and> parent_id (tasks s k) = t_id (tasks s cur)
           then (tasks s k)\<lparr>parent_id := t_id (tasks s 0)\<rparr> else tasks s k)" for k
      using Cons.prems o [of k] i by (cases "k = i") simp_all
    then show ?thesis by (subst r) simp
  qed
  finally show ?case .
qed simp

lemma reparent_eq:
  "reparent cur s = s\<lparr>tasks := (\<lambda>i. if i < MAX_TASKS \<and> t_id (tasks s i) \<noteq> 0 \<and> parent_id (tasks s i) = t_id (tasks s cur)
     then (tasks s i)\<lparr>parent_id := t_id (tasks s 0)\<rparr> else tasks s i)\<rparr>"
  unfolding reparent_def by (subst reparent_fold) simp_all

lemma sched_inv_reparent: "sched_inv (reparent cur s) ss rq = sched_inv s ss rq"
proof -
  have 1: "sleepq (reparent cur s) ss = sleepq s ss"
    by (simp add: sleepq_def reparent_eq if_distrib [of next_sleep] if_distrib [of prev_sleep] if_distrib [of wake_tick] cong: if_cong)
  have 2: "readyqs (reparent cur s) rq = readyqs s rq"
    by (simp add: readyqs_def readyq_def reparent_eq if_distrib [of next_ready] if_distrib [of prev_ready] if_distrib [of target_cpu] cong: if_cong)
  have 3: "t_state (tasks (reparent cur s) i) = t_state (tasks s i)" for i by (simp add: reparent_eq)
  show ?thesis by (simp add: sched_inv_def 1 2 3)
qed

text \<open>A dead task gives up its processor to the head of the ready queue, or to the idle task or slot 0; it keeps it only
  if it is that task itself.\<close>

lemma schedule_dead:
  assumes inv: "sched_inv s ss rq" and ex: "excl s rq" and act: "scheduler_active s"
    and cur: "current_task (cpus s c) = Some cur" "\<not> runnable s cur"
    and n: "n = (case rq c of [] \<Rightarrow> fallback s c | h # _ \<Rightarrow> h)" and u: "u = schedule (Some c) s"
  shows "\<exists>ss'. sched_inv u ss' (\<lambda>d. remove1 n (rq d))"
    "(\<And>d. current_task (cpus s d) \<noteq> Some n) \<Longrightarrow> excl u (\<lambda>d. remove1 n (rq d))"
    "\<And>d. current_task (cpus u d) = (if d = c then Some n else current_task (cpus s d))"
    "\<And>i. t_state (tasks u i) = (if i = n \<and> i \<noteq> cur then TASK_RUNNING else t_state (tasks s i))"
    "keeps_ids s u"
proof -
  obtain s2 where same: "same_sched s s2"
    and sch: "u = resume_or_switch c cur (choice s c cur (rq c)) s2"
    using schedule_unfold [OF inv act cur(1)] unfolding u by blast
  have s2: "tasks s2 = tasks s" "cpus s2 = cpus s" using same by (simp_all add: same_sched_def)
  have ch: "choice s c cur (rq c) = n" using cur(2) by (simp add: n choice_def fallback_def split: list.split)
  have i2: "sched_inv s2 ss rq" "excl s2 rq" using inv ex same by (simp_all add: same_sched_inv)
  have c2: "current_task (cpus s2 c) = Some cur" using cur s2 by simp
  have out: "\<And>d. cur \<notin> set (rq d)" using ex cur(1) unfolding excl_def by blast
  show "keeps_ids s u" unfolding u by (intro keep_intros)
  have "(\<exists>ss'. sched_inv u ss' (\<lambda>d. remove1 n (rq d))) \<and>
    ((\<forall>d. current_task (cpus s d) \<noteq> Some n) \<longrightarrow> excl u (\<lambda>d. remove1 n (rq d))) \<and>
    (\<forall>d. current_task (cpus u d) = (if d = c then Some n else current_task (cpus s d))) \<and>
    (\<forall>i. t_state (tasks u i) = (if i = n \<and> i \<noteq> cur then TASK_RUNNING else t_state (tasks s i)))"
  proof (cases "n = cur")
    case True
    have e: "u = upd_task cur (\<lambda>x. x\<lparr>wake_tick := 0\<rparr>) (dequeue_sleep cur s2)"
      using sch ch True cur(2) by (simp add: resume_or_switch_def s2)
    note l = only_links_fields [OF only_links_dequeue_sleep [OF sched_invD(1) [OF i2(1)], of cur]]
    have "(\<lambda>d. remove1 n (rq d)) = rq" using out True by (simp add: remove1_idem)
    moreover have "sched_inv u (remove1 cur ss) rq" unfolding e using sleepq_distinct [OF sched_invD(1) [OF inv]]
      by (intro sched_inv_upd_task [OF sched_inv_dequeue_sleep [OF i2(1)] _ out]) simp_all
    ultimately show ?thesis using True cur(1) by (auto simp: e sched_simps l s2)
  next
    case ne: False
    have e: "u = switch_to c cur n s2" using sch ch ne cur(2) by (simp add: resume_or_switch_def s2)
    note sw = switch_to_spec [OF i2 c2 ne, folded e]
    have q: "queues_after s2 cur n rq = (\<lambda>d. remove1 n (rq d))" using cur(2) by (simp add: queues_after_def s2)
    have st: "t_state (tasks u i) = (if i = n \<and> i \<noteq> cur then TASK_RUNNING else t_state (tasks s i))" for i
      using sw(4,6,17) cur(2) ne by (cases "i = cur") (auto simp: s2)
    show ?thesis using sw(1-3,18) st unfolding q s2 by auto
  qed
  then show "\<exists>ss'. sched_inv u ss' (\<lambda>d. remove1 n (rq d))"
    "(\<And>d. current_task (cpus s d) \<noteq> Some n) \<Longrightarrow> excl u (\<lambda>d. remove1 n (rq d))"
    "\<And>d. current_task (cpus u d) = (if d = c then Some n else current_task (cpus s d))"
    "\<And>i. t_state (tasks u i) = (if i = n \<and> i \<noteq> cur then TASK_RUNNING else t_state (tasks s i))" by blast+
qed

text \<open>Clearing the thread's word wakes at most waiters on it, and loses none.\<close>

lemma wakes_excl:
  assumes "wakes A s rq s' rq'" "excl s rq" "online_currents s"
  shows "excl s' rq'" "online_currents s'" "keeps_ids s s'" "\<And>i. lost s' rq' i \<Longrightarrow> lost s rq i" "\<And>d. set (rq d) \<subseteq> set (rq' d)"
proof -
  note w = wakes_fields [OF assms(1)]
  have app: "\<exists>xs. rq' d = rq d @ xs \<and> (\<forall>x \<in> set xs. x \<in> A \<and> \<not> (\<exists>c. current_task (cpus s c) = Some x))" for d
    using assms(1) is_active_current [OF assms(3)] unfolding wakes_def by simp
  have mem: "x \<in> set (rq d) \<or> \<not> (\<exists>c. current_task (cpus s c) = Some x)" if "x \<in> set (rq' d)" for x d
    using app [of d] that by auto
  show "excl s' rq'" using assms(2) mem unfolding excl_def w(1) by blast
  show "online_currents s'" using assms(3) by (simp add: online_currents_def w)
  show sub: "\<And>d. set (rq d) \<subseteq> set (rq' d)" by (metis app set_append sup_ge1)
  have "ids (task_core x) = ids x" "ids (x\<lparr>t_state := TASK_READY\<rparr>) = ids x" for x by (simp_all add: task_core_def)
  moreover have "only_links (make_ready A s) (s'\<lparr>ipis := ipis s\<rparr>)" using assms(1) by (simp add: wakes_def)
  ultimately have "ids (tasks s' i) = ids (tasks s i)" for i
    using only_links_task [of "make_ready A s" "s'\<lparr>ipis := ipis s\<rparr>" ids i] by (simp add: make_ready_def split: if_splits)
  then show "keeps_ids s s'" by (simp add: keeps_ids_def w)
  have "is_active s i \<or> (\<exists>d. i \<in> set (rq' d))" if "i \<in> A" for i using that assms(1) by (simp add: wakes_def)
  then show "\<And>i. lost s' rq' i \<Longrightarrow> lost s rq i"
    using sub is_active_current [OF assms(3)] unfolding lost_def w by (metis subsetD)
qed

lemma clear_tid_spec:
  assumes "sched_inv (psch p) ss rq" "scheduler_active (psch p)"
  shows "\<exists>ss' rq' A. sched_inv (psch (clear_tid cpu access cur p)) ss' rq' \<and>
    wakes A (psch p) rq (psch (clear_tid cpu access cur p)) rq' \<and> (\<forall>i \<in> A. t_state (tasks (psch p) i) = TASK_BLOCKED)"
proof (cases "clear_child_tid (pt p cur) \<noteq> 0 \<and> access \<and> validate_uaddr (clear_child_tid (pt p cur))")
  case False
  then have "psch (clear_tid cpu access cur p) = psch p" by (auto simp: clear_tid_def Let_def futex_wake_def)
  then show ?thesis using assms(1) wakes_refl by (intro exI [of _ ss] exI [of _ rq] exI [of _ "{}"]) simp
next
  case True
  let ?a = "clear_child_tid (pt p cur)" let ?f = "(fut p)\<lparr>umem := (umem (fut p))(?a := 0)\<rparr>"
  have f: "sched_inv (fsch ?f) ss rq" "scheduler_active (fsch ?f)" using assms by simp_all
  have "psch (clear_tid cpu access cur p) = fsch (snd (futex_wake cpu ?a 1 FUTEX_WAKE 0xffffffff ?f))"
    using True by (simp add: clear_tid_def Let_def)
  moreover obtain s' rq' A where "fsch (snd (futex_wake cpu ?a 1 FUTEX_WAKE 0xffffffff ?f)) = s'" "\<exists>ss'. sched_inv s' ss' rq'"
    "wakes A (psch p) rq s' rq'" "\<forall>i \<in> A. t_state (tasks (psch p) i) = TASK_BLOCKED"
  proof -
    let ?A = "blocked_waiters (nat 1) (node_match ?a (is_private_op FUTEX_WAKE) 0xffffffff (fsch ?f) (task_get_current cpu (fsch ?f)))
      (buckets ?f (futex_hash cpu ?a (is_private_op FUTEX_WAKE) (fsch ?f))) (fsch ?f)"
    obtain s' rq' v f' where "futex_wake cpu ?a 1 FUTEX_WAKE 0xffffffff ?f = (v, f'\<lparr>fsch := s'\<rparr>)" "\<exists>ss'. sched_inv s' ss' rq'"
      "wakes ?A (fsch ?f) rq s' rq'"
      using futex_wake_spec [OF f conjunct2 [OF conjunct2 [OF True]] refl refl refl, where cpu = cpu and op = FUTEX_WAKE and bitset = "0xffffffff" and count = 1] by blast
    moreover have "\<forall>i \<in> ?A. t_state (tasks (psch p) i) = TASK_BLOCKED" by (simp add: blocked_waiters_def)
    ultimately show ?thesis by (intro that [of s' rq' ?A]) simp_all
  qed
  ultimately show ?thesis by auto
qed

text \<open>Marking a task as dead and giving its children to the kernel task.\<close>

lemma mark_dead:
  assumes inv: "sched_inv s ss rq" and out: "cur \<notin> set ss" "\<And>d. cur \<notin> set (rq d)"
    and s3: "s3 = reparent cur (task_mark_parent_wait_event cur wstatus wcode (upd_task cur (\<lambda>x. x\<lparr>t_state := TASK_DEAD, exit_code := status\<rparr>) s))"
  shows "sched_inv s3 ss rq" "cpus s3 = cpus s" "scheduler_active s3 = scheduler_active s"
    "t_state (tasks s3 i) = (if i = cur then TASK_DEAD else t_state (tasks s i))" "t_id (tasks s3 i) = t_id (tasks s i)"
    "tgid (tasks s3 i) = tgid (tasks s i)"
    "parent_id (tasks s3 i) = (if i < MAX_TASKS \<and> t_id (tasks s i) \<noteq> 0 \<and> parent_id (tasks s i) = t_id (tasks s cur)
       then t_id (tasks s 0) else parent_id (tasks s i))"
    "exit_code (tasks s3 cur) = status \<and> wait_status (tasks s3 cur) = wstatus \<and> wait_code (tasks s3 cur) = wcode \<and> wait_pending (tasks s3 cur)"
proof -
  define s2 where "s2 = upd_task cur (\<lambda>x. x\<lparr>t_state := TASK_DEAD, exit_code := status, wait_status := wstatus, wait_code := wcode, wait_pending := True\<rparr>) s"
  have "task_mark_parent_wait_event cur wstatus wcode (upd_task cur (\<lambda>x. x\<lparr>t_state := TASK_DEAD, exit_code := status\<rparr>) s) = s2"
    by (simp add: s2_def task_mark_parent_wait_event_def upd_task_def)
  then have e: "s3 = reparent cur s2" using s3 by simp
  have "sched_inv s2 ss rq" unfolding s2_def by (rule sched_inv_upd_task [OF inv out]) simp
  then show "sched_inv s3 ss rq" unfolding e sched_inv_reparent .
  show "cpus s3 = cpus s" "scheduler_active s3 = scheduler_active s"
    "t_state (tasks s3 i) = (if i = cur then TASK_DEAD else t_state (tasks s i))" "t_id (tasks s3 i) = t_id (tasks s i)"
    "tgid (tasks s3 i) = tgid (tasks s i)"
    "parent_id (tasks s3 i) = (if i < MAX_TASKS \<and> t_id (tasks s i) \<noteq> 0 \<and> parent_id (tasks s i) = t_id (tasks s cur)
       then t_id (tasks s 0) else parent_id (tasks s i))"
    "exit_code (tasks s3 cur) = status \<and> wait_status (tasks s3 cur) = wstatus \<and> wait_code (tasks s3 cur) = wcode \<and> wait_pending (tasks s3 cur)"
    by (simp_all add: e s2_def reparent_eq upd_task_def)
qed

text \<open>Some task can take over the processor \<open>c\<close>: one is queued there, or the idle task (slot 0 without one) runs nowhere.\<close>

definition can_hand_over :: "sched \<Rightarrow> (int \<Rightarrow> nat list) \<Rightarrow> int \<Rightarrow> bool" where
  "can_hand_over s rq c \<longleftrightarrow> rq c \<noteq> [] \<or> (\<forall>d. current_task (cpus s d) \<noteq> Some (fallback s c))"

lemma exit_internal_spec:
  assumes inv: "sched_inv (psch p) ss rq" and ex: "excl (psch p) rq" and on: "online_currents (psch p)"
    and act: "scheduler_active (psch p)"
    and cur: "current_task (cpus (psch p) c) = Some cur" "t_state (tasks (psch p) cur) = TASK_RUNNING"
    and self: "parent_id (tasks (psch p) cur) \<noteq> t_id (tasks (psch p) cur)"
    and u: "u = psch (task_exit_internal (Some c) access status wstatus wcode p)"
  shows "t_state (tasks u cur) = TASK_DEAD"
    "exit_code (tasks u cur) = status \<and> wait_status (tasks u cur) = wstatus \<and> wait_code (tasks u cur) = wcode \<and> wait_pending (tasks u cur)"
    "parent_id (tasks u i) = (if i < MAX_TASKS \<and> t_id (tasks (psch p) i) \<noteq> 0 \<and> parent_id (tasks (psch p) i) = t_id (tasks (psch p) cur)
       then t_id (tasks (psch p) 0) else parent_id (tasks (psch p) i))"
    "can_hand_over (psch p) rq c \<Longrightarrow> current_task (cpus u d) \<noteq> Some cur" "d \<noteq> c \<Longrightarrow> current_task (cpus u d) = current_task (cpus (psch p) d)"
    "t_id (tasks u i) = t_id (tasks (psch p) i)" "tgid (tasks u i) = tgid (tasks (psch p) i)"
    "\<exists>ss' rq'. sched_inv u ss' rq' \<and> (can_hand_over (psch p) rq c \<longrightarrow> excl u rq') \<and> (\<forall>i. lost u rq' i \<longrightarrow> lost (psch p) rq i) \<and>
      (\<forall>i < MAX_TASKS. woken (psch p) cur i \<longrightarrow> runnable u i \<and> ((\<exists>d. current_task (cpus u d) = Some i) \<or> (\<exists>d. i \<in> set (rq' d))))"
proof -
  let ?s = "psch p"
  have g: "task_get_current (Some c) ?s = cur" using cur(1) by (simp add: task_get_current_def)
  define s1 where "s1 = psch (clear_tid (Some c) access cur p)"
  define s3 where "s3 = reparent cur (task_mark_parent_wait_event cur wstatus wcode (upd_task cur (\<lambda>x. x\<lparr>t_state := TASK_DEAD, exit_code := status\<rparr>) s1))"
  define s4 where "s4 = fold (wake_one (Some c) cur) [0..<MAX_TASKS] s3"
  have ue: "u = schedule (Some c) s4"
    unfolding u task_exit_internal_def Let_def g s4_def s3_def s1_def task_wake_parent_waiter_def by (simp add: with_sched_def)
  obtain ss1 rq1 A where i1: "sched_inv s1 ss1 rq1" and w1: "wakes A ?s rq s1 rq1" and A: "\<forall>i \<in> A. t_state (tasks ?s i) = TASK_BLOCKED"
    using clear_tid_spec [OF inv act] unfolding s1_def by blast
  note c1 = wakes_fields [OF w1] and x1 = wakes_excl [OF w1 ex on]
  have id1: "t_id (tasks s1 i) = t_id (tasks ?s i)" "parent_id (tasks s1 i) = parent_id (tasks ?s i)" "tgid (tasks s1 i) = tgid (tasks ?s i)" for i
    using keeps_idsD [OF x1(3), of i] by simp_all
  have cA: "cur \<notin> A" using A cur(2) by auto
  then have st1: "t_state (tasks s1 cur) = TASK_RUNNING" by (simp add: c1(5) cur(2))
  have out: "cur \<notin> set ss1" "\<And>d. cur \<notin> set (rq1 d)"
    using sched_invD(4) [OF i1, of cur] st1 x1(1) c1(1) cur(1) unfolding excl_def by auto
  note m = mark_dead [OF i1 out s3_def]
  have c3: "current_task (cpus s3 d) = current_task (cpus ?s d)" "idle_task (cpus s3 d) = idle_task (cpus ?s d)" for d by (simp_all add: m(2) c1)
  have e3: "excl s3 rq1" "online_currents s3" using x1(1,2) by (simp_all add: excl_def online_currents_def m(2))
  have pid3: "parent_id (tasks s3 cur) = parent_id (tasks ?s cur)" using self by (simp add: m(7) id1)
  obtain ss' rq' where f: "sched_inv s4 ss' rq'" "excl s4 rq'" "keeps_ids s3 s4"
    "\<And>d. current_task (cpus s4 d) = current_task (cpus s3 d) \<and> idle_task (cpus s4 d) = idle_task (cpus s3 d)"
    "\<And>i. t_state (tasks s4 i) = (if i \<in> set [0..<MAX_TASKS] \<and> woken s3 cur i then TASK_READY else t_state (tasks s3 i))"
    "\<And>i. i \<in> set [0..<MAX_TASKS] \<Longrightarrow> woken s3 cur i \<Longrightarrow> (\<exists>c. current_task (cpus s3 c) = Some i) \<or> (\<exists>c. i \<in> set (rq' c))"
    "\<And>d. set (rq1 d) \<subseteq> set (rq' d)"
    using wake_parent_fold [OF m(1) e3, where cpu = "Some c" and cur = cur and xs = "[0..<MAX_TASKS]"] unfolding s4_def [symmetric] Let_def by blast
  have d4: "t_state (tasks s4 cur) = TASK_DEAD" by (simp add: f(5) m(4) waits_def)
  then have r4: "\<not> runnable s4 cur" by simp
  have c4: "current_task (cpus s4 c) = Some cur" using f(4) cur(1) by (simp add: c3)
  have a4: "scheduler_active s4" using f(3) act by (simp add: keeps_ids_def m(3) c1(4))
  let ?n = "case rq' c of [] \<Rightarrow> fallback s4 c | h # _ \<Rightarrow> h"
  note sd = schedule_dead [OF f(1,2) a4 c4 r4 refl ue]
  note k = keeps_idsD [OF keeps_ids_trans [OF f(3) sd(5)]]
  have nc: "current_task (cpus s4 e) \<noteq> Some ?n" if "can_hand_over ?s rq c" for e
  proof (cases "rq' c")
    case Nil
    then have "rq c = []" using f(7) [of c] x1(5) [of c] by simp
    then show ?thesis using that Nil f(4) by (simp add: can_hand_over_def c3 fallback_def)
  next
    case (Cons h hs)
    then have "h \<in> set (rq' c)" by simp
    then have "current_task (cpus s4 e) \<noteq> Some h" using f(2) unfolding excl_def by blast
    then show ?thesis using Cons by simp
  qed
  show "t_state (tasks u cur) = TASK_DEAD" using sd(4) d4 by simp
  show "exit_code (tasks u cur) = status \<and> wait_status (tasks u cur) = wstatus \<and> wait_code (tasks u cur) = wcode \<and> wait_pending (tasks u cur)"
    using k [of cur] m(8) by simp
  show "parent_id (tasks u i) = (if i < MAX_TASKS \<and> t_id (tasks ?s i) \<noteq> 0 \<and> parent_id (tasks ?s i) = t_id (tasks ?s cur)
       then t_id (tasks ?s 0) else parent_id (tasks ?s i))" using k [of i] by (simp add: m(7) id1)
  show "d \<noteq> c \<Longrightarrow> current_task (cpus u d) = current_task (cpus ?s d)" using sd(3) f(4) by (simp add: c3)
  show "t_id (tasks u i) = t_id (tasks ?s i)" "tgid (tasks u i) = tgid (tasks ?s i)" using k [of i] by (simp_all add: m(5,6) id1)
  show "current_task (cpus u d) \<noteq> Some cur" if "can_hand_over ?s rq c"
    using sd(3) [of d] nc [OF that, of c] c4 f(4) ex cur(1) unfolding c3 excl_def by (cases "d = c") auto
  have q4: "(\<exists>e. current_task (cpus u e) = Some i) \<or> (\<exists>e. i \<in> set (remove1 ?n (rq' e)))"
    if "i \<noteq> cur" "(\<exists>e. current_task (cpus ?s e) = Some i) \<or> (\<exists>e. i \<in> set (rq' e))" for i
  proof (cases "i = ?n")
    case True then show ?thesis using sd(3) by auto
  next
    case False
    have "current_task (cpus u e) = Some i" if "current_task (cpus ?s e) = Some i" for e
      using that sd(3) [of e] f(4) \<open>i \<noteq> cur\<close> cur(1) by (cases "e = c") (simp_all add: c3)
    then show ?thesis using that False by (metis in_set_remove1)
  qed
  have A4: "(\<exists>e. current_task (cpus ?s e) = Some i) \<or> (\<exists>e. i \<in> set (rq' e))" if "i \<in> A" for i
    using that w1 f(7) is_active_current [OF on, of i] unfolding wakes_def by blast
  have W: "runnable u i \<and> ((\<exists>d. current_task (cpus u d) = Some i) \<or> (\<exists>d. i \<in> set (remove1 ?n (rq' d))))"
    if i: "i < MAX_TASKS" "woken ?s cur i" for i
  proof -
    have ic: "i \<noteq> cur" using i(2) cur(2) by (auto simp: waits_def)
    show ?thesis
    proof (cases "i \<in> A")
      case True
      then have "t_state (tasks u i) = TASK_READY \<or> t_state (tasks u i) = TASK_RUNNING"
        using ic by (simp add: sd(4) f(5) m(4) c1(5))
      then show ?thesis using q4 [OF ic A4 [OF True]] by blast
    next
      case False
      then have w: "woken s3 cur i" "i \<in> set [0..<MAX_TASKS]" using i ic by (simp_all add: m(4,5) pid3 id1 c1(5))
      then have "t_state (tasks u i) = TASK_READY \<or> t_state (tasks u i) = TASK_RUNNING" using ic by (simp add: sd(4) f(5))
      then show ?thesis using q4 [OF ic] f(6) [OF w(2,1)] unfolding c3 by blast
    qed
  qed
  have L: "lost ?s rq i" if l: "lost u (\<lambda>d. remove1 ?n (rq' d)) i" for i
  proof -
    have ic: "i \<noteq> cur" using l sd(4) [of cur] d4 by (auto simp: lost_def)
    have no: "\<not> ((\<exists>e. current_task (cpus ?s e) = Some i) \<or> (\<exists>e. i \<in> set (rq' e)))" using q4 [OF ic] l unfolding lost_def by blast
    have "i \<noteq> ?n" using l sd(3) [of c] unfolding lost_def by auto
    then have r: "t_state (tasks s4 i) = TASK_READY" using l sd(4) [of i] ic by (simp add: lost_def)
    have "\<not> (i \<in> set [0..<MAX_TASKS] \<and> woken s3 cur i)" using f(6) [of i] no unfolding c3 by blast
    then have "t_state (tasks s1 i) = TASK_READY" using r ic f(5) [of i] m(4) [of i] by presburger
    then have "lost s1 rq1 i" using no f(7) unfolding lost_def c1(1) by blast
    then show ?thesis by (rule x1(4))
  qed
  obtain ss'' where "sched_inv u ss'' (\<lambda>d. remove1 ?n (rq' d))" using sd(1) by blast
  then show "\<exists>ss' rq'. sched_inv u ss' rq' \<and> (can_hand_over ?s rq c \<longrightarrow> excl u rq') \<and> (\<forall>i. lost u rq' i \<longrightarrow> lost ?s rq i) \<and>
      (\<forall>i < MAX_TASKS. woken ?s cur i \<longrightarrow> runnable u i \<and> ((\<exists>d. current_task (cpus u d) = Some i) \<or> (\<exists>d. i \<in> set (rq' d))))"
    using sd(2) [OF nc] W L by blast
qed

section \<open>Reaping and waiting\<close>

lemma with_sched_fields [simp]:
  "psch (with_sched s p) = s" "pt (with_sched s p) = pt p" "fd_nodes (with_sched s p) = fd_nodes p" "node_refs (with_sched s p) = node_refs p"
  "closed (with_sched s p) = closed p" "destroyed (with_sched s p) = destroyed p" "task_bitmap (with_sched s p) = task_bitmap p"
  "next_id (with_sched s p) = next_id p"
  by (simp_all add: with_sched_def)

lemma drop_fd_fields [simp]:
  "fut (drop_fd z j p) = fut p" "pt (drop_fd z j p) = pt p" "task_bitmap (drop_fd z j p) = task_bitmap p"
  "destroyed (drop_fd z j p) = destroyed p" "next_id (drop_fd z j p) = next_id p"
  by (simp_all add: drop_fd_def Let_def split: option.split)

lemma fold_drop_fields [simp]:
  "fut (fold (drop_fd z) js p) = fut p" "pt (fold (drop_fd z) js p) = pt p" "task_bitmap (fold (drop_fd z) js p) = task_bitmap p"
  "destroyed (fold (drop_fd z) js p) = destroyed p"
  by (induction js arbitrary: p) simp_all

lemma reap_fields:
  "psch (task_reap_zombie_locked z p) =
     upd_task z (\<lambda>x. x\<lparr>t_id := 0, t_state := TASK_READY, t_name := [], wait_pending := False, wait_code := 0, wait_status := 0\<rparr>) (psch p)"
  "task_bitmap (task_reap_zombie_locked z p) = unset_bit z (task_bitmap p)"
  "pt (task_reap_zombie_locked z p) = pt p"
  "destroyed (task_reap_zombie_locked z p) =
     (if cr3 (tasks (psch p) z) \<noteq> cr3 (tasks (psch p) 0) \<and> \<not> shared_cr3 z (psch p) then destroyed p @ [cr3 (tasks (psch p) z)] else destroyed p)"
  "fd_nodes (task_reap_zombie_locked z p) = (if fd_table (pt p z) = z then fd_nodes (fold (drop_fd z) [0..<MAX_FD] p) else fd_nodes p)"
  "node_refs (task_reap_zombie_locked z p) = (if fd_table (pt p z) = z then node_refs (fold (drop_fd z) [0..<MAX_FD] p) else node_refs p)"
  "closed (task_reap_zombie_locked z p) = (if fd_table (pt p z) = z then closed (fold (drop_fd z) [0..<MAX_FD] p) else closed p)"
  by (simp_all add: task_reap_zombie_locked_def Let_def del: upt.simps)

text \<open>The scan stops at the first slot with an event.\<close>

lemma wait_scan_first:
  assumes "\<And>a. a \<in> set as \<Longrightarrow> \<not> (child a \<and> event a)" "child z" "event z"
  shows "wait_scan child event (as @ z # bs) seen = (True, Some z)"
  using assms by (induction as arbitrary: seen) auto

lemma upt_split: "z < n \<Longrightarrow> [0..<n] = [0..<z] @ z # [Suc z..<n]"
  by (metis less_imp_add_positive upt_add_eq_append upt_conv_Cons zero_le le_add_same_cancel1 less_imp_le_nat le0)

lemma waitpid_dead_child:
  assumes cur: "task_get_current cpu (psch p) = par" and z: "z < MAX_TASKS" "t_state (tasks (psch p) z) = TASK_DEAD" "wait_pending (tasks (psch p) z)"
    and act: "\<not> current_anywhere (psch p) z" and opt: "options AND WNOWAIT = 0"
    and ids: "t_id (tasks (psch p) z) \<noteq> t_id (tasks (psch p) par)" "task_is_wait_target (psch p) par z pid options"
    and first: "\<And>i. i < z \<Longrightarrow> \<not> task_is_wait_target (psch p) par i pid options"
  shows "task_waitpid cpu now pid options p =
    Some (Inl (to_int (t_id (tasks (psch p) z)), Some (wait_status (tasks (psch p) z)), task_reap_zombie_locked z p))"
proof -
  have "wait_scan (\<lambda>i. other_task (psch p) par i \<and> task_is_wait_target (psch p) par i pid options) (wait_event (psch p) options True)
      [0..<MAX_TASKS] False = (True, Some z)"
    unfolding upt_split [OF z(1)] using z ids first
    by (intro wait_scan_first) (auto simp: other_task_def wait_event_def)
  then show ?thesis using act opt z(2) unfolding task_waitpid_def Let_def cur by (simp add: take_event_def)
qed

section \<open>References of descriptors\<close>

abbreviation uses :: "(nat \<Rightarrow> nat option) \<Rightarrow> nat list \<Rightarrow> nat \<Rightarrow> nat" where
  "uses f js n \<equiv> length (filter (\<lambda>j. f j = Some n) js)"

lemma fold_add_ref:
  assumes "\<And>n. node_refs p n + length js < 2 ^ 32"
  shows "fold (\<lambda>j q. add_ref (fd_nodes q slot j) q) js p = p\<lparr>node_refs := (\<lambda>n. node_refs p n + uses (fd_nodes p slot) js n)\<rparr>"
  using assms
proof (induction js arbitrary: p)
  case (Cons j js)
  define q where "q = add_ref (fd_nodes p slot j) p"
  have q: "q = p\<lparr>node_refs := (\<lambda>n. node_refs p n + uses (fd_nodes p slot) [j] n)\<rparr>"
  proof (cases "fd_nodes p slot j")
    case (Some m)
    have "node_refs p m + 1 < 2 ^ 32" using Cons.prems [of m] by simp
    then have "(node_refs p)(m := add32 (node_refs p m) 1) = (\<lambda>n. node_refs p n + uses (fd_nodes p slot) [j] n)"
      by (auto simp: add32_exact Some)
    then show ?thesis by (simp add: q_def add_ref_def Some)
  qed (simp add: q_def add_ref_def)
  then have "node_refs q n + length js < 2 ^ 32" for n using Cons.prems [of n] by simp
  from Cons.IH [OF this] show ?case by (simp add: q_def [symmetric] q fun_eq_iff)
qed simp

lemma fold_drop_fd:
  assumes "distinct js" "\<And>n. node_refs p n < 2 ^ 32"
    and "\<And>n. uses (fd_nodes p z) js n > 0 \<Longrightarrow> uses (fd_nodes p z) js n < node_refs p n"
  shows "(\<forall>n. node_refs (fold (drop_fd z) js p) n = node_refs p n - uses (fd_nodes p z) js n) \<and>
    closed (fold (drop_fd z) js p) = closed p \<and>
    fd_nodes (fold (drop_fd z) js p) = (fd_nodes p)(z := (\<lambda>j. if j \<in> set js then None else fd_nodes p z j))"
  using assms
proof (induction js arbitrary: p)
  case (Cons j js)
  let ?q = "drop_fd z j p"
  have fd: "fd_nodes ?q = (fd_nodes p)(z := (fd_nodes p z)(j := None))"
    by (auto simp: drop_fd_def Let_def fun_eq_iff split: option.split)
  have us: "uses (fd_nodes ?q z) js n = uses (fd_nodes p z) js n" for n
    using Cons.prems(1) by (intro arg_cong [of _ _ length] filter_cong) (auto simp: fd)
  have rf: "node_refs ?q n = node_refs p n - uses (fd_nodes p z) [j] n" for n
    using Cons.prems(2) [of n] Cons.prems(3) [of n] by (auto simp: drop_fd_def sub32_exact Let_def split: option.split)
  have cl: "closed ?q = closed p"
  proof (cases "fd_nodes p z j")
    case (Some m)
    then have "sub32 (node_refs p m) 1 \<noteq> 0" using Cons.prems(2) [of m] Cons.prems(3) [of m] by (simp add: sub32_exact)
    then show ?thesis using Some by (simp add: drop_fd_def Let_def)
  qed (simp add: drop_fd_def)
  have 1: "distinct js" using Cons.prems(1) by simp
  have 2: "node_refs ?q n < 2 ^ 32" for n using rf [of n] Cons.prems(2) [of n] by simp
  have 3: "uses (fd_nodes ?q z) js n < node_refs ?q n" if "uses (fd_nodes ?q z) js n > 0" for n
    using that Cons.prems(3) [of n] rf [of n] unfolding us by (auto split: if_splits)
  note ih = Cons.IH [OF 1 2 3]
  have "node_refs (fold (drop_fd z) (j # js) p) n = node_refs p n - uses (fd_nodes p z) (j # js) n" for n
    using ih by (simp add: us rf)
  moreover have "closed (fold (drop_fd z) (j # js) p) = closed p" using ih cl by simp
  moreover have "fd_nodes (fold (drop_fd z) (j # js) p) = (fd_nodes p)(z := (\<lambda>k. if k \<in> set (j # js) then None else fd_nodes p z k))"
    using ih by (auto simp: fd fun_eq_iff)
  ultimately show ?case by blast
qed simp_all

text \<open>
  A state of 0 marks a slot as unused, but 0 is \<open>TASK_READY\<close>: when the tasks that share the address space of a dead one are all
  ready, reaping it destroys the page table they are going to run on.
\<close>

lemma reap_destroys_ready_space:
  assumes "cr3 (tasks (psch p) z) \<noteq> cr3 (tasks (psch p) 0)" "t \<noteq> z" "cr3 (tasks (psch p) t) = cr3 (tasks (psch p) z)"
    and "\<And>k. k < MAX_TASKS \<Longrightarrow> k \<noteq> z \<Longrightarrow> cr3 (tasks (psch p) k) = cr3 (tasks (psch p) z) \<Longrightarrow> t_state (tasks (psch p) k) = TASK_READY"
  shows "cr3 (tasks (psch (task_reap_zombie_locked z p)) t) \<in> set (destroyed (task_reap_zombie_locked z p))"
proof -
  have "\<not> shared_cr3 z (psch p)" using assms(4) by (auto simp: shared_cr3_def list_ex_iff)
  then show ?thesis using assms(1-3) by (simp add: reap_fields sched_simps)
qed

text \<open>The number of slots in use is never lowered: once the last slot was taken, no task can be created, although slots have been freed.\<close>

lemma create_refused_after_reap:
  assumes "task_count (psch p) = MAX_TASKS"
  shows "task_create stack pml4 root name fn (task_reap_zombie_locked z p) = (- 1, task_reap_zombie_locked z p)"
    "task_fork cpu stack ccr (task_reap_zombie_locked z p) = (- 1, task_reap_zombie_locked z p)"
    "\<not> bit (task_bitmap (task_reap_zombie_locked z p)) z"
  using assms by (simp_all add: task_create_def task_fork_def reap_fields sched_simps bit_unset_bit_iff)

section \<open>Creating tasks\<close>

text \<open>The slot is the lowest one that is not taken, and it is taken afterwards.\<close>

lemma find_free_slot_bitmap:
  assumes "NOT (task_bitmap p) \<noteq> 0"
  obtains slot where "find_free_slot p = (Some slot, p\<lparr>task_bitmap := set_bit slot (task_bitmap p)\<rparr>)" "slot < MAX_TASKS"
    "\<not> bit (task_bitmap p) slot" "\<And>j. j < slot \<Longrightarrow> bit (task_bitmap p) j"
proof -
  note c = ctzll_least [OF assms]
  have b: "bit (task_bitmap p) j \<longleftrightarrow> \<not> bit (NOT (task_bitmap p)) j" if "j < 64" for j
    using that by (simp add: bit_not_iff)
  show ?thesis using c b assms
    by (intro that [of "ctzll (NOT (task_bitmap p))"]) (auto simp: find_free_slot_def MAX_TASKS_def)
qed

lemma sched_inv_set_task_count:
  "sched_inv (s\<lparr>task_count := k\<rparr>) ss rq = sched_inv s ss rq" "excl (s\<lparr>task_count := k\<rparr>) rq = excl s rq"
  by (rule sched_inv_counters; simp)+

lemma set_task_count_fields [simp]:
  "tasks (psch (set_task_count k p)) = tasks (psch p)" "cpus (psch (set_task_count k p)) = cpus (psch p)"
  "fd_nodes (set_task_count k p) = fd_nodes p" "node_refs (set_task_count k p) = node_refs p" "pt (set_task_count k p) = pt p"
  "closed (set_task_count k p) = closed p" "task_bitmap (set_task_count k p) = task_bitmap p" "next_id (set_task_count k p) = next_id p"
  by (simp_all add: set_task_count_def)

lemma sched_inv_count_slot:
  "sched_inv (psch (set_task_count k p)) ss rq = sched_inv (psch p) ss rq" "excl (psch (set_task_count k p)) rq = excl (psch p) rq"
  by (simp_all add: set_task_count_def sched_inv_set_task_count)

text \<open>Filling a free slot and queueing the new task.\<close>

lemma new_task_queued:
  assumes inv: "sched_inv s ss rq" "excl s rq" and free: "slot \<notin> set ss" "\<And>c. slot \<notin> set (rq c)" "\<And>c. current_task (cpus s c) \<noteq> Some slot"
    and f: "\<And>x. next_ready (f x) = next_ready x \<and> prev_ready (f x) = prev_ready x \<and> next_sleep (f x) = next_sleep x \<and> prev_sleep (f x) = prev_sleep x"
      "\<And>x. t_state (f x) = TASK_READY"
    and u: "u = enqueue_ready slot (upd_task slot f s)"
  shows "\<exists>c. sched_inv u ss (rq(c := rq c @ [slot])) \<and> excl u (rq(c := rq c @ [slot]))"
    "only_links (upd_task slot f s) u"
proof -
  let ?s1 = "upd_task slot f s"
  have i1: "sched_inv ?s1 ss rq" by (rule sched_inv_upd_task [OF inv(1) free(1,2) f(1)])
  have st: "t_state (tasks ?s1 slot) = TASK_READY" by (simp add: sched_simps f(2))
  show l: "only_links ?s1 u" unfolding u by (rule only_links_enqueue_ready [OF sched_invD(2) [OF i1]])
  have cu: "current_task (cpus u d) = current_task (cpus s d)" for d by (simp add: only_links_fields [OF l] sched_simps)
  have "sched_inv u ss (rq(ready_cpu ?s1 slot := rq (ready_cpu ?s1 slot) @ [slot]))"
    unfolding u using sched_inv_enqueue_ready [OF i1 free(2) st] by simp
  moreover have "excl u (rq(c := rq c @ [slot]))" for c using inv(2) free(3) by (auto simp: excl_def cu)
  ultimately show "\<exists>c. sched_inv u ss (rq(c := rq c @ [slot])) \<and> excl u (rq(c := rq c @ [slot]))" by blast
qed

lemma start_task_spec:
  assumes ps: "psch p = upd_task slot f s" and inv: "sched_inv s ss rq" "excl s rq"
    and free: "slot \<notin> set ss" "\<And>c. slot \<notin> set (rq c)" "\<And>c. current_task (cpus s c) \<noteq> Some slot"
    and f: "\<And>x. next_ready (f x) = next_ready x \<and> prev_ready (f x) = prev_ready x \<and> next_sleep (f x) = next_sleep x \<and> prev_sleep (f x) = prev_sleep x"
      "\<And>x. t_state (f x) = TASK_READY"
    and q: "q = start_task slot p"
  shows "\<exists>c. sched_inv (psch q) ss (rq(c := rq c @ [slot])) \<and> excl (psch q) (rq(c := rq c @ [slot]))"
    "ids (tasks (psch q) i) = ids (tasks (psch p) i)" "t_state (tasks (psch q) i) = t_state (tasks (psch p) i)"
    "\<exists>s. q = with_sched s p"
proof -
  let ?k = "task_count (psch (set_task_count slot p))" let ?t = "s\<lparr>task_count := ?k\<rparr>"
  have "psch (set_task_count slot p) = upd_task slot f ?t" by (simp add: set_task_count_def ps upd_task_def)
  moreover have "x\<lparr>t_state := TASK_READY\<rparr> = x" if "t_state x = TASK_READY" for x :: task by (simp add: that [symmetric])
  then have "upd_task slot (\<lambda>x. x\<lparr>t_state := TASK_READY\<rparr>) (psch (set_task_count slot p)) = psch (set_task_count slot p)"
    using f(2) by (intro upd_task_same) (simp add: ps sched_simps)
  ultimately have qs: "psch q = enqueue_ready slot (upd_task slot f ?t)" by (simp add: q start_task_def Let_def)
  have it: "sched_inv ?t ss rq" "excl ?t rq" using inv by (simp_all add: sched_inv_set_task_count)
  have ft: "\<And>c. current_task (cpus ?t c) \<noteq> Some slot" using free(3) by simp
  note nt = new_task_queued [OF it free(1,2) ft f qs]
  show "\<exists>c. sched_inv (psch q) ss (rq(c := rq c @ [slot])) \<and> excl (psch q) (rq(c := rq c @ [slot]))" by (rule nt(1))
  have "ids (tasks (psch q) i) = ids (tasks (upd_task slot f ?t) i)" unfolding qs by (rule keeps_idsD) (intro keep_intros)
  then show "ids (tasks (psch q) i) = ids (tasks (psch p) i)" by (simp add: ps sched_simps)
  show "t_state (tasks (psch q) i) = t_state (tasks (psch p) i)"
    using only_links_fields(1) [OF nt(2), of i] by (simp add: ps sched_simps)
  show "\<exists>s. q = with_sched s p" by (simp add: q start_task_def Let_def set_task_count_def with_sched_def) blast
qed

lemma add_ref_eq:
  assumes "\<And>n. node_refs p n + 1 < 2 ^ 32"
  shows "add_ref nd p = p\<lparr>node_refs := (\<lambda>n. node_refs p n + (if nd = Some n then 1 else 0))\<rparr>"
proof (cases nd)
  case (Some m)
  have "(node_refs p)(m := add32 (node_refs p m) 1) = (\<lambda>n. node_refs p n + (if nd = Some n then 1 else 0))"
    using assms [of m] by (auto simp: add32_exact Some)
  then show ?thesis by (simp add: add_ref_def Some)
qed (simp add: add_ref_def)

lemma uses_le: "uses g [0..<MAX_FD] n \<le> MAX_FD"
  using length_filter_le [of _ "[0..<MAX_FD]"] by simp

lemma copy_fds_eq:
  assumes "\<And>n. node_refs p n + MAX_FD < 2 ^ 32"
  shows "copy_fds slot src p = p\<lparr>fd_nodes := (fd_nodes p)(slot := fd_nodes p src),
     node_refs := (\<lambda>n. node_refs p n + uses (fd_nodes p src) [0..<MAX_FD] n)\<rparr>"
  unfolding copy_fds_def by (subst fold_add_ref) (use assms in simp_all)

text \<open>The references after a fork: one for each descriptor and one for the working directory.\<close>

lemma copied_refs:
  assumes "\<And>n. node_refs p n + MAX_FD + 1 < 2 ^ 32"
  shows "add_ref nd (copy_fds slot src p) = p\<lparr>fd_nodes := (fd_nodes p)(slot := fd_nodes p src),
     node_refs := (\<lambda>n. node_refs p n + uses (fd_nodes p src) [0..<MAX_FD] n + (if nd = Some n then 1 else 0))\<rparr>"
proof -
  have b: "node_refs p n + MAX_FD < 2 ^ 32" for n using assms [of n] by simp
  have "node_refs (copy_fds slot src p) n + 1 < 2 ^ 32" for n
    using assms [of n] uses_le [of "fd_nodes p src" n] by (simp add: copy_fds_eq [OF b])
  from add_ref_eq [OF this] show ?thesis by (simp add: copy_fds_eq [OF b])
qed

lemma fork_spec:
  assumes cnt: "task_count (psch p) < MAX_TASKS" and slot: "find_free_slot p = (Some slot, p1)" "p1 = p\<lparr>task_bitmap := b\<rparr>"
    and par: "task_get_current cpu (psch p) = par"
    and inv: "sched_inv (psch p) ss rq" "excl (psch p) rq"
    and free: "slot \<notin> set ss" "\<And>c. slot \<notin> set (rq c)" "\<And>c. current_task (cpus (psch p) c) \<noteq> Some slot"
    and refs: "\<And>n. node_refs p n + MAX_FD + 1 < 2 ^ 32"
    and q: "q = snd (task_fork cpu (Some sp) ccr3 p)"
  shows "fst (task_fork cpu (Some sp) ccr3 p) = to_int (next_id p)"
    "\<exists>c. sched_inv (psch q) ss (rq(c := rq c @ [slot])) \<and> excl (psch q) (rq(c := rq c @ [slot]))"
    "ids (tasks (psch q) slot) = (ccr3, next_id p, t_id (tasks (psch p) par), next_id p, take 31 (t_name (tasks (psch p) par)),
       (exit_code (tasks (psch p) slot), 0, 0, False))" "t_state (tasks (psch q) slot) = TASK_READY"
    "\<And>i. i \<noteq> slot \<Longrightarrow> ids (tasks (psch q) i) = ids (tasks (psch p) i) \<and> t_state (tasks (psch q) i) = t_state (tasks (psch p) i)"
    "fd_nodes q = (fd_nodes p)(slot := fd_nodes p (fd_table (pt p par)))" "fd_table (pt q slot) = slot"
    "node_refs q = (\<lambda>n. node_refs p n + uses (fd_nodes p (fd_table (pt p par))) [0..<MAX_FD] n + (if cwd_node (pt p par) = Some n then 1 else 0))"
    "closed q = closed p" "task_bitmap q = b" "next_id q = add32 (next_id p) 1"
proof -
  let ?x0 = "tasks (psch p) par" let ?y0 = "pt p par" let ?i = "next_id p" let ?s = "psch p"
  define f where "f = fork_task ?i sp ccr3 ?x0"
  define p2 where "p2 = upd_pt slot (fork_ptask slot sp ?y0) ((with_sched (upd_task slot f ?s) p1)\<lparr>next_id := add32 ?i 1\<rparr>)"
  define p3 where "p3 = copy_signals slot (signal_tables ?y0) (add_ref (cwd_node ?y0) (copy_fds slot (fd_table ?y0) p2))"
  have p1: "psch p1 = ?s" "pt p1 = pt p" "next_id p1 = ?i" "fd_nodes p1 = fd_nodes p" "node_refs p1 = node_refs p" "closed p1 = closed p"
    "task_bitmap p1 = b" by (simp_all add: slot(2))
  have e: "task_fork cpu (Some sp) ccr3 p = (to_int ?i, start_task slot p3)"
    unfolding task_fork_def Let_def slot(1) prod.case option.case p1(1-3) par using cnt
    by (simp only: p3_def p2_def f_def not_le [symmetric] if_False)
  then have qe: "q = start_task slot p3" and "fst (task_fork cpu (Some sp) ccr3 p) = to_int ?i" by (simp_all add: q)
  then show "fst (task_fork cpu (Some sp) ccr3 p) = to_int ?i" by simp
  have p2: "psch p2 = upd_task slot f ?s" "fd_nodes p2 = fd_nodes p" "node_refs p2 = node_refs p"
    "closed p2 = closed p" "task_bitmap p2 = b" "next_id p2 = add32 ?i 1" "fd_table (pt p2 slot) = slot"
    by (simp_all add: p2_def upd_pt_def p1 fork_ptask_def)
  have "node_refs p2 n + MAX_FD + 1 < 2 ^ 32" for n using refs [of n] by (simp add: p2)
  note p3 = copied_refs [OF this, of "cwd_node ?y0" slot "fd_table ?y0"]
  have ps: "psch p3 = upd_task slot f ?s" by (simp add: p3_def copy_signals_def p3 p2)
  have ff: "next_ready (f x) = next_ready x \<and> prev_ready (f x) = prev_ready x \<and> next_sleep (f x) = next_sleep x \<and> prev_sleep (f x) = prev_sleep x"
    "t_state (f x) = TASK_READY" for x by (simp_all add: f_def fork_task_def)
  note st = start_task_spec [OF ps inv free ff qe]
  obtain u where u: "q = with_sched u p3" using st(4) by blast
  show "\<exists>c. sched_inv (psch q) ss (rq(c := rq c @ [slot])) \<and> excl (psch q) (rq(c := rq c @ [slot]))" by (rule st(1))
  show "fd_nodes q = (fd_nodes p)(slot := fd_nodes p (fd_table ?y0))" "fd_table (pt q slot) = slot" "closed q = closed p" "task_bitmap q = b"
    "next_id q = add32 ?i 1"
    "node_refs q = (\<lambda>n. node_refs p n + uses (fd_nodes p (fd_table ?y0)) [0..<MAX_FD] n + (if cwd_node ?y0 = Some n then 1 else 0))"
    by (simp_all add: u p3_def copy_signals_def p3 p2)
  show "ids (tasks (psch q) slot) = (ccr3, ?i, t_id ?x0, ?i, take 31 (t_name ?x0), (exit_code (tasks ?s slot), 0, 0, False))"
    unfolding st(2) by (simp add: ps sched_simps f_def fork_task_def)
  show "t_state (tasks (psch q) slot) = TASK_READY" unfolding st(3) by (simp add: ps sched_simps f_def fork_task_def)
  show "ids (tasks (psch q) i) = ids (tasks ?s i) \<and> t_state (tasks (psch q) i) = t_state (tasks ?s i)" if "i \<noteq> slot" for i
    unfolding st(2,3) using that by (simp add: ps sched_simps)
qed

text \<open>A clone shares with its parent what the flags say, and copies the rest.\<close>

lemma clone_spec:
  assumes cnt: "task_count (psch p) < MAX_TASKS" and slot: "find_free_slot p = (Some slot, p1)" "p1 = p\<lparr>task_bitmap := b\<rparr>"
    and par: "task_get_current cpu (psch p) = par"
    and inv: "sched_inv (psch p) ss rq" "excl (psch p) rq"
    and free: "slot \<notin> set ss" "\<And>c. slot \<notin> set (rq c)" "\<And>c. current_task (cpus (psch p) c) \<noteq> Some slot"
    and refs: "\<And>n. node_refs p n + MAX_FD + 1 < 2 ^ 32"
    and q: "q = snd (task_clone cpu (Some sp) ccr access flags stop ptid ctid tls p)"
  shows "\<exists>c. sched_inv (psch q) ss (rq(c := rq c @ [slot])) \<and> excl (psch q) (rq(c := rq c @ [slot]))"
    "t_id (tasks (psch q) slot) = next_id p" "parent_id (tasks (psch q) slot) = t_id (tasks (psch p) par)" "t_state (tasks (psch q) slot) = TASK_READY"
    "tgid (tasks (psch q) slot) = (if flags AND CLONE_THREAD \<noteq> 0 then tgid (tasks (psch p) par) else next_id p)"
    "cr3 (tasks (psch q) slot) = (if flags AND CLONE_VM \<noteq> 0 then cr3 (tasks (psch p) par) else ccr)"
    "fd_table (pt q slot) = (if flags AND CLONE_FILES \<noteq> 0 then fd_table (pt p par) else slot)"
    "signal_tables (pt q slot) = (if flags AND CLONE_SIGHAND \<noteq> 0 then signal_tables (pt p par) else slot)"
    "fd_nodes q = (if flags AND CLONE_FILES \<noteq> 0 then fd_nodes p else (fd_nodes p)(slot := fd_nodes p (fd_table (pt p par))))"
    "node_refs q n = node_refs p n + (if flags AND CLONE_FILES \<noteq> 0 then 0 else uses (fd_nodes p (fd_table (pt p par))) [0..<MAX_FD] n) +
       (if cwd_node (pt p par) = Some n then 1 else 0)"
proof -
  have p1: "psch p1 = psch p" "pt p1 = pt p" "next_id p1 = next_id p" by (simp_all add: slot(2))
  let ?i = "next_id p" let ?y0 = "pt p par"
  define f where "f = clone_task flags ?i sp ccr stop tls (tasks (psch p) par)"
  define p2 where "p2 = upd_pt slot (clone_ptask flags slot sp ctid ?y0) ((with_sched (upd_task slot f (psch p)) p1)\<lparr>next_id := add32 ?i 1\<rparr>)"
  define p4 where "p4 = add_ref (cwd_node ?y0) (if flags AND CLONE_FILES \<noteq> 0 then p2 else copy_fds slot (fd_table ?y0) p2)"
  define p5 where "p5 = (if flags AND CLONE_SIGHAND \<noteq> 0 then p4 else copy_signals slot (signal_tables ?y0) p4)"
  define p7 where "p7 = store_tid (flags AND CLONE_CHILD_SETTID \<noteq> 0) access ctid ?i (store_tid (flags AND CLONE_PARENT_SETTID \<noteq> 0) access ptid ?i p5)"
  have "task_clone cpu (Some sp) ccr access flags stop ptid ctid tls p = (to_int ?i, start_task slot p7)"
    unfolding task_clone_def Let_def slot(1) prod.case option.case p1 par using cnt
    by (simp only: p7_def p5_def p4_def p2_def f_def not_le [symmetric] if_False)
  then have qe: "q = start_task slot p7" by (simp add: q)
  have p2: "psch p2 = upd_task slot f (psch p)" "fd_nodes p2 = fd_nodes p" "node_refs p2 = node_refs p"
    "fd_table (pt p2 slot) = (if flags AND CLONE_FILES \<noteq> 0 then fd_table ?y0 else slot)"
    "signal_tables (pt p2 slot) = (if flags AND CLONE_SIGHAND \<noteq> 0 then signal_tables ?y0 else slot)"
    by (simp_all add: p2_def upd_pt_def p1 clone_ptask_def Let_def slot(2))
  have b: "node_refs p2 n + MAX_FD + 1 < 2 ^ 32" "node_refs p2 n + 1 < 2 ^ 32" for n using refs [of n] by (simp_all add: p2)
  note c = copied_refs [OF b(1), of "cwd_node ?y0" slot "fd_table ?y0"] and a = add_ref_eq [OF b(2), of "cwd_node ?y0"]
  have p4: "psch p4 = psch p2" "pt p4 = pt p2"
    "fd_nodes p4 = (if flags AND CLONE_FILES \<noteq> 0 then fd_nodes p else (fd_nodes p)(slot := fd_nodes p (fd_table ?y0)))"
    "node_refs p4 n = node_refs p n + (if flags AND CLONE_FILES \<noteq> 0 then 0 else uses (fd_nodes p (fd_table ?y0)) [0..<MAX_FD] n) +
       (if cwd_node ?y0 = Some n then 1 else 0)" for n
    by (cases "flags AND CLONE_FILES = 0"; simp add: p4_def c a p2)+
  have p7: "psch p7 = psch p4" "pt p7 = pt p4" "fd_nodes p7 = fd_nodes p4" "node_refs p7 = node_refs p4"
    by (simp_all add: p7_def p5_def store_tid_def copy_signals_def)
  have ps: "psch p7 = upd_task slot f (psch p)" by (simp add: p7 p4 p2)
  have ff: "next_ready (f x) = next_ready x \<and> prev_ready (f x) = prev_ready x \<and> next_sleep (f x) = next_sleep x \<and> prev_sleep (f x) = prev_sleep x"
    "t_state (f x) = TASK_READY" for x by (simp_all add: f_def clone_task_def)
  note st = start_task_spec [OF ps inv free ff qe]
  obtain u where u: "q = with_sched u p7" using st(4) by blast
  show "\<exists>c. sched_inv (psch q) ss (rq(c := rq c @ [slot])) \<and> excl (psch q) (rq(c := rq c @ [slot]))" by (rule st(1))
  have id: "t_id (tasks (psch q) slot) = t_id (f (tasks (psch p) slot)) \<and> parent_id (tasks (psch q) slot) = parent_id (f (tasks (psch p) slot)) \<and>
      tgid (tasks (psch q) slot) = tgid (f (tasks (psch p) slot)) \<and> cr3 (tasks (psch q) slot) = cr3 (f (tasks (psch p) slot))"
    using st(2) [of slot] by (simp add: ps sched_simps)
  show "t_state (tasks (psch q) slot) = TASK_READY" unfolding st(3) by (simp add: ps sched_simps ff)
  show "t_id (tasks (psch q) slot) = ?i" "parent_id (tasks (psch q) slot) = t_id (tasks (psch p) par)"
    "tgid (tasks (psch q) slot) = (if flags AND CLONE_THREAD \<noteq> 0 then tgid (tasks (psch p) par) else ?i)"
    "cr3 (tasks (psch q) slot) = (if flags AND CLONE_VM \<noteq> 0 then cr3 (tasks (psch p) par) else ccr)"
    using id by (simp_all add: f_def clone_task_def)
  show "fd_table (pt q slot) = (if flags AND CLONE_FILES \<noteq> 0 then fd_table ?y0 else slot)"
    "signal_tables (pt q slot) = (if flags AND CLONE_SIGHAND \<noteq> 0 then signal_tables ?y0 else slot)"
    "fd_nodes q = (if flags AND CLONE_FILES \<noteq> 0 then fd_nodes p else (fd_nodes p)(slot := fd_nodes p (fd_table ?y0)))"
    "node_refs q n = node_refs p n + (if flags AND CLONE_FILES \<noteq> 0 then 0 else uses (fd_nodes p (fd_table ?y0)) [0..<MAX_FD] n) +
       (if cwd_node ?y0 = Some n then 1 else 0)"
    by (simp_all add: u p7 p4 p2)
qed

text \<open>
  The descriptors of a thread group live in the slot of the task that made the table. When that task is reaped, they are
  dropped although its threads still use the table.
\<close>

lemma reap_drops_shared_descriptors:
  assumes "fd_table (pt p z) = z" "fd_table (pt p t) = z" "j < MAX_FD"
  shows "fd_nodes (task_reap_zombie_locked z p) (fd_table (pt (task_reap_zombie_locked z p) t)) j = None"
proof -
  have "fd_nodes (fold (drop_fd z) js p) z j = (if j \<in> set js then None else fd_nodes p z j)" for js
    by (induction js arbitrary: p) (auto simp: drop_fd_def Let_def split: option.split)
  then show ?thesis using assms by (simp add: reap_fields)
qed

text \<open>The state that \<open>scheduler_init\<close> leaves, if no processor has a queue or a current task, satisfies the invariant.\<close>

lemma scheduler_init_establishes:
  assumes "0 < total_cpus (psch p)" "sleep_head (psch p) = None"
    and "\<And>c. local_ready_head (cpus (psch p) c) = None \<and> local_ready_tail (cpus (psch p) c) = None \<and> local_task_count (cpus (psch p) c) = 0"
    and "\<And>c. current_task (cpus (psch p) c) = None"
  shows "sched_inv (psch (scheduler_init cpu pml4 root p)) [] (\<lambda>_. [])" "excl (psch (scheduler_init cpu pml4 root p)) (\<lambda>_. [])"
    "task_bitmap (scheduler_init cpu pml4 root p) = 1"
proof -
  define q where "q = scheduler_init cpu pml4 root p"
  have q: "fut q = fut (scheduler_init cpu pml4 None p)" "task_bitmap q = 1"
    by (simp_all add: q_def scheduler_init_def Let_def add_ref_def split: option.split)
  show "task_bitmap (scheduler_init cpu pml4 root p) = 1" using q(2) by (simp add: q_def)
  show "sched_inv (psch (scheduler_init cpu pml4 root p)) [] (\<lambda>_. [])" "excl (psch (scheduler_init cpu pml4 root p)) (\<lambda>_. [])"
    using assms unfolding q_def [symmetric] q(1)
    by (auto simp: scheduler_init_def Let_def add_ref_def sched_inv_def sleepq_def readyqs_def readyq_def dll_def excl_def upd_cpu_def
        split: option.splits if_splits)
qed

section \<open>Properties\<close>

text \<open>
  Two processors, slot 0 is the idle task of both. Slot 3 runs on processor 0; its parent is slot 2, which sleeps, or with \<open>b\<close> runs on
  processor 1. Slot 4 is a blocked child of slot 3. Slots 0 to 4 are taken, and slot 3 has one open descriptor and a working directory.
\<close>

definition demo_psched :: "bool \<Rightarrow> sched" where
  "demo_psched b = \<lparr>tasks = (\<lambda>_. blank_task)(
       2 := blank_task\<lparr>t_state := (if b then TASK_RUNNING else TASK_SLEEPING), t_id := 11, tgid := 11, wake_tick := 5, cr3 := 1\<rparr>,
       3 := blank_task\<lparr>t_state := TASK_RUNNING, t_id := 13, tgid := 13, parent_id := 11, cr3 := 2\<rparr>,
       4 := blank_task\<lparr>t_state := TASK_BLOCKED, t_id := 14, tgid := 14, parent_id := 13, cr3 := 3\<rparr>),
     cpus = (\<lambda>_. blank_cpu)(
       0 := blank_cpu\<lparr>c_state := CPU_STATE_ONLINE, current_task := Some 3, idle_task := Some 0\<rparr>,
       1 := blank_cpu\<lparr>c_state := CPU_STATE_ONLINE, cpu_index := 1, current_task := (if b then Some 2 else None), idle_task := Some 0\<rparr>),
     total_cpus = 2, task_count = 5, scheduler_active = True, sleep_head = (if b then None else Some 2),
     cpu_total_ticks = 0, cpu_idle_ticks = 0, cpu_last_load = 0, ipis = []\<rparr>"

definition demo_proc :: "bool \<Rightarrow> proc" where
  "demo_proc b = \<lparr>fut = \<lparr>fsch = demo_psched b, buckets = (\<lambda>_. []), umem = (\<lambda>_. 0)\<rparr>,
     pt = (\<lambda>_. blank_ptask)(3 := blank_ptask\<lparr>fd_table := 3, cwd_node := Some 70\<rparr>),
     fd_nodes = (\<lambda>_ _. None)(3 := (\<lambda>_. None)(0 := Some 80)), sig_tables = (\<lambda>_. blank_sigtab), node_refs = (\<lambda>_. 1), closed = [], destroyed = [], task_bitmap = 31, next_id = 15\<rparr>"

lemma demo_proc_inv:
  "sched_inv (psch (demo_proc b)) (if b then [] else [2]) (\<lambda>_. [])" "excl (psch (demo_proc b)) (\<lambda>_. [])" "online_currents (psch (demo_proc b))"
  by (auto simp: sched_inv_def sleepq_def readyqs_def readyq_def dll_def excl_def online_currents_def demo_proc_def demo_psched_def MAX_CPUS_def
      split: if_splits)

lemma demo_proc_fields:
  "scheduler_active (psch (demo_proc b))" "current_task (cpus (psch (demo_proc b)) 0) = Some 3" "t_state (tasks (psch (demo_proc b)) 3) = TASK_RUNNING"
  "parent_id (tasks (psch (demo_proc b)) 3) = 11" "t_id (tasks (psch (demo_proc b)) 3) = 13" "tgid (tasks (psch (demo_proc b)) 3) = 13"
  "idle_task (cpus (psch (demo_proc b)) 0) = Some 0" "current_task (cpus (psch (demo_proc b)) d) \<noteq> Some 0"
  "clear_child_tid (pt (demo_proc b) 3) = 0" "current_task (cpus (psch (demo_proc True)) 1) = Some 2" "t_id (tasks (psch (demo_proc b)) 2) = 11"
  "t_state (tasks (psch (demo_proc False)) 2) = TASK_SLEEPING" "parent_id (tasks (psch (demo_proc b)) 4) = 13" "t_id (tasks (psch (demo_proc b)) 4) = 14"
  "t_id (tasks (psch (demo_proc b)) 0) = 0"
  by (auto simp: demo_proc_def demo_psched_def split: if_splits)

text \<open>C7: ending a task. When a running task that is not its own parent calls \<open>task_exit\<close>, it is dead with its exit code and its report
  to the parent stored; its children, and no other tasks, now belong to the kernel task; a parent that was waiting is runnable and
  either current somewhere or in a ready queue; the queues are well formed and no ready task is lost, the waiter on its cleared thread word
  included. If a task is queued on the processor, or its idle task (slot 0 without one) runs nowhere, then no processor has the dead task as its
  current task, and no task is current twice or both current and queued.\<close>

theorem task_exit_correct:
  assumes "sched_inv (psch p) ss rq" and "excl (psch p) rq" and "online_currents (psch p)" and "scheduler_active (psch p)"
    and "current_task (cpus (psch p) c) = Some cur" and "t_state (tasks (psch p) cur) = TASK_RUNNING"
    and "parent_id (tasks (psch p) cur) \<noteq> t_id (tasks (psch p) cur)"
    and "u = psch (task_exit (Some c) access status p)"
  shows "t_state (tasks u cur) = TASK_DEAD \<and> exit_code (tasks u cur) = status \<and> wait_status (tasks u cur) = status mod 256 * 256 \<and>
     wait_code (tasks u cur) = CLD_EXITED \<and> wait_pending (tasks u cur) \<and>
     (\<forall>i. parent_id (tasks u i) = (if i < MAX_TASKS \<and> t_id (tasks (psch p) i) \<noteq> 0 \<and> parent_id (tasks (psch p) i) = t_id (tasks (psch p) cur)
        then t_id (tasks (psch p) 0) else parent_id (tasks (psch p) i))) \<and>
     (rq c \<noteq> [] \<or> (\<forall>d. current_task (cpus (psch p) d) \<noteq> Some (fallback (psch p) c)) \<longrightarrow> (\<forall>d. current_task (cpus u d) \<noteq> Some cur)) \<and>
     (\<exists>ss' rq'. sched_inv u ss' rq' \<and> (\<forall>i. lost u rq' i \<longrightarrow> lost (psch p) rq i) \<and>
        (rq c \<noteq> [] \<or> (\<forall>d. current_task (cpus (psch p) d) \<noteq> Some (fallback (psch p) c)) \<longrightarrow> excl u rq') \<and>
        (\<forall>i < MAX_TASKS. t_id (tasks (psch p) i) = parent_id (tasks (psch p) cur) \<and> waits (t_state (tasks (psch p) i)) \<longrightarrow>
           runnable u i \<and> ((\<exists>d. current_task (cpus u d) = Some i) \<or> (\<exists>d. i \<in> set (rq' d)))))"
  using exit_internal_spec [OF assms(1-7) assms(8) [unfolded task_exit_def]] unfolding can_hand_over_def by blast

theorem task_exit_correct_witness:
  "let u = psch (task_exit (Some 0) False 7 (demo_proc False)) in
   t_state (tasks u 3) = TASK_DEAD \<and> wait_status (tasks u 3) = 1792 \<and> parent_id (tasks u 4) = 0 \<and> runnable u 2 \<and> (\<forall>d. current_task (cpus u d) \<noteq> Some 3)"
proof -
  let ?p = "demo_proc False" let ?u = "psch (task_exit (Some 0) False 7 ?p)"
  let ?w = "\<lambda>i. t_id (tasks (psch ?p) i) = parent_id (tasks (psch ?p) 3) \<and> waits (t_state (tasks (psch ?p) i))"
  note d = demo_proc_inv [of False] demo_proc_fields
  have "parent_id (tasks (psch (demo_proc False)) 3) \<noteq> t_id (tasks (psch (demo_proc False)) 3)" by (simp add: d)
  from task_exit_correct [OF d(1-6) this refl, of False 7]
  have x: "t_state (tasks ?u 3) = TASK_DEAD" "wait_status (tasks ?u 3) = 1792" "parent_id (tasks ?u 4) = 0" "\<forall>i < MAX_TASKS. ?w i \<longrightarrow> runnable ?u i"
    "\<forall>d. current_task (cpus ?u d) \<noteq> Some 3"
    by (auto simp: d MAX_TASKS_def fallback_def)
  then show ?thesis by (simp add: Let_def d waits_def MAX_TASKS_def)
qed

text \<open>C8: the exit status reaches the parent. If a task exits on one processor, where a task is queued or whose idle task (slot 0 without one) runs
  nowhere, and its parent, running on another one, then waits for
  that task by number (no other slot having that task or group number), \<open>task_waitpid\<close> returns at once the number of the task and its exit
  status in the second byte; the slot is free again, the page table of the child has been destroyed unless it is the kernel's or shared, and
  the other tasks are as the exit left them.\<close>

theorem exit_status_reaches_parent:
  assumes "sched_inv (psch p) ss rq" and "excl (psch p) rq" and "online_currents (psch p)" and "scheduler_active (psch p)"
    and "current_task (cpus (psch p) c) = Some cur" and "t_state (tasks (psch p) cur) = TASK_RUNNING"
    and "parent_id (tasks (psch p) cur) \<noteq> t_id (tasks (psch p) cur)"
    and "rq c \<noteq> [] \<or> (\<forall>e. current_task (cpus (psch p) e) \<noteq> Some (fallback (psch p) c))"
    and "current_task (cpus (psch p) d) = Some par" and "d \<noteq> c" and "parent_id (tasks (psch p) cur) = t_id (tasks (psch p) par)"
    and "cur < MAX_TASKS" and "pid = to_int (t_id (tasks (psch p) cur))" and "0 < pid" and "options AND WNOWAIT = 0"
    and "\<And>i. i < MAX_TASKS \<Longrightarrow> i \<noteq> cur \<Longrightarrow> to_int (t_id (tasks (psch p) i)) \<noteq> pid \<and> to_int (tgid (tasks (psch p) i)) \<noteq> pid"
    and "p1 = task_exit (Some c) access status p"
  shows "\<exists>p2. task_waitpid (Some d) now pid options p1 = Some (Inl (pid, Some (status mod 256 * 256), p2)) \<and>
     \<not> bit (task_bitmap p2) cur \<and> t_id (tasks (psch p2) cur) = 0 \<and> t_state (tasks (psch p2) cur) = TASK_READY \<and>
     (\<forall>i. i \<noteq> cur \<longrightarrow> tasks (psch p2) i = tasks (psch p1) i) \<and>
     (cr3 (tasks (psch p1) cur) \<noteq> cr3 (tasks (psch p1) 0) \<and> \<not> shared_cr3 cur (psch p1) \<longrightarrow> cr3 (tasks (psch p1) cur) \<in> set (destroyed p2))"
proof -
  note x = exit_internal_spec [OF assms(1-7) refl, where access = access and status = status and wstatus = "status mod 256 * 256" and wcode = CLD_EXITED,
    folded task_exit_def assms(17)]
  have cur': "task_get_current (Some d) (psch p1) = par" using x(5) [OF assms(10)] assms(9) by (simp add: task_get_current_def)
  have par: "parent_id (tasks (psch p1) cur) = t_id (tasks (psch p1) par)" using x(3) [of cur] x(6) [of par] assms(7,11) by simp
  have hand: "can_hand_over (psch p) rq c" using assms(8) by (simp add: can_hand_over_def)
  have nact: "\<not> current_anywhere (psch p1) cur" using x(4) [OF hand] by (simp add: current_anywhere_def list_ex_iff)
  have id: "t_id (tasks (psch p1) cur) \<noteq> t_id (tasks (psch p1) par)" using assms(7,11) by (simp add: x(6))
  have tgt: "task_is_wait_target (psch p1) par cur pid options"
    using par assms(13) by (simp add: task_is_wait_target_def Let_def x(6))
  have first: "\<not> task_is_wait_target (psch p1) par i pid options" if "i < cur" for i
    using assms(12,14) assms(16) [of i] that by (auto simp: task_is_wait_target_def Let_def x(6,7))
  note w = waitpid_dead_child [OF cur' assms(12) x(1) _ nact assms(15) id tgt first, of now]
  have "task_waitpid (Some d) now pid options p1 = Some (Inl (pid, Some (status mod 256 * 256), task_reap_zombie_locked cur p1))"
    using w x(2) assms(13) by (simp add: x(6))
  then show ?thesis by (intro exI [of _ "task_reap_zombie_locked cur p1"]) (simp add: reap_fields sched_simps bit_unset_bit_iff)
qed

theorem exit_status_reaches_parent_witness:
  "\<exists>p2. task_waitpid (Some 1) 0 13 0 (task_exit (Some 0) False 7 (demo_proc True)) = Some (Inl (13, Some 1792, p2)) \<and> t_id (tasks (psch p2) 3) = 0"
proof -
  note d = demo_proc_inv [of True] demo_proc_fields
  have "parent_id (tasks (psch (demo_proc True)) 3) \<noteq> t_id (tasks (psch (demo_proc True)) 3)" by (simp add: d)
  moreover have "parent_id (tasks (psch (demo_proc True)) 3) = t_id (tasks (psch (demo_proc True)) 2)" by (simp add: d)
  moreover have "to_int (t_id (tasks (psch (demo_proc True)) i)) \<noteq> 13 \<and> to_int (tgid (tasks (psch (demo_proc True)) i)) \<noteq> 13" if "i \<noteq> 3" for i
    using that by (simp add: demo_proc_def demo_psched_def to_int_def)
  ultimately show ?thesis
    using exit_status_reaches_parent [OF d(1-6) _ disjI2 d(13) _ _ _ _ _ _ _ refl, where pid = 13 and options = 0 and access = False and status = 7 and now = 0]
    by (auto simp: d to_int_def MAX_TASKS_def fallback_def)
qed

text \<open>C9: \<open>fork\<close> and the references of the descriptors. With a free slot and a kernel stack, \<open>task_fork\<close> returns the number of a new ready
  task, a child of the caller that is queued once, leaving the other tasks and the queues' invariant as they were; the child has a copy of
  the descriptors. Every open node has one more reference per descriptor, and reaping the child takes them back and closes nothing, but keeps the one
  that was added for the working directory.\<close>

theorem fork_then_reap:
  assumes "task_count (psch p) < MAX_TASKS" and "NOT (task_bitmap p) \<noteq> 0" and "task_get_current cpu (psch p) = par"
    and "sched_inv (psch p) ss rq" and "excl (psch p) rq"
    and "\<And>i. \<not> bit (task_bitmap p) i \<Longrightarrow> i < MAX_TASKS \<Longrightarrow> i \<notin> set ss \<and> (\<forall>c. i \<notin> set (rq c) \<and> current_task (cpus (psch p) c) \<noteq> Some i)"
    and "\<And>n. node_refs p n + MAX_FD + 1 < 2 ^ 32" and "\<And>j n. fd_nodes p (fd_table (pt p par)) j = Some n \<Longrightarrow> 0 < node_refs p n"
    and "q = snd (task_fork cpu (Some sp) ccr p)"
  shows "\<exists>slot c. slot < MAX_TASKS \<and> \<not> bit (task_bitmap p) slot \<and> task_bitmap q = set_bit slot (task_bitmap p) \<and>
     fst (task_fork cpu (Some sp) ccr p) = to_int (next_id p) \<and>
     t_id (tasks (psch q) slot) = next_id p \<and> parent_id (tasks (psch q) slot) = t_id (tasks (psch p) par) \<and> cr3 (tasks (psch q) slot) = ccr \<and>
     t_state (tasks (psch q) slot) = TASK_READY \<and> sched_inv (psch q) ss (rq(c := rq c @ [slot])) \<and> excl (psch q) (rq(c := rq c @ [slot])) \<and>
     (\<forall>i. i \<noteq> slot \<longrightarrow> t_id (tasks (psch q) i) = t_id (tasks (psch p) i) \<and> t_state (tasks (psch q) i) = t_state (tasks (psch p) i)) \<and>
     fd_nodes q slot = fd_nodes p (fd_table (pt p par)) \<and>
     (\<forall>n. node_refs q n = node_refs p n + length (filter (\<lambda>j. fd_nodes p (fd_table (pt p par)) j = Some n) [0..<MAX_FD]) +
        (if cwd_node (pt p par) = Some n then 1 else 0)) \<and>
     (let r = task_reap_zombie_locked slot q in
      (\<forall>n. node_refs r n = node_refs p n + (if cwd_node (pt p par) = Some n then 1 else 0)) \<and> closed r = closed p \<and>
      task_bitmap r = task_bitmap p)"
proof -
  obtain slot where s: "find_free_slot p = (Some slot, p\<lparr>task_bitmap := set_bit slot (task_bitmap p)\<rparr>)" "slot < MAX_TASKS" "\<not> bit (task_bitmap p) slot"
    using find_free_slot_bitmap [OF assms(2)] by metis
  note fr = assms(6) [OF s(3,2)]
  have fr': "slot \<notin> set ss" "\<And>c. slot \<notin> set (rq c)" "\<And>c. current_task (cpus (psch p) c) \<noteq> Some slot" using fr by blast+
  note f = fork_spec [OF assms(1) s(1) refl assms(3-5) fr' assms(7,9)]
  let ?u = "\<lambda>n. uses (fd_nodes p (fd_table (pt p par))) [0..<MAX_FD] n"
  obtain c where c: "sched_inv (psch q) ss (rq(c := rq c @ [slot])) \<and> excl (psch q) (rq(c := rq c @ [slot]))" using f(2) by blast
  have us: "?u n \<le> MAX_FD" for n using length_filter_le [of _ "[0..<MAX_FD]"] by simp
  have fd: "fd_nodes q slot = fd_nodes p (fd_table (pt p par))" by (simp add: f(6))
  have b: "node_refs q n < 2 ^ 32" for n using assms(7) [of n] us [of n] by (simp add: f(8))
  have lt: "uses (fd_nodes q slot) [0..<MAX_FD] n < node_refs q n" if "uses (fd_nodes q slot) [0..<MAX_FD] n > 0" for n
  proof -
    from that obtain j where "fd_nodes p (fd_table (pt p par)) j = Some n" unfolding fd by (auto simp: filter_empty_conv)
    from assms(8) [OF this] show ?thesis by (simp add: fd f(8))
  qed
  note dr = fold_drop_fd [OF distinct_upt b lt]
  let ?r = "task_reap_zombie_locked slot q"
  have "node_refs ?r n = node_refs p n + (if cwd_node (pt p par) = Some n then 1 else 0)" for n
    unfolding reap_fields f(7) using dr by (simp add: fd f(8))
  moreover have "closed ?r = closed p" unfolding reap_fields f(7) using dr by (simp add: f(9))
  moreover have "task_bitmap ?r = task_bitmap p"
    unfolding reap_fields f(10) using s(3) by (intro bit_word_eqI) (auto simp: bit_set_bit_iff bit_unset_bit_iff)
  ultimately show ?thesis
    using s(2,3) f(1) f(3,4,10) f(5) fd c by (intro exI [of _ slot] exI [of _ c]) (simp add: f(8) Let_def)
qed

theorem fork_then_reap_witness:
  "let q = snd (task_fork (Some 0) (Some 4096) 9 (demo_proc True)) in node_refs q 80 = 2 \<and>
     (\<exists>slot. \<not> bit (31 :: u64) slot \<and> t_id (tasks (psch q) slot) = 15 \<and>
        node_refs (task_reap_zombie_locked slot q) 80 = 1 \<and> node_refs (task_reap_zombie_locked slot q) 70 = 2)"
proof -
  let ?p = "demo_proc True"
  have cur: "task_get_current (Some 0) (psch ?p) = 3" by (simp add: task_get_current_def demo_proc_fields)
  have p: "task_count (psch ?p) < MAX_TASKS" "task_bitmap ?p = 31" "NOT (task_bitmap ?p) \<noteq> 0" "next_id ?p = 15" "node_refs ?p n = 1"
    "cwd_node (pt ?p 3) = Some 70" "fd_table (pt ?p 3) = 3" "fd_nodes ?p 3 = (\<lambda>_. None)(0 := Some 80)" for n
    by (simp_all add: demo_proc_def demo_psched_def MAX_TASKS_def)
  have cu: "current_task (cpus (psch ?p) c) = Some i \<Longrightarrow> bit (task_bitmap ?p) i" for c i
    by (auto simp: demo_proc_def demo_psched_def bit_numeral_rec split: if_splits)
  have m: "[0..<MAX_FD] = 0 # [Suc 0..<MAX_FD]" by (rule upt_conv_Cons) (simp add: MAX_FD_def)
  have "filter (\<lambda>j. fd_nodes ?p 3 j = Some n) [Suc 0..<MAX_FD] = []" for n unfolding filter_empty_conv by (auto simp: p)
  then have u: "uses (fd_nodes ?p 3) [0..<MAX_FD] n = (if n = 80 then 1 else 0)" for n unfolding m by (simp add: p)
  have i: "sched_inv (psch ?p) [] (\<lambda>_. [])" using demo_proc_inv(1) [of True] by simp
  have h: "i \<notin> set [] \<and> (\<forall>c. i \<notin> set ((\<lambda>_. []) (c :: int)) \<and> current_task (cpus (psch ?p) c) \<noteq> Some i)" if "\<not> bit (task_bitmap ?p) i" for i
    using cu that by auto
  have r: "node_refs ?p n + MAX_FD + 1 < 2 ^ 32" "0 < node_refs ?p n" for n by (simp_all add: p MAX_FD_def)
  let ?q = "snd (task_fork (Some 0) (Some 4096) 9 ?p)"
  obtain slot where "\<not> bit (task_bitmap ?p) slot" "t_id (tasks (psch ?q) slot) = next_id ?p"
    "\<forall>n. node_refs ?q n = node_refs ?p n + uses (fd_nodes ?p (fd_table (pt ?p 3))) [0..<MAX_FD] n + (if cwd_node (pt ?p 3) = Some n then 1 else 0)"
    "\<forall>n. node_refs (task_reap_zombie_locked slot ?q) n = node_refs ?p n + (if cwd_node (pt ?p 3) = Some n then 1 else 0)"
    using fork_then_reap [OF p(1,3) cur i demo_proc_inv(2) h r refl] unfolding Let_def by blast
  then show ?thesis unfolding Let_def p(2,4-7) u by (intro conjI exI [of _ slot]) simp_all
qed

end
