(* ===== verification/Spec2Isabelle.thy ===== *)
theory Spec2Isabelle
  imports Shmfs Futex Input Libgcc Partition Vfs Net Convert FatProps HeapProps VmmProps ShaProps JfsProps ProcProps
begin

text \<open>
  Verification of the EterOS kernel: the C code under \<^verbatim>\<open>src/kernel\<close> and \<^verbatim>\<open>src/include\<close> that carries the logic of the system, translated into
  HOL function by function, with the properties that make it correct. File names below are relative to \<^verbatim>\<open>src/\<close>.

  \<^bold>\<open>The system.\<close> EterOS is a monolithic x86-64 kernel. A bitmap allocator hands out physical pages (\<^verbatim>\<open>kernel/mm/pmm.c\<close>); the heap (\<^verbatim>\<open>heap.c\<close>) and the
  four-level page tables (\<^verbatim>\<open>vmm.c\<close>), with copy-on-write for \<^verbatim>\<open>fork\<close>, are built on it. \<^verbatim>\<open>kernel/task.c\<close> keeps the task table, a ready queue per
  processor and one sleep queue, and switches tasks from the timer; semaphores (\<^verbatim>\<open>sem.c\<close>), futexes (\<^verbatim>\<open>futex.c\<close>) and the input queues block and wake
  tasks through it. Files are reached through the VFS (\<^verbatim>\<open>kernel/fs/vfs.c\<close>), which dispatches to FAT32, the journaling file system and shared
  memory objects; FAT32 and the journal reach the disk through the sector cache (\<^verbatim>\<open>bcache.c\<close>) and the partition manager
  (\<^verbatim>\<open>kernel/drivers/disk/partition.c\<close>). The C library of the kernel (\<^verbatim>\<open>string.c\<close>, \<^verbatim>\<open>libgcc.c\<close>), the packet parsers and the hash functions have no state.

  \<^bold>\<open>Theories and sources.\<close>
  \<^item> \<open>Prelude\<close>: integer types, 32- and 64-bit arithmetic with its wrap-around written out, errors, and the lemmas on lists and words that several
    components share. \<open>Dll\<close>: intrusive doubly linked lists as \<open>next\<close>/\<open>prev\<close> functions, and what linking and unlinking a node does to the list they spell.
  \<^item> \<open>Sched\<close> (\<^verbatim>\<open>kernel/task.c\<close>): sleep queue, ready queues, \<open>schedule\<close>, blocking and waking, at the level of pointers. \<open>sched_inv s ss rq\<close> says
    that the pointers spell the sleep queue \<open>ss\<close>, sorted by tick, and the ready queues \<open>rq\<close>; \<open>excl\<close> that no task is current twice or both current and
    queued, \<open>lost\<close> that a ready task is neither queued nor current; \<open>fallback\<close> is the task a processor resorts to, its idle task or slot 0. The lemmas
    give each operation as a change of these lists; the properties are the invariant, round robin, that a ready task runs after a bounded number of ticks, the sleep queue as a sorted list, and the end of the wake-up loop.
  \<^item> \<open>Sync\<close> (\<^verbatim>\<open>include/lock.h\<close>, \<^verbatim>\<open>kernel/sem.c\<close>): the spinlock as a step relation over processors with mutual exclusion by rule induction; semaphores over the scheduler.
    \<open>Futex\<close> (\<^verbatim>\<open>kernel/futex.c\<close>): hash buckets of waiters, \<open>futex_wait\<close> and \<open>futex_wake\<close>.
  \<^item> \<open>Proc\<close>, \<open>ProcProps\<close> (\<^verbatim>\<open>kernel/task.c\<close>): the rest of the task table: slots, creation, \<^verbatim>\<open>fork\<close>, \<^verbatim>\<open>clone\<close>, exit, stop, kill, wait and reaping. A record \<open>proc\<close> holds the
    scheduler with the futexes, the other fields of each slot and the descriptor references. Shown: what exit does to the parent, the children and the queues, that an
    exit status reaches the waiting parent, and that fork and reaping balance.
  \<^item> \<open>Pmm\<close> (\<^verbatim>\<open>kernel/mm/pmm.c\<close>): bitmap, reference counts, search by words from the last position; the search is next fit, and the allocator
    refines sets of owned pages. \<open>Heap\<close>, \<open>HeapInv\<close>, \<open>HeapProps\<close> (\<^verbatim>\<open>kernel/mm/heap.c\<close>): headers, footers and segregated free lists in memory; the blocks tile the
    heap, free ones are in exactly one list, neighbours never stay both free; \<open>kmalloc\<close>, \<open>kfree\<close>, \<open>krealloc\<close> as changes of the set of live blocks;
    \<open>heap_store\<close> is what a holder's store does to the headers, nodes and footers it overlaps.
  \<^item> \<open>Vmm\<close> (definitions), \<open>VmmMap\<close> (tables as a tree and the address map it stands for), \<open>VmmUser\<close> (faults and user memory), \<open>VmmTree\<close> (tearing down),
    \<open>VmmFork\<close> (copying), \<open>VmmProps\<close>: \<^verbatim>\<open>kernel/mm/vmm.c\<close>. Mapping changes one page of the map, copy-on-write keeps both address spaces' contents apart, and
    the kernel's checks of user pointers are compared with the pages themselves, huge pages included, where the two checks differ.
  \<^item> \<open>Bcache\<close> (\<^verbatim>\<open>kernel/fs/bcache.c\<close>), \<open>Partition\<close> (\<^verbatim>\<open>kernel/drivers/disk/partition.c\<close>), \<open>Vfs\<close> (\<^verbatim>\<open>kernel/fs/vfs.c\<close>), \<open>Shmfs\<close> (\<^verbatim>\<open>kernel/fs/shmfs.c\<close>).
  \<^item> \<open>Fat32\<close> (definitions), \<open>FatTable\<close>, \<open>FatFile\<close>, \<open>FatDir\<close>, \<open>FatOps\<close>, \<open>FatWrite\<close>, \<open>FatProps\<close>: \<^verbatim>\<open>kernel/fs/fat32.c\<close>. Sectors on disk stand for chains of clusters, bytes of
    files and finite maps from names to entries; the operations are changes of these.
  \<^item> \<open>Jfs\<close>, \<open>JfsInv\<close>, \<open>JfsDir\<close>, \<open>JfsProps\<close>: \<^verbatim>\<open>kernel/fs/jfs.c\<close>. Writing ahead: at every point where the device may stop the target is unchanged or the transaction is in the journal, reading and writing
    files, and the directory operations.
  \<^item> \<open>KString\<close>, \<open>Convert\<close> (\<^verbatim>\<open>kernel/string.c\<close>), \<open>Libgcc\<close> (\<^verbatim>\<open>kernel/libgcc.c\<close>), \<open>Net\<close> (\<^verbatim>\<open>kernel/net/core\<close>, \<^verbatim>\<open>include/net/defs.h\<close>), \<open>Input\<close>
    (\<^verbatim>\<open>kernel/drivers/input/input.c\<close>), \<open>Sha\<close>, \<open>ShaSpec\<close>, \<open>ShaProps\<close> (\<^verbatim>\<open>kernel/crypto/sha256.c\<close>, \<^verbatim>\<open>sha512.c\<close>, against FIPS 180-4).
  \<^item> This theory joins the journaling file system, the cache and the partition manager.

  \<^bold>\<open>Interfaces.\<close> A locale states what a client relies on, its lemmas are proved once, and an interpretation discharges the laws for the model:
  \<open>sector_cache\<close> (\<open>bc\<close>: the cache of \<open>Bcache\<close>, used by both file systems), \<open>page_allocator\<close> (\<open>pa\<close>: \<open>pmm_alloc_page\<close>), \<open>allocator\<close> (\<open>heap\<close>: \<open>kmalloc\<close> and
  \<open>kfree\<close>), \<open>bounded_fifo\<close> (\<open>kq\<close> and \<open>mq\<close>: the two input rings), \<open>block_stream\<close> (\<open>s256\<close> and \<open>s512\<close>: a hash context fed by bytes) and \<open>block_layer\<close>
  (\<open>jb\<close>: the cached blocks of the journaling file system).

  \<^bold>\<open>Conventions.\<close> A struct is a record, a pointer a number or an index, NULL is \<open>None\<close> or 0 as the code uses it. Integers are words, or numbers with \<open>add32\<close>,
  \<open>add64\<close> and the like where the code may wrap. An operation takes and returns the state; a section under a spinlock is one step. Where C is undefined (a
  read outside an object, a signed overflow) the result is \<open>None\<close> or \<open>Inl\<close>, and the properties show that it does not occur. Whether \<^verbatim>\<open>kmalloc\<close>
  succeeds is an argument or a function of the number of calls so far, and the disk is a pair of functions on an abstract device state, so that the
  properties hold for every pattern of failures they do not exclude. Loops over linked data are \<open>partial_function (option)\<close>, and that they end is proved
  from the invariants; the fuel of the other loops is the bound of the source (512 entries, 64 slots, 256 processors, 50 million turns of the wait for
  a TLB shootdown), so it is never the model that runs out.

  \<^bold>\<open>Not modelled.\<close> The system call dispatcher (\<^verbatim>\<open>kernel/arch/x86_64/syscall.c\<close>) and \<^verbatim>\<open>task_exec\<close> with the ELF loader bind the parts together over user
  memory and registers and need a model of the processor state; devfs and procfs, the terminals, the shells and the user programs are formatted text over the
  state of the other parts; the device drivers, interrupt set-up, video and boot code are port and register accesses without a model of the machine;
  the sockets are glue to lwIP, which is not part of the repository, and the signature code is the vendored TweetNaCl. Concurrency is modelled at the
  granularity of the locks: the spinlock itself is a step relation, other code is taken as atomic between \<^verbatim>\<open>spin_lock\<close> and \<^verbatim>\<open>spin_unlock\<close>.
\<close>

section \<open>The journaling file system on a partition of a disk\<close>

text \<open>
  The node that the file system reads and writes is the one of \<open>create_partition_node\<close>: its callbacks are \<open>partition_read\<close> and
  \<open>partition_write\<close> on the partition with the number in its \<open>impl\<close> field. \<open>junk\<close> is the fresh sector buffer of \<open>partition_write\<close>.
\<close>

definition jfs_partition_node ::
  "('d \<Rightarrow> nat \<Rightarrow> u8 list option) \<Rightarrow> ('d \<Rightarrow> nat \<Rightarrow> u8 list \<Rightarrow> bool \<times> 'd) \<Rightarrow> u8 list \<Rightarrow> part_mgr \<Rightarrow> nat \<Rightarrow> 'd jfs_part" where
  "jfs_partition_node rd wr junk m idx =
     \<lparr>jp_read = (\<lambda>d offset. snd (partition_read rd 512 True m (int idx) offset 512 d)),
      jp_write = (\<lambda>d offset buffer. snd (partition_write rd wr 512 (Some junk) m (int idx) offset 512 buffer d)),
      jp_impl = idx, jp_length = mul32 (p_sector_count (partitions m ! idx)) 512\<rparr>"

text \<open>What a sector of the partition holds.\<close>

abbreviation sector_of :: "('d \<Rightarrow> nat \<Rightarrow> u8 list option) \<Rightarrow> partition \<Rightarrow> 'd \<Rightarrow> nat \<Rightarrow> u8 list" where
  "sector_of rd part d b \<equiv> the (rd d (p_start_lba part + b))"

lemma read_sector_of_partition:
  assumes "idx < partition_count m" "part = partitions m ! idx" "Partition.part_ok (rd d) 512 part" "b < p_sector_count part"
  shows "snd (partition_read rd 512 True m (int idx) (512 * b) 512 d) = sector_of rd part d b" "length (sector_of rd part d b) = 512"
    "rd d (p_start_lba part + b) = Some (sector_of rd part d b)"
proof -
  note s = part_sector [OF assms(3,4)]
  show r: "rd d (p_start_lba part + b) = Some (sector_of rd part d b)" "length (sector_of rd part d b) = 512" using s by simp_all
  have "p_sector_count part * 512 < 2 ^ 32" using assms(3) by (simp add: Partition.part_ok_def)
  then have "512 * b + 512 < 2 ^ 32" using assms(4) by simp
  from partition_read_correct [where rd = rd and dev = d, OF assms(1-3) _ this]
  show "snd (partition_read rd 512 True m (int idx) (512 * b) 512 d) = sector_of rd part d b"
    using s(1,3) by (simp add: mult.commute)
qed

lemma write_sector_of_partition:
  assumes "idx < partition_count m" "part = partitions m ! idx" "\<And>d. Partition.part_ok (rd d) 512 part" "disk_laws rd wr 512"
    and "length junk = 512" "b < p_sector_count part" "length x = 512"
  shows "rd (snd (partition_write rd wr 512 (Some junk) m (int idx) (512 * b) 512 x d)) = (rd d)(p_start_lba part + b \<mapsto> x)"
proof -
  have n: "p_sector_count part * 512 < 2 ^ 32" using assms(3) by (simp add: Partition.part_ok_def)
  then have a: "512 * b + 512 < 2 ^ 32" "512 * b < p_sector_count part * 512" "512 = min 512 (p_sector_count part * 512 - 512 * b)"
    using assms(6) by simp_all
  obtain d' where d': "partition_write rd wr 512 (Some junk) m (int idx) (512 * b) 512 x d = (512, d')"
    "part_bytes (rd d') part = overwrite (512 * b) (take 512 x) (part_bytes (rd d) part)"
    "\<forall>l. l < p_start_lba part \<or> p_start_lba part + p_sector_count part \<le> l \<longrightarrow> rd d' l = rd d l"
    using partition_write_bytes [OF assms(1,2,3,4) _ a(1) _ a(2) assms(5) a(3), of x] assms(7) by auto
  let ?xs = "part_sectors (rd d) part"
  have len: "length ?xs = p_sector_count part" by (simp add: part_sectors_def)
  have sec: "length (?xs ! b) = 512" using part_sector(2) [OF assms(3,6)] .
  have c: "concat (?xs[b := x]) = part_bytes (rd d') part"
    using concat_blocks_overwrite [OF part_ok_blocks(1) [OF assms(3)], of b d 0 x] assms(6,7) len sec d'(2)
    by (simp add: overwrite_def part_bytes_def mult.commute)
  have blk: "blocks_of 512 (?xs[b := x])"
    using part_ok_blocks(1) [OF assms(3), of d] assms(7) by (auto simp: blocks_of_def dest!: set_update_subset_insert [THEN subsetD])
  have in_part: "rd d' (p_start_lba part + j) = Some (?xs[b := x] ! j)" if "j < p_sector_count part" for j
    using part_sector(1,3) [OF assms(3) that, of d'] take_drop_concat_blocks [OF blk, of j] that len by (simp add: c)
  have "rd d' l = ((rd d)(p_start_lba part + b \<mapsto> x)) l" for l
  proof (cases "p_start_lba part \<le> l \<and> l < p_start_lba part + p_sector_count part")
    case True
    then obtain j where j: "l = p_start_lba part + j" "j < p_sector_count part" by (metis le_iff_add nat_add_left_cancel_less)
    then show ?thesis using in_part [OF j(2)] part_sector(1) [OF assms(3) j(2), of d] assms(6) len by (auto simp: nth_list_update)
  next
    case False
    then show ?thesis using d'(3) assms(6) by auto
  qed
  then show ?thesis by (simp add: d'(1) fun_eq_iff)
qed

lemma jfs_partition_node_ok:
  assumes "idx < partition_count m" "part = partitions m ! idx" "\<And>d. Partition.part_ok (rd d) 512 part" "disk_laws rd wr 512" "length junk = 512"
  shows "JfsInv.part_ok (jfs_partition_node rd wr junk m idx) (p_sector_count part) (sector_of rd part)"
proof -
  have n: "p_sector_count part * 512 < 2 ^ 32" using assms(3) by (simp add: Partition.part_ok_def)
  have w: "sector_of rd part (snd (partition_write rd wr 512 (Some junk) m (int idx) (512 * b) 512 x d)) = (sector_of rd part d)(b := x)"
    if "b < p_sector_count part" "length x = 512" for b x d
    using write_sector_of_partition [OF assms that] by (simp add: fun_eq_iff)
  show ?thesis
    using n read_sector_of_partition(1,2) [where rd = rd, OF assms(1,2,3)] w by (simp add: JfsInv.part_ok_def jfs_partition_node_def)
qed

text \<open>C27: blocks of the journaling file system on the disk. On a partition of a disk that does not fail, with a cache that agrees with it,
  writing a block through the cache and the partition manager changes exactly the sector of the disk that lies that many sectors after the
  start of the partition; every block is then read back as it was written last; and cache and partition agree again. So the
  theorems about the file system, whose hypothesis is this agreement, hold for it on the modelled partition manager.\<close>

theorem jfs_block_on_disk:
  assumes "idx < partition_count m" and "part = partitions m ! idx" and "\<And>d. Partition.part_ok (rd d) 512 part" and "disk_laws rd wr 512"
    and "length junk = 512" and "p = jfs_partition_node rd wr junk m idx" and "bcache_inv (j_cache s)" and "\<And>n. j_kmalloc s n"
    and "bc.coherent K (j_cache s)" and "\<And>b. b < p_sector_count part \<Longrightarrow> K (of_nat idx, of_nat b) = the (rd (j_dev s) (p_start_lba part + b))"
    and "b < p_sector_count part" and "length x = 512" and "c < p_sector_count part" and "s' = disk_write p b x s"
  shows "rd (j_dev s') = (rd (j_dev s))(p_start_lba part + b \<mapsto> x) \<and>
     jfs_ok p (p_sector_count part) (\<lambda>d i. the (rd d (p_start_lba part + i))) s' \<and>
     (\<exists>s''. disk_read p c s' = Some (if c = b then x else the (rd (j_dev s) (p_start_lba part + c)), s'') \<and>
        jfs_ok p (p_sector_count part) (\<lambda>d i. the (rd d (p_start_lba part + i))) s'' \<and> j_dev s'' = j_dev s')"
proof -
  let ?N = "p_sector_count part"
  have n: "?N * 512 < 2 ^ 32" using assms(3) by (simp add: Partition.part_ok_def)
  have m: "mul32 b 512 = 512 * b" using n assms(11) by (simp add: mul32_def)
  have ok: "jfs_ok p ?N (sector_of rd part) s"
    using jfs_partition_node_ok [OF assms(1-5)] assms(7-10) by (auto simp: jfs_ok_def assms(6) jfs_partition_node_def)
  have dev: "rd (j_dev s') = (rd (j_dev s))(p_start_lba part + b \<mapsto> x)"
    using write_sector_of_partition [OF assms(1-5) assms(11,12)] by (simp add: assms(6,14) disk_write_def jfs_partition_node_def m)
  have ok': "jfs_ok p ?N (sector_of rd part) s'" unfolding assms(14) by (rule disk_write_ok(1) [OF ok assms(11,12)])
  obtain s'' where "disk_read p c s' = Some (sector_of rd part (j_dev s') c, s'')" "jfs_ok p ?N (sector_of rd part) s''" "j_dev s'' = j_dev s'"
    using disk_read_ok [OF ok' assms(13)] by auto
  then show ?thesis using dev ok' by auto
qed

text \<open>A disk in memory: a function from sectors and offsets to bytes, with a partition of four sectors from sector 8 on.\<close>

definition mem_read :: "(nat \<Rightarrow> nat \<Rightarrow> u8) \<Rightarrow> nat \<Rightarrow> u8 list option" where
  "mem_read d l = Some (map (d l) [0..<512])"

definition mem_write :: "(nat \<Rightarrow> nat \<Rightarrow> u8) \<Rightarrow> nat \<Rightarrow> u8 list \<Rightarrow> bool \<times> (nat \<Rightarrow> nat \<Rightarrow> u8)" where
  "mem_write d l b = (True, d(l := (\<lambda>i. b ! i)))"

definition mem_mgr :: part_mgr where
  "mem_mgr = part_mgr_start\<lparr>partitions := (partitions part_mgr_start)[0 := zero_partition\<lparr>p_start_lba := 8, p_sector_count := 4\<rparr>], partition_count := 1\<rparr>"

lemma mem_laws: "disk_laws mem_read mem_write 512"
proof -
  have "map (\<lambda>i. b ! i) [0..<512] = b" if "length b = 512" for b :: "u8 list" using map_nth [of b] that by simp
  then show ?thesis by (auto simp: disk_laws_def mem_read_def mem_write_def)
qed

lemma mem_part: "partitions mem_mgr ! 0 = zero_partition\<lparr>p_start_lba := 8, p_sector_count := 4\<rparr>" "partition_count mem_mgr = 1"
  "Partition.part_ok (mem_read d) 512 (partitions mem_mgr ! 0)"
  by (auto simp: mem_mgr_def part_mgr_start_def zero_partition_def Partition.part_ok_def mem_read_def)

definition mem_state :: "(nat \<Rightarrow> nat \<Rightarrow> u8) jfs" where
  "mem_state = \<lparr>j_cache = bcache_init True \<lparr>bcache = None, bcache_lock = False, access_counter = 0\<rparr>, j_dev = (\<lambda>_ _. 0), j_sb = demo_sb, current_tx_id = 1,
     jfs_next_free_block = 0, next_inode = 1, jfs_inode_mode = (\<lambda>_. 0), jfs_inode_uid = (\<lambda>_. 0), jfs_inode_gid = (\<lambda>_. 0), j_kmalloc = (\<lambda>_. True), j_allocs = 0\<rparr>"

theorem jfs_block_on_disk_witness:
  "let s' = disk_write (jfs_partition_node mem_read mem_write (replicate 512 0) mem_mgr 0) 2 (replicate 512 7) mem_state in
   mem_read (j_dev s') 10 = Some (replicate 512 7) \<and> mem_read (j_dev s') 11 = Some (replicate 512 0)"
proof -
  let ?s' = "disk_write (jfs_partition_node mem_read mem_write (replicate 512 0) mem_mgr 0) 2 (replicate 512 7) mem_state"
  have K: "bc.coherent K (j_cache mem_state)" for K
    by (auto simp: bc.coherent_def mem_state_def bcache_init_def cached_def2 slot_of_def be_match_def zero_entry_def find_Some_iff split: option.splits)
  have i: "bcache_inv (j_cache mem_state)" using bcache_inv_init [of True] by (simp add: mem_state_def)
  have d: "j_dev mem_state = (\<lambda>_ _. 0)" "\<And>n. j_kmalloc mem_state n" by (simp_all add: mem_state_def)
  have z: "map (\<lambda>_. 0) [0..<512] = replicate 512 (0 :: u8)" by (simp add: map_replicate_trivial)
  have "mem_read (j_dev ?s') = (mem_read (j_dev mem_state))(p_start_lba (partitions mem_mgr ! 0) + 2 \<mapsto> replicate 512 7)"
    using jfs_block_on_disk [OF _ refl mem_part(3) mem_laws _ refl i d(2) K [of "\<lambda>_. map (\<lambda>_. 0) [0..<512]"] _ _ _ _ refl, where b = 2 and c = 2]
    by (simp add: mem_part(1,2) mem_read_def d(1))
  then have r: "mem_read (j_dev ?s') = (mem_read (\<lambda>_ _. 0))(10 \<mapsto> replicate 512 7)" by (simp add: mem_part(1) d(1))
  show ?thesis unfolding Let_def r by (simp add: mem_read_def z)
qed

end
